(* ===== verification/Prelude.thy ===== *)
theory Prelude
  imports Main "HOL-Library.Word" "HOL-Library.Monad_Syntax"
begin

text \<open>
  Shared vocabulary of the development: the machine integer types of the C code, the
  lemma collections the component theories extend, bit arrays (the representation of the
  page bitmaps of \<^verbatim>\<open>pmm.c\<close>, \<^verbatim>\<open>pool.c\<close> and \<^verbatim>\<open>mm/shm.c\<close>), the first-fit scan these three
  files share, and singly linked lists threaded through a store.

  Conventions. A C function that can leave the defined behaviour of the language (an access
  outside an array, a dereference of a pointer to no object) or that may not return is a
  function into \<open>option\<close>; \<open>None\<close> is that outcome and nothing else. Error codes and null
  results are ordinary values. A null pointer is \<open>0\<close>. Spinlocks protect code that is
  modelled as one atomic step, so acquiring and releasing them leaves no trace in the state.
\<close>

unbundle bit_operations_syntax

type_synonym u8 = "8 word"
type_synonym u16 = "16 word"
type_synonym u32 = "32 word"
type_synonym u64 = "64 word"

named_theorems bits_simps "rewrite rules for bit arrays"
named_theorems chain_simps "rewrite rules for linked lists"

abbreviation PAGE_SIZE :: u64 where
  "PAGE_SIZE \<equiv> 0x1000"

section \<open>Words\<close>

lemma unat_add_nowrap:
  fixes a b :: "'a::len word"
  assumes "unat a + unat b < 2 ^ LENGTH('a)"
  shows "unat (a + b) = unat a + unat b"
  using assms by (simp add: unat_word_ariths)

lemma unat_mult_nowrap:
  fixes a b :: "'a::len word"
  assumes "unat a * unat b < 2 ^ LENGTH('a)"
  shows "unat (a * b) = unat a * unat b"
  using assms by (simp add: unat_word_ariths)

lemma unat_of_nat_id:
  assumes "n < 2 ^ LENGTH('a::len)"
  shows "unat (of_nat n :: 'a word) = n"
  using assms by (simp add: unat_of_nat take_bit_nat_eq_self)

lemma unat_lt64 [simp]: "unat (x :: u64) < 18446744073709551616"
  using unsigned_less [of x, where 'a = nat] by simp

lemma mod_shift_inj:
  fixes a k j m :: nat
  assumes "(a + k) mod m = (a + j) mod m" "k < m" "j < m"
  shows "k = j"
proof -
  have "x = y" if "(a + x) mod m = (a + y) mod m" "y < m" "x \<le> y" for x y
  proof (rule ccontr)
    assume "x \<noteq> y"
    with that have "0 < y - x" "y - x < m" by auto
    moreover have "m dvd (a + y) - (a + x)" using mod_eq_dvd_iff_nat [of "a + x" "a + y" m] that by auto
    ultimately show False using nat_dvd_not_less by auto
  qed
  then show ?thesis using assms by (metis nat_le_linear)
qed

section \<open>Integers in memory\<close>

text \<open>The memory image of an integer, and its value read back, on a little-endian machine.\<close>

definition le16 :: "u16 \<Rightarrow> u8 list" where
  "le16 v = [ucast v, ucast (drop_bit 8 v)]"

definition le32 :: "u32 \<Rightarrow> u8 list" where
  "le32 v = [ucast v, ucast (drop_bit 8 v), ucast (drop_bit 16 v), ucast (drop_bit 24 v)]"

definition rd16 :: "u8 list \<Rightarrow> nat \<Rightarrow> u16" where
  "rd16 b i = ucast (b ! i) OR push_bit 8 (ucast (b ! (i + 1)))"

definition rd32 :: "u8 list \<Rightarrow> nat \<Rightarrow> u32" where
  "rd32 b i = (ucast (b ! i) OR push_bit 8 (ucast (b ! (i + 1)))) OR
     (push_bit 16 (ucast (b ! (i + 2))) OR push_bit 24 (ucast (b ! (i + 3))))"

lemma rd16_le16 [simp]: "ucast (ucast v :: u8) OR push_bit 8 (ucast (ucast (drop_bit 8 v) :: u8)) = (v :: u16)"
  by (rule bit_eqI) (auto simp: bit_simps)

lemma rd32_le32 [simp]:
  "(ucast (ucast v :: u8) OR push_bit 8 (ucast (ucast (drop_bit 8 v) :: u8))) OR
   (push_bit 16 (ucast (ucast (drop_bit 16 v) :: u8)) OR push_bit 24 (ucast (ucast (drop_bit 24 v) :: u8))) = (v :: u32)"
proof (rule bit_word_eqI)
  fix n
  assume "n < LENGTH(32)"
  then consider "n < 8" | "8 \<le> n" "n < 16" | "16 \<le> n" "n < 24" | "24 \<le> n" "n < 32" by fastforce
  then show "bit ((ucast (ucast v :: u8) OR push_bit 8 (ucast (ucast (drop_bit 8 v) :: u8))) OR
   (push_bit 16 (ucast (ucast (drop_bit 16 v) :: u8)) OR push_bit 24 (ucast (ucast (drop_bit 24 v) :: u8))) :: u32) n = bit v n"
    by cases (simp_all add: bit_simps less_diff_conv2)
qed

lemma length_le [simp]: "length (le16 v) = 2" "length (le32 w) = 4"
  by (simp_all add: le16_def le32_def)

section \<open>Bit arrays\<close>

text \<open>
  A bitmap is an array of \<open>w\<close>-bit words; entry \<open>i\<close> is bit \<open>i mod w\<close> of word \<open>i div w\<close>.
  Writing outside the array is undefined behaviour, hence \<open>None\<close>.
\<close>

definition bits_test :: "'w::len word list \<Rightarrow> nat \<Rightarrow> bool" where
  "bits_test bm i = bit (bm ! (i div LENGTH('w))) (i mod LENGTH('w))"

definition bits_set :: "'w::len word list \<Rightarrow> nat \<Rightarrow> 'w word list option" where
  "bits_set bm i =
     (let k = i div LENGTH('w) in
      if k < length bm then Some (bm[k := (bm ! k) OR push_bit (i mod LENGTH('w)) 1]) else None)"

definition bits_clear :: "'w::len word list \<Rightarrow> nat \<Rightarrow> 'w word list option" where
  "bits_clear bm i =
     (let k = i div LENGTH('w) in
      if k < length bm then Some (bm[k := (bm ! k) AND NOT (push_bit (i mod LENGTH('w)) 1)])
      else None)"

text \<open>The loops that set or clear the bits of a sequence of indices, in order.\<close>

fun bits_set_all :: "'w::len word list \<Rightarrow> nat list \<Rightarrow> 'w word list option" where
  "bits_set_all bm [] = Some bm"
| "bits_set_all bm (i # is) = bits_set bm i \<bind> (\<lambda>bm'. bits_set_all bm' is)"

fun bits_clear_all :: "'w::len word list \<Rightarrow> nat list \<Rightarrow> 'w word list option" where
  "bits_clear_all bm [] = Some bm"
| "bits_clear_all bm (i # is) = bits_clear bm i \<bind> (\<lambda>bm'. bits_clear_all bm' is)"

lemma div_mod_eq_iff:
  fixes i j w :: nat
  shows "(i div w = j div w \<and> i mod w = j mod w) \<longleftrightarrow> i = j"
  by (metis div_mult_mod_eq)

lemma bits_set_Some:
  fixes bm :: "'w::len word list"
  assumes "i < LENGTH('w) * length bm"
  shows "\<exists>bm'. bits_set bm i = Some bm'"
  using assms by (simp add: bits_set_def Let_def less_mult_imp_div_less mult.commute)

lemma bits_clear_Some:
  fixes bm :: "'w::len word list"
  assumes "i < LENGTH('w) * length bm"
  shows "\<exists>bm'. bits_clear bm i = Some bm'"
  using assms by (simp add: bits_clear_def Let_def less_mult_imp_div_less mult.commute)

lemma bits_set_length [bits_simps]: "bits_set bm i = Some bm' \<Longrightarrow> length bm' = length bm"
  by (auto simp: bits_set_def Let_def split: if_splits)

lemma bits_clear_length [bits_simps]: "bits_clear bm i = Some bm' \<Longrightarrow> length bm' = length bm"
  by (auto simp: bits_clear_def Let_def split: if_splits)

lemma bits_set_test:
  fixes bm :: "'w::len word list"
  assumes "bits_set bm i = Some bm'"
  shows "bits_test bm' j \<longleftrightarrow> j = i \<or> bits_test bm j"
proof -
  let ?w = "LENGTH('w)"
  from assms have k: "i div ?w < length bm"
    and bm': "bm' = bm[i div ?w := (bm ! (i div ?w)) OR push_bit (i mod ?w) 1]"
    by (auto simp: bits_set_def Let_def split: if_splits)
  show ?thesis
  proof (cases "j div ?w = i div ?w")
    case True
    then have "bits_test bm' j \<longleftrightarrow> j mod ?w = i mod ?w \<or> bits_test bm j"
      using k by (auto simp: bm' bits_test_def bit_simps)
    with True show ?thesis using div_mod_eq_iff [of j ?w i] by auto
  next
    case False
    then show ?thesis by (auto simp: bm' bits_test_def)
  qed
qed

lemma bits_clear_test:
  fixes bm :: "'w::len word list"
  assumes "bits_clear bm i = Some bm'"
  shows "bits_test bm' j \<longleftrightarrow> j \<noteq> i \<and> bits_test bm j"
proof -
  let ?w = "LENGTH('w)"
  from assms have k: "i div ?w < length bm"
    and bm': "bm' = bm[i div ?w := (bm ! (i div ?w)) AND NOT (push_bit (i mod ?w) 1)]"
    by (auto simp: bits_clear_def Let_def split: if_splits)
  show ?thesis
  proof (cases "j div ?w = i div ?w")
    case True
    then have "bits_test bm' j \<longleftrightarrow> j mod ?w \<noteq> i mod ?w \<and> bits_test bm j"
      using k by (auto simp: bm' bits_test_def bit_simps)
    with True show ?thesis using div_mod_eq_iff [of j ?w i] by auto
  next
    case False
    then show ?thesis by (auto simp: bm' bits_test_def)
  qed
qed

lemma bits_set_all_spec:
  fixes bm :: "'w::len word list"
  assumes "\<forall>i\<in>set is. i < LENGTH('w) * length bm"
  shows "\<exists>bm'. bits_set_all bm is = Some bm' \<and> length bm' = length bm \<and>
           (\<forall>j. bits_test bm' j \<longleftrightarrow> j \<in> set is \<or> bits_test bm j)"
  using assms
proof (induction "is" arbitrary: bm)
  case Nil
  then show ?case by simp
next
  case (Cons i "is")
  from Cons.prems obtain b where b: "bits_set bm i = Some b"
    using bits_set_Some [of i bm] by auto
  then have len: "length b = length bm" by (rule bits_set_length)
  with Cons.prems have "\<forall>k\<in>set is. k < LENGTH('w) * length b" by simp
  from Cons.IH [OF this] show ?case
    using b len bits_set_test [OF b] by auto
qed

lemma bits_clear_all_spec:
  fixes bm :: "'w::len word list"
  assumes "\<forall>i\<in>set is. i < LENGTH('w) * length bm"
  shows "\<exists>bm'. bits_clear_all bm is = Some bm' \<and> length bm' = length bm \<and>
           (\<forall>j. bits_test bm' j \<longleftrightarrow> j \<notin> set is \<and> bits_test bm j)"
  using assms
proof (induction "is" arbitrary: bm)
  case Nil
  then show ?case by simp
next
  case (Cons i "is")
  from Cons.prems obtain b where b: "bits_clear bm i = Some b"
    using bits_clear_Some [of i bm] by auto
  then have len: "length b = length bm" by (rule bits_clear_length)
  with Cons.prems have "\<forall>k\<in>set is. k < LENGTH('w) * length b" by simp
  from Cons.IH [OF this] show ?case
    using b len bits_clear_test [OF b] by auto
qed

lemma bits_set_all_oob:
  fixes bm :: "'w::len word list"
  assumes "i \<in> set is" "LENGTH('w) * length bm \<le> i"
  shows "bits_set_all bm is = None"
  using assms
proof (induction "is" arbitrary: bm)
  case (Cons k "is")
  show ?case
  proof (cases "bits_set bm k")
    case (Some b)
    have "k \<noteq> i"
    proof
      assume "k = i"
      with Some have "i div LENGTH('w) < length bm"
        by (auto simp: bits_set_def Let_def split: if_splits)
      then have "i < length bm * LENGTH('w)" by (simp add: div_less_iff_less_mult)
      with Cons.prems show False by (simp add: mult.commute)
    qed
    with Cons Some show ?thesis using bits_set_length [OF Some] by auto
  qed simp
qed simp

lemma bits_clear_all_oob:
  fixes bm :: "'w::len word list"
  assumes "i \<in> set is" "LENGTH('w) * length bm \<le> i"
  shows "bits_clear_all bm is = None"
  using assms
proof (induction "is" arbitrary: bm)
  case (Cons k "is")
  show ?case
  proof (cases "bits_clear bm k")
    case (Some b)
    have "k \<noteq> i"
    proof
      assume "k = i"
      with Some have "i div LENGTH('w) < length bm"
        by (auto simp: bits_clear_def Let_def split: if_splits)
      then have "i < length bm * LENGTH('w)" by (simp add: div_less_iff_less_mult)
      with Cons.prems show False by (simp add: mult.commute)
    qed
    with Cons Some show ?thesis using bits_clear_length [OF Some] by auto
  qed simp
qed simp

section \<open>The first-fit scan\<close>

text \<open>
  The loop of \<^verbatim>\<open>pmm_alloc_pages\<close>, \<^verbatim>\<open>pool_find_free_region\<close> and \<^verbatim>\<open>shm_find_free_region\<close>: \<open>n\<close>
  entries are left to visit from \<open>i\<close> on, \<open>found\<close> free ones in a row have been seen, the
  first of them at \<open>start\<close>.
\<close>

fun scan_run :: "(nat \<Rightarrow> bool) \<Rightarrow> nat \<Rightarrow> nat \<Rightarrow> nat \<Rightarrow> nat \<Rightarrow> nat \<Rightarrow> nat option" where
  "scan_run used want 0 i found start = None"
| "scan_run used want (Suc n) i found start =
     (if \<not> used i then
        (let start' = (if found = 0 then i else start) in
         if Suc found = want then Some start'
         else scan_run used want n (Suc i) (Suc found) start')
      else scan_run used want n (Suc i) 0 start)"

definition free_run :: "(nat \<Rightarrow> bool) \<Rightarrow> nat \<Rightarrow> nat \<Rightarrow> bool" where
  "free_run used want s \<longleftrightarrow> (\<forall>j < want. \<not> used (s + j))"

text \<open>
  The loop invariant: the last \<open>found\<close> entries are free and start at \<open>start\<close>, the run cannot
  be extended to the left, and no run of the wanted length ends before \<open>i\<close>.
\<close>

definition scan_inv :: "(nat \<Rightarrow> bool) \<Rightarrow> nat \<Rightarrow> nat \<Rightarrow> nat \<Rightarrow> nat \<Rightarrow> bool" where
  "scan_inv used want i found start \<longleftrightarrow>
     found < want \<and> found \<le> i \<and> (0 < found \<longrightarrow> start + found = i) \<and>
     (\<forall>j. i - found \<le> j \<and> j < i \<longrightarrow> \<not> used j) \<and>
     (found < i \<longrightarrow> used (i - found - 1)) \<and>
     (\<forall>s. s + want \<le> i \<longrightarrow> \<not> free_run used want s)"

lemma scan_inv_used:
  assumes "scan_inv used want i found start" "used i"
  shows "scan_inv used want (Suc i) 0 start"
proof -
  have "\<not> free_run used want s" if "s + want \<le> Suc i" for s
  proof (cases "s + want \<le> i")
    case True
    with assms(1) show ?thesis by (simp add: scan_inv_def)
  next
    case False
    with that assms have "s + (want - 1) = i" "0 < want" by (auto simp: scan_inv_def)
    with assms(2) show ?thesis
      by (metis diff_less free_run_def less_one)
  qed
  with assms show ?thesis by (auto simp: scan_inv_def)
qed

lemma scan_inv_free:
  assumes "scan_inv used want i found start" "\<not> used i" "Suc found \<noteq> want"
  shows "scan_inv used want (Suc i) (Suc found) (if found = 0 then i else start)"
proof -
  have "\<not> free_run used want s" if "s + want \<le> Suc i" for s
  proof (cases "s + want \<le> i")
    case True
    with assms(1) show ?thesis by (simp add: scan_inv_def)
  next
    case False
    with that have s: "s + want = Suc i" by simp
    from assms(1,3) have want: "Suc found < want" and lt: "found \<le> i"
      by (auto simp: scan_inv_def)
    with s have "found < i" by simp
    with assms(1) have "used (i - found - 1)" by (simp add: scan_inv_def)
    moreover have "i - found - 1 = s + (want - found - 2)" using s want \<open>found < i\<close> by simp
    moreover have "want - found - 2 < want" using want by simp
    ultimately show ?thesis unfolding free_run_def by metis
  qed
  moreover have "\<not> used j" if "i - found \<le> j" "j < Suc i" for j
    using that assms by (cases "j = i") (auto simp: scan_inv_def)
  ultimately show ?thesis
    using assms by (auto simp: scan_inv_def)
qed

lemma scan_inv_hit:
  assumes "scan_inv used want i found start" "\<not> used i" "Suc found = want"
  shows "free_run used want (if found = 0 then i else start)"
    and "(if found = 0 then i else start) + want = Suc i"
proof -
  let ?s = "if found = 0 then i else start"
  show eq: "?s + want = Suc i" using assms by (auto simp: scan_inv_def)
  have "\<not> used (?s + j)" if "j < want" for j
  proof (cases "?s + j = i")
    case False
    with that eq have "?s + j < i" by simp
    moreover have "i - found \<le> ?s + j" using eq assms(3) by simp
    ultimately show ?thesis using assms(1) unfolding scan_inv_def by blast
  qed (use assms(2) in simp)
  then show "free_run used want ?s" by (simp add: free_run_def)
qed

lemma scan_run_inv:
  assumes "scan_inv used want i found start"
  shows "case scan_run used want n i found start of
      None \<Rightarrow> (\<forall>s. s + want \<le> i + n \<longrightarrow> \<not> free_run used want s)
    | Some s \<Rightarrow> s + want \<le> i + n \<and> free_run used want s \<and>
        (\<forall>s'. s' < s \<longrightarrow> \<not> free_run used want s')"
  using assms
proof (induction n arbitrary: i found start)
  case 0
  then show ?case by (simp add: scan_inv_def)
next
  case (Suc n)
  consider (used) "used i" | (hit) "\<not> used i" "Suc found = want"
    | (cont) "\<not> used i" "Suc found \<noteq> want" by blast
  then show ?case
  proof cases
    case used
    with Suc.IH [OF scan_inv_used [OF Suc.prems used]] show ?thesis by (simp split: option.splits)
  next
    case hit
    note h = scan_inv_hit [OF Suc.prems hit]
    have "\<not> free_run used want s'" if "s' < (if found = 0 then i else start)" for s'
      using that h(2) Suc.prems by (auto simp: scan_inv_def)
    with hit h show ?thesis by (auto simp: Let_def)
  next
    case cont
    with Suc.IH [OF scan_inv_free [OF Suc.prems cont]] show ?thesis
      by (cases "found = 0") (simp_all add: Let_def split: option.splits)
  qed
qed

lemma scan_inv_start: "0 < want \<Longrightarrow> scan_inv used want 0 0 0"
  by (simp add: scan_inv_def)

text \<open>The scan from the beginning is first fit: the lowest run, found whenever one exists.\<close>

lemma scan_run_Some:
  assumes "scan_run used want n 0 0 0 = Some s" "0 < want"
  shows "s + want \<le> n" "free_run used want s" "\<And>s'. s' < s \<Longrightarrow> \<not> free_run used want s'"
  using scan_run_inv [OF scan_inv_start [OF assms(2)], where used = used and n = n] assms(1) by auto

lemma scan_run_None:
  assumes "scan_run used want n 0 0 0 = None" "0 < want" "s + want \<le> n"
  shows "\<not> free_run used want s"
  using scan_run_inv [OF scan_inv_start [OF assms(2)], where used = used and n = n] assms by auto

section \<open>Linked lists\<close>

text \<open>
  \<open>chain nxt p xs\<close>: following \<open>nxt\<close> from \<open>p\<close> visits the objects \<open>xs\<close> and ends with the null
  pointer. \<open>queue\<close> adds the tail pointer of a queue with head and tail.
\<close>

fun chain :: "(u64 \<Rightarrow> u64) \<Rightarrow> u64 \<Rightarrow> u64 list \<Rightarrow> bool" where
  "chain nxt p [] \<longleftrightarrow> p = 0"
| "chain nxt p (x # xs) \<longleftrightarrow> p = x \<and> x \<noteq> 0 \<and> chain nxt (nxt x) xs"

definition queue :: "(u64 \<Rightarrow> u64) \<Rightarrow> u64 \<Rightarrow> u64 \<Rightarrow> u64 list \<Rightarrow> bool" where
  "queue nxt h t xs \<longleftrightarrow> chain nxt h xs \<and> t = (if xs = [] then 0 else last xs)"

lemma chain_null [chain_simps]: "chain nxt p xs \<Longrightarrow> p = 0 \<longleftrightarrow> xs = []"
  by (cases xs) auto

lemma chain_unique: "chain nxt p xs \<Longrightarrow> chain nxt p ys \<Longrightarrow> xs = ys"
proof (induction xs arbitrary: p ys)
  case Nil
  then show ?case using chain_null by fastforce
next
  case (Cons x xs)
  then obtain ys' where "ys = x # ys'" by (cases ys) auto
  with Cons show ?case by auto
qed

lemma chain_suffix: "chain nxt p (xs @ y # ys) \<Longrightarrow> chain nxt y (y # ys)"
  by (induction xs arbitrary: p) auto

lemma chain_distinct: "chain nxt p xs \<Longrightarrow> distinct xs"
proof (rule ccontr)
  assume c: "chain nxt p xs" and "\<not> distinct xs"
  then obtain as bs cs y where xs: "xs = as @ [y] @ bs @ [y] @ cs" using not_distinct_decomp by blast
  from c have "chain nxt y (y # bs @ y # cs)" unfolding xs by (auto dest: chain_suffix [of nxt p as])
  moreover from c have "chain nxt y (y # cs)"
    unfolding xs using chain_suffix [of nxt p "as @ [y] @ bs" y cs] by simp
  ultimately have "bs @ y # cs = cs" using chain_unique by blast
  then have "length (bs @ y # cs) = length cs" by simp
  then show False by simp
qed

lemma chain_upd [chain_simps]: "x \<notin> set xs \<Longrightarrow> chain (nxt(x := v)) p xs = chain nxt p xs"
  by (induction xs arbitrary: p) auto

text \<open>Appending at the end through the last element.\<close>

lemma chain_snoc:
  assumes "chain nxt p (xs @ [x])" "y \<noteq> 0" "y \<notin> set (xs @ [x])"
  shows "chain (nxt(y := 0, x := y)) p (xs @ [x, y])"
  using assms
proof (induction xs arbitrary: p)
  case (Cons a xs)
  have "distinct (a # xs @ [x])" using chain_distinct [OF Cons.prems(1)] by simp
  with Cons show ?case by auto
qed auto

lemma chain_nonzero: "chain nxt p xs \<Longrightarrow> 0 \<notin> set xs"
  by (induction xs arbitrary: p) auto

lemma queue_tail:
  assumes "queue n h t xs"
  shows "t = 0 \<longleftrightarrow> xs = []" and "xs \<noteq> [] \<Longrightarrow> t \<in> set xs"
proof -
  have "0 \<notin> set xs" using assms chain_nonzero unfolding queue_def by blast
  with assms show "t = 0 \<longleftrightarrow> xs = []" unfolding queue_def by (metis last_in_set)
  show "xs \<noteq> [] \<Longrightarrow> t \<in> set xs" using assms by (auto simp: queue_def)
qed

lemma queue_snoc:
  assumes q: "queue n h t xs" and y: "y \<noteq> 0" "y \<notin> set xs"
  shows "if xs = [] then queue (n(y := 0)) y y [y] else queue (n(y := 0, t := y)) h y (xs @ [y])"
proof (cases "xs = []")
  case False
  then have xs: "xs = butlast xs @ [t]" using q append_butlast_last_id [of xs] by (simp add: queue_def)
  from q have "chain n h (butlast xs @ [t])" using xs by (simp add: queue_def)
  from chain_snoc [OF this y(1)] y(2) xs have "chain (n(y := 0, t := y)) h (xs @ [y])"
    by (metis append.assoc append_Cons append_Nil)
  with False show ?thesis by (simp add: queue_def)
qed (use y in \<open>simp add: queue_def\<close>)

lemma queue_other:
  assumes "queue n h t xs" "\<And>x. x \<in> set xs \<Longrightarrow> m x = n x"
  shows "queue m h t xs"
proof -
  have "chain m h xs" if "chain n h xs" "\<And>x. x \<in> set xs \<Longrightarrow> m x = n x" for h
    using that by (induction xs arbitrary: h) auto
  with assms show ?thesis by (auto simp: queue_def)
qed

text \<open>Relinking an element past a segment cuts the segment out.\<close>

lemma chain_relink:
  assumes "chain nxt p (xs @ x # zs @ ys)" "distinct (xs @ x # zs @ ys)" "chain nxt q ys"
  shows "chain (nxt(x := q)) p (xs @ x # ys)"
  using assms by (induction xs arbitrary: p) (auto simp: chain_upd)

section \<open>Loops that may fail\<close>

text \<open>A counted loop whose body changes the state or faults.\<close>

fun foldM :: "('a \<Rightarrow> 's \<Rightarrow> 's option) \<Rightarrow> 'a list \<Rightarrow> 's \<Rightarrow> 's option" where
  "foldM f [] s = Some s"
| "foldM f (x # xs) s = (case f x s of None \<Rightarrow> None | Some s' \<Rightarrow> foldM f xs s')"

lemma foldM_append:
  "foldM f (xs @ ys) s = (case foldM f xs s of None \<Rightarrow> None | Some s' \<Rightarrow> foldM f ys s')"
  by (induction xs arbitrary: s) (auto split: option.splits)

text \<open>
  A loop whose body relates the states before and after by a reflexive and composable relation
  indexed by what was done.
\<close>

lemma foldM_effect:
  assumes refl: "\<And>s. R {} s s"
    and trans: "\<And>F G s t u. R F s t \<Longrightarrow> R G t u \<Longrightarrow> R (F \<union> G) s u"
    and body: "\<And>x s. x \<in> set xs \<Longrightarrow> P s \<Longrightarrow> \<exists>s'. f x s = Some s' \<and> R (F x) s s' \<and> P s'"
    and P: "P s"
  shows "\<exists>s'. foldM f xs s = Some s' \<and> R (\<Union>x\<in>set xs. F x) s s' \<and> P s'"
  using body P
proof (induction xs arbitrary: s)
  case Nil
  then show ?case using refl by simp
next
  case (Cons x xs)
  from Cons.prems(1) [of x s] Cons.prems(2) obtain t where
    t: "f x s = Some t" "R (F x) s t" "P t" by auto
  from Cons.IH [of t] Cons.prems(1) t(3) obtain u where
    u: "foldM f xs t = Some u" "R (\<Union>x\<in>set xs. F x) t u" "P u" by auto
  from trans [OF t(2) u(2)] t(1) u(1,3) show ?case by simp
qed

end
