(* ===== verification/Pmm.thy ===== *)
theory Pmm
  imports Prelude
begin

text \<open>
  The physical memory manager, \<^verbatim>\<open>src/kernel/kernel/mm/pmm.c\<close>: a bitmap with one bit per 4 KB
  page (1 = in use), built from the boot memory map by \<open>pmm_init\<close> and served by
  \<open>pmm_alloc_page\<close>, \<open>pmm_alloc_pages\<close>, \<open>pmm_free_page\<close> and \<open>pmm_free_pages\<close>. The abstract
  view is the set of free page numbers; the locale \<open>frame_allocator\<close> states what the rest of
  the kernel relies on, and its interpretation proves that the bitmap provides it.
\<close>

unbundle bit_operations_syntax

section \<open>State\<close>

record pmm =
  pmm_bitmap :: "u8 list"
  pmm_total_pages :: u64
  pmm_bitmap_size :: u64

text \<open>The boot information the initialisation reads (\<^verbatim>\<open>boot_info.h\<close>).\<close>

datatype memory_type =
    MEMORY_FREE | MEMORY_RESERVED | MEMORY_RUNTIME | MEMORY_ACPI | MEMORY_NVS
  | MEMORY_MMIO | MEMORY_UNUSABLE | MEMORY_LOADER_DATA

record memory_region =
  Start :: u64
  Size :: u64
  Type :: memory_type

record boot_info =
  KernelAddress :: u64
  KernelMemorySize :: u64
  MemoryRegions :: "memory_region list"

section \<open>Operations\<close>

definition bitmap_set_bit :: "u8 list \<Rightarrow> u64 \<Rightarrow> u8 list option" where
  "bitmap_set_bit bm page_index = bits_set bm (unat page_index)"

definition bitmap_clear_bit :: "u8 list \<Rightarrow> u64 \<Rightarrow> u8 list option" where
  "bitmap_clear_bit bm page_index = bits_clear bm (unat page_index)"

text \<open>The loops \<open>for (p = 0; p < count; p++) bitmap_..._bit(start + p)\<close>; the index wraps.\<close>

definition page_run :: "u64 \<Rightarrow> u64 \<Rightarrow> nat list" where
  "page_run start count = map (\<lambda>p. unat (start + of_nat p)) [0..<unat count]"

text \<open>The inner loop of \<open>pmm_alloc_page\<close>: the lowest zero bit of a byte.\<close>

definition zero_bit :: "u8 \<Rightarrow> nat option" where
  "zero_bit b = find (\<lambda>k. \<not> bit b k) [0..<8]"

text \<open>
  The outer loop: \<open>n\<close> bytes left from byte \<open>i\<close> on. \<open>None\<close> is a read outside the bitmap,
  \<open>Some None\<close> the end of the loop, \<open>Some (Some (i, b))\<close> the byte and bit found.
\<close>

fun pmm_scan :: "u8 list \<Rightarrow> nat \<Rightarrow> nat \<Rightarrow> (nat \<times> nat) option option" where
  "pmm_scan bm 0 i = Some None"
| "pmm_scan bm (Suc n) i =
     (if \<not> i < length bm then None
      else if bm ! i = 0xFF then pmm_scan bm n (Suc i)
      else (case zero_bit (bm ! i) of
              None \<Rightarrow> pmm_scan bm n (Suc i)
            | Some b \<Rightarrow> Some (Some (i, b))))"

definition pmm_alloc_page :: "pmm \<Rightarrow> (u64 \<times> pmm) option" where
  "pmm_alloc_page s =
     do {
       hit \<leftarrow> pmm_scan (pmm_bitmap s) (unat (pmm_bitmap_size s)) 0;
       case hit of
         None \<Rightarrow> Some (0, s)
       | Some (i, b) \<Rightarrow>
           (let page_index = of_nat i * 8 + of_nat b in
            if pmm_total_pages s \<le> page_index then Some (0, s)
            else do {
              bm \<leftarrow> bitmap_set_bit (pmm_bitmap s) page_index;
              Some (page_index * PAGE_SIZE, s\<lparr>pmm_bitmap := bm\<rparr>)
            })
     }"

definition pmm_free_page :: "pmm \<Rightarrow> u64 \<Rightarrow> pmm option" where
  "pmm_free_page s phys_address =
     (if phys_address mod PAGE_SIZE \<noteq> 0 \<or> phys_address = 0 then Some s
      else let page_index = phys_address div PAGE_SIZE in
        if pmm_total_pages s \<le> page_index then Some s
        else do {
          bm \<leftarrow> bitmap_clear_bit (pmm_bitmap s) page_index;
          Some (s\<lparr>pmm_bitmap := bm\<rparr>)
        })"

text \<open>
  \<open>pmm_alloc_pages\<close>: the scan reads bit \<open>i\<close> for every \<open>i < pmm_total_pages\<close>; a bitmap shorter
  than that would be read out of bounds.
\<close>

definition pmm_alloc_pages :: "pmm \<Rightarrow> u64 \<Rightarrow> (u64 \<times> pmm) option" where
  "pmm_alloc_pages s count =
     (if count = 0 then Some (0, s)
      else if count = 1 then pmm_alloc_page s
      else if 8 * length (pmm_bitmap s) < unat (pmm_total_pages s) then None
      else (case scan_run (bits_test (pmm_bitmap s)) (unat count)
                   (unat (pmm_total_pages s)) 0 0 0 of
              None \<Rightarrow> Some (0, s)
            | Some start \<Rightarrow>
                do {
                  bm \<leftarrow> bits_set_all (pmm_bitmap s) (page_run (of_nat start) count);
                  Some (of_nat start * PAGE_SIZE, s\<lparr>pmm_bitmap := bm\<rparr>)
                }))"

definition pmm_free_pages :: "pmm \<Rightarrow> u64 \<Rightarrow> u64 \<Rightarrow> pmm option" where
  "pmm_free_pages s phys_address count =
     (if count = 0 then Some s
      else if count = 1 then pmm_free_page s phys_address
      else if phys_address mod PAGE_SIZE \<noteq> 0 \<or> phys_address = 0 then Some s
      else let start_page = phys_address div PAGE_SIZE in
        if pmm_total_pages s < start_page + count then Some s
        else do {
          bm \<leftarrow> bits_clear_all (pmm_bitmap s) (page_run start_page count);
          Some (s\<lparr>pmm_bitmap := bm\<rparr>)
        })"

section \<open>Initialisation\<close>

text \<open>Loader data becomes free memory.\<close>

definition reclaim_loader_data :: "memory_region \<Rightarrow> memory_region" where
  "reclaim_loader_data r = (if Type r = MEMORY_LOADER_DATA then r\<lparr>Type := MEMORY_FREE\<rparr> else r)"

definition highest_address :: "memory_region list \<Rightarrow> u64" where
  "highest_address rs =
     fold (\<lambda>r h. let region_end = Start r + Size r in if h < region_end then region_end else h) rs 0"

text \<open>The search for a place for the bitmap: the first region for which a case applies.\<close>

fun place_bitmap :: "u64 \<Rightarrow> u64 \<Rightarrow> u64 \<Rightarrow> memory_region list \<Rightarrow> u64" where
  "place_bitmap kernel_start kernel_end bsize [] = 0"
| "place_bitmap kernel_start kernel_end bsize (r # rs) =
     (let reg_end = Start r + Size r in
      if Type r = MEMORY_FREE \<and> bsize \<le> Size r then
        (if \<not> (Start r < kernel_end \<and> kernel_start < reg_end) then Start r
         else if kernel_end + bsize \<le> reg_end then kernel_end
         else if Start r + bsize \<le> kernel_start \<and> kernel_start < reg_end then Start r
         else place_bitmap kernel_start kernel_end bsize rs)
      else place_bitmap kernel_start kernel_end bsize rs)"

fun clear_regions :: "u8 list \<Rightarrow> memory_region list \<Rightarrow> u8 list option" where
  "clear_regions bm [] = Some bm"
| "clear_regions bm (r # rs) =
     do {
       bm' \<leftarrow> (if Type r = MEMORY_FREE
               then bits_clear_all bm (page_run (Start r div PAGE_SIZE) (Size r div PAGE_SIZE))
               else Some bm);
       clear_regions bm' rs
     }"

definition pages_of :: "u64 \<Rightarrow> u64" where
  "pages_of bytes = (bytes + PAGE_SIZE - 1) div PAGE_SIZE"

text \<open>The region list after the first loop, the bitmap's size and its place.\<close>

definition boot_regions :: "boot_info \<Rightarrow> memory_region list" where
  "boot_regions bi = map reclaim_loader_data (MemoryRegions bi)"

definition boot_bsize :: "boot_info \<Rightarrow> u64" where
  "boot_bsize bi =
     (let total = highest_address (boot_regions bi) div PAGE_SIZE
      in if total mod 8 \<noteq> 0 then total div 8 + 1 else total div 8)"

definition boot_place :: "boot_info \<Rightarrow> u64" where
  "boot_place bi = place_bitmap (KernelAddress bi) (KernelAddress bi + KernelMemorySize bi)
     (boot_bsize bi) (boot_regions bi)"

text \<open>\<open>Halt\<close> is the endless loop \<open>for(;;);\<close> after a fatal message.\<close>

datatype init_result = Halt | Ready pmm u64

definition pmm_init :: "boot_info \<Rightarrow> init_result option" where
  "pmm_init bi =
     (if MemoryRegions bi = [] then Some Halt
      else if boot_place bi = 0 then Some Halt
      else do {
        bm1 \<leftarrow> clear_regions (replicate (unat (boot_bsize bi)) 0xFF) (boot_regions bi);
        bm2 \<leftarrow> bits_set_all bm1
                (page_run (KernelAddress bi div PAGE_SIZE) (pages_of (KernelMemorySize bi)));
        bm3 \<leftarrow> bits_set_all bm2
                (page_run (boot_place bi div PAGE_SIZE) (pages_of (boot_bsize bi)));
        Some (Ready
          \<lparr>pmm_bitmap = bm3,
           pmm_total_pages = highest_address (boot_regions bi) div PAGE_SIZE,
           pmm_bitmap_size = boot_bsize bi\<rparr>
          (boot_place bi))
      })"

section \<open>Abstraction and invariant\<close>

definition pmm_wf :: "pmm \<Rightarrow> bool" where
  "pmm_wf s \<longleftrightarrow>
     length (pmm_bitmap s) = unat (pmm_bitmap_size s) \<and>
     unat (pmm_bitmap_size s) = (unat (pmm_total_pages s) + 7) div 8 \<and>
     unat (pmm_total_pages s) \<le> 2 ^ 52"

definition free_pages :: "pmm \<Rightarrow> nat set" where
  "free_pages s = {i. i < unat (pmm_total_pages s) \<and> \<not> bits_test (pmm_bitmap s) i}"

lemma finite_free_pages [simp]: "finite (free_pages s)"
  by (simp add: free_pages_def)

lemma pmm_wf_cover: "pmm_wf s \<Longrightarrow> unat (pmm_total_pages s) \<le> 8 * length (pmm_bitmap s)"
  by (simp add: pmm_wf_def)

lemma pmm_wf_update:
  "pmm_wf s \<Longrightarrow> length bm = length (pmm_bitmap s) \<Longrightarrow> pmm_wf (s\<lparr>pmm_bitmap := bm\<rparr>)"
  by (simp add: pmm_wf_def)

section \<open>Scanning for a free page\<close>

lemma zero_bit_Some:
  assumes "zero_bit b = Some k"
  shows "k < 8" "\<not> bit b k" "\<And>j. j < k \<Longrightarrow> bit b j"
  using assms unfolding zero_bit_def find_Some_iff by (auto simp: nth_append)

lemma zero_bit_None:
  assumes "zero_bit b = None" "j < 8"
  shows "bit b j"
  using assms unfolding zero_bit_def find_None_iff by auto

lemma full_byte: "j < 8 \<Longrightarrow> bit (0xFF :: u8) j"
proof -
  assume "j < 8"
  then have "j \<in> {0, 1, 2, 3, 4, 5, 6, 7}" by auto
  then show ?thesis by auto
qed

lemma bits_test_byte: "b < 8 \<Longrightarrow> bits_test (bm :: u8 list) (8 * i + b) = bit (bm ! i) b"
  by (simp add: bits_test_def)

lemma byte_index:
  fixes i j :: nat
  assumes "8 * i \<le> j" "j < 8 * Suc i"
  obtains b where "b < 8" "j = 8 * i + b"
  using assms by (metis add_diff_inverse_nat mult_Suc_right not_less add.commute nat_add_left_cancel_less)

lemma pmm_scan_spec:
  assumes "i + n \<le> length bm"
  shows "case pmm_scan bm n i of
      None \<Rightarrow> False
    | Some None \<Rightarrow> (\<forall>j. 8 * i \<le> j \<and> j < 8 * (i + n) \<longrightarrow> bits_test bm j)
    | Some (Some (k, b)) \<Rightarrow> k < i + n \<and> b < 8 \<and> \<not> bits_test bm (8 * k + b) \<and>
        (\<forall>j. 8 * i \<le> j \<and> j < 8 * k + b \<longrightarrow> bits_test bm j)"
  using assms
proof (induction n arbitrary: i)
  case 0
  then show ?case by auto
next
  case (Suc n)
  then have i: "i < length bm" by simp
  show ?case
  proof (cases "bm ! i = 0xFF \<or> zero_bit (bm ! i) = None")
    case True
    then have step: "pmm_scan bm (Suc n) i = pmm_scan bm n (Suc i)" using i by auto
    have byte: "bits_test bm j" if "8 * i \<le> j" "j < 8 * Suc i" for j
    proof -
      from that obtain b where b: "b < 8" "j = 8 * i + b" by (rule byte_index)
      with True have "bit (bm ! i) b" using full_byte zero_bit_None by metis
      with b show ?thesis by (simp add: bits_test_byte)
    qed
    have ext: "bits_test bm j" if "8 * i \<le> j" "j < m" and "\<forall>j. 8 * Suc i \<le> j \<and> j < m \<longrightarrow> bits_test bm j" for j m
      using that byte by (cases "j < 8 * Suc i") auto
    from Suc.prems have "Suc i + n \<le> length bm" by simp
    from Suc.IH [OF this] show ?thesis unfolding step
      using ext by (auto split: option.splits)
  next
    case False
    then obtain b where b: "zero_bit (bm ! i) = Some b" by auto
    note z = zero_bit_Some [OF b]
    have "bits_test bm j" if "8 * i \<le> j" "j < 8 * i + b" for j
    proof -
      from that z(1) obtain c where "c < 8" "j = 8 * i + c"
        by (metis byte_index add_less_cancel_left less_trans mult_Suc_right add.commute)
      with that z(3) show ?thesis by (simp add: bits_test_byte)
    qed
    with False b z i show ?thesis by (auto simp: bits_test_byte)
  qed
qed

lemma page_index_value:
  assumes "i < 2 ^ 60" "b < 8"
  shows "unat (of_nat i * 8 + of_nat b :: u64) = 8 * i + b"
proof -
  have "of_nat i * 8 + of_nat b = (of_nat (8 * i + b) :: u64)" by simp
  also have "unat \<dots> = 8 * i + b"
    by (rule unat_of_nat_id) (use assms in simp)
  finally show ?thesis .
qed

lemma page_address:
  assumes "p \<le> 2 ^ 52 - 1"
  shows "unat (of_nat p * PAGE_SIZE) = p * 4096"
proof -
  have "unat (of_nat p :: u64) = p" by (rule unat_of_nat_id) (use assms in simp)
  then show ?thesis using assms by (subst unat_mult_nowrap) simp_all
qed

section \<open>Allocation and release of one page\<close>

lemma pmm_alloc_page_none:
  assumes "pmm_wf s" "free_pages s = {}"
  shows "pmm_alloc_page s = Some (0, s)"
proof -
  let ?bm = "pmm_bitmap s" and ?n = "unat (pmm_bitmap_size s)"
  from assms(1) have len: "0 + ?n \<le> length ?bm" by (simp add: pmm_wf_def)
  note spec = pmm_scan_spec [OF len]
  from spec obtain hit where hit: "pmm_scan ?bm ?n 0 = Some hit"
    by (auto split: option.splits)
  show ?thesis
  proof (cases hit)
    case None
    with hit show ?thesis by (simp add: pmm_alloc_page_def)
  next
    case (Some kb)
    obtain k b where kb: "kb = (k, b)" by (cases kb)
    with spec hit Some have sp: "k < ?n" "b < 8" "\<not> bits_test ?bm (8 * k + b)" by auto
    with assms have "unat (pmm_total_pages s) \<le> 8 * k + b"
      by (auto simp: free_pages_def not_less [symmetric])
    moreover have "unat (of_nat k * 8 + of_nat b :: u64) = 8 * k + b"
      using sp assms(1) by (intro page_index_value) (auto simp: pmm_wf_def)
    ultimately have "pmm_total_pages s \<le> of_nat k * 8 + of_nat b"
      by (simp add: word_le_nat_alt)
    with hit Some kb show ?thesis by (simp add: pmm_alloc_page_def Let_def)
  qed
qed

lemma pmm_alloc_page_some:
  assumes wf: "pmm_wf s" and ne: "free_pages s \<noteq> {}"
  defines "p \<equiv> Min (free_pages s)"
  shows "\<exists>s'. pmm_alloc_page s = Some (of_nat p * PAGE_SIZE, s') \<and> pmm_wf s' \<and>
     free_pages s' = free_pages s - {p} \<and> pmm_total_pages s' = pmm_total_pages s"
proof -
  let ?bm = "pmm_bitmap s" and ?n = "unat (pmm_bitmap_size s)" and ?t = "pmm_total_pages s"
  from ne have p: "p \<in> free_pages s" and least: "\<And>q. q \<in> free_pages s \<Longrightarrow> p \<le> q"
    by (auto simp: p_def)
  then have pt: "p < unat ?t" "\<not> bits_test ?bm p" by (auto simp: free_pages_def)
  from wf have len: "0 + ?n \<le> length ?bm" and tn: "unat ?t \<le> 8 * ?n" "unat ?t \<le> 2 ^ 52" "?n < 2 ^ 60"
    by (auto simp: pmm_wf_def)
  note spec = pmm_scan_spec [OF len]
  from spec pt tn obtain k b where hit: "pmm_scan ?bm ?n 0 = Some (Some (k, b))"
    by (fastforce split: option.splits)
  with spec have sp: "k < ?n" "b < 8" "\<not> bits_test ?bm (8 * k + b)"
    "\<forall>j < 8 * k + b. bits_test ?bm j" by auto
  with pt have "8 * k + b \<le> p" by (meson not_le)
  moreover from this sp pt have "p \<le> 8 * k + b" by (intro least) (simp add: free_pages_def)
  ultimately have pk: "8 * k + b = p" by simp
  have idx: "of_nat k * 8 + of_nat b = (of_nat p :: u64)" unfolding pk [symmetric] by simp
  have up: "unat (of_nat p :: u64) = p" by (rule unat_of_nat_id) (use pt tn in simp)
  obtain bm where bm: "bits_set ?bm p = Some bm"
    using bits_set_Some [of p ?bm] pmm_wf_cover [OF wf] pt by auto
  let ?s' = "s\<lparr>pmm_bitmap := bm\<rparr>"
  have "pmm_alloc_page s = Some (of_nat p * PAGE_SIZE, ?s')"
    using hit idx up pt bm
    by (simp add: pmm_alloc_page_def bitmap_set_bit_def Let_def word_le_nat_alt)
  moreover have "pmm_wf ?s'" using bits_set_length [OF bm] wf by (simp add: pmm_wf_update)
  moreover have "free_pages ?s' = free_pages s - {p}"
    by (auto simp: free_pages_def bits_set_test [OF bm])
  ultimately show ?thesis by auto
qed

lemma pmm_free_page_spec:
  assumes wf: "pmm_wf s"
  shows "\<exists>s'. pmm_free_page s a = Some s' \<and> pmm_wf s' \<and> pmm_total_pages s' = pmm_total_pages s \<and>
    free_pages s' =
      (if a \<noteq> 0 \<and> unat a mod 4096 = 0 \<and> unat a div 4096 < unat (pmm_total_pages s)
       then insert (unat a div 4096) (free_pages s) else free_pages s)"
proof -
  let ?p = "unat a div 4096" and ?t = "unat (pmm_total_pages s)"
  have p: "unat (a div PAGE_SIZE) = ?p" by (simp add: unat_div)
  have m: "a mod PAGE_SIZE = 0 \<longleftrightarrow> unat a mod 4096 = 0"
    by (simp add: word_unat_eq_iff unat_mod)
  show ?thesis
  proof (cases "a \<noteq> 0 \<and> unat a mod 4096 = 0 \<and> ?p < ?t")
    case True
    obtain bm where bm: "bits_clear (pmm_bitmap s) ?p = Some bm"
      using bits_clear_Some [of ?p "pmm_bitmap s"] pmm_wf_cover [OF wf] True by auto
    let ?s' = "s\<lparr>pmm_bitmap := bm\<rparr>"
    have "pmm_free_page s a = Some ?s'"
      using True bm m p
      by (simp add: pmm_free_page_def bitmap_clear_bit_def Let_def word_le_nat_alt)
    moreover have "pmm_wf ?s'" using bits_clear_length [OF bm] wf by (simp add: pmm_wf_update)
    moreover have "free_pages ?s' = insert ?p (free_pages s)"
      using True by (auto simp: free_pages_def bits_clear_test [OF bm])
    ultimately show ?thesis using True by auto
  next
    case False
    then have "pmm_free_page s a = Some s"
      using m p by (auto simp: pmm_free_page_def Let_def word_le_nat_alt)
    with False wf show ?thesis by auto
  qed
qed

section \<open>Runs of pages\<close>

lemma set_page_run:
  assumes "unat start + unat count \<le> 2 ^ 64"
  shows "set (page_run start count) = {unat start..<unat start + unat count}"
proof -
  have v: "unat (start + of_nat p) = unat start + p" if "p < unat count" for p
  proof -
    have "unat (of_nat p :: u64) = p"
      by (rule unat_of_nat_id) (use less_trans [OF that unat_lt64] in simp)
    then show ?thesis using that assms by (subst unat_add_nowrap) simp_all
  qed
  have "set (page_run start count) = (\<lambda>p. unat (start + of_nat p)) ` {0..<unat count}"
    by (simp add: page_run_def)
  also have "\<dots> = (\<lambda>p. unat start + p) ` {0..<unat count}"
    by (rule image_cong) (simp_all add: v)
  also have "\<dots> = {unat start..<unat start + unat count}"
    by (simp add: image_add_atLeastLessThan add.commute)
  finally show ?thesis .
qed

lemma free_run_pages:
  assumes "p + n \<le> unat (pmm_total_pages s)"
  shows "free_run (bits_test (pmm_bitmap s)) n p \<longleftrightarrow> {p..<p + n} \<subseteq> free_pages s"
proof
  assume run: "free_run (bits_test (pmm_bitmap s)) n p"
  show "{p..<p + n} \<subseteq> free_pages s"
  proof
    fix j assume j: "j \<in> {p..<p + n}"
    then obtain k where "j = p + k" "k < n"
      by (metis add_less_cancel_left atLeastLessThan_iff le_iff_add)
    with run have "\<not> bits_test (pmm_bitmap s) j" by (simp add: free_run_def)
    with j assms show "j \<in> free_pages s" by (simp add: free_pages_def)
  qed
next
  assume sub: "{p..<p + n} \<subseteq> free_pages s"
  have "\<not> bits_test (pmm_bitmap s) (p + j)" if "j < n" for j
    using that subsetD [OF sub, of "p + j"] by (simp add: free_pages_def)
  then show "free_run (bits_test (pmm_bitmap s)) n p" by (simp add: free_run_def)
qed

definition fits :: "pmm \<Rightarrow> nat \<Rightarrow> nat \<Rightarrow> bool" where
  "fits s n p \<longleftrightarrow> p + n \<le> unat (pmm_total_pages s) \<and> {p..<p + n} \<subseteq> free_pages s"

lemma fits_free_run:
  "fits s n p \<longleftrightarrow> p + n \<le> unat (pmm_total_pages s) \<and> free_run (bits_test (pmm_bitmap s)) n p"
  using free_run_pages [of p n s] by (auto simp: fits_def)

lemma fits_one: "fits s (Suc 0) p \<longleftrightarrow> p \<in> free_pages s"
  by (auto simp: fits_def free_pages_def)

lemma Least_free_page:
  assumes "free_pages s \<noteq> {}"
  shows "(LEAST p. fits s (Suc 0) p) = Min (free_pages s)"
  unfolding fits_one using assms by (intro Least_equality) auto

lemma pmm_alloc_pages_none:
  assumes "pmm_wf s" "1 < unat count" "\<And>p. \<not> fits s (unat count) p"
  shows "pmm_alloc_pages s count = Some (0, s)"
proof -
  have "scan_run (bits_test (pmm_bitmap s)) (unat count) (unat (pmm_total_pages s)) 0 0 0 = None"
  proof (rule ccontr)
    assume "\<not> ?thesis"
    then obtain p where "scan_run (bits_test (pmm_bitmap s)) (unat count)
      (unat (pmm_total_pages s)) 0 0 0 = Some p" by auto
    from scan_run_Some [OF this] assms(2) have "fits s (unat count) p"
      by (simp add: fits_free_run)
    with assms(3) show False by blast
  qed
  moreover have "count \<noteq> 0" "count \<noteq> 1" using assms(2) by auto
  ultimately show ?thesis
    using pmm_wf_cover [OF assms(1)] by (simp add: pmm_alloc_pages_def)
qed

lemma pmm_alloc_pages_some:
  assumes wf: "pmm_wf s" and c: "1 < unat count" and ex: "fits s (unat count) q"
  defines "p \<equiv> (LEAST p. fits s (unat count) p)"
  shows "\<exists>s'. pmm_alloc_pages s count = Some (of_nat p * PAGE_SIZE, s') \<and> pmm_wf s' \<and>
     free_pages s' = free_pages s - {p..<p + unat count} \<and>
     pmm_total_pages s' = pmm_total_pages s"
proof -
  let ?bm = "pmm_bitmap s" and ?t = "unat (pmm_total_pages s)" and ?n = "unat count"
  obtain r where r: "scan_run (bits_test ?bm) ?n ?t 0 0 0 = Some r"
    using scan_run_None [of "bits_test ?bm" ?n ?t q] c ex by (cases "scan_run (bits_test ?bm) ?n ?t 0 0 0")
      (auto simp: fits_free_run)
  from c have n0: "0 < ?n" by simp
  note sr = scan_run_Some [OF r n0]
  have "(LEAST p. fits s ?n p) = r"
    by (rule Least_equality) (use sr in \<open>auto simp: fits_free_run not_less [symmetric]\<close>)
  then have rp: "r = p" by (simp add: p_def)
  from wf have t: "?t \<le> 2 ^ 52" by (simp add: pmm_wf_def)
  with sr(1) have up: "unat (of_nat r :: u64) = r" by (intro unat_of_nat_id) simp
  have run: "set (page_run (of_nat r) count) = {r..<r + ?n}"
    using sr(1) t by (subst set_page_run) (simp_all add: up)
  from bits_set_all_spec [of "page_run (of_nat r) count" ?bm] obtain bm where
    bm: "bits_set_all ?bm (page_run (of_nat r) count) = Some bm" "length bm = length ?bm"
      "\<forall>j. bits_test bm j \<longleftrightarrow> j \<in> {r..<r + ?n} \<or> bits_test ?bm j"
    using pmm_wf_cover [OF wf] sr(1) by (auto simp: run)
  let ?s' = "s\<lparr>pmm_bitmap := bm\<rparr>"
  have "count \<noteq> 0" "count \<noteq> 1" using c by auto
  then have "pmm_alloc_pages s count = Some (of_nat r * PAGE_SIZE, ?s')"
    using pmm_wf_cover [OF wf] r bm(1) by (simp add: pmm_alloc_pages_def)
  moreover have "pmm_wf ?s'" using bm(2) wf by (simp add: pmm_wf_update)
  moreover have "free_pages ?s' = free_pages s - {r..<r + ?n}"
    by (auto simp: free_pages_def bm(3))
  ultimately show ?thesis unfolding rp by auto
qed

text \<open>Both allocators at once: one page is the run of length one.\<close>

lemma pmm_alloc_pages_spec:
  assumes wf: "pmm_wf s" and c: "0 < unat count"
  shows "pmm_alloc_pages s count = Some (0, s) \<and> (\<nexists>p. fits s (unat count) p) \<or>
    (\<exists>p s'. pmm_alloc_pages s count = Some (of_nat p * PAGE_SIZE, s') \<and> fits s (unat count) p \<and>
       (\<forall>q < p. \<not> fits s (unat count) q) \<and> pmm_wf s' \<and>
       free_pages s' = free_pages s - {p..<p + unat count} \<and>
       pmm_total_pages s' = pmm_total_pages s)"
proof (cases "\<exists>p. fits s (unat count) p")
  case False
  show ?thesis
  proof (cases "unat count = 1")
    case True
    then have "count = 1" by (simp add: word_unat_eq_iff)
    moreover from False True have "free_pages s = {}" by (auto simp: fits_one)
    ultimately show ?thesis
      using False pmm_alloc_page_none [OF wf] by (simp add: pmm_alloc_pages_def)
  next
    case one: False
    with False c pmm_alloc_pages_none [OF wf] show ?thesis by auto
  qed
next
  case True
  then obtain q where q: "fits s (unat count) q" ..
  let ?p = "LEAST p. fits s (unat count) p"
  have least: "fits s (unat count) ?p" "\<forall>r < ?p. \<not> fits s (unat count) r"
    using q by (auto intro: LeastI dest: not_less_Least)
  show ?thesis
  proof (cases "unat count = 1")
    case one: True
    then have c1: "count = 1" by (simp add: word_unat_eq_iff)
    from q one have ne: "free_pages s \<noteq> {}" by (auto simp: fits_one)
    let ?m = "Min (free_pages s)"
    from Least_free_page [OF ne] one have m: "?p = ?m" by simp
    have eq: "pmm_alloc_pages s count = pmm_alloc_page s" by (simp add: pmm_alloc_pages_def c1)
    from pmm_alloc_page_some [OF wf ne] obtain s' where
      "pmm_alloc_pages s count = Some (of_nat ?m * PAGE_SIZE, s')" "pmm_wf s'"
      "free_pages s' = free_pages s - {?m}" "pmm_total_pages s' = pmm_total_pages s"
      unfolding eq by blast
    moreover have "{?m..<?m + unat count} = {?m}" using one by auto
    ultimately show ?thesis using least unfolding m by blast
  next
    case one: False
    with c have "1 < unat count" by simp
    from pmm_alloc_pages_some [OF wf this q] least show ?thesis by blast
  qed
qed

lemma pmm_free_pages_spec:
  assumes wf: "pmm_wf s" and c: "0 < unat count" and a: "a \<noteq> 0" "unat a mod 4096 = 0"
    and b: "unat a div 4096 + unat count \<le> unat (pmm_total_pages s)"
  shows "\<exists>s'. pmm_free_pages s a count = Some s' \<and> pmm_wf s' \<and>
    pmm_total_pages s' = pmm_total_pages s \<and>
    free_pages s' = free_pages s \<union> {unat a div 4096..<unat a div 4096 + unat count}"
proof (cases "unat count = 1")
  case True
  then have "count = 1" by (simp add: word_unat_eq_iff)
  then have "pmm_free_pages s a count = pmm_free_page s a" by (simp add: pmm_free_pages_def)
  moreover have "{unat a div 4096..<unat a div 4096 + unat count} = {unat a div 4096}"
    using True by auto
  ultimately show ?thesis using pmm_free_page_spec [OF wf, of a] a b True by auto
next
  case False
  let ?p = "unat a div 4096" and ?t = "unat (pmm_total_pages s)" and ?bm = "pmm_bitmap s"
  have p: "unat (a div PAGE_SIZE) = ?p" by (simp add: unat_div)
  from wf have t: "?t \<le> 2 ^ 52" by (simp add: pmm_wf_def)
  have run: "set (page_run (a div PAGE_SIZE) count) = {?p..<?p + unat count}"
    using b t by (subst set_page_run) (simp_all add: p)
  have sum: "unat (a div PAGE_SIZE + count) = ?p + unat count"
    using b t by (subst unat_add_nowrap) (simp_all add: p)
  from bits_clear_all_spec [of "page_run (a div PAGE_SIZE) count" ?bm] obtain bm where
    bm: "bits_clear_all ?bm (page_run (a div PAGE_SIZE) count) = Some bm" "length bm = length ?bm"
      "\<forall>j. bits_test bm j \<longleftrightarrow> j \<notin> {?p..<?p + unat count} \<and> bits_test ?bm j"
    using pmm_wf_cover [OF wf] b by (auto simp: run)
  let ?s' = "s\<lparr>pmm_bitmap := bm\<rparr>"
  have "count \<noteq> 0" "count \<noteq> 1" using c False by auto
  moreover have "a mod PAGE_SIZE = 0" using a by (simp add: word_unat_eq_iff unat_mod)
  moreover have "\<not> pmm_total_pages s < a div PAGE_SIZE + count"
    using sum b by (simp add: word_less_nat_alt)
  ultimately have "pmm_free_pages s a count = Some ?s'"
    using a bm(1) by (simp add: pmm_free_pages_def Let_def)
  moreover have "pmm_wf ?s'" using bm(2) wf by (simp add: pmm_wf_update)
  moreover have "free_pages ?s' = free_pages s \<union> {?p..<?p + unat count}"
    using b by (auto simp: free_pages_def bm(3))
  ultimately show ?thesis by auto
qed

section \<open>What the rest of the kernel relies on\<close>

text \<open>
  A frame allocator hands out page frames. \<open>frames s\<close> is the set of free frame numbers;
  the result \<open>0\<close> means that no frame is available. Frame 0 is excluded from every promise:
  its address is the error value.
\<close>

locale frame_allocator =
  fixes inv :: "'s \<Rightarrow> bool"
    and frames :: "'s \<Rightarrow> nat set"
    and alloc :: "'s \<Rightarrow> (u64 \<times> 's) option"
    and release :: "'s \<Rightarrow> u64 \<Rightarrow> 's option"
  assumes alloc_total: "inv s \<Longrightarrow> \<exists>a s'. alloc s = Some (a, s')"
    and alloc_inv: "inv s \<Longrightarrow> alloc s = Some (a, s') \<Longrightarrow> inv s'"
    and alloc_zero: "inv s \<Longrightarrow> alloc s = Some (0, s') \<Longrightarrow> frames s' = frames s - {0}"
    and alloc_frame: "inv s \<Longrightarrow> alloc s = Some (a, s') \<Longrightarrow> a \<noteq> 0 \<Longrightarrow>
      4096 dvd unat a \<and> unat a div 4096 \<in> frames s \<and> frames s' = frames s - {unat a div 4096}"
    and release_total: "inv s \<Longrightarrow> \<exists>s'. release s a = Some s'"
    and release_inv: "inv s \<Longrightarrow> release s a = Some s' \<Longrightarrow> inv s'"
    and release_frames: "inv s \<Longrightarrow> release s a = Some s' \<Longrightarrow>
      frames s \<subseteq> frames s' \<and> frames s' \<subseteq> insert (unat a div 4096) (frames s)"
begin

fun alloc_seq :: "nat \<Rightarrow> 's \<Rightarrow> (u64 list \<times> 's) option" where
  "alloc_seq 0 s = Some ([], s)"
| "alloc_seq (Suc n) s =
     do { (a, s') \<leftarrow> alloc s; (as, s'') \<leftarrow> alloc_seq n s'; Some (a # as, s'') }"

lemma alloc_shrinks: "inv s \<Longrightarrow> alloc s = Some (a, s') \<Longrightarrow> frames s' \<subseteq> frames s"
  using alloc_zero alloc_frame by (cases "a = 0") blast+

lemma alloc_seq_frames:
  assumes "inv s" "alloc_seq n s = Some (as, s')"
  shows "inv s' \<and> frames s' \<subseteq> frames s \<and>
    (\<forall>a\<in>set as. a \<noteq> 0 \<longrightarrow> unat a div 4096 \<in> frames s - frames s')"
  using assms
proof (induction n arbitrary: s as)
  case (Suc n)
  from Suc.prems obtain a s1 as' where a: "alloc s = Some (a, s1)"
    and as': "alloc_seq n s1 = Some (as', s')" and as: "as = a # as'"
    by (auto simp: bind_eq_Some_conv)
  from alloc_inv [OF Suc.prems(1) a] have "inv s1" .
  from Suc.IH [OF this as'] alloc_shrinks [OF Suc.prems(1) a] alloc_frame [OF Suc.prems(1) a]
  show ?case unfolding as by auto
qed simp

text \<open>Frames that have been handed out and not released never coincide.\<close>

lemma alloc_seq_distinct:
  assumes "inv s" "alloc_seq n s = Some (as, s')"
  shows "distinct (filter (\<lambda>a. a \<noteq> 0) as)"
  using assms
proof (induction n arbitrary: s as)
  case (Suc n)
  from Suc.prems obtain a s1 as' where a: "alloc s = Some (a, s1)"
    and as': "alloc_seq n s1 = Some (as', s')" and as: "as = a # as'"
    by (auto simp: bind_eq_Some_conv)
  from alloc_inv [OF Suc.prems(1) a] have s1: "inv s1" .
  have "a \<notin> set as'" if "a \<noteq> 0"
    using alloc_frame [OF Suc.prems(1) a that] alloc_seq_frames [OF s1 as'] that by auto
  with Suc.IH [OF s1 as'] as show ?case by simp
qed simp

end

lemma pmm_alloc_page_cases:
  assumes "pmm_wf s" "pmm_alloc_page s = Some (a, s')"
  shows "pmm_wf s' \<and> pmm_total_pages s' = pmm_total_pages s \<and>
    (if a = 0 then free_pages s' = free_pages s - {0} \<and> free_pages s \<subseteq> {0}\<union> free_pages s'
     else 4096 dvd unat a \<and> unat a div 4096 \<in> free_pages s \<and>
       free_pages s' = free_pages s - {unat a div 4096})"
proof (cases "free_pages s = {}")
  case True
  with assms pmm_alloc_page_none show ?thesis by auto
next
  case False
  let ?p = "Min (free_pages s)"
  from pmm_alloc_page_some [OF assms(1) False] assms(2)
  have a: "a = of_nat ?p * PAGE_SIZE" and s': "pmm_wf s'" "free_pages s' = free_pages s - {?p}"
    "pmm_total_pages s' = pmm_total_pages s" by auto
  from False have p: "?p \<in> free_pages s" by simp
  with assms(1) have "?p \<le> 2 ^ 52 - 1" by (auto simp: free_pages_def pmm_wf_def)
  from page_address [OF this] have ua: "unat a = ?p * 4096" by (simp add: a)
  moreover from ua have "a = 0 \<longleftrightarrow> ?p = 0" by (simp add: word_unat_eq_iff)
  ultimately show ?thesis using s' p by auto
qed

interpretation page: frame_allocator pmm_wf free_pages pmm_alloc_page pmm_free_page
proof
  fix s assume wf: "pmm_wf s"
  show "\<exists>a s'. pmm_alloc_page s = Some (a, s')"
    using pmm_alloc_page_none [OF wf] pmm_alloc_page_some [OF wf] by (cases "free_pages s = {}") auto
  fix a show "\<exists>s'. pmm_free_page s a = Some s'" using pmm_free_page_spec [OF wf] by blast
next
  fix s a s' assume "pmm_wf s" "pmm_free_page s a = Some s'"
  with pmm_free_page_spec [of s a] show "pmm_wf s'"
    "free_pages s \<subseteq> free_pages s' \<and> free_pages s' \<subseteq> insert (unat a div 4096) (free_pages s)"
    by auto
next
  fix s a s' assume h: "pmm_wf s" "pmm_alloc_page s = Some (a, s')"
  note c = pmm_alloc_page_cases [OF h]
  from c show "pmm_wf s'" by simp
  from c show "a \<noteq> 0 \<Longrightarrow> 4096 dvd unat a \<and> unat a div 4096 \<in> free_pages s \<and>
    free_pages s' = free_pages s - {unat a div 4096}" by simp
next
  fix s s' assume h: "pmm_wf s" "pmm_alloc_page s = Some (0, s')"
  from pmm_alloc_page_cases [OF h] show "free_pages s' = free_pages s - {0}" by simp
qed

section \<open>Initialisation\<close>

definition region_pages :: "memory_region \<Rightarrow> nat set" where
  "region_pages r = {unat (Start r) div 4096..<unat (Start r) div 4096 + unat (Size r) div 4096}"

definition usable :: "memory_region \<Rightarrow> bool" where
  "usable r \<longleftrightarrow> Type r = MEMORY_FREE \<or> Type r = MEMORY_LOADER_DATA"

definition byte_pages :: "nat \<Rightarrow> nat \<Rightarrow> nat set" where
  "byte_pages a n = {a div 4096..<a div 4096 + (n + 4095) div 4096}"

text \<open>
  A boot map as the firmware delivers it: page aligned regions below the 52-bit limit of
  physical addresses, and a kernel image inside the memory they describe.
\<close>

definition boot_ok :: "boot_info \<Rightarrow> bool" where
  "boot_ok bi \<longleftrightarrow>
     (\<forall>r\<in>set (MemoryRegions bi). 4096 dvd unat (Start r) \<and> 4096 dvd unat (Size r) \<and>
        unat (Start r) + unat (Size r) \<le> 2 ^ 52) \<and>
     unat (KernelAddress bi) + unat (KernelMemorySize bi) \<le>
       unat (highest_address (map reclaim_loader_data (MemoryRegions bi)))"

lemma reclaim_fields [simp]:
  "Start (reclaim_loader_data r) = Start r" "Size (reclaim_loader_data r) = Size r"
  "Type (reclaim_loader_data r) = MEMORY_FREE \<longleftrightarrow> usable r"
  by (auto simp: reclaim_loader_data_def usable_def)

lemma region_pages_reclaim [simp]: "region_pages (reclaim_loader_data r) = region_pages r"
  by (simp add: region_pages_def)

definition region_ok :: "memory_region \<Rightarrow> bool" where
  "region_ok r \<longleftrightarrow> 4096 dvd unat (Start r) \<and> 4096 dvd unat (Size r) \<and>
     unat (Start r) + unat (Size r) \<le> 2 ^ 52"

lemma region_end_value: "region_ok r \<Longrightarrow> unat (Start r + Size r) = unat (Start r) + unat (Size r)"
  by (intro unat_add_nowrap) (simp add: region_ok_def)

lemma highest_fold:
  assumes "\<forall>r\<in>set rs. region_ok r" "4096 dvd unat h" "unat h \<le> 2 ^ 52"
  defines "h' \<equiv> fold (\<lambda>r h. let region_end = Start r + Size r in
     if h < region_end then region_end else h) rs h"
  shows "unat h \<le> unat h' \<and> 4096 dvd unat h' \<and> unat h' \<le> 2 ^ 52 \<and>
    (\<forall>r\<in>set rs. unat (Start r) + unat (Size r) \<le> unat h')"
  using assms(1-3) unfolding h'_def
proof (induction rs arbitrary: h)
  case (Cons r rs)
  let ?e = "Start r + Size r"
  let ?h = "if h < ?e then ?e else h"
  from Cons.prems have r: "region_ok r" by simp
  note e = region_end_value [OF r]
  from r have "4096 dvd unat ?e" "unat ?e \<le> 2 ^ 52" unfolding e by (auto simp: region_ok_def)
  with Cons.prems have h: "4096 dvd unat ?h" "unat ?h \<le> 2 ^ 52" by auto
  have "unat h \<le> unat ?h" "unat ?e \<le> unat ?h" by (auto simp: word_less_nat_alt)
  with Cons.IH [OF _ h] Cons.prems e show ?case by (auto simp: Let_def)
qed simp

lemma highest_address_spec:
  assumes "\<forall>r\<in>set rs. region_ok r"
  shows "4096 dvd unat (highest_address rs)" "unat (highest_address rs) \<le> 2 ^ 52"
    "\<And>r. r \<in> set rs \<Longrightarrow> unat (Start r) + unat (Size r) \<le> unat (highest_address rs)"
  using highest_fold [OF assms, of 0] by (auto simp: highest_address_def)

lemma pages_within:
  fixes a n h :: nat
  assumes "a + n \<le> h" "4096 dvd h"
  shows "a div 4096 + (n + 4095) div 4096 \<le> h div 4096"
proof -
  obtain t where t: "h = 4096 * t" using assms(2) ..
  have "a div 4096 * 4096 \<le> a" by simp
  with assms t have "n \<le> (t - a div 4096) * 4096"
    by (simp add: left_diff_distrib mult.commute)
  then have "(n + 4095) div 4096 \<le> t - a div 4096" by linarith
  moreover have "a div 4096 \<le> t" using assms t by simp
  ultimately show ?thesis using t by simp
qed

lemma place_bitmap_within:
  assumes "\<forall>r\<in>set rs. region_ok r" "place_bitmap ks ke b rs = a" "a \<noteq> 0"
    "unat ke \<le> 2 ^ 52" "unat b \<le> 2 ^ 52"
  shows "\<exists>r\<in>set rs. unat a + unat b \<le> unat (Start r) + unat (Size r)"
  using assms
proof (induction rs)
  case (Cons r rs)
  from Cons.prems have r: "region_ok r" by simp
  have ke: "unat (ke + b) = unat ke + unat b"
    using Cons.prems by (intro unat_add_nowrap) simp
  show ?case
  proof (cases "place_bitmap ks ke b rs = a")
    case True
    with Cons show ?thesis by auto
  next
    case False
    with Cons.prems have "b \<le> Size r" "a = Start r \<or> a = ke \<and> ke + b \<le> Start r + Size r"
      by (auto simp: Let_def split: if_splits)
    then have "unat a + unat b \<le> unat (Start r) + unat (Size r)"
      using region_end_value [OF r] ke by (auto simp: word_le_nat_alt)
    then show ?thesis by auto
  qed
qed simp

lemma clear_regions_spec:
  assumes "\<forall>r\<in>set rs. region_ok r" "\<forall>r\<in>set rs. region_pages r \<subseteq> {..<8 * length bm}"
  shows "\<exists>bm'. clear_regions bm rs = Some bm' \<and> length bm' = length bm \<and>
    (\<forall>j. bits_test bm' j \<longleftrightarrow>
       (\<forall>r\<in>set rs. Type r = MEMORY_FREE \<longrightarrow> j \<notin> region_pages r) \<and> bits_test bm j)"
  using assms
proof (induction rs arbitrary: bm)
  case (Cons r rs)
  let ?run = "page_run (Start r div PAGE_SIZE) (Size r div PAGE_SIZE)"
  from Cons.prems have r: "region_ok r" by simp
  then have run: "set ?run = region_pages r"
    by (subst set_page_run) (auto simp: region_ok_def region_pages_def unat_div)
  show ?case
  proof (cases "Type r = MEMORY_FREE")
    case True
    from bits_clear_all_spec [of ?run bm] obtain b where b: "bits_clear_all bm ?run = Some b"
      "length b = length bm" "\<forall>j. bits_test b j \<longleftrightarrow> j \<notin> region_pages r \<and> bits_test bm j"
      using Cons.prems(2) by (auto simp: run)
    with Cons.IH [of b] Cons.prems True show ?thesis by auto
  next
    case False
    with Cons show ?thesis by auto
  qed
qed simp

lemma bits_test_replicate_full:
  "j < 8 * n \<Longrightarrow> bits_test (replicate n (0xFF :: u8)) j"
  using full_byte [of "j mod 8"] by (simp add: bits_test_def less_mult_imp_div_less mult.commute)

lemma pages_of_value: "unat b \<le> 2 ^ 52 \<Longrightarrow> unat (pages_of b) = (unat b + 4095) div 4096"
proof -
  assume b: "unat b \<le> 2 ^ 52"
  have "b + PAGE_SIZE - 1 = b + 0xFFF" by simp
  moreover have "unat (b + 0xFFF) = unat b + 4095"
    using b by (subst unat_add_nowrap) simp_all
  ultimately have "unat (b + PAGE_SIZE - 1) = unat b + 4095" by (simp only:)
  then show ?thesis unfolding pages_of_def unat_div by simp
qed

lemma set_byte_run:
  assumes "unat a + unat n \<le> 2 ^ 52"
  shows "set (page_run (a div PAGE_SIZE) (pages_of n)) = byte_pages (unat a) (unat n)"
  using assms by (subst set_page_run) (auto simp: pages_of_value unat_div byte_pages_def)

lemma boot_regions_ok: "boot_ok bi \<Longrightarrow> \<forall>r\<in>set (boot_regions bi). region_ok r"
  by (auto simp: boot_ok_def boot_regions_def region_ok_def)

lemma boot_total_pages:
  assumes "boot_ok bi"
  shows "unat (highest_address (boot_regions bi) div PAGE_SIZE) =
      unat (highest_address (boot_regions bi)) div 4096"
    "unat (highest_address (boot_regions bi)) div 4096 \<le> 2 ^ 40"
  using highest_address_spec(2) [OF boot_regions_ok [OF assms]] by (simp_all add: unat_div)

lemma ceil_div8: "(if t mod 8 = 0 then t div 8 else t div 8 + 1) = (t + 7) div (8 :: nat)"
  by presburger

lemma boot_bsize_value:
  assumes "boot_ok bi"
  shows "unat (boot_bsize bi) = (unat (highest_address (boot_regions bi)) div 4096 + 7) div 8"
proof -
  let ?t = "highest_address (boot_regions bi) div PAGE_SIZE"
  note t = boot_total_pages [OF assms]
  have m: "?t mod 8 = 0 \<longleftrightarrow> unat ?t mod 8 = 0" by (simp add: word_unat_eq_iff unat_mod)
  have "unat (?t div 8 + 1) = unat ?t div 8 + 1"
    using t by (subst unat_add_nowrap) (simp_all add: unat_div)
  with m have "unat (boot_bsize bi) = (if unat ?t mod 8 = 0 then unat ?t div 8 else unat ?t div 8 + 1)"
    by (simp add: boot_bsize_def Let_def unat_div)
  also have "\<dots> = (unat ?t + 7) div 8" by (rule ceil_div8)
  finally show ?thesis unfolding t(1) .
qed

lemma div_add_le_mono: "(a :: nat) div k + b div k \<le> (a + b) div k"
  by (metis div_add1_eq le_add1)

lemma boot_region_pages:
  assumes "boot_ok bi" "r \<in> set (MemoryRegions bi)"
  shows "region_pages r \<subseteq> {..<unat (highest_address (boot_regions bi)) div 4096}"
proof -
  let ?h = "unat (highest_address (boot_regions bi))"
  from assms(2) have "reclaim_loader_data r \<in> set (boot_regions bi)" by (simp add: boot_regions_def)
  from highest_address_spec(3) [OF boot_regions_ok [OF assms(1)] this]
  have "unat (Start r) + unat (Size r) \<le> ?h" by simp
  then have "unat (Start r) div 4096 + unat (Size r) div 4096 \<le> ?h div 4096"
    using div_add_le_mono [of "unat (Start r)" 4096 "unat (Size r)"] div_le_mono le_trans by blast
  then show ?thesis by (auto simp: region_pages_def)
qed

lemma boot_place_within:
  assumes "boot_ok bi" "boot_place bi \<noteq> 0"
  shows "unat (boot_place bi) + unat (boot_bsize bi) \<le> unat (highest_address (boot_regions bi))"
proof -
  let ?h = "unat (highest_address (boot_regions bi))"
  note ok = boot_regions_ok [OF assms(1)]
  note h = highest_address_spec [OF ok]
  from assms(1) have k: "unat (KernelAddress bi) + unat (KernelMemorySize bi) \<le> ?h"
    by (simp add: boot_ok_def boot_regions_def)
  then have "unat (KernelAddress bi + KernelMemorySize bi) \<le> 2 ^ 52"
    using h(2) by (subst unat_add_nowrap) simp_all
  moreover have "unat (boot_bsize bi) \<le> 2 ^ 52"
    using boot_total_pages(2) [OF assms(1)] by (simp add: boot_bsize_value [OF assms(1)])
  ultimately obtain r where "r \<in> set (boot_regions bi)"
    "unat (boot_place bi) + unat (boot_bsize bi) \<le> unat (Start r) + unat (Size r)"
    using place_bitmap_within [OF ok, of _ _ _ "boot_place bi"] assms(2)
    unfolding boot_place_def by blast
  with h(3) show ?thesis by (meson le_trans)
qed

lemma pmm_init_ready:
  assumes ok: "boot_ok bi" and ne: "MemoryRegions bi \<noteq> []" and pl: "boot_place bi \<noteq> 0"
  shows "\<exists>s. pmm_init bi = Some (Ready s (boot_place bi)) \<and> pmm_wf s \<and>
    free_pages s = (\<Union>r\<in>{r\<in>set (MemoryRegions bi). usable r}. region_pages r)
      - byte_pages (unat (KernelAddress bi)) (unat (KernelMemorySize bi))
      - byte_pages (unat (boot_place bi)) (unat (boot_bsize bi))"
proof -
  let ?h = "highest_address (boot_regions bi)" and ?b = "boot_bsize bi"
  let ?t = "unat ?h div 4096" and ?full = "replicate (unat ?b) (0xFF :: u8)"
  let ?krun = "page_run (KernelAddress bi div PAGE_SIZE) (pages_of (KernelMemorySize bi))"
  let ?brun = "page_run (boot_place bi div PAGE_SIZE) (pages_of ?b)"
  let ?K = "byte_pages (unat (KernelAddress bi)) (unat (KernelMemorySize bi))"
  let ?B = "byte_pages (unat (boot_place bi)) (unat ?b)"
  let ?U = "\<Union>r\<in>{r\<in>set (MemoryRegions bi). usable r}. region_pages r"
  note hs = highest_address_spec [OF boot_regions_ok [OF ok]]
  note t = boot_total_pages [OF ok] and b = boot_bsize_value [OF ok]
  have cover: "?t \<le> 8 * unat ?b" using b by linarith
  from ok have kh: "unat (KernelAddress bi) + unat (KernelMemorySize bi) \<le> unat ?h"
    by (simp add: boot_ok_def boot_regions_def)
  note bh = boot_place_within [OF ok pl]
  have K: "?K \<subseteq> {..<?t}" using pages_within [OF kh hs(1)] by (auto simp: byte_pages_def)
  have B: "?B \<subseteq> {..<?t}" using pages_within [OF bh hs(1)] by (auto simp: byte_pages_def)
  have krun: "set ?krun = ?K" by (rule set_byte_run) (use kh hs(2) in linarith)
  have brun: "set ?brun = ?B" by (rule set_byte_run) (use bh hs(2) in linarith)
  have "region_pages r \<subseteq> {..<8 * unat ?b}" if "r \<in> set (MemoryRegions bi)" for r
    using boot_region_pages [OF ok that] cover by (meson lessThan_subset_iff order_trans)
  then have R: "\<forall>r\<in>set (boot_regions bi). region_pages r \<subseteq> {..<8 * length ?full}"
    by (simp add: boot_regions_def)
  from clear_regions_spec [OF boot_regions_ok [OF ok] R] obtain bm1 where
    bm1: "clear_regions ?full (boot_regions bi) = Some bm1" "length bm1 = unat ?b"
      "\<forall>j. bits_test bm1 j \<longleftrightarrow> (\<forall>r\<in>set (boot_regions bi). Type r = MEMORY_FREE \<longrightarrow>
          j \<notin> region_pages r) \<and> bits_test ?full j"
    by auto
  have U: "?U \<subseteq> {..<?t}" using boot_region_pages [OF ok] by blast
  have bm1U: "bits_test bm1 j \<longleftrightarrow> j \<notin> ?U" if "j < ?t" for j
    using bits_test_replicate_full [of j "unat ?b"] that cover
    unfolding bm1(3) [rule_format] boot_regions_def by auto
  have "\<forall>i\<in>set ?krun. i < LENGTH(8) * length bm1"
    unfolding krun bm1(2) using K cover by (auto dest!: subsetD)
  from bits_set_all_spec [OF this] obtain bm2 where
    bm2: "bits_set_all bm1 ?krun = Some bm2" "length bm2 = unat ?b"
      "\<forall>j. bits_test bm2 j \<longleftrightarrow> j \<in> ?K \<or> bits_test bm1 j"
    using bm1(2) by (auto simp: krun)
  have "\<forall>i\<in>set ?brun. i < LENGTH(8) * length bm2"
    unfolding brun bm2(2) using B cover by (auto dest!: subsetD)
  from bits_set_all_spec [OF this] obtain bm3 where
    bm3: "bits_set_all bm2 ?brun = Some bm3" "length bm3 = unat ?b"
      "\<forall>j. bits_test bm3 j \<longleftrightarrow> j \<in> ?B \<or> bits_test bm2 j"
    using bm2(2) by (auto simp: brun)
  let ?s = "\<lparr>pmm_bitmap = bm3, pmm_total_pages = ?h div PAGE_SIZE, pmm_bitmap_size = ?b\<rparr>"
  have "pmm_init bi = Some (Ready ?s (boot_place bi))"
    using ne pl bm1(1) bm2(1) bm3(1)
    by (simp add: pmm_init_def)
  moreover have "pmm_wf ?s" using bm3(2) t b by (simp add: pmm_wf_def)
  moreover have "free_pages ?s = ?U - ?K - ?B"
    using U bm1U by (auto simp: free_pages_def t bm2(3) bm3(3))
  ultimately show ?thesis by blast
qed

lemma pmm_init_halt:
  assumes "MemoryRegions bi = [] \<or> boot_place bi = 0"
  shows "pmm_init bi = Some Halt"
  using assms by (auto simp: pmm_init_def)

section \<open>Properties\<close>

text \<open>C1: Allocation is first fit. On a well-formed bitmap \<^verbatim>\<open>pmm_alloc_pages\<close> with a positive
  count returns without an access outside the bitmap; it returns the address of the lowest
  run of free pages and marks exactly that run, or returns 0 and changes nothing when no
  such run exists.\<close>

theorem pmm_alloc_pages_first_fit:
  assumes "pmm_wf s" "0 < unat count"
  shows "pmm_alloc_pages s count = Some (0, s) \<and> (\<nexists>p. fits s (unat count) p) \<or>
    (\<exists>p s'. pmm_alloc_pages s count = Some (of_nat p * PAGE_SIZE, s') \<and> fits s (unat count) p \<and>
       (\<forall>q < p. \<not> fits s (unat count) q) \<and> pmm_wf s' \<and>
       free_pages s' = free_pages s - {p..<p + unat count})"
  using pmm_alloc_pages_spec [OF assms] by blast

definition pmm_demo :: pmm where
  "pmm_demo = \<lparr>pmm_bitmap = [0b00010011, 0b11110001], pmm_total_pages = 12, pmm_bitmap_size = 2\<rparr>"

lemma pmm_demo_wf: "pmm_wf pmm_demo"
  by (simp add: pmm_wf_def pmm_demo_def)

lemma pmm_demo_alloc:
  "pmm_alloc_pages pmm_demo 3 = Some (0x5000, pmm_demo\<lparr>pmm_bitmap := [0b11110011, 0b11110001]\<rparr>)"
  by code_simp

theorem pmm_alloc_pages_first_fit_witness:
  "\<exists>p s'. pmm_alloc_pages pmm_demo 3 = Some (of_nat p * PAGE_SIZE, s') \<and> fits pmm_demo 3 p"
proof -
  have "0 < unat (3 :: u64)" by simp
  from pmm_alloc_pages_first_fit [OF pmm_demo_wf this] pmm_demo_alloc show ?thesis by auto
qed


definition boot_demo :: boot_info where
  "boot_demo = \<lparr>KernelAddress = 0x2000, KernelMemorySize = 0x1800,
     MemoryRegions = [\<lparr>Start = 0, Size = 0x1000, Type = MEMORY_RESERVED\<rparr>,
       \<lparr>Start = 0x1000, Size = 0x8000, Type = MEMORY_FREE\<rparr>,
       \<lparr>Start = 0x9000, Size = 0x1000, Type = MEMORY_LOADER_DATA\<rparr>]\<rparr>"

lemma boot_demo_ok: "boot_ok boot_demo"
  by (simp add: boot_ok_def boot_demo_def highest_address_def reclaim_loader_data_def)

lemma boot_demo_init:
  "pmm_init boot_demo = Some (Ready
     \<lparr>pmm_bitmap = [0b00001101, 0b11111100], pmm_total_pages = 10, pmm_bitmap_size = 2\<rparr> 0x3800)"
  by code_simp


text \<open>Releasing what was allocated restores the free set: a successful
  \<^verbatim>\<open>pmm_alloc_pages\<close> followed by \<^verbatim>\<open>pmm_free_pages\<close> on its result with the same count is
  defined and leaves the set of free pages as it was.\<close>

theorem pmm_alloc_free_roundtrip:
  assumes "pmm_wf s" "0 < unat count" "pmm_alloc_pages s count = Some (a, s')" "a \<noteq> 0"
  shows "\<exists>s''. pmm_free_pages s' a count = Some s'' \<and> pmm_wf s'' \<and> free_pages s'' = free_pages s"
proof -
  let ?n = "unat count"
  from pmm_alloc_pages_spec [OF assms(1,2)] assms(3,4) obtain p where
    a: "a = of_nat p * PAGE_SIZE" and fit: "fits s ?n p" and wf': "pmm_wf s'"
    and fr: "free_pages s' = free_pages s - {p..<p + ?n}"
    and tot: "pmm_total_pages s' = pmm_total_pages s"
    by auto
  from fit assms(1,2) have pn: "p + ?n \<le> unat (pmm_total_pages s)" "p \<le> 2 ^ 52 - 1"
    by (auto simp: fits_def pmm_wf_def)
  from page_address [OF pn(2)] have ua: "unat a = p * 4096" by (simp add: a)
  then have "unat a mod 4096 = 0" "unat a div 4096 = p" by simp_all
  with pmm_free_pages_spec [OF wf' assms(2,4)] pn(1) obtain s'' where
    "pmm_free_pages s' a count = Some s''" "pmm_wf s''"
    "free_pages s'' = free_pages s' \<union> {p..<p + ?n}"
    by (auto simp: tot)
  moreover have "{p..<p + ?n} \<subseteq> free_pages s" using fit by (simp add: fits_def)
  ultimately show ?thesis using fr by auto
qed

theorem pmm_alloc_free_roundtrip_witness:
  "\<exists>s''. pmm_free_pages (pmm_demo\<lparr>pmm_bitmap := [0b11110011, 0b11110001]\<rparr>) 0x5000 3 = Some s'' \<and>
     free_pages s'' = free_pages pmm_demo"
proof -
  have "0 < unat (3 :: u64)" "(0x5000 :: u64) \<noteq> 0" by simp_all
  from pmm_alloc_free_roundtrip [OF pmm_demo_wf this(1) pmm_demo_alloc this(2)]
  show ?thesis by auto
qed

text \<open>The bound check of \<^verbatim>\<open>pmm_free_pages\<close> can be defeated: it tests
  \<open>start_page + count > pmm_total_pages\<close> in 64-bit arithmetic, so a count for which the sum wraps
  around to a small value passes the check and the loop then writes outside the bitmap.\<close>

theorem pmm_free_pages_overflow:
  assumes "pmm_wf s" "a \<noteq> 0" "unat a mod 4096 = 0" "1 < unat count"
    "2 ^ 64 \<le> unat a div 4096 + unat count" "a div PAGE_SIZE + count \<le> pmm_total_pages s"
  shows "pmm_free_pages s a count = None"
proof -
  let ?start = "a div PAGE_SIZE"
  define p :: nat where "p = 2 ^ 64 - 1 - unat a div 4096"
  have st: "unat ?start = unat a div 4096" by (simp add: unat_div)
  have lt: "unat a div 4096 < 2 ^ 64" using unat_lt64 [of ?start] st by simp
  with assms(5) have p: "p < unat count" unfolding p_def by linarith
  have up: "unat (of_nat p :: u64) = p" by (rule unat_of_nat_id) (simp add: p_def)
  have sum: "unat a div 4096 + p = 2 ^ 64 - 1" using lt by (simp add: p_def)
  have "unat (?start + of_nat p) = 2 ^ 64 - 1"
    by (subst unat_add_nowrap) (simp_all add: st up sum)
  moreover have "unat (?start + of_nat p) \<in> set (page_run ?start count)"
    unfolding page_run_def set_map using p by (intro imageI) simp
  ultimately have mem: "2 ^ 64 - 1 \<in> set (page_run ?start count)" by (simp only:)
  have "LENGTH(8) * length (pmm_bitmap s) \<le> 2 ^ 64 - 1"
    using assms(1) by (auto simp: pmm_wf_def)
  with mem have "bits_clear_all (pmm_bitmap s) (page_run ?start count) = None"
    by (rule bits_clear_all_oob)
  moreover have "count \<noteq> 0" "count \<noteq> 1" "\<not> pmm_total_pages s < ?start + count"
    using assms(4,6) by auto
  moreover have "a mod PAGE_SIZE = 0" using assms(3) by (simp add: word_unat_eq_iff unat_mod)
  ultimately show ?thesis using assms(2) by (simp add: pmm_free_pages_def Let_def)
qed

theorem pmm_free_pages_overflow_witness: "pmm_free_pages pmm_demo 0x1000 0xFFFFFFFFFFFFFFFF = None"
proof (rule pmm_free_pages_overflow [OF pmm_demo_wf])
  show "1 < unat (0xFFFFFFFFFFFFFFFF :: u64)"
    "2 ^ 64 \<le> unat (0x1000 :: u64) div 4096 + unat (0xFFFFFFFFFFFFFFFF :: u64)"
    by simp_all
  show "0x1000 div PAGE_SIZE + 0xFFFFFFFFFFFFFFFF \<le> pmm_total_pages pmm_demo" by (simp add: pmm_demo_def)
qed simp_all

text \<open>Frame 0 is lost on allocation: when physical page 0 is free, \<^verbatim>\<open>pmm_alloc_page\<close> marks
  it as used and returns its address 0, which every caller reads as out of memory although
  free pages may remain.\<close>

theorem pmm_alloc_page_zero_frame:
  assumes "pmm_wf s" "0 \<in> free_pages s"
  shows "\<exists>s'. pmm_alloc_page s = Some (0, s') \<and> free_pages s' = free_pages s - {0}"
proof -
  have "Min (free_pages s) = 0" using assms(2) by (intro Min_eqI) auto
  with pmm_alloc_page_some [OF assms(1)] assms(2) show ?thesis by force
qed

theorem pmm_alloc_page_zero_frame_witness:
  "\<exists>s'. pmm_alloc_page \<lparr>pmm_bitmap = [0], pmm_total_pages = 8, pmm_bitmap_size = 1\<rparr> = Some (0, s') \<and>
     5 \<in> free_pages s'"
proof -
  let ?s = "\<lparr>pmm_bitmap = [0], pmm_total_pages = 8, pmm_bitmap_size = 1\<rparr>"
  have "pmm_wf ?s" "0 \<in> free_pages ?s" "5 \<in> free_pages ?s"
    by (simp_all add: pmm_wf_def free_pages_def bits_test_def)
  with pmm_alloc_page_zero_frame [of ?s] show ?thesis by auto
qed

end
