(* ===== verification/Vmm.thy ===== *)
theory Vmm
  imports Pmm
begin

text \<open>
  The virtual memory manager, \<^verbatim>\<open>src/kernel/arch/x86_64/mm/vmm.c\<close> and
  \<^verbatim>\<open>vmm_scratch_window.c\<close>: four-level page tables in physical memory, edited through scratch
  windows. Physical memory is a function from frame numbers to the 64-bit cells of a frame; a
  table pointer of the C code is the frame the pointer designates. The bit-field structures of
  \<^verbatim>\<open>paging.h\<close> are 64-bit words with field accessors, so the bits an operation does not write
  keep their value. The page that holds the scratch entries (\<open>g_window_pt\<close>) belongs to the
  kernel image and is kept apart from the frames the allocator manages.

  The abstract view is \<open>walk\<close>: the frame reached by following a path of table indices.
\<close>

unbundle bit_operations_syntax

section \<open>Page table entries\<close>

definition field :: "nat \<Rightarrow> nat \<Rightarrow> u64 \<Rightarrow> u64" where
  "field lo w e = take_bit w (drop_bit lo e)"

definition set_field :: "nat \<Rightarrow> nat \<Rightarrow> u64 \<Rightarrow> u64 \<Rightarrow> u64" where
  "set_field lo w v e = (e AND NOT (push_bit lo (mask w))) OR push_bit lo (take_bit w v)"

abbreviation get_p :: "u64 \<Rightarrow> bool" where "get_p e \<equiv> bit e 0"
abbreviation get_ps :: "u64 \<Rightarrow> bool" where "get_ps e \<equiv> bit e 7"
abbreviation get_frame :: "u64 \<Rightarrow> u64" where "get_frame \<equiv> field 12 40"

lemma bit_set_field:
  "bit (set_field lo w v e) n \<longleftrightarrow>
     n < 64 \<and> (if lo \<le> n \<and> n < lo + w then bit v (n - lo) else bit e n)"
  by (auto simp: set_field_def bit_simps)

lemma bit_field: "bit (field lo w e) n \<longleftrightarrow> n < w \<and> bit e (lo + n)"
  by (auto simp: field_def bit_simps)

lemma field_set_same:
  assumes "lo + w \<le> 64"
  shows "field lo w (set_field lo w v e) = take_bit w v"
  using assms by (intro bit_eqI) (auto simp: bit_field bit_set_field bit_simps)

lemma field_set_other:
  assumes "lo + w \<le> lo' \<or> lo' + w' \<le> lo"
  shows "field lo w (set_field lo' w' v e) = field lo w e"
proof (intro bit_eqI)
  fix n
  have "bit e (lo + n) \<Longrightarrow> lo + n < 64" using bit_imp_le_length [of e "lo + n"] by simp
  with assms show "bit (field lo w (set_field lo' w' v e)) n = bit (field lo w e) n"
    by (auto simp: bit_field bit_set_field)
qed

lemma bit_set_other:
  assumes "n < lo \<or> lo + w \<le> n"
  shows "bit (set_field lo w v e) n = bit e n"
proof -
  have "bit e n \<Longrightarrow> n < 64" using bit_imp_le_length [of e n] by simp
  with assms show ?thesis by (auto simp: bit_set_field)
qed

lemma bit_set_one: "n < 64 \<Longrightarrow> bit (set_field n (Suc 0) v e) n = bit v 0"
  by (auto simp: bit_set_field)

section \<open>State\<close>

record vmm =
  pmem :: "u64 \<Rightarrow> nat \<Rightarrow> u64"
  window_pt :: "nat \<Rightarrow> u64"
  frames :: pmm

definition GET_PML4_INDEX :: "u64 \<Rightarrow> nat" where
  "GET_PML4_INDEX virt = unat (drop_bit 39 virt AND 0x1FF)"

definition GET_PDPT_INDEX :: "u64 \<Rightarrow> nat" where
  "GET_PDPT_INDEX virt = unat (drop_bit 30 virt AND 0x1FF)"

definition GET_PD_INDEX :: "u64 \<Rightarrow> nat" where
  "GET_PD_INDEX virt = unat (drop_bit 21 virt AND 0x1FF)"

definition GET_PT_INDEX :: "u64 \<Rightarrow> nat" where
  "GET_PT_INDEX virt = unat (drop_bit 12 virt AND 0x1FF)"

abbreviation VMM_SCRATCH_WINDOW_0 :: u64 where
  "VMM_SCRATCH_WINDOW_0 \<equiv> 0xFFFFFFFF803F1000"

section \<open>Scratch windows\<close>

text \<open>
  \<open>vmm_scratch_map_internal\<close> first clears, through a pointer to entry \<open>pt_idx\<close>, the cell
  \<open>pt_idx\<close> further on, then fills entry \<open>pt_idx\<close>. It returns the window's virtual address.
\<close>

definition scratch_idx :: "int \<Rightarrow> nat" where
  "scratch_idx window = GET_PT_INDEX VMM_SCRATCH_WINDOW_0 + nat window"

definition vmm_scratch_map_internal :: "vmm \<Rightarrow> u64 \<Rightarrow> int \<Rightarrow> u64 \<times> vmm" where
  "vmm_scratch_map_internal s phys_addr window =
     (if window < 0 \<or> window > 14 then (0, s)
      else let
        pt_idx = scratch_idx window;
        w1 = (window_pt s)(pt_idx + pt_idx := 0);
        e = set_field 12 40 (drop_bit 12 phys_addr)
              (set_field 2 1 0 (set_field 1 1 1 (set_field 0 1 1 (w1 pt_idx))))
      in (VMM_SCRATCH_WINDOW_0 + of_int window * PAGE_SIZE, s\<lparr>window_pt := w1(pt_idx := e)\<rparr>))"

text \<open>The window at entry 496, and the windows reserved for program loading and for \<open>brk\<close>.\<close>

abbreviation VMM_SCRATCH_WINDOW :: u64 where
  "VMM_SCRATCH_WINDOW \<equiv> 0xFFFFFFFF803F0000"

definition vmm_scratch_map :: "vmm \<Rightarrow> u64 \<Rightarrow> u64 \<times> vmm" where
  "vmm_scratch_map s phys_addr =
     (let pt_idx = GET_PT_INDEX VMM_SCRATCH_WINDOW;
          e = set_field 12 40 (drop_bit 12 phys_addr)
                (set_field 2 1 0 (set_field 1 1 1 (set_field 0 1 1 (window_pt s pt_idx))))
      in (VMM_SCRATCH_WINDOW, s\<lparr>window_pt := (window_pt s)(pt_idx := e)\<rparr>))"

definition vmm_scratch_map_process :: "vmm \<Rightarrow> u64 \<Rightarrow> u64 \<times> vmm" where
  "vmm_scratch_map_process s phys_addr = vmm_scratch_map_internal s phys_addr 10"

definition vmm_scratch_map_brk :: "vmm \<Rightarrow> u64 \<Rightarrow> u64 \<times> vmm" where
  "vmm_scratch_map_brk s phys_addr = vmm_scratch_map_internal s phys_addr 11"

text \<open>The frame a window shows, and reads and writes of the table under it.\<close>

definition scratch_frame :: "vmm \<Rightarrow> u64" where
  "scratch_frame s = get_frame (window_pt s (GET_PT_INDEX VMM_SCRATCH_WINDOW))"

definition window_frame :: "vmm \<Rightarrow> int \<Rightarrow> u64" where
  "window_frame s window = get_frame (window_pt s (scratch_idx window))"

definition read_entry :: "vmm \<Rightarrow> u64 \<Rightarrow> nat \<Rightarrow> u64" where
  "read_entry s frame i = pmem s frame i"

definition write_entry :: "vmm \<Rightarrow> u64 \<Rightarrow> nat \<Rightarrow> u64 \<Rightarrow> vmm" where
  "write_entry s frame i e = s\<lparr>pmem := (pmem s)(frame := (pmem s frame)(i := e))\<rparr>"

definition zero_table :: "vmm \<Rightarrow> u64 \<Rightarrow> vmm" where
  "zero_table s frame =
     s\<lparr>pmem := (pmem s)(frame := (\<lambda>i. if i < 512 then 0 else pmem s frame i))\<rparr>"

section \<open>Mapping\<close>

text \<open>A new table: a page from the allocator, shown in a window and cleared.\<close>

definition vmm_new_table :: "vmm \<Rightarrow> int \<Rightarrow> (u64 \<times> vmm) option" where
  "vmm_new_table s window =
     do {
       (new_table_phys, pm) \<leftarrow> pmm_alloc_page (frames s);
       let s1 = snd (vmm_scratch_map_internal (s\<lparr>frames := pm\<rparr>) new_table_phys window);
       Some (new_table_phys, zero_table s1 (window_frame s1 window))
     }"

definition link_entry :: "u64 \<Rightarrow> u64 \<Rightarrow> u64 \<Rightarrow> u64 \<Rightarrow> u64" where
  "link_entry rw us phys e =
     set_field 12 40 (drop_bit 12 phys) (set_field 2 1 us (set_field 1 1 rw (set_field 0 1 1 e)))"

definition vmm_get_pdpt :: "vmm \<Rightarrow> u64 \<Rightarrow> u64 \<Rightarrow> u64 \<Rightarrow> u64 \<Rightarrow> (u64 \<times> vmm) option" where
  "vmm_get_pdpt s pml4 virt rw us =
     (let i = GET_PML4_INDEX virt; e = read_entry s pml4 i in
      if \<not> get_p e then
        do {
          (t, s1) \<leftarrow> vmm_new_table s 0;
          Some (t, write_entry s1 pml4 i (link_entry rw us t (read_entry s1 pml4 i)))
        }
      else Some (push_bit 12 (get_frame e), s))"

definition vmm_get_pd :: "vmm \<Rightarrow> u64 \<Rightarrow> u64 \<Rightarrow> u64 \<Rightarrow> u64 \<Rightarrow> (u64 \<times> vmm) option" where
  "vmm_get_pd s0 pdpt_phys virt rw us =
     (let s = snd (vmm_scratch_map_internal s0 pdpt_phys 0);
          pdpt = window_frame s 0; i = GET_PDPT_INDEX virt; e = read_entry s pdpt i in
      if \<not> get_p e then
        do {
          (t, s1) \<leftarrow> vmm_new_table s 1;
          Some (t, write_entry s1 pdpt i (link_entry rw us t (read_entry s1 pdpt i)))
        }
      else Some (push_bit 12 (get_frame e) AND 0xFFFFFFFFF, s))"

definition vmm_get_pt :: "vmm \<Rightarrow> u64 \<Rightarrow> u64 \<Rightarrow> u64 \<Rightarrow> u64 \<Rightarrow> (u64 \<times> vmm) option" where
  "vmm_get_pt s0 pd_phys virt rw us =
     (let s = snd (vmm_scratch_map_internal s0 pd_phys 0);
          pd = window_frame s 0; i = GET_PD_INDEX virt; e = read_entry s pd i in
      if \<not> get_p e then
        do {
          (t, s1) \<leftarrow> vmm_new_table s 1;
          Some (t, write_entry s1 pd i
            (set_field 12 40 (drop_bit 12 t) (set_field 7 1 0 (set_field 2 1 us
              (set_field 1 1 rw (set_field 0 1 1 (read_entry s1 pd i)))))))
        }
      else Some (push_bit 12 (get_frame e), s))"

definition vmm_map_page :: "vmm \<Rightarrow> u64 \<Rightarrow> u64 \<Rightarrow> u64 \<Rightarrow> u64 \<Rightarrow> vmm option" where
  "vmm_map_page s pml4 virt phys flags =
     (let flag_rw = (if bit flags 1 then 1 else 0); flag_us = (if bit flags 2 then 1 else 0) in
      do {
        (pdpt_phys, s1) \<leftarrow> vmm_get_pdpt s pml4 virt flag_rw flag_us;
        (pd_phys, s2) \<leftarrow> vmm_get_pd s1 pdpt_phys virt flag_rw flag_us;
        (pt_phys, s3) \<leftarrow> vmm_get_pt s2 pd_phys virt flag_rw flag_us;
        let s4 = snd (vmm_scratch_map_internal s3 pt_phys 0);
        let pt = window_frame s4 0;
        let i = GET_PT_INDEX virt;
        Some (write_entry s4 pt i
          (set_field 63 1 (if bit flags 63 then 1 else 0)
            (link_entry flag_rw flag_us phys (read_entry s4 pt i))))
      })"

section \<open>Unmapping and translation\<close>

text \<open>
  The walk shared by \<open>vmm_unmap_page\<close>, \<open>vmm_get_physical_address\<close> and \<open>vmm_get_physical\<close>:
  show the table in window 0 and read one entry.
\<close>

definition vmm_enter :: "vmm \<Rightarrow> u64 \<Rightarrow> vmm \<times> u64" where
  "vmm_enter s phys = (let s' = snd (vmm_scratch_map_internal s phys 0) in (s', window_frame s' 0))"

definition vmm_unmap_page :: "vmm \<Rightarrow> u64 \<Rightarrow> u64 \<Rightarrow> vmm option" where
  "vmm_unmap_page s pml4 virt =
     (let e4 = read_entry s pml4 (GET_PML4_INDEX virt) in
      if \<not> get_p e4 then Some s
      else let (s1, pdpt) = vmm_enter s (push_bit 12 (get_frame e4));
               e3 = read_entry s1 pdpt (GET_PDPT_INDEX virt) in
      if \<not> get_p e3 then Some s1
      else let (s2, pd) = vmm_enter s1 (push_bit 12 (get_frame e3));
               e2 = read_entry s2 pd (GET_PD_INDEX virt) in
      if \<not> get_p e2 then Some s2
      else let (s3, pt) = vmm_enter s2 (push_bit 12 (get_frame e2));
               e1 = read_entry s3 pt (GET_PT_INDEX virt) in
      if \<not> get_p e1 then Some s3
      else do {
        pm \<leftarrow> pmm_free_page (frames s3) (push_bit 12 (get_frame e1));
        let s4 = s3\<lparr>frames := pm\<rparr>;
        Some (write_entry s4 pt (GET_PT_INDEX virt) (set_field 12 40 0 (set_field 0 1 0 e1)))
      })"

definition vmm_get_physical_address :: "vmm \<Rightarrow> u64 \<Rightarrow> u64 \<Rightarrow> u64 \<times> vmm" where
  "vmm_get_physical_address s pml4 page_va =
     (let e4 = read_entry s pml4 (GET_PML4_INDEX page_va) in
      if \<not> get_p e4 then (0, s)
      else let (s1, pdpt) = vmm_enter s (push_bit 12 (get_frame e4));
               e3 = read_entry s1 pdpt (GET_PDPT_INDEX page_va) in
      if \<not> get_p e3 then (0, s1)
      else let (s2, pd) = vmm_enter s1 (push_bit 12 (get_frame e3));
               e2 = read_entry s2 pd (GET_PD_INDEX page_va) in
      if \<not> get_p e2 then (0, s2)
      else if get_ps e2 then (push_bit 12 (get_frame e2), s2)
      else let (s3, pt) = vmm_enter s2 (push_bit 12 (get_frame e2));
               e1 = read_entry s3 pt (GET_PT_INDEX page_va) in
      if \<not> get_p e1 then (0, s3)
      else (push_bit 12 (get_frame e1), s3))"

definition vmm_get_physical :: "vmm \<Rightarrow> u64 \<Rightarrow> u64 \<Rightarrow> u64 \<times> vmm" where
  "vmm_get_physical s pml4 va =
     (let e4 = read_entry s pml4 (GET_PML4_INDEX va) in
      if \<not> get_p e4 then (0, s)
      else let (s1, pdpt) = vmm_enter s (push_bit 12 (get_frame e4));
               e3 = read_entry s1 pdpt (GET_PDPT_INDEX va) in
      if \<not> get_p e3 then (0, s1)
      else if bit e3 7 then ((e3 AND 0x000FFFFFFFFFF000) OR (va AND 0x3FFFFFFF), s1)
      else let (s2, pd) = vmm_enter s1 (push_bit 12 (get_frame e3));
               e2 = read_entry s2 pd (GET_PD_INDEX va) in
      if \<not> get_p e2 then (0, s2)
      else if get_ps e2 then (push_bit 12 (get_frame e2) OR (va AND 0x1FFFFF), s2)
      else let (s3, pt) = vmm_enter s2 (push_bit 12 (get_frame e2));
               e1 = read_entry s3 pt (GET_PT_INDEX va) in
      if \<not> get_p e1 then (0, s3)
      else (push_bit 12 (get_frame e1) OR (va AND 0xFFF), s3))"

section \<open>Address spaces, devices, the initial heap\<close>

text \<open>
  \<open>vmm_create_address_space\<close>: entries 256 to 511 and entry 224 of the current PML4 are copied,
  the others cleared. \<open>cr3\<close> is the register's value.
\<close>

definition vmm_create_address_space :: "vmm \<Rightarrow> u64 \<Rightarrow> (u64 \<times> vmm) option" where
  "vmm_create_address_space s cr3 =
     do {
       (new_pml4_phys, pm) \<leftarrow> pmm_alloc_page (frames s);
       if new_pml4_phys = 0 then Some (0, s\<lparr>frames := pm\<rparr>)
       else do {
         let s1 = snd (vmm_scratch_map_internal (s\<lparr>frames := pm\<rparr>) cr3 0);
         let cur = pmem s1 (window_frame s1 0);
         let s2 = snd (vmm_scratch_map_internal s1 new_pml4_phys 1);
         let new = window_frame s2 1;
         Some (new_pml4_phys AND NOT 0xFFF,
           s2\<lparr>pmem := (pmem s2)(new := (\<lambda>i.
              if i = 224 then cur 224
              else if i < 256 then 0
              else if i < 512 then cur i
              else pmem s2 new i))\<rparr>)
       }
     }"

text \<open>
  The loop of \<open>vmm_map_device\<close>, with the static variable \<open>next_available_virtual\<close> as state;
  \<open>None\<close> in the second component is \<open>kernel_panic\<close>.
\<close>

abbreviation KERNEL_MMIO_VIRTUAL_BASE :: u64 where
  "KERNEL_MMIO_VIRTUAL_BASE \<equiv> 0xFFFFFF0000000000"

abbreviation KERNEL_MMIO_VIRTUAL_END :: u64 where
  "KERNEL_MMIO_VIRTUAL_END \<equiv> 0xFFFFFF8000000000"

fun map_device_loop :: "nat \<Rightarrow> vmm \<Rightarrow> u64 \<Rightarrow> u64 \<Rightarrow> u64 \<Rightarrow> (vmm \<times> u64 option) option" where
  "map_device_loop 0 s pml4 next phys = Some (s, Some next)"
| "map_device_loop (Suc n) s pml4 next phys =
     do {
       s' \<leftarrow> vmm_map_page s pml4 next phys 0x1B;
       if KERNEL_MMIO_VIRTUAL_END \<le> next + PAGE_SIZE then Some (s', None)
       else map_device_loop n s' pml4 (next + PAGE_SIZE) (phys + PAGE_SIZE)
     }"

definition vmm_map_device ::
    "vmm \<Rightarrow> u64 \<Rightarrow> u64 \<Rightarrow> u64 \<Rightarrow> u64 \<Rightarrow> (vmm \<times> u64 option \<times> u64) option" where
  "vmm_map_device s pml4 next phys_addr sz =
     (if sz = 0 then Some (s, Some next, 0)
      else let
        phys_page = phys_addr AND NOT (PAGE_SIZE - 1);
        page_offset = phys_addr AND (PAGE_SIZE - 1);
        num_pages = (sz + page_offset + PAGE_SIZE - 1) div PAGE_SIZE
      in do {
        (s', next') \<leftarrow> map_device_loop (unat num_pages) s pml4 next phys_page;
        Some (s', next', next + page_offset)
      })"

text \<open>The loop of \<open>vmm_init\<close>: a fresh page for every page of the initial heap.\<close>

abbreviation KERNEL_HEAP_VIRTUAL_BASE :: u64 where
  "KERNEL_HEAP_VIRTUAL_BASE \<equiv> 0xFFFF800040000000"

abbreviation KERNEL_HEAP_INITIAL_SIZE :: u64 where
  "KERNEL_HEAP_INITIAL_SIZE \<equiv> 0x400000"

fun map_fresh_pages :: "nat \<Rightarrow> vmm \<Rightarrow> u64 \<Rightarrow> u64 \<Rightarrow> vmm option" where
  "map_fresh_pages 0 s pml4 virt = Some s"
| "map_fresh_pages (Suc n) s pml4 virt =
     do {
       (phys_page, pm) \<leftarrow> pmm_alloc_page (frames s);
       s' \<leftarrow> vmm_map_page (s\<lparr>frames := pm\<rparr>) pml4 virt phys_page 0x2;
       map_fresh_pages n s' pml4 (virt + PAGE_SIZE)
     }"

definition vmm_scratch_setup :: "vmm \<Rightarrow> vmm" where
  "vmm_scratch_setup s =
     s\<lparr>window_pt := (\<lambda>i. if 496 \<le> i \<and> i < 512 then 0 else window_pt s i)\<rparr>"

definition vmm_init :: "vmm \<Rightarrow> u64 \<Rightarrow> vmm option" where
  "vmm_init s pml4 =
     map_fresh_pages (unat (KERNEL_HEAP_INITIAL_SIZE div PAGE_SIZE)) (vmm_scratch_setup s) pml4
       KERNEL_HEAP_VIRTUAL_BASE"

section \<open>Windows show the frame they were given\<close>

lemma scratch_idx_value: "scratch_idx w = 497 + nat w"
  by (simp add: scratch_idx_def GET_PT_INDEX_def)

lemma scratch_map_frame:
  assumes "0 \<le> w" "w \<le> 14"
  shows "window_frame (snd (vmm_scratch_map_internal s phys w)) w = take_bit 40 (drop_bit 12 phys)"
  using assms
  by (simp add: vmm_scratch_map_internal_def window_frame_def Let_def field_set_same)

lemma scratch_map_other:
  assumes "0 \<le> w" "w \<le> 14" "0 \<le> v" "v \<le> 14" "v \<noteq> w"
  shows "window_frame (snd (vmm_scratch_map_internal s phys w)) v = window_frame s v"
  using assms
  by (auto simp: vmm_scratch_map_internal_def window_frame_def Let_def scratch_idx_value)

lemma scratch_map_pmem [simp]:
  "pmem (snd (vmm_scratch_map_internal s phys w)) = pmem s"
  "frames (snd (vmm_scratch_map_internal s phys w)) = frames s"
  by (simp_all add: vmm_scratch_map_internal_def Let_def)

lemma scratch_map_496 [simp]:
  "pmem (snd (vmm_scratch_map s phys)) = pmem s" "frames (snd (vmm_scratch_map s phys)) = frames s"
  "scratch_frame (snd (vmm_scratch_map s phys)) = take_bit 40 (drop_bit 12 phys)"
  by (simp_all add: vmm_scratch_map_def scratch_frame_def Let_def field_set_same)

section \<open>Walks\<close>

fun walk :: "(u64 \<Rightarrow> nat \<Rightarrow> u64) \<Rightarrow> u64 \<Rightarrow> nat list \<Rightarrow> u64 option" where
  "walk m f [] = Some f"
| "walk m f (i # is) = (if get_p (m f i) then walk m (get_frame (m f i)) is else None)"

lemma walk_append:
  "walk m f (p @ q) = (case walk m f p of None \<Rightarrow> None | Some g \<Rightarrow> walk m g q)"
  by (induction p arbitrary: f) auto

lemma walk_snoc:
  "walk m f (p @ [i]) =
     (case walk m f p of None \<Rightarrow> None
      | Some g \<Rightarrow> if get_p (m g i) then Some (get_frame (m g i)) else None)"
  by (simp add: walk_append split: option.splits)

definition path :: "nat \<Rightarrow> nat list \<Rightarrow> bool" where
  "path n p \<longleftrightarrow> length p \<le> n \<and> (\<forall>i\<in>set p. i < 512)"

lemma path_snoc: "path n (p @ [i]) \<longleftrightarrow> Suc (length p) \<le> n \<and> (\<forall>j\<in>set p. j < 512) \<and> i < 512"
  by (auto simp: path_def)

lemma path_mono: "path n p \<Longrightarrow> n \<le> k \<Longrightarrow> path k p"
  by (auto simp: path_def)

lemma path_up: "path 3 p \<Longrightarrow> path 4 p" "path 2 p \<Longrightarrow> path 4 p" "path 2 p \<Longrightarrow> path 3 p"
  by (auto intro: path_mono)

definition va_path :: "u64 \<Rightarrow> nat list" where
  "va_path va = [GET_PML4_INDEX va, GET_PDPT_INDEX va, GET_PD_INDEX va, GET_PT_INDEX va]"

lemma and_1FF: "unat (x AND 0x1FF :: u64) = unat x mod 512"
proof -
  have "x AND 0x1FF = take_bit 9 x"
    by (simp add: take_bit_eq_mask mask_eq_exp_minus_1)
  then show ?thesis by (simp add: take_bit_eq_mod unat_mod)
qed

lemma unat_shr: "unat (drop_bit n x) = unat x div 2 ^ n"
  unfolding unat_drop_bit_eq by (rule drop_bit_eq_div)

lemma index_value:
  "GET_PT_INDEX va = unat va div 4096 mod 512"
  "GET_PD_INDEX va = unat va div 4096 div 512 mod 512"
  "GET_PDPT_INDEX va = unat va div 4096 div 512 div 512 mod 512"
  "GET_PML4_INDEX va = unat va div 4096 div 512 div 512 div 512 mod 512"
  unfolding GET_PML4_INDEX_def GET_PDPT_INDEX_def GET_PD_INDEX_def GET_PT_INDEX_def and_1FF
  by (simp_all only: unat_shr div_mult2_eq [symmetric]) simp_all

lemma index_lt [simp]:
  "GET_PML4_INDEX va < 512" "GET_PDPT_INDEX va < 512" "GET_PD_INDEX va < 512" "GET_PT_INDEX va < 512"
  by (simp_all add: index_value)

lemma digits512:
  fixes w :: nat
  shows "w mod 2 ^ 36 = 512 * (512 * (512 * (w div 512 div 512 div 512 mod 512)
    + w div 512 div 512 mod 512) + w div 512 mod 512) + w mod 512"
proof -
  have "(2 :: nat) ^ 36 = 512 * (512 * (512 * 512))" by simp
  then show ?thesis by (simp only: mod_mult2_eq)
qed

text \<open>Two addresses have the same path only if their page numbers agree modulo \<open>2 ^ 36\<close>.\<close>

lemma va_path_eq:
  assumes "va_path a = va_path b"
  shows "unat a div 4096 mod 2 ^ 36 = unat b div 4096 mod 2 ^ 36"
  using assms unfolding digits512 by (simp only: va_path_def index_value list.inject)

lemma path_va [simp, intro]: "path 4 (va_path va)"
  by (simp add: path_def va_path_def)

section \<open>The shape of a page table tree\<close>

text \<open>
  The invariant of a tree rooted at \<open>root\<close>: a frame is a table for at most one path, and no
  page that is mapped is also a table; no frame in use is free in the allocator; tables lie
  below 64 GB (\<open>vmm_map_page\<close> truncates the address of a page directory to 36 bits); and no
  entry of a directory or directory pointer table is a large page.
\<close>

definition tree_wf :: "vmm \<Rightarrow> u64 \<Rightarrow> bool" where
  "tree_wf s root \<longleftrightarrow>
     (\<forall>p q f. path 3 p \<longrightarrow> path 4 q \<longrightarrow> walk (pmem s) root p = Some f \<longrightarrow>
        walk (pmem s) root q = Some f \<longrightarrow> p = q) \<and>
     (\<forall>p f. path 4 p \<longrightarrow> walk (pmem s) root p = Some f \<longrightarrow> unat f \<notin> free_pages (frames s)) \<and>
     (\<forall>p f. path 3 p \<longrightarrow> walk (pmem s) root p = Some f \<longrightarrow> unat f < 2 ^ 24) \<and>
     (\<forall>p f i. path 2 p \<longrightarrow> p \<noteq> [] \<longrightarrow> walk (pmem s) root p = Some f \<longrightarrow> i < 512 \<longrightarrow>
        \<not> get_ps (pmem s f i))"

lemma tree_inj:
  "tree_wf s root \<Longrightarrow> path 3 p \<Longrightarrow> path 4 q \<Longrightarrow> walk (pmem s) root p = Some f \<Longrightarrow>
   walk (pmem s) root q = Some f \<Longrightarrow> p = q"
  by (simp add: tree_wf_def)

lemma tree_used:
  "tree_wf s root \<Longrightarrow> path 4 p \<Longrightarrow> walk (pmem s) root p = Some f \<Longrightarrow> unat f \<notin> free_pages (frames s)"
  by (simp add: tree_wf_def)

lemma tree_low: "tree_wf s root \<Longrightarrow> path 3 p \<Longrightarrow> walk (pmem s) root p = Some f \<Longrightarrow> unat f < 2 ^ 24"
  by (simp add: tree_wf_def)

lemma tree_ps:
  "tree_wf s root \<Longrightarrow> path 2 p \<Longrightarrow> p \<noteq> [] \<Longrightarrow> walk (pmem s) root p = Some f \<Longrightarrow> i < 512 \<Longrightarrow>
   \<not> get_ps (pmem s f i)"
  by (simp add: tree_wf_def)

text \<open>Writing one entry of one table changes only the walks through that entry.\<close>

lemma walk_update_other:
  assumes inj: "\<And>q. path 3 q \<Longrightarrow> walk m root q = Some f \<Longrightarrow> q = p"
    and m': "\<And>g j. \<not> (g = f \<and> j = i) \<Longrightarrow> m' g j = m g j"
    and q: "path 4 q" "\<not> (\<exists>r. q = p @ i # r)"
  shows "walk m' root q = walk m root q"
  using q
proof (induction q rule: rev_induct)
  case (snoc j q)
  then have q3: "path 3 q" by (auto simp: path_def)
  have nex: "\<not> (\<exists>r. q = p @ i # r)" using snoc.prems(2) by auto
  have ih: "walk m' root q = walk m root q"
    by (rule snoc.IH [OF path_mono [OF q3] nex]) simp
  show ?case
  proof (cases "walk m root q")
    case (Some g)
    have "\<not> (g = f \<and> j = i)"
    proof
      assume "g = f \<and> j = i"
      with inj [OF q3] Some snoc.prems(2) show False by auto
    qed
    from m' [OF this] ih Some show ?thesis by (simp add: walk_snoc)
  qed (simp add: walk_snoc ih)
qed simp

lemma walk_update_here:
  assumes inj: "\<And>q. path 3 q \<Longrightarrow> walk m root q = Some f \<Longrightarrow> q = p"
    and m': "\<And>g j. \<not> (g = f \<and> j = i) \<Longrightarrow> m' g j = m g j"
    and p: "path 3 p" "walk m root p = Some f" "get_p (m' f i)"
  shows "walk m' root (p @ [i]) = Some (get_frame (m' f i))"
proof -
  have "walk m' root p = walk m root p"
    by (rule walk_update_other [OF inj m' path_mono [OF p(1)]]) auto
  with p show ?thesis by (simp add: walk_snoc)
qed

text \<open>Rewriting a frame that is no table changes no walk.\<close>

lemma walk_fresh_frame:
  assumes nt: "\<And>q. path 3 q \<Longrightarrow> walk m root q \<noteq> Some n"
    and m': "\<And>g. g \<noteq> n \<Longrightarrow> m' g = m g" and q: "path 4 q"
  shows "walk m' root q = walk m root q"
  using q
proof (induction q rule: rev_induct)
  case (snoc j q)
  then have q3: "path 3 q" by (auto simp: path_def)
  have ih: "walk m' root q = walk m root q"
    by (rule snoc.IH [OF path_mono [OF q3]]) simp
  show ?case
  proof (cases "walk m root q")
    case (Some g)
    with nt [OF q3] m' [of g] ih show ?thesis by (simp add: walk_snoc)
  qed (simp add: walk_snoc ih)
qed simp

text \<open>One level of \<open>vmm_map_page\<close>: a missing table is linked at the end of a path.\<close>

definition grow :: "vmm \<Rightarrow> u64 \<Rightarrow> nat \<Rightarrow> u64 \<Rightarrow> u64 \<Rightarrow> u64 \<Rightarrow> nat \<Rightarrow> u64" where
  "grow s f i n e = ((pmem s)(n := (\<lambda>k. if k < 512 then 0 else pmem s n k)))
     (f := (pmem s f)(i := e))"

lemma grow_walks:
  assumes wf: "tree_wf s root" and p: "path 2 p" "walk (pmem s) root p = Some f" "i < 512"
    and ab: "\<not> get_p (pmem s f i)" and n: "unat n \<in> free_pages (frames s)"
    and e: "get_p e" "get_frame e = n"
  shows "walk (grow s f i n e) root (p @ [i]) = Some n"
    and "\<And>q. path 4 q \<Longrightarrow> q \<noteq> p @ [i] \<Longrightarrow> walk (grow s f i n e) root q = walk (pmem s) root q"
proof -
  let ?m = "pmem s"
  define m1 where "m1 = (pmem s)(n := (\<lambda>k. if k < 512 then 0 else pmem s n k))"
  define m2 where "m2 = grow s f i n e"
  note p3 = path_up(3) [OF p(1)] and p4 = path_up(2) [OF p(1)]
  have nt: "walk ?m root q \<noteq> Some n" if "path 4 q" for q
    using tree_used [OF wf that] n by blast
  have m1: "walk m1 root q = walk ?m root q" if "path 4 q" for q
  proof (rule walk_fresh_frame [where n = n, OF _ _ that])
    show "walk ?m root r \<noteq> Some n" if "path 3 r" for r using nt [OF path_up(1) [OF that]] .
  qed (simp add: m1_def)
  have fn: "f \<noteq> n" using nt [OF p4] p(2) by blast
  have m2: "m2 g j = m1 g j" if "\<not> (g = f \<and> j = i)" for g j
    using that fn by (auto simp: m2_def m1_def grow_def)
  have m2f: "m2 f i = e" by (simp add: m2_def grow_def)
  have inj: "q = p" if "path 3 q" "walk m1 root q = Some f" for q
    using that tree_inj [OF wf that(1) p4] p(2) m1 [OF path_up(1) [OF that(1)]] by simp
  have "walk m1 root p = Some f" using p(2) m1 [OF p4] by simp
  from walk_update_here [OF inj m2 p3 this] have here: "walk m2 root (p @ [i]) = Some n"
    using e by (simp add: m2f)
  then show "walk (grow s f i n e) root (p @ [i]) = Some n" by (simp add: m2_def)
  fix q assume q: "path 4 q" "q \<noteq> p @ [i]"
  have "walk m2 root q = walk ?m root q"
  proof (cases "\<exists>r. q = p @ i # r")
    case False
    have "walk m2 root q = walk m1 root q"
      by (rule walk_update_other [OF inj m2 q(1) False])
    with m1 [OF q(1)] show ?thesis by simp
  next
    case True
    then obtain j r where r: "q = (p @ [i]) @ j # r"
      using q(2) by (metis append_Cons append_Nil append_assoc neq_Nil_conv)
    then have "j < 512" using q(1) by (auto simp: path_def)
    with fn have "\<not> get_p (m2 n j)" by (simp add: m2_def grow_def)
    with here have "walk m2 root q = None" unfolding r walk_append by simp
    moreover have "walk ?m root q = None" using p(2) ab unfolding r by (simp add: walk_append)
    ultimately show ?thesis by simp
  qed
  then show "walk (grow s f i n e) root q = walk ?m root q" by (simp add: m2_def)
qed

lemma tree_grow:
  assumes wf: "tree_wf s root" and p: "path 2 p" "walk (pmem s) root p = Some f" "i < 512"
    and ab: "\<not> get_p (pmem s f i)" and n: "unat n \<in> free_pages (frames s)" "unat n < 2 ^ 24"
    and e: "get_p e" "get_frame e = n" "p \<noteq> [] \<Longrightarrow> \<not> get_ps e"
    and s': "pmem s' = grow s f i n e" "free_pages (frames s') = free_pages (frames s) - {unat n}"
  shows "tree_wf s' root"
proof -
  note g = grow_walks [OF wf p ab n(1) e(1,2), folded s'(1)]
  note p4 = path_up(2) [OF p(1)]
  have nt: "walk (pmem s) root q \<noteq> Some n" if "path 4 q" for q
    using tree_used [OF wf that] n(1) by blast
  have fn: "f \<noteq> n" using nt [OF p4] p(2) by blast
  have w: "walk (pmem s') root q = Some x \<longleftrightarrow> (if q = p @ [i] then x = n else walk (pmem s) root q = Some x)"
    if "path 4 q" for q x using g that by auto
  have i1: "a = b" if "path 3 a" "path 4 b" "walk (pmem s') root a = Some x" "walk (pmem s') root b = Some x" for a b x
    using that w [OF path_up(1) [OF that(1)], of x] w [OF that(2), of x] nt [OF that(2)]
      nt [OF path_up(1) [OF that(1)]] tree_inj [OF wf that(1,2)] by (auto split: if_splits)
  have i2: "unat x \<notin> free_pages (frames s')" if "path 4 a" "walk (pmem s') root a = Some x" for a x
    using that w [OF that(1), of x] tree_used [OF wf that(1)] by (auto simp: s'(2) split: if_splits)
  have i3: "unat x < 2 ^ 24" if "path 3 a" "walk (pmem s') root a = Some x" for a x
    using that w [OF path_up(1) [OF that(1)], of x] tree_low [OF wf that(1)] n(2) by (auto split: if_splits)
  have i4: "\<not> get_ps (pmem s' x j)"
    if a: "path 2 a" "a \<noteq> []" "walk (pmem s') root a = Some x" "j < 512" for a x j
  proof (cases "a = p @ [i]")
    case True
    with a w [OF path_up(2) [OF a(1)], of x] have "x = n" by simp
    with fn a(4) show ?thesis by (simp add: s'(1) grow_def)
  next
    case False
    with a w [OF path_up(2) [OF a(1)], of x] have x: "walk (pmem s) root a = Some x" by simp
    have "x \<noteq> n" using nt [OF path_up(2) [OF a(1)]] x by auto
    moreover have "p \<noteq> []" if "x = f"
      using tree_inj [OF wf path_up(3) [OF p(1)] path_up(2) [OF a(1)]] x p(2) a(2) that by auto
    ultimately show ?thesis using tree_ps [OF wf a(1,2) x a(4)] e(3)
      by (auto simp: s'(1) grow_def)
  qed
  show ?thesis unfolding tree_wf_def using i1 i2 i3 i4 by blast
qed

text \<open>Writing the last level: a leaf entry.\<close>

lemma leaf_walks:
  assumes wf: "tree_wf s root" and p: "path 3 p" "walk (pmem s) root p = Some f"
    and m': "\<And>g j. \<not> (g = f \<and> j = i) \<Longrightarrow> m' g j = pmem s g j"
  shows "get_p (m' f i) \<Longrightarrow> walk m' root (p @ [i]) = Some (get_frame (m' f i))"
    and "\<not> get_p (m' f i) \<Longrightarrow> walk m' root (p @ [i]) = None"
    and "\<And>q. path 4 q \<Longrightarrow> \<not> (\<exists>r. q = p @ i # r) \<Longrightarrow> walk m' root q = walk (pmem s) root q"
proof -
  have inj: "q = p" if "path 3 q" "walk (pmem s) root q = Some f" for q
    using tree_inj [OF wf that(1) path_up(1) [OF p(1)] that(2) p(2)] .
  show o: "walk m' root q = walk (pmem s) root q" if "path 4 q" "\<not> (\<exists>r. q = p @ i # r)" for q
    by (rule walk_update_other [OF inj m' that])
  show "get_p (m' f i) \<Longrightarrow> walk m' root (p @ [i]) = Some (get_frame (m' f i))"
    by (rule walk_update_here [OF inj m' p])
  have "walk m' root p = Some f" using o [OF path_up(1) [OF p(1)]] p(2) by simp
  then show "\<not> get_p (m' f i) \<Longrightarrow> walk m' root (p @ [i]) = None" by (simp add: walk_snoc)
qed

lemma leaf_no_ext:
  assumes "length p = 3" "path 4 q" "q \<noteq> p @ [i]"
  shows "\<not> (\<exists>r. q = p @ i # r)"
  using assms by (auto simp: path_def)

lemma tree_leaf:
  assumes wf: "tree_wf s root" and p: "path 3 p" "length p = 3" "walk (pmem s) root p = Some f"
    and m': "\<And>g j. \<not> (g = f \<and> j = i) \<Longrightarrow> pmem s' g j = pmem s g j"
    and new: "\<And>x. walk (pmem s') root (p @ [i]) = Some x \<Longrightarrow>
        (\<forall>q. path 3 q \<longrightarrow> walk (pmem s) root q \<noteq> Some x) \<and> unat x \<notin> free_pages (frames s')"
    and fr: "\<And>q x. path 4 q \<Longrightarrow> q \<noteq> p @ [i] \<Longrightarrow> walk (pmem s) root q = Some x \<Longrightarrow>
        unat x \<notin> free_pages (frames s')"
  shows "tree_wf s' root"
proof -
  have o: "walk (pmem s') root q = walk (pmem s) root q" if "path 4 q" "q \<noteq> p @ [i]" for q
    by (rule leaf_walks(3) [OF wf p(1,3) m' that(1) leaf_no_ext [OF p(2) that]])
  have o3: "walk (pmem s') root q = walk (pmem s) root q" if "path 3 q" for q
    by (rule o [OF path_up(1) [OF that]]) (use that p(2) in \<open>auto simp: path_def\<close>)
  have i1: "a = b" if a: "path 3 a" "path 4 b" "walk (pmem s') root a = Some x" "walk (pmem s') root b = Some x" for a b x
  proof (cases "b = p @ [i]")
    case True
    with new a o3 [OF a(1)] show ?thesis by auto
  next
    case False
    with tree_inj [OF wf a(1,2)] a o [OF a(2) False] o3 [OF a(1)] show ?thesis by simp
  qed
  have i2: "unat x \<notin> free_pages (frames s')" if a: "path 4 a" "walk (pmem s') root a = Some x" for a x
    using new fr [OF a(1)] a o [OF a(1)] by (cases "a = p @ [i]") auto
  have i4: "\<not> get_ps (pmem s' x j)"
    if a: "path 2 a" "a \<noteq> []" "walk (pmem s') root a = Some x" "j < 512" for a x j
  proof -
    have x: "walk (pmem s) root a = Some x" using a(3) o3 [OF path_up(3) [OF a(1)]] by simp
    have "x \<noteq> f"
      using tree_inj [OF wf p(1) path_up(2) [OF a(1)] p(3)] x p(2) a(1) by (auto simp: path_def)
    with m' tree_ps [OF wf a(1,2) x a(4)] show ?thesis by simp
  qed
  have i3: "unat x < 2 ^ 24" if "path 3 a" "walk (pmem s') root a = Some x" for a x
    using tree_low [OF wf that(1)] that o3 by simp
  show ?thesis unfolding tree_wf_def using i1 i2 i3 i4 by blast
qed

section \<open>One level of a mapping\<close>

text \<open>The allocator manages less than 64 GB and page 0 is not free.\<close>

definition mem_ok :: "vmm \<Rightarrow> bool" where
  "mem_ok s \<longleftrightarrow> pmm_wf (frames s) \<and> unat (pmm_total_pages (frames s)) \<le> 2 ^ 24 \<and>
     0 \<notin> free_pages (frames s)"

lemma frame_shift: "unat f < 2 ^ 52 \<Longrightarrow> drop_bit 12 (push_bit 12 f :: u64) = f"
proof -
  assume "unat f < 2 ^ 52"
  then have "unat (push_bit 12 f) = unat f * 2 ^ 12"
    by (simp add: push_bit_eq_mult unat_mult_nowrap)
  then have "unat (drop_bit 12 (push_bit 12 f)) = unat f" by (simp only: unat_shr) simp
  then show ?thesis by (simp only: word_unat_eq_iff)
qed

lemma frame_trunc: "unat f < 2 ^ 40 \<Longrightarrow> take_bit 40 (f :: u64) = f"
  by (simp add: word_unat_eq_iff take_bit_eq_mod unat_mod)

lemma mask36: "unat f < 2 ^ 24 \<Longrightarrow> push_bit 12 f AND 0xFFFFFFFFF = (push_bit 12 f :: u64)"
proof -
  assume f: "unat f < 2 ^ 24"
  have "push_bit 12 f AND 0xFFFFFFFFF = take_bit 36 (push_bit 12 f)"
    by (simp add: take_bit_eq_mask mask_eq_exp_minus_1)
  also have "\<dots> = push_bit 12 f"
    using f by (simp add: word_unat_eq_iff take_bit_eq_mod unat_mod push_bit_eq_mult unat_mult_nowrap)
  finally show ?thesis .
qed

lemma link_entry_bits:
  "get_p (link_entry rw us t e)" "get_frame (link_entry rw us t e) = take_bit 40 (drop_bit 12 t)"
  "get_ps (link_entry rw us t e) = get_ps e"
  by (simp_all add: link_entry_def bit_set_other field_set_same bit_set_one)

lemma window_frame_enter:
  assumes "unat f < 2 ^ 40"
  shows "window_frame (snd (vmm_scratch_map_internal s (push_bit 12 f) 0)) 0 = f"
  using assms by (simp add: scratch_map_frame frame_shift frame_trunc)

lemma vmm_new_table_spec:
  assumes ok: "mem_ok s" and w: "0 \<le> w" "w \<le> 14" and ne: "free_pages (frames s) \<noteq> {}"
  shows "\<exists>n s'. vmm_new_table s w = Some (push_bit 12 n, s') \<and> unat n \<in> free_pages (frames s) \<and>
    unat n < 2 ^ 24 \<and> n \<noteq> 0 \<and> mem_ok s' \<and> free_pages (frames s') = free_pages (frames s) - {unat n} \<and>
    pmm_total_pages (frames s') = pmm_total_pages (frames s) \<and>
    pmem s' = (pmem s)(n := (\<lambda>k. if k < 512 then 0 else pmem s n k))"
proof -
  let ?p = "Min (free_pages (frames s))"
  define n :: u64 where "n = of_nat ?p"
  from ok have wf: "pmm_wf (frames s)" by (simp add: mem_ok_def)
  from ne have p: "?p \<in> free_pages (frames s)" by simp
  then have p24: "?p < 2 ^ 24" using ok by (auto simp: free_pages_def mem_ok_def)
  then have un: "unat n = ?p" unfolding n_def by (intro unat_of_nat_id) simp
  have n0: "n \<noteq> 0" using p un ok by (auto simp: mem_ok_def)
  from pmm_alloc_page_some [OF wf ne] obtain pm where
    pm: "pmm_alloc_page (frames s) = Some (push_bit 12 n, pm)" "pmm_wf pm"
      "free_pages pm = free_pages (frames s) - {unat n}"
      "pmm_total_pages pm = pmm_total_pages (frames s)"
    by (auto simp: un push_bit_eq_mult n_def [symmetric])
  let ?s1 = "snd (vmm_scratch_map_internal (s\<lparr>frames := pm\<rparr>) (push_bit 12 n) w)"
  have wf1: "window_frame ?s1 w = n"
    using w p24 un by (simp add: scratch_map_frame frame_shift frame_trunc)
  let ?s' = "zero_table ?s1 n"
  have "vmm_new_table s w = Some (push_bit 12 n, ?s')"
    using pm(1) wf1 by (simp add: vmm_new_table_def Let_def)
  moreover have "mem_ok ?s'"
    using ok pm by (auto simp: mem_ok_def zero_table_def)
  ultimately show ?thesis using p p24 un n0 pm
    by (intro exI [of _ n] exI [of _ ?s']) (simp add: zero_table_def cong: if_cong)
qed

text \<open>
  What one level promises: the table at the end of the path exists afterwards, its address is
  the result, and no other walk changes. At most one frame is taken.
\<close>

definition level_ok :: "vmm \<Rightarrow> vmm \<Rightarrow> u64 \<Rightarrow> nat list \<Rightarrow> u64 \<Rightarrow> bool" where
  "level_ok s s' root p f \<longleftrightarrow>
     mem_ok s' \<and> tree_wf s' root \<and> walk (pmem s') root p = Some f \<and> unat f < 2 ^ 24 \<and>
     (walk (pmem s) root p = Some f \<or> unat f \<in> free_pages (frames s)) \<and>
     (\<forall>q. path 4 q \<longrightarrow> q \<noteq> p \<longrightarrow> walk (pmem s') root q = walk (pmem s) root q) \<and>
     free_pages (frames s') \<subseteq> free_pages (frames s) \<and>
     card (free_pages (frames s)) \<le> Suc (card (free_pages (frames s')))"

lemma level_present:
  assumes "mem_ok s" "tree_wf s root" "path 2 p" "walk (pmem s) root p = Some f" "i < 512"
    "get_p (pmem s f i)" "pmem s' = pmem s" "frames s' = frames s"
  shows "level_ok s s' root (p @ [i]) (get_frame (pmem s f i))"
proof -
  have w: "walk (pmem s') root (p @ [i]) = Some (get_frame (pmem s f i))"
    using assms by (simp add: walk_snoc)
  have "path 3 (p @ [i])" using assms(3,5) by (auto simp: path_def)
  moreover have "tree_wf s' root" using assms(2,7,8) by (simp add: tree_wf_def)
  ultimately show ?thesis
    using assms w tree_low [of s'] by (simp add: level_ok_def mem_ok_def)
qed

lemma level_grow:
  assumes ok: "mem_ok s" and wf: "tree_wf s root" and p: "path 2 p" "walk (pmem s) root p = Some f" "i < 512"
    and ab: "\<not> get_p (pmem s f i)" and n: "unat n \<in> free_pages (frames s)" "unat n < 2 ^ 24"
    and e: "get_p e" "get_frame e = n" "p \<noteq> [] \<Longrightarrow> \<not> get_ps e"
    and s': "pmem s' = grow s f i n e" "free_pages (frames s') = free_pages (frames s) - {unat n}" "mem_ok s'"
  shows "level_ok s s' root (p @ [i]) n"
  unfolding level_ok_def
  using tree_grow [OF wf p ab n e s'(1,2)] grow_walks [OF wf p ab n(1) e(1,2)] n s'
  by (simp add: card_Suc_Diff1)

lemma new_table_grow:
  assumes n: "n \<noteq> f"
    and s1: "pmem s1 = (pmem s)(n := (\<lambda>k. if k < 512 then 0 else pmem s n k))"
  shows "read_entry s1 f i = pmem s f i" "pmem (write_entry s1 f i e) = grow s f i n e"
  using assms by (simp_all add: read_entry_def write_entry_def grow_def)

lemma write_entry_frames [simp]: "frames (write_entry s f i e) = frames s"
  by (simp add: write_entry_def)

lemma vmm_get_pdpt_spec:
  assumes ok: "mem_ok s" and wf: "tree_wf s root" and ne: "free_pages (frames s) \<noteq> {}"
  shows "\<exists>f s'. vmm_get_pdpt s root virt rw us = Some (push_bit 12 f, s') \<and>
     level_ok s s' root [GET_PML4_INDEX virt] f"
proof -
  let ?i = "GET_PML4_INDEX virt"
  have p: "path 2 []" "walk (pmem s) root [] = Some root" by (simp_all add: path_def)
  show ?thesis
  proof (cases "get_p (pmem s root ?i)")
    case True
    from level_present [OF ok wf p index_lt(1) True, of s] True show ?thesis
      by (auto simp: vmm_get_pdpt_def read_entry_def Let_def)
  next
    case False
    obtain n s1 where t: "vmm_new_table s 0 = Some (push_bit 12 n, s1)"
      and n: "unat n \<in> free_pages (frames s)" "unat n < 2 ^ 24"
      and s1: "mem_ok s1" "free_pages (frames s1) = free_pages (frames s) - {unat n}"
        "pmem s1 = (pmem s)(n := (\<lambda>k. if k < 512 then 0 else pmem s n k))"
      using vmm_new_table_spec [OF ok _ _ ne, of 0] by auto
    have nf: "n \<noteq> root" using tree_used [OF wf _ p(2)] n by (auto simp: path_def)
    let ?e = "link_entry rw us (push_bit 12 n) (pmem s root ?i)"
    let ?s' = "write_entry s1 root ?i ?e"
    have e: "get_p ?e" "get_frame ?e = n"
      using n(2) by (simp_all add: link_entry_bits frame_shift frame_trunc)
    have "level_ok s ?s' root ([] @ [?i]) n"
      by (rule level_grow [OF ok wf p index_lt(1) False n e])
        (use new_table_grow [OF nf s1(3)] s1 in \<open>auto simp: mem_ok_def\<close>)
    moreover have "vmm_get_pdpt s root virt rw us = Some (push_bit 12 n, ?s')"
      using False t new_table_grow [OF nf s1(3)] by (simp add: vmm_get_pdpt_def read_entry_def Let_def)
    ultimately show ?thesis by auto
  qed
qed

lemma vmm_get_pd_spec:
  assumes ok: "mem_ok s0" and wf: "tree_wf s0 root" and ne: "free_pages (frames s0) \<noteq> {}"
    and p: "path 1 p" "length p = 1" "walk (pmem s0) root p = Some f"
  shows "\<exists>g s'. vmm_get_pd s0 (push_bit 12 f) virt rw us = Some (push_bit 12 g, s') \<and>
     level_ok s0 s' root (p @ [GET_PDPT_INDEX virt]) g"
proof -
  let ?i = "GET_PDPT_INDEX virt"
  define s where "s = snd (vmm_scratch_map_internal s0 (push_bit 12 f) 0)"
  have p2: "path 2 p" and p3: "path 3 p" and p4: "path 4 p" using p(1) by (auto simp: path_def)
  have f24: "unat f < 2 ^ 24" using tree_low [OF wf p3 p(3)] .
  then have win: "window_frame s 0 = f" unfolding s_def by (intro window_frame_enter) simp
  have s: "pmem s = pmem s0" "frames s = frames s0" by (simp_all add: s_def)
  then have ok': "mem_ok s" using ok by (simp add: mem_ok_def)
  have pne: "p \<noteq> []" using p(2) by auto
  show ?thesis
  proof (cases "get_p (pmem s0 f ?i)")
    case True
    let ?g = "get_frame (pmem s0 f ?i)"
    have lv: "level_ok s0 s root (p @ [?i]) ?g"
      by (rule level_present [OF ok wf p2 p(3) index_lt(2) True s])
    then have "unat ?g < 2 ^ 24" by (simp add: level_ok_def)
    then have "vmm_get_pd s0 (push_bit 12 f) virt rw us = Some (push_bit 12 ?g, s)"
      using True win s mask36 by (simp add: vmm_get_pd_def s_def [symmetric] Let_def read_entry_def)
    with lv show ?thesis by auto
  next
    case False
    obtain n s1 where t: "vmm_new_table s 1 = Some (push_bit 12 n, s1)"
      and n: "unat n \<in> free_pages (frames s0)" "unat n < 2 ^ 24"
      and s1: "mem_ok s1" "free_pages (frames s1) = free_pages (frames s0) - {unat n}"
        "pmem s1 = (pmem s0)(n := (\<lambda>k. if k < 512 then 0 else pmem s0 n k))"
      using vmm_new_table_spec [OF ok', of 1] ne by (auto simp: s cong: if_cong)
    have nf: "n \<noteq> f" using tree_used [OF wf p4 p(3)] n by auto
    let ?e = "link_entry rw us (push_bit 12 n) (pmem s0 f ?i)"
    let ?s' = "write_entry s1 f ?i ?e"
    have e: "get_p ?e" "get_frame ?e = n" "\<not> get_ps ?e"
      using n(2) tree_ps [OF wf p2 pne p(3) index_lt(2)]
      by (simp_all add: link_entry_bits frame_shift frame_trunc)
    have "level_ok s0 ?s' root (p @ [?i]) n"
      by (rule level_grow [OF ok wf p2 p(3) index_lt(2) False n e])
        (use new_table_grow [OF nf s1(3)] s1 in \<open>auto simp: mem_ok_def\<close>)
    moreover have "vmm_get_pd s0 (push_bit 12 f) virt rw us = Some (push_bit 12 n, ?s')"
      using False t win s new_table_grow [OF nf s1(3)]
      by (simp add: vmm_get_pd_def s_def [symmetric] read_entry_def Let_def)
    ultimately show ?thesis by auto
  qed
qed

lemma vmm_get_pt_spec:
  assumes ok: "mem_ok s0" and wf: "tree_wf s0 root" and ne: "free_pages (frames s0) \<noteq> {}"
    and p: "path 2 p" "length p = 2" "walk (pmem s0) root p = Some f"
  shows "\<exists>g s'. vmm_get_pt s0 (push_bit 12 f) virt rw us = Some (push_bit 12 g, s') \<and>
     level_ok s0 s' root (p @ [GET_PD_INDEX virt]) g"
proof -
  let ?i = "GET_PD_INDEX virt"
  define s where "s = snd (vmm_scratch_map_internal s0 (push_bit 12 f) 0)"
  have f24: "unat f < 2 ^ 24" using tree_low [OF wf path_up(3) [OF p(1)] p(3)] .
  then have win: "window_frame s 0 = f" unfolding s_def by (intro window_frame_enter) simp
  have s: "pmem s = pmem s0" "frames s = frames s0" by (simp_all add: s_def)
  then have ok': "mem_ok s" using ok by (simp add: mem_ok_def)
  show ?thesis
  proof (cases "get_p (pmem s0 f ?i)")
    case True
    have "level_ok s0 s root (p @ [?i]) (get_frame (pmem s0 f ?i))"
      by (rule level_present [OF ok wf p(1,3) index_lt(3) True s])
    then show ?thesis
      using True win s by (auto simp: vmm_get_pt_def s_def [symmetric] Let_def read_entry_def)
  next
    case False
    obtain n s1 where t: "vmm_new_table s 1 = Some (push_bit 12 n, s1)"
      and n: "unat n \<in> free_pages (frames s0)" "unat n < 2 ^ 24"
      and s1: "mem_ok s1" "free_pages (frames s1) = free_pages (frames s0) - {unat n}"
        "pmem s1 = (pmem s0)(n := (\<lambda>k. if k < 512 then 0 else pmem s0 n k))"
      using vmm_new_table_spec [OF ok', of 1] ne by (auto simp: s cong: if_cong)
    have nf: "n \<noteq> f" using tree_used [OF wf path_up(2) [OF p(1)] p(3)] n by auto
    let ?e = "set_field 12 40 (drop_bit 12 (push_bit 12 n)) (set_field 7 1 0 (set_field 2 1 us
              (set_field 1 1 rw (set_field 0 1 1 (pmem s0 f ?i)))))"
    let ?s' = "write_entry s1 f ?i ?e"
    have e: "get_p ?e" "get_frame ?e = n" "\<not> get_ps ?e"
      using n(2) by (simp_all add: frame_shift frame_trunc field_set_same bit_set_other bit_set_one)
    have "level_ok s0 ?s' root (p @ [?i]) n"
      by (rule level_grow [OF ok wf p(1,3) index_lt(3) False n e])
        (use new_table_grow [OF nf s1(3)] s1 in \<open>auto simp: mem_ok_def\<close>)
    moreover have "vmm_get_pt s0 (push_bit 12 f) virt rw us = Some (push_bit 12 n, ?s')"
      using False t win s new_table_grow [OF nf s1(3)]
      by (simp add: vmm_get_pt_def s_def [symmetric] read_entry_def Let_def)
    ultimately show ?thesis by auto
  qed
qed

text \<open>A frame that is in use but no table stays one while levels are added.\<close>

definition plain_frame :: "vmm \<Rightarrow> u64 \<Rightarrow> u64 \<Rightarrow> bool" where
  "plain_frame s root x \<longleftrightarrow>
     unat x \<notin> free_pages (frames s) \<and> (\<forall>q. path 3 q \<longrightarrow> walk (pmem s) root q \<noteq> Some x)"

lemma level_plain:
  assumes "level_ok s s' root p f" "plain_frame s root x" "path 3 p"
  shows "plain_frame s' root x"
proof -
  have "walk (pmem s') root q \<noteq> Some x" if "path 3 q" for q
    using assms that path_up(1) [OF that] by (cases "q = p") (auto simp: level_ok_def plain_frame_def)
  with assms(1,2) show ?thesis by (auto simp: level_ok_def plain_frame_def)
qed

lemma level_leaf_walk:
  assumes "level_ok s s' root p f" "length p \<le> 3"
  shows "walk (pmem s') root (va_path va) = walk (pmem s) root (va_path va)"
proof -
  have "va_path va \<noteq> p" using assms(2) by (auto simp: va_path_def)
  with assms(1) show ?thesis by (simp add: level_ok_def)
qed

lemma level_card: "level_ok s s' root p f \<Longrightarrow> Suc n \<le> card (free_pages (frames s)) \<Longrightarrow>
    n \<le> card (free_pages (frames s'))"
  by (simp add: level_ok_def)

lemma card_pos_ne: "Suc n \<le> card (free_pages s) \<Longrightarrow> free_pages s \<noteq> {}"
  by auto

text \<open>The three upper levels together: the page table for an address exists afterwards.\<close>

lemma vmm_levels:
  assumes ok: "mem_ok s" and wf: "tree_wf s root" and c: "3 \<le> card (free_pages (frames s))"
  shows "\<exists>f1 s1 f2 s2 f3 s3.
     vmm_get_pdpt s root virt rw us = Some (push_bit 12 f1, s1) \<and>
     vmm_get_pd s1 (push_bit 12 f1) virt rw us = Some (push_bit 12 f2, s2) \<and>
     vmm_get_pt s2 (push_bit 12 f2) virt rw us = Some (push_bit 12 f3, s3) \<and>
     level_ok s s1 root [GET_PML4_INDEX virt] f1 \<and>
     level_ok s1 s2 root [GET_PML4_INDEX virt, GET_PDPT_INDEX virt] f2 \<and>
     level_ok s2 s3 root [GET_PML4_INDEX virt, GET_PDPT_INDEX virt, GET_PD_INDEX virt] f3"
proof -
  let ?i4 = "GET_PML4_INDEX virt" and ?i3 = "GET_PDPT_INDEX virt"
  have c3: "Suc 2 \<le> card (free_pages (frames s))" using c by simp
  from vmm_get_pdpt_spec [OF ok wf card_pos_ne [OF c3]] obtain f1 s1 where
    l1: "vmm_get_pdpt s root virt rw us = Some (push_bit 12 f1, s1)" "level_ok s s1 root [?i4] f1"
    by blast
  from level_card [OF l1(2) c3] have c2: "Suc 1 \<le> card (free_pages (frames s1))" by simp
  from l1(2) have "mem_ok s1" "tree_wf s1 root" "walk (pmem s1) root [?i4] = Some f1"
    by (simp_all only: level_ok_def)
  from vmm_get_pd_spec [where virt = virt and rw = rw and us = us,
      OF this(1,2) card_pos_ne [OF c2] _ _ this(3)] obtain f2 s2 where
    l2: "vmm_get_pd s1 (push_bit 12 f1) virt rw us = Some (push_bit 12 f2, s2)"
      "level_ok s1 s2 root [?i4, ?i3] f2"
    by (auto simp: path_def)
  from level_card [OF l2(2) c2] have c1: "Suc 0 \<le> card (free_pages (frames s2))" by simp
  from l2(2) have "mem_ok s2" "tree_wf s2 root" "walk (pmem s2) root [?i4, ?i3] = Some f2"
    by (simp_all only: level_ok_def)
  from vmm_get_pt_spec [where virt = virt and rw = rw and us = us,
      OF this(1,2) card_pos_ne [OF c1] _ _ this(3)] obtain f3 s3 where
    "vmm_get_pt s2 (push_bit 12 f2) virt rw us = Some (push_bit 12 f3, s3)"
      "level_ok s2 s3 root [?i4, ?i3, GET_PD_INDEX virt] f3"
    by (auto simp: path_def)
  with l1 l2 show ?thesis by blast
qed

lemma plain_frame_leaf:
  assumes wf: "tree_wf s root" and p: "path 3 p" "length p = 3" "walk (pmem s) root p = Some f"
    and m': "\<And>g j. \<not> (g = f \<and> j = i) \<Longrightarrow> pmem s' g j = pmem s g j"
    and fr: "frames s' = frames s" and x: "plain_frame s root x"
  shows "plain_frame s' root x"
proof -
  have "walk (pmem s') root q = walk (pmem s) root q" if "path 3 q" for q
    by (rule leaf_walks(3) [OF wf p(1,3) m' path_up(1) [OF that]]) (use that p(2) in \<open>auto simp: path_def\<close>)
  with x fr show ?thesis by (simp add: plain_frame_def)
qed

lemma vmm_map_page_spec:
  assumes ok: "mem_ok s" and wf: "tree_wf s root" and c: "3 \<le> card (free_pages (frames s))"
    and f: "unat f < 2 ^ 40" "plain_frame s root f"
  shows "\<exists>s'. vmm_map_page s root virt (push_bit 12 f) flags = Some s' \<and> mem_ok s' \<and>
     tree_wf s' root \<and> walk (pmem s') root (va_path virt) = Some f \<and>
     (\<forall>va. va_path va \<noteq> va_path virt \<longrightarrow>
        walk (pmem s') root (va_path va) = walk (pmem s) root (va_path va)) \<and>
     (\<forall>x. plain_frame s root x \<longrightarrow> plain_frame s' root x) \<and>
     free_pages (frames s') \<subseteq> free_pages (frames s) \<and>
     card (free_pages (frames s)) \<le> card (free_pages (frames s')) + 3"
proof -
  define rw us :: u64 where "rw = (if bit flags 1 then 1 else 0)" and "us = (if bit flags 2 then 1 else 0)"
  let ?p = "[GET_PML4_INDEX virt, GET_PDPT_INDEX virt, GET_PD_INDEX virt]" and ?i = "GET_PT_INDEX virt"
  obtain f1 s1 f2 s2 f3 s3 where
    r: "vmm_get_pdpt s root virt rw us = Some (push_bit 12 f1, s1)"
      "vmm_get_pd s1 (push_bit 12 f1) virt rw us = Some (push_bit 12 f2, s2)"
      "vmm_get_pt s2 (push_bit 12 f2) virt rw us = Some (push_bit 12 f3, s3)"
    and l: "level_ok s s1 root [GET_PML4_INDEX virt] f1"
      "level_ok s1 s2 root [GET_PML4_INDEX virt, GET_PDPT_INDEX virt] f2"
      "level_ok s2 s3 root ?p f3"
    using vmm_levels [OF ok wf c] by blast
  have w3: "walk (pmem s3) root (va_path va) = walk (pmem s) root (va_path va)" for va
    using level_leaf_walk [OF l(1)] level_leaf_walk [OF l(2)] level_leaf_walk [OF l(3)] by simp
  have pls: "plain_frame s3 root x" if "plain_frame s root x" for x
    using level_plain [OF l(3) level_plain [OF l(2) level_plain [OF l(1) that]]] by (simp add: path_def)
  note pl = pls [OF f(2)]
  from l(3) have s3: "mem_ok s3" "tree_wf s3 root" "walk (pmem s3) root ?p = Some f3" "unat f3 < 2 ^ 24"
    by (simp_all only: level_ok_def)
  define s4 where "s4 = snd (vmm_scratch_map_internal s3 (push_bit 12 f3) 0)"
  have win: "window_frame s4 0 = f3" unfolding s4_def by (rule window_frame_enter) (use s3(4) in simp)
  have s4: "pmem s4 = pmem s3" "frames s4 = frames s3" by (simp_all add: s4_def)
  define e where "e = set_field 63 1 (if bit flags 63 then 1 else 0)
     (link_entry rw us (push_bit 12 f) (pmem s3 f3 ?i))"
  have e: "get_p e" "get_frame e = f"
    using f(1) by (simp_all add: e_def bit_set_other field_set_other link_entry_bits frame_shift frame_trunc)
  define s' where "s' = write_entry s4 f3 ?i e"
  have res: "vmm_map_page s root virt (push_bit 12 f) flags = Some s'"
    unfolding vmm_map_page_def Let_def rw_def [symmetric] us_def [symmetric]
    by (simp add: r s4_def [symmetric] win s4(1) s'_def e_def read_entry_def)
  have fr: "frames s' = frames s3" by (simp add: s'_def s4)
  have m': "pmem s' g j = pmem s3 g j" if "\<not> (g = f3 \<and> j = ?i)" for g j
    using that by (auto simp: s'_def write_entry_def s4)
  have e': "pmem s' f3 ?i = e" by (simp add: s'_def write_entry_def)
  have p3: "path 3 ?p" "length ?p = 3" by (simp_all add: path_def)
  have "walk (pmem s') root (?p @ [?i]) = Some (get_frame (pmem s' f3 ?i))"
    by (rule leaf_walks(1) [OF s3(2) p3(1) s3(3) m']) (simp_all add: e e')
  then have here: "walk (pmem s') root (?p @ [?i]) = Some f" by (simp only: e e')
  have vp: "?p @ [?i] = va_path virt" by (simp add: va_path_def)
  have "tree_wf s' root"
    by (rule tree_leaf [OF s3(2) p3 s3(3) m'])
      (use here pl tree_used [OF s3(2)] in \<open>auto simp: plain_frame_def fr\<close>)
  moreover have "walk (pmem s') root (va_path va) = walk (pmem s) root (va_path va)"
    if "va_path va \<noteq> va_path virt" for va
  proof -
    from that vp have ne: "va_path va \<noteq> ?p @ [?i]" by simp
    have "walk (pmem s') root (va_path va) = walk (pmem s3) root (va_path va)"
      by (rule leaf_walks(3) [OF s3(2) p3(1) s3(3) m' path_va leaf_no_ext [OF p3(2) path_va ne]])
    with w3 show ?thesis by simp
  qed
  moreover have "free_pages (frames s') \<subseteq> free_pages (frames s)"
    "card (free_pages (frames s)) \<le> card (free_pages (frames s')) + 3"
    using l by (auto simp: level_ok_def fr)
  moreover have "plain_frame s' root x" if "plain_frame s root x" for x
    by (rule plain_frame_leaf [OF s3(2) p3 s3(3) m' fr pls [OF that]])
  moreover have "mem_ok s'" using s3(1) by (simp add: mem_ok_def fr)
  moreover have "walk (pmem s') root (va_path virt) = Some f" using here unfolding vp .
  ultimately show ?thesis using res by blast
qed

section \<open>Reading and removing a mapping\<close>

lemma vmm_enter_table:
  assumes "unat f < 2 ^ 40"
  shows "vmm_enter s (push_bit 12 f) = (snd (vmm_scratch_map_internal s (push_bit 12 f) 0), f)"
  using window_frame_enter [OF assms] by (simp add: vmm_enter_def Let_def)

text \<open>The three tables above a page, when they are all there.\<close>

lemma walk_levels:
  assumes wf: "tree_wf s root" and w: "walk (pmem s) root (va_path va) = Some f"
  obtains f1 f2 f3 where
    "get_p (pmem s root (GET_PML4_INDEX va))" "get_frame (pmem s root (GET_PML4_INDEX va)) = f1"
    "get_p (pmem s f1 (GET_PDPT_INDEX va))" "get_frame (pmem s f1 (GET_PDPT_INDEX va)) = f2"
    "get_p (pmem s f2 (GET_PD_INDEX va))" "get_frame (pmem s f2 (GET_PD_INDEX va)) = f3"
    "get_p (pmem s f3 (GET_PT_INDEX va))" "get_frame (pmem s f3 (GET_PT_INDEX va)) = f"
    "unat f1 < 2 ^ 40" "unat f2 < 2 ^ 40" "unat f3 < 2 ^ 40"
    "\<not> get_ps (pmem s f1 (GET_PDPT_INDEX va))" "\<not> get_ps (pmem s f2 (GET_PD_INDEX va))"
    "walk (pmem s) root [GET_PML4_INDEX va, GET_PDPT_INDEX va, GET_PD_INDEX va] = Some f3"
proof -
  let ?i4 = "GET_PML4_INDEX va" and ?i3 = "GET_PDPT_INDEX va" and ?i2 = "GET_PD_INDEX va"
  define f1 f2 f3 where "f1 = get_frame (pmem s root ?i4)" and "f2 = get_frame (pmem s f1 ?i3)"
    and "f3 = get_frame (pmem s f2 ?i2)"
  have p: "path 3 [?i4]" "path 3 [?i4, ?i3]" "path 3 [?i4, ?i3, ?i2]"
    "path 2 [?i4]" "path 2 [?i4, ?i3]" by (simp_all add: path_def)
  from w have P: "get_p (pmem s root ?i4)" "get_p (pmem s f1 ?i3)" "get_p (pmem s f2 ?i2)"
    "get_p (pmem s f3 (GET_PT_INDEX va))" "get_frame (pmem s f3 (GET_PT_INDEX va)) = f"
    by (simp_all add: va_path_def f1_def f2_def f3_def split: if_splits)
  then have W: "walk (pmem s) root [?i4] = Some f1" "walk (pmem s) root [?i4, ?i3] = Some f2"
    "walk (pmem s) root [?i4, ?i3, ?i2] = Some f3"
    by (simp_all add: f1_def f2_def f3_def)
  have "unat f1 < 2 ^ 40" "unat f2 < 2 ^ 40" "unat f3 < 2 ^ 40"
    using tree_low [OF wf p(1) W(1)] tree_low [OF wf p(2) W(2)] tree_low [OF wf p(3) W(3)] by simp_all
  moreover have "\<not> get_ps (pmem s f1 ?i3)" "\<not> get_ps (pmem s f2 ?i2)"
    using tree_ps [OF wf p(4) _ W(1)] tree_ps [OF wf p(5) _ W(2)] by simp_all
  ultimately show ?thesis using that P W f1_def f2_def f3_def by blast
qed

text \<open>A page that is not mapped: some level is missing.\<close>

lemma walk_missing:
  assumes wf: "tree_wf s root" and w: "walk (pmem s) root (va_path va) = None"
  obtains (pml4) "\<not> get_p (pmem s root (GET_PML4_INDEX va))"
  | (pdpt) f1 where "get_p (pmem s root (GET_PML4_INDEX va))"
      "get_frame (pmem s root (GET_PML4_INDEX va)) = f1" "unat f1 < 2 ^ 40"
      "\<not> get_p (pmem s f1 (GET_PDPT_INDEX va))"
  | (pd) f1 f2 where "get_p (pmem s root (GET_PML4_INDEX va))"
      "get_frame (pmem s root (GET_PML4_INDEX va)) = f1" "unat f1 < 2 ^ 40"
      "get_p (pmem s f1 (GET_PDPT_INDEX va))" "\<not> get_ps (pmem s f1 (GET_PDPT_INDEX va))"
      "get_frame (pmem s f1 (GET_PDPT_INDEX va)) = f2" "unat f2 < 2 ^ 40"
      "\<not> get_p (pmem s f2 (GET_PD_INDEX va))"
  | (pt) f1 f2 f3 where "get_p (pmem s root (GET_PML4_INDEX va))"
      "get_frame (pmem s root (GET_PML4_INDEX va)) = f1" "unat f1 < 2 ^ 40"
      "get_p (pmem s f1 (GET_PDPT_INDEX va))" "\<not> get_ps (pmem s f1 (GET_PDPT_INDEX va))"
      "get_frame (pmem s f1 (GET_PDPT_INDEX va)) = f2" "unat f2 < 2 ^ 40"
      "get_p (pmem s f2 (GET_PD_INDEX va))" "\<not> get_ps (pmem s f2 (GET_PD_INDEX va))"
      "get_frame (pmem s f2 (GET_PD_INDEX va)) = f3" "unat f3 < 2 ^ 40"
      "\<not> get_p (pmem s f3 (GET_PT_INDEX va))"
proof -
  let ?i4 = "GET_PML4_INDEX va" and ?i3 = "GET_PDPT_INDEX va" and ?i2 = "GET_PD_INDEX va"
  define f1 f2 f3 where "f1 = get_frame (pmem s root ?i4)" and "f2 = get_frame (pmem s f1 ?i3)"
    and "f3 = get_frame (pmem s f2 ?i2)"
  have p: "path 3 [?i4]" "path 3 [?i4, ?i3]" "path 3 [?i4, ?i3, ?i2]"
    "path 2 [?i4]" "path 2 [?i4, ?i3]" by (simp_all add: path_def)
  have b1: "unat f1 < 2 ^ 40 \<and> \<not> get_ps (pmem s f1 ?i3)" if "get_p (pmem s root ?i4)"
  proof -
    have "walk (pmem s) root [?i4] = Some f1" using that by (simp add: f1_def)
    from tree_low [OF wf p(1) this] tree_ps [OF wf p(4) _ this] show ?thesis by simp
  qed
  have b2: "unat f2 < 2 ^ 40 \<and> \<not> get_ps (pmem s f2 ?i2)"
    if "get_p (pmem s root ?i4)" "get_p (pmem s f1 ?i3)"
  proof -
    have "walk (pmem s) root [?i4, ?i3] = Some f2" using that by (simp add: f1_def f2_def)
    from tree_low [OF wf p(2) this] tree_ps [OF wf p(5) _ this] show ?thesis by simp
  qed
  have b3: "unat f3 < 2 ^ 40"
    if "get_p (pmem s root ?i4)" "get_p (pmem s f1 ?i3)" "get_p (pmem s f2 ?i2)"
  proof -
    have "walk (pmem s) root [?i4, ?i3, ?i2] = Some f3" using that by (simp add: f1_def f2_def f3_def)
    from tree_low [OF wf p(3) this] show ?thesis by simp
  qed
  have "get_p (pmem s f3 (GET_PT_INDEX va)) \<Longrightarrow> get_p (pmem s f2 ?i2) \<Longrightarrow> get_p (pmem s f1 ?i3) \<Longrightarrow>
      get_p (pmem s root ?i4) \<Longrightarrow> False"
    using w by (simp add: va_path_def f1_def f2_def f3_def)
  then show ?thesis using pml4 pdpt pd pt b1 b2 b3 f1_def f2_def f3_def by blast
qed

lemma vmm_get_physical_address_walk:
  assumes "tree_wf s root"
  shows "fst (vmm_get_physical_address s root va) =
      (case walk (pmem s) root (va_path va) of Some f \<Rightarrow> push_bit 12 f | None \<Rightarrow> 0)"
proof (cases "walk (pmem s) root (va_path va)")
  case (Some f)
  from assms Some show ?thesis
    by (cases rule: walk_levels)
      (simp add: Some vmm_get_physical_address_def read_entry_def vmm_enter_table Let_def)
next
  case None
  from assms None show ?thesis
    by (cases rule: walk_missing)
      (simp_all add: None vmm_get_physical_address_def read_entry_def vmm_enter_table Let_def)
qed

lemma vmm_get_physical_walk:
  assumes "tree_wf s root"
  shows "fst (vmm_get_physical s root va) =
      (case walk (pmem s) root (va_path va) of Some f \<Rightarrow> push_bit 12 f OR (va AND 0xFFF) | None \<Rightarrow> 0)"
proof (cases "walk (pmem s) root (va_path va)")
  case (Some f)
  from assms Some show ?thesis
    by (cases rule: walk_levels)
      (simp add: Some vmm_get_physical_def read_entry_def vmm_enter_table Let_def)
next
  case None
  from assms None show ?thesis
    by (cases rule: walk_missing)
      (simp_all add: None vmm_get_physical_def read_entry_def vmm_enter_table Let_def)
qed

text \<open>
  Removing a mapping: nothing happens to a page that is not mapped; a mapped page loses its
  mapping and its frame goes back to the allocator. The frame must be mapped only there, or
  the tree would keep a free frame.
\<close>

definition sole_mapping :: "vmm \<Rightarrow> u64 \<Rightarrow> u64 \<Rightarrow> bool" where
  "sole_mapping s root va \<longleftrightarrow>
     (\<forall>f. walk (pmem s) root (va_path va) = Some f \<longrightarrow>
        0 < unat f \<and> unat f < unat (pmm_total_pages (frames s)) \<and>
        (\<forall>q. path 4 q \<longrightarrow> walk (pmem s) root q = Some f \<longrightarrow> q = va_path va))"

lemma vmm_unmap_page_none:
  assumes wf: "tree_wf s root" and w: "walk (pmem s) root (va_path va) = None"
  shows "\<exists>s'. vmm_unmap_page s root va = Some s' \<and> pmem s' = pmem s \<and> frames s' = frames s"
  using assms
  by (cases rule: walk_missing) (simp_all add: vmm_unmap_page_def read_entry_def vmm_enter_table Let_def)

lemma vmm_unmap_page_some:
  assumes ok: "mem_ok s" and wf: "tree_wf s root" and so: "sole_mapping s root va"
    and w: "walk (pmem s) root (va_path va) = Some f"
  shows "\<exists>s'. vmm_unmap_page s root va = Some s' \<and> mem_ok s' \<and> tree_wf s' root \<and>
     walk (pmem s') root (va_path va) = None \<and>
     (\<forall>q. path 4 q \<longrightarrow> q \<noteq> va_path va \<longrightarrow> walk (pmem s') root q = walk (pmem s) root q) \<and>
     free_pages (frames s') = insert (unat f) (free_pages (frames s)) \<and>
     pmm_total_pages (frames s') = pmm_total_pages (frames s)"
proof -
  let ?p = "[GET_PML4_INDEX va, GET_PDPT_INDEX va, GET_PD_INDEX va]" and ?i = "GET_PT_INDEX va"
  from walk_levels [OF wf w] obtain f1 f2 f3 where
    L: "get_p (pmem s root (GET_PML4_INDEX va))" "get_frame (pmem s root (GET_PML4_INDEX va)) = f1"
    "get_p (pmem s f1 (GET_PDPT_INDEX va))" "get_frame (pmem s f1 (GET_PDPT_INDEX va)) = f2"
    "get_p (pmem s f2 (GET_PD_INDEX va))" "get_frame (pmem s f2 (GET_PD_INDEX va)) = f3"
    "get_p (pmem s f3 ?i)" "get_frame (pmem s f3 ?i) = f"
    "unat f1 < 2 ^ 40" "unat f2 < 2 ^ 40" "unat f3 < 2 ^ 40" and W: "walk (pmem s) root ?p = Some f3"
    by blast
  from so w have f: "0 < unat f" "unat f < unat (pmm_total_pages (frames s))"
    and only: "\<And>q. path 4 q \<Longrightarrow> walk (pmem s) root q = Some f \<Longrightarrow> q = va_path va"
    unfolding sole_mapping_def by blast+
  from ok have pw: "pmm_wf (frames s)" and f24: "unat f < 2 ^ 24" using f by (auto simp: mem_ok_def)
  have a: "unat (push_bit 12 f) = unat f * 4096"
    using f24 by (simp add: push_bit_eq_mult unat_mult_nowrap)
  then have a0: "push_bit 12 f \<noteq> 0" using f(1) by (metis mult_is_0 unat_0 less_irrefl numeral_neq_zero)
  from pmm_free_page_spec [OF pw, of "push_bit 12 f"] a0 f obtain pm where
    pm: "pmm_free_page (frames s) (push_bit 12 f) = Some pm" "pmm_wf pm"
      "pmm_total_pages pm = pmm_total_pages (frames s)" "free_pages pm = insert (unat f) (free_pages (frames s))"
    by (auto simp: a)
  define e where "e = set_field 12 40 0 (set_field 0 1 0 (pmem s f3 ?i))"
  have e: "\<not> get_p e" by (simp add: e_def bit_set_other bit_set_one)
  obtain s' where s': "vmm_unmap_page s root va = Some s'" "frames s' = pm"
    "pmem s' = (pmem s)(f3 := (pmem s f3)(?i := e))"
    using L pm(1) by (simp add: vmm_unmap_page_def read_entry_def vmm_enter_table write_entry_def
        Let_def e_def)
  have m': "pmem s' g j = pmem s g j" if "\<not> (g = f3 \<and> j = ?i)" for g j using that by (auto simp: s'(3))
  have e': "pmem s' f3 ?i = e" by (simp add: s'(3))
  have p3: "path 3 ?p" "length ?p = 3" by (simp_all add: path_def)
  have vp: "?p @ [?i] = va_path va" by (simp add: va_path_def)
  have here: "walk (pmem s') root (va_path va) = None"
    unfolding vp [symmetric] by (rule leaf_walks(2) [OF wf p3(1) W m']) (simp_all add: e e')
  have other: "walk (pmem s') root q = walk (pmem s) root q" if "path 4 q" "q \<noteq> va_path va" for q
  proof -
    from that(2) vp have ne: "q \<noteq> ?p @ [?i]" by simp
    show ?thesis by (rule leaf_walks(3) [OF wf p3(1) W m' that(1) leaf_no_ext [OF p3(2) that(1) ne]])
  qed
  have "tree_wf s' root"
  proof (rule tree_leaf [OF wf p3 W, where s' = s' and i = ?i])
    fix q x
    assume q: "path 4 q" "q \<noteq> ?p @ [?i]" "walk (pmem s) root q = Some x"
    then have "x \<noteq> f" using only vp by metis
    then show "unat x \<notin> free_pages (frames s')"
      using tree_used [OF wf q(1,3)] by (simp add: s'(2) pm(4) word_unat_eq_iff)
  qed (use m' here in \<open>simp_all only: vp option.distinct\<close>)
  moreover have "mem_ok s'" using ok pm f by (auto simp: mem_ok_def s'(2))
  ultimately show ?thesis using s'(1,2) here other pm by auto
qed

section \<open>The contract of an address space\<close>

text \<open>
  What the clients of the memory manager rely on: \<open>look\<close> gives the frame of a page, mapping
  and unmapping change it for one page only. Clients map runs of pages; that a run ends up as
  requested is proved here, once.
\<close>

locale address_space =
  fixes inv :: "'s \<Rightarrow> bool"
    and look :: "'s \<Rightarrow> u64 \<Rightarrow> u64 option"
    and page_of :: "u64 \<Rightarrow> 'p"
    and usable :: "'s \<Rightarrow> u64 \<Rightarrow> bool"
    and room :: "'s \<Rightarrow> nat"
    and map_at :: "'s \<Rightarrow> u64 \<Rightarrow> u64 \<Rightarrow> 's option"
    and sole :: "'s \<Rightarrow> u64 \<Rightarrow> bool"
    and unmap_at :: "'s \<Rightarrow> u64 \<Rightarrow> 's option"
  assumes map_law: "inv s \<Longrightarrow> 3 \<le> room s \<Longrightarrow> usable s f \<Longrightarrow>
      \<exists>s'. map_at s va f = Some s' \<and> inv s' \<and> look s' va = Some f \<and>
        (\<forall>w. page_of w \<noteq> page_of va \<longrightarrow> look s' w = look s w) \<and>
        (\<forall>x. usable s x \<longrightarrow> usable s' x) \<and> room s \<le> room s' + 3"
    and unmap_law: "inv s \<Longrightarrow> sole s va \<Longrightarrow>
      \<exists>s'. unmap_at s va = Some s' \<and> inv s' \<and> look s' va = None \<and>
        (\<forall>w. page_of w \<noteq> page_of va \<longrightarrow> look s' w = look s w)"
    and look_page: "page_of v = page_of w \<Longrightarrow> look s v = look s w"
begin

fun map_all :: "'s \<Rightarrow> (u64 \<times> u64) list \<Rightarrow> 's option" where
  "map_all s [] = Some s"
| "map_all s ((va, f) # l) = map_at s va f \<bind> (\<lambda>s'. map_all s' l)"

lemma map_all_spec:
  assumes "inv s" "3 * length l \<le> room s" "\<forall>(va, f)\<in>set l. usable s f"
    "distinct (map (page_of \<circ> fst) l)"
  shows "\<exists>s'. map_all s l = Some s' \<and> inv s' \<and> (\<forall>(va, f)\<in>set l. look s' va = Some f) \<and>
     (\<forall>w. page_of w \<notin> (page_of \<circ> fst) ` set l \<longrightarrow> look s' w = look s w) \<and>
     (\<forall>x. usable s x \<longrightarrow> usable s' x) \<and> room s \<le> room s' + 3 * length l"
  using assms
proof (induction l arbitrary: s)
  case (Cons x l)
  obtain va f where x: "x = (va, f)" by (cases x)
  from Cons.prems x have u: "3 \<le> room s" "usable s f" by auto
  from map_law [OF Cons.prems(1) u, of va] obtain s1 where s1: "map_at s va f = Some s1" "inv s1"
    "look s1 va = Some f" "\<And>w. page_of w \<noteq> page_of va \<Longrightarrow> look s1 w = look s w"
    "\<And>x. usable s x \<Longrightarrow> usable s1 x" "room s \<le> room s1 + 3" by blast
  have "3 * length l \<le> room s1" "\<forall>(va, f)\<in>set l. usable s1 f" "distinct (map (page_of \<circ> fst) l)"
    using Cons.prems s1(5,6) by (auto simp: comp_def)
  from Cons.IH [OF s1(2) this] obtain s' where s': "map_all s1 l = Some s'" "inv s'"
    "\<forall>(va, f)\<in>set l. look s' va = Some f"
    "\<And>w. page_of w \<notin> (page_of \<circ> fst) ` set l \<Longrightarrow> look s' w = look s1 w"
    "\<And>x. usable s1 x \<Longrightarrow> usable s' x" "room s1 \<le> room s' + 3 * length l" by blast
  have "page_of va \<notin> (page_of \<circ> fst) ` set l" using Cons.prems(4) x by auto
  then have "look s' va = Some f" using s'(4) s1(3) by simp
  with s' s1 x show ?case by auto
qed simp

text \<open>A page that is mapped and unmapped again leaves every other page as it was.\<close>

lemma map_unmap:
  assumes "inv s" "3 \<le> room s" "usable s f" "look s va = None"
    and sole: "\<And>s'. map_at s va f = Some s' \<Longrightarrow> sole s' va"
  shows "\<exists>s'. map_at s va f \<bind> (\<lambda>s1. unmap_at s1 va) = Some s' \<and> inv s' \<and> look s' = look s"
proof -
  from map_law [OF assms(1-3), of va] obtain s1 where s1: "map_at s va f = Some s1" "inv s1"
    "\<And>w. page_of w \<noteq> page_of va \<Longrightarrow> look s1 w = look s w" by blast
  from unmap_law [OF s1(2) sole [OF s1(1)]] obtain s2 where s2: "unmap_at s1 va = Some s2" "inv s2"
    "look s2 va = None" "\<And>w. page_of w \<noteq> page_of va \<Longrightarrow> look s2 w = look s1 w" by blast
  have "look s2 w = look s w" for w
    using s1(3) [of w] s2(3) s2(4) [of w] look_page [of w va] assms(4) by (cases "page_of w = page_of va") auto
  with s1 s2 show ?thesis by auto
qed

end

interpretation aspace: address_space
  "\<lambda>s. mem_ok s \<and> tree_wf s root" "\<lambda>s va. walk (pmem s) root (va_path va)" va_path
  "\<lambda>s f. unat f < 2 ^ 40 \<and> plain_frame s root f" "\<lambda>s. card (free_pages (frames s))"
  "\<lambda>s va f. vmm_map_page s root va (push_bit 12 f) flags"
  "\<lambda>s va. sole_mapping s root va" "\<lambda>s va. vmm_unmap_page s root va"
  for root flags
proof (unfold_locales, goal_cases)
  case (1 s f va)
  then show ?case using vmm_map_page_spec [of s root f va flags] by blast
next
  case (2 s va)
  show ?case
  proof (cases "walk (pmem s) root (va_path va)")
    case None
    with vmm_unmap_page_none [OF _ None] 2 show ?thesis by (auto simp: mem_ok_def tree_wf_def)
  next
    case (Some f)
    from vmm_unmap_page_some [OF _ _ 2(2) Some] 2 show ?thesis by blast
  qed
qed simp

lemma offset_mask: "va AND 0xFFF = take_bit 12 (va :: u64)"
  by (simp add: take_bit_eq_mask mask_eq_exp_minus_1)

lemma phys_offset:
  assumes "unat f < 2 ^ 40"
  shows "unat (push_bit 12 f OR (va AND 0xFFF) :: u64) = unat f * 4096 + unat va mod 4096"
proof -
  have f: "unat (push_bit 12 f) = unat f * 4096"
    using assms by (simp add: push_bit_eq_mult unat_mult_nowrap)
  have o: "unat (va AND 0xFFF) = unat va mod 4096"
    unfolding offset_mask by (simp add: take_bit_eq_mod unat_mod)
  have "unat va mod 4096 < 4096" by simp
  moreover have "push_bit 12 f + (va AND 0xFFF) = push_bit 12 f OR (va AND 0xFFF)"
    unfolding offset_mask
    by (rule disjunctive_add_eq_or) (auto simp: bit_eq_iff bit_simps)
  ultimately show ?thesis using unat_add_nowrap [of "push_bit 12 f" "va AND 0xFFF"] f o assms by simp
qed


text \<open>Unmapping removes one page. If the frame of a page is mapped only there,
  \<^verbatim>\<open>vmm_unmap_page\<close> terminates and keeps the tree well formed; afterwards the page
  translates to 0, every other page translates as before, and the allocator has got back
  exactly the frame of the page (nothing when it was not mapped).\<close>

theorem vmm_unmap_page_removes:
  assumes "mem_ok s" "tree_wf s root" "sole_mapping s root va"
  shows "\<exists>s'. vmm_unmap_page s root va = Some s' \<and> mem_ok s' \<and> tree_wf s' root \<and>
     (\<forall>w. fst (vmm_get_physical_address s' root w) =
        (if va_path w = va_path va then 0 else fst (vmm_get_physical_address s root w))) \<and>
     free_pages (frames s') = free_pages (frames s) \<union>
        (let a = fst (vmm_get_physical_address s root va) in if a = 0 then {} else {unat a div 4096})"
proof (cases "walk (pmem s) root (va_path va)")
  case None
  from vmm_unmap_page_none [OF assms(2) None] obtain s' where
    s': "vmm_unmap_page s root va = Some s'" "pmem s' = pmem s" "frames s' = frames s" by blast
  then have "mem_ok s'" and wf': "tree_wf s' root" using assms by (simp_all add: mem_ok_def tree_wf_def)
  then show ?thesis using s' None
    by (simp add: vmm_get_physical_address_walk [OF wf'] vmm_get_physical_address_walk [OF assms(2)])
next
  case (Some f)
  from vmm_unmap_page_some [OF assms Some] obtain s' where
    s': "vmm_unmap_page s root va = Some s'" "mem_ok s'" and wf': "tree_wf s' root"
      and here: "walk (pmem s') root (va_path va) = None"
      and other: "\<And>w. va_path w \<noteq> va_path va \<Longrightarrow> walk (pmem s') root (va_path w) = walk (pmem s) root (va_path w)"
      and fr: "free_pages (frames s') = insert (unat f) (free_pages (frames s))"
    by blast
  from assms(1,3) Some have f: "0 < unat f" "unat f < 2 ^ 24" by (auto simp: sole_mapping_def mem_ok_def)
  then have a: "unat (push_bit 12 f) = unat f * 4096" by (simp add: push_bit_eq_mult unat_mult_nowrap)
  then have "push_bit 12 f \<noteq> 0" using f(1) by (metis mult_is_0 unat_0 less_irrefl numeral_neq_zero)
  then show ?thesis using s' wf' here other fr a
    by (auto simp: vmm_get_physical_address_walk [OF wf'] vmm_get_physical_address_walk [OF assms(2)] Some)
qed

text \<open>
  A small concrete tree: frames 1 to 4 are the tables of the page at address 0, which is mapped
  to frame 5; pages 6 to 11 are free.
\<close>

definition vmm_demo :: vmm where
  "vmm_demo = \<lparr>
     pmem = (\<lambda>f i. if i = 0 \<and> f = 1 then 0x2003 else if i = 0 \<and> f = 2 then 0x3003
        else if i = 0 \<and> f = 3 then 0x4003 else if i = 0 \<and> f = 4 then 0x5003 else 0),
     window_pt = (\<lambda>_. 0),
     frames = \<lparr>pmm_bitmap = [0b00111111, 0], pmm_total_pages = 12, pmm_bitmap_size = 2\<rparr>\<rparr>"

lemma demo_fields:
  "get_p (0x2003 :: u64)" "get_p (0x3003 :: u64)" "get_p (0x4003 :: u64)" "get_p (0x5003 :: u64)"
  "\<not> get_ps (0x2003 :: u64)" "\<not> get_ps (0x3003 :: u64)" "\<not> get_ps (0x4003 :: u64)" "\<not> get_ps (0x5003 :: u64)"
  "get_frame 0x2003 = 2" "get_frame 0x3003 = 3" "get_frame 0x4003 = 4" "get_frame 0x5003 = 5"
  by code_simp+

lemma demo_step:
  "get_p (pmem vmm_demo f i) \<longleftrightarrow> i = 0 \<and> f \<in> {1, 2, 3, 4}"
  "f \<in> {1, 2, 3, 4} \<Longrightarrow> get_frame (pmem vmm_demo f 0) = f + 1"
  "\<not> get_ps (pmem vmm_demo f i)"
  by (auto simp: vmm_demo_def demo_fields)

lemma demo_walk:
  assumes "path 4 q" "walk (pmem vmm_demo) 1 q = Some x"
  shows "(q, x) \<in> {([], 1), ([0], 2), ([0, 0], 3), ([0, 0, 0], 4), ([0, 0, 0, 0], 5)}"
proof -
  consider "q = []" | a where "q = [a]" | a b where "q = [a, b]" | a b c where "q = [a, b, c]"
    | a b c d where "q = [a, b, c, d]"
    using assms(1) by (auto simp: path_def le_Suc_eq length_Suc_conv numeral_eq_Suc)
  then show ?thesis using assms(2)
    by cases (auto simp: demo_step split: if_splits)
qed

lemma demo_free: "free_pages (frames vmm_demo) = {6..<12}"
proof -
  have "free_pages (frames vmm_demo) = set (filter (\<lambda>p. \<not> bits_test [0b00111111, 0 :: u8] p) [0..<12])"
    by (auto simp: free_pages_def vmm_demo_def)
  also have "\<dots> = {6..<12}" by code_simp
  finally show ?thesis .
qed

lemma demo_ok: "mem_ok vmm_demo" "tree_wf vmm_demo 1" "3 \<le> card (free_pages (frames vmm_demo))"
    "plain_frame vmm_demo 1 5" "sole_mapping vmm_demo 1 0"
proof -
  show "mem_ok vmm_demo" using demo_free by (simp add: mem_ok_def) (simp add: vmm_demo_def pmm_wf_def)
  have i1: "p = q" if "path 3 p" "path 4 q" "walk (pmem vmm_demo) 1 p = Some f"
      "walk (pmem vmm_demo) 1 q = Some f" for p q f
    using demo_walk [OF path_up(1) [OF that(1)] that(3)] demo_walk [OF that(2,4)] by auto
  have i2: "unat f \<notin> free_pages (frames vmm_demo)" "unat f < 2 ^ 24"
    if "path 4 p" "walk (pmem vmm_demo) 1 p = Some f" for p f
    using demo_walk [OF that] by (auto simp: demo_free)
  show "tree_wf vmm_demo 1" unfolding tree_wf_def
    using i1 i2(1) i2(2) [OF path_up(1)] demo_step(3) by blast
  show "3 \<le> card (free_pages (frames vmm_demo))" by (simp add: demo_free)
  have "walk (pmem vmm_demo) 1 q \<noteq> Some 5" if "path 3 q" for q
    using demo_walk [OF path_up(1) [OF that], of 5] that by (auto simp: path_def)
  then show "plain_frame vmm_demo 1 5" unfolding plain_frame_def by (simp add: demo_free)
  have v: "va_path 0 = [0, 0, 0, 0]" by (simp add: va_path_def index_value)
  have "f = 5" if "walk (pmem vmm_demo) 1 (va_path 0) = Some f" for f
    using demo_walk [OF path_va that] by (simp add: v)
  moreover have "q = va_path 0" if "path 4 q" "walk (pmem vmm_demo) 1 q = Some 5" for q
    using demo_walk [OF that] by (auto simp: v)
  moreover have "pmm_total_pages (frames vmm_demo) = 12" by (simp add: vmm_demo_def)
  ultimately show "sole_mapping vmm_demo 1 0" unfolding sole_mapping_def by fastforce
qed


theorem vmm_unmap_page_removes_witness:
  "\<exists>s'. vmm_unmap_page vmm_demo 1 0 = Some s' \<and> tree_wf s' 1 \<and>
     fst (vmm_get_physical_address vmm_demo 1 0) = 0x5000 \<and>
     fst (vmm_get_physical_address s' 1 0) = 0 \<and> free_pages (frames s') = {5..<12}"
proof -
  have a: "fst (vmm_get_physical_address vmm_demo 1 0) = 0x5000" by code_simp
  have "{6..<12} \<union> {5} = {5..<12 :: nat}" by auto
  with vmm_unmap_page_removes [OF demo_ok(1,2,5)] show ?thesis
    by (fastforce simp: a demo_free)
qed

section \<open>New address spaces\<close>

definition shared_index :: "nat \<Rightarrow> bool" where
  "shared_index i \<longleftrightarrow> i = 224 \<or> 256 \<le> i"

lemma vmm_create_address_space_some:
  assumes ok: "mem_ok s" and ne: "free_pages (frames s) \<noteq> {}" and c: "unat c < 2 ^ 40"
  shows "\<exists>n s'. vmm_create_address_space s (push_bit 12 c) = Some (push_bit 12 n, s') \<and> mem_ok s' \<and>
    unat n \<in> free_pages (frames s) \<and> unat n < 2 ^ 24 \<and> free_pages (frames s') = free_pages (frames s) - {unat n} \<and>
    (\<forall>g. g \<noteq> n \<longrightarrow> pmem s' g = pmem s g) \<and>
    (\<forall>i < 512. pmem s' n i = (if shared_index i then pmem s c i else 0))"
proof -
  let ?p = "Min (free_pages (frames s))"
  define n :: u64 where "n = of_nat ?p"
  from ok have wf: "pmm_wf (frames s)" by (simp add: mem_ok_def)
  from ne have p: "?p \<in> free_pages (frames s)" by simp
  then have p24: "?p < 2 ^ 24" using ok by (auto simp: free_pages_def mem_ok_def)
  then have un: "unat n = ?p" unfolding n_def by (intro unat_of_nat_id) simp
  have n0: "unat n \<noteq> 0" using p un ok unfolding mem_ok_def by metis
  from pmm_alloc_page_some [OF wf ne] obtain pm where
    pm: "pmm_alloc_page (frames s) = Some (push_bit 12 n, pm)" "pmm_wf pm"
      "free_pages pm = free_pages (frames s) - {unat n}" "pmm_total_pages pm = pmm_total_pages (frames s)"
    by (auto simp: un push_bit_eq_mult n_def [symmetric])
  have a: "unat (push_bit 12 n) = unat n * 4096"
    using p24 un by (simp add: push_bit_eq_mult unat_mult_nowrap)
  then have a0: "push_bit 12 n \<noteq> 0" using n0 by (metis mult_is_0 unat_0 numeral_neq_zero)
  have m12: "(0xFFF :: u64) = mask 12" by (simp add: mask_eq_exp_minus_1)
  have al: "push_bit 12 n AND NOT 0xFFF = push_bit 12 n"
    unfolding m12 by (intro bit_eqI) (auto simp: bit_simps)
  let ?s1 = "snd (vmm_scratch_map_internal (s\<lparr>frames := pm\<rparr>) (push_bit 12 c) 0)"
  let ?s2 = "snd (vmm_scratch_map_internal ?s1 (push_bit 12 n) 1)"
  have w: "window_frame ?s1 0 = c" "window_frame ?s2 1 = n"
    using c p24 un by (simp_all add: scratch_map_frame frame_shift frame_trunc)
  let ?s' = "?s2\<lparr>pmem := (pmem s)(n := (\<lambda>i.
     if i = 224 then pmem s c 224 else if i < 256 then 0 else if i < 512 then pmem s c i else pmem s n i))\<rparr>"
  have "vmm_create_address_space s (push_bit 12 c) = Some (push_bit 12 n, ?s')"
    using pm(1) a0 al w by (simp add: vmm_create_address_space_def Let_def cong: if_cong)
  moreover have "mem_ok ?s'" using ok pm by (auto simp: mem_ok_def)
  ultimately show ?thesis using p p24 un pm
    by (intro exI [of _ n] exI [of _ ?s']) (auto simp: shared_index_def)
qed

lemma create_walks:
  assumes wf: "tree_wf s c" and n: "unat n \<in> free_pages (frames s)"
    and m1: "\<And>g. g \<noteq> n \<Longrightarrow> m' g = pmem s g"
    and m2: "\<And>i. i < 512 \<Longrightarrow> m' n i = (if shared_index i then pmem s c i else 0)"
    and q: "path 4 q"
  shows "walk m' c q = walk (pmem s) c q"
    and "walk m' n q = (case q of [] \<Rightarrow> Some n | i # r \<Rightarrow> if shared_index i then walk (pmem s) c q else None)"
proof -
  have nt: "walk (pmem s) c r \<noteq> Some n" if "path 4 r" for r using tree_used [OF wf that] n by blast
  show old: "walk m' c q = walk (pmem s) c q"
    by (rule walk_fresh_frame [OF nt [OF path_up(1)] m1 q])
  have "c \<noteq> n" using nt [of "[]"] by (auto simp: path_def)
  then show "walk m' n q = (case q of [] \<Rightarrow> Some n | i # r \<Rightarrow> if shared_index i then walk (pmem s) c q else None)"
    using old m1 [of c] m2 q by (auto simp: path_def split: list.splits)
qed

lemma create_tree_wf:
  assumes wf: "tree_wf s c" and n: "unat n \<in> free_pages (frames s)" "unat n < 2 ^ 24"
    and m1: "\<And>g. g \<noteq> n \<Longrightarrow> pmem s' g = pmem s g"
    and m2: "\<And>i. i < 512 \<Longrightarrow> pmem s' n i = (if shared_index i then pmem s c i else 0)"
    and fr: "free_pages (frames s') = free_pages (frames s) - {unat n}"
  shows "tree_wf s' n" "tree_wf s' c"
proof -
  have nt: "walk (pmem s) c r \<noteq> Some n" if "path 4 r" for r using tree_used [OF wf that] n by blast
  have cw1: "walk (pmem s') c q = walk (pmem s) c q" if "path 4 q" for q
    by (rule create_walks(1) [OF wf n(1) m1 m2 that])
  have cw2: "walk (pmem s') n q = (case q of [] \<Rightarrow> Some n
      | i # r \<Rightarrow> if shared_index i then walk (pmem s) c q else None)" if "path 4 q" for q
    by (rule create_walks(2) [OF wf n(1) m1 m2 that])
  have W: "p = [] \<and> x = n \<or> p \<noteq> [] \<and> walk (pmem s) c p = Some x"
    if "path 4 p" "walk (pmem s') n p = Some x" for p x
    using that cw2 [OF that(1)] by (auto split: list.splits if_splits)
  have i1: "p = q" if "path 3 p" "path 4 q" "walk (pmem s') n p = Some x" "walk (pmem s') n q = Some x" for p q x
    using W [OF path_up(1) [OF that(1)] that(3)] W [OF that(2,4)] nt [OF that(2)] nt [OF path_up(1) [OF that(1)]]
      tree_inj [OF wf that(1,2)] by auto
  have i2: "unat x \<notin> free_pages (frames s')" if "path 4 p" "walk (pmem s') n p = Some x" for p x
    using W [OF that] tree_used [OF wf that(1)] by (auto simp: fr)
  have i3: "unat x < 2 ^ 24" if "path 3 p" "walk (pmem s') n p = Some x" for p x
    using W [OF path_up(1) [OF that(1)] that(2)] tree_low [OF wf that(1)] n(2) by auto
  have i4: "\<not> get_ps (pmem s' x i)" if p: "path 2 p" "p \<noteq> []" "walk (pmem s') n p = Some x" "i < 512" for p x i
    using W [OF path_up(2) [OF p(1)] p(3)] p(2) tree_ps [OF wf p(1,2) _ p(4)] m1 [of x] nt [OF path_up(2) [OF p(1)]]
    by auto
  show "tree_wf s' n" unfolding tree_wf_def using i1 i2 i3 i4 by blast
  have "\<not> get_ps (pmem s' x i)" if p: "path 2 p" "p \<noteq> []" "walk (pmem s) c p = Some x" "i < 512" for p x i
    using tree_ps [OF wf p] m1 [of x] nt [OF path_up(2) [OF p(1)]] p(3) by auto
  then show "tree_wf s' c"
    using wf unfolding tree_wf_def by (simp add: cw1 path_up fr)
qed

lemma vmm_create_address_space_lookup:
  assumes "mem_ok s" "tree_wf s c" "free_pages (frames s) \<noteq> {}"
  shows "\<exists>n s'. vmm_create_address_space s (push_bit 12 c) = Some (push_bit 12 n, s') \<and>
     unat n \<in> free_pages (frames s) \<and> free_pages (frames s') = free_pages (frames s) - {unat n} \<and>
     mem_ok s' \<and> tree_wf s' n \<and> tree_wf s' c \<and>
     (\<forall>va. fst (vmm_get_physical s' c va) = fst (vmm_get_physical s c va)) \<and>
     (\<forall>va. fst (vmm_get_physical s' n va) =
        (if GET_PML4_INDEX va = 224 \<or> 256 \<le> GET_PML4_INDEX va then fst (vmm_get_physical s c va) else 0))"
proof -
  have c: "unat c < 2 ^ 24" using tree_low [OF assms(2), of "[]"] by (simp add: path_def)
  from vmm_create_address_space_some [OF assms(1,3), of c] c obtain n s' where
    r: "vmm_create_address_space s (push_bit 12 c) = Some (push_bit 12 n, s')" "mem_ok s'"
    and n: "unat n \<in> free_pages (frames s)" "unat n < 2 ^ 24"
    and fr: "free_pages (frames s') = free_pages (frames s) - {unat n}"
    and m1: "\<And>g. g \<noteq> n \<Longrightarrow> pmem s' g = pmem s g"
    and m2: "\<And>i. i < 512 \<Longrightarrow> pmem s' n i = (if shared_index i then pmem s c i else 0)"
    by auto
  have wn: "tree_wf s' n" by (rule create_tree_wf(1) [OF assms(2) n m1 m2 fr])
  have wc: "tree_wf s' c" by (rule create_tree_wf(2) [OF assms(2) n m1 m2 fr])
  have cw1: "walk (pmem s') c (va_path va) = walk (pmem s) c (va_path va)" for va
    by (rule create_walks(1) [OF assms(2) n(1) m1 m2 path_va])
  have cw2: "walk (pmem s') n (va_path va) =
      (if shared_index (GET_PML4_INDEX va) then walk (pmem s) c (va_path va) else None)" for va
    using create_walks(2) [OF assms(2) n(1) m1 m2 path_va, of va] by (simp add: va_path_def)
  have "fst (vmm_get_physical s' c va) = fst (vmm_get_physical s c va)" for va
    unfolding vmm_get_physical_walk [OF wc] vmm_get_physical_walk [OF assms(2)] cw1 ..
  moreover have "fst (vmm_get_physical s' n va) =
      (if shared_index (GET_PML4_INDEX va) then fst (vmm_get_physical s c va) else 0)" for va
    unfolding vmm_get_physical_walk [OF wn] vmm_get_physical_walk [OF assms(2)] cw2 by simp
  ultimately show ?thesis using r n fr wn wc unfolding shared_index_def by blast
qed

text \<open>A new address space shares the kernel and nothing else. From a well-formed current tree
  (root \<open>c\<close>, the value of CR3) and with a free frame, \<^verbatim>\<open>vmm_create_address_space\<close> returns the
  address of a frame that was free; the new tree and the current one are well formed, the current
  translations are unchanged, and in the new tree an address of the upper half or of PML4 slot
  224 (shared memory) translates as in the current one while every other address is unmapped.\<close>

theorem vmm_create_address_space_shares_kernel:
  assumes "mem_ok s" "tree_wf s c" "free_pages (frames s) \<noteq> {}"
  shows "\<exists>n s'. vmm_create_address_space s (push_bit 12 c) = Some (push_bit 12 n, s') \<and>
     unat n \<in> free_pages (frames s) \<and> free_pages (frames s') = free_pages (frames s) - {unat n} \<and>
     mem_ok s' \<and> tree_wf s' n \<and> tree_wf s' c \<and>
     (\<forall>va. fst (vmm_get_physical s' c va) = fst (vmm_get_physical s c va)) \<and>
     (\<forall>va. fst (vmm_get_physical s' n va) =
        (if GET_PML4_INDEX va = 224 \<or> 256 \<le> GET_PML4_INDEX va then fst (vmm_get_physical s c va) else 0))"
  by (rule vmm_create_address_space_lookup [OF assms])

theorem vmm_create_address_space_shares_kernel_witness:
  "\<exists>n s'. vmm_create_address_space vmm_demo 0x1000 = Some (push_bit 12 n, s') \<and>
     fst (vmm_get_physical vmm_demo 1 0x10) = 0x5010 \<and> fst (vmm_get_physical s' 1 0x10) = 0x5010 \<and>
     fst (vmm_get_physical s' n 0x10) = 0"
proof -
  have a: "fst (vmm_get_physical vmm_demo 1 0x10) = 0x5010" by code_simp
  have ne: "free_pages (frames vmm_demo) \<noteq> {}" by (simp add: demo_free)
  have i: "GET_PML4_INDEX 0x10 = 0" by (simp add: index_value)
  have "push_bit 12 1 = (0x1000 :: u64)" by simp
  from vmm_create_address_space_shares_kernel [OF demo_ok(1,2) ne, unfolded this]
  obtain n s' where "vmm_create_address_space vmm_demo 0x1000 = Some (push_bit 12 n, s')"
    "\<And>va. fst (vmm_get_physical s' 1 va) = fst (vmm_get_physical vmm_demo 1 va)"
    "\<And>va. fst (vmm_get_physical s' n va) = (if GET_PML4_INDEX va = 224 \<or> 256 \<le> GET_PML4_INDEX va
        then fst (vmm_get_physical vmm_demo 1 va) else 0)" by blast
  then show ?thesis by (intro exI [of _ n] exI [of _ s']) (simp add: a i)
qed

section \<open>Device windows\<close>

definition device_pages :: "u64 \<Rightarrow> u64 \<Rightarrow> nat \<Rightarrow> (u64 \<times> u64) list" where
  "device_pages next f n = map (\<lambda>k. (next + of_nat k * PAGE_SIZE, f + of_nat k)) [0..<n]"

lemma device_pages_Suc:
  "device_pages next f (Suc n) = (next, f) # device_pages (next + PAGE_SIZE) (f + 1) n"
  unfolding device_pages_def upt_conv_Cons [OF zero_less_Suc] map_Suc_upt [symmetric]
  by (simp add: algebra_simps)

lemma device_loop_map_all:
  assumes "unat next + n * 4096 < unat KERNEL_MMIO_VIRTUAL_END"
  shows "map_device_loop n s root next (push_bit 12 f) =
     map_option (\<lambda>s'. (s', Some (next + of_nat n * PAGE_SIZE)))
       (aspace.map_all root 0x1B s (device_pages next f n))"
  using assms
proof (induction n arbitrary: s "next" f)
  case (Suc n)
  have u: "unat (next + PAGE_SIZE) = unat next + 4096"
    using Suc.prems by (intro unat_add_nowrap [of _ PAGE_SIZE, simplified]) simp
  then have ih: "unat (next + PAGE_SIZE) + n * 4096 < unat KERNEL_MMIO_VIRTUAL_END" using Suc.prems by simp
  then have g: "\<not> KERNEL_MMIO_VIRTUAL_END \<le> next + PAGE_SIZE" by (simp add: word_le_nat_alt)
  have f: "push_bit 12 f + PAGE_SIZE = push_bit 12 (f + 1)" by (simp add: push_bit_eq_mult algebra_simps)
  show ?case
    using g unfolding device_pages_Suc
    by (simp add: f Suc.IH [OF ih] algebra_simps option.map_comp comp_def split: bind_split)
qed (simp add: device_pages_def)

lemma device_va:
  assumes "unat next mod 4096 = 0" "unat next + k * 4096 + j < 2 ^ 64" "j < 4096"
  shows "unat (next + of_nat (k * 4096 + j)) = unat next + k * 4096 + j"
    "va_path (next + of_nat (k * 4096 + j)) = va_path (next + of_nat k * PAGE_SIZE)"
proof -
  have o: "unat (next + of_nat x) = unat next + x" if "unat next + x < 2 ^ 64" for x
  proof -
    have "unat (of_nat x :: u64) = x" by (rule unat_of_nat_id) (use that in simp)
    with that show ?thesis by (subst unat_add_nowrap) simp_all
  qed
  show a: "unat (next + of_nat (k * 4096 + j)) = unat next + k * 4096 + j"
    using assms o [of "k * 4096 + j"] by simp
  have b: "unat (next + of_nat (k * 4096)) = unat next + k * 4096"
    using assms o [of "k * 4096"] by simp
  have "(unat next + k * 4096 + j) div 4096 = (unat next + k * 4096) div 4096"
    using assms(1,3) by auto
  then show "va_path (next + of_nat (k * 4096 + j)) = va_path (next + of_nat k * PAGE_SIZE)"
    using a b unfolding va_path_def index_value by simp
qed

lemma device_pages_distinct:
  assumes "unat next mod 4096 = 0" "unat next + n * 4096 < 2 ^ 64" "n \<le> 2 ^ 36"
  shows "distinct (map (va_path \<circ> fst) (device_pages next f n))"
proof -
  have "k = k'" if k: "k < n" "k' < n"
      "va_path (next + of_nat k * PAGE_SIZE) = va_path (next + of_nat k' * PAGE_SIZE)" for k k'
  proof -
    have d: "unat (next + of_nat x * PAGE_SIZE) div 4096 = unat next div 4096 + x" if "x < n" for x
      using device_va(1) [of "next" x 0] assms that by (auto simp: mult.commute)
    have "(unat next div 4096 + k) mod 2 ^ 36 = (unat next div 4096 + k') mod 2 ^ 36"
      using va_path_eq [OF k(3)] unfolding d [OF k(1)] d [OF k(2)] .
    then show ?thesis by (rule mod_shift_inj) (use k assms(3) in simp_all)
  qed
  then show ?thesis by (auto simp: device_pages_def distinct_map inj_on_def)
qed

lemma device_split:
  assumes "unat phys + unat sz < 2 ^ 52"
  shows "phys AND NOT (PAGE_SIZE - 1) = push_bit 12 (drop_bit 12 phys)"
    "unat (phys AND (PAGE_SIZE - 1)) = unat phys mod 4096"
    "unat ((sz + (phys AND (PAGE_SIZE - 1)) + PAGE_SIZE - 1) div PAGE_SIZE) =
       (unat sz + unat phys mod 4096 + 4095) div 4096"
proof -
  have m12: "PAGE_SIZE - 1 = mask 12" by (simp add: mask_eq_exp_minus_1)
  show "phys AND NOT (PAGE_SIZE - 1) = push_bit 12 (drop_bit 12 phys)"
    unfolding m12 by (intro bit_eqI) (auto simp: bit_simps)
  show o: "unat (phys AND (PAGE_SIZE - 1)) = unat phys mod 4096"
    unfolding m12 take_bit_eq_mask [symmetric] by (simp add: take_bit_eq_mod unat_mod)
  have l: "unat phys mod 4096 < 4096" by simp
  have "unat (sz + (phys AND (PAGE_SIZE - 1))) = unat sz + unat phys mod 4096"
    using assms l by (subst unat_add_nowrap) (simp_all only: o, simp)
  then have "unat (sz + (phys AND (PAGE_SIZE - 1)) + (PAGE_SIZE - 1)) = unat sz + unat phys mod 4096 + 4095"
    using assms l by (subst unat_add_nowrap) simp_all
  then show "unat ((sz + (phys AND (PAGE_SIZE - 1)) + PAGE_SIZE - 1) div PAGE_SIZE) =
       (unat sz + unat phys mod 4096 + 4095) div 4096"
    by (simp only: add_diff_eq [symmetric] unat_div) simp
qed

text \<open>A device window shows the device. With a well-formed tree, enough free frames for
  tables, room in the window area and device frames that are neither free memory nor tables,
  \<^verbatim>\<open>vmm_map_device\<close> returns an address such that every byte of the device, at any offset below
  the requested size, is translated by \<^verbatim>\<open>vmm_get_physical\<close> to its physical address, and the
  cursor for the next device moves past all pages of this one.\<close>

theorem vmm_map_device_contiguous:
  assumes ok: "mem_ok s" "tree_wf s root" and sz: "0 < unat sz" "unat phys + unat sz < 2 ^ 52"
    and n: "n = (unat sz + unat phys mod 4096 + 4095) div 4096"
    and nx: "unat next mod 4096 = 0" "KERNEL_MMIO_VIRTUAL_BASE \<le> next"
      "unat next + n * 4096 < unat KERNEL_MMIO_VIRTUAL_END"
    and room: "3 * n \<le> card (free_pages (frames s))"
    and dev: "\<forall>k < n. plain_frame s root (drop_bit 12 phys + of_nat k)"
  shows "\<exists>s'. vmm_map_device s root next phys sz =
       Some (s', Some (next + of_nat n * PAGE_SIZE), next + (phys AND 0xFFF)) \<and>
     mem_ok s' \<and> tree_wf s' root \<and>
     (\<forall>j < unat sz. unat (fst (vmm_get_physical s' root (next + (phys AND 0xFFF) + of_nat j))) =
        unat phys + j)"
proof -
  note d = device_split [OF sz(2)]
  define f where "f = drop_bit 12 phys"
  let ?o = "unat phys mod 4096"
  have uf: "unat f = unat phys div 4096" by (simp add: f_def unat_shr)
  have nb: "n * 4096 < unat sz + ?o + 4096" unfolding n by linarith
  have fk: "unat (f + of_nat k) = unat f + k" "unat (f + of_nat k) < 2 ^ 40" if "k < n" for k
  proof -
    have "k * 4096 < unat sz + ?o" using that unfolding n by linarith
    moreover have "unat f * 4096 + ?o = unat phys" by (simp add: uf)
    ultimately have "unat f + k < 2 ^ 40" using sz(2) by simp
    moreover from this have "unat (of_nat k :: u64) = k" by (intro unat_of_nat_id) simp
    ultimately show "unat (f + of_nat k) = unat f + k" "unat (f + of_nat k) < 2 ^ 40"
      by (subst unat_add_nowrap, simp_all)+
  qed
  have u: "\<forall>(va, x)\<in>set (device_pages next f n). unat x < 2 ^ 40 \<and> plain_frame s root x"
    using dev fk by (auto simp: device_pages_def f_def)
  have "n \<le> 2 ^ 36" using nx by (simp add: word_le_nat_alt)
  with nx have dist: "distinct (map (va_path \<circ> fst) (device_pages next f n))"
    by (intro device_pages_distinct) simp_all
  from aspace.map_all_spec [where flags = "0x1B", OF _ _ u dist] ok room obtain s' where
    s': "aspace.map_all root 0x1B s (device_pages next f n) = Some s'" "mem_ok s'" "tree_wf s' root"
      "\<forall>(va, x)\<in>set (device_pages next f n). walk (pmem s') root (va_path va) = Some x"
    by (auto simp: device_pages_def)
  have "sz \<noteq> 0" using sz(1) by auto
  moreover from device_loop_map_all [OF nx(3)] s'(1) have "map_device_loop n s root next (push_bit 12 f) =
      Some (s', Some (next + of_nat n * PAGE_SIZE))" by simp
  ultimately have "vmm_map_device s root next phys sz =
       Some (s', Some (next + of_nat n * PAGE_SIZE), next + (phys AND 0xFFF))"
    unfolding vmm_map_device_def Let_def d(1,3) f_def [symmetric] n [symmetric] by simp
  moreover have "unat (fst (vmm_get_physical s' root (next + (phys AND 0xFFF) + of_nat j))) = unat phys + j"
    if j: "j < unat sz" for j
  proof -
    define k where "k = (?o + j) div 4096"
    define i where "i = (?o + j) mod 4096"
    have ki: "?o + j = k * 4096 + i" "i < 4096" by (simp_all add: k_def i_def)
    have kn: "k < n" using j unfolding k_def n by linarith
    have o: "phys AND 0xFFF = of_nat ?o" unfolding d(2) [symmetric] by simp
    have va: "next + (phys AND 0xFFF) + of_nat j = next + of_nat (k * 4096 + i)"
      unfolding o ki(1) [symmetric] by (simp add: add.assoc)
    have lt: "unat next + k * 4096 + i < 2 ^ 64" using nx(3) kn ki(2) by simp
    note v = device_va [OF nx(1) lt ki(2)]
    have "(next + of_nat k * PAGE_SIZE, f + of_nat k) \<in> set (device_pages next f n)"
      using kn by (auto simp: device_pages_def)
    with s'(4) have w: "walk (pmem s') root (va_path (next + of_nat k * PAGE_SIZE)) = Some (f + of_nat k)"
      by blast
    have "unat (fst (vmm_get_physical s' root (next + of_nat (k * 4096 + i)))) =
        unat (f + of_nat k) * 4096 + (unat next + k * 4096 + i) mod 4096"
      unfolding vmm_get_physical_walk [OF s'(3)] v(2) w using phys_offset [OF fk(2) [OF kn]] v(1) by simp
    also have "(unat next + k * 4096 + i) mod 4096 = i" using nx(1) ki(2) by (simp add: mod_add_eq [symmetric])
    finally have "unat (fst (vmm_get_physical s' root (next + of_nat (k * 4096 + i)))) =
        unat phys div 4096 * 4096 + (k * 4096 + i)"
      using fk(1) [OF kn] uf by (simp del: of_nat_add of_nat_mult)
    then show ?thesis unfolding va ki(1) [symmetric] using div_mult_mod_eq [of "unat phys" 4096]
      by linarith
  qed
  ultimately show ?thesis using s'(2,3) by blast
qed

theorem vmm_map_device_contiguous_witness:
  "\<exists>s'. vmm_map_device vmm_demo 1 KERNEL_MMIO_VIRTUAL_BASE 0xFEE00010 0x20 =
       Some (s', Some (KERNEL_MMIO_VIRTUAL_BASE + 0x1000), KERNEL_MMIO_VIRTUAL_BASE + 0x10) \<and>
     unat (fst (vmm_get_physical s' 1 (KERNEL_MMIO_VIRTUAL_BASE + 0x1F))) = 0xFEE0001F"
proof -
  have dev: "plain_frame vmm_demo 1 (drop_bit 12 0xFEE00010 + of_nat k)" if "k < 1" for k
  proof -
    have "walk (pmem vmm_demo) 1 q \<noteq> Some 0xFEE00" if "path 3 q" for q
      using demo_walk [OF path_up(1) [OF that], of "0xFEE00"] by auto
    moreover have "drop_bit 12 (0xFEE00010 :: u64) = 0xFEE00" by code_simp
    ultimately show ?thesis using that by (simp add: plain_frame_def demo_free)
  qed
  have "3 * 1 \<le> card (free_pages (frames vmm_demo))" using demo_ok(3) by simp
  from vmm_map_device_contiguous [OF demo_ok(1,2), of "0x20" "0xFEE00010" 1 KERNEL_MMIO_VIRTUAL_BASE] this dev
  obtain s' where s': "vmm_map_device vmm_demo 1 KERNEL_MMIO_VIRTUAL_BASE 0xFEE00010 0x20 =
       Some (s', Some (KERNEL_MMIO_VIRTUAL_BASE + 0x1000), KERNEL_MMIO_VIRTUAL_BASE + 0x10)"
    "\<And>j. j < 0x20 \<Longrightarrow> unat (fst (vmm_get_physical s' 1 (KERNEL_MMIO_VIRTUAL_BASE + 0x10 + of_nat j))) = 0xFEE00010 + j"
    by (auto simp: word_le_nat_alt)
  from s'(2) [of 15] s'(1) show ?thesis by simp
qed

text \<open>Opening a scratch window writes outside the page table. Besides the entry of the window,
  \<^verbatim>\<open>vmm_scratch_map_internal\<close> clears the cell that lies as far behind this entry as the entry
  lies behind the start of the table; for every legal window that cell is past the 512 entries.\<close>

theorem vmm_scratch_stray_write:
  assumes "0 \<le> w" "w \<le> 14"
  shows "\<exists>k. 512 \<le> k \<and> window_pt (snd (vmm_scratch_map_internal s phys w)) k = 0 \<and> k = 994 + 2 * nat w \<and>
     (\<forall>i. i \<noteq> k \<longrightarrow> i \<noteq> 497 + nat w \<longrightarrow>
        window_pt (snd (vmm_scratch_map_internal s phys w)) i = window_pt s i)"
  using assms
  by (intro exI [of _ "994 + 2 * nat w"]) (auto simp: vmm_scratch_map_internal_def Let_def scratch_idx_value)

theorem vmm_scratch_stray_write_witness:
  "\<exists>k. 512 \<le> k \<and> window_pt (vmm_demo\<lparr>window_pt := (\<lambda>_. 7)\<rparr>) k = 7 \<and>
     window_pt (snd (vmm_scratch_map_internal (vmm_demo\<lparr>window_pt := (\<lambda>_. 7)\<rparr>) 0x5000 3)) k = 0"
  using vmm_scratch_stray_write [of 3 "vmm_demo\<lparr>window_pt := (\<lambda>_. 7)\<rparr>" "0x5000"]
  by (intro exI [of _ 1000]) auto

text \<open>A page directory at or above 64 GB is lost. The address \<^verbatim>\<open>vmm_map_page\<close> computes for an
  existing page directory is cut to 36 bits, so for a directory in such a frame the following
  levels are edited in a different frame below 64 GB.\<close>

theorem vmm_get_pd_truncates:
  assumes "unat f < 2 ^ 40" "get_p (pmem s f (GET_PDPT_INDEX virt))"
    "2 ^ 24 \<le> unat (get_frame (pmem s f (GET_PDPT_INDEX virt)))"
  shows "\<exists>g s'. vmm_get_pd s (push_bit 12 f) virt rw us = Some (push_bit 12 g, s') \<and>
     unat g = unat (get_frame (pmem s f (GET_PDPT_INDEX virt))) mod 2 ^ 24 \<and>
     g \<noteq> get_frame (pmem s f (GET_PDPT_INDEX virt))"
proof -
  let ?e = "get_frame (pmem s f (GET_PDPT_INDEX virt))"
  define s' where "s' = snd (vmm_scratch_map_internal s (push_bit 12 f) 0)"
  have win: "window_frame s' 0 = f" unfolding s'_def by (rule window_frame_enter [OF assms(1)])
  have p: "pmem s' = pmem s" by (simp add: s'_def)
  have m36: "(0xFFFFFFFFF :: u64) = mask 36" by (simp add: mask_eq_exp_minus_1)
  have "push_bit 12 ?e AND 0xFFFFFFFFF = push_bit 12 (take_bit 24 ?e)"
    unfolding m36 by (intro bit_eqI) (auto simp: bit_simps)
  then have "vmm_get_pd s (push_bit 12 f) virt rw us = Some (push_bit 12 (take_bit 24 ?e), s')"
    using assms(2) win p by (simp add: vmm_get_pd_def s'_def [symmetric] Let_def read_entry_def)
  moreover have u: "unat (take_bit 24 ?e) = unat ?e mod 2 ^ 24" by (simp add: take_bit_eq_mod unat_mod)
  moreover have "take_bit 24 ?e \<noteq> ?e"
  proof
    assume "take_bit 24 ?e = ?e"
    with u have "unat ?e = unat ?e mod 2 ^ 24" by simp
    with assms(3) show False by (metis mod_less_divisor not_less zero_less_numeral zero_less_power)
  qed
  ultimately show ?thesis by blast
qed

theorem vmm_get_pd_truncates_witness:
  "\<exists>s'. vmm_get_pd (vmm_demo\<lparr>pmem := (\<lambda>_ _. 0x1000005003)\<rparr>) 0x2000 0 1 0 = Some (0x5000, s')"
proof -
  let ?s = "vmm_demo\<lparr>pmem := (\<lambda>_ _. 0x1000005003)\<rparr>"
  have f: "get_frame (0x1000005003) = 0x1000005" "get_p (0x1000005003 :: u64)" by code_simp+
  from vmm_get_pd_truncates [of 2 ?s 0 1 0] f obtain g s' where
    g: "vmm_get_pd ?s 0x2000 0 1 0 = Some (push_bit 12 g, s')" "unat g = 5" by auto
  then have "g = 5" by (simp add: word_unat_eq_iff)
  with g show ?thesis by simp
qed

text \<open>The demo tree with 5120 pages of memory, of which all but the first six are free.\<close>

definition vmm_big :: vmm where
  "vmm_big = vmm_demo\<lparr>frames := \<lparr>pmm_bitmap = 0b00111111 # replicate 639 0,
     pmm_total_pages = 5120, pmm_bitmap_size = 640\<rparr>\<rparr>"

lemma big_free: "free_pages (frames vmm_big) = {6..<5120}"
proof -
  have low: "bits_test (0b00111111 # replicate 639 0 :: u8 list) p \<longleftrightarrow> p < 6" if "p < 5120" for p
  proof (cases "p < 8")
    case True
    then have "p \<in> set [0..<8]" by simp
    moreover have "\<forall>p\<in>set [0..<8]. bits_test (0b00111111 # replicate 639 0 :: u8 list) p = (p < 6)" by code_simp
    ultimately show ?thesis by blast
  next
    case False
    then have "0 < p div 8" "p div 8 < 640" using that by auto
    then obtain k where "p div 8 = Suc k" "k < 639" by (cases "p div 8") auto
    with False show ?thesis by (simp add: bits_test_def)
  qed
  then show ?thesis by (auto simp: free_pages_def vmm_big_def)
qed

lemma big_ok: "mem_ok vmm_big" "tree_wf vmm_big 1"
proof -
  have p: "pmem vmm_big = pmem vmm_demo" by (simp add: vmm_big_def)
  show "mem_ok vmm_big" unfolding mem_ok_def big_free by (simp add: vmm_big_def pmm_wf_def)
  show "tree_wf vmm_big 1"
    using demo_ok(2) unfolding tree_wf_def p demo_free big_free using demo_walk by fastforce
qed

lemma big_unmapped:
  assumes "GET_PML4_INDEX va \<noteq> 0"
  shows "walk (pmem vmm_big) 1 (va_path va) = None"
  using assms demo_step(1) [of 1 "GET_PML4_INDEX va"] by (simp add: va_path_def vmm_big_def)

end
