(* ===== verification/Window.thy ===== *)
theory Window
  imports Vmm
begin

text \<open>
  Windows of virtual pages: the allocation scheme shared by the kernel pool
  (\<^verbatim>\<open>src/kernel/kernel/mm/pool.c\<close>) and by shared memory (\<^verbatim>\<open>src/kernel/kernel/mm/shm.c\<close>). A
  bitmap of 32-bit words records which pages of a fixed virtual range are taken; allocation
  takes the first free run, asks the frame allocator for as many contiguous frames and maps
  them one by one; release unmaps page by page. The two C files differ in base, number of
  pages and flags, which are parameters here; their own operations are in the theories
  \<open>Pool\<close> and \<open>Shm\<close>.

  The locale \<open>page_window\<close> states what the constants must satisfy, and the lemmas inside show
  that the bitmap always tells exactly which pages of the window are mapped.
\<close>

unbundle bit_operations_syntax

record window =
  win_bitmap :: "u32 list"
  win_vm :: vmm

section \<open>Operations\<close>

fun map_run :: "nat \<Rightarrow> vmm \<Rightarrow> u64 \<Rightarrow> u64 \<Rightarrow> u64 \<Rightarrow> u64 \<Rightarrow> vmm option" where
  "map_run 0 v pml4 va pa flags = Some v"
| "map_run (Suc n) v pml4 va pa flags =
     do { v' \<leftarrow> vmm_map_page v pml4 va pa flags; map_run n v' pml4 (va + PAGE_SIZE) (pa + PAGE_SIZE) flags }"

fun unmap_run :: "nat \<Rightarrow> vmm \<Rightarrow> u64 \<Rightarrow> u64 \<Rightarrow> vmm option" where
  "unmap_run 0 v pml4 va = Some v"
| "unmap_run (Suc n) v pml4 va =
     do { v' \<leftarrow> vmm_unmap_page v pml4 va; unmap_run n v' pml4 (va + PAGE_SIZE) }"

definition num_pages :: "u64 \<Rightarrow> u64" where
  "num_pages sz = (sz + PAGE_SIZE - 1) div PAGE_SIZE"

text \<open>\<open>None\<close> inside the result of the search is the value -1 of the C function.\<close>

definition find_free_region :: "nat \<Rightarrow> u32 list \<Rightarrow> u64 \<Rightarrow> nat option option" where
  "find_free_region max_pages bm n =
     (if 32 * length bm < max_pages then None
      else Some (scan_run (bits_test bm) (unat n) max_pages 0 0 0))"

definition set_bits :: "u32 list \<Rightarrow> nat \<Rightarrow> nat \<Rightarrow> u32 list option" where
  "set_bits bm start n = bits_set_all bm [start..<start + n]"

definition clear_bits :: "u32 list \<Rightarrow> nat \<Rightarrow> nat \<Rightarrow> u32 list option" where
  "clear_bits bm start n = bits_clear_all bm [start..<start + n]"

definition region_alloc :: "u64 \<Rightarrow> nat \<Rightarrow> u64 \<Rightarrow> window \<Rightarrow> u64 \<Rightarrow> u64 \<Rightarrow> (u64 \<times> window) option" where
  "region_alloc base max_pages flags w pml4 sz =
     (if sz = 0 then Some (0, w)
      else let n = num_pages sz in
      if n = 0 \<or> unat n > max_pages then Some (0, w)
      else do {
        r \<leftarrow> find_free_region max_pages (win_bitmap w) n;
        case r of None \<Rightarrow> Some (0, w)
        | Some start_bit \<Rightarrow>
            do {
              let base_va = base + of_nat start_bit * PAGE_SIZE;
              (phys, pm) \<leftarrow> pmm_alloc_pages (frames (win_vm w)) n;
              let v = (win_vm w)\<lparr>frames := pm\<rparr>;
              if phys = 0 then Some (0, w\<lparr>win_vm := v\<rparr>)
              else do {
                v' \<leftarrow> map_run (unat n) v pml4 base_va phys flags;
                bm \<leftarrow> set_bits (win_bitmap w) start_bit (unat n);
                Some (base_va, w\<lparr>win_bitmap := bm, win_vm := v'\<rparr>)
              }
            }
      })"

definition region_free :: "u64 \<Rightarrow> nat \<Rightarrow> window \<Rightarrow> u64 \<Rightarrow> u64 \<Rightarrow> u64 \<Rightarrow> window option" where
  "region_free base max_pages w pml4 ptr sz =
     (if sz = 0 then Some w
      else let n = num_pages sz in
      if ptr < base \<or> n = 0 then Some w
      else let start_bit = (ptr - base) div PAGE_SIZE in
      if start_bit + n > of_nat max_pages then Some w
      else do {
        v \<leftarrow> unmap_run (unat n) (win_vm w) pml4 ptr;
        bm \<leftarrow> clear_bits (win_bitmap w) (unat start_bit) (unat n);
        Some (w\<lparr>win_bitmap := bm, win_vm := v\<rparr>)
      })"

definition virtual_to_physical :: "u64 \<Rightarrow> nat \<Rightarrow> vmm \<Rightarrow> u64 \<Rightarrow> u64 \<Rightarrow> u64 \<times> vmm" where
  "virtual_to_physical base max_pages v pml4 va =
     (if va < base \<or> va \<ge> base + of_nat max_pages * PAGE_SIZE then (0, v)
      else let (pa, v') = vmm_get_physical_address v pml4 (va AND NOT (PAGE_SIZE - 1)) in
        (if pa = 0 then 0 else pa + (va AND (PAGE_SIZE - 1)), v'))"

section \<open>Pages and paths\<close>

text \<open>Every path of four indices is the path of an address.\<close>

lemma path4_va:
  assumes "path 4 q" "length q = 4"
  obtains va where "q = va_path va"
proof -
  from assms obtain a b c d where q: "q = [a, b, c, d]" and
    l: "a < 512" "b < 512" "c < 512" "d < 512"
    by (auto simp: path_def numeral_eq_Suc length_Suc_conv)
  let ?n = "((a * 512 + b) * 512 + c) * 512 + d"
  have lt: "?n < 2 ^ 36" using l by auto
  have u: "unat (of_nat (?n * 4096) :: u64) = ?n * 4096" by (rule unat_of_nat_id) (use lt in simp)
  have "unat (of_nat (?n * 4096) :: u64) div 4096 = ?n" unfolding u by simp
  moreover have dm: "(x * 512 + y) div 512 = x" "(x * 512 + y) mod 512 = y" if "y < 512" for x y :: nat
    using that by simp_all
  ultimately have "va_path (of_nat (?n * 4096)) = q"
    unfolding va_path_def index_value q using l by (simp only: dm mod_less)
  with that show ?thesis by metis
qed

lemma pmm_alloc_page_total: "pmm_alloc_page s = Some (a, s') \<Longrightarrow> pmm_total_pages s' = pmm_total_pages s"
  by (auto simp: pmm_alloc_page_def Let_def split: if_splits option.splits bind_splits)

lemma vmm_new_table_total: "vmm_new_table s w = Some (t, s') \<Longrightarrow>
    pmm_total_pages (frames s') = pmm_total_pages (frames s)"
  by (auto simp: vmm_new_table_def Let_def zero_table_def split: bind_splits dest!: pmm_alloc_page_total)

lemma vmm_get_total:
  "vmm_get_pdpt s p virt rw us = Some (t, s') \<Longrightarrow> pmm_total_pages (frames s') = pmm_total_pages (frames s)"
  "vmm_get_pd s p virt rw us = Some (t, s') \<Longrightarrow> pmm_total_pages (frames s') = pmm_total_pages (frames s)"
  "vmm_get_pt s p virt rw us = Some (t, s') \<Longrightarrow> pmm_total_pages (frames s') = pmm_total_pages (frames s)"
  by (auto simp: vmm_get_pdpt_def vmm_get_pd_def vmm_get_pt_def Let_def
      split: if_splits bind_splits dest!: vmm_new_table_total)

lemma vmm_map_page_total: "vmm_map_page s p virt phys flags = Some s' \<Longrightarrow>
    pmm_total_pages (frames s') = pmm_total_pages (frames s)"
  by (auto simp: vmm_map_page_def Let_def split: bind_splits dest!: vmm_get_total)

lemma page_base_value: "unat (va AND NOT (PAGE_SIZE - 1)) = unat va div 4096 * 4096"
proof -
  have m12: "PAGE_SIZE - 1 = mask 12" by (simp add: mask_eq_exp_minus_1)
  have "va AND NOT (PAGE_SIZE - 1) = push_bit 12 (drop_bit 12 va)"
    unfolding m12 by (intro bit_eqI) (auto simp: bit_simps)
  moreover have "unat va div 4096 * 4096 < 18446744073709551616"
    using unat_lt64 [of va] div_times_less_eq_dividend [of "unat va" 4096] by linarith
  ultimately show ?thesis by (simp add: push_bit_eq_mult unat_mult_nowrap unat_shr)
qed

lemma page_offset_value: "unat (va AND (PAGE_SIZE - 1)) = unat va mod 4096"
proof -
  have "va AND (PAGE_SIZE - 1) = take_bit 12 va" by (simp add: take_bit_eq_mask mask_eq_exp_minus_1)
  then show ?thesis by (simp add: take_bit_eq_mod unat_mod)
qed

section \<open>Runs of pages\<close>

lemma map_run_map_all:
  "map_run n v root va (push_bit 12 f) flags = aspace.map_all root flags v (device_pages va f n)"
proof (induction n arbitrary: v va f)
  case (Suc n)
  have f: "push_bit 12 f + PAGE_SIZE = push_bit 12 (f + 1)" by (simp add: push_bit_eq_mult algebra_simps)
  show ?case unfolding device_pages_Suc by (simp add: f Suc.IH)
qed (simp add: device_pages_def)

lemma map_run_total: "map_run n v root va pa flags = Some v' \<Longrightarrow>
    pmm_total_pages (frames v') = pmm_total_pages (frames v)"
  by (induction n arbitrary: v va pa) (auto split: bind_splits dest: vmm_map_page_total)

text \<open>A frame that is mapped at one page only is neither free nor a table.\<close>

lemma sole_plain:
  assumes wf: "tree_wf v root" and so: "sole_mapping v root va" and w: "walk (pmem v) root (va_path va) = Some g"
  shows "plain_frame v root g"
proof -
  have "walk (pmem v) root q \<noteq> Some g" if "path 3 q" for q
  proof
    assume "walk (pmem v) root q = Some g"
    with so w path_up(1) [OF that] have "q = va_path va" unfolding sole_mapping_def by blast
    with that show False by (simp add: path_def va_path_def)
  qed
  with tree_used [OF wf path_va w] show ?thesis by (simp add: plain_frame_def)
qed

text \<open>A plain frame reached from one page only is mapped there only.\<close>

lemma plain_sole:
  assumes "plain_frame v root g" "0 < unat g" "unat g < unat (pmm_total_pages (frames v))"
    "walk (pmem v) root (va_path va) = Some g"
    "\<And>w. walk (pmem v) root (va_path w) = Some g \<Longrightarrow> va_path w = va_path va"
  shows "sole_mapping v root va"
proof -
  have "q = va_path va" if q: "path 4 q" "walk (pmem v) root q = Some g" for q
  proof (cases "length q = 4")
    case True
    from path4_va [OF q(1) True] assms(5) q(2) show ?thesis by metis
  next
    case False
    with q(1) have "path 3 q" by (auto simp: path_def)
    with assms(1) q(2) show ?thesis by (simp add: plain_frame_def)
  qed
  with assms show ?thesis by (auto simp: sole_mapping_def)
qed

text \<open>
  Mapping the pages \<open>P\<close> to frames that were free, each its own, keeps every frame with one page.
\<close>

lemma sole_after_map:
  assumes wf: "tree_wf v root" and so: "sole_mapping v root va"
    and out: "\<And>x. va_path x \<notin> P \<Longrightarrow> walk (pmem v') root (va_path x) = walk (pmem v) root (va_path x)"
    and new: "\<And>x. va_path x \<in> P \<Longrightarrow> \<exists>g. walk (pmem v') root (va_path x) = Some g \<and>
        unat g \<in> free_pages (frames v) \<and> 0 < unat g \<and> unat g < T \<and> plain_frame v' root g"
    and inj: "\<And>x y. va_path x \<in> P \<Longrightarrow> va_path y \<in> P \<Longrightarrow>
        walk (pmem v') root (va_path x) = walk (pmem v') root (va_path y) \<Longrightarrow> va_path x = va_path y"
    and plain: "\<And>x. plain_frame v root x \<Longrightarrow> unat x < T \<Longrightarrow> plain_frame v' root x"
    and T: "T = unat (pmm_total_pages (frames v))" "pmm_total_pages (frames v') = pmm_total_pages (frames v)"
  shows "sole_mapping v' root va"
proof (cases "va_path va \<in> P")
  case True
  from new [OF True] obtain g where g: "walk (pmem v') root (va_path va) = Some g"
    "unat g \<in> free_pages (frames v)" "0 < unat g" "unat g < T" "plain_frame v' root g" by blast
  have "va_path x = va_path va" if x: "walk (pmem v') root (va_path x) = Some g" for x
  proof (cases "va_path x \<in> P")
    case False
    with out x have "walk (pmem v) root (va_path x) = Some g" by simp
    from tree_used [OF wf path_va this] g(2) show ?thesis by blast
  qed (use inj [OF _ True] g(1) x in simp)
  moreover have "unat g < unat (pmm_total_pages (frames v'))" using g(4) T by simp
  ultimately show ?thesis using plain_sole [OF g(5,3) _ g(1)] by blast
next
  case False
  show ?thesis
  proof (cases "walk (pmem v) root (va_path va)")
    case None
    with out [OF False] show ?thesis by (simp add: sole_mapping_def)
  next
    case (Some g)
    from so Some have g: "0 < unat g" "unat g < T"
      and only: "\<And>q. path 4 q \<Longrightarrow> walk (pmem v) root q = Some g \<Longrightarrow> q = va_path va"
      unfolding sole_mapping_def T by blast+
    have "va_path x = va_path va" if x: "walk (pmem v') root (va_path x) = Some g" for x
    proof -
      have "va_path x \<notin> P"
      proof
        assume "va_path x \<in> P"
        from new [OF this] x tree_used [OF wf path_va Some] show False by auto
      qed
      with out x only [OF path_va] show ?thesis by auto
    qed
    moreover have "unat g < unat (pmm_total_pages (frames v'))" using g(2) T by simp
    moreover have "walk (pmem v') root (va_path va) = Some g" using out [OF False] Some by simp
    ultimately show ?thesis using plain_sole [OF plain [OF sole_plain [OF wf so Some] g(2)] g(1)] by blast
  qed
qed

lemma unmap_sole_other:
  assumes "sole_mapping v root w" "va_path w \<noteq> va_path va" "tree_wf v root"
    and same: "\<And>q. path 4 q \<Longrightarrow> q \<noteq> va_path va \<Longrightarrow> walk (pmem v') root q = walk (pmem v) root q"
    and none: "walk (pmem v') root (va_path va) = None"
    and tot: "pmm_total_pages (frames v') = pmm_total_pages (frames v)"
  shows "sole_mapping v' root w"
proof -
  have "walk (pmem v') root q = Some f \<Longrightarrow> walk (pmem v) root q = Some f" if "path 4 q" for q f
    using same [OF that] none by (cases "q = va_path va") auto
  with assms(1) same [OF path_va assms(2)] tot show ?thesis
    unfolding sole_mapping_def by (metis path_va)
qed

lemma unmap_step:
  assumes "mem_ok v" "tree_wf v root" "sole_mapping v root va"
  shows "\<exists>v'. vmm_unmap_page v root va = Some v' \<and> mem_ok v' \<and> tree_wf v' root \<and>
     walk (pmem v') root (va_path va) = None \<and>
     (\<forall>q. path 4 q \<longrightarrow> q \<noteq> va_path va \<longrightarrow> walk (pmem v') root q = walk (pmem v) root q) \<and>
     pmm_total_pages (frames v') = pmm_total_pages (frames v) \<and>
     free_pages (frames v') = free_pages (frames v) \<union> unat ` set_option (walk (pmem v) root (va_path va))"
proof (cases "walk (pmem v) root (va_path va)")
  case None
  from vmm_unmap_page_none [OF assms(2) None] obtain v' where
    v': "vmm_unmap_page v root va = Some v'" "pmem v' = pmem v" "frames v' = frames v" by blast
  then have "mem_ok v'" "tree_wf v' root" using assms by (simp_all add: mem_ok_def tree_wf_def)
  with v' None show ?thesis by simp
next
  case (Some f)
  from vmm_unmap_page_some [OF assms Some] Some show ?thesis by auto
qed

text \<open>
  Both release loops are iterations of a step that removes one page; \<open>unmap_law\<close> is what the
  step must do.
\<close>

fun unmap_fold :: "(vmm \<Rightarrow> u64 \<Rightarrow> vmm option) \<Rightarrow> nat \<Rightarrow> vmm \<Rightarrow> u64 \<Rightarrow> vmm option" where
  "unmap_fold step 0 v va = Some v"
| "unmap_fold step (Suc n) v va = step v va \<bind> (\<lambda>v'. unmap_fold step n v' (va + PAGE_SIZE))"

definition unmap_law :: "u64 \<Rightarrow> (vmm \<Rightarrow> u64 \<Rightarrow> vmm option) \<Rightarrow> bool" where
  "unmap_law root step \<longleftrightarrow> (\<forall>v va. mem_ok v \<longrightarrow> tree_wf v root \<longrightarrow> sole_mapping v root va \<longrightarrow>
     (\<exists>v'. step v va = Some v' \<and> mem_ok v' \<and> tree_wf v' root \<and>
       walk (pmem v') root (va_path va) = None \<and>
       (\<forall>q. path 4 q \<longrightarrow> q \<noteq> va_path va \<longrightarrow> walk (pmem v') root q = walk (pmem v) root q) \<and>
       pmm_total_pages (frames v') = pmm_total_pages (frames v) \<and>
       free_pages (frames v') = free_pages (frames v) \<union> unat ` set_option (walk (pmem v) root (va_path va))))"

lemma unmap_run_fold: "unmap_run n v root va = unmap_fold (\<lambda>v va. vmm_unmap_page v root va) n v va"
  by (induction n arbitrary: v va) simp_all

lemma unmap_page_law: "unmap_law root (\<lambda>v va. vmm_unmap_page v root va)"
  unfolding unmap_law_def using unmap_step by blast

text \<open>After a run has been taken and released: the bits are the original ones, the frames are free.\<close>

lemma run_bits_restored:
  assumes "free_run (bits_test bm) n s" "\<forall>k. bits_test bm1 k \<longleftrightarrow> (s \<le> k \<and> k < s + n) \<or> bits_test bm k"
    "\<forall>k. bits_test bm2 k \<longleftrightarrow> \<not> (s \<le> k \<and> k < s + n) \<and> bits_test bm1 k"
  shows "\<forall>k. bits_test bm2 k \<longleftrightarrow> bits_test bm k"
proof
  fix k
  have "\<not> bits_test bm k" if "s \<le> k" "k < s + n"
    using assms(1) [unfolded free_run_def, rule_format, of "k - s"] that by simp
  with assms(2,3) show "bits_test bm2 k \<longleftrightarrow> bits_test bm k" by blast
qed

lemma run_frames_free:
  assumes m: "\<forall>k < n. m (s + k) = Some (of_nat (p + k) :: u64)" and p: "p + n \<le> 2 ^ 24"
    and f: "F = G \<union> (\<Union>k\<in>{s..<s + n}. unat ` set_option (m k))"
  shows "{p..<p + n} \<subseteq> F"
proof
  fix x assume "x \<in> {p..<p + n}"
  then obtain k where k: "x = p + k" "k < n" by (metis atLeastLessThan_iff le_Suc_ex nat_add_left_cancel_less)
  then have "unat (of_nat (p + k) :: u64) = p + k" using p by (intro unat_of_nat_id) simp
  with m k have "x \<in> unat ` set_option (m (s + k))" by (simp del: of_nat_add)
  with k show "x \<in> F" unfolding f by auto
qed

section \<open>Windows\<close>

locale page_window =
  fixes base :: u64 and max_pages :: nat and flags :: u64
  assumes base_aligned: "unat base mod 4096 = 0"
    and window_end: "unat base + max_pages * 4096 < 2 ^ 64"
    and window_size: "max_pages \<le> 2 ^ 36"
begin

definition page :: "nat \<Rightarrow> u64" where
  "page k = base + of_nat k * PAGE_SIZE"

lemma page_inj: "k < max_pages \<Longrightarrow> j < max_pages \<Longrightarrow> va_path (page k) = va_path (page j) \<Longrightarrow> k = j"
  using device_pages_distinct [OF base_aligned window_end window_size, of 0]
  unfolding page_def device_pages_def distinct_map inj_on_def by auto

text \<open>
  The invariant: a bit of the bitmap is set exactly when the page is mapped, and the frame of
  a mapped page belongs to that page alone.
\<close>

definition win_inv :: "u64 \<Rightarrow> window \<Rightarrow> bool" where
  "win_inv root w \<longleftrightarrow> mem_ok (win_vm w) \<and> tree_wf (win_vm w) root \<and> max_pages \<le> 32 * length (win_bitmap w) \<and>
     (\<forall>k < max_pages. bits_test (win_bitmap w) k \<longleftrightarrow> walk (pmem (win_vm w)) root (va_path (page k)) \<noteq> None) \<and>
     (\<forall>k < max_pages. sole_mapping (win_vm w) root (page k))"

lemma win_invD:
  assumes "win_inv root w"
  shows "mem_ok (win_vm w)" "tree_wf (win_vm w) root" "max_pages \<le> 32 * length (win_bitmap w)"
    "\<And>k. k < max_pages \<Longrightarrow> bits_test (win_bitmap w) k \<longleftrightarrow> walk (pmem (win_vm w)) root (va_path (page k)) \<noteq> None"
    "\<And>k. k < max_pages \<Longrightarrow> sole_mapping (win_vm w) root (page k)"
  using assms unfolding win_inv_def by blast+

lemma page_run: "page (s + k) = page s + of_nat k * PAGE_SIZE"
  by (simp add: page_def algebra_simps)

lemma run_paths:
  "(va_path \<circ> fst) ` set (device_pages (page s) f n) = va_path ` page ` {s..<s + n}"
proof -
  have "(va_path \<circ> fst) ` set (device_pages (page s) f n) = (\<lambda>k. va_path (page (s + k))) ` {0..<n}"
    by (simp add: device_pages_def page_run image_image)
  also have "\<dots> = va_path ` page ` (\<lambda>k. s + k) ` {0..<n}" by (simp only: image_image)
  also have "(\<lambda>k. s + k) ` {0..<n} = {s..<s + n}" using image_add_atLeastLessThan [of s 0 n] by (simp add: add.commute)
  finally show ?thesis .
qed

lemma run_distinct:
  assumes "s + n \<le> max_pages"
  shows "distinct (map (va_path \<circ> fst) (device_pages (page s) f n))"
proof -
  have "k = j" if "k < n" "j < n" "va_path (page (s + k)) = va_path (page (s + j))" for k j
    using page_inj [OF _ _ that(3)] that(1,2) assms by simp
  then show ?thesis by (auto simp: device_pages_def distinct_map inj_on_def page_run)
qed

text \<open>Mapping a free run to fresh contiguous frames.\<close>

lemma map_fresh_run:
  assumes inv: "win_inv root w" and run: "s + n \<le> max_pages"
    and pm: "pmm_wf pm" "pmm_total_pages pm = pmm_total_pages (frames (win_vm w))"
      "fits (frames (win_vm w)) n p" "free_pages pm = free_pages (frames (win_vm w)) - {p..<p + n}"
    and room: "4 * n \<le> card (free_pages (frames (win_vm w)))"
  defines "v \<equiv> (win_vm w)\<lparr>frames := pm\<rparr>"
  shows "\<exists>v'. map_run n v root (page s) (of_nat p * PAGE_SIZE) flags = Some v' \<and> mem_ok v' \<and> tree_wf v' root \<and>
     (\<forall>k < n. walk (pmem v') root (va_path (page (s + k))) = Some (of_nat (p + k))) \<and>
     (\<forall>x. va_path x \<notin> va_path ` page ` {s..<s + n} \<longrightarrow>
        walk (pmem v') root (va_path x) = walk (pmem (win_vm w)) root (va_path x)) \<and>
     (\<forall>k < max_pages. sole_mapping v' root (page k))"
proof -
  let ?v = "win_vm w" and ?P = "va_path ` page ` {s..<s + n}"
  note i = win_invD [OF inv]
  define f where "f = (of_nat p :: u64)"
  from pm(3) have pn: "p + n \<le> unat (pmm_total_pages (frames ?v))" and free: "{p..<p + n} \<subseteq> free_pages (frames ?v)"
    by (simp_all add: fits_def)
  have tot: "unat (pmm_total_pages (frames ?v)) \<le> 2 ^ 24" using i(1) by (simp add: mem_ok_def)
  have uk: "unat (of_nat (p + k) :: u64) = p + k" if "k < n" for k
    by (rule unat_of_nat_id) (use that pn tot in simp)
  have v: "mem_ok v" "tree_wf v root"
    using i(1,2) pm by (auto simp: mem_ok_def v_def tree_wf_def)
  have free_plain: "plain_frame v root (of_nat (p + k))" if "k < n" for k
  proof -
    have m: "p + k \<in> free_pages (frames ?v)" using free that by auto
    have "walk (pmem ?v) root q \<noteq> Some (of_nat (p + k))" if "path 3 q" for q
      using tree_used [OF i(2) path_up(1) [OF that]] m uk [OF \<open>k < n\<close>] by fastforce
    moreover have "p + k \<notin> free_pages pm" using pm(4) \<open>k < n\<close> by auto
    ultimately show ?thesis using uk [OF that] by (simp add: plain_frame_def v_def del: of_nat_add)
  qed
  have us: "\<forall>(va, x)\<in>set (device_pages (page s) f n). unat x < 2 ^ 40 \<and> plain_frame v root x"
    using free_plain uk pn tot by (fastforce simp: device_pages_def f_def)
  have "card (free_pages pm) = card (free_pages (frames ?v)) - n"
    unfolding pm(4) using free by (subst card_Diff_subset) simp_all
  then have "3 * length (device_pages (page s) f n) \<le> card (free_pages (frames v))"
    using room by (simp add: device_pages_def v_def)
  from aspace.map_all_spec [where flags = flags, OF conjI [OF v] this us run_distinct [OF run]]
  obtain v' where v': "aspace.map_all root flags v (device_pages (page s) f n) = Some v'" "mem_ok v'" "tree_wf v' root"
    "\<forall>(va, x)\<in>set (device_pages (page s) f n). walk (pmem v') root (va_path va) = Some x"
    "\<And>x. va_path x \<notin> ?P \<Longrightarrow> walk (pmem v') root (va_path x) = walk (pmem v) root (va_path x)"
    "\<And>x. unat x < 2 ^ 40 \<Longrightarrow> plain_frame v root x \<Longrightarrow> plain_frame v' root x"
    unfolding run_paths by blast
  have "push_bit 12 f = of_nat p * PAGE_SIZE" by (simp add: push_bit_eq_mult f_def)
  then have r: "map_run n v root (page s) (of_nat p * PAGE_SIZE) flags = Some v'"
    using map_run_map_all [of n v root "page s" f flags] v'(1) by simp
  have totv: "pmm_total_pages (frames v') = pmm_total_pages (frames ?v)"
    using map_run_total [OF r] pm(2) by (simp add: v_def)
  have look: "walk (pmem v') root (va_path (page (s + k))) = Some (of_nat (p + k))" if "k < n" for k
  proof -
    have "(page s + of_nat k * PAGE_SIZE, f + of_nat k) \<in> set (device_pages (page s) f n)"
      using that by (auto simp: device_pages_def)
    with v'(4) show ?thesis by (auto simp: page_run f_def)
  qed
  have out: "walk (pmem v') root (va_path x) = walk (pmem ?v) root (va_path x)" if "va_path x \<notin> ?P" for x
    using v'(5) [OF that] by (simp add: v_def)
  have inP: "\<exists>k < n. va_path x = va_path (page (s + k))" if "va_path x \<in> ?P" for x
  proof -
    from that obtain j where "s \<le> j" "j < s + n" "va_path x = va_path (page j)" by auto
    then show ?thesis by (intro exI [of _ "j - s"]) auto
  qed
  have fresh: "p + k \<in> free_pages (frames ?v)" "0 < p + k" if "k < n" for k
  proof -
    show m: "p + k \<in> free_pages (frames ?v)" using free that by auto
    then show "0 < p + k" using i(1) unfolding mem_ok_def by (metis gr0I)
  qed
  have sole: "sole_mapping v' root (page j)" if j: "j < max_pages" for j
  proof (rule sole_after_map [OF i(2) i(5) [OF j] out _ _ _ refl totv])
    fix x assume "va_path x \<in> ?P"
    then obtain k where k: "k < n" "va_path x = va_path (page (s + k))" using inP by blast
    have "plain_frame v' root (of_nat (p + k))"
      by (rule v'(6) [OF _ free_plain [OF k(1)]]) (use uk [OF k(1)] k pn tot in simp)
    then show "\<exists>g. walk (pmem v') root (va_path x) = Some g \<and> unat g \<in> free_pages (frames ?v) \<and>
        0 < unat g \<and> unat g < unat (pmm_total_pages (frames ?v)) \<and> plain_frame v' root g"
      using look [OF k(1)] k uk [OF k(1)] fresh [OF k(1)] pn
      by (intro exI [of _ "of_nat (p + k)"]) (simp del: of_nat_add)
  next
    fix x y assume "va_path x \<in> ?P" "va_path y \<in> ?P"
      and e: "walk (pmem v') root (va_path x) = walk (pmem v') root (va_path y)"
    then obtain k k' where k: "k < n" "va_path x = va_path (page (s + k))" "k' < n" "va_path y = va_path (page (s + k'))"
      using inP by blast
    with e look [OF k(1)] look [OF k(3)] have "(of_nat (p + k) :: u64) = of_nat (p + k')" by simp
    then have "k = k'" using uk [OF k(1)] uk [OF k(3)] by (metis add_left_cancel)
    with k show "va_path x = va_path y" by simp
  next
    fix x assume "plain_frame ?v root x" "unat x < unat (pmm_total_pages (frames ?v))"
    then show "plain_frame v' root x"
      using pm(4) tot by (intro v'(6)) (auto simp: plain_frame_def v_def)
  qed
  show ?thesis using r v'(2,3) look out sole by blast
qed

text \<open>Removing the mappings of a run.\<close>

lemma unmap_fold_spec:
  assumes law: "unmap_law root step" and "mem_ok v" "tree_wf v root" "\<And>k. k < max_pages \<Longrightarrow> sole_mapping v root (page k)" "s + n \<le> max_pages"
  shows "\<exists>v'. unmap_fold step n v (page s) = Some v' \<and> mem_ok v' \<and> tree_wf v' root \<and>
     (\<forall>k < max_pages. sole_mapping v' root (page k)) \<and>
     (\<forall>k < max_pages. walk (pmem v') root (va_path (page k)) =
        (if s \<le> k \<and> k < s + n then None else walk (pmem v) root (va_path (page k)))) \<and>
     pmm_total_pages (frames v') = pmm_total_pages (frames v) \<and>
     free_pages (frames v') = free_pages (frames v) \<union>
        (\<Union>k\<in>{s..<s + n}. unat ` set_option (walk (pmem v) root (va_path (page k))))"
  using assms(2-)
proof (induction n arbitrary: v s)
  case (Suc n)
  have s: "s < max_pages" using Suc.prems(4) by simp
  from law [unfolded unmap_law_def, rule_format, OF Suc.prems(1,2) Suc.prems(3) [OF s]] obtain v1 where
    v1: "step v (page s) = Some v1" "mem_ok v1" "tree_wf v1 root"
      "walk (pmem v1) root (va_path (page s)) = None"
      "\<And>q. path 4 q \<Longrightarrow> q \<noteq> va_path (page s) \<Longrightarrow> walk (pmem v1) root q = walk (pmem v) root q"
      "pmm_total_pages (frames v1) = pmm_total_pages (frames v)"
      "free_pages (frames v1) = free_pages (frames v) \<union> unat ` set_option (walk (pmem v) root (va_path (page s)))"
    by blast
  have look1: "walk (pmem v1) root (va_path (page k)) =
      (if k = s then None else walk (pmem v) root (va_path (page k)))" if "k < max_pages" for k
    using v1(4) v1(5) [OF path_va] page_inj [OF that s] by auto
  have sole1: "sole_mapping v1 root (page k)" if "k < max_pages" for k
  proof (cases "k = s")
    case True
    with v1(4) show ?thesis by (simp add: sole_mapping_def)
  next
    case False
    then have "va_path (page k) \<noteq> va_path (page s)" using page_inj [OF that s] by blast
    from unmap_sole_other [OF Suc.prems(3) [OF that] this Suc.prems(2) v1(5,4,6)] show ?thesis .
  qed
  have nx: "page s + PAGE_SIZE = page (Suc s)" using page_run [of s 1] by simp
  from Suc.IH [OF v1(2,3) sole1, of "Suc s"] Suc.prems(4) obtain v' where
    v': "unmap_fold step n v1 (page (Suc s)) = Some v'" "mem_ok v'" "tree_wf v' root"
      "\<forall>k < max_pages. sole_mapping v' root (page k)"
      "\<forall>k < max_pages. walk (pmem v') root (va_path (page k)) =
        (if Suc s \<le> k \<and> k < Suc s + n then None else walk (pmem v1) root (va_path (page k)))"
      "pmm_total_pages (frames v') = pmm_total_pages (frames v1)"
      "free_pages (frames v') = free_pages (frames v1) \<union>
        (\<Union>k\<in>{Suc s..<Suc s + n}. unat ` set_option (walk (pmem v1) root (va_path (page k))))" by auto
  have "unmap_fold step (Suc n) v (page s) = Some v'" using v1(1) v'(1) by (simp add: nx)
  moreover have "walk (pmem v') root (va_path (page k)) =
      (if s \<le> k \<and> k < s + Suc n then None else walk (pmem v) root (va_path (page k)))" if "k < max_pages" for k
    using v'(5) look1 [OF that] that by auto
  moreover have "free_pages (frames v') = free_pages (frames v) \<union>
      (\<Union>k\<in>{s..<s + Suc n}. unat ` set_option (walk (pmem v) root (va_path (page k))))"
  proof -
    have "{s..<s + Suc n} = insert s {Suc s..<Suc s + n}" by auto
    moreover have "(\<Union>k\<in>{Suc s..<Suc s + n}. unat ` set_option (walk (pmem v1) root (va_path (page k)))) =
        (\<Union>k\<in>{Suc s..<Suc s + n}. unat ` set_option (walk (pmem v) root (va_path (page k))))"
      using look1 Suc.prems(4) by (intro SUP_cong) auto
    ultimately show ?thesis unfolding v'(7) v1(7) by (simp add: Un_assoc)
  qed
  ultimately show ?case using v'(2,3,4,6) v1(6) by auto
qed auto

lemma page_value:
  assumes "k \<le> max_pages"
  shows "unat (page k) = unat base + k * 4096"
  using device_va(1) [OF base_aligned, of k 0] assms window_end
  by (simp add: page_def mult.commute algebra_simps less_le_trans)

text \<open>Allocation: the first free run of the window, mapped to contiguous fresh frames.\<close>

lemma region_alloc_ok:
  assumes inv: "win_inv root w" and n: "unat (num_pages sz) = n" "0 < n" "sz \<noteq> 0"
    and run: "s0 + n \<le> max_pages" "free_run (bits_test (win_bitmap w)) n s0"
    and mem: "fits (frames (win_vm w)) n p0" "4 * n \<le> card (free_pages (frames (win_vm w)))"
  shows "\<exists>s p w'. region_alloc base max_pages flags w root sz = Some (page s, w') \<and> s + n \<le> max_pages \<and>
     free_run (bits_test (win_bitmap w)) n s \<and> (\<forall>j < s. \<not> free_run (bits_test (win_bitmap w)) n j) \<and>
     win_inv root w' \<and> fits (frames (win_vm w)) n p \<and>
     (\<forall>k < n. walk (pmem (win_vm w')) root (va_path (page (s + k))) = Some (of_nat (p + k))) \<and>
     (\<forall>k. bits_test (win_bitmap w') k \<longleftrightarrow> (s \<le> k \<and> k < s + n) \<or> bits_test (win_bitmap w) k)"
proof -
  let ?v = "win_vm w" and ?bm = "win_bitmap w"
  note i = win_invD [OF inv]
  obtain s where sr: "scan_run (bits_test ?bm) n max_pages 0 0 0 = Some s"
    using scan_run_None [OF _ n(2) run(1)] run(2) by (cases "scan_run (bits_test ?bm) n max_pages 0 0 0") auto
  note s = scan_run_Some [OF sr n(2)]
  have "0 < unat (num_pages sz)" "pmm_wf (frames ?v)" using n i(1) by (simp_all add: mem_ok_def)
  from pmm_alloc_pages_spec [OF this(2,1)] mem(1) obtain p pm where
    pa: "pmm_alloc_pages (frames ?v) (num_pages sz) = Some (of_nat p * PAGE_SIZE, pm)" and
    pm: "pmm_wf pm" "pmm_total_pages pm = pmm_total_pages (frames ?v)" "fits (frames ?v) n p"
      "free_pages pm = free_pages (frames ?v) - {p..<p + n}" unfolding n by blast
  have "p \<in> free_pages (frames ?v)" "p < 2 ^ 24"
    using pm(3) n(2) i(1) by (auto simp: fits_def mem_ok_def)
  then have "unat (of_nat p * PAGE_SIZE :: u64) = p * 4096" "0 < p"
    using i(1) by (auto simp: unat_mult_nowrap unat_of_nat_id mem_ok_def intro: gr0I)
  then have p0: "of_nat p * PAGE_SIZE \<noteq> (0 :: u64)" by (metis mult_is_0 unat_0 less_irrefl zero_neq_numeral)
  from map_fresh_run [OF inv s(1) pm mem(2)] obtain v' where
    v': "map_run n (?v\<lparr>frames := pm\<rparr>) root (page s) (of_nat p * PAGE_SIZE) flags = Some v'" "mem_ok v'" "tree_wf v' root"
      "\<forall>k < n. walk (pmem v') root (va_path (page (s + k))) = Some (of_nat (p + k))"
      "\<And>x. va_path x \<notin> va_path ` page ` {s..<s + n} \<Longrightarrow>
        walk (pmem v') root (va_path x) = walk (pmem ?v) root (va_path x)"
      "\<forall>k < max_pages. sole_mapping v' root (page k)" by blast
  have "\<forall>k\<in>set [s..<s + n]. k < LENGTH(32) * length ?bm" using s(1) i(3) by auto
  from bits_set_all_spec [OF this] obtain bm where
    bm: "bits_set_all ?bm [s..<s + n] = Some bm" "length bm = length ?bm"
      "\<And>j. bits_test bm j \<longleftrightarrow> j \<in> set [s..<s + n] \<or> bits_test ?bm j" by blast
  let ?w = "w\<lparr>win_bitmap := bm, win_vm := v'\<rparr>"
  have "\<not> max_pages < n" using run(1) by simp
  moreover have "num_pages sz \<noteq> 0" using n by auto
  ultimately have r: "region_alloc base max_pages flags w root sz = Some (page s, ?w)"
    using i(3) n(3) sr pa p0 v'(1) bm(1)
    by (simp add: region_alloc_def Let_def find_free_region_def n(1) page_def [symmetric] set_bits_def not_less)
  have "bits_test bm k \<longleftrightarrow> walk (pmem v') root (va_path (page k)) \<noteq> None" if k: "k < max_pages" for k
  proof (cases "s \<le> k \<and> k < s + n")
    case True
    with v'(4) [rule_format, of "k - s"] bm(3) [of k] show ?thesis by auto
  next
    case False
    have "va_path (page k) \<notin> va_path ` page ` {s..<s + n}"
    proof
      assume "va_path (page k) \<in> va_path ` page ` {s..<s + n}"
      then obtain j where j: "s \<le> j" "j < s + n" "va_path (page k) = va_path (page j)" by auto
      with page_inj [OF k _ j(3)] s(1) False show False by auto
    qed
    with v'(5) bm(3) [of k] i(4) [OF k] False show ?thesis by simp
  qed
  then have "win_inv root ?w" using v'(2,3,6) i(3) bm(2) by (simp add: win_inv_def)
  then show ?thesis using r s v'(4) pm(3) bm(3)
    by (intro exI [of _ s] exI [of _ p] exI [of _ ?w]) auto
qed

lemma region_alloc_null:
  assumes inv: "win_inv root w" and n: "unat (num_pages sz) = n" "0 < n" "sz \<noteq> 0"
    and no: "max_pages < n \<or> (\<forall>s. s + n \<le> max_pages \<longrightarrow> \<not> free_run (bits_test (win_bitmap w)) n s) \<or>
      (\<nexists>p. fits (frames (win_vm w)) n p)"
  shows "region_alloc base max_pages flags w root sz = Some (0, w)"
proof -
  note i = win_invD [OF inv]
  have "0 < unat (num_pages sz)" "pmm_wf (frames (win_vm w))" using n i(1) by (simp_all add: mem_ok_def)
  note pa = pmm_alloc_pages_spec [OF this(2,1), unfolded n]
  have z: "num_pages sz \<noteq> 0" using n by auto
  show ?thesis
  proof (cases "scan_run (bits_test (win_bitmap w)) n max_pages 0 0 0")
    case None
    with i(3) n(3) z show ?thesis by (simp add: region_alloc_def Let_def find_free_region_def n(1))
  next
    case (Some s)
    with no scan_run_Some [OF Some n(2)] have "max_pages < n \<or> (\<nexists>p. fits (frames (win_vm w)) n p)" by blast
    with pa i(3) n(3) z Some show ?thesis
      by (auto simp: region_alloc_def Let_def find_free_region_def n(1))
  qed
qed

text \<open>Release: the run is unmapped, its bits are cleared and its frames are free again.\<close>

lemma release_run:
  assumes inv: "win_inv root w" and law: "unmap_law root step" and s: "s + n \<le> max_pages"
  shows "\<exists>v' bm. unmap_fold step n (win_vm w) (page s) = Some v' \<and> clear_bits (win_bitmap w) s n = Some bm \<and>
     win_inv root (w\<lparr>win_bitmap := bm, win_vm := v'\<rparr>) \<and>
     (\<forall>k. bits_test bm k \<longleftrightarrow> \<not> (s \<le> k \<and> k < s + n) \<and> bits_test (win_bitmap w) k) \<and>
     free_pages (frames v') = free_pages (frames (win_vm w)) \<union>
        (\<Union>k\<in>{s..<s + n}. unat ` set_option (walk (pmem (win_vm w)) root (va_path (page k))))"
proof -
  let ?bm = "win_bitmap w"
  note i = win_invD [OF inv]
  from unmap_fold_spec [OF law i(1,2,5) s] obtain v' where
    v': "unmap_fold step n (win_vm w) (page s) = Some v'" "mem_ok v'" "tree_wf v' root"
      "\<forall>k < max_pages. sole_mapping v' root (page k)"
      "\<forall>k < max_pages. walk (pmem v') root (va_path (page k)) =
        (if s \<le> k \<and> k < s + n then None else walk (pmem (win_vm w)) root (va_path (page k)))"
      "free_pages (frames v') = free_pages (frames (win_vm w)) \<union>
        (\<Union>k\<in>{s..<s + n}. unat ` set_option (walk (pmem (win_vm w)) root (va_path (page k))))" by blast
  have "\<forall>k\<in>set [s..<s + n]. k < LENGTH(32) * length ?bm" using s i(3) by auto
  from bits_clear_all_spec [OF this] obtain bm where
    bm: "bits_clear_all ?bm [s..<s + n] = Some bm" "length bm = length ?bm"
      "\<And>j. bits_test bm j \<longleftrightarrow> j \<notin> set [s..<s + n] \<and> bits_test ?bm j" by blast
  have "win_inv root (w\<lparr>win_bitmap := bm, win_vm := v'\<rparr>)"
    unfolding win_inv_def using v'(2-5) i(3,4) bm(2,3) by auto
  then show ?thesis using v'(1,6) bm by (auto simp: clear_bits_def)
qed

lemma release_guards:
  assumes n: "unat (num_pages sz) = n" and s: "s + n \<le> max_pages"
  shows "\<not> page s < base" "unat ((page s - base) div PAGE_SIZE) = s"
    "\<not> of_nat max_pages < (page s - base) div PAGE_SIZE + num_pages sz"
proof -
  have pv: "unat (page s) = unat base + s * 4096" by (rule page_value) (use s in simp)
  then show "\<not> page s < base" by (simp add: word_less_nat_alt)
  show sb: "unat ((page s - base) div PAGE_SIZE) = s"
    using pv by (simp add: unat_div unat_sub word_le_nat_alt)
  have m: "unat (of_nat max_pages :: u64) = max_pages" by (rule unat_of_nat_id) (use window_size in simp)
  have "unat ((page s - base) div PAGE_SIZE + num_pages sz) = s + n"
    using sb n s window_size by (subst unat_add_nowrap) simp_all
  then show "\<not> of_nat max_pages < (page s - base) div PAGE_SIZE + num_pages sz"
    using m s by (simp add: word_less_nat_alt)
qed

lemma region_free_spec:
  assumes inv: "win_inv root w" and n: "unat (num_pages sz) = n" "0 < n" "sz \<noteq> 0" and s: "s + n \<le> max_pages"
  shows "\<exists>w'. region_free base max_pages w root (page s) sz = Some w' \<and> win_inv root w' \<and>
     (\<forall>k. bits_test (win_bitmap w') k \<longleftrightarrow> \<not> (s \<le> k \<and> k < s + n) \<and> bits_test (win_bitmap w) k) \<and>
     free_pages (frames (win_vm w')) = free_pages (frames (win_vm w)) \<union>
        (\<Union>k\<in>{s..<s + n}. unat ` set_option (walk (pmem (win_vm w)) root (va_path (page k))))"
proof -
  from release_run [OF inv unmap_page_law s] obtain v' bm where
    r: "unmap_fold (\<lambda>v va. vmm_unmap_page v root va) n (win_vm w) (page s) = Some v'"
      "clear_bits (win_bitmap w) s n = Some bm" "win_inv root (w\<lparr>win_bitmap := bm, win_vm := v'\<rparr>)"
      "\<forall>k. bits_test bm k \<longleftrightarrow> \<not> (s \<le> k \<and> k < s + n) \<and> bits_test (win_bitmap w) k"
      "free_pages (frames v') = free_pages (frames (win_vm w)) \<union>
        (\<Union>k\<in>{s..<s + n}. unat ` set_option (walk (pmem (win_vm w)) root (va_path (page k))))" by blast
  note g = release_guards [OF n(1) s]
  have "num_pages sz \<noteq> 0" using n by auto
  with n(3) g r(1,2) have "region_free base max_pages w root (page s) sz = Some (w\<lparr>win_bitmap := bm, win_vm := v'\<rparr>)"
    by (simp add: region_free_def Let_def n(1) unmap_run_fold)
  with r(3-5) show ?thesis by auto
qed

text \<open>Translation of an address inside a mapped page of the window.\<close>

lemma translate_page:
  assumes wf: "tree_wf v root" and k: "k < max_pages" and r: "r < 4096"
    and w: "walk (pmem v) root (va_path (page k)) = Some g" and g: "0 < unat g" "unat g < 2 ^ 40"
  shows "unat (fst (virtual_to_physical base max_pages v root (base + of_nat (k * 4096 + r)))) =
     unat g * 4096 + r"
proof -
  define va where "va = base + of_nat (k * 4096 + r)"
  have lt: "unat base + k * 4096 + r < 2 ^ 64" using k r window_end by simp
  note d = device_va [OF base_aligned lt r, folded va_def]
  have dm: "(x + k * 4096 + r) div 4096 * 4096 = x + k * 4096" "(x + k * 4096 + r) mod 4096 = r"
    if "x mod 4096 = 0" for x
  proof -
    from that obtain y where "x = y * 4096" by (metis mod_0_imp_dvd dvd_def mult.commute)
    then have x: "x + k * 4096 + r = (y + k) * 4096 + r" "x = y * 4096" by simp_all
    have z: "(z * 4096 + r) div 4096 = z" "(z * 4096 + r) mod 4096 = r" for z using r by simp_all
    show "(x + k * 4096 + r) div 4096 * 4096 = x + k * 4096" "(x + k * 4096 + r) mod 4096 = r"
      unfolding x(1) z by (simp_all add: x(2))
  qed
  have "unat (va AND NOT (PAGE_SIZE - 1)) = unat (page k)"
    unfolding page_base_value d(1) dm(1) [OF base_aligned] using page_value [of k] k by simp
  then have b: "va AND NOT (PAGE_SIZE - 1) = page k" by (simp only: word_unat_eq_iff)
  have off: "unat (va AND (PAGE_SIZE - 1)) = r"
    unfolding page_offset_value d(1) using dm(2) [OF base_aligned] .
  have pa: "fst (vmm_get_physical_address v root (page k)) = push_bit 12 g"
    unfolding vmm_get_physical_address_walk [OF wf] w by simp
  have ug: "unat (push_bit 12 g) = unat g * 4096" using g(2) by (simp add: push_bit_eq_mult unat_mult_nowrap)
  then have "push_bit 12 g \<noteq> 0" using g(1) by (metis mult_is_0 unat_0 less_irrefl zero_neq_numeral)
  moreover have "unat (base + of_nat max_pages * PAGE_SIZE) = unat base + max_pages * 4096"
    using page_value [of max_pages] by (simp add: page_def)
  then have "\<not> va < base" "\<not> base + of_nat max_pages * PAGE_SIZE \<le> va"
    using d(1) k r by (simp_all add: word_less_nat_alt word_le_nat_alt)
  ultimately have "fst (virtual_to_physical base max_pages v root va) = push_bit 12 g + (va AND (PAGE_SIZE - 1))"
    unfolding virtual_to_physical_def b using pa by (simp add: split_def)
  then show ?thesis
    using ug off g(2) r unfolding va_def [symmetric] by (simp add: unat_add_nowrap)
qed

end

end
