(* ===== verification/Pool.thy ===== *)
theory Pool
  imports Window
begin

text \<open>
  The kernel page pool, \<^verbatim>\<open>src/kernel/kernel/mm/pool.c\<close>: a window of 131072 pages for buffers,
  with translation of its addresses for device transfers. The operations are those of the
  theory \<open>Window\<close> at the constants of the pool.
\<close>

unbundle bit_operations_syntax

abbreviation KERNEL_POOL_VIRTUAL_BASE :: u64 where
  "KERNEL_POOL_VIRTUAL_BASE \<equiv> 0xFFFF800010000000"

abbreviation KERNEL_POOL_MAX_PAGES :: nat where
  "KERNEL_POOL_MAX_PAGES \<equiv> 131072"

definition pool_init :: "window \<Rightarrow> window" where
  "pool_init w = w\<lparr>win_bitmap := replicate (KERNEL_POOL_MAX_PAGES div 32) 0\<rparr>"

definition pool_alloc :: "window \<Rightarrow> u64 \<Rightarrow> u64 \<Rightarrow> (u64 \<times> window) option" where
  "pool_alloc w pml4 sz = region_alloc KERNEL_POOL_VIRTUAL_BASE KERNEL_POOL_MAX_PAGES 3 w pml4 sz"

definition pool_free :: "window \<Rightarrow> u64 \<Rightarrow> u64 \<Rightarrow> u64 \<Rightarrow> window option" where
  "pool_free w pml4 ptr sz = region_free KERNEL_POOL_VIRTUAL_BASE KERNEL_POOL_MAX_PAGES w pml4 ptr sz"

definition pool_virtual_to_physical :: "window \<Rightarrow> u64 \<Rightarrow> u64 \<Rightarrow> u64 \<times> vmm" where
  "pool_virtual_to_physical w pml4 va =
     virtual_to_physical KERNEL_POOL_VIRTUAL_BASE KERNEL_POOL_MAX_PAGES (win_vm w) pml4 va"

interpretation kpool: page_window KERNEL_POOL_VIRTUAL_BASE KERNEL_POOL_MAX_PAGES 3
  by unfold_locales simp_all

lemma num_pages_value:
  assumes "unat sz + 4095 < 2 ^ 64"
  shows "unat (num_pages sz) = (unat sz + 4095) div 4096"
proof -
  have "unat (sz + (PAGE_SIZE - 1)) = unat sz + 4095" using assms by (subst unat_add_nowrap) simp_all
  then show ?thesis unfolding num_pages_def by (simp only: add_diff_eq [symmetric] unat_div) simp
qed

text \<open>The bitmap of the pool tells the truth. Call the pool consistent when exactly the pages
  whose bit is set are mapped, each to a frame of its own, and the memory managers are in order.
  From a consistent pool with room, \<^verbatim>\<open>pool_alloc\<close> returns the first free run of pages, maps it to
  contiguous frames that were free and leaves the pool consistent, with the bits of the run set
  and all others unchanged.\<close>

theorem pool_alloc_consistent:
  assumes "kpool.win_inv root w" "0 < unat sz" "unat sz + 4095 < 2 ^ 64"
    and n: "n = (unat sz + 4095) div 4096"
    and "s0 + n \<le> KERNEL_POOL_MAX_PAGES" "free_run (bits_test (win_bitmap w)) n s0"
    and "fits (frames (win_vm w)) n p0" "4 * n \<le> card (free_pages (frames (win_vm w)))"
  shows "\<exists>s p w'. pool_alloc w root sz = Some (KERNEL_POOL_VIRTUAL_BASE + of_nat s * PAGE_SIZE, w') \<and>
     free_run (bits_test (win_bitmap w)) n s \<and> (\<forall>j < s. \<not> free_run (bits_test (win_bitmap w)) n j) \<and>
     kpool.win_inv root w' \<and> fits (frames (win_vm w)) n p \<and>
     (\<forall>k < n. walk (pmem (win_vm w')) root (va_path (KERNEL_POOL_VIRTUAL_BASE + of_nat (s + k) * PAGE_SIZE)) =
        Some (of_nat (p + k))) \<and>
     (\<forall>k. bits_test (win_bitmap w') k \<longleftrightarrow> (s \<le> k \<and> k < s + n) \<or> bits_test (win_bitmap w) k)"
proof -
  have "unat (num_pages sz) = n" unfolding n by (rule num_pages_value [OF assms(3)])
  moreover have "0 < n" "sz \<noteq> 0" using assms(2) n by auto
  ultimately show ?thesis
    using kpool.region_alloc_ok [OF assms(1) _ _ _ assms(5-8)] unfolding pool_alloc_def kpool.page_def by blast
qed

definition pool_demo :: window where
  "pool_demo = pool_init \<lparr>win_bitmap = [], win_vm = vmm_big\<rparr>"

lemma pool_demo_free: "\<not> bits_test (win_bitmap pool_demo) k" if "k < KERNEL_POOL_MAX_PAGES"
  using that by (simp add: pool_demo_def pool_init_def bits_test_def less_mult_imp_div_less)

lemma pool_demo_inv: "kpool.win_inv 1 pool_demo"
proof -
  have none: "walk (pmem vmm_big) 1 (va_path (kpool.page k)) = None" if "k < KERNEL_POOL_MAX_PAGES" for k
  proof (rule big_unmapped)
    have "unat (kpool.page k) = 0xFFFF800010000000 + k * 4096"
      using kpool.page_value [of k] that by simp
    then have "unat (kpool.page k) div 549755813888 = 33554176"
      using that by (intro div_nat_eqI) simp_all
    moreover have "GET_PML4_INDEX (kpool.page k) = unat (kpool.page k) div 549755813888 mod 512"
      unfolding index_value by (simp add: div_mult2_eq [symmetric])
    ultimately show "GET_PML4_INDEX (kpool.page k) \<noteq> 0" by simp
  qed
  have "win_vm pool_demo = vmm_big" "32 * length (win_bitmap pool_demo) = KERNEL_POOL_MAX_PAGES"
    by (simp_all add: pool_demo_def pool_init_def)
  with big_ok none pool_demo_free show ?thesis
    unfolding kpool.win_inv_def by (simp add: sole_mapping_def)
qed

lemma pool_demo_room:
  "free_run (bits_test (win_bitmap pool_demo)) 2 0" "fits (frames (win_vm pool_demo)) 2 6"
  "4 * 2 \<le> card (free_pages (frames (win_vm pool_demo)))"
proof -
  have v: "win_vm pool_demo = vmm_big" by (simp add: pool_demo_def pool_init_def)
  show "free_run (bits_test (win_bitmap pool_demo)) 2 0"
    using pool_demo_free by (simp add: free_run_def)
  show "fits (frames (win_vm pool_demo)) 2 6" "4 * 2 \<le> card (free_pages (frames (win_vm pool_demo)))"
    unfolding v fits_def big_free by (simp_all add: vmm_big_def)
qed

theorem pool_alloc_consistent_witness:
  "\<exists>s w'. pool_alloc pool_demo 1 5000 = Some (KERNEL_POOL_VIRTUAL_BASE + of_nat s * PAGE_SIZE, w') \<and>
     kpool.win_inv 1 w'"
proof -
  have "0 < unat (5000 :: u64)" "unat (5000 :: u64) + 4095 < 2 ^ 64" "2 = (unat (5000 :: u64) + 4095) div 4096"
    "0 + 2 \<le> KERNEL_POOL_MAX_PAGES" by simp_all
  from pool_alloc_consistent [OF pool_demo_inv this pool_demo_room] show ?thesis by blast
qed

text \<open>Translation of pool addresses for devices. For an address of the window the result of
  \<^verbatim>\<open>pool_virtual_to_physical\<close> is 0 when its page is not mapped and the frame address plus the offset
  in the page when it is; so every byte of a block that \<^verbatim>\<open>pool_alloc\<close> mapped to contiguous frames
  is translated to consecutive physical addresses.\<close>

theorem pool_translate_contiguous:
  assumes inv: "kpool.win_inv root w" and s: "s + n \<le> KERNEL_POOL_MAX_PAGES" and p: "0 < p" "p + n \<le> 2 ^ 24"
    and map: "\<forall>k < n. walk (pmem (win_vm w)) root (va_path (KERNEL_POOL_VIRTUAL_BASE + of_nat (s + k) * PAGE_SIZE)) =
        Some (of_nat (p + k))"
    and j: "j < n * 4096"
  shows "unat (fst (pool_virtual_to_physical w root (KERNEL_POOL_VIRTUAL_BASE + of_nat (s * 4096 + j)))) =
     p * 4096 + j"
proof -
  define k where "k = j div 4096"
  define r where "r = j mod 4096"
  have kr: "j = k * 4096 + r" "r < 4096" "k < n" using j by (simp_all add: k_def r_def less_mult_imp_div_less)
  have uk: "unat (of_nat (p + k) :: u64) = p + k" by (rule unat_of_nat_id) (use p kr(3) in simp)
  have "walk (pmem (win_vm w)) root (va_path (kpool.page (s + k))) = Some (of_nat (p + k))"
    using map kr(3) unfolding kpool.page_def by blast
  from kpool.translate_page [OF kpool.win_invD(2) [OF inv] _ kr(2) this, unfolded uk] s p kr
  have "unat (fst (virtual_to_physical KERNEL_POOL_VIRTUAL_BASE KERNEL_POOL_MAX_PAGES (win_vm w) root
      (KERNEL_POOL_VIRTUAL_BASE + of_nat ((s + k) * 4096 + r)))) = (p + k) * 4096 + r" by simp
  moreover have "(s + k) * 4096 + r = s * 4096 + j" "(p + k) * 4096 + r = p * 4096 + j"
    by (simp_all add: kr(1))
  ultimately show ?thesis unfolding pool_virtual_to_physical_def by metis
qed

text \<open>Releasing a pool block undoes its allocation. From a consistent pool with room,
  \<^verbatim>\<open>pool_alloc\<close> followed by \<^verbatim>\<open>pool_free\<close> of the result with the same size leaves the pool consistent
  with exactly the original bits set, and the frames of the block are free again.\<close>

theorem pool_alloc_free_roundtrip:
  assumes "kpool.win_inv root w" "0 < unat sz" "unat sz + 4095 < 2 ^ 64"
    and n: "n = (unat sz + 4095) div 4096"
    and "s0 + n \<le> KERNEL_POOL_MAX_PAGES" "free_run (bits_test (win_bitmap w)) n s0"
    and "fits (frames (win_vm w)) n p0" "4 * n \<le> card (free_pages (frames (win_vm w)))"
  shows "\<exists>ptr w1 w2 p. pool_alloc w root sz = Some (ptr, w1) \<and> pool_free w1 root ptr sz = Some w2 \<and>
     kpool.win_inv root w2 \<and> (\<forall>k. bits_test (win_bitmap w2) k \<longleftrightarrow> bits_test (win_bitmap w) k) \<and>
     fits (frames (win_vm w)) n p \<and> {p..<p + n} \<subseteq> free_pages (frames (win_vm w2))"
proof -
  have np: "unat (num_pages sz) = n" unfolding n by (rule num_pages_value [OF assms(3)])
  have n0: "0 < n" "sz \<noteq> 0" using assms(2) n by auto
  from kpool.region_alloc_ok [OF assms(1) np n0 assms(5-8)] obtain s p w1 where
    a: "pool_alloc w root sz = Some (kpool.page s, w1)" "s + n \<le> KERNEL_POOL_MAX_PAGES"
      "free_run (bits_test (win_bitmap w)) n s" "kpool.win_inv root w1" "fits (frames (win_vm w)) n p"
      "\<forall>k < n. walk (pmem (win_vm w1)) root (va_path (kpool.page (s + k))) = Some (of_nat (p + k))"
      "\<forall>k. bits_test (win_bitmap w1) k \<longleftrightarrow> (s \<le> k \<and> k < s + n) \<or> bits_test (win_bitmap w) k"
    unfolding pool_alloc_def by blast
  from kpool.region_free_spec [OF a(4) np n0 a(2)] obtain w2 where
    f: "pool_free w1 root (kpool.page s) sz = Some w2" "kpool.win_inv root w2"
      "\<forall>k. bits_test (win_bitmap w2) k \<longleftrightarrow> \<not> (s \<le> k \<and> k < s + n) \<and> bits_test (win_bitmap w1) k"
      "free_pages (frames (win_vm w2)) = free_pages (frames (win_vm w1)) \<union>
        (\<Union>k\<in>{s..<s + n}. unat ` set_option (walk (pmem (win_vm w1)) root (va_path (kpool.page k))))"
    unfolding pool_free_def by blast
  have "p + n \<le> 2 ^ 24" using a(5) kpool.win_invD(1) [OF assms(1)] by (simp add: fits_def mem_ok_def)
  from run_frames_free [OF a(6) this f(4)] run_bits_restored [OF a(3,7) f(3)] a(1,5) f(1,2)
  show ?thesis by blast
qed

theorem pool_alloc_free_roundtrip_witness:
  "\<exists>ptr w1 w2. pool_alloc pool_demo 1 5000 = Some (ptr, w1) \<and> pool_free w1 1 ptr 5000 = Some w2 \<and>
     kpool.win_inv 1 w2"
proof -
  have "0 < unat (5000 :: u64)" "unat (5000 :: u64) + 4095 < 2 ^ 64" "2 = (unat (5000 :: u64) + 4095) div 4096"
    "0 + 2 \<le> KERNEL_POOL_MAX_PAGES" by simp_all
  from pool_alloc_free_roundtrip [OF pool_demo_inv this pool_demo_room] show ?thesis by blast
qed

theorem pool_translate_contiguous_witness:
  "\<exists>s p w'. pool_alloc pool_demo 1 5000 = Some (KERNEL_POOL_VIRTUAL_BASE + of_nat s * PAGE_SIZE, w') \<and>
     unat (fst (pool_virtual_to_physical w' 1 (KERNEL_POOL_VIRTUAL_BASE + of_nat (s * 4096 + 4500)))) = p * 4096 + 4500"
proof -
  have n: "unat (num_pages 5000) = 2" "(0 :: nat) < 2" "(5000 :: u64) \<noteq> 0" "0 + 2 \<le> KERNEL_POOL_MAX_PAGES"
    by (simp_all add: num_pages_value)
  from kpool.region_alloc_ok [OF pool_demo_inv n pool_demo_room] obtain s p w' where
    a: "pool_alloc pool_demo 1 5000 = Some (kpool.page s, w')" "s + 2 \<le> KERNEL_POOL_MAX_PAGES" "kpool.win_inv 1 w'"
      "fits (frames (win_vm pool_demo)) 2 p"
      "\<forall>k < 2. walk (pmem (win_vm w')) 1 (va_path (kpool.page (s + k))) = Some (of_nat (p + k))"
    unfolding pool_alloc_def by blast
  have "p \<in> free_pages (frames (win_vm pool_demo))" "p + 2 \<le> 2 ^ 24"
    using a(4) kpool.win_invD(1) [OF pool_demo_inv] by (auto simp: fits_def mem_ok_def)
  moreover from this(1) have "0 < p" using kpool.win_invD(1) [OF pool_demo_inv] unfolding mem_ok_def by (metis gr0I)
  ultimately show ?thesis
    using pool_translate_contiguous [OF a(3,2) _ _ a(5) [unfolded kpool.page_def], of 4500] a(1)
    unfolding kpool.page_def by auto
qed

end
