(* ===== verification/Shm.thy ===== *)
theory Shm
  imports Pool
begin

text \<open>
  Shared memory pages, \<^verbatim>\<open>src/kernel/kernel/mm/shm.c\<close>: a window of \<open>2 ^ 26\<close> pages below PML4 slot
  224, which every address space has in common. The bitmap lives in a block of the pool.
  Allocation is that of the theory \<open>Window\<close>; release looks up each frame, unmaps the page
  (which already gives the frame back) and then releases the frame once more.
\<close>

unbundle bit_operations_syntax

abbreviation USER_SHM_VIRTUAL_BASE :: u64 where
  "USER_SHM_VIRTUAL_BASE \<equiv> 0x700000000000"

abbreviation USER_SHM_MAX_PAGES :: nat where
  "USER_SHM_MAX_PAGES \<equiv> 67108864"

text \<open>
  \<open>shm_init\<close> takes the state of the pool; the results are the windows of shared memory and of the
  pool, which share one memory manager, or \<open>None\<close> for \<open>kernel_panic\<close>.
\<close>

definition shm_init :: "window \<Rightarrow> u64 \<Rightarrow> (window \<times> window) option option" where
  "shm_init pool pml4 =
     (let num_dwords = (USER_SHM_MAX_PAGES + 31) div 32 in
      do {
        (bitmap_ptr, pool1) \<leftarrow> pool_alloc pool pml4 (of_nat (num_dwords * 4));
        if bitmap_ptr = 0 then Some None
        else do {
          (new_pdpt_phys, pm) \<leftarrow> pmm_alloc_page (frames (win_vm pool1));
          if new_pdpt_phys = 0 then Some None
          else do {
            let v1 = snd (vmm_scratch_map ((win_vm pool1)\<lparr>frames := pm\<rparr>) new_pdpt_phys);
            let v2 = zero_table v1 (scratch_frame v1);
            let v3 = write_entry v2 pml4 224
              (set_field 52 12 0 (set_field 12 40 (drop_bit 12 new_pdpt_phys) (set_field 9 3 0
                (set_field 5 4 0 (set_field 4 1 0 (set_field 3 1 0 (set_field 2 1 1
                  (set_field 1 1 1 (set_field 0 1 1 (read_entry v2 pml4 224))))))))));
            Some (Some (\<lparr>win_bitmap = replicate num_dwords 0, win_vm = v3\<rparr>, pool1\<lparr>win_vm := v3\<rparr>))
          }
        }
      })"

definition shm_alloc :: "window \<Rightarrow> u64 \<Rightarrow> u64 \<Rightarrow> 32 word \<Rightarrow> (u64 \<times> window) option" where
  "shm_alloc w pml4 sz flag = region_alloc USER_SHM_VIRTUAL_BASE USER_SHM_MAX_PAGES (scast flag) w pml4 sz"

fun shm_unmap_run :: "nat \<Rightarrow> vmm \<Rightarrow> u64 \<Rightarrow> u64 \<Rightarrow> vmm option" where
  "shm_unmap_run 0 v pml4 va = Some v"
| "shm_unmap_run (Suc n) v pml4 va =
     (let (pa, v1) = vmm_get_physical_address v pml4 va in
      do {
        v2 \<leftarrow> vmm_unmap_page v1 pml4 va;
        v3 \<leftarrow> (if pa \<noteq> 0 then do { pm \<leftarrow> pmm_free_pages (frames v2) pa 1; Some (v2\<lparr>frames := pm\<rparr>) } else Some v2);
        shm_unmap_run n v3 pml4 (va + PAGE_SIZE)
      })"

definition shm_free :: "window \<Rightarrow> u64 \<Rightarrow> u64 \<Rightarrow> u64 \<Rightarrow> window option" where
  "shm_free w pml4 ptr sz =
     (if ptr = 0 \<or> sz = 0 then Some w
      else let n = num_pages sz in
      if ptr < USER_SHM_VIRTUAL_BASE \<or> n = 0 then Some w
      else let start_bit = (ptr - USER_SHM_VIRTUAL_BASE) div PAGE_SIZE in
      if start_bit + n > of_nat USER_SHM_MAX_PAGES then Some w
      else do {
        v \<leftarrow> shm_unmap_run (unat n) (win_vm w) pml4 ptr;
        bm \<leftarrow> clear_bits (win_bitmap w) (unat start_bit) (unat n);
        Some (w\<lparr>win_bitmap := bm, win_vm := v\<rparr>)
      })"

definition shm_virtual_to_physical :: "window \<Rightarrow> u64 \<Rightarrow> u64 \<Rightarrow> u64 \<times> vmm" where
  "shm_virtual_to_physical w pml4 va =
     virtual_to_physical USER_SHM_VIRTUAL_BASE USER_SHM_MAX_PAGES (win_vm w) pml4 va"

interpretation ushm: page_window USER_SHM_VIRTUAL_BASE USER_SHM_MAX_PAGES flags for flags
  by unfold_locales simp_all

section \<open>Releasing a frame twice\<close>

text \<open>
  The second release finds the frame already free: sequentially it changes nothing, so
  \<open>shm_unmap_run\<close> has the same effect on mappings and free frames as \<open>unmap_run\<close>.
\<close>

lemma vmm_get_physical_address_state:
  "pmem (snd (vmm_get_physical_address v root va)) = pmem v"
  "frames (snd (vmm_get_physical_address v root va)) = frames v"
  by (simp_all add: vmm_get_physical_address_def vmm_enter_def Let_def read_entry_def)

lemma shm_unmap_step:
  assumes ok: "mem_ok v" "tree_wf v root" "sole_mapping v root va"
  shows "\<exists>v'. shm_unmap_run 1 v root va = Some v' \<and> mem_ok v' \<and> tree_wf v' root \<and>
     walk (pmem v') root (va_path va) = None \<and>
     (\<forall>q. path 4 q \<longrightarrow> q \<noteq> va_path va \<longrightarrow> walk (pmem v') root q = walk (pmem v) root q) \<and>
     pmm_total_pages (frames v') = pmm_total_pages (frames v) \<and>
     free_pages (frames v') = free_pages (frames v) \<union> unat ` set_option (walk (pmem v) root (va_path va))"
proof -
  define pa v1 where "pa = fst (vmm_get_physical_address v root va)" and "v1 = snd (vmm_get_physical_address v root va)"
  have e: "vmm_get_physical_address v root va = (pa, v1)" by (simp add: pa_def v1_def)
  have s1: "pmem v1 = pmem v" "frames v1 = frames v" by (simp_all add: v1_def vmm_get_physical_address_state)
  then have "mem_ok v1" "tree_wf v1 root" "sole_mapping v1 root va"
    using ok by (simp_all add: mem_ok_def tree_wf_def sole_mapping_def)
  from unmap_step [OF this] obtain v2 where
    v2: "vmm_unmap_page v1 root va = Some v2" "mem_ok v2" "tree_wf v2 root"
      "walk (pmem v2) root (va_path va) = None"
      "\<forall>q. path 4 q \<longrightarrow> q \<noteq> va_path va \<longrightarrow> walk (pmem v2) root q = walk (pmem v) root q"
      "pmm_total_pages (frames v2) = pmm_total_pages (frames v)"
      "free_pages (frames v2) = free_pages (frames v) \<union> unat ` set_option (walk (pmem v) root (va_path va))"
    unfolding s1 by blast
  have pa: "pa = (case walk (pmem v) root (va_path va) of Some f \<Rightarrow> push_bit 12 f | None \<Rightarrow> 0)"
    unfolding pa_def by (rule vmm_get_physical_address_walk [OF ok(2)])
  show ?thesis
  proof (cases "pa = 0")
    case True
    with e v2 show ?thesis by auto
  next
    case False
    then obtain f where f: "walk (pmem v) root (va_path va) = Some f" "pa = push_bit 12 f"
      using pa by (auto split: option.splits)
    have "pmm_wf (frames v2)" using v2(2) by (simp add: mem_ok_def)
    from pmm_free_page_spec [OF this, of pa] obtain pm where
      pm: "pmm_free_page (frames v2) pa = Some pm" "pmm_wf pm" "pmm_total_pages pm = pmm_total_pages (frames v2)"
        "free_pages pm \<subseteq> insert (unat pa div 4096) (free_pages (frames v2))"
        "free_pages (frames v2) \<subseteq> free_pages pm" by (auto split: if_splits)
    have "unat f < 2 ^ 24" using ok(1,3) f(1) by (auto simp: sole_mapping_def mem_ok_def)
    then have "unat pa div 4096 = unat f" by (simp add: f(2) push_bit_eq_mult unat_mult_nowrap)
    moreover have "unat f \<in> free_pages (frames v2)" using v2(7) f(1) by simp
    ultimately have fp: "free_pages pm = free_pages (frames v2)" using pm(4,5) by auto
    let ?v3 = "v2\<lparr>frames := pm\<rparr>"
    have "shm_unmap_run 1 v root va = Some ?v3"
      using e v2(1) False pm(1) by (simp add: pmm_free_pages_def)
    moreover have "mem_ok ?v3" "tree_wf ?v3 root" using v2(2,3) pm fp by (simp_all add: mem_ok_def tree_wf_def)
    ultimately show ?thesis using v2(4-7) pm(3) fp by auto
  qed
qed

lemma shm_unmap_fold: "shm_unmap_run n v root va = unmap_fold (\<lambda>v va. shm_unmap_run 1 v root va) n v va"
  by (induction n arbitrary: v va) (simp_all add: split_def Let_def split: bind_splits)

lemma shm_unmap_law: "unmap_law root (\<lambda>v va. shm_unmap_run 1 v root va)"
  unfolding unmap_law_def using shm_unmap_step by blast

lemma shm_free_spec:
  assumes inv: "ushm.win_inv root w" and n: "unat (num_pages sz) = n" "0 < n" "sz \<noteq> 0"
    and s: "s + n \<le> USER_SHM_MAX_PAGES"
  shows "\<exists>w'. shm_free w root (ushm.page s) sz = Some w' \<and> ushm.win_inv root w' \<and>
     (\<forall>k. bits_test (win_bitmap w') k \<longleftrightarrow> \<not> (s \<le> k \<and> k < s + n) \<and> bits_test (win_bitmap w) k) \<and>
     free_pages (frames (win_vm w')) = free_pages (frames (win_vm w)) \<union>
        (\<Union>k\<in>{s..<s + n}. unat ` set_option (walk (pmem (win_vm w)) root (va_path (ushm.page k))))"
proof -
  from ushm.release_run [OF inv shm_unmap_law s] obtain v' bm where
    r: "unmap_fold (\<lambda>v va. shm_unmap_run 1 v root va) n (win_vm w) (ushm.page s) = Some v'"
      "clear_bits (win_bitmap w) s n = Some bm" "ushm.win_inv root (w\<lparr>win_bitmap := bm, win_vm := v'\<rparr>)"
      "\<forall>k. bits_test bm k \<longleftrightarrow> \<not> (s \<le> k \<and> k < s + n) \<and> bits_test (win_bitmap w) k"
      "free_pages (frames v') = free_pages (frames (win_vm w)) \<union>
        (\<Union>k\<in>{s..<s + n}. unat ` set_option (walk (pmem (win_vm w)) root (va_path (ushm.page k))))" by blast
  note g = ushm.release_guards [OF n(1) s]
  have "ushm.page s \<noteq> 0"
  proof
    assume "ushm.page s = 0"
    with g(1) show False by (simp add: word_less_nat_alt)
  qed
  moreover have "num_pages sz \<noteq> 0" using n by auto
  ultimately have "shm_free w root (ushm.page s) sz = Some (w\<lparr>win_bitmap := bm, win_vm := v'\<rparr>)"
    using n(3) g r(1,2) shm_unmap_fold [of n] by (simp add: shm_free_def Let_def n(1))
  with r(3-5) show ?thesis by auto
qed

text \<open>Shared memory is taken and given back as a whole. From a consistent window with room,
  \<^verbatim>\<open>shm_alloc\<close> maps the first free run to fresh frames with the given flags and \<^verbatim>\<open>shm_free\<close> of the
  result with the same size ends, leaves the window consistent with the original bits set and
  every page of the run unmapped, and the frames are free again, although each of them is
  released twice.\<close>

theorem shm_alloc_free_roundtrip:
  assumes "ushm.win_inv root w" "0 < unat sz" "unat sz + 4095 < 2 ^ 64"
    and n: "n = (unat sz + 4095) div 4096"
    and "s0 + n \<le> USER_SHM_MAX_PAGES" "free_run (bits_test (win_bitmap w)) n s0"
    and "fits (frames (win_vm w)) n p0" "4 * n \<le> card (free_pages (frames (win_vm w)))"
  shows "\<exists>ptr w1 w2 p. shm_alloc w root sz flag = Some (ptr, w1) \<and> ushm.win_inv root w1 \<and>
     shm_free w1 root ptr sz = Some w2 \<and> ushm.win_inv root w2 \<and>
     (\<forall>k. bits_test (win_bitmap w2) k \<longleftrightarrow> bits_test (win_bitmap w) k) \<and>
     fits (frames (win_vm w)) n p \<and> {p..<p + n} \<subseteq> free_pages (frames (win_vm w2))"
proof -
  have np: "unat (num_pages sz) = n" unfolding n by (rule num_pages_value [OF assms(3)])
  have n0: "0 < n" "sz \<noteq> 0" using assms(2) n by auto
  from ushm.region_alloc_ok [where flags = "scast flag", OF assms(1) np n0 assms(5-8)] obtain s p w1 where
    a: "shm_alloc w root sz flag = Some (ushm.page s, w1)" "s + n \<le> USER_SHM_MAX_PAGES"
      "free_run (bits_test (win_bitmap w)) n s" "ushm.win_inv root w1" "fits (frames (win_vm w)) n p"
      "\<forall>k < n. walk (pmem (win_vm w1)) root (va_path (ushm.page (s + k))) = Some (of_nat (p + k))"
      "\<forall>k. bits_test (win_bitmap w1) k \<longleftrightarrow> (s \<le> k \<and> k < s + n) \<or> bits_test (win_bitmap w) k"
    unfolding shm_alloc_def by blast
  from shm_free_spec [OF a(4) np n0 a(2)] obtain w2 where
    f: "shm_free w1 root (ushm.page s) sz = Some w2" "ushm.win_inv root w2"
      "\<forall>k. bits_test (win_bitmap w2) k \<longleftrightarrow> \<not> (s \<le> k \<and> k < s + n) \<and> bits_test (win_bitmap w1) k"
      "free_pages (frames (win_vm w2)) = free_pages (frames (win_vm w1)) \<union>
        (\<Union>k\<in>{s..<s + n}. unat ` set_option (walk (pmem (win_vm w1)) root (va_path (ushm.page k))))" by blast
  have "p + n \<le> 2 ^ 24" using a(5) ushm.win_invD(1) [OF assms(1)] by (simp add: fits_def mem_ok_def)
  from run_frames_free [OF a(6) this f(4)] run_bits_restored [OF a(3,7) f(3)] a(1,4,5) f(1,2)
  show ?thesis by blast
qed

definition shm_demo :: window where
  "shm_demo = \<lparr>win_bitmap = replicate 2097152 0, win_vm = vmm_big\<rparr>"

lemma shm_demo_free: "\<not> bits_test (win_bitmap shm_demo) k" if "k < USER_SHM_MAX_PAGES"
  using that by (simp add: shm_demo_def bits_test_def less_mult_imp_div_less)

lemma shm_slot: "k < USER_SHM_MAX_PAGES \<Longrightarrow> GET_PML4_INDEX (ushm.page k) = 224"
proof -
  assume k: "k < USER_SHM_MAX_PAGES"
  have "unat (ushm.page k) = 0x700000000000 + k * 4096" using ushm.page_value [of k] k by simp
  then have "unat (ushm.page k) div 549755813888 = 224" using k by (intro div_nat_eqI) simp_all
  then show ?thesis unfolding index_value by (simp add: div_mult2_eq [symmetric])
qed

lemma shm_demo_inv: "ushm.win_inv 1 shm_demo"
proof -
  have none: "walk (pmem vmm_big) 1 (va_path (ushm.page k)) = None" if "k < USER_SHM_MAX_PAGES" for k
    by (rule big_unmapped) (simp add: shm_slot [OF that])
  have "win_vm shm_demo = vmm_big" "32 * length (win_bitmap shm_demo) = USER_SHM_MAX_PAGES"
    by (simp_all add: shm_demo_def)
  with big_ok none shm_demo_free show ?thesis
    unfolding ushm.win_inv_def by (simp add: sole_mapping_def)
qed

lemma shm_demo_room:
  "free_run (bits_test (win_bitmap shm_demo)) 2 0" "fits (frames (win_vm shm_demo)) 2 6"
  "4 * 2 \<le> card (free_pages (frames (win_vm shm_demo)))"
proof -
  have v: "win_vm shm_demo = vmm_big" by (simp add: shm_demo_def)
  show "free_run (bits_test (win_bitmap shm_demo)) 2 0"
    using shm_demo_free by (simp add: free_run_def)
  show "fits (frames (win_vm shm_demo)) 2 6" "4 * 2 \<le> card (free_pages (frames (win_vm shm_demo)))"
    unfolding v fits_def big_free by (simp_all add: vmm_big_def)
qed

theorem shm_alloc_free_roundtrip_witness:
  "\<exists>ptr w1 w2. shm_alloc shm_demo 1 5000 7 = Some (ptr, w1) \<and> shm_free w1 1 ptr 5000 = Some w2 \<and>
     ushm.win_inv 1 w2"
proof -
  have "0 < unat (5000 :: u64)" "unat (5000 :: u64) + 4095 < 2 ^ 64" "2 = (unat (5000 :: u64) + 4095) div 4096"
    "0 + 2 \<le> USER_SHM_MAX_PAGES" by simp_all
  from shm_alloc_free_roundtrip [OF shm_demo_inv this shm_demo_room] show ?thesis by blast
qed

text \<open>Shared memory is visible in every new address space. In a consistent window, an address
  space created by \<^verbatim>\<open>vmm_create_address_space\<close> translates each page of the shared memory window
  as the current one does, so all processes see the same frames there.\<close>

theorem shm_visible_in_new_space:
  assumes "ushm.win_inv root w" "free_pages (frames (win_vm w)) \<noteq> {}"
  shows "\<exists>n v'. vmm_create_address_space (win_vm w) (push_bit 12 root) = Some (push_bit 12 n, v') \<and>
     (\<forall>k < USER_SHM_MAX_PAGES. \<forall>va. va_path va = va_path (USER_SHM_VIRTUAL_BASE + of_nat k * PAGE_SIZE) \<longrightarrow>
        fst (vmm_get_physical v' n va) = fst (vmm_get_physical (win_vm w) root va))"
proof -
  note i = ushm.win_invD [OF assms(1)]
  from vmm_create_address_space_lookup [OF i(1,2) assms(2)] obtain n v' where
    r: "vmm_create_address_space (win_vm w) (push_bit 12 root) = Some (push_bit 12 n, v')" and
    l: "\<And>va. fst (vmm_get_physical v' n va) = (if GET_PML4_INDEX va = 224 \<or> 256 \<le> GET_PML4_INDEX va
        then fst (vmm_get_physical (win_vm w) root va) else 0)" by blast
  have "GET_PML4_INDEX va = 224" if "k < USER_SHM_MAX_PAGES" "va_path va = va_path (ushm.page k)" for k va
    using that shm_slot [OF that(1)] by (simp add: va_path_def)
  with r l show ?thesis unfolding ushm.page_def by (intro exI [of _ n] exI [of _ v']) simp
qed

theorem shm_visible_in_new_space_witness:
  "\<exists>n v'. vmm_create_address_space (win_vm shm_demo) 0x1000 = Some (push_bit 12 n, v') \<and>
     fst (vmm_get_physical v' n 0x700000000123) = fst (vmm_get_physical (win_vm shm_demo) 1 0x700000000123)"
proof -
  have "free_pages (frames (win_vm shm_demo)) \<noteq> {}" by (simp add: shm_demo_def big_free)
  from shm_visible_in_new_space [OF shm_demo_inv this] obtain n v' where
    r: "vmm_create_address_space (win_vm shm_demo) (push_bit 12 1) = Some (push_bit 12 n, v')"
    "\<And>va. va_path va = va_path (USER_SHM_VIRTUAL_BASE + of_nat 0 * PAGE_SIZE) \<Longrightarrow>
        fst (vmm_get_physical v' n va) = fst (vmm_get_physical (win_vm shm_demo) 1 va)" by fastforce
  have "push_bit 12 1 = (0x1000 :: u64)"
    "va_path 0x700000000123 = va_path (USER_SHM_VIRTUAL_BASE + of_nat 0 * PAGE_SIZE)"
    by (simp_all add: va_path_def index_value)
  with r show ?thesis by metis
qed

end
