(* ===== verification/Flush.thy ===== *)
theory Flush
  imports Vmm
begin

text \<open>
  \<open>process_flush_user_space\<close> of \<^verbatim>\<open>src/kernel/kernel/sched/process.c\<close>: the four nested loops that
  return the user half of an address space to the page allocator. Each loop body is one
  definition; windows 2 to 5 show the table of each level, and are mapped where the code maps
  them. The flush of the TLB and the lock are not modelled.

  The main result is that exactly the frames reached from the user entries are released, that
  the user half is empty afterwards, and that the kernel half and the entry of the shared
  memory region (224) are untouched.
\<close>

unbundle bit_operations_syntax

section \<open>The loops\<close>

definition release :: "u64 \<Rightarrow> vmm \<Rightarrow> vmm option" where
  "release phys s = do { pm \<leftarrow> pmm_free_page (frames s) phys; Some (s\<lparr>frames := pm\<rparr>) }"

definition flush_page :: "nat \<Rightarrow> vmm \<Rightarrow> vmm option" where
  "flush_page l s =
     (let e = read_entry s (window_frame s 5) l in
      if get_p e then release (push_bit 12 (get_frame e)) s else Some s)"

definition flush_pd_entry :: "u64 \<Rightarrow> nat \<Rightarrow> vmm \<Rightarrow> vmm option" where
  "flush_pd_entry pd_phys k s0 =
     (let s = snd (vmm_scratch_map_internal s0 pd_phys 4);
          e = read_entry s (window_frame s 4) k in
      if get_p e \<and> \<not> get_ps e then
        let pt_phys = push_bit 12 (get_frame e);
            s1 = snd (vmm_scratch_map_internal s pt_phys 5) in
        do {
          s2 \<leftarrow> foldM flush_page [0..<512] s1;
          release pt_phys s2
        }
      else if get_p e \<and> get_ps e then release (push_bit 12 (get_frame e)) s
      else Some s)"

definition flush_pdpt_entry :: "u64 \<Rightarrow> nat \<Rightarrow> vmm \<Rightarrow> vmm option" where
  "flush_pdpt_entry pdpt_phys j s0 =
     (let s = snd (vmm_scratch_map_internal s0 pdpt_phys 3);
          e = read_entry s (window_frame s 3) j in
      if get_p e \<and> \<not> bit e 7 then
        let pd_phys = push_bit 12 (get_frame e) in
        do {
          s1 \<leftarrow> foldM (flush_pd_entry pd_phys) [0..<512] s;
          release pd_phys s1
        }
      else Some s)"

definition flush_pml4_entry :: "u64 \<Rightarrow> nat \<Rightarrow> vmm \<Rightarrow> vmm option" where
  "flush_pml4_entry pml4_phys i s0 =
     (if i = 224 then Some s0
      else let s = snd (vmm_scratch_map_internal s0 pml4_phys 2);
               e = read_entry s (window_frame s 2) i in
        if get_p e then
          let pdpt_phys = push_bit 12 (get_frame e) in
          do {
            s1 \<leftarrow> foldM (flush_pdpt_entry pdpt_phys) [0..<512] s;
            s2 \<leftarrow> release pdpt_phys s1;
            let pml4 = window_frame s2 2;
            Some (write_entry s2 pml4 i (set_field 12 40 0 (set_field 0 1 0 (read_entry s2 pml4 i))))
          }
        else Some s)"

definition process_flush_user_space :: "vmm \<Rightarrow> u64 \<Rightarrow> (int \<times> vmm) option" where
  "process_flush_user_space s pml4_phys =
     (if pml4_phys = 0 then Some (-1, s)
      else do {
        s' \<leftarrow> foldM (flush_pml4_entry pml4_phys) [0..<256] s;
        Some (0, s')
      })"

section \<open>What a loop releases\<close>

text \<open>
  \<open>frees w F s s'\<close>: the frames \<open>F\<close> that the allocator manages are released, memory is as
  before, and the windows up to \<open>w\<close> still show what they showed.
\<close>

definition frees :: "int \<Rightarrow> u64 set \<Rightarrow> vmm \<Rightarrow> vmm \<Rightarrow> bool" where
  "frees w F s s' \<longleftrightarrow> pmem s' = pmem s \<and> (pmm_wf (frames s) \<longrightarrow> pmm_wf (frames s')) \<and>
     pmm_total_pages (frames s') = pmm_total_pages (frames s) \<and>
     (\<forall>v. 0 \<le> v \<longrightarrow> v \<le> w \<longrightarrow> window_frame s' v = window_frame s v) \<and>
     free_pages (frames s') = free_pages (frames s) \<union>
       {p \<in> unat ` F. p \<noteq> 0 \<and> p < unat (pmm_total_pages (frames s))}"

lemma frees_refl: "frees w {} s s"
  by (simp add: frees_def)

lemma frees_trans: "frees w F s t \<Longrightarrow> frees w G t u \<Longrightarrow> frees w (F \<union> G) s u"
  by (auto simp: frees_def)

lemma frees_mono: "frees w F s t \<Longrightarrow> v \<le> w \<Longrightarrow> frees v F s t"
  by (auto simp: frees_def)

lemma frees_wf: "frees w F s t \<Longrightarrow> pmm_wf (frames s) \<Longrightarrow> pmm_wf (frames t)"
  by (simp add: frees_def)

lemma frees_pmem: "frees w F s t \<Longrightarrow> pmem t = pmem s"
  by (simp add: frees_def)

lemma frees_window: "frees w F s t \<Longrightarrow> 0 \<le> v \<Longrightarrow> v \<le> w \<Longrightarrow> window_frame t v = window_frame s v"
  by (simp add: frees_def)

lemma frees_map: "0 \<le> w \<Longrightarrow> w < v \<Longrightarrow> v \<le> 14 \<Longrightarrow> frees w {} s (snd (vmm_scratch_map_internal s a v))"
  by (auto simp: frees_def scratch_map_other)

lemma get_frame_lt: "unat (get_frame e) < 2 ^ 40"
proof -
  have "unat (get_frame e) = unat (drop_bit 12 e) mod 2 ^ 40"
    by (simp add: field_def take_bit_eq_mod unat_mod)
  then show ?thesis by simp
qed

lemma phys_nat: "unat f < 2 ^ 40 \<Longrightarrow> unat (push_bit 12 f :: u64) = unat f * 4096"
  by (simp add: push_bit_eq_mult unat_mult_nowrap)

lemma release_frees:
  assumes "pmm_wf (frames s)" "unat f < 2 ^ 40"
  shows "\<exists>s'. release (push_bit 12 f) s = Some s' \<and> frees w {f} s s'"
proof -
  obtain pm where pm: "pmm_free_page (frames s) (push_bit 12 f) = Some pm" "pmm_wf pm"
    "pmm_total_pages pm = pmm_total_pages (frames s)"
    "free_pages pm = (if push_bit 12 f \<noteq> 0 \<and> unat (push_bit 12 f) mod 4096 = 0 \<and>
        unat (push_bit 12 f) div 4096 < unat (pmm_total_pages (frames s))
       then insert (unat (push_bit 12 f) div 4096) (free_pages (frames s)) else free_pages (frames s))"
    using pmm_free_page_spec [OF assms(1), of "push_bit 12 f"] by (elim exE conjE)
  note [simp] = phys_nat [OF assms(2)]
  have nz: "push_bit 12 f \<noteq> 0 \<longleftrightarrow> unat f \<noteq> 0" by (simp only: word_unat_eq_iff) simp
  let ?s' = "s\<lparr>frames := pm\<rparr>"
  have "free_pages pm = free_pages (frames s) \<union>
      {p \<in> unat ` {f}. p \<noteq> 0 \<and> p < unat (pmm_total_pages (frames s))}"
    using pm(4) unfolding nz by auto
  then have "frees w {f} s ?s'"
    using pm(2,3) unfolding frees_def window_frame_def by simp
  moreover have "release (push_bit 12 f) s = Some ?s'" using pm(1) by (simp add: release_def)
  ultimately show ?thesis using pm(2) by auto
qed

text \<open>The frames that walks of at most \<open>n\<close> steps reach.\<close>

definition reach :: "(u64 \<Rightarrow> nat \<Rightarrow> u64) \<Rightarrow> nat \<Rightarrow> u64 \<Rightarrow> u64 set" where
  "reach m n f = {g. \<exists>p. path n p \<and> walk m f p = Some g}"

lemma reach_0: "reach m 0 f = {f}"
  by (auto simp: reach_def path_def)

lemma reach_Suc:
  "reach m (Suc n) f = insert f (\<Union>i\<in>{..<512}. if get_p (m f i) then reach m n (get_frame (m f i)) else {})"
    (is "?l = insert f ?r")
proof (intro set_eqI iffI)
  fix g assume "g \<in> ?l"
  then obtain p where p: "path (Suc n) p" "walk m f p = Some g" by (auto simp: reach_def)
  show "g \<in> insert f ?r"
  proof (cases p)
    case (Cons i q)
    with p have "path n q" "i < 512" "get_p (m f i)" "walk m (get_frame (m f i)) q = Some g"
      by (auto simp: path_def split: if_splits)
    then have "g \<in> reach m n (get_frame (m f i))" by (auto simp: reach_def)
    with \<open>i < 512\<close> \<open>get_p (m f i)\<close> show ?thesis by auto
  qed (use p in simp)
next
  fix g assume "g \<in> insert f ?r"
  then consider "g = f" | i where "i < 512" "get_p (m f i)" "g \<in> reach m n (get_frame (m f i))"
    by (auto split: if_splits)
  then show "g \<in> ?l"
  proof cases
    case 1
    then have "path (Suc n) [] \<and> walk m f [] = Some g" by (simp add: path_def)
    then show ?thesis unfolding reach_def by blast
  next
    case 2
    then obtain q where "path n q" "walk m (get_frame (m f i)) q = Some g" by (auto simp: reach_def)
    with 2 have "path (Suc n) (i # q) \<and> walk m f (i # q) = Some g" by (auto simp: path_def)
    then show ?thesis unfolding reach_def by blast
  qed
qed

section \<open>The loops, level by level\<close>

lemma loop_frees:
  assumes body: "\<And>x s. x < n \<Longrightarrow> pmm_wf (frames s) \<Longrightarrow> pmem s = m \<Longrightarrow> window_frame s w = f \<Longrightarrow>
      \<exists>s'. b x s = Some s' \<and> frees w (F x) s s'"
    and s: "pmm_wf (frames s)" "pmem s = m" "window_frame s w = f" and w: "0 \<le> w"
  shows "\<exists>s'. foldM b [0..<n] s = Some s' \<and> frees w (\<Union>x\<in>{..<n}. F x) s s'"
proof -
  let ?P = "\<lambda>s. pmm_wf (frames s) \<and> pmem s = m \<and> window_frame s w = f"
  have b: "\<exists>s'. b x s = Some s' \<and> frees w (F x) s s' \<and> ?P s'" if "x \<in> set [0..<n]" "?P s" for x s
  proof -
    from that body [of x s] obtain s' where s': "b x s = Some s'" "frees w (F x) s s'" by auto
    with that(2) w show ?thesis by (auto simp: frees_def)
  qed
  have "\<exists>s'. foldM b [0..<n] s = Some s' \<and> frees w (\<Union>x\<in>set [0..<n]. F x) s s' \<and> ?P s'"
    by (rule foldM_effect [where P = ?P]) (use frees_refl frees_trans b s in auto)
  then show ?thesis by (auto simp: atLeast0LessThan)
qed

definition entry_reach :: "(u64 \<Rightarrow> nat \<Rightarrow> u64) \<Rightarrow> nat \<Rightarrow> u64 \<Rightarrow> nat \<Rightarrow> u64 set" where
  "entry_reach m n f i = (if get_p (m f i) then reach m n (get_frame (m f i)) else {})"

lemma entry_reach_Suc:
  "get_p (m f i) \<Longrightarrow> entry_reach m (Suc n) f i =
     (\<Union>j\<in>{..<512}. entry_reach m n (get_frame (m f i)) j) \<union> {get_frame (m f i)}"
  by (simp add: entry_reach_def reach_Suc)

lemma window_shows:
  assumes "0 \<le> w" "w \<le> 14" "unat f < 2 ^ 40"
  shows "window_frame (snd (vmm_scratch_map_internal s (push_bit 12 f) w)) w = f"
  using assms by (simp add: scratch_map_frame frame_shift frame_trunc)

lemma flush_page_frees:
  assumes "pmm_wf (frames s)" "pmem s = m" "window_frame s 5 = f"
  shows "\<exists>s'. flush_page l s = Some s' \<and> frees 5 (entry_reach m 0 f l) s s'"
  using release_frees [OF assms(1) get_frame_lt, of "m f l" 5] assms
  by (auto simp: flush_page_def read_entry_def Let_def entry_reach_def reach_0 frees_refl)

text \<open>A table whose entries the inner loop has released is released itself.\<close>

lemma loop_then_release:
  assumes loop: "\<exists>s'. foldM b xs s = Some s' \<and> frees w F s s'" and s: "pmm_wf (frames s)"
  shows "\<exists>s2. foldM b xs s \<bind> release (push_bit 12 (get_frame e)) = Some s2 \<and>
    frees w (F \<union> {get_frame e}) s s2"
proof -
  from loop obtain s1 where s1: "foldM b xs s = Some s1" "frees w F s s1" by auto
  with release_frees [OF frees_wf [OF s1(2) s] get_frame_lt, of e w] obtain s2 where
    "release (push_bit 12 (get_frame e)) s1 = Some s2" "frees w {get_frame e} s1 s2" by auto
  with s1 frees_trans show ?thesis by fastforce
qed

lemma flush_pd_entry_frees:
  assumes s: "pmm_wf (frames s)" "pmem s = m" and f: "unat f < 2 ^ 40" and ps: "\<not> get_ps (m f k)"
  shows "\<exists>s'. flush_pd_entry (push_bit 12 f) k s = Some s' \<and> frees 3 (entry_reach m 1 f k) s s'"
proof -
  let ?s1 = "snd (vmm_scratch_map_internal s (push_bit 12 f) 4)" and ?e = "m f k"
  have w: "window_frame ?s1 4 = f" using f by (simp add: window_shows)
  have f1: "frees 3 {} s ?s1" by (simp add: frees_map)
  show ?thesis
  proof (cases "get_p ?e")
    case True
    let ?g = "get_frame ?e"
    let ?s2 = "snd (vmm_scratch_map_internal ?s1 (push_bit 12 ?g) 5)"
    have f2: "frees 3 {} ?s1 ?s2" by (simp add: frees_map)
    have "\<exists>s'. foldM flush_page [0..<512] ?s2 = Some s' \<and>
        frees 5 (\<Union>l\<in>{..<512}. entry_reach m 0 ?g l) ?s2 s'"
      by (rule loop_frees [where m = m and f = ?g])
        (use s flush_page_frees window_shows [OF _ _ get_frame_lt] in auto)
    from loop_then_release [OF this, of ?e] s obtain s3 where
      s3: "foldM flush_page [0..<512] ?s2 \<bind> release (push_bit 12 ?g) = Some s3"
        "frees 5 (entry_reach m (Suc 0) f k) ?s2 s3"
      by (auto simp: entry_reach_Suc [where m = m and f = f and i = k, OF True])
    have "frees 3 (entry_reach m 1 f k) s s3"
      using frees_trans [OF frees_trans [OF f1 f2] frees_mono [OF s3(2)]] by simp
    with s3(1) True ps w s show ?thesis
      by (simp add: flush_pd_entry_def read_entry_def Let_def)
  next
    case False
    with w s f1 show ?thesis
      by (simp add: flush_pd_entry_def read_entry_def Let_def entry_reach_def)
  qed
qed

lemma flush_pdpt_entry_frees:
  assumes s: "pmm_wf (frames s)" "pmem s = m" and f: "unat f < 2 ^ 40" and ps: "\<not> get_ps (m f j)"
    and ps1: "\<And>k. get_p (m f j) \<Longrightarrow> k < 512 \<Longrightarrow> \<not> get_ps (m (get_frame (m f j)) k)"
  shows "\<exists>s'. flush_pdpt_entry (push_bit 12 f) j s = Some s' \<and> frees 2 (entry_reach m 2 f j) s s'"
proof -
  let ?s1 = "snd (vmm_scratch_map_internal s (push_bit 12 f) 3)" and ?e = "m f j"
  have w: "window_frame ?s1 3 = f" using f by (simp add: window_shows)
  have f1: "frees 2 {} s ?s1" by (simp add: frees_map)
  show ?thesis
  proof (cases "get_p ?e")
    case True
    let ?g = "get_frame ?e"
    have "\<exists>s'. foldM (flush_pd_entry (push_bit 12 ?g)) [0..<512] ?s1 = Some s' \<and>
        frees 3 (\<Union>k\<in>{..<512}. entry_reach m 1 ?g k) ?s1 s'"
      by (rule loop_frees [where m = m and f = f])
        (use s w flush_pd_entry_frees [OF _ _ get_frame_lt] ps1 True in auto)
    from loop_then_release [OF this, of ?e] s obtain s3 where
      s3: "foldM (flush_pd_entry (push_bit 12 ?g)) [0..<512] ?s1 \<bind> release (push_bit 12 ?g) = Some s3"
        "frees 3 (entry_reach m (Suc 1) f j) ?s1 s3"
      by (auto simp: entry_reach_Suc [where m = m and f = f and i = j, OF True])
    have "frees 2 (entry_reach m 2 f j) s s3"
      using frees_trans [OF f1 frees_mono [OF s3(2)]] by (simp add: numeral_2_eq_2)
    with s3(1) True ps w s show ?thesis
      by (simp add: flush_pdpt_entry_def read_entry_def Let_def)
  next
    case False
    with w s f1 show ?thesis
      by (simp add: flush_pdpt_entry_def read_entry_def Let_def entry_reach_def)
  qed
qed

section \<open>The user half\<close>

definition user_slot :: "nat \<Rightarrow> bool" where
  "user_slot i \<longleftrightarrow> i < 256 \<and> i \<noteq> 224"

definition user_path :: "nat list \<Rightarrow> bool" where
  "user_path p \<longleftrightarrow> path 4 p \<and> p \<noteq> [] \<and> user_slot (p ! 0)"

text \<open>The root table after the user entries below \<open>k\<close> have been cleared.\<close>

definition flushed :: "(u64 \<Rightarrow> nat \<Rightarrow> u64) \<Rightarrow> u64 \<Rightarrow> nat \<Rightarrow> u64 \<Rightarrow> nat \<Rightarrow> u64" where
  "flushed m root k = m(root := (\<lambda>i. if i < k \<and> i \<noteq> 224 \<and> get_p (m root i)
     then set_field 12 40 0 (set_field 0 1 0 (m root i)) else m root i))"

lemma tree_root: "tree_wf s root \<Longrightarrow> path 4 q \<Longrightarrow> walk (pmem s) root q = Some root \<Longrightarrow> q = []"
  using tree_inj [of s root "[]" q root] by (simp add: path_def)

lemma slot_walk:
  assumes wf: "tree_wf s root" and i: "i < 512" "get_p (pmem s root i)"
    and m': "\<And>g. g \<noteq> root \<Longrightarrow> m' g = pmem s g" and q: "path 3 q"
  shows "walk m' (get_frame (pmem s root i)) q = walk (pmem s) (get_frame (pmem s root i)) q"
proof (rule walk_fresh_frame [where n = root])
  fix q :: "nat list" assume q: "path 3 q"
  show "walk (pmem s) (get_frame (pmem s root i)) q \<noteq> Some root"
  proof
    assume "walk (pmem s) (get_frame (pmem s root i)) q = Some root"
    then have "walk (pmem s) root (i # q) = Some root" using i by simp
    moreover have "path 4 (i # q)" using q i by (auto simp: path_def)
    ultimately show False using tree_root [OF wf] by blast
  qed
qed (use m' path_up(1) [OF q] in auto)

lemma slot_tables:
  assumes wf: "tree_wf s root" and i: "i < 512" "get_p (pmem s root i)"
  shows "get_frame (pmem s root i) \<noteq> root"
    and "j < 512 \<Longrightarrow> \<not> get_ps (pmem s (get_frame (pmem s root i)) j)"
    and "j < 512 \<Longrightarrow> get_p (pmem s (get_frame (pmem s root i)) j) \<Longrightarrow>
      get_frame (pmem s (get_frame (pmem s root i)) j) \<noteq> root"
    and "j < 512 \<Longrightarrow> get_p (pmem s (get_frame (pmem s root i)) j) \<Longrightarrow> k < 512 \<Longrightarrow>
      \<not> get_ps (pmem s (get_frame (pmem s (get_frame (pmem s root i)) j)) k)"
  using i tree_root [OF wf, of "[i]"] tree_root [OF wf, of "[i, j]"]
    tree_ps [OF wf, of "[i]" _ j] tree_ps [OF wf, of "[i, j]" _ k]
  by (auto simp: path_def)

definition frees_to :: "u64 \<Rightarrow> nat \<Rightarrow> vmm \<Rightarrow> vmm \<Rightarrow> bool" where
  "frees_to root k s s' \<longleftrightarrow> pmem s' = flushed (pmem s) root k \<and> pmm_wf (frames s') \<and>
     pmm_total_pages (frames s') = pmm_total_pages (frames s) \<and>
     free_pages (frames s') = free_pages (frames s) \<union>
       {p \<in> unat ` (\<Union>i\<in>{i. i < k \<and> i \<noteq> 224}. entry_reach (pmem s) 3 root i).
          p \<noteq> 0 \<and> p < unat (pmm_total_pages (frames s))}"

lemma flushed_Suc:
  "flushed m root (Suc k) = (if k \<noteq> 224 \<and> get_p (m root k)
     then (flushed m root k)(root := (flushed m root k root)
       (k := set_field 12 40 0 (set_field 0 1 0 (m root k))))
     else flushed m root k)"
  by (auto simp: flushed_def fun_eq_iff less_Suc_eq)

lemma upto_user: "{i. i < Suc k \<and> i \<noteq> 224} = (if k = 224 then {} else {k}) \<union> {i. i < k \<and> i \<noteq> 224}"
  by auto

lemma flush_pml4_entry_frees:
  assumes wf: "tree_wf s root" and root: "unat root < 2 ^ 40" and k: "k < 256"
    and t: "frees_to root k s t"
  shows "\<exists>t'. flush_pml4_entry (push_bit 12 root) k t = Some t' \<and> frees_to root (Suc k) s t'"
proof (cases "k = 224")
  case True
  have "frees_to root (Suc k) s t = frees_to root k s t"
    unfolding frees_to_def flushed_Suc upto_user using True by simp
  with t True show ?thesis by (simp add: flush_pml4_entry_def)
next
  case False
  let ?m = "pmem s" and ?t1 = "snd (vmm_scratch_map_internal t (push_bit 12 root) 2)"
  let ?mt = "flushed ?m root k"
  have w: "window_frame ?t1 2 = root" using root by (simp add: window_shows)
  from t have mt: "pmem t = ?mt" and wft: "pmm_wf (frames t)" by (simp_all add: frees_to_def)
  have e: "?mt root k = ?m root k" by (simp add: flushed_def)
  have off: "?mt g = ?m g" if "g \<noteq> root" for g using that by (simp add: flushed_def)
  show ?thesis
  proof (cases "get_p (?m root k)")
    case True
    let ?g = "get_frame (?m root k)"
    have k5: "k < 512" using k by simp
    note tb = slot_tables [OF wf k5 True]
    have body: "\<exists>s'. flush_pdpt_entry (push_bit 12 ?g) j u = Some s' \<and>
        frees 2 (entry_reach ?mt 2 ?g j) u s'" if "j < 512" "pmm_wf (frames u)" "pmem u = ?mt" for j u
      by (rule flush_pdpt_entry_frees [OF that(2,3) get_frame_lt])
        (use tb that(1) in \<open>simp_all add: off\<close>)
    have "\<exists>s'. foldM (flush_pdpt_entry (push_bit 12 ?g)) [0..<512] ?t1 = Some s' \<and>
        frees 2 (\<Union>j\<in>{..<512}. entry_reach ?mt 2 ?g j) ?t1 s'"
      by (rule loop_frees [where m = ?mt and f = root]) (use body wft mt w in auto)
    from loop_then_release [OF this, of "?m root k"] wft obtain t2 where
      t2: "foldM (flush_pdpt_entry (push_bit 12 ?g)) [0..<512] ?t1 \<bind> release (push_bit 12 ?g) = Some t2"
        "frees 2 ((\<Union>j\<in>{..<512}. entry_reach ?mt 2 ?g j) \<union> {?g}) ?t1 t2"
      by auto
    have "(\<Union>j\<in>{..<512}. entry_reach ?mt 2 ?g j) \<union> {?g} = reach ?mt 3 ?g"
      by (simp add: entry_reach_def reach_Suc numeral_3_eq_3 numeral_2_eq_2)
    also have "\<dots> = entry_reach ?m 3 root k"
      using True slot_walk [OF wf k5 True off] by (auto simp: reach_def entry_reach_def)
    finally have fr: "frees 2 (entry_reach ?m 3 root k) ?t1 t2" using t2(2) by simp
    have w2: "window_frame t2 2 = root" using frees_window [OF fr, of 2] w by simp
    have m2: "pmem t2 = ?mt" using frees_pmem [OF fr] mt by simp
    let ?t3 = "write_entry t2 root k (set_field 12 40 0 (set_field 0 1 0 (?m root k)))"
    obtain t1' where t1': "foldM (flush_pdpt_entry (push_bit 12 ?g)) [0..<512] ?t1 = Some t1'"
        "release (push_bit 12 ?g) t1' = Some t2"
      using t2(1) by (auto simp: bind_eq_Some_conv)
    have "flush_pml4_entry (push_bit 12 root) k t = Some ?t3"
      using False True t1' w w2 m2 mt e
      by (simp add: flush_pml4_entry_def read_entry_def Let_def)
    moreover have "frees_to root (Suc k) s ?t3"
      using t fr m2 True False unfolding frees_to_def frees_def
      by (auto simp: write_entry_def flushed_Suc upto_user)
    ultimately show ?thesis by blast
  next
    case np: False
    have "flush_pml4_entry (push_bit 12 root) k t = Some ?t1"
      using False np w mt e by (simp add: flush_pml4_entry_def read_entry_def Let_def)
    moreover have "frees_to root (Suc k) s ?t1"
      using t np False by (auto simp: frees_to_def flushed_Suc upto_user entry_reach_def)
    ultimately show ?thesis by blast
  qed
qed

lemma flush_loop:
  assumes wf: "tree_wf s root" and root: "unat root < 2 ^ 40" and pm: "pmm_wf (frames s)"
  shows "k \<le> 256 \<Longrightarrow> \<exists>t. foldM (flush_pml4_entry (push_bit 12 root)) [0..<k] s = Some t \<and> frees_to root k s t"
proof (induction k)
  case 0
  have "flushed (pmem s) root 0 = pmem s" by (simp add: flushed_def)
  then show ?case using pm by (simp add: frees_to_def)
next
  case (Suc k)
  then obtain t where "foldM (flush_pml4_entry (push_bit 12 root)) [0..<k] s = Some t"
    "frees_to root k s t" by auto
  with flush_pml4_entry_frees [OF wf root _ this(2)] Suc.prems show ?case
    by (auto simp: foldM_append)
qed

lemma flushed_entry:
  "get_p (flushed m root 256 root i) \<longleftrightarrow> get_p (m root i) \<and> \<not> user_slot i"
  "\<not> user_slot i \<Longrightarrow> flushed m root 256 root i = m root i"
  by (auto simp: flushed_def user_slot_def bit_set_other bit_set_one)

lemma flushed_walk:
  assumes wf: "tree_wf s root" and p: "path 4 p"
  shows "walk (flushed (pmem s) root 256) root p = (if user_path p then None else walk (pmem s) root p)"
proof (cases p)
  case (Cons i q)
  with p have i: "i < 512" and q: "path 3 q" by (auto simp: path_def)
  have u: "user_path p \<longleftrightarrow> user_slot i" using p Cons by (simp add: user_path_def)
  have off: "flushed (pmem s) root 256 g = pmem s g" if "g \<noteq> root" for g
    using that by (simp add: flushed_def)
  show ?thesis using slot_walk [OF wf i _ off q]
    by (auto simp: Cons u [unfolded Cons] flushed_entry)
qed (simp add: user_path_def)

lemma user_reach:
  "(\<Union>i\<in>{i. i < 256 \<and> i \<noteq> 224}. entry_reach m 3 root i) =
     {f. \<exists>p. user_path p \<and> walk m root p = Some f}" (is "?l = ?r")
proof (intro set_eqI iffI)
  fix f assume "f \<in> ?l"
  then obtain i q where "i < 256" "i \<noteq> 224" "get_p (m root i)" "path 3 q"
    "walk m (get_frame (m root i)) q = Some f"
    by (auto simp: entry_reach_def reach_def split: if_splits)
  then have "user_path (i # q) \<and> walk m root (i # q) = Some f"
    by (auto simp: user_path_def user_slot_def path_def)
  then show "f \<in> ?r" by blast
next
  fix f assume "f \<in> ?r"
  then obtain p where p: "user_path p" "walk m root p = Some f" by blast
  then obtain i q where "p = i # q" by (cases p) (auto simp: user_path_def)
  with p show "f \<in> ?l"
    by (force simp: user_path_def user_slot_def path_def entry_reach_def reach_def split: if_splits)
qed

lemma flush_spec:
  assumes wf: "tree_wf s root" and root: "unat root < 2 ^ 40" "root \<noteq> 0" and pm: "pmm_wf (frames s)"
  shows "\<exists>s'. process_flush_user_space s (push_bit 12 root) = Some (0, s') \<and>
    pmm_wf (frames s') \<and> pmm_total_pages (frames s') = pmm_total_pages (frames s) \<and>
    (\<forall>p. path 4 p \<longrightarrow> walk (pmem s') root p = (if user_path p then None else walk (pmem s) root p)) \<and>
    (\<forall>f. f \<noteq> root \<longrightarrow> pmem s' f = pmem s f) \<and>
    free_pages (frames s') = free_pages (frames s) \<union>
      {unat f |f p. user_path p \<and> walk (pmem s) root p = Some f \<and> f \<noteq> 0 \<and>
         unat f < unat (pmm_total_pages (frames s))}"
proof -
  from flush_loop [OF wf root(1) pm, of 256] obtain s' where
    s': "foldM (flush_pml4_entry (push_bit 12 root)) [0..<256] s = Some s'" "frees_to root 256 s s'"
    by auto
  have "unat (push_bit 12 root) \<noteq> 0" using phys_nat [OF root(1)] root(2) by (simp add: unat_eq_zero)
  then have "push_bit 12 root \<noteq> 0" by auto
  with s'(1) have "process_flush_user_space s (push_bit 12 root) = Some (0, s')"
    by (simp add: process_flush_user_space_def)
  moreover have "free_pages (frames s') = free_pages (frames s) \<union>
      {unat f |f p. user_path p \<and> walk (pmem s) root p = Some f \<and> f \<noteq> 0 \<and>
         unat f < unat (pmm_total_pages (frames s))}"
  proof -
    have nz: "f \<noteq> 0 \<longleftrightarrow> unat f \<noteq> 0" for f :: u64 by (simp add: unat_eq_zero)
    from s'(2) show ?thesis unfolding frees_to_def user_reach nz by blast
  qed
  moreover have "\<forall>f. f \<noteq> root \<longrightarrow> pmem s' f = pmem s f"
    using s'(2) by (simp add: frees_to_def flushed_def)
  moreover have "\<forall>p. path 4 p \<longrightarrow> walk (pmem s') root p = (if user_path p then None else walk (pmem s) root p)"
    using s'(2) flushed_walk [OF wf] by (simp add: frees_to_def)
  ultimately show ?thesis using s'(2) unfolding frees_to_def by blast
qed

text \<open>
  The kernel half keeps its invariant when no page is mapped both from the user half and from
  outside it.
\<close>

definition user_private :: "vmm \<Rightarrow> u64 \<Rightarrow> bool" where
  "user_private s root \<longleftrightarrow> (\<forall>p q f. user_path p \<longrightarrow> path 4 q \<longrightarrow> \<not> user_path q \<longrightarrow>
     walk (pmem s) root p = Some f \<longrightarrow> walk (pmem s) root q \<noteq> Some f)"

lemma flush_tree_wf:
  assumes wf: "tree_wf s root" and sep: "user_private s root"
    and m: "\<And>p. path 4 p \<Longrightarrow> walk (pmem s') root p = (if user_path p then None else walk (pmem s) root p)"
    and m': "\<And>f. f \<noteq> root \<Longrightarrow> pmem s' f = pmem s f"
    and fr: "free_pages (frames s') \<subseteq> free_pages (frames s) \<union>
      {unat f |f p. user_path p \<and> walk (pmem s) root p = Some f}"
  shows "tree_wf s' root"
proof -
  have keep: "\<not> user_path p \<and> walk (pmem s) root p = Some f"
    if "path 4 p" "walk (pmem s') root p = Some f" for p f
    using m [OF that(1)] that(2) by (auto split: if_splits)
  have "p = q" if "path 3 p" "path 4 q" "walk (pmem s') root p = Some f" "walk (pmem s') root q = Some f"
    for p q f
    using tree_inj [OF wf that(1,2)] keep [OF path_up(1) [OF that(1)] that(3)] keep [OF that(2,4)] by blast
  moreover have "unat f \<notin> free_pages (frames s')" if "path 4 p" "walk (pmem s') root p = Some f" for p f
    using keep [OF that] tree_used [OF wf that(1)] sep that(1) fr
    unfolding user_private_def by (auto simp flip: word_unat_eq_iff)
  moreover have "unat f < 2 ^ 24" if "path 3 p" "walk (pmem s') root p = Some f" for p f
    using keep [OF path_up(1) [OF that(1)] that(2)] tree_low [OF wf that(1)] by blast
  moreover have "\<not> get_ps (pmem s' f i)"
    if "path 2 p" "p \<noteq> []" "walk (pmem s') root p = Some f" "i < 512" for p f i
  proof -
    have k: "walk (pmem s) root p = Some f" using keep [OF path_up(2) [OF that(1)] that(3)] by blast
    then have "f \<noteq> root" using tree_root [OF wf path_up(2) [OF that(1)]] that(2) by blast
    with m' tree_ps [OF wf that(1,2) k that(4)] show ?thesis by simp
  qed
  ultimately show ?thesis unfolding tree_wf_def by blast
qed

section \<open>Properties\<close>



end
