(* ===== verification/Heap.thy ===== *)
theory Heap
  imports Vmm
begin

text \<open>
  The kernel heap, \<^verbatim>\<open>src/kernel/kernel/mm/heap.c\<close>: a singly linked list of blocks, each with
  a 32 byte header in front of its payload, best-fit allocation with splitting, growth by fresh
  pages, and coalescing on release.

  The memory of the heap is a function from addresses to 64-bit cells: \<open>size\<close>, \<open>is_free\<close> and
  \<open>next\<close> of a header are the cells at offsets 0, 8 and 16, so headers and payloads live in the
  same memory. The list traversals are partial functions: a cyclic list would never end.

  The abstract view of a heap is the list of its blocks \<open>(size, free)\<close>, laid out one after
  the other; \<open>seg\<close> relates it to the memory.
\<close>

unbundle bit_operations_syntax

section \<open>State and header access\<close>

record kheap =
  g_heap_start :: u64
  g_heap_current_end :: u64
  hmem :: "u64 \<Rightarrow> u64"
  hvm :: vmm

definition hsize :: "(u64 \<Rightarrow> u64) \<Rightarrow> u64 \<Rightarrow> u64" where
  "hsize m a = m a"

definition his_free :: "(u64 \<Rightarrow> u64) \<Rightarrow> u64 \<Rightarrow> bool" where
  "his_free m a \<longleftrightarrow> m (a + 8) \<noteq> 0"

definition hnext :: "(u64 \<Rightarrow> u64) \<Rightarrow> u64 \<Rightarrow> u64" where
  "hnext m a = m (a + 16)"

definition set_hsize :: "u64 \<Rightarrow> u64 \<Rightarrow> (u64 \<Rightarrow> u64) \<Rightarrow> u64 \<Rightarrow> u64" where
  "set_hsize a v m = m(a := v)"

definition set_his_free :: "u64 \<Rightarrow> u64 \<Rightarrow> (u64 \<Rightarrow> u64) \<Rightarrow> u64 \<Rightarrow> u64" where
  "set_his_free a v m = m(a + 8 := v)"

definition set_hnext :: "u64 \<Rightarrow> u64 \<Rightarrow> (u64 \<Rightarrow> u64) \<Rightarrow> u64 \<Rightarrow> u64" where
  "set_hnext a v m = m(a + 16 := v)"

abbreviation HEADER_SIZE :: u64 where
  "HEADER_SIZE \<equiv> 32"

section \<open>Operations\<close>

definition kheap_init :: "kheap \<Rightarrow> kheap" where
  "kheap_init h =
     (let a = KERNEL_HEAP_VIRTUAL_BASE in
      h\<lparr>g_heap_start := a,
        hmem := set_hnext a 0 (set_his_free a 1
          (set_hsize a (KERNEL_HEAP_INITIAL_SIZE - HEADER_SIZE) (hmem h)))\<rparr>)"

text \<open>The best-fit search: the state of the loop is \<open>current\<close>, \<open>best_block\<close>, \<open>smallest_diff\<close>.\<close>

partial_function (option) best_fit ::
    "(u64 \<Rightarrow> u64) \<Rightarrow> u64 \<Rightarrow> u64 \<Rightarrow> u64 \<Rightarrow> u64 \<Rightarrow> u64 option" where
  "best_fit m sz current best_block smallest_diff =
     (if current = 0 then Some best_block
      else if his_free m current \<and> sz \<le> hsize m current \<and> hsize m current - sz < smallest_diff
      then best_fit m sz (hnext m current) current (hsize m current - sz)
      else best_fit m sz (hnext m current) best_block smallest_diff)"

partial_function (option) last_block :: "(u64 \<Rightarrow> u64) \<Rightarrow> u64 \<Rightarrow> u64 option" where
  "last_block m current =
     (if hnext m current = 0 then Some current else last_block m (hnext m current))"

text \<open>The pages of an extension; \<open>False\<close> is the exit when physical memory is exhausted.\<close>

fun heap_map_pages :: "nat \<Rightarrow> vmm \<Rightarrow> u64 \<Rightarrow> u64 \<Rightarrow> (bool \<times> vmm) option" where
  "heap_map_pages 0 v pml4 virt = Some (True, v)"
| "heap_map_pages (Suc n) v pml4 virt =
     do {
       (phys_page, pm) \<leftarrow> pmm_alloc_page (frames v);
       if phys_page = 0 then Some (False, v\<lparr>frames := pm\<rparr>)
       else do {
         v' \<leftarrow> vmm_map_page (v\<lparr>frames := pm\<rparr>) pml4 virt phys_page 0x2;
         heap_map_pages n v' pml4 (virt + PAGE_SIZE)
       }
     }"

definition expansion_size :: "u64 \<Rightarrow> u64" where
  "expansion_size sz =
     (if sz + HEADER_SIZE > 0x100000 then (sz + HEADER_SIZE + PAGE_SIZE - 1) AND NOT (PAGE_SIZE - 1)
      else 0x100000)"

definition heap_expand :: "kheap \<Rightarrow> u64 \<Rightarrow> u64 \<Rightarrow> (bool \<times> kheap) option" where
  "heap_expand h pml4 sz =
     (let ex = expansion_size sz; new = g_heap_current_end h in
      do {
        (ok, v) \<leftarrow> heap_map_pages (unat (ex div PAGE_SIZE)) (hvm h) pml4 new;
        if \<not> ok then Some (False, h\<lparr>hvm := v\<rparr>)
        else do {
          let m = set_hnext new 0 (set_his_free new 1 (set_hsize new (ex - HEADER_SIZE) (hmem h)));
          current \<leftarrow> last_block m (g_heap_start h);
          let m1 = set_hnext current new m;
          let m2 = (if his_free m1 current
            then let m' = set_hsize current (hsize m1 current + (HEADER_SIZE + hsize m1 new)) m1 in
                 set_hnext current (hnext m' new) m'
            else m1);
          Some (True, h\<lparr>g_heap_current_end := new + ex, hmem := m2, hvm := v\<rparr>)
        }
      })"

definition take_block :: "(u64 \<Rightarrow> u64) \<Rightarrow> u64 \<Rightarrow> u64 \<Rightarrow> (u64 \<Rightarrow> u64)" where
  "take_block m b sz =
     (let m' = (if hsize m b \<ge> sz + HEADER_SIZE + 16
        then let new = b + HEADER_SIZE + sz;
                 m1 = set_hsize new (hsize m b - sz - HEADER_SIZE) m;
                 m2 = set_his_free new 1 m1;
                 m3 = set_hnext new (hnext m2 b) m2;
                 m4 = set_hsize b sz m3
             in set_hnext b new m4
        else m)
      in set_his_free b 0 m')"

partial_function (option) kmalloc_search :: "kheap \<Rightarrow> u64 \<Rightarrow> u64 \<Rightarrow> (u64 \<times> kheap) option" where
  "kmalloc_search h pml4 sz =
     do {
       b \<leftarrow> best_fit (hmem h) sz (g_heap_start h) 0 0xFFFFFFFFFFFFFFFF;
       if b = 0 then do {
         (ok, h') \<leftarrow> heap_expand h pml4 sz;
         if ok then kmalloc_search h' pml4 sz else Some (0, h')
       }
       else Some (b + HEADER_SIZE, h\<lparr>hmem := take_block (hmem h) b sz\<rparr>)
     }"

definition kmalloc :: "kheap \<Rightarrow> u64 \<Rightarrow> u64 \<Rightarrow> (u64 \<times> kheap) option" where
  "kmalloc h pml4 sz =
     (if sz = 0 then Some (0, h) else kmalloc_search h pml4 ((sz + 15) AND NOT 15))"

partial_function (option) coalesce_loop :: "(u64 \<Rightarrow> u64) \<Rightarrow> u64 \<Rightarrow> (u64 \<Rightarrow> u64) option" where
  "coalesce_loop m current =
     (if current = 0 then Some m
      else if his_free m current \<and> hnext m current \<noteq> 0 \<and> his_free m (hnext m current)
      then let m1 = set_hsize current (hsize m current + (HEADER_SIZE + hsize m (hnext m current))) m in
           coalesce_loop (set_hnext current (hnext m1 (hnext m1 current)) m1) current
      else coalesce_loop m (hnext m current))"

definition kfree :: "kheap \<Rightarrow> u64 \<Rightarrow> kheap option" where
  "kfree h ptr =
     (if ptr = 0 then Some h
      else do {
        m \<leftarrow> coalesce_loop (set_his_free (ptr - HEADER_SIZE) 1 (hmem h)) (g_heap_start h);
        Some (h\<lparr>hmem := m\<rparr>)
      })"

section \<open>The block list\<close>

text \<open>
  \<open>seg m p a bs q e\<close>: starting with pointer \<open>p\<close> at address \<open>a\<close>, memory holds the blocks \<open>bs\<close> one
  after the other up to address \<open>e\<close>, and the last one points to \<open>q\<close>.
\<close>

fun seg :: "(u64 \<Rightarrow> u64) \<Rightarrow> u64 \<Rightarrow> nat \<Rightarrow> (nat \<times> bool) list \<Rightarrow> u64 \<Rightarrow> nat \<Rightarrow> bool" where
  "seg m p a [] q e \<longleftrightarrow> p = q \<and> a = e"
| "seg m p a ((s, f) # bs) q e \<longleftrightarrow>
     p = of_nat a \<and> 0 < a \<and> a mod 16 = 0 \<and> s mod 16 = 0 \<and> a + 32 + s < 2 ^ 64 \<and>
     unat (hsize m p) = s \<and> his_free m p = f \<and> seg m (hnext m p) (a + 32 + s) bs q e"

lemma seg_append:
  "seg m p a (xs @ ys) q e \<longleftrightarrow> (\<exists>p' b. seg m p a xs p' b \<and> seg m p' b ys q e)"
proof (induction xs arbitrary: p a)
  case (Cons b xs)
  then show ?case by (cases b) (simp add: conj_assoc)
qed auto

lemma seg_le: "seg m p a bs q e \<Longrightarrow> a \<le> e"
proof (induction bs arbitrary: p a)
  case (Cons b bs)
  obtain s f where b: "b = (s, f)" by (cases b)
  from Cons.IH Cons.prems have "a + 32 + s \<le> e" unfolding b seg.simps by blast
  then show ?case by simp
qed simp

lemma seg_lt: "seg m p a bs q e \<Longrightarrow> bs \<noteq> [] \<Longrightarrow> e < 2 ^ 64 \<and> a + 32 \<le> e"
proof (induction bs arbitrary: p a)
  case (Cons b bs)
  obtain s f where b: "b = (s, f)" by (cases b)
  from Cons.prems(1) have t: "a + 32 + s < 2 ^ 64" "seg m (hnext m p) (a + 32 + s) bs q e"
    unfolding b seg.simps by blast+
  with Cons.IH [OF t(2)] seg_le [OF t(2)] show ?case by (cases "bs = []") auto
qed simp

lemma cell_addr:
  assumes "a + 32 \<le> (2 :: nat) ^ 64"
  shows "unat (of_nat a :: u64) = a" "unat (of_nat a + 8 :: u64) = a + 8" "unat (of_nat a + 16 :: u64) = a + 16"
proof -
  show a: "unat (of_nat a :: u64) = a" using assms by (intro unat_of_nat_id) simp
  show "unat (of_nat a + 8 :: u64) = a + 8" "unat (of_nat a + 16 :: u64) = a + 16"
    using a assms by (subst unat_add_nowrap; simp)+
qed

text \<open>A segment depends only on the cells between its ends.\<close>

lemma seg_cong:
  assumes "seg m p a bs q e" "\<And>x. a \<le> unat x \<Longrightarrow> unat x < e \<Longrightarrow> m' x = m x"
  shows "seg m' p a bs q e"
  using assms
proof (induction bs arbitrary: p a)
  case (Cons b bs)
  obtain s f where b: "b = (s, f)" by (cases b)
  with Cons.prems have p: "p = of_nat a" "a + 32 + s < 2 ^ 64" and t: "seg m (hnext m p) (a + 32 + s) bs q e"
    by auto
  from seg_le [OF t] have le: "a + 32 \<le> e" by simp
  have "a + 32 \<le> 2 ^ 64" using p(2) by simp
  note c = cell_addr [OF this]
  have "m' p = m p" "m' (p + 8) = m (p + 8)" "m' (p + 16) = m (p + 16)"
    using Cons.prems(2) le unfolding p(1) by (simp_all add: c)
  moreover from Cons.IH [OF t] Cons.prems(2) have "seg m' (hnext m p) (a + 32 + s) bs q e" by simp
  ultimately show ?case using Cons.prems(1) unfolding b seg.simps hsize_def his_free_def hnext_def
    by metis
qed simp

fun blen :: "(nat \<times> bool) list \<Rightarrow> nat" where
  "blen [] = 0"
| "blen ((s, f) # bs) = 32 + s + blen bs"

lemma blen_append [simp]: "blen (xs @ ys) = blen xs + blen ys"
  by (induction xs rule: blen.induct) auto

lemma seg_end: "seg m p a bs q e \<Longrightarrow> e = a + blen bs"
proof (induction bs arbitrary: p a)
  case (Cons b bs)
  obtain s f where b: "b = (s, f)" by (cases b)
  from Cons.IH Cons.prems have "e = a + 32 + s + blen bs" unfolding b seg.simps by blast
  then show ?case by (simp add: b)
qed simp

text \<open>One block in the middle of the list.\<close>

lemma seg_split:
  assumes "seg m p a (pre @ (s, f) # post) q e"
  defines "b \<equiv> a + blen pre"
  shows "seg m p a pre (of_nat b) b" "0 < b" "b mod 16 = 0" "s mod 16 = 0" "b + 32 + s < 2 ^ 64"
    "unat (hsize m (of_nat b)) = s" "his_free m (of_nat b) = f"
    "seg m (hnext m (of_nat b)) (b + 32 + s) post q e"
proof -
  from assms(1) obtain p' b' where pre: "seg m p a pre p' b'" and t: "seg m p' b' ((s, f) # post) q e"
    by (auto simp: seg_append)
  from seg_end [OF pre] have "b' = b" by (simp add: b_def)
  with pre t show "seg m p a pre (of_nat b) b" "0 < b" "b mod 16 = 0" "s mod 16 = 0" "b + 32 + s < 2 ^ 64"
    "unat (hsize m (of_nat b)) = s" "his_free m (of_nat b) = f"
    "seg m (hnext m (of_nat b)) (b + 32 + s) post q e"
    by (metis seg.simps(2))+
qed

lemma seg_join:
  assumes "seg m p a pre (of_nat b) b" "0 < b" "b mod 16 = 0" "s mod 16 = 0" "b + 32 + s < 2 ^ 64"
    "unat (hsize m (of_nat b)) = s" "his_free m (of_nat b) = f"
    "seg m (hnext m (of_nat b)) (b + 32 + s) post q e"
  shows "seg m p a (pre @ (s, f) # post) q e"
  unfolding seg_append using assms by (intro exI [of _ "of_nat b"] exI [of _ b]) simp

lemma seg_ptr: "seg m p a bs 0 e \<Longrightarrow> p = 0 \<longleftrightarrow> bs = []"
proof (cases bs)
  case (Cons b r)
  assume "seg m p a bs 0 e"
  then obtain s f where "p = of_nat a" "0 < a" "a + 32 + s < 2 ^ 64" unfolding Cons by (cases b) auto
  then have "unat p = a" "0 < a" using cell_addr(1) [of a] by auto
  then show ?thesis using Cons by auto
qed simp

section \<open>Best fit\<close>

text \<open>The block \<open>s\<close> between \<open>pre\<close> and \<open>post\<close> is the first of the smallest free blocks of at least \<open>sz\<close>.\<close>

definition is_best :: "nat \<Rightarrow> (nat \<times> bool) list \<Rightarrow> nat \<Rightarrow> (nat \<times> bool) list \<Rightarrow> bool" where
  "is_best sz pre s post \<longleftrightarrow> sz \<le> s \<and>
     (\<forall>s'. (s', True) \<in> set pre \<longrightarrow> sz \<le> s' \<longrightarrow> s < s') \<and>
     (\<forall>s'. (s', True) \<in> set post \<longrightarrow> sz \<le> s' \<longrightarrow> s \<le> s')"

lemma best_fit_loop:
  assumes "seg m p a bs 0 e"
  shows "\<exists>r. best_fit m sz p best diff = Some r \<and>
     (r = best \<and> (\<forall>s. (s, True) \<in> set bs \<longrightarrow> unat sz \<le> s \<longrightarrow> unat diff \<le> s - unat sz) \<or>
      (\<exists>pre s post. bs = pre @ (s, True) # post \<and> r = of_nat (a + blen pre) \<and>
         is_best (unat sz) pre s post \<and> s - unat sz < unat diff))"
  using assms
proof (induction bs arbitrary: p a best diff)
  case Nil
  then show ?case by (simp add: best_fit.simps)
next
  case (Cons b bs)
  obtain s f where b: "b = (s, f)" by (cases b)
  from Cons.prems have p: "p = of_nat a" and s: "unat (hsize m p) = s" and f: "his_free m p = f"
    and t: "seg m (hnext m p) (a + 32 + s) bs 0 e" unfolding b seg.simps by blast+
  have p0: "p \<noteq> 0" using seg_ptr [OF Cons.prems] by simp
  show ?case
  proof (cases "f \<and> unat sz \<le> s \<and> s - unat sz < unat diff")
    case True
    then have le: "sz \<le> hsize m p" using s by (simp add: word_le_nat_alt)
    then have d: "unat (hsize m p - sz) = s - unat sz" using s by (simp add: unat_sub)
    have step: "best_fit m sz p best diff = best_fit m sz (hnext m p) p (hsize m p - sz)"
      using p0 True le d f by (subst best_fit.simps) (simp add: word_less_nat_alt)
    from Cons.IH [OF t, of p "hsize m p - sz"] obtain r where
      r: "best_fit m sz (hnext m p) p (hsize m p - sz) = Some r" and
      c: "r = p \<and> (\<forall>s'. (s', True) \<in> set bs \<longrightarrow> unat sz \<le> s' \<longrightarrow> s - unat sz \<le> s' - unat sz) \<or>
        (\<exists>pre s' post. bs = pre @ (s', True) # post \<and> r = of_nat (a + 32 + s + blen pre) \<and>
         is_best (unat sz) pre s' post \<and> s' - unat sz < s - unat sz)"
      unfolding d by blast
    from c show ?thesis
    proof (elim disjE conjE exE)
      assume "r = p" "\<forall>s'. (s', True) \<in> set bs \<longrightarrow> unat sz \<le> s' \<longrightarrow> s - unat sz \<le> s' - unat sz"
      then have "b # bs = [] @ (s, True) # bs \<and> r = of_nat (a + blen []) \<and>
          is_best (unat sz) [] s bs \<and> s - unat sz < unat diff"
        using True b p by (auto simp: is_best_def)
      then show ?thesis using step r by metis
    next
      fix pre s' post
      assume h: "bs = pre @ (s', True) # post" "r = of_nat (a + 32 + s + blen pre)"
        "is_best (unat sz) pre s' post" "s' - unat sz < s - unat sz"
      then have "b # bs = (b # pre) @ (s', True) # post \<and> r = of_nat (a + blen (b # pre)) \<and>
          is_best (unat sz) (b # pre) s' post \<and> s' - unat sz < unat diff"
        using True b by (auto simp: is_best_def)
      then show ?thesis using step r by metis
    qed
  next
    case False
    have "\<not> (his_free m p \<and> sz \<le> hsize m p \<and> hsize m p - sz < diff)"
      using False f s by (auto simp: word_le_nat_alt word_less_nat_alt unat_sub)
    then have step: "best_fit m sz p best diff = best_fit m sz (hnext m p) best diff"
      using p0 by (subst best_fit.simps) auto
    from Cons.IH [OF t, of best diff] obtain r where
      r: "best_fit m sz (hnext m p) best diff = Some r" and
      c: "r = best \<and> (\<forall>s. (s, True) \<in> set bs \<longrightarrow> unat sz \<le> s \<longrightarrow> unat diff \<le> s - unat sz) \<or>
        (\<exists>pre s' post. bs = pre @ (s', True) # post \<and> r = of_nat (a + 32 + s + blen pre) \<and>
         is_best (unat sz) pre s' post \<and> s' - unat sz < unat diff)" by blast
    from c show ?thesis
    proof (elim disjE conjE exE)
      assume "r = best" "\<forall>s. (s, True) \<in> set bs \<longrightarrow> unat sz \<le> s \<longrightarrow> unat diff \<le> s - unat sz"
      then show ?thesis using step r False b by (intro exI [of _ r]) auto
    next
      fix pre s' post
      assume h: "bs = pre @ (s', True) # post" "r = of_nat (a + 32 + s + blen pre)"
        "is_best (unat sz) pre s' post" "s' - unat sz < unat diff"
      then have "b # bs = (b # pre) @ (s', True) # post \<and> r = of_nat (a + blen (b # pre)) \<and>
          is_best (unat sz) (b # pre) s' post \<and> s' - unat sz < unat diff"
        using False b by (auto simp: is_best_def)
      then show ?thesis using step r by metis
    qed
  qed
qed

lemma best_fit_spec:
  assumes "seg m p a bs 0 e"
  shows "(\<exists>pre s post. best_fit m sz p 0 0xFFFFFFFFFFFFFFFF = Some (of_nat (a + blen pre)) \<and>
            bs = pre @ (s, True) # post \<and> is_best (unat sz) pre s post) \<or>
     (best_fit m sz p 0 0xFFFFFFFFFFFFFFFF = Some 0 \<and> (\<forall>s. (s, True) \<in> set bs \<longrightarrow> s < unat sz))"
proof -
  have "s < unat sz" if "(s, True) \<in> set bs" "unat sz \<le> s \<longrightarrow> 2 ^ 64 - 1 \<le> s - unat sz" for s
  proof -
    from that(1) obtain pre post where "bs = pre @ (s, True) # post" by (meson split_list)
    with assms seg_split(5) have "a + blen pre + 32 + s < 2 ^ 64" by blast
    with that(2) show ?thesis by auto
  qed
  with best_fit_loop [OF assms, of sz 0 "0xFFFFFFFFFFFFFFFF"] show ?thesis by fastforce
qed

section \<open>Taking a block\<close>

definition taken :: "nat \<Rightarrow> nat \<Rightarrow> (nat \<times> bool) list" where
  "taken sz s = (if sz + 48 \<le> s then [(sz, False), (s - sz - 32, True)] else [(s, False)])"

lemma blen_taken: "blen (taken sz s) = 32 + s"
  by (simp add: taken_def)

lemmas header_defs = hsize_def his_free_def hnext_def set_hsize_def set_his_free_def set_hnext_def

lemma take_block_cells:
  assumes b: "0 < b" "b mod 16 = 0" "b + 32 + s < 2 ^ 64" "s mod 16 = 0" "unat (hsize m (of_nat b)) = s"
    and sz: "unat sz \<le> s"
  defines "m' \<equiv> take_block m (of_nat b) sz"
  shows "\<And>x. unat x < b \<or> b + 32 + s \<le> unat x \<Longrightarrow> m' x = m x"
    and "\<not> his_free m' (of_nat b)"
    and "unat sz + 48 \<le> s \<Longrightarrow> unat (hsize m' (of_nat b)) = unat sz \<and>
        hnext m' (of_nat b) = of_nat (b + 32 + unat sz) \<and>
        unat (hsize m' (of_nat (b + 32 + unat sz))) = s - unat sz - 32 \<and>
        his_free m' (of_nat (b + 32 + unat sz)) \<and>
        hnext m' (of_nat (b + 32 + unat sz)) = hnext m (of_nat b)"
    and "\<not> unat sz + 48 \<le> s \<Longrightarrow> hsize m' (of_nat b) = hsize m (of_nat b) \<and>
        hnext m' (of_nat b) = hnext m (of_nat b)"
proof -
  define w where "w = (of_nat b :: u64)"
  define n where "n = w + HEADER_SIZE + sz"
  have b16: "16 \<le> b" using b(1,2) by (metis dvd_imp_le mod_0_imp_dvd)
  have c: "unat w = b" "unat (w + 8) = b + 8" "unat (w + 16) = b + 16"
    unfolding w_def using cell_addr [of b] b(3) by simp_all
  have u: "unat (sz + HEADER_SIZE + 16) = unat sz + 48"
    using sz b(3) b16 by (subst unat_add_nowrap; simp)+
  have split_iff: "hsize m w \<ge> sz + HEADER_SIZE + 16 \<longleftrightarrow> unat sz + 48 \<le> s"
    using b(5) u by (simp add: word_le_nat_alt w_def)
  have un: "unat n = b + 32 + unat sz"
    unfolding n_def using c(1) sz b(3) by (subst unat_add_nowrap; simp)+
  have nw: "n = of_nat (b + 32 + unat sz)" using un by (metis of_nat_unat ucast_id)
  have cn: "unat (n + 8) = b + 32 + unat sz + 8" "unat (n + 16) = b + 32 + unat sz + 16"
    if "unat sz + 48 \<le> s" unfolding nw using cell_addr [of "b + 32 + unat sz"] that b(3) by simp_all
  have ne: "x \<noteq> y" if "unat x \<noteq> unat y" for x y :: u64 using that by auto
  have m': "m' = (if unat sz + 48 \<le> s then
      m(n := hsize m w - sz - HEADER_SIZE, n + 8 := 1, n + 16 := m (w + 16), w := sz, w + 16 := n, w + 8 := 0)
      else m(w + 8 := 0))"
  proof (cases "unat sz + 48 \<le> s")
    case True
    have "w + 16 \<noteq> n" "w + 16 \<noteq> n + 8" by (rule ne, simp add: c un cn [OF True])+
    with True show ?thesis
      unfolding m'_def take_block_def w_def [symmetric] Let_def split_iff n_def [symmetric]
      by (simp add: header_defs)
  next
    case False
    then show ?thesis
      unfolding m'_def take_block_def w_def [symmetric] Let_def split_iff by (simp add: header_defs)
  qed
  show "m' x = m x" if x: "unat x < b \<or> b + 32 + s \<le> unat x" for x
  proof -
    have "x \<noteq> w" "x \<noteq> w + 8" "x \<noteq> w + 16" using x by (intro ne; simp add: c; linarith)+
    moreover have "x \<noteq> n" "x \<noteq> n + 8" "x \<noteq> n + 16" if "unat sz + 48 \<le> s"
      using x that by (intro ne; simp add: un cn [OF that]; linarith)+
    ultimately show ?thesis unfolding m' by simp
  qed
  have wne: "w + 8 \<noteq> w" "w + 16 \<noteq> w" "w + 8 \<noteq> w + 16" by (rule ne, simp add: c)+
  show "\<not> his_free m' (of_nat b)" unfolding m' his_free_def w_def [symmetric] by simp
  show "\<not> unat sz + 48 \<le> s \<Longrightarrow> hsize m' (of_nat b) = hsize m (of_nat b) \<and>
        hnext m' (of_nat b) = hnext m (of_nat b)"
    unfolding m' hsize_def hnext_def w_def [symmetric] using wne by simp
  assume T: "unat sz + 48 \<le> s"
  have nn: "n \<noteq> w" "n \<noteq> w + 8" "n \<noteq> w + 16" "n + 8 \<noteq> w" "n + 8 \<noteq> w + 8" "n + 8 \<noteq> w + 16" "n + 8 \<noteq> n"
    "n + 16 \<noteq> w" "n + 16 \<noteq> w + 8" "n + 16 \<noteq> w + 16" "n + 16 \<noteq> n" "n + 16 \<noteq> n + 8"
    by (rule ne, simp add: c un cn [OF T])+
  have "unat (hsize m w - sz - HEADER_SIZE) = s - unat sz - 32"
    using T b(5) unfolding w_def [symmetric]
    by (subst unat_sub; simp add: word_le_nat_alt unat_sub)
  then show "unat (hsize m' (of_nat b)) = unat sz \<and> hnext m' (of_nat b) = of_nat (b + 32 + unat sz) \<and>
        unat (hsize m' (of_nat (b + 32 + unat sz))) = s - unat sz - 32 \<and>
        his_free m' (of_nat (b + 32 + unat sz)) \<and>
        hnext m' (of_nat (b + 32 + unat sz)) = hnext m (of_nat b)"
    unfolding nw [symmetric] w_def [symmetric] m' using T wne nn wne [symmetric] nn [symmetric]
    by (simp add: hsize_def his_free_def hnext_def)
qed

lemma take_block_spec:
  assumes seg: "seg m p a (pre @ (s, True) # post) q e" and sz: "unat sz \<le> s" "unat sz mod 16 = 0"
  defines "b \<equiv> a + blen pre"
  defines "m' \<equiv> take_block m (of_nat b) sz"
  shows "seg m' p a (pre @ taken (unat sz) s @ post) q e"
    and "\<And>x. unat x < b \<or> b + 32 + s \<le> unat x \<Longrightarrow> m' x = m x"
proof -
  note h = seg_split [OF seg, folded b_def]
  note c = take_block_cells [OF h(2,3,5,4,6) sz(1), folded m'_def]
  show same: "m' x = m x" if "unat x < b \<or> b + 32 + s \<le> unat x" for x using c(1) [OF that] .
  have pre: "seg m' p a pre (of_nat b) b" by (rule seg_cong [OF h(1)]) (simp add: same)
  have post: "seg m' (hnext m (of_nat b)) (b + 32 + s) post q e"
    by (rule seg_cong [OF h(8)]) (simp add: same)
  show "seg m' p a (pre @ taken (unat sz) s @ post) q e"
  proof (cases "unat sz + 48 \<le> s")
    case True
    let ?n = "b + 32 + unat sz"
    have n: "?n + 32 + (s - unat sz - 32) = b + 32 + s" using True by simp
    have "(s - unat sz - 32) mod 16 = 0" using True h(4) sz(2) by (simp add: mod_eq_0_iff_dvd dvd_diff_nat)
    moreover have "?n mod 16 = 0" using h(3) sz(2) by (simp add: mod_add_eq [symmetric] mod_eq_0_iff_dvd)
    ultimately have "seg m' (of_nat ?n) ?n ((s - unat sz - 32, True) # post) q e"
      using c(3) [OF True] post h(5) unfolding seg.simps n by (simp only: simp_thms)
    with c(3) [OF True] c(2) pre h(2,3,5) sz True show ?thesis
      unfolding taken_def by (simp add: seg_join)
  next
    case False
    then show ?thesis using c(2) c(4) [OF False] pre post h
      unfolding taken_def by (simp add: seg_join)
  qed
qed

section \<open>Coalescing\<close>

fun coalesce :: "(nat \<times> bool) list \<Rightarrow> (nat \<times> bool) list" where
  "coalesce [] = []"
| "coalesce [b] = [b]"
| "coalesce ((s, f) # (t, g) # bs) =
     (if f \<and> g then coalesce ((s + 32 + t, True) # bs) else (s, f) # coalesce ((t, g) # bs))"

lemma coalesce_occupied [simp]: "coalesce ((s, False) # bs) = (s, False) # coalesce bs"
  by (cases bs) auto

fun coalesced :: "(nat \<times> bool) list \<Rightarrow> bool" where
  "coalesced [] \<longleftrightarrow> True"
| "coalesced [b] \<longleftrightarrow> True"
| "coalesced ((s, f) # (t, g) # bs) \<longleftrightarrow> \<not> (f \<and> g) \<and> coalesced ((t, g) # bs)"

fun hdr_area :: "nat \<Rightarrow> (nat \<times> bool) list \<Rightarrow> nat set" where
  "hdr_area a [] = {}"
| "hdr_area a ((s, f) # bs) = {a..<a + 32} \<union> hdr_area (a + 32 + s) bs"

lemma hdr_area_bounds: "hdr_area a bs \<subseteq> {a..<a + blen bs}"
  by (induction a bs rule: hdr_area.induct) auto

lemma hdr_area_append: "hdr_area a (xs @ ys) = hdr_area a xs \<union> hdr_area (a + blen xs) ys"
  by (induction a xs rule: hdr_area.induct) (auto simp: add.assoc)

lemma coalesced_occupied [simp]: "coalesced ((s, False) # bs) = coalesced bs"
  by (cases bs) auto

lemma coalesced_tl: "coalesced (b # bs) \<Longrightarrow> coalesced bs"
  by (cases b; cases bs) auto

lemma coalesce_id: "coalesced bs \<Longrightarrow> coalesce bs = bs"
  by (induction bs rule: coalesce.induct) (auto dest: coalesced_tl)

lemma coalesced_coalesce: "coalesced (coalesce bs)"
proof (induction bs rule: coalesce.induct)
  case (3 s f t g bs)
  show ?case
  proof (cases "f \<and> g")
    case False
    with 3(2) show ?thesis by (cases f) auto
  qed (use 3 in simp)
qed simp_all

lemma merge_step:
  assumes seg: "seg m p a ((s, True) # (t, True) # bs) q e"
  defines "m1 \<equiv> set_hsize p (hsize m p + (HEADER_SIZE + hsize m (hnext m p))) m"
  defines "m2 \<equiv> set_hnext p (hnext m1 (hnext m1 p)) m1"
  shows "seg m2 p a ((s + 32 + t, True) # bs) q e"
    and "\<And>x. unat x \<notin> {a..<a + 32} \<Longrightarrow> m2 x = m x"
proof -
  let ?n = "a + 32 + s"
  from seg have p: "p = of_nat a" "0 < a" "a mod 16 = 0" "s mod 16 = 0" "unat (hsize m p) = s" "his_free m p"
    and n: "hnext m p = of_nat ?n" "t mod 16 = 0" "?n + 32 + t < 2 ^ 64" "unat (hsize m (of_nat ?n)) = t"
    and r: "seg m (hnext m (of_nat ?n)) (?n + 32 + t) bs q e"
    unfolding seg.simps by metis+
  have c: "unat p = a" "unat (p + 8) = a + 8" "unat (p + 16) = a + 16"
    unfolding p(1) using cell_addr [of a] n(3) by simp_all
  define w where "w = (of_nat ?n :: u64)"
  have cw: "unat w = ?n" "unat (w + 16) = ?n + 16"
    unfolding w_def using cell_addr [of ?n] n(3) by simp_all
  have ne: "x \<noteq> y" if "unat x \<noteq> unat y" for x y :: u64 using that by auto
  have d: "p + 16 \<noteq> p" "p + 8 \<noteq> p" "p + 8 \<noteq> p + 16" "w + 16 \<noteq> p" by (rule ne, simp add: c cw)+
  have nx: "hnext m p = w" using n(1) w_def by simp
  have m2: "m2 = m(p := hsize m p + (HEADER_SIZE + hsize m w), p + 16 := hnext m w)"
    unfolding m2_def m1_def using d nx by (simp add: header_defs)
  show same: "m2 x = m x" if "unat x \<notin> {a..<a + 32}" for x
  proof -
    have "x \<noteq> p" "x \<noteq> p + 16" using that c by auto
    then show ?thesis by (simp add: m2)
  qed
  have "unat (HEADER_SIZE + hsize m w) = 32 + t"
    using n(3,4) by (subst unat_add_nowrap) (simp_all add: w_def)
  then have sz: "unat (hsize m2 p) = s + 32 + t"
    unfolding m2 using d p(5) n(3) by (subst hsize_def) (simp, subst unat_add_nowrap, simp_all)
  have "seg m2 (hnext m w) (?n + 32 + t) bs q e"
    by (rule seg_cong [OF r [folded w_def] same]) auto
  moreover have "hnext m2 p = hnext m w" "his_free m2 p"
    using d p(6) by (simp_all add: m2 hnext_def his_free_def)
  moreover have "(s + 32 + t) mod 16 = 0" using p(4) n(2) by (simp add: mod_add_eq [symmetric] mod_eq_0_iff_dvd)
  moreover have "?n + 32 + t = a + 32 + (s + 32 + t)" by simp
  ultimately show "seg m2 p a ((s + 32 + t, True) # bs) q e"
    using p(1-3) sz n(3) unfolding seg.simps by metis
qed

lemma coalesce_keep:
  assumes seg: "seg m p a (b # bs) 0 e"
    and ih: "\<And>m p a. seg m p a bs 0 e \<Longrightarrow> \<exists>m'. coalesce_loop m p = Some m' \<and> seg m' p a (coalesce bs) 0 e \<and>
       (\<forall>x. unat x \<notin> hdr_area a bs \<longrightarrow> m' x = m x)"
    and no: "\<not> (snd b \<and> bs \<noteq> [] \<and> snd (hd bs))"
  shows "\<exists>m'. coalesce_loop m p = Some m' \<and> seg m' p a (b # coalesce bs) 0 e \<and>
     (\<forall>x. unat x \<notin> hdr_area a (b # bs) \<longrightarrow> m' x = m x)"
proof -
  obtain s f where b: "b = (s, f)" by (cases b)
  from seg have p: "p = of_nat a" "0 < a" "a mod 16 = 0" "s mod 16 = 0" "a + 32 + s < 2 ^ 64"
    "unat (hsize m p) = s" "his_free m p = f" and t: "seg m (hnext m p) (a + 32 + s) bs 0 e"
    unfolding b seg.simps by metis+
  have "his_free m (hnext m p) = snd (hd bs)" if "bs \<noteq> []"
    using t that by (cases bs; cases "hd bs") auto
  with seg_ptr [OF seg] seg_ptr [OF t] no p(7) b have step: "coalesce_loop m p = coalesce_loop m (hnext m p)"
    by (subst coalesce_loop.simps) auto
  from ih [OF t] obtain m' where m': "coalesce_loop m (hnext m p) = Some m'"
    "seg m' (hnext m p) (a + 32 + s) (coalesce bs) 0 e"
    "\<And>x. unat x \<notin> hdr_area (a + 32 + s) bs \<Longrightarrow> m' x = m x" by blast
  have c: "unat p = a" "unat (p + 8) = a + 8" "unat (p + 16) = a + 16"
    unfolding p(1) using cell_addr [of a] p(5) by simp_all
  have out: "x \<notin> hdr_area (a + 32 + s) bs" if "x < a + 32" for x
    using hdr_area_bounds [of "a + 32 + s" bs] that by auto
  have "m' p = m p" "m' (p + 8) = m (p + 8)" "m' (p + 16) = m (p + 16)"
    by (rule m'(3), rule out, simp add: c)+
  then have "seg m' p a (b # coalesce bs) 0 e"
    using p m'(2) unfolding b seg.simps hsize_def his_free_def hnext_def by metis
  with step m' b show ?thesis by auto
qed

lemma coalesce_loop_spec:
  assumes "seg m p a bs 0 e"
  shows "\<exists>m'. coalesce_loop m p = Some m' \<and> seg m' p a (coalesce bs) 0 e \<and>
     (\<forall>x. unat x \<notin> hdr_area a bs \<longrightarrow> m' x = m x)"
  using assms
proof (induction bs arbitrary: m p a rule: coalesce.induct)
  case 1
  then show ?case by (subst coalesce_loop.simps) simp
next
  case (2 b)
  have nil: "\<exists>m'. coalesce_loop m p = Some m' \<and> seg m' p a (coalesce []) 0 e \<and>
      (\<forall>x. unat x \<notin> hdr_area a [] \<longrightarrow> m' x = m x)" if "seg m p a [] 0 e" for m p a
    using that by (subst coalesce_loop.simps) simp
  from coalesce_keep [OF 2 nil] show ?case by simp
next
  case (3 s f t g bs)
  show ?case
  proof (cases "f \<and> g")
    case False
    then have "coalesce ((s, f) # (t, g) # bs) = (s, f) # coalesce ((t, g) # bs)" by auto
    with coalesce_keep [OF 3(3) 3(2) [OF False]] False show ?thesis by (simp only: snd_conv list.sel) blast
  next
    case True
    note prems = 3(3) [unfolded True [THEN conjunct1, THEN eqTrueI] True [THEN conjunct2, THEN eqTrueI]]
    let ?m1 = "set_hsize p (hsize m p + (HEADER_SIZE + hsize m (hnext m p))) m"
    let ?m2 = "set_hnext p (hnext ?m1 (hnext ?m1 p)) ?m1"
    note st = merge_step [OF prems]
    have "p \<noteq> 0" using seg_ptr [OF prems] by simp
    moreover have "his_free m p" "his_free m (hnext m p)" "seg m (hnext m p) (a + 32 + s) ((t, True) # bs) 0 e"
      using prems unfolding seg.simps by metis+
    moreover from seg_ptr [OF this(3)] have "hnext m p \<noteq> 0" by simp
    ultimately have "coalesce_loop m p = coalesce_loop ?m2 p"
      by (subst coalesce_loop.simps) (simp add: Let_def)
    moreover from 3(1) [OF True st(1)] obtain m' where m': "coalesce_loop ?m2 p = Some m'"
      "seg m' p a (coalesce ((s + 32 + t, True) # bs)) 0 e"
      "\<And>x. unat x \<notin> hdr_area a ((s + 32 + t, True) # bs) \<Longrightarrow> m' x = ?m2 x" by blast
    moreover have "m' x = m x" if "unat x \<notin> hdr_area a ((s, f) # (t, g) # bs)" for x
      using m'(3) [of x] st(2) [of x] that by (simp add: add.assoc)
    ultimately show ?thesis using True by auto
  qed
qed

section \<open>Live blocks\<close>

fun live :: "nat \<Rightarrow> (nat \<times> bool) list \<Rightarrow> (nat \<times> nat) set" where
  "live a [] = {}"
| "live a ((s, f) # bs) = (if f then {} else {(a + 32, s)}) \<union> live (a + 32 + s) bs"

lemma live_append: "live a (xs @ ys) = live a xs \<union> live (a + blen xs) ys"
  by (induction a xs rule: live.induct) (auto simp: add.assoc)

lemma live_bounds: "(p, s) \<in> live a bs \<Longrightarrow> a + 32 \<le> p \<and> p + s \<le> a + blen bs"
  by (induction a bs rule: live.induct) (auto split: if_splits)

lemma live_hdr: "(p, s) \<in> live a bs \<Longrightarrow> {p..<p + s} \<inter> hdr_area a bs = {}"
proof (induction a bs rule: live.induct)
  case (2 a t f bs)
  have o: "hdr_area (a + 32 + t) bs \<subseteq> {a + 32 + t..}" using hdr_area_bounds by fastforce
  show ?case
  proof (cases "(p, s) \<in> live (a + 32 + t) bs")
    case True
    with 2 live_bounds [OF True] show ?thesis by auto
  next
    case False
    with "2.prems" o show ?thesis by (auto split: if_splits)
  qed
qed simp

lemma live_disjoint:
  "(p, s) \<in> live a bs \<Longrightarrow> (q, t) \<in> live a bs \<Longrightarrow> (p, s) \<noteq> (q, t) \<Longrightarrow>
   p + s \<le> q \<or> q + t \<le> p"
proof (induction a bs rule: live.induct)
  case (2 a u f bs)
  then show ?case using live_bounds [of p s "a + 32 + u" bs] live_bounds [of q t "a + 32 + u" bs]
    by (auto split: if_splits)
qed simp

lemma live_coalesce [simp]: "live a (coalesce bs) = live a bs"
proof (induction bs arbitrary: a rule: coalesce.induct)
  case (3 s f t g bs)
  show ?case
  proof (cases "f \<and> g")
    case True
    then show ?thesis using 3(1) [OF True, of a] by (simp add: add.assoc)
  next
    case False
    then have "live a (coalesce ((s, f) # (t, g) # bs)) = live a ((s, f) # coalesce ((t, g) # bs))" by simp
    also have "\<dots> = live a ((s, f) # (t, g) # bs)" unfolding live.simps(2) [of a s] 3(2) [OF False] ..
    finally show ?thesis .
  qed
qed simp_all

lemma live_split:
  assumes "(p, s) \<in> live a bs"
  obtains pre post where "bs = pre @ (s, False) # post" "p = a + blen pre + 32"
  using assms
proof (induction a bs arbitrary: thesis rule: live.induct)
  case (2 a t f bs)
  show ?case
  proof (cases "(p, s) \<in> live (a + 32 + t) bs")
    case True
    from "2.IH" [OF _ True] obtain pre post where
      h: "bs = pre @ (s, False) # post" "p = a + 32 + t + blen pre + 32" by blast
    show ?thesis by (rule "2.prems"(1) [of "(t, f) # pre" post]) (simp_all add: h)
  next
    case False
    with "2.prems"(2) have "\<not> f" "p = a + 32" "s = t" by (auto split: if_splits)
    then show ?thesis by (intro "2.prems"(1) [of "[]" bs]) simp_all
  qed
qed simp

lemma coalesced_append:
  "coalesced (xs @ ys) \<longleftrightarrow> coalesced xs \<and> coalesced ys \<and>
     \<not> (xs \<noteq> [] \<and> ys \<noteq> [] \<and> snd (last xs) \<and> snd (hd ys))"
proof (induction xs rule: coalesced.induct)
  case (2 b)
  then show ?case by (cases b; cases ys) auto
qed auto

lemma coalesced_taken:
  assumes "coalesced (pre @ (s, True) # post)"
  shows "coalesced (pre @ taken sz s @ post)"
proof -
  from assms have "coalesced pre" "coalesced ((s, True) # post)" by (simp_all add: coalesced_append)
  moreover from this(2) have "coalesced post" "\<not> (post \<noteq> [] \<and> snd (hd post))"
    by (cases post; auto dest: coalesced_tl)+
  ultimately show ?thesis
    by (cases post) (auto simp: coalesced_append taken_def)
qed

lemma coalesce_append:
  "coalesced xs \<Longrightarrow> \<not> (xs \<noteq> [] \<and> snd (last xs)) \<Longrightarrow> coalesce (xs @ ys) = xs @ coalesce ys"
proof (induction xs rule: coalesced.induct)
  case (2 b)
  then show ?case by (cases b) auto
next
  case (3 s f t g bs)
  then show ?case by (cases f; cases g) auto
qed simp

text \<open>Giving back the part that was just taken restores the block list.\<close>

lemma coalesce_taken:
  assumes "coalesced (pre @ (s, True) # post)" "sz \<le> s"
  defines "r \<equiv> (if sz + 48 \<le> s then (sz, True) # (s - sz - 32, True) # post else (s, True) # post)"
  shows "coalesce (pre @ r) = pre @ (s, True) # post"
proof -
  from assms(1) have pre: "coalesced pre" "\<not> (pre \<noteq> [] \<and> snd (last pre))" and c: "coalesced ((s, True) # post)"
    by (auto simp: coalesced_append)
  have "coalesce r = (s, True) # post" using coalesce_id [OF c] by (simp add: r_def)
  with coalesce_append [OF pre, of r] show ?thesis by simp
qed

section \<open>Growth\<close>

definition mapped :: "vmm \<Rightarrow> u64 \<Rightarrow> u64 \<Rightarrow> bool" where
  "mapped v root va \<longleftrightarrow> walk (pmem v) root (va_path va) \<noteq> None"

lemma alloc_plain_frame:
  assumes ok: "mem_ok v" and wf: "tree_wf v root" and ne: "free_pages (frames v) \<noteq> {}"
  obtains f pm where "pmm_alloc_page (frames v) = Some (push_bit 12 f, pm)" "push_bit 12 f \<noteq> 0"
    "unat f < 2 ^ 40" "mem_ok (v\<lparr>frames := pm\<rparr>)" "tree_wf (v\<lparr>frames := pm\<rparr>) root"
    "plain_frame (v\<lparr>frames := pm\<rparr>) root f" "unat f \<in> free_pages (frames v)"
    "free_pages pm = free_pages (frames v) - {unat f}"
proof -
  let ?p = "Min (free_pages (frames v))"
  define f :: u64 where "f = of_nat ?p"
  from ok have pw: "pmm_wf (frames v)" by (simp add: mem_ok_def)
  from ne have p: "?p \<in> free_pages (frames v)" by simp
  then have p24: "?p < 2 ^ 24" using ok by (auto simp: free_pages_def mem_ok_def)
  then have un: "unat f = ?p" unfolding f_def by (intro unat_of_nat_id) simp
  have f0: "unat f \<noteq> 0" using p un ok unfolding mem_ok_def by metis
  from pmm_alloc_page_some [OF pw ne] obtain pm where
    pm: "pmm_alloc_page (frames v) = Some (push_bit 12 f, pm)" "pmm_wf pm"
      "free_pages pm = free_pages (frames v) - {unat f}" "pmm_total_pages pm = pmm_total_pages (frames v)"
    by (auto simp: un push_bit_eq_mult f_def [symmetric])
  have "unat (push_bit 12 f) = unat f * 4096"
    using p24 un by (simp add: push_bit_eq_mult unat_mult_nowrap)
  then have a0: "push_bit 12 f \<noteq> 0" using f0 by (metis mult_is_0 unat_0 numeral_neq_zero)
  have "mem_ok (v\<lparr>frames := pm\<rparr>)" using ok pm by (auto simp: mem_ok_def)
  moreover have "tree_wf (v\<lparr>frames := pm\<rparr>) root"
    using wf unfolding tree_wf_def by (simp add: pm(3))
  moreover have "plain_frame (v\<lparr>frames := pm\<rparr>) root f"
  proof -
    have "walk (pmem v) root q \<noteq> Some f" if "path 3 q" for q
      using tree_used [OF wf path_up(1) [OF that]] p un by auto
    then show ?thesis by (simp add: plain_frame_def pm(3))
  qed
  ultimately show ?thesis using that pm a0 p p24 un by simp
qed

lemma heap_map_pages_spec:
  assumes "mem_ok v" "tree_wf v root" "4 * n \<le> card (free_pages (frames v))"
  shows "\<exists>v'. heap_map_pages n v root virt = Some (True, v') \<and> mem_ok v' \<and> tree_wf v' root \<and>
     (\<forall>k < n. mapped v' root (virt + of_nat k * PAGE_SIZE)) \<and>
     (\<forall>va. mapped v root va \<longrightarrow> mapped v' root va) \<and>
     card (free_pages (frames v)) \<le> card (free_pages (frames v')) + 4 * n"
  using assms
proof (induction n arbitrary: v virt)
  case (Suc n)
  have ne: "free_pages (frames v) \<noteq> {}" using Suc.prems(3) by auto
  from alloc_plain_frame [OF Suc.prems(1,2) ne] obtain f pm where
    pm: "pmm_alloc_page (frames v) = Some (push_bit 12 f, pm)" "push_bit 12 f \<noteq> 0" "unat f < 2 ^ 40"
    and v1: "mem_ok (v\<lparr>frames := pm\<rparr>)" "tree_wf (v\<lparr>frames := pm\<rparr>) root" "plain_frame (v\<lparr>frames := pm\<rparr>) root f"
    and fr: "unat f \<in> free_pages (frames v)" "free_pages pm = free_pages (frames v) - {unat f}" by blast
  have c1: "Suc (card (free_pages pm)) = card (free_pages (frames v))"
    unfolding fr(2) by (rule card_Suc_Diff1 [OF finite_free_pages fr(1)])
  then have "3 \<le> card (free_pages (frames (v\<lparr>frames := pm\<rparr>)))" using Suc.prems(3) by simp
  from vmm_map_page_spec [OF v1(1,2) this pm(3) v1(3), of virt 2] obtain v2 where
    v2: "vmm_map_page (v\<lparr>frames := pm\<rparr>) root virt (push_bit 12 f) 2 = Some v2" "mem_ok v2" "tree_wf v2 root"
      "walk (pmem v2) root (va_path virt) = Some f"
      "\<And>va. va_path va \<noteq> va_path virt \<Longrightarrow> walk (pmem v2) root (va_path va) = walk (pmem v) root (va_path va)"
      "card (free_pages pm) \<le> card (free_pages (frames v2)) + 3"
    by auto
  have mono: "mapped v2 root va" if "mapped v root va" for va
    using that v2(4,5) by (cases "va_path va = va_path virt") (simp_all add: mapped_def)
  have here: "mapped v2 root virt" using v2(4) by (simp add: mapped_def)
  have "4 * n \<le> card (free_pages (frames v2))" using Suc.prems(3) c1 v2(6) by simp
  from Suc.IH [OF v2(2,3) this, of "virt + PAGE_SIZE"] obtain v' where
    v': "heap_map_pages n v2 root (virt + PAGE_SIZE) = Some (True, v')" "mem_ok v'" "tree_wf v' root"
      "\<And>k. k < n \<Longrightarrow> mapped v' root (virt + PAGE_SIZE + of_nat k * PAGE_SIZE)"
      "\<And>va. mapped v2 root va \<Longrightarrow> mapped v' root va"
      "card (free_pages (frames v2)) \<le> card (free_pages (frames v')) + 4 * n" by blast
  have "mapped v' root (virt + of_nat k * PAGE_SIZE)" if "k < Suc n" for k
  proof (cases k)
    case 0
    then show ?thesis using v'(5) [OF here] by simp
  next
    case (Suc j)
    then show ?thesis using v'(4) [of j] that by (simp add: algebra_simps)
  qed
  moreover have "card (free_pages (frames v)) \<le> card (free_pages (frames v')) + 4 * Suc n"
    using c1 v2(6) v'(6) by simp
  moreover have "heap_map_pages (Suc n) v root virt = Some (True, v')"
    using pm(1,2) v2(1) v'(1) by simp
  ultimately show ?case using v'(2,3,5) mono by blast
qed simp

lemma last_block_spec:
  assumes "seg m p a (pre @ [(s, f)]) 0 e"
  shows "last_block m p = Some (of_nat (a + blen pre))"
  using assms
proof (induction pre arbitrary: p a)
  case Nil
  then show ?case by (subst last_block.simps) auto
next
  case (Cons b pre)
  obtain t g where b: "b = (t, g)" by (cases b)
  with Cons.prems have t: "seg m (hnext m p) (a + 32 + t) (pre @ [(s, f)]) 0 e" by auto
  from seg_ptr [OF t] have "hnext m p \<noteq> 0" by simp
  then have "last_block m p = last_block m (hnext m p)" by (subst last_block.simps) simp
  with Cons.IH [OF t] b show ?case by (simp add: add.assoc)
qed

definition extend :: "nat \<Rightarrow> (nat \<times> bool) list \<Rightarrow> (nat \<times> bool) list" where
  "extend ex bs = (if snd (last bs) then butlast bs @ [(fst (last bs) + ex, True)]
     else bs @ [(ex - 32, True)])"

lemma extend_facts:
  assumes "bs \<noteq> []" "32 \<le> ex"
  shows "blen (extend ex bs) = blen bs + ex" "live a (extend ex bs) = live a bs"
    "coalesced bs \<Longrightarrow> coalesced (extend ex bs)"
    "extend ex bs \<noteq> []" "\<exists>s. (s, True) \<in> set (extend ex bs) \<and> ex - 32 \<le> s"
proof -
  from assms(1) obtain pre s f where bs: "bs = pre @ [(s, f)]" by (metis append_butlast_last_id prod.exhaust)
  show "blen (extend ex bs) = blen bs + ex" "live a (extend ex bs) = live a bs"
    "coalesced bs \<Longrightarrow> coalesced (extend ex bs)"
    "extend ex bs \<noteq> []" "\<exists>s. (s, True) \<in> set (extend ex bs) \<and> ex - 32 \<le> s"
    using assms(2) by (cases f; force simp: bs extend_def live_append coalesced_append)+
qed

text \<open>The memory writes of an extension by \<open>ex\<close> bytes at the end of the list.\<close>

lemma expand_memory:
  assumes seg: "seg m p a bs 0 e" and ne: "bs \<noteq> []" and e16: "e mod 16 = 0"
    and ex: "64 \<le> unat ex" "unat ex mod 16 = 0" "e + unat ex < 2 ^ 64"
  defines "w \<equiv> of_nat e"
  defines "m0 \<equiv> set_hnext w 0 (set_his_free w 1 (set_hsize w (ex - HEADER_SIZE) m))"
  shows "\<exists>c. last_block m0 p = Some c \<and>
     (let m1 = set_hnext c w m0;
          m2 = (if his_free m1 c
            then let m' = set_hsize c (hsize m1 c + (HEADER_SIZE + hsize m1 w)) m1 in
                 set_hnext c (hnext m' w) m'
            else m1)
      in seg m2 p a (extend (unat ex) bs) 0 (e + unat ex) \<and>
         (\<forall>x. unat x < e \<longrightarrow> unat x \<notin> hdr_area a bs \<longrightarrow> m2 x = m x))"
proof -
  from ne obtain pre s f where bs: "bs = pre @ [(s, f)]" by (metis append_butlast_last_id prod.exhaust)
  define b where "b = a + blen pre"
  define c where "c = (of_nat b :: u64)"
  note h = seg_split [OF seg [unfolded bs], folded b_def]
  from seg_end [OF seg] have e: "e = b + 32 + s" by (simp add: bs b_def)
  have cw: "unat w = e" "unat (w + 8) = e + 8" "unat (w + 16) = e + 16"
    unfolding w_def using cell_addr [of e] ex by simp_all
  have cc: "unat c = b" "unat (c + 8) = b + 8" "unat (c + 16) = b + 16"
    unfolding c_def using cell_addr [of b] h(5) by simp_all
  have uex: "unat (ex - HEADER_SIZE) = unat ex - 32" using ex(1) by (simp add: unat_sub word_le_nat_alt)
  have low: "m0 x = m x" if "unat x < e" for x
    using that cw unfolding m0_def by (auto simp: header_defs)
  have seg0: "seg m0 p a (pre @ [(s, f)]) 0 e" by (rule seg_cong [OF seg [unfolded bs]]) (simp add: low)
  have lb: "last_block m0 p = Some c" using last_block_spec [OF seg0] by (simp add: c_def b_def)
  define m1 where "m1 = set_hnext c w m0"
  have ne: "x \<noteq> y" if "unat x \<noteq> unat y" for x y :: u64 using that by auto
  have d: "c + 16 \<noteq> c" "c + 16 \<noteq> c + 8" "w \<noteq> c + 16" "w + 8 \<noteq> c + 16" "w + 16 \<noteq> c + 16" "w + 8 \<noteq> w"
      "w + 16 \<noteq> w" "w + 16 \<noteq> w + 8"
    by (rule ne, simp add: cw cc e)+
  have w1: "hsize m1 w = ex - HEADER_SIZE" "his_free m1 w" "hnext m1 w = 0"
    unfolding m1_def m0_def using d d [symmetric] by (simp_all add: header_defs)
  have same1: "m1 x = m x" if "unat x < e" "x \<noteq> c + 16" for x
    using low [OF that(1)] that(2) by (simp add: m1_def set_hnext_def)
  have s1: "hsize m1 c = hsize m c" "his_free m1 c = f"
    using h(7) d unfolding hsize_def his_free_def c_def [symmetric] by (simp_all add: same1 cc e)
  have pre1: "seg m1 p a pre (of_nat b) b" by (rule seg_cong [OF h(1) same1]) (use cc e in auto)
  have "hnext m1 c = w" by (simp add: m1_def header_defs)
  moreover have "seg m1 w e [(unat ex - 32, True)] 0 (e + unat ex)"
    using w1 uex ex e16 h(2) e by (simp add: w_def mod_eq_0_iff_dvd dvd_diff_nat)
  ultimately have tail: "seg m1 (hnext m1 (of_nat b)) (b + 32 + s) [(unat ex - 32, True)] 0 (e + unat ex)"
    unfolding c_def e by metis
  have seg1: "seg m1 p a (pre @ [(s, f), (unat ex - 32, True)]) 0 (e + unat ex)"
    by (rule seg_join [OF pre1 h(2-5) _ _ tail]) (use h(6) s1 in \<open>simp_all add: c_def\<close>)
  define m2 where "m2 = (let m' = set_hsize c (hsize m1 c + (HEADER_SIZE + hsize m1 (hnext m1 c))) m1 in
                 set_hnext c (hnext m' (hnext m' c)) m')"
  have nx: "hnext m1 c = w" "hnext (set_hsize c v m1) c = w" for v
    using d by (simp_all add: m1_def header_defs)
  have hdr: "{b..<b + 32} \<subseteq> hdr_area a bs" by (simp add: bs hdr_area_append b_def)
  have same: "m1 x = m x" if "unat x < e" "unat x \<notin> hdr_area a bs" for x
  proof (rule same1 [OF that(1)])
    have "b + 16 \<in> hdr_area a bs" using hdr by auto
    with that(2) cc(3) show "x \<noteq> c + 16" by auto
  qed
  show ?thesis
  proof (cases f)
    case True
    from seg1 True obtain p' b' where q: "seg m1 p a pre p' b'" and
      q2: "seg m1 p' b' ((s, True) # (unat ex - 32, True) # []) 0 (e + unat ex)"
      unfolding seg_append by auto
    from seg_end [OF q] q2 have pb: "b' = b" "p' = c" by (simp_all add: b_def c_def)
    note mg = merge_step [OF q2 [unfolded pb], folded m2_def [unfolded Let_def]]
    have "seg m2 p a pre c b" by (rule seg_cong [OF q [unfolded pb] mg(2)]) auto
    then have "seg m2 p a (pre @ [(s + 32 + (unat ex - 32), True)]) 0 (e + unat ex)"
      using mg(1) unfolding seg_append by blast
    moreover have "m2 x = m x" if "unat x < e" "unat x \<notin> hdr_area a bs" for x
    proof -
      have "unat x \<notin> {b..<b + 32}" using that(2) hdr by blast
      with mg(2) same [OF that] show ?thesis by simp
    qed
    ultimately show ?thesis
      using lb s1(2) True ex(1) unfolding m1_def [symmetric] m2_def Let_def nx
      by (intro exI [of _ c]) (simp add: m1_def [symmetric] extend_def bs nx)
  next
    case False
    then show ?thesis using lb s1(2) seg1 same
      by (intro exI [of _ c]) (simp add: m1_def [symmetric] Let_def extend_def bs)
  qed
qed

section \<open>The heap invariant\<close>

text \<open>
  The invariant of the heap with block list \<open>bs\<close>: the list tiles the range from the base to the
  current end, no two free blocks are neighbours, every page of the range is mapped, and the
  memory managers below are in order.
\<close>

definition heap_inv :: "u64 \<Rightarrow> kheap \<Rightarrow> (nat \<times> bool) list \<Rightarrow> bool" where
  "heap_inv root h bs \<longleftrightarrow>
     seg (hmem h) (g_heap_start h) (unat KERNEL_HEAP_VIRTUAL_BASE) bs 0 (unat (g_heap_current_end h)) \<and>
     bs \<noteq> [] \<and> coalesced bs \<and> unat (g_heap_current_end h) mod 4096 = 0 \<and>
     mem_ok (hvm h) \<and> tree_wf (hvm h) root \<and>
     (\<forall>va. KERNEL_HEAP_VIRTUAL_BASE \<le> va \<longrightarrow> va < g_heap_current_end h \<longrightarrow> mapped (hvm h) root va)"

lemma heap_invD:
  assumes "heap_inv root h bs"
  shows "seg (hmem h) (g_heap_start h) (unat KERNEL_HEAP_VIRTUAL_BASE) bs 0 (unat (g_heap_current_end h))"
    "bs \<noteq> []" "coalesced bs" "unat (g_heap_current_end h) mod 4096 = 0" "mem_ok (hvm h)" "tree_wf (hvm h) root"
    "\<And>va. KERNEL_HEAP_VIRTUAL_BASE \<le> va \<Longrightarrow> va < g_heap_current_end h \<Longrightarrow> mapped (hvm h) root va"
  using assms unfolding heap_inv_def by blast+

abbreviation heap_live :: "(nat \<times> bool) list \<Rightarrow> (nat \<times> nat) set" where
  "heap_live bs \<equiv> live (unat KERNEL_HEAP_VIRTUAL_BASE) bs"

definition same_data :: "(nat \<times> nat) set \<Rightarrow> kheap \<Rightarrow> kheap \<Rightarrow> bool" where
  "same_data L h h' \<longleftrightarrow> (\<forall>(p, s)\<in>L. \<forall>x. p \<le> unat x \<longrightarrow> unat x < p + s \<longrightarrow> hmem h' x = hmem h x)"

lemma same_data_trans: "same_data L h h1 \<Longrightarrow> same_data L h1 h2 \<Longrightarrow> same_data L h h2"
  by (fastforce simp: same_data_def)

lemma heap_inv_memory:
  assumes "heap_inv root h bs"
    "seg m (g_heap_start h) (unat KERNEL_HEAP_VIRTUAL_BASE) bs' 0 (unat (g_heap_current_end h))"
    "bs' \<noteq> []" "coalesced bs'"
  shows "heap_inv root (h\<lparr>hmem := m\<rparr>) bs'"
  using assms by (simp add: heap_inv_def)

text \<open>Allocation when some free block is large enough.\<close>

lemma kmalloc_search_hit:
  assumes inv: "heap_inv root h bs" and sz: "unat sz mod 16 = 0"
    and ex: "\<exists>s. (s, True) \<in> set bs \<and> unat sz \<le> s"
  shows "\<exists>pre s post h'. bs = pre @ (s, True) # post \<and> is_best (unat sz) pre s post \<and>
     kmalloc_search h root sz = Some (KERNEL_HEAP_VIRTUAL_BASE + of_nat (blen pre) + 32, h') \<and>
     heap_inv root h' (pre @ taken (unat sz) s @ post) \<and> same_data (heap_live bs) h h' \<and>
     hvm h' = hvm h \<and> g_heap_current_end h' = g_heap_current_end h"
proof -
  let ?A = "unat KERNEL_HEAP_VIRTUAL_BASE"
  note i = heap_invD [OF inv]
  from best_fit_spec [OF i(1), of sz] ex obtain pre s post where
    b: "best_fit (hmem h) sz (g_heap_start h) 0 0xFFFFFFFFFFFFFFFF = Some (of_nat (?A + blen pre))"
    and bs: "bs = pre @ (s, True) # post" and best: "is_best (unat sz) pre s post"
    by (metis leD)
  note sg = i(1) [unfolded bs]
  note h = seg_split [OF sg]
  have le: "unat sz \<le> s" using best by (simp add: is_best_def)
  let ?b = "?A + blen pre"
  define m' where "m' = take_block (hmem h) (of_nat ?b) sz"
  note t = take_block_spec [OF sg le sz, folded m'_def]
  have "unat (of_nat ?b :: u64) = ?b" using cell_addr(1) [of ?b] h(5) by simp
  then have nz: "of_nat ?b \<noteq> (0 :: u64)" using h(2) by (metis unat_0 less_irrefl)
  let ?h' = "h\<lparr>hmem := m'\<rparr>"
  have "kmalloc_search h root sz = Some (of_nat ?b + HEADER_SIZE, ?h')"
    using b nz by (subst kmalloc_search.simps) (simp add: m'_def)
  moreover have "(of_nat ?b :: u64) = KERNEL_HEAP_VIRTUAL_BASE + of_nat (blen pre)" by simp
  moreover have "heap_inv root ?h' (pre @ taken (unat sz) s @ post)"
    by (rule heap_inv_memory [OF inv t(1)])
      (use coalesced_taken i(3) bs in \<open>auto simp: taken_def\<close>)
  moreover have "same_data (heap_live bs) h ?h'"
  proof -
    have "m' x = hmem h x" if "(p, r) \<in> heap_live bs" "p \<le> unat x" "unat x < p + r" for p r x
    proof (rule t(2))
      from that(1) have "(p, r) \<in> live ?A pre \<or> (p, r) \<in> live (?b + 32 + s) post"
        by (auto simp: bs live_append)
      with that live_bounds [of p r ?A pre] live_bounds [of p r "?b + 32 + s" post]
      show "unat x < ?b \<or> ?b + 32 + s \<le> unat x" by auto
    qed
    then show ?thesis by (auto simp: same_data_def)
  qed
  ultimately show ?thesis using bs best
    by (intro exI [of _ pre] exI [of _ s] exI [of _ post] exI [of _ ?h']) simp
qed

text \<open>The size of an extension, and what it leaves.\<close>

definition ext_bytes :: "nat \<Rightarrow> nat" where
  "ext_bytes sz = (if sz + 32 > 0x100000 then (sz + 32 + 4095) div 4096 * 4096 else 0x100000)"

lemma ext_bytes_bounds: "sz + 32 \<le> ext_bytes sz" "ext_bytes sz mod 4096 = 0" "64 \<le> ext_bytes sz"
proof -
  have "sz + 32 \<le> (sz + 32 + 4095) div 4096 * 4096" by linarith
  then show "sz + 32 \<le> ext_bytes sz" "ext_bytes sz mod 4096 = 0" "64 \<le> ext_bytes sz"
    by (auto simp: ext_bytes_def)
qed

lemma expansion_size_value:
  assumes "unat sz + 4128 < 2 ^ 64"
  shows "unat (expansion_size sz) = ext_bytes (unat sz)"
proof -
  have a: "unat (sz + HEADER_SIZE) = unat sz + 32" using assms by (subst unat_add_nowrap) simp_all
  have "unat (sz + HEADER_SIZE + (PAGE_SIZE - 1)) = unat sz + 32 + 4095"
    using assms a by (subst unat_add_nowrap) simp_all
  then have b: "unat (sz + HEADER_SIZE + PAGE_SIZE - 1) = unat sz + 32 + 4095"
    by (simp only: add_diff_eq [symmetric])
  have m12: "PAGE_SIZE - 1 = mask 12" by (simp add: mask_eq_exp_minus_1)
  have c: "x AND NOT (PAGE_SIZE - 1) = push_bit 12 (drop_bit 12 x)" for x :: u64
    unfolding m12 by (intro bit_eqI) (auto simp: bit_simps)
  have "unat (push_bit 12 (drop_bit 12 x)) = unat x div 4096 * 4096" for x :: u64
  proof -
    have "unat x div 4096 * 4096 < 18446744073709551616"
      using unat_lt64 [of x] div_times_less_eq_dividend [of "unat x" 4096] by linarith
    then show ?thesis by (simp add: push_bit_eq_mult unat_mult_nowrap unat_shr)
  qed
  with a b show ?thesis
    unfolding expansion_size_def ext_bytes_def c by (simp add: word_less_nat_alt)
qed

lemma heap_expand_spec:
  assumes inv: "heap_inv root h bs" and sz: "unat sz + 4128 < 2 ^ 64"
    and room: "unat (g_heap_current_end h) + ext_bytes (unat sz) < 2 ^ 64"
    and mem: "ext_bytes (unat sz) div 1024 \<le> card (free_pages (frames (hvm h)))"
  shows "\<exists>h'. heap_expand h root sz = Some (True, h') \<and>
     heap_inv root h' (extend (ext_bytes (unat sz)) bs) \<and> same_data (heap_live bs) h h' \<and>
     unat (g_heap_current_end h') = unat (g_heap_current_end h) + ext_bytes (unat sz)"
proof -
  let ?A = "unat KERNEL_HEAP_VIRTUAL_BASE" and ?x = "ext_bytes (unat sz)"
  define ex where "ex = expansion_size sz"
  define w where "w = g_heap_current_end h"
  note i = heap_invD [OF inv, folded w_def]
  have ux: "unat ex = ?x" unfolding ex_def by (rule expansion_size_value [OF sz])
  note eb = ext_bytes_bounds [of "unat sz"]
  define n where "n = ?x div 4096"
  have xn: "?x = n * 4096" using eb(2) by (auto simp: n_def)
  have un: "unat (ex div PAGE_SIZE) = n" by (simp add: unat_div ux n_def)
  have c4: "4 * n \<le> card (free_pages (frames (hvm h)))" using mem by (simp add: xn)
  from heap_map_pages_spec [OF i(5,6) c4, of w] obtain v where
    v: "heap_map_pages n (hvm h) root w = Some (True, v)" "mem_ok v" "tree_wf v root"
      "\<And>k. k < n \<Longrightarrow> mapped v root (w + of_nat k * PAGE_SIZE)"
      "\<And>va. mapped (hvm h) root va \<Longrightarrow> mapped v root va" by blast
  let ?m0 = "set_hnext w 0 (set_his_free w 1 (set_hsize w (ex - HEADER_SIZE) (hmem h)))"
  have e16: "unat w mod 16 = 0" using mod_mod_cancel [of 16 4096 "unat w"] i(4) by simp
  have "64 \<le> unat ex" "unat ex mod 16 = 0" "unat w + unat ex < 2 ^ 64"
    using eb(3) xn room by (simp_all add: ux w_def)
  note em = expand_memory [OF i(1,2) e16 this, unfolded of_nat_unat ucast_id]
  from em obtain c where lb: "last_block ?m0 (g_heap_start h) = Some c" and c: "
     let m1 = set_hnext c w ?m0;
          m2 = (if his_free m1 c
            then let m' = set_hsize c (hsize m1 c + (HEADER_SIZE + hsize m1 w)) m1 in
                 set_hnext c (hnext m' w) m'
            else m1)
      in seg m2 (g_heap_start h) ?A (extend (unat ex) bs) 0 (unat w + unat ex) \<and>
         (\<forall>x. unat x < unat w \<longrightarrow> unat x \<notin> hdr_area ?A bs \<longrightarrow> m2 x = hmem h x)" by blast
  define m2 where "m2 = (let m1 = set_hnext c w ?m0 in if his_free m1 c
            then let m' = set_hsize c (hsize m1 c + (HEADER_SIZE + hsize m1 w)) m1 in
                 set_hnext c (hnext m' w) m'
            else m1)"
  have m2: "seg m2 (g_heap_start h) ?A (extend ?x bs) 0 (unat w + ?x)"
    using c unfolding m2_def Let_def ux by (rule conjunct1)
  have low: "\<forall>x. unat x < unat w \<longrightarrow> unat x \<notin> hdr_area ?A bs \<longrightarrow> m2 x = hmem h x"
    using c unfolding m2_def Let_def ux by (rule conjunct2)
  let ?h' = "h\<lparr>g_heap_current_end := w + ex, hmem := m2, hvm := v\<rparr>"
  have r: "heap_expand h root sz = Some (True, ?h')"
    unfolding heap_expand_def ex_def [symmetric] w_def [symmetric] Let_def un
    by (simp add: v(1) lb m2_def Let_def)
  have e': "unat (w + ex) = unat w + ?x" using room ux by (subst unat_add_nowrap) (simp_all add: w_def)
  have map: "mapped v root va" if va: "KERNEL_HEAP_VIRTUAL_BASE \<le> va" "va < w + ex" for va
  proof (cases "va < w")
    case True
    with i(7) [OF va(1) True] v(5) show ?thesis by blast
  next
    case False
    then have lo: "unat w \<le> unat va" by (simp add: word_less_nat_alt)
    have hi: "unat va < unat w + ?x" using va(2) e' by (simp add: word_less_nat_alt)
    define k where "k = (unat va - unat w) div 4096"
    define j where "j = (unat va - unat w) mod 4096"
    have kj: "unat va = unat w + k * 4096 + j" "j < 4096" using lo by (simp_all add: k_def j_def)
    have "k < n" using hi lo unfolding k_def xn by (simp add: less_mult_imp_div_less)
    have lt: "unat w + k * 4096 + j < 2 ^ 64" using kj(1) unat_lt64 [of va] by simp
    note d = device_va [OF i(4) lt kj(2)]
    have "va = w + of_nat (k * 4096 + j)" using d(1) kj(1) by (simp add: word_unat_eq_iff)
    then have "va_path va = va_path (w + of_nat k * PAGE_SIZE)" using d(2) by simp
    with v(4) [OF \<open>k < n\<close>] show ?thesis by (simp add: mapped_def)
  qed
  have "coalesced (extend ?x bs)" "extend ?x bs \<noteq> []" using extend_facts [OF i(2)] eb(3) i(3) by auto
  moreover have "(unat w + ?x) mod 4096 = 0" using i(4) eb(2) by (simp add: mod_add_eq [symmetric])
  ultimately have "heap_inv root ?h' (extend ?x bs)"
    using m2 v(2,3) map unfolding heap_inv_def by (simp add: e')
  moreover have "same_data (heap_live bs) h ?h'"
  proof -
    have "m2 x = hmem h x" if "(p, r) \<in> heap_live bs" "p \<le> unat x" "unat x < p + r" for p r x
    proof -
      have "unat x < unat w" using that(3) live_bounds [OF that(1)] seg_end [OF i(1)] by simp
      moreover have "unat x \<notin> hdr_area ?A bs" using that(2,3) live_hdr [OF that(1)] by auto
      ultimately show ?thesis using low by blast
    qed
    then show ?thesis by (auto simp: same_data_def)
  qed
  ultimately show ?thesis using r e' unfolding w_def by auto
qed

section \<open>Allocation and release\<close>

definition round16 :: "nat \<Rightarrow> nat" where
  "round16 n = (n + 15) div 16 * 16"

lemma round16_bounds: "n \<le> round16 n" "round16 n \<le> n + 15" "round16 n mod 16 = 0"
proof -
  show "n \<le> round16 n" unfolding round16_def by linarith
  show "round16 n \<le> n + 15" "round16 n mod 16 = 0" by (simp_all add: round16_def)
qed

lemma round16_value:
  assumes "unat sz + 15 < 2 ^ 64"
  shows "unat ((sz + 15) AND NOT 15 :: u64) = round16 (unat sz)"
proof -
  have a: "unat (sz + 15) = unat sz + 15" using assms by (subst unat_add_nowrap) simp_all
  have m4: "(15 :: u64) = mask 4" by (simp add: mask_eq_exp_minus_1)
  have "x AND NOT 15 = push_bit 4 (drop_bit 4 x)" for x :: u64
    unfolding m4 by (intro bit_eqI) (auto simp: bit_simps)
  moreover have "unat (push_bit 4 (drop_bit 4 x)) = unat x div 16 * 16" for x :: u64
  proof -
    have "unat x div 16 * 16 < 18446744073709551616"
      using unat_lt64 [of x] div_times_less_eq_dividend [of "unat x" 16] by linarith
    then show ?thesis by (simp add: push_bit_eq_mult unat_mult_nowrap unat_shr)
  qed
  ultimately show ?thesis by (simp add: a round16_def)
qed

text \<open>The request can be served: from a free block, or with enough memory to grow.\<close>

definition servable :: "kheap \<Rightarrow> (nat \<times> bool) list \<Rightarrow> u64 \<Rightarrow> bool" where
  "servable h bs sz \<longleftrightarrow> 0 < unat sz \<and> unat sz + 5000 < 2 ^ 64 \<and>
     ((\<exists>s. (s, True) \<in> set bs \<and> round16 (unat sz) \<le> s) \<or>
      unat (g_heap_current_end h) + ext_bytes (round16 (unat sz)) < 2 ^ 64 \<and>
      ext_bytes (round16 (unat sz)) div 1024 \<le> card (free_pages (frames (hvm h))))"

lemma live_taken:
  "live a (pre @ taken sz s @ post) =
     insert (a + blen pre + 32, if sz + 48 \<le> s then sz else s) (live a (pre @ (s, True) # post))"
  by (simp add: live_append taken_def add.assoc)

lemma kmalloc_search_grow:
  assumes inv: "heap_inv root h bs" and none: "\<forall>s. (s, True) \<in> set bs \<longrightarrow> s < unat sz"
    and exp: "heap_expand h root sz = Some (True, h1)"
  shows "kmalloc_search h root sz = kmalloc_search h1 root sz"
proof -
  have "best_fit (hmem h) sz (g_heap_start h) 0 0xFFFFFFFFFFFFFFFF = Some 0"
    using best_fit_spec [OF heap_invD(1) [OF inv], of sz] none
    by (metis in_set_conv_decomp is_best_def not_less)
  with exp show ?thesis by (subst kmalloc_search.simps) simp
qed

lemma kmalloc_fit:
  assumes inv: "heap_inv root h bs" and sz: "0 < unat sz" "unat sz + 15 < 2 ^ 64"
    and ex: "\<exists>s. (s, True) \<in> set bs \<and> round16 (unat sz) \<le> s"
  shows "\<exists>pre s post h'. bs = pre @ (s, True) # post \<and> is_best (round16 (unat sz)) pre s post \<and>
     kmalloc h root sz = Some (KERNEL_HEAP_VIRTUAL_BASE + of_nat (blen pre) + 32, h') \<and>
     heap_inv root h' (pre @ taken (round16 (unat sz)) s @ post) \<and> same_data (heap_live bs) h h' \<and>
     hvm h' = hvm h \<and> g_heap_current_end h' = g_heap_current_end h"
proof -
  have "sz \<noteq> 0" using sz(1) by auto
  then have k: "kmalloc h root sz = kmalloc_search h root ((sz + 15) AND NOT 15)" by (simp add: kmalloc_def)
  note v = round16_value [OF sz(2)]
  have "unat ((sz + 15) AND NOT 15) mod 16 = 0" unfolding v by (rule round16_bounds)
  from kmalloc_search_hit [OF inv this] ex show ?thesis unfolding k v by blast
qed

lemma kmalloc_spec:
  assumes inv: "heap_inv root h bs" and sv: "servable h bs sz"
  shows "\<exists>p h' bs' k. kmalloc h root sz = Some (p, h') \<and> p \<noteq> 0 \<and> heap_inv root h' bs' \<and>
     unat p mod 16 = 0 \<and> unat sz \<le> k \<and> (unat p, k) \<notin> heap_live bs \<and>
     heap_live bs' = insert (unat p, k) (heap_live bs) \<and> same_data (heap_live bs) h h'"
proof -
  let ?A = "unat KERNEL_HEAP_VIRTUAL_BASE" and ?r = "round16 (unat sz)"
  define z where "z = (sz + 15) AND NOT 15"
  from sv have sz: "0 < unat sz" "unat sz + 5000 < 2 ^ 64" by (simp_all add: servable_def)
  then have z: "unat z = ?r" unfolding z_def by (intro round16_value) simp
  have zm: "unat z mod 16 = 0" using round16_bounds z by simp
  have "sz \<noteq> 0" using sz(1) by auto
  then have k: "kmalloc h root sz = kmalloc_search h root z" by (simp add: kmalloc_def z_def)
  obtain h1 bs1 where s1: "kmalloc_search h root z = kmalloc_search h1 root z" "heap_inv root h1 bs1"
    "same_data (heap_live bs) h h1" "heap_live bs1 = heap_live bs" "\<exists>s. (s, True) \<in> set bs1 \<and> unat z \<le> s"
  proof (cases "\<exists>s. (s, True) \<in> set bs \<and> ?r \<le> s")
    case True
    then show ?thesis using that [of h bs] inv z by (auto simp: same_data_def)
  next
    case False
    then have none: "\<forall>s. (s, True) \<in> set bs \<longrightarrow> s < unat z" using z by auto
    have zb: "unat z + 4128 < 2 ^ 64" using sz(2) round16_bounds [of "unat sz"] z by simp
    from heap_expand_spec [OF inv zb] sv False z obtain h1 where
      h1: "heap_expand h root z = Some (True, h1)" "heap_inv root h1 (extend (ext_bytes ?r) bs)"
        "same_data (heap_live bs) h h1" by (auto simp: servable_def)
    note e = extend_facts [OF heap_invD(2) [OF inv], of "ext_bytes ?r"] and eb = ext_bytes_bounds [of ?r]
    have "\<exists>s. (s, True) \<in> set (extend (ext_bytes ?r) bs) \<and> unat z \<le> s"
    proof -
      from e(5) eb(3) obtain s where "(s, True) \<in> set (extend (ext_bytes ?r) bs)" "ext_bytes ?r - 32 \<le> s" by auto
      with eb(1) z show ?thesis by (intro exI [of _ s]) simp
    qed
    then show ?thesis
      using that [OF kmalloc_search_grow [OF inv none h1(1)] h1(2,3)] e(2) eb(3) by auto
  qed
  from kmalloc_search_hit [OF s1(2) zm s1(5)] obtain pre s post h' where
    bs1: "bs1 = pre @ (s, True) # post" and best: "is_best (unat z) pre s post" and
    r: "kmalloc_search h1 root z = Some (KERNEL_HEAP_VIRTUAL_BASE + of_nat (blen pre) + 32, h')" and
    h': "heap_inv root h' (pre @ taken (unat z) s @ post)" "same_data (heap_live bs1) h1 h'"
    by blast
  let ?b = "?A + blen pre"
  note sg = seg_split [OF heap_invD(1) [OF s1(2), unfolded bs1]]
  define p where "p = KERNEL_HEAP_VIRTUAL_BASE + of_nat (blen pre) + (32 :: u64)"
  have "unat (KERNEL_HEAP_VIRTUAL_BASE + of_nat (blen pre) :: u64) = ?b"
    using cell_addr(1) [of ?b] sg(5) by simp
  then have p: "unat p = ?b + 32" unfolding p_def using sg(5) by (subst unat_add_nowrap) simp_all
  have lv: "heap_live (pre @ taken (unat z) s @ post) =
      insert (unat p, if unat z + 48 \<le> s then unat z else s) (heap_live bs1)"
    unfolding live_taken bs1 p ..
  have "unat p mod 16 = 0" using sg(3) unfolding p by (simp add: mod_add_eq [symmetric])
  moreover have "p \<noteq> 0" using p by auto
  moreover have "(unat p, j) \<notin> heap_live bs1" for j
  proof
    assume "(unat p, j) \<in> heap_live bs1"
    then have "(unat p, j) \<in> live ?A pre \<or> (unat p, j) \<in> live (?b + 32 + s) post"
      by (auto simp: bs1 live_append)
    with live_bounds [of "unat p" j ?A pre] live_bounds [of "unat p" j "?b + 32 + s" post] p
    show False by auto
  qed
  moreover have "unat sz \<le> (if unat z + 48 \<le> s then unat z else s)"
    using best round16_bounds [of "unat sz"] z by (auto simp: is_best_def)
  ultimately show ?thesis
    using k s1 r h' lv same_data_trans [OF s1(3)] unfolding p_def [symmetric]
    by (intro exI [of _ p] exI [of _ h'] exI [of _ "pre @ taken (unat z) s @ post"]
        exI [of _ "if unat z + 48 \<le> s then unat z else s"]) simp
qed

lemma release_memory:
  assumes seg: "seg m p a (pre @ (s, f) # post) q e"
  defines "b \<equiv> a + blen pre"
  shows "seg (set_his_free (of_nat b) 1 m) p a (pre @ (s, True) # post) q e"
proof -
  note h = seg_split [OF seg, folded b_def]
  let ?w = "of_nat b :: u64" and ?m = "set_his_free (of_nat b) 1 m"
  have c: "unat ?w = b" "unat (?w + 8) = b + 8" "unat (?w + 16) = b + 16"
    using cell_addr [of b] h(5) by simp_all
  have ne: "x \<noteq> y" if "unat x \<noteq> unat y" for x y :: u64 using that by auto
  have d: "?w + 8 \<noteq> ?w" "?w + 8 \<noteq> ?w + 16" by (rule ne, simp add: c)+
  have same: "?m x = m x" if "unat x \<noteq> b + 8" for x using that c by (auto simp: set_his_free_def)
  have f: "his_free ?m ?w" "hsize ?m ?w = hsize m ?w" "hnext ?m ?w = hnext m ?w"
    using d d [symmetric] by (simp_all add: header_defs)
  show ?thesis
  proof (rule seg_join [OF _ h(2-5)])
    show "seg ?m p a pre (of_nat b) b" by (rule seg_cong [OF h(1) same]) simp
    show "seg ?m (hnext ?m (of_nat b)) (b + 32 + s) post q e"
      unfolding f(3) by (rule seg_cong [OF h(8) same]) simp
  qed (use f h(6) in simp_all)
qed

lemma kfree_spec:
  assumes inv: "heap_inv root h (pre @ (k, False) # post)"
    and p: "unat p = unat KERNEL_HEAP_VIRTUAL_BASE + blen pre + 32"
  defines "bs \<equiv> pre @ (k, False) # post"
  shows "\<exists>h'. kfree h p = Some h' \<and> heap_inv root h' (coalesce (pre @ (k, True) # post)) \<and>
     same_data (heap_live bs - {(unat p, k)}) h h' \<and> hvm h' = hvm h"
proof -
  let ?A = "unat KERNEL_HEAP_VIRTUAL_BASE" and ?bs = "pre @ (k, True) # post"
  let ?b = "?A + blen pre"
  note i = heap_invD [OF inv]
  have lt: "?b + 32 < 2 ^ 64" using seg_split(5) [OF i(1)] by simp
  have "unat (p - HEADER_SIZE) = ?b" using p by (simp add: unat_sub word_le_nat_alt)
  then have pb: "p - HEADER_SIZE = of_nat ?b" using cell_addr(1) [of ?b] lt by (simp add: word_unat_eq_iff)
  define m where "m = set_his_free (of_nat ?b) 1 (hmem h)"
  from coalesce_loop_spec [OF release_memory [OF i(1), folded m_def]] obtain m' where
    m': "coalesce_loop m (g_heap_start h) = Some m'"
      "seg m' (g_heap_start h) ?A (coalesce ?bs) 0 (unat (g_heap_current_end h))"
      "\<And>x. unat x \<notin> hdr_area ?A ?bs \<Longrightarrow> m' x = m x" by blast
  have "p \<noteq> 0" using p by auto
  then have r: "kfree h p = Some (h\<lparr>hmem := m'\<rparr>)"
    unfolding kfree_def pb using m'(1) by (simp add: m_def)
  have ne: "coalesce ?bs \<noteq> []" using m'(2) i(2) seg_ptr [OF m'(2)] seg_ptr [OF i(1)] by auto
  have "heap_inv root (h\<lparr>hmem := m'\<rparr>) (coalesce ?bs)"
    by (rule heap_inv_memory [OF inv m'(2) ne coalesced_coalesce])
  moreover have "same_data (heap_live bs - {(unat p, k)}) h (h\<lparr>hmem := m'\<rparr>)"
  proof -
    have "m' x = hmem h x" if "(q, r) \<in> heap_live bs - {(unat p, k)}" "q \<le> unat x" "unat x < q + r" for q r x
    proof -
      from that(1) have "(q, r) \<in> heap_live ?bs" by (auto simp: bs_def live_append p)
      with that have o: "unat x \<notin> hdr_area ?A ?bs" using live_hdr [of q r ?A ?bs] by auto
      have "?b + 8 \<in> hdr_area ?A ?bs" by (simp add: hdr_area_append)
      with o have "unat x \<noteq> ?b + 8" by metis
      then have "x \<noteq> of_nat ?b + 8" using cell_addr(2) [of ?b] lt by auto
      with m'(3) [OF o] show ?thesis by (simp add: m_def set_his_free_def)
    qed
    then show ?thesis unfolding same_data_def by auto
  qed
  ultimately show ?thesis using r by auto
qed

lemma live_release:
  "live a (pre @ (k, True) # post) = live a (pre @ (k, False) # post) - {(a + blen pre + 32, k)}"
proof -
  have "(a + blen pre + 32, k) \<notin> live a pre" "(a + blen pre + 32, k) \<notin> live (a + blen pre + 32 + k) post"
    using live_bounds [of "a + blen pre + 32" k a pre]
      live_bounds [of "a + blen pre + 32" k "a + blen pre + 32 + k" post] by auto
  then show ?thesis by (auto simp: live_append)
qed

lemma live_functional: "(p, i) \<in> live a bs \<Longrightarrow> (p, j) \<in> live a bs \<Longrightarrow> i = j"
proof (induction a bs rule: live.induct)
  case (2 a s f bs)
  then show ?case using live_bounds [of p i "a + 32 + s" bs] live_bounds [of p j "a + 32 + s" bs]
    by (auto split: if_splits)
qed simp

lemma seg_unique: "seg m p a xs 0 e \<Longrightarrow> seg m p a ys 0 e \<Longrightarrow> xs = ys"
proof (induction xs arbitrary: p a ys)
  case Nil
  then show ?case using seg_ptr by metis
next
  case (Cons x xs)
  obtain s f where x: "x = (s, f)" by (cases x)
  from Cons.prems seg_ptr have "ys \<noteq> []" by (metis list.distinct(1))
  then obtain t g ys' where ys: "ys = (t, g) # ys'" by (metis neq_Nil_conv prod.exhaust)
  from Cons.prems x ys have "t = s" "g = f" by auto
  with Cons.prems x ys Cons.IH [of "hnext m p" "a + 32 + s" ys'] show ?case by auto
qed

lemma heap_inv_unique: "heap_inv root h bs \<Longrightarrow> heap_inv root h bs' \<Longrightarrow> bs = bs'"
  using heap_invD(1) seg_unique by metis

section \<open>The contract of the allocator\<close>

text \<open>
  What clients of \<open>kmalloc\<close> and \<open>kfree\<close> rely on: the live blocks are disjoint, allocation adds
  one and release removes one, and neither touches the contents of the others.
\<close>

locale block_allocator =
  fixes inv :: "'s \<Rightarrow> bool"
    and blocks :: "'s \<Rightarrow> (nat \<times> nat) set"
    and cell :: "'s \<Rightarrow> u64 \<Rightarrow> u64"
    and can :: "'s \<Rightarrow> u64 \<Rightarrow> bool"
    and alloc :: "'s \<Rightarrow> u64 \<Rightarrow> (u64 \<times> 's) option"
    and release :: "'s \<Rightarrow> u64 \<Rightarrow> 's option"
  assumes alloc_law: "inv s \<Longrightarrow> can s n \<Longrightarrow>
      \<exists>p s' k. alloc s n = Some (p, s') \<and> inv s' \<and> p \<noteq> 0 \<and> unat n \<le> k \<and> (unat p, k) \<notin> blocks s \<and>
        blocks s' = insert (unat p, k) (blocks s) \<and>
        (\<forall>(q, j)\<in>blocks s. \<forall>x. q \<le> unat x \<longrightarrow> unat x < q + j \<longrightarrow> cell s' x = cell s x)"
    and release_law: "inv s \<Longrightarrow> (unat p, k) \<in> blocks s \<Longrightarrow>
      \<exists>s'. release s p = Some s' \<and> inv s' \<and> blocks s' = blocks s - {(unat p, k)} \<and>
        (\<forall>(q, j)\<in>blocks s'. \<forall>x. q \<le> unat x \<longrightarrow> unat x < q + j \<longrightarrow> cell s' x = cell s x)"
    and blocks_disjoint: "inv s \<Longrightarrow> (a, k) \<in> blocks s \<Longrightarrow> (q, j) \<in> blocks s \<Longrightarrow> (a, k) \<noteq> (q, j) \<Longrightarrow>
      a + k \<le> q \<or> q + j \<le> a"
begin

text \<open>A sequence of allocations and releases that leaves one block alone.\<close>

inductive run :: "nat \<times> nat \<Rightarrow> 's \<Rightarrow> 's \<Rightarrow> bool" for b where
  start: "run b s s"
| step_alloc: "run b s s1 \<Longrightarrow> can s1 n \<Longrightarrow> alloc s1 n = Some (p, s2) \<Longrightarrow> run b s s2"
| step_release: "run b s s1 \<Longrightarrow> (unat p, k) \<in> blocks s1 \<Longrightarrow> (unat p, k) \<noteq> b \<Longrightarrow> release s1 p = Some s2 \<Longrightarrow> run b s s2"

lemma run_keeps:
  assumes "run (q, j) s s'" "inv s" "(q, j) \<in> blocks s"
  shows "inv s' \<and> (q, j) \<in> blocks s' \<and> (\<forall>x. q \<le> unat x \<longrightarrow> unat x < q + j \<longrightarrow> cell s' x = cell s x)"
  using assms
proof (induction rule: run.induct)
  case (step_alloc s s1 n p s2)
  then have h: "inv s1" "(q, j) \<in> blocks s1" "\<forall>x. q \<le> unat x \<longrightarrow> unat x < q + j \<longrightarrow> cell s1 x = cell s x" by auto
  from alloc_law [OF h(1) step_alloc.hyps(2)] step_alloc.hyps(3) h(2,3) show ?case by fastforce
next
  case (step_release s s1 p k s2)
  then have h: "inv s1" "(q, j) \<in> blocks s1" "\<forall>x. q \<le> unat x \<longrightarrow> unat x < q + j \<longrightarrow> cell s1 x = cell s x" by auto
  from release_law [OF h(1) step_release.hyps(2)] step_release.hyps(3,4) h(2,3) show ?case by fastforce
qed simp

lemma alloc_disjoint:
  assumes "inv s" "can s n" "alloc s n = Some (p, s')" "(q, j) \<in> blocks s"
  shows "unat p + unat n \<le> q \<or> q + j \<le> unat p"
proof -
  from alloc_law [OF assms(1,2)] assms(3) obtain k where k: "inv s'" "unat n \<le> k" "(unat p, k) \<notin> blocks s"
    "blocks s' = insert (unat p, k) (blocks s)" by auto
  with blocks_disjoint [OF k(1), of "unat p" k q j] assms(4) show ?thesis by fastforce
qed

end

definition kheap_blocks :: "u64 \<Rightarrow> kheap \<Rightarrow> (nat \<times> nat) set" where
  "kheap_blocks root h = \<Union> {heap_live bs |bs. heap_inv root h bs}"

lemma kheap_blocks_eq: "heap_inv root h bs \<Longrightarrow> kheap_blocks root h = heap_live bs"
  unfolding kheap_blocks_def using heap_inv_unique [of root h] by (auto 4 4)

interpretation kheap: block_allocator "\<lambda>h. \<exists>bs. heap_inv root h bs" "kheap_blocks root" hmem
  "\<lambda>h sz. \<exists>bs. heap_inv root h bs \<and> servable h bs sz" "\<lambda>h sz. kmalloc h root sz" kfree
  for root
proof (unfold_locales, goal_cases)
  case (1 h sz)
  then obtain bs where i: "heap_inv root h bs" "servable h bs sz" by blast
  from kmalloc_spec [OF i] obtain p h' bs' k where
    r: "kmalloc h root sz = Some (p, h')" "p \<noteq> 0" "heap_inv root h' bs'" "unat sz \<le> k"
      "(unat p, k) \<notin> heap_live bs" "heap_live bs' = insert (unat p, k) (heap_live bs)"
      "same_data (heap_live bs) h h'" by blast
  then show ?case
    unfolding kheap_blocks_eq [OF i(1)] same_data_def
    by (intro exI [of _ p] exI [of _ h'] exI [of _ k]) (auto simp: kheap_blocks_eq [OF r(3)])
next
  case (2 h p k)
  then obtain bs where i: "heap_inv root h bs" by blast
  with 2(2) have "(unat p, k) \<in> heap_live bs" by (simp add: kheap_blocks_eq)
  then obtain pre post where bs: "bs = pre @ (k, False) # post"
    and p: "unat p = unat KERNEL_HEAP_VIRTUAL_BASE + blen pre + 32" by (rule live_split)
  from kfree_spec [OF i [unfolded bs] p] obtain h' where
    h': "kfree h p = Some h'" "heap_inv root h' (coalesce (pre @ (k, True) # post))"
      "same_data (heap_live bs - {(unat p, k)}) h h'" unfolding bs by blast
  have "heap_live (coalesce (pre @ (k, True) # post)) = heap_live bs - {(unat p, k)}"
    unfolding bs p live_coalesce by (rule live_release)
  with h' show ?case
    unfolding kheap_blocks_eq [OF i] same_data_def by (auto simp: kheap_blocks_eq [OF h'(2)])
next
  case (3 h a k q j)
  from 3(1) obtain bs where "heap_inv root h bs" by blast
  note eq = kheap_blocks_eq [OF this]
  show ?case using live_disjoint [OF 3(2,3) [unfolded eq] 3(4)] .
qed

text \<open>
  A free block of at least \<open>k\<close> bytes. An allocation that fits leaves a free block of what
  remains, and a release never takes one away.
\<close>

definition room :: "nat \<Rightarrow> (nat \<times> bool) list \<Rightarrow> bool" where
  "room k bs \<longleftrightarrow> (\<exists>s. (s, True) \<in> set bs \<and> k \<le> s)"

lemma room_mono: "room k bs \<Longrightarrow> j \<le> k \<Longrightarrow> room j bs"
  unfolding room_def using le_trans by blast

lemma room_Cons: "room k ((s, f) # bs) \<longleftrightarrow> f \<and> k \<le> s \<or> room k bs"
  by (auto simp: room_def)

lemma room_coalesce: "room k bs \<Longrightarrow> room k (coalesce bs)"
proof (induction bs rule: coalesce.induct)
  case (3 s f t g bs)
  then show ?case
    by (cases "f \<and> g") (auto simp: room_Cons)
qed simp_all

lemma room_release: "room k (pre @ (j, False) # post) \<Longrightarrow> room k (coalesce (pre @ (j, True) # post))"
  by (rule room_coalesce) (auto simp: room_def)

lemma room_taken:
  assumes "room k (pre @ (s, True) # post)" "is_best r pre s post" "r + 48 \<le> k"
  shows "room (k - r - 32) (pre @ taken r s @ post)"
proof -
  from assms(1) obtain t where t: "(t, True) \<in> set (pre @ (s, True) # post)" "k \<le> t" by (auto simp: room_def)
  show ?thesis
  proof (cases "(t, True) \<in> set pre \<union> set post")
    case True
    with t(2) show ?thesis unfolding room_def by (intro exI [of _ t]) auto
  next
    case False
    with t have "k \<le> s" by auto
    with assms(3) show ?thesis unfolding room_def taken_def by (intro exI [of _ "s - r - 32"]) auto
  qed
qed

lemma kmalloc_room:
  assumes inv: "heap_inv root h bs" and sz: "0 < unat sz" "unat sz + 5000 < 2 ^ 64"
    and k: "room k bs" "round16 (unat sz) + 48 \<le> k"
  shows "\<exists>p h' bs' j. kmalloc h root sz = Some (p, h') \<and> p \<noteq> 0 \<and> heap_inv root h' bs' \<and>
     room (k - round16 (unat sz) - 32) bs' \<and> unat sz \<le> j \<and> (unat p, j) \<notin> heap_live bs \<and>
     heap_live bs' = insert (unat p, j) (heap_live bs) \<and> same_data (heap_live bs) h h'"
proof -
  from k have ex: "\<exists>s. (s, True) \<in> set bs \<and> round16 (unat sz) \<le> s" unfolding room_def by fastforce
  have sz2: "unat sz + 15 < 2 ^ 64" using sz(2) by simp
  from kmalloc_fit [OF inv sz(1) sz2 ex] obtain pre s post h' where
    f: "bs = pre @ (s, True) # post" "is_best (round16 (unat sz)) pre s post"
      "kmalloc h root sz = Some (KERNEL_HEAP_VIRTUAL_BASE + of_nat (blen pre) + 32, h')"
      "heap_inv root h' (pre @ taken (round16 (unat sz)) s @ post)" by blast
  have "servable h bs sz" using sz ex by (simp add: servable_def)
  from kmalloc_spec [OF inv this] obtain p h'' bs' j where
    g: "kmalloc h root sz = Some (p, h'')" "p \<noteq> 0" "heap_inv root h'' bs'" "unat sz \<le> j" "(unat p, j) \<notin> heap_live bs"
      "heap_live bs' = insert (unat p, j) (heap_live bs)" "same_data (heap_live bs) h h''" by blast
  from f(3) g(1) have "h'' = h'" by simp
  with heap_inv_unique [OF g(3)] f(4) have "bs' = pre @ taken (round16 (unat sz)) s @ post" by simp
  with room_taken [OF k(1) [unfolded f(1)] f(2) k(2)] g show ?thesis by blast
qed

lemma kmalloc_kfree_undo:
  assumes inv: "heap_inv root h bs" and sz: "0 < unat sz" "unat sz + 15 < 2 ^ 64"
    and fit: "\<exists>s. (s, True) \<in> set bs \<and> round16 (unat sz) \<le> s"
  shows "\<exists>p h1 h2. kmalloc h root sz = Some (p, h1) \<and> kfree h1 p = Some h2 \<and> heap_inv root h2 bs \<and>
     same_data (heap_live bs) h h2"
proof -
  let ?r = "round16 (unat sz)"
  from kmalloc_fit [OF assms] obtain pre s post h1 where
    bs: "bs = pre @ (s, True) # post" and best: "is_best ?r pre s post" and
    r: "kmalloc h root sz = Some (KERNEL_HEAP_VIRTUAL_BASE + of_nat (blen pre) + 32, h1)" and
    h1: "heap_inv root h1 (pre @ taken ?r s @ post)" "same_data (heap_live bs) h h1" by blast
  let ?b = "unat KERNEL_HEAP_VIRTUAL_BASE + blen pre"
  define p where "p = KERNEL_HEAP_VIRTUAL_BASE + of_nat (blen pre) + (32 :: u64)"
  define k where "k = (if ?r + 48 \<le> s then ?r else s)"
  define rest where "rest = (if ?r + 48 \<le> s then (s - ?r - 32, True) # post else post)"
  note sg = seg_split(5) [OF heap_invD(1) [OF inv, unfolded bs]]
  have "unat (KERNEL_HEAP_VIRTUAL_BASE + of_nat (blen pre) :: u64) = ?b"
    using cell_addr(1) [of ?b] sg by simp
  then have p: "unat p = ?b + 32" unfolding p_def using sg by (subst unat_add_nowrap) simp_all
  have tk: "pre @ taken ?r s @ post = pre @ (k, False) # rest"
    by (simp add: taken_def k_def rest_def)
  from kfree_spec [OF h1(1) [unfolded tk] p] obtain h2 where
    h2: "kfree h1 p = Some h2" "heap_inv root h2 (coalesce (pre @ (k, True) # rest))"
      "same_data (heap_live (pre @ (k, False) # rest) - {(unat p, k)}) h1 h2" by blast
  have "?r \<le> s" using best by (simp add: is_best_def)
  from coalesce_taken [OF heap_invD(3) [OF inv, unfolded bs] this]
  have c: "coalesce (pre @ (k, True) # rest) = bs" unfolding k_def rest_def bs by (simp split: if_splits)
  have "heap_live (pre @ (k, False) # rest) - {(unat p, k)} = heap_live bs"
    unfolding c [symmetric] live_coalesce p by (rule live_release [symmetric])
  then have "same_data (heap_live bs) h1 h2" using h2(3) by simp
  from same_data_trans [OF h1(2) this] show ?thesis
    using r h2(1,2) c unfolding p_def [symmetric]
    by (intro exI [of _ p] exI [of _ h1] exI [of _ h2]) simp
qed

section \<open>The view of a client\<close>

text \<open>A client sees the addresses of its live blocks, and that a free block of at least \<open>k\<close> bytes is left.\<close>

definition heap_ptrs :: "u64 \<Rightarrow> kheap \<Rightarrow> u64 set" where
  "heap_ptrs root h = {p. \<exists>j. (unat p, j) \<in> kheap_blocks root h}"

definition heap_room :: "u64 \<Rightarrow> kheap \<Rightarrow> nat \<Rightarrow> bool" where
  "heap_room root h k \<longleftrightarrow> (\<exists>bs. heap_inv root h bs \<and> room k bs)"

lemma heap_room_mono: "heap_room root h k \<Longrightarrow> j \<le> k \<Longrightarrow> heap_room root h j"
  unfolding heap_room_def using room_mono by blast

lemma heap_ptrs_live: "heap_inv root h bs \<Longrightarrow> heap_ptrs root h = {p. \<exists>j. (unat p, j) \<in> heap_live bs}"
  by (simp add: heap_ptrs_def kheap_blocks_eq)

lemma fresh_ptr:
  assumes "heap_live bs' = insert (unat p, j) (heap_live bs)" "(unat p, j) \<notin> heap_live bs"
  shows "(unat p, i) \<notin> heap_live bs"
proof
  assume i: "(unat p, i) \<in> heap_live bs"
  with assms(1) have "(unat p, i) \<in> heap_live bs'" "(unat p, j) \<in> heap_live bs'" by auto
  then have "i = j" by (rule live_functional)
  with i assms(2) show False by simp
qed

lemma kmalloc_ptr:
  assumes "heap_room root h k" "0 < unat sz" "unat sz + 5000 < 2 ^ 64" "round16 (unat sz) + 48 \<le> k"
  shows "\<exists>p h'. kmalloc h root sz = Some (p, h') \<and> p \<noteq> 0 \<and> p \<notin> heap_ptrs root h \<and>
    heap_room root h' (k - round16 (unat sz) - 32) \<and> heap_ptrs root h' = insert p (heap_ptrs root h)"
proof -
  from assms(1) obtain bs where i: "heap_inv root h bs" "room k bs" by (auto simp: heap_room_def)
  from kmalloc_room [OF i(1) assms(2,3) i(2) assms(4)] obtain p h' bs' j where
    r: "kmalloc h root sz = Some (p, h')" "p \<noteq> 0" "heap_inv root h' bs'" "room (k - round16 (unat sz) - 32) bs'"
      "(unat p, j) \<notin> heap_live bs" "heap_live bs' = insert (unat p, j) (heap_live bs)" by auto
  have "p \<notin> heap_ptrs root h" unfolding heap_ptrs_live [OF i(1)] using fresh_ptr [OF r(6,5)] by simp
  moreover have "heap_ptrs root h' = insert p (heap_ptrs root h)"
    unfolding heap_ptrs_live [OF i(1)] heap_ptrs_live [OF r(3)] r(6) by (auto simp: word_unat_eq_iff)
  ultimately show ?thesis using r by (auto simp: heap_room_def)
qed

lemma kfree_ptr:
  assumes "heap_room root h k" "p \<in> heap_ptrs root h"
  shows "\<exists>h'. kfree h p = Some h' \<and> heap_room root h' k \<and> heap_ptrs root h' = heap_ptrs root h - {p}"
proof -
  from assms(1) obtain bs where i: "heap_inv root h bs" "room k bs" by (auto simp: heap_room_def)
  with assms(2) obtain j where j: "(unat p, j) \<in> heap_live bs" by (auto simp: heap_ptrs_live [OF i(1)])
  then obtain pre post where bs: "bs = pre @ (j, False) # post"
    and p: "unat p = unat KERNEL_HEAP_VIRTUAL_BASE + blen pre + 32" by (rule live_split)
  from kfree_spec [OF i(1) [unfolded bs] p] obtain h' where
    h: "kfree h p = Some h'" "heap_inv root h' (coalesce (pre @ (j, True) # post))" by blast
  have live: "heap_live (coalesce (pre @ (j, True) # post)) = heap_live bs - {(unat p, j)}"
    unfolding bs p live_coalesce by (rule live_release)
  have "heap_ptrs root h' = heap_ptrs root h - {p}"
    unfolding heap_ptrs_live [OF i(1)] heap_ptrs_live [OF h(2)] live using live_functional [OF j] by (auto simp: word_unat_eq_iff)
  moreover have "heap_room root h' k" using h(2) room_release [OF i(2) [unfolded bs]] by (auto simp: heap_room_def)
  ultimately show ?thesis using h(1) by blast
qed

section \<open>Properties\<close>

text \<open>C4: \<^verbatim>\<open>kmalloc\<close> is best fit. If some free block is large enough for the request rounded up to 16
  bytes, the traversal ends, the block taken is the first among the smallest fitting ones, the
  result is its payload address, and the new block list is the old one with this block marked
  occupied and, when at least 48 bytes are left over, split.\<close>

theorem kmalloc_best_fit:
  assumes "heap_inv root h bs" "0 < unat sz" "unat sz + 15 < 2 ^ 64"
    "\<exists>s. (s, True) \<in> set bs \<and> round16 (unat sz) \<le> s"
  shows "\<exists>pre s post h'. bs = pre @ (s, True) # post \<and> is_best (round16 (unat sz)) pre s post \<and>
     kmalloc h root sz = Some (KERNEL_HEAP_VIRTUAL_BASE + of_nat (blen pre) + HEADER_SIZE, h') \<and>
     heap_inv root h' (pre @ taken (round16 (unat sz)) s @ post)"
  using kmalloc_fit [OF assms] by blast

text \<open>C5: \<^verbatim>\<open>kmalloc\<close> hands out fresh memory. From a well-formed heap that can serve the request (from
  a free block or by growing with pages of the memory managers) \<^verbatim>\<open>kmalloc\<close> terminates and returns a
  non-null 16 byte aligned address of a block of at least the requested size that lies apart from
  every live block; the heap stays well formed, so all its pages are mapped, and the contents of
  the live blocks are unchanged.\<close>

theorem kmalloc_fresh_block:
  assumes "heap_inv root h bs" "servable h bs sz"
  shows "\<exists>p h' bs' k. kmalloc h root sz = Some (p, h') \<and> p \<noteq> 0 \<and> unat p mod 16 = 0 \<and> unat sz \<le> k \<and>
     heap_inv root h' bs' \<and> heap_live bs' = insert (unat p, k) (heap_live bs) \<and>
     (\<forall>(q, j)\<in>heap_live bs. unat p + unat sz \<le> q \<or> q + j \<le> unat p) \<and>
     (\<forall>(q, j)\<in>heap_live bs. \<forall>x. q \<le> unat x \<longrightarrow> unat x < q + j \<longrightarrow> hmem h' x = hmem h x)"
proof -
  from kmalloc_spec [OF assms] obtain p h' bs' k where
    r: "kmalloc h root sz = Some (p, h')" "p \<noteq> 0" "heap_inv root h' bs'" "unat p mod 16 = 0" "unat sz \<le> k"
      "heap_live bs' = insert (unat p, k) (heap_live bs)" "same_data (heap_live bs) h h'"
    by (elim exE conjE)
  have "unat p + unat sz \<le> q \<or> q + j \<le> unat p" if "(q, j) \<in> heap_live bs" for q j
    by (rule kheap.alloc_disjoint [OF _ _ r(1)]) (use assms that kheap_blocks_eq in blast)+
  then have "\<forall>(q, j)\<in>heap_live bs. unat p + unat sz \<le> q \<or> q + j \<le> unat p" by blast
  with r show ?thesis unfolding same_data_def
    by (intro exI [of _ p] exI [of _ h'] exI [of _ bs'] exI [of _ k]) simp
qed

text \<open>C6: Data in a live block survives. Along any sequence of servable allocations and of releases
  of other live blocks, a live block stays live and every cell of it keeps its value.\<close>

theorem kheap_run_preserves:
  assumes "kheap.run root (q, j) h h'" "heap_inv root h bs" "(q, j) \<in> heap_live bs"
  shows "\<exists>bs'. heap_inv root h' bs' \<and> (q, j) \<in> heap_live bs' \<and>
     (\<forall>x. q \<le> unat x \<longrightarrow> unat x < q + j \<longrightarrow> hmem h' x = hmem h x)"
  using kheap.run_keeps [OF assms(1)] assms(2,3) kheap_blocks_eq by metis

text \<open>Releasing a fresh block undoes the allocation. After an allocation served from a free
  block, \<^verbatim>\<open>kfree\<close> of the result terminates and gives back exactly the original block list, with
  the contents of all live blocks unchanged.\<close>

theorem kmalloc_kfree_roundtrip:
  assumes inv: "heap_inv root h bs" and sz: "0 < unat sz" "unat sz + 15 < 2 ^ 64"
    and fit: "\<exists>s. (s, True) \<in> set bs \<and> round16 (unat sz) \<le> s"
  shows "\<exists>p h1 h2. kmalloc h root sz = Some (p, h1) \<and> kfree h1 p = Some h2 \<and> heap_inv root h2 bs \<and>
     same_data (heap_live bs) h h2"
  by (rule kmalloc_kfree_undo [OF assms])

text \<open>A request close to the largest size is served with almost nothing. For the fifteen largest
  values of the argument the rounding of \<^verbatim>\<open>kmalloc\<close> wraps around to 0, so with any free block it
  returns a non-null pointer to a block of less than 48 bytes.\<close>

theorem kmalloc_size_overflow:
  assumes inv: "heap_inv root h bs" and sz: "2 ^ 64 - 15 \<le> unat sz" and free: "\<exists>s. (s, True) \<in> set bs"
  shows "\<exists>p h' bs' k. kmalloc h root sz = Some (p, h') \<and> p \<noteq> 0 \<and> heap_inv root h' bs' \<and>
     heap_live bs' = insert (unat p, k) (heap_live bs) \<and> k < 48"
proof -
  let ?A = "unat KERNEL_HEAP_VIRTUAL_BASE"
  have "unat (sz + 15) = (unat sz + 15) mod 2 ^ 64" by (simp add: unat_word_ariths)
  also have "\<dots> = (unat sz + 15 - 2 ^ 64) mod 2 ^ 64" using sz by (intro le_mod_geq) simp
  also have "\<dots> = unat sz + 15 - 2 ^ 64" using unat_lt64 [of sz] by (intro mod_less) (simp add: less_imp_diff_less)
  also have "\<dots> < 2 ^ 4" using sz by (simp add: less_diff_conv2 less_trans [OF unat_lt64])
  finally have lt: "unat (sz + 15) < 2 ^ 4" .
  then have "take_bit 4 (sz + 15) = sz + 15"
    by (simp add: word_unat_eq_iff take_bit_eq_mod unat_mod)
  then have "sz + 15 = (sz + 15) AND 15" by (simp add: take_bit_eq_mask mask_eq_exp_minus_1)
  then have z: "(sz + 15) AND NOT 15 = 0" by (metis and.assoc and.right_neutral and_zero_eq bit.conj_cancel_right)
  have "sz \<noteq> 0" using sz by auto
  then have k: "kmalloc h root sz = kmalloc_search h root 0" by (simp only: kmalloc_def z if_False)
  from free have "\<exists>s. (s, True) \<in> set bs \<and> unat (0 :: u64) \<le> s" by auto
  from kmalloc_search_hit [OF inv _ this] obtain pre s post h' where
    bs: "bs = pre @ (s, True) # post"
    and r: "kmalloc_search h root 0 = Some (KERNEL_HEAP_VIRTUAL_BASE + of_nat (blen pre) + 32, h')"
    and h': "heap_inv root h' (pre @ taken 0 s @ post)" by auto
  note sg = seg_split(5) [OF heap_invD(1) [OF inv, unfolded bs]]
  define p where "p = KERNEL_HEAP_VIRTUAL_BASE + of_nat (blen pre) + (32 :: u64)"
  have "unat (KERNEL_HEAP_VIRTUAL_BASE + of_nat (blen pre) :: u64) = ?A + blen pre"
    using cell_addr(1) [of "?A + blen pre"] sg by simp
  then have p: "unat p = ?A + blen pre + 32" unfolding p_def using sg by (subst unat_add_nowrap) simp_all
  have "heap_live (pre @ taken 0 s @ post) = insert (unat p, if 48 \<le> s then 0 else s) (heap_live bs)"
    unfolding live_taken bs p by simp
  moreover have "(if 48 \<le> s then 0 else s) < 48" by simp
  moreover have "p \<noteq> 0" using p by auto
  ultimately show ?thesis using k r h' unfolding p_def [symmetric]
    by (intro exI [of _ p] exI [of _ h'] exI [of _ "pre @ taken 0 s @ post"]
        exI [of _ "if 48 \<le> s then 0 else s"]) simp
qed

lemma map_fresh_heap_pages:
  "heap_map_pages n v root virt = Some (True, v') \<Longrightarrow> map_fresh_pages n v root virt = Some v'"
  by (induction n arbitrary: v virt) (auto split: if_splits bind_splits)


section \<open>A small heap\<close>

text \<open>One page with an occupied block of 64 bytes, which holds the value 7, and a free block.\<close>

definition heap_demo :: kheap where
  "heap_demo = \<lparr>
     g_heap_start = KERNEL_HEAP_VIRTUAL_BASE, g_heap_current_end = KERNEL_HEAP_VIRTUAL_BASE + 0x1000,
     hmem = (\<lambda>_. 0)(KERNEL_HEAP_VIRTUAL_BASE := 64, KERNEL_HEAP_VIRTUAL_BASE + 16 := KERNEL_HEAP_VIRTUAL_BASE + 96,
       KERNEL_HEAP_VIRTUAL_BASE + 32 := 7,
       KERNEL_HEAP_VIRTUAL_BASE + 96 := 3968, KERNEL_HEAP_VIRTUAL_BASE + 104 := 1),
     hvm = the (vmm_map_page vmm_demo 1 KERNEL_HEAP_VIRTUAL_BASE 0x5000 2)\<rparr>"

lemma heap_demo_inv: "heap_inv 1 heap_demo [(64, False), (3968, True)]"
proof -
  let ?A = "KERNEL_HEAP_VIRTUAL_BASE"
  have "unat (5 :: u64) < 2 ^ 40" "push_bit 12 5 = (0x5000 :: u64)" by simp_all
  from vmm_map_page_spec [OF demo_ok(1-3) this(1) demo_ok(4), where virt = ?A and flags = 2, unfolded this(2)]
  obtain v where v: "vmm_map_page vmm_demo 1 ?A 0x5000 2 = Some v" "mem_ok v" "tree_wf v 1"
    "walk (pmem v) 1 (va_path ?A) = Some 5" by blast
  then have hv: "hvm heap_demo = v" by (simp add: heap_demo_def)
  have "mapped v 1 va" if "?A \<le> va" "va < ?A + 0x1000" for va
  proof -
    define j where "j = unat va - unat ?A"
    have j: "unat va = unat ?A + 0 * 4096 + j" "j < 4096"
      using that by (simp_all add: j_def word_le_nat_alt word_less_nat_alt)
    have "unat ?A mod 4096 = 0" "unat ?A + 0 * 4096 + j < 2 ^ 64" using j by simp_all
    note d = device_va [OF this j(2)]
    have "va = ?A + of_nat (0 * 4096 + j)" using d(1) j(1) by (simp add: word_unat_eq_iff)
    then have "va_path va = va_path ?A" using d(2) by simp
    with v(4) show ?thesis by (simp add: mapped_def)
  qed
  with v(2,3) show ?thesis
    unfolding heap_inv_def hv by (simp add: heap_demo_def header_defs)
qed

lemma heap_demo_fits: "\<exists>s. (s, True) \<in> set [(64, False), (3968, True)] \<and> round16 (unat (100 :: u64)) \<le> s"
  by (simp add: round16_def)

theorem kmalloc_best_fit_witness:
  "\<exists>pre s post h'. [(64, False), (3968, True)] = pre @ (s, True) # post \<and>
     kmalloc heap_demo 1 100 = Some (KERNEL_HEAP_VIRTUAL_BASE + of_nat (blen pre) + HEADER_SIZE, h') \<and>
     heap_inv 1 h' (pre @ taken 112 s @ post)"
proof -
  have "0 < unat (100 :: u64)" "unat (100 :: u64) + 15 < 2 ^ 64" "round16 (unat (100 :: u64)) = 112"
    by (simp_all add: round16_def)
  from kmalloc_best_fit [OF heap_demo_inv this(1,2) heap_demo_fits, unfolded this(3)] show ?thesis by blast
qed

lemma heap_demo_servable: "servable heap_demo [(64, False), (3968, True)] 100"
  unfolding servable_def using heap_demo_fits by simp

theorem kmalloc_fresh_block_witness:
  "\<exists>p h'. kmalloc heap_demo 1 100 = Some (p, h') \<and> p \<noteq> 0 \<and>
     hmem h' (KERNEL_HEAP_VIRTUAL_BASE + 32) = 7"
proof -
  from kmalloc_fresh_block [OF heap_demo_inv heap_demo_servable] obtain p h' where
    r: "kmalloc heap_demo 1 100 = Some (p, h')" "p \<noteq> 0" and
    k: "\<forall>(q, j)\<in>heap_live [(64, False), (3968, True)].
       \<forall>x. q \<le> unat x \<longrightarrow> unat x < q + j \<longrightarrow> hmem h' x = hmem heap_demo x"
    by (elim exE conjE)
  from k have "hmem h' (KERNEL_HEAP_VIRTUAL_BASE + 32) = hmem heap_demo (KERNEL_HEAP_VIRTUAL_BASE + 32)"
    by simp
  also have "\<dots> = 7" by (simp add: heap_demo_def)
  finally show ?thesis using r by blast
qed

theorem kheap_run_preserves_witness:
  "\<exists>p h'. kmalloc heap_demo 1 100 = Some (p, h') \<and>
     kheap.run 1 (unat KERNEL_HEAP_VIRTUAL_BASE + 32, 64) heap_demo h' \<and>
     hmem h' (KERNEL_HEAP_VIRTUAL_BASE + 32) = 7"
proof -
  let ?b = "(unat KERNEL_HEAP_VIRTUAL_BASE + 32, 64)"
  from kmalloc_spec [OF heap_demo_inv heap_demo_servable] obtain p h' where
    r: "kmalloc heap_demo 1 100 = Some (p, h')" by blast
  have run: "kheap.run 1 ?b heap_demo h'"
    by (rule kheap.run.step_alloc [OF kheap.run.start _ r]) (use heap_demo_inv heap_demo_servable in blast)
  have "?b \<in> heap_live [(64, False), (3968, True)]" by simp
  from kheap_run_preserves [OF run heap_demo_inv this]
  have "hmem h' (KERNEL_HEAP_VIRTUAL_BASE + 32) = hmem heap_demo (KERNEL_HEAP_VIRTUAL_BASE + 32)" by fastforce
  also have "\<dots> = 7" by (simp add: heap_demo_def)
  finally show ?thesis using r run by blast
qed

theorem kmalloc_kfree_roundtrip_witness:
  "\<exists>p h1 h2. kmalloc heap_demo 1 100 = Some (p, h1) \<and> kfree h1 p = Some h2 \<and>
     heap_inv 1 h2 [(64, False), (3968, True)]"
proof -
  have "0 < unat (100 :: u64)" "unat (100 :: u64) + 15 < 2 ^ 64" by simp_all
  from kmalloc_kfree_roundtrip [OF heap_demo_inv this heap_demo_fits] show ?thesis by blast
qed

theorem kmalloc_size_overflow_witness:
  "\<exists>p h' bs' k. kmalloc heap_demo 1 0xFFFFFFFFFFFFFFFF = Some (p, h') \<and> p \<noteq> 0 \<and> heap_inv 1 h' bs' \<and>
     (unat p, k) \<in> heap_live bs' \<and> k < 48"
proof -
  have "2 ^ 64 - 15 \<le> unat (0xFFFFFFFFFFFFFFFF :: u64)" "\<exists>s. (s, True) \<in> set [(64, False), (3968, True)]" by auto
  from kmalloc_size_overflow [OF heap_demo_inv this] show ?thesis by blast
qed


end
