(* ===== verification/Process.thy ===== *)
theory Process
  imports Flush Heap
begin

text \<open>
  Processes and threads: \<^verbatim>\<open>src/include/kernel/kernel/sched/thread.h\<close>, \<^verbatim>\<open>process.h\<close>, \<^verbatim>\<open>cpu.h\<close>, and the process
  registry and file release of \<^verbatim>\<open>src/kernel/kernel/sched/process.c\<close>.

  The objects of each C type live in a store of their own, indexed by address; address 0 is the
  null pointer. Every function that uses \<open>get_current_cpu\<close> takes the address of the data block of
  the core that executes it. Locks, messages and the FPU save area are not modelled; a
  pointer traversal is a partial function, because a cyclic list would never end.
\<close>

section \<open>Data\<close>

datatype thread_state =
  THREAD_READY | THREAD_RUNNING | THREAD_BLOCKED | THREAD_WAITING | THREAD_DEAD

record thread =
  tid :: u32
  context_frame :: u64
  context_frame_top :: u64
  th_kernel_stack_top :: u64
  th_state :: thread_state
  th_cpu_id :: u32
  chan :: u64
  th_exit_code :: int
  owner :: u64
  th_next :: u64

datatype process_state =
  PROCESS_EMBRYO | PROCESS_READY | PROCESS_RUNNING | PROCESS_ZOMBIE | PROCESS_DEAD

record process =
  pid :: u32
  ppid :: u32
  p_state :: process_state
  uid :: u32
  gid :: u32
  cr3 :: u64
  code_base :: u64
  heap_start :: u64
  heap_end :: u64
  stack_limit :: u64
  stack_top :: u64
  parent :: u64
  main_thread :: u64
  file_descriptor_table :: "u64 list"
  p_exit_code :: int
  shm_virtual_addresses :: "u64 list"
  shm_ids :: "int list"
  pending_signals :: u32
  signal_handlers :: "u64 list"
  p_next :: u64
  pwd :: string

record vfs_file =
  f_node :: u64
  f_offset :: u64
  f_flags :: u32
  fd_flags :: u32
  ref_count :: u32

record cpu_data_block =
  c_kernel_stack_top :: u64
  tss_rsp0 :: u64
  c_cpu_id :: u32
  current_thread :: u64
  ready_queue_head :: u64
  ready_queue_tail :: u64
  dead_queue_head :: u64
  dead_queue_tail :: u64
  idle_thread :: u64
  fpu_owner_thread :: u64

text \<open>The register frame on a kernel stack, \<^verbatim>\<open>registers_t\<close> of \<^verbatim>\<open>reg.h\<close>.\<close>

record registers =
  r15 :: u64
  r14 :: u64
  r13 :: u64
  r12 :: u64
  r11 :: u64
  r10 :: u64
  r9 :: u64
  r8 :: u64
  rbx :: u64
  rax :: u64
  rcx :: u64
  rdx :: u64
  rsi :: u64
  rdi :: u64
  rbp :: u64
  int_no :: u64
  error_code :: u64
  rip :: u64
  reg_cs :: u64
  rflags :: u64
  rsp :: u64
  reg_ss :: u64

text \<open>
  The registers a context switch writes on a core, and the calls into the file system, are part
  of the state: \<open>core_cr3\<close>, \<open>core_ts\<close> (the task-switched flag), and \<open>vfs_closed\<close>, the nodes
  passed to \<open>vfs_close\<close>, latest first.
\<close>

record kernel =
  threads :: "u64 \<Rightarrow> thread"
  procs :: "u64 \<Rightarrow> process"
  files :: "u64 \<Rightarrow> vfs_file"
  cpus :: "u64 \<Rightarrow> cpu_data_block"
  stack_frames :: "u64 \<Rightarrow> registers"
  cpu_blocks :: "nat \<Rightarrow> u64"
  g_process_list_head :: u64
  g_next_pid :: u32
  g_next_tid :: u32
  heap :: kheap
  core_cr3 :: "u64 \<Rightarrow> u64"
  core_ts :: "u64 \<Rightarrow> bool"
  vfs_closed :: "u64 list"

abbreviation MAX_CPUS :: u32 where "MAX_CPUS \<equiv> 256"
abbreviation MAX_FILES_PER_PROCESS :: nat where "MAX_FILES_PER_PROCESS \<equiv> 32"

definition upd_thread :: "u64 \<Rightarrow> (thread \<Rightarrow> thread) \<Rightarrow> kernel \<Rightarrow> kernel" where
  "upd_thread t f s = s\<lparr>threads := (threads s)(t := f (threads s t))\<rparr>"

definition upd_proc :: "u64 \<Rightarrow> (process \<Rightarrow> process) \<Rightarrow> kernel \<Rightarrow> kernel" where
  "upd_proc p f s = s\<lparr>procs := (procs s)(p := f (procs s p))\<rparr>"

definition upd_cpu :: "u64 \<Rightarrow> (cpu_data_block \<Rightarrow> cpu_data_block) \<Rightarrow> kernel \<Rightarrow> kernel" where
  "upd_cpu c f s = s\<lparr>cpus := (cpus s)(c := f (cpus s c))\<rparr>"

definition upd_file :: "u64 \<Rightarrow> (vfs_file \<Rightarrow> vfs_file) \<Rightarrow> kernel \<Rightarrow> kernel" where
  "upd_file x f s = s\<lparr>files := (files s)(x := f (files s x))\<rparr>"

lemmas upd_defs = upd_thread_def upd_proc_def upd_cpu_def upd_file_def

definition get_cpu_data_block :: "kernel \<Rightarrow> u32 \<Rightarrow> u64" where
  "get_cpu_data_block s cpu_id = (if cpu_id \<ge> MAX_CPUS then 0 else cpu_blocks s (unat cpu_id))"

definition get_current_process :: "kernel \<Rightarrow> u64 \<Rightarrow> u64" where
  "get_current_process s cpu =
     (if cpu = 0 \<or> current_thread (cpus s cpu) = 0 then 0
      else owner (threads s (current_thread (cpus s cpu))))"

section \<open>The process registry\<close>

definition process_list_insert :: "u64 \<Rightarrow> kernel \<Rightarrow> kernel" where
  "process_list_insert p s =
     (if p = 0 then s
      else let s1 = upd_proc p (p_next_update (\<lambda>_. g_process_list_head s)) s in
        s1\<lparr>g_process_list_head := p\<rparr>)"

partial_function (option) process_before :: "(u64 \<Rightarrow> process) \<Rightarrow> u64 \<Rightarrow> u64 \<Rightarrow> u64 option" where
  "process_before ps p current =
     (if p_next (ps current) \<noteq> 0 \<and> p_next (ps current) \<noteq> p
      then process_before ps p (p_next (ps current)) else Some current)"

definition process_list_remove :: "u64 \<Rightarrow> kernel \<Rightarrow> kernel option" where
  "process_list_remove p s =
     (if p = 0 \<or> g_process_list_head s = 0 then Some s
      else if g_process_list_head s = p then
        Some (s\<lparr>g_process_list_head := p_next (procs s (g_process_list_head s))\<rparr>)
      else do {
        current \<leftarrow> process_before (procs s) p (g_process_list_head s);
        Some (if p_next (procs s current) = p
              then upd_proc current (p_next_update (\<lambda>_. p_next (procs s p))) s else s)
      })"

partial_function (option) find_pid :: "(u64 \<Rightarrow> process) \<Rightarrow> u32 \<Rightarrow> u64 \<Rightarrow> u64 option" where
  "find_pid ps x current =
     (if current = 0 then Some 0
      else if pid (ps current) = x then Some current
      else find_pid ps x (p_next (ps current)))"

definition process_find_by_pid :: "u32 \<Rightarrow> kernel \<Rightarrow> u64 option" where
  "process_find_by_pid x s = find_pid (procs s) x (g_process_list_head s)"

section \<open>Releasing the files of a process\<close>

definition file_slot_destroy :: "u64 \<Rightarrow> nat \<Rightarrow> kernel \<Rightarrow> kernel option" where
  "file_slot_destroy p i s =
     (let f = file_descriptor_table (procs s p) ! i in
      if f \<noteq> 0 then do {
        let s1 = upd_file f (ref_count_update (\<lambda>n. n - 1)) s;
        s2 \<leftarrow> (if ref_count (files s1 f) = 0
                then let s' = s1\<lparr>vfs_closed := f_node (files s1 f) # vfs_closed s1\<rparr> in
                     do { h \<leftarrow> kfree (heap s') f; Some (s'\<lparr>heap := h\<rparr>) }
                else Some s1);
        Some (upd_proc p (file_descriptor_table_update (\<lambda>t. t[i := 0])) s2)
      }
      else Some s)"

definition process_file_destroy :: "u64 \<Rightarrow> kernel \<Rightarrow> kernel option" where
  "process_file_destroy p s =
     (if p = 0 then Some s else foldM (file_slot_destroy p) [0..<MAX_FILES_PER_PROCESS] s)"

text \<open>
  \<open>process_destroy\<close>; \<open>kernel_pml4\<close> is \<open>g_kernel_pml4_phys\<close>. The address released for the kernel
  stack is \<open>context_frame_top\<close>.
\<close>

definition process_destroy :: "u64 \<Rightarrow> u64 \<Rightarrow> kernel \<Rightarrow> kernel option" where
  "process_destroy kernel_pml4 p s =
     (if p = 0 then Some s
      else do {
        s1 \<leftarrow> (if cr3 (procs s p) \<noteq> 0 \<and> cr3 (procs s p) \<noteq> kernel_pml4 then do {
                  (r, v) \<leftarrow> process_flush_user_space (hvm (heap s)) (cr3 (procs s p));
                  v' \<leftarrow> release (cr3 (procs s p)) v;
                  Some (s\<lparr>heap := (heap s)\<lparr>hvm := v'\<rparr>\<rparr>)
                } else Some s);
        let t = main_thread (procs s1 p);
        if t \<noteq> 0 then do {
          s2 \<leftarrow> (if context_frame (threads s1 t) \<noteq> 0 then do {
                    h \<leftarrow> kfree (heap s1) (context_frame_top (threads s1 t));
                    Some (s1\<lparr>heap := h\<rparr>)
                  } else Some s1);
          s3 \<leftarrow> foldM (file_slot_destroy p) [0..<MAX_FILES_PER_PROCESS] s2;
          h \<leftarrow> kfree (heap s3) (main_thread (procs s3 p));
          Some (s3\<lparr>heap := h\<rparr>)
        } else Some s1
      })"

section \<open>The registry is a list\<close>

definition listed :: "kernel \<Rightarrow> u64 list \<Rightarrow> bool" where
  "listed s ps \<longleftrightarrow> chain (\<lambda>p. p_next (procs s p)) (g_process_list_head s) ps"

lemma next_upd:
  "(\<lambda>q. p_next (((procs s)(p := p_next_update (\<lambda>_. v) (procs s p))) q)) = (\<lambda>q. p_next (procs s q))(p := v)"
  by (auto simp: fun_eq_iff)

lemma listed_relink:
  "listed (upd_proc a (p_next_update (\<lambda>_. v)) s) ps =
     chain ((\<lambda>p. p_next (procs s p))(a := v)) (g_process_list_head s) ps"
  by (simp add: listed_def upd_proc_def next_upd del: fun_upd_apply)

lemma insert_listed:
  assumes "listed s ps" "p \<noteq> 0" "p \<notin> set ps"
  shows "listed (process_list_insert p s) (p # ps)"
  using assms
  by (simp add: listed_def process_list_insert_def Let_def upd_proc_def next_upd chain_upd
      del: fun_upd_apply) simp

lemma find_pid_chain:
  "chain (\<lambda>p. p_next (ps p)) h xs \<Longrightarrow>
   find_pid ps x h = Some (case List.find (\<lambda>p. pid (ps p) = x) xs of None \<Rightarrow> 0 | Some p \<Rightarrow> p)"
proof (induction xs arbitrary: h)
  case Nil
  then show ?case by (subst find_pid.simps) simp
next
  case (Cons a xs)
  then show ?case by (subst find_pid.simps) auto
qed

text \<open>Stopping in front of an element, and unlinking it.\<close>

lemma process_before_chain:
  assumes "chain (\<lambda>p. p_next (ps p)) h xs" "xs \<noteq> []" "h \<noteq> p"
  shows "\<exists>ys a zs. xs = ys @ a # zs \<and> p \<notin> set (ys @ [a]) \<and> process_before ps p h = Some a \<and>
    (zs = [] \<or> (\<exists>zs'. zs = p # zs'))"
  using assms
proof (induction xs arbitrary: h)
  case (Cons b xs)
  then have h: "h = b" "b \<noteq> p" "chain (\<lambda>p. p_next (ps p)) (p_next (ps b)) xs" by auto
  show ?case
  proof (cases "p_next (ps b) = 0 \<or> p_next (ps b) = p")
    case True
    then have "process_before ps p b = Some b" by (subst process_before.simps) auto
    moreover have "xs = [] \<or> (\<exists>zs'. xs = p # zs')" using True h(3) by (cases xs) auto
    ultimately show ?thesis using h by (intro exI [of _ "[]"] exI [of _ b] exI [of _ xs]) simp
  next
    case False
    then have "xs \<noteq> []" using h(3) by (cases xs) auto
    with Cons.IH [OF h(3)] False obtain ys a zs where i: "xs = ys @ a # zs" "p \<notin> set (ys @ [a])"
      "process_before ps p (p_next (ps b)) = Some a" "zs = [] \<or> (\<exists>zs'. zs = p # zs')" by auto
    have "process_before ps p b = Some a" using False i(3) by (subst process_before.simps) auto
    with i h(1,2) show ?thesis by (intro exI [of _ "b # ys"] exI [of _ a] exI [of _ zs]) auto
  qed
qed simp

lemma remove_listed:
  assumes l: "listed s ps" and p: "p \<noteq> 0"
  shows "\<exists>s'. process_list_remove p s = Some s' \<and> listed s' (remove1 p ps) \<and>
    (\<forall>q. pid (procs s' q) = pid (procs s q) \<and> main_thread (procs s' q) = main_thread (procs s q))"
proof (cases "g_process_list_head s = 0 \<or> g_process_list_head s = p")
  case True
  then show ?thesis using l p
    by (cases ps) (auto simp: process_list_remove_def listed_def)
next
  case False
  let ?n = "\<lambda>p. p_next (procs s p)"
  from l have c: "chain ?n (g_process_list_head s) ps" by (simp add: listed_def)
  with False have ne: "ps \<noteq> []" by (cases ps) auto
  from process_before_chain [OF c ne, of p] False obtain ys a zs where
    i: "ps = ys @ a # zs" "p \<notin> set (ys @ [a])"
      "process_before (procs s) p (g_process_list_head s) = Some a" "zs = [] \<or> (\<exists>zs'. zs = p # zs')"
    by auto
  have d: "distinct ps" by (rule chain_distinct [OF c])
  have ca: "chain ?n a (a # zs)" using chain_suffix [of ?n "g_process_list_head s" ys a zs] c i(1) by simp
  show ?thesis
  proof (cases zs)
    case Nil
    with ca have "p_next (procs s a) \<noteq> p" using p by auto
    moreover have "remove1 p ps = ps" using i(1,2) Nil by (simp add: remove1_idem)
    ultimately show ?thesis using False i(3) l p by (simp add: process_list_remove_def)
  next
    case (Cons b zs')
    with i(4) have z: "zs = p # zs'" by simp
    let ?s' = "upd_proc a (p_next_update (\<lambda>_. p_next (procs s p))) s"
    have ap: "p_next (procs s a) = p" "chain ?n (?n p) zs'" using ca z by auto
    have r: "remove1 p ps = ys @ a # zs'" using i(1,2) z by (simp add: remove1_append)
    have "chain (?n(a := ?n p)) (g_process_list_head s) (ys @ a # zs')"
      by (rule chain_relink [where zs = "[p]"]) (use c d ap i(1) z in auto)
    then have "listed ?s' (remove1 p ps)"
      by (simp only: r listed_relink)
    then show ?thesis using False i(3) ap(1) p by (simp add: process_list_remove_def upd_proc_def)
  qed
qed

text \<open>
  What a client of the registry may rely on: \<open>listed\<close> is the abstract list, \<open>key\<close> the process
  identifier.
\<close>

locale registry =
  fixes repr :: "'s \<Rightarrow> u64 list \<Rightarrow> bool"
    and key :: "'s \<Rightarrow> u64 \<Rightarrow> u32"
    and ins :: "u64 \<Rightarrow> 's \<Rightarrow> 's"
    and rem :: "u64 \<Rightarrow> 's \<Rightarrow> 's option"
    and look :: "u32 \<Rightarrow> 's \<Rightarrow> u64 option"
  assumes repr_set: "repr s ps \<Longrightarrow> distinct ps \<and> 0 \<notin> set ps"
    and ins_law: "repr s ps \<Longrightarrow> p \<noteq> 0 \<Longrightarrow> p \<notin> set ps \<Longrightarrow> repr (ins p s) (p # ps) \<and> key (ins p s) = key s"
    and rem_law: "repr s ps \<Longrightarrow> p \<noteq> 0 \<Longrightarrow> \<exists>s'. rem p s = Some s' \<and> repr s' (remove1 p ps) \<and> key s' = key s"
    and look_law: "repr s ps \<Longrightarrow>
      look x s = Some (case List.find (\<lambda>p. key s p = x) ps of None \<Rightarrow> 0 | Some p \<Rightarrow> p)"
begin

lemma look_inserted:
  assumes "repr s ps" "p \<noteq> 0" "p \<notin> set ps"
  shows "look (key s p) (ins p s) = Some p"
  using ins_law [OF assms] look_law [of "ins p s" "p # ps" "key s p"] by simp

lemma look_member:
  assumes "repr s ps" "p \<in> set ps" "inj_on (key s) (set ps)"
  shows "look (key s p) s = Some p"
proof -
  have "\<exists>q. List.find (\<lambda>q. key s q = key s p) ps = Some q"
    using assms(2) by (cases "List.find (\<lambda>q. key s q = key s p) ps") (auto simp: find_None_iff)
  then obtain q where q: "List.find (\<lambda>q. key s q = key s p) ps = Some q" by blast
  then have "q \<in> set ps" "key s q = key s p" by (auto simp: find_Some_iff)
  with assms(2,3) have "q = p" by (auto dest: inj_onD)
  with q look_law [OF assms(1), of "key s p"] show ?thesis by simp
qed

lemma look_absent:
  assumes "repr s ps" "\<forall>p\<in>set ps. key s p \<noteq> x"
  shows "look x s = Some 0"
proof -
  have "List.find (\<lambda>p. key s p = x) ps = None" using assms(2) by (auto simp: find_None_iff)
  with look_law [OF assms(1)] show ?thesis by simp
qed

lemma look_removed:
  assumes "repr s ps" "p \<in> set ps" "inj_on (key s) (set ps)"
  shows "\<exists>s'. rem p s = Some s' \<and> repr s' (remove1 p ps) \<and> look (key s p) s' = Some 0 \<and>
    (\<forall>q\<in>set ps - {p}. look (key s q) s' = Some q)"
proof -
  have pd: "p \<noteq> 0" "distinct ps" using repr_set [OF assms(1)] assms(2) by auto
  from rem_law [OF assms(1) pd(1)] obtain s' where s': "rem p s = Some s'" "repr s' (remove1 p ps)" "key s' = key s"
    by blast
  have set: "set (remove1 p ps) = set ps - {p}" using pd(2) by (rule set_remove1_eq)
  have "\<forall>q\<in>set (remove1 p ps). key s' q \<noteq> key s p"
    using set s'(3) assms(2,3) by (auto dest: inj_onD)
  from look_absent [OF s'(2) this] have "look (key s p) s' = Some 0" .
  moreover have "look (key s q) s' = Some q" if "q \<in> set ps - {p}" for q
    using look_member [OF s'(2), of q] set s'(3) assms(3) that by (auto intro: inj_on_subset)
  ultimately show ?thesis using s' by blast
qed

end

interpretation plist: registry listed "\<lambda>s p. pid (procs s p)" process_list_insert process_list_remove
  process_find_by_pid
proof (unfold_locales, goal_cases)
  case (1 s ps)
  then have "chain (\<lambda>p. p_next (procs s p)) (g_process_list_head s) ps" by (simp add: listed_def)
  moreover have "0 \<notin> set xs" if "chain n h xs" for n h xs using that by (induction xs arbitrary: h) auto
  ultimately show ?case using chain_distinct by blast
next
  case (2 s ps p)
  moreover have "pid (procs (process_list_insert p s) q) = pid (procs s q)" for q
    by (simp add: process_list_insert_def upd_proc_def Let_def)
  ultimately show ?case using insert_listed by auto
next
  case (3 s ps p)
  from remove_listed [OF this] show ?case by (auto simp: fun_eq_iff)
next
  case (4 s ps x)
  then show ?case unfolding process_find_by_pid_def listed_def by (rule find_pid_chain)
qed

section \<open>Reference counts of open files\<close>

text \<open>
  The files of a process: each open file is a live block of the heap (of size \<open>K f\<close>) and counts at
  least as many references as the table holds.
\<close>

abbreviation hinv :: "u64 \<Rightarrow> kheap \<Rightarrow> bool" where
  "hinv root h \<equiv> \<exists>bs. heap_inv root h bs"

definition fds_ok :: "u64 \<Rightarrow> (u64 \<Rightarrow> nat) \<Rightarrow> kernel \<Rightarrow> u64 \<Rightarrow> bool" where
  "fds_ok root K s p \<longleftrightarrow> hinv root (heap s) \<and>
     length (file_descriptor_table (procs s p)) = MAX_FILES_PER_PROCESS \<and>
     (\<forall>f\<in>set (file_descriptor_table (procs s p)) - {0}. (unat f, K f) \<in> kheap_blocks root (heap s) \<and>
        count_list (file_descriptor_table (procs s p)) f \<le> unat (ref_count (files s f)))"

text \<open>The files that lose their last reference when the table entries \<open>fs\<close> are dropped.\<close>

definition dropped :: "kernel \<Rightarrow> u64 list \<Rightarrow> u64 set" where
  "dropped s fs = {f \<in> set fs - {0}. unat (ref_count (files s f)) = count_list fs f}"

text \<open>What is left after the first \<open>i\<close> entries have been dropped.\<close>

definition files_at :: "u64 \<Rightarrow> (u64 \<Rightarrow> nat) \<Rightarrow> u64 \<Rightarrow> kernel \<Rightarrow> nat \<Rightarrow> kernel \<Rightarrow> bool" where
  "files_at root K p s i t \<longleftrightarrow>
     (let tbl = file_descriptor_table (procs s p) in
      t = s\<lparr>files := files t, heap := heap t, vfs_closed := vfs_closed t,
        procs := (procs s)(p := (procs s p)\<lparr>file_descriptor_table := replicate i 0 @ drop i tbl\<rparr>)\<rparr> \<and>
      hinv root (heap t) \<and> hvm (heap t) = hvm (heap s) \<and>
      kheap_blocks root (heap t) = kheap_blocks root (heap s) - (\<lambda>f. (unat f, K f)) ` dropped s (take i tbl) \<and>
      (\<forall>f. f_node (files t f) = f_node (files s f)) \<and>
      (\<forall>f. f \<noteq> 0 \<longrightarrow> unat (ref_count (files t f)) = unat (ref_count (files s f)) - count_list (take i tbl) f) \<and>
      set (vfs_closed t) = set (vfs_closed s) \<union> (\<lambda>f. f_node (files s f)) ` dropped s (take i tbl))"

lemma kfree_hvm: "kfree h p = Some h' \<Longrightarrow> hvm h' = hvm h"
  by (auto simp: kfree_def bind_eq_Some_conv split: if_splits)

lemma files_at_0: "fds_ok root K s p \<Longrightarrow> files_at root K p s 0 s"
  by (simp add: files_at_def fds_ok_def dropped_def)

lemma drop_clear:
  assumes "i < length xs"
  shows "(replicate i a @ drop i xs)[i := a] = replicate (Suc i) a @ drop (Suc i) xs"
    and "(replicate i a @ drop i xs) ! i = xs ! i"
proof -
  have d: "drop i xs = xs ! i # drop (Suc i) xs" using assms by (rule Cons_nth_drop_Suc [symmetric])
  show "(replicate i a @ drop i xs)[i := a] = replicate (Suc i) a @ drop (Suc i) xs"
    unfolding d by (simp add: list_update_append replicate_app_Cons_same)
  show "(replicate i a @ drop i xs) ! i = xs ! i" by (simp add: nth_append d)
qed

lemma count_list_le: "count_list (take i xs) x \<le> count_list xs x"
  by (metis append_take_drop_id count_list_append le_add1)

lemma ref_dec: "n \<noteq> 0 \<Longrightarrow> unat (n - 1 :: u32) = unat n - 1"
  by (simp add: unat_minus_one)

lemma dropped_Suc:
  assumes ok: "fds_ok root K s p" and i: "i < MAX_FILES_PER_PROCESS"
  defines "tbl \<equiv> file_descriptor_table (procs s p)"
  shows "dropped s (take (Suc i) tbl) =
    (if tbl ! i \<noteq> 0 \<and> unat (ref_count (files s (tbl ! i))) = count_list (take (Suc i) tbl) (tbl ! i)
     then insert (tbl ! i) (dropped s (take i tbl)) else dropped s (take i tbl))"
proof -
  let ?f = "tbl ! i"
  have len: "i < length tbl" using ok i by (simp add: fds_ok_def tbl_def)
  then have tk: "take (Suc i) tbl = take i tbl @ [?f]" by (rule take_Suc_conv_app_nth)
  have "?f \<noteq> 0 \<Longrightarrow> count_list tbl ?f \<le> unat (ref_count (files s ?f))"
    using ok nth_mem [OF len] by (auto simp: fds_ok_def tbl_def)
  moreover have "count_list (take (Suc i) tbl) ?f \<le> count_list tbl ?f" by (rule count_list_le)
  moreover have "count_list (take (Suc i) tbl) ?f = Suc (count_list (take i tbl) ?f)" unfolding tk by simp
  ultimately have "?f \<notin> dropped s (take i tbl)" by (auto simp: dropped_def)
  then show ?thesis unfolding dropped_def tk by auto
qed

lemma file_slot_step:
  assumes ok: "fds_ok root K s p" and i: "i < MAX_FILES_PER_PROCESS" and t: "files_at root K p s i t"
  shows "\<exists>t'. file_slot_destroy p i t = Some t' \<and> files_at root K p s (Suc i) t'"
proof -
  define tbl where "tbl = file_descriptor_table (procs s p)"
  let ?f = "tbl ! i" and ?T = "\<lambda>j. replicate j 0 @ drop j tbl"
  have len: "i < length tbl" using ok i by (simp add: fds_ok_def tbl_def)
  have tk: "take (Suc i) tbl = take i tbl @ [?f]" using len by (rule take_Suc_conv_app_nth)
  note T = drop_clear [OF len, of 0]
  define fs h vc where "fs = files t" and "h = heap t" and "vc = vfs_closed t"
  have teq: "t = s\<lparr>files := fs, heap := h, vfs_closed := vc,
      procs := (procs s)(p := (procs s p)\<lparr>file_descriptor_table := ?T i\<rparr>)\<rparr>"
    using t unfolding files_at_def Let_def tbl_def fs_def h_def vc_def by blast
  have tt: "hinv root h" "hvm h = hvm (heap s)"
    "kheap_blocks root h = kheap_blocks root (heap s) - (\<lambda>f. (unat f, K f)) ` dropped s (take i tbl)"
    "\<And>f. f_node (fs f) = f_node (files s f)"
    "\<And>f. f \<noteq> 0 \<Longrightarrow> unat (ref_count (fs f)) = unat (ref_count (files s f)) - count_list (take i tbl) f"
    "set vc = set (vfs_closed s) \<union> (\<lambda>f. f_node (files s f)) ` dropped s (take i tbl)"
    using t unfolding files_at_def Let_def tbl_def [symmetric] fs_def h_def vc_def by blast+
  note dS = dropped_Suc [OF ok i, folded tbl_def]
  show ?thesis
  proof (cases "?f = 0")
    case True
    then have "?T (Suc i) = ?T i" using T by (metis list_update_id)
    then have "files_at root K p s (Suc i) t"
      using True tt unfolding files_at_def Let_def tbl_def [symmetric] dS teq
      by (auto simp: tk)
    then show ?thesis using True T(2) teq by (simp add: file_slot_destroy_def Let_def)
  next
    case False
    have c: "count_list (take (Suc i) tbl) ?f = Suc (count_list (take i tbl) ?f)" unfolding tk by simp
    have blk: "(unat ?f, K ?f) \<in> kheap_blocks root (heap s)"
      and cr: "count_list (take (Suc i) tbl) ?f \<le> unat (ref_count (files s ?f))"
      using ok nth_mem [OF len] False count_list_le [of "Suc i" tbl ?f]
      by (force simp: fds_ok_def tbl_def)+
    let ?fs = "fs(?f := ref_count_update (\<lambda>n. n - 1) (fs ?f))"
    have r1: "unat (ref_count (fs ?f)) = unat (ref_count (files s ?f)) - count_list (take i tbl) ?f"
      by (rule tt(5) [OF False])
    with cr c have nz: "ref_count (fs ?f) \<noteq> 0" by (auto simp: word_unat_eq_iff)
    have refs: "unat (ref_count (?fs f)) = unat (ref_count (files s f)) - count_list (take (Suc i) tbl) f"
      if "f \<noteq> 0" for f
      using tt(5) [OF that] ref_dec [OF nz] by (auto simp: tk)
    have nodes: "f_node (?fs f) = f_node (files s f)" for f using tt(4) by simp
    have zero: "ref_count (?fs ?f) = 0 \<longleftrightarrow>
        unat (ref_count (files s ?f)) = count_list (take (Suc i) tbl) ?f"
      using refs [OF False] cr by (simp add: word_unat_eq_iff)
    let ?P = "(procs s)(p := (procs s p)\<lparr>file_descriptor_table := ?T (Suc i)\<rparr>)"
    show ?thesis
    proof (cases "ref_count (?fs ?f) = 0")
      case z: True
      have "?f \<notin> dropped s (take i tbl)" using zero [THEN iffD1, OF z] c by (simp add: dropped_def)
      then have "(unat ?f, K ?f) \<in> kheap_blocks root h" using tt(3) blk by (auto simp flip: word_unat_eq_iff)
      from kheap.release_law [OF tt(1) this] obtain h' where
        h': "kfree h ?f = Some h'" "hinv root h'" "kheap_blocks root h' = kheap_blocks root h - {(unat ?f, K ?f)}"
        by blast
      let ?t' = "s\<lparr>files := ?fs, vfs_closed := f_node (fs ?f) # vc, heap := h', procs := ?P\<rparr>"
      have "file_slot_destroy p i t = Some ?t'"
        using False T z h'(1) unfolding file_slot_destroy_def teq by (simp add: Let_def upd_defs o_def)
      moreover have "files_at root K p s (Suc i) ?t'"
        unfolding files_at_def Let_def tbl_def [symmetric] dS
        using False zero [THEN iffD1, OF z] h' tt kfree_hvm [OF h'(1)] refs nodes by auto
      ultimately show ?thesis by blast
    next
      case nz': False
      let ?t' = "s\<lparr>files := ?fs, heap := h, vfs_closed := vc, procs := ?P\<rparr>"
      have "file_slot_destroy p i t = Some ?t'"
        using False T nz' unfolding file_slot_destroy_def teq by (simp add: Let_def upd_defs o_def)
      moreover have "files_at root K p s (Suc i) ?t'"
        unfolding files_at_def Let_def tbl_def [symmetric] dS
        using False nz' zero tt refs nodes by auto
      ultimately show ?thesis by blast
    qed
  qed
qed

lemma file_slots_all:
  assumes ok: "fds_ok root K s p"
  shows "i \<le> MAX_FILES_PER_PROCESS \<Longrightarrow>
    \<exists>t. foldM (file_slot_destroy p) [0..<i] s = Some t \<and> files_at root K p s i t"
proof (induction i)
  case 0
  then show ?case using files_at_0 [OF ok] by simp
next
  case (Suc i)
  then obtain t where t: "foldM (file_slot_destroy p) [0..<i] s = Some t" "files_at root K p s i t" by auto
  from file_slot_step [OF ok _ t(2)] Suc.prems t(1) show ?case by (auto simp: foldM_append)
qed

section \<open>Properties\<close>

text \<open>The process registry. Inserting a process that is not registered puts it at the front of
  the list; afterwards every registered process is found under its identifier, and removing any of
  them takes it out of the list, so that it is no longer found while all others still are.\<close>

theorem process_registry_roundtrip:
  assumes "listed s ps" and "p \<noteq> 0" and "p \<notin> set ps"
    and "inj_on (\<lambda>p. pid (procs s p)) (set (p # ps))"
  shows "\<exists>s1. process_list_insert p s = s1 \<and> listed s1 (p # ps) \<and>
    (\<forall>q\<in>set (p # ps). process_find_by_pid (pid (procs s q)) s1 = Some q) \<and>
    (\<forall>q\<in>set (p # ps). \<exists>s2. process_list_remove q s1 = Some s2 \<and> listed s2 (remove1 q (p # ps)) \<and>
       process_find_by_pid (pid (procs s q)) s2 = Some 0 \<and>
       (\<forall>r\<in>set (p # ps) - {q}. process_find_by_pid (pid (procs s r)) s2 = Some r))"
proof -
  let ?s1 = "process_list_insert p s"
  from plist.ins_law [OF assms(1-3)] have l: "listed ?s1 (p # ps)"
    and key: "(\<lambda>q. pid (procs ?s1 q)) = (\<lambda>q. pid (procs s q))" by blast+
  have inj: "inj_on (\<lambda>q. pid (procs ?s1 q)) (set (p # ps))" unfolding key by (rule assms(4))
  have "process_find_by_pid (pid (procs s q)) ?s1 = Some q" if "q \<in> set (p # ps)" for q
    using plist.look_member [OF l that inj] fun_cong [OF key, of q] by simp
  moreover have "\<exists>s2. process_list_remove q ?s1 = Some s2 \<and> listed s2 (remove1 q (p # ps)) \<and>
       process_find_by_pid (pid (procs s q)) s2 = Some 0 \<and>
       (\<forall>r\<in>set (p # ps) - {q}. process_find_by_pid (pid (procs s r)) s2 = Some r)" if "q \<in> set (p # ps)" for q
    using plist.look_removed [OF l that inj] fun_cong [OF key] by simp
  ultimately show ?thesis using l by blast
qed


section \<open>A small system\<close>

text \<open>
  Physical memory with two address spaces: the one with root 1 maps the first page of the kernel
  heap, the one with root 7 maps a user page at address 0.
\<close>

definition vmm_two :: vmm where
  "vmm_two = \<lparr>
     pmem = (\<lambda>f i. if f = 1 \<and> i = 256 then 0x2003 else if f = 2 \<and> i = 1 then 0x3003
        else if f = 3 \<and> i = 0 then 0x4003 else if f = 4 \<and> i = 0 then 0x5003
        else if f = 7 \<and> i = 0 then 0x8007 else if f = 8 \<and> i = 0 then 0x9007
        else if f = 9 \<and> i = 0 then 0xA007 else if f = 10 \<and> i = 0 then 0xB007 else 0),
     window_pt = (\<lambda>_. 0),
     frames = \<lparr>pmm_bitmap = [0xFF, 0x0F], pmm_total_pages = 16, pmm_bitmap_size = 2\<rparr>\<rparr>"

lemma two_fields:
  "get_p (0x2003 :: u64)" "get_p (0x3003 :: u64)" "get_p (0x4003 :: u64)" "get_p (0x5003 :: u64)"
  "get_p (0x8007 :: u64)" "get_p (0x9007 :: u64)" "get_p (0xA007 :: u64)" "get_p (0xB007 :: u64)"
  "\<not> get_ps (0x2003 :: u64)" "\<not> get_ps (0x3003 :: u64)" "\<not> get_ps (0x4003 :: u64)" "\<not> get_ps (0x5003 :: u64)"
  "\<not> get_ps (0x8007 :: u64)" "\<not> get_ps (0x9007 :: u64)" "\<not> get_ps (0xA007 :: u64)" "\<not> get_ps (0xB007 :: u64)"
  "get_frame 0x2003 = 2" "get_frame 0x3003 = 3" "get_frame 0x4003 = 4" "get_frame 0x5003 = 5"
  "get_frame 0x8007 = 8" "get_frame 0x9007 = 9" "get_frame 0xA007 = 10" "get_frame 0xB007 = 11"
  by code_simp+

lemma two_step:
  "get_p (pmem vmm_two f i) \<longleftrightarrow> (f, i) \<in> {(1, 256), (2, 1), (3, 0), (4, 0), (7, 0), (8, 0), (9, 0), (10, 0)}"
  "(f, i) \<in> {(1, 256), (2, 1), (3, 0), (4, 0), (7, 0), (8, 0), (9, 0), (10, 0)} \<Longrightarrow>
     get_frame (pmem vmm_two f i) = f + 1"
  "\<not> get_ps (pmem vmm_two f i)"
  by (auto simp: vmm_two_def two_fields)

lemma path_cases:
  assumes "path 4 q"
  obtains "q = []" | a where "q = [a]" | a b where "q = [a, b]" | a b c where "q = [a, b, c]"
    | a b c d where "q = [a, b, c, d]"
  using assms by (auto simp: path_def le_Suc_eq length_Suc_conv numeral_eq_Suc)

lemma two_walk_kernel:
  assumes "path 4 q" "walk (pmem vmm_two) 1 q = Some x"
  shows "(q, x) \<in> {([], 1), ([256], 2), ([256, 1], 3), ([256, 1, 0], 4), ([256, 1, 0, 0], 5)}"
  using assms(1) by (cases rule: path_cases) (use assms(2) in \<open>auto simp: two_step split: if_splits\<close>)

lemma two_walk_user:
  assumes "path 4 q" "walk (pmem vmm_two) 7 q = Some x"
  shows "(q, x) \<in> {([], 7), ([0], 8), ([0, 0], 9), ([0, 0, 0], 10), ([0, 0, 0, 0], 11)}"
  using assms(1) by (cases rule: path_cases) (use assms(2) in \<open>auto simp: two_step split: if_splits\<close>)

lemma two_free: "free_pages (frames vmm_two) = {12..<16}"
proof -
  have "free_pages (frames vmm_two) = set (filter (\<lambda>p. \<not> bits_test [0xFF, 0x0F :: u8] p) [0..<16])"
    by (auto simp: free_pages_def vmm_two_def)
  also have "\<dots> = {12..<16}" by code_simp
  finally show ?thesis .
qed

lemma two_tree:
  assumes w: "\<And>q x. path 4 q \<Longrightarrow> walk (pmem vmm_two) root q = Some x \<Longrightarrow> (q, x) \<in> W"
    and inj: "\<And>p q x. (p, x) \<in> W \<Longrightarrow> (q, x) \<in> W \<Longrightarrow> p = q" and lt: "\<And>q x. (q, x) \<in> W \<Longrightarrow> unat x < 12"
  shows "tree_wf vmm_two root"
proof -
  have "p = q" if "path 3 p" "path 4 q" "walk (pmem vmm_two) root p = Some f"
      "walk (pmem vmm_two) root q = Some f" for p q f
    using inj [OF w [OF path_up(1) [OF that(1)] that(3)] w [OF that(2,4)]] .
  moreover have "unat f \<notin> free_pages (frames vmm_two)" "unat f < 2 ^ 24"
    if "path 4 p" "walk (pmem vmm_two) root p = Some f" for p f
    using lt [OF w [OF that]] by (simp_all add: two_free)
  ultimately show ?thesis unfolding tree_wf_def using two_step(3) path_up(1) by blast
qed

lemma two_ok: "mem_ok vmm_two" "tree_wf vmm_two 1" "tree_wf vmm_two 7"
proof -
  show "mem_ok vmm_two" using two_free by (simp add: mem_ok_def) (simp add: vmm_two_def pmm_wf_def)
  show "tree_wf vmm_two 1" by (rule two_tree [OF two_walk_kernel]) auto
  show "tree_wf vmm_two 7" by (rule two_tree [OF two_walk_user]) auto
qed

definition heap_two :: kheap where
  "heap_two = heap_demo\<lparr>hvm := vmm_two\<rparr>"

lemma heap_two_inv: "heap_inv 1 heap_two [(64, False), (3968, True)]"
proof -
  let ?A = "KERNEL_HEAP_VIRTUAL_BASE"
  have "mapped vmm_two 1 va" if "?A \<le> va" "va < ?A + 0x1000" for va
  proof -
    define j where "j = unat va - unat ?A"
    have j: "unat va = unat ?A + 0 * 4096 + j" "j < 4096"
      using that by (simp_all add: j_def word_le_nat_alt word_less_nat_alt)
    have "unat ?A mod 4096 = 0" "unat ?A + 0 * 4096 + j < 2 ^ 64" using j by simp_all
    note d = device_va [OF this j(2)]
    have "va = ?A + of_nat (0 * 4096 + j)" using d(1) j(1) by (simp add: word_unat_eq_iff)
    then have "va_path va = va_path ?A" using d(2) by simp
    also have "va_path ?A = [256, 1, 0, 0]" by (simp add: va_path_def index_value)
    finally show ?thesis by (simp add: mapped_def two_step)
  qed
  with two_ok(1,2) show ?thesis
    unfolding heap_inv_def by (simp add: heap_two_def heap_demo_def header_defs)
qed

text \<open>
  Two cores with their idle threads, and four processes with one thread each: the first runs on
  core 0, the second is ready there, the third waits on channel 7, the fourth has been created but
  not started. Processes 1 and 2 share an open file, which process 1 holds twice.
\<close>

definition thread0 :: thread where
  "thread0 = \<lparr>tid = 0, context_frame = 0, context_frame_top = 0, th_kernel_stack_top = 0,
     th_state = THREAD_READY, th_cpu_id = 0, chan = 0, th_exit_code = 0, owner = 0, th_next = 0\<rparr>"

definition process0 :: process where
  "process0 = \<lparr>pid = 0, ppid = 0, p_state = PROCESS_READY, uid = 0, gid = 0, cr3 = 0x7000, code_base = 0,
     heap_start = 0, heap_end = 0, stack_limit = 0, stack_top = 0, parent = 0, main_thread = 0,
     file_descriptor_table = replicate 32 0, p_exit_code = 0, shm_virtual_addresses = replicate 8 0,
     shm_ids = replicate 8 0, pending_signals = 0, signal_handlers = replicate 32 0, p_next = 0, pwd = ''/''\<rparr>"

definition registers0 :: registers where
  "registers0 = \<lparr>r15 = 0, r14 = 0, r13 = 0, r12 = 0, r11 = 0, r10 = 0, r9 = 0, r8 = 0, rbx = 0, rax = 0,
     rcx = 0, rdx = 0, rsi = 0, rdi = 0, rbp = 0, int_no = 0, error_code = 0, rip = 0, reg_cs = 0,
     rflags = 0, rsp = 0, reg_ss = 0\<rparr>"

definition cpu0 :: cpu_data_block where
  "cpu0 = \<lparr>c_kernel_stack_top = 0, tss_rsp0 = 0, c_cpu_id = 0, current_thread = 0, ready_queue_head = 0,
     ready_queue_tail = 0, dead_queue_head = 0, dead_queue_tail = 0, idle_thread = 0, fpu_owner_thread = 0\<rparr>"

abbreviation file_demo :: u64 where "file_demo \<equiv> KERNEL_HEAP_VIRTUAL_BASE + 32"

definition kernel_demo :: kernel where
  "kernel_demo = \<lparr>
     threads = (\<lambda>_. thread0)(
       0x110 := thread0\<lparr>th_state := THREAD_RUNNING, th_cpu_id := 1\<rparr>,
       0x200 := thread0\<lparr>tid := 1, th_state := THREAD_RUNNING, owner := 0x1000, th_kernel_stack_top := 0x8000\<rparr>,
       0x300 := thread0\<lparr>tid := 2, owner := 0x1100, context_frame := 0x9F00, th_kernel_stack_top := 0xA000\<rparr>,
       0x400 := thread0\<lparr>tid := 3, th_state := THREAD_WAITING, chan := 7, owner := 0x1200\<rparr>,
       0x500 := thread0\<lparr>tid := 4, th_cpu_id := 1, owner := 0x1300\<rparr>),
     procs = (\<lambda>_. process0\<lparr>pid := 5\<rparr>)(
       0x1000 := process0\<lparr>pid := 1, ppid := 2, main_thread := 0x200, p_next := 0x1100,
         file_descriptor_table := file_demo # file_demo # replicate 30 0\<rparr>,
       0x1100 := process0\<lparr>pid := 2, main_thread := 0x300, p_next := 0x1200,
         file_descriptor_table := file_demo # replicate 31 0\<rparr>,
       0x1200 := process0\<lparr>pid := 3, main_thread := 0x400, p_next := 0x1300\<rparr>,
       0x1300 := process0\<lparr>pid := 4, p_state := PROCESS_EMBRYO, main_thread := 0x500\<rparr>),
     files = (\<lambda>_. \<lparr>f_node = 0x77, f_offset = 0, f_flags = 2, fd_flags = 0, ref_count = 2\<rparr>),
     cpus = (\<lambda>_. cpu0)(
       0x10 := cpu0\<lparr>current_thread := 0x200, ready_queue_head := 0x300, ready_queue_tail := 0x300,
         idle_thread := 0x100, tss_rsp0 := 0x8000\<rparr>,
       0x20 := cpu0\<lparr>c_cpu_id := 1, current_thread := 0x110, idle_thread := 0x110\<rparr>),
     stack_frames = (\<lambda>_. registers0),
     cpu_blocks = (\<lambda>_. 0)(0 := 0x10, 1 := 0x20),
     g_process_list_head = 0x1000, g_next_pid = 5, g_next_tid = 5, heap = heap_two,
     core_cr3 = (\<lambda>_. 0x7000), core_ts = (\<lambda>_. False), vfs_closed = []\<rparr>"

abbreviation procs_demo :: "u64 list" where "procs_demo \<equiv> [0x1000, 0x1100, 0x1200, 0x1300]"

lemma demo_listed: "listed kernel_demo procs_demo"
  by (simp add: listed_def kernel_demo_def process0_def)

lemma demo_blocks: "kheap_blocks 1 (heap kernel_demo) = {(unat KERNEL_HEAP_VIRTUAL_BASE + 32, 64)}"
  using kheap_blocks_eq [OF heap_two_inv] by (simp add: kernel_demo_def)

lemma demo_fds: "fds_ok 1 (\<lambda>_. 64) kernel_demo 0x1000"
  unfolding fds_ok_def demo_blocks using heap_two_inv by (auto simp: kernel_demo_def process0_def)

theorem process_registry_roundtrip_witness:
  "\<exists>s1 s2. process_list_insert 0x1400 kernel_demo = s1 \<and> process_find_by_pid 5 s1 = Some 0x1400 \<and>
     process_list_remove 0x1100 s1 = Some s2 \<and> listed s2 [0x1400, 0x1000, 0x1200, 0x1300] \<and>
     process_find_by_pid 2 s2 = Some 0 \<and> process_find_by_pid 3 s2 = Some 0x1200"
proof -
  have k: "pid (procs kernel_demo 0x1400) = 5" "pid (procs kernel_demo 0x1000) = 1" "pid (procs kernel_demo 0x1100) = 2"
    "pid (procs kernel_demo 0x1200) = 3" "pid (procs kernel_demo 0x1300) = 4"
    by (simp_all add: kernel_demo_def)
  have "inj_on (\<lambda>p. pid (procs kernel_demo p)) (set (0x1400 # procs_demo))"
    by (simp add: k)
  from process_registry_roundtrip [OF demo_listed, of "0x1400", OF _ _ this] obtain s1 where
    s1: "process_list_insert 0x1400 kernel_demo = s1"
      "\<forall>q\<in>set (0x1400 # procs_demo). process_find_by_pid (pid (procs kernel_demo q)) s1 = Some q"
      "\<forall>q\<in>set (0x1400 # procs_demo). \<exists>s2. process_list_remove q s1 = Some s2 \<and>
         listed s2 (remove1 q (0x1400 # procs_demo)) \<and>
         process_find_by_pid (pid (procs kernel_demo q)) s2 = Some 0 \<and>
         (\<forall>r\<in>set (0x1400 # procs_demo) - {q}. process_find_by_pid (pid (procs kernel_demo r)) s2 = Some r)"
    by auto
  from s1(3) [THEN bspec, of "0x1100"] obtain s2 where
    s2: "process_list_remove 0x1100 s1 = Some s2" "listed s2 (remove1 0x1100 (0x1400 # procs_demo))"
      "process_find_by_pid 2 s2 = Some 0"
      "\<forall>r\<in>set (0x1400 # procs_demo) - {0x1100}. process_find_by_pid (pid (procs kernel_demo r)) s2 = Some r"
    by (auto simp: k)
  have "process_find_by_pid 5 s1 = Some 0x1400" using s1(2) [THEN bspec, of "0x1400"] by (simp add: k)
  moreover have "process_find_by_pid 3 s2 = Some 0x1200" using s2(4) [THEN bspec, of "0x1200"] by (simp add: k)
  moreover have "remove1 0x1100 (0x1400 # procs_demo) = [0x1400, 0x1000, 0x1200, 0x1300]" by simp
  ultimately show ?thesis using s1(1) s2(1-3) by auto
qed


end
