(* ===== verification/Sched.thy ===== *)
theory Sched
  imports Process
begin

text \<open>
  The scheduler: \<^verbatim>\<open>src/kernel/kernel/sched/scheduler.c\<close>, \<^verbatim>\<open>wait.c\<close> and \<^verbatim>\<open>wakeup.c\<close>. Each core has a queue of
  ready threads linked through \<open>next\<close>; \<open>me\<close> is the data block of the core that executes the
  function. \<open>task_switch\<close> and \<open>scheduler_exit\<close> return the context frame that the assembly code
  loads into the stack pointer; \<open>None\<close> is a null pointer dereference or a loop that never ends.
\<close>

section \<open>Operations\<close>

definition enqueue_thread :: "u64 \<Rightarrow> u64 \<Rightarrow> kernel \<Rightarrow> kernel" where
  "enqueue_thread cpu t s =
     (if cpu = 0 \<or> t = 0 then s
      else let s1 = upd_thread t (th_next_update (\<lambda>_. 0)) s in
        if ready_queue_tail (cpus s1 cpu) = 0
        then upd_cpu cpu (\<lambda>c. c\<lparr>ready_queue_head := t, ready_queue_tail := t\<rparr>) s1
        else upd_cpu cpu (ready_queue_tail_update (\<lambda>_. t))
               (upd_thread (ready_queue_tail (cpus s1 cpu)) (th_next_update (\<lambda>_. t)) s1))"

definition dequeue_thread :: "u64 \<Rightarrow> kernel \<Rightarrow> u64 \<times> kernel" where
  "dequeue_thread cpu s =
     (if cpu = 0 then (0, s)
      else let t = ready_queue_head (cpus s cpu) in
        if t \<noteq> 0 then
          let s1 = upd_cpu cpu (ready_queue_head_update (\<lambda>_. th_next (threads s t))) s;
              s2 = (if ready_queue_head (cpus s1 cpu) = 0
                    then upd_cpu cpu (ready_queue_tail_update (\<lambda>_. 0)) s1 else s1)
          in (t, upd_thread t (th_next_update (\<lambda>_. 0)) s2)
        else (0, s))"

definition enqueue_dead_thread :: "u64 \<Rightarrow> u64 \<Rightarrow> kernel \<Rightarrow> kernel" where
  "enqueue_dead_thread cpu t s =
     (if cpu = 0 \<or> t = 0 then s
      else let s1 = upd_thread t (th_next_update (\<lambda>_. 0)) s in
        if dead_queue_tail (cpus s1 cpu) = 0
        then upd_cpu cpu (\<lambda>c. c\<lparr>dead_queue_head := t, dead_queue_tail := t\<rparr>) s1
        else upd_cpu cpu (dead_queue_tail_update (\<lambda>_. t))
               (upd_thread (dead_queue_tail (cpus s1 cpu)) (th_next_update (\<lambda>_. t)) s1))"

text \<open>Hand a thread to its core, or to the current one when its core does not exist.\<close>

definition dispatch :: "u64 \<Rightarrow> u64 \<Rightarrow> kernel \<Rightarrow> kernel" where
  "dispatch me t s =
     (let cpu = get_cpu_data_block s (th_cpu_id (threads s t)) in
      if cpu \<noteq> 0 then enqueue_thread cpu t s else enqueue_thread me t s)"

definition scheduler_ready_process :: "u64 \<Rightarrow> u64 \<Rightarrow> kernel \<Rightarrow> kernel" where
  "scheduler_ready_process me p s =
     (if p = 0 \<or> main_thread (procs s p) = 0 then s
      else let s1 = upd_proc p (p_state_update (\<lambda>_. PROCESS_READY)) s in
        dispatch me (main_thread (procs s1 p)) s1)"

definition scheduler_ready_thread :: "u64 \<Rightarrow> u64 \<Rightarrow> kernel \<Rightarrow> kernel" where
  "scheduler_ready_thread me t s =
     (if t = 0 then s
      else let s1 = upd_thread t (th_state_update (\<lambda>_. THREAD_READY)) s;
               s2 = dispatch me t s1;
               p = owner (threads s2 t)
        in if p \<noteq> 0 \<and> p_state (procs s2 p) = PROCESS_EMBRYO
           then upd_proc p (p_state_update (\<lambda>_. PROCESS_READY)) s2 else s2)"

text \<open>The choice of the next thread in \<open>task_switch\<close>.\<close>

definition switch_requeue :: "u64 \<Rightarrow> u64 \<Rightarrow> kernel \<Rightarrow> kernel" where
  "switch_requeue me regs s =
     (let cur = current_thread (cpus s me) in
      if cur \<noteq> 0 then
        let s1 = upd_thread cur (context_frame_update (\<lambda>_. regs)) s in
        if th_state (threads s1 cur) = THREAD_RUNNING \<and> tid (threads s1 cur) \<noteq> 0
        then enqueue_thread me cur (upd_thread cur (th_state_update (\<lambda>_. THREAD_READY)) s1)
        else s1
      else s)"

definition switch_pick :: "u64 \<Rightarrow> u64 \<Rightarrow> kernel \<Rightarrow> u64 \<times> kernel" where
  "switch_pick me cur s =
     (let (n, s1) = dequeue_thread me s in
      if n = 0 then
        if cur \<noteq> 0 \<and> tid (threads s1 cur) \<noteq> 0 \<and> th_state (threads s1 cur) = THREAD_READY
        then (cur, s1) else (idle_thread (cpus s1 me), s1)
      else (n, s1))"

definition set_current :: "u64 \<Rightarrow> u64 \<Rightarrow> kernel \<Rightarrow> kernel" where
  "set_current me n s = upd_cpu me (current_thread_update (\<lambda>_. n))
     (upd_thread n (th_state_update (\<lambda>_. THREAD_RUNNING)) s)"

definition switch_space :: "u64 \<Rightarrow> u64 \<Rightarrow> u64 \<Rightarrow> kernel \<Rightarrow> kernel" where
  "switch_space me cur n s =
     (let po = owner (threads s n) in
      if po \<noteq> 0 \<and> cr3 (procs s po) \<noteq> 0 \<and>
         (cur = 0 \<or> tid (threads s cur) = 0 \<or> owner (threads s cur) = 0 \<or>
          cr3 (procs s (owner (threads s cur))) \<noteq> cr3 (procs s po))
      then s\<lparr>core_cr3 := (core_cr3 s)(me := cr3 (procs s po))\<rparr> else s)"

definition switch_to :: "u64 \<Rightarrow> u64 \<Rightarrow> u64 \<Rightarrow> kernel \<Rightarrow> kernel" where
  "switch_to me cur n s =
     (let s1 = switch_space me cur n (set_current me n s);
          s2 = upd_cpu me (\<lambda>c. c\<lparr>tss_rsp0 := th_kernel_stack_top (threads s1 n),
                 c_kernel_stack_top := th_kernel_stack_top (threads s1 n)\<rparr>) s1
      in if n \<noteq> fpu_owner_thread (cpus s2 me) then s2\<lparr>core_ts := (core_ts s2)(me := True)\<rparr> else s2)"

definition task_switch :: "u64 \<Rightarrow> u64 \<Rightarrow> kernel \<Rightarrow> (u64 \<times> kernel) option" where
  "task_switch me regs s =
     (let cur = current_thread (cpus s me);
          (n, s1) = switch_pick me cur (switch_requeue me regs s) in
      if n = 0 then None
      else let s2 = switch_to me cur n s1 in Some (context_frame (threads s2 n), s2))"

text \<open>
  \<open>schedule\<close> and \<open>scheduler_yield\<close>; \<open>sp\<close> is the address of the register frame that the assembly
  code pushes. The result is the frame that is resumed, or \<open>None\<close> when the function returns at
  once.
\<close>

definition schedule :: "u64 \<Rightarrow> u64 \<Rightarrow> kernel \<Rightarrow> (u64 option \<times> kernel) option" where
  "schedule me sp s =
     (if current_thread (cpus s me) = 0 then Some (None, s)
      else do { (f, s') \<leftarrow> task_switch me sp s; Some (Some f, s') })"

definition scheduler_yield :: "u64 \<Rightarrow> u64 \<Rightarrow> kernel \<Rightarrow> (u64 option \<times> kernel) option" where
  "scheduler_yield me sp s =
     (let cur = current_thread (cpus s me) in
      if cur = 0 \<or> tid (threads s cur) = 0 \<or> th_state (threads s cur) \<noteq> THREAD_RUNNING
      then Some (None, s) else schedule me sp s)"

text \<open>
  \<open>wait\<close> and \<open>wait_flag\<close> up to the call of \<open>schedule\<close>, with \<open>g_wait_lock\<close> held; the device
  lock is released afterwards.
\<close>

definition wait_mark :: "u64 \<Rightarrow> u64 \<Rightarrow> kernel \<Rightarrow> kernel option" where
  "wait_mark me ch s =
     (let cur = current_thread (cpus s me) in
      if cur = 0 then None
      else Some (upd_thread cur (\<lambda>t. t\<lparr>chan := ch, th_state := THREAD_WAITING\<rparr>) s))"

definition wait :: "u64 \<Rightarrow> u64 \<Rightarrow> u64 \<Rightarrow> kernel \<Rightarrow> (u64 option \<times> kernel) option" where
  "wait me sp ch s =
     (if ch = 0 then Some (None, s) else do { s1 \<leftarrow> wait_mark me ch s; schedule me sp s1 })"

definition wake_if :: "u64 \<Rightarrow> u64 \<Rightarrow> kernel \<Rightarrow> kernel" where
  "wake_if ch t s =
     (if t \<noteq> 0 \<and> th_state (threads s t) = THREAD_WAITING \<and> chan (threads s t) = ch
      then let s1 = upd_thread t (\<lambda>t. t\<lparr>chan := 0, th_state := THREAD_READY\<rparr>) s in
           enqueue_thread (get_cpu_data_block s1 (th_cpu_id (threads s1 t))) t s1
      else s)"

partial_function (option) wakeup_loop :: "u64 \<Rightarrow> u64 \<Rightarrow> kernel \<Rightarrow> kernel option" where
  "wakeup_loop ch p s =
     (if p = 0 then Some s
      else let s1 = wake_if ch (main_thread (procs s p)) s in
        wakeup_loop ch (p_next (procs s1 p)) s1)"

definition wakeup :: "u64 \<Rightarrow> kernel \<Rightarrow> kernel option" where
  "wakeup ch s = (if ch = 0 then Some s else wakeup_loop ch (g_process_list_head s) s)"

definition wakeup_thread :: "u64 \<Rightarrow> u64 \<Rightarrow> kernel \<Rightarrow> kernel" where
  "wakeup_thread ch t s = (if ch = 0 \<or> t = 0 then s else wake_if ch t s)"

text \<open>Termination of the running thread.\<close>

partial_function (option) wake_parent :: "u32 \<Rightarrow> u64 \<Rightarrow> kernel \<Rightarrow> kernel option" where
  "wake_parent x p s =
     (if p = 0 then Some s
      else if pid (procs s p) = x then
        (let t = main_thread (procs s p) in
         Some (if t \<noteq> 0 \<and> th_state (threads s t) = THREAD_BLOCKED
               then let s1 = upd_thread t (th_state_update (\<lambda>_. THREAD_READY)) s in
                    enqueue_thread (get_cpu_data_block s1 (th_cpu_id (threads s1 t))) t s1
               else s))
      else wake_parent x (p_next (procs s p)) s)"

partial_function (option) exit_pick :: "u64 \<Rightarrow> u64 \<Rightarrow> kernel \<Rightarrow> (u64 \<times> kernel) option" where
  "exit_pick me cur s =
     (let (n, s1) = dequeue_thread me s in
      if n = 0 then Some (0, s1)
      else if n = cur \<or> th_state (threads s1 n) = THREAD_DEAD then exit_pick me cur s1
      else Some (n, s1))"

definition exit_process :: "u64 \<Rightarrow> int \<Rightarrow> kernel \<Rightarrow> kernel option" where
  "exit_process p code s =
     do {
       (r, v) \<leftarrow> process_flush_user_space (hvm (heap s)) (cr3 (procs s p));
       s1 \<leftarrow> process_file_destroy p (s\<lparr>heap := (heap s)\<lparr>hvm := v\<rparr>\<rparr>);
       let s2 = upd_proc p (\<lambda>q. q\<lparr>p_exit_code := code, p_state := PROCESS_ZOMBIE\<rparr>) s1;
       wake_parent (ppid (procs s2 p)) (g_process_list_head s2) s2
     }"

definition scheduler_exit :: "u64 \<Rightarrow> int \<Rightarrow> kernel \<Rightarrow> (u64 option \<times> kernel) option" where
  "scheduler_exit me code s =
     (if me = 0 then Some (None, s)
      else let cur = current_thread (cpus s me);
          p = (if cur \<noteq> 0 then owner (threads s cur) else 0);
          s1 = (if cur \<noteq> 0
                then upd_thread cur (\<lambda>t. t\<lparr>th_state := THREAD_DEAD, th_exit_code := code\<rparr>) s else s) in
      do {
        s2 \<leftarrow> (if p \<noteq> 0 then exit_process p code s1 else Some s1);
        (n0, s3) \<leftarrow> exit_pick me cur s2;
        let n = (if n0 = 0 then idle_thread (cpus s3 me) else n0);
        if n = 0 then None
        else do {
          let s4 = set_current me n s3;
          let s5 = (if owner (threads s4 n) \<noteq> 0 \<and> cur \<noteq> 0 \<and> owner (threads s4 cur) \<noteq> owner (threads s4 n)
                    then s4\<lparr>core_cr3 := (core_cr3 s4)(me := cr3 (procs s4 (owner (threads s4 n))))\<rparr>
                    else s4);
          Some (Some (context_frame (threads s5 n)), s5)
        }
      })"

section \<open>Queues\<close>

abbreviation nxt :: "kernel \<Rightarrow> u64 \<Rightarrow> u64" where
  "nxt s t \<equiv> th_next (threads s t)"

definition rq :: "kernel \<Rightarrow> u64 \<Rightarrow> u64 list \<Rightarrow> bool" where
  "rq s c xs \<longleftrightarrow> queue (nxt s) (ready_queue_head (cpus s c)) (ready_queue_tail (cpus s c)) xs"

text \<open>What an operation on the queue of core \<open>c\<close> leaves alone.\<close>

definition same_but_queue :: "u64 \<Rightarrow> kernel \<Rightarrow> kernel \<Rightarrow> bool" where
  "same_but_queue c s s' \<longleftrightarrow>
     (\<forall>t. threads s' t = (threads s t)\<lparr>th_next := nxt s' t\<rparr>) \<and>
     (\<forall>d. d \<noteq> c \<longrightarrow> cpus s' d = cpus s d) \<and>
     cpus s' c = (cpus s c)\<lparr>ready_queue_head := ready_queue_head (cpus s' c),
       ready_queue_tail := ready_queue_tail (cpus s' c)\<rparr> \<and>
     s' = s\<lparr>threads := threads s', cpus := cpus s'\<rparr>"

lemma enqueue_rq:
  assumes c: "c \<noteq> 0" and t: "t \<noteq> 0" "t \<notin> set xs" and q: "rq s c xs"
  shows "rq (enqueue_thread c t s) c (xs @ [t])" "same_but_queue c s (enqueue_thread c t s)"
    "\<And>u. u \<noteq> t \<Longrightarrow> u \<notin> set xs \<Longrightarrow> nxt (enqueue_thread c t s) u = nxt s u"
proof -
  let ?s = "enqueue_thread c t s" and ?tl = "ready_queue_tail (cpus s c)"
  have e: "?tl = 0 \<longleftrightarrow> xs = []" using q queue_tail unfolding rq_def by blast
  have tl: "xs \<noteq> [] \<Longrightarrow> ?tl \<in> set xs" using q by (auto simp: rq_def queue_def)
  have n: "nxt ?s = (if xs = [] then (nxt s)(t := 0) else (nxt s)(t := 0, ?tl := t))"
    using c t e by (auto simp: enqueue_thread_def Let_def upd_defs fun_eq_iff)
  have h: "ready_queue_head (cpus ?s c) = (if xs = [] then t else ready_queue_head (cpus s c))"
    "ready_queue_tail (cpus ?s c) = t"
    using c t e by (auto simp: enqueue_thread_def Let_def upd_defs)
  show "rq ?s c (xs @ [t])"
    using queue_snoc [OF q [unfolded rq_def] t] by (auto simp: rq_def n h split: if_splits)
  show "same_but_queue c s ?s"
    unfolding same_but_queue_def enqueue_thread_def using c t by (cases s) (auto simp: Let_def upd_defs)
  show "nxt ?s u = nxt s u" if "u \<noteq> t" "u \<notin> set xs" for u
    using that tl fun_cong [OF n, of u] by (auto split: if_splits)
qed

lemma dequeue_rq_empty: "rq s c [] \<Longrightarrow> dequeue_thread c s = (0, s)"
  by (simp add: rq_def queue_def dequeue_thread_def)

lemma dequeue_rq:
  assumes c: "c \<noteq> 0" and q: "rq s c (t # xs)"
  shows "\<exists>s'. dequeue_thread c s = (t, s') \<and> rq s' c xs \<and> same_but_queue c s s' \<and>
    (\<forall>u. u \<noteq> t \<longrightarrow> nxt s' u = nxt s u)"
proof -
  let ?s = "snd (dequeue_thread c s)"
  from q have h: "ready_queue_head (cpus s c) = t" "t \<noteq> 0" "chain (nxt s) (nxt s t) xs"
    "ready_queue_tail (cpus s c) = (if xs = [] then t else last xs)"
    by (auto simp: rq_def queue_def)
  have ch: "chain (nxt s) (ready_queue_head (cpus s c)) (t # xs)" using q by (simp add: rq_def queue_def)
  have "t \<notin> set xs" using chain_distinct [OF ch] by simp
  then have cu: "chain ((nxt s)(t := 0)) (nxt s t) xs" using h(3) by (simp add: chain_upd)
  have n: "nxt ?s = (nxt s)(t := 0)"
    using c h(1,2) by (auto simp: dequeue_thread_def Let_def upd_defs fun_eq_iff)
  have e: "nxt s t = 0 \<longleftrightarrow> xs = []" using h(3) chain_null by blast
  have hd: "ready_queue_head (cpus ?s c) = nxt s t"
    "ready_queue_tail (cpus ?s c) = (if xs = [] then 0 else last xs)"
    using c h e by (auto simp: dequeue_thread_def Let_def upd_defs)
  have "rq ?s c xs" unfolding rq_def queue_def n hd using cu by simp
  moreover have "same_but_queue c s ?s"
    unfolding same_but_queue_def dequeue_thread_def using c h(1,2)
    by (cases s) (auto simp: Let_def upd_defs)
  moreover have "fst (dequeue_thread c s) = t" using c h(1,2) by (simp add: dequeue_thread_def Let_def)
  moreover have "\<forall>u. u \<noteq> t \<longrightarrow> nxt ?s u = nxt s u" using n by (metis fun_upd_other)
  ultimately show ?thesis by (intro exI [of _ ?s]) (auto simp: prod_eq_iff)
qed

section \<open>The invariant\<close>

text \<open>
  \<open>T\<close> is the set of threads handed to the scheduler, \<open>Q c\<close> the ready queue of core \<open>c\<close>. A thread of
  \<open>T\<close> belongs to the core its \<open>cpu_id\<close> names; it is ready exactly when it is in the queue of that
  core, and running only if it is the current thread there. The idle threads are in no queue.
\<close>

definition cores :: "kernel \<Rightarrow> u64 set" where
  "cores s = {c. c \<noteq> 0 \<and> (\<exists>i<256. cpu_blocks s i = c)}"

definition home :: "kernel \<Rightarrow> u64 \<Rightarrow> u64" where
  "home s t = get_cpu_data_block s (th_cpu_id (threads s t))"

definition thread_wf :: "kernel \<Rightarrow> u64 \<Rightarrow> bool" where
  "thread_wf s t \<longleftrightarrow> t \<noteq> 0 \<and> tid (threads s t) \<noteq> 0 \<and> home s t \<in> cores s"

definition thread_placed :: "(u64 \<Rightarrow> u64 list) \<Rightarrow> kernel \<Rightarrow> u64 \<Rightarrow> bool" where
  "thread_placed Q s t \<longleftrightarrow>
     (th_state (threads s t) = THREAD_READY \<longleftrightarrow> t \<in> set (Q (home s t))) \<and>
     (th_state (threads s t) = THREAD_RUNNING \<longrightarrow> current_thread (cpus s (home s t)) = t)"

definition core_ok :: "u64 set \<Rightarrow> (u64 \<Rightarrow> u64 list) \<Rightarrow> kernel \<Rightarrow> u64 \<Rightarrow> bool" where
  "core_ok T Q s c \<longleftrightarrow> rq s c (Q c) \<and> set (Q c) \<subseteq> {t \<in> T. home s t = c} \<and>
     idle_thread (cpus s c) \<noteq> 0 \<and> tid (threads s (idle_thread (cpus s c))) = 0 \<and>
     (current_thread (cpus s c) = 0 \<or> current_thread (cpus s c) = idle_thread (cpus s c) \<or>
      current_thread (cpus s c) \<in> {t \<in> T. home s t = c})"

text \<open>\<open>X\<close> are the threads an operation is moving, whose placement is not settled.\<close>

definition sched_but :: "u64 set \<Rightarrow> u64 set \<Rightarrow> (u64 \<Rightarrow> u64 list) \<Rightarrow> kernel \<Rightarrow> bool" where
  "sched_but X T Q s \<longleftrightarrow> (\<forall>t\<in>T. thread_wf s t) \<and> (\<forall>t\<in>T - X. thread_placed Q s t) \<and>
     (\<forall>c\<in>cores s. core_ok T Q s c)"

abbreviation sched_inv :: "u64 set \<Rightarrow> (u64 \<Rightarrow> u64 list) \<Rightarrow> kernel \<Rightarrow> bool" where
  "sched_inv \<equiv> sched_but {}"

lemma home_core: "home s t \<noteq> 0 \<Longrightarrow> home s t \<in> cores s"
  by (auto simp: home_def cores_def get_cpu_data_block_def word_le_nat_alt
      intro!: exI [of _ "unat (th_cpu_id (threads s t))"] split: if_splits)

lemma core_nz: "c \<in> cores s \<Longrightarrow> c \<noteq> 0"
  by (simp add: cores_def)

lemma schedD:
  assumes "sched_but X T Q s"
  shows "t \<in> T \<Longrightarrow> thread_wf s t" "t \<in> T \<Longrightarrow> t \<notin> X \<Longrightarrow> thread_placed Q s t"
    "c \<in> cores s \<Longrightarrow> core_ok T Q s c"
  using assms by (simp_all add: sched_but_def)

lemma coreD:
  assumes "core_ok T Q s c"
  shows "rq s c (Q c)" "t \<in> set (Q c) \<Longrightarrow> t \<in> T \<and> home s t = c" "idle_thread (cpus s c) \<noteq> 0"
    "tid (threads s (idle_thread (cpus s c))) = 0"
  using assms by (auto simp: core_ok_def)

lemma rq_set: "rq s c xs \<Longrightarrow> distinct xs \<and> 0 \<notin> set xs"
  unfolding rq_def queue_def using chain_distinct chain_nonzero by blast

lemma same_queue_facts:
  assumes "same_but_queue c s s'"
  shows "tid (threads s' t) = tid (threads s t)" "th_state (threads s' t) = th_state (threads s t)"
    "th_cpu_id (threads s' t) = th_cpu_id (threads s t)" "chan (threads s' t) = chan (threads s t)"
    "context_frame (threads s' t) = context_frame (threads s t)"
    "th_kernel_stack_top (threads s' t) = th_kernel_stack_top (threads s t)"
    "owner (threads s' t) = owner (threads s t)"
    "current_thread (cpus s' d) = current_thread (cpus s d)"
    "idle_thread (cpus s' d) = idle_thread (cpus s d)"
    "tss_rsp0 (cpus s' d) = tss_rsp0 (cpus s d)"
    "home s' t = home s t" "cores s' = cores s" "procs s' = procs s"
    "g_process_list_head s' = g_process_list_head s" "core_cr3 s' = core_cr3 s" "heap s' = heap s"
proof -
  from assms have th: "threads s' t = (threads s t)\<lparr>th_next := nxt s' t\<rparr>"
    and o: "\<And>d. d \<noteq> c \<Longrightarrow> cpus s' d = cpus s d"
    and cc: "cpus s' c = (cpus s c)\<lparr>ready_queue_head := ready_queue_head (cpus s' c),
       ready_queue_tail := ready_queue_tail (cpus s' c)\<rparr>"
    and e: "s' = s\<lparr>threads := threads s', cpus := cpus s'\<rparr>"
    unfolding same_but_queue_def by blast+
  show "tid (threads s' t) = tid (threads s t)" "th_state (threads s' t) = th_state (threads s t)"
    "context_frame (threads s' t) = context_frame (threads s t)" "chan (threads s' t) = chan (threads s t)"
    "th_kernel_stack_top (threads s' t) = th_kernel_stack_top (threads s t)"
    "owner (threads s' t) = owner (threads s t)"
    by (subst th, simp)+
  show cp: "th_cpu_id (threads s' t) = th_cpu_id (threads s t)" by (subst th, simp)
  have "current_thread (cpus s' c) = current_thread (cpus s c)" "idle_thread (cpus s' c) = idle_thread (cpus s c)"
    "tss_rsp0 (cpus s' c) = tss_rsp0 (cpus s c)"
    by (subst cc, simp)+
  with o show "current_thread (cpus s' d) = current_thread (cpus s d)"
    "idle_thread (cpus s' d) = idle_thread (cpus s d)" "tss_rsp0 (cpus s' d) = tss_rsp0 (cpus s d)"
    by (cases "d = c"; simp)+
  have b: "cpu_blocks s' = cpu_blocks s" by (subst e) simp
  then show "home s' t = home s t" "cores s' = cores s"
    by (simp_all add: home_def cores_def get_cpu_data_block_def cp)
  show "procs s' = procs s" "g_process_list_head s' = g_process_list_head s" "core_cr3 s' = core_cr3 s"
    "heap s' = heap s"
    by (subst e, simp)+
qed

text \<open>The queues of the other cores are not affected.\<close>

lemma rq_other:
  assumes "same_but_queue c s s'" "d \<noteq> c" "rq s d ys" "\<And>u. u \<in> set ys \<Longrightarrow> nxt s' u = nxt s u"
  shows "rq s' d ys"
proof -
  have "cpus s' d = cpus s d" using assms(1,2) by (simp add: same_but_queue_def)
  with assms(3,4) show ?thesis by (auto simp: rq_def intro: queue_other)
qed

lemma enqueue_inv:
  assumes i: "sched_but {t} T Q s" and t: "t \<in> T" "th_state (threads s t) = THREAD_READY"
    and q: "t \<notin> set (Q (home s t))"
  defines "c \<equiv> home s t"
  shows "sched_inv T (Q(c := Q c @ [t])) (enqueue_thread c t s)" "same_but_queue c s (enqueue_thread c t s)"
proof -
  let ?s = "enqueue_thread c t s" and ?Q = "Q(c := Q c @ [t])"
  have hc: "home s t = c" by (simp add: c_def)
  have w: "thread_wf s t" by (rule schedD(1) [OF i t(1)])
  then have c: "c \<in> cores s" and t0: "t \<noteq> 0" by (simp_all add: thread_wf_def c_def)
  note co = coreD [OF schedD(3) [OF i]]
  note e = enqueue_rq [OF core_nz [OF c] t0 q [folded c_def] co(1) [OF c]]
  note f = same_queue_facts [OF e(2)]
  have pl: "thread_placed ?Q ?s u" if "u \<in> T" for u
  proof (cases "u = t")
    case True
    then show ?thesis using t(2) by (simp add: thread_placed_def f hc)
  next
    case False
    then show ?thesis using schedD(2) [OF i that] by (auto simp: thread_placed_def f)
  qed
  have "core_ok T ?Q ?s d" if d: "d \<in> cores s" for d
  proof -
    have "rq ?s d (?Q d)"
    proof (cases "d = c")
      case False
      have "nxt ?s u = nxt s u" if "u \<in> set (Q d)" for u
        using e(3) [of u] co(2) [OF d that] co(2) [OF c, of u] False hc by auto
      from rq_other [OF e(2) False co(1) [OF d] this] False show ?thesis by simp
    qed (use e(1) in simp)
    moreover have "set (?Q d) \<subseteq> {u \<in> T. home s u = d}" using co(2) [OF d] t(1) by (auto simp: hc)
    ultimately show ?thesis using schedD(3) [OF i d] by (auto simp: core_ok_def f)
  qed
  with pl schedD(1) [OF i] show "sched_inv T ?Q ?s" by (auto simp: sched_but_def f thread_wf_def)
  show "same_but_queue c s ?s" by (rule e(2))
qed

lemma dequeue_inv:
  assumes i: "sched_but X T Q s" and c: "c \<in> cores s" and q: "Q c = t # ts"
  shows "\<exists>s'. dequeue_thread c s = (t, s') \<and> sched_but (insert t X) T (Q(c := ts)) s' \<and> same_but_queue c s s'"
proof -
  note co = coreD [OF schedD(3) [OF i]]
  from dequeue_rq [OF core_nz [OF c]] co(1) [OF c] q obtain s' where
    s': "dequeue_thread c s = (t, s')" "rq s' c ts" "same_but_queue c s s'" "\<And>u. u \<noteq> t \<Longrightarrow> nxt s' u = nxt s u"
    by metis
  note f = same_queue_facts [OF s'(3)]
  have tq: "t \<in> T" "home s t = c" using co(2) [OF c] q by auto
  let ?Q = "Q(c := ts)"
  have "thread_placed ?Q s' u" if "u \<in> T - insert t X" for u
    using schedD(2) [OF i, of u] that q by (auto simp: thread_placed_def f)
  moreover have "core_ok T ?Q s' d" if d: "d \<in> cores s" for d
  proof -
    have "rq s' d (?Q d)"
    proof (cases "d = c")
      case False
      have "nxt s' u = nxt s u" if "u \<in> set (Q d)" for u
        using s'(4) [of u] co(2) [OF d that] tq(2) False by auto
      from rq_other [OF s'(3) False co(1) [OF d] this] False show ?thesis by simp
    qed (use s'(2) in simp)
    moreover have "set (?Q d) \<subseteq> {u \<in> T. home s u = d}"
      using co(2) [OF d] co(2) [OF c] q by (auto split: if_splits)
    ultimately show ?thesis using schedD(3) [OF i d] by (auto simp: core_ok_def f)
  qed
  ultimately have "sched_but (insert t X) T ?Q s'"
    using schedD(1) [OF i] by (auto simp: sched_but_def f thread_wf_def)
  with s' show ?thesis by blast
qed

text \<open>Changing the state of one thread.\<close>

definition keeps_links :: "(thread \<Rightarrow> thread) \<Rightarrow> bool" where
  "keeps_links g \<longleftrightarrow> (\<forall>x. tid (g x) = tid x \<and> th_cpu_id (g x) = th_cpu_id x \<and> th_next (g x) = th_next x)"

lemma upd_thread_facts:
  assumes "keeps_links g"
  shows "home (upd_thread t g s) u = home s u" "cores (upd_thread t g s) = cores s"
    "tid (threads (upd_thread t g s) u) = tid (threads s u)" "cpus (upd_thread t g s) = cpus s"
    "rq (upd_thread t g s) c xs = rq s c xs" "u \<noteq> t \<Longrightarrow> threads (upd_thread t g s) u = threads s u"
    "threads (upd_thread t g s) t = g (threads s t)" "procs (upd_thread t g s) = procs s"
    "g_process_list_head (upd_thread t g s) = g_process_list_head s" "nxt (upd_thread t g s) u = nxt s u"
    "cpu_blocks (upd_thread t g s) = cpu_blocks s" "heap (upd_thread t g s) = heap s"
    "files (upd_thread t g s) = files s" "core_cr3 (upd_thread t g s) = core_cr3 s"
proof -
  have n: "nxt (upd_thread t g s) = nxt s" using assms by (auto simp: upd_thread_def keeps_links_def)
  show "home (upd_thread t g s) u = home s u" "cores (upd_thread t g s) = cores s"
    "tid (threads (upd_thread t g s) u) = tid (threads s u)" "cpus (upd_thread t g s) = cpus s"
    "u \<noteq> t \<Longrightarrow> threads (upd_thread t g s) u = threads s u"
    "threads (upd_thread t g s) t = g (threads s t)" "procs (upd_thread t g s) = procs s"
    "g_process_list_head (upd_thread t g s) = g_process_list_head s"
    "cpu_blocks (upd_thread t g s) = cpu_blocks s" "heap (upd_thread t g s) = heap s"
    "files (upd_thread t g s) = files s" "core_cr3 (upd_thread t g s) = core_cr3 s"
    "nxt (upd_thread t g s) u = nxt s u"
    using assms by (auto simp: upd_thread_def keeps_links_def home_def cores_def get_cpu_data_block_def)
  show "rq (upd_thread t g s) c xs = rq s c xs" unfolding rq_def n by (simp add: upd_thread_def)
qed

lemma upd_thread_inv:
  assumes i: "sched_but X T Q s" and k: "keeps_links g"
  shows "sched_but (insert t X) T Q (upd_thread t g s)"
  using i unfolding sched_but_def thread_wf_def thread_placed_def core_ok_def
  by (auto simp: upd_thread_facts [OF k])

lemma sched_settle:
  assumes "sched_but X T Q s" "t \<in> T \<Longrightarrow> thread_placed Q s t"
  shows "sched_but (X - {t}) T Q s"
  using assms by (auto simp: sched_but_def)

section \<open>Task switch\<close>

text \<open>The queue after the current thread has been put back, if it is still running.\<close>

definition requeued :: "(u64 \<Rightarrow> u64 list) \<Rightarrow> u64 \<Rightarrow> kernel \<Rightarrow> u64 list" where
  "requeued Q me s =
     (let cur = current_thread (cpus s me) in
      if cur \<noteq> 0 \<and> th_state (threads s cur) = THREAD_RUNNING \<and> tid (threads s cur) \<noteq> 0
      then Q me @ [cur] else Q me)"

lemma keeps_links_simps [simp]:
  "keeps_links (context_frame_update g)" "keeps_links (th_state_update h)"
  "keeps_links (\<lambda>t. t\<lparr>chan := a, th_state := b\<rparr>)" "keeps_links (\<lambda>t. t\<lparr>th_state := b, th_exit_code := e\<rparr>)"
  by (simp_all add: keeps_links_def)

lemma current_home:
  assumes i: "sched_but X T Q s" and c: "c \<in> cores s" and t: "current_thread (cpus s c) = t" "t \<noteq> 0"
    "tid (threads s t) \<noteq> 0"
  shows "t \<in> T" "home s t = c"
  using schedD(3) [OF i c] t by (auto simp: core_ok_def)

text \<open>What no scheduling operation changes.\<close>

definition sched_frame :: "kernel \<Rightarrow> kernel \<Rightarrow> bool" where
  "sched_frame s s' \<longleftrightarrow>
     (\<forall>t. tid (threads s' t) = tid (threads s t) \<and> th_cpu_id (threads s' t) = th_cpu_id (threads s t) \<and>
        owner (threads s' t) = owner (threads s t) \<and>
        th_kernel_stack_top (threads s' t) = th_kernel_stack_top (threads s t)) \<and>
     (\<forall>c. idle_thread (cpus s' c) = idle_thread (cpus s c)) \<and>
     procs s' = procs s \<and> g_process_list_head s' = g_process_list_head s \<and>
     cpu_blocks s' = cpu_blocks s \<and> heap s' = heap s \<and> files s' = files s"

lemma sched_frame_refl [simp]: "sched_frame s s"
  by (simp add: sched_frame_def)

lemma sched_frame_trans: "sched_frame s s1 \<Longrightarrow> sched_frame s1 s2 \<Longrightarrow> sched_frame s s2"
  by (simp add: sched_frame_def)

lemma sched_frame_home:
  assumes "sched_frame s s'"
  shows "home s' t = home s t" "cores s' = cores s"
  using assms by (simp_all add: sched_frame_def home_def cores_def get_cpu_data_block_def)

lemma sched_frame_queue: "same_but_queue c s s' \<Longrightarrow> sched_frame s s'"
proof -
  assume a: "same_but_queue c s s'"
  then have "s' = s\<lparr>threads := threads s', cpus := cpus s'\<rparr>" by (simp add: same_but_queue_def)
  then have "cpu_blocks s' = cpu_blocks s" "files s' = files s" by (metis kernel.select_convs kernel.surjective kernel.update_convs)+
  then show ?thesis using same_queue_facts [OF a] by (simp add: sched_frame_def)
qed

lemma sched_frame_upd [simp]:
  "sched_frame s (upd_thread t (th_state_update f) s)"
  "sched_frame s (upd_thread t (context_frame_update f') s)"
  "sched_frame s (upd_thread t (\<lambda>t. t\<lparr>chan := a, th_state := b\<rparr>) s)"
  "sched_frame s (upd_thread t (\<lambda>t. t\<lparr>th_state := b, th_exit_code := e\<rparr>) s)"
  "sched_frame s (upd_cpu c (current_thread_update g) s)"
  by (auto simp: sched_frame_def upd_defs)

text \<open>Every operation on the way keeps the placement of all other threads and of all other cores.\<close>

lemma requeue_inv:
  fixes regs :: u64
  assumes i: "sched_inv T Q s" and me: "me \<in> cores s"
  defines "cur \<equiv> current_thread (cpus s me)" and "s1 \<equiv> switch_requeue me regs s"
  shows "sched_inv T (Q(me := requeued Q me s)) s1" "sched_frame s s1"
    "current_thread (cpus s1 c) = current_thread (cpus s c)"
    "u \<in> T \<Longrightarrow> home s u = me \<Longrightarrow> th_state (threads s1 u) \<noteq> THREAD_RUNNING"
    "th_state (threads s1 u) = (if u = cur \<and> cur \<noteq> 0 \<and> th_state (threads s cur) = THREAD_RUNNING \<and>
       tid (threads s cur) \<noteq> 0 then THREAD_READY else th_state (threads s u))"
    "context_frame (threads s1 u) = (if u = cur \<and> cur \<noteq> 0 then regs else context_frame (threads s u))"
    "core_cr3 s1 = core_cr3 s" "chan (threads s1 u) = chan (threads s u)"
proof -
  let ?g = "context_frame_update (\<lambda>_. regs)" and ?h = "th_state_update (\<lambda>_. THREAD_READY)"
  let ?a = "upd_thread cur ?g s"
  let ?b = "upd_thread cur ?h ?a"
  have run: "u = cur" if "u \<in> T" "home s u = me" "th_state (threads s u) = THREAD_RUNNING" for u
    using schedD(2) [OF i that(1)] that by (auto simp: thread_placed_def cur_def)
  note ka = upd_thread_facts [of ?g] and kb = upd_thread_facts [of ?h]
  consider (none) "cur = 0" | (stay) "cur \<noteq> 0" "th_state (threads s cur) \<noteq> THREAD_RUNNING \<or> tid (threads s cur) = 0"
    | (again) "cur \<noteq> 0" "th_state (threads s cur) = THREAD_RUNNING" "tid (threads s cur) \<noteq> 0" by blast
  then have "sched_inv T (Q(me := requeued Q me s)) s1 \<and> sched_frame s s1 \<and>
    (\<forall>c. current_thread (cpus s1 c) = current_thread (cpus s c)) \<and>
    (\<forall>u. u \<in> T \<longrightarrow> home s u = me \<longrightarrow> th_state (threads s1 u) \<noteq> THREAD_RUNNING) \<and>
    (\<forall>u. th_state (threads s1 u) = (if u = cur \<and> cur \<noteq> 0 \<and> th_state (threads s cur) = THREAD_RUNNING \<and>
       tid (threads s cur) \<noteq> 0 then THREAD_READY else th_state (threads s u))) \<and>
    (\<forall>u. chan (threads s1 u) = chan (threads s u)) \<and>
    (\<forall>u. context_frame (threads s1 u) = (if u = cur \<and> cur \<noteq> 0 then regs else context_frame (threads s u))) \<and>
    core_cr3 s1 = core_cr3 s"
  proof cases
    case none
    then have "s1 = s" "requeued Q me s = Q me" by (simp_all add: s1_def switch_requeue_def requeued_def cur_def)
    moreover have "th_state (threads s u) \<noteq> THREAD_RUNNING" if "u \<in> T" "home s u = me" for u
      using run [OF that] schedD(1) [OF i that(1)] none by (auto simp: thread_wf_def)
    ultimately show ?thesis using i none by auto
  next
    case stay
    have e: "s1 = ?a" "requeued Q me s = Q me"
      using stay by (auto simp: s1_def switch_requeue_def requeued_def Let_def cur_def upd_thread_def)
    have st: "th_state (threads ?a u) = th_state (threads s u)" "chan (threads ?a u) = chan (threads s u)" for u
      by (simp_all add: upd_thread_def)
    have "sched_but (insert cur {} - {cur}) T Q ?a"
      by (rule sched_settle [OF upd_thread_inv [OF i]])
        (use schedD(2) [OF i] in \<open>auto simp: thread_placed_def ka st\<close>)
    moreover have "th_state (threads s u) \<noteq> THREAD_RUNNING" if "u \<in> T" "home s u = me" for u
      using run [OF that] schedD(1) [OF i that(1)] stay by (auto simp: thread_wf_def)
    ultimately show ?thesis using stay unfolding e by (auto simp: ka st)
  next
    case again
    note h = current_home [OF i me meta_eq_to_obj_eq [OF cur_def, symmetric] again(1,3)]
    have hb: "home ?b cur = me" using h(2) by (simp add: ka kb)
    have nq: "cur \<notin> set (Q me)"
      using schedD(2) [OF i h(1)] again(2) h(2) by (simp add: thread_placed_def)
    have ib: "sched_but {cur} T Q ?b"
      using upd_thread_inv [OF upd_thread_inv [OF i, of ?g cur], of ?h cur] by simp
    note en = enqueue_inv [OF ib h(1), unfolded hb, OF _ nq]
    have st: "th_state (threads ?b u) = (if u = cur then THREAD_READY else th_state (threads s u))"
      "context_frame (threads ?b u) = (if u = cur then regs else context_frame (threads s u))"
      "chan (threads ?b u) = chan (threads s u)" for u
      by (simp_all add: upd_thread_def)
    have e: "s1 = enqueue_thread me cur ?b" "requeued Q me s = Q me @ [cur]"
      using again by (simp_all add: s1_def switch_requeue_def requeued_def Let_def cur_def upd_thread_def)
    have rdy: "th_state (threads ?b cur) = THREAD_READY" by (simp add: st)
    note f = same_queue_facts [OF en(2) [OF rdy]]
    have fr: "sched_frame s s1"
      unfolding e
      by (rule sched_frame_trans [OF sched_frame_trans [OF sched_frame_upd(2,1)] sched_frame_queue [OF en(2) [OF rdy]]])
    have "th_state (threads s1 u) \<noteq> THREAD_RUNNING" if "u \<in> T" "home s u = me" for u
      using run [OF that] by (auto simp: e f st)
    moreover have "core_cr3 ?b = core_cr3 s" by (simp add: upd_thread_def)
    ultimately show ?thesis using en(1) [OF rdy] fr again unfolding e by (auto simp: f st ka kb)
  qed
  then show "sched_inv T (Q(me := requeued Q me s)) s1" "sched_frame s s1"
    "current_thread (cpus s1 c) = current_thread (cpus s c)"
    "u \<in> T \<Longrightarrow> home s u = me \<Longrightarrow> th_state (threads s1 u) \<noteq> THREAD_RUNNING"
    "th_state (threads s1 u) = (if u = cur \<and> cur \<noteq> 0 \<and> th_state (threads s cur) = THREAD_RUNNING \<and>
       tid (threads s cur) \<noteq> 0 then THREAD_READY else th_state (threads s u))"
    "context_frame (threads s1 u) = (if u = cur \<and> cur \<noteq> 0 then regs else context_frame (threads s u))"
    "core_cr3 s1 = core_cr3 s" "chan (threads s1 u) = chan (threads s u)"
    by blast+
qed

lemma set_current_facts:
  "home (set_current c n s) u = home s u" "cores (set_current c n s) = cores s"
  "tid (threads (set_current c n s) u) = tid (threads s u)"
  "rq (set_current c n s) d xs = rq s d xs"
  "th_state (threads (set_current c n s) u) = (if u = n then THREAD_RUNNING else th_state (threads s u))"
  "current_thread (cpus (set_current c n s) d) = (if d = c then n else current_thread (cpus s d))"
  "idle_thread (cpus (set_current c n s) d) = idle_thread (cpus s d)"
  "context_frame (threads (set_current c n s) u) = context_frame (threads s u)"
  "chan (threads (set_current c n s) u) = chan (threads s u)"
  "sched_frame s (set_current c n s)"
proof -
  have f: "sched_frame s (set_current c n s)"
    unfolding set_current_def using sched_frame_upd(1,5) by (rule sched_frame_trans)
  then show "home (set_current c n s) u = home s u" "cores (set_current c n s) = cores s"
    "tid (threads (set_current c n s) u) = tid (threads s u)"
    "idle_thread (cpus (set_current c n s) d) = idle_thread (cpus s d)"
    "sched_frame s (set_current c n s)"
    by (auto simp: sched_frame_home) (auto simp: sched_frame_def)
  have nx: "nxt (set_current c n s) = nxt s" by (auto simp: set_current_def upd_defs)
  show "rq (set_current c n s) d xs = rq s d xs"
    unfolding rq_def nx by (simp add: set_current_def upd_defs)
qed (simp_all add: set_current_def upd_defs)

lemma set_current_inv:
  assumes i: "sched_but X T Q s" and c: "c \<in> cores s" and X: "X \<subseteq> {n}"
    and n: "n \<in> {t \<in> T. home s t = c} \<or> n = idle_thread (cpus s c)" "n \<notin> set (Q c)"
    and idle: "\<And>u. u \<in> T \<Longrightarrow> home s u = c \<Longrightarrow> th_state (threads s u) \<noteq> THREAD_RUNNING"
  shows "sched_inv T Q (set_current c n s)"
proof -
  have "thread_placed Q (set_current c n s) u" if u: "u \<in> T" for u
  proof (cases "u = n")
    case True
    have "tid (threads s u) \<noteq> 0" using schedD(1) [OF i u] by (simp add: thread_wf_def)
    then have "home s u = c" using n(1) True coreD(4) [OF schedD(3) [OF i c]] by auto
    with True n(2) show ?thesis by (simp add: thread_placed_def set_current_facts)
  next
    case False
    with u X schedD(2) [OF i u] idle [OF u] show ?thesis
      by (auto simp: thread_placed_def set_current_facts)
  qed
  with i n(1) show ?thesis
    by (auto simp: sched_but_def thread_wf_def core_ok_def set_current_facts)
qed

text \<open>The rest of \<open>switch_to\<close> changes registers only.\<close>

definition same_sched :: "kernel \<Rightarrow> kernel \<Rightarrow> bool" where
  "same_sched s s' \<longleftrightarrow> sched_frame s s' \<and> threads s' = threads s \<and>
     (\<forall>c. current_thread (cpus s' c) = current_thread (cpus s c) \<and>
        ready_queue_head (cpus s' c) = ready_queue_head (cpus s c) \<and>
        ready_queue_tail (cpus s' c) = ready_queue_tail (cpus s c))"

lemma same_sched_inv: "same_sched s s' \<Longrightarrow> sched_but X T Q s \<Longrightarrow> sched_but X T Q s'"
proof -
  assume a: "same_sched s s'"
  then have "sched_frame s s'" by (simp add: same_sched_def)
  note h = sched_frame_home [OF this]
  have "idle_thread (cpus s' c) = idle_thread (cpus s c)" for c
    using a by (simp add: same_sched_def sched_frame_def)
  with a h show "sched_but X T Q s \<Longrightarrow> sched_but X T Q s'"
    by (simp add: sched_but_def thread_wf_def thread_placed_def core_ok_def rq_def same_sched_def)
qed

lemma switch_space_same: "switch_space me cur n s = s\<lparr>core_cr3 := core_cr3 (switch_space me cur n s)\<rparr>"
  by (simp add: switch_space_def Let_def)

lemma same_sched_regs:
  "same_sched s (s\<lparr>core_cr3 := r\<rparr>)" "same_sched s (s\<lparr>core_ts := ts\<rparr>)"
  "same_sched s (upd_cpu me (\<lambda>c. c\<lparr>tss_rsp0 := a, c_kernel_stack_top := b\<rparr>) s)"
  by (auto simp: same_sched_def sched_frame_def upd_cpu_def)

lemma same_sched_trans: "same_sched s s1 \<Longrightarrow> same_sched s1 s2 \<Longrightarrow> same_sched s s2"
  by (auto simp: same_sched_def intro: sched_frame_trans)

lemma switch_to_facts:
  fixes me cur n :: u64 and s :: kernel
  defines "s' \<equiv> switch_to me cur n s"
  shows "same_sched (set_current me n s) s'"
    "tss_rsp0 (cpus s' me) = th_kernel_stack_top (threads s n)"
    "c_kernel_stack_top (cpus s' me) = th_kernel_stack_top (threads s n)"
    "core_cr3 s' = core_cr3 (switch_space me cur n (set_current me n s))"
proof -
  let ?c = "set_current me n s"
  let ?s1 = "switch_space me cur n ?c"
  have s1: "same_sched ?c ?s1" by (subst switch_space_same) (rule same_sched_regs)
  let ?s2 = "upd_cpu me (\<lambda>c. c\<lparr>tss_rsp0 := th_kernel_stack_top (threads ?s1 n),
      c_kernel_stack_top := th_kernel_stack_top (threads ?s1 n)\<rparr>) ?s1"
  have s2: "same_sched ?c ?s2" by (rule same_sched_trans [OF s1 same_sched_regs(3)])
  have th: "th_kernel_stack_top (threads ?s1 n) = th_kernel_stack_top (threads s n)"
    using s1 set_current_facts(10) [of s me n] by (simp add: same_sched_def sched_frame_def)
  show "same_sched ?c s'"
    using s2 same_sched_trans [OF s2 same_sched_regs(2)] by (simp add: s'_def switch_to_def Let_def)
  show "tss_rsp0 (cpus s' me) = th_kernel_stack_top (threads s n)"
    "c_kernel_stack_top (cpus s' me) = th_kernel_stack_top (threads s n)" "core_cr3 s' = core_cr3 ?s1"
    by (simp_all add: s'_def switch_to_def Let_def upd_cpu_def th)
qed

text \<open>The address space that is active after a switch.\<close>

lemma switch_to_cr3:
  assumes "owner (threads s n) = p" "p \<noteq> 0" "cr3 (procs s p) \<noteq> 0"
    and "cur \<noteq> 0 \<Longrightarrow> tid (threads s cur) \<noteq> 0 \<Longrightarrow> owner (threads s cur) \<noteq> 0 \<Longrightarrow>
      core_cr3 s me = cr3 (procs s (owner (threads s cur)))"
  shows "core_cr3 (switch_to me cur n s) me = cr3 (procs s p)"
proof -
  have "owner (threads (set_current me n s) u) = owner (threads s u)"
    "procs (set_current me n s) = procs s" "core_cr3 (set_current me n s) = core_cr3 s" for u
    by (simp_all add: set_current_def upd_defs)
  with assms show ?thesis
    unfolding switch_to_facts(4) switch_space_def Let_def by (auto simp: set_current_facts)
qed

text \<open>
  The abstract scheduler: from the queue with the preempted thread at its end, take the head; when
  it is empty, run the idle thread.
\<close>

definition next_thread :: "(u64 \<Rightarrow> u64 list) \<Rightarrow> u64 \<Rightarrow> kernel \<Rightarrow> u64" where
  "next_thread Q me s = (case requeued Q me s of [] \<Rightarrow> idle_thread (cpus s me) | t # _ \<Rightarrow> t)"

definition next_queues :: "(u64 \<Rightarrow> u64 list) \<Rightarrow> u64 \<Rightarrow> kernel \<Rightarrow> u64 \<Rightarrow> u64 list" where
  "next_queues Q me s = Q(me := drop 1 (requeued Q me s))"

lemma switch_pick_inv:
  assumes i: "sched_inv T Q s" and me: "me \<in> cores s" and cur: "current_thread (cpus s me) = cur"
    and run: "\<And>u. u \<in> T \<Longrightarrow> home s u = me \<Longrightarrow> th_state (threads s u) \<noteq> THREAD_RUNNING"
  defines "n \<equiv> (case Q me of [] \<Rightarrow> idle_thread (cpus s me) | t # _ \<Rightarrow> t)"
  shows "\<exists>s1. switch_pick me cur s = (n, s1) \<and> n \<noteq> 0 \<and> same_but_queue me s s1 \<and>
    sched_inv T (Q(me := drop 1 (Q me))) (set_current me n s1)"
proof (cases "Q me")
  case Nil
  note co = schedD(3) [OF i me]
  have d: "dequeue_thread me s = (0, s)" using coreD(1) [OF co] Nil by (simp add: dequeue_rq_empty)
  have "\<not> (cur \<noteq> 0 \<and> tid (threads s cur) \<noteq> 0 \<and> th_state (threads s cur) = THREAD_READY)"
  proof
    assume a: "cur \<noteq> 0 \<and> tid (threads s cur) \<noteq> 0 \<and> th_state (threads s cur) = THREAD_READY"
    then have "cur \<in> T" "home s cur = me" using current_home [OF i me cur] by auto
    with schedD(2) [OF i, of cur] a Nil show False by (simp add: thread_placed_def)
  qed
  then have p: "switch_pick me cur s = (n, s)" using d Nil by (auto simp: switch_pick_def n_def)
  have "sched_inv T (Q(me := drop 1 (Q me))) (set_current me n s)"
    by (rule set_current_inv [where X = "{}"]) (use i me run Nil in \<open>auto simp: n_def fun_upd_idem\<close>)
  moreover have "same_but_queue me s s" by (simp add: same_but_queue_def)
  moreover have "n \<noteq> 0" using coreD(3) [OF co] Nil by (simp add: n_def)
  ultimately show ?thesis using p by blast
next
  case (Cons t ts)
  note co = coreD [OF schedD(3) [OF i me]]
  have n: "n = t" by (simp add: n_def Cons)
  from dequeue_inv [OF i me Cons] obtain s1 where
    s1: "dequeue_thread me s = (t, s1)" "sched_but {t} T (Q(me := ts)) s1" "same_but_queue me s s1"
    by blast
  note f = same_queue_facts [OF s1(3)]
  have t: "t \<in> T" "home s t = me" "t \<noteq> 0" "t \<notin> set ts"
    using co(2) [of t] rq_set [OF co(1)] Cons by auto
  have "sched_inv T (Q(me := ts)) (set_current me t s1)"
    by (rule set_current_inv [OF s1(2)]) (use me t run in \<open>auto simp: f\<close>)
  then show ?thesis using s1 t(3) Cons n by (intro exI [of _ s1]) (simp add: switch_pick_def)
qed

lemma task_switch_spec:
  fixes me regs :: u64
  assumes i: "sched_inv T Q s" and me: "me \<in> cores s"
  defines "n \<equiv> next_thread Q me s"
  shows "\<exists>s'. task_switch me regs s =
      Some (if n = current_thread (cpus s me) then regs else context_frame (threads s n), s') \<and>
    sched_inv T (next_queues Q me s) s' \<and> sched_frame s s' \<and>
    current_thread (cpus s' me) = n \<and>
    (\<forall>u. th_state (threads s' u) =
       (if u = n then THREAD_RUNNING
        else if u = current_thread (cpus s me) \<and> u \<noteq> 0 \<and> th_state (threads s u) = THREAD_RUNNING \<and>
          tid (threads s u) \<noteq> 0 then THREAD_READY else th_state (threads s u))) \<and>
    (\<forall>u. chan (threads s' u) = chan (threads s u)) \<and>
    (\<forall>c. c \<noteq> me \<longrightarrow> current_thread (cpus s' c) = current_thread (cpus s c)) \<and>
    tss_rsp0 (cpus s' me) = th_kernel_stack_top (threads s n) \<and>
    c_kernel_stack_top (cpus s' me) = th_kernel_stack_top (threads s n) \<and>
    (\<forall>p. owner (threads s n) = p \<longrightarrow> p \<noteq> 0 \<longrightarrow> cr3 (procs s p) \<noteq> 0 \<longrightarrow>
       (current_thread (cpus s me) \<noteq> 0 \<longrightarrow> tid (threads s (current_thread (cpus s me))) \<noteq> 0 \<longrightarrow>
        owner (threads s (current_thread (cpus s me))) \<noteq> 0 \<longrightarrow>
        core_cr3 s me = cr3 (procs s (owner (threads s (current_thread (cpus s me)))))) \<longrightarrow>
       core_cr3 s' me = cr3 (procs s p))"
proof -
  let ?cur = "current_thread (cpus s me)" and ?s1 = "switch_requeue me regs s"
  note r = requeue_inv [OF i me, where regs = regs]
  note fr1 = sched_frame_home [OF r(2)]
  have me1: "me \<in> cores ?s1" using me fr1 by simp
  have n1: "(case (Q(me := requeued Q me s)) me of [] \<Rightarrow> idle_thread (cpus ?s1 me) | t # _ \<Rightarrow> t) = n"
    using r(2) by (auto simp: n_def next_thread_def sched_frame_def split: list.splits)
  have cur1: "current_thread (cpus ?s1 me) = ?cur" by (rule r(3))
  from switch_pick_inv [OF r(1) me1 cur1, unfolded n1] r(4) fr1(1) obtain s2 where
    s2: "switch_pick me ?cur ?s1 = (n, s2)" "n \<noteq> 0" "same_but_queue me ?s1 s2"
      "sched_inv T (Q(me := drop 1 (requeued Q me s))) (set_current me n s2)"
    by auto
  note f2 = same_queue_facts [OF s2(3)]
  let ?s' = "switch_to me ?cur n s2"
  note sw = switch_to_facts [where me = me and n = n and s = s2 and cur = ?cur]
  have fs2: "sched_frame s s2" by (rule sched_frame_trans [OF r(2) sched_frame_queue [OF s2(3)]])
  have fr: "sched_frame s ?s'"
    using sched_frame_trans [OF fs2 set_current_facts(10)] sw(1) sched_frame_trans
    by (fastforce simp: same_sched_def)
  have th: "threads ?s' = threads (set_current me n s2)"
    "\<And>c. current_thread (cpus ?s' c) = current_thread (cpus (set_current me n s2) c)"
    using sw(1) by (auto simp: same_sched_def)
  have "task_switch me regs s = Some (context_frame (threads ?s' n), ?s')"
    using s2(1,2) by (simp add: task_switch_def Let_def)
  moreover have "context_frame (threads ?s' n) = (if n = ?cur then regs else context_frame (threads s n))"
    using r(6) [of n] s2(2) by (simp add: th set_current_facts f2)
  moreover have "sched_inv T (next_queues Q me s) ?s'"
    unfolding next_queues_def by (rule same_sched_inv [OF sw(1) s2(4)])
  moreover have "th_kernel_stack_top (threads s2 n) = th_kernel_stack_top (threads s n)"
    using fs2 by (simp add: sched_frame_def)
  moreover have "core_cr3 ?s' me = cr3 (procs s p)"
    if "owner (threads s n) = p" "p \<noteq> 0" "cr3 (procs s p) \<noteq> 0"
      "?cur \<noteq> 0 \<longrightarrow> tid (threads s ?cur) \<noteq> 0 \<longrightarrow> owner (threads s ?cur) \<noteq> 0 \<longrightarrow>
        core_cr3 s me = cr3 (procs s (owner (threads s ?cur)))" for p
  proof -
    have e: "owner (threads s2 u) = owner (threads s u)" "tid (threads s2 u) = tid (threads s u)"
      "procs s2 = procs s" "core_cr3 s2 = core_cr3 s" for u
      using fs2 r(7) by (auto simp: sched_frame_def f2)
    have "core_cr3 ?s' me = cr3 (procs s2 p)"
      by (rule switch_to_cr3) (use that in \<open>auto simp: e\<close>)
    then show ?thesis by (simp add: e)
  qed
  ultimately show ?thesis
    using fr sw(2,3) by (intro exI [of _ ?s']) (auto simp: th set_current_facts f2 r(3,5,8))
qed

section \<open>Waiting and waking\<close>

definition waits_on :: "u64 \<Rightarrow> kernel \<Rightarrow> u64 \<Rightarrow> bool" where
  "waits_on ch s t \<longleftrightarrow> t \<noteq> 0 \<and> th_state (threads s t) = THREAD_WAITING \<and> chan (threads s t) = ch"

lemma wake_if_idle: "\<not> waits_on ch s t \<Longrightarrow> wake_if ch t s = s"
  by (auto simp: wake_if_def waits_on_def)

lemma wake_state:
  assumes i: "sched_inv T Q s" and t: "t \<in> T" and st: "st \<in> {THREAD_WAITING, THREAD_BLOCKED, THREAD_DEAD}"
    "th_state (threads s t) = st" and g: "keeps_links g" "\<And>x. th_state (g x) = THREAD_READY"
    "\<And>x. owner (g x) = owner x" "\<And>x. th_kernel_stack_top (g x) = th_kernel_stack_top x"
  defines "s1 \<equiv> upd_thread t g s"
  defines "s' \<equiv> enqueue_thread (home s1 t) t s1"
  shows "sched_inv T (Q(home s t := Q (home s t) @ [t])) s'" "sched_frame s s'"
    "threads s' t = (g (threads s t))\<lparr>th_next := nxt s' t\<rparr>"
    "u \<noteq> t \<Longrightarrow> threads s' u = (threads s u)\<lparr>th_next := nxt s' u\<rparr>"
    "current_thread (cpus s' c) = current_thread (cpus s c)"
proof -
  note f = upd_thread_facts [OF g(1), where t = t and s = s, folded s1_def]
  have i1: "sched_but {t} T Q s1" using upd_thread_inv [OF i g(1), of t] by (simp add: s1_def)
  have nq: "t \<notin> set (Q (home s1 t))"
    using schedD(2) [OF i t] st by (auto simp: f thread_placed_def)
  have rdy: "th_state (threads s1 t) = THREAD_READY" using g(2) by (simp add: f)
  note e = enqueue_inv [OF i1 t rdy nq, folded s'_def]
  show "sched_inv T (Q(home s t := Q (home s t) @ [t])) s'" using e(1) by (simp add: f)
  have "sched_frame s s1" using g unfolding s1_def by (auto simp: sched_frame_def upd_thread_def keeps_links_def)
  then show "sched_frame s s'" by (rule sched_frame_trans [OF _ sched_frame_queue [OF e(2)]])
  have th: "threads s' u = (threads s1 u)\<lparr>th_next := nxt s' u\<rparr>" for u
    using e(2) by (simp add: same_but_queue_def)
  show "threads s' t = (g (threads s t))\<lparr>th_next := nxt s' t\<rparr>" by (subst th) (simp add: f)
  show "threads s' u = (threads s u)\<lparr>th_next := nxt s' u\<rparr>" if "u \<noteq> t"
    using that by (subst th) (simp add: f)
  show "current_thread (cpus s' c) = current_thread (cpus s c)"
    using same_queue_facts(8) [OF e(2)] by (simp add: f)
qed

lemma wake_if_inv:
  assumes i: "sched_inv T Q s" and t: "t \<in> T" and w: "waits_on ch s t"
  defines "s' \<equiv> wake_if ch t s"
  shows "sched_inv T (Q(home s t := Q (home s t) @ [t])) s'" "sched_frame s s'"
    "th_state (threads s' t) = THREAD_READY" "chan (threads s' t) = 0"
    "u \<noteq> t \<Longrightarrow> th_state (threads s' u) = th_state (threads s u) \<and> chan (threads s' u) = chan (threads s u)"
    "current_thread (cpus s' c) = current_thread (cpus s c)"
proof -
  let ?g = "\<lambda>t. t\<lparr>chan := 0, th_state := THREAD_READY\<rparr>"
  let ?s1 = "upd_thread t ?g s"
  from w have e: "s' = enqueue_thread (home ?s1 t) t ?s1"
    by (simp add: s'_def wake_if_def waits_on_def home_def Let_def)
  have st: "th_state (threads s t) = THREAD_WAITING" using w by (simp add: waits_on_def)
  note k = wake_state [OF i t _ st, of ?g, folded e]
  show "sched_inv T (Q(home s t := Q (home s t) @ [t])) s'" "sched_frame s s'"
    "current_thread (cpus s' c) = current_thread (cpus s c)"
    by (rule k; simp)+
  have et: "threads s' t = (?g (threads s t))\<lparr>th_next := nxt s' t\<rparr>" by (rule k(3)) simp_all
  show "th_state (threads s' t) = THREAD_READY" "chan (threads s' t) = 0" by (subst et, simp)+
  show "th_state (threads s' u) = th_state (threads s u) \<and> chan (threads s' u) = chan (threads s u)" if "u \<noteq> t"
  proof -
    have eu: "threads s' u = (threads s u)\<lparr>th_next := nxt s' u\<rparr>" using that by (intro k(4)) simp_all
    show ?thesis by (intro conjI; subst eu, simp)
  qed
qed

text \<open>
  \<open>wakeup\<close> visits the main threads of the registered processes. The threads it wakes are
  appended to the queues of their cores.
\<close>

lemma wakeup_loop_inv:
  assumes "chain (\<lambda>p. p_next (procs s p)) h ps" "sched_inv T Q s"
    "\<forall>p\<in>set ps. waits_on ch s (main_thread (procs s p)) \<longrightarrow> main_thread (procs s p) \<in> T" "ch \<noteq> 0"
  shows "\<exists>s' Q'. wakeup_loop ch h s = Some s' \<and> sched_inv T Q' s' \<and> sched_frame s s' \<and>
    (\<forall>c. current_thread (cpus s' c) = current_thread (cpus s c)) \<and>
    (\<forall>c. \<exists>zs. Q' c = Q c @ zs) \<and>
    (\<forall>t. th_state (threads s' t) = (if \<exists>p\<in>set ps. t = main_thread (procs s p) \<and> waits_on ch s t
       then THREAD_READY else th_state (threads s t))) \<and>
    (\<forall>t. chan (threads s' t) = (if \<exists>p\<in>set ps. t = main_thread (procs s p) \<and> waits_on ch s t
       then 0 else chan (threads s t)))"
  using assms
proof (induction ps arbitrary: h s Q)
  case Nil
  then have "wakeup_loop ch h s = Some s" by (subst wakeup_loop.simps) simp
  then show ?case using Nil.prems(2) by (intro exI [of _ s] exI [of _ Q]) auto
next
  case (Cons p ps)
  let ?t = "main_thread (procs s p)"
  define s1 where "s1 = wake_if ch ?t s"
  define Q1 where "Q1 = (if waits_on ch s ?t then Q(home s ?t := Q (home s ?t) @ [?t]) else Q)"
  have one: "sched_inv T Q1 s1 \<and> sched_frame s s1 \<and>
    (\<forall>c. current_thread (cpus s1 c) = current_thread (cpus s c)) \<and>
    (\<forall>t. th_state (threads s1 t) = (if t = ?t \<and> waits_on ch s t then THREAD_READY else th_state (threads s t)) \<and>
      chan (threads s1 t) = (if t = ?t \<and> waits_on ch s t then 0 else chan (threads s t)))"
  proof (cases "waits_on ch s ?t")
    case True
    then have tT: "?t \<in> T" using Cons.prems(3) by simp
    note w = wake_if_inv [OF Cons.prems(2) tT True, folded s1_def]
    from w(1,2,6) w(3-5) True show ?thesis unfolding Q1_def by auto
  next
    case False
    then have "s1 = s" by (simp add: s1_def wake_if_idle)
    with False Cons.prems(2) show ?thesis by (auto simp: Q1_def)
  qed
  then have pr: "procs s1 = procs s" by (simp add: sched_frame_def)
  have w1: "waits_on ch s1 t \<longleftrightarrow> waits_on ch s t \<and> t \<noteq> ?t" for t
    using one Cons.prems(4) by (auto simp: waits_on_def)
  have h: "h = p" "p \<noteq> 0" "chain (\<lambda>p. p_next (procs s1 p)) (p_next (procs s1 p)) ps"
    using Cons.prems(1) pr by auto
  have "\<exists>s' Q'. wakeup_loop ch (p_next (procs s1 p)) s1 = Some s' \<and> sched_inv T Q' s' \<and> sched_frame s1 s' \<and>
    (\<forall>c. current_thread (cpus s' c) = current_thread (cpus s1 c)) \<and>
    (\<forall>c. \<exists>zs. Q' c = Q1 c @ zs) \<and>
    (\<forall>t. th_state (threads s' t) = (if \<exists>p\<in>set ps. t = main_thread (procs s1 p) \<and> waits_on ch s1 t
       then THREAD_READY else th_state (threads s1 t))) \<and>
    (\<forall>t. chan (threads s' t) = (if \<exists>p\<in>set ps. t = main_thread (procs s1 p) \<and> waits_on ch s1 t
       then 0 else chan (threads s1 t)))"
    by (rule Cons.IH [OF h(3)]) (use one Cons.prems(3,4) pr w1 in auto)
  then obtain s' Q' where r: "wakeup_loop ch (p_next (procs s1 p)) s1 = Some s'" "sched_inv T Q' s'"
    "sched_frame s1 s'" "\<And>c. current_thread (cpus s' c) = current_thread (cpus s1 c)"
    "\<And>c. \<exists>zs. Q' c = Q1 c @ zs"
    "\<And>t. th_state (threads s' t) = (if \<exists>p\<in>set ps. t = main_thread (procs s1 p) \<and> waits_on ch s1 t
       then THREAD_READY else th_state (threads s1 t))"
    "\<And>t. chan (threads s' t) = (if \<exists>p\<in>set ps. t = main_thread (procs s1 p) \<and> waits_on ch s1 t
       then 0 else chan (threads s1 t))"
    by blast
  have "wakeup_loop ch h s = Some s'"
    using r(1) h(1,2) by (subst wakeup_loop.simps) (simp add: s1_def Let_def)
  moreover have "\<exists>zs. Q' c = Q c @ zs" for c
  proof -
    have "\<exists>zs. Q1 c = Q c @ zs" by (simp add: Q1_def)
    with r(5) [of c] show ?thesis by auto
  qed
  moreover have "sched_frame s s'" using one r(3) sched_frame_trans by blast
  ultimately show ?case using r(2,4) one
    by (intro exI [of _ s'] exI [of _ Q']) (auto simp: r(6,7) pr w1)
qed

section \<open>Runs of the scheduler\<close>

text \<open>
  The steps of a system: a task switch on a core, the first half of \<open>wait\<close> on a core, a wakeup of a
  channel or of one thread, and the start of a process. The second half of \<open>wait\<close> is a task
  switch, so any step of another core may come in between.
\<close>

datatype act =
  Switch u64 u64
| Mark u64 u64
| Wake u64
| Wake_thread u64 u64
| Start u64 u64

fun exec :: "act \<Rightarrow> kernel \<Rightarrow> kernel option" where
  "exec (Switch me regs) s = map_option snd (task_switch me regs s)"
| "exec (Mark me ch) s = wait_mark me ch s"
| "exec (Wake ch) s = wakeup ch s"
| "exec (Wake_thread ch t) s = Some (wakeup_thread ch t s)"
| "exec (Start me p) s = Some (scheduler_ready_process me p s)"

fun enabled :: "u64 set \<Rightarrow> kernel \<Rightarrow> act \<Rightarrow> bool" where
  "enabled T s (Switch me regs) \<longleftrightarrow> me \<in> cores s"
| "enabled T s (Mark me ch) \<longleftrightarrow> me \<in> cores s \<and> ch \<noteq> 0 \<and> current_thread (cpus s me) \<noteq> 0 \<and>
     th_state (threads s (current_thread (cpus s me))) = THREAD_RUNNING"
| "enabled T s (Wake ch) \<longleftrightarrow> True"
| "enabled T s (Wake_thread ch t) \<longleftrightarrow> t \<in> T"
| "enabled T s (Start me p) \<longleftrightarrow> p \<noteq> 0 \<and> main_thread (procs s p) \<notin> T \<and>
     thread_wf s (main_thread (procs s p)) \<and> th_state (threads s (main_thread (procs s p))) = THREAD_READY"

fun managed :: "u64 set \<Rightarrow> kernel \<Rightarrow> act \<Rightarrow> u64 set" where
  "managed T s (Start me p) = insert (main_thread (procs s p)) T"
| "managed T s (Switch me regs) = T"
| "managed T s (Mark me ch) = T"
| "managed T s (Wake ch) = T"
| "managed T s (Wake_thread ch t) = T"

text \<open>The registered processes, and main threads that are either managed or not started.\<close>

definition mains_ok :: "u64 list \<Rightarrow> u64 set \<Rightarrow> kernel \<Rightarrow> bool" where
  "mains_ok ps T s \<longleftrightarrow> listed s ps \<and> (\<forall>p\<in>set ps. let t = main_thread (procs s p) in
     t = 0 \<or> t \<in> T \<or> (tid (threads s t) \<noteq> 0 \<and> th_state (threads s t) \<notin> {THREAD_WAITING, THREAD_BLOCKED}))"

definition kinv :: "u64 list \<Rightarrow> u64 set \<Rightarrow> (u64 \<Rightarrow> u64 list) \<Rightarrow> kernel \<Rightarrow> bool" where
  "kinv ps T Q s \<longleftrightarrow> sched_inv T Q s \<and> mains_ok ps T s"

text \<open>How a step may change the queue of core \<open>c\<close>.\<close>

definition advances :: "act \<Rightarrow> u64 \<Rightarrow> (u64 \<Rightarrow> u64 list) \<Rightarrow> kernel \<Rightarrow> (u64 \<Rightarrow> u64 list) \<Rightarrow> kernel \<Rightarrow> bool" where
  "advances a c Q s Q' s' \<longleftrightarrow>
     (if \<exists>regs. a = Switch c regs
      then Q' c = drop 1 (requeued Q c s) \<and> current_thread (cpus s' c) = next_thread Q c s
      else \<exists>zs. Q' c = Q c @ zs)"

lemma mains_ok_frame:
  assumes m: "mains_ok ps T s" and f: "sched_frame s s'"
    and st: "\<And>t. t \<notin> T \<Longrightarrow> tid (threads s t) \<noteq> 0 \<Longrightarrow> th_state (threads s' t) \<in> {THREAD_WAITING, THREAD_BLOCKED} \<Longrightarrow>
      th_state (threads s t) \<in> {THREAD_WAITING, THREAD_BLOCKED}"
  shows "mains_ok ps T s'"
proof -
  have "listed s' ps" using m f by (simp add: mains_ok_def listed_def sched_frame_def)
  moreover have "main_thread (procs s' p) = main_thread (procs s p)" "tid (threads s' t) = tid (threads s t)" for p t
    using f by (simp_all add: sched_frame_def)
  ultimately show ?thesis using m st unfolding mains_ok_def Let_def by metis
qed

lemma step_switch:
  assumes k: "kinv ps T Q s" and me: "me \<in> cores s"
  shows "\<exists>s'. exec (Switch me regs) s = Some s' \<and> kinv ps T (next_queues Q me s) s' \<and> sched_frame s s' \<and>
    (\<forall>c. advances (Switch me regs) c Q s (next_queues Q me s) s')"
proof -
  from k have i: "sched_inv T Q s" and m: "mains_ok ps T s" by (simp_all add: kinv_def)
  from task_switch_spec [OF i me, of regs] obtain f s' where
    s': "task_switch me regs s = Some (f, s')" "sched_inv T (next_queues Q me s) s'" "sched_frame s s'"
      "current_thread (cpus s' me) = next_thread Q me s"
      "\<And>u. th_state (threads s' u) = (if u = next_thread Q me s then THREAD_RUNNING
        else if u = current_thread (cpus s me) \<and> u \<noteq> 0 \<and> th_state (threads s u) = THREAD_RUNNING \<and>
          tid (threads s u) \<noteq> 0 then THREAD_READY else th_state (threads s u))"
    by blast
  have "mains_ok ps T s'"
    by (rule mains_ok_frame [OF m s'(3)]) (auto simp: s'(5) split: if_splits)
  with s' show ?thesis by (auto simp: kinv_def advances_def next_queues_def)
qed

lemma step_mark:
  assumes k: "kinv ps T Q s" and e: "enabled T s (Mark me ch)"
  shows "\<exists>s'. exec (Mark me ch) s = Some s' \<and> kinv ps T Q s' \<and> sched_frame s s' \<and>
    waits_on ch s' (current_thread (cpus s me)) \<and>
    (\<forall>t. t \<noteq> current_thread (cpus s me) \<longrightarrow> threads s' t = threads s t)"
proof -
  let ?t = "current_thread (cpus s me)" and ?g = "\<lambda>t. t\<lparr>chan := ch, th_state := THREAD_WAITING\<rparr>"
  let ?s' = "upd_thread ?t ?g s"
  from k have i: "sched_inv T Q s" and m: "mains_ok ps T s" by (simp_all add: kinv_def)
  from e have me: "me \<in> cores s" and t: "?t \<noteq> 0" "th_state (threads s ?t) = THREAD_RUNNING" by simp_all
  note f = upd_thread_facts [of ?g, where t = ?t and s = s]
  have "sched_but (insert ?t {} - {?t}) T Q ?s'"
  proof (rule sched_settle [OF upd_thread_inv [OF i]])
    assume "?t \<in> T"
    with schedD(2) [OF i this] t(2) show "thread_placed Q ?s' ?t" by (auto simp: thread_placed_def f)
  qed simp
  moreover have "mains_ok ps T ?s'"
  proof (rule mains_ok_frame [OF m sched_frame_upd(3)])
    fix u assume u: "u \<notin> T" "tid (threads s u) \<noteq> 0" "th_state (threads ?s' u) \<in> {THREAD_WAITING, THREAD_BLOCKED}"
    have "u \<noteq> ?t" using current_home(1) [OF i me] t(1) u(1,2) by auto
    with u(3) show "th_state (threads s u) \<in> {THREAD_WAITING, THREAD_BLOCKED}" by (simp add: f)
  qed
  ultimately have "kinv ps T Q ?s'" by (simp add: kinv_def)
  moreover have "exec (Mark me ch) s = Some ?s'" using t(1) by (simp add: wait_mark_def Let_def)
  moreover have "waits_on ch ?s' ?t" using t(1) by (simp add: waits_on_def f)
  ultimately show ?thesis by (auto simp: f)
qed

lemma mains_waiting:
  assumes "mains_ok ps T s" "p \<in> set ps" "waits_on ch s (main_thread (procs s p))"
  shows "main_thread (procs s p) \<in> T"
  using assms by (auto simp: mains_ok_def waits_on_def Let_def)

lemma wakeup_spec:
  assumes k: "kinv ps T Q s" and ch: "ch \<noteq> 0"
  shows "\<exists>s' Q'. wakeup ch s = Some s' \<and> kinv ps T Q' s' \<and> sched_frame s s' \<and>
    (\<forall>c. current_thread (cpus s' c) = current_thread (cpus s c)) \<and> (\<forall>c. \<exists>zs. Q' c = Q c @ zs) \<and>
    (\<forall>t. th_state (threads s' t) = (if \<exists>p\<in>set ps. t = main_thread (procs s p) \<and> waits_on ch s t
       then THREAD_READY else th_state (threads s t)))"
proof -
  from k have i: "sched_inv T Q s" and m: "mains_ok ps T s" by (simp_all add: kinv_def)
  then have l: "chain (\<lambda>p. p_next (procs s p)) (g_process_list_head s) ps"
    by (simp add: mains_ok_def listed_def)
  from wakeup_loop_inv [OF l i _ ch] mains_waiting [OF m] obtain s' Q' where
    r: "wakeup_loop ch (g_process_list_head s) s = Some s'" "sched_inv T Q' s'" "sched_frame s s'"
      "\<forall>c. current_thread (cpus s' c) = current_thread (cpus s c)" "\<forall>c. \<exists>zs. Q' c = Q c @ zs"
      "\<And>t. th_state (threads s' t) = (if \<exists>p\<in>set ps. t = main_thread (procs s p) \<and> waits_on ch s t
         then THREAD_READY else th_state (threads s t))"
    by blast
  have "mains_ok ps T s'"
    by (rule mains_ok_frame [OF m r(3)]) (auto simp: r(6) split: if_splits)
  then show ?thesis using r ch unfolding kinv_def wakeup_def
    by (intro exI [of _ s'] exI [of _ Q']) auto
qed

lemma step_wake_thread:
  assumes k: "kinv ps T Q s" and t: "t \<in> T"
  shows "\<exists>Q'. kinv ps T Q' (wakeup_thread ch t s) \<and> sched_frame s (wakeup_thread ch t s) \<and>
    (\<forall>c. \<exists>zs. Q' c = Q c @ zs)"
proof (cases "ch \<noteq> 0 \<and> waits_on ch s t")
  case True
  from k have i: "sched_inv T Q s" and m: "mains_ok ps T s" by (simp_all add: kinv_def)
  have w: "waits_on ch s t" and e: "wakeup_thread ch t s = wake_if ch t s"
    using True by (auto simp: wakeup_thread_def waits_on_def)
  note r = wake_if_inv [OF i t w]
  have "mains_ok ps T (wake_if ch t s)"
  proof (rule mains_ok_frame [OF m r(2)])
    fix u assume "u \<notin> T" "th_state (threads (wake_if ch t s) u) \<in> {THREAD_WAITING, THREAD_BLOCKED}"
    then show "th_state (threads s u) \<in> {THREAD_WAITING, THREAD_BLOCKED}" using r(5) [of u] t by (cases "u = t") auto
  qed
  with r(1,2) show ?thesis unfolding e kinv_def
    by (intro exI [of _ "Q(home s t := Q (home s t) @ [t])"]) auto
next
  case False
  then have "wakeup_thread ch t s = s" by (auto simp: wakeup_thread_def wake_if_idle)
  then show ?thesis using k by (intro exI [of _ Q]) auto
qed

lemma sched_but_proc: "sched_but X T Q (upd_proc p f s) = sched_but X T Q s"
  by (simp add: sched_but_def thread_wf_def thread_placed_def core_ok_def rq_def home_def cores_def
      get_cpu_data_block_def upd_proc_def)

lemma step_start:
  assumes k: "kinv ps T Q s" and e: "enabled T s (Start me p)"
  defines "t \<equiv> main_thread (procs s p)" and "s' \<equiv> scheduler_ready_process me p s"
  shows "kinv ps (insert t T) (Q(home s t := Q (home s t) @ [t])) s'" "cores s' = cores s"
    "th_state (threads s' t) = THREAD_READY" "p_state (procs s' p) = PROCESS_READY"
proof -
  let ?s1 = "upd_proc p (p_state_update (\<lambda>_. PROCESS_READY)) s"
  from k have i: "sched_inv T Q s" and m: "mains_ok ps T s" by (simp_all add: kinv_def)
  from e have p: "p \<noteq> 0" and t: "t \<notin> T" "thread_wf s t" "th_state (threads s t) = THREAD_READY"
    by (simp_all add: t_def)
  have h: "home ?s1 t = home s t" "th_state (threads ?s1 t) = THREAD_READY" "cores ?s1 = cores s"
    using t(3) by (simp_all add: home_def get_cpu_data_block_def cores_def upd_proc_def)
  have i1: "sched_but {t} (insert t T) Q ?s1"
    unfolding sched_but_proc using i t(2) unfolding sched_but_def by (auto simp: core_ok_def)
  have nq: "t \<notin> set (Q (home ?s1 t))"
    unfolding h using t coreD(2) [OF schedD(3) [OF i], of "home s t" t] by (auto simp: thread_wf_def)
  note q = enqueue_inv [OF i1 _ h(2) nq]
  have hn: "home s t \<noteq> 0" "t \<noteq> 0" using t(2) core_nz by (auto simp: thread_wf_def)
  have mt: "main_thread (procs s p) = t" "main_thread (procs ?s1 p) = t" "threads ?s1 = threads s"
    by (simp_all add: t_def upd_proc_def)
  have ce: "get_cpu_data_block ?s1 (th_cpu_id (threads ?s1 t)) = home s t"
    using h(1) by (simp add: home_def)
  have e': "s' = enqueue_thread (home ?s1 t) t ?s1"
    using p hn ce unfolding s'_def scheduler_ready_process_def dispatch_def Let_def mt h by (simp add: mt)
  have sb: "same_but_queue (home ?s1 t) ?s1 s'" unfolding e' by (rule q(2)) simp
  note f = same_queue_facts [OF sb]
  have si: "sched_inv (insert t T) (Q(home s t := Q (home s t) @ [t])) s'"
    using q(1) unfolding e' h(1) by simp
  have "listed ?s1 ps = listed s ps" unfolding listed_def upd_proc_def
    by (intro arg_cong2 [where f = "\<lambda>n h. chain n h ps"]) (auto simp: fun_eq_iff)
  then have "listed s' ps" using m unfolding listed_def mains_ok_def by (simp add: f)
  then have "mains_ok ps (insert t T) s'"
    using m unfolding mains_ok_def Let_def by (auto simp: f upd_proc_def)
  with si show "kinv ps (insert t T) (Q(home s t := Q (home s t) @ [t])) s'" by (simp add: kinv_def)
  show "cores s' = cores s" "th_state (threads s' t) = THREAD_READY" "p_state (procs s' p) = PROCESS_READY"
    using h t(3) by (simp_all add: f upd_proc_def)
qed

lemma step_inv:
  assumes k: "kinv ps T Q s" and e: "enabled T s a"
  shows "\<exists>s' Q'. exec a s = Some s' \<and> kinv ps (managed T s a) Q' s' \<and> cores s' = cores s \<and>
    (\<forall>c. advances a c Q s Q' s')"
proof (cases a)
  case (Switch me regs)
  with step_switch [OF k, of me regs] e sched_frame_home(2) show ?thesis by fastforce
next
  case (Mark me ch)
  from step_mark [OF k e [unfolded Mark]] obtain s' where
    "exec (Mark me ch) s = Some s'" "kinv ps T Q s'" "sched_frame s s'" by blast
  with Mark sched_frame_home(2) show ?thesis
    by (intro exI [of _ s'] exI [of _ Q]) (auto simp: advances_def)
next
  case (Wake ch)
  show ?thesis
  proof (cases "ch = 0")
    case True
    with Wake k show ?thesis by (intro exI [of _ s] exI [of _ Q]) (auto simp: wakeup_def advances_def)
  next
    case False
    from wakeup_spec [OF k this] obtain s' Q' where
      "wakeup ch s = Some s'" "kinv ps T Q' s'" "sched_frame s s'" "\<forall>c. \<exists>zs. Q' c = Q c @ zs" by blast
    with Wake sched_frame_home(2) show ?thesis
      by (intro exI [of _ s'] exI [of _ Q']) (auto simp: advances_def)
  qed
next
  case (Wake_thread ch t)
  with e have "t \<in> T" by simp
  from step_wake_thread [OF k this, of ch] obtain Q' where
    "kinv ps T Q' (wakeup_thread ch t s)" "sched_frame s (wakeup_thread ch t s)" "\<forall>c. \<exists>zs. Q' c = Q c @ zs"
    by blast
  with Wake_thread sched_frame_home(2) show ?thesis
    by (intro exI [of _ "wakeup_thread ch t s"] exI [of _ Q']) (auto simp: advances_def)
next
  case (Start me p)
  note r = step_start [OF k e [unfolded Start]]
  with Start show ?thesis
    by (intro exI [of _ "scheduler_ready_process me p s"]
        exI [of _ "Q(home s (main_thread (procs s p)) := Q (home s (main_thread (procs s p))) @ [main_thread (procs s p)])"])
      (auto simp: advances_def)
qed

inductive runs :: "u64 set \<Rightarrow> kernel \<Rightarrow> act list \<Rightarrow> u64 set \<Rightarrow> kernel \<Rightarrow> bool" where
  runs_nil: "runs T s [] T s"
| runs_cons: "enabled T s a \<Longrightarrow> exec a s = Some sm \<Longrightarrow> runs (managed T s a) sm as T' s' \<Longrightarrow>
    runs T s (a # as) T' s'"

inductive_cases runs_ConsE: "runs T s (a # as) T' s'"
inductive_simps runs_Nil [simp]: "runs T s [] T' s'"

lemma runs_inv:
  assumes "runs T s as T' s'" "kinv ps T Q s"
  shows "\<exists>Q'. kinv ps T' Q' s' \<and> cores s' = cores s"
  using assms
proof (induction arbitrary: Q rule: runs.induct)
  case (runs_cons T s a s1 as T' s')
  from step_inv [OF runs_cons.prems runs_cons.hyps(1)] runs_cons.hyps(2) obtain Q1 where
    "kinv ps (managed T s a) Q1 s1" "cores s1 = cores s" by auto
  with runs_cons.IH show ?case by metis
qed auto

text \<open>A thread is on at most one core, and a thread that could run is never lost.\<close>

lemma kinv_safe:
  assumes k: "kinv ps T Q s"
  shows "\<forall>c\<in>cores s. \<forall>d\<in>cores s. \<forall>t. current_thread (cpus s c) = t \<and> current_thread (cpus s d) = t \<and>
      t \<noteq> 0 \<and> tid (threads s t) \<noteq> 0 \<longrightarrow> c = d"
    and "\<forall>t\<in>T. th_state (threads s t) = THREAD_READY \<longrightarrow>
      (\<exists>c\<in>cores s. \<exists>xs. rq s c xs \<and> t \<in> set xs)"
    and "\<forall>t\<in>T. th_state (threads s t) = THREAD_RUNNING \<longrightarrow>
      (\<exists>c\<in>cores s. current_thread (cpus s c) = t)"
proof -
  from k have i: "sched_inv T Q s" by (simp add: kinv_def)
  show "\<forall>c\<in>cores s. \<forall>d\<in>cores s. \<forall>t. current_thread (cpus s c) = t \<and> current_thread (cpus s d) = t \<and>
      t \<noteq> 0 \<and> tid (threads s t) \<noteq> 0 \<longrightarrow> c = d"
    using current_home(2) [OF i] by metis
  show "\<forall>t\<in>T. th_state (threads s t) = THREAD_READY \<longrightarrow> (\<exists>c\<in>cores s. \<exists>xs. rq s c xs \<and> t \<in> set xs)"
    "\<forall>t\<in>T. th_state (threads s t) = THREAD_RUNNING \<longrightarrow> (\<exists>c\<in>cores s. current_thread (cpus s c) = t)"
    using schedD [OF i] coreD(1) unfolding thread_wf_def thread_placed_def by blast+
qed

section \<open>Bounded waiting\<close>

definition switches :: "u64 \<Rightarrow> act list \<Rightarrow> nat" where
  "switches c as = length (filter (\<lambda>a. \<exists>regs. a = Switch c regs) as)"

lemma switches_simps [simp]:
  "switches c [] = 0" "switches c (a # as) = (if \<exists>regs. a = Switch c regs then 1 else 0) + switches c as"
  by (simp_all add: switches_def)

text \<open>
  A thread at position \<open>k\<close> of a queue is current after \<open>k + 1\<close> switches of its core, whatever
  steps the system takes in between.
\<close>

lemma advances_nth:
  assumes a: "advances a c Q s Q' s'" and k: "k < length (Q c)"
  shows "if \<exists>regs. a = Switch c regs
    then (if k = 0 then current_thread (cpus s' c) = Q c ! k else k - 1 < length (Q' c) \<and> Q' c ! (k - 1) = Q c ! k)
    else k < length (Q' c) \<and> Q' c ! k = Q c ! k"
proof (cases "\<exists>regs. a = Switch c regs")
  case True
  have r: "\<exists>zs. requeued Q c s = Q c @ zs" by (auto simp: requeued_def Let_def)
  then obtain zs where r: "requeued Q c s = Q c @ zs" by blast
  from True a have q: "Q' c = drop 1 (Q c @ zs)" "current_thread (cpus s' c) = next_thread Q c s"
    by (simp_all add: advances_def r)
  have "next_thread Q c s = Q c ! 0" using k r by (cases "Q c") (auto simp: next_thread_def)
  moreover have "drop 1 (Q c @ zs) ! (k - 1) = Q c ! k" if "k \<noteq> 0"
    using that k by (cases "Q c") (auto simp: nth_append nth_Cons')
  ultimately show ?thesis using True q k by auto
next
  case False
  with a k show ?thesis by (auto simp: advances_def nth_append)
qed

lemma runs_current:
  assumes "runs T s as T' s'" "kinv ps T Q s" "k < length (Q c)" "k < switches c as"
  shows "\<exists>bs cs T1 s1. as = bs @ cs \<and> runs T s bs T1 s1 \<and> current_thread (cpus s1 c) = Q c ! k"
  using assms
proof (induction arbitrary: Q k rule: runs.induct)
  case (runs_cons T s a s1 as T' s')
  from step_inv [OF runs_cons.prems(1) runs_cons.hyps(1)] runs_cons.hyps(2) obtain Q1 where
    q: "kinv ps (managed T s a) Q1 s1" "\<And>c. advances a c Q s Q1 s1" by auto
  note n = advances_nth [OF q(2) runs_cons.prems(2)]
  have later: ?case if j: "j < length (Q1 c)" "Q1 c ! j = Q c ! k" "j < switches c as" for j
  proof -
    from runs_cons.IH [OF q(1) j(1,3)] obtain bs cs T1 s2 where
      b: "as = bs @ cs" "runs (managed T s a) s1 bs T1 s2" "current_thread (cpus s2 c) = Q c ! k"
      unfolding j(2) by blast
    have "runs T s (a # bs) T1 s2" using runs.runs_cons [OF runs_cons.hyps(1,2) b(2)] .
    moreover have "a # as = (a # bs) @ cs" using b(1) by simp
    ultimately show ?thesis using b(3) by blast
  qed
  show ?case
  proof (cases "(\<exists>regs. a = Switch c regs) \<and> k = 0")
    case True
    then have "current_thread (cpus s1 c) = Q c ! k" using n by auto
    moreover have "runs T s [a] (managed T s a) s1"
      using runs.runs_cons [OF runs_cons.hyps(1,2) runs_nil] .
    moreover have "a # as = [a] @ as" by simp
    ultimately show ?thesis by blast
  next
    case False
    show ?thesis
    proof (cases "\<exists>regs. a = Switch c regs")
      case True
      with False n runs_cons.prems(3) show ?thesis by (intro later [of "k - 1"]) auto
    next
      case nsw: False
      with n runs_cons.prems(3) show ?thesis by (intro later [of k]) auto
    qed
  qed
qed simp

section \<open>Termination of a thread\<close>

lemma exit_pick_inv:
  assumes i: "sched_inv T Q s" and me: "me \<in> cores s" and cur: "th_state (threads s cur) = THREAD_DEAD"
    and run: "\<And>u. u \<in> T \<Longrightarrow> home s u = me \<Longrightarrow> th_state (threads s u) \<noteq> THREAD_RUNNING"
  defines "n \<equiv> (case Q me of [] \<Rightarrow> idle_thread (cpus s me) | t # _ \<Rightarrow> t)"
  shows "\<exists>n0 s1. exit_pick me cur s = Some (n0, s1) \<and> (if n0 = 0 then idle_thread (cpus s1 me) else n0) = n \<and>
    n \<noteq> 0 \<and> same_but_queue me s s1 \<and> sched_inv T (Q(me := drop 1 (Q me))) (set_current me n s1)"
proof (cases "Q me")
  case Nil
  note co = schedD(3) [OF i me]
  have d: "dequeue_thread me s = (0, s)" using coreD(1) [OF co] Nil by (simp add: dequeue_rq_empty)
  then have "exit_pick me cur s = Some (0, s)" by (subst exit_pick.simps) simp
  moreover have "sched_inv T (Q(me := drop 1 (Q me))) (set_current me n s)"
    by (rule set_current_inv [where X = "{}"]) (use i me run Nil in \<open>auto simp: n_def fun_upd_idem\<close>)
  moreover have "same_but_queue me s s" by (simp add: same_but_queue_def)
  moreover have "n \<noteq> 0" "n = idle_thread (cpus s me)" using coreD(3) [OF co] Nil by (simp_all add: n_def)
  ultimately show ?thesis by (intro exI [of _ 0] exI [of _ s]) auto
next
  case (Cons t ts)
  note co = coreD [OF schedD(3) [OF i me]]
  have n: "n = t" by (simp add: n_def Cons)
  from dequeue_inv [OF i me Cons] obtain s1 where
    s1: "dequeue_thread me s = (t, s1)" "sched_but {t} T (Q(me := ts)) s1" "same_but_queue me s s1"
    by blast
  note f = same_queue_facts [OF s1(3)]
  have t: "t \<in> T" "home s t = me" "t \<noteq> 0" "t \<notin> set ts"
    using co(2) [of t] rq_set [OF co(1)] Cons by auto
  have "th_state (threads s t) = THREAD_READY"
    using schedD(2) [OF i t(1)] t(2) Cons by (simp add: thread_placed_def)
  then have "exit_pick me cur s = Some (t, s1)"
    using cur t(3) s1(1) by (subst exit_pick.simps) (auto simp: f)
  moreover have "sched_inv T (Q(me := ts)) (set_current me t s1)"
    by (rule set_current_inv [OF s1(2)]) (use me t run in \<open>auto simp: f\<close>)
  ultimately show ?thesis using s1(3) t(3) Cons n by (intro exI [of _ t] exI [of _ s1]) simp
qed

text \<open>The parent, if it is blocked, is put back into the queue of its core.\<close>

definition parent_of :: "u64 list \<Rightarrow> u32 \<Rightarrow> kernel \<Rightarrow> u64" where
  "parent_of ps x s =
     (case List.find (\<lambda>p. pid (procs s p) = x) ps of None \<Rightarrow> 0 | Some p \<Rightarrow> main_thread (procs s p))"

definition wake_blocked :: "u64 \<Rightarrow> kernel \<Rightarrow> kernel" where
  "wake_blocked t s =
     (if t \<noteq> 0 \<and> th_state (threads s t) = THREAD_BLOCKED
      then let s1 = upd_thread t (th_state_update (\<lambda>_. THREAD_READY)) s in enqueue_thread (home s1 t) t s1
      else s)"

definition woken_queues :: "u64 \<Rightarrow> (u64 \<Rightarrow> u64 list) \<Rightarrow> kernel \<Rightarrow> u64 \<Rightarrow> u64 list" where
  "woken_queues t Q s =
     (if t \<noteq> 0 \<and> th_state (threads s t) = THREAD_BLOCKED then Q(home s t := Q (home s t) @ [t]) else Q)"

lemma wake_parent_chain:
  "chain (\<lambda>p. p_next (procs s p)) h ps \<Longrightarrow> wake_parent x h s = Some (wake_blocked (parent_of ps x s) s)"
proof (induction ps arbitrary: h)
  case Nil
  then show ?case by (subst wake_parent.simps) (simp add: parent_of_def wake_blocked_def)
next
  case (Cons p ps)
  then show ?case
    by (subst wake_parent.simps) (auto simp: parent_of_def wake_blocked_def home_def Let_def)
qed

lemma wake_blocked_inv:
  assumes i: "sched_inv T Q s" and t: "t \<noteq> 0 \<Longrightarrow> th_state (threads s t) = THREAD_BLOCKED \<Longrightarrow> t \<in> T"
  defines "s' \<equiv> wake_blocked t s"
  shows "sched_inv T (woken_queues t Q s) s' \<and> sched_frame s s' \<and>
    (\<forall>c. current_thread (cpus s' c) = current_thread (cpus s c)) \<and>
    (\<forall>u. th_state (threads s' u) = (if u = t \<and> t \<noteq> 0 \<and> th_state (threads s t) = THREAD_BLOCKED
       then THREAD_READY else th_state (threads s u)) \<and> th_exit_code (threads s' u) = th_exit_code (threads s u) \<and>
       context_frame (threads s' u) = context_frame (threads s u))"
proof (cases "t \<noteq> 0 \<and> th_state (threads s t) = THREAD_BLOCKED")
  case True
  let ?g = "th_state_update (\<lambda>_. THREAD_READY)"
  let ?s1 = "upd_thread t ?g s"
  have e: "s' = enqueue_thread (home ?s1 t) t ?s1" using True by (simp add: s'_def wake_blocked_def Let_def)
  have tT: "t \<in> T" and st: "th_state (threads s t) = THREAD_BLOCKED" using True t by blast+
  note k = wake_state [OF i tT _ st, of ?g, folded e]
  have th: "threads s' u = ((if u = t then ?g else id) (threads s u))\<lparr>th_next := nxt s' u\<rparr>" for u
    using k(3) k(4) [where u = u] by (cases "u = t") simp_all
  have "th_state (threads s' u) = (if u = t then THREAD_READY else th_state (threads s u))"
    "th_exit_code (threads s' u) = th_exit_code (threads s u)"
    "context_frame (threads s' u) = context_frame (threads s u)" for u
    by (subst th, simp)+
  then show ?thesis using True k(1,2,5) by (simp add: woken_queues_def)
next
  case False
  then have "s' = s" by (auto simp: s'_def wake_blocked_def)
  with False i show ?thesis by (auto simp: woken_queues_def)
qed

section \<open>Ready queues as first-in first-out queues\<close>

text \<open>
  The contract of a queue towards its clients: \<open>repr\<close> relates a state to the list of queued elements,
  and an element may be added when it is not the null pointer and not queued already.
\<close>

locale fifo =
  fixes repr :: "'s \<Rightarrow> u64 list \<Rightarrow> bool"
    and enq :: "u64 \<Rightarrow> 's \<Rightarrow> 's"
    and deq :: "'s \<Rightarrow> u64 \<times> 's"
  assumes enq_law: "repr s xs \<Longrightarrow> t \<noteq> 0 \<Longrightarrow> t \<notin> set xs \<Longrightarrow> repr (enq t s) (xs @ [t])"
    and deq_empty: "repr s [] \<Longrightarrow> deq s = (0, s)"
    and deq_law: "repr s (t # xs) \<Longrightarrow> \<exists>s'. deq s = (t, s') \<and> repr s' xs"
begin

fun deqs :: "nat \<Rightarrow> 's \<Rightarrow> u64 list \<times> 's" where
  "deqs 0 s = ([], s)"
| "deqs (Suc n) s = (let (t, s1) = deq s; (ts, s2) = deqs n s1 in (t # ts, s2))"

lemma enq_all: "repr s xs \<Longrightarrow> 0 \<notin> set ts \<Longrightarrow> distinct (xs @ ts) \<Longrightarrow> repr (fold enq ts s) (xs @ ts)"
proof (induction ts arbitrary: s xs)
  case (Cons t ts)
  then have "repr (enq t s) (xs @ [t])" by (auto intro: enq_law)
  from Cons.IH [OF this] Cons.prems show ?case by simp
qed simp

lemma deqs_all: "repr s (xs @ ys) \<Longrightarrow> \<exists>s'. deqs (length xs) s = (xs, s') \<and> repr s' ys"
proof (induction xs arbitrary: s)
  case (Cons t xs)
  then have "repr s (t # (xs @ ys))" by simp
  from deq_law [OF this] obtain s1 where "deq s = (t, s1)" "repr s1 (xs @ ys)" by blast
  with Cons.IH [of s1] show ?case by auto
qed simp

end

interpretation runq: fifo "\<lambda>s xs. c \<noteq> 0 \<and> rq s c xs" "enqueue_thread c" "dequeue_thread c"
  for c
proof (unfold_locales, goal_cases)
  case (1 s xs t)
  then show ?case using enqueue_rq(1) by blast
next
  case (2 s)
  then show ?case using dequeue_rq_empty by blast
next
  case (3 s t xs)
  then show ?case using dequeue_rq by blast
qed

section \<open>Properties\<close>

text \<open>C10: The ready queue of a core is first in, first out. Threads appended to a well-formed queue
  are taken out in the same order, after those that were there before, and the links of the queue
  are intact at every point.\<close>

theorem ready_queue_fifo:
  assumes "c \<noteq> 0" and "rq s c xs" and "0 \<notin> set ts" and "distinct (xs @ ts)"
  shows "rq (fold (enqueue_thread c) ts s) c (xs @ ts) \<and>
    (\<exists>s'. runq.deqs c (length (xs @ ts)) (fold (enqueue_thread c) ts s) = (xs @ ts, s') \<and> rq s' c [])"
proof -
  have q: "c \<noteq> 0 \<and> rq (fold (enqueue_thread c) ts s) c (xs @ ts)"
    using runq.enq_all [OF _ assms(3,4), where c = c] assms(1,2) by blast
  have "\<exists>s'. runq.deqs c (length (xs @ ts)) (fold (enqueue_thread c) ts s) = (xs @ ts, s') \<and> c \<noteq> 0 \<and> rq s' c []"
    by (rule runq.deqs_all) (use q in simp)
  with q show ?thesis by blast
qed

text \<open>C11: A task switch refines round robin. From a state in which the scheduler invariant holds, the
  switch on a core puts the preempted thread, if it is still running, at the end of the queue of the
  core and runs the head of the queue, or the idle thread when the queue is empty. The saved context
  of that thread is returned, the kernel stack pointers of the core are those of the new thread, its
  address space is active, the other cores are not affected, and the invariant holds again.\<close>

theorem task_switch_round_robin:
  assumes "sched_inv T Q s" and "me \<in> cores s"
  shows "\<exists>s'. task_switch me regs s =
      Some (if next_thread Q me s = current_thread (cpus s me) then regs
            else context_frame (threads s (next_thread Q me s)), s') \<and>
    sched_inv T (next_queues Q me s) s' \<and>
    current_thread (cpus s' me) = next_thread Q me s \<and>
    th_state (threads s' (next_thread Q me s)) = THREAD_RUNNING \<and>
    (\<forall>c. c \<noteq> me \<longrightarrow> current_thread (cpus s' c) = current_thread (cpus s c)) \<and>
    tss_rsp0 (cpus s' me) = th_kernel_stack_top (threads s (next_thread Q me s)) \<and>
    c_kernel_stack_top (cpus s' me) = th_kernel_stack_top (threads s (next_thread Q me s)) \<and>
    (\<forall>p. owner (threads s (next_thread Q me s)) = p \<longrightarrow> p \<noteq> 0 \<longrightarrow> cr3 (procs s p) \<noteq> 0 \<longrightarrow>
       (current_thread (cpus s me) \<noteq> 0 \<longrightarrow> tid (threads s (current_thread (cpus s me))) \<noteq> 0 \<longrightarrow>
        owner (threads s (current_thread (cpus s me))) \<noteq> 0 \<longrightarrow>
        core_cr3 s me = cr3 (procs s (owner (threads s (current_thread (cpus s me)))))) \<longrightarrow>
       core_cr3 s' me = cr3 (procs s p))"
  using task_switch_spec [OF assms, of regs] by auto


text \<open>C13: Every step of the system can be executed. Whenever a step is enabled in a state with the
  invariant, it terminates without a fault: the queue operations find their links, and the walk over
  the process list ends.\<close>

theorem sched_step_progress:
  assumes "kinv ps T Q s" and "enabled T s a"
  shows "\<exists>s' Q'. exec a s = Some s' \<and> kinv ps (managed T s a) Q' s'"
  using step_inv [OF assms] by blast


text \<open>\<^verbatim>\<open>wakeup\<close> terminates and makes ready exactly the main threads that wait on the channel,
  appending them to the queues of their cores.\<close>

theorem wakeup_wakes_waiters:
  assumes "kinv ps T Q s" and "ch \<noteq> 0"
  shows "\<exists>s' Q'. wakeup ch s = Some s' \<and> kinv ps T Q' s' \<and> (\<forall>c. \<exists>zs. Q' c = Q c @ zs) \<and>
    (\<forall>t. th_state (threads s' t) = (if \<exists>p\<in>set ps. t = main_thread (procs s p) \<and> waits_on ch s t
       then THREAD_READY else th_state (threads s t)))"
  using wakeup_spec [OF assms] by blast


section \<open>Witnesses\<close>

abbreviation queues_demo :: "u64 \<Rightarrow> u64 list" where
  "queues_demo \<equiv> (\<lambda>_. [])(0x10 := [0x300])"

lemma demo_cores: "cores kernel_demo = {0x10, 0x20}"
proof -
  have "c \<in> cores kernel_demo" if "c \<in> {0x10, 0x20}" for c
    using that by (auto simp: cores_def kernel_demo_def intro: exI [of _ "0 :: nat"] exI [of _ "1 :: nat"])
  then show ?thesis by (auto simp: cores_def kernel_demo_def split: if_splits)
qed

lemma demo_home:
  "home kernel_demo 0x200 = 0x10" "home kernel_demo 0x300 = 0x10" "home kernel_demo 0x400 = 0x10"
  "home kernel_demo 0x500 = 0x20"
  by (simp_all add: home_def get_cpu_data_block_def kernel_demo_def thread0_def word_le_nat_alt)

lemma demo_threads:
  "tid (threads kernel_demo 0x200) = 1" "tid (threads kernel_demo 0x300) = 2" "tid (threads kernel_demo 0x400) = 3"
  "tid (threads kernel_demo 0x500) = 4" "tid (threads kernel_demo 0x100) = 0" "tid (threads kernel_demo 0x110) = 0"
  "th_state (threads kernel_demo 0x200) = THREAD_RUNNING" "th_state (threads kernel_demo 0x300) = THREAD_READY"
  "th_state (threads kernel_demo 0x400) = THREAD_WAITING" "th_state (threads kernel_demo 0x500) = THREAD_READY"
  "owner (threads kernel_demo 0x200) = 0x1000" "context_frame (threads kernel_demo 0x300) = 0x9F00"
  "th_kernel_stack_top (threads kernel_demo 0x300) = 0xA000" "chan (threads kernel_demo 0x400) = 7"
  by (simp_all add: kernel_demo_def thread0_def)

lemma demo_cpus:
  "current_thread (cpus kernel_demo 0x10) = 0x200" "current_thread (cpus kernel_demo 0x20) = 0x110"
  "idle_thread (cpus kernel_demo 0x10) = 0x100" "idle_thread (cpus kernel_demo 0x20) = 0x110"
  "tss_rsp0 (cpus kernel_demo 0x10) = 0x8000"
  "rq kernel_demo 0x10 [0x300]" "rq kernel_demo 0x20 []"
  by (simp_all add: kernel_demo_def cpu0_def thread0_def rq_def queue_def)

lemma demo_procs:
  "main_thread (procs kernel_demo 0x1000) = 0x200" "main_thread (procs kernel_demo 0x1100) = 0x300"
  "main_thread (procs kernel_demo 0x1200) = 0x400" "main_thread (procs kernel_demo 0x1300) = 0x500"
  by (simp_all add: kernel_demo_def)

lemmas demo_simps = demo_cores demo_home demo_threads demo_cpus demo_procs

lemma demo_kinv: "kinv procs_demo {0x200, 0x300, 0x400} queues_demo kernel_demo"
proof -
  have "sched_inv {0x200, 0x300, 0x400} queues_demo kernel_demo"
    unfolding sched_but_def thread_wf_def thread_placed_def core_ok_def
    by (simp add: demo_simps)
  moreover have "mains_ok procs_demo {0x200, 0x300, 0x400} kernel_demo"
    unfolding mains_ok_def using demo_listed by (simp add: demo_simps)
  ultimately show ?thesis by (simp add: kinv_def)
qed

lemma demo_sched: "sched_inv {0x200, 0x300, 0x400} queues_demo kernel_demo"
  using demo_kinv by (simp add: kinv_def)

lemma demo_next: "next_thread queues_demo 0x10 kernel_demo = 0x300" "next_queues queues_demo 0x10 kernel_demo = (\<lambda>_. [])(0x10 := [0x200])"
  by (simp_all add: next_thread_def next_queues_def requeued_def demo_simps)

theorem ready_queue_fifo_witness:
  "\<exists>s'. runq.deqs 0x10 (length ([0x300] @ [0x600, 0x700 :: u64]))
      (fold (enqueue_thread 0x10) [0x600, 0x700] kernel_demo) = ([0x300] @ [0x600, 0x700], s') \<and> rq s' 0x10 []"
proof -
  have "(0x10 :: u64) \<noteq> 0" "(0 :: u64) \<notin> set [0x600, 0x700]" "distinct ([0x300] @ [0x600, 0x700 :: u64])" by simp_all
  from ready_queue_fifo [OF this(1) demo_cpus(6) this(2,3)] show ?thesis by blast
qed

theorem task_switch_round_robin_witness:
  "\<exists>s'. task_switch 0x10 0x7F00 kernel_demo = Some (0x9F00, s') \<and> current_thread (cpus s' 0x10) = 0x300 \<and>
     tss_rsp0 (cpus s' 0x10) = 0xA000 \<and> sched_inv {0x200, 0x300, 0x400} ((\<lambda>_. [])(0x10 := [0x200])) s'"
  using task_switch_round_robin [OF demo_sched, of "0x10" "0x7F00"] unfolding demo_next by (auto simp: demo_simps)

text \<open>A run: core 0 switches, channel 7 is woken, process 4 is started, core 0 switches again.\<close>

abbreviation acts_demo :: "act list" where
  "acts_demo \<equiv> [Switch 0x10 0x7F00, Wake 7, Start 0x10 0x1300, Switch 0x10 0x9E00]"

lemma demo_run: "\<exists>T' s'. runs {0x200, 0x300, 0x400} kernel_demo acts_demo T' s'"
proof -
  let ?T = "{0x200, 0x300, 0x400} :: u64 set"
  from step_switch [OF demo_kinv, of "0x10" "0x7F00"] demo_cores obtain s1 where
    s1: "exec (Switch 0x10 0x7F00) kernel_demo = Some s1" "kinv procs_demo ?T (next_queues queues_demo 0x10 kernel_demo) s1"
      "sched_frame kernel_demo s1" by auto
  from task_switch_spec [OF demo_sched, of "0x10" "0x7F00"] s1(1) demo_cores
  have st1: "th_state (threads s1 0x500) = THREAD_READY" unfolding demo_next by (auto simp: demo_simps)
  from wakeup_spec [OF s1(2), of 7] obtain s2 Q2 where
    s2: "wakeup 7 s1 = Some s2" "kinv procs_demo ?T Q2 s2" "sched_frame s1 s2"
      "\<And>t. th_state (threads s2 t) = (if \<exists>p\<in>set procs_demo. t = main_thread (procs s1 p) \<and> waits_on 7 s1 t
         then THREAD_READY else th_state (threads s1 t))" by fastforce
  have fr: "sched_frame kernel_demo s2" by (rule sched_frame_trans [OF s1(3) s2(3)])
  have st2: "th_state (threads s2 0x500) = THREAD_READY" using s2(4) st1 by simp
  have m2: "main_thread (procs s2 0x1300) = 0x500" "tid (threads s2 0x500) = 4"
    using fr by (simp_all add: sched_frame_def demo_simps)
  have "enabled ?T s2 (Start 0x10 0x1300)"
    using st2 m2 by (simp add: thread_wf_def sched_frame_home [OF fr] demo_simps)
  note e3 = this and k3 = step_start [OF s2(2) this]
  let ?s3 = "scheduler_ready_process 0x10 0x1300 s2"
  have "0x10 \<in> cores ?s3" using k3(2) sched_frame_home(2) [OF fr] demo_cores by simp
  note e4 = this
  from step_switch [OF k3(1) this, of "0x9E00"] obtain s4 where
    s4: "exec (Switch 0x10 0x9E00) ?s3 = Some s4" by blast
  show ?thesis
    by (intro exI, rule runs_cons [OF _ s1(1)], simp add: demo_cores,
        rule runs_cons [where sm = s2], simp, simp add: s2(1),
        rule runs_cons [where sm = ?s3], simp only: managed.simps e3, simp,
        rule runs_cons [OF _ s4], simp add: e4, rule runs_nil)
qed


theorem sched_step_progress_witness:
  "\<exists>s' Q'. exec (Wake 7) kernel_demo = Some s' \<and> kinv procs_demo {0x200, 0x300, 0x400} Q' s'"
  using sched_step_progress [OF demo_kinv, of "Wake 7"] by simp


theorem wakeup_wakes_waiters_witness:
  "\<exists>s'. wakeup 7 kernel_demo = Some s' \<and> th_state (threads s' 0x400) = THREAD_READY \<and>
     th_state (threads s' 0x200) = THREAD_RUNNING"
proof -
  have "waits_on 7 kernel_demo 0x400" "\<not> waits_on 7 kernel_demo 0x200" by (simp_all add: waits_on_def demo_simps)
  with wakeup_wakes_waiters [OF demo_kinv, of 7] show ?thesis by (auto simp: demo_simps)
qed


end
