(* ===== verification/Exit.thy ===== *)
theory Exit
  imports Sched
begin

text \<open>
  The end of a process: \<open>scheduler_exit\<close> composes the release of the user address space, the release
  of the open files, the zombie state, the wakeup of the parent and the choice of the next thread.
  This theory shows that the parts fit together, and what the routine leaves behind.
\<close>

unbundle bit_operations_syntax

section \<open>The heap survives the release of an address space\<close>

text \<open>
  The address space with root \<open>proot\<close> is apart from the one with root \<open>root\<close> that maps the kernel heap:
  its root is no frame of the latter, and no frame of its user half is.
\<close>

definition apart :: "vmm \<Rightarrow> u64 \<Rightarrow> u64 \<Rightarrow> bool" where
  "apart v root proot \<longleftrightarrow>
     (\<forall>q. path 4 q \<longrightarrow> walk (pmem v) root q \<noteq> Some proot) \<and>
     (\<forall>p q f. user_path p \<longrightarrow> walk (pmem v) proot p = Some f \<longrightarrow> path 4 q \<longrightarrow> walk (pmem v) root q \<noteq> Some f)"

lemma flush_keeps_tree:
  assumes wf: "tree_wf v root" and ap: "apart v root proot"
    and m': "\<And>f. f \<noteq> proot \<Longrightarrow> pmem v' f = pmem v f"
    and fr: "free_pages (frames v') \<subseteq> free_pages (frames v) \<union>
      {unat f |f p. user_path p \<and> walk (pmem v) proot p = Some f}"
  shows "tree_wf v' root" and "\<And>q. path 4 q \<Longrightarrow> walk (pmem v') root q = walk (pmem v) root q"
proof -
  show w: "walk (pmem v') root q = walk (pmem v) root q" if "path 4 q" for q
    by (rule walk_fresh_frame [where n = proot]) (use ap m' that path_up in \<open>auto simp: apart_def\<close>)
  have w3: "walk (pmem v') root q = walk (pmem v) root q" if "path 3 q" for q
    using w path_up(1) that by blast
  have "p = q" if "path 3 p" "path 4 q" "walk (pmem v') root p = Some f" "walk (pmem v') root q = Some f" for p q f
    using tree_inj [OF wf that(1,2)] that w w3 by simp
  moreover have "unat f \<notin> free_pages (frames v')" if "path 4 p" "walk (pmem v') root p = Some f" for p f
  proof
    assume "unat f \<in> free_pages (frames v')"
    moreover have "walk (pmem v) root p = Some f" using that w by simp
    moreover from this have "unat f \<notin> free_pages (frames v)" using tree_used [OF wf that(1)] by blast
    ultimately obtain g q where "unat f = unat g" "user_path q" "walk (pmem v) proot q = Some g" using fr by blast
    with ap that(1) \<open>walk (pmem v) root p = Some f\<close> show False
      unfolding apart_def by (metis word_unat_eq_iff)
  qed
  moreover have "unat f < 2 ^ 24" if "path 3 p" "walk (pmem v') root p = Some f" for p f
    using tree_low [OF wf that(1)] that w3 by simp
  moreover have "\<not> get_ps (pmem v' f i)"
    if "path 2 p" "p \<noteq> []" "walk (pmem v') root p = Some f" "i < 512" for p f i
  proof -
    have wp: "walk (pmem v) root p = Some f" using that(1,3) w path_up(2) by simp
    then have "f \<noteq> proot" using ap path_up(2) [OF that(1)] by (auto simp: apart_def)
    with m' tree_ps [OF wf that(1,2) wp that(4)] show ?thesis by simp
  qed
  ultimately show "tree_wf v' root" unfolding tree_wf_def by blast
qed

lemma flush_keeps_heap:
  assumes h: "heap_inv root h bs" and ap: "apart (hvm h) root proot"
    and wf: "tree_wf (hvm h) proot" "unat proot < 2 ^ 40" "proot \<noteq> 0"
  shows "\<exists>v. process_flush_user_space (hvm h) (push_bit 12 proot) = Some (0, v) \<and>
    heap_inv root (h\<lparr>hvm := v\<rparr>) bs \<and>
    (\<forall>p. user_path p \<longrightarrow> walk (pmem v) proot p = None) \<and>
    free_pages (frames v) = free_pages (frames (hvm h)) \<union>
      {unat f |f p. user_path p \<and> walk (pmem (hvm h)) proot p = Some f \<and> f \<noteq> 0 \<and>
         unat f < unat (pmm_total_pages (frames (hvm h)))}"
proof -
  note i = heap_invD [OF h]
  have pm: "pmm_wf (frames (hvm h))" using i(5) by (simp add: mem_ok_def)
  from flush_spec [OF wf pm] obtain v where
    v: "process_flush_user_space (hvm h) (push_bit 12 proot) = Some (0, v)" "pmm_wf (frames v)"
      "pmm_total_pages (frames v) = pmm_total_pages (frames (hvm h))"
      "\<And>p. path 4 p \<Longrightarrow> walk (pmem v) proot p = (if user_path p then None else walk (pmem (hvm h)) proot p)"
      "\<And>f. f \<noteq> proot \<Longrightarrow> pmem v f = pmem (hvm h) f"
      "free_pages (frames v) = free_pages (frames (hvm h)) \<union>
        {unat f |f p. user_path p \<and> walk (pmem (hvm h)) proot p = Some f \<and> f \<noteq> 0 \<and>
           unat f < unat (pmm_total_pages (frames (hvm h)))}"
    by blast
  have sub: "free_pages (frames v) \<subseteq> free_pages (frames (hvm h)) \<union>
      {unat f |f p. user_path p \<and> walk (pmem (hvm h)) proot p = Some f}"
    unfolding v(6) by blast
  have t1: "tree_wf v root" using i(6) ap v(5) sub by (rule flush_keeps_tree(1))
  have t2: "walk (pmem v) root q = walk (pmem (hvm h)) root q" if "path 4 q" for q
    using i(6) ap v(5) sub that by (rule flush_keeps_tree(2))
  have "0 \<notin> free_pages (frames v)"
    unfolding v(6) using i(5) by (auto simp: mem_ok_def unat_eq_zero)
  then have "mem_ok v" using i(5) v(2,3) by (simp add: mem_ok_def)
  moreover have "mapped v root va" if "mapped (hvm h) root va" for va
    using that t2 [OF path_va] by (simp add: mapped_def)
  ultimately have "heap_inv root (h\<lparr>hvm := v\<rparr>) bs" using i t1 unfolding heap_inv_def by auto
  moreover have "walk (pmem v) proot p = None" if "user_path p" for p
    using v(4) [of p] that by (simp add: user_path_def)
  ultimately show ?thesis using v(1,6) by blast
qed

section \<open>The end of a process\<close>

definition exit_ok :: "u64 \<Rightarrow> (u64 \<Rightarrow> nat) \<Rightarrow> kernel \<Rightarrow> u64 \<Rightarrow> u64 \<Rightarrow> bool" where
  "exit_ok root K s p proot \<longleftrightarrow> p \<noteq> 0 \<and> cr3 (procs s p) = push_bit 12 proot \<and> unat proot < 2 ^ 40 \<and> proot \<noteq> 0 \<and>
     tree_wf (hvm (heap s)) proot \<and> apart (hvm (heap s)) root proot \<and> fds_ok root K s p"

text \<open>What the end of process \<open>p\<close> leaves: a zombie with its exit code, no files, no user memory.\<close>

definition ended :: "u64 \<Rightarrow> u64 \<Rightarrow> int \<Rightarrow> kernel \<Rightarrow> kernel \<Rightarrow> bool" where
  "ended p proot code s s' \<longleftrightarrow> p_state (procs s' p) = PROCESS_ZOMBIE \<and> p_exit_code (procs s' p) = code \<and>
     file_descriptor_table (procs s' p) = replicate 32 0 \<and>
     (\<forall>q. user_path q \<longrightarrow> walk (pmem (hvm (heap s'))) proot q = None) \<and>
     (\<forall>f q. user_path q \<longrightarrow> walk (pmem (hvm (heap s))) proot q = Some f \<longrightarrow> f \<noteq> 0 \<longrightarrow>
        unat f < unat (pmm_total_pages (frames (hvm (heap s)))) \<longrightarrow> unat f \<in> free_pages (frames (hvm (heap s'))))"

text \<open>The parts of the state that the scheduler reads.\<close>

lemma sched_but_cong:
  assumes "threads s' = threads s" "cpus s' = cpus s" "cpu_blocks s' = cpu_blocks s"
  shows "sched_but X T Q s' = sched_but X T Q s" "home s' t = home s t" "cores s' = cores s"
  using assms
  by (simp_all add: sched_but_def thread_wf_def thread_placed_def core_ok_def rq_def home_def cores_def
      get_cpu_data_block_def)

definition zombify :: "u64 \<Rightarrow> int \<Rightarrow> kernel \<Rightarrow> kernel" where
  "zombify p code = upd_proc p (\<lambda>q. q\<lparr>p_exit_code := code, p_state := PROCESS_ZOMBIE\<rparr>)"

lemma release_resources:
  assumes ok: "exit_ok root K s p proot"
  shows "\<exists>v sB. process_flush_user_space (hvm (heap s)) (cr3 (procs s p)) = Some (0, v) \<and>
    process_file_destroy p (s\<lparr>heap := (heap s)\<lparr>hvm := v\<rparr>\<rparr>) = Some sB \<and>
    ended p proot code s (zombify p code sB) \<and> hinv root (heap sB) \<and>
    threads sB = threads s \<and> cpus sB = cpus s \<and> cpu_blocks sB = cpu_blocks s \<and> core_cr3 sB = core_cr3 s \<and>
    g_process_list_head sB = g_process_list_head s \<and>
    (\<forall>q. pid (procs sB q) = pid (procs s q) \<and> ppid (procs sB q) = ppid (procs s q) \<and>
      p_next (procs sB q) = p_next (procs s q) \<and> main_thread (procs sB q) = main_thread (procs s q) \<and>
      cr3 (procs sB q) = cr3 (procs s q))"
proof -
  from ok have o: "p \<noteq> 0" "cr3 (procs s p) = push_bit 12 proot" "unat proot < 2 ^ 40" "proot \<noteq> 0"
    "tree_wf (hvm (heap s)) proot" "apart (hvm (heap s)) root proot" "fds_ok root K s p"
    by (simp_all add: exit_ok_def)
  from o(7) obtain bs where bs: "heap_inv root (heap s) bs" by (auto simp: fds_ok_def)
  from flush_keeps_heap [OF bs o(6,5,3,4)] obtain v where
    v: "process_flush_user_space (hvm (heap s)) (push_bit 12 proot) = Some (0, v)"
      "heap_inv root ((heap s)\<lparr>hvm := v\<rparr>) bs" "\<And>q. user_path q \<Longrightarrow> walk (pmem v) proot q = None"
      "free_pages (frames v) = free_pages (frames (hvm (heap s))) \<union>
        {unat f |f p. user_path p \<and> walk (pmem (hvm (heap s))) proot p = Some f \<and> f \<noteq> 0 \<and>
         unat f < unat (pmm_total_pages (frames (hvm (heap s))))}"
    by blast
  define sA where "sA = s\<lparr>heap := (heap s)\<lparr>hvm := v\<rparr>\<rparr>"
  have "kheap_blocks root (heap sA) = kheap_blocks root (heap s)"
    using kheap_blocks_eq [OF v(2)] kheap_blocks_eq [OF bs] by (simp add: sA_def)
  then have fd: "fds_ok root K sA p" using o(7) v(2) by (auto simp: fds_ok_def sA_def)
  from file_slots_all [OF fd, of 32] obtain sB where
    sB: "foldM (file_slot_destroy p) [0..<32] sA = Some sB" "files_at root K p sA 32 sB" by auto
  have len: "drop 32 (file_descriptor_table (procs s p)) = []" using o(7) by (simp add: fds_ok_def)
  have e: "sB = sA\<lparr>files := files sB, heap := heap sB, vfs_closed := vfs_closed sB,
      procs := (procs s)(p := (procs s p)\<lparr>file_descriptor_table := replicate 32 0\<rparr>)\<rparr>"
    and hv: "hinv root (heap sB)" "hvm (heap sB) = v"
    using sB(2) len unfolding files_at_def Let_def by (simp_all add: sA_def)
  have pr: "procs sB = (procs s)(p := (procs s p)\<lparr>file_descriptor_table := replicate 32 0\<rparr>)"
    by (subst e) simp
  have "threads sB = threads s" "cpus sB = cpus s" "cpu_blocks sB = cpu_blocks s" "core_cr3 sB = core_cr3 s"
    "g_process_list_head sB = g_process_list_head s"
    by (subst e, simp add: sA_def)+
  moreover have "process_file_destroy p sA = Some sB" using sB(1) o(1) by (simp add: process_file_destroy_def)
  moreover have "ended p proot code s (zombify p code sB)"
    unfolding ended_def zombify_def using v(3,4) hv(2) by (auto simp: upd_proc_def pr)
  ultimately show ?thesis using v(1) hv(1) o(2)
    by (intro exI [of _ v] exI [of _ sB]) (simp add: pr sA_def)
qed

lemma exit_process_spec:
  assumes i: "sched_inv T Q s" and l: "listed s ps" and ok: "exit_ok root K s p proot"
    and par: "\<And>q. q \<in> set ps \<Longrightarrow> main_thread (procs s q) \<noteq> 0 \<Longrightarrow>
      th_state (threads s (main_thread (procs s q))) = THREAD_BLOCKED \<Longrightarrow> main_thread (procs s q) \<in> T"
  defines "t \<equiv> parent_of ps (ppid (procs s p)) s"
  shows "\<exists>s'. exit_process p code s = Some s' \<and> sched_inv T (woken_queues t Q s) s' \<and>
    ended p proot code s s' \<and> hinv root (heap s') \<and> listed s' ps \<and> cores s' = cores s \<and>
    core_cr3 s' = core_cr3 s \<and>
    (\<forall>u. home s' u = home s u \<and> tid (threads s' u) = tid (threads s u) \<and> owner (threads s' u) = owner (threads s u) \<and>
       context_frame (threads s' u) = context_frame (threads s u) \<and>
       th_exit_code (threads s' u) = th_exit_code (threads s u) \<and>
       th_state (threads s' u) = (if u = t \<and> t \<noteq> 0 \<and> th_state (threads s t) = THREAD_BLOCKED
         then THREAD_READY else th_state (threads s u))) \<and>
    (\<forall>c. current_thread (cpus s' c) = current_thread (cpus s c) \<and> idle_thread (cpus s' c) = idle_thread (cpus s c) \<and>
       tss_rsp0 (cpus s' c) = tss_rsp0 (cpus s c)) \<and>
    (\<forall>q. main_thread (procs s' q) = main_thread (procs s q) \<and> cr3 (procs s' q) = cr3 (procs s q))"
proof -
  from release_resources [OF ok, of code] obtain v sB where
    r: "process_flush_user_space (hvm (heap s)) (cr3 (procs s p)) = Some (0, v)"
      "process_file_destroy p (s\<lparr>heap := (heap s)\<lparr>hvm := v\<rparr>\<rparr>) = Some sB"
      "ended p proot code s (zombify p code sB)" "hinv root (heap sB)"
      "threads sB = threads s" "cpus sB = cpus s" "cpu_blocks sB = cpu_blocks s" "core_cr3 sB = core_cr3 s"
      "g_process_list_head sB = g_process_list_head s"
      "\<And>q. pid (procs sB q) = pid (procs s q) \<and> ppid (procs sB q) = ppid (procs s q) \<and>
        p_next (procs sB q) = p_next (procs s q) \<and> main_thread (procs sB q) = main_thread (procs s q) \<and>
        cr3 (procs sB q) = cr3 (procs s q)"
    by blast
  define sC where "sC = zombify p code sB"
  have c: "threads sC = threads s" "cpus sC = cpus s" "cpu_blocks sC = cpu_blocks s" "core_cr3 sC = core_cr3 s"
    "g_process_list_head sC = g_process_list_head s" "heap sC = heap sB"
    using r(5-9) by (simp_all add: sC_def zombify_def upd_proc_def)
  have pc: "pid (procs sC q) = pid (procs s q)" "ppid (procs sC q) = ppid (procs s q)"
    "p_next (procs sC q) = p_next (procs s q)" "main_thread (procs sC q) = main_thread (procs s q)"
    "cr3 (procs sC q) = cr3 (procs s q)" for q
    using r(10) [of q] by (auto simp: sC_def zombify_def upd_proc_def)
  note cong = sched_but_cong [OF c(1-3)]
  have iC: "sched_inv T Q sC" unfolding cong by (rule i)
  have lC: "listed sC ps" using l by (simp add: listed_def pc c)
  have tC: "parent_of ps (ppid (procs sC p)) sC = t" by (simp add: parent_of_def t_def pc cong: option.case_cong)
  have tT: "t \<in> T" if a: "t \<noteq> 0" "th_state (threads sC t) = THREAD_BLOCKED"
  proof -
    from a(1) obtain q where "List.find (\<lambda>q. pid (procs s q) = ppid (procs s p)) ps = Some q"
      "t = main_thread (procs s q)" by (auto simp: t_def parent_of_def split: option.splits)
    then show ?thesis using par [of q] a by (auto simp: find_Some_iff c)
  qed
  define s' where "s' = wake_blocked t sC"
  note w = wake_blocked_inv [OF iC tT, folded s'_def]
  have fr: "sched_frame sC s'" using w by blast
  have pf: "procs s' = procs sC" "heap s' = heap sC" "g_process_list_head s' = g_process_list_head sC"
    using fr by (simp_all add: sched_frame_def)
  have cr: "core_cr3 s' = core_cr3 sC" "tss_rsp0 (cpus s' d) = tss_rsp0 (cpus sC d)" for d
  proof -
    have "core_cr3 (enqueue_thread a b x) = core_cr3 x" "tss_rsp0 (cpus (enqueue_thread a b x) d) = tss_rsp0 (cpus x d)" for a b x d
      by (simp_all add: enqueue_thread_def Let_def upd_defs)
    then show "core_cr3 s' = core_cr3 sC" "tss_rsp0 (cpus s' d) = tss_rsp0 (cpus sC d)"
      by (simp_all add: s'_def wake_blocked_def Let_def upd_thread_def)
  qed
  have "exit_process p code s = Some s'"
    using r(1,2) wake_parent_chain [OF lC [unfolded listed_def], of "ppid (procs sC p)"]
    by (simp add: exit_process_def sC_def [unfolded zombify_def, symmetric] tC s'_def Let_def)
  moreover have "ended p proot code s s'" using r(3) unfolding sC_def [symmetric] ended_def by (simp add: pf)
  moreover have "woken_queues t Q sC = woken_queues t Q s" by (simp add: woken_queues_def c cong)
  moreover have "listed s' ps" using lC by (simp add: listed_def pf)
  ultimately show ?thesis
    using w r(4) fr sched_frame_home [OF fr] unfolding sched_frame_def
    by (intro exI [of _ s']) (simp add: c cong pc pf cr)
qed

section \<open>The next thread\<close>

definition mark_dead :: "u64 \<Rightarrow> int \<Rightarrow> kernel \<Rightarrow> kernel" where
  "mark_dead t code = upd_thread t (\<lambda>t. t\<lparr>th_state := THREAD_DEAD, th_exit_code := code\<rparr>)"

lemma mark_dead_inv:
  assumes i: "sched_inv T Q s" and t: "t \<in> T" "th_state (threads s t) = THREAD_RUNNING"
  shows "sched_inv T Q (mark_dead t code s)"
proof -
  let ?g = "\<lambda>t. t\<lparr>th_state := THREAD_DEAD, th_exit_code := code\<rparr>"
  note f = upd_thread_facts [of ?g, where t = t and s = s]
  have "sched_but (insert t {} - {t}) T Q (upd_thread t ?g s)"
    by (rule sched_settle [OF upd_thread_inv [OF i]])
      (use schedD(2) [OF i t(1)] t(2) in \<open>auto simp: thread_placed_def f\<close>)
  then show ?thesis by (simp add: mark_dead_def)
qed

text \<open>Common to threads with and without a process: \<open>s2\<close> is the state in which the queue is read.\<close>

lemma exit_finish:
  assumes i: "sched_inv T Q s2" and me: "me \<in> cores s2" and cur: "th_state (threads s2 cur) = THREAD_DEAD" "cur \<in> T"
    and run: "\<And>u. u \<in> T \<Longrightarrow> home s2 u = me \<Longrightarrow> th_state (threads s2 u) \<noteq> THREAD_RUNNING"
  defines "n \<equiv> (case Q me of [] \<Rightarrow> idle_thread (cpus s2 me) | t # _ \<Rightarrow> t)"
  shows "\<exists>n0 s3. exit_pick me cur s2 = Some (n0, s3) \<and> (if n0 = 0 then idle_thread (cpus s3 me) else n0) = n \<and>
    n \<noteq> 0 \<and> n \<noteq> cur \<and> sched_inv T (Q(me := drop 1 (Q me))) (set_current me n s3) \<and> sched_frame s2 s3 \<and>
    core_cr3 s3 = core_cr3 s2 \<and>
    (\<forall>u. context_frame (threads s3 u) = context_frame (threads s2 u) \<and> th_state (threads s3 u) = th_state (threads s2 u) \<and>
      th_exit_code (threads s3 u) = th_exit_code (threads s2 u)) \<and>
    (\<forall>c. tss_rsp0 (cpus s3 c) = tss_rsp0 (cpus s2 c))"
proof -
  from exit_pick_inv [OF i me cur(1) run, folded n_def] obtain n0 s3 where
    r: "exit_pick me cur s2 = Some (n0, s3)" "(if n0 = 0 then idle_thread (cpus s3 me) else n0) = n" "n \<noteq> 0"
      "same_but_queue me s2 s3" "sched_inv T (Q(me := drop 1 (Q me))) (set_current me n s3)"
    by blast
  note f = same_queue_facts [OF r(4)]
  have x: "th_exit_code (threads s3 u) = th_exit_code (threads s2 u)" for u
  proof -
    have e: "threads s3 u = (threads s2 u)\<lparr>th_next := nxt s3 u\<rparr>" using r(4) by (simp add: same_but_queue_def)
    show ?thesis by (subst e) simp
  qed
  have co: "core_ok T Q s2 me" by (rule schedD(3) [OF i me])
  have nc: "n \<noteq> cur"
  proof (cases "Q me")
    case Nil
    then show ?thesis using coreD(4) [OF co] schedD(1) [OF i cur(2)] by (auto simp: n_def thread_wf_def)
  next
    case (Cons t ts)
    then have "t \<in> T" "home s2 t = me" using coreD(2) [OF co, of t] by auto
    then have "th_state (threads s2 t) = THREAD_READY" using schedD(2) [OF i, of t] Cons by (simp add: thread_placed_def)
    with cur(1) Cons show ?thesis by (auto simp: n_def)
  qed
  show ?thesis using r nc sched_frame_queue [OF r(4)]
    by (intro exI [of _ n0] exI [of _ s3]) (simp add: f x)
qed

lemma scheduler_exit_spec:
  assumes k: "kinv ps T Q s" and me: "me \<in> cores s" and cur: "current_thread (cpus s me) = cur" "cur \<in> T"
      "th_state (threads s cur) = THREAD_RUNNING"
    and ok: "exit_ok root K s (owner (threads s cur)) proot"
  defines "p \<equiv> owner (threads s cur)"
  defines "t \<equiv> parent_of ps (ppid (procs s p)) s"
  defines "Q1 \<equiv> woken_queues t Q s"
  defines "n \<equiv> (case Q1 me of [] \<Rightarrow> idle_thread (cpus s me) | x # _ \<Rightarrow> x)"
  shows "\<exists>s'. scheduler_exit me code s = Some (Some (context_frame (threads s n)), s') \<and>
    sched_inv T (Q1(me := drop 1 (Q1 me))) s' \<and> current_thread (cpus s' me) = n \<and>
    th_state (threads s' n) = THREAD_RUNNING \<and> n \<noteq> cur \<and>
    th_state (threads s' cur) = THREAD_DEAD \<and> th_exit_code (threads s' cur) = code \<and>
    ended p proot code s s' \<and> hinv root (heap s') \<and>
    (t \<noteq> 0 \<longrightarrow> th_state (threads s t) = THREAD_BLOCKED \<longrightarrow> th_state (threads s' t) \<in> {THREAD_READY, THREAD_RUNNING}) \<and>
    tss_rsp0 (cpus s' me) = tss_rsp0 (cpus s me) \<and>
    (owner (threads s n) = 0 \<longrightarrow> core_cr3 s' me = core_cr3 s me)"
proof -
  from k have i: "sched_inv T Q s" and m: "mains_ok ps T s" by (simp_all add: kinv_def)
  let ?s1 = "mark_dead cur code s"
  have wf: "thread_wf s cur" by (rule schedD(1) [OF i cur(2)])
  then have c0: "cur \<noteq> 0" by (simp add: thread_wf_def)
  have hc: "home s cur = me" using current_home(2) [OF i me cur(1) c0] wf by (simp add: thread_wf_def)
  note f1 = upd_thread_facts [OF keeps_links_simps(4) [where b = THREAD_DEAD and e = code], where t = cur and s = s,
    folded mark_dead_def]
  have i1: "sched_inv T Q ?s1" by (rule mark_dead_inv [OF i cur(2,3)])
  have l1: "listed ?s1 ps" using m by (simp add: listed_def mains_ok_def f1)
  have ok1: "exit_ok root K ?s1 p proot" using ok unfolding exit_ok_def fds_ok_def p_def by (simp add: f1)
  have par: "main_thread (procs ?s1 q) \<in> T"
    if "q \<in> set ps" "main_thread (procs ?s1 q) \<noteq> 0" "th_state (threads ?s1 (main_thread (procs ?s1 q))) = THREAD_BLOCKED" for q
  proof (cases "main_thread (procs s q) = cur")
    case False
    with that m show ?thesis by (auto simp: mains_ok_def Let_def f1)
  qed (use cur(2) in \<open>simp add: f1\<close>)
  have t1: "parent_of ps (ppid (procs ?s1 p)) ?s1 = t" by (simp add: t_def parent_of_def f1 cong: option.case_cong)
  have tb: "th_state (threads ?s1 t) = THREAD_BLOCKED \<longleftrightarrow> th_state (threads s t) = THREAD_BLOCKED"
    using cur(3) by (cases "t = cur") (simp_all add: f1)
  have q1: "woken_queues t Q ?s1 = Q1" using tb by (simp add: woken_queues_def Q1_def f1)
  from exit_process_spec [OF i1 l1 ok1 par, where code = code, unfolded t1 q1] obtain s2 where
    e: "exit_process p code ?s1 = Some s2" and i2: "sched_inv T Q1 s2" and en: "ended p proot code ?s1 s2"
      and hv: "hinv root (heap s2)" and c2: "cores s2 = cores s" and cr2: "core_cr3 s2 = core_cr3 s"
      and th2: "\<And>u. home s2 u = home s u \<and> tid (threads s2 u) = tid (threads s u) \<and>
       owner (threads s2 u) = owner (threads ?s1 u) \<and>
       context_frame (threads s2 u) = context_frame (threads ?s1 u) \<and>
       th_exit_code (threads s2 u) = th_exit_code (threads ?s1 u) \<and>
       th_state (threads s2 u) = (if u = t \<and> t \<noteq> 0 \<and> th_state (threads ?s1 t) = THREAD_BLOCKED
         then THREAD_READY else th_state (threads ?s1 u))"
      and cp2: "\<And>c. idle_thread (cpus s2 c) = idle_thread (cpus s c) \<and> tss_rsp0 (cpus s2 c) = tss_rsp0 (cpus s c)"
    unfolding f1 by blast
  have own: "owner (threads ?s1 u) = owner (threads s u)" "context_frame (threads ?s1 u) = context_frame (threads s u)" for u
    by (simp_all add: mark_dead_def upd_thread_def)
  have d2: "th_state (threads s2 cur) = THREAD_DEAD" "th_exit_code (threads s2 cur) = code"
    using th2 [of cur] tb cur(3) by (auto simp: f1)
  have run: "th_state (threads s2 u) \<noteq> THREAD_RUNNING" if "u \<in> T" "home s2 u = me" for u
  proof (cases "u = cur")
    case False
    then have "th_state (threads s u) \<noteq> THREAD_RUNNING"
      using schedD(2) [OF i that(1)] that(2) th2 [of u] cur(1) by (auto simp: thread_placed_def)
    with False show ?thesis using th2 [of u] by (simp add: f1)
  qed (use d2 in simp)
  have nn: "(case Q1 me of [] \<Rightarrow> idle_thread (cpus s2 me) | t # _ \<Rightarrow> t) = n"
    using cp2 by (simp add: n_def cong: list.case_cong)
  have me2: "me \<in> cores s2" using me c2 by simp
  from exit_finish [OF i2 me2 d2(1) cur(2) run, unfolded nn] obtain n0 s3 where
    x: "exit_pick me cur s2 = Some (n0, s3)" "(if n0 = 0 then idle_thread (cpus s3 me) else n0) = n"
      "n \<noteq> 0" "n \<noteq> cur" "sched_inv T (Q1(me := drop 1 (Q1 me))) (set_current me n s3)" "sched_frame s2 s3"
      "core_cr3 s3 = core_cr3 s2"
      "\<And>u. context_frame (threads s3 u) = context_frame (threads s2 u) \<and> th_state (threads s3 u) = th_state (threads s2 u) \<and>
        th_exit_code (threads s3 u) = th_exit_code (threads s2 u)"
      "\<And>c. tss_rsp0 (cpus s3 c) = tss_rsp0 (cpus s2 c)"
    by blast
  let ?s4 = "set_current me n s3"
  define s5 where "s5 = (if owner (threads ?s4 n) \<noteq> 0 \<and> cur \<noteq> 0 \<and> owner (threads ?s4 cur) \<noteq> owner (threads ?s4 n)
    then ?s4\<lparr>core_cr3 := (core_cr3 ?s4)(me := cr3 (procs ?s4 (owner (threads ?s4 n))))\<rparr> else ?s4)"
  have s5: "same_sched ?s4 s5" "tss_rsp0 (cpus s5 me) = tss_rsp0 (cpus s3 me)" "heap s5 = heap s3" "procs s5 = procs s3"
    by (auto simp: s5_def same_sched_def sched_frame_def set_current_def upd_defs)
  have o3: "owner (threads s3 u) = owner (threads s u)" for u
    using x(6) th2 [of u] own by (simp add: sched_frame_def)
  have cr5: "core_cr3 s5 me = core_cr3 s me" if "owner (threads s n) = 0"
    using that o3 x(7) cr2 by (auto simp: s5_def set_current_def upd_defs)
  have th5: "threads s5 = threads ?s4" "\<And>c. current_thread (cpus s5 c) = current_thread (cpus ?s4 c)"
    using s5(1) by (simp_all add: same_sched_def)
  have xc: "th_exit_code (threads ?s4 u) = th_exit_code (threads s3 u)" for u
    by (simp add: set_current_def upd_defs)
  have pf: "procs s3 = procs s2" "heap s3 = heap s2" using x(6) by (simp_all add: sched_frame_def)
  have "scheduler_exit me code s = Some (Some (context_frame (threads s5 n)), s5)"
    using e x(1-3) core_nz [OF me] cur(1) c0 ok
    by (simp add: scheduler_exit_def Let_def p_def [symmetric] mark_dead_def s5_def exit_ok_def)
  moreover have "context_frame (threads s5 n) = context_frame (threads s n)"
    by (simp add: th5 set_current_facts x(8) th2 own)
  moreover have "ended p proot code s s5"
    using en unfolding ended_def by (simp add: s5 pf f1)
  moreover have "th_state (threads s5 t) \<in> {THREAD_READY, THREAD_RUNNING}"
    if "t \<noteq> 0" "th_state (threads s t) = THREAD_BLOCKED"
    using that x(8) [of t] th2 [of t] tb by (simp add: th5 set_current_facts)
  ultimately show ?thesis
    using same_sched_inv [OF s5(1) x(5)] x(4,8,9) d2 hv s5(2,3) cp2 cr5
    by (intro exI [of _ s5]) (simp add: th5 set_current_facts xc pf)
qed

section \<open>Properties\<close>


text \<open>\<^verbatim>\<open>scheduler_exit\<close> leaves stale state behind on the core. The stack pointer for interrupts
  is still that of the dead thread, whatever thread runs next, and when that is a thread without
  a process the address space of the zombie stays active.\<close>

theorem scheduler_exit_stale_stack:
  assumes "kinv ps T Q s" and "me \<in> cores s" and "current_thread (cpus s me) = cur" and "cur \<in> T"
    and "th_state (threads s cur) = THREAD_RUNNING" and "exit_ok root K s (owner (threads s cur)) proot"
  shows "\<exists>n s'. scheduler_exit me code s = Some (Some (context_frame (threads s n)), s') \<and>
    current_thread (cpus s' me) = n \<and> tss_rsp0 (cpus s' me) = tss_rsp0 (cpus s me) \<and>
    (owner (threads s n) = 0 \<longrightarrow> core_cr3 s' me = core_cr3 s me)"
  using scheduler_exit_spec [OF assms, of code] by blast

lemma demo_exit: "exit_ok 1 (\<lambda>_. 64) kernel_demo 0x1000 7"
proof -
  have h: "hvm (heap kernel_demo) = vmm_two" "cr3 (procs kernel_demo 0x1000) = 0x7000"
    by (simp_all add: kernel_demo_def heap_two_def process0_def)
  have "apart vmm_two 1 7" unfolding apart_def user_path_def using two_walk_kernel two_walk_user by fastforce
  then show ?thesis unfolding exit_ok_def h using two_ok(3) demo_fds by simp
qed


theorem scheduler_exit_stale_stack_witness:
  "\<exists>n s'. scheduler_exit 0x10 3 kernel_demo = Some (Some (context_frame (threads kernel_demo n)), s') \<and>
     current_thread (cpus s' 0x10) = n \<and> tss_rsp0 (cpus s' 0x10) = 0x8000"
proof -
  have o: "owner (threads kernel_demo 0x200) = 0x1000" by (rule demo_threads)
  have "exit_ok 1 (\<lambda>_. 64) kernel_demo (owner (threads kernel_demo 0x200)) 7" unfolding o by (rule demo_exit)
  from scheduler_exit_stale_stack [OF demo_kinv _ demo_cpus(1) _ demo_threads(7) this, of 3] show ?thesis
    by (auto simp: demo_cores demo_cpus)
qed

end
