(* ===== verification/Ring.thy ===== *)
theory Ring
  imports Prelude
begin

text \<open>
  Ring buffers as \<^verbatim>\<open>net.c\<close> and the sockets use them: an array of \<open>N\<close> entries, an index \<open>h\<close> where the
  next entry is written and an index \<open>t\<close> where the next one is read. The ring is empty when the
  indices agree, and one entry always stays unused.
\<close>

definition ring_count :: "nat \<Rightarrow> nat \<Rightarrow> nat \<Rightarrow> nat" where
  "ring_count N h t = (h + N - t) mod N"

definition ring_items :: "nat \<Rightarrow> nat \<Rightarrow> nat \<Rightarrow> 'a list \<Rightarrow> 'a list" where
  "ring_items N h t xs = map (\<lambda>i. xs ! ((t + i) mod N)) [0..<ring_count N h t]"

definition ring_ok :: "nat \<Rightarrow> nat \<Rightarrow> nat \<Rightarrow> 'a list \<Rightarrow> bool" where
  "ring_ok N h t xs \<longleftrightarrow> 1 < N \<and> length xs = N \<and> h < N \<and> t < N"

lemma length_ring_items [simp]: "length (ring_items N h t xs) = ring_count N h t"
  by (simp add: ring_items_def)

lemma ring_count_cases:
  "h < N \<Longrightarrow> t < N \<Longrightarrow> ring_count N h t = (if t \<le> h then h - t else h + N - t)"
proof -
  assume "h < N" "t < N"
  moreover have "(h + N - t) mod N = h - t" if "t \<le> h" "h < N"
  proof -
    have "h + N - t = (h - t) + N" using that(1) by linarith
    then show ?thesis using that(2) mod_add_self2 [of "h - t" N] mod_less [of "h - t" N] by (metis less_imp_diff_less)
  qed
  ultimately show ?thesis by (simp add: ring_count_def)
qed

lemma ring_count_less: "h < N \<Longrightarrow> ring_count N h t < N"
  by (simp add: ring_count_def)

lemma Suc_mod_cases: "h < N \<Longrightarrow> Suc h mod N = (if Suc h = N then 0 else Suc h)"
  by auto

lemma ring_count_empty: "h < N \<Longrightarrow> t < N \<Longrightarrow> ring_count N h t = 0 \<longleftrightarrow> h = t"
  by (simp add: ring_count_cases)

lemma ring_count_full: "h < N \<Longrightarrow> t < N \<Longrightarrow> 1 < N \<Longrightarrow> ring_count N h t = N - 1 \<longleftrightarrow> Suc h mod N = t"
  by (auto simp: ring_count_cases Suc_mod_cases)

lemma ring_count_push:
  "h < N \<Longrightarrow> t < N \<Longrightarrow> 1 < N \<Longrightarrow> Suc h mod N \<noteq> t \<Longrightarrow> ring_count N (Suc h mod N) t = Suc (ring_count N h t)"
  by (auto simp: ring_count_cases Suc_mod_cases)

lemma ring_count_pop:
  "h < N \<Longrightarrow> t < N \<Longrightarrow> 1 < N \<Longrightarrow> h \<noteq> t \<Longrightarrow> ring_count N h t = Suc (ring_count N h (Suc t mod N))"
  by (auto simp: ring_count_cases Suc_mod_cases)

lemma ring_index_end: "h < N \<Longrightarrow> t < N \<Longrightarrow> (t + ring_count N h t) mod N = h"
  by (simp add: ring_count_cases)

lemma ring_index_other:
  assumes "h < N" "t < N" "i < ring_count N h t"
  shows "(t + i) mod N \<noteq> h"
proof
  assume "(t + i) mod N = h"
  then have "(t + i) mod N = (t + ring_count N h t) mod N" using ring_index_end [OF assms(1,2)] by simp
  from mod_shift_inj [OF this] show False using assms ring_count_less [OF assms(1), of t] by simp
qed

lemma ring_push:
  assumes "ring_ok N h t xs" "Suc h mod N \<noteq> t"
  shows "ring_ok N (Suc h mod N) t (xs[h := v])"
    "ring_items N (Suc h mod N) t (xs[h := v]) = ring_items N h t xs @ [v]"
proof -
  from assms(1) have o: "h < N" "t < N" "1 < N" "length xs = N" by (simp_all add: ring_ok_def)
  then show "ring_ok N (Suc h mod N) t (xs[h := v])" by (simp add: ring_ok_def)
  have same: "\<forall>i\<in>{0..<ring_count N h t}. xs[h := v] ! ((t + i) mod N) = xs ! ((t + i) mod N)"
    using ring_index_other [OF o(1,2)] by (metis atLeastLessThan_iff nth_list_update_neq)
  show "ring_items N (Suc h mod N) t (xs[h := v]) = ring_items N h t xs @ [v]"
    unfolding ring_items_def ring_count_push [OF o(1-3) assms(2)]
    by (simp add: ring_index_end [OF o(1,2)] o same)
qed

lemma ring_pop:
  assumes "ring_ok N h t xs" "h \<noteq> t"
  shows "ring_items N h t xs = xs ! t # ring_items N h (Suc t mod N) xs"
proof -
  from assms(1) have o: "h < N" "t < N" "1 < N" by (simp_all add: ring_ok_def)
  then have "[0..<ring_count N h t] = 0 # map Suc [0..<ring_count N h (Suc t mod N)]"
    unfolding ring_count_pop [OF o assms(2)] by (simp add: upt_conv_Cons map_Suc_upt del: upt_Suc)
  then show ?thesis unfolding ring_items_def using o by (simp add: mod_add_left_eq comp_def) 
qed

text \<open>Writing and reading a run of entries, one at a time.\<close>

fun ring_write :: "nat \<Rightarrow> 'a list \<Rightarrow> nat \<times> 'a list \<Rightarrow> nat \<times> 'a list" where
  "ring_write N [] (h, xs) = (h, xs)"
| "ring_write N (v # vs) (h, xs) = ring_write N vs (Suc h mod N, xs[h := v])"

fun ring_read :: "nat \<Rightarrow> nat \<Rightarrow> nat \<Rightarrow> 'a list \<Rightarrow> 'a list \<times> nat" where
  "ring_read N 0 t xs = ([], t)"
| "ring_read N (Suc n) t xs = (let (vs, t') = ring_read N n (Suc t mod N) xs in (xs ! t # vs, t'))"

lemma ring_write_items:
  assumes "ring_ok N h t xs" "ring_count N h t + length vs < N"
  shows "\<exists>h' xs'. ring_write N vs (h, xs) = (h', xs') \<and> ring_ok N h' t xs' \<and>
    ring_items N h' t xs' = ring_items N h t xs @ vs"
  using assms
proof (induction vs arbitrary: h xs)
  case (Cons v vs)
  from Cons.prems have o: "h < N" "t < N" "1 < N" by (simp_all add: ring_ok_def)
  have ne: "Suc h mod N \<noteq> t" using ring_count_full [OF o] Cons.prems(2) by auto
  note p = ring_push [OF Cons.prems(1) ne, of v]
  have "ring_count N (Suc h mod N) t + length vs < N"
    using ring_count_push [OF o ne] Cons.prems(2) by simp
  from Cons.IH [OF p(1) this] p(2) show ?case by auto
qed auto

lemma ring_read_items:
  assumes "ring_ok N h t xs" "ring_items N h t xs = vs @ ws"
  shows "\<exists>t'. ring_read N (length vs) t xs = (vs, t') \<and> ring_ok N h t' xs \<and> ring_items N h t' xs = ws"
  using assms
proof (induction vs arbitrary: t)
  case (Cons v vs)
  from Cons.prems have o: "h < N" "t < N" "1 < N" by (simp_all add: ring_ok_def)
  have "ring_count N h t \<noteq> 0" using Cons.prems(2) length_ring_items [of N h t xs] by auto
  with o have ne: "h \<noteq> t" by (simp add: ring_count_empty)
  from ring_pop [OF Cons.prems(1) ne] Cons.prems(2) have
    i: "xs ! t = v" "ring_items N h (Suc t mod N) xs = vs @ ws" by simp_all
  have "ring_ok N h (Suc t mod N) xs" using Cons.prems(1) by (simp add: ring_ok_def)
  from Cons.IH [OF this i(2)] i(1) show ?case by (auto simp: Let_def)
qed simp

text \<open>Skipping entries is reading them.\<close>

lemma ring_read_index: "t < N \<Longrightarrow> snd (ring_read N n t xs) = (t + n) mod N"
proof (induction n arbitrary: t)
  case (Suc n)
  then have "Suc t mod N < N" by simp
  from Suc.IH [OF this] show ?case by (simp add: Let_def case_prod_beta mod_add_left_eq)
qed simp

end
