(* ===== verification/Net.thy ===== *)
theory Net
  imports Sched Ring
begin

text \<open>
  The base of the network stack: the binary headers and byte order of \<^verbatim>\<open>src/include/kernel/kernel/net/net.h\<close>,
  the socket structure of \<^verbatim>\<open>socket.h\<close>, and \<^verbatim>\<open>src/kernel/kernel/net/net.c\<close>, the table of interfaces, the call
  into the driver and the ring of received packets.

  A pointer that the code only reads is the list of the bytes from that address to the end of its
  object, \<open>None\<close> for the null pointer. A buffer that is handed over or written is an address;
  \<open>bufs\<close> gives the bytes of the object at an address. That blocks do not overlap is the contract
  of the allocator of theory \<open>Heap\<close>, which the stack calls on the heap of the kernel state. The
  contents of a fresh block are arbitrary: the function \<open>junk\<close>. Reading or writing outside an object
  is \<open>None\<close>. The driver behind \<open>transmit\<close> is a module outside the stack: a function from the frames it
  got so far and the new frame to its result. The frames passed to it are recorded in \<open>sent\<close>.
\<close>

section \<open>Byte order\<close>

definition htons :: "u16 \<Rightarrow> u16" where
  "htons v = drop_bit 8 (v AND 0xFF00) OR push_bit 8 (v AND 0x00FF)"

definition htonl :: "u32 \<Rightarrow> u32" where
  "htonl v = (drop_bit 24 (v AND 0xFF000000) OR drop_bit 8 (v AND 0x00FF0000)) OR
     (push_bit 8 (v AND 0x0000FF00) OR push_bit 24 (v AND 0x000000FF))"

abbreviation ntohs :: "u16 \<Rightarrow> u16" where "ntohs \<equiv> htons"
abbreviation ntohl :: "u32 \<Rightarrow> u32" where "ntohl \<equiv> htonl"

text \<open>Six bytes of hardware address.\<close>

datatype mac = Mac u8 u8 u8 u8 u8 u8

fun mac_bytes :: "mac \<Rightarrow> u8 list" where
  "mac_bytes (Mac a b c d e f) = [a, b, c, d, e, f]"

definition rd_mac :: "u8 list \<Rightarrow> nat \<Rightarrow> mac" where
  "rd_mac x i = Mac (x ! i) (x ! (i + 1)) (x ! (i + 2)) (x ! (i + 3)) (x ! (i + 4)) (x ! (i + 5))"

abbreviation mac_of :: "u8 \<Rightarrow> mac" where "mac_of v \<equiv> Mac v v v v v v"

text \<open>\<open>memcpy\<close> of the first \<open>n\<close> bytes of an object, and over the bytes of an object from \<open>off\<close> on.\<close>

definition peek :: "nat \<Rightarrow> u8 list \<Rightarrow> u8 list option" where
  "peek n x = (if n \<le> length x then Some (take n x) else None)"

definition poke :: "nat \<Rightarrow> u8 list \<Rightarrow> u8 list \<Rightarrow> u8 list option" where
  "poke off y x = (if off + length y \<le> length x then Some (take off x @ y @ drop (off + length y) x) else None)"

section \<open>Headers\<close>

abbreviation ETH_P_IP :: u16 where "ETH_P_IP \<equiv> 0x0800"
abbreviation ETH_P_ARP :: u16 where "ETH_P_ARP \<equiv> 0x0806"
abbreviation IPPROTO_ICMP :: u8 where "IPPROTO_ICMP \<equiv> 1"
abbreviation IPPROTO_TCP :: u8 where "IPPROTO_TCP \<equiv> 6"
abbreviation IPPROTO_UDP :: u8 where "IPPROTO_UDP \<equiv> 17"

record ethernet_header =
  eth_dest_mac :: mac
  eth_src_mac :: mac
  ethertype :: u16

record arp_header =
  hw_type :: u16
  proto_type :: u16
  hw_len :: u8
  proto_len :: u8
  opcode :: u16
  arp_src_mac :: mac
  arp_src_ip :: u32
  arp_dest_mac :: mac
  arp_dest_ip :: u32

record ip_header =
  version_ihl :: u8
  tos :: u8
  total_len :: u16
  ip_id :: u16
  flags_fragment :: u16
  ttl :: u8
  protocol :: u8
  checksum :: u16
  src_ip :: u32
  dest_ip :: u32

record udp_header =
  src_port :: u16
  dest_port :: u16
  udp_length :: u16
  udp_checksum :: u16

record sockaddr_in =
  sin_family :: u16
  sin_port :: u16
  s_addr :: u32
  sin_zero :: "u8 list"

text \<open>
  The packed structures as bytes. Overlaying a structure on a buffer is reading its fields at
  their offsets; assigning its fields and leaving the buffer is writing its image back.
\<close>

definition eth_bytes :: "ethernet_header \<Rightarrow> u8 list" where
  "eth_bytes e = mac_bytes (eth_dest_mac e) @ mac_bytes (eth_src_mac e) @ le16 (ethertype e)"

definition eth_at :: "u8 list \<Rightarrow> ethernet_header option" where
  "eth_at x = (if length x < 14 then None
     else Some \<lparr>eth_dest_mac = rd_mac x 0, eth_src_mac = rd_mac x 6, ethertype = rd16 x 12\<rparr>)"

definition arp_bytes :: "arp_header \<Rightarrow> u8 list" where
  "arp_bytes a = le16 (hw_type a) @ le16 (proto_type a) @ [hw_len a, proto_len a] @ le16 (opcode a) @
     mac_bytes (arp_src_mac a) @ le32 (arp_src_ip a) @ mac_bytes (arp_dest_mac a) @ le32 (arp_dest_ip a)"

definition arp_at :: "u8 list \<Rightarrow> arp_header option" where
  "arp_at x = (if length x < 28 then None
     else Some \<lparr>hw_type = rd16 x 0, proto_type = rd16 x 2, hw_len = x ! 4, proto_len = x ! 5, opcode = rd16 x 6,
       arp_src_mac = rd_mac x 8, arp_src_ip = rd32 x 14, arp_dest_mac = rd_mac x 18, arp_dest_ip = rd32 x 24\<rparr>)"

definition ip_bytes :: "ip_header \<Rightarrow> u8 list" where
  "ip_bytes h = [version_ihl h, tos h] @ le16 (total_len h) @ le16 (ip_id h) @ le16 (flags_fragment h) @
     [ttl h, protocol h] @ le16 (checksum h) @ le32 (src_ip h) @ le32 (dest_ip h)"

definition ip_at :: "u8 list \<Rightarrow> ip_header option" where
  "ip_at x = (if length x < 20 then None
     else Some \<lparr>version_ihl = x ! 0, tos = x ! 1, total_len = rd16 x 2, ip_id = rd16 x 4, flags_fragment = rd16 x 6,
       ttl = x ! 8, protocol = x ! 9, checksum = rd16 x 10, src_ip = rd32 x 12, dest_ip = rd32 x 16\<rparr>)"

definition udp_bytes :: "udp_header \<Rightarrow> u8 list" where
  "udp_bytes u = le16 (src_port u) @ le16 (dest_port u) @ le16 (udp_length u) @ le16 (udp_checksum u)"

definition udp_at :: "u8 list \<Rightarrow> udp_header option" where
  "udp_at x = (if length x < 8 then None
     else Some \<lparr>src_port = rd16 x 0, dest_port = rd16 x 2, udp_length = rd16 x 4, udp_checksum = rd16 x 6\<rparr>)"

definition sin_bytes :: "sockaddr_in \<Rightarrow> u8 list" where
  "sin_bytes a = le16 (sin_family a) @ le16 (sin_port a) @ le32 (s_addr a) @ sin_zero a"

definition sin_at :: "u8 list \<Rightarrow> sockaddr_in option" where
  "sin_at x = (if length x < 16 then None
     else Some \<lparr>sin_family = rd16 x 0, sin_port = rd16 x 2, s_addr = rd32 x 4, sin_zero = take 8 (drop 8 x)\<rparr>)"

section \<open>State\<close>

datatype net_event = NET_EVENT_NONE | NET_EVENT_LINK_UP | NET_EVENT_LINK_DOWN

datatype tcp_state =
  TCP_STATE_CLOSED | TCP_STATE_SYN_SENT | TCP_STATE_LISTEN | TCP_STATE_SYN_RECV | TCP_STATE_ESTABLISHED |
  TCP_STATE_FIN_WAIT_1 | TCP_STATE_FIN_WAIT_2 | TCP_STATE_CLOSE_WAIT | TCP_STATE_CLOSING |
  TCP_STATE_LAST_ACK | TCP_STATE_TIME_WAIT

text \<open>The operations of a driver; a null entry is \<open>None\<close>.\<close>

record net_device_ops =
  dev_transmit :: "(u8 list list \<Rightarrow> u8 list \<Rightarrow> int) option"
  dev_receive :: "(u8 list \<Rightarrow> int) option"
  dev_open :: "(unit \<Rightarrow> int) option"
  dev_stop :: "(unit \<Rightarrow> int) option"

record net_interface =
  if_id :: u32
  if_name :: string
  if_mac :: mac
  if_ip :: u32
  if_mask :: u32
  if_gateway :: u32
  ops_table :: "net_device_ops option"
  active :: bool
  if_init :: bool
  is_online :: bool

record net_rx_packet =
  rx_data :: u64
  rx_len :: u32

record arp_entry =
  ip_addr :: u32
  mac_addr :: mac
  is_valid :: u8

record arp_pending_node =
  pend_ip :: u32
  packet_data :: u64
  packet_len :: u32
  pend_next :: u64

text \<open>The operation tables of the three protocol families.\<close>

datatype protocol_operations = g_af_local_ops | g_af_inet_ops | g_pf_packet_ops

record socket =
  family :: int
  s_type :: int
  s_protocol :: int
  s_state :: tcp_state
  local_addr :: "u8 list"
  local_addr_len :: u64
  remote_addr :: "u8 list"
  remote_addr_len :: u64
  local_seq :: u32
  remote_ack :: u32
  proto_ops :: "protocol_operations option"
  rx_buffer :: u64
  rx_head :: u32
  rx_tail :: u32
  tx_buffer :: u64
  tx_head :: u32
  tx_tail :: u32
  peer :: u64
  listen_queue :: u64
  s_next :: u64
  global_next :: u64
  wait_queue :: u64

record net =
  krn :: kernel
  net_cr3 :: u64
  bufs :: "u64 \<Rightarrow> u8 list"
  junk :: "u64 \<Rightarrow> nat \<Rightarrow> u8"
  sent :: "u8 list list"
  g_net_interfaces :: "net_interface list"
  g_interface_count :: u32
  g_active_net_driver_ops :: "net_device_ops option"
  g_net_rx_queue :: "net_rx_packet list"
  g_net_rx_head :: u32
  g_net_rx_tail :: u32
  g_net_rx_wait_addr :: u64
  thread_rx :: u64
  g_net_link_event :: net_event
  g_arp_cache :: "arp_entry list"
  g_arp_victim_idx :: u32
  arp_nodes :: "u64 \<Rightarrow> arp_pending_node"
  g_arp_pending_queue_head :: u64
  g_ip_packet_id :: u16
  socks :: "u64 \<Rightarrow> socket"
  g_bound_sockets_head :: u64

abbreviation MAX_NETWORK_INTERFACES :: u32 where "MAX_NETWORK_INTERFACES \<equiv> 4"
abbreviation NET_RX_QUEUE_SIZE :: u32 where "NET_RX_QUEUE_SIZE \<equiv> 64"

text \<open>\<open>kmalloc\<close> and \<open>kfree\<close> of theory \<open>Heap\<close>, on the heap of the kernel state.\<close>

definition net_kmalloc :: "u32 \<Rightarrow> net \<Rightarrow> (u64 \<times> net) option" where
  "net_kmalloc sz s =
     do {
       (p, h) \<leftarrow> kmalloc (heap (krn s)) (net_cr3 s) (ucast sz);
       let s1 = s\<lparr>krn := (krn s)\<lparr>heap := h\<rparr>\<rparr>;
       Some (p, if p = 0 then s1 else s1\<lparr>bufs := (bufs s1)(p := map (junk s1 p) [0..<unat sz])\<rparr>)
     }"

definition net_kfree :: "u64 \<Rightarrow> net \<Rightarrow> net option" where
  "net_kfree p s =
     do {
       h \<leftarrow> kfree (heap (krn s)) p;
       Some (s\<lparr>krn := (krn s)\<lparr>heap := h\<rparr>\<rparr>)
     }"

abbreviation put_buf :: "u64 \<Rightarrow> u8 list \<Rightarrow> net \<Rightarrow> net" where
  "put_buf p x s \<equiv> s\<lparr>bufs := (bufs s)(p := x)\<rparr>"

section \<open>The table of interfaces\<close>

definition net_driver_register :: "mac option \<Rightarrow> net_device_ops option \<Rightarrow> net \<Rightarrow> int \<times> net" where
  "net_driver_register m ops s =
     (if m = None \<or> ops = None then (-1, s)
      else if g_interface_count s \<ge> MAX_NETWORK_INTERFACES then (-1, s)
      else let i = unat (g_interface_count s);
               old = g_net_interfaces s ! i;
               s1 = s\<lparr>g_net_interfaces := (g_net_interfaces s)[i := old\<lparr>if_id := g_interface_count s, ops_table := ops,
                 active := True, if_mac := the m, if_ip := 0, if_mask := 0, if_gateway := 0, if_init := False,
                 is_online := False, if_name := ''eth'' @ [char_of (48 + i)]\<rparr>]\<rparr>;
               s2 = (if g_interface_count s = 0 then s1\<lparr>g_active_net_driver_ops := ops\<rparr> else s1) in
           (int i, s2\<lparr>g_interface_count := g_interface_count s + 1\<rparr>))"

text \<open>
  The accessors share their guards. A getter leaves the caller's variable, whose old value is an
  argument, unchanged when it fails.
\<close>

definition if_status :: "u32 \<Rightarrow> net \<Rightarrow> int" where
  "if_status i s =
     (if i \<ge> MAX_NETWORK_INTERFACES then -1 else if \<not> active (g_net_interfaces s ! unat i) then -2 else 0)"

definition if_update :: "u32 \<Rightarrow> (net_interface \<Rightarrow> net_interface) \<Rightarrow> net \<Rightarrow> int \<times> net" where
  "if_update i f s =
     (if if_status i s = 0
      then (0, s\<lparr>g_net_interfaces := (g_net_interfaces s)[unat i := f (g_net_interfaces s ! unat i)]\<rparr>)
      else (if_status i s, s))"

definition net_get_interface_mac :: "u32 \<Rightarrow> mac \<Rightarrow> net \<Rightarrow> int \<times> mac" where
  "net_get_interface_mac i old s =
     (if_status i s, if if_status i s = 0 then if_mac (g_net_interfaces s ! unat i) else old)"

definition net_get_interface_ip :: "u32 \<Rightarrow> u32 \<Rightarrow> net \<Rightarrow> int \<times> u32" where
  "net_get_interface_ip i old s =
     (if_status i s, if if_status i s = 0 then if_ip (g_net_interfaces s ! unat i) else old)"

definition net_get_interface_mask :: "u32 \<Rightarrow> u32 \<Rightarrow> net \<Rightarrow> int \<times> u32" where
  "net_get_interface_mask i old s =
     (if_status i s, if if_status i s = 0 then if_mask (g_net_interfaces s ! unat i) else old)"

definition net_get_interface_gateway :: "u32 \<Rightarrow> u32 \<Rightarrow> net \<Rightarrow> int \<times> u32" where
  "net_get_interface_gateway i old s =
     (if_status i s, if if_status i s = 0 then if_gateway (g_net_interfaces s ! unat i) else old)"

definition net_set_interface_ip :: "u32 \<Rightarrow> net \<Rightarrow> int \<times> net" where
  "net_set_interface_ip v = if_update 0 (if_ip_update (\<lambda>_. v))"

definition net_set_interface_mask :: "u32 \<Rightarrow> net \<Rightarrow> int \<times> net" where
  "net_set_interface_mask v = if_update 0 (if_mask_update (\<lambda>_. v))"

definition net_set_interface_gateway :: "u32 \<Rightarrow> net \<Rightarrow> int \<times> net" where
  "net_set_interface_gateway v = if_update 0 (if_gateway_update (\<lambda>_. v))"

definition net_get_interface_init :: "u32 \<Rightarrow> bool \<Rightarrow> net \<Rightarrow> int \<times> net" where
  "net_get_interface_init i flag = if_update i (if_init_update (\<lambda>_. flag))"

definition net_get_interface_is_online :: "u32 \<Rightarrow> bool \<Rightarrow> net \<Rightarrow> int \<times> net" where
  "net_get_interface_is_online i flag = if_update i (is_online_update (\<lambda>_. flag))"

section \<open>Transmission and reception\<close>

definition net_driver_transmit :: "u8 list option \<Rightarrow> u32 \<Rightarrow> net \<Rightarrow> (int \<times> net) option" where
  "net_driver_transmit buffer packet_size s =
     (case buffer of None \<Rightarrow> Some (-1, s)
      | Some x \<Rightarrow>
        if packet_size = 0 then Some (-1, s)
        else (case g_active_net_driver_ops s \<bind> dev_transmit of None \<Rightarrow> Some (-2, s)
          | Some f \<Rightarrow> do {
              frame \<leftarrow> peek (unat packet_size) x;
              Some (f (sent s) frame, s\<lparr>sent := sent s @ [frame]\<rparr>)
            }))"

definition net_driver_receive :: "u8 list option \<Rightarrow> u32 \<Rightarrow> net \<Rightarrow> (int \<times> net) option" where
  "net_driver_receive buffer packet_size s =
     (case buffer of None \<Rightarrow> Some (-1, s)
      | Some x \<Rightarrow>
        if packet_size = 0 \<or> packet_size > 1514 then Some (-1, s)
        else let next_head = (g_net_rx_head s + 1) mod NET_RX_QUEUE_SIZE in
          if next_head = g_net_rx_tail s then Some (-2, s)
          else do {
            (p, s1) \<leftarrow> net_kmalloc packet_size s;
            if p = 0 then Some (-3, s1)
            else do {
              y \<leftarrow> peek (unat packet_size) x;
              let s2 = put_buf p y s1;
              let s3 = s2\<lparr>g_net_rx_queue := (g_net_rx_queue s2)[unat (g_net_rx_head s2) := \<lparr>rx_data = p, rx_len = packet_size\<rparr>],
                g_net_rx_head := next_head\<rparr>;
              Some (0, s3\<lparr>krn := wakeup_thread (g_net_rx_wait_addr s3) (thread_rx s3) (krn s3)\<rparr>)
            }
          })"

definition net_set_link_event :: "net_event \<Rightarrow> net \<Rightarrow> net" where
  "net_set_link_event ev s =
     s\<lparr>g_net_link_event := ev, krn := wakeup_thread (g_net_rx_wait_addr s) (thread_rx s) (krn s)\<rparr>"

definition net_consume_link_event :: "net \<Rightarrow> net_event \<times> net" where
  "net_consume_link_event s =
     (if g_net_link_event s = NET_EVENT_NONE then (NET_EVENT_NONE, s)
      else (g_net_link_event s, s\<lparr>g_net_link_event := NET_EVENT_NONE\<rparr>))"

text \<open>The part of an iteration of \<^verbatim>\<open>network_rx_thread\<close> that takes the next packet off the ring.\<close>

definition rx_take :: "net \<Rightarrow> (net_rx_packet \<times> net) option" where
  "rx_take s =
     (if g_net_rx_head s = g_net_rx_tail s then None
      else Some (g_net_rx_queue s ! unat (g_net_rx_tail s),
        s\<lparr>g_net_rx_tail := (g_net_rx_tail s + 1) mod NET_RX_QUEUE_SIZE\<rparr>))"

section \<open>Images of structures\<close>

named_theorems wire_simps "rewrite rules for structures overlaid on bytes"

lemma byte_masks:
  "(0x00FF :: u16) = mask 8" "(0xFF00 :: u16) = push_bit 8 (mask 8)"
  "(0x000000FF :: u32) = mask 8" "(0x0000FF00 :: u32) = push_bit 8 (mask 8)"
  "(0x00FF0000 :: u32) = push_bit 16 (mask 8)" "(0xFF000000 :: u32) = push_bit 24 (mask 8)"
  by (simp_all add: mask_eq_exp_minus_1 push_bit_eq_mult)

lemma htons_swap: "htons v = drop_bit 8 v OR push_bit 8 v"
  unfolding htons_def byte_masks by (rule bit_eqI) (auto simp: bit_simps not_less dest: bit_imp_le_length)

lemma htons_htons [simp]: "htons (htons v) = v"
proof (rule bit_word_eqI)
  fix n
  show "bit (htons (htons v)) n = bit v n" if "n < LENGTH(16)"
    using that by (cases "n < 8") (auto simp: htons_swap bit_simps)
qed

lemma htons_wire [wire_simps]: "le16 (htons v) = [ucast (drop_bit 8 v), ucast v]"
  unfolding le16_def htons_swap by (auto intro!: bit_eqI simp: bit_simps)

lemma length_mac [simp]: "length (mac_bytes m) = 6"
  by (cases m) simp

lemma length_images [simp]:
  "length (eth_bytes e) = 14" "length (arp_bytes a) = 28" "length (ip_bytes h) = 20" "length (udp_bytes u) = 8"
  by (simp_all add: eth_bytes_def arp_bytes_def ip_bytes_def udp_bytes_def)

lemmas at_defs = le16_def le32_def rd16_def rd32_def rd_mac_def

lemma eth_at_bytes [wire_simps]: "eth_at (eth_bytes e @ x) = Some e"
  by (cases "eth_dest_mac e"; cases "eth_src_mac e"; cases e) (simp add: eth_at_def eth_bytes_def at_defs)

lemma arp_at_bytes [wire_simps]: "arp_at (arp_bytes a @ x) = Some a"
  by (cases "arp_src_mac a"; cases "arp_dest_mac a"; cases a) (simp add: arp_at_def arp_bytes_def at_defs)

lemma ip_at_bytes [wire_simps]: "ip_at (ip_bytes h @ x) = Some h"
  by (cases h) (simp add: ip_at_def ip_bytes_def at_defs)

lemma udp_at_bytes [wire_simps]: "udp_at (udp_bytes u @ x) = Some u"
  by (cases u) (simp add: udp_at_def udp_bytes_def at_defs)

lemma sin_at_bytes [wire_simps]: "length (sin_zero a) = 8 \<Longrightarrow> sin_at (sin_bytes a @ x) = Some a"
  by (cases a) (simp add: sin_at_def sin_bytes_def at_defs)

section \<open>Buffers from the heap\<close>

text \<open>The addresses of the live blocks, and a free block of at least \<open>k\<close> bytes.\<close>

definition ptrs :: "net \<Rightarrow> u64 set" where
  "ptrs s = heap_ptrs (net_cr3 s) (heap (krn s))"

definition net_room :: "nat \<Rightarrow> net \<Rightarrow> bool" where
  "net_room k s \<longleftrightarrow> heap_room (net_cr3 s) (heap (krn s)) k"

lemmas net_room_inv = net_room_def [unfolded heap_room_def]

abbreviation set_heap :: "kheap \<Rightarrow> net \<Rightarrow> net" where
  "set_heap h s \<equiv> s\<lparr>krn := (krn s)\<lparr>heap := h\<rparr>\<rparr>"

abbreviation fresh_bytes :: "net \<Rightarrow> u64 \<Rightarrow> u32 \<Rightarrow> u8 list" where
  "fresh_bytes s p sz \<equiv> map (junk s p) [0..<unat sz]"

lemma heap_cong:
  assumes "heap (krn t) = heap (krn s)" "net_cr3 t = net_cr3 s"
  shows "net_room k t = net_room k s" "ptrs t = ptrs s"
  using assms by (simp_all add: net_room_def ptrs_def)

lemma net_room_mono: "net_room k s \<Longrightarrow> j \<le> k \<Longrightarrow> net_room j s"
  unfolding net_room_def by (rule heap_room_mono)

lemma ptrs_live: "heap_inv (net_cr3 s) (heap (krn s)) bs \<Longrightarrow> ptrs s = {p. \<exists>j. (unat p, j) \<in> heap_live bs}"
  unfolding ptrs_def by (rule heap_ptrs_live)

lemma unat_size:
  fixes sz :: u32
  assumes "0 < sz"
  shows "0 < unat (ucast sz :: u64)" "unat (ucast sz :: u64) + 5000 < 2 ^ 64" "unat (ucast sz :: u64) = unat sz"
proof -
  have lt: "unat sz < 2 ^ 32" using unsigned_less [of sz, where 'a = nat] by simp
  then show u: "unat (ucast sz :: u64) = unat sz" by (simp add: unsigned_ucast_eq take_bit_nat_eq_self)
  show "0 < unat (ucast sz :: u64)" unfolding u using assms by (simp add: word_less_nat_alt)
  show "unat (ucast sz :: u64) + 5000 < 2 ^ 64" unfolding u using lt by simp
qed

lemma net_kmalloc_spec:
  assumes "net_room k s" "0 < sz" "round16 (unat sz) + 48 \<le> k"
  shows "\<exists>p h s'. s' = (set_heap h s)\<lparr>bufs := (bufs s)(p := fresh_bytes s p sz)\<rparr> \<and>
    net_kmalloc sz s = Some (p, s') \<and> p \<noteq> 0 \<and> p \<notin> ptrs s \<and>
    net_room (k - round16 (unat sz) - 32) s' \<and> ptrs s' = insert p (ptrs s)"
proof -
  note u = unat_size [OF assms(2)]
  from kmalloc_ptr [OF assms(1) [unfolded net_room_def] u(1,2)] assms(3) obtain p h where
    r: "kmalloc (heap (krn s)) (net_cr3 s) (ucast sz) = Some (p, h)" "p \<noteq> 0" "p \<notin> heap_ptrs (net_cr3 s) (heap (krn s))"
      "heap_room (net_cr3 s) h (k - round16 (unat sz) - 32)" "heap_ptrs (net_cr3 s) h = insert p (heap_ptrs (net_cr3 s) (heap (krn s)))"
    unfolding u(3) by blast
  let ?s' = "(set_heap h s)\<lparr>bufs := (bufs s)(p := fresh_bytes s p sz)\<rparr>"
  show ?thesis by (intro exI [of _ p] exI [of _ h] exI [of _ ?s']) (use r in \<open>simp add: net_kmalloc_def net_room_def ptrs_def\<close>)
qed

lemma net_kfree_spec:
  assumes "net_room k s" "p \<in> ptrs s"
  shows "\<exists>h s'. s' = set_heap h s \<and> net_kfree p s = Some s' \<and> net_room k s' \<and> ptrs s' = ptrs s - {p}"
proof -
  from kfree_ptr [OF assms(1) [unfolded net_room_def] assms(2) [unfolded ptrs_def]] obtain h where
    r: "kfree (heap (krn s)) p = Some h" "heap_room (net_cr3 s) h k" "heap_ptrs (net_cr3 s) h = heap_ptrs (net_cr3 s) (heap (krn s)) - {p}" by blast
  show ?thesis by (intro exI [of _ h] exI [of _ "set_heap h s"]) (simp add: r net_kfree_def net_room_def ptrs_def)
qed

text \<open>A block that is allocated, used and released leaves the heap with the blocks it had.\<close>

lemma net_temp_buffer:
  assumes "net_room k s" "0 < sz" "round16 (unat sz) \<le> k"
  shows "\<exists>p h1 h2. net_kmalloc sz s = Some (p, (set_heap h1 s)\<lparr>bufs := (bufs s)(p := fresh_bytes s p sz)\<rparr>) \<and>
    p \<noteq> 0 \<and> p \<notin> ptrs s \<and> kfree h1 p = Some h2 \<and> net_room k (set_heap h2 s) \<and> ptrs (set_heap h2 s) = ptrs s"
proof -
  note u = unat_size [OF assms(2)]
  from assms(1) obtain bs where i: "heap_inv (net_cr3 s) (heap (krn s)) bs" "room k bs" by (auto simp: net_room_inv)
  then have ex: "\<exists>t. (t, True) \<in> set bs \<and> round16 (unat (ucast sz :: u64)) \<le> t"
    using assms(3) unfolding room_def u(3) by fastforce
  have u2: "unat (ucast sz :: u64) + 15 < 2 ^ 64" using u(2) by simp
  from kmalloc_kfree_undo [OF i(1) u(1) u2 ex] obtain p h1 h2 where
    r: "kmalloc (heap (krn s)) (net_cr3 s) (ucast sz) = Some (p, h1)" "kfree h1 p = Some h2"
      "heap_inv (net_cr3 s) h2 bs" by blast
  have "servable (heap (krn s)) bs (ucast sz)" using u(1,2) ex by (simp add: servable_def)
  from kmalloc_spec [OF i(1) this] r(1) obtain bs' j where
    g: "p \<noteq> 0" "(unat p, j) \<notin> heap_live bs" "heap_live bs' = insert (unat p, j) (heap_live bs)" by auto
  have "p \<notin> ptrs s" unfolding ptrs_live [OF i(1)] using fresh_ptr [OF g(3,2)] by simp
  moreover have "ptrs (set_heap h2 s) = ptrs s"
    unfolding ptrs_live [OF i(1)] by (rule ptrs_live) (use r(3) in simp)
  moreover have "net_room k (set_heap h2 s)" unfolding net_room_inv using r(3) i(2) by (intro exI [of _ bs]) simp
  moreover have "net_kmalloc sz s = Some (p, (set_heap h1 s)\<lparr>bufs := (bufs s)(p := fresh_bytes s p sz)\<rparr>)"
    using r(1) g(1) by (simp add: net_kmalloc_def)
  ultimately show ?thesis using r(2) g(1) by blast
qed

section \<open>Transmission\<close>

definition transmitter :: "net \<Rightarrow> (u8 list list \<Rightarrow> u8 list \<Rightarrow> int) option" where
  "transmitter s = g_active_net_driver_ops s \<bind> dev_transmit"

text \<open>The result of handing a frame to the driver, and the frames the driver has got then.\<close>

definition tx_result :: "u8 list \<Rightarrow> net \<Rightarrow> int" where
  "tx_result x s = (case transmitter s of None \<Rightarrow> -2 | Some f \<Rightarrow> f (sent s) x)"

definition tx_sent :: "u8 list list \<Rightarrow> net \<Rightarrow> u8 list list" where
  "tx_sent xs s = (if transmitter s = None then sent s else sent s @ xs)"

lemma tx_cong:
  assumes "transmitter t = transmitter s" "sent t = sent s"
  shows "tx_result x t = tx_result x s" "tx_sent xs t = tx_sent xs s"
  using assms by (simp_all add: tx_result_def tx_sent_def cong: option.case_cong)

lemma net_driver_transmit_spec:
  assumes "0 < n" "unat n \<le> length x"
  shows "net_driver_transmit (Some x) n s = Some (tx_result (take (unat n) x) s, s\<lparr>sent := tx_sent [take (unat n) x] s\<rparr>)"
  using assms
  by (auto simp: net_driver_transmit_def tx_result_def tx_sent_def transmitter_def peek_def split: option.splits)

text \<open>
  A step that leaves everything but the heap, the contents of dead blocks and the wire alone, and
  ends with the blocks it started with.
\<close>

definition quiet :: "net \<Rightarrow> net \<Rightarrow> bool" where
  "quiet s s' \<longleftrightarrow> s' = s\<lparr>krn := (krn s)\<lparr>heap := heap (krn s')\<rparr>, bufs := bufs s', sent := sent s'\<rparr> \<and>
     ptrs s' = ptrs s \<and> (\<forall>p\<in>ptrs s. bufs s' p = bufs s p)"

lemma quiet_fields:
  assumes "quiet s s'"
  shows "g_net_interfaces s' = g_net_interfaces s" "g_arp_cache s' = g_arp_cache s"
    "g_arp_victim_idx s' = g_arp_victim_idx s" "arp_nodes s' = arp_nodes s" "socks s' = socks s"
    "g_arp_pending_queue_head s' = g_arp_pending_queue_head s" "g_bound_sockets_head s' = g_bound_sockets_head s"
    "transmitter s' = transmitter s" "g_ip_packet_id s' = g_ip_packet_id s" "ptrs s' = ptrs s"
    "p \<in> ptrs s \<Longrightarrow> bufs s' p = bufs s p" "net_cr3 s' = net_cr3 s"
proof -
  from assms obtain k b t where s': "s' = s\<lparr>krn := k, bufs := b, sent := t\<rparr>" unfolding quiet_def by blast
  show "g_net_interfaces s' = g_net_interfaces s" "g_arp_cache s' = g_arp_cache s"
    "g_arp_victim_idx s' = g_arp_victim_idx s" "arp_nodes s' = arp_nodes s" "socks s' = socks s"
    "g_arp_pending_queue_head s' = g_arp_pending_queue_head s" "g_bound_sockets_head s' = g_bound_sockets_head s"
    "transmitter s' = transmitter s" "g_ip_packet_id s' = g_ip_packet_id s" "net_cr3 s' = net_cr3 s"
    unfolding s' transmitter_def by simp_all
  show "ptrs s' = ptrs s" "p \<in> ptrs s \<Longrightarrow> bufs s' p = bufs s p" using assms by (simp_all add: quiet_def)
qed

text \<open>Filling a temporary buffer, sending it and releasing it.\<close>

lemma send_temp:
  assumes "net_room k s" "0 < sz" "round16 (unat sz) \<le> k"
  shows "\<exists>p h1. net_kmalloc sz s = Some (p, (set_heap h1 s)\<lparr>bufs := (bufs s)(p := fresh_bytes s p sz)\<rparr>) \<and> p \<noteq> 0 \<and>
    (\<forall>x. length x = unat sz \<longrightarrow> (\<exists>s'. quiet s s' \<and> net_room k s' \<and> sent s' = tx_sent [x] s \<and>
      do { (r, t) \<leftarrow> net_driver_transmit (Some x) sz ((set_heap h1 s)\<lparr>bufs := (bufs s)(p := x)\<rparr>);
           u \<leftarrow> net_kfree p t; Some (r, u) } = Some (tx_result x s, s')))"
proof -
  from net_temp_buffer [OF assms] obtain p h1 h2 where
    a: "net_kmalloc sz s = Some (p, (set_heap h1 s)\<lparr>bufs := (bufs s)(p := fresh_bytes s p sz)\<rparr>)" "p \<noteq> 0"
      "p \<notin> ptrs s" "kfree h1 p = Some h2" "net_room k (set_heap h2 s)" "ptrs (set_heap h2 s) = ptrs s" by blast
  have "\<exists>s'. quiet s s' \<and> net_room k s' \<and> sent s' = tx_sent [x] s \<and>
      do { (r, t) \<leftarrow> net_driver_transmit (Some x) sz ((set_heap h1 s)\<lparr>bufs := (bufs s)(p := x)\<rparr>);
           u \<leftarrow> net_kfree p t; Some (r, u) } = Some (tx_result x s, s')" if x: "length x = unat sz" for x
  proof -
    let ?t = "(set_heap h1 s)\<lparr>bufs := (bufs s)(p := x)\<rparr>"
    let ?s' = "(set_heap h2 s)\<lparr>bufs := (bufs s)(p := x), sent := tx_sent [x] s\<rparr>"
    have d: "net_driver_transmit (Some x) sz ?t = Some (tx_result x s, ?t\<lparr>sent := tx_sent [x] s\<rparr>)"
      using net_driver_transmit_spec [of sz x ?t] assms(2) x tx_cong [of ?t s] by (simp add: transmitter_def)
    have f: "net_kfree p (?t\<lparr>sent := tx_sent [x] s\<rparr>) = Some ?s'" using a(4) by (simp add: net_kfree_def)
    have "ptrs ?s' = ptrs s" using heap_cong(2) [of ?s' "set_heap h2 s"] a(6) by simp
    moreover have "net_room k ?s'" using heap_cong(1) [of ?s' "set_heap h2 s"] a(5) by simp
    ultimately show ?thesis using a(3) unfolding d by (intro exI [of _ ?s']) (auto simp: quiet_def f)
  qed
  with a(1,2) show ?thesis by blast
qed

section \<open>The ring of received packets\<close>

definition rx_ok :: "net \<Rightarrow> bool" where
  "rx_ok s \<longleftrightarrow> ring_ok 64 (unat (g_net_rx_head s)) (unat (g_net_rx_tail s)) (g_net_rx_queue s)"

definition rx_queue :: "net \<Rightarrow> net_rx_packet list" where
  "rx_queue s = ring_items 64 (unat (g_net_rx_head s)) (unat (g_net_rx_tail s)) (g_net_rx_queue s)"

lemma unat_next: "unat h < n \<Longrightarrow> n \<le> 2 ^ 16 \<Longrightarrow> unat ((h + 1) mod of_nat n :: u32) = Suc (unat h) mod n"
  by (simp add: unat_mod unat_add_nowrap unat_of_nat_id)

lemma wakeup_thread_heap [simp]: "heap (wakeup_thread ch t s) = heap s"
  by (simp add: wakeup_thread_def wake_if_def enqueue_thread_def upd_defs Let_def)

lemma net_driver_receive_full:
  assumes "rx_ok s" "0 < n" "n \<le> 1514" "length (rx_queue s) = 63"
  shows "net_driver_receive (Some x) n s = Some (-2, s)"
proof -
  let ?h = "g_net_rx_head s"
  from assms(1) have o: "unat ?h < 64" "unat (g_net_rx_tail s) < 64" by (simp_all add: rx_ok_def ring_ok_def)
  have "Suc (unat ?h) mod 64 = unat (g_net_rx_tail s)"
    using assms(4) ring_count_full [OF o] by (simp add: rx_queue_def)
  then have "(?h + 1) mod 64 = g_net_rx_tail s" using unat_next [OF o(1)] by (simp add: word_unat_eq_iff)
  with assms(2,3) show ?thesis by (auto simp: net_driver_receive_def Let_def)
qed

lemma net_driver_receive_ok:
  assumes ok: "rx_ok s" and room: "net_room k s" "round16 (unat n) + 48 \<le> k" and n: "0 < n" "n \<le> 1514"
    and x: "unat n \<le> length x" and q: "length (rx_queue s) \<noteq> 63"
  shows "\<exists>p s'. net_driver_receive (Some x) n s = Some (0, s') \<and> p \<noteq> 0 \<and> p \<notin> ptrs s \<and> ptrs s' = insert p (ptrs s) \<and>
    rx_ok s' \<and> rx_queue s' = rx_queue s @ [\<lparr>rx_data = p, rx_len = n\<rparr>] \<and> bufs s' = (bufs s)(p := take (unat n) x)"
proof -
  let ?h = "unat (g_net_rx_head s)" and ?t = "unat (g_net_rx_tail s)" and ?nh = "(g_net_rx_head s + 1) mod 64"
  from ok have o: "?h < 64" "?t < 64" "ring_ok 64 ?h ?t (g_net_rx_queue s)" by (simp_all add: rx_ok_def ring_ok_def)
  have nh: "unat ?nh = Suc ?h mod 64" using unat_next [OF o(1)] by simp
  have ne: "Suc ?h mod 64 \<noteq> ?t" using q ring_count_full [OF o(1,2)] by (simp add: rx_queue_def)
  then have nt: "?nh \<noteq> g_net_rx_tail s" using nh by auto
  from net_kmalloc_spec [OF room(1) n(1) room(2)] obtain p h where
    a: "net_kmalloc n s = Some (p, (set_heap h s)\<lparr>bufs := (bufs s)(p := fresh_bytes s p n)\<rparr>)" "p \<noteq> 0" "p \<notin> ptrs s"
      "ptrs ((set_heap h s)\<lparr>bufs := (bufs s)(p := fresh_bytes s p n)\<rparr>) = insert p (ptrs s)" by blast
  let ?k = "wakeup_thread (g_net_rx_wait_addr s) (thread_rx s) ((krn s)\<lparr>heap := h\<rparr>)"
  let ?s' = "s\<lparr>krn := ?k, bufs := (bufs s)(p := take (unat n) x),
    g_net_rx_queue := (g_net_rx_queue s)[?h := \<lparr>rx_data = p, rx_len = n\<rparr>], g_net_rx_head := ?nh\<rparr>"
  have r: "net_driver_receive (Some x) n s = Some (0, ?s')"
    using n x nt a(1,2) by (simp add: net_driver_receive_def Let_def peek_def not_less)
  have "ptrs ?s' = insert p (ptrs s)" using heap_cong(2) [of ?s' "set_heap h s"] a(4) heap_cong(2) [of "set_heap h s"]
    by (simp add: ptrs_def)
  then show ?thesis using r a(2,3) ring_push [OF o(3) ne, of "\<lparr>rx_data = p, rx_len = n\<rparr>"]
    by (intro exI [of _ p] exI [of _ ?s']) (simp add: rx_ok_def rx_queue_def nh)
qed

lemma rx_take_spec:
  assumes "rx_ok s"
  shows "rx_queue s = [] \<Longrightarrow> rx_take s = None"
    "rx_queue s = a # q \<Longrightarrow> \<exists>s'. rx_take s = Some (a, s') \<and> rx_ok s' \<and> rx_queue s' = q \<and>
       s' = s\<lparr>g_net_rx_tail := g_net_rx_tail s'\<rparr>"
proof -
  let ?h = "unat (g_net_rx_head s)" and ?t = "unat (g_net_rx_tail s)"
  from assms have o: "?h < 64" "?t < 64" "ring_ok 64 ?h ?t (g_net_rx_queue s)" by (simp_all add: rx_ok_def ring_ok_def)
  have e: "rx_queue s = [] \<longleftrightarrow> g_net_rx_head s = g_net_rx_tail s"
    using ring_count_empty [OF o(1,2)] length_ring_items [of 64 ?h ?t "g_net_rx_queue s"]
    by (metis length_0_conv rx_queue_def word_unat_eq_iff)
  then show "rx_queue s = [] \<Longrightarrow> rx_take s = None" by (simp add: rx_take_def)
  assume q: "rx_queue s = a # q"
  with e have ne: "g_net_rx_head s \<noteq> g_net_rx_tail s" by simp
  then have "?h \<noteq> ?t" by (simp add: word_unat_eq_iff)
  from ring_pop [OF o(3) this] q have "a = g_net_rx_queue s ! ?t" "q = ring_items 64 ?h (Suc ?t mod 64) (g_net_rx_queue s)"
    by (simp_all add: rx_queue_def)
  moreover have "unat ((g_net_rx_tail s + 1) mod 64) = Suc ?t mod 64" using unat_next [OF o(2)] by simp
  moreover have "ring_ok 64 ?h (Suc ?t mod 64) (g_net_rx_queue s)" using o(3) by (simp add: ring_ok_def)
  ultimately show "\<exists>s'. rx_take s = Some (a, s') \<and> rx_ok s' \<and> rx_queue s' = q \<and> s' = s\<lparr>g_net_rx_tail := g_net_rx_tail s'\<rparr>"
    using ne by (simp add: rx_take_def rx_ok_def rx_queue_def)
qed

section \<open>Properties\<close>

text \<open>C17: The ring of received packets is a bounded queue. With room in the heap, \<^verbatim>\<open>net_driver_receive\<close> of
  a frame of 1 to 1514 bytes refuses it with code -2 exactly when 63 packets wait; otherwise it
  appends a fresh block with a copy of the frame behind the waiting packets. The receive thread takes
  the packets out in this order and finds none exactly when the queue is empty. The wrap-around of the
  indices is invisible.\<close>

theorem net_rx_ring_refines:
  assumes "rx_ok s" "net_room k s" "round16 (unat n) + 48 \<le> k" "0 < n" "n \<le> 1514" "unat n \<le> length x"
  shows "(if length (rx_queue s) = 63 then net_driver_receive (Some x) n s = Some (-2, s)
      else \<exists>p s'. net_driver_receive (Some x) n s = Some (0, s') \<and> p \<notin> ptrs s \<and> rx_ok s' \<and>
        rx_queue s' = rx_queue s @ [\<lparr>rx_data = p, rx_len = n\<rparr>] \<and> bufs s' = (bufs s)(p := take (unat n) x)) \<and>
    (case rx_queue s of [] \<Rightarrow> rx_take s = None
      | a # q \<Rightarrow> \<exists>s'. rx_take s = Some (a, s') \<and> rx_ok s' \<and> rx_queue s' = q)"
proof (rule conjI)
  show "if length (rx_queue s) = 63 then net_driver_receive (Some x) n s = Some (-2, s)
      else \<exists>p s'. net_driver_receive (Some x) n s = Some (0, s') \<and> p \<notin> ptrs s \<and> rx_ok s' \<and>
        rx_queue s' = rx_queue s @ [\<lparr>rx_data = p, rx_len = n\<rparr>] \<and> bufs s' = (bufs s)(p := take (unat n) x)"
    using net_driver_receive_full [OF assms(1,4,5)] net_driver_receive_ok [OF assms] by (auto split: if_splits)
  show "case rx_queue s of [] \<Rightarrow> rx_take s = None
      | a # q \<Rightarrow> \<exists>s'. rx_take s = Some (a, s') \<and> rx_ok s' \<and> rx_queue s' = q"
    using rx_take_spec [OF assms(1)] by (auto split: list.splits)
qed

text \<open>Structures and bytes correspond. Overlaying a header on the image of a header gives the header
  back, whatever follows it, and a 16-bit field assigned through \<^verbatim>\<open>htons\<close> appears on the wire with its most
  significant byte first.\<close>

theorem header_images_roundtrip:
  "eth_at (eth_bytes e @ x) = Some e \<and> arp_at (arp_bytes a @ x) = Some a \<and> ip_at (ip_bytes i @ x) = Some i \<and>
   udp_at (udp_bytes u @ x) = Some u \<and> htons (htons v) = v \<and>
   le16 (htons v) = [ucast (drop_bit 8 v), ucast v]"
  by (simp add: wire_simps)

text \<open>
  An example: one active interface with a driver that accepts every frame, an empty ring whose
  indices are about to wrap around, and the kernel of the scheduler example.
\<close>

definition if0 :: net_interface where
  "if0 = \<lparr>if_id = 0, if_name = [], if_mac = mac_of 0, if_ip = 0, if_mask = 0, if_gateway = 0, ops_table = None,
     active = False, if_init = False, is_online = False\<rparr>"

definition sock0 :: socket where
  "sock0 = \<lparr>family = 0, s_type = 0, s_protocol = 0, s_state = TCP_STATE_CLOSED, local_addr = replicate 256 0,
     local_addr_len = 0, remote_addr = replicate 256 0, remote_addr_len = 0, local_seq = 0, remote_ack = 0, proto_ops = None,
     rx_buffer = 0, rx_head = 0, rx_tail = 0, tx_buffer = 0, tx_head = 0, tx_tail = 0, peer = 0, listen_queue = 0,
     s_next = 0, global_next = 0, wait_queue = 0\<rparr>"

definition ops_demo :: net_device_ops where
  "ops_demo = \<lparr>dev_transmit = Some (\<lambda>_ _. 0), dev_receive = None, dev_open = None, dev_stop = None\<rparr>"

definition net_demo :: net where
  "net_demo = \<lparr>krn = kernel_demo, net_cr3 = 1, bufs = (\<lambda>_. replicate 64 0), junk = (\<lambda>_ _. 0xAA), sent = [],
     g_net_interfaces = [if0\<lparr>if_mac := Mac 2 0 0 0 0 1, if_ip := 0x0F02000A, active := True, ops_table := Some ops_demo\<rparr>, if0, if0, if0],
     g_interface_count = 1, g_active_net_driver_ops = Some ops_demo,
     g_net_rx_queue = replicate 64 \<lparr>rx_data = 0, rx_len = 0\<rparr>, g_net_rx_head = 63, g_net_rx_tail = 63,
     g_net_rx_wait_addr = 7, thread_rx = 0x400, g_net_link_event = NET_EVENT_NONE,
     g_arp_cache = replicate 32 \<lparr>ip_addr = 0, mac_addr = mac_of 0, is_valid = 0\<rparr>, g_arp_victim_idx = 0,
     arp_nodes = (\<lambda>_. \<lparr>pend_ip = 0, packet_data = 0, packet_len = 0, pend_next = 0\<rparr>), g_arp_pending_queue_head = 0,
     g_ip_packet_id = 0xFFFF, socks = (\<lambda>_. sock0), g_bound_sockets_head = 0\<rparr>"

lemma demo_heap_blocks: "heap_inv 1 (heap kernel_demo) [(64, False), (3968, True)]"
  using heap_two_inv by (simp add: kernel_demo_def)

lemma net_demo_room: "net_room 3968 net_demo"
proof -
  have "room 3968 [(64, False), (3968, True)]" by (simp add: room_def)
  with demo_heap_blocks show ?thesis
    unfolding net_room_inv by (intro exI [of _ "[(64, False), (3968, True)]"]) (simp add: net_demo_def)
qed

lemma net_demo_ptrs: "ptrs net_demo = {KERNEL_HEAP_VIRTUAL_BASE + 32}"
proof -
  have "heap_inv (net_cr3 net_demo) (heap (krn net_demo)) [(64, False), (3968, True)]"
    using demo_heap_blocks by (simp add: net_demo_def)
  from ptrs_live [OF this] have "ptrs net_demo = {p. \<exists>j. (unat p, j) \<in> heap_live [(64, False), (3968, True)]}" .
  also have "heap_live [(64, False), (3968, True)] = {(unat (KERNEL_HEAP_VIRTUAL_BASE + 32), 64)}" by simp
  also have "{p. \<exists>j. (unat p, j) \<in> {(unat (KERNEL_HEAP_VIRTUAL_BASE + 32), 64)}} = {KERNEL_HEAP_VIRTUAL_BASE + 32}"
    using word_unat_eq_iff [where ?'a = 64] by blast
  finally show ?thesis .
qed

lemma net_demo_rx: "rx_ok net_demo" "rx_queue net_demo = []"
  by (simp_all add: rx_ok_def rx_queue_def ring_ok_def ring_items_def ring_count_def net_demo_def)

theorem net_rx_ring_refines_witness:
  "\<exists>p s'. net_driver_receive (Some [1, 2, 3]) 3 net_demo = Some (0, s') \<and>
     rx_queue s' = [\<lparr>rx_data = p, rx_len = 3\<rparr>] \<and> bufs s' p = [1, 2, 3]"
proof -
  have "round16 (unat (3 :: u32)) + 48 \<le> 3968" by (simp add: round16_def)
  from net_rx_ring_refines [OF net_demo_rx(1) net_demo_room this, of "[1, 2, 3]"] show ?thesis
    unfolding net_demo_rx(2) by auto
qed

end
