(* ===== verification/Arp.thy ===== *)
theory Arp
  imports Net
begin

text \<open>
  Address resolution: \<^verbatim>\<open>src/kernel/kernel/net/arp.c\<close> and the link layer output of \<^verbatim>\<open>ethernet.c\<close>. The cache
  is an array of 32 entries with round-robin replacement; packets whose destination is not resolved
  wait in a linked list of nodes in \<open>arp_nodes\<close> until a reply arrives.
\<close>

section \<open>The link layer\<close>

definition ethernet_output :: "u64 \<Rightarrow> u32 \<Rightarrow> mac option \<Rightarrow> net \<Rightarrow> (int \<times> net) option" where
  "ethernet_output p len hardware_mac s =
     (if p = 0 \<or> hardware_mac = None \<or> len < 14 then Some (-1, s)
      else do {
        x \<leftarrow> poke 0 (mac_bytes (the hardware_mac)) (bufs s p);
        let s1 = put_buf p x s;
        net_driver_transmit (Some x) len s1
      })"

section \<open>The cache\<close>

abbreviation ARP_CACHE_MAX :: nat where "ARP_CACHE_MAX \<equiv> 32"
abbreviation ARP_OP_REQUEST :: u16 where "ARP_OP_REQUEST \<equiv> 1"
abbreviation ARP_OP_REPLY :: u16 where "ARP_OP_REPLY \<equiv> 2"

definition arp_init :: "net \<Rightarrow> net" where
  "arp_init s = s\<lparr>g_arp_cache := replicate ARP_CACHE_MAX \<lparr>ip_addr = 0, mac_addr = mac_of 0, is_valid = 0\<rparr>\<rparr>"

definition net_init :: "net \<Rightarrow> net" where
  "net_init s = arp_init (s\<lparr>g_active_net_driver_ops := None, g_interface_count := 0, thread_rx := 0,
     g_net_interfaces := replicate 4 \<lparr>if_id = 0, if_name = [], if_mac = mac_of 0, if_ip = 0, if_mask = 0,
       if_gateway = 0, ops_table = None, active = False, if_init = False, is_online = False\<rparr>\<rparr>)"

definition holds :: "u32 \<Rightarrow> arp_entry \<Rightarrow> bool" where
  "holds ip e \<longleftrightarrow> is_valid e \<noteq> 0 \<and> ip_addr e = ip"

definition arp_cache_lookup :: "u32 \<Rightarrow> mac option \<Rightarrow> net \<Rightarrow> int \<times> mac option" where
  "arp_cache_lookup ip out s =
     (case out of None \<Rightarrow> (-1, None)
      | Some old \<Rightarrow>
        (case List.find (\<lambda>i. holds ip (g_arp_cache s ! i)) [0..<ARP_CACHE_MAX] of
           Some i \<Rightarrow> (0, Some (mac_addr (g_arp_cache s ! i)))
         | None \<Rightarrow> (-1, Some old)))"

definition arp_cache_insert :: "u32 \<Rightarrow> mac \<Rightarrow> net \<Rightarrow> net" where
  "arp_cache_insert ip m s =
     (let c = g_arp_cache s in
      case List.find (\<lambda>i. holds ip (c ! i)) [0..<ARP_CACHE_MAX] of
        Some i \<Rightarrow> s\<lparr>g_arp_cache := c[i := (c ! i)\<lparr>mac_addr := m\<rparr>]\<rparr>
      | None \<Rightarrow>
        (case List.find (\<lambda>i. is_valid (c ! i) = 0) [0..<ARP_CACHE_MAX] of
           Some i \<Rightarrow> s\<lparr>g_arp_cache := c[i := \<lparr>ip_addr = ip, mac_addr = m, is_valid = 1\<rparr>]\<rparr>
         | None \<Rightarrow>
           s\<lparr>g_arp_cache := c[unat (g_arp_victim_idx s) := \<lparr>ip_addr = ip, mac_addr = m, is_valid = 1\<rparr>],
             g_arp_victim_idx := (g_arp_victim_idx s + 1) mod 32\<rparr>))"

section \<open>Packets that wait\<close>

definition arp_retain_packet :: "u32 \<Rightarrow> u64 \<Rightarrow> u32 \<Rightarrow> net \<Rightarrow> (int \<times> net) option" where
  "arp_retain_packet ip data len s =
     (if data = 0 \<or> len = 0 then Some (-1, s)
      else do {
        (node, s1) \<leftarrow> net_kmalloc 32 s;
        if node = 0 then Some (-1, s1)
        else Some (0, s1\<lparr>arp_nodes := (arp_nodes s1)(node := \<lparr>pend_ip = ip, packet_data = data, packet_len = len,
               pend_next = g_arp_pending_queue_head s1\<rparr>),
             g_arp_pending_queue_head := node\<rparr>)
      })"

partial_function (option) flush_loop :: "u32 \<Rightarrow> mac \<Rightarrow> u64 \<Rightarrow> u64 \<Rightarrow> net \<Rightarrow> net option" where
  "flush_loop ip m prev cur s =
     (if cur = 0 then Some s
      else if pend_ip (arp_nodes s cur) = ip then do {
        (r, s1) \<leftarrow> ethernet_output (packet_data (arp_nodes s cur)) (packet_len (arp_nodes s cur)) (Some m) s;
        let s2 = (if prev = 0 then s1\<lparr>g_arp_pending_queue_head := pend_next (arp_nodes s1 cur)\<rparr>
          else s1\<lparr>arp_nodes := (arp_nodes s1)(prev := (arp_nodes s1 prev)\<lparr>pend_next := pend_next (arp_nodes s1 cur)\<rparr>)\<rparr>);
        let cur' = (if prev = 0 then g_arp_pending_queue_head s2 else pend_next (arp_nodes s2 cur));
        s3 \<leftarrow> net_kfree (packet_data (arp_nodes s2 cur)) s2;
        s4 \<leftarrow> net_kfree cur s3;
        flush_loop ip m prev cur' s4
      }
      else flush_loop ip m cur (pend_next (arp_nodes s cur)) s)"

definition arp_flush_pending_packets :: "u32 \<Rightarrow> mac \<Rightarrow> net \<Rightarrow> net option" where
  "arp_flush_pending_packets ip m s = flush_loop ip m 0 (g_arp_pending_queue_head s) s"

section \<open>Requests, announcements and input\<close>

text \<open>
  The assignments to the ARP header that the three senders share: our hardware address is fetched
  into the source field, which keeps its old contents when interface 0 is not active.
\<close>

definition arp_fill :: "u16 \<Rightarrow> u32 \<Rightarrow> mac \<Rightarrow> u32 \<Rightarrow> net \<Rightarrow> arp_header \<Rightarrow> arp_header" where
  "arp_fill op sip dmac dip s a = a\<lparr>hw_type := htons 1, proto_type := htons ETH_P_IP, hw_len := 6, proto_len := 4,
     opcode := htons op, arp_src_mac := snd (net_get_interface_mac 0 (arp_src_mac a) s), arp_src_ip := sip,
     arp_dest_mac := dmac, arp_dest_ip := dip\<rparr>"

definition eth_fill :: "mac \<Rightarrow> u16 \<Rightarrow> net \<Rightarrow> ethernet_header \<Rightarrow> ethernet_header" where
  "eth_fill dmac ty s e = e\<lparr>eth_dest_mac := dmac, eth_src_mac := snd (net_get_interface_mac 0 (eth_src_mac e) s),
     ethertype := htons ty\<rparr>"

definition arp_request :: "u32 \<Rightarrow> net \<Rightarrow> (int \<times> net) option" where
  "arp_request target_ip s =
     do {
       (buffer, s1) \<leftarrow> net_kmalloc 42 s;
       if buffer = 0 then Some (-1, s1)
       else do {
         let x = replicate 42 0;
         e \<leftarrow> eth_at x;
         let e = eth_fill (mac_of 0xFF) ETH_P_ARP s1 e;
         a \<leftarrow> arp_at (drop 14 x);
         let my_ip = snd (net_get_interface_ip 0 0x10101010 s1);
         let a = arp_fill ARP_OP_REQUEST my_ip (mac_of 0) target_ip s1 a;
         let s2 = put_buf buffer (eth_bytes e @ arp_bytes a) s1;
         (r, s3) \<leftarrow> net_driver_transmit (Some (bufs s2 buffer)) 42 s2;
         s4 \<leftarrow> net_kfree buffer s3;
         Some (r, s4)
       }
     }"

definition arp_gratuitous :: "u32 \<Rightarrow> net \<Rightarrow> (int \<times> net) option" where
  "arp_gratuitous my_new_ip s =
     do {
       (buffer, s1) \<leftarrow> net_kmalloc 42 s;
       if buffer = 0 then Some (-1, s1)
       else do {
         let x = replicate 42 0;
         e \<leftarrow> eth_at x;
         let e = eth_fill (mac_of 0xFF) ETH_P_ARP s1 e;
         a \<leftarrow> arp_at (drop 14 x);
         let a = arp_fill ARP_OP_REQUEST my_new_ip (mac_of 0) my_new_ip s1 a;
         let s2 = put_buf buffer (eth_bytes e @ arp_bytes a) s1;
         (r, s3) \<leftarrow> net_driver_transmit (Some (bufs s2 buffer)) 42 s2;
         s4 \<leftarrow> net_kfree buffer s3;
         Some (r, s4)
       }
     }"

text \<open>The answer to a request for our address; its buffer is not cleared.\<close>

definition arp_reply :: "arp_header \<Rightarrow> u32 \<Rightarrow> net \<Rightarrow> (int \<times> net) option" where
  "arp_reply arp my_ip s =
     do {
       (reply_buf, s1) \<leftarrow> net_kmalloc 42 s;
       if reply_buf = 0 then Some (-3, s1)
       else do {
         e \<leftarrow> eth_at (bufs s1 reply_buf);
         let e = eth_fill (arp_src_mac arp) ETH_P_ARP s1 e;
         a \<leftarrow> arp_at (drop 14 (bufs s1 reply_buf));
         let a = arp_fill ARP_OP_REPLY my_ip (arp_src_mac arp) (arp_src_ip arp) s1 a;
         let s2 = put_buf reply_buf (eth_bytes e @ arp_bytes a) s1;
         (r, s3) \<leftarrow> net_driver_transmit (Some (bufs s2 reply_buf)) 42 s2;
         s4 \<leftarrow> net_kfree reply_buf s3;
         Some (r, s4)
       }
     }"

definition arp_input :: "u8 list option \<Rightarrow> u32 \<Rightarrow> net \<Rightarrow> (int \<times> net) option" where
  "arp_input pkt len s =
     (case pkt of None \<Rightarrow> Some (-1, s)
      | Some x \<Rightarrow>
        if len < 28 then Some (-1, s)
        else do {
          arp \<leftarrow> arp_at x;
          if ntohs (hw_type arp) \<noteq> 1 \<or> ntohs (proto_type arp) \<noteq> ETH_P_IP then Some (-2, s)
          else if hw_len arp \<noteq> 6 \<or> proto_len arp \<noteq> 4 then Some (-2, s)
          else do {
            let s1 = arp_cache_insert (arp_src_ip arp) (arp_src_mac arp) s;
            if ntohs (opcode arp) = ARP_OP_REQUEST then
              (let my_ip = snd (net_get_interface_ip 0 0 s1) in
               if arp_dest_ip arp = my_ip then arp_reply arp my_ip s1 else Some (-1, s1))
            else if ntohs (opcode arp) = ARP_OP_REPLY then do {
              s2 \<leftarrow> arp_flush_pending_packets (arp_src_ip arp) (arp_src_mac arp) s1;
              Some (-1, s2)
            }
            else Some (-1, s1)
          }
        })"

section \<open>The cache as a bounded map\<close>

definition cache_ok :: "net \<Rightarrow> bool" where
  "cache_ok s \<longleftrightarrow> length (g_arp_cache s) = ARP_CACHE_MAX \<and> unat (g_arp_victim_idx s) < ARP_CACHE_MAX \<and>
     (\<forall>i<ARP_CACHE_MAX. \<forall>j<ARP_CACHE_MAX. \<forall>ip. holds ip (g_arp_cache s ! i) \<longrightarrow> holds ip (g_arp_cache s ! j) \<longrightarrow> i = j)"

definition arp_map :: "net \<Rightarrow> u32 \<Rightarrow> mac option" where
  "arp_map s ip = (if fst (arp_cache_lookup ip (Some (mac_of 0)) s) = 0
     then snd (arp_cache_lookup ip (Some (mac_of 0)) s) else None)"

definition cache_full :: "net \<Rightarrow> bool" where
  "cache_full s \<longleftrightarrow> (\<forall>i<ARP_CACHE_MAX. is_valid (g_arp_cache s ! i) \<noteq> 0)"

lemma arp_map_Some:
  assumes "cache_ok s"
  shows "arp_map s ip = Some m \<longleftrightarrow> (\<exists>i<ARP_CACHE_MAX. holds ip (g_arp_cache s ! i) \<and> mac_addr (g_arp_cache s ! i) = m)"
proof (cases "List.find (\<lambda>i. holds ip (g_arp_cache s ! i)) [0..<ARP_CACHE_MAX]")
  case None
  then have "\<forall>i<ARP_CACHE_MAX. \<not> holds ip (g_arp_cache s ! i)" by (auto simp: find_None_iff)
  with None show ?thesis by (auto simp: arp_map_def arp_cache_lookup_def)
next
  case (Some i)
  then have i: "i < ARP_CACHE_MAX" "holds ip (g_arp_cache s ! i)" by (auto simp: find_Some_iff)
  from Some have "arp_map s ip = Some (mac_addr (g_arp_cache s ! i))" by (simp add: arp_map_def arp_cache_lookup_def)
  with i show ?thesis using assms unfolding cache_ok_def by (metis option.inject)
qed

lemma arp_map_None:
  "arp_map s ip = None \<longleftrightarrow> (\<forall>i<ARP_CACHE_MAX. \<not> holds ip (g_arp_cache s ! i))"
proof (cases "List.find (\<lambda>i. holds ip (g_arp_cache s ! i)) [0..<ARP_CACHE_MAX]")
  case None
  then have "\<forall>i<ARP_CACHE_MAX. \<not> holds ip (g_arp_cache s ! i)" by (auto simp: find_None_iff)
  with None show ?thesis by (simp add: arp_map_def arp_cache_lookup_def)
next
  case (Some i)
  then have "i < ARP_CACHE_MAX" "holds ip (g_arp_cache s ! i)" by (auto simp: find_Some_iff)
  with Some show ?thesis by (auto simp: arp_map_def arp_cache_lookup_def)
qed

text \<open>Writing an entry for \<open>ip\<close> where no other entry holds \<open>ip\<close>.\<close>

lemma cache_put:
  assumes ok: "cache_ok s" and i: "i < ARP_CACHE_MAX" and e: "holds ip e" "mac_addr e = m"
    and no: "\<forall>j<ARP_CACHE_MAX. j \<noteq> i \<longrightarrow> \<not> holds ip (g_arp_cache s ! j)" and v: "unat v < ARP_CACHE_MAX"
  defines "s' \<equiv> s\<lparr>g_arp_cache := (g_arp_cache s)[i := e], g_arp_victim_idx := v\<rparr>"
  shows "cache_ok s'"
    "arp_map s' x = (if x = ip then Some m else if holds x (g_arp_cache s ! i) then None else arp_map s x)"
proof -
  let ?c = "g_arp_cache s"
  have len: "length ?c = ARP_CACHE_MAX" using ok by (simp add: cache_ok_def)
  have one: "ip' = ip" if "holds ip' e" for ip' using that e(1) by (simp add: holds_def)
  have c: "g_arp_cache s' ! j = (if j = i then e else ?c ! j)" if "j < ARP_CACHE_MAX" for j
    using that i len by (simp add: s'_def nth_list_update)
  show ok': "cache_ok s'" unfolding cache_ok_def
  proof (intro conjI allI impI)
    fix j k ip'
    assume j: "j < ARP_CACHE_MAX" and k: "k < ARP_CACHE_MAX" and
      h: "holds ip' (g_arp_cache s' ! j)" "holds ip' (g_arp_cache s' ! k)"
    then show "j = k" using c [OF j] c [OF k] one no ok unfolding cache_ok_def by (metis (full_types))
  qed (use len v in \<open>simp_all add: s'_def\<close>)
  show "arp_map s' x = (if x = ip then Some m else if holds x (?c ! i) then None else arp_map s x)"
  proof (cases "x = ip")
    case True
    then show ?thesis using arp_map_Some [OF ok', of x m] e i c [OF i] by auto
  next
    case ne: False
    show ?thesis
    proof (cases "holds x (?c ! i)")
      case True
      have "\<not> holds x (g_arp_cache s' ! j)" if "j < ARP_CACHE_MAX" for j
        using that c [OF that] True one ne ok i unfolding cache_ok_def by metis
      then have "arp_map s' x = None" by (simp add: arp_map_None)
      with ne True show ?thesis by simp
    next
      case False
      have "(arp_map s' x = Some y) = (arp_map s x = Some y)" for y
        unfolding arp_map_Some [OF ok'] arp_map_Some [OF ok] using c False one ne by (metis (full_types))
      then have "arp_map s' x = arp_map s x" by (metis not_Some_eq)
      with ne False show ?thesis by simp
    qed
  qed
qed

lemma arp_cache_insert_spec:
  assumes ok: "cache_ok s"
  shows "cache_ok (arp_cache_insert ip m s)"
    "arp_map (arp_cache_insert ip m s) =
       (if arp_map s ip = None \<and> cache_full s
        then (arp_map s)(ip_addr (g_arp_cache s ! unat (g_arp_victim_idx s)) := None) else arp_map s)(ip \<mapsto> m)"
proof -
  let ?c = "g_arp_cache s" and ?v = "unat (g_arp_victim_idx s)" and ?s' = "arp_cache_insert ip m s"
  have v: "?v < ARP_CACHE_MAX" using ok by (simp add: cache_ok_def)
  have "cache_ok ?s' \<and> (\<forall>x. arp_map ?s' x = ((if arp_map s ip = None \<and> cache_full s
        then (arp_map s)(ip_addr (?c ! ?v) := None) else arp_map s)(ip \<mapsto> m)) x)"
  proof (cases "List.find (\<lambda>i. holds ip (?c ! i)) [0..<ARP_CACHE_MAX]")
    case (Some i)
    then have i: "i < ARP_CACHE_MAX" "holds ip (?c ! i)" by (auto simp: find_Some_iff)
    then have o: "\<forall>j<ARP_CACHE_MAX. j \<noteq> i \<longrightarrow> \<not> holds ip (?c ! j)" using ok by (auto simp: cache_ok_def)
    have e: "holds ip ((?c ! i)\<lparr>mac_addr := m\<rparr>)" using i(2) by (simp add: holds_def)
    have s': "?s' = s\<lparr>g_arp_cache := ?c[i := (?c ! i)\<lparr>mac_addr := m\<rparr>], g_arp_victim_idx := g_arp_victim_idx s\<rparr>"
      using Some by (simp add: arp_cache_insert_def Let_def)
    have x: "x = ip" if "holds x (?c ! i)" for x using that i(2) by (simp add: holds_def)
    have "arp_map s ip \<noteq> None" using i by (auto simp: arp_map_None)
    with cache_put [OF ok i(1) e _ o v, of m] show ?thesis unfolding s' by (auto dest: x)
  next
    case N: None
    then have o: "\<not> holds ip (?c ! j)" if "j < ARP_CACHE_MAX" for j using that by (auto simp: find_None_iff)
    then have none: "arp_map s ip = None" by (simp add: arp_map_None)
    let ?e = "\<lparr>ip_addr = ip, mac_addr = m, is_valid = 1\<rparr>"
    have e: "holds ip ?e" "mac_addr ?e = m" by (simp_all add: holds_def)
    show ?thesis
    proof (cases "List.find (\<lambda>i. is_valid (?c ! i) = 0) [0..<ARP_CACHE_MAX]")
      case (Some i)
      then have i: "i < ARP_CACHE_MAX" "is_valid (?c ! i) = 0" by (auto simp: find_Some_iff)
      have s': "?s' = s\<lparr>g_arp_cache := ?c[i := ?e], g_arp_victim_idx := g_arp_victim_idx s\<rparr>"
        using N Some by (simp add: arp_cache_insert_def Let_def)
      have "\<not> cache_full s" "\<not> holds x (?c ! i)" for x using i by (auto simp: cache_full_def holds_def)
      with cache_put [OF ok i(1) e _ v] o show ?thesis unfolding s' by auto
    next
      case None
      then have full: "cache_full s" by (auto simp: cache_full_def find_None_iff)
      then have h: "holds x (?c ! ?v) \<longleftrightarrow> x = ip_addr (?c ! ?v)" for x using v by (auto simp: cache_full_def holds_def)
      have s': "?s' = s\<lparr>g_arp_cache := ?c[?v := ?e], g_arp_victim_idx := (g_arp_victim_idx s + 1) mod 32\<rparr>"
        using N None by (simp add: arp_cache_insert_def Let_def)
      have "unat ((g_arp_victim_idx s + 1) mod 32) < ARP_CACHE_MAX" using unat_next [OF v] by simp
      from cache_put [OF ok v e _ this] o show ?thesis unfolding s' h using none full by auto
    qed
  qed
  then show "cache_ok ?s'" "arp_map ?s' = (if arp_map s ip = None \<and> cache_full s
        then (arp_map s)(ip_addr (?c ! ?v) := None) else arp_map s)(ip \<mapsto> m)" by auto
qed

text \<open>
  What the users of a neighbour cache rely on: an insertion is visible at once and never
  changes the answer for another address, except that it may be forgotten.
\<close>

locale neighbour_cache =
  fixes ok :: "'s \<Rightarrow> bool"
    and look :: "'s \<Rightarrow> 'k \<Rightarrow> 'v option"
    and ins :: "'k \<Rightarrow> 'v \<Rightarrow> 's \<Rightarrow> 's"
  assumes ins_ok: "ok s \<Longrightarrow> ok (ins k v s)"
    and ins_hit: "ok s \<Longrightarrow> look (ins k v s) k = Some v"
    and ins_other: "ok s \<Longrightarrow> x \<noteq> k \<Longrightarrow> look (ins k v s) x = look s x \<or> look (ins k v s) x = None"
begin

definition ins_all :: "('k \<times> 'v) list \<Rightarrow> 's \<Rightarrow> 's" where
  "ins_all kvs s = fold (\<lambda>(k, v). ins k v) kvs s"

lemma ins_all_ok: "ok s \<Longrightarrow> ok (ins_all kvs s)"
  by (induction kvs arbitrary: s) (auto simp: ins_all_def ins_ok)

lemma look_latest:
  assumes "ok s" "look (ins_all kvs s) x = Some v"
  shows "map_of (rev kvs) x = Some v \<or> x \<notin> fst ` set kvs \<and> look s x = Some v"
  using assms
proof (induction kvs rule: rev_induct)
  case (snoc kv kvs)
  obtain k w where kv: "kv = (k, w)" by (cases kv)
  have step: "ins_all (kvs @ [kv]) s = ins k w (ins_all kvs s)" by (simp add: ins_all_def kv)
  have ok': "ok (ins_all kvs s)" by (rule ins_all_ok) (rule snoc.prems)
  show ?case
  proof (cases "x = k")
    case True
    with snoc.prems(2) ins_hit [OF ok'] show ?thesis unfolding step by (simp add: kv)
  next
    case False
    from ins_other [OF ok' False, of w] snoc.prems(2) have "look (ins_all kvs s) x = Some v" by (auto simp: step)
    from snoc.IH [OF snoc.prems(1) this] False show ?thesis by (auto simp: kv)
  qed
qed (simp add: ins_all_def)

end

interpretation arpc: neighbour_cache cache_ok arp_map arp_cache_insert
proof (unfold_locales, goal_cases)
  case (3 s x k v)
  then show ?case by (auto simp: arp_cache_insert_spec(2))
qed (simp_all add: arp_cache_insert_spec)

lemma arp_init_cache: "unat (g_arp_victim_idx s) < ARP_CACHE_MAX \<Longrightarrow> cache_ok (arp_init s)" "arp_map (arp_init s) ip = None"
  by (simp_all add: cache_ok_def arp_init_def holds_def arp_map_None)

section \<open>The frames that are sent\<close>

text \<open>Hardware and protocol address of interface 0, with the value used while it is not active.\<close>

definition our_mac :: "mac \<Rightarrow> net \<Rightarrow> mac" where
  "our_mac old s = snd (net_get_interface_mac 0 old s)"

definition our_ip :: "u32 \<Rightarrow> net \<Rightarrow> u32" where
  "our_ip old s = snd (net_get_interface_ip 0 old s)"

lemma our_cong:
  assumes "g_net_interfaces t = g_net_interfaces s"
  shows "our_mac old t = our_mac old s" "our_ip v t = our_ip v s"
  using assms by (simp_all add: our_mac_def our_ip_def net_get_interface_mac_def net_get_interface_ip_def if_status_def)

definition arp_frame :: "mac \<Rightarrow> mac \<Rightarrow> u16 \<Rightarrow> mac \<Rightarrow> u32 \<Rightarrow> mac \<Rightarrow> u32 \<Rightarrow> u8 list" where
  "arp_frame edst esrc op sm sip dm dip =
     eth_bytes \<lparr>eth_dest_mac = edst, eth_src_mac = esrc, ethertype = htons ETH_P_ARP\<rparr> @
     arp_bytes \<lparr>hw_type = htons 1, proto_type = htons ETH_P_IP, hw_len = 6, proto_len = 4, opcode = htons op,
       arp_src_mac = sm, arp_src_ip = sip, arp_dest_mac = dm, arp_dest_ip = dip\<rparr>"

lemma length_arp_frame [simp]: "length (arp_frame a b op c d e f) = 42"
  by (simp add: arp_frame_def)

lemma fill_frame:
  "eth_bytes (eth_fill dm ETH_P_ARP s e) @ arp_bytes (arp_fill op sip dm' dip s a) =
     arp_frame dm (our_mac (eth_src_mac e) s) op (our_mac (arp_src_mac a) s) sip dm' dip"
  by (cases e; cases a) (simp add: arp_frame_def eth_fill_def arp_fill_def our_mac_def)

lemma size42: "round16 (unat (42 :: u32)) = 48"
  by (simp add: round16_def)

lemma zero_headers:
  "\<exists>e. eth_at (replicate 42 0) = Some e \<and> eth_src_mac e = mac_of 0"
  "\<exists>a. arp_at (drop 14 (replicate 42 0)) = Some a \<and> arp_src_mac a = mac_of 0"
  by (simp_all add: eth_at_def arp_at_def rd_mac_def)

text \<open>The common shape of \<^verbatim>\<open>arp_request\<close> and \<^verbatim>\<open>arp_gratuitous\<close>.\<close>

lemma zeroed_arp_frame:
  assumes "net_room k s" "48 \<le> k"
    and x: "x = arp_frame (mac_of 0xFF) (our_mac (mac_of 0) s) ARP_OP_REQUEST (our_mac (mac_of 0) s) v (mac_of 0) dip"
    and v: "\<And>t. g_net_interfaces t = g_net_interfaces s \<Longrightarrow> sip t = v"
  shows "\<exists>s'. do {
       (buffer, s1) \<leftarrow> net_kmalloc 42 s;
       if buffer = 0 then Some (-1, s1)
       else do {
         let x = replicate 42 0;
         e \<leftarrow> eth_at x;
         let e = eth_fill (mac_of 0xFF) ETH_P_ARP s1 e;
         a \<leftarrow> arp_at (drop 14 x);
         let a = arp_fill ARP_OP_REQUEST (sip s1) (mac_of 0) dip s1 a;
         let s2 = put_buf buffer (eth_bytes e @ arp_bytes a) s1;
         (r, s3) \<leftarrow> net_driver_transmit (Some (bufs s2 buffer)) 42 s2;
         s4 \<leftarrow> net_kfree buffer s3;
         Some (r, s4)
       }
     } = Some (tx_result x s, s') \<and> quiet s s' \<and> net_room k s' \<and> sent s' = tx_sent [x] s"
proof -
  from send_temp [OF assms(1), of 42] assms(2) size42 obtain p h1 where
    a: "net_kmalloc 42 s = Some (p, (set_heap h1 s)\<lparr>bufs := (bufs s)(p := fresh_bytes s p 42)\<rparr>)" "p \<noteq> 0"
      "\<forall>x. length x = unat (42 :: u32) \<longrightarrow> (\<exists>s'. quiet s s' \<and> net_room k s' \<and> sent s' = tx_sent [x] s \<and>
      do { (r, t) \<leftarrow> net_driver_transmit (Some x) 42 ((set_heap h1 s)\<lparr>bufs := (bufs s)(p := x)\<rparr>);
           u \<leftarrow> net_kfree p t; Some (r, u) } = Some (tx_result x s, s'))" by auto
  from zero_headers obtain e a where z: "eth_at (replicate 42 0) = Some e" "eth_src_mac e = mac_of 0"
    "arp_at (drop 14 (replicate 42 0)) = Some a" "arp_src_mac a = mac_of 0" by blast
  let ?s1 = "(set_heap h1 s)\<lparr>bufs := (bufs s)(p := fresh_bytes s p 42)\<rparr>"
  have o: "our_mac old ?s1 = our_mac old s" "sip ?s1 = v" for old using our_cong(1) [of ?s1 s] v [of ?s1] by simp_all
  have "length x = unat (42 :: u32)" by (simp add: x)
  from a(3) [rule_format, OF this] obtain s' where s': "quiet s s'" "net_room k s'" "sent s' = tx_sent [x] s"
    "do { (r, t) \<leftarrow> net_driver_transmit (Some x) 42 ((set_heap h1 s)\<lparr>bufs := (bufs s)(p := x)\<rparr>);
           u \<leftarrow> net_kfree p t; Some (r, u) } = Some (tx_result x s, s')" by blast
  then show ?thesis using a(1,2) z x o by (intro exI [of _ s']) (simp add: Let_def fill_frame)
qed

lemma arp_request_spec:
  assumes "net_room k s" "48 \<le> k"
    and x_def: "x = arp_frame (mac_of 0xFF) (our_mac (mac_of 0) s) ARP_OP_REQUEST (our_mac (mac_of 0) s)
    (our_ip 0x10101010 s) (mac_of 0) target"
  shows "\<exists>s'. arp_request target s = Some (tx_result x s, s') \<and> quiet s s' \<and> net_room k s' \<and> sent s' = tx_sent [x] s"
  using zeroed_arp_frame [OF assms, of "our_ip 0x10101010", OF our_cong(2)]
  by (simp only: arp_request_def our_ip_def Let_def)

lemma arp_gratuitous_spec:
  assumes "net_room k s" "48 \<le> k"
    and x_def: "x = arp_frame (mac_of 0xFF) (our_mac (mac_of 0) s) ARP_OP_REQUEST (our_mac (mac_of 0) s) ip (mac_of 0) ip"
  shows "\<exists>s'. arp_gratuitous ip s = Some (tx_result x s, s') \<and> quiet s s' \<and> net_room k s' \<and> sent s' = tx_sent [x] s"
  using zeroed_arp_frame [OF assms, of "\<lambda>_. ip"] by (simp only: arp_gratuitous_def Let_def)

lemma arp_reply_spec:
  assumes room: "net_room k s" "48 \<le> k" and act: "if_status 0 s = 0"
    and x_def: "x = arp_frame (arp_src_mac a) (our_mac (mac_of 0) s) ARP_OP_REPLY (our_mac (mac_of 0) s) my_ip
    (arp_src_mac a) (arp_src_ip a)"
  shows "\<exists>s'. arp_reply a my_ip s = Some (tx_result x s, s') \<and> quiet s s' \<and> net_room k s' \<and> sent s' = tx_sent [x] s"
proof -
  from send_temp [OF room(1), of 42] room(2) size42 obtain p h1 where
    b: "net_kmalloc 42 s = Some (p, (set_heap h1 s)\<lparr>bufs := (bufs s)(p := fresh_bytes s p 42)\<rparr>)" "p \<noteq> 0"
      "\<forall>x. length x = unat (42 :: u32) \<longrightarrow> (\<exists>s'. quiet s s' \<and> net_room k s' \<and> sent s' = tx_sent [x] s \<and>
      do { (r, t) \<leftarrow> net_driver_transmit (Some x) 42 ((set_heap h1 s)\<lparr>bufs := (bufs s)(p := x)\<rparr>);
           u \<leftarrow> net_kfree p t; Some (r, u) } = Some (tx_result x s, s'))" by auto
  let ?f = "fresh_bytes s p 42"
  let ?s1 = "(set_heap h1 s)\<lparr>bufs := (bufs s)(p := ?f)\<rparr>"
  obtain e a' where z: "eth_at ?f = Some e" "arp_at (drop 14 ?f) = Some a'" by (simp add: eth_at_def arp_at_def)
  have o: "our_mac old ?s1 = our_mac (mac_of 0) s" for old
    using our_cong(1) [of ?s1 s] act by (simp add: our_mac_def net_get_interface_mac_def)
  have "length x = unat (42 :: u32)" by (simp add: x_def)
  from b(3) [rule_format, OF this] obtain s' where s': "quiet s s'" "net_room k s'" "sent s' = tx_sent [x] s"
    "do { (r, t) \<leftarrow> net_driver_transmit (Some x) 42 ((set_heap h1 s)\<lparr>bufs := (bufs s)(p := x)\<rparr>);
           u \<leftarrow> net_kfree p t; Some (r, u) } = Some (tx_result x s, s')" by blast
  then show ?thesis using b(1,2) z x_def o by (intro exI [of _ s']) (simp add: arp_reply_def Let_def fill_frame)
qed

section \<open>The packets that wait\<close>

text \<open>
  The waiting list: a chain of nodes; the nodes and their packets are live blocks, all of them
  different, and each packet holds at least an Ethernet header.
\<close>

abbreviation pdata :: "net \<Rightarrow> u64 \<Rightarrow> u64" where "pdata s n \<equiv> packet_data (arp_nodes s n)"
abbreviation plen :: "net \<Rightarrow> u64 \<Rightarrow> u32" where "plen s n \<equiv> packet_len (arp_nodes s n)"
abbreviation pip :: "net \<Rightarrow> u64 \<Rightarrow> u32" where "pip s n \<equiv> pend_ip (arp_nodes s n)"

definition pend_ok :: "net \<Rightarrow> u64 list \<Rightarrow> bool" where
  "pend_ok s ns \<longleftrightarrow> chain (\<lambda>n. pend_next (arp_nodes s n)) (g_arp_pending_queue_head s) ns \<and>
     distinct (ns @ map (pdata s) ns) \<and> set (ns @ map (pdata s) ns) \<subseteq> ptrs s \<and> 0 \<notin> pdata s ` set ns \<and>
     (\<forall>n\<in>set ns. 14 \<le> plen s n \<and> unat (plen s n) \<le> length (bufs s (pdata s n)))"

text \<open>The frame that leaves for a waiting packet once its hardware address is known.\<close>

definition bound_frame :: "mac \<Rightarrow> net \<Rightarrow> u64 \<Rightarrow> u8 list" where
  "bound_frame m s n = take (unat (plen s n)) (mac_bytes m @ drop 6 (bufs s (pdata s n)))"

lemma ethernet_output_spec:
  assumes "p \<noteq> 0" "14 \<le> n" "unat n \<le> length (bufs s p)"
    and x_def: "x = mac_bytes m @ drop 6 (bufs s p)"
  shows "ethernet_output p n (Some m) s =
    Some (tx_result (take (unat n) x) s, s\<lparr>bufs := (bufs s)(p := x), sent := tx_sent [take (unat n) x] s\<rparr>)"
proof -
  have n: "14 \<le> unat n" "0 < n" using assms(2) by (auto simp: word_le_nat_alt word_less_nat_alt)
  then have x: "poke 0 (mac_bytes m) (bufs s p) = Some x" "unat n \<le> length x" using assms(3) by (auto simp: poke_def x_def)
  have "transmitter (put_buf p x s) = transmitter s" by (simp add: transmitter_def)
  then have t: "tx_result y (put_buf p x s) = tx_result y s" "tx_sent ys (put_buf p x s) = tx_sent ys s" for y ys
    using tx_cong [of "put_buf p x s" s] by simp_all
  have "\<not> n < 14" using assms(2) by simp
  then show ?thesis using assms(1) x net_driver_transmit_spec [OF n(2) x(2), of "put_buf p x s"]
    by (simp add: ethernet_output_def Let_def t)
qed

text \<open>Two releases in a row.\<close>

lemma net_kfree_two:
  assumes "net_room k s" "p \<in> ptrs s" "q \<in> ptrs s" "p \<noteq> q"
  shows "\<exists>h1 h. net_kfree p s = Some (set_heap h1 s) \<and> net_kfree q (set_heap h1 s) = Some (set_heap h s) \<and>
    net_room k (set_heap h s) \<and> ptrs (set_heap h s) = ptrs s - {p, q}"
proof -
  from net_kfree_spec [OF assms(1,2)] obtain h1 where
    a: "net_kfree p s = Some (set_heap h1 s)" "net_room k (set_heap h1 s)" "ptrs (set_heap h1 s) = ptrs s - {p}" by blast
  have "q \<in> ptrs (set_heap h1 s)" using assms(3,4) a(3) by simp
  from net_kfree_spec [OF a(2) this] obtain h where
    b: "net_kfree q (set_heap h1 s) = Some (set_heap h (set_heap h1 s))" "net_room k (set_heap h (set_heap h1 s))"
      "ptrs (set_heap h (set_heap h1 s)) = ptrs (set_heap h1 s) - {q}" by blast
  have e: "set_heap h (set_heap h1 s) = set_heap h s" by simp
  have "ptrs (set_heap h s) = ptrs s - {p, q}" using b(3) unfolding e a(3) by blast
  with a(1) b(1,2) show ?thesis unfolding e by blast
qed

text \<open>
  One turn of the loop for a packet that leaves: the frame is sent, the node is unlinked and
  both blocks are released.
\<close>

definition unlink :: "u64 \<Rightarrow> u64 \<Rightarrow> net \<Rightarrow> net" where
  "unlink prev c s = (if prev = 0 then s\<lparr>g_arp_pending_queue_head := pend_next (arp_nodes s c)\<rparr>
     else s\<lparr>arp_nodes := (arp_nodes s)(prev := (arp_nodes s prev)\<lparr>pend_next := pend_next (arp_nodes s c)\<rparr>)\<rparr>)"

lemma unlink_fields [simp]:
  "bufs (unlink prev c s) = bufs s" "sent (unlink prev c s) = sent s" "krn (unlink prev c s) = krn s"
  "net_cr3 (unlink prev c s) = net_cr3 s" "pdata (unlink prev c s) n = pdata s n" "plen (unlink prev c s) n = plen s n"
  "pip (unlink prev c s) n = pip s n" "transmitter (unlink prev c s) = transmitter s"
  by (simp_all add: unlink_def transmitter_def)

lemma pend_ok_unlink:
  assumes "pend_ok s (pre @ c # rest)" "prev = (if pre = [] then 0 else last pre)"
    and t: "arp_nodes t = arp_nodes (unlink prev c s)" "g_arp_pending_queue_head t = g_arp_pending_queue_head (unlink prev c s)"
    "ptrs t = ptrs s - {pdata s c, c}" "\<And>p. p \<noteq> pdata s c \<Longrightarrow> bufs t p = bufs s p"
  shows "pend_ok t (pre @ rest)" "pend_next (arp_nodes (unlink prev c s) c) = pend_next (arp_nodes s c)"
proof -
  let ?n = "\<lambda>n. pend_next (arp_nodes s n)"
  from assms(1) have ch: "chain ?n (g_arp_pending_queue_head s) (pre @ c # rest)"
    and d: "distinct ((pre @ c # rest) @ map (pdata s) (pre @ c # rest))" by (simp_all add: pend_ok_def)
  have tail: "chain ?n (?n c) rest" using chain_suffix [OF ch] by simp
  show "pend_next (arp_nodes (unlink prev c s) c) = pend_next (arp_nodes s c)"
    using d assms(2) by (auto simp: unlink_def)
  have "chain (\<lambda>n. pend_next (arp_nodes t n)) (g_arp_pending_queue_head t) (pre @ rest)"
  proof (cases "pre = []")
    case True
    then show ?thesis using tail assms(2) t by (simp add: unlink_def)
  next
    case False
    then have p: "pre = butlast pre @ [prev]" "prev \<noteq> 0"
      using assms(2) chain_nonzero [OF ch] append_butlast_last_id [OF False] last_in_set [OF False]
      by (simp_all, metis)
    have "chain ?n (g_arp_pending_queue_head s) (butlast pre @ prev # [c] @ rest)" using ch p(1)
      by (metis append.assoc append_Cons append_Nil)
    moreover have "distinct (butlast pre @ prev # [c] @ rest)" using chain_distinct [OF ch] p(1)
      by (metis append.assoc append_Cons append_Nil)
    ultimately have "chain (?n(prev := ?n c)) (g_arp_pending_queue_head s) (butlast pre @ prev # rest)"
      using tail by (rule chain_relink)
    moreover have "butlast pre @ prev # rest = pre @ rest" using p(1) by (metis append.assoc append_Cons append_Nil)
    moreover have "(\<lambda>n. pend_next (arp_nodes t n)) = ?n(prev := ?n c)" using t(1) p(2) by (auto simp: unlink_def)
    moreover have "g_arp_pending_queue_head t = g_arp_pending_queue_head s" using t(2) p(2) by (simp add: unlink_def)
    ultimately show ?thesis by simp
  qed
  moreover have "pdata t n = pdata s n" "plen t n = plen s n" for n using t(1) by simp_all
  ultimately show "pend_ok t (pre @ rest)" using assms(1) d t(3,4) unfolding pend_ok_def by (auto simp: image_iff)
qed

text \<open>What a flush may change: the heap, packets, the wire and the waiting list.\<close>

definition arp_step :: "net \<Rightarrow> net \<Rightarrow> bool" where
  "arp_step s t \<longleftrightarrow> (\<exists>h b w a g. t = s\<lparr>krn := (krn s)\<lparr>heap := h\<rparr>, bufs := b, sent := w, arp_nodes := a,
     g_arp_pending_queue_head := g\<rparr>)"

lemma arp_stepI:
  "t = s\<lparr>krn := (krn s)\<lparr>heap := heap (krn t)\<rparr>, bufs := bufs t, sent := sent t, arp_nodes := arp_nodes t,
     g_arp_pending_queue_head := g_arp_pending_queue_head t\<rparr> \<Longrightarrow> arp_step s t"
  unfolding arp_step_def by blast

lemma arp_step_refl [simp]: "arp_step s s"
proof -
  have "s = s\<lparr>krn := (krn s)\<lparr>heap := heap (krn s)\<rparr>, bufs := bufs s, sent := sent s, arp_nodes := arp_nodes s,
     g_arp_pending_queue_head := g_arp_pending_queue_head s\<rparr>" by simp
  then show ?thesis unfolding arp_step_def by blast
qed

lemma arp_step_trans:
  assumes "arp_step s t" "arp_step t u"
  shows "arp_step s u"
proof -
  from assms obtain h b w a g h' b' w' a' g' where
    t: "t = s\<lparr>krn := (krn s)\<lparr>heap := h\<rparr>, bufs := b, sent := w, arp_nodes := a, g_arp_pending_queue_head := g\<rparr>" and
    u: "u = t\<lparr>krn := (krn t)\<lparr>heap := h'\<rparr>, bufs := b', sent := w', arp_nodes := a', g_arp_pending_queue_head := g'\<rparr>"
    unfolding arp_step_def by blast
  have "u = s\<lparr>krn := (krn s)\<lparr>heap := h'\<rparr>, bufs := b', sent := w', arp_nodes := a', g_arp_pending_queue_head := g'\<rparr>"
    unfolding u t by simp
  then show ?thesis unfolding arp_step_def by blast
qed

lemma arp_step_fields:
  assumes "arp_step s t"
  shows "g_net_interfaces t = g_net_interfaces s" "g_arp_cache t = g_arp_cache s" "transmitter t = transmitter s"
    "g_arp_victim_idx t = g_arp_victim_idx s" "socks t = socks s" "g_bound_sockets_head t = g_bound_sockets_head s"
    "g_ip_packet_id t = g_ip_packet_id s" "net_cr3 t = net_cr3 s"
  using assms by (auto simp: arp_step_def transmitter_def)

lemma flush_step:
  assumes ok: "pend_ok s (pre @ c # rest)" and prev: "prev = (if pre = [] then 0 else last pre)"
    and room: "net_room k s" and ip: "pip s c = ip"
  shows "\<exists>t. flush_loop ip m prev c s = flush_loop ip m prev (pend_next (arp_nodes s c)) t \<and> pend_ok t (pre @ rest) \<and>
    net_room k t \<and> ptrs t = ptrs s - {pdata s c, c} \<and> sent t = tx_sent [bound_frame m s c] s \<and>
    transmitter t = transmitter s \<and> (\<forall>p. p \<noteq> pdata s c \<longrightarrow> bufs t p = bufs s p) \<and>
    (\<forall>n. pdata t n = pdata s n \<and> plen t n = plen s n \<and> pip t n = pip s n) \<and>
    arp_step s t"
proof -
  let ?x = "mac_bytes m @ drop 6 (bufs s (pdata s c))" and ?f = "bound_frame m s c"
  let ?s1 = "s\<lparr>bufs := (bufs s)(pdata s c := ?x), sent := tx_sent [?f] s\<rparr>"
  from ok have c: "c \<noteq> 0" "pdata s c \<noteq> 0" "14 \<le> plen s c" "unat (plen s c) \<le> length (bufs s (pdata s c))"
    "c \<in> ptrs s" "pdata s c \<in> ptrs s" "pdata s c \<noteq> c"
    using chain_nonzero [of _ _ "pre @ c # rest"] by (auto simp: pend_ok_def)
  have e: "ethernet_output (pdata s c) (plen s c) (Some m) s = Some (tx_result ?f s, ?s1)"
    using ethernet_output_spec [OF c(2-4), of ?x m] by (simp add: bound_frame_def)
  let ?s2 = "unlink prev c ?s1"
  have p2: "ptrs ?s2 = ptrs s" by (rule heap_cong(2)) simp_all
  have r2: "net_room k ?s2" using heap_cong(1) [of ?s2 s] room by simp
  from net_kfree_two [OF r2, of "pdata s c" c] c p2 obtain h1 h where
    f: "net_kfree (pdata s c) ?s2 = Some (set_heap h1 ?s2)" "net_kfree c (set_heap h1 ?s2) = Some (set_heap h ?s2)"
      "net_room k (set_heap h ?s2)" "ptrs (set_heap h ?s2) = ptrs s - {pdata s c, c}" by auto
  let ?t = "set_heap h ?s2"
  have un: "arp_nodes ?s2 = arp_nodes (unlink prev c s)"
    "g_arp_pending_queue_head ?s2 = g_arp_pending_queue_head (unlink prev c s)" by (simp_all add: unlink_def)
  have pn: "pend_ok ?t (pre @ rest)" "pend_next (arp_nodes (unlink prev c s) c) = pend_next (arp_nodes s c)"
    using pend_ok_unlink [OF ok prev, of ?t] un f(4) by simp_all
  have nx: "(if prev = 0 then g_arp_pending_queue_head ?s2 else pend_next (arp_nodes ?s2 c)) = pend_next (arp_nodes s c)"
    using pn(2) by (simp add: unlink_def)
  have "flush_loop ip m prev c s = flush_loop ip m prev (pend_next (arp_nodes s c)) ?t"
    using c(1) ip e f(1,2) nx unlink_fields(5) [of prev c ?s1 c]
    by (subst flush_loop.simps) (simp add: Let_def unlink_def [symmetric])
  moreover have "transmitter ?t = transmitter s" by (simp add: transmitter_def unlink_def)
  moreover have "arp_step s ?t" by (rule arp_stepI) (simp add: unlink_def)
  ultimately show ?thesis using pn(1) f(3,4)
    by (intro exI [of _ ?t]) (simp add: unlink_fields del: unlink_def)
qed

lemma flush_loop_spec:
  assumes "pend_ok s (pre @ rest)" "prev = (if pre = [] then 0 else last pre)"
    "cur = (case rest of [] \<Rightarrow> 0 | c # _ \<Rightarrow> c)" "net_room k s"
    "hit = filter (\<lambda>n. pip s n = ip) rest"
  shows "\<exists>t. flush_loop ip m prev cur s = Some t \<and> pend_ok t (pre @ filter (\<lambda>n. pip s n \<noteq> ip) rest) \<and>
    net_room k t \<and> ptrs t = ptrs s - (set hit \<union> pdata s ` set hit) \<and> sent t = tx_sent (map (bound_frame m s) hit) s \<and>
    (\<forall>p. p \<notin> pdata s ` set hit \<longrightarrow> bufs t p = bufs s p) \<and>
    (\<forall>n. pdata t n = pdata s n \<and> plen t n = plen s n \<and> pip t n = pip s n) \<and>
    arp_step s t"
  using assms
proof (induction rest arbitrary: pre prev cur s hit)
  case Nil
  have "flush_loop ip m prev cur s = Some s" using Nil.prems(3) by (subst flush_loop.simps) simp
  then show ?case using Nil.prems by (intro exI [of _ s]) (simp add: tx_sent_def)
next
  case (Cons c rest)
  from Cons.prems(1) have ch: "chain (\<lambda>n. pend_next (arp_nodes s n)) (g_arp_pending_queue_head s) (pre @ c # rest)"
    and d: "distinct ((pre @ c # rest) @ map (pdata s) (pre @ c # rest))" by (simp_all add: pend_ok_def)
  have cur: "cur = c" "c \<noteq> 0" using Cons.prems(3) chain_nonzero [OF ch] by auto
  have nx: "pend_next (arp_nodes s c) = (case rest of [] \<Rightarrow> 0 | c # _ \<Rightarrow> c)"
    using chain_suffix [OF ch] by (cases rest) auto
  show ?case
  proof (cases "pip s c = ip")
    case True
    from flush_step [OF Cons.prems(1,2,4) True, of m] obtain t where
      t: "flush_loop ip m prev c s = flush_loop ip m prev (pend_next (arp_nodes s c)) t" "pend_ok t (pre @ rest)" "net_room k t"
      "ptrs t = ptrs s - {pdata s c, c}" "sent t = tx_sent [bound_frame m s c] s" "transmitter t = transmitter s"
      "\<forall>p. p \<noteq> pdata s c \<longrightarrow> bufs t p = bufs s p" "\<forall>n. pdata t n = pdata s n \<and> plen t n = plen s n \<and> pip t n = pip s n"
      and te: "arp_step s t" by blast
    let ?hit = "filter (\<lambda>n. pip s n = ip) rest"
    from Cons.IH [OF t(2) Cons.prems(2) nx t(3) refl] t(8) obtain u where
      u: "flush_loop ip m prev (pend_next (arp_nodes s c)) t = Some u" "pend_ok u (pre @ filter (\<lambda>n. pip s n \<noteq> ip) rest)"
      "net_room k u" "ptrs u = ptrs t - (set ?hit \<union> pdata s ` set ?hit)" "sent u = tx_sent (map (bound_frame m t) ?hit) t"
      "\<forall>p. p \<notin> pdata s ` set ?hit \<longrightarrow> bufs u p = bufs t p" "\<forall>n. pdata u n = pdata s n \<and> plen u n = plen s n \<and> pip u n = pip s n"
      and ue: "arp_step t u" by auto
    have "pdata s c \<notin> pdata s ` set rest" using d by simp
    then have "pdata s n \<noteq> pdata s c" if "n \<in> set ?hit" for n using that by (metis filter_is_subset imageI subsetD)
    then have "bound_frame m t n = bound_frame m s n" if "n \<in> set ?hit" for n
      using that t(7,8) by (simp add: bound_frame_def)
    then have "sent u = tx_sent (map (bound_frame m s) (c # ?hit)) s"
      unfolding u(5) using t(5,6) by (simp add: tx_sent_def cong: map_cong)
    moreover have "arp_step s u" using te ue by (rule arp_step_trans)
    moreover have "hit = c # ?hit" "filter (\<lambda>n. pip s n \<noteq> ip) (c # rest) = filter (\<lambda>n. pip s n \<noteq> ip) rest"
      using True Cons.prems(5) by simp_all
    moreover have "ptrs u = ptrs s - (set (c # ?hit) \<union> pdata s ` set (c # ?hit))" unfolding u(4) t(4) by auto
    moreover have "\<forall>p. p \<notin> pdata s ` set (c # ?hit) \<longrightarrow> bufs u p = bufs s p" using u(6) t(7) by simp
    ultimately show ?thesis using t(1) u(1-3,7) unfolding cur(1) by (intro exI [of _ u]) metis
  next
    case False
    have "flush_loop ip m prev cur s = flush_loop ip m c (pend_next (arp_nodes s c)) s"
      using cur False by (subst flush_loop.simps) simp
    moreover from Cons.prems(1) have a: "pend_ok s ((pre @ [c]) @ rest)" by simp
    moreover have b: "c = (if pre @ [c] = [] then 0 else last (pre @ [c]))" by simp
    moreover have h: "hit = filter (\<lambda>n. pip s n = ip) rest" using False Cons.prems(5) by simp
    ultimately show ?thesis using Cons.IH [OF a b nx Cons.prems(4) h] False by simp
  qed
qed

lemma arp_retain_spec:
  assumes ok: "pend_ok s ns" and room: "net_room k s" "80 \<le> k"
    and d: "data \<noteq> 0" "data \<in> ptrs s" "data \<notin> set ns" "data \<notin> pdata s ` set ns"
    and len: "14 \<le> len" "unat len \<le> length (bufs s data)"
  shows "\<exists>n t. arp_retain_packet ip data len s = Some (0, t) \<and> pend_ok t (n # ns) \<and> n \<notin> ptrs s \<and>
    ptrs t = insert n (ptrs s) \<and> net_room (k - 64) t \<and> sent t = sent s \<and> (\<forall>p\<in>ptrs s. bufs t p = bufs s p) \<and>
    pip t n = ip \<and> pdata t n = data \<and> plen t n = len \<and>
    (\<forall>x\<in>ptrs s. pdata t x = pdata s x \<and> plen t x = plen s x \<and> pip t x = pip s x) \<and> arp_step s t"
proof -
  have "round16 (unat (32 :: u32)) = 32" by (simp add: round16_def)
  with net_kmalloc_spec [OF room(1), of 32] room(2) obtain n h where
    a: "net_kmalloc 32 s = Some (n, (set_heap h s)\<lparr>bufs := (bufs s)(n := fresh_bytes s n 32)\<rparr>)" "n \<noteq> 0" "n \<notin> ptrs s"
      "net_room (k - 64) ((set_heap h s)\<lparr>bufs := (bufs s)(n := fresh_bytes s n 32)\<rparr>)"
      "ptrs ((set_heap h s)\<lparr>bufs := (bufs s)(n := fresh_bytes s n 32)\<rparr>) = insert n (ptrs s)" by auto
  let ?s1 = "(set_heap h s)\<lparr>bufs := (bufs s)(n := fresh_bytes s n 32)\<rparr>"
  let ?t = "?s1\<lparr>arp_nodes := (arp_nodes s)(n := \<lparr>pend_ip = ip, packet_data = data, packet_len = len,
     pend_next = g_arp_pending_queue_head s\<rparr>), g_arp_pending_queue_head := n\<rparr>"
  have "len \<noteq> 0" using len(1) by auto
  then have r: "arp_retain_packet ip data len s = Some (0, ?t)" using a(1,2) d(1) by (simp add: arp_retain_packet_def)
  have p: "ptrs ?t = insert n (ptrs s)" "net_room (k - 64) ?t"
    using heap_cong [of ?t ?s1] a(4,5) by simp_all
  from ok have ns: "set (ns @ map (pdata s) ns) \<subseteq> ptrs s"
    "chain (\<lambda>n. pend_next (arp_nodes s n)) (g_arp_pending_queue_head s) ns" by (simp_all add: pend_ok_def)
  with a(3) have nn: "n \<notin> set ns" "n \<notin> pdata s ` set ns" by auto
  have "(\<lambda>x. pend_next (arp_nodes ?t x)) = (\<lambda>n. pend_next (arp_nodes s n))(n := g_arp_pending_queue_head s)" by auto
  then have c1: "chain (\<lambda>x. pend_next (arp_nodes ?t x)) n (n # ns)" using ns(2) a(2) nn(1) by (simp add: chain_upd)
  have same: "\<forall>x\<in>ptrs s. pdata ?t x = pdata s x \<and> plen ?t x = plen s x \<and> pip ?t x = pip s x" using a(3) by auto
  have nd: "n \<noteq> data" using d(2) a(3) by auto
  have m: "map (pdata ?t) (n # ns) = data # map (pdata s) ns" using nn(1) by simp
  have c2: "distinct ((n # ns) @ data # map (pdata s) ns)" using ok nn nd d(3,4) by (auto simp: pend_ok_def)
  have c3: "set ((n # ns) @ data # map (pdata s) ns) \<subseteq> ptrs ?t" unfolding p(1) using ns(1) d(2) by auto
  have "0 \<notin> set (data # map (pdata s) ns)" using ok d(1) by (auto simp: pend_ok_def)
  then have c4: "0 \<notin> pdata ?t ` set (n # ns)" unfolding m [symmetric] set_map .
  have c5: "14 \<le> plen ?t x \<and> unat (plen ?t x) \<le> length (bufs ?t (pdata ?t x))" if "x \<in> set (n # ns)" for x
  proof (cases "x = n")
    case True
    then show ?thesis using len nd by simp
  next
    case False
    with that nn(2) have "x \<in> set ns" "pdata s x \<noteq> n" by auto
    then show ?thesis using ok False by (simp add: pend_ok_def)
  qed
  have "g_arp_pending_queue_head ?t = n" by simp
  then have "pend_ok ?t (n # ns)" unfolding pend_ok_def m using c1 c2 c3 c4 c5 by (simp only:) blast
  then show ?thesis using r a(3) p same by (intro exI [of _ n] exI [of _ ?t]) (auto intro!: arp_stepI)
qed

section \<open>Input\<close>

definition arp_wf :: "arp_header \<Rightarrow> bool" where
  "arp_wf a \<longleftrightarrow> ntohs (hw_type a) = 1 \<and> ntohs (proto_type a) = ETH_P_IP \<and> hw_len a = 6 \<and> proto_len a = 4"

lemma arp_map_cong: "g_arp_cache t = g_arp_cache s \<Longrightarrow> arp_map t = arp_map s"
  by (rule ext) (simp add: arp_map_def arp_cache_lookup_def cong: option.case_cong)

lemma arp_cache_insert_fields [simp]:
  "sent (arp_cache_insert ip m s) = sent s" "krn (arp_cache_insert ip m s) = krn s" "bufs (arp_cache_insert ip m s) = bufs s"
  "net_cr3 (arp_cache_insert ip m s) = net_cr3 s" "g_net_interfaces (arp_cache_insert ip m s) = g_net_interfaces s"
  "arp_nodes (arp_cache_insert ip m s) = arp_nodes s" "transmitter (arp_cache_insert ip m s) = transmitter s"
  "g_arp_pending_queue_head (arp_cache_insert ip m s) = g_arp_pending_queue_head s"
  by (simp_all add: arp_cache_insert_def Let_def transmitter_def split: option.splits)

lemma insert_ptrs [simp]: "ptrs (arp_cache_insert ip m s) = ptrs s" "net_room k (arp_cache_insert ip m s) = net_room k s"
  by (simp_all add: ptrs_def net_room_def)

lemma insert_tx [simp]:
  "tx_result x (arp_cache_insert ip m s) = tx_result x s" "tx_sent xs (arp_cache_insert ip m s) = tx_sent xs s"
  by (simp_all add: tx_result_def tx_sent_def cong: option.case_cong)

lemma insert_our [simp]: "our_mac old (arp_cache_insert ip m s) = our_mac old s" "our_ip v (arp_cache_insert ip m s) = our_ip v s"
  "if_status i (arp_cache_insert ip m s) = if_status i s"
  by (simp_all add: our_mac_def our_ip_def net_get_interface_mac_def net_get_interface_ip_def if_status_def)

lemma insert_pend [simp]: "pend_ok (arp_cache_insert ip m s) ns = pend_ok s ns" "bound_frame m' (arp_cache_insert ip m s) = bound_frame m' s"
  by (simp_all add: pend_ok_def bound_frame_def fun_eq_iff)

lemma arp_input_wf:
  assumes "arp_wf a" "28 \<le> len"
    and s1_def: "s1 = arp_cache_insert (arp_src_ip a) (arp_src_mac a) s"
  shows "opcode a = htons ARP_OP_REQUEST \<Longrightarrow> arp_input (Some (arp_bytes a @ x)) len s =
      (if arp_dest_ip a = our_ip 0 s then arp_reply a (our_ip 0 s) s1 else Some (-1, s1))"
    "opcode a = htons ARP_OP_REPLY \<Longrightarrow> arp_input (Some (arp_bytes a @ x)) len s =
      do { s2 \<leftarrow> arp_flush_pending_packets (arp_src_ip a) (arp_src_mac a) s1; Some (-1, s2) }"
proof -
  have "\<not> len < 28" using assms(2) by simp
  moreover have "snd (net_get_interface_ip 0 0 s1) = our_ip 0 s" by (simp add: s1_def our_ip_def [symmetric])
  ultimately show "opcode a = htons ARP_OP_REQUEST \<Longrightarrow> arp_input (Some (arp_bytes a @ x)) len s =
      (if arp_dest_ip a = our_ip 0 s then arp_reply a (our_ip 0 s) s1 else Some (-1, s1))"
    "opcode a = htons ARP_OP_REPLY \<Longrightarrow> arp_input (Some (arp_bytes a @ x)) len s =
      do { s2 \<leftarrow> arp_flush_pending_packets (arp_src_ip a) (arp_src_mac a) s1; Some (-1, s2) }"
    using assms(1) by (simp_all add: arp_input_def arp_wf_def wire_simps Let_def s1_def)
qed

lemma arp_flush_spec:
  assumes "pend_ok s ns" "net_room k s" "hit = filter (\<lambda>n. pip s n = ip) ns"
  shows "\<exists>t. arp_flush_pending_packets ip m s = Some t \<and> pend_ok t (filter (\<lambda>n. pip s n \<noteq> ip) ns) \<and>
    net_room k t \<and> ptrs t = ptrs s - (set hit \<union> pdata s ` set hit) \<and> sent t = tx_sent (map (bound_frame m s) hit) s \<and>
    (\<forall>p. p \<notin> pdata s ` set hit \<longrightarrow> bufs t p = bufs s p) \<and>
    (\<forall>n. pdata t n = pdata s n \<and> plen t n = plen s n \<and> pip t n = pip s n) \<and> arp_step s t"
proof -
  have "g_arp_pending_queue_head s = (case ns of [] \<Rightarrow> 0 | c # _ \<Rightarrow> c)"
    using assms(1) by (cases ns) (auto simp: pend_ok_def)
  from flush_loop_spec [OF _ _ this assms(2,3), of "[]" 0 m] assms(1) show ?thesis
    by (simp add: arp_flush_pending_packets_def)
qed

section \<open>Properties\<close>

text \<open>C18: The ARP cache is a map of at most 32 addresses. \<^verbatim>\<open>arp_cache_insert\<close> keeps the table well formed (no
  address occurs twice) and updates exactly the mapping of the given address, except that, when the
  address is new and all entries are in use, the mapping at the replacement index is forgotten.\<close>

theorem arp_cache_insert_refines:
  assumes "cache_ok s"
  shows "cache_ok (arp_cache_insert ip m s) \<and>
    arp_map (arp_cache_insert ip m s) =
      (if arp_map s ip = None \<and> cache_full s
       then (arp_map s)(ip_addr (g_arp_cache s ! unat (g_arp_victim_idx s)) := None) else arp_map s)(ip \<mapsto> m)"
  using arp_cache_insert_spec [OF assms] by blast

text \<open>The cache never answers with a stale address. After any sequence of insertions, what
  \<^verbatim>\<open>arp_cache_lookup\<close> finds for an address is the last value inserted for it, or, when none was, the
  value it had before.\<close>

theorem arp_cache_latest:
  assumes "cache_ok s" "arp_map (fold (\<lambda>(k, v). arp_cache_insert k v) kvs s) ip = Some m"
  shows "map_of (rev kvs) ip = Some m \<or> ip \<notin> fst ` set kvs \<and> arp_map s ip = Some m"
  using arpc.look_latest [OF assms(1), of kvs] assms(2) by (simp add: arpc.ins_all_def)

text \<open>A request for our address is answered. For a well-formed request for the address of interface 0,
  with room in the heap, \<^verbatim>\<open>arp_input\<close> learns the sender, hands the driver exactly one frame, an ARP reply
  addressed to the sender with our addresses as the source, returns the driver's result, and leaves the
  heap blocks as they were.\<close>

theorem arp_input_answers_request:
  assumes "cache_ok s" "net_room k s" "48 \<le> k" "if_status 0 s = 0"
    and "arp_wf a" "opcode a = htons ARP_OP_REQUEST" "arp_dest_ip a = our_ip 0 s" "28 \<le> len"
  shows "\<exists>s'. let x = arp_frame (arp_src_mac a) (our_mac (mac_of 0) s) ARP_OP_REPLY (our_mac (mac_of 0) s) (our_ip 0 s)
        (arp_src_mac a) (arp_src_ip a) in
      arp_input (Some (arp_bytes a @ y)) len s = Some (tx_result x s, s') \<and> sent s' = tx_sent [x] s \<and>
      arp_map s' (arp_src_ip a) = Some (arp_src_mac a) \<and> ptrs s' = ptrs s"
proof -
  let ?s1 = "arp_cache_insert (arp_src_ip a) (arp_src_mac a) s"
  let ?x = "arp_frame (arp_src_mac a) (our_mac (mac_of 0) s) ARP_OP_REPLY (our_mac (mac_of 0) s) (our_ip 0 s)
        (arp_src_mac a) (arp_src_ip a)"
  from arp_reply_spec [of k ?s1 ?x a "our_ip 0 s"] assms obtain s' where
    r: "arp_reply a (our_ip 0 s) ?s1 = Some (tx_result ?x s, s')" "quiet ?s1 s'" "sent s' = tx_sent [?x] s" by auto
  have "arp_map s' (arp_src_ip a) = Some (arp_src_mac a)"
    using arp_map_cong [OF quiet_fields(2) [OF r(2)]] arp_cache_insert_spec(2) [OF assms(1)] by simp
  moreover have "ptrs s' = ptrs s" using quiet_fields(10) [OF r(2)] by simp
  ultimately show ?thesis using r(1,3) arp_input_wf(1) [OF assms(5,8) refl assms(6), of y s] assms(7) by (auto simp: Let_def)
qed

text \<open>A reply releases the packets that wait for it. For a well-formed reply, \<^verbatim>\<open>arp_input\<close> terminates,
  hands the driver every waiting packet for the sender's address, with the sender's hardware address
  written into its Ethernet header, and releases exactly their nodes and buffers; the packets for other
  addresses stay in the list in their order with their contents.\<close>

theorem arp_input_releases_waiting:
  assumes "cache_ok s" "pend_ok s ns" "net_room k s" "arp_wf a" "opcode a = htons ARP_OP_REPLY" "28 \<le> len"
  shows "\<exists>t. let hit = filter (\<lambda>n. pip s n = arp_src_ip a) ns in
      arp_input (Some (arp_bytes a @ y)) len s = Some (-1, t) \<and>
      sent t = tx_sent (map (bound_frame (arp_src_mac a) s) hit) s \<and>
      pend_ok t (filter (\<lambda>n. pip s n \<noteq> arp_src_ip a) ns) \<and>
      ptrs t = ptrs s - (set hit \<union> pdata s ` set hit) \<and>
      (\<forall>p. p \<notin> pdata s ` set hit \<longrightarrow> bufs t p = bufs s p) \<and>
      arp_map t (arp_src_ip a) = Some (arp_src_mac a)"
proof -
  let ?s1 = "arp_cache_insert (arp_src_ip a) (arp_src_mac a) s"
  from arp_flush_spec [of ?s1 ns k _ "arp_src_ip a" "arp_src_mac a", OF _ _ refl] assms(2,3) obtain t where
    t: "arp_flush_pending_packets (arp_src_ip a) (arp_src_mac a) ?s1 = Some t"
      "pend_ok t (filter (\<lambda>n. pip s n \<noteq> arp_src_ip a) ns)"
      "ptrs t = ptrs s - (set (filter (\<lambda>n. pip s n = arp_src_ip a) ns) \<union> pdata s ` set (filter (\<lambda>n. pip s n = arp_src_ip a) ns))"
      "sent t = tx_sent (map (bound_frame (arp_src_mac a) s) (filter (\<lambda>n. pip s n = arp_src_ip a) ns)) s"
      "\<forall>p. p \<notin> pdata s ` set (filter (\<lambda>n. pip s n = arp_src_ip a) ns) \<longrightarrow> bufs t p = bufs s p" "arp_step ?s1 t" by auto
  have "arp_map t (arp_src_ip a) = Some (arp_src_mac a)"
    using arp_map_cong [OF arp_step_fields(2) [OF t(6)]] arp_cache_insert_spec(2) [OF assms(1)] by simp
  with t show ?thesis using arp_input_wf(2) [OF assms(4,6) refl assms(5), of y s] by (auto simp: Let_def)
qed

text \<open>Packets that are no ARP for Ethernet and IPv4 are refused without any effect: a missing or short
  packet with code -1, a wrong hardware or protocol type or address length with code -2.\<close>

theorem arp_input_rejects:
  "arp_input None len s = Some (-1, s) \<and> (len < 28 \<longrightarrow> arp_input (Some x) len s = Some (-1, s)) \<and>
   (28 \<le> len \<longrightarrow> \<not> arp_wf a \<longrightarrow> arp_input (Some (arp_bytes a @ x)) len s = Some (-2, s))"
  by (auto simp: arp_input_def arp_wf_def wire_simps not_less)

text \<open>Waiting packets overtake each other. Of two packets retained for the same address, the one
  retained last leaves first when the address is resolved.\<close>

theorem arp_waiting_order:
  assumes "pend_ok s []" "net_room k s" "160 \<le> k" and d: "p \<noteq> 0" "q \<noteq> 0" "p \<noteq> q" "p \<in> ptrs s" "q \<in> ptrs s"
    and len: "14 \<le> i" "unat i \<le> length (bufs s p)" "14 \<le> j" "unat j \<le> length (bufs s q)"
  shows "\<exists>s1 s2 t. arp_retain_packet ip p i s = Some (0, s1) \<and> arp_retain_packet ip q j s1 = Some (0, s2) \<and>
    arp_flush_pending_packets ip m s2 = Some t \<and> ptrs t = ptrs s - {p, q} \<and>
    sent t = tx_sent [take (unat j) (mac_bytes m @ drop 6 (bufs s q)), take (unat i) (mac_bytes m @ drop 6 (bufs s p))] s"
proof -
  from arp_retain_spec [OF assms(1,2) _ d(1,4) _ _ len(1,2), of ip] assms(3) obtain n1 s1 where
    a: "arp_retain_packet ip p i s = Some (0, s1)" "pend_ok s1 [n1]" "n1 \<notin> ptrs s" "ptrs s1 = insert n1 (ptrs s)"
      "net_room (k - 64) s1" "sent s1 = sent s" "\<forall>p\<in>ptrs s. bufs s1 p = bufs s p" "pip s1 n1 = ip" "pdata s1 n1 = p"
      "plen s1 n1 = i" "arp_step s s1" by auto
  have q: "q \<in> ptrs s1" "q \<notin> set [n1]" "q \<notin> pdata s1 ` set [n1]" "unat j \<le> length (bufs s1 q)"
    using d a(3,4,7,9) len(4) by auto
  have "80 \<le> k - 64" using assms(3) by simp
  from arp_retain_spec [OF a(2,5) this d(2) q(1-3) len(3) q(4), of ip] obtain n2 s2 where
    b: "arp_retain_packet ip q j s1 = Some (0, s2)" "pend_ok s2 [n2, n1]" "n2 \<notin> ptrs s1" "ptrs s2 = insert n2 (ptrs s1)"
      "net_room (k - 64 - 64) s2" "sent s2 = sent s1" "\<forall>p\<in>ptrs s1. bufs s2 p = bufs s1 p" "pip s2 n2 = ip" "pdata s2 n2 = q"
      "plen s2 n2 = j" "\<forall>x\<in>ptrs s1. pdata s2 x = pdata s1 x \<and> plen s2 x = plen s1 x \<and> pip s2 x = pip s1 x"
      "arp_step s1 s2" by auto
  have n1: "pip s2 n1 = ip" "pdata s2 n1 = p" "plen s2 n1 = i" using b(11) a(4,8-10) by auto
  have bp: "bufs s2 p = bufs s p" "bufs s2 q = bufs s q" using b(7) a(4,7) d(4,5) by auto
  from arp_flush_spec [OF b(2,5) refl, of ip m] obtain t where
    t: "arp_flush_pending_packets ip m s2 = Some t" "ptrs t = ptrs s2 - ({n2, n1} \<union> {q, p})"
      "sent t = tx_sent [bound_frame m s2 n2, bound_frame m s2 n1] s2" by (auto simp: b(8,9) n1)
  have "tx_sent xs s2 = tx_sent xs s" for xs
    using tx_cong(2) [of s2 s] arp_step_fields(3) [OF a(11)] arp_step_fields(3) [OF b(12)] a(6) b(6) by simp
  then have "sent t = tx_sent [take (unat j) (mac_bytes m @ drop 6 (bufs s q)), take (unat i) (mac_bytes m @ drop 6 (bufs s p))] s"
    unfolding t(3) by (simp add: bound_frame_def b(9,10) n1 bp)
  moreover have "ptrs t = ptrs s - {p, q}" unfolding t(2) b(4) a(4) using a(3) b(3) a(4) by auto
  ultimately show ?thesis using a(1) b(1) t(1) by blast
qed

section \<open>Examples\<close>

abbreviation mac_demo :: mac where "mac_demo \<equiv> Mac 2 0 0 0 0 9"

definition arp_demo :: "u16 \<Rightarrow> arp_header" where
  "arp_demo op = \<lparr>hw_type = htons 1, proto_type = htons ETH_P_IP, hw_len = 6, proto_len = 4, opcode = htons op,
     arp_src_mac = mac_demo, arp_src_ip = 0x0902000A, arp_dest_mac = mac_of 0, arp_dest_ip = 0x0F02000A\<rparr>"

lemma demo_cache: "cache_ok net_demo"
  by (simp add: cache_ok_def holds_def net_demo_def)

lemma demo_pend: "pend_ok net_demo []"
  by (simp add: pend_ok_def net_demo_def)

lemma demo_tx: "transmitter net_demo = Some (\<lambda>_ _. 0)" "sent net_demo = []" "tx_sent xs net_demo = xs" "tx_result x net_demo = 0"
  by (simp_all add: tx_sent_def tx_result_def transmitter_def net_demo_def ops_demo_def)

lemma demo_our: "our_ip v net_demo = 0x0F02000A" "our_mac old net_demo = Mac 2 0 0 0 0 1" "if_status 0 net_demo = 0"
  by (simp_all add: our_ip_def our_mac_def net_get_interface_ip_def net_get_interface_mac_def if_status_def net_demo_def)

lemma demo_arp_wf: "arp_wf (arp_demo op)"
  by (simp add: arp_wf_def arp_demo_def)

theorem arp_cache_insert_refines_witness:
  "cache_ok (arp_cache_insert 5 mac_demo net_demo) \<and> arp_map (arp_cache_insert 5 mac_demo net_demo) 5 = Some mac_demo"
  using arp_cache_insert_refines [OF demo_cache, of 5 mac_demo] by simp

theorem arp_cache_latest_witness:
  "map_of (rev [(5, mac_of 1), (5 :: u32, mac_demo)]) 5 = Some mac_demo \<and>
   arp_map (fold (\<lambda>(k, v). arp_cache_insert k v) [(5, mac_of 1), (5, mac_demo)] net_demo) 5 = Some mac_demo"
proof -
  have "arp_map (fold (\<lambda>(k, v). arp_cache_insert k v) [(5, mac_of 1), (5, mac_demo)] net_demo) 5 = Some mac_demo"
    using arpc.ins_hit [OF arpc.ins_ok [OF demo_cache]] by simp
  with arp_cache_latest [OF demo_cache this] show ?thesis by simp
qed

theorem arp_input_answers_request_witness:
  "\<exists>s'. arp_input (Some (arp_bytes (arp_demo 1) @ [])) 28 net_demo = Some (0, s') \<and>
     sent s' = [arp_frame mac_demo (Mac 2 0 0 0 0 1) ARP_OP_REPLY (Mac 2 0 0 0 0 1) 0x0F02000A mac_demo 0x0902000A]"
proof -
  have a: "opcode (arp_demo 1) = htons ARP_OP_REQUEST" "arp_dest_ip (arp_demo 1) = our_ip 0 net_demo"
    "arp_src_mac (arp_demo 1) = mac_demo" "arp_src_ip (arp_demo 1) = 0x0902000A" by (simp_all add: arp_demo_def demo_our)
  from arp_input_answers_request [OF demo_cache net_demo_room _ demo_our(3) demo_arp_wf a(1,2), of 28 "[]"]
  show ?thesis by (auto simp: Let_def demo_tx demo_our a(3,4))
qed

abbreviation packet_demo :: u64 where "packet_demo \<equiv> KERNEL_HEAP_VIRTUAL_BASE + 32"

lemma demo_retained:
  "\<exists>n t. arp_retain_packet 0x0902000A packet_demo 60 net_demo = Some (0, t) \<and> pend_ok t [n] \<and> net_room 3904 t \<and>
     pip t n = 0x0902000A \<and> cache_ok t \<and> bound_frame mac_demo t n = mac_bytes mac_demo @ replicate 54 0 \<and> (\<forall>xs. tx_sent xs t = xs)"
proof -
  have p: "packet_demo \<in> ptrs net_demo" "unat (60 :: u32) \<le> length (bufs net_demo packet_demo)" "packet_demo \<noteq> 0"
    using net_demo_ptrs by (simp_all add: net_demo_def)
  from arp_retain_spec [OF demo_pend net_demo_room _ p(3,1) _ _ _ p(2), of "0x0902000A"] obtain n t where
    t: "arp_retain_packet 0x0902000A packet_demo 60 net_demo = Some (0, t)" "pend_ok t [n]" "net_room 3904 t"
      "sent t = sent net_demo" "\<forall>p\<in>ptrs net_demo. bufs t p = bufs net_demo p"
      "pip t n = 0x0902000A" "pdata t n = packet_demo" "plen t n = 60" "arp_step net_demo t" by auto
  have "bound_frame mac_demo t n = mac_bytes mac_demo @ replicate 54 0"
    unfolding bound_frame_def t(7,8) using t(5) p(1) by (simp add: net_demo_def)
  moreover have "tx_sent xs t = xs" for xs
    using tx_cong(2) [OF arp_step_fields(3) [OF t(9)] t(4)] demo_tx(3) by simp
  moreover have "cache_ok t" using demo_cache arp_step_fields(2,4) [OF t(9)] by (simp add: cache_ok_def)
  ultimately show ?thesis using t(1-3,6) by blast
qed

theorem arp_input_releases_waiting_witness:
  "\<exists>s t. arp_retain_packet 0x0902000A packet_demo 60 net_demo = Some (0, s) \<and>
     arp_input (Some (arp_bytes (arp_demo 2) @ [])) 28 s = Some (-1, t) \<and>
     sent t = [mac_bytes mac_demo @ replicate 54 0] \<and> pend_ok t []"
proof -
  from demo_retained obtain n s where
    s: "arp_retain_packet 0x0902000A packet_demo 60 net_demo = Some (0, s)" "pend_ok s [n]" "net_room 3904 s"
      "pip s n = 0x0902000A" "cache_ok s" "bound_frame mac_demo s n = mac_bytes mac_demo @ replicate 54 0" "\<forall>xs. tx_sent xs s = xs"
    by blast
  have a: "opcode (arp_demo 2) = htons ARP_OP_REPLY" "arp_src_mac (arp_demo 2) = mac_demo" "arp_src_ip (arp_demo 2) = 0x0902000A"
    by (simp_all add: arp_demo_def)
  from arp_input_releases_waiting [OF s(5,2,3) demo_arp_wf a(1), of 28 "[]"] show ?thesis
    using s(1,4,6,7) unfolding a(2,3) by (auto simp: Let_def)
qed

theorem arp_input_rejects_witness:
  "arp_input (Some (arp_bytes ((arp_demo 1)\<lparr>hw_len := 8\<rparr>) @ [])) 28 net_demo = Some (-2, net_demo)"
proof -
  have "\<not> arp_wf ((arp_demo 1)\<lparr>hw_len := 8\<rparr>)" by (simp add: arp_wf_def)
  with arp_input_rejects [of 28 net_demo "[]" "(arp_demo 1)\<lparr>hw_len := 8\<rparr>"] show ?thesis by simp
qed

theorem arp_waiting_order_witness:
  "\<exists>s p q s1 s2 t. p \<noteq> q \<and> arp_retain_packet 5 p 60 s = Some (0, s1) \<and> arp_retain_packet 5 q 60 s1 = Some (0, s2) \<and>
     arp_flush_pending_packets 5 mac_demo s2 = Some t \<and>
     sent t = [mac_bytes mac_demo @ replicate 54 0xAA, mac_bytes mac_demo @ replicate 54 0]"
proof -
  have "round16 (unat (64 :: u32)) = 64" by (simp add: round16_def)
  with net_kmalloc_spec [OF net_demo_room, of 64] obtain q h s where
    s: "s = (set_heap h net_demo)\<lparr>bufs := (bufs net_demo)(q := fresh_bytes net_demo q 64)\<rparr>" and
    q: "q \<noteq> 0" "q \<notin> ptrs net_demo" "net_room 3872 s" "ptrs s = insert q (ptrs net_demo)" by auto
  have ne: "packet_demo \<noteq> q" using q(2) net_demo_ptrs by auto
  have b: "bufs s packet_demo = replicate 64 0" "bufs s q = replicate 64 0xAA" "pend_ok s []" "packet_demo \<in> ptrs s" "q \<in> ptrs s"
    using ne q(4) net_demo_ptrs by (auto simp: s net_demo_def pend_ok_def map_replicate_const)
  have tx: "tx_sent xs s = xs" for xs
    using tx_cong(2) [of s net_demo] demo_tx(3) by (simp add: s transmitter_def)
  have l: "unat (60 :: u32) \<le> length (bufs s packet_demo)" "unat (60 :: u32) \<le> length (bufs s q)" using b(1,2) by simp_all
  have "packet_demo \<noteq> 0" by simp
  from arp_waiting_order [OF b(3) q(3) _ this q(1) ne b(4,5) _ l(1) _ l(2), of 5 mac_demo] obtain s1 s2 t where
    r: "arp_retain_packet 5 packet_demo 60 s = Some (0, s1)" "arp_retain_packet 5 q 60 s1 = Some (0, s2)"
      "arp_flush_pending_packets 5 mac_demo s2 = Some t"
      "sent t = [take (unat (60 :: u32)) (mac_bytes mac_demo @ drop 6 (replicate 64 0xAA)),
        take (unat (60 :: u32)) (mac_bytes mac_demo @ drop 6 (replicate 64 0))]" unfolding b(1,2) tx by auto
  from r(4) have "sent t = [mac_bytes mac_demo @ replicate 54 0xAA, mac_bytes mac_demo @ replicate 54 0]" by simp
  with r(1-3) ne show ?thesis by blast
qed

end
