(* ===== verification/Ip.thy ===== *)
theory Ip
  imports Arp
begin

text \<open>
  The network layer: \<^verbatim>\<open>src/kernel/kernel/net/ip.c\<close> (Internet checksum, output, input) and \<^verbatim>\<open>icmp.c\<close> (echo).
  The transport protocols that \<^verbatim>\<open>ip_input\<close> dispatches to are arguments: \<open>udp\<close> is instantiated by theory
  \<open>Udp\<close>, \<open>tcp\<close> stands for \<^verbatim>\<open>tcp_input\<close>. The console messages, and the time measurement that only feeds
  them, are left out.
\<close>

section \<open>The Internet checksum\<close>

fun csum_loop :: "u8 list \<Rightarrow> nat \<Rightarrow> u32 \<Rightarrow> u32 option" where
  "csum_loop x n acc =
     (if n > 1 then (case x of a # b # y \<Rightarrow> csum_loop y (n - 2) (acc + ucast (rd16 [a, b] 0)) | _ \<Rightarrow> None)
      else if n > 0 then (case x of a # y \<Rightarrow> Some (acc + ucast a) | [] \<Rightarrow> None)
      else Some acc)"

declare csum_loop.simps [simp del]

lemma unat_high: "unat (drop_bit 16 s) = unat (s :: u32) div 65536"
  by (simp add: drop_bit_eq_div unat_div)

lemma fold_carry_less:
  fixes s :: u32
  assumes "drop_bit 16 s \<noteq> 0"
  shows "unat ((s AND 0xFFFF) + drop_bit 16 s) < unat s"
    "unat ((s AND 0xFFFF) + drop_bit 16 s) = unat s mod 65536 + unat s div 65536"
proof -
  have lt: "unat s < 4294967296" using unsigned_less [of s, where 'a = nat] by simp
  have "s AND 0xFFFF = take_bit 16 s" by (simp add: take_bit_eq_mask mask_eq_exp_minus_1)
  then have a: "unat (s AND 0xFFFF) = unat s mod 65536" by (simp add: take_bit_eq_mod unat_mod)
  have b: "unat s mod 65536 + unat s div 65536 < 4294967296"
  proof -
    have "unat s div 65536 < 65536" using lt by (simp add: div_less_iff_less_mult)
    moreover have "unat s mod 65536 < 65536" by simp
    ultimately show ?thesis by linarith
  qed
  show e: "unat ((s AND 0xFFFF) + drop_bit 16 s) = unat s mod 65536 + unat s div 65536"
    using b by (subst unat_add_nowrap) (simp_all add: a unat_high)
  have "unat s div 65536 \<noteq> 0" using assms unat_high by (metis unat_0_iff)
  then show "unat ((s AND 0xFFFF) + drop_bit 16 s) < unat s"
    unfolding e using div_mult_mod_eq [of "unat s" 65536] by linarith
qed

function fold_carry :: "u32 \<Rightarrow> u32" where
  "fold_carry s = (if drop_bit 16 s \<noteq> 0 then fold_carry ((s AND 0xFFFF) + drop_bit 16 s) else s)"
  by auto
termination
  by (relation "measure unat") (use fold_carry_less(1) in auto)

declare fold_carry.simps [simp del]

definition ip_calculate_checksum :: "u8 list \<Rightarrow> nat \<Rightarrow> u16 option" where
  "ip_calculate_checksum x n = do { acc \<leftarrow> csum_loop x n 0; Some (ucast (NOT (fold_carry acc))) }"

section \<open>Output\<close>

text \<open>Writing the Ethernet header (but for the destination), the IP header and the payload into the frame.\<close>

definition ip_compose :: "u32 \<Rightarrow> u8 \<Rightarrow> u8 list option \<Rightarrow> u32 \<Rightarrow> u64 \<Rightarrow> net \<Rightarrow> net option" where
  "ip_compose dest proto data len tx s =
     do {
       let x = bufs s tx;
       e \<leftarrow> eth_at x;
       let e = e\<lparr>ethertype := htons 0x0800, eth_src_mac := snd (net_get_interface_mac 0 (eth_src_mac e) s)\<rparr>;
       h \<leftarrow> ip_at (drop 14 x);
       let current_id = g_ip_packet_id s;
       let s1 = s\<lparr>g_ip_packet_id := current_id + 1\<rparr>;
       let h = h\<lparr>version_ihl := 0x45, tos := 0, total_len := htons (ucast (20 + len)), ip_id := htons current_id,
         flags_fragment := htons 0x4000, ttl := 64, protocol := proto, checksum := 0,
         src_ip := snd (net_get_interface_ip 0 0 s1), dest_ip := dest\<rparr>;
       c \<leftarrow> ip_calculate_checksum (ip_bytes h) 20;
       let h = h\<lparr>checksum := c\<rparr>;
       payload \<leftarrow> (if len = 0 then Some [] else data \<bind> peek (unat len));
       x1 \<leftarrow> poke 0 (eth_bytes e) x;
       x2 \<leftarrow> poke 14 (ip_bytes h) x1;
       x3 \<leftarrow> poke 34 payload x2;
       Some (put_buf tx x3 s1)
     }"

text \<open>Writing the destination hardware address, sending the frame and releasing it.\<close>

definition ip_dispatch :: "mac \<Rightarrow> u64 \<Rightarrow> u32 \<Rightarrow> net \<Rightarrow> (int \<times> net) option" where
  "ip_dispatch m tx n s =
     do {
       x \<leftarrow> poke 0 (mac_bytes m) (bufs s tx);
       (r, s1) \<leftarrow> net_driver_transmit (Some x) n (put_buf tx x s);
       s2 \<leftarrow> net_kfree tx s1;
       Some (r, s2)
     }"

definition ip_output :: "u32 \<Rightarrow> u8 \<Rightarrow> u8 list option \<Rightarrow> u32 \<Rightarrow> net \<Rightarrow> (int \<times> net) option" where
  "ip_output dest proto data len s =
     (if data = None \<and> len > 0 then Some (-1, s)
      else let ip_packet_size = 20 + len; total_frame_size = 14 + ip_packet_size in
        if ip_packet_size > 1500 then Some (-2, s)
        else do {
          (tx, s1) \<leftarrow> net_kmalloc total_frame_size s;
          if tx = 0 then Some (-3, s1)
          else do {
            s2 \<leftarrow> ip_compose dest proto data len tx s1;
            if dest = 0xFFFFFFFF \<or> dest = 0 then ip_dispatch (mac_of 0xFF) tx total_frame_size s2
            else (case arp_cache_lookup dest (Some (mac_of 0)) s2 of (r, m) \<Rightarrow>
              if r = 0 then ip_dispatch (the m) tx total_frame_size s2
              else do {
                (r1, s3) \<leftarrow> arp_retain_packet dest tx total_frame_size s2;
                (r2, s4) \<leftarrow> arp_request dest s3;
                Some (-11, s4)
              })
          }
        })"

section \<open>ICMP\<close>

definition icmp_input :: "u8 list option \<Rightarrow> u32 \<Rightarrow> u32 \<Rightarrow> net \<Rightarrow> (int \<times> net) option" where
  "icmp_input data len src s =
     (if data = None \<or> len < 8 then Some (-1, s)
      else do {
        icmp \<leftarrow> peek 8 (the data);
        if icmp ! 0 = 8 then do {
          (reply_buf, s1) \<leftarrow> net_kmalloc len s;
          if reply_buf = 0 then Some (-2, s1)
          else do {
            x \<leftarrow> peek (unat len) (the data);
            y \<leftarrow> poke 0 [0, 0, 0, 0] x;
            c \<leftarrow> ip_calculate_checksum y (unat len);
            z \<leftarrow> poke 2 (le16 c) y;
            let s2 = put_buf reply_buf z s1;
            (r, s3) \<leftarrow> ip_output src IPPROTO_ICMP (Some z) len s2;
            s4 \<leftarrow> net_kfree reply_buf s3;
            Some (r, s4)
          }
        }
        else Some (0, s)
      })"

section \<open>Input\<close>

type_synonym transport = "u8 list option \<Rightarrow> u32 \<Rightarrow> u32 \<Rightarrow> net \<Rightarrow> (int \<times> net) option"

definition ip_input :: "transport \<Rightarrow> transport \<Rightarrow> u8 list option \<Rightarrow> u32 \<Rightarrow> net \<Rightarrow> (int \<times> net) option" where
  "ip_input udp tcp pkt len s =
     (if pkt = None \<or> len < 20 then Some (-1, s)
      else do {
        ip \<leftarrow> ip_at (the pkt);
        if drop_bit 4 (version_ihl ip) AND 0x0F \<noteq> 4 then Some (-2, s)
        else let ihl = (version_ihl ip AND 0x0F) * 4 in
          if ihl < 20 \<or> ucast ihl > len then Some (-3, s)
          else do {
            c \<leftarrow> ip_calculate_checksum (the pkt) (unat ihl);
            if c \<noteq> 0 then Some (-4, s)
            else let total = ntohs (total_len ip) in
              if ucast total > len \<or> total < ucast ihl then Some (-5, s)
              else let ip_payload_len = ucast total - ucast ihl; my_ip = snd (net_get_interface_ip 0 0 s) in
                if dest_ip ip \<noteq> my_ip \<and> dest_ip ip \<noteq> 0xFFFFFFFF \<and> my_ip \<noteq> 0 then Some (0, s)
                else let payload = Some (drop (unat ihl) (the pkt)) in
                  if protocol ip = IPPROTO_UDP then udp payload ip_payload_len (src_ip ip) s
                  else if protocol ip = IPPROTO_TCP then tcp payload ip_payload_len (src_ip ip) s
                  else if protocol ip = IPPROTO_ICMP then icmp_input payload ip_payload_len (src_ip ip) s
                  else Some (-6, s)
          }
      })"

section \<open>The checksum is that of RFC 1071\<close>

text \<open>The 16-bit words of a block of bytes, the last one padded when the length is odd.\<close>

fun words16 :: "u8 list \<Rightarrow> nat list" where
  "words16 (a # b # x) = (unat a + 256 * unat b) # words16 x"
| "words16 [a] = [unat a]"
| "words16 [] = []"

text \<open>The one's complement sum of 16-bit words: end-around carry is reduction modulo 65535 to 1 ... 65535.\<close>

definition ones_sum :: "nat \<Rightarrow> nat" where
  "ones_sum n = (if n = 0 then 0 else (n - 1) mod 65535 + 1)"

lemma ones_sum_bounds: "ones_sum n \<le> 65535" "ones_sum n = 0 \<longleftrightarrow> n = 0" "n \<le> 65535 \<Longrightarrow> ones_sum n = n"
proof -
  show "ones_sum n \<le> 65535"
  proof (cases n)
    case (Suc m)
    then have "ones_sum n = m mod 65535 + 1" by (simp add: ones_sum_def)
    moreover have "m mod 65535 < 65535" by simp
    ultimately show ?thesis by linarith
  qed (simp add: ones_sum_def)
  show "ones_sum n = 0 \<longleftrightarrow> n = 0" by (simp add: ones_sum_def)
  show "n \<le> 65535 \<Longrightarrow> ones_sum n = n" by (auto simp: ones_sum_def)
qed

lemma ones_sum_mod: "ones_sum n mod 65535 = n mod 65535"
  by (cases n) (simp_all add: ones_sum_def mod_Suc_eq)

lemma ones_sum_fold: "0 < m \<Longrightarrow> 0 < n \<Longrightarrow> m mod 65535 = n mod 65535 \<Longrightarrow> ones_sum m = ones_sum n"
proof -
  assume a: "0 < m" "0 < n" "m mod 65535 = n mod 65535"
  from a(3) have "(m + 65534) mod 65535 = (n + 65534) mod 65535" by (rule mod_add_cong) simp
  moreover have "m + 65534 = (m - 1) + 65535" "n + 65534 = (n - 1) + 65535" using a(1,2) by simp_all
  ultimately have "(m - 1) mod 65535 = (n - 1) mod 65535" by (metis mod_add_self2)
  with a show ?thesis by (simp add: ones_sum_def)
qed

lemma fold_carry_value: "unat (fold_carry s) = ones_sum (unat s)"
proof (induction s rule: fold_carry.induct)
  case (1 s)
  show ?case
  proof (cases "drop_bit 16 s = 0")
    case True
    have "unat s div 65536 = 0" using True unat_high by (metis unat_0)
    then have "unat s < 65536" by simp
    then show ?thesis using True ones_sum_bounds(3) [of "unat s"] by (simp add: fold_carry.simps)
  next
    case False
    let ?t = "(s AND 0xFFFF) + drop_bit 16 s"
    note l = fold_carry_less [OF False]
    have pos: "0 < unat s" using l(1) by simp
    have "unat s mod 65535 = (unat s div 65536 * 65536 + unat s mod 65536) mod 65535" by simp
    also have "\<dots> = (unat s div 65536 * 1 + unat s mod 65536) mod 65535"
      by (intro mod_add_cong mod_mult_cong) simp_all
    finally have "unat ?t mod 65535 = unat s mod 65535" unfolding l(2) by (simp add: add.commute)
    moreover have "0 < unat ?t" unfolding l(2) using pos div_mult_mod_eq [of "unat s" 65536] by (cases "unat s div 65536 = 0") auto
    ultimately have "ones_sum (unat ?t) = ones_sum (unat s)" using pos by (intro ones_sum_fold)
    with 1 [OF False] False show ?thesis by (simp add: fold_carry.simps [of s])
  qed
qed

lemma word16_value: "unat (rd16 [a, b] 0 :: u16) = unat a + 256 * unat b"
proof -
  have "(ucast a :: u16) + push_bit 8 (ucast b) = ucast a OR push_bit 8 (ucast b)"
    by (rule disjunctive_add_eq_or) (auto simp: bit_eq_iff bit_simps dest: bit_imp_le_length)
  then have "rd16 [a, b] 0 = ucast a + push_bit 8 (ucast b)" by (simp add: rd16_def)
  moreover have u: "unat (ucast a :: u16) = unat a" "unat (ucast b :: u16) = unat b"
    using unsigned_less [of a, where 'a = nat] unsigned_less [of b, where 'a = nat]
    by (simp_all add: unsigned_ucast_eq take_bit_nat_eq_self)
  moreover have "unat (push_bit 8 (ucast b :: u16)) = 256 * unat b"
    using unsigned_less [of b, where 'a = nat] u by (simp add: push_bit_eq_mult unat_mult_nowrap)
  ultimately show ?thesis
    using unsigned_less [of a, where 'a = nat] unsigned_less [of b, where 'a = nat] by (simp add: unat_add_nowrap)
qed

lemma csum_loop_value:
  "n \<le> length x \<Longrightarrow> csum_loop x n acc = Some (acc + of_nat (sum_list (words16 (take n x))))"
proof (induction x n acc rule: csum_loop.induct)
  case (1 x n acc)
  consider "n = 0" | "n = 1" | "2 \<le> n" by linarith
  then show ?case
  proof cases
    case 3
    then obtain m a b y where n: "n = Suc (Suc m)" and x: "x = a # b # y"
      using 1(2) by (metis Suc_le_length_iff numeral_2_eq_2 le_Suc_ex add_2_eq_Suc)
    have "m \<le> length y" using 1(2) n x by simp
    from 1(1) [of a "b # y" b y] this n x have
      "csum_loop y m (acc + ucast (rd16 [a, b] 0)) =
       Some (acc + ucast (rd16 [a, b] 0) + of_nat (sum_list (words16 (take m y))))" by simp
    moreover have "(ucast (rd16 [a, b] 0 :: u16) :: u32) = of_nat (unat a + 256 * unat b)"
      unfolding word16_value [symmetric] by simp
    ultimately show ?thesis by (subst csum_loop.simps) (simp add: n x)
  next
    case 2
    then obtain a y where "x = a # y" using 1(2) by (cases x) auto
    with 2 show ?thesis by (subst csum_loop.simps) simp
  qed (subst csum_loop.simps, simp)
qed

lemma sum_words_bound: "sum_list (words16 x) \<le> 65535 * ((length x + 1) div 2)"
proof (induction x rule: words16.induct)
  case (1 a b x)
  then show ?case using unsigned_less [of a, where 'a = nat] unsigned_less [of b, where 'a = nat] by simp
next
  case (2 a)
  then show ?case using unsigned_less [of a, where 'a = nat] by simp
qed simp

lemma ip_calculate_checksum_spec:
  assumes "n \<le> length x" "n \<le> 131070"
  shows "ip_calculate_checksum x n = Some (of_nat (65535 - ones_sum (sum_list (words16 (take n x)))))"
proof -
  let ?S = "sum_list (words16 (take n x))"
  have "?S \<le> 65535 * ((n + 1) div 2)" using sum_words_bound [of "take n x"] assms(1) by (simp add: min_absorb2)
  also have "\<dots> < 4294967296" using assms(2) by (simp add: less_mult_imp_div_less div_le_mono)
  finally have "unat (of_nat ?S :: u32) = ?S" by (simp add: unat_of_nat_id)
  then have f: "unat (fold_carry (of_nat ?S)) = ones_sum ?S" by (simp add: fold_carry_value)
  let ?r = "fold_carry (of_nat ?S)"
  have "unat (ucast ?r :: u16) = ones_sum ?S"
    using ones_sum_bounds(1) [of ?S] f by (simp add: unsigned_ucast_eq take_bit_nat_eq_self)
  then have "(of_nat (unat (ucast ?r :: u16)) :: u16) = of_nat (ones_sum ?S)" by (rule arg_cong)
  then have r: "(ucast ?r :: u16) = of_nat (ones_sum ?S)" by (simp only: word_of_nat_eq_iff word_unat_eq_iff) simp
  have "(ucast (NOT ?r) :: u16) = NOT (ucast ?r)" by (rule bit_word_eqI) (simp add: bit_simps)
  also have "\<dots> = of_nat (65535 - ones_sum ?S)"
  proof -
    have "(of_nat (65535 - ones_sum ?S) :: u16) = 65535 - of_nat (ones_sum ?S)"
      using ones_sum_bounds(1) [of ?S] by (simp add: of_nat_diff)
    moreover have "(65535 :: u16) = -1" by simp
    ultimately show ?thesis unfolding r not_eq_complement by simp
  qed
  finally show ?thesis using csum_loop_value [OF assms(1), of 0] by (simp add: ip_calculate_checksum_def)
qed

text \<open>A block whose checksum field, at an even position, holds the checksum computed with the field zeroed.\<close>

lemma words16_append: "even (length x) \<Longrightarrow> words16 (x @ y) = words16 x @ words16 y"
  by (induction x rule: words16.induct) auto

lemma words16_le16: "words16 (le16 v @ y) = unat v # words16 y"
proof -
  have "unat (rd16 [ucast v, ucast (drop_bit 8 v)] 0) = unat v" by (simp add: rd16_def)
  then show ?thesis by (simp add: le16_def word16_value)
qed

lemma ones_sum_complement: "ones_sum (S + (65535 - ones_sum S)) = 65535"
proof -
  have "ones_sum (S + (65535 - ones_sum S)) = ones_sum 65535"
  proof (rule ones_sum_fold)
    note o = ones_sum_bounds(1) [of S] ones_sum_mod [of S]
    show "0 < S + (65535 - ones_sum S)" using ones_sum_bounds(2) [of S] by (cases "S = 0") auto
    have "(S + (65535 - ones_sum S)) mod 65535 = (ones_sum S + (65535 - ones_sum S)) mod 65535"
      using o(2) by (intro mod_add_cong) simp_all
    also have "\<dots> = 65535 mod 65535" using o(1) by simp
    finally show "(S + (65535 - ones_sum S)) mod 65535 = 65535 mod 65535" .
  qed simp
  then show ?thesis by (simp add: ones_sum_def)
qed

lemma checksum_verifies:
  assumes "even (length x)" "length x + 2 + length y \<le> 131070"
    "ip_calculate_checksum (x @ [0, 0] @ y) (length x + 2 + length y) = Some c"
  shows "ip_calculate_checksum (x @ le16 c @ y) (length x + 2 + length y) = Some 0"
proof -
  let ?S = "sum_list (words16 x) + sum_list (words16 y)"
  have "c = of_nat (65535 - ones_sum ?S)"
    using assms ip_calculate_checksum_spec [of "length x + 2 + length y" "x @ [0, 0] @ y"] by (simp add: words16_append)
  then have c: "unat c = 65535 - ones_sum ?S" by (simp add: unat_of_nat_id)
  note ones_sum_complement [of ?S]
  moreover have "sum_list (words16 (x @ le16 c @ y)) = ?S + (65535 - ones_sum ?S)"
    using assms(1) c by (simp add: words16_append words16_le16)
  ultimately show ?thesis
    using assms(2) ip_calculate_checksum_spec [of "length x + 2 + length y" "x @ le16 c @ y"] by simp
qed

section \<open>The frames that are sent\<close>

text \<open>The header that \<^verbatim>\<open>ip_output\<close> writes, without and with its checksum, and the whole frame.\<close>

definition ip_head :: "u8 \<Rightarrow> u32 \<Rightarrow> u32 \<Rightarrow> net \<Rightarrow> ip_header" where
  "ip_head proto dest len s = \<lparr>version_ihl = 0x45, tos = 0, total_len = htons (ucast (20 + len)),
     ip_id = htons (g_ip_packet_id s), flags_fragment = htons 0x4000, ttl = 64, protocol = proto, checksum = 0,
     src_ip = our_ip 0 s, dest_ip = dest\<rparr>"

definition with_checksum :: "ip_header \<Rightarrow> ip_header" where
  "with_checksum h = h\<lparr>checksum := the (ip_calculate_checksum (ip_bytes h) 20)\<rparr>"

definition ip_frame :: "mac \<Rightarrow> u8 \<Rightarrow> u32 \<Rightarrow> u8 list \<Rightarrow> net \<Rightarrow> u8 list" where
  "ip_frame m proto dest p s =
     eth_bytes \<lparr>eth_dest_mac = m, eth_src_mac = our_mac (mac_of 0) s, ethertype = htons 0x0800\<rparr> @
     ip_bytes (with_checksum (ip_head proto dest (of_nat (length p)) s)) @ p"

lemma length_ip_frame [simp]: "length (ip_frame m proto dest p s) = 34 + length p"
  by (simp add: ip_frame_def)

lemma header_checksum: "ip_calculate_checksum (ip_bytes h) 20 = Some (the (ip_calculate_checksum (ip_bytes h) 20))"
  using ip_calculate_checksum_spec [of 20 "ip_bytes h"] by simp

lemma poke_exact: "length y = n \<Longrightarrow> poke 0 y (z @ r) = Some (y @ r)" if "length z = n"
  using that by (simp add: poke_def)

lemma poke_after: "length a = off \<Longrightarrow> length z = length y \<Longrightarrow> poke off y (a @ z @ r) = Some (a @ y @ r)"
  by (simp add: poke_def)

lemma frame_size:
  fixes len :: u32
  assumes "len = of_nat (length p)" "length p \<le> 1480"
  shows "unat len = length p" "unat (34 + len) = 34 + length p" "\<not> 20 + len > 1500" "unat (20 + len) = 20 + length p"
proof -
  show l: "unat len = length p" unfolding assms(1) by (rule unat_of_nat_id) (use assms(2) in simp)
  show "unat (34 + len) = 34 + length p" "unat (20 + len) = 20 + length p"
    using l assms(2) by (simp_all add: unat_add_nowrap)
  then show "\<not> 20 + len > 1500" using assms(2) by (simp add: word_less_nat_alt)
qed

lemma split_buffer:
  assumes "length x = 34 + n"
  obtains a b c where "x = a @ b @ c" "length a = 14" "length b = 20" "length c = n"
proof -
  have "x = take 14 x @ take 20 (drop 14 x) @ drop 20 (drop 14 x)" by (metis append_take_drop_id)
  then show thesis using that [of "take 14 x" "take 20 (drop 14 x)" "drop 20 (drop 14 x)"] assms by simp
qed

lemma arp_lookup_map:
  "arp_cache_lookup ip (Some (mac_of 0)) s = (case arp_map s ip of None \<Rightarrow> (-1, Some (mac_of 0)) | Some m \<Rightarrow> (0, Some m))"
  by (auto simp: arp_map_def arp_cache_lookup_def split: option.splits)

text \<open>The part of \<^verbatim>\<open>ip_output\<close> up to the choice of the hardware address.\<close>

lemma ip_output_build:
  assumes a: "net_kmalloc (34 + len) s = Some (tx, (set_heap h s)\<lparr>bufs := (bufs s)(tx := fresh_bytes s tx (34 + len))\<rparr>)" "tx \<noteq> 0"
    and len: "len = of_nat (length p)" "length p \<le> 1480" and act: "if_status 0 s = 0"
    and s3: "\<And>m. s3 m = (set_heap h s)\<lparr>bufs := (bufs s)(tx := ip_frame m proto dest p s), g_ip_packet_id := g_ip_packet_id s + 1\<rparr>"
  obtains m0 where "ip_output dest proto (Some (p @ y)) len s =
    (case (if dest = 0xFFFFFFFF \<or> dest = 0 then Some (mac_of 0xFF) else arp_map s dest) of
       Some m \<Rightarrow> do { (r, s4) \<leftarrow> net_driver_transmit (Some (ip_frame m proto dest p s)) (34 + len) (s3 m);
                    s5 \<leftarrow> net_kfree tx s4; Some (r, s5) }
     | None \<Rightarrow> do { (r1, s4) \<leftarrow> arp_retain_packet dest tx (34 + len) (s3 m0); (r2, s5) \<leftarrow> arp_request dest s4; Some (-11, s5) })"
proof -
  note z = frame_size [OF len]
  let ?x = "fresh_bytes s tx (34 + len)"
  let ?s1 = "(set_heap h s)\<lparr>bufs := (bufs s)(tx := ?x)\<rparr>"
  obtain a b c where x: "?x = a @ b @ c" "length a = 14" "length b = 20" "length c = length p"
    using split_buffer [of ?x "length p"] z(2) by auto
  obtain e where e: "eth_at ?x = Some e" using x by (simp add: eth_at_def)
  obtain i where i: "ip_at (drop 14 ?x) = Some i" using x by (simp add: ip_at_def)
  define m0 where "m0 = eth_dest_mac e"
  let ?e = "e\<lparr>ethertype := htons 0x0800, eth_src_mac := our_mac (mac_of 0) s\<rparr>"
  have o: "snd (net_get_interface_mac 0 old ?s1) = our_mac (mac_of 0) s"
    "snd (net_get_interface_ip 0 0 (?s1\<lparr>g_ip_packet_id := j\<rparr>)) = our_ip 0 s" for old j
    using act by (simp_all add: our_mac_def our_ip_def net_get_interface_mac_def net_get_interface_ip_def if_status_def)
  have hd: "i\<lparr>version_ihl := 0x45, tos := 0, total_len := htons (ucast (20 + len)), ip_id := htons (g_ip_packet_id s),
      flags_fragment := htons 0x4000, ttl := 64, protocol := proto, checksum := 0, src_ip := our_ip 0 s, dest_ip := dest\<rparr> =
    ip_head proto dest len s" by (cases i) (simp add: ip_head_def)
  let ?h = "with_checksum (ip_head proto dest len s)"
  have p1: "poke 0 (eth_bytes ?e) ?x = Some (eth_bytes ?e @ b @ c)" unfolding x(1) using x(2) by (intro poke_exact [where n = 14]) simp_all
  have p2: "poke 14 (ip_bytes ?h) (eth_bytes ?e @ b @ c) = Some (eth_bytes ?e @ ip_bytes ?h @ c)"
    using x(3) by (intro poke_after) simp_all
  have "poke 34 p ((eth_bytes ?e @ ip_bytes ?h) @ c @ []) = Some ((eth_bytes ?e @ ip_bytes ?h) @ p @ [])"
    using x(4) by (intro poke_after) simp_all
  then have p3: "poke 34 p (eth_bytes ?e @ ip_bytes ?h @ c) = Some (ip_frame m0 proto dest p s)"
    by (cases e) (simp add: ip_frame_def m0_def len(1))
  have pay: "(if len = 0 then Some [] else peek (unat len) (p @ y)) = Some p"
    using z(1) by (auto simp: peek_def)
  have p4: "poke 0 (mac_bytes m) (ip_frame m0 proto dest p s) = Some (ip_frame m proto dest p s)" for m
    unfolding ip_frame_def eth_bytes_def by (simp add: poke_exact)
  have lk: "arp_cache_lookup dest (Some (mac_of 0)) (s3 m0) = (case arp_map s dest of None \<Rightarrow> (-1, Some (mac_of 0)) | Some m \<Rightarrow> (0, Some m))"
    using arp_map_cong [of "s3 m0" s] by (simp add: arp_lookup_map s3)
  have sz: "14 + (20 + len) = 34 + len" by simp
  have upd: "put_buf tx (ip_frame m proto dest p s) (s3 m0) = s3 m" for m by (simp add: s3)
  have s3': "?s1\<lparr>g_ip_packet_id := g_ip_packet_id s + 1, bufs := (bufs ?s1)(tx := ip_frame m0 proto dest p s)\<rparr> = s3 m0" by (simp add: s3)
  have comp: "ip_compose dest proto (Some (p @ y)) len tx ?s1 = Some (s3 m0)"
  proof -
    define c0 where "c0 = the (ip_calculate_checksum (ip_bytes (ip_head proto dest len s)) 20)"
    have cs: "ip_calculate_checksum (ip_bytes (ip_head proto dest len s)) 20 = Some c0"
      using header_checksum by (simp add: c0_def)
    have wc: "(ip_head proto dest len s)\<lparr>checksum := c0\<rparr> = ?h" by (simp add: with_checksum_def c0_def)
    have b: "bufs ?s1 tx = ?x" "g_ip_packet_id ?s1 = g_ip_packet_id s" by simp_all
    show ?thesis
      unfolding ip_compose_def Let_def b e i o bind.bind_lunit hd cs wc pay p1 p2 p3 by (simp add: s3)
  qed
  have disp: "ip_dispatch m tx (34 + len) (s3 m0) =
    do { (r, s4) \<leftarrow> net_driver_transmit (Some (ip_frame m proto dest p s)) (34 + len) (s3 m); s5 \<leftarrow> net_kfree tx s4; Some (r, s5) }" for m
  proof -
    have "bufs (s3 m0) tx = ip_frame m0 proto dest p s" by (simp add: s3)
    then show ?thesis unfolding ip_dispatch_def by (simp only: p4 upd bind.bind_lunit)
  qed
  show thesis
    by (rule that [of m0])
      (use a z(3) in \<open>auto simp: ip_output_def Let_def sz comp disp lk split: option.split\<close>)
qed

definition bump :: "net \<Rightarrow> net" where
  "bump s = s\<lparr>g_ip_packet_id := g_ip_packet_id s + 1\<rparr>"

lemma bump_fields [simp]:
  "krn (bump s) = krn s" "net_cr3 (bump s) = net_cr3 s" "bufs (bump s) = bufs s" "sent (bump s) = sent s"
  "transmitter (bump s) = transmitter s" "ptrs (bump s) = ptrs s" "net_room k (bump s) = net_room k s"
  "g_net_interfaces (bump s) = g_net_interfaces s" "arp_nodes (bump s) = arp_nodes s" "g_arp_cache (bump s) = g_arp_cache s"
  "g_arp_pending_queue_head (bump s) = g_arp_pending_queue_head s" "socks (bump s) = socks s"
  "g_arp_victim_idx (bump s) = g_arp_victim_idx s" "g_bound_sockets_head (bump s) = g_bound_sockets_head s"
  by (simp_all add: bump_def transmitter_def ptrs_def net_room_def)

lemma tx_bump [simp]: "tx_sent xs (bump s) = tx_sent xs s" "tx_result x (bump s) = tx_result x s"
  by (simp_all add: tx_sent_def tx_result_def cong: option.case_cong)

lemma net_kmalloc_bump:
  assumes "net_kmalloc sz (bump s) = Some (p, (set_heap h (bump s))\<lparr>bufs := (bufs s)(p := fresh_bytes (bump s) p sz)\<rparr>)" "p \<noteq> 0"
  shows "net_kmalloc sz s = Some (p, (set_heap h s)\<lparr>bufs := (bufs s)(p := fresh_bytes s p sz)\<rparr>)"
proof -
  from assms obtain h' where k: "kmalloc (heap (krn s)) (net_cr3 s) (ucast sz) = Some (p, h')"
    and e: "(set_heap h' (bump s))\<lparr>bufs := (bufs s)(p := fresh_bytes (bump s) p sz)\<rparr> =
      (set_heap h (bump s))\<lparr>bufs := (bufs s)(p := fresh_bytes (bump s) p sz)\<rparr>"
    by (auto simp: net_kmalloc_def bind_eq_Some_conv Let_def split: if_splits)
  from arg_cong [OF e, of "\<lambda>s. heap (krn s)"] have "h' = h" by simp
  with k assms(2) show ?thesis by (simp add: net_kmalloc_def)
qed

text \<open>The hardware address a datagram is sent to.\<close>

definition next_hop :: "net \<Rightarrow> u32 \<Rightarrow> mac option" where
  "next_hop s dest = (if dest = 0xFFFFFFFF \<or> dest = 0 then Some (mac_of 0xFF) else arp_map s dest)"

lemma ip_output_sends:
  assumes room: "net_room k s" "round16 (34 + length p) \<le> k" and len: "len = of_nat (length p)" "length p \<le> 1480"
    and act: "if_status 0 s = 0" and hop: "next_hop s dest = Some m" and x: "x = ip_frame m proto dest p s"
  shows "\<exists>s'. ip_output dest proto (Some (p @ y)) len s = Some (tx_result x s, s') \<and> quiet (bump s) s' \<and> net_room k s' \<and>
    sent s' = tx_sent [x] s"
proof -
  note z = frame_size [OF len]
  have pos: "0 < 34 + len" using z(2) by (simp add: word_less_nat_alt)
  have r: "net_room k (bump s)" "round16 (unat (34 + len)) \<le> k" using room z(2) by simp_all
  from send_temp [OF r(1) pos r(2)] obtain tx h where
    a: "net_kmalloc (34 + len) (bump s) = Some (tx, (set_heap h (bump s))\<lparr>bufs := (bufs s)(tx := fresh_bytes (bump s) tx (34 + len))\<rparr>)"
      "tx \<noteq> 0" and
    b: "\<forall>x. length x = unat (34 + len) \<longrightarrow> (\<exists>s'. quiet (bump s) s' \<and> net_room k s' \<and> sent s' = tx_sent [x] s \<and>
      do { (r, t) \<leftarrow> net_driver_transmit (Some x) (34 + len) ((set_heap h (bump s))\<lparr>bufs := (bufs s)(tx := x)\<rparr>);
           u \<leftarrow> net_kfree tx t; Some (r, u) } = Some (tx_result x s, s'))" by auto
  let ?s3 = "\<lambda>m. (set_heap h s)\<lparr>bufs := (bufs s)(tx := ip_frame m proto dest p s), g_ip_packet_id := g_ip_packet_id s + 1\<rparr>"
  have s3: "(set_heap h s)\<lparr>bufs := (bufs s)(tx := x), g_ip_packet_id := g_ip_packet_id s + 1\<rparr> =
    (set_heap h (bump s))\<lparr>bufs := (bufs s)(tx := x)\<rparr>" by (cases s) (simp add: bump_def)
  from ip_output_build [OF net_kmalloc_bump [OF a] a(2) len act, of ?s3 proto dest y] obtain m0 where
    o: "ip_output dest proto (Some (p @ y)) len s = (case next_hop s dest of
       Some m \<Rightarrow> do { (r, s4) \<leftarrow> net_driver_transmit (Some (ip_frame m proto dest p s)) (34 + len) (?s3 m);
                    s5 \<leftarrow> net_kfree tx s4; Some (r, s5) }
     | None \<Rightarrow> do { (r1, s4) \<leftarrow> arp_retain_packet dest tx (34 + len) (?s3 m0); (r2, s5) \<leftarrow> arp_request dest s4; Some (-11, s5) })"
    unfolding next_hop_def by blast
  have "length x = unat (34 + len)" using z(2) x by simp
  from b [rule_format, OF this] show ?thesis unfolding o hop option.case x [symmetric] s3 by blast
qed

lemma pend_ok_grow:
  assumes "pend_ok s ns" "arp_nodes t = arp_nodes s" "g_arp_pending_queue_head t = g_arp_pending_queue_head s"
    "ptrs s \<subseteq> ptrs t" "\<forall>p\<in>ptrs s. bufs t p = bufs s p"
  shows "pend_ok t ns"
  using assms unfolding pend_ok_def by auto

lemma quiet_pend: "quiet s t \<Longrightarrow> pend_ok s ns \<Longrightarrow> pend_ok t ns"
  by (rule pend_ok_grow) (auto simp: quiet_fields)

lemma ip_output_waits:
  assumes room: "net_room k s" "round16 (34 + length p) + 160 \<le> k" and len: "len = of_nat (length p)" "length p \<le> 1480"
    and act: "if_status 0 s = 0" and hop: "next_hop s dest = None" and pend: "pend_ok s ns"
    and x: "x = arp_frame (mac_of 0xFF) (our_mac (mac_of 0) s) ARP_OP_REQUEST (our_mac (mac_of 0) s)
      (our_ip 0x10101010 s) (mac_of 0) dest"
  shows "\<exists>n t. ip_output dest proto (Some (p @ y)) len s = Some (-11, t) \<and> pend_ok t (n # ns) \<and> n \<notin> ptrs s \<and>
    pip t n = dest \<and> (\<forall>m. bound_frame m t n = ip_frame m proto dest p s) \<and>
    (\<forall>i\<in>set ns. pip t i = pip s i \<and> pdata t i = pdata s i \<and> bound_frame m' t i = bound_frame m' s i) \<and>
    pdata t n \<notin> ptrs s \<and> ptrs t = insert n (insert (pdata t n) (ptrs s)) \<and> sent t = tx_sent [x] s \<and>
    net_room (k - round16 (34 + length p) - 96) t \<and> arp_map t = arp_map s \<and> (\<forall>q\<in>ptrs s. bufs t q = bufs s q) \<and>
    transmitter t = transmitter s \<and> g_arp_cache t = g_arp_cache s \<and> g_arp_victim_idx t = g_arp_victim_idx s"
proof -
  note z = frame_size [OF len]
  have pos: "0 < 34 + len" using z(2) by (simp add: word_less_nat_alt)
  from net_kmalloc_spec [OF room(1) pos] room(2) z(2) obtain tx h where
    a: "net_kmalloc (34 + len) s = Some (tx, (set_heap h s)\<lparr>bufs := (bufs s)(tx := fresh_bytes s tx (34 + len))\<rparr>)" "tx \<noteq> 0" "tx \<notin> ptrs s"
      "net_room (k - round16 (34 + length p) - 32) ((set_heap h s)\<lparr>bufs := (bufs s)(tx := fresh_bytes s tx (34 + len))\<rparr>)"
      "ptrs ((set_heap h s)\<lparr>bufs := (bufs s)(tx := fresh_bytes s tx (34 + len))\<rparr>) = insert tx (ptrs s)" by auto
  let ?s3 = "\<lambda>m. (set_heap h s)\<lparr>bufs := (bufs s)(tx := ip_frame m proto dest p s), g_ip_packet_id := g_ip_packet_id s + 1\<rparr>"
  from ip_output_build [OF a(1,2) len act, of ?s3 proto dest y] obtain m0 where
    o: "ip_output dest proto (Some (p @ y)) len s =
      do { (r1, s4) \<leftarrow> arp_retain_packet dest tx (34 + len) (?s3 m0); (r2, s5) \<leftarrow> arp_request dest s4; Some (-11, s5) }"
    using hop by (auto simp: next_hop_def split: if_splits)
  let ?t = "?s3 m0"
  have t: "ptrs ?t = insert tx (ptrs s)" "net_room (k - round16 (34 + length p) - 32) ?t"
    using heap_cong [of ?t "(set_heap h s)\<lparr>bufs := (bufs s)(tx := fresh_bytes s tx (34 + len))\<rparr>"] a(4,5) by simp_all
  have bt: "\<forall>q\<in>ptrs s. bufs ?t q = bufs s q" using a(3) by auto
  have pt: "pend_ok ?t ns" by (rule pend_ok_grow [OF pend _ _ _ bt]) (simp_all add: t(1) subset_insertI)
  from pend have ns: "set ns \<subseteq> ptrs s" "pdata s ` set ns \<subseteq> ptrs s" by (auto simp: pend_ok_def)
  have d: "tx \<in> ptrs ?t" "tx \<notin> set ns" "tx \<notin> pdata ?t ` set ns" "14 \<le> 34 + len" "unat (34 + len) \<le> length (bufs ?t tx)"
    using t(1) ns a(3) z(2) by (auto simp: word_le_nat_alt)
  have "80 \<le> k - round16 (34 + length p) - 32" using room(2) by simp
  from arp_retain_spec [OF pt t(2) this a(2) d, of dest] obtain n u where
    u: "arp_retain_packet dest tx (34 + len) ?t = Some (0, u)" "pend_ok u (n # ns)" "n \<notin> ptrs ?t" "ptrs u = insert n (ptrs ?t)"
      "net_room (k - round16 (34 + length p) - 32 - 64) u" "sent u = sent ?t" "\<forall>p\<in>ptrs ?t. bufs u p = bufs ?t p"
      "pip u n = dest" "pdata u n = tx" "plen u n = 34 + len"
      "\<forall>x\<in>ptrs ?t. pdata u x = pdata ?t x \<and> plen u x = plen ?t x \<and> pip u x = pip ?t x" "arp_step ?t u" by blast
  note uf = arp_step_fields [OF u(12)]
  have xu: "x = arp_frame (mac_of 0xFF) (our_mac (mac_of 0) u) ARP_OP_REQUEST (our_mac (mac_of 0) u) (our_ip 0x10101010 u) (mac_of 0) dest"
    using our_cong [of u s] uf(1) by (simp add: x)
  have "48 \<le> k - round16 (34 + length p) - 32 - 64" using room(2) by simp
  from arp_request_spec [OF u(5) this xu] obtain v where
    v: "arp_request dest u = Some (tx_result x u, v)" "quiet u v" "net_room (k - round16 (34 + length p) - 32 - 64) v" "sent v = tx_sent [x] u" by blast
  note vf = quiet_fields [OF v(2)]
  have tr: "transmitter v = transmitter s" using vf(8) uf(3) by (simp add: transmitter_def)
  have "sent v = tx_sent [x] s" unfolding v(4) using tx_cong(2) [of u s] uf(3) u(6) by (simp add: transmitter_def)
  moreover have vp: "ptrs v = insert n (insert tx (ptrs s))" using vf(10) u(4) t(1) by simp
  moreover have bv: "\<forall>q\<in>insert tx (ptrs s). bufs v q = bufs ?t q" using vf(11) u(4,7) t(1) by simp
  moreover have "bound_frame m v n = ip_frame m proto dest p s" for m
  proof -
    have "bufs v tx = ip_frame m0 proto dest p s" using bv by simp
    then have "bound_frame m v n = take (34 + length p) (mac_bytes m @ drop 6 (ip_frame m0 proto dest p s))"
      using u(9,10) vf(4) z(2) by (simp add: bound_frame_def)
    then show ?thesis by (simp add: ip_frame_def eth_bytes_def)
  qed
  moreover have "pip v i = pip s i \<and> pdata v i = pdata s i \<and> bound_frame m' v i = bound_frame m' s i" if "i \<in> set ns" for i
  proof -
    have i: "i \<in> ptrs s" "pdata s i \<in> ptrs s" using that ns by auto
    then have "pip v i = pip s i" "pdata v i = pdata s i" "plen v i = plen s i" using u(11) t(1) vf(4) by simp_all
    moreover from this have "bufs v (pdata s i) = bufs s (pdata s i)" using bv bt i(2) by simp
    ultimately show ?thesis by (simp add: bound_frame_def)
  qed
  moreover have "arp_map v = arp_map s" "g_arp_cache v = g_arp_cache s" "g_arp_victim_idx v = g_arp_victim_idx s"
    using arp_map_cong [of v s] vf(2,3) uf(2,4) by simp_all
  moreover have "\<forall>q\<in>ptrs s. bufs v q = bufs s q" using bv bt by simp
  moreover have "pend_ok v (n # ns)" using v(2) u(2) by (rule quiet_pend)
  moreover have "ip_output dest proto (Some (p @ y)) len s = Some (-11, v)" unfolding o using u(1) v(1) by simp
  moreover have "n \<notin> ptrs s" "pip v n = dest" "pdata v n = tx" using u(3,8,9) t(1) vf(4) by simp_all
  ultimately show ?thesis using v(3) tr a(3) by (intro exI [of _ n] exI [of _ v]) (simp add: add.commute)
qed

section \<open>Reception of what was sent\<close>

lemma checksum_prefix:
  assumes "n \<le> length x" "n \<le> 131070"
  shows "ip_calculate_checksum (x @ y) n = ip_calculate_checksum x n"
  using assms ip_calculate_checksum_spec [of n "x @ y"] ip_calculate_checksum_spec [of n x] by simp

lemma with_checksum_verifies:
  assumes "checksum h = 0"
  shows "ip_calculate_checksum (ip_bytes (with_checksum h) @ y) 20 = Some 0"
proof -
  let ?a = "[version_ihl h, tos h] @ le16 (total_len h) @ le16 (ip_id h) @ le16 (flags_fragment h) @ [ttl h, protocol h]"
  let ?b = "le32 (src_ip h) @ le32 (dest_ip h)"
  let ?c = "the (ip_calculate_checksum (ip_bytes h) 20)"
  have z: "ip_bytes h = ?a @ [0, 0] @ ?b" using assms by (simp add: ip_bytes_def le16_def)
  have w: "ip_bytes (with_checksum h) = ?a @ le16 ?c @ ?b" by (simp add: ip_bytes_def with_checksum_def)
  have "ip_calculate_checksum (?a @ [0, 0] @ ?b) (length ?a + 2 + length ?b) = Some ?c"
    using header_checksum [of h] unfolding z by simp
  from checksum_verifies [OF _ _ this] have "ip_calculate_checksum (?a @ le16 ?c @ ?b) 20 = Some 0" by simp
  then show ?thesis using checksum_prefix [of 20 "ip_bytes (with_checksum h)" y] w by simp
qed

lemma unat_widen: "unat (ucast (w :: u16) :: u32) = unat w"
  using unsigned_less [of w, where 'a = nat] by (simp add: unsigned_ucast_eq take_bit_nat_eq_self)

lemma ip_input_accepts:
  assumes len: "len = of_nat (length p)" "length p \<le> 1480" and n: "20 + len \<le> n"
    and d: "our_ip 0 t = dest \<or> dest = 0xFFFFFFFF \<or> our_ip 0 t = 0"
  shows "ip_input udp tcp (Some (ip_bytes (with_checksum (ip_head proto dest len s)) @ p @ y)) n t =
    (if proto = IPPROTO_UDP then udp (Some (p @ y)) len (our_ip 0 s) t
     else if proto = IPPROTO_TCP then tcp (Some (p @ y)) len (our_ip 0 s) t
     else if proto = IPPROTO_ICMP then icmp_input (Some (p @ y)) len (our_ip 0 s) t
     else Some (-6, t))"
proof -
  note z = frame_size [OF len]
  let ?h = "with_checksum (ip_head proto dest len s)"
  have h: "version_ihl ?h = 0x45" "total_len ?h = htons (ucast (20 + len))" "protocol ?h = proto" "dest_ip ?h = dest" "src_ip ?h = our_ip 0 s"
    by (simp_all add: with_checksum_def ip_head_def)
  have c: "ip_calculate_checksum (ip_bytes ?h @ p @ y) 20 = Some 0" by (rule with_checksum_verifies) (simp add: ip_head_def)
  have u: "unat (ucast (20 + len) :: u16) = 20 + length p"
    using z(4) len(2) by (simp add: unsigned_ucast_eq take_bit_nat_eq_self)
  have t: "(ucast (ucast (20 + len) :: u16) :: u32) = 20 + len"
    unfolding word_unat_eq_iff z(4) unat_widen u ..
  have n20: "\<not> n < 20"
  proof -
    have "20 + length p \<le> unat n" using n z(4) by (simp add: word_le_nat_alt)
    then show ?thesis by (simp add: word_less_nat_alt)
  qed
  have tl: "\<not> (ucast (20 + len) :: u16) < 20" using u by (simp add: word_less_nat_alt)
  have v: "drop_bit 4 (0x45 :: u8) AND 0x0F = 4" "((0x45 :: u8) AND 0x0F) * 4 = 20" "(ucast (20 :: u8) :: u32) = 20" "(ucast (20 :: u8) :: u16) = 20" "unat (20 :: u8) = 20"
    by simp_all
  have my: "snd (net_get_interface_ip 0 0 t) = our_ip 0 t" by (simp add: our_ip_def)
  have nn: "\<not> n < 20 + len" using n by simp
  have dr: "drop 20 (ip_bytes ?h @ p @ y) = p @ y" "20 + len - 20 = len" by simp_all
  have flt: "\<not> (dest \<noteq> our_ip 0 t \<and> dest \<noteq> 0xFFFFFFFF \<and> our_ip 0 t \<noteq> 0)" using d by auto
  show ?thesis
    unfolding ip_input_def Let_def option.sel ip_at_bytes bind.bind_lunit h v c htons_htons t my dr
    by (simp only: n20 tl nn flt) simp
qed

section \<open>Echo\<close>

lemma ip_frame_cong:
  assumes "g_net_interfaces t = g_net_interfaces s" "g_ip_packet_id t = g_ip_packet_id s"
  shows "ip_frame m proto dest p t = ip_frame m proto dest p s"
  using our_cong [OF assms(1)] assms(2) by (simp add: ip_frame_def ip_head_def)

text \<open>The message \<open>x\<close> with type and code 0 and a checksum that verifies.\<close>

definition echo_reply :: "u8 list \<Rightarrow> u8 list" where
  "echo_reply x = [0, 0] @ le16 (the (ip_calculate_checksum ([0, 0, 0, 0] @ drop 4 x) (length x))) @ drop 4 x"

lemma echo_reply_length: "4 \<le> length x \<Longrightarrow> length (echo_reply x) = length x"
  by (simp add: echo_reply_def)

lemma echo_reply_checksum:
  assumes "4 \<le> length x" "length x \<le> 1480"
  shows "ip_calculate_checksum (echo_reply x) (length x) = Some 0"
    "ip_calculate_checksum ([0, 0, 0, 0] @ drop 4 x) (length x) =
       Some (the (ip_calculate_checksum ([0, 0, 0, 0] @ drop 4 x) (length x)))"
proof -
  show c: "ip_calculate_checksum ([0, 0, 0, 0] @ drop 4 x) (length x) =
       Some (the (ip_calculate_checksum ([0, 0, 0, 0] @ drop 4 x) (length x)))"
    using assms ip_calculate_checksum_spec [of "length x" "[0, 0, 0, 0] @ drop 4 x"] by simp
  have n: "length [0 :: u8, 0] + 2 + length (drop 4 x) = length x" using assms(1) by simp
  have "ip_calculate_checksum ([0, 0] @ [0, 0] @ drop 4 x) (length [0 :: u8, 0] + 2 + length (drop 4 x)) =
    Some (the (ip_calculate_checksum ([0, 0, 0, 0] @ drop 4 x) (length x)))" unfolding n using c by simp
  from checksum_verifies [OF _ _ this] assms show "ip_calculate_checksum (echo_reply x) (length x) = Some 0"
    unfolding n by (simp add: echo_reply_def)
qed

text \<open>
  A block that is allocated, filled, used to send something and released. What is sent may depend on
  the interface, the address cache, the driver and the sockets, which allocation does not touch.
\<close>

definition same_stack :: "net \<Rightarrow> net \<Rightarrow> bool" where
  "same_stack s t \<longleftrightarrow> g_net_interfaces t = g_net_interfaces s \<and> g_ip_packet_id t = g_ip_packet_id s \<and>
     transmitter t = transmitter s \<and> sent t = sent s \<and> g_arp_cache t = g_arp_cache s \<and> socks t = socks s"

lemma same_stackD:
  assumes "same_stack s t"
  shows "if_status 0 t = if_status 0 s" "next_hop t dest = next_hop s dest" "ip_frame m proto dest z t = ip_frame m proto dest z s"
    "tx_result f t = tx_result f s" "tx_sent fs t = tx_sent fs s" "socks t = socks s" "our_mac x t = our_mac x s"
proof -
  from assms have e: "g_net_interfaces t = g_net_interfaces s" "g_ip_packet_id t = g_ip_packet_id s" "transmitter t = transmitter s"
    "sent t = sent s" "g_arp_cache t = g_arp_cache s" "socks t = socks s" by (simp_all add: same_stack_def)
  show "if_status 0 t = if_status 0 s" using e(1) by (simp add: if_status_def)
  show "next_hop t dest = next_hop s dest" using arp_map_cong [OF e(5)] by (simp add: next_hop_def)
  show "ip_frame m proto dest z t = ip_frame m proto dest z s" by (rule ip_frame_cong [OF e(1,2)])
  show "tx_result f t = tx_result f s" "tx_sent fs t = tx_sent fs s" using tx_cong [OF e(3,4)] by blast+
  show "socks t = socks s" by fact
  show "our_mac x t = our_mac x s" using our_cong [OF e(1)] by blast
qed

lemma temp_block:
  assumes room: "net_room k s" "0 < sz" "round16 (unat sz) + 48 \<le> k"
    and body: "\<And>t. same_stack s t \<Longrightarrow> net_room (k - round16 (unat sz) - 32) t \<Longrightarrow>
      \<exists>u. f t = Some (r, u) \<and> quiet (bump t) u \<and> net_room j u \<and> sent u = w"
  shows "\<exists>p s1 s3 s4. net_kmalloc sz s = Some (p, s1) \<and> p \<noteq> 0 \<and> length (bufs s1 p) = unat sz \<and> same_stack s s1 \<and>
    f (put_buf p z s1) = Some (r, s3) \<and> net_kfree p s3 = Some s4 \<and> quiet (bump s) s4 \<and> net_room j s4 \<and> sent s4 = w"
proof -
  from net_kmalloc_spec [OF room] obtain p h s1 where
    s1: "s1 = (set_heap h s)\<lparr>bufs := (bufs s)(p := fresh_bytes s p sz)\<rparr>" and
    a: "net_kmalloc sz s = Some (p, s1)" "p \<noteq> 0" "p \<notin> ptrs s" "net_room (k - round16 (unat sz) - 32) s1"
      "ptrs s1 = insert p (ptrs s)" by auto
  let ?s2 = "put_buf p z s1"
  have r2: "net_room (k - round16 (unat sz) - 32) ?s2" "ptrs ?s2 = insert p (ptrs s)"
    using heap_cong [of ?s2 s1] a(4,5) by simp_all
  have e: "same_stack s ?s2" "same_stack s s1" by (simp_all add: same_stack_def s1 transmitter_def)
  from body [OF e(1) r2(1)] obtain s3 where
    s3: "f ?s2 = Some (r, s3)" "quiet (bump ?s2) s3" "net_room j s3" "sent s3 = w" by blast
  note qf = quiet_fields [OF s3(2)]
  have "p \<in> ptrs s3" using qf(10) r2(2) by simp
  from net_kfree_spec [OF s3(3) this] obtain h4 where
    s4: "net_kfree p s3 = Some (set_heap h4 s3)" "ptrs (set_heap h4 s3) = ptrs s3 - {p}" "net_room j (set_heap h4 s3)" by blast
  have "\<forall>q\<in>ptrs s. bufs s3 q = bufs s q"
  proof
    fix q assume "q \<in> ptrs s"
    moreover from this a(3) have "q \<noteq> p" by auto
    ultimately show "bufs s3 q = bufs s q" using qf(11) [of q] r2(2) by (simp add: s1)
  qed
  moreover from s3(2) obtain kr bb tt where "s3 = (bump ?s2)\<lparr>krn := (krn (bump ?s2))\<lparr>heap := kr\<rparr>, bufs := bb, sent := tt\<rparr>"
    unfolding quiet_def by blast
  then have "set_heap h4 s3 = (bump s)\<lparr>krn := (krn (bump s))\<lparr>heap := h4\<rparr>, bufs := bufs s3, sent := sent s3\<rparr>"
    by (simp add: s1 bump_def)
  ultimately have "quiet (bump s) (set_heap h4 s3)"
    using s4(2) qf(10) r2(2) a(3) unfolding quiet_def by simp
  moreover have "length (bufs s1 p) = unat sz" by (simp add: s1)
  ultimately show ?thesis using a(1,2) e(2) s3(1,4) s4(1,3)
    by (intro exI [of _ p] exI [of _ s1] exI [of _ s3] exI [of _ "set_heap h4 s3"]) simp
qed

lemma ip_send_temp:
  assumes room: "net_room k s" "round16 (length z) + round16 (34 + length z) + 48 \<le> k"
    and len: "len = of_nat (length z)" "0 < length z" "length z \<le> 1480"
    and act: "if_status 0 s = 0" and hop: "next_hop s dest = Some m" and f: "f = ip_frame m proto dest z s"
  shows "\<exists>p s1 s3 s4. net_kmalloc len s = Some (p, s1) \<and> p \<noteq> 0 \<and> length (bufs s1 p) = length z \<and> same_stack s s1 \<and>
    ip_output dest proto (Some z) len (put_buf p z s1) = Some (tx_result f s, s3) \<and> net_kfree p s3 = Some s4 \<and>
    quiet (bump s) s4 \<and> net_room (k - round16 (length z) - 32) s4 \<and> sent s4 = tx_sent [f] s"
proof -
  have u: "unat len = length z" unfolding len(1) by (rule unat_of_nat_id) (use len(3) in simp)
  have "\<exists>u. ip_output dest proto (Some z) len t = Some (tx_result f s, u) \<and> quiet (bump t) u \<and>
      net_room (k - round16 (length z) - 32) u \<and> sent u = tx_sent [f] s"
    if t: "same_stack s t" "net_room (k - round16 (length z) - 32) t" for t
    using ip_output_sends [OF t(2) _ len(1,3) _ _ refl, of dest m proto "[]"] room(2) act hop
    unfolding same_stackD [OF t(1)] f by simp
  from temp_block [OF room(1) _ _ this, of len z] u len(2) room(2) show ?thesis by (simp add: word_less_nat_alt)
qed

lemma icmp_echo_spec:
  assumes room: "net_room k s" "round16 (length x) + round16 (34 + length x) + 48 \<le> k"
    and len: "len = of_nat (length x)" "8 \<le> length x" "length x \<le> 1480" and ty: "x ! 0 = 8"
    and act: "if_status 0 s = 0" and hop: "next_hop s src = Some m" and f: "f = ip_frame m IPPROTO_ICMP src (echo_reply x) s"
  shows "\<exists>s'. icmp_input (Some (x @ y)) len src s = Some (tx_result f s, s') \<and> sent s' = tx_sent [f] s \<and> ptrs s' = ptrs s \<and>
    (\<forall>q\<in>ptrs s. bufs s' q = bufs s q)"
proof -
  have u: "unat len = length x" unfolding len(1) by (rule unat_of_nat_id) (use len(3) in simp)
  have pos: "\<not> len < 8" using u len(2) by (auto simp: word_less_nat_alt)
  have z: "length (echo_reply x) = length x" using len(2) by (simp add: echo_reply_length)
  then have z': "round16 (length (echo_reply x)) + round16 (34 + length (echo_reply x)) + 48 \<le> k" "len = of_nat (length (echo_reply x))"
    "0 < length (echo_reply x)" "length (echo_reply x) \<le> 1480" using len room(2) by auto
  from ip_send_temp [OF room(1) z' act hop f] obtain rb s1 s3 s4 where
    a: "net_kmalloc len s = Some (rb, s1)" "rb \<noteq> 0"
      "ip_output src IPPROTO_ICMP (Some (echo_reply x)) len (put_buf rb (echo_reply x) s1) = Some (tx_result f s, s3)"
      "net_kfree rb s3 = Some s4" "quiet (bump s) s4" "sent s4 = tx_sent [f] s" by blast
  have p8: "peek 8 (x @ y) = Some (take 8 x)" "take 8 x ! 0 = 8" "peek (length x) (x @ y) = Some x"
    using len(2) ty by (simp_all add: peek_def)
  have w: "poke 0 [0, 0, 0, 0] x = Some ([0, 0, 0, 0] @ drop 4 x)" using len(2) by (simp add: poke_def eval_nat_numeral)
  have "4 \<le> length x" using len(2) by simp
  from echo_reply_checksum(2) [OF this len(3)] obtain c where
    cs: "ip_calculate_checksum ([0, 0, 0, 0] @ drop 4 x) (length x) = Some c" by blast
  then have er: "echo_reply x = [0, 0] @ le16 c @ drop 4 x" by (simp add: echo_reply_def)
  have w2: "poke 2 (le16 c) ([0, 0, 0, 0] @ drop 4 x) = Some ([0, 0] @ le16 c @ drop 4 x)" for c
    using len(2) poke_after [of "[0, 0]" 2 "[0, 0]" "le16 c" "drop 4 x"] by simp
  have "icmp_input (Some (x @ y)) len src s = Some (tx_result f s, s4)"
    unfolding icmp_input_def option.sel u p8(1) bind.bind_lunit
    using pos p8 a(1-4) w cs w2 by (simp add: Let_def er)
  with a(6) quiet_fields(10,11) [OF a(5)] show ?thesis by auto
qed

section \<open>Properties\<close>

text \<open>C19: The checksum loop computes the Internet checksum. For up to 131070 bytes, where the 32-bit
  accumulator cannot overflow, \<^verbatim>\<open>ip_calculate_checksum\<close> terminates and equals the one's complement of the
  one's complement sum of the 16-bit words of the block, an odd last byte padded with zero.\<close>

theorem ip_checksum_is_rfc1071:
  assumes "n \<le> length x" "n \<le> 131070"
  shows "ip_calculate_checksum x n = Some (of_nat (65535 - ones_sum (sum_list (words16 (take n x)))))"
  by (rule ip_calculate_checksum_spec [OF assms])

text \<open>A stored checksum verifies. If the checksum of a block is computed with its checksum field zero,
  and stored in this field at an even offset, then the checksum of the block is zero, which is
  the test the receiver applies.\<close>

theorem ip_checksum_verifies:
  assumes "even (length x)" "length x + 2 + length y \<le> 131070"
    "ip_calculate_checksum (x @ [0, 0] @ y) (length x + 2 + length y) = Some c"
  shows "ip_calculate_checksum (x @ le16 c @ y) (length x + 2 + length y) = Some 0"
  by (rule checksum_verifies [OF assms])

text \<open>C20: A datagram to a known neighbour or to everyone leaves at once. With room in the heap and an active
  interface, \<^verbatim>\<open>ip_output\<close> of at most 1480 bytes hands the driver exactly one frame with the header of the
  code, its checksum and the payload, returns the driver's result, releases the frame and counts the
  identification field up.\<close>

theorem ip_output_sends_frame:
  assumes "net_room k s" "round16 (34 + length p) \<le> k" "length p \<le> 1480" "if_status 0 s = 0" "next_hop s dest = Some m"
  shows "\<exists>s'. ip_output dest proto (Some (p @ y)) (of_nat (length p)) s = Some (tx_result (ip_frame m proto dest p s) s, s') \<and>
    sent s' = tx_sent [ip_frame m proto dest p s] s \<and> ptrs s' = ptrs s \<and> g_ip_packet_id s' = g_ip_packet_id s + 1"
proof -
  from ip_output_sends [OF assms(1,2) refl assms(3-5) refl, of proto y] obtain s' where
    "ip_output dest proto (Some (p @ y)) (of_nat (length p)) s = Some (tx_result (ip_frame m proto dest p s) s, s')"
    "quiet (bump s) s'" "sent s' = tx_sent [ip_frame m proto dest p s] s" by blast
  moreover from this(2) have "ptrs s' = ptrs s" using quiet_fields(10) by fastforce
  moreover from calculation(2) have "g_ip_packet_id s' = g_ip_packet_id s + 1"
    using quiet_fields(9) [of "bump s" s'] by (simp add: bump_def)
  ultimately show ?thesis by blast
qed

text \<open>A datagram to an unknown neighbour leaves when the neighbour answers. \<^verbatim>\<open>ip_output\<close> then returns -11 after
  sending an ARP request; when the neighbour's reply arrives, \<^verbatim>\<open>arp_input\<close> sends the datagram with the
  hardware address of the reply, followed by the packets that were already waiting for this
  neighbour, and all blocks taken on the way are released.\<close>

theorem ip_output_sent_after_reply:
  assumes "net_room k s" "round16 (34 + length p) + 160 \<le> k" "length p \<le> 1480" "if_status 0 s = 0"
    and "next_hop s dest = None" "pend_ok s ns" "cache_ok s"
    and "arp_wf a" "opcode a = htons ARP_OP_REPLY" "arp_src_ip a = dest"
  shows "\<exists>t u. let hit = filter (\<lambda>n. pip s n = dest) ns in
    ip_output dest proto (Some (p @ y)) (of_nat (length p)) s = Some (-11, t) \<and>
    arp_input (Some (arp_bytes a)) 28 t = Some (-1, u) \<and>
    sent u = tx_sent (arp_frame (mac_of 0xFF) (our_mac (mac_of 0) s) ARP_OP_REQUEST (our_mac (mac_of 0) s)
        (our_ip 0x10101010 s) (mac_of 0) dest #
      ip_frame (arp_src_mac a) proto dest p s # map (bound_frame (arp_src_mac a) s) hit) s \<and>
    ptrs u = ptrs s - (set hit \<union> pdata s ` set hit)"
proof -
  let ?m = "arp_src_mac a"
  let ?x = "arp_frame (mac_of 0xFF) (our_mac (mac_of 0) s) ARP_OP_REQUEST (our_mac (mac_of 0) s) (our_ip 0x10101010 s) (mac_of 0) dest"
  let ?hit = "filter (\<lambda>n. pip s n = dest) ns"
  from ip_output_waits [OF assms(1,2) refl assms(3-6) refl, of proto y ?m] obtain n t where
    t: "ip_output dest proto (Some (p @ y)) (of_nat (length p)) s = Some (-11, t)" "pend_ok t (n # ns)" "n \<notin> ptrs s" "pip t n = dest"
      "\<forall>m. bound_frame m t n = ip_frame m proto dest p s" "pdata t n \<notin> ptrs s"
      "\<forall>i\<in>set ns. pip t i = pip s i \<and> pdata t i = pdata s i \<and> bound_frame ?m t i = bound_frame ?m s i"
      "ptrs t = insert n (insert (pdata t n) (ptrs s))" "sent t = tx_sent [?x] s"
      "net_room (k - round16 (34 + length p) - 96) t" "transmitter t = transmitter s"
      "g_arp_cache t = g_arp_cache s" "g_arp_victim_idx t = g_arp_victim_idx s" by blast
  let ?s1 = "arp_cache_insert dest ?m t"
  have h: "filter (\<lambda>i. pip t i = dest) (n # ns) = n # ?hit" using t(4,7) by (simp cong: filter_cong)
  have "pend_ok ?s1 (n # ns)" "net_room (k - round16 (34 + length p) - 96) ?s1" "n # ?hit = filter (\<lambda>i. pip ?s1 i = dest) (n # ns)"
    using t(2,10) h by simp_all
  from arp_flush_spec [OF this, of ?m] obtain u where
    u: "arp_flush_pending_packets dest ?m ?s1 = Some u" "ptrs u = ptrs t - (set (n # ?hit) \<union> pdata t ` set (n # ?hit))"
      "sent u = tx_sent (map (bound_frame ?m t) (n # ?hit)) t" by auto
  have "map (bound_frame ?m t) (n # ?hit) = ip_frame ?m proto dest p s # map (bound_frame ?m s) ?hit" using t(5,7) by simp
  then have "sent u = tx_sent (?x # ip_frame ?m proto dest p s # map (bound_frame ?m s) ?hit) s"
    unfolding u(3) using t(9,11) by (simp add: tx_sent_def)
  moreover have "pdata t ` set ?hit = pdata s ` set ?hit" using t(7) by (auto simp: image_iff)
  then have "ptrs u = ptrs s - (set ?hit \<union> pdata s ` set ?hit)" unfolding u(2) t(8) using t(3,6) by auto
  moreover have "arp_input (Some (arp_bytes a)) 28 t = Some (-1, u)"
    using arp_input_wf(2) [OF assms(8) _ refl assms(9), of 28 "[]" t] u(1) assms(10) by simp
  ultimately show ?thesis using t(1) by (auto simp: Let_def)
qed

text \<open>What one host sends another accepts. If \<^verbatim>\<open>ip_input\<close> gets the IP part of a frame built by \<^verbatim>\<open>ip_output\<close>,
  possibly with padding behind it, on a host with the destination address (or still without an
  address, or for a broadcast), the version, length and checksum tests succeed and the handler of the
  protocol gets exactly the payload, its length and the sender's address.\<close>

theorem ip_input_accepts_output:
  assumes "length p \<le> 1480" "20 + of_nat (length p) \<le> n" "our_ip 0 t = dest \<or> dest = 0xFFFFFFFF \<or> our_ip 0 t = 0"
  shows "ip_input udp tcp (Some (drop 14 (ip_frame m proto dest p s) @ y)) n t =
    (if proto = IPPROTO_UDP then udp (Some (p @ y)) (of_nat (length p)) (our_ip 0 s) t
     else if proto = IPPROTO_TCP then tcp (Some (p @ y)) (of_nat (length p)) (our_ip 0 s) t
     else if proto = IPPROTO_ICMP then icmp_input (Some (p @ y)) (of_nat (length p)) (our_ip 0 s) t
     else Some (-6, t))"
  using ip_input_accepts [OF refl assms, of udp tcp proto s y] by (simp add: ip_frame_def)

text \<open>A ping is answered. For an echo request of 8 to 1480 bytes from a known neighbour, \<^verbatim>\<open>icmp_input\<close> sends
  one frame whose payload is the request with type and code 0 and all bytes from the identifier on
  unchanged, and whose checksum verifies; all buffers are released.\<close>

theorem icmp_answers_echo:
  assumes "net_room k s" "round16 (length x) + round16 (34 + length x) + 48 \<le> k" "8 \<le> length x" "length x \<le> 1480"
    "x ! 0 = 8" "if_status 0 s = 0" "next_hop s src = Some m"
  shows "\<exists>c s'. icmp_input (Some (x @ y)) (of_nat (length x)) src s =
      Some (tx_result (ip_frame m IPPROTO_ICMP src ([0, 0] @ le16 c @ drop 4 x) s) s, s') \<and>
    sent s' = tx_sent [ip_frame m IPPROTO_ICMP src ([0, 0] @ le16 c @ drop 4 x) s] s \<and>
    ip_calculate_checksum ([0, 0] @ le16 c @ drop 4 x) (length x) = Some 0 \<and> ptrs s' = ptrs s"
proof -
  have "4 \<le> length x" using assms(3) by simp
  from echo_reply_checksum(1) [OF this assms(4)] icmp_echo_spec [OF assms(1,2) refl assms(3-7) refl, of y] show ?thesis
    unfolding echo_reply_def by blast
qed

text \<open>The MTU test can be passed by a length that wraps around. For a payload of 1481 bytes or more
  \<^verbatim>\<open>ip_output\<close> refuses with code -2 and no effect, unless the length is among the twenty largest 32-bit
  values: then the sum with the header length wraps around, the test succeeds, and writing the header
  leaves the bounds of the frame.\<close>

theorem ip_output_length_wraps:
  assumes "net_room k s" "112 \<le> k"
  shows "(1480 < unat len \<and> unat len < 2 ^ 32 - 20 \<longrightarrow> ip_output dest proto (Some x) len s = Some (-2, s)) \<and>
    (2 ^ 32 - 20 \<le> unat len \<longrightarrow> ip_output dest proto (Some x) len s = None)"
proof (intro conjI impI)
  assume l: "1480 < unat len \<and> unat len < 2 ^ 32 - 20"
  then have "unat (20 + len) = 20 + unat len" by (subst unat_add_nowrap) simp_all
  then have "20 + len > 1500" using l by (simp add: word_less_nat_alt)
  then show "ip_output dest proto (Some x) len s = Some (-2, s)" by (simp add: ip_output_def Let_def)
next
  assume l: "2 ^ 32 - 20 \<le> unat len"
  define i where "i = unat len - (2 ^ 32 - 20)"
  have i: "i < 20" "len = of_nat (2 ^ 32 - 20 + i)"
    using l unsigned_less [of len, where 'a = nat] by (simp_all add: i_def)
  have n: "20 + len = of_nat i" unfolding i(2) by simp
  have t: "unat (14 + (20 + len)) = 14 + i" "\<not> 20 + len > 1500" "0 < 14 + (20 + len)"
    unfolding n using i(1) by (simp_all add: unat_add_nowrap unat_of_nat_id word_less_nat_alt)
  have "round16 (unat (14 + (20 + len))) + 48 \<le> k" unfolding t(1) using round16_bounds(2) [of "14 + i"] i(1) assms(2) by simp
  from net_kmalloc_spec [OF assms(1) t(3) this] obtain tx h where
    a: "net_kmalloc (14 + (20 + len)) s = Some (tx, (set_heap h s)\<lparr>bufs := (bufs s)(tx := fresh_bytes s tx (14 + (20 + len)))\<rparr>)" "tx \<noteq> 0" by blast
  let ?s1 = "(set_heap h s)\<lparr>bufs := (bufs s)(tx := fresh_bytes s tx (14 + (20 + len)))\<rparr>"
  have "ip_at (drop 14 (bufs ?s1 tx)) = None" using t(1) i(1) by (simp add: ip_at_def)
  then have "ip_compose dest proto (Some x) len tx ?s1 = None" by (auto simp: ip_compose_def Let_def bind_eq_None_conv)
  then show "ip_output dest proto (Some x) len s = None" using t(2) a by (simp add: ip_output_def Let_def)
qed

section \<open>Examples\<close>

definition net_known :: net where
  "net_known = arp_cache_insert 0x0902000A mac_demo net_demo"

lemma known_facts: "net_room 3968 net_known" "if_status 0 net_known = 0" "next_hop net_known 0x0902000A = Some mac_demo"
  "tx_sent xs net_known = xs" "tx_result x net_known = 0" "sent net_known = []"
  using net_demo_room demo_our(3) demo_tx arp_cache_insert_spec(2) [OF demo_cache]
  by (simp_all add: net_known_def next_hop_def)

theorem ip_checksum_is_rfc1071_witness:
  "ip_calculate_checksum [1, 2, 3] 3 = Some 0xFDFB"
  using ip_checksum_is_rfc1071 [of 3 "[1, 2, 3]"] by (simp add: ones_sum_def)

theorem ip_checksum_verifies_witness:
  "ip_calculate_checksum ([1, 2] @ le16 0xFDFB @ [3]) 5 = Some 0"
proof -
  have "ip_calculate_checksum ([1, 2] @ [0, 0] @ [3]) 5 = Some 0xFDFB"
    using ip_calculate_checksum_spec [of 5 "[1, 2, 0, 0, 3]"] by (simp add: ones_sum_def)
  moreover have "length [1 :: u8, 2] + 2 + length [3 :: u8] = 5" by simp
  ultimately show ?thesis using ip_checksum_verifies [of "[1, 2]" "[3]" "0xFDFB"] by (simp only:) simp
qed

theorem ip_output_sends_frame_witness:
  "\<exists>s'. ip_output 0x0902000A 17 (Some ([1, 2, 3] @ [])) (of_nat (length [1 :: u8, 2, 3])) net_known = Some (0, s') \<and>
     sent s' = [ip_frame mac_demo 17 0x0902000A [1, 2, 3] net_known]"
proof -
  have "round16 (34 + length [1 :: u8, 2, 3]) \<le> 3968" by (simp add: round16_def)
  from ip_output_sends_frame [OF known_facts(1) this _ known_facts(2,3), of 17 "[]"] show ?thesis
    unfolding known_facts(4,5) by auto
qed

theorem ip_output_sent_after_reply_witness:
  "\<exists>t u. ip_output 0x0902000A 17 (Some ([1, 2, 3] @ [])) (of_nat (length [1 :: u8, 2, 3])) net_demo = Some (-11, t) \<and>
     arp_input (Some (arp_bytes (arp_demo 2))) 28 t = Some (-1, u) \<and>
     sent u = [arp_frame (mac_of 0xFF) (Mac 2 0 0 0 0 1) 1 (Mac 2 0 0 0 0 1) 0x0F02000A (mac_of 0) 0x0902000A,
       ip_frame mac_demo 17 0x0902000A [1, 2, 3] net_demo]"
proof -
  have r: "round16 (34 + length [1 :: u8, 2, 3]) + 160 \<le> 3968" by (simp add: round16_def)
  have h: "next_hop net_demo 0x0902000A = None" by (simp add: next_hop_def arp_map_None net_demo_def holds_def)
  have a: "opcode (arp_demo 2) = htons ARP_OP_REPLY" "arp_src_ip (arp_demo 2) = 0x0902000A" "arp_src_mac (arp_demo 2) = mac_demo"
    by (simp_all add: arp_demo_def)
  from ip_output_sent_after_reply [OF net_demo_room r _ demo_our(3) h demo_pend demo_cache demo_arp_wf a(1,2), of 17 "[]"]
  show ?thesis unfolding demo_tx(3) demo_our a(3) by (auto simp: Let_def)
qed

theorem ip_input_accepts_output_witness:
  "ip_input (\<lambda>d n src s. if d = Some [7, 8, 9] \<and> n = 3 \<and> src = 0x0F02000A then Some (1, s) else None) (\<lambda>_ _ _ _. None)
     (Some (drop 14 (ip_frame mac_demo 17 0xFFFFFFFF [7, 8, 9] net_demo) @ [])) 23 net_demo = Some (1, net_demo)"
  using ip_input_accepts_output [of "[7, 8, 9]" 23 net_demo "0xFFFFFFFF" _ "\<lambda>_ _ _ _. None" mac_demo 17 net_demo "[]"] by (simp add: demo_our)

theorem icmp_answers_echo_witness:
  "\<exists>c s'. icmp_input (Some ([8, 0, 1, 2, 3, 4, 5, 6, 7] @ [])) (of_nat (length [8 :: u8, 0, 1, 2, 3, 4, 5, 6, 7])) 0x0902000A net_known = Some (0, s') \<and>
     sent s' = [ip_frame mac_demo 1 0x0902000A ([0, 0] @ le16 c @ [3, 4, 5, 6, 7]) net_known]"
proof -
  let ?x = "[8 :: u8, 0, 1, 2, 3, 4, 5, 6, 7]"
  have "round16 (length ?x) + round16 (34 + length ?x) + 48 \<le> 3968" by (simp add: round16_def)
  from icmp_answers_echo [OF known_facts(1) this _ _ _ known_facts(2,3), of "[]"] show ?thesis
    unfolding known_facts(4,5) by auto
qed

theorem ip_output_length_wraps_witness:
  "ip_output 5 17 (Some [1]) 0xFFFFFFF0 net_demo = None \<and> ip_output 5 17 (Some [1]) 2000 net_demo = Some (-2, net_demo)"
  using ip_output_length_wraps [OF net_demo_room, of "0xFFFFFFF0" 5 17 "[1]"] ip_output_length_wraps [OF net_demo_room, of 2000 5 17 "[1]"]
  by simp

end
