(* ===== verification/Sock.thy ===== *)
theory Sock
  imports Ip
begin

text \<open>
  The sockets: \<^verbatim>\<open>src/kernel/kernel/net/socket.c\<close> without its system calls. Sockets are objects at an
  address (\<open>socks\<close>); those with a local address are linked by \<open>global_next\<close> from \<open>g_bound_sockets_head\<close>.
  An address that the caller passes must have at least the length that is passed with it, otherwise
  the operation is \<open>None\<close>. The list lock is held for the whole of an operation.
\<close>

abbreviation AF_UNSPEC :: int where "AF_UNSPEC \<equiv> 0"
abbreviation AF_LOCAL :: int where "AF_LOCAL \<equiv> 1"
abbreviation AF_INET :: int where "AF_INET \<equiv> 2"
abbreviation PF_PACKET :: int where "PF_PACKET \<equiv> 4"
abbreviation SOCK_STREAM :: int where "SOCK_STREAM \<equiv> 1"
abbreviation SOCK_DGRAM :: int where "SOCK_DGRAM \<equiv> 2"
abbreviation SOCKET_BUFFER_SIZE :: u32 where "SOCKET_BUFFER_SIZE \<equiv> 16384"
abbreviation EPHEMERAL_PORT_START :: nat where "EPHEMERAL_PORT_START \<equiv> 32768"
abbreviation EPHEMERAL_PORT_END :: nat where "EPHEMERAL_PORT_END \<equiv> 61000"
abbreviation SIZEOF_SOCKET :: u32 where "SIZEOF_SOCKET \<equiv> 640"

section \<open>Operations\<close>

abbreviation upd_sock :: "u64 \<Rightarrow> (socket \<Rightarrow> socket) \<Rightarrow> net \<Rightarrow> net" where
  "upd_sock k f s \<equiv> s\<lparr>socks := (socks s)(k := f (socks s k))\<rparr>"

text \<open>The Internet address that is overlaid on the two address fields.\<close>

definition sock_port :: "socket \<Rightarrow> u16" where "sock_port k = rd16 (local_addr k) 2"
definition sock_ip :: "socket \<Rightarrow> u32" where "sock_ip k = rd32 (local_addr k) 4"
definition peer_port :: "socket \<Rightarrow> u16" where "peer_port k = rd16 (remote_addr k) 2"
definition peer_ip :: "socket \<Rightarrow> u32" where "peer_ip k = rd32 (remote_addr k) 4"

definition init_socket :: "net \<Rightarrow> net" where
  "init_socket s = s\<lparr>g_bound_sockets_head := 0\<rparr>"

text \<open>The walk along the list of bound sockets up to the first one with a property; 0 when there is none.\<close>

partial_function (option) sock_search :: "(u64 \<Rightarrow> socket) \<Rightarrow> (socket \<Rightarrow> bool) \<Rightarrow> u64 \<Rightarrow> u64 option" where
  "sock_search ss P check =
     (if check = 0 then Some 0
      else if P (ss check) then Some check
      else sock_search ss P (global_next (ss check)))"

definition net_port :: "nat \<Rightarrow> u16" where
  "net_port i = (let port = of_nat i :: u32 in ucast (push_bit 8 (port AND 0xFF) OR drop_bit 8 (port AND 0xFF00)))"

text \<open>The loop over the ephemeral ports: the first one that no socket uses.\<close>

fun pick_port :: "(u16 \<Rightarrow> u64 option) \<Rightarrow> nat list \<Rightarrow> u16 option option" where
  "pick_port user [] = Some None"
| "pick_port user (i # is) =
     do { k \<leftarrow> user (net_port i); if k = 0 then Some (Some (net_port i)) else pick_port user is }"

definition ephemeral_ports :: "nat list" where
  "ephemeral_ports = [EPHEMERAL_PORT_START..<Suc EPHEMERAL_PORT_END]"

definition uses_port :: "int \<Rightarrow> u16 \<Rightarrow> socket \<Rightarrow> bool" where
  "uses_port ty port k \<longleftrightarrow> family k = AF_INET \<and> s_type k = ty \<and> 16 \<le> local_addr_len k \<and> sock_port k = port"

definition clashes :: "u16 \<Rightarrow> u32 \<Rightarrow> socket \<Rightarrow> bool" where
  "clashes port ip k \<longleftrightarrow> family k = AF_INET \<and> 16 \<le> local_addr_len k \<and> sock_port k = port \<and>
     (sock_ip k = ip \<or> sock_ip k = 0 \<or> ip = 0)"

definition same_addr :: "int \<Rightarrow> u64 \<Rightarrow> u8 list \<Rightarrow> socket \<Rightarrow> bool" where
  "same_addr fam addrlen x k \<longleftrightarrow> family k = fam \<and> local_addr_len k = addrlen \<and>
     take (unat addrlen) (local_addr k) = take (unat addrlen) x"

text \<open>Storing the local address in the socket and linking it at the head of the list.\<close>

definition set_local :: "u64 \<Rightarrow> u8 list \<Rightarrow> net \<Rightarrow> net option" where
  "set_local sk x s =
     do {
       y \<leftarrow> poke 0 x (local_addr (socks s sk));
       let s1 = upd_sock sk (\<lambda>k. k\<lparr>local_addr := y, local_addr_len := of_nat (length x)\<rparr>) s;
       let s2 = upd_sock sk (global_next_update (\<lambda>_. g_bound_sockets_head s1)) s1;
       Some (s2\<lparr>g_bound_sockets_head := sk\<rparr>)
     }"

definition bind_inet :: "u64 \<Rightarrow> sockaddr_in \<Rightarrow> net \<Rightarrow> (int \<times> net) option" where
  "bind_inet sk sin s =
     do {
       p \<leftarrow> (if sin_port sin = 0
             then pick_port (\<lambda>port. sock_search (socks s) (uses_port (s_type (socks s sk)) port) (g_bound_sockets_head s))
                    ephemeral_ports
             else Some (Some (sin_port sin)));
       (case p of None \<Rightarrow> Some (-2, s)
        | Some port \<Rightarrow> do {
            let sin = sin\<lparr>sin_port := port\<rparr>;
            k \<leftarrow> sock_search (socks s) (clashes port (s_addr sin)) (g_bound_sockets_head s);
            if k \<noteq> 0 then Some (-2, s)
            else do { s1 \<leftarrow> set_local sk (sin_bytes sin) s; Some (0, s1) }
          })
     }"

definition socket_bind_address :: "u64 \<Rightarrow> u8 list option \<Rightarrow> u64 \<Rightarrow> net \<Rightarrow> (int \<times> net) option" where
  "socket_bind_address sk addr addrlen s =
     (if sk = 0 then Some (-9, s)
      else if addr = None then Some (-14, s)
      else if addrlen = 0 \<or> addrlen > 256 then Some (-22, s)
      else if local_addr_len (socks s sk) \<noteq> 0 then Some (-22, s)
      else if family (socks s sk) = AF_INET then
        (if addrlen < 16 then Some (-22, s)
         else do { sin \<leftarrow> sin_at (the addr); bind_inet sk sin s })
      else do {
        x \<leftarrow> peek (unat addrlen) (the addr);
        k \<leftarrow> sock_search (socks s) (same_addr (family (socks s sk)) addrlen x) (g_bound_sockets_head s);
        if k \<noteq> 0 then Some (-2, s)
        else do { s1 \<leftarrow> set_local sk x s; Some (0, s1) }
      })"

definition socket_find_by_address :: "u8 list option \<Rightarrow> u64 \<Rightarrow> int \<Rightarrow> net \<Rightarrow> u64 option" where
  "socket_find_by_address addr addrlen fam s =
     (if addr = None \<or> addrlen = 0 \<or> addrlen > 256 then Some 0
      else do {
        x \<leftarrow> peek (unat addrlen) (the addr);
        sock_search (socks s) (same_addr fam addrlen x) (g_bound_sockets_head s)
      })"

definition on_port :: "int \<Rightarrow> u16 \<Rightarrow> socket \<Rightarrow> bool" where
  "on_port ty port k \<longleftrightarrow> family k = AF_INET \<and> s_type k = ty \<and> sock_port k = port"

definition socket_find_by_port :: "u16 \<Rightarrow> int \<Rightarrow> net \<Rightarrow> u64 option" where
  "socket_find_by_port port ty s = sock_search (socks s) (on_port ty port) (g_bound_sockets_head s)"

record tcp_header =
  tcp_src_port :: u16
  tcp_dest_port :: u16
  seq_num :: u32
  ack_num :: u32
  data_offset_flags :: u16
  window_size :: u16
  tcp_checksum :: u16
  urgent_ptr :: u16

partial_function (option) tcp_lookup_loop :: "(u64 \<Rightarrow> socket) \<Rightarrow> u32 \<Rightarrow> tcp_header \<Rightarrow> u64 \<Rightarrow> u64 \<Rightarrow> u64 option" where
  "tcp_lookup_loop ss src tcp k listen_fallback =
     (if k = 0 then Some listen_fallback
      else if on_port SOCK_STREAM (tcp_dest_port tcp) (ss k) then
        (if s_state (ss k) \<noteq> TCP_STATE_LISTEN then
           (if peer_port (ss k) = tcp_src_port tcp \<and> peer_ip (ss k) = src then Some k
            else tcp_lookup_loop ss src tcp (global_next (ss k)) listen_fallback)
         else tcp_lookup_loop ss src tcp (global_next (ss k)) k)
      else tcp_lookup_loop ss src tcp (global_next (ss k)) listen_fallback)"

definition tcp_input_lookup :: "u32 \<Rightarrow> tcp_header \<Rightarrow> net \<Rightarrow> u64 option" where
  "tcp_input_lookup src tcp s = tcp_lookup_loop (socks s) src tcp (g_bound_sockets_head s) 0"

definition socket_add_listen_queue :: "u64 \<Rightarrow> u64 \<Rightarrow> net \<Rightarrow> int \<times> net" where
  "socket_add_listen_queue server client s =
     (if server = 0 \<or> client = 0 then (-1, s)
      else if s_state (socks s server) \<noteq> TCP_STATE_LISTEN \<or> s_next (socks s client) \<noteq> 0 then (-1, s)
      else let s1 = upd_sock client (s_next_update (\<lambda>_. listen_queue (socks s server))) s in
        (0, upd_sock server (listen_queue_update (\<lambda>_. client)) s1))"

text \<open>Creation and release. The fresh structure is set to zero; its fields that stay zero are those of \<open>sock0\<close>.\<close>

definition family_ops :: "int \<Rightarrow> protocol_operations option" where
  "family_ops fam = (if fam = AF_LOCAL then Some g_af_local_ops else if fam = AF_INET then Some g_af_inet_ops
     else if fam = PF_PACKET then Some g_pf_packet_ops else None)"

definition socket_create :: "int \<Rightarrow> int \<Rightarrow> int \<Rightarrow> net \<Rightarrow> (u64 \<times> net) option" where
  "socket_create fam ty proto s =
     (if fam < AF_UNSPEC \<or> fam > PF_PACKET then Some (0, s)
      else do {
        (sk, s1) \<leftarrow> net_kmalloc SIZEOF_SOCKET s;
        if sk = 0 then Some (0, s1)
        else do {
          let s2 = upd_sock sk (\<lambda>_. sock0\<lparr>family := fam, s_type := ty, proto_ops := family_ops fam\<rparr>) s1;
          (rx, s3) \<leftarrow> net_kmalloc SOCKET_BUFFER_SIZE s2;
          let s4 = upd_sock sk (\<lambda>k. k\<lparr>rx_buffer := rx, tx_buffer := 0\<rparr>) s3;
          if rx = 0 then do { s5 \<leftarrow> net_kfree sk s4; Some (0, s5) }
          else Some (sk, s4)
        }
      })"

partial_function (option) sock_prev :: "(u64 \<Rightarrow> socket) \<Rightarrow> u64 \<Rightarrow> u64 \<Rightarrow> u64 \<Rightarrow> (bool \<times> u64) option" where
  "sock_prev ss sk prev k =
     (if k = 0 then Some (False, prev)
      else if k = sk then Some (True, prev)
      else sock_prev ss sk k (global_next (ss k)))"

definition socket_unlink :: "u64 \<Rightarrow> net \<Rightarrow> net option" where
  "socket_unlink sk s =
     do {
       (found, prev) \<leftarrow> sock_prev (socks s) sk 0 (g_bound_sockets_head s);
       Some (if found
         then let s1 = (if prev = 0 then s\<lparr>g_bound_sockets_head := global_next (socks s sk)\<rparr>
                        else upd_sock prev (global_next_update (\<lambda>_. global_next (socks s sk))) s) in
              upd_sock sk (global_next_update (\<lambda>_. 0)) s1
         else s)
     }"

definition kfree_nonnull :: "u64 \<Rightarrow> net \<Rightarrow> net option" where
  "kfree_nonnull p s = (if p \<noteq> 0 then net_kfree p s else Some s)"

definition socket_close :: "u64 \<Rightarrow> net \<Rightarrow> (int \<times> net) option" where
  "socket_close sk s =
     (if sk = 0 then Some (-1, s)
      else do {
        s1 \<leftarrow> socket_unlink sk s;
        let other = peer (socks s1 sk);
        let s2 = (if other \<noteq> 0 then upd_sock other (\<lambda>k. k\<lparr>s_state := TCP_STATE_CLOSED, peer := 0\<rparr>) s1 else s1);
        s3 \<leftarrow> kfree_nonnull (rx_buffer (socks s2 sk)) s2;
        s4 \<leftarrow> kfree_nonnull (tx_buffer (socks s3 sk)) s3;
        s5 \<leftarrow> net_kfree sk s4;
        Some (0, s5)
      })"

text \<open>Choosing an ephemeral port for a socket that sends or connects without being bound.\<close>

definition socket_auto_bind_inet :: "u64 \<Rightarrow> net \<Rightarrow> (int \<times> net) option" where
  "socket_auto_bind_inet sk s =
     do {
       let k = socks s sk;
       sin0 \<leftarrow> (if 16 \<le> local_addr_len k then sin_at (local_addr k)
                else Some \<lparr>sin_family = 0, sin_port = 0, s_addr = 0, sin_zero = replicate 8 0\<rparr>);
       let auto_sin = sin0\<lparr>sin_family := 2\<rparr>;
       p \<leftarrow> pick_port (\<lambda>port. sock_search (socks s) (on_port (s_type k) port) (g_bound_sockets_head s)) ephemeral_ports;
       (case p of None \<Rightarrow> Some (-2, s)
        | Some port \<Rightarrow> do { s1 \<leftarrow> set_local sk (sin_bytes (auto_sin\<lparr>sin_port := port\<rparr>)) s; Some (0, s1) })
     }"

definition af_inet_bind :: "u64 \<Rightarrow> u8 list option \<Rightarrow> u64 \<Rightarrow> net \<Rightarrow> (int \<times> net) option" where
  "af_inet_bind sk addr addrlen s =
     (if sk = 0 \<or> addr = None \<or> addrlen < 16 then Some (-1, s)
      else do {
        sin \<leftarrow> sin_at (the addr);
        if sin_family sin \<noteq> 2 then Some (-2, s)
        else socket_bind_address sk addr 16 s
      })"

text \<open>The guard in \<^verbatim>\<open>connect\<close>, \<^verbatim>\<open>sendto\<close> and \<^verbatim>\<open>socket_vfs_write\<close>.\<close>

definition ensure_bound :: "u64 \<Rightarrow> net \<Rightarrow> (int \<times> net) option" where
  "ensure_bound sk s =
     (let k = socks s sk in
      if family k = AF_INET \<and> (local_addr_len k = 0 \<or> sock_port k = 0)
      then do { (r, s1) \<leftarrow> socket_auto_bind_inet sk s; Some (if r < 0 then -2 else 0, s1) }
      else Some (0, s))"

section \<open>The list of bound sockets\<close>

text \<open>Two Internet sockets of one type with one port have different addresses, and neither listens on all.\<close>

definition apart :: "socket \<Rightarrow> socket \<Rightarrow> bool" where
  "apart a b \<longleftrightarrow> (family a = AF_INET \<and> family b = AF_INET \<and> s_type a = s_type b \<and> sock_port a = sock_port b \<longrightarrow>
     sock_ip a \<noteq> sock_ip b \<and> sock_ip a \<noteq> 0 \<and> sock_ip b \<noteq> 0)"

definition bound_ok :: "net \<Rightarrow> u64 list \<Rightarrow> bool" where
  "bound_ok s ks \<longleftrightarrow> chain (\<lambda>k. global_next (socks s k)) (g_bound_sockets_head s) ks \<and>
     (\<forall>k\<in>set ks. local_addr_len (socks s k) \<noteq> 0 \<and>
        (family (socks s k) = AF_INET \<longrightarrow> local_addr_len (socks s k) = 16 \<and> sock_port (socks s k) \<noteq> 0)) \<and>
     (\<forall>a\<in>set ks. \<forall>b\<in>set ks. a \<noteq> b \<longrightarrow> apart (socks s a) (socks s b))"

lemma sock_search_chain:
  "chain (\<lambda>k. global_next (ss k)) h ks \<Longrightarrow>
   sock_search ss P h = Some (case List.find (\<lambda>k. P (ss k)) ks of None \<Rightarrow> 0 | Some k \<Rightarrow> k)"
  by (induction ks arbitrary: h) (simp_all add: sock_search.simps)

lemma search_hit:
  assumes "chain n h ks"
  shows "(case List.find P ks of None \<Rightarrow> 0 | Some k \<Rightarrow> k) = 0 \<longleftrightarrow> (\<forall>k\<in>set ks. \<not> P k)"
proof (cases "List.find P ks")
  case (Some k)
  then have "k \<in> set ks" "P k" by (auto simp: find_Some_iff)
  then show ?thesis using Some chain_nonzero [OF assms] by auto
next
  case None
  then show ?thesis by (auto dest: find_None_iff [THEN iffD1])
qed

lemma pick_port_first:
  "(\<And>p. user p \<noteq> None) \<Longrightarrow> pick_port user is = Some (map_option net_port (List.find (\<lambda>i. user (net_port i) = Some 0) is))"
proof (induction "is")
  case (Cons i "is")
  then obtain k where "user (net_port i) = Some k" by blast
  with Cons show ?case by auto
qed simp

lemma in_ephemeral: "i \<in> set ephemeral_ports \<longleftrightarrow> 32768 \<le> i \<and> i \<le> 61000"
  unfolding ephemeral_ports_def set_upt atLeastLessThan_iff by auto

lemma net_port_nonzero:
  assumes "i \<in> set ephemeral_ports"
  shows "net_port i \<noteq> 0"
proof
  assume z: "net_port i = 0"
  have i: "32768 \<le> i" "i < 65536" using assms unfolding in_ephemeral by simp_all
  have "bit (of_nat i :: u32) 15"
  proof -
    have "i div 2 ^ 15 = 1" by (rule div_nat_eqI) (use i in simp_all)
    then have "bit i 15" by (simp add: bit_iff_odd)
    then show ?thesis by (simp add: bit_of_nat_iff_bit bit_simps)
  qed
  then have "bit (net_port i) 7" by (simp add: net_port_def Let_def bit_simps)
  with z show False by simp
qed

text \<open>Linking a socket at the head.\<close>

lemma set_local_spec:
  assumes "length x \<le> 256" "length (local_addr (socks s sk)) = 256"
  shows "\<exists>s'. set_local sk x s = Some s' \<and> g_bound_sockets_head s' = sk \<and>
    socks s' = (socks s)(sk := (socks s sk)\<lparr>local_addr := x @ drop (length x) (local_addr (socks s sk)),
      local_addr_len := of_nat (length x), global_next := g_bound_sockets_head s\<rparr>) \<and>
    s' = s\<lparr>socks := socks s', g_bound_sockets_head := sk\<rparr>"
  using assms by (simp add: set_local_def poke_def)

lemma bound_okI:
  assumes ok: "bound_ok s ks" and sk: "sk \<notin> set ks" "sk \<noteq> 0"
    and s': "g_bound_sockets_head s' = sk" "socks s' = (socks s)(sk := k)" "global_next k = g_bound_sockets_head s"
    and k: "local_addr_len k \<noteq> 0" "family k = AF_INET \<longrightarrow> local_addr_len k = 16 \<and> sock_port k \<noteq> 0"
    and ap: "\<forall>b\<in>set ks. apart k (socks s b)"
  shows "bound_ok s' (sk # ks)"
proof -
  have e: "(\<lambda>i. global_next (socks s' i)) = (\<lambda>i. global_next (socks s i))(sk := g_bound_sockets_head s)"
    unfolding s'(2) using s'(3) by auto
  have c: "chain (\<lambda>i. global_next (socks s' i)) (g_bound_sockets_head s') (sk # ks)"
    unfolding e using ok sk s'(1) by (simp add: chain_upd bound_ok_def)
  have sy: "apart a b = apart b a" for a b unfolding apart_def by metis
  have "\<forall>a\<in>set (sk # ks). \<forall>b\<in>set (sk # ks). a \<noteq> b \<longrightarrow> apart (socks s' a) (socks s' b)"
  proof (intro ballI impI)
    fix a b assume "a \<in> set (sk # ks)" "b \<in> set (sk # ks)" "a \<noteq> b"
    then show "apart (socks s' a) (socks s' b)" using ok sk(1) ap sy by (auto simp: s'(2) bound_ok_def)
  qed
  moreover have "\<forall>i\<in>set (sk # ks). local_addr_len (socks s' i) \<noteq> 0 \<and>
    (family (socks s' i) = AF_INET \<longrightarrow> local_addr_len (socks s' i) = 16 \<and> sock_port (socks s' i) \<noteq> 0)"
    using ok k by (auto simp: s'(2) bound_ok_def)
  ultimately show ?thesis using c unfolding bound_ok_def by blast
qed

text \<open>The address that is stored is the one that is read back.\<close>

lemma sin_fields:
  "sock_port (k\<lparr>local_addr := sin_bytes a @ y, local_addr_len := n, global_next := h\<rparr>) = sin_port a"
  "sock_ip (k\<lparr>local_addr := sin_bytes a @ y, local_addr_len := n, global_next := h\<rparr>) = s_addr a"
  by (simp_all add: sock_port_def sock_ip_def sin_bytes_def le16_def le32_def rd16_def rd32_def nth_append)

text \<open>The port a socket asks for, or the first ephemeral one that no socket of its type uses.\<close>

definition wanted_port :: "net \<Rightarrow> u64 list \<Rightarrow> u64 \<Rightarrow> u16 \<Rightarrow> u16 option" where
  "wanted_port s ks sk p =
     (if p \<noteq> 0 then Some p
      else map_option net_port (List.find (\<lambda>i. \<forall>k\<in>set ks. \<not> on_port (s_type (socks s sk)) (net_port i) (socks s k)) ephemeral_ports))"

lemma wanted_port_nonzero: "wanted_port s ks sk p = Some q \<Longrightarrow> q \<noteq> 0"
  using net_port_nonzero by (auto simp: wanted_port_def find_Some_iff split: if_splits)

lemma pick_port_wanted:
  assumes ok: "bound_ok s ks" and P: "\<And>port k. k \<in> set ks \<Longrightarrow> P port (socks s k) = on_port (s_type (socks s sk)) port (socks s k)"
  shows "pick_port (\<lambda>port. sock_search (socks s) (P port) (g_bound_sockets_head s)) ephemeral_ports = Some (wanted_port s ks sk 0)"
proof -
  from ok have c: "chain (\<lambda>k. global_next (socks s k)) (g_bound_sockets_head s) ks" by (simp add: bound_ok_def)
  have e: "sock_search (socks s) (P port) (g_bound_sockets_head s) = Some 0 \<longleftrightarrow>
    (\<forall>k\<in>set ks. \<not> on_port (s_type (socks s sk)) port (socks s k))" for port
    using search_hit [OF c, of "\<lambda>k. P port (socks s k)"] P by (simp add: sock_search_chain [OF c])
  have n: "sock_search (socks s) (P port) (g_bound_sockets_head s) \<noteq> None" for port
    by (simp add: sock_search_chain [OF c])
  show ?thesis unfolding pick_port_first [OF n] e wanted_port_def by simp
qed

lemma bound_on_port: "bound_ok s ks \<Longrightarrow> k \<in> set ks \<Longrightarrow> uses_port ty port (socks s k) = on_port ty port (socks s k)"
  by (auto simp: bound_ok_def uses_port_def on_port_def)

text \<open>A bind to an Internet address on every path.\<close>

lemma bind_inet_spec:
  assumes ok: "bound_ok s ks" and sk: "sk \<notin> set ks" "sk \<noteq> 0" "family (socks s sk) = AF_INET"
    "length (local_addr (socks s sk)) = 256" and z: "length (sin_zero a) = 8"
  shows "case wanted_port s ks sk (sin_port a) of None \<Rightarrow> bind_inet sk a s = Some (-2, s)
    | Some p \<Rightarrow> if \<exists>k\<in>set ks. clashes p (s_addr a) (socks s k) then bind_inet sk a s = Some (-2, s)
      else \<exists>s'. bind_inet sk a s = Some (0, s') \<and> bound_ok s' (sk # ks) \<and> (\<forall>i. i \<noteq> sk \<longrightarrow> socks s' i = socks s i) \<and>
        socks s' sk = (socks s sk)\<lparr>local_addr := sin_bytes (a\<lparr>sin_port := p\<rparr>) @ drop 16 (local_addr (socks s sk)),
          local_addr_len := 16, global_next := g_bound_sockets_head s\<rparr> \<and>
        s' = s\<lparr>socks := socks s', g_bound_sockets_head := sk\<rparr>"
proof -
  from ok have c: "chain (\<lambda>k. global_next (socks s k)) (g_bound_sockets_head s) ks" by (simp add: bound_ok_def)
  have p: "(if sin_port a = 0 then pick_port (\<lambda>port. sock_search (socks s) (uses_port (s_type (socks s sk)) port) (g_bound_sockets_head s))
    ephemeral_ports else Some (Some (sin_port a))) = Some (wanted_port s ks sk (sin_port a))"
    using pick_port_wanted [OF ok, of "uses_port (s_type (socks s sk))"] bound_on_port [OF ok] by (simp add: wanted_port_def)
  show ?thesis
  proof (cases "wanted_port s ks sk (sin_port a)")
    case None
    then show ?thesis unfolding bind_inet_def p by simp
  next
    case (Some q)
    let ?a = "a\<lparr>sin_port := q\<rparr>"
    have l: "length (sin_bytes ?a) = 16" using z by (simp add: sin_bytes_def)
    have hit: "(case List.find (\<lambda>k. clashes q (s_addr a) (socks s k)) ks of None \<Rightarrow> 0 | Some k \<Rightarrow> k) = 0 \<longleftrightarrow>
      (\<forall>k\<in>set ks. \<not> clashes q (s_addr a) (socks s k))" by (rule search_hit [OF c])
    show ?thesis
    proof (cases "\<exists>k\<in>set ks. clashes q (s_addr a) (socks s k)")
      case True
      then have "bind_inet sk a s = Some (-2, s)"
        unfolding bind_inet_def p using Some hit by (auto simp: sock_search_chain [OF c])
      with True Some show ?thesis by simp
    next
      case False
      then have h0: "(case List.find (\<lambda>k. clashes q (s_addr a) (socks s k)) ks of None \<Rightarrow> 0 | Some k \<Rightarrow> k) = 0" using hit by blast
      from set_local_spec [of "sin_bytes ?a" s sk] l sk(4) obtain s' where
        s': "set_local sk (sin_bytes ?a) s = Some s'" "g_bound_sockets_head s' = sk"
          "socks s' = (socks s)(sk := (socks s sk)\<lparr>local_addr := sin_bytes ?a @ drop 16 (local_addr (socks s sk)),
            local_addr_len := 16, global_next := g_bound_sockets_head s\<rparr>)" "s' = s\<lparr>socks := socks s', g_bound_sockets_head := sk\<rparr>" by auto
      have "bind_inet sk a s = Some (0, s')"
        unfolding bind_inet_def p using Some h0 s'(1) by (simp add: sock_search_chain [OF c] Let_def)
      moreover have "bound_ok s' (sk # ks)"
      proof (rule bound_okI [OF ok sk(1,2) s'(2,3)])
        show "\<forall>b\<in>set ks. apart ((socks s sk)\<lparr>local_addr := sin_bytes ?a @ drop 16 (local_addr (socks s sk)),
          local_addr_len := 16, global_next := g_bound_sockets_head s\<rparr>) (socks s b)"
        proof
          fix b assume b: "b \<in> set ks"
          with False have "\<not> clashes q (s_addr a) (socks s b)" by blast
          moreover have "family (socks s b) = AF_INET \<Longrightarrow> 16 \<le> local_addr_len (socks s b)" using ok b by (simp add: bound_ok_def)
          ultimately show "apart ((socks s sk)\<lparr>local_addr := sin_bytes ?a @ drop 16 (local_addr (socks s sk)),
            local_addr_len := 16, global_next := g_bound_sockets_head s\<rparr>) (socks s b)"
            by (auto simp: apart_def clashes_def sin_fields)
        qed
      qed (use wanted_port_nonzero [OF Some] in \<open>simp_all add: sin_fields\<close>)
      ultimately have "\<exists>s'. bind_inet sk a s = Some (0, s') \<and> bound_ok s' (sk # ks) \<and> (\<forall>i. i \<noteq> sk \<longrightarrow> socks s' i = socks s i) \<and>
        socks s' sk = (socks s sk)\<lparr>local_addr := sin_bytes ?a @ drop 16 (local_addr (socks s sk)),
          local_addr_len := 16, global_next := g_bound_sockets_head s\<rparr> \<and>
        s' = s\<lparr>socks := socks s', g_bound_sockets_head := sk\<rparr>"
        using s'(3,4) by (intro exI [of _ s'] conjI) simp_all
      with False Some show ?thesis by simp
    qed
  qed
qed

lemma auto_bind_spec:
  assumes ok: "bound_ok s ks" and sk: "sk \<notin> set ks" "sk \<noteq> 0" "family (socks s sk) = AF_INET"
    "length (local_addr (socks s sk)) = 256"
  shows "case wanted_port s ks sk 0 of None \<Rightarrow> socket_auto_bind_inet sk s = Some (-2, s)
    | Some p \<Rightarrow> \<exists>s'. socket_auto_bind_inet sk s = Some (0, s') \<and> bound_ok s' (sk # ks) \<and>
        sock_port (socks s' sk) = p \<and> length (local_addr (socks s' sk)) = 256 \<and>
        s' = s\<lparr>socks := (socks s)(sk := socks s' sk), g_bound_sockets_head := sk\<rparr>"
proof -
  let ?k = "socks s sk"
  obtain a0 where a0: "(if 16 \<le> local_addr_len ?k then sin_at (local_addr ?k)
      else Some \<lparr>sin_family = 0, sin_port = 0, s_addr = 0, sin_zero = replicate 8 0\<rparr>) = Some a0" "length (sin_zero a0) = 8"
    using sk(4) by (cases "16 \<le> local_addr_len ?k") (fastforce simp: sin_at_def)+
  have p: "pick_port (\<lambda>port. sock_search (socks s) (on_port (s_type ?k) port) (g_bound_sockets_head s)) ephemeral_ports =
    Some (wanted_port s ks sk 0)" by (rule pick_port_wanted [OF ok refl])
  show ?thesis
  proof (cases "wanted_port s ks sk 0")
    case None
    then show ?thesis unfolding socket_auto_bind_inet_def Let_def a0(1) p by simp
  next
    case (Some q)
    let ?a = "a0\<lparr>sin_family := 2, sin_port := q\<rparr>"
    let ?k' = "?k\<lparr>local_addr := sin_bytes ?a @ drop 16 (local_addr ?k), local_addr_len := 16, global_next := g_bound_sockets_head s\<rparr>"
    have l: "length (sin_bytes ?a) = 16" using a0(2) by (simp add: sin_bytes_def)
    from set_local_spec [of "sin_bytes ?a" s sk] l sk(4) obtain s' where
      s': "set_local sk (sin_bytes ?a) s = Some s'" "g_bound_sockets_head s' = sk" "socks s' = (socks s)(sk := ?k')"
        "s' = s\<lparr>socks := socks s', g_bound_sockets_head := sk\<rparr>" by auto
    have r: "socket_auto_bind_inet sk s = Some (0, s')"
      unfolding socket_auto_bind_inet_def Let_def a0(1) p using Some s'(1) by simp
    have "\<forall>k\<in>set ks. \<not> on_port (s_type ?k) q (socks s k)"
      using Some by (auto simp: wanted_port_def find_Some_iff)
    then have "\<forall>b\<in>set ks. apart ?k' (socks s b)" by (auto simp: apart_def on_port_def sin_fields)
    with bound_okI [OF ok sk(1,2) s'(2,3)] wanted_port_nonzero [OF Some] have "bound_ok s' (sk # ks)" by (simp add: sin_fields)
    moreover have "sock_port (socks s' sk) = q" "length (local_addr (socks s' sk)) = 256"
      using l sk(4) by (simp_all add: s'(3) sin_fields)
    ultimately show ?thesis using r Some s'(3,4) by (simp only: option.case) (intro exI [of _ s'], simp)
  qed
qed

text \<open>Removing a socket from the list.\<close>

lemma sock_prev_chain:
  "chain (\<lambda>k. global_next (ss k)) h ks \<Longrightarrow>
   sock_prev ss sk p h = Some (sk \<in> set ks, last (p # takeWhile (\<lambda>k. k \<noteq> sk) ks))"
  by (induction ks arbitrary: h p) (auto simp: sock_prev.simps)

lemma bound_ok_sub:
  assumes "bound_ok s ks" "chain (\<lambda>k. global_next (socks s' k)) (g_bound_sockets_head s') ks'" "set ks' \<subseteq> set ks"
    "\<forall>i. socks s' i = (socks s i)\<lparr>global_next := global_next (socks s' i)\<rparr>"
  shows "bound_ok s' ks'"
proof -
  have f: "local_addr_len (socks s' i) = local_addr_len (socks s i)" "family (socks s' i) = family (socks s i)"
    "sock_port (socks s' i) = sock_port (socks s i)" "sock_ip (socks s' i) = sock_ip (socks s i)"
    "s_type (socks s' i) = s_type (socks s i)" for i
    using assms(4) [rule_format, of i] by (cases "socks s' i", cases "socks s i", simp add: sock_port_def sock_ip_def)+
  then have "apart (socks s' a) (socks s' b) = apart (socks s a) (socks s b)" for a b by (simp add: apart_def)
  then show ?thesis using assms(1-3) f unfolding bound_ok_def by (simp add: subset_iff)
qed

lemma socket_unlink_spec:
  assumes ok: "bound_ok s ks"
  shows "\<exists>s'. socket_unlink sk s = Some s' \<and> bound_ok s' (remove1 sk ks) \<and>
    (\<forall>i. socks s' i = (socks s i)\<lparr>global_next := global_next (socks s' i)\<rparr>) \<and>
    s' = s\<lparr>socks := socks s', g_bound_sockets_head := g_bound_sockets_head s'\<rparr>"
proof -
  let ?n = "\<lambda>k. global_next (socks s k)"
  from ok have c: "chain ?n (g_bound_sockets_head s) ks" by (simp add: bound_ok_def)
  show ?thesis
  proof (cases "sk \<in> set ks")
    case False
    have "socket_unlink sk s = Some s" unfolding socket_unlink_def sock_prev_chain [OF c] using False by simp
    then show ?thesis using False ok by (intro exI [of _ s]) (simp add: remove1_idem)
  next
    case True
    then obtain xs ys where ks: "ks = xs @ sk # ys" "sk \<notin> set xs" by (auto dest: split_list_first)
    have d: "distinct ks" by (rule chain_distinct [OF c])
    have tw: "takeWhile (\<lambda>k. k \<noteq> sk) ks = xs" using ks by (induction xs arbitrary: ks) auto
    have rm: "remove1 sk ks = xs @ ys" using ks by (simp add: remove1_append)
    have y: "chain ?n (?n sk) ys" using chain_suffix [of ?n _ xs sk ys] c ks(1) by simp
    have prev: "sock_prev (socks s) sk 0 (g_bound_sockets_head s) = Some (True, last (0 # xs))"
      unfolding sock_prev_chain [OF c] tw using True by simp
    show ?thesis
    proof (cases xs rule: rev_cases)
      case Nil
      let ?s' = "upd_sock sk (global_next_update (\<lambda>_. 0)) (s\<lparr>g_bound_sockets_head := ?n sk\<rparr>)"
      have "socket_unlink sk s = Some ?s'" unfolding socket_unlink_def prev using Nil by (simp add: Let_def)
      moreover have e: "(\<lambda>k. global_next (socks ?s' k)) = ?n(sk := 0)" by auto
      have "chain (\<lambda>k. global_next (socks ?s' k)) (g_bound_sockets_head ?s') (remove1 sk ks)"
        unfolding e rm using Nil y d ks(1) by (simp add: chain_upd)
      from bound_ok_sub [OF ok this set_remove1_subset] have "bound_ok ?s' (remove1 sk ks)" by simp
      ultimately show ?thesis by (intro exI [of _ ?s']) simp
    next
      case (snoc zs p)
      then have p: "p \<noteq> 0" "p \<noteq> sk" using chain_nonzero [OF c] ks by auto
      let ?s' = "upd_sock sk (global_next_update (\<lambda>_. 0)) (upd_sock p (global_next_update (\<lambda>_. ?n sk)) s)"
      have "socket_unlink sk s = Some ?s'" unfolding socket_unlink_def prev using snoc p by (simp add: Let_def)
      moreover have e: "(\<lambda>k. global_next (socks ?s' k)) = ?n(p := ?n sk, sk := 0)" using p by auto
      have "chain (?n(p := ?n sk)) (g_bound_sockets_head s) (zs @ p # ys)"
        by (rule chain_relink [where zs = "[sk]"]) (use c d y ks(1) snoc in auto)
      then have "chain (\<lambda>k. global_next (socks ?s' k)) (g_bound_sockets_head ?s') (remove1 sk ks)"
        unfolding e rm using d ks snoc by (simp add: chain_upd)
      from bound_ok_sub [OF ok this set_remove1_subset] have "bound_ok ?s' (remove1 sk ks)" by simp
      ultimately show ?thesis by (intro exI [of _ ?s']) simp
    qed
  qed
qed

lemma bind_is_inet:
  assumes "sk \<noteq> 0" "family (socks s sk) = AF_INET" "local_addr_len (socks s sk) = 0" "16 \<le> n" "n \<le> 256" "sin_at x = Some a"
  shows "socket_bind_address sk (Some x) n s = bind_inet sk a s" "length (sin_zero a) = 8"
proof -
  have "n \<noteq> 0" using assms(4) by auto
  then show "socket_bind_address sk (Some x) n s = bind_inet sk a s"
    using assms leD [OF assms(4)] leD [OF assms(5)] by (simp add: socket_bind_address_def)
  show "length (sin_zero a) = 8" using assms(6) by (auto simp: sin_at_def split: if_splits)
qed

section \<open>Sequences of operations\<close>

text \<open>The operations on the list, in any order and for any sockets.\<close>

datatype sock_op = Bind u64 "u8 list" u64 | Ensure u64 | Unlink u64

fun sock_exec :: "sock_op \<Rightarrow> net \<Rightarrow> net option" where
  "sock_exec (Bind sk x n) s = map_option snd (socket_bind_address sk (Some x) n s)"
| "sock_exec (Ensure sk) s = map_option snd (ensure_bound sk s)"
| "sock_exec (Unlink sk) s = socket_unlink sk s"

fun sock_valid :: "sock_op \<Rightarrow> bool" where
  "sock_valid (Bind sk x n) \<longleftrightarrow> unat n \<le> length x"
| "sock_valid (Ensure sk) \<longleftrightarrow> sk \<noteq> 0"
| "sock_valid (Unlink sk) \<longleftrightarrow> True"

definition sized :: "net \<Rightarrow> bool" where
  "sized s \<longleftrightarrow> (\<forall>k. length (local_addr (socks s k)) = 256)"

lemma sin_at_total: "16 \<le> length x \<Longrightarrow> \<exists>a. sin_at x = Some a \<and> length (sin_zero a) = 8"
  by (simp add: sin_at_def)

lemma bind_other_spec:
  assumes ok: "bound_ok s ks" and sk: "sk \<notin> set ks" "sk \<noteq> 0" "family (socks s sk) \<noteq> AF_INET" "length (local_addr (socks s sk)) = 256"
    "local_addr_len (socks s sk) = 0" and n: "n \<noteq> 0" "n \<le> 256" "unat n \<le> length x"
  shows "if \<exists>k\<in>set ks. same_addr (family (socks s sk)) n x (socks s k) then socket_bind_address sk (Some x) n s = Some (-2, s)
    else \<exists>s'. socket_bind_address sk (Some x) n s = Some (0, s') \<and> bound_ok s' (sk # ks) \<and>
      length (local_addr (socks s' sk)) = 256 \<and> s' = s\<lparr>socks := (socks s)(sk := socks s' sk), g_bound_sockets_head := sk\<rparr>"
proof -
  let ?y = "take (unat n) x"
  let ?P = "same_addr (family (socks s sk)) n ?y"
  have P: "?P k = same_addr (family (socks s sk)) n x k" for k by (simp add: same_addr_def)
  from ok have c: "chain (\<lambda>k. global_next (socks s k)) (g_bound_sockets_head s) ks" by (simp add: bound_ok_def)
  note hit = search_hit [OF c, of "\<lambda>k. ?P (socks s k)"]
  have u: "unat n \<le> 256" "length ?y = unat n" using n by (simp_all add: word_le_nat_alt)
  have e: "socket_bind_address sk (Some x) n s = do {
      k \<leftarrow> sock_search (socks s) ?P (g_bound_sockets_head s);
      if k \<noteq> 0 then Some (-2, s) else do { s1 \<leftarrow> set_local sk ?y s; Some (0, s1) } }"
    using sk n leD [OF n(2)] by (simp add: socket_bind_address_def peek_def)
  show ?thesis
  proof (cases "\<exists>k\<in>set ks. ?P (socks s k)")
    case True
    then show ?thesis using hit unfolding e P by (auto simp: sock_search_chain [OF c] P)
  next
    case False
    let ?k = "(socks s sk)\<lparr>local_addr := ?y @ drop (unat n) (local_addr (socks s sk)), local_addr_len := n,
      global_next := g_bound_sockets_head s\<rparr>"
    from set_local_spec [of ?y s sk] u sk(4) obtain s' where
      s': "set_local sk ?y s = Some s'" "g_bound_sockets_head s' = sk" "socks s' = (socks s)(sk := ?k)"
        "s' = s\<lparr>socks := socks s', g_bound_sockets_head := sk\<rparr>" by auto
    have "\<forall>b\<in>set ks. apart ?k (socks s b)" using sk(3) by (simp add: apart_def)
    with bound_okI [OF ok sk(1,2) s'(2,3)] n(1) sk(3) have b: "bound_ok s' (sk # ks)" by simp
    have "socket_bind_address sk (Some x) n s = Some (0, s')"
      using False hit s'(1) unfolding e by (simp add: sock_search_chain [OF c])
    moreover have "s' = s\<lparr>socks := (socks s)(sk := socks s' sk), g_bound_sockets_head := sk\<rparr>" using s'(3,4) by simp
    ultimately show ?thesis using b False u sk(4) unfolding P by (auto simp: s'(3))
  qed
qed

lemma sized_upd: "sized s \<Longrightarrow> length (local_addr k) = 256 \<Longrightarrow> sized (s\<lparr>socks := (socks s)(sk := k), g_bound_sockets_head := h\<rparr>)"
  by (simp add: sized_def)

text \<open>One operation keeps the invariant.\<close>

lemma bind_keeps:
  assumes ok: "bound_ok s ks" "sized s" and n: "unat n \<le> length x"
  shows "\<exists>r s' ks'. socket_bind_address sk (Some x) n s = Some (r, s') \<and> bound_ok s' ks' \<and> sized s'"
proof (cases "sk = 0 \<or> n = 0 \<or> n > 256 \<or> local_addr_len (socks s sk) \<noteq> 0 \<or> family (socks s sk) = AF_INET \<and> n < 16")
  case True
  then have "\<exists>r. socket_bind_address sk (Some x) n s = Some (r, s)" by (auto simp: socket_bind_address_def)
  with ok show ?thesis by blast
next
  case False
  then have f: "sk \<noteq> 0" "n \<noteq> 0" "n \<le> 256" "local_addr_len (socks s sk) = 0" by (auto simp: not_less)
  have sk: "sk \<notin> set ks" using f(4) ok(1) by (auto simp: bound_ok_def)
  have l: "length (local_addr (socks s sk)) = 256" using ok(2) by (simp add: sized_def)
  show ?thesis
  proof (cases "family (socks s sk) = AF_INET")
    case True
    with False have "16 \<le> n" by (auto simp: not_less)
    then have "16 \<le> length x" using n by (simp add: word_le_nat_alt)
    then obtain a where a: "sin_at x = Some a" "length (sin_zero a) = 8" using sin_at_total by blast
    have e: "socket_bind_address sk (Some x) n s = bind_inet sk a s"
      by (rule bind_is_inet(1) [OF f(1) True f(4) \<open>16 \<le> n\<close> f(3) a(1)])
    from bind_inet_spec [OF ok(1) sk f(1) True l a(2)] consider "bind_inet sk a s = Some (-2, s)" |
      p s' where "bind_inet sk a s = Some (0, s')" "bound_ok s' (sk # ks)"
        "socks s' sk = (socks s sk)\<lparr>local_addr := sin_bytes (a\<lparr>sin_port := p\<rparr>) @ drop 16 (local_addr (socks s sk)),
          local_addr_len := 16, global_next := g_bound_sockets_head s\<rparr>" "\<forall>i. i \<noteq> sk \<longrightarrow> socks s' i = socks s i"
      by (auto split: option.splits if_splits)
    then show ?thesis
    proof cases
      case (2 p s')
      then have "length (local_addr (socks s' i)) = 256" for i
        using ok(2) a(2) by (cases "i = sk") (simp_all add: sin_bytes_def sized_def)
      with 2 show ?thesis unfolding e by (auto simp: sized_def)
    qed (use ok e in auto)
  next
    case False
    from bind_other_spec [OF ok(1) sk f(1) False l f(4,2,3) n] consider "socket_bind_address sk (Some x) n s = Some (-2, s)" |
      s' where "socket_bind_address sk (Some x) n s = Some (0, s')" "bound_ok s' (sk # ks)" "length (local_addr (socks s' sk)) = 256"
        "s' = s\<lparr>socks := (socks s)(sk := socks s' sk), g_bound_sockets_head := sk\<rparr>"
      by (auto split: if_splits)
    then show ?thesis
    proof cases
      case (2 s')
      with sized_upd [OF ok(2), of "socks s' sk" sk sk] have "sized s'" by simp
      with 2 show ?thesis by blast
    qed (use ok in blast)
  qed
qed

lemma ensure_keeps:
  assumes ok: "bound_ok s ks" "sized s" and sk: "sk \<noteq> 0"
  shows "\<exists>r s' ks'. ensure_bound sk s = Some (r, s') \<and> bound_ok s' ks' \<and> sized s'"
proof (cases "family (socks s sk) = AF_INET \<and> (local_addr_len (socks s sk) = 0 \<or> sock_port (socks s sk) = 0)")
  case True
  then have n: "sk \<notin> set ks" using ok(1) by (auto simp: bound_ok_def)
  have l: "length (local_addr (socks s sk)) = 256" using ok(2) by (simp add: sized_def)
  from auto_bind_spec [OF ok(1) n sk conjunct1 [OF True] l] consider "socket_auto_bind_inet sk s = Some (-2, s)" |
    s' where "socket_auto_bind_inet sk s = Some (0, s')" "bound_ok s' (sk # ks)" "length (local_addr (socks s' sk)) = 256"
      "s' = s\<lparr>socks := (socks s)(sk := socks s' sk), g_bound_sockets_head := sk\<rparr>"
    by (auto split: option.splits)
  then show ?thesis
  proof cases
    case (2 s')
    with sized_upd [OF ok(2), of "socks s' sk" sk sk] have "sized s'" by simp
    with 2 True show ?thesis by (auto simp: ensure_bound_def Let_def)
  qed (use ok True in \<open>auto simp: ensure_bound_def Let_def\<close>)
next
  case False
  with ok show ?thesis by (auto simp: ensure_bound_def Let_def)
qed

lemma unlink_sized: "sized s \<Longrightarrow> \<forall>i. socks s' i = (socks s i)\<lparr>global_next := v i\<rparr> \<Longrightarrow> sized s'"
  by (simp add: sized_def)

lemma sock_exec_keeps:
  assumes "bound_ok s ks" "sized s" "sock_valid c"
  shows "\<exists>s' ks'. sock_exec c s = Some s' \<and> bound_ok s' ks' \<and> sized s'"
proof (cases c)
  case (Bind sk x n)
  with bind_keeps [OF assms(1,2), of n x sk] assms(3) show ?thesis by auto
next
  case (Ensure sk)
  with ensure_keeps [OF assms(1,2), of sk] assms(3) show ?thesis by auto
next
  case (Unlink sk)
  from socket_unlink_spec [OF assms(1), of sk] unlink_sized [OF assms(2)] Unlink show ?thesis by auto
qed

lemma sock_run_keeps:
  assumes "bound_ok s ks" "sized s" "\<forall>c\<in>set cs. sock_valid c"
  shows "\<exists>s' ks'. foldM sock_exec cs s = Some s' \<and> bound_ok s' ks' \<and> sized s'"
  using assms
proof (induction cs arbitrary: s ks)
  case (Cons c cs)
  then obtain s1 ks1 where "sock_exec c s = Some s1" "bound_ok s1 ks1" "sized s1" using sock_exec_keeps [of s ks c] by auto
  with Cons.IH [of s1 ks1] Cons.prems(3) show ?case by auto
qed auto

section \<open>Lookup\<close>

lemma find_by_port_chain:
  "bound_ok s ks \<Longrightarrow> socket_find_by_port port ty s =
     Some (case List.find (\<lambda>k. on_port ty port (socks s k)) ks of None \<Rightarrow> 0 | Some k \<Rightarrow> k)"
  by (simp add: bound_ok_def socket_find_by_port_def sock_search_chain)

lemma find_by_port_cong:
  assumes "bound_ok s ks" "bound_ok t ks" "\<forall>k\<in>set ks. socks t k = (socks s k)\<lparr>global_next := v k\<rparr>"
  shows "socket_find_by_port port ty t = socket_find_by_port port ty s"
proof -
  have "on_port ty port (socks t k) = on_port ty port (socks s k)" if "k \<in> set ks" for k
    using assms(3) that by (simp add: on_port_def sock_port_def)
  then have "List.find (\<lambda>k. on_port ty port (socks t k)) ks = List.find (\<lambda>k. on_port ty port (socks s k)) ks"
    by (intro find_cong) auto
  then show ?thesis by (simp add: find_by_port_chain [OF assms(1)] find_by_port_chain [OF assms(2)])
qed

definition session_of :: "u32 \<Rightarrow> tcp_header \<Rightarrow> socket \<Rightarrow> bool" where
  "session_of src tcp k \<longleftrightarrow> on_port SOCK_STREAM (tcp_dest_port tcp) k \<and> s_state k \<noteq> TCP_STATE_LISTEN \<and>
     peer_port k = tcp_src_port tcp \<and> peer_ip k = src"

definition listens_to :: "tcp_header \<Rightarrow> socket \<Rightarrow> bool" where
  "listens_to tcp k \<longleftrightarrow> on_port SOCK_STREAM (tcp_dest_port tcp) k \<and> s_state k = TCP_STATE_LISTEN"

lemma tcp_lookup_chain:
  "chain (\<lambda>k. global_next (ss k)) h ks \<Longrightarrow> tcp_lookup_loop ss src tcp h fb =
     Some (case List.find (\<lambda>k. session_of src tcp (ss k)) ks of Some k \<Rightarrow> k
       | None \<Rightarrow> last (fb # filter (\<lambda>k. listens_to tcp (ss k)) ks))"
proof (induction ks arbitrary: h fb)
  case (Cons a ks)
  then have h: "h = a" "a \<noteq> 0" "chain (\<lambda>k. global_next (ss k)) (global_next (ss a)) ks" by auto
  have "tcp_lookup_loop ss src tcp a fb = (if session_of src tcp (ss a) then Some a
    else tcp_lookup_loop ss src tcp (global_next (ss a)) (if listens_to tcp (ss a) then a else fb))"
    using h(2) by (subst tcp_lookup_loop.simps) (auto simp: session_of_def listens_to_def)
  with Cons.IH [OF h(3)] h(1) show ?case by (auto split: option.split)
qed (simp add: tcp_lookup_loop.simps)

section \<open>Properties\<close>

text \<open>C21: Whatever sequence of binds, automatic binds and removals is applied to any sockets, every
  operation returns, the list of bound sockets stays a well-formed list, every bound Internet socket has a
  nonzero port, and two bound Internet sockets of one type never share a port unless they are bound to
  two different specific addresses.\<close>

theorem bound_ports_exclusive:
  assumes "bound_ok s ks" "sized s" "\<forall>c\<in>set cs. sock_valid c"
  shows "\<exists>s' ks'. foldM sock_exec cs s = Some s' \<and> bound_ok s' ks'"
  using sock_run_keeps [OF assms] by blast

text \<open>\<^verbatim>\<open>socket_bind_address\<close> of an unbound Internet socket. The port is the one asked for, or, for port 0, the
  first ephemeral port that no bound socket of the same type uses. The call fails with -2 and no
  effect exactly when there is no such port or when a bound socket of any type has this port with the same
  address, or one of the two addresses is 0; otherwise the socket is bound to the address and the port and
  becomes the head of the list.\<close>

theorem socket_bind_result:
  assumes "bound_ok s ks" "sized s" "sk \<noteq> 0" "family (socks s sk) = AF_INET" "local_addr_len (socks s sk) = 0"
    "16 \<le> n" "n \<le> 256" "sin_at x = Some a"
    and "free = (case wanted_port s ks sk (sin_port a) of None \<Rightarrow> False
      | Some p \<Rightarrow> \<forall>k\<in>set ks. \<not> clashes p (s_addr a) (socks s k))"
  shows "\<exists>t. socket_bind_address sk (Some x) n s = Some (if free then 0 else -2, t) \<and>
    (free \<longrightarrow> bound_ok t (sk # ks) \<and> Some (sock_port (socks t sk)) = wanted_port s ks sk (sin_port a) \<and>
       sock_ip (socks t sk) = s_addr a) \<and> (\<not> free \<longrightarrow> t = s)"
proof -
  have sk: "sk \<notin> set ks" using assms(1,5) by (auto simp: bound_ok_def)
  have l: "length (local_addr (socks s sk)) = 256" using assms(2) by (simp add: sized_def)
  note e = bind_is_inet [OF assms(3-8)]
  note b = bind_inet_spec [OF assms(1) sk assms(3,4) l e(2)]
  show ?thesis
  proof (cases free)
    case True
    then obtain p where p: "wanted_port s ks sk (sin_port a) = Some p" "\<forall>k\<in>set ks. \<not> clashes p (s_addr a) (socks s k)"
      using assms(9) by (auto split: option.splits)
    from b p obtain t where "bind_inet sk a s = Some (0, t)" "bound_ok t (sk # ks)"
      "socks t sk = (socks s sk)\<lparr>local_addr := sin_bytes (a\<lparr>sin_port := p\<rparr>) @ drop 16 (local_addr (socks s sk)),
          local_addr_len := 16, global_next := g_bound_sockets_head s\<rparr>" by auto
    with True p(1) show ?thesis unfolding e(1) by (intro exI [of _ t]) (simp add: sin_fields)
  next
    case False
    then have "bind_inet sk a s = Some (-2, s)" using b assms(9) by (auto split: option.splits if_splits)
    with False show ?thesis unfolding e(1) by simp
  qed
qed

text \<open>Binding, looking up and unlinking fit together. After a successful bind of an Internet socket, a lookup
  by its port and type finds it; after it is unlinked, every lookup gives what it gave before the bind.\<close>

theorem bind_find_roundtrip:
  assumes "bound_ok s ks" "sized s" "sk \<noteq> 0" "family (socks s sk) = AF_INET" "local_addr_len (socks s sk) = 0"
    "16 \<le> n" "n \<le> 256" "sin_at x = Some a" "socket_bind_address sk (Some x) n s = Some (0, t)"
  shows "socket_find_by_port (sock_port (socks t sk)) (s_type (socks s sk)) t = Some sk \<and>
    (\<exists>u. socket_unlink sk t = Some u \<and> (\<forall>port ty. socket_find_by_port port ty u = socket_find_by_port port ty s))"
proof -
  have sk: "sk \<notin> set ks" using assms(1,5) by (auto simp: bound_ok_def)
  have l: "length (local_addr (socks s sk)) = 256" using assms(2) by (simp add: sized_def)
  note e = bind_is_inet [OF assms(3-8)]
  from bind_inet_spec [OF assms(1) sk assms(3,4) l e(2)] assms(9) [unfolded e(1)] obtain p where
    t: "bound_ok t (sk # ks)" "\<forall>i. i \<noteq> sk \<longrightarrow> socks t i = socks s i"
      "socks t sk = (socks s sk)\<lparr>local_addr := sin_bytes (a\<lparr>sin_port := p\<rparr>) @ drop 16 (local_addr (socks s sk)),
          local_addr_len := 16, global_next := g_bound_sockets_head s\<rparr>"
    by (auto split: option.splits if_splits)
  have "socket_find_by_port (sock_port (socks t sk)) (s_type (socks s sk)) t = Some sk"
    using t(3) assms(4) by (simp add: find_by_port_chain [OF t(1)] on_port_def)
  moreover from socket_unlink_spec [OF t(1), of sk] obtain u where
    u: "socket_unlink sk t = Some u" "bound_ok u ks" "\<forall>i. socks u i = (socks t i)\<lparr>global_next := global_next (socks u i)\<rparr>" by auto
  have "socks u k = (socks s k)\<lparr>global_next := global_next (socks u k)\<rparr>" if "k \<in> set ks" for k
    using u(3) t(2) sk that by (cases "k = sk") (metis, metis)
  then have "socket_find_by_port port ty u = socket_find_by_port port ty s" for port ty
    by (intro find_by_port_cong [OF assms(1) u(2), of "\<lambda>k. global_next (socks u k)"]) blast
  ultimately show ?thesis using u(1) by blast
qed

text \<open>A connection goes to its session. For an incoming segment \<^verbatim>\<open>tcp_input_lookup\<close> returns the first bound
  stream socket whose port, peer port and peer address all match; only when there is none does it
  return a listening socket of the port (the last one in the list), and the null pointer when there is
  none of these either.\<close>

theorem tcp_lookup_prefers_session:
  assumes "bound_ok s ks"
  shows "tcp_input_lookup src tcp s = Some (case List.find (\<lambda>k. session_of src tcp (socks s k)) ks of Some k \<Rightarrow> k
    | None \<Rightarrow> last (0 # filter (\<lambda>k. listens_to tcp (socks s k)) ks))"
  using assms by (simp add: bound_ok_def tcp_input_lookup_def tcp_lookup_chain)

text \<open>An ephemeral bind may fail although ports are free. When the first port that no socket of the type
  uses belongs to a bound socket of another type, and the addresses overlap, the bind fails with -2;
  the search does not go on to the next port.\<close>

theorem ephemeral_bind_collides:
  assumes "bound_ok s ks" "sized s" "sk \<noteq> 0" "family (socks s sk) = AF_INET" "local_addr_len (socks s sk) = 0"
    "16 \<le> n" "n \<le> 256" "sin_at x = Some a" "sin_port a = 0"
    and "\<forall>k\<in>set ks. \<not> on_port (s_type (socks s sk)) (net_port 32768) (socks s k)"
    and "k \<in> set ks" "clashes (net_port 32768) (s_addr a) (socks s k)"
  shows "socket_bind_address sk (Some x) n s = Some (-2, s)"
proof -
  have sk: "sk \<notin> set ks" using assms(1,5) by (auto simp: bound_ok_def)
  have l: "length (local_addr (socks s sk)) = 256" using assms(2) by (simp add: sized_def)
  note e = bind_is_inet [OF assms(3-8)]
  have "(32768 :: nat) < Suc 61000" by simp
  from upt_conv_Cons [OF this] obtain ps where ps: "ephemeral_ports = 32768 # ps" unfolding ephemeral_ports_def by blast
  have "wanted_port s ks sk (sin_port a) = Some (net_port 32768)" unfolding wanted_port_def ps using assms(9,10) by simp
  with bind_inet_spec [OF assms(1) sk assms(3,4) l e(2)] assms(11,12) show ?thesis unfolding e(1) by (auto split: if_splits)
qed

section \<open>Examples\<close>

text \<open>A stream socket bound to the first ephemeral port, and an unbound datagram socket.\<close>

definition sin_demo :: "u16 \<Rightarrow> sockaddr_in" where
  "sin_demo port = \<lparr>sin_family = 2, sin_port = port, s_addr = 0, sin_zero = replicate 8 0\<rparr>"

definition sock_demo :: net where
  "sock_demo = net_demo\<lparr>socks := (\<lambda>_. sock0)(
     0x800 := sock0\<lparr>family := AF_INET, s_type := SOCK_STREAM, local_addr := sin_bytes (sin_demo 0x0080) @ replicate 240 0,
       local_addr_len := 16\<rparr>,
     0x900 := sock0\<lparr>family := AF_INET, s_type := SOCK_DGRAM\<rparr>), g_bound_sockets_head := 0x800\<rparr>"

lemma net_port_demo: "net_port 32768 = 0x0080"
  by (simp add: net_port_def Let_def)

lemma demo_addr: "rd16 (sin_bytes (sin_demo p) @ y) 2 = p" "rd32 (sin_bytes (sin_demo p) @ y) 4 = 0"
  by (simp_all add: sin_demo_def sin_bytes_def le16_def le32_def rd16_def rd32_def)

lemma demo_sin [simp]: "sin_at (sin_bytes (sin_demo p)) = Some (sin_demo p)" "length (sin_bytes (sin_demo p)) = 16"
  "sin_port (sin_demo p) = p" "s_addr (sin_demo p) = 0"
proof -
  have "length (sin_zero (sin_demo p)) = 8" by (simp add: sin_demo_def)
  from sin_at_bytes [OF this, of "[]"] show "sin_at (sin_bytes (sin_demo p)) = Some (sin_demo p)" by simp
qed (simp_all add: sin_bytes_def sin_demo_def)

lemma demo_socks: "family (socks sock_demo 0x900) = AF_INET" "local_addr_len (socks sock_demo 0x900) = 0"
  "s_type (socks sock_demo 0x900) = SOCK_DGRAM" "family (socks sock_demo 0x800) = AF_INET" "s_type (socks sock_demo 0x800) = SOCK_STREAM"
  "local_addr_len (socks sock_demo 0x800) = 16" "sock_port (socks sock_demo 0x800) = 0x0080" "sock_ip (socks sock_demo 0x800) = 0"
  by (simp_all add: sock_demo_def sock0_def sock_port_def sock_ip_def demo_addr)

lemma demo_bound: "bound_ok sock_demo [0x800]" "sized sock_demo"
proof -
  show "sized sock_demo" by (simp add: sized_def sock_demo_def sock0_def sin_bytes_def sin_demo_def)
  have "chain (\<lambda>k. global_next (socks sock_demo k)) (g_bound_sockets_head sock_demo) [0x800]" by (simp add: sock_demo_def sock0_def)
  then show "bound_ok sock_demo [0x800]" by (simp add: bound_ok_def demo_socks)
qed

theorem bound_ports_exclusive_witness:
  "\<exists>s' ks'. foldM sock_exec [Bind 0x900 (sin_bytes (sin_demo 0x3500)) 16, Ensure 0x900, Unlink 0x800] sock_demo = Some s' \<and> bound_ok s' ks'"
  using bound_ports_exclusive [OF demo_bound, of "[Bind 0x900 (sin_bytes (sin_demo 0x3500)) 16, Ensure 0x900, Unlink 0x800]"] by simp

theorem socket_bind_result_witness:
  "\<exists>t. socket_bind_address 0x900 (Some (sin_bytes (sin_demo 0x3500))) 16 sock_demo = Some (0, t) \<and> sock_port (socks t 0x900) = 0x3500"
  using socket_bind_result [OF demo_bound _ demo_socks(1,2), of 16 "sin_bytes (sin_demo 0x3500)" "sin_demo 0x3500" True]
  by (auto simp: wanted_port_def clashes_def demo_socks)

theorem bind_find_roundtrip_witness:
  "\<exists>t. socket_bind_address 0x900 (Some (sin_bytes (sin_demo 0x3500))) 16 sock_demo = Some (0, t) \<and>
     socket_find_by_port (sock_port (socks t 0x900)) SOCK_DGRAM t = Some 0x900"
proof -
  have c: "\<forall>k\<in>set [0x800]. \<not> clashes 0x3500 0 (socks sock_demo k)" by (simp add: clashes_def demo_socks)
  have n: "0x900 \<notin> set [0x800 :: u64]" "length (local_addr (socks sock_demo 0x900)) = 256" using demo_bound(2) by (simp_all add: sized_def)
  from bind_is_inet [OF _ demo_socks(1,2), of 16 "sin_bytes (sin_demo 0x3500)" "sin_demo 0x3500"]
    bind_inet_spec [OF demo_bound(1) n(1) _ demo_socks(1) n(2), of "sin_demo 0x3500"] c
  obtain t where t: "socket_bind_address 0x900 (Some (sin_bytes (sin_demo 0x3500))) 16 sock_demo = Some (0, t)"
    by (auto simp: wanted_port_def)
  from bind_find_roundtrip [OF demo_bound _ demo_socks(1,2) _ _ _ t] show ?thesis using t by (auto simp: demo_socks)
qed

theorem tcp_lookup_prefers_session_witness:
  "tcp_input_lookup 5 \<lparr>tcp_src_port = 7, tcp_dest_port = 9, seq_num = 0, ack_num = 0, data_offset_flags = 0, window_size = 0,
     tcp_checksum = 0, urgent_ptr = 0\<rparr> sock_demo = Some 0"
  by (simp add: tcp_lookup_prefers_session [OF demo_bound(1)] session_of_def listens_to_def on_port_def demo_socks)

theorem ephemeral_bind_collides_witness:
  "socket_bind_address 0x900 (Some (sin_bytes (sin_demo 0))) 16 sock_demo = Some (-2, sock_demo)"
  by (rule ephemeral_bind_collides [OF demo_bound _ demo_socks(1,2), of _ _ "sin_demo 0" "0x800"])
    (simp_all add: net_port_demo on_port_def clashes_def demo_socks)

end
