(* ===== verification/Udp.thy ===== *)
theory Udp
  imports Sock
begin

text \<open>
  Datagrams: \<^verbatim>\<open>src/kernel/kernel/net/udp.c\<close>, the address configuration client of \<^verbatim>\<open>dhcp.c\<close> and \<^verbatim>\<open>dhcp_init.c\<close>, and the
  datagram and stream reception of \<^verbatim>\<open>af_inet.c\<close>. The bytes that wait in a socket are a ring buffer of theory
  \<open>Ring\<close>. The lock of a socket is held from the test for data to the end of an operation. A call of \<^verbatim>\<open>wait\<close>
  suspends the thread, which tests again when it runs again: the result \<open>Waits\<close> of one pass.
\<close>

section \<open>Sending\<close>

definition udp_send_datagram :: "u64 \<Rightarrow> u8 list option \<Rightarrow> u64 \<Rightarrow> sockaddr_in option \<Rightarrow> net \<Rightarrow> (int \<times> net) option" where
  "udp_send_datagram sk buf len dest s =
     (if sk = 0 \<or> buf = None \<or> dest = None \<or> len = 0 then Some (-1, s)
      else let udp_payload_size = ucast (8 + len) :: u32 in
        if 20 + (ucast udp_payload_size :: u64) > 1500 then Some (-2, s)
        else do {
          (p, s1) \<leftarrow> net_kmalloc udp_payload_size s;
          if p = 0 then Some (-3, s1)
          else do {
            u \<leftarrow> udp_at (bufs s1 p);
            let u = u\<lparr>src_port := sock_port (socks s1 sk), dest_port := sin_port (the dest),
              udp_length := htons (ucast udp_payload_size), udp_checksum := 0\<rparr>;
            x1 \<leftarrow> poke 0 (udp_bytes u) (bufs s1 p);
            payload \<leftarrow> peek (unat len) (the buf);
            x2 \<leftarrow> poke 8 payload x1;
            (res, s2) \<leftarrow> ip_output (s_addr (the dest)) IPPROTO_UDP (Some x2) udp_payload_size (put_buf p x2 s1);
            s3 \<leftarrow> net_kfree p s2;
            Some (if res < 0 \<and> res \<noteq> -11 then -4 else sint len, s3)
          }
        })"

section \<open>Address configuration\<close>

abbreviation DHCP_DISCOVER_XID :: u32 where "DHCP_DISCOVER_XID \<equiv> 0x39A34125"
abbreviation DHCP_BOOTREQUEST :: u8 where "DHCP_BOOTREQUEST \<equiv> 1"
abbreviation DHCP_BOOTREPLY :: u8 where "DHCP_BOOTREPLY \<equiv> 2"

record dhcp_header =
  op :: u8
  htype :: u8
  hlen :: u8
  hops :: u8
  xid :: u32
  secs :: u16
  dhcp_flags :: u16
  ciaddr :: u32
  yiaddr :: u32
  siaddr :: u32
  giaddr :: u32
  chaddr :: "u8 list"
  sname :: "u8 list"
  boot_file :: "u8 list"
  magic_cookie :: u32

definition dhcp_bytes :: "dhcp_header \<Rightarrow> u8 list" where
  "dhcp_bytes d = [op d, htype d, hlen d, hops d] @ le32 (xid d) @ le16 (secs d) @ le16 (dhcp_flags d) @ le32 (ciaddr d) @
     le32 (yiaddr d) @ le32 (siaddr d) @ le32 (giaddr d) @ chaddr d @ sname d @ boot_file d @ le32 (magic_cookie d)"

definition dhcp_at :: "u8 list \<Rightarrow> dhcp_header option" where
  "dhcp_at x = (if length x < 240 then None
     else Some \<lparr>op = x ! 0, htype = x ! 1, hlen = x ! 2, hops = x ! 3, xid = rd32 x 4, secs = rd16 x 8, dhcp_flags = rd16 x 10,
       ciaddr = rd32 x 12, yiaddr = rd32 x 16, siaddr = rd32 x 20, giaddr = rd32 x 24, chaddr = take 16 (drop 28 x),
       sname = take 64 (drop 44 x), boot_file = take 128 (drop 108 x), magic_cookie = rd32 x 236\<rparr>)"

text \<open>The header both requests start with, on a buffer that has been set to zero.\<close>

definition dhcp_fill :: "net \<Rightarrow> dhcp_header \<Rightarrow> dhcp_header" where
  "dhcp_fill s d = d\<lparr>op := DHCP_BOOTREQUEST, htype := 1, hlen := 6, xid := htonl DHCP_DISCOVER_XID, dhcp_flags := htons 0x8000,
     chaddr := mac_bytes (snd (net_get_interface_mac 0 (mac_of 0) s)) @ drop 6 (chaddr d), magic_cookie := htonl 0x63825363\<rparr>"

definition dhcp_server :: sockaddr_in where
  "dhcp_server = \<lparr>sin_family = 2, sin_port = htons 67, s_addr = htonl 0xFFFFFFFF, sin_zero = replicate 8 0\<rparr>"

definition dhcp_send :: "u8 list \<Rightarrow> u64 \<Rightarrow> net \<Rightarrow> (int \<times> net) option" where
  "dhcp_send options sk s =
     (let payload_size = 240 + of_nat (length options) in
      if sk = 0 then Some (-1, s)
      else do {
        (p, s1) \<leftarrow> net_kmalloc payload_size s;
        if p = 0 then Some (-2, s1)
        else do {
          let x = replicate (unat payload_size) 0;
          d \<leftarrow> dhcp_at x;
          x1 \<leftarrow> poke 0 (dhcp_bytes (dhcp_fill s1 d)) x;
          x2 \<leftarrow> poke 240 options x1;
          (res, s2) \<leftarrow> udp_send_datagram sk (Some x2) (ucast payload_size) (Some dhcp_server) (put_buf p x2 s1);
          s3 \<leftarrow> net_kfree p s2;
          Some (if res > 0 then 0 else -3, s3)
        }
      })"

definition dhcp_send_discover :: "u64 \<Rightarrow> net \<Rightarrow> (int \<times> net) option" where
  "dhcp_send_discover = dhcp_send [53, 1, 1, 255]"

definition dhcp_send_request :: "u64 \<Rightarrow> u32 \<Rightarrow> net \<Rightarrow> (int \<times> net) option" where
  "dhcp_send_request sk requested_ip = dhcp_send ([53, 1, 3, 50, 4] @ le32 requested_ip @ [255]) sk"

text \<open>The walk over the options: the message type, the subnet mask and the gateway seen last.\<close>

definition rd8 :: "u8 list \<Rightarrow> nat \<Rightarrow> u8 option" where
  "rd8 x i = (if i < length x then Some (x ! i) else None)"

partial_function (option) dhcp_options ::
    "u8 list \<Rightarrow> u32 \<Rightarrow> u32 \<Rightarrow> u32 \<Rightarrow> u32 \<Rightarrow> u8 \<Rightarrow> (u32 \<times> u32 \<times> u8) option" where
  "dhcp_options x max_len idx subnet gateway ty =
     (if idx < max_len then do {
        t \<leftarrow> rd8 x (unat idx);
        if t = 255 then Some (subnet, gateway, ty)
        else if t = 0 then dhcp_options x max_len (idx + 1) subnet gateway ty
        else do {
          l \<leftarrow> rd8 x (unat (idx + 1));
          ty' \<leftarrow> (if t = 53 then rd8 x (unat (idx + 2)) else Some ty);
          subnet' \<leftarrow> (if t = 1 \<and> l = 4 then map_option (\<lambda>v. rd32 v 0) (peek 4 (drop (unat (idx + 2)) x)) else Some subnet);
          gateway' \<leftarrow> (if t = 3 \<and> l = 4 then map_option (\<lambda>v. rd32 v 0) (peek 4 (drop (unat (idx + 2)) x)) else Some gateway);
          dhcp_options x max_len (idx + (2 + ucast l)) subnet' gateway' ty'
        }
      }
      else Some (subnet, gateway, ty))"

text \<open>What an acknowledgement does: set up the interface, announce the address, close the socket.\<close>

definition dhcp_accept :: "u32 \<Rightarrow> u32 \<Rightarrow> u32 \<Rightarrow> net \<Rightarrow> net option" where
  "dhcp_accept ip subnet gateway s =
     do {
       let s1 = snd (net_set_interface_ip ip s);
       let s2 = (if subnet \<noteq> 0 then snd (net_set_interface_mask subnet s1) else s1);
       let s3 = (if gateway \<noteq> 0 then snd (net_set_interface_gateway gateway s2) else s2);
       (r, s4) \<leftarrow> arp_gratuitous ip s3;
       let s5 = snd (net_get_interface_init 0 True s4);
       sk \<leftarrow> socket_find_by_port (htons 68) SOCK_DGRAM s5;
       if sk \<noteq> 0 then do { (r', s6) \<leftarrow> socket_close sk s5; Some s6 } else Some s5
     }"

definition dhcp_input :: "u8 list option \<Rightarrow> u32 \<Rightarrow> net \<Rightarrow> (int \<times> net) option" where
  "dhcp_input data len s =
     (if data = None \<or> len < 240 then Some (-1, s)
      else do {
        d \<leftarrow> dhcp_at (the data);
        if ntohl (xid d) \<noteq> DHCP_DISCOVER_XID then Some (0, s)
        else if op d = DHCP_BOOTREPLY then do {
          (subnet, gateway, ty) \<leftarrow> dhcp_options (drop 240 (the data)) (len - 240) 0 0 0 0;
          if ty = 2 then do {
            sk \<leftarrow> socket_find_by_port (htons 68) SOCK_DGRAM s;
            if sk \<noteq> 0 then do { (r, s1) \<leftarrow> dhcp_send_request sk (yiaddr d) s; Some (0, s1) } else Some (0, s)
          }
          else if ty = 5 then do { s1 \<leftarrow> dhcp_accept (yiaddr d) subnet gateway s; Some (0, s1) }
          else Some (0, s)
        }
        else Some (0, s)
      })"

definition net_init_dhcp_client :: "net \<Rightarrow> (int \<times> net) option" where
  "net_init_dhcp_client s =
     do {
       (sk, s1) \<leftarrow> socket_create AF_INET SOCK_DGRAM 0 s;
       if sk = 0 then Some (-1, s1)
       else (case proto_ops (socks s1 sk) of
           Some g_af_inet_ops \<Rightarrow> do {
             (res, s2) \<leftarrow> af_inet_bind sk (Some (sin_bytes \<lparr>sin_family = 2, sin_port = htons 68, s_addr = 0, sin_zero = replicate 8 0\<rparr>)) 16 s1;
             if res \<noteq> 0 then Some (-2, s2)
             else do {
               (res', s3) \<leftarrow> dhcp_send_discover sk s2;
               Some (if res' \<noteq> 0 then -4 else 0, s3)
             }
           }
         | _ \<Rightarrow> Some (-3, s1))
     }"

definition net_clear_dhcp_leases :: "net \<Rightarrow> net option" where
  "net_clear_dhcp_leases s =
     do {
       let s1 = snd (net_set_interface_ip 0 s);
       let s2 = snd (net_set_interface_mask 0 s1);
       let s3 = snd (net_set_interface_gateway 0 s2);
       let s4 = snd (net_get_interface_init 0 False s3);
       sk \<leftarrow> socket_find_by_port (htons 68) SOCK_DGRAM s4;
       if sk \<noteq> 0 then do { (r, s5) \<leftarrow> socket_close sk s4; Some s5 } else Some s4
     }"

section \<open>Reception\<close>

text \<open>The loops that write bytes at \<open>rx_head\<close> and read bytes at \<open>rx_tail\<close>.\<close>

fun sock_put :: "u64 \<Rightarrow> u8 list \<Rightarrow> net \<Rightarrow> net option" where
  "sock_put sk [] s = Some s"
| "sock_put sk (b # bs) s =
     (let k = socks s sk; i = unat (rx_head k); x = bufs s (rx_buffer k) in
      if i < length x
      then sock_put sk bs (upd_sock sk (rx_head_update (\<lambda>h. (h + 1) mod SOCKET_BUFFER_SIZE)) (put_buf (rx_buffer k) (x[i := b]) s))
      else None)"

fun sock_get :: "u64 \<Rightarrow> nat \<Rightarrow> net \<Rightarrow> (u8 list \<times> net) option" where
  "sock_get sk 0 s = Some ([], s)"
| "sock_get sk (Suc n) s =
     (let k = socks s sk; i = unat (rx_tail k); x = bufs s (rx_buffer k) in
      if i < length x
      then do {
        (bs, s1) \<leftarrow> sock_get sk n (upd_sock sk (rx_tail_update (\<lambda>t. (t + 1) mod SOCKET_BUFFER_SIZE)) s);
        Some (x ! i # bs, s1)
      }
      else None)"

definition free_space :: "socket \<Rightarrow> u32" where
  "free_space k = (rx_tail k - rx_head k - 1 + SOCKET_BUFFER_SIZE) mod SOCKET_BUFFER_SIZE"

abbreviation wait_channel :: "u64 \<Rightarrow> u64" where "wait_channel sk \<equiv> sk + 632"

definition udp_deliver :: "u64 \<Rightarrow> u16 \<Rightarrow> u32 \<Rightarrow> u8 list \<Rightarrow> u32 \<Rightarrow> net \<Rightarrow> (int \<times> net) option" where
  "udp_deliver sk port src payload user_data_len s =
     (if free_space (socks s sk) < 20 + user_data_len then Some (-3, s)
      else do {
        let source_addr = \<lparr>sin_family = 2, sin_port = port, s_addr = src, sin_zero = replicate 8 0\<rparr>;
        s1 \<leftarrow> sock_put sk (le32 user_data_len) s;
        s2 \<leftarrow> sock_put sk (sin_bytes source_addr) s1;
        x \<leftarrow> peek (unat user_data_len) payload;
        s3 \<leftarrow> sock_put sk x s2;
        k \<leftarrow> wakeup (wait_channel sk) (krn s3);
        Some (0, s3\<lparr>krn := k\<rparr>)
      })"

definition udp_input :: transport where
  "udp_input data len src s =
     (if data = None \<or> len < 8 then Some (-1, s)
      else do {
        u \<leftarrow> udp_at (the data);
        let udp_len_field = (ucast (ntohs (udp_length u)) :: u32);
        if udp_len_field > len \<or> udp_len_field < 8 then Some (-2, s)
        else do {
          let user_data_len = udp_len_field - 8;
          sk \<leftarrow> socket_find_by_port (dest_port u) SOCK_DGRAM s;
          if sk = 0 \<or> rx_buffer (socks s sk) = 0 then Some (0, s)
          else if dest_port u = htons 68 then dhcp_input (Some (drop 8 (the data))) user_data_len s
          else udp_deliver sk (src_port u) src (drop 8 (the data)) user_data_len s
        }
      })"

text \<open>
  The result of one pass of a receive operation: the thread waits, or the call returns a code with
  the bytes stored in the caller's buffer and the address stored for the caller, if it is.
\<close>

datatype recv = Waits | Returns int "u8 list" "u8 list option"

definition store_addr :: "u64 option \<Rightarrow> u8 list \<Rightarrow> u8 list option" where
  "store_addr addrlen x = (case addrlen of Some n \<Rightarrow> if 16 \<le> n then Some (take 16 x) else None | None \<Rightarrow> None)"

definition recv_dgram :: "u64 \<Rightarrow> nat \<Rightarrow> u64 \<Rightarrow> u64 option \<Rightarrow> net \<Rightarrow> (recv \<times> net) option" where
  "recv_dgram sk buf len addrlen s =
     do {
       (lb, s1) \<leftarrow> sock_get sk 4 s;
       let user_data_len = rd32 lb 0;
       (ab, s2) \<leftarrow> sock_get sk 16 s1;
       let limit = (if ucast user_data_len < len then user_data_len else ucast len);
       if buf < unat limit then None
       else do {
         (d, s3) \<leftarrow> sock_get sk (unat limit) s2;
         let s4 = (if limit < user_data_len
           then upd_sock sk (rx_tail_update (\<lambda>t. (t + (user_data_len - limit)) mod SOCKET_BUFFER_SIZE)) s3 else s3);
         Some (Returns (int (length d)) d (store_addr addrlen ab), s4)
       }
     }"

fun sock_drain :: "u64 \<Rightarrow> nat \<Rightarrow> net \<Rightarrow> (u8 list \<times> net) option" where
  "sock_drain sk 0 s = Some ([], s)"
| "sock_drain sk (Suc n) s =
     (if rx_head (socks s sk) = rx_tail (socks s sk) then Some ([], s)
      else do { (b, s1) \<leftarrow> sock_get sk 1 s; (bs, s2) \<leftarrow> sock_drain sk n s1; Some (b @ bs, s2) })"

definition sock_wait :: "u64 \<Rightarrow> u64 \<Rightarrow> u64 \<Rightarrow> net \<Rightarrow> (recv \<times> net) option" where
  "sock_wait me sp sk s = do { (f, k) \<leftarrow> wait me sp (wait_channel sk) (krn s); Some (Waits, s\<lparr>krn := k\<rparr>) }"

definition af_inet_recvfrom ::
    "u64 \<Rightarrow> u64 \<Rightarrow> u64 \<Rightarrow> nat option \<Rightarrow> u64 \<Rightarrow> u64 option \<Rightarrow> net \<Rightarrow> (recv \<times> net) option" where
  "af_inet_recvfrom me sp sk buf len addrlen s =
     (let k = socks s sk in
      if sk = 0 \<or> buf = None \<or> len = 0 \<or> rx_buffer k = 0 then Some (Returns (-1) [] None, s)
      else if s_type k = SOCK_DGRAM then
        (if rx_head k = rx_tail k then sock_wait me sp sk s else recv_dgram sk (the buf) len addrlen s)
      else if s_type k = SOCK_STREAM then
        (if rx_head k = rx_tail k
         then if s_state k = TCP_STATE_ESTABLISHED then sock_wait me sp sk s else Some (Returns 0 [] None, s)
         else do {
           (d, s1) \<leftarrow> sock_drain sk (unat len) s;
           if the buf < length d then None
           else Some (Returns (int (length d)) d (if d \<noteq> [] then store_addr addrlen (remote_addr k) else None), s1)
         })
      else Some (Returns 0 [] None, s))"

section \<open>The bytes that wait in a socket\<close>

abbreviation sock_buf :: "net \<Rightarrow> u64 \<Rightarrow> u8 list" where "sock_buf s sk \<equiv> bufs s (rx_buffer (socks s sk))"

definition sock_ring :: "net \<Rightarrow> u64 \<Rightarrow> bool" where
  "sock_ring s sk \<longleftrightarrow> rx_buffer (socks s sk) \<noteq> 0 \<and>
     ring_ok 16384 (unat (rx_head (socks s sk))) (unat (rx_tail (socks s sk))) (sock_buf s sk)"

definition sock_bytes :: "net \<Rightarrow> u64 \<Rightarrow> u8 list" where
  "sock_bytes s sk = ring_items 16384 (unat (rx_head (socks s sk))) (unat (rx_tail (socks s sk))) (sock_buf s sk)"

lemma unat_index: "unat h < 16384 \<Longrightarrow> unat ((h + 1) mod 16384 :: u32) = Suc (unat h) mod 16384"
  using unat_next [of h 16384] by simp

lemma sock_ringD:
  assumes "sock_ring s sk"
  shows "unat (rx_head (socks s sk)) < 16384" "unat (rx_tail (socks s sk)) < 16384" "length (sock_buf s sk) = 16384"
    "rx_buffer (socks s sk) \<noteq> 0"
  using assms by (simp_all add: sock_ring_def ring_ok_def)

lemma sock_bytes_empty:
  assumes "sock_ring s sk"
  shows "rx_head (socks s sk) = rx_tail (socks s sk) \<longleftrightarrow> sock_bytes s sk = []"
  using ring_count_empty [OF sock_ringD(1,2) [OF assms]] length_ring_items
  by (metis length_0_conv sock_bytes_def word_unat_eq_iff)

lemma sock_put_spec:
  assumes "sock_ring s sk" "length (sock_bytes s sk) + length bs < 16384"
  shows "\<exists>s' h y. sock_put sk bs s = Some s' \<and> sock_ring s' sk \<and> sock_bytes s' sk = sock_bytes s sk @ bs \<and>
    s' = s\<lparr>socks := (socks s)(sk := (socks s sk)\<lparr>rx_head := h\<rparr>), bufs := (bufs s)(rx_buffer (socks s sk) := y)\<rparr>"
  using assms
proof (induction bs arbitrary: s)
  case (Cons b bs)
  let ?k = "socks s sk"
  let ?h = "unat (rx_head ?k)" and ?t = "unat (rx_tail ?k)"
  let ?s1 = "upd_sock sk (rx_head_update (\<lambda>h. (h + 1) mod SOCKET_BUFFER_SIZE)) (put_buf (rx_buffer ?k) ((sock_buf s sk)[?h := b]) s)"
  note d = sock_ringD [OF Cons.prems(1)]
  have c: "ring_count 16384 ?h ?t + length (b # bs) < 16384" using Cons.prems(2) by (simp add: sock_bytes_def)
  have ne: "Suc ?h mod 16384 \<noteq> ?t" using ring_count_full [OF d(1,2)] c by auto
  from Cons.prems(1) have "ring_ok 16384 ?h ?t (sock_buf s sk)" by (simp add: sock_ring_def)
  note p = ring_push [OF this ne, of b]
  have r: "sock_ring ?s1 sk" "sock_bytes ?s1 sk = sock_bytes s sk @ [b]"
    using p d(4) unat_index [OF d(1)] by (simp_all add: sock_ring_def sock_bytes_def)
  have "length (sock_bytes ?s1 sk) + length bs < 16384" using Cons.prems(2) r(2) by simp
  from Cons.IH [OF r(1) this] obtain s' h y where
    s': "sock_put sk bs ?s1 = Some s'" "sock_ring s' sk" "sock_bytes s' sk = sock_bytes s sk @ b # bs"
      "s' = ?s1\<lparr>socks := (socks ?s1)(sk := (socks ?s1 sk)\<lparr>rx_head := h\<rparr>), bufs := (bufs ?s1)(rx_buffer (socks ?s1 sk) := y)\<rparr>"
    unfolding r(2) append_assoc append.simps by blast
  have "sock_put sk (b # bs) s = Some s'" using s'(1) d(1,3) by (simp add: Let_def)
  moreover have "s' = s\<lparr>socks := (socks s)(sk := ?k\<lparr>rx_head := h\<rparr>), bufs := (bufs s)(rx_buffer ?k := y)\<rparr>"
    using s'(4) by simp
  ultimately show ?case using s'(2,3) by blast
next
  case Nil
  then show ?case by (intro exI [of _ s] exI [of _ "rx_head (socks s sk)"] exI [of _ "sock_buf s sk"]) simp
qed

lemma sock_put_append: "sock_put sk (xs @ ys) s = do { s1 \<leftarrow> sock_put sk xs s; sock_put sk ys s1 }"
  by (induction xs arbitrary: s) (simp_all add: Let_def)

lemma sock_get_spec:
  assumes "sock_ring s sk" "sock_bytes s sk = bs @ cs" "n = length bs"
  shows "\<exists>s' t. sock_get sk n s = Some (bs, s') \<and> sock_ring s' sk \<and> sock_bytes s' sk = cs \<and>
    s' = s\<lparr>socks := (socks s)(sk := (socks s sk)\<lparr>rx_tail := t\<rparr>)\<rparr>"
  using assms
proof (induction bs arbitrary: s n)
  case (Cons b bs)
  let ?k = "socks s sk"
  let ?h = "unat (rx_head ?k)" and ?t = "unat (rx_tail ?k)"
  let ?s1 = "upd_sock sk (rx_tail_update (\<lambda>t. (t + 1) mod SOCKET_BUFFER_SIZE)) s"
  note d = sock_ringD [OF Cons.prems(1)]
  have "rx_head ?k \<noteq> rx_tail ?k" using sock_bytes_empty [OF Cons.prems(1)] Cons.prems(2) by simp
  then have ne: "?h \<noteq> ?t" by (simp add: word_unat_eq_iff)
  from Cons.prems(1) have ok: "ring_ok 16384 ?h ?t (sock_buf s sk)" by (simp add: sock_ring_def)
  from ring_pop [OF ok ne] Cons.prems(2) have
    v: "sock_buf s sk ! ?t = b" "ring_items 16384 ?h (Suc ?t mod 16384) (sock_buf s sk) = bs @ cs" by (simp_all add: sock_bytes_def)
  have r: "sock_ring ?s1 sk" "sock_bytes ?s1 sk = bs @ cs"
    using ok d(4) v(2) unat_index [OF d(2)] by (simp_all add: sock_ring_def sock_bytes_def ring_ok_def)
  from Cons.IH [OF r refl] obtain s' t where
    s': "sock_get sk (length bs) ?s1 = Some (bs, s')" "sock_ring s' sk" "sock_bytes s' sk = cs"
      "s' = ?s1\<lparr>socks := (socks ?s1)(sk := (socks ?s1 sk)\<lparr>rx_tail := t\<rparr>)\<rparr>" by blast
  have "sock_get sk n s = Some (b # bs, s')" using s'(1) d(2,3) v(1) Cons.prems(3) by (simp add: Let_def)
  moreover have "s' = s\<lparr>socks := (socks s)(sk := ?k\<lparr>rx_tail := t\<rparr>)\<rparr>" using s'(4) by simp
  ultimately show ?case using s'(2,3) by blast
next
  case Nil
  then show ?case by (intro exI [of _ s] exI [of _ "rx_tail (socks s sk)"]) simp
qed

text \<open>Skipping is reading and dropping.\<close>

lemma sock_skip_spec:
  assumes "sock_ring s sk" "sock_bytes s sk = bs @ cs" "unat n = length bs"
    and s': "s' = upd_sock sk (rx_tail_update (\<lambda>t. (t + n) mod SOCKET_BUFFER_SIZE)) s"
  shows "sock_ring s' sk \<and> sock_bytes s' sk = cs"
proof -
  let ?h = "unat (rx_head (socks s sk))" and ?t = "unat (rx_tail (socks s sk))"
  note d = sock_ringD [OF assms(1)]
  from assms(1) have ok: "ring_ok 16384 ?h ?t (sock_buf s sk)" by (simp add: sock_ring_def)
  from ring_read_items [OF ok] assms(2) obtain t where
    t: "ring_read 16384 (length bs) ?t (sock_buf s sk) = (bs, t)" "ring_ok 16384 ?h t (sock_buf s sk)"
      "ring_items 16384 ?h t (sock_buf s sk) = cs" by (auto simp: sock_bytes_def)
  have "length bs \<le> length (sock_bytes s sk)" using assms(2) by simp
  also have "\<dots> < 16384" using ring_count_less [OF d(1), of ?t] by (simp add: sock_bytes_def)
  finally have "unat ((rx_tail (socks s sk) + n) mod 16384) = (?t + length bs) mod 16384"
    using d(2) assms(3) by (simp add: unat_mod unat_add_nowrap)
  also have "\<dots> = t" using ring_read_index [OF d(2), of "length bs" "sock_buf s sk"] t(1) by simp
  finally show ?thesis using t(2,3) d(4) by (simp add: s' sock_ring_def sock_bytes_def)
qed

lemma unat_free_space:
  assumes "sock_ring s sk"
  shows "unat (free_space (socks s sk)) = 16383 - length (sock_bytes s sk)"
proof -
  let ?k = "socks s sk"
  let ?h = "unat (rx_head ?k)" and ?t = "unat (rx_tail ?k)"
  note d = sock_ringD(1,2) [OF assms]
  have e: "rx_tail ?k - rx_head ?k - 1 + 16384 = of_nat (?t + 16383 - ?h)"
    using d(1) by (simp add: of_nat_diff)
  have "unat (rx_tail ?k - rx_head ?k - 1 + 16384) = ?t + 16383 - ?h"
    unfolding e by (rule unat_of_nat_id) (use d(2) in simp)
  then have "unat (free_space ?k) = (?t + 16383 - ?h) mod 16384" by (simp add: free_space_def unat_mod)
  also have "\<dots> = 16383 - ring_count 16384 ?h ?t"
  proof (cases "?t \<le> ?h")
    case True
    then have "?t + 16383 - ?h < 16384" by linarith
    with True d show ?thesis by (simp add: ring_count_cases)
  next
    case False
    then have "?t + 16383 - ?h = (?t - 1 - ?h) + 16384" by linarith
    moreover have "?t - 1 - ?h < 16384" using d by linarith
    ultimately have "(?t + 16383 - ?h) mod 16384 = ?t - 1 - ?h" by (metis mod_add_self2 mod_less)
    with False d show ?thesis by (simp add: ring_count_cases)
  qed
  finally show ?thesis by (simp add: sock_bytes_def)
qed

section \<open>A socket is a queue of datagrams\<close>

type_synonym dgram = "sockaddr_in \<times> u8 list"

fun dgram_image :: "dgram \<Rightarrow> u8 list" where
  "dgram_image (a, d) = le32 (of_nat (length d)) @ sin_bytes a @ d"

fun dgram_wf :: "dgram \<Rightarrow> bool" where
  "dgram_wf (a, d) \<longleftrightarrow> length (sin_zero a) = 8 \<and> length d < 2 ^ 32"

definition dgrams :: "net \<Rightarrow> u64 \<Rightarrow> dgram list \<Rightarrow> bool" where
  "dgrams s sk qs \<longleftrightarrow> sock_ring s sk \<and> sock_bytes s sk = concat (map dgram_image qs) \<and> (\<forall>q\<in>set qs. dgram_wf q)"

abbreviation queue_size :: "dgram list \<Rightarrow> nat" where
  "queue_size qs \<equiv> length (concat (map dgram_image qs))"

lemma sin_bytes_length [simp]: "length (sin_zero a) = 8 \<Longrightarrow> length (sin_bytes a) = 16"
  by (simp add: sin_bytes_def)

lemma sock_ring_cong:
  assumes "socks t sk = socks s sk" "sock_buf t sk = sock_buf s sk"
  shows "sock_ring t sk = sock_ring s sk" "sock_bytes t sk = sock_bytes s sk"
  using assms by (simp_all add: sock_ring_def sock_bytes_def)

lemma udp_deliver_full:
  assumes q: "dgrams s sk qs" and n: "unat n \<le> 65527" and full: "16383 < queue_size qs + 20 + unat n"
  shows "udp_deliver sk port src x n s = Some (-3, s)"
proof -
  have "unat (20 + n) = 20 + unat n" using n by (simp add: unat_add_nowrap)
  then have "free_space (socks s sk) < 20 + n"
    using q full unat_free_space [of s sk] by (simp add: dgrams_def word_less_nat_alt)
  then show ?thesis by (simp add: udp_deliver_def)
qed

lemma udp_deliver_spec:
  assumes q: "dgrams s sk qs" and n: "unat n \<le> length x" "queue_size qs + 20 + unat n \<le> 16383"
    and k: "kinv ps T Q (krn s)" "wait_channel sk \<noteq> 0"
    and a: "a = \<lparr>sin_family = 2, sin_port = port, s_addr = src, sin_zero = replicate 8 0\<rparr>"
  shows "\<exists>s' h y Q'. udp_deliver sk port src x n s = Some (0, s') \<and> dgrams s' sk (qs @ [(a, take (unat n) x)]) \<and>
    kinv ps T Q' (krn s') \<and> heap (krn s') = heap (krn s) \<and>
    (\<forall>t. th_state (threads (krn s') t) = (if \<exists>p\<in>set ps. t = main_thread (procs (krn s) p) \<and> waits_on (wait_channel sk) (krn s) t
       then THREAD_READY else th_state (threads (krn s) t))) \<and>
    s' = s\<lparr>krn := krn s', socks := (socks s)(sk := (socks s sk)\<lparr>rx_head := h\<rparr>),
      bufs := (bufs s)(rx_buffer (socks s sk) := y)\<rparr>"
proof -
  let ?d = "take (unat n) x"
  have r: "sock_ring s sk" "sock_bytes s sk = concat (map dgram_image qs)" using q by (simp_all add: dgrams_def)
  have az: "length (sin_bytes a) = 16" unfolding a by (simp add: sin_bytes_def)
  have "unat (20 + n) = 20 + unat n" using n by (simp add: unat_add_nowrap)
  then have room: "\<not> free_space (socks s sk) < 20 + n"
    using n(2) r unat_free_space [of s sk] by (simp add: word_less_nat_alt)
  from sock_put_spec [OF r(1), of "le32 n @ sin_bytes a @ ?d"] n r(2) az obtain s3 h y where
    s3: "sock_put sk (le32 n @ sin_bytes a @ ?d) s = Some s3" "sock_ring s3 sk" "sock_bytes s3 sk = sock_bytes s sk @ le32 n @ sin_bytes a @ ?d"
      "s3 = s\<lparr>socks := (socks s)(sk := (socks s sk)\<lparr>rx_head := h\<rparr>), bufs := (bufs s)(rx_buffer (socks s sk) := y)\<rparr>" by auto
  from s3(1) obtain s1 s2 where s12: "sock_put sk (le32 n) s = Some s1" "sock_put sk (sin_bytes a) s1 = Some s2" "sock_put sk ?d s2 = Some s3"
    by (auto simp: sock_put_append bind_eq_Some_conv)
  have k3: "krn s3 = krn s" by (simp add: s3(4))
  from wakeup_spec [OF k] obtain kr Q' where
    w: "wakeup (wait_channel sk) (krn s) = Some kr" "kinv ps T Q' kr" and hp: "sched_frame (krn s) kr" and w3:
      "\<forall>t. th_state (threads kr t) = (if \<exists>p\<in>set ps. t = main_thread (procs (krn s) p) \<and> waits_on (wait_channel sk) (krn s) t
         then THREAD_READY else th_state (threads (krn s) t))" by blast
  let ?s' = "s3\<lparr>krn := kr\<rparr>"
  have p: "peek (unat n) x = Some ?d" using n(1) by (simp add: peek_def)
  have "udp_deliver sk port src x n s = Some (0, ?s')"
    using room s12 w(1) k3 unfolding udp_deliver_def a [symmetric] Let_def by (simp add: p)
  moreover have "dgram_image (a, ?d) = le32 n @ sin_bytes a @ ?d" using n(1) by simp
  then have "dgrams ?s' sk (qs @ [(a, ?d)])"
    using q s3(2,3) r(2) n(2) sock_ring_cong [of ?s' sk s3] a by (simp add: dgrams_def)
  moreover have "?s' = s\<lparr>krn := krn ?s', socks := (socks s)(sk := (socks s sk)\<lparr>rx_head := h\<rparr>),
      bufs := (bufs s)(rx_buffer (socks s sk) := y)\<rparr>" by (simp add: s3(4))
  moreover have "heap kr = heap (krn s)" using hp by (simp add: sched_frame_def)
  ultimately show ?thesis using w(2) w3 by (intro exI [of _ ?s'] exI [of _ h] exI [of _ y] exI [of _ Q']) simp
qed

text \<open>Reading a record into a buffer that may be too short: the rest of the record is skipped.\<close>

lemma recv_limited:
  assumes r: "sock_ring s sk" "sock_bytes s sk = d @ rest" and d: "length d < 2 ^ 32" and n: "n = (of_nat (length d) :: u32)"
    and limit: "limit = (if ucast n < (len :: u64) then n else ucast len)"
  shows "unat limit = min (length d) (unat len) \<and> (\<exists>s1 s2 t. sock_get sk (unat limit) s = Some (take (unat len) d, s1) \<and>
    s2 = (if limit < n then upd_sock sk (rx_tail_update (\<lambda>t. (t + (n - limit)) mod SOCKET_BUFFER_SIZE)) s1 else s1) \<and>
    sock_ring s2 sk \<and> sock_bytes s2 sk = rest \<and> s2 = s\<lparr>socks := (socks s)(sk := (socks s sk)\<lparr>rx_tail := t\<rparr>)\<rparr>)"
proof -
  let ?m = "min (length d) (unat len)"
  have un: "unat n = length d" unfolding n by (rule unat_of_nat_id) (use d in simp)
  then have un64: "unat (ucast n :: u64) = length d" using d by (simp add: unsigned_ucast_eq take_bit_nat_eq_self)
  have lim: "unat limit = ?m"
  proof (cases "length d < unat len")
    case True
    then show ?thesis using un un64 by (simp add: limit word_less_nat_alt)
  next
    case False
    then have "unat len < 2 ^ 32" using d by linarith
    then have "unat (ucast len :: u32) = unat len" by (simp add: unsigned_ucast_eq take_bit_nat_eq_self)
    then show ?thesis using False un un64 by (simp add: limit word_less_nat_alt)
  qed
  have tk: "take ?m d = take (unat len) d" by (simp add: min_def)
  have "sock_bytes s sk = take ?m d @ drop ?m d @ rest" using r(2) by simp
  from sock_get_spec [OF r(1) this, of ?m] obtain s1 t1 where
    s1: "sock_get sk ?m s = Some (take ?m d, s1)" "sock_ring s1 sk" "sock_bytes s1 sk = drop ?m d @ rest"
      "s1 = s\<lparr>socks := (socks s)(sk := (socks s sk)\<lparr>rx_tail := t1\<rparr>)\<rparr>" by auto
  let ?s2 = "if limit < n then upd_sock sk (rx_tail_update (\<lambda>t. (t + (n - limit)) mod SOCKET_BUFFER_SIZE)) s1 else s1"
  have "sock_ring ?s2 sk \<and> sock_bytes ?s2 sk = rest"
  proof (cases "limit < n")
    case True
    then have "unat (n - limit) = length (drop ?m d)" using lim un by (simp add: unat_sub word_less_nat_alt less_imp_le)
    from sock_skip_spec [OF s1(2,3) this refl] True show ?thesis by simp
  next
    case False
    then have "?m = length d" using lim un by (auto simp: word_less_nat_alt)
    then show ?thesis using False s1(2,3) by simp
  qed
  moreover have "?s2 = s\<lparr>socks := (socks s)(sk := (socks s sk)\<lparr>rx_tail := rx_tail (socks ?s2 sk)\<rparr>)\<rparr>" by (simp add: s1(4) comp_def)
  ultimately show ?thesis using lim s1(1) tk by auto
qed

lemma recv_dgram_spec:
  assumes q: "dgrams s sk ((a, d) # qs)" and b: "min (length d) (unat len) \<le> buf"
  shows "\<exists>s' t. recv_dgram sk buf len addrlen s =
      Some (Returns (int (min (length d) (unat len))) (take (unat len) d) (store_addr addrlen (sin_bytes a)), s') \<and>
    dgrams s' sk qs \<and> s' = s\<lparr>socks := (socks s)(sk := (socks s sk)\<lparr>rx_tail := t\<rparr>)\<rparr>"
proof -
  let ?n = "of_nat (length d) :: u32" and ?m = "min (length d) (unat len)"
  let ?rest = "concat (map dgram_image qs)"
  have r: "sock_ring s sk" "sock_bytes s sk = le32 ?n @ sin_bytes a @ d @ ?rest" and wf: "length (sin_zero a) = 8" "length d < 2 ^ 32"
    and qs: "\<forall>q\<in>set qs. dgram_wf q" using q by (auto simp: dgrams_def)
  from sock_get_spec [OF r(1) r(2), of 4] obtain s1 t1 where
    s1: "sock_get sk 4 s = Some (le32 ?n, s1)" "sock_ring s1 sk" "sock_bytes s1 sk = sin_bytes a @ d @ ?rest"
      "s1 = s\<lparr>socks := (socks s)(sk := (socks s sk)\<lparr>rx_tail := t1\<rparr>)\<rparr>" by auto
  from sock_get_spec [OF s1(2,3), of 16] wf(1) obtain s2 t2 where
    s2: "sock_get sk 16 s1 = Some (sin_bytes a, s2)" "sock_ring s2 sk" "sock_bytes s2 sk = d @ ?rest"
      "s2 = s\<lparr>socks := (socks s)(sk := (socks s sk)\<lparr>rx_tail := t2\<rparr>)\<rparr>" by (auto simp: s1(4))
  define limit where "limit = (if ucast ?n < len then ?n else ucast len)"
  from recv_limited [OF s2(2,3) wf(2) refl limit_def] obtain s3 s4 t where
    lim: "unat limit = ?m" and s3: "sock_get sk (unat limit) s2 = Some (take (unat len) d, s3)" and
    s4: "s4 = (if limit < ?n then upd_sock sk (rx_tail_update (\<lambda>t. (t + (?n - limit)) mod SOCKET_BUFFER_SIZE)) s3 else s3)"
      "sock_ring s4 sk" "sock_bytes s4 sk = ?rest" "s4 = s2\<lparr>socks := (socks s2)(sk := (socks s2 sk)\<lparr>rx_tail := t\<rparr>)\<rparr>" by blast
  have rd: "rd32 (le32 ?n) 0 = ?n" by (simp add: le32_def rd32_def)
  have nb: "\<not> buf < unat limit" using b unfolding lim by (rule leD)
  have "recv_dgram sk buf len addrlen s = Some (Returns (int ?m) (take (unat len) d) (store_addr addrlen (sin_bytes a)), s4)"
    unfolding recv_dgram_def Let_def s1(1) bind.bind_lunit prod.case s2(1) rd limit_def [symmetric] s3 if_not_P [OF nb] s4(1)
    by simp
  moreover have "s4 = s\<lparr>socks := (socks s)(sk := (socks s sk)\<lparr>rx_tail := t\<rparr>)\<rparr>" unfolding s4(4) s2(4) by simp
  moreover have "dgrams s4 sk qs" using s4(2,3) qs by (simp add: dgrams_def)
  ultimately show ?thesis by (intro exI [of _ s4] exI [of _ t] conjI)
qed

section \<open>Datagrams on the wire\<close>

definition udp_image :: "u16 \<Rightarrow> u16 \<Rightarrow> u8 list \<Rightarrow> u8 list" where
  "udp_image sport dport d =
     udp_bytes \<lparr>src_port = sport, dest_port = dport, udp_length = htons (of_nat (8 + length d)), udp_checksum = 0\<rparr> @ d"

lemma length_udp_image [simp]: "length (udp_image sp dp d) = 8 + length d"
  by (simp add: udp_image_def)

text \<open>A datagram to a neighbour whose hardware address is known, or to everyone.\<close>

lemma udp_send_spec:
  assumes room: "net_room k s" "round16 (8 + length d) + round16 (42 + length d) + 48 \<le> k"
    and d: "0 < length d" "length d \<le> 1472" and sk: "sk \<noteq> 0"
    and act: "if_status 0 s = 0" and hop: "next_hop s (s_addr dest) = Some m"
    and f: "f = ip_frame m IPPROTO_UDP (s_addr dest) (udp_image (sock_port (socks s sk)) (sin_port dest) d) s"
  shows "\<exists>s'. udp_send_datagram sk (Some (d @ y)) (of_nat (length d)) (Some dest) s =
      Some (if tx_result f s < 0 \<and> tx_result f s \<noteq> -11 then -4 else int (length d), s') \<and>
    quiet (bump s) s' \<and> net_room (k - round16 (8 + length d) - 32) s' \<and> sent s' = tx_sent [f] s"
proof -
  let ?z = "udp_image (sock_port (socks s sk)) (sin_port dest) d"
  let ?len = "of_nat (length d) :: u64"
  define sz where "sz = (ucast (8 + ?len) :: u32)"
  have ul: "unat ?len = length d" by (rule unat_of_nat_id) (use d(2) in simp)
  then have "unat (8 + ?len) = 8 + length d" using d(2) by (simp add: unat_add_nowrap)
  then have usz: "unat sz = 8 + length d" using d(2) by (simp add: sz_def unsigned_ucast_eq take_bit_nat_eq_self)
  have "of_nat (unat sz) = sz" by simp
  with usz have sz: "sz = of_nat (length ?z)" by simp
  have z: "round16 (length ?z) + round16 (34 + length ?z) + 48 \<le> k" "0 < length ?z" "length ?z \<le> 1480"
    using room(2) d(2) by (simp_all add: add.commute)
  from ip_send_temp [OF room(1) z(1) sz z(2,3) act hop f] obtain p s1 s3 s4 where
    a: "net_kmalloc sz s = Some (p, s1)" "p \<noteq> 0" "length (bufs s1 p) = 8 + length d" "same_stack s s1"
      "ip_output (s_addr dest) IPPROTO_UDP (Some ?z) sz (put_buf p ?z s1) = Some (tx_result f s, s3)" "net_kfree p s3 = Some s4"
      "quiet (bump s) s4" "net_room (k - round16 (8 + length d) - 32) s4" "sent s4 = tx_sent [f] s"
    unfolding length_udp_image by blast
  have uu: "unat (20 + (ucast sz :: u64)) = 28 + length d"
    using usz d(2) by (simp add: unat_add_nowrap unsigned_ucast_eq take_bit_nat_eq_self)
  then have mtu: "\<not> 20 + (ucast sz :: u64) > 1500" using d(2) by (simp add: word_less_nat_alt)
  have nz: "?len \<noteq> 0" using ul d(1) by (metis less_irrefl unat_0)
  have sint: "sint ?len = int (length d)"
  proof -
    have "uint ?len = int (unat ?len)" by simp
    then show ?thesis unfolding sint_uint ul using d(2) by (simp only:) (rule signed_take_bit_int_eq_self, simp_all)
  qed
  obtain u where u: "udp_at (bufs s1 p) = Some u" using a(3) by (simp add: udp_at_def)
  let ?u = "u\<lparr>src_port := sock_port (socks s sk), dest_port := sin_port dest, udp_length := htons (ucast sz), udp_checksum := 0\<rparr>"
  have us: "(ucast sz :: u16) = of_nat (8 + length d)"
  proof -
    have "unat (ucast sz :: u16) = 8 + length d" using usz d(2) by (simp add: unsigned_ucast_eq take_bit_nat_eq_self)
    then have "(of_nat (unat (ucast sz :: u16)) :: u16) = of_nat (8 + length d)" by (rule arg_cong)
    then show ?thesis by simp
  qed
  have x: "bufs s1 p = take 8 (bufs s1 p) @ drop 8 (bufs s1 p)" by simp
  have p1: "poke 0 (udp_bytes ?u) (bufs s1 p) = Some (udp_bytes ?u @ drop 8 (bufs s1 p))" using a(3) by (simp add: poke_def)
  have p2: "poke 8 d (udp_bytes ?u @ drop 8 (bufs s1 p)) = Some ?z"
    using a(3) by (cases u) (simp add: poke_def udp_image_def us)
  have pk: "peek (unat ?len) (d @ y) = Some d" unfolding ul by (simp add: peek_def)
  have "udp_send_datagram sk (Some (d @ y)) ?len (Some dest) s =
    Some (if tx_result f s < 0 \<and> tx_result f s \<noteq> -11 then -4 else sint ?len, s4)"
    unfolding udp_send_datagram_def sz_def [symmetric] Let_def
    using sk nz mtu a(2) by (simp add: a(1,5,6) same_stackD(6) [OF a(4)] u p1 p2 pk)
  then show ?thesis using a(7-9) unfolding sint by blast
qed

text \<open>A datagram that reaches a bound socket of the receiver.\<close>

lemma udp_input_accepts:
  assumes b: "bound_ok t ks" and f: "List.find (\<lambda>k. on_port SOCK_DGRAM dport (socks t k)) ks = Some sk"
    and d: "length d \<le> 65527" and dp: "dport \<noteq> htons 68" and rx: "rx_buffer (socks t sk) \<noteq> 0"
    and n: "8 + of_nat (length d) \<le> n"
  shows "udp_input (Some (udp_image sport dport d @ y)) n src t = udp_deliver sk sport src (d @ y) (of_nat (length d)) t"
proof -
  have "unat (of_nat (8 + length d) :: u16) = 8 + length d" by (rule unat_of_nat_id) (use d in simp)
  then have "unat (ucast (of_nat (8 + length d) :: u16) :: u32) = 8 + length d"
    using d by (simp add: unsigned_ucast_eq take_bit_nat_eq_self)
  moreover have "unat (8 + of_nat (length d) :: u32) = 8 + length d" using d by (simp add: unat_add_nowrap unat_of_nat_id)
  ultimately have l: "ucast (of_nat (8 + length d) :: u16) = (8 + of_nat (length d) :: u32)" by (metis word_unat_eq_iff)
  have ul: "unat (8 + of_nat (length d) :: u32) = 8 + length d" by fact
  then have g: "\<not> (8 + of_nat (length d) :: u32) > n" "\<not> (8 + of_nat (length d) :: u32) < 8" "\<not> n < 8"
    using n by (auto simp: word_less_nat_alt word_le_nat_alt)
  have find: "socket_find_by_port dport SOCK_DGRAM t = Some sk" using find_by_port_chain [OF b] f by simp
  have "sk \<in> set ks" using f by (auto simp: find_Some_iff)
  then have "sk \<noteq> 0" using chain_nonzero b by (fastforce simp: bound_ok_def)
  moreover have at: "udp_at (udp_image sport dport d @ y) =
    Some \<lparr>src_port = sport, dest_port = dport, udp_length = htons (of_nat (8 + length d)), udp_checksum = 0\<rparr>"
    unfolding udp_image_def append_assoc by (rule udp_at_bytes)
  moreover have "drop 8 (udp_image sport dport d @ y) = d @ y" by (simp add: udp_image_def)
  ultimately show ?thesis using g dp rx
    by (simp add: udp_input_def Let_def find l [simplified])
qed

section \<open>Configuration messages\<close>

definition dhcp_zero :: dhcp_header where
  "dhcp_zero = \<lparr>op = 0, htype = 0, hlen = 0, hops = 0, xid = 0, secs = 0, dhcp_flags = 0, ciaddr = 0, yiaddr = 0, siaddr = 0,
     giaddr = 0, chaddr = replicate 16 0, sname = replicate 64 0, boot_file = replicate 128 0, magic_cookie = 0\<rparr>"

definition dhcp_image :: "net \<Rightarrow> u8 list \<Rightarrow> u8 list" where
  "dhcp_image s opts = dhcp_bytes (dhcp_fill s dhcp_zero) @ opts"

lemma dhcp_length: "length (chaddr d) = 16 \<Longrightarrow> length (sname d) = 64 \<Longrightarrow> length (boot_file d) = 128 \<Longrightarrow> length (dhcp_bytes d) = 240"
  by (simp add: dhcp_bytes_def)

lemma length_dhcp_image [simp]: "length (dhcp_image s opts) = 240 + length opts"
proof -
  have "length (dhcp_bytes (dhcp_fill s dhcp_zero)) = 240" by (rule dhcp_length) (simp_all add: dhcp_fill_def dhcp_zero_def)
  then show ?thesis by (simp add: dhcp_image_def)
qed

lemma zero_bytes: "i + 1 < n \<Longrightarrow> rd16 (replicate n 0) i = 0" "i + 3 < n \<Longrightarrow> rd32 (replicate n 0) i = 0"
  by (simp_all add: rd16_def rd32_def)

lemma dhcp_at_zero: "240 \<le> n \<Longrightarrow> dhcp_at (replicate n 0) = Some dhcp_zero"
  by (auto simp: dhcp_at_def dhcp_zero_def zero_bytes min_def dest!: le_Suc_ex)

lemma dhcp_fill_cong: "same_stack s t \<Longrightarrow> dhcp_fill t d = dhcp_fill s d"
  using same_stackD(7) [of s t "mac_of 0"] by (simp add: dhcp_fill_def our_mac_def)

lemma dhcp_send_spec:
  assumes room: "net_room k s" "round16 (240 + length opts) + round16 (248 + length opts) + round16 (282 + length opts) + 96 \<le> k"
    and n: "length opts \<le> 1232" and sk: "sk \<noteq> 0" and act: "if_status 0 s = 0"
    and f: "f = ip_frame (mac_of 0xFF) IPPROTO_UDP 0xFFFFFFFF (udp_image (sock_port (socks s sk)) (htons 67) (dhcp_image s opts)) s"
  shows "\<exists>s'. dhcp_send opts sk s = Some (if tx_result f s < 0 \<and> tx_result f s \<noteq> -11 then -3 else 0, s') \<and>
    quiet (bump s) s' \<and> sent s' = tx_sent [f] s"
proof -
  let ?z = "dhcp_image s opts"
  let ?sz = "240 + of_nat (length opts) :: u32"
  let ?r = "if tx_result f s < 0 \<and> tx_result f s \<noteq> -11 then -4 else int (length ?z)"
  let ?j = "k - round16 (240 + length opts) - 32 - round16 (248 + length opts) - 32"
  have usz: "unat ?sz = 240 + length opts" using n by (simp add: unat_add_nowrap unat_of_nat_id)
  have "(of_nat (unat (ucast ?sz :: u64)) :: u64) = of_nat (240 + length opts)"
    using usz n by (intro arg_cong [where f = of_nat]) (simp add: unsigned_ucast_eq take_bit_nat_eq_self)
  then have len: "(ucast ?sz :: u64) = of_nat (length ?z)" by simp
  have srv: "s_addr dhcp_server = 0xFFFFFFFF" "sin_port dhcp_server = htons 67" by (simp_all add: dhcp_server_def htonl_def)
  have body: "\<exists>u. udp_send_datagram sk (Some ?z) (ucast ?sz) (Some dhcp_server) t = Some (?r, u) \<and> quiet (bump t) u \<and>
      net_room ?j u \<and> sent u = tx_sent [f] s"
    if t: "same_stack s t" "net_room (k - round16 (unat ?sz) - 32) t" for t
  proof -
    note c = same_stackD [OF t(1)]
    have h: "next_hop t (s_addr dhcp_server) = Some (mac_of 0xFF)" by (simp add: next_hop_def srv)
    have rm: "net_room (k - round16 (240 + length opts) - 32) t"
      "round16 (8 + length ?z) + round16 (42 + length ?z) + 48 \<le> k - round16 (240 + length opts) - 32"
      using t(2) usz room(2) by simp_all
    have ft: "f = ip_frame (mac_of 0xFF) IPPROTO_UDP (s_addr dhcp_server)
      (udp_image (sock_port (socks t sk)) (sin_port dhcp_server) ?z) t" unfolding c srv f ..
    have dz: "0 < length ?z" "length ?z \<le> 1472" using n by simp_all
    from udp_send_spec [OF rm dz sk _ h ft, of "[]"] act show ?thesis unfolding len c by simp
  qed
  have pos: "0 < ?sz" "round16 (unat ?sz) + 48 \<le> k" using usz room(2) by (simp_all add: word_less_nat_alt)
  from temp_block [OF room(1) pos body, of ?z] obtain p s1 s3 s4 where
    a: "net_kmalloc ?sz s = Some (p, s1)" "p \<noteq> 0" "same_stack s s1"
      "udp_send_datagram sk (Some ?z) (ucast ?sz) (Some dhcp_server) (put_buf p ?z s1) = Some (?r, s3)" "net_kfree p s3 = Some s4"
      "quiet (bump s) s4" "sent s4 = tx_sent [f] s" by blast
  let ?x = "replicate (unat ?sz) (0 :: u8)"
  let ?h = "dhcp_bytes (dhcp_fill s dhcp_zero)"
  have lh: "length ?h = 240" by (rule dhcp_length) (simp_all add: dhcp_fill_def dhcp_zero_def)
  have at: "dhcp_at ?x = Some dhcp_zero" unfolding usz by (rule dhcp_at_zero) simp
  have p1: "poke 0 ?h ?x = Some (?h @ replicate (length opts) 0)" unfolding usz using lh by (simp add: poke_def drop_replicate)
  have p2: "poke 240 opts (?h @ replicate (length opts) 0) = Some ?z" using lh by (simp add: poke_def dhcp_image_def)
  have "dhcp_send opts sk s = Some (if ?r > 0 then 0 else -3, s4)"
    unfolding dhcp_send_def Let_def using sk a(2)
    by (simp only: a(1) bind.bind_lunit prod.case at dhcp_fill_cong [OF a(3)] p1 p2 a(4,5) if_False)
  then show ?thesis using a(6,7) by (intro exI [of _ s4]) simp
qed

section \<open>Properties\<close>

text \<open>C22: A datagram socket is a bounded queue of datagrams with their senders. Delivery appends the datagram behind
  the waiting ones and makes every thread that waits on the socket ready, or, exactly when the 16383
  usable bytes of the ring cannot take it, refuses it with code -3 and no effect. Reception takes the
  oldest datagram out as a whole, returns as much of it as the caller's buffer holds and the
  sender's address, and waits exactly when the queue is empty. Neither the wrap-around of the ring nor
  the length prefixes show.\<close>

theorem udp_socket_queue_refines:
  assumes q: "dgrams s sk qs" and n: "unat n \<le> length x" "unat n \<le> 65527" and k: "kinv ps T Q (krn s)" "wait_channel sk \<noteq> 0"
    and sk: "sk \<noteq> 0" "s_type (socks s sk) = SOCK_DGRAM" and b: "len \<noteq> 0" "unat len \<le> buf"
    and a: "a = \<lparr>sin_family = 2, sin_port = port, s_addr = src, sin_zero = replicate 8 0\<rparr>"
  shows "(if queue_size qs + 20 + unat n \<le> 16383
      then \<exists>s'. udp_deliver sk port src x n s = Some (0, s') \<and> dgrams s' sk (qs @ [(a, take (unat n) x)]) \<and>
        (\<forall>p\<in>set ps. waits_on (wait_channel sk) (krn s) (main_thread (procs (krn s) p)) \<longrightarrow>
           th_state (threads (krn s') (main_thread (procs (krn s) p))) = THREAD_READY)
      else udp_deliver sk port src x n s = Some (-3, s)) \<and>
    (case qs of [] \<Rightarrow> af_inet_recvfrom me sp sk (Some buf) len addrlen s = sock_wait me sp sk s
      | (a, d) # q \<Rightarrow> \<exists>s'. af_inet_recvfrom me sp sk (Some buf) len addrlen s =
          Some (Returns (int (min (length d) (unat len))) (take (unat len) d) (store_addr addrlen (sin_bytes a)), s') \<and> dgrams s' sk q)"
proof (rule conjI)
  show "if queue_size qs + 20 + unat n \<le> 16383
      then \<exists>s'. udp_deliver sk port src x n s = Some (0, s') \<and> dgrams s' sk (qs @ [(a, take (unat n) x)]) \<and>
        (\<forall>p\<in>set ps. waits_on (wait_channel sk) (krn s) (main_thread (procs (krn s) p)) \<longrightarrow>
           th_state (threads (krn s') (main_thread (procs (krn s) p))) = THREAD_READY)
      else udp_deliver sk port src x n s = Some (-3, s)"
  proof (cases "queue_size qs + 20 + unat n \<le> 16383")
    case True
    from udp_deliver_spec [OF q n(1) this k a] obtain s' where
      "udp_deliver sk port src x n s = Some (0, s')" "dgrams s' sk (qs @ [(a, take (unat n) x)])"
      "\<forall>t. th_state (threads (krn s') t) = (if \<exists>p\<in>set ps. t = main_thread (procs (krn s) p) \<and> waits_on (wait_channel sk) (krn s) t
         then THREAD_READY else th_state (threads (krn s) t))" by blast
    with True show ?thesis by (auto intro!: exI [of _ s'])
  qed (use udp_deliver_full [OF q n(2)] in auto)
  have r: "sock_ring s sk" "sock_bytes s sk = concat (map dgram_image qs)" using q by (simp_all add: dgrams_def)
  note e = sock_bytes_empty [OF r(1)] sock_ringD(4) [OF r(1)]
  have m: "min (length d) (unat len) \<le> buf" for d :: "u8 list" using b(2) by simp
  show "case qs of [] \<Rightarrow> af_inet_recvfrom me sp sk (Some buf) len addrlen s = sock_wait me sp sk s
      | (a, d) # q \<Rightarrow> \<exists>s'. af_inet_recvfrom me sp sk (Some buf) len addrlen s =
          Some (Returns (int (min (length d) (unat len))) (take (unat len) d) (store_addr addrlen (sin_bytes a)), s') \<and> dgrams s' sk q"
  proof (cases qs)
    case Nil
    then show ?thesis using r(2) e sk b(1) by (simp add: af_inet_recvfrom_def Let_def)
  next
    case (Cons p q')
    obtain a' d where p: "p = (a', d)" by force
    from recv_dgram_spec [OF q [unfolded Cons p] m, of addrlen] obtain s' where
      "recv_dgram sk buf len addrlen s =
        Some (Returns (int (min (length d) (unat len))) (take (unat len) d) (store_addr addrlen (sin_bytes a')), s')" "dgrams s' sk q'" by blast
    moreover have "rx_head (socks s sk) \<noteq> rx_tail (socks s sk)" using r(2) e(1) Cons p by (simp add: le32_def)
    ultimately show ?thesis using Cons p e(2) sk b(1) by (simp add: af_inet_recvfrom_def Let_def)
  qed
qed


text \<open>An offer is answered with a request. When a configuration reply with the client's transaction number and
  message type 2 arrives while a datagram socket is bound to port 68, \<^verbatim>\<open>dhcp_input\<close> broadcasts exactly
  one frame: from the client's port to port 67, the configuration header with the hardware address of the
  interface, and the options that request the offered address.\<close>

theorem dhcp_offer_is_requested:
  assumes "net_room k s" "round16 250 + round16 258 + round16 292 + 96 \<le> k" "if_status 0 s = 0"
    and "dhcp_at x = Some d" "xid d = htonl DHCP_DISCOVER_XID" "op d = DHCP_BOOTREPLY" "240 \<le> n"
    and "dhcp_options (drop 240 x) (n - 240) 0 0 0 0 = Some (subnet, gateway, 2)"
    and "bound_ok s ks" "List.find (\<lambda>k. on_port SOCK_DGRAM (htons 68) (socks s k)) ks = Some sk"
  shows "\<exists>s'. dhcp_input (Some x) n s = Some (0, s') \<and>
    sent s' = tx_sent [ip_frame (mac_of 0xFF) IPPROTO_UDP 0xFFFFFFFF (udp_image (htons 68) (htons 67)
      (dhcp_image s ([53, 1, 3, 50, 4] @ le32 (yiaddr d) @ [255]))) s] s"
proof -
  have find: "socket_find_by_port (htons 68) SOCK_DGRAM s = Some sk" using find_by_port_chain [OF assms(9)] assms(10) by simp
  have "sk \<in> set ks" and on: "on_port SOCK_DGRAM (htons 68) (socks s sk)" using assms(10) by (auto simp: find_Some_iff)
  then have nz: "sk \<noteq> 0" using chain_nonzero assms(9) by (fastforce simp: bound_ok_def)
  let ?opts = "[53, 1, 3, 50, 4] @ le32 (yiaddr d) @ [255]"
  have "length ?opts = 10" by simp
  with dhcp_send_spec [OF assms(1) _ _ nz assms(3) refl, of ?opts] assms(2) on obtain r s' where
    "dhcp_send ?opts sk s = Some (r, s')"
    "sent s' = tx_sent [ip_frame (mac_of 0xFF) IPPROTO_UDP 0xFFFFFFFF (udp_image (htons 68) (htons 67) (dhcp_image s ?opts)) s] s"
    by (auto simp: on_port_def)
  moreover have "ntohl (htonl DHCP_DISCOVER_XID) = DHCP_DISCOVER_XID" by (simp add: htonl_def)
  ultimately show ?thesis using assms(4-8) leD [OF assms(7)] nz
    by (simp add: dhcp_input_def find dhcp_send_request_def)
qed

section \<open>Examples\<close>

text \<open>A host with one datagram socket, bound and empty, whose ring is about to wrap around.\<close>

definition dgram_demo :: "u16 \<Rightarrow> net" where
  "dgram_demo port = net_demo\<lparr>g_net_interfaces := [if0\<lparr>if_mac := mac_demo, if_ip := 0x0902000A, active := True\<rparr>, if0, if0, if0],
     bufs := (bufs net_demo)(0x5000 := replicate 16384 0),
     socks := (\<lambda>_. sock0)(0x900 := sock0\<lparr>family := AF_INET, s_type := SOCK_DGRAM,
       local_addr := sin_bytes (sin_demo port) @ replicate 240 0, local_addr_len := 16,
       rx_buffer := 0x5000, rx_head := 16380, rx_tail := 16380\<rparr>), g_bound_sockets_head := 0x900\<rparr>"

lemma dgram_demo_sock: "s_type (socks (dgram_demo p) 0x900) = SOCK_DGRAM" "family (socks (dgram_demo p) 0x900) = AF_INET"
  "sock_port (socks (dgram_demo p) 0x900) = p" "local_addr_len (socks (dgram_demo p) 0x900) = 16"
  "our_ip 0 (dgram_demo p) = 0x0902000A" "if_status 0 (dgram_demo p) = 0"
  by (simp_all add: dgram_demo_def sock_port_def demo_addr our_ip_def net_get_interface_ip_def if_status_def)

lemma dgram_demo_bound: "p \<noteq> 0 \<Longrightarrow> bound_ok (dgram_demo p) [0x900]"
proof -
  have "chain (\<lambda>k. global_next (socks (dgram_demo p) k)) (g_bound_sockets_head (dgram_demo p)) [0x900]"
    by (simp add: dgram_demo_def sock0_def)
  then show "p \<noteq> 0 \<Longrightarrow> bound_ok (dgram_demo p) [0x900]" by (simp add: bound_ok_def dgram_demo_sock)
qed

lemma dgram_demo_find: "List.find (\<lambda>k. on_port SOCK_DGRAM p (socks (dgram_demo p) k)) [0x900] = Some 0x900"
  by (simp add: on_port_def dgram_demo_sock)

lemma dgram_demo_queue: "dgrams (dgram_demo p) 0x900 []"
  by (simp add: dgrams_def sock_ring_def sock_bytes_def ring_ok_def ring_items_def ring_count_def dgram_demo_def)

lemma dgram_demo_room: "net_room 3968 (dgram_demo p)" "tx_sent xs (dgram_demo p) = xs"
  using heap_cong(1) [of "dgram_demo p" net_demo] net_demo_room demo_tx(3) tx_cong [of "dgram_demo p" net_demo]
  by (simp_all add: dgram_demo_def transmitter_def)

lemma dgram_demo_kinv: "kinv procs_demo {0x200, 0x300, 0x400} queues_demo (krn (dgram_demo p))"
  using demo_kinv by (simp add: dgram_demo_def net_demo_def)

theorem udp_socket_queue_refines_witness:
  "\<exists>s'. udp_deliver 0x900 7 5 [1, 2, 3] 3 (dgram_demo 0x3500) = Some (0, s') \<and>
     dgrams s' 0x900 [(\<lparr>sin_family = 2, sin_port = 7, s_addr = 5, sin_zero = replicate 8 0\<rparr>, [1, 2, 3])]"
  using udp_socket_queue_refines [where s = "dgram_demo 0x3500" and sk = "0x900" and n = 3 and x = "[1, 2, 3]" and len = 9 and buf = 9 and
      me = 0 and sp = 0 and addrlen = None and port = 7 and src = 5, OF dgram_demo_queue _ _ dgram_demo_kinv _ _ dgram_demo_sock(1) _ _ refl]
  by simp blast


definition offer_demo :: "u8 list" where
  "offer_demo = dhcp_bytes (dhcp_zero\<lparr>op := 2, xid := htonl DHCP_DISCOVER_XID, yiaddr := 0x2A02000A\<rparr>) @ [53, 1, 2, 255]"

lemma dhcp_at_bytes:
  assumes "length (chaddr d) = 16" "length (sname d) = 64" "length (boot_file d) = 128"
  shows "dhcp_at (dhcp_bytes d @ y) = Some d"
  using assms by (cases d) (simp add: dhcp_at_def dhcp_bytes_def at_defs nth_append)

lemma offer_options: "dhcp_options [53, 1, 2, 255] 4 0 0 0 0 = Some (0, 0, 2)"
proof -
  have "dhcp_options [53, 1, 2, 255] 4 3 0 0 2 = Some (0, 0, 2)" by (subst dhcp_options.simps) (simp add: rd8_def)
  then show ?thesis by (subst dhcp_options.simps) (simp add: rd8_def)
qed

theorem dhcp_offer_is_requested_witness:
  "\<exists>s'. dhcp_input (Some offer_demo) 244 (dgram_demo 0x4400) = Some (0, s') \<and>
     sent s' = [ip_frame (mac_of 0xFF) 17 0xFFFFFFFF (udp_image (htons 68) (htons 67)
       (dhcp_image (dgram_demo 0x4400) [53, 1, 3, 50, 4, 10, 0, 2, 42, 255])) (dgram_demo 0x4400)]"
proof -
  let ?d = "dhcp_zero\<lparr>op := 2, xid := htonl DHCP_DISCOVER_XID, yiaddr := 0x2A02000A\<rparr>"
  have l: "length (dhcp_bytes ?d) = 240" by (rule dhcp_length) (simp_all add: dhcp_zero_def)
  have at: "dhcp_at offer_demo = Some ?d" unfolding offer_demo_def by (rule dhcp_at_bytes) (simp_all add: dhcp_zero_def)
  have opts: "dhcp_options (drop 240 offer_demo) (244 - 240) 0 0 0 0 = Some (0, 0, 2)"
    using offer_options l by (simp add: offer_demo_def)
  have r: "round16 250 + round16 258 + round16 292 + 96 \<le> 3968" by (simp add: round16_def)
  have p: "htons 68 = 0x4400" by (simp add: htons_def)
  have y: "le32 (yiaddr ?d) = [10, 0, 2, 42]" by (simp add: le32_def)
  have f: "List.find (\<lambda>k. on_port SOCK_DGRAM (htons 68) (socks (dgram_demo 0x4400) k)) [0x900] = Some 0x900"
    unfolding p by (rule dgram_demo_find)
  have b: "bound_ok (dgram_demo 0x4400) [0x900]" by (rule dgram_demo_bound) simp
  from dhcp_offer_is_requested [OF dgram_demo_room(1) r dgram_demo_sock(6) at _ _ _ opts b f] show ?thesis
    unfolding dgram_demo_room(2) y by simp
qed

end
