(* ===== verification/Tcp.thy ===== *)
theory Tcp
  imports Udp
begin

text \<open>
  Streams: \<^verbatim>\<open>src/kernel/kernel/net/tcp.c\<close> and the connection operations of \<^verbatim>\<open>af_inet.c\<close>. The handler \<^verbatim>\<open>tcp_input\<close> is
  split by the state of the socket, in the order of the code. The eight bytes of \<^verbatim>\<open>client_addr.sin_zero\<close>, which the
  code leaves uninitialised, are arbitrary: the function \<open>junk\<close>. The spin locks, also the one that \<^verbatim>\<open>tcp_input\<close>
  releases twice in state FIN_WAIT_1, are not part of the state.
\<close>

section \<open>Segments\<close>

abbreviation TCP_FLAG_FIN :: u16 where "TCP_FLAG_FIN \<equiv> 0x0001"
abbreviation TCP_FLAG_SYN :: u16 where "TCP_FLAG_SYN \<equiv> 0x0002"
abbreviation TCP_FLAG_RST :: u16 where "TCP_FLAG_RST \<equiv> 0x0004"
abbreviation TCP_FLAG_PSH :: u16 where "TCP_FLAG_PSH \<equiv> 0x0008"
abbreviation TCP_FLAG_ACK :: u16 where "TCP_FLAG_ACK \<equiv> 0x0010"

definition tcp_bytes :: "tcp_header \<Rightarrow> u8 list" where
  "tcp_bytes h = le16 (tcp_src_port h) @ le16 (tcp_dest_port h) @ le32 (seq_num h) @ le32 (ack_num h) @
     le16 (data_offset_flags h) @ le16 (window_size h) @ le16 (tcp_checksum h) @ le16 (urgent_ptr h)"

definition tcp_at :: "u8 list \<Rightarrow> tcp_header option" where
  "tcp_at x = (if length x < 20 then None
     else Some \<lparr>tcp_src_port = rd16 x 0, tcp_dest_port = rd16 x 2, seq_num = rd32 x 4, ack_num = rd32 x 8,
       data_offset_flags = rd16 x 12, window_size = rd16 x 14, tcp_checksum = rd16 x 16, urgent_ptr = rd16 x 18\<rparr>)"

record tcp_pseudo_header =
  pseudo_src_ip :: u32
  pseudo_dest_ip :: u32
  reserved :: u8
  pseudo_protocol :: u8
  tcp_len :: u16

definition pseudo_bytes :: "tcp_pseudo_header \<Rightarrow> u8 list" where
  "pseudo_bytes p = le32 (pseudo_src_ip p) @ le32 (pseudo_dest_ip p) @ [reserved p, pseudo_protocol p] @ le16 (tcp_len p)"

definition tcp_calculate_checksum :: "tcp_pseudo_header \<Rightarrow> tcp_header \<Rightarrow> u8 list \<Rightarrow> nat \<Rightarrow> u16 option" where
  "tcp_calculate_checksum pseudo tcp x n =
     do {
       a \<leftarrow> csum_loop (pseudo_bytes pseudo) 12 0;
       b \<leftarrow> csum_loop (tcp_bytes tcp) 20 a;
       c \<leftarrow> csum_loop x n b;
       Some (ucast (NOT (fold_carry c)))
     }"

text \<open>A header with all fields but the checksum, and with the checksum for its destination and its data.\<close>

definition tcp_segment :: "u16 \<Rightarrow> u16 \<Rightarrow> u32 \<Rightarrow> u32 \<Rightarrow> u16 \<Rightarrow> u16 \<Rightarrow> tcp_header" where
  "tcp_segment sport dport seq ack flags window =
     \<lparr>tcp_src_port = sport, tcp_dest_port = dport, seq_num = htonl seq, ack_num = htonl ack,
      data_offset_flags = htons (push_bit 12 5 OR flags), window_size = htons window, tcp_checksum = 0, urgent_ptr = 0\<rparr>"

definition tcp_seal :: "u32 \<Rightarrow> u32 \<Rightarrow> u8 list \<Rightarrow> nat \<Rightarrow> net \<Rightarrow> tcp_header \<Rightarrow> tcp_header option" where
  "tcp_seal dest packet_size x n s tcp =
     do {
       let pseudo = \<lparr>pseudo_src_ip = snd (net_get_interface_ip 0 0 s), pseudo_dest_ip = dest, reserved = 0,
         pseudo_protocol = IPPROTO_TCP, tcp_len = htons (ucast packet_size)\<rparr>;
       c \<leftarrow> tcp_calculate_checksum pseudo tcp x n;
       Some (tcp\<lparr>tcp_checksum := c\<rparr>)
     }"

section \<open>Opening, closing and sending\<close>

definition tcp_connect_handshake :: "u64 \<Rightarrow> sockaddr_in option \<Rightarrow> net \<Rightarrow> (int \<times> net) option" where
  "tcp_connect_handshake sk dest s =
     (if sk = 0 \<or> dest = None then Some (-1, s)
      else do {
        (p, s1) \<leftarrow> net_kmalloc 20 s;
        if p = 0 then Some (-2, s1)
        else if local_addr_len (socks s1 sk) < 16 then do { s2 \<leftarrow> net_kfree p s1; Some (-4, s2) }
        else do {
          let s2 = upd_sock sk (\<lambda>k. k\<lparr>local_seq := 1000, remote_ack := 0\<rparr>) s1;
          h \<leftarrow> tcp_seal (s_addr (the dest)) 20 [] 0 s2
            (tcp_segment (sock_port (socks s2 sk)) (sin_port (the dest)) (local_seq (socks s2 sk)) 0 TCP_FLAG_SYN 1024);
          y \<leftarrow> poke 0 (sin_bytes (the dest)) (remote_addr (socks s2 sk));
          let s3 = upd_sock sk (\<lambda>k. k\<lparr>remote_addr := y, remote_addr_len := 16, s_state := TCP_STATE_SYN_SENT\<rparr>) s2;
          (res, s4) \<leftarrow> ip_output (s_addr (the dest)) IPPROTO_TCP (Some (tcp_bytes h)) 20 (put_buf p (tcp_bytes h) s3);
          s5 \<leftarrow> net_kfree p s4;
          if res < 0 \<and> res \<noteq> -11 then Some (-3, upd_sock sk (s_state_update (\<lambda>_. TCP_STATE_CLOSED)) s5)
          else Some (0, s5)
        }
      })"

definition tcp_disconnect :: "u64 \<Rightarrow> net \<Rightarrow> (int \<times> net) option" where
  "tcp_disconnect sk s =
     (let k = socks s sk in
      if sk = 0 then Some (-1, s)
      else if local_addr_len k < 16 \<or> remote_addr_len k < 16 then Some (-4, s)
      else if s_state k \<notin> {TCP_STATE_ESTABLISHED, TCP_STATE_CLOSE_WAIT, TCP_STATE_SYN_SENT} then Some (0, s)
      else let fin = (s_state k \<noteq> TCP_STATE_SYN_SENT);
               flags_to_send = (if fin then TCP_FLAG_FIN OR TCP_FLAG_ACK else TCP_FLAG_RST);
               s1 = upd_sock sk (\<lambda>k. k\<lparr>s_state := if fin then TCP_STATE_FIN_WAIT_1 else TCP_STATE_CLOSED,
                 local_seq := if fin then local_seq k + 1 else local_seq k\<rparr>) s in
        do {
          (p, s2) \<leftarrow> net_kmalloc 20 s1;
          if p = 0 then Some (-2, s2)
          else do {
            h \<leftarrow> tcp_seal (peer_ip k) 20 [] 0 s2 (tcp_segment (sock_port k) (peer_port k) (local_seq k) (remote_ack k) flags_to_send 1024);
            (res, s3) \<leftarrow> ip_output (peer_ip k) IPPROTO_TCP (Some (tcp_bytes h)) 20 (put_buf p (tcp_bytes h) s2);
            s4 \<leftarrow> net_kfree p s3;
            if res < 0 \<and> res \<noteq> -11 then Some (-3, upd_sock sk (s_state_update (\<lambda>_. TCP_STATE_CLOSED)) s4)
            else Some (0, s4)
          }
        })"

definition tcp_send_stream :: "u64 \<Rightarrow> u8 list option \<Rightarrow> u64 \<Rightarrow> net \<Rightarrow> (int \<times> net) option" where
  "tcp_send_stream sk buf len s =
     (let k = socks s sk in
      if sk = 0 \<or> buf = None \<or> len = 0 then Some (-1, s)
      else if s_state k \<noteq> TCP_STATE_ESTABLISHED then Some (-1, s)
      else if remote_addr_len k = 0 then Some (-2, s)
      else let tcp_packet_size = ucast (20 + len) :: u32 in
        if 20 + (ucast tcp_packet_size :: u64) > 1500 then Some (-3, s)
        else do {
          (p, s1) \<leftarrow> net_kmalloc tcp_packet_size s;
          if p = 0 then Some (-4, s1)
          else do {
            payload \<leftarrow> peek (unat len) (the buf);
            x1 \<leftarrow> poke 20 payload (replicate (unat tcp_packet_size) 0);
            h \<leftarrow> tcp_seal (peer_ip k) tcp_packet_size (drop 20 x1) (unat (ucast len :: u32)) s1
              (tcp_segment (sock_port k) (peer_port k) (local_seq k) (remote_ack k) (TCP_FLAG_ACK OR TCP_FLAG_PSH) 2048);
            x2 \<leftarrow> poke 0 (tcp_bytes h) x1;
            let s2 = upd_sock sk (local_seq_update (\<lambda>q. q + ucast len)) s1;
            (res, s3) \<leftarrow> ip_output (peer_ip k) IPPROTO_TCP (Some x2) tcp_packet_size (put_buf p x2 s2);
            s4 \<leftarrow> net_kfree p s3;
            Some (if res < 0 then -5 else sint len, s4)
          }
        })"

section \<open>Input\<close>

text \<open>
  A control segment in reply to a segment: \<open>False\<close> when there is no memory for it. The result of
  \<^verbatim>\<open>ip_output\<close> is ignored.
\<close>

definition tcp_reply :: "u32 \<Rightarrow> tcp_header \<Rightarrow> net \<Rightarrow> (bool \<times> net) option" where
  "tcp_reply dest tcp s =
     do {
       (p, s1) \<leftarrow> net_kmalloc 20 s;
       if p = 0 then Some (False, s1)
       else do {
         h \<leftarrow> tcp_seal dest 20 [] 0 s1 tcp;
         (res, s2) \<leftarrow> ip_output dest IPPROTO_TCP (Some (tcp_bytes h)) 20 (put_buf p (tcp_bytes h) s1);
         s3 \<leftarrow> net_kfree p s2;
         Some (True, s3)
       }
     }"

definition sock_wakeup :: "u64 \<Rightarrow> net \<Rightarrow> net option" where
  "sock_wakeup sk s = do { k \<leftarrow> wakeup (wait_channel sk) (krn s); Some (s\<lparr>krn := k\<rparr>) }"

definition has_flags :: "u16 \<Rightarrow> u16 \<Rightarrow> bool" where
  "has_flags f flags \<longleftrightarrow> flags AND f = f"

definition tcp_in_syn_sent :: "u64 \<Rightarrow> tcp_header \<Rightarrow> u16 \<Rightarrow> u32 \<Rightarrow> net \<Rightarrow> (int \<times> net) option" where
  "tcp_in_syn_sent sk tcp flags src s =
     (if has_flags TCP_FLAG_SYN flags \<and> has_flags TCP_FLAG_ACK flags then do {
        let s1 = upd_sock sk (\<lambda>k. k\<lparr>remote_ack := ntohl (seq_num tcp) + 1, local_seq := ntohl (ack_num tcp),
          s_state := TCP_STATE_ESTABLISHED\<rparr>) s;
        s2 \<leftarrow> sock_wakeup sk s1;
        (ok, s3) \<leftarrow> tcp_reply src (tcp_segment (tcp_dest_port tcp) (tcp_src_port tcp) (local_seq (socks s2 sk))
          (remote_ack (socks s2 sk)) TCP_FLAG_ACK 2048) s2;
        Some (0, s3)
      }
      else Some (0, s))"

definition tcp_in_listen_syn :: "u64 \<Rightarrow> tcp_header \<Rightarrow> u32 \<Rightarrow> net \<Rightarrow> (int \<times> net) option" where
  "tcp_in_listen_syn sk tcp src s =
     do {
       (pending, s1) \<leftarrow> net_kmalloc SIZEOF_SOCKET s;
       if pending = 0 then Some (-1, s1)
       else do {
         let client_addr = \<lparr>sin_family = 2, sin_port = tcp_src_port tcp, s_addr = src, sin_zero = map (junk s pending) [0..<8]\<rparr>;
         y \<leftarrow> poke 0 (sin_bytes client_addr) (remote_addr sock0);
         let s2 = upd_sock pending (\<lambda>_. sock0\<lparr>remote_addr := y, remote_addr_len := 16, s_state := TCP_STATE_SYN_RECV,
           local_seq := local_seq (socks s1 sk)\<rparr>) s1;
         (p, s3) \<leftarrow> net_kmalloc 20 s2;
         if p = 0 then do { s4 \<leftarrow> net_kfree pending s3; Some (0, s4) }
         else do {
           h \<leftarrow> tcp_seal src 20 [] 0 s3 (tcp_segment (tcp_dest_port tcp) (tcp_src_port tcp) (local_seq (socks s3 sk))
             (ntohl (seq_num tcp) + 1) (TCP_FLAG_SYN OR TCP_FLAG_ACK) 2048);
           let s4 = upd_sock pending (s_next_update (\<lambda>_. listen_queue (socks s3 sk))) s3;
           let s5 = upd_sock sk (listen_queue_update (\<lambda>_. pending)) s4;
           (res, s6) \<leftarrow> ip_output src IPPROTO_TCP (Some (tcp_bytes h)) 20 (put_buf p (tcp_bytes h) s5);
           s7 \<leftarrow> net_kfree p s6;
           Some (0, s7)
         }
       }
     }"

text \<open>The walk along the queue of half-open connections: the node before the one found, and the node.\<close>

partial_function (option) pending_search :: "(u64 \<Rightarrow> socket) \<Rightarrow> u32 \<Rightarrow> u16 \<Rightarrow> u64 \<Rightarrow> u64 \<Rightarrow> (u64 \<times> u64) option" where
  "pending_search ss src port prev k =
     (if k = 0 then Some (prev, 0)
      else if peer_ip (ss k) = src \<and> peer_port (ss k) = port \<and> s_state (ss k) = TCP_STATE_SYN_RECV then Some (prev, k)
      else pending_search ss src port k (s_next (ss k)))"

definition tcp_open_session :: "u64 \<Rightarrow> u64 \<Rightarrow> u64 \<Rightarrow> tcp_header \<Rightarrow> net \<Rightarrow> (int \<times> net) option" where
  "tcp_open_session sk prev cl tcp s =
     do {
       (new, s1) \<leftarrow> socket_create AF_INET (s_type (socks s sk)) 0 s;
       if new = 0 then Some (-1, s1)
       else do {
         let k = socks s1 sk;
         let c = socks s1 cl;
         la \<leftarrow> peek (unat (local_addr_len k)) (local_addr k) \<bind> (\<lambda>x. poke 0 x (local_addr (socks s1 new)));
         ra \<leftarrow> peek (unat (remote_addr_len c)) (remote_addr c) \<bind> (\<lambda>x. poke 0 x (remote_addr (socks s1 new)));
         let s2 = upd_sock new (\<lambda>n. n\<lparr>local_addr := la, local_addr_len := local_addr_len k, remote_addr := ra,
           remote_addr_len := remote_addr_len c, s_state := TCP_STATE_ESTABLISHED, local_seq := local_seq c + 1,
           remote_ack := ntohl (seq_num tcp), s_next := s_next c\<rparr>) s1;
         let s3 = (if prev = 0 then upd_sock sk (listen_queue_update (\<lambda>_. new)) s2 else upd_sock prev (s_next_update (\<lambda>_. new)) s2);
         let s4 = upd_sock new (global_next_update (\<lambda>_. g_bound_sockets_head s3)) s3;
         let s5 = s4\<lparr>g_bound_sockets_head := new\<rparr>;
         s6 \<leftarrow> net_kfree cl s5;
         s7 \<leftarrow> sock_wakeup sk s6;
         Some (0, s7)
       }
     }"

definition tcp_in_listen_ack :: "u64 \<Rightarrow> tcp_header \<Rightarrow> u32 \<Rightarrow> net \<Rightarrow> (int \<times> net) option" where
  "tcp_in_listen_ack sk tcp src s =
     do {
       (prev, cl) \<leftarrow> pending_search (socks s) src (tcp_src_port tcp) 0 (listen_queue (socks s sk));
       if cl = 0 then Some (0, s) else tcp_open_session sk prev cl tcp s
     }"

definition fin_unlink :: "u64 \<Rightarrow> net \<Rightarrow> net option" where
  "fin_unlink sk s =
     do {
       (found, prev) \<leftarrow> sock_prev (socks s) sk 0 (g_bound_sockets_head s);
       Some (if found
         then (if prev = 0 then s\<lparr>g_bound_sockets_head := global_next (socks s sk)\<rparr>
               else upd_sock prev (global_next_update (\<lambda>_. global_next (socks s sk))) s)
         else s)
     }"

definition tcp_in_fin_wait :: "u64 \<Rightarrow> tcp_header \<Rightarrow> u16 \<Rightarrow> u32 \<Rightarrow> net \<Rightarrow> (int \<times> net) option" where
  "tcp_in_fin_wait sk tcp flags src s =
     (if has_flags TCP_FLAG_FIN flags \<and> has_flags TCP_FLAG_ACK flags then do {
        let s1 = upd_sock sk (\<lambda>k. k\<lparr>remote_ack := ntohl (seq_num tcp) + 1, local_seq := ntohl (ack_num tcp),
          s_state := TCP_STATE_CLOSED\<rparr>) s;
        (ok, s2) \<leftarrow> tcp_reply src (tcp_segment (tcp_dest_port tcp) (tcp_src_port tcp) (local_seq (socks s1 sk))
          (remote_ack (socks s1 sk)) TCP_FLAG_ACK 2048) s1;
        if \<not> ok then Some (-1, s2)
        else do {
          s3 \<leftarrow> fin_unlink sk s2;
          s4 \<leftarrow> kfree_nonnull (rx_buffer (socks s3 sk)) s3;
          s5 \<leftarrow> kfree_nonnull (tx_buffer (socks s4 sk)) s4;
          s6 \<leftarrow> net_kfree sk s5;
          Some (0, s6)
        }
      }
      else Some (-1, s))"

definition rx_space :: "socket \<Rightarrow> u32" where
  "rx_space k =
     (let usado = (if rx_head k \<ge> rx_tail k then rx_head k - rx_tail k else SOCKET_BUFFER_SIZE - (rx_tail k - rx_head k)) in
      SOCKET_BUFFER_SIZE - usado - 1)"

definition tcp_accept_data :: "u64 \<Rightarrow> tcp_header \<Rightarrow> u32 \<Rightarrow> u8 list \<Rightarrow> u32 \<Rightarrow> net \<Rightarrow> (int \<times> net) option" where
  "tcp_accept_data sk tcp src payload payload_len s =
     (if rx_space (socks s sk) < payload_len then do {
        (ok, s1) \<leftarrow> tcp_reply src (tcp_segment (tcp_dest_port tcp) (tcp_src_port tcp) (local_seq (socks s sk))
          (ntohl (seq_num tcp) + payload_len) TCP_FLAG_ACK 0) s;
        Some (if ok then 0 else -3, s1)
      }
      else do {
        x \<leftarrow> peek (unat payload_len) payload;
        s1 \<leftarrow> sock_put sk x s;
        let s2 = upd_sock sk (\<lambda>k. k\<lparr>remote_ack := ntohl (seq_num tcp) + payload_len, local_seq := ntohl (ack_num tcp)\<rparr>) s1;
        s3 \<leftarrow> sock_wakeup sk s2;
        let window = (if rx_space (socks s3 sk) > 0xFFFF then 0xFFFF else rx_space (socks s3 sk));
        (ok, s4) \<leftarrow> tcp_reply src (tcp_segment (tcp_dest_port tcp) (tcp_src_port tcp) (local_seq (socks s3 sk))
          (remote_ack (socks s3 sk)) TCP_FLAG_ACK (ucast window)) s3;
        Some (0, s4)
      })"

definition tcp_in_established :: "u64 \<Rightarrow> tcp_header \<Rightarrow> u16 \<Rightarrow> u32 \<Rightarrow> u8 list \<Rightarrow> u32 \<Rightarrow> net \<Rightarrow> (int \<times> net) option" where
  "tcp_in_established sk tcp flags src x len s =
     (let h_len = (ucast (drop_bit 12 (ntohs (data_offset_flags tcp)) AND 0x0F) * 4 :: u8) in
      if h_len < 20 \<or> ucast h_len > len then Some (-2, s)
      else let payload_len = len - ucast h_len in
        if payload_len > 0 \<and> has_flags TCP_FLAG_ACK flags
        then tcp_accept_data sk tcp src (drop (unat h_len) x) payload_len s
        else Some (0, s))"

definition tcp_input :: transport where
  "tcp_input data len src s =
     (if data = None \<or> len < 20 then Some (-1, s)
      else do {
        tcp \<leftarrow> tcp_at (the data);
        let flags = ntohs (data_offset_flags tcp) AND 0x0FFF;
        sk \<leftarrow> tcp_input_lookup src tcp s;
        if sk = 0 then Some (0, s)
        else (case s_state (socks s sk) of
            TCP_STATE_SYN_SENT \<Rightarrow> tcp_in_syn_sent sk tcp flags src s
          | TCP_STATE_LISTEN \<Rightarrow>
              (if has_flags TCP_FLAG_SYN flags then tcp_in_listen_syn sk tcp src s
               else if has_flags TCP_FLAG_ACK flags then tcp_in_listen_ack sk tcp src s
               else Some (0, s))
          | TCP_STATE_FIN_WAIT_1 \<Rightarrow> tcp_in_fin_wait sk tcp flags src s
          | TCP_STATE_ESTABLISHED \<Rightarrow> tcp_in_established sk tcp flags src (the data) len s
          | _ \<Rightarrow> Some (0, s))
      })"

section \<open>Connection operations\<close>

text \<open>
  The numbers of the states, which \<^verbatim>\<open>af_inet_connect\<close> compares with literals. A pass that ends in \<^verbatim>\<open>wait\<close> has the
  result \<open>None\<close>; the thread then tests again, in \<open>connect_wait\<close> or \<open>af_inet_accept\<close>.
\<close>

fun tcp_code :: "tcp_state \<Rightarrow> nat" where
  "tcp_code TCP_STATE_CLOSED = 0" | "tcp_code TCP_STATE_SYN_SENT = 1" | "tcp_code TCP_STATE_LISTEN = 2"
| "tcp_code TCP_STATE_SYN_RECV = 3" | "tcp_code TCP_STATE_ESTABLISHED = 4" | "tcp_code TCP_STATE_FIN_WAIT_1 = 5"
| "tcp_code TCP_STATE_FIN_WAIT_2 = 6" | "tcp_code TCP_STATE_CLOSE_WAIT = 7" | "tcp_code TCP_STATE_CLOSING = 8"
| "tcp_code TCP_STATE_LAST_ACK = 9" | "tcp_code TCP_STATE_TIME_WAIT = 10"

definition connect_wait :: "u64 \<Rightarrow> u64 \<Rightarrow> u64 \<Rightarrow> net \<Rightarrow> (int option \<times> net) option" where
  "connect_wait me sp sk s =
     (let k = socks s sk in
      if tcp_code (s_state k) = 4 then do { (r, s1) \<leftarrow> sock_wait me sp sk s; Some (None, s1) }
      else if tcp_code (s_state k) \<noteq> 1 then Some (Some (-3), s)
      else Some (Some 0, s))"

definition af_inet_connect :: "u64 \<Rightarrow> u64 \<Rightarrow> u64 \<Rightarrow> u8 list option \<Rightarrow> u64 \<Rightarrow> net \<Rightarrow> (int option \<times> net) option" where
  "af_inet_connect me sp sk addr addrlen s =
     (if sk = 0 \<or> addr = None \<or> addrlen < 16 then Some (Some (-1), s)
      else do {
        dest_sin \<leftarrow> sin_at (the addr);
        if sin_family dest_sin \<noteq> 2 then Some (Some (-2), s)
        else do {
          y \<leftarrow> poke 0 (sin_bytes dest_sin) (remote_addr (socks s sk));
          let s1 = upd_sock sk (\<lambda>k. k\<lparr>remote_addr := y, remote_addr_len := 16\<rparr>) s;
          if s_type (socks s1 sk) = SOCK_STREAM then do {
            (res, s2) \<leftarrow> tcp_connect_handshake sk (Some dest_sin) s1;
            if res = 0 \<or> res = -11 then connect_wait me sp sk s2 else Some (Some res, s2)
          }
          else if s_type (socks s1 sk) = SOCK_DGRAM
          then Some (Some 0, upd_sock sk (s_state_update (\<lambda>_. TCP_STATE_SYN_SENT)) s1)
          else Some (Some (-3), s1)
        }
      })"

partial_function (option) ready_search :: "(u64 \<Rightarrow> socket) \<Rightarrow> u64 \<Rightarrow> u64 \<Rightarrow> (u64 \<times> u64) option" where
  "ready_search ss prev k =
     (if k = 0 then Some (prev, 0)
      else if s_state (ss k) = TCP_STATE_ESTABLISHED then Some (prev, k)
      else ready_search ss k (s_next (ss k)))"

definition af_inet_accept :: "u64 \<Rightarrow> u64 \<Rightarrow> u64 \<Rightarrow> net \<Rightarrow> (u64 option \<times> net) option" where
  "af_inet_accept me sp sk s =
     (if sk = 0 \<or> s_state (socks s sk) \<noteq> TCP_STATE_LISTEN then Some (Some 0, s)
      else do {
        (prev, ready_socket) \<leftarrow> ready_search (socks s) 0 (listen_queue (socks s sk));
        if ready_socket = 0 then do { (r, s1) \<leftarrow> sock_wait me sp sk s; Some (None, s1) }
        else let s1 = (if prev = 0 then upd_sock sk (listen_queue_update (\<lambda>_. s_next (socks s ready_socket))) s
                       else upd_sock prev (s_next_update (\<lambda>_. s_next (socks s ready_socket))) s) in
          Some (Some ready_socket, upd_sock ready_socket (s_next_update (\<lambda>_. 0)) s1)
      })"

definition af_inet_listen :: "u64 \<Rightarrow> net \<Rightarrow> int \<times> net" where
  "af_inet_listen sk s =
     (if sk = 0 then (-1, s)
      else if s_type (socks s sk) \<noteq> SOCK_STREAM then (-2, s)
      else (0, upd_sock sk (s_state_update (\<lambda>_. TCP_STATE_LISTEN)) s))"

definition af_inet_sendto :: "u64 \<Rightarrow> u8 list option \<Rightarrow> u64 \<Rightarrow> sockaddr_in option \<Rightarrow> u64 \<Rightarrow> net \<Rightarrow> (int \<times> net) option" where
  "af_inet_sendto sk buf len dest_addr addrlen s =
     (let k = socks s sk in
      if sk = 0 \<or> buf = None \<or> len = 0 then Some (-1, s)
      else if s_type k = SOCK_STREAM then tcp_send_stream sk buf len s
      else if s_type k = SOCK_DGRAM then do {
        dest \<leftarrow> (if dest_addr = None \<and> addrlen = 0 \<and> tcp_code (s_state k) = 1 \<and> 16 \<le> remote_addr_len k
                 then map_option Some (sin_at (remote_addr k)) else Some dest_addr);
        if dest = None then Some (-2, s) else udp_send_datagram sk buf len dest s
      }
      else Some (-3, s))"

partial_function (option) drop_pending :: "u64 \<Rightarrow> net \<Rightarrow> net option" where
  "drop_pending k s =
     (if k = 0 then Some s
      else let s1 = upd_sock k (s_state_update (\<lambda>_. TCP_STATE_CLOSED)) s;
               other = peer (socks s1 k);
               s2 = (if other \<noteq> 0 then upd_sock other (\<lambda>q. q\<lparr>s_state := TCP_STATE_CLOSED, peer := 0\<rparr>) s1 else s1) in
        drop_pending (s_next (socks s k)) s2)"

definition af_inet_release :: "u64 \<Rightarrow> net \<Rightarrow> (int \<times> net) option" where
  "af_inet_release sk s =
     (if sk = 0 then Some (-1, s)
      else if s_type (socks s sk) = SOCK_STREAM then do {
        s1 \<leftarrow> (if s_state (socks s sk) = TCP_STATE_LISTEN
               then do { s' \<leftarrow> drop_pending (listen_queue (socks s sk)) s; Some (upd_sock sk (listen_queue_update (\<lambda>_. 0)) s') }
               else Some s);
        (res, s2) \<leftarrow> tcp_disconnect sk s1;
        Some (0, s2)
      }
      else if s_type (socks s sk) = SOCK_DGRAM
      then Some (0, upd_sock sk (s_state_update (\<lambda>_. TCP_STATE_CLOSED)) s)
      else Some (-2, s))"

section \<open>The checksum of a segment\<close>

lemma length_tcp_bytes [simp]: "length (tcp_bytes h) = 20" "length (pseudo_bytes p) = 12"
  by (simp_all add: tcp_bytes_def pseudo_bytes_def)

lemma tcp_at_bytes [wire_simps]: "tcp_at (tcp_bytes h @ x) = Some h"
  by (cases h) (simp add: tcp_at_def tcp_bytes_def at_defs)

lemma csum_loop_exact: "csum_loop x (length x) acc = Some (acc + of_nat (sum_list (words16 x)))"
  using csum_loop_value [of "length x" x acc] by simp

text \<open>The three loops over the parts are one loop over the whole.\<close>

lemma tcp_checksum_whole:
  assumes "n \<le> length x"
  shows "tcp_calculate_checksum p h x n = ip_calculate_checksum (pseudo_bytes p @ tcp_bytes h @ take n x) (32 + n)"
proof -
  have w: "words16 (pseudo_bytes p @ tcp_bytes h @ take n x) = words16 (pseudo_bytes p) @ words16 (tcp_bytes h) @ words16 (take n x)"
    by (simp add: words16_append)
  have "length (pseudo_bytes p @ tcp_bytes h @ take n x) = 32 + n" using assms by simp
  from csum_loop_exact [of "pseudo_bytes p @ tcp_bytes h @ take n x" 0, unfolded this] have
    "csum_loop (pseudo_bytes p @ tcp_bytes h @ take n x) (32 + n) 0 =
      Some (of_nat (sum_list (words16 (pseudo_bytes p))) + of_nat (sum_list (words16 (tcp_bytes h))) + of_nat (sum_list (words16 (take n x))))"
    unfolding w by (simp add: add.assoc)
  moreover have "csum_loop (pseudo_bytes p) 12 a = Some (a + of_nat (sum_list (words16 (pseudo_bytes p))))"
    "csum_loop (tcp_bytes h) 20 a = Some (a + of_nat (sum_list (words16 (tcp_bytes h))))" for a
    using csum_loop_exact [of "pseudo_bytes p" a] csum_loop_exact [of "tcp_bytes h" a] by simp_all
  ultimately show ?thesis using csum_loop_value [OF assms]
    by (simp add: tcp_calculate_checksum_def ip_calculate_checksum_def)
qed

definition pseudo_of :: "net \<Rightarrow> u32 \<Rightarrow> u8 list \<Rightarrow> tcp_pseudo_header" where
  "pseudo_of s dest d = \<lparr>pseudo_src_ip = our_ip 0 s, pseudo_dest_ip = dest, reserved = 0, pseudo_protocol = IPPROTO_TCP,
     tcp_len = htons (of_nat (20 + length d))\<rparr>"

definition sealed :: "net \<Rightarrow> u32 \<Rightarrow> tcp_header \<Rightarrow> u8 list \<Rightarrow> tcp_header" where
  "sealed s dest h d = h\<lparr>tcp_checksum := the (tcp_calculate_checksum (pseudo_of s dest d) h d (length d))\<rparr>"

lemma sealed_fields [simp]:
  "tcp_src_port (sealed s dest h d) = tcp_src_port h" "tcp_dest_port (sealed s dest h d) = tcp_dest_port h"
  "seq_num (sealed s dest h d) = seq_num h" "ack_num (sealed s dest h d) = ack_num h"
  "data_offset_flags (sealed s dest h d) = data_offset_flags h" "window_size (sealed s dest h d) = window_size h"
  by (simp_all add: sealed_def)

lemma tcp_checksum_total: "length d \<le> 65000 \<Longrightarrow> \<exists>c. tcp_calculate_checksum p h d (length d) = Some c"
  using ip_calculate_checksum_spec [of "32 + length d" "pseudo_bytes p @ tcp_bytes h @ d"] by (simp add: tcp_checksum_whole)

lemma tcp_seal_sealed:
  assumes "length d \<le> 65000" "unat sz = 20 + length d"
  shows "tcp_seal dest sz d (length d) s h = Some (sealed s dest h d)"
proof -
  have "(ucast sz :: u16) = of_nat (unat sz)" by simp
  then have p: "\<lparr>pseudo_src_ip = snd (net_get_interface_ip 0 0 s), pseudo_dest_ip = dest, reserved = 0,
      pseudo_protocol = IPPROTO_TCP, tcp_len = htons (ucast sz)\<rparr> = pseudo_of s dest d"
    unfolding assms(2) by (simp add: pseudo_of_def our_ip_def)
  from tcp_checksum_total [OF assms(1)] obtain c where
    "tcp_calculate_checksum (pseudo_of s dest d) h d (length d) = Some c" by blast
  then show ?thesis unfolding tcp_seal_def Let_def p by (simp add: sealed_def)
qed

text \<open>A receiver that adds up the pseudo header and the segment gets the value that means no error.\<close>

lemma sealed_verifies:
  assumes "length d \<le> 65000" "tcp_checksum h = 0"
  shows "tcp_calculate_checksum (pseudo_of s dest d) (sealed s dest h d) d (length d) = Some 0"
proof -
  let ?p = "pseudo_bytes (pseudo_of s dest d)"
  let ?a = "?p @ le16 (tcp_src_port h) @ le16 (tcp_dest_port h) @ le32 (seq_num h) @ le32 (ack_num h) @
     le16 (data_offset_flags h) @ le16 (window_size h)"
  let ?y = "le16 (urgent_ptr h) @ d"
  from tcp_checksum_total [OF assms(1)] obtain c where
    c: "tcp_calculate_checksum (pseudo_of s dest d) h d (length d) = Some c" by blast
  have z: "le16 0 = [0, 0]" by (simp add: le16_def)
  have "?p @ tcp_bytes h @ d = ?a @ [0, 0] @ ?y" using assms(2) by (simp add: tcp_bytes_def z)
  with c have "ip_calculate_checksum (?a @ [0, 0] @ ?y) (32 + length d) = Some c" by (simp add: tcp_checksum_whole)
  moreover have "length ?a + 2 + length ?y = 32 + length d" "even (length ?a)" by simp_all
  ultimately have "ip_calculate_checksum (?a @ le16 c @ ?y) (32 + length d) = Some 0"
    using checksum_verifies [of ?a ?y c] assms(1) by simp
  moreover have "?p @ tcp_bytes (sealed s dest h d) @ d = ?a @ le16 c @ ?y" using c by (simp add: tcp_bytes_def sealed_def)
  ultimately show ?thesis by (simp add: tcp_checksum_whole)
qed

section \<open>Sending\<close>

definition tcp_image :: "net \<Rightarrow> u32 \<Rightarrow> tcp_header \<Rightarrow> u8 list \<Rightarrow> u8 list" where
  "tcp_image s dest h d = tcp_bytes (sealed s dest h d) @ d"

definition tcp_frame :: "mac \<Rightarrow> u32 \<Rightarrow> tcp_header \<Rightarrow> u8 list \<Rightarrow> net \<Rightarrow> u8 list" where
  "tcp_frame m dest h d s = ip_frame m IPPROTO_TCP dest (tcp_image s dest h d) s"

lemma length_tcp_image [simp]: "length (tcp_image s dest h d) = 20 + length d"
  by (simp add: tcp_image_def)

lemma sealed_cong: "our_ip 0 t = our_ip 0 s \<Longrightarrow> sealed t dest h d = sealed s dest h d"
  by (simp add: sealed_def pseudo_of_def)

lemma tcp_seal_control: "tcp_seal dest 20 [] 0 s h = Some (sealed s dest h [])"
  using tcp_seal_sealed [of "[]" 20] by simp

lemma same_stack_our_ip: "same_stack s t \<Longrightarrow> our_ip 0 t = our_ip 0 s"
  using our_cong(2) [of t s] by (simp add: same_stack_def)

lemma tcp_reply_spec:
  assumes "net_room k s" "144 \<le> k" "if_status 0 s = 0" "next_hop s dest = Some m"
  shows "\<exists>s'. tcp_reply dest h s = Some (True, s') \<and> quiet (bump s) s' \<and> net_room (k - 64) s' \<and> sent s' = tx_sent [tcp_frame m dest h [] s] s"
proof -
  let ?z = "tcp_image s dest h []"
  have z: "round16 (length ?z) + round16 (34 + length ?z) + 48 \<le> k" "(20 :: u32) = of_nat (length ?z)" "0 < length ?z" "length ?z \<le> 1480"
    using assms(2) by (simp_all add: round16_def)
  from ip_send_temp [OF assms(1) z assms(3,4) refl, of IPPROTO_TCP] obtain p s1 s3 s4 where
    a: "net_kmalloc 20 s = Some (p, s1)" "p \<noteq> 0" "same_stack s s1"
      "ip_output dest IPPROTO_TCP (Some ?z) 20 (put_buf p ?z s1) = Some (tx_result (ip_frame m IPPROTO_TCP dest ?z s) s, s3)"
      "net_kfree p s3 = Some s4" "quiet (bump s) s4" "net_room (k - round16 (length ?z) - 32) s4"
      "sent s4 = tx_sent [ip_frame m IPPROTO_TCP dest ?z s] s" by blast
  have "tcp_bytes (sealed s1 dest h []) = ?z" using sealed_cong [OF same_stack_our_ip [OF a(3)]] by (simp add: tcp_image_def)
  then have "tcp_reply dest h s = Some (True, s4)" using a(1,2,4,5) by (simp add: tcp_reply_def tcp_seal_control)
  moreover have "net_room (k - 64) s4" using a(7) by (simp add: round16_def)
  ultimately show ?thesis using a(6,8) by (auto simp: tcp_frame_def)
qed

lemma sock_wakeup_spec:
  assumes "kinv ps T Q (krn s)" "wait_channel sk \<noteq> 0"
  shows "\<exists>kr Q'. sock_wakeup sk s = Some (s\<lparr>krn := kr\<rparr>) \<and> kinv ps T Q' kr \<and> heap kr = heap (krn s) \<and>
    (\<forall>t. th_state (threads kr t) = (if \<exists>p\<in>set ps. t = main_thread (procs (krn s) p) \<and> waits_on (wait_channel sk) (krn s) t
       then THREAD_READY else th_state (threads (krn s) t)))"
proof -
  from wakeup_spec [OF assms] obtain kr Q' where r: "wakeup (wait_channel sk) (krn s) = Some kr" "kinv ps T Q' kr" "sched_frame (krn s) kr"
      "\<forall>t. th_state (threads kr t) = (if \<exists>p\<in>set ps. t = main_thread (procs (krn s) p) \<and> waits_on (wait_channel sk) (krn s) t
       then THREAD_READY else th_state (threads (krn s) t))" by blast
  show ?thesis
  proof (intro exI conjI)
    show "sock_wakeup sk s = Some (s\<lparr>krn := kr\<rparr>)" using r(1) by (simp add: sock_wakeup_def)
    show "heap kr = heap (krn s)" using r(3) by (simp add: sched_frame_def)
  qed (rule r)+
qed

text \<open>What a segment needs to leave: memory, an active interface and the hardware address of the neighbour.\<close>

definition linked :: "nat \<Rightarrow> u32 \<Rightarrow> mac \<Rightarrow> net \<Rightarrow> bool" where
  "linked k dest m s \<longleftrightarrow> net_room k s \<and> if_status 0 s = 0 \<and> next_hop s dest = Some m"

lemma linked_cong:
  assumes "heap (krn t) = heap (krn s)" "net_cr3 t = net_cr3 s" "g_net_interfaces t = g_net_interfaces s" "g_arp_cache t = g_arp_cache s"
  shows "linked k dest m t = linked k dest m s"
  using heap_cong(1) [OF assms(1,2)] arp_map_cong [OF assms(4)] by (simp add: linked_def if_status_def next_hop_def assms(3))

lemma linked_mono: "linked k dest m s \<Longrightarrow> j \<le> k \<Longrightarrow> linked j dest m s"
  by (auto simp: linked_def intro: net_room_mono)

lemma linked_room:
  assumes "linked k dest m s" "g_net_interfaces t = g_net_interfaces s" "g_arp_cache t = g_arp_cache s" "net_room j t"
  shows "linked j dest m t"
  using assms(1,4) unfolding linked_def if_status_def next_hop_def assms(2) arp_map_cong [OF assms(3)] by blast

lemma linked_quiet: "linked k dest m s \<Longrightarrow> quiet (bump s) s' \<Longrightarrow> net_room j s' \<Longrightarrow> linked j dest m s'"
  using linked_room [of k dest m s s' j] quiet_fields(1,2) [of "bump s" s'] by simp

lemma tcp_frame_cong:
  assumes "g_net_interfaces t = g_net_interfaces s" "g_ip_packet_id t = g_ip_packet_id s"
  shows "tcp_frame m dest h d t = tcp_frame m dest h d s"
proof -
  have "our_ip 0 t = our_ip 0 s" using our_cong(2) [OF assms(1)] .
  from sealed_cong [OF this] have "tcp_image t dest h d = tcp_image s dest h d" by (simp add: tcp_image_def)
  then show ?thesis by (simp add: tcp_frame_def ip_frame_cong [OF assms])
qed

lemma tcp_reply_linked:
  assumes "linked k dest m s" "144 \<le> k"
  shows "\<exists>s'. tcp_reply dest h s = Some (True, s') \<and> quiet (bump s) s' \<and> linked (k - 64) dest m s' \<and> sent s' = tx_sent [tcp_frame m dest h [] s] s"
  using tcp_reply_spec [of k s dest m h] linked_quiet [OF assms(1)] assms by (auto simp: linked_def)

lemma kinv_heap: "kinv ps T Q (s\<lparr>heap := h\<rparr>) = kinv ps T Q s"
proof -
  let ?t = "s\<lparr>heap := h\<rparr>"
  have h: "home ?t = home s" "cores ?t = cores s" by (auto simp: home_def cores_def get_cpu_data_block_def)
  have "thread_wf ?t = thread_wf s" "thread_placed Q ?t = thread_placed Q s" "core_ok T Q ?t = core_ok T Q s"
    by (auto simp: fun_eq_iff thread_wf_def thread_placed_def core_ok_def rq_def h)
  moreover have "mains_ok ps T ?t = mains_ok ps T s" by (simp add: mains_ok_def listed_def)
  ultimately show ?thesis by (simp add: kinv_def sched_but_def h)
qed

section \<open>The stream of a connection\<close>

lemma rx_space_value:
  assumes "sock_ring s sk"
  shows "unat (rx_space (socks s sk)) = 16383 - length (sock_bytes s sk)"
proof -
  let ?h = "rx_head (socks s sk)" and ?t = "rx_tail (socks s sk)"
  note d = sock_ringD(1,2) [OF assms]
  define usado where "usado = (if ?h \<ge> ?t then ?h - ?t else 16384 - (?t - ?h))"
  have u: "unat usado = ring_count 16384 (unat ?h) (unat ?t)"
  proof (cases "?h \<ge> ?t")
    case True
    then show ?thesis using d by (simp add: usado_def unat_sub ring_count_cases word_le_nat_alt)
  next
    case False
    then have l: "?h \<le> ?t" "unat ?h < unat ?t" by (simp_all add: word_le_nat_alt)
    then have "unat (?t - ?h) = unat ?t - unat ?h" by (simp add: unat_sub)
    then have "unat (16384 - (?t - ?h)) = 16384 - (unat ?t - unat ?h)"
      using d(2) by (subst unat_sub) (simp_all add: word_le_nat_alt)
    then show ?thesis using False l d by (simp add: usado_def ring_count_cases)
  qed
  then have "unat usado < 16384" using ring_count_less [OF d(1)] by simp
  then have "unat (16384 - usado) = 16384 - unat usado" by (subst unat_sub) (simp_all add: word_le_nat_alt)
  moreover from this \<open>unat usado < 16384\<close> have "unat (16384 - usado - 1) = 16384 - unat usado - 1"
    by (subst unat_sub) (simp_all add: word_le_nat_alt)
  ultimately show ?thesis using u by (simp add: rx_space_def usado_def [symmetric] Let_def sock_bytes_def)
qed

definition wakes :: "u64 list \<Rightarrow> u64 \<Rightarrow> net \<Rightarrow> net \<Rightarrow> bool" where
  "wakes ps sk s s' \<longleftrightarrow> (\<forall>t. th_state (threads (krn s') t) = (if \<exists>p\<in>set ps. t = main_thread (procs (krn s) p) \<and> waits_on (wait_channel sk) (krn s) t
     then THREAD_READY else th_state (threads (krn s) t)))"

lemma quiet_krn:
  assumes "quiet (bump s) s'"
  shows "threads (krn s') = threads (krn s)" "procs (krn s') = procs (krn s)" "kinv ps T Q (krn s') = kinv ps T Q (krn s)"
proof -
  from assms have "s' = (bump s)\<lparr>krn := (krn s)\<lparr>heap := heap (krn s')\<rparr>, bufs := bufs s', sent := sent s'\<rparr>" by (simp add: quiet_def)
  from arg_cong [OF this, of krn] obtain h where "krn s' = (krn s)\<lparr>heap := h\<rparr>" by auto
  then show "threads (krn s') = threads (krn s)" "procs (krn s') = procs (krn s)" "kinv ps T Q (krn s') = kinv ps T Q (krn s)"
    by (simp_all add: kinv_heap)
qed

text \<open>The end of the two handlers that wake a thread and acknowledge: the socket is changed by \<open>u\<close> before.\<close>

lemma wake_and_reply:
  assumes l: "linked k dest m s" "144 \<le> k" and ki: "kinv ps T Q (krn s)" "wait_channel sk \<noteq> 0"
  shows "\<exists>s2 s3 Q'. sock_wakeup sk s = Some s2 \<and> socks s2 = socks s \<and> tcp_reply dest h s2 = Some (True, s3) \<and>
    socks s3 = socks s \<and> g_bound_sockets_head s3 = g_bound_sockets_head s \<and> (\<forall>p\<in>ptrs s. bufs s3 p = bufs s p) \<and> ptrs s3 = ptrs s \<and>
    linked (k - 64) dest m s3 \<and> wakes ps sk s s3 \<and> kinv ps T Q' (krn s3) \<and> g_net_interfaces s3 = g_net_interfaces s \<and>
    g_ip_packet_id s3 = g_ip_packet_id s + 1 \<and> sent s3 = tx_sent [tcp_frame m dest h [] s] s"
proof -
  from sock_wakeup_spec [OF ki] obtain kr Q' where w: "sock_wakeup sk s = Some (s\<lparr>krn := kr\<rparr>)" "kinv ps T Q' kr" "heap kr = heap (krn s)"
    "\<forall>t. th_state (threads kr t) = (if \<exists>p\<in>set ps. t = main_thread (procs (krn s) p) \<and> waits_on (wait_channel sk) (krn s) t
       then THREAD_READY else th_state (threads (krn s) t))" by blast
  let ?s2 = "s\<lparr>krn := kr\<rparr>"
  have l2: "linked k dest m ?s2" using l(1) linked_cong [of ?s2 s] w(3) by simp
  from tcp_reply_linked [OF this l(2), of h] obtain s3 where
    s3: "tcp_reply dest h ?s2 = Some (True, s3)" "quiet (bump ?s2) s3" "linked (k - 64) dest m s3" "sent s3 = tx_sent [tcp_frame m dest h [] ?s2] ?s2" by blast
  note qf = quiet_fields [OF s3(2)]
  note qk = quiet_krn [OF s3(2)]
  have p: "ptrs ?s2 = ptrs s" using heap_cong(2) [of ?s2 s] w(3) by simp
  have tx: "tx_sent xs ?s2 = tx_sent xs s" for xs by (rule tx_cong(2)) (simp_all add: transmitter_def)
  show ?thesis
  proof (intro exI conjI)
    show "wakes ps sk s s3" using w(4) by (simp add: wakes_def qk)
    show "kinv ps T Q' (krn s3)" using w(2) by (simp add: qk)
    show "sent s3 = tx_sent [tcp_frame m dest h [] s] s" unfolding s3(4) tx by (simp add: tcp_frame_cong [of ?s2 s])
    show "\<forall>p\<in>ptrs s. bufs s3 p = bufs s p" using qf(11) p by simp
    show "g_ip_packet_id s3 = g_ip_packet_id s + 1" using qf(9) by (simp add: bump_def)
  qed (use w(1) s3(1,3) qf p in simp_all)
qed

definition ack_of :: "tcp_header \<Rightarrow> u32 \<Rightarrow> u32 \<Rightarrow> u16 \<Rightarrow> tcp_header" where
  "ack_of tcp seq ack window = tcp_segment (tcp_dest_port tcp) (tcp_src_port tcp) seq ack TCP_FLAG_ACK window"

lemma accept_data_spec:
  assumes r: "sock_ring s sk" "length (sock_bytes s sk) + length d \<le> 16383" and n: "unat n = length d"
    and l: "linked k src m s" "144 \<le> k" and ki: "kinv ps T Q (krn s)" "wait_channel sk \<noteq> 0" and b: "rx_buffer (socks s sk) \<in> ptrs s"
  shows "\<exists>s' h Q'. tcp_accept_data sk tcp src (d @ y) n s = Some (0, s') \<and> sock_ring s' sk \<and> sock_bytes s' sk = sock_bytes s sk @ d \<and>
    socks s' = (socks s)(sk := (socks s sk)\<lparr>rx_head := h, remote_ack := ntohl (seq_num tcp) + n, local_seq := ntohl (ack_num tcp)\<rparr>) \<and>
    g_bound_sockets_head s' = g_bound_sockets_head s \<and> g_net_interfaces s' = g_net_interfaces s \<and>
    ptrs s' = ptrs s \<and> linked (k - 64) src m s' \<and> wakes ps sk s s' \<and> kinv ps T Q' (krn s') \<and>
    sent s' = tx_sent [tcp_frame m src (ack_of tcp (ntohl (ack_num tcp)) (ntohl (seq_num tcp) + n)
      (of_nat (16383 - length (sock_bytes s sk @ d)))) [] s] s"
proof -
  have full: "\<not> rx_space (socks s sk) < n" using rx_space_value [OF r(1)] r(2) n by (simp add: word_less_nat_alt)
  have pk: "peek (unat n) (d @ y) = Some d" unfolding n by (simp add: peek_def)
  from sock_put_spec [OF r(1), of d] r(2) obtain s1 h bb where
    s1: "sock_put sk d s = Some s1" "sock_ring s1 sk" "sock_bytes s1 sk = sock_bytes s sk @ d"
      "s1 = s\<lparr>socks := (socks s)(sk := (socks s sk)\<lparr>rx_head := h\<rparr>), bufs := (bufs s)(rx_buffer (socks s sk) := bb)\<rparr>" by auto
  let ?s2 = "upd_sock sk (\<lambda>k. k\<lparr>remote_ack := ntohl (seq_num tcp) + n, local_seq := ntohl (ack_num tcp)\<rparr>) s1"
  have e: "heap (krn ?s2) = heap (krn s)" "net_cr3 ?s2 = net_cr3 s" "g_net_interfaces ?s2 = g_net_interfaces s" "g_arp_cache ?s2 = g_arp_cache s"
    "krn ?s2 = krn s" "transmitter ?s2 = transmitter s" "sent ?s2 = sent s" "g_ip_packet_id ?s2 = g_ip_packet_id s"
    by (simp_all add: s1(4) transmitter_def)
  have r2: "sock_ring ?s2 sk" "sock_bytes ?s2 sk = sock_bytes s sk @ d" using s1(2,3) by (simp_all add: sock_ring_def sock_bytes_def)
  define w where "w = (of_nat (16383 - length (sock_bytes s sk @ d)) :: u16)"
  have sp: "unat (rx_space (socks ?s2 sk)) = 16383 - length (sock_bytes s sk @ d)" using rx_space_value [OF r2(1)] r2(2) by simp
  then have "\<not> 0xFFFF < rx_space (socks ?s2 sk)" by (simp add: word_less_nat_alt)
  moreover have "(ucast (rx_space (socks ?s2 sk)) :: u16) = of_nat (unat (rx_space (socks ?s2 sk)))" by simp
  ultimately have win: "(ucast (if 0xFFFF < rx_space (socks ?s2 sk) then 0xFFFF else rx_space (socks ?s2 sk)) :: u16) = w"
    unfolding w_def sp by simp
  have l2: "linked k src m ?s2" using l(1) linked_cong [OF e(1-4)] by blast
  have k2: "kinv ps T Q (krn ?s2)" using ki(1) unfolding e(5) .
  let ?h = "ack_of tcp (ntohl (ack_num tcp)) (ntohl (seq_num tcp) + n) w"
  from wake_and_reply [OF l2 l(2) k2 ki(2), of ?h] obtain s3 s4 Q' where
    a: "sock_wakeup sk ?s2 = Some s3" "socks s3 = socks ?s2" "tcp_reply src ?h s3 = Some (True, s4)"
    "socks s4 = socks ?s2" "g_bound_sockets_head s4 = g_bound_sockets_head ?s2" "\<forall>p\<in>ptrs ?s2. bufs s4 p = bufs ?s2 p" "ptrs s4 = ptrs ?s2"
    "linked (k - 64) src m s4" "wakes ps sk ?s2 s4" "kinv ps T Q' (krn s4)" "g_net_interfaces s4 = g_net_interfaces ?s2"
    "sent s4 = tx_sent [tcp_frame m src ?h [] ?s2] ?s2" by blast
  have p: "ptrs ?s2 = ptrs s" by (rule heap_cong(2) [OF e(1,2)])
  have "rx_buffer (socks ?s2 sk) = rx_buffer (socks s sk)" by (simp add: s1(4))
  then have "sock_buf s4 sk = sock_buf ?s2 sk" using a(6) b unfolding p a(4) by metis
  note r4 = sock_ring_cong [OF fun_cong [OF a(4)] this]
  have "tcp_accept_data sk tcp src (d @ y) n s = Some (0, s4)"
    unfolding tcp_accept_data_def if_not_P [OF full] pk bind.bind_lunit s1(1) Let_def a(1) a(2) win
    using a(3) by (simp add: ack_of_def)
  moreover have "socks s4 = (socks s)(sk := (socks s sk)\<lparr>rx_head := h, remote_ack := ntohl (seq_num tcp) + n, local_seq := ntohl (ack_num tcp)\<rparr>)"
    unfolding a(4) by (simp add: s1(4))
  moreover have "sent s4 = tx_sent [tcp_frame m src ?h [] s] s"
    unfolding a(12) tx_cong(2) [OF e(6,7)] tcp_frame_cong [OF e(3,8)] ..
  moreover have "g_bound_sockets_head s4 = g_bound_sockets_head s" unfolding a(5) by (simp add: s1(4))
  moreover have "wakes ps sk s s4" using a(9) unfolding wakes_def e(5) .
  moreover have "ptrs s4 = ptrs s" "g_net_interfaces s4 = g_net_interfaces s" using a(7,11) p e(3) by simp_all
  moreover have "sock_ring s4 sk" "sock_bytes s4 sk = sock_bytes s sk @ d" using r4 r2 by simp_all
  ultimately show ?thesis using a(8,10) unfolding w_def
    by (intro exI [of _ s4] exI [of _ h] exI [of _ Q'] conjI) assumption+
qed

section \<open>Segments that change the socket\<close>

lemma net_kmalloc_socks:
  "net_kmalloc sz (s\<lparr>socks := w\<rparr>) = map_option (\<lambda>(p, t). (p, t\<lparr>socks := w\<rparr>)) (net_kmalloc sz s)"
  by (cases "kmalloc (heap (krn s)) (net_cr3 s) (ucast sz)") (auto simp: net_kmalloc_def Let_def)

lemma send_with_socks:
  assumes l: "linked k dest m s" "round16 (20 + length d) + round16 (54 + length d) + 48 \<le> k" and d: "length d \<le> 1460"
    and sz: "sz = of_nat (20 + length d)" and f: "f = tcp_frame m dest h d s"
  shows "\<exists>p s1 s3 s4. net_kmalloc sz s = Some (p, s1) \<and> p \<noteq> 0 \<and> same_stack s s1 \<and>
    ip_output dest IPPROTO_TCP (Some (tcp_image s dest h d)) sz (put_buf p (tcp_image s dest h d) (s1\<lparr>socks := w\<rparr>)) = Some (tx_result f s, s3) \<and>
    net_kfree p s3 = Some s4 \<and> quiet (bump (s\<lparr>socks := w\<rparr>)) s4 \<and> linked (k - round16 (20 + length d) - 32) dest m s4 \<and>
    sent s4 = tx_sent [f] s"
proof -
  let ?z = "tcp_image s dest h d" and ?s = "s\<lparr>socks := w\<rparr>"
  have f': "f = ip_frame m IPPROTO_TCP dest ?z ?s" unfolding f tcp_frame_def by (rule ip_frame_cong) simp_all
  have l': "linked k dest m ?s" using l(1) linked_cong [of ?s s] by simp
  then have r: "net_room k ?s" "if_status 0 ?s = 0" "next_hop ?s dest = Some m" by (simp_all add: linked_def)
  have z: "round16 (length ?z) + round16 (34 + length ?z) + 48 \<le> k" "sz = of_nat (length ?z)" "0 < length ?z" "length ?z \<le> 1480"
    using l(2) d sz by (simp_all add: add.commute)
  from ip_send_temp [OF r(1) z r(2,3) f'] obtain p t1 s3 s4 where
    a: "net_kmalloc sz ?s = Some (p, t1)" "p \<noteq> 0" "same_stack ?s t1" "ip_output dest IPPROTO_TCP (Some ?z) sz (put_buf p ?z t1) = Some (tx_result f ?s, s3)"
      "net_kfree p s3 = Some s4" "quiet (bump ?s) s4" "net_room (k - round16 (length ?z) - 32) s4" "sent s4 = tx_sent [f] ?s" by blast
  from a(1) obtain s1 where s1: "net_kmalloc sz s = Some (p, s1)" "t1 = s1\<lparr>socks := w\<rparr>" unfolding net_kmalloc_socks by auto
  have tx: "tx_result f ?s = tx_result f s" "tx_sent [f] ?s = tx_sent [f] s" by (rule tx_cong; simp add: transmitter_def)+
  have "socks s1 = socks s" using s1(1) by (auto simp: net_kmalloc_def Let_def bind_eq_Some_conv split: if_splits)
  then have "same_stack s s1" using a(3) by (simp add: same_stack_def s1(2) transmitter_def)
  moreover have "linked (k - round16 (20 + length d) - 32) dest m s4" using linked_quiet [OF l' a(6) a(7)] by simp
  ultimately show ?thesis using a(2,4,5,6,8) s1 unfolding tx
    by (intro exI [of _ p] exI [of _ s1] exI [of _ s3] exI [of _ s4]) simp
qed

lemma control_with_socks:
  assumes "linked k dest m s" "144 \<le> k"
  shows "\<exists>p s1 s3 s4. net_kmalloc 20 s = Some (p, s1) \<and> p \<noteq> 0 \<and> same_stack s s1 \<and>
    ip_output dest IPPROTO_TCP (Some (tcp_bytes (sealed s dest h []))) 20 (put_buf p (tcp_bytes (sealed s dest h [])) (s1\<lparr>socks := w\<rparr>)) =
      Some (tx_result (tcp_frame m dest h [] s) s, s3) \<and>
    net_kfree p s3 = Some s4 \<and> quiet (bump (s\<lparr>socks := w\<rparr>)) s4 \<and> linked (k - 64) dest m s4 \<and>
    sent s4 = tx_sent [tcp_frame m dest h [] s] s"
  using send_with_socks [OF assms(1), of "[]" 20 _ h w] assms(2) by (simp add: round16_def tcp_image_def)

lemma tcp_send_stream_spec:
  assumes l: "linked k (peer_ip (socks s sk)) m s" "round16 (20 + length d) + round16 (54 + length d) + 48 \<le> k"
    and d: "0 < length d" "length d \<le> 1460" and sk: "sk \<noteq> 0" "s_state (socks s sk) = TCP_STATE_ESTABLISHED" "remote_addr_len (socks s sk) \<noteq> 0"
    and h: "h = tcp_segment (sock_port (socks s sk)) (peer_port (socks s sk)) (local_seq (socks s sk)) (remote_ack (socks s sk))
      (TCP_FLAG_ACK OR TCP_FLAG_PSH) 2048"
    and f: "f = tcp_frame m (peer_ip (socks s sk)) h d s"
  shows "\<exists>s'. tcp_send_stream sk (Some (d @ y)) (of_nat (length d)) s = Some (if tx_result f s < 0 then -5 else int (length d), s') \<and>
    socks s' = (socks s)(sk := (socks s sk)\<lparr>local_seq := local_seq (socks s sk) + of_nat (length d)\<rparr>) \<and>
    linked (k - round16 (20 + length d) - 32) (peer_ip (socks s sk)) m s' \<and> sent s' = tx_sent [f] s \<and>
    g_bound_sockets_head s' = g_bound_sockets_head s \<and> g_net_interfaces s' = g_net_interfaces s"
proof -
  let ?len = "of_nat (length d) :: u64" and ?dest = "peer_ip (socks s sk)"
  define sz where "sz = (ucast (20 + ?len) :: u32)"
  have ul: "unat ?len = length d" by (rule unat_of_nat_id) (use d(2) in simp)
  then have "unat (20 + ?len) = 20 + length d" using d(2) by (simp add: unat_add_nowrap)
  then have usz: "unat sz = 20 + length d" using d(2) by (simp add: sz_def unsigned_ucast_eq take_bit_nat_eq_self)
  have "of_nat (unat sz) = sz" by simp
  with usz have sz: "sz = of_nat (20 + length d)" by simp
  have ul32: "unat (ucast ?len :: u32) = length d" using ul d(2) by (simp add: unsigned_ucast_eq take_bit_nat_eq_self)
  then have "of_nat (unat (ucast ?len :: u32)) = (of_nat (length d) :: u32)" by (rule arg_cong)
  then have len32: "(ucast ?len :: u32) = of_nat (length d)" by simp
  have "unat (20 + (ucast sz :: u64)) = 40 + length d"
    using usz d(2) by (simp add: unat_add_nowrap unsigned_ucast_eq take_bit_nat_eq_self)
  then have mtu: "\<not> 20 + (ucast sz :: u64) > 1500" using d(2) by (simp add: word_less_nat_alt)
  have nz: "?len \<noteq> 0" using ul d(1) by (metis less_irrefl unat_0)
  have sint: "sint ?len = int (length d)"
  proof -
    have "uint ?len = int (unat ?len)" by simp
    then show ?thesis unfolding sint_uint ul using d(2) by (simp only:) (rule signed_take_bit_int_eq_self, simp_all)
  qed
  let ?w = "(socks s)(sk := (socks s sk)\<lparr>local_seq := local_seq (socks s sk) + of_nat (length d)\<rparr>)"
  let ?z = "tcp_image s ?dest h d"
  from send_with_socks [OF l d(2) sz f, of ?w] obtain p s1 s3 s4 where
    a: "net_kmalloc sz s = Some (p, s1)" "p \<noteq> 0" "same_stack s s1"
      "ip_output ?dest IPPROTO_TCP (Some ?z) sz (put_buf p ?z (s1\<lparr>socks := ?w\<rparr>)) = Some (tx_result f s, s3)" "net_kfree p s3 = Some s4"
      "quiet (bump (s\<lparr>socks := ?w\<rparr>)) s4" "linked (k - round16 (20 + length d) - 32) ?dest m s4" "sent s4 = tx_sent [f] s" by blast
  have pk: "peek (unat ?len) (d @ y) = Some d" unfolding ul by (simp add: peek_def)
  have p1: "poke 20 d (replicate (unat sz) 0) = Some (replicate 20 0 @ d)" unfolding usz by (simp add: poke_def)
  have sl: "tcp_seal ?dest sz d (unat (ucast ?len :: u32)) s1 h = Some (sealed s ?dest h d)"
    using tcp_seal_sealed [OF _ usz, of ?dest s1 h] d(2) sealed_cong [OF same_stack_our_ip [OF a(3)]] unfolding ul32 by simp
  have p2: "poke 0 (tcp_bytes (sealed s ?dest h d)) (replicate 20 0 @ d) = Some ?z" by (simp add: poke_def tcp_image_def)
  have "upd_sock sk (local_seq_update (\<lambda>q. q + ucast ?len)) s1 = s1\<lparr>socks := ?w\<rparr>"
    unfolding len32 same_stackD(6) [OF a(3)] by (cases "socks s sk") simp
  with a(1,2,4,5) mtu nz sk have "tcp_send_stream sk (Some (d @ y)) ?len s = Some (if tx_result f s < 0 then -5 else sint ?len, s4)"
    unfolding tcp_send_stream_def sz_def [symmetric] Let_def h [symmetric] by (simp add: pk p1 sl p2)
  then show ?thesis using a(7,8) quiet_fields(1,5,7) [OF a(6)] unfolding sint by (intro exI [of _ s4]) simp
qed

section \<open>The way to the handler\<close>

lemma tcp_input_at:
  assumes "tcp_input_lookup src h t = Some sk" "sk \<noteq> 0" "20 \<le> len"
  shows "tcp_input (Some (tcp_bytes h @ x)) len src t = (case s_state (socks t sk) of
            TCP_STATE_SYN_SENT \<Rightarrow> tcp_in_syn_sent sk h (ntohs (data_offset_flags h) AND 0x0FFF) src t
          | TCP_STATE_LISTEN \<Rightarrow>
              (if has_flags TCP_FLAG_SYN (ntohs (data_offset_flags h) AND 0x0FFF) then tcp_in_listen_syn sk h src t
               else if has_flags TCP_FLAG_ACK (ntohs (data_offset_flags h) AND 0x0FFF) then tcp_in_listen_ack sk h src t
               else Some (0, t))
          | TCP_STATE_FIN_WAIT_1 \<Rightarrow> tcp_in_fin_wait sk h (ntohs (data_offset_flags h) AND 0x0FFF) src t
          | TCP_STATE_ESTABLISHED \<Rightarrow> tcp_in_established sk h (ntohs (data_offset_flags h) AND 0x0FFF) src (tcp_bytes h @ x) len t
          | _ \<Rightarrow> Some (0, t))"
  unfolding tcp_input_def option.sel tcp_at_bytes bind.bind_lunit Let_def assms(1) using assms(2) leD [OF assms(3)] by simp

text \<open>A segment that one host sends to another goes through \<^verbatim>\<open>ip_input\<close> to \<^verbatim>\<open>tcp_input\<close>.\<close>

lemma tcp_frame_arrives:
  assumes "our_ip 0 t = dest" "length d \<le> 1460" "40 + of_nat (length d) \<le> n"
  shows "ip_input udp_input tcp_input (Some (drop 14 (tcp_frame m dest h d s) @ y)) n t =
    tcp_input (Some (tcp_bytes (sealed s dest h d) @ d @ y)) (20 + of_nat (length d)) (our_ip 0 s) t"
proof -
  let ?z = "tcp_image s dest h d"
  have "20 + of_nat (length ?z) \<le> n" "length ?z \<le> 1480" using assms(2,3) by (simp_all add: add.assoc [symmetric])
  from ip_input_accepts [OF refl this(2,1), of t dest udp_input tcp_input IPPROTO_TCP s y] assms(1)
  show ?thesis by (simp add: tcp_frame_def ip_frame_def tcp_image_def)
qed

definition connected :: "u32 \<Rightarrow> u16 \<Rightarrow> u16 \<Rightarrow> socket \<Rightarrow> bool" where
  "connected src sport dport k \<longleftrightarrow> on_port SOCK_STREAM dport k \<and> s_state k \<noteq> TCP_STATE_LISTEN \<and> peer_port k = sport \<and> peer_ip k = src"

text \<open>The socket \<open>sk\<close> of the host takes the segments of a connection.\<close>

definition takes :: "net \<Rightarrow> u64 list \<Rightarrow> u32 \<Rightarrow> u16 \<Rightarrow> u16 \<Rightarrow> u64 \<Rightarrow> bool" where
  "takes s ks src sport dport sk \<longleftrightarrow> chain (\<lambda>k. global_next (socks s k)) (g_bound_sockets_head s) ks \<and>
     List.find (\<lambda>k. connected src sport dport (socks s k)) ks = Some sk"

lemma takes_lookup:
  assumes "takes s ks src (tcp_src_port h) (tcp_dest_port h) sk"
  shows "tcp_input_lookup src h s = Some sk" "sk \<noteq> 0" "sk \<in> set ks" "connected src (tcp_src_port h) (tcp_dest_port h) (socks s sk)"
proof -
  have f: "List.find (\<lambda>k. session_of src h (socks s k)) ks = Some sk" using assms by (simp add: takes_def connected_def session_of_def)
  then show "tcp_input_lookup src h s = Some sk"
    using tcp_lookup_chain [of "socks s" "g_bound_sockets_head s" ks src h 0] assms by (simp add: takes_def tcp_input_lookup_def)
  show m: "sk \<in> set ks" "connected src (tcp_src_port h) (tcp_dest_port h) (socks s sk)"
    using assms by (auto simp: takes_def find_Some_iff)
  show "sk \<noteq> 0" using assms m(1) chain_nonzero by (fastforce simp: takes_def)
qed

lemma takes_cong:
  assumes "g_bound_sockets_head t = g_bound_sockets_head s" "\<forall>k. global_next (socks t k) = global_next (socks s k)"
    "\<forall>k. connected src sport dport (socks t k) = connected src sport dport (socks s k)"
  shows "takes t ks src sport dport sk = takes s ks src sport dport sk"
  using assms by (simp add: takes_def)

lemma connected_update:
  "connected src sport dport (k\<lparr>local_seq := q\<rparr>) = connected src sport dport k"
  by (simp add: connected_def on_port_def sock_port_def peer_port_def peer_ip_def)

lemma bit_htonl:
  "n < 32 \<Longrightarrow> bit (htonl v) n = bit v (if n < 8 then n + 24 else if n < 16 then n + 8 else if n < 24 then n - 8 else n - 24)"
  unfolding htonl_def byte_masks by (auto simp: bit_simps not_less add.commute)

lemma htonl_htonl [simp]: "htonl (htonl v) = v"
proof (rule bit_word_eqI)
  fix n
  assume "n < LENGTH(32)"
  then show "bit (htonl (htonl v)) n = bit v n" by (auto simp: bit_htonl)
qed

lemma segment_ports [simp]:
  "tcp_src_port (tcp_segment sp dp q a f w) = sp" "tcp_dest_port (tcp_segment sp dp q a f w) = dp"
  "ntohl (seq_num (tcp_segment sp dp q a f w)) = q" "ntohl (ack_num (tcp_segment sp dp q a f w)) = a"
  "ntohs (data_offset_flags (tcp_segment sp dp q a f w)) = push_bit 12 5 OR f" "tcp_checksum (tcp_segment sp dp q a f w) = 0"
  by (simp_all add: tcp_segment_def htons_htons)

lemma length20: "length d \<le> 1460 \<Longrightarrow> unat (20 + of_nat (length d) :: u32) = 20 + length d"
  by (simp add: unat_add_nowrap unat_of_nat_id)

lemma established_data:
  assumes "ntohs (data_offset_flags h) = push_bit 12 5 OR f" "f \<in> {TCP_FLAG_ACK OR TCP_FLAG_PSH, TCP_FLAG_ACK}" "length d \<le> 1460"
  shows "tcp_in_established sk h (ntohs (data_offset_flags h) AND 0x0FFF) src (tcp_bytes h @ d @ y) (20 + of_nat (length d)) t =
    (if d = [] then Some (0, t) else tcp_accept_data sk h src (d @ y) (of_nat (length d)) t)"
proof -
  note u = length20 [OF assms(3)]
  have "(ucast (drop_bit 12 (ntohs (data_offset_flags h)) AND 0x0F :: u16) * 4 :: u8) = 20"
    using assms(2) unfolding assms(1) by auto
  moreover have "has_flags TCP_FLAG_ACK (ntohs (data_offset_flags h) AND 0x0FFF)" using assms(2) unfolding assms(1) by (auto simp: has_flags_def)
  moreover have "\<not> (ucast (20 :: u8) :: u32) > 20 + of_nat (length d)" using u by (simp add: word_less_nat_alt)
  moreover have "unat (of_nat (length d) :: u32) = length d" by (rule unat_of_nat_id) (use assms(3) in simp)
  then have "(of_nat (length d) :: u32) > 0 \<longleftrightarrow> d \<noteq> []" by (simp add: word_less_nat_alt)
  ultimately show ?thesis by (simp add: tcp_in_established_def)
qed

text \<open>A segment that does not fit: nothing is stored, and yet the reply acknowledges all of it.\<close>

lemma accept_data_full:
  assumes r: "sock_ring s sk" "16383 < length (sock_bytes s sk) + unat n" and l: "linked k src m s" "144 \<le> k" and b: "rx_buffer (socks s sk) \<in> ptrs s"
  shows "\<exists>s'. tcp_accept_data sk tcp src x n s = Some (0, s') \<and> socks s' = socks s \<and> sock_bytes s' sk = sock_bytes s sk \<and>
    sent s' = tx_sent [tcp_frame m src (ack_of tcp (local_seq (socks s sk)) (ntohl (seq_num tcp) + n) 0) [] s] s"
proof -
  have "length (sock_bytes s sk) < 16384" using ring_count_less [OF sock_ringD(1) [OF r(1)]] by (simp add: sock_bytes_def)
  then have full: "rx_space (socks s sk) < n" using rx_space_value [OF r(1)] r(2) unfolding word_less_nat_alt by linarith
  let ?h = "ack_of tcp (local_seq (socks s sk)) (ntohl (seq_num tcp) + n) 0"
  from tcp_reply_linked [OF l, of ?h] obtain s' where
    s': "tcp_reply src ?h s = Some (True, s')" "quiet (bump s) s'" "sent s' = tx_sent [tcp_frame m src ?h [] s] s" by blast
  note qf = quiet_fields [OF s'(2)]
  have "socks s' = socks s" "sock_buf s' sk = sock_buf s sk" using qf(5,11) b by simp_all
  then have "sock_bytes s' sk = sock_bytes s sk" using sock_ring_cong(2) [of s' sk s] by simp
  with s' full qf(5) show ?thesis by (auto simp: tcp_accept_data_def ack_of_def)
qed

lemma sock_drain_spec:
  assumes "sock_ring s sk"
  shows "\<exists>s' t. sock_drain sk n s = Some (take n (sock_bytes s sk), s') \<and> sock_ring s' sk \<and> sock_bytes s' sk = drop n (sock_bytes s sk) \<and>
    s' = s\<lparr>socks := (socks s)(sk := (socks s sk)\<lparr>rx_tail := t\<rparr>)\<rparr>"
  using assms
proof (induction n arbitrary: s)
  case 0
  then show ?case by (intro exI [of _ s] exI [of _ "rx_tail (socks s sk)"]) simp
next
  case (Suc n)
  show ?case
  proof (cases "sock_bytes s sk")
    case Nil
    then show ?thesis using sock_bytes_empty [OF Suc.prems] Suc.prems
      by (intro exI [of _ s] exI [of _ "rx_tail (socks s sk)"]) simp
  next
    case (Cons b bs)
    then have "sock_bytes s sk = [b] @ bs" by simp
    from sock_get_spec [OF Suc.prems this, of 1] obtain s1 t1 where
      s1: "sock_get sk 1 s = Some ([b], s1)" "sock_ring s1 sk" "sock_bytes s1 sk = bs"
        "s1 = s\<lparr>socks := (socks s)(sk := (socks s sk)\<lparr>rx_tail := t1\<rparr>)\<rparr>" by auto
    from Suc.IH [OF s1(2)] obtain s' t where
      s': "sock_drain sk n s1 = Some (take n bs, s')" "sock_ring s' sk" "sock_bytes s' sk = drop n bs"
        "s' = s1\<lparr>socks := (socks s1)(sk := (socks s1 sk)\<lparr>rx_tail := t\<rparr>)\<rparr>" unfolding s1(3) by blast
    have "rx_head (socks s sk) \<noteq> rx_tail (socks s sk)" using Cons sock_bytes_empty [OF Suc.prems] by simp
    then have "sock_drain sk (Suc n) s = Some (take (Suc n) (sock_bytes s sk), s')" using s1(1) s'(1) Cons by simp
    moreover have "s' = s\<lparr>socks := (socks s)(sk := (socks s sk)\<lparr>rx_tail := t\<rparr>)\<rparr>" unfolding s'(4) s1(4) by simp
    moreover have "sock_bytes s' sk = drop (Suc n) (sock_bytes s sk)" using s'(3) Cons by simp
    ultimately show ?thesis using s'(2) by (intro exI [of _ s'] exI [of _ t] conjI)
  qed
qed

section \<open>The three steps of a handshake\<close>

definition addressed :: "socket \<Rightarrow> u32 \<Rightarrow> u16 \<Rightarrow> bool" where
  "addressed k ip port \<longleftrightarrow> peer_ip k = ip \<and> peer_port k = port \<and> remote_addr_len k = 16 \<and> length (remote_addr k) = 256"

lemma set_peer:
  assumes "length (sin_zero a) = 8" "length x = 256"
  shows "\<exists>y. poke 0 (sin_bytes a) x = Some y \<and> (\<forall>k. addressed (k\<lparr>remote_addr := y, remote_addr_len := 16\<rparr>) (s_addr a) (sin_port a))"
proof (intro exI conjI allI)
  show "poke 0 (sin_bytes a) x = Some (sin_bytes a @ drop 16 x)" using assms by (simp add: poke_def)
  show "addressed (k\<lparr>remote_addr := sin_bytes a @ drop 16 x, remote_addr_len := 16\<rparr>) (s_addr a) (sin_port a)" for k
    using assms by (simp add: addressed_def peer_ip_def peer_port_def sin_bytes_def le16_def le32_def rd16_def rd32_def nth_append)
qed

lemma connect_spec:
  assumes l: "linked k (s_addr dest) m s" "144 \<le> k" and sk: "sk \<noteq> 0" "\<not> local_addr_len (socks s sk) < 16" "length (remote_addr (socks s sk)) = 256"
    and z: "length (sin_zero dest) = 8"
    and f: "f = tcp_frame m (s_addr dest) (tcp_segment (sock_port (socks s sk)) (sin_port dest) 1000 0 TCP_FLAG_SYN 1024) [] s"
    and tx: "0 \<le> tx_result f s"
  shows "\<exists>s' y. tcp_connect_handshake sk (Some dest) s = Some (0, s') \<and>
    (\<forall>k. addressed (k\<lparr>remote_addr := y, remote_addr_len := 16\<rparr>) (s_addr dest) (sin_port dest)) \<and>
    socks s' = (socks s)(sk := (socks s sk)\<lparr>local_seq := 1000, remote_ack := 0, remote_addr := y, remote_addr_len := 16, s_state := TCP_STATE_SYN_SENT\<rparr>) \<and>
    linked (k - 64) (s_addr dest) m s' \<and> sent s' = tx_sent [f] s \<and> quiet (bump (s\<lparr>socks := socks s'\<rparr>)) s'"
proof -
  from set_peer [OF z sk(3)] obtain y where y: "poke 0 (sin_bytes dest) (remote_addr (socks s sk)) = Some y"
    "\<forall>k. addressed (k\<lparr>remote_addr := y, remote_addr_len := 16\<rparr>) (s_addr dest) (sin_port dest)" by blast
  let ?h = "tcp_segment (sock_port (socks s sk)) (sin_port dest) 1000 0 TCP_FLAG_SYN 1024"
  let ?w = "(socks s)(sk := (socks s sk)\<lparr>local_seq := 1000, remote_ack := 0, remote_addr := y, remote_addr_len := 16, s_state := TCP_STATE_SYN_SENT\<rparr>)"
  from control_with_socks [OF l, of ?h ?w] obtain p s1 s3 s4 where
    a: "net_kmalloc 20 s = Some (p, s1)" "p \<noteq> 0" "same_stack s s1"
      "ip_output (s_addr dest) IPPROTO_TCP (Some (tcp_bytes (sealed s (s_addr dest) ?h []))) 20
         (put_buf p (tcp_bytes (sealed s (s_addr dest) ?h [])) (s1\<lparr>socks := ?w\<rparr>)) = Some (tx_result f s, s3)"
      "net_kfree p s3 = Some s4" "quiet (bump (s\<lparr>socks := ?w\<rparr>)) s4" "linked (k - 64) (s_addr dest) m s4" "sent s4 = tx_sent [f] s"
    unfolding f by blast
  note e = same_stackD(6) [OF a(3)]
  let ?s2 = "upd_sock sk (\<lambda>k. k\<lparr>local_seq := 1000, remote_ack := 0\<rparr>) s1"
  have "our_ip 0 ?s2 = our_ip 0 s" using our_cong(2) [of ?s2 s] a(3) by (simp add: same_stack_def)
  note sl = tcp_seal_control [of "s_addr dest" ?s2 ?h, unfolded sealed_cong [OF this]]
  have "sock_port (socks ?s2 sk) = sock_port (socks s sk)" by (simp add: e sock_port_def)
  with a(1,2,4,5) tx sk y(1) e sl have "tcp_connect_handshake sk (Some dest) s = Some (0, s4)"
    by (simp add: tcp_connect_handshake_def Let_def)
  moreover have "socks s4 = ?w" using quiet_fields(5) [OF a(6)] by simp
  ultimately show ?thesis using a(6-8) y(2) by (intro exI [of _ s4] exI [of _ y]) simp
qed

lemma listen_syn_spec:
  assumes l: "linked k src m s" "816 \<le> k" and sk: "sk \<in> ptrs s"
    and f: "f = tcp_frame m src (tcp_segment (tcp_dest_port tcp) (tcp_src_port tcp) (local_seq (socks s sk)) (ntohl (seq_num tcp) + 1)
      (TCP_FLAG_SYN OR TCP_FLAG_ACK) 2048) [] s"
  shows "\<exists>s' q y. tcp_in_listen_syn sk tcp src s = Some (0, s') \<and> q \<noteq> 0 \<and> q \<notin> ptrs s \<and> ptrs s' = insert q (ptrs s) \<and>
    (\<forall>k. addressed (k\<lparr>remote_addr := y, remote_addr_len := 16\<rparr>) src (tcp_src_port tcp)) \<and>
    socks s' = (socks s)(q := sock0\<lparr>remote_addr := y, remote_addr_len := 16, s_state := TCP_STATE_SYN_RECV,
        local_seq := local_seq (socks s sk), s_next := listen_queue (socks s sk)\<rparr>, sk := (socks s sk)\<lparr>listen_queue := q\<rparr>) \<and>
    g_bound_sockets_head s' = g_bound_sockets_head s \<and> g_net_interfaces s' = g_net_interfaces s \<and>
    linked (k - 736) src m s' \<and> sent s' = tx_sent [f] s \<and> threads (krn s') = threads (krn s) \<and>
    (\<forall>ps T Q. kinv ps T Q (krn s') = kinv ps T Q (krn s))"
proof -
  have r: "net_room k s" using l(1) by (simp add: linked_def)
  have "round16 (unat SIZEOF_SOCKET) = 640" by (simp add: round16_def)
  from net_kmalloc_spec [OF r, of SIZEOF_SOCKET, unfolded this] l(2) obtain q h s1 where
    s1: "s1 = (set_heap h s)\<lparr>bufs := (bufs s)(q := fresh_bytes s q SIZEOF_SOCKET)\<rparr>" and
    q: "net_kmalloc SIZEOF_SOCKET s = Some (q, s1)" "q \<noteq> 0" "q \<notin> ptrs s" "net_room (k - 640 - 32) s1" "ptrs s1 = insert q (ptrs s)" by auto
  from sk q(3) have ne: "q \<noteq> sk" by auto
  let ?a = "\<lparr>sin_family = 2, sin_port = tcp_src_port tcp, s_addr = src, sin_zero = map (junk s q) [0..<8]\<rparr>"
  from set_peer [of ?a "remote_addr sock0"] obtain y where y: "poke 0 (sin_bytes ?a) (remote_addr sock0) = Some y"
    "\<forall>k. addressed (k\<lparr>remote_addr := y, remote_addr_len := 16\<rparr>) src (tcp_src_port tcp)" by (auto simp: sock0_def)
  let ?n = "sock0\<lparr>remote_addr := y, remote_addr_len := 16, s_state := TCP_STATE_SYN_RECV, local_seq := local_seq (socks s sk)\<rparr>"
  let ?s2 = "upd_sock q (\<lambda>_. ?n) s1"
  let ?w = "(socks s)(q := ?n\<lparr>s_next := listen_queue (socks s sk)\<rparr>, sk := (socks s sk)\<lparr>listen_queue := q\<rparr>)"
  let ?h = "tcp_segment (tcp_dest_port tcp) (tcp_src_port tcp) (local_seq (socks s sk)) (ntohl (seq_num tcp) + 1) (TCP_FLAG_SYN OR TCP_FLAG_ACK) 2048"
  have e: "g_net_interfaces ?s2 = g_net_interfaces s" "g_ip_packet_id ?s2 = g_ip_packet_id s" "transmitter ?s2 = transmitter s" "sent ?s2 = sent s"
    "g_arp_cache ?s2 = g_arp_cache s" "krn ?s2 = (krn s)\<lparr>heap := h\<rparr>"
    by (simp_all add: s1 transmitter_def)
  have l2: "linked (k - 672) src m ?s2" "144 \<le> k - 672"
    using linked_room [OF l(1) e(1,5)] q(4) heap_cong(1) [of ?s2 s1] l(2) by simp_all
  from control_with_socks [OF l2, of ?h ?w] obtain p s3 s5 s6 where
    a: "net_kmalloc 20 ?s2 = Some (p, s3)" "p \<noteq> 0" "same_stack ?s2 s3"
      "ip_output src IPPROTO_TCP (Some (tcp_bytes (sealed ?s2 src ?h []))) 20 (put_buf p (tcp_bytes (sealed ?s2 src ?h [])) (s3\<lparr>socks := ?w\<rparr>)) =
        Some (tx_result (tcp_frame m src ?h [] ?s2) ?s2, s5)"
      "net_kfree p s5 = Some s6" "quiet (bump (?s2\<lparr>socks := ?w\<rparr>)) s6" "linked (k - 672 - 64) src m s6"
      "sent s6 = tx_sent [tcp_frame m src ?h [] ?s2] ?s2" by blast
  have e3: "socks s3 = (socks s)(q := ?n)" using same_stackD(6) [OF a(3)] by (simp add: s1)
  note sl = tcp_seal_control [of src s3 ?h, unfolded sealed_cong [OF same_stack_our_ip [OF a(3)]]]
  have "tcp_in_listen_syn sk tcp src s = Some (0, s6)"
    using q(1,2) a(1,2,4,5) y(1) ne sl by (simp add: tcp_in_listen_syn_def Let_def e3 s1 fun_upd_twist)
  moreover note qf = quiet_fields(1,5,7,10) [OF a(6)]
  moreover have "ptrs (?s2\<lparr>socks := ?w\<rparr>) = ptrs s1" by (rule heap_cong(2)) simp_all
  moreover have "sent s6 = tx_sent [f] s" unfolding a(8) tx_cong(2) [OF e(3,4)] tcp_frame_cong [OF e(1,2)] f ..
  moreover have "threads (krn s6) = threads (krn s)" "kinv ps T Q (krn s6) = kinv ps T Q (krn s)" for ps T Q
    using quiet_krn [OF a(6)] e(6) by (simp_all add: kinv_heap)
  ultimately show ?thesis using q(2,3,5) y(2) a(7)
    by (intro exI [of _ s6] exI [of _ q] exI [of _ y]) (simp add: s1)
qed

lemma syn_sent_spec:
  assumes l: "linked k src m s" "144 \<le> k" and ki: "kinv ps T Q (krn s)" "wait_channel sk \<noteq> 0"
    and fl: "has_flags TCP_FLAG_SYN flags" "has_flags TCP_FLAG_ACK flags"
  shows "\<exists>s'. tcp_in_syn_sent sk tcp flags src s = Some (0, s') \<and>
    socks s' = (socks s)(sk := (socks s sk)\<lparr>remote_ack := ntohl (seq_num tcp) + 1, local_seq := ntohl (ack_num tcp), s_state := TCP_STATE_ESTABLISHED\<rparr>) \<and>
    wakes ps sk s s' \<and> linked (k - 64) src m s' \<and> g_bound_sockets_head s' = g_bound_sockets_head s \<and>
    sent s' = tx_sent [tcp_frame m src (ack_of tcp (ntohl (ack_num tcp)) (ntohl (seq_num tcp) + 1) 2048) [] s] s"
proof -
  let ?s1 = "upd_sock sk (\<lambda>k. k\<lparr>remote_ack := ntohl (seq_num tcp) + 1, local_seq := ntohl (ack_num tcp), s_state := TCP_STATE_ESTABLISHED\<rparr>) s"
  let ?h = "ack_of tcp (ntohl (ack_num tcp)) (ntohl (seq_num tcp) + 1) 2048"
  have l1: "linked k src m ?s1" using l(1) linked_cong [of ?s1 s] by simp
  have k1: "kinv ps T Q (krn ?s1)" using ki(1) by simp
  from wake_and_reply [OF l1 l(2) k1 ki(2), of ?h] obtain s2 s3 where
    a: "sock_wakeup sk ?s1 = Some s2" "socks s2 = socks ?s1" "tcp_reply src ?h s2 = Some (True, s3)" "socks s3 = socks ?s1"
      "linked (k - 64) src m s3" "wakes ps sk ?s1 s3" "sent s3 = tx_sent [tcp_frame m src ?h [] ?s1] ?s1"
      "g_bound_sockets_head s3 = g_bound_sockets_head ?s1" by blast
  have "tcp_in_syn_sent sk tcp flags src s = Some (0, s3)" using a(1-3) fl by (simp add: tcp_in_syn_sent_def ack_of_def)
  moreover have "sent s3 = tx_sent [tcp_frame m src ?h [] s] s"
    unfolding a(7) using tcp_frame_cong [of ?s1 s] tx_cong(2) [of ?s1 s] by (simp add: transmitter_def)
  moreover have "wakes ps sk s s3" using a(6) by (simp add: wakes_def)
  ultimately show ?thesis using a(4,5,8) by (intro exI [of _ s3]) simp
qed

lemma socket_create_spec:
  assumes "net_room k s" "17104 \<le> k" "AF_UNSPEC \<le> fam" "fam \<le> PF_PACKET"
  shows "\<exists>new rx h b c s'. socket_create fam ty proto s = Some (new, s') \<and> new \<noteq> 0 \<and> new \<notin> ptrs s \<and> rx \<noteq> 0 \<and> rx \<notin> ptrs s \<and> length b = 16384 \<and>
    ptrs s' = insert rx (insert new (ptrs s)) \<and> net_room (k - 17088) s' \<and>
    s' = s\<lparr>krn := (krn s)\<lparr>heap := h\<rparr>, bufs := (bufs s)(new := c, rx := b), socks := (socks s)(new := sock0\<lparr>family := fam, s_type := ty,
      proto_ops := family_ops fam, rx_buffer := rx\<rparr>)\<rparr>"
proof -
  have r: "round16 (unat SIZEOF_SOCKET) = 640" "round16 (unat SOCKET_BUFFER_SIZE) = 16384" by (simp_all add: round16_def)
  from net_kmalloc_spec [OF assms(1), of SIZEOF_SOCKET, unfolded r] assms(2) obtain new h1 s1 where
    s1: "s1 = (set_heap h1 s)\<lparr>bufs := (bufs s)(new := fresh_bytes s new SIZEOF_SOCKET)\<rparr>" and
    a: "net_kmalloc SIZEOF_SOCKET s = Some (new, s1)" "new \<noteq> 0" "new \<notin> ptrs s" "net_room (k - 640 - 32) s1" "ptrs s1 = insert new (ptrs s)" by auto
  let ?s2 = "upd_sock new (\<lambda>_. sock0\<lparr>family := fam, s_type := ty, proto_ops := family_ops fam\<rparr>) s1"
  have e: "net_room (k - 640 - 32) ?s2" "ptrs ?s2 = insert new (ptrs s)" using a(4,5) heap_cong [of ?s2 s1] by simp_all
  have j: "0 < SOCKET_BUFFER_SIZE" "round16 (unat SOCKET_BUFFER_SIZE) + 48 \<le> k - 640 - 32" using assms(2) r by simp_all
  from net_kmalloc_spec [OF e(1) j] obtain rx h2 s3 where
    s3: "s3 = (set_heap h2 ?s2)\<lparr>bufs := (bufs ?s2)(rx := fresh_bytes ?s2 rx SOCKET_BUFFER_SIZE)\<rparr>" and
    b: "net_kmalloc SOCKET_BUFFER_SIZE ?s2 = Some (rx, s3)" "rx \<noteq> 0 \<and> rx \<notin> ptrs ?s2" "net_room (k - 640 - 32 - 16384 - 32) s3" "ptrs s3 = insert rx (ptrs ?s2)"
    unfolding r by blast
  let ?s4 = "upd_sock new (\<lambda>k. k\<lparr>rx_buffer := rx, tx_buffer := 0\<rparr>) s3"
  have "socket_create fam ty proto s = Some (new, ?s4)" using a(1,2) b(1,2) assms(3,4) by (simp add: socket_create_def)
  moreover have "net_room (k - 17088) ?s4" "ptrs ?s4 = insert rx (insert new (ptrs s))"
    using b(3,4) e(2) heap_cong [of ?s4 s3] by simp_all
  moreover have "?s4 = s\<lparr>krn := (krn s)\<lparr>heap := h2\<rparr>, bufs := (bufs s)(new := fresh_bytes s new SIZEOF_SOCKET, rx := fresh_bytes ?s2 rx SOCKET_BUFFER_SIZE),
      socks := (socks s)(new := sock0\<lparr>family := fam, s_type := ty, proto_ops := family_ops fam, rx_buffer := rx\<rparr>)\<rparr>"
    by (simp add: s3 s1) (simp add: sock0_def)
  moreover have "length (fresh_bytes ?s2 rx SOCKET_BUFFER_SIZE) = 16384" by simp
  moreover have "rx \<notin> ptrs s" using b(2) e(2) by simp
  ultimately show ?thesis using a(2,3) b(2) by blast
qed

text \<open>The session: a socket with the addresses of both ends, an empty stream and the numbers of the handshake.\<close>

definition session_made :: "u64 \<Rightarrow> u64 \<Rightarrow> u64 \<Rightarrow> u32 \<Rightarrow> net \<Rightarrow> net \<Rightarrow> bool" where
  "session_made sk q new ack s s' \<longleftrightarrow> new \<noteq> 0 \<and> new \<notin> ptrs s \<and> g_bound_sockets_head s' = new \<and>
     (\<forall>i. i \<noteq> new \<longrightarrow> socks s' i = (if i = sk then (socks s sk)\<lparr>listen_queue := new\<rparr> else socks s i)) \<and>
     (let n = socks s' new; k = socks s sk; c = socks s q in
       family n = AF_INET \<and> s_type n = s_type k \<and> s_state n = TCP_STATE_ESTABLISHED \<and> sock_port n = sock_port k \<and> local_addr_len n = 16 \<and>
       addressed n (peer_ip c) (peer_port c) \<and> local_seq n = local_seq c + 1 \<and> remote_ack n = ack \<and> s_next n = s_next c \<and>
       global_next n = g_bound_sockets_head s \<and> rx_buffer n \<in> ptrs s') \<and> sock_ring s' new \<and> sock_bytes s' new = []"

lemma copied_addr:
  assumes "length x = 256" "length y = 256"
  shows "poke 0 (take 16 x) y = Some (take 16 x @ drop 16 y)" "rd16 (take 16 x @ drop 16 y) 2 = rd16 x 2"
    "rd32 (take 16 x @ drop 16 y) 4 = rd32 x 4" "length (take 16 x @ drop 16 y) = 256" "peek 16 x = Some (take 16 x)"
  using assms by (simp_all add: peek_def poke_def rd16_def rd32_def nth_append)

lemma open_session_spec:
  assumes r: "net_room k s" "17104 \<le> k" and ki: "kinv ps T Q (krn s)" "wait_channel sk \<noteq> 0"
    and sk: "sk \<in> ptrs s" "length (local_addr (socks s sk)) = 256" "local_addr_len (socks s sk) = 16"
    and q: "q \<in> ptrs s" "q \<noteq> sk" "addressed (socks s q) ip port"
  shows "\<exists>s' new. tcp_open_session sk 0 q tcp s = Some (0, s') \<and> session_made sk q new (ntohl (seq_num tcp)) s s' \<and>
    wakes ps sk s s' \<and> sent s' = sent s"
proof -
  let ?k = "socks s sk" and ?c = "socks s q"
  have fo: "family_ops AF_INET = Some g_af_inet_ops" "AF_UNSPEC \<le> AF_INET" "AF_INET \<le> PF_PACKET" by (simp_all add: family_ops_def)
  from socket_create_spec [OF r fo(2,3), of "s_type ?k" 0, unfolded fo(1)] obtain new rx h b c s1 where
    a: "socket_create AF_INET (s_type ?k) 0 s = Some (new, s1)" "new \<noteq> 0" "new \<notin> ptrs s" "rx \<noteq> 0" "length b = 16384" "rx \<notin> ptrs s"
      "ptrs s1 = insert rx (insert new (ptrs s))" "net_room (k - 17088) s1" and
    s1: "s1 = s\<lparr>krn := (krn s)\<lparr>heap := h\<rparr>, bufs := (bufs s)(new := c, rx := b), socks := (socks s)(new := sock0\<lparr>family := AF_INET, s_type := s_type ?k,
      proto_ops := Some g_af_inet_ops, rx_buffer := rx\<rparr>)\<rparr>" by blast
  from sk(1) q(1) a(3) have ne: "sk \<noteq> new" "q \<noteq> new" by auto
  have c: "remote_addr_len ?c = 16" "length (remote_addr ?c) = 256" using q(3) by (simp_all add: addressed_def)
  have z: "length (local_addr sock0) = 256" "length (remote_addr sock0) = 256" by (simp_all add: sock0_def)
  note la = copied_addr [OF sk(2) z(1)] and ra = copied_addr [OF c(2) z(2)]
  let ?la = "take 16 (local_addr ?k) @ drop 16 (local_addr sock0)" and ?ra = "take 16 (remote_addr ?c) @ drop 16 (remote_addr sock0)"
  let ?n = "sock0\<lparr>family := AF_INET, s_type := s_type ?k, proto_ops := Some g_af_inet_ops, rx_buffer := rx,
      local_addr := ?la, local_addr_len := 16, remote_addr := ?ra, remote_addr_len := 16, s_state := TCP_STATE_ESTABLISHED,
      local_seq := local_seq ?c + 1, remote_ack := ntohl (seq_num tcp), s_next := s_next ?c, global_next := g_bound_sockets_head s\<rparr>"
  let ?s5 = "s1\<lparr>socks := (socks s)(new := ?n, sk := ?k\<lparr>listen_queue := new\<rparr>), g_bound_sockets_head := new\<rparr>"
  have r5: "net_room (k - 17088) ?s5" "ptrs ?s5 = insert rx (insert new (ptrs s))" using a(7,8) heap_cong [of ?s5 s1] by simp_all
  have "q \<in> ptrs ?s5" using r5(2) q(1) by simp
  from net_kfree_spec [OF r5(1) this] obtain h6 where
    f: "net_kfree q ?s5 = Some (set_heap h6 ?s5)" "ptrs (set_heap h6 ?s5) = ptrs ?s5 - {q}" by blast
  let ?s6 = "set_heap h6 ?s5"
  have k6: "krn ?s6 = (krn s)\<lparr>heap := h6\<rparr>" by (simp add: s1)
  have "kinv ps T Q (krn ?s6)" using ki(1) unfolding k6 kinv_heap .
  from sock_wakeup_spec [OF this ki(2)] obtain kr where
    w: "sock_wakeup sk ?s6 = Some (?s6\<lparr>krn := kr\<rparr>)" "heap kr = heap (krn ?s6)"
      "\<forall>t. th_state (threads kr t) = (if \<exists>p\<in>set ps. t = main_thread (procs (krn ?s6) p) \<and> waits_on (wait_channel sk) (krn ?s6) t
       then THREAD_READY else th_state (threads (krn ?s6) t))" by blast
  let ?s' = "?s6\<lparr>krn := kr\<rparr>"
  have "tcp_open_session sk 0 q tcp s = Some (0, ?s')"
    using a(1,2) f(1) w(1) la(1,5) ra(1,5) ne q(2) c(1) sk(3)
    by (simp add: tcp_open_session_def Let_def s1 fun_upd_twist)
  moreover have "session_made sk q new (ntohl (seq_num tcp)) s ?s'"
  proof -
    have "rx_buffer (socks ?s' new) \<in> ptrs ?s'"
      using heap_cong(2) [of ?s' ?s6] w(2) f(2) r5(2) a(6) q(1) ne(1) by auto
    moreover have "sock_ring ?s' new" "sock_bytes ?s' new = []"
      using a(4,5) ne by (simp_all add: sock_ring_def sock_bytes_def ring_ok_def ring_items_def ring_count_def s1) (simp_all add: sock0_def)
    ultimately show ?thesis using a(2,3) ne q(3) la(2) ra(2-4)
      by (simp add: session_made_def sock_port_def addressed_def peer_ip_def peer_port_def)
  qed
  moreover have "wakes ps sk s ?s'" using w(3) unfolding k6 wakes_def by (simp add: waits_on_def)
  moreover have "sent ?s' = sent s" by (simp add: s1)
  ultimately show ?thesis by blast
qed

text \<open>A listening socket \<open>sk\<close> that takes the segments of a host to which no session exists.\<close>

definition listens :: "net \<Rightarrow> u64 list \<Rightarrow> u32 \<Rightarrow> u16 \<Rightarrow> u16 \<Rightarrow> u64 \<Rightarrow> bool" where
  "listens s ks src sport dport sk \<longleftrightarrow> chain (\<lambda>k. global_next (socks s k)) (g_bound_sockets_head s) ks \<and>
     (\<forall>k\<in>set ks. \<not> connected src sport dport (socks s k)) \<and> sk \<noteq> 0 \<and>
     last (0 # filter (\<lambda>k. on_port SOCK_STREAM dport (socks s k) \<and> s_state (socks s k) = TCP_STATE_LISTEN) ks) = sk"

lemma last_nonnull: "x \<noteq> 0 \<Longrightarrow> last (0 # l) = x \<Longrightarrow> x \<in> set l"
  by (cases l rule: rev_cases) auto

lemma listens_lookup:
  assumes "listens s ks src (tcp_src_port h) (tcp_dest_port h) sk"
  shows "tcp_input_lookup src h s = Some sk" "sk \<noteq> 0" "sk \<in> set ks" "s_state (socks s sk) = TCP_STATE_LISTEN"
    "on_port SOCK_STREAM (tcp_dest_port h) (socks s sk)"
proof -
  have "\<forall>k\<in>set ks. \<not> session_of src h (socks s k)" using assms by (auto simp: listens_def connected_def session_of_def)
  then have "List.find (\<lambda>k. session_of src h (socks s k)) ks = None" by (simp add: find_None_iff)
  then show "tcp_input_lookup src h s = Some sk"
    using tcp_lookup_chain [of "socks s" "g_bound_sockets_head s" ks src h 0] assms by (simp add: listens_def listens_to_def tcp_input_lookup_def)
  let ?l = "filter (\<lambda>k. on_port SOCK_STREAM (tcp_dest_port h) (socks s k) \<and> s_state (socks s k) = TCP_STATE_LISTEN) ks"
  show nz: "sk \<noteq> 0" using assms by (simp add: listens_def)
  have "last (0 # ?l) = sk" using assms by (simp add: listens_def)
  with nz have "sk \<in> set ?l" by (rule last_nonnull)
  then show "sk \<in> set ks" "s_state (socks s sk) = TCP_STATE_LISTEN" "on_port SOCK_STREAM (tcp_dest_port h) (socks s sk)" by auto
qed

lemma control_arrives:
  "our_ip 0 t = dest \<Longrightarrow> ip_input udp_input tcp_input (Some (drop 14 (tcp_frame m dest h [] s))) 40 t =
    tcp_input (Some (tcp_bytes (sealed s dest h []))) 20 (our_ip 0 s) t"
  using tcp_frame_arrives [of t dest "[]" 40 m h s "[]"] by simp

text \<open>Which handler the three segments of a handshake reach.\<close>

lemma handshake_handlers:
  assumes "our_ip 0 t = dest" and h: "h = tcp_segment sport dport q a flags w"
  shows "\<lbrakk>listens t ks (our_ip 0 s) sport dport sk; flags = TCP_FLAG_SYN\<rbrakk> \<Longrightarrow>
      ip_input udp_input tcp_input (Some (drop 14 (tcp_frame m dest h [] s))) 40 t = tcp_in_listen_syn sk (sealed s dest h []) (our_ip 0 s) t"
    and "\<lbrakk>listens t ks (our_ip 0 s) sport dport sk; flags = TCP_FLAG_ACK\<rbrakk> \<Longrightarrow>
      ip_input udp_input tcp_input (Some (drop 14 (tcp_frame m dest h [] s))) 40 t = tcp_in_listen_ack sk (sealed s dest h []) (our_ip 0 s) t"
    and "\<lbrakk>takes t ks (our_ip 0 s) sport dport sk; s_state (socks t sk) = TCP_STATE_SYN_SENT; flags = TCP_FLAG_SYN OR TCP_FLAG_ACK\<rbrakk> \<Longrightarrow>
      ip_input udp_input tcp_input (Some (drop 14 (tcp_frame m dest h [] s))) 40 t = tcp_in_syn_sent sk (sealed s dest h []) flags (our_ip 0 s) t"
proof -
  let ?h = "sealed s dest h []"
  have p: "tcp_src_port ?h = sport" "tcp_dest_port ?h = dport" "ntohs (data_offset_flags ?h) = push_bit 12 5 OR flags" by (simp_all add: h)
  note ls = listens_lookup [of t ks "our_ip 0 s" ?h sk, unfolded p] and ts = takes_lookup [of t ks "our_ip 0 s" ?h sk, unfolded p]
  note at = tcp_input_at [of "our_ip 0 s" ?h t sk 20 "[]", unfolded p]
  note c = control_arrives [OF assms(1), of m h s]
  show "\<lbrakk>listens t ks (our_ip 0 s) sport dport sk; flags = TCP_FLAG_SYN\<rbrakk> \<Longrightarrow>
      ip_input udp_input tcp_input (Some (drop 14 (tcp_frame m dest h [] s))) 40 t = tcp_in_listen_syn sk ?h (our_ip 0 s) t"
    using at ls c by (simp add: has_flags_def)
  show "\<lbrakk>listens t ks (our_ip 0 s) sport dport sk; flags = TCP_FLAG_ACK\<rbrakk> \<Longrightarrow>
      ip_input udp_input tcp_input (Some (drop 14 (tcp_frame m dest h [] s))) 40 t = tcp_in_listen_ack sk ?h (our_ip 0 s) t"
    using at ls c by (simp add: has_flags_def)
  show "\<lbrakk>takes t ks (our_ip 0 s) sport dport sk; s_state (socks t sk) = TCP_STATE_SYN_SENT; flags = TCP_FLAG_SYN OR TCP_FLAG_ACK\<rbrakk> \<Longrightarrow>
      ip_input udp_input tcp_input (Some (drop 14 (tcp_frame m dest h [] s))) 40 t = tcp_in_syn_sent sk ?h flags (our_ip 0 s) t"
    using at ts c by simp
qed

lemma find_after: "\<forall>i\<in>set us. \<not> P i \<Longrightarrow> P x \<Longrightarrow> List.find P (us @ x # vs) = Some x"
  by (induction us) auto

lemma connecting_takes:
  assumes "chain (\<lambda>k. global_next (socks s k)) (g_bound_sockets_head s) ks" "sk \<in> set ks"
    and "\<forall>i\<in>set ks. i \<noteq> sk \<longrightarrow> \<not> connected src sport dport (socks s i)"
    and t: "g_bound_sockets_head t = g_bound_sockets_head s" "socks t = (socks s)(sk := x)" "global_next x = global_next (socks s sk)"
      "connected src sport dport x"
  shows "takes t ks src sport dport sk"
proof -
  have n: "(\<lambda>k. global_next (socks t k)) = (\<lambda>k. global_next (socks s k))" using t(2,3) by auto
  from assms(2) obtain us vs where ks: "ks = us @ sk # vs" "sk \<notin> set us" using split_list_first by metis
  have "\<forall>i\<in>set us. \<not> connected src sport dport (socks t i)" using assms(3) ks t(2) by auto
  then have "List.find (\<lambda>k. connected src sport dport (socks t k)) ks = Some sk" using t(2,4) unfolding ks(1) by (intro find_after) simp_all
  then show ?thesis using assms(1) t(1) unfolding takes_def n by simp
qed

lemma listen_ack_first:
  assumes "listen_queue (socks t sk) = q" "q \<noteq> 0" "addressed (socks t q) src (tcp_src_port h)" "s_state (socks t q) = TCP_STATE_SYN_RECV"
  shows "tcp_in_listen_ack sk h src t = tcp_open_session sk 0 q h t"
  using assms by (simp add: tcp_in_listen_ack_def addressed_def) (subst pending_search.simps, simp)

lemma accept_first:
  assumes "sk \<noteq> 0" "s_state (socks t sk) = TCP_STATE_LISTEN" "listen_queue (socks t sk) = q" "q \<noteq> 0" "s_state (socks t q) = TCP_STATE_ESTABLISHED"
  shows "\<exists>t'. af_inet_accept me sp sk t = Some (Some q, t')"
  using assms by (simp add: af_inet_accept_def) (subst ready_search.simps, simp)

lemma listens_grow:
  assumes l: "listens s ks src sport dport sk" and q: "q \<notin> set ks" "g_bound_sockets_head t = g_bound_sockets_head s"
    and t: "socks t = (socks s)(q := x, sk := (socks s sk)\<lparr>listen_queue := v\<rparr>)"
  shows "listens t ks src sport dport sk"
proof -
  have n: "(\<lambda>k. global_next (socks t k)) = (\<lambda>k. global_next (socks s k))(q := global_next (socks t q))" by (auto simp: t)
  have c: "connected src sport dport (socks t k) = connected src sport dport (socks s k)"
    "on_port SOCK_STREAM dport (socks t k) = on_port SOCK_STREAM dport (socks s k)" "s_state (socks t k) = s_state (socks s k)" if "k \<in> set ks" for k
    using that q(1) by (auto simp: t connected_def on_port_def sock_port_def peer_port_def peer_ip_def)
  have "filter (\<lambda>k. on_port SOCK_STREAM dport (socks t k) \<and> s_state (socks t k) = TCP_STATE_LISTEN) ks =
    filter (\<lambda>k. on_port SOCK_STREAM dport (socks s k) \<and> s_state (socks s k) = TCP_STATE_LISTEN) ks"
    by (rule filter_cong) (simp_all add: c)
  then show ?thesis using l c(1) q chain_upd [OF q(1)] unfolding listens_def n by simp
qed

lemma session_takes:
  assumes l: "listens s ks src sport dport sk" and m: "session_made sk q new a s s'" and p: "set ks \<subseteq> ptrs s"
    and c: "addressed (socks s q) src sport"
  shows "takes s' (new # ks) src sport dport new"
proof -
  from l have sk: "on_port SOCK_STREAM dport (socks s sk)"
    using listens_lookup(5) [of s ks src "tcp_segment sport dport 0 0 0 0" sk] by simp
  from m have n: "new \<noteq> 0" "new \<notin> set ks" "g_bound_sockets_head s' = new" "global_next (socks s' new) = g_bound_sockets_head s"
    using p by (auto simp: session_made_def Let_def)
  have e: "(\<lambda>k. global_next (socks s' k)) = (\<lambda>k. global_next (socks s k))(new := g_bound_sockets_head s)"
    using m by (auto simp: fun_eq_iff session_made_def Let_def)
  have "chain (\<lambda>k. global_next (socks s' k)) new (new # ks)"
    using l n(1) chain_upd [OF n(2)] unfolding e listens_def by simp
  moreover have "connected src sport dport (socks s' new)"
    using m sk c by (simp add: session_made_def Let_def connected_def on_port_def addressed_def)
  ultimately show ?thesis using n(3) by (simp add: takes_def)
qed

text \<open>The two ends of a connection agree on the sequence numbers.\<close>

definition in_sync :: "socket \<Rightarrow> socket \<Rightarrow> bool" where
  "in_sync a b \<longleftrightarrow> remote_ack b = local_seq a \<and> local_seq b = remote_ack a"

section \<open>Properties of streams\<close>




text \<open>The checksum of a segment is the Internet checksum of the pseudo header, the TCP header and the data in a row, whatever the
  parity of the length, and a receiver that adds up a sealed segment, checksum included, gets zero.\<close>

theorem tcp_checksum_is_internet_checksum:
  assumes "length d \<le> 65000" "unat sz = 20 + length d" "tcp_checksum h = 0"
    and p: "p = \<lparr>pseudo_src_ip = our_ip 0 s, pseudo_dest_ip = dest, reserved = 0, pseudo_protocol = IPPROTO_TCP,
      tcp_len = htons (of_nat (20 + length d))\<rparr>"
  shows "tcp_calculate_checksum p h d (length d) = ip_calculate_checksum (pseudo_bytes p @ tcp_bytes h @ d) (32 + length d) \<and>
    (\<exists>h'. tcp_seal dest sz d (length d) s h = Some h' \<and> h'\<lparr>tcp_checksum := 0\<rparr> = h \<and>
      ip_calculate_checksum (pseudo_bytes p @ tcp_bytes h' @ d) (32 + length d) = Some 0)"
proof -
  have p': "p = pseudo_of s dest d" by (simp add: p pseudo_of_def)
  have "(sealed s dest h d)\<lparr>tcp_checksum := 0\<rparr> = h" using assms(3) by (cases h) (simp add: sealed_def)
  then show ?thesis using tcp_seal_sealed [OF assms(1,2)] sealed_verifies [OF assms(1,3), of s dest] unfolding p'
    by (auto simp: tcp_checksum_whole)
qed

text \<open>A segment that arrives twice is delivered twice: sequence numbers are not compared.\<close>

theorem tcp_duplicate_delivered:
  assumes r: "sock_ring s sk" "rx_buffer (socks s sk) \<in> ptrs s" and n: "unat n = length d"
    and l: "linked k src m s" "208 \<le> k" and ki: "kinv ps T Q (krn s)" "wait_channel sk \<noteq> 0"
    and fits: "length (sock_bytes s sk) + 2 * length d \<le> 16383"
  shows "\<exists>s1 s2. tcp_accept_data sk tcp src d n s = Some (0, s1) \<and> tcp_accept_data sk tcp src d n s1 = Some (0, s2) \<and>
    sock_bytes s2 sk = sock_bytes s sk @ d @ d"
proof -
  have f1: "length (sock_bytes s sk) + length d \<le> 16383" "144 \<le> k" using fits l(2) by simp_all
  from accept_data_spec [OF r(1) f1(1) n l(1) f1(2) ki r(2), of tcp "[]"] obtain s1 h Q' where
    s1: "tcp_accept_data sk tcp src d n s = Some (0, s1)" "sock_ring s1 sk" "sock_bytes s1 sk = sock_bytes s sk @ d"
      "socks s1 = (socks s)(sk := (socks s sk)\<lparr>rx_head := h, remote_ack := ntohl (seq_num tcp) + n, local_seq := ntohl (ack_num tcp)\<rparr>)"
      "ptrs s1 = ptrs s" "linked (k - 64) src m s1" "kinv ps T Q' (krn s1)" by auto
  have f2: "length (sock_bytes s1 sk) + length d \<le> 16383" "144 \<le> k - 64" "rx_buffer (socks s1 sk) \<in> ptrs s1"
    using fits l(2) r(2) s1(3-5) by simp_all
  from accept_data_spec [OF s1(2) f2(1) n s1(6) f2(2) s1(7) ki(2) f2(3), of tcp "[]"] s1(1,3) show ?thesis by auto
qed

text \<open>The test of the connection state in \<^verbatim>\<open>af_inet_connect\<close> has the numbers of two states exchanged. It returns success while the socket is
  still in state SYN_SENT, right after the first segment has left; and when the answer comes first, it
  waits in state ESTABLISHED, however often it is woken.\<close>

theorem connect_states_exchanged:
  assumes "linked k (s_addr dest) m s" "144 \<le> k" "sk \<noteq> 0" "\<not> local_addr_len (socks s sk) < 16" "length (remote_addr (socks s sk)) = 256"
    and "sin_family dest = 2" "length (sin_zero dest) = 8" "s_type (socks s sk) = SOCK_STREAM" and tx: "\<forall>f. 0 \<le> tx_result f s"
  shows "\<exists>s'. af_inet_connect me sp sk (Some (sin_bytes dest)) 16 s = Some (Some 0, s') \<and> s_state (socks s' sk) = TCP_STATE_SYN_SENT"
    "s_state (socks t sk) = TCP_STATE_ESTABLISHED \<Longrightarrow> connect_wait me sp sk t = map_option (\<lambda>(r, t'). (None, t')) (sock_wait me sp sk t)"
proof -
  from set_peer [OF assms(7,5)] obtain y where y: "poke 0 (sin_bytes dest) (remote_addr (socks s sk)) = Some y"
    "\<And>k. addressed (k\<lparr>remote_addr := y, remote_addr_len := 16\<rparr>) (s_addr dest) (sin_port dest)" by blast
  let ?s1 = "upd_sock sk (\<lambda>k. k\<lparr>remote_addr := y, remote_addr_len := 16\<rparr>) s"
  have l1: "linked k (s_addr dest) m ?s1" using assms(1) linked_cong [of ?s1 s] by simp
  have tx1: "0 \<le> tx_result f ?s1" for f using tx tx_cong(1) [of ?s1 s] by (simp add: transmitter_def)
  have k1: "\<not> local_addr_len (socks ?s1 sk) < 16" "length (remote_addr (socks ?s1 sk)) = 256"
    using assms(4) y(2) [of "socks s sk"] by (simp_all add: addressed_def)
  from connect_spec [OF l1 assms(2,3) k1 assms(7) refl tx1] obtain s' y' where
    s': "tcp_connect_handshake sk (Some dest) ?s1 = Some (0, s')" "s_state (socks s' sk) = TCP_STATE_SYN_SENT" by fastforce
  have at: "sin_at (sin_bytes dest) = Some dest" using assms(7)
    by (cases dest) (simp add: sin_at_def sin_bytes_def at_defs)
  show "\<exists>s'. af_inet_connect me sp sk (Some (sin_bytes dest)) 16 s = Some (Some 0, s') \<and> s_state (socks s' sk) = TCP_STATE_SYN_SENT"
    using s' at assms(3,6,8) y(1) by (simp add: af_inet_connect_def connect_wait_def)
  show "s_state (socks t sk) = TCP_STATE_ESTABLISHED \<Longrightarrow> connect_wait me sp sk t = map_option (\<lambda>(r, t'). (None, t')) (sock_wait me sp sk t)"
    by (cases "sock_wait me sp sk t") (auto simp: connect_wait_def)
qed

section \<open>Examples\<close>

text \<open>
  A heap of two megabytes with an allocated socket and its receive buffer. The page table maps each of its 512
  pages.
\<close>

definition vmm_wide :: vmm where
  "vmm_wide = vmm_two\<lparr>pmem := (\<lambda>f i. if f = 4 \<and> i < 512 then 0x5003 else pmem vmm_two f i)\<rparr>"

lemma wide_step:
  "get_p (pmem vmm_wide f i) \<longleftrightarrow> f = 4 \<and> i < 512 \<or> (f, i) \<in> {(1, 256), (2, 1), (3, 0), (7, 0), (8, 0), (9, 0), (10, 0)}"
  "f = 4 \<and> i < 512 \<or> (f, i) \<in> {(1, 256), (2, 1), (3, 0), (7, 0), (8, 0), (9, 0), (10, 0)} \<Longrightarrow> get_frame (pmem vmm_wide f i) = f + 1"
  "\<not> get_ps (pmem vmm_wide f i)"
  using two_step by (auto simp: vmm_wide_def two_fields)

lemma wide_walk:
  assumes "path 4 q" "walk (pmem vmm_wide) 1 q = Some x"
  shows "(q, x) \<in> {([], 1), ([256], 2), ([256, 1], 3), ([256, 1, 0], 4)} \<union> {([256, 1, 0, d], 5) |d. d < 512}"
  using assms(1) by (cases rule: path_cases) (use assms(2) in \<open>auto simp: wide_step split: if_splits\<close>)

lemma wide_ok: "mem_ok vmm_wide" "tree_wf vmm_wide 1"
proof -
  have f: "frames vmm_wide = frames vmm_two" by (simp add: vmm_wide_def)
  then show "mem_ok vmm_wide" using two_ok(1) by (simp add: mem_ok_def)
  have "p = q" if "path 3 p" "path 4 q" "walk (pmem vmm_wide) 1 p = Some f" "walk (pmem vmm_wide) 1 q = Some f" for p q f
  proof -
    have "length p \<le> 3" using that(1) by (simp add: path_def)
    then show ?thesis using wide_walk [OF path_up(1) [OF that(1)] that(3)] wide_walk [OF that(2,4)] by auto
  qed
  moreover have "unat x \<notin> free_pages (frames vmm_wide)" "unat x < 2 ^ 24" if "path 4 p" "walk (pmem vmm_wide) 1 p = Some x" for p x
    using wide_walk [OF that] by (auto simp: f two_free)
  ultimately show "tree_wf vmm_wide 1" unfolding tree_wf_def using wide_step(3) path_up(1) by blast
qed

definition heap_wide :: kheap where
  "heap_wide = \<lparr>
     g_heap_start = KERNEL_HEAP_VIRTUAL_BASE, g_heap_current_end = KERNEL_HEAP_VIRTUAL_BASE + 0x200000,
     hmem = (\<lambda>_. 0)(KERNEL_HEAP_VIRTUAL_BASE := 640, KERNEL_HEAP_VIRTUAL_BASE + 16 := KERNEL_HEAP_VIRTUAL_BASE + 672,
       KERNEL_HEAP_VIRTUAL_BASE + 672 := 16384, KERNEL_HEAP_VIRTUAL_BASE + 688 := KERNEL_HEAP_VIRTUAL_BASE + 17088,
       KERNEL_HEAP_VIRTUAL_BASE + 17088 := 2080032, KERNEL_HEAP_VIRTUAL_BASE + 17096 := 1),
     hvm = vmm_wide\<rparr>"

lemma wide_mapped:
  assumes "KERNEL_HEAP_VIRTUAL_BASE \<le> va" "va < KERNEL_HEAP_VIRTUAL_BASE + 0x200000"
  shows "mapped vmm_wide 1 va"
proof -
  define x where "x = unat va div 4096"
  have "unat va div 2097152 = unat KERNEL_HEAP_VIRTUAL_BASE div 2097152"
    using assms by (intro div_nat_eqI) (simp_all add: word_le_nat_alt word_less_nat_alt)
  then have "x div 512 = unat KERNEL_HEAP_VIRTUAL_BASE div 2097152" by (simp add: x_def div_mult2_eq [symmetric])
  then have "va_path va = [256, 1, 0, x mod 512]" by (simp add: va_path_def index_value x_def [symmetric])
  then show ?thesis by (simp add: mapped_def wide_step)
qed

lemma heap_wide_inv: "heap_inv 1 heap_wide [(640, False), (16384, False), (2080032, True)]"
  using wide_ok wide_mapped unfolding heap_inv_def by (simp add: heap_wide_def header_defs)

abbreviation sock_wide :: u64 where "sock_wide \<equiv> KERNEL_HEAP_VIRTUAL_BASE + 32"
abbreviation rx_wide :: u64 where "rx_wide \<equiv> KERNEL_HEAP_VIRTUAL_BASE + 704"

text \<open>The host 10.0.2.15 with a socket at 0x900, and the host 10.0.2.9 with a socket in the large heap.\<close>

definition stream_sock :: "u16 \<Rightarrow> socket" where
  "stream_sock port = sock0\<lparr>family := AF_INET, s_type := SOCK_STREAM, local_addr := sin_bytes (sin_demo port) @ replicate 240 0, local_addr_len := 16\<rparr>"

definition host_a :: "socket \<Rightarrow> net" where
  "host_a k = net_known\<lparr>socks := (\<lambda>_. sock0)(0x900 := k), g_bound_sockets_head := 0x900\<rparr>"

definition host_b :: "socket \<Rightarrow> net" where
  "host_b k = (arp_cache_insert 0x0F02000A (Mac 2 0 0 0 0 1) net_demo)\<lparr>krn := kernel_demo\<lparr>heap := heap_wide\<rparr>,
     g_net_interfaces := [if0\<lparr>if_mac := mac_demo, if_ip := 0x0902000A, active := True\<rparr>, if0, if0, if0],
     socks := (\<lambda>_. sock0)(sock_wide := k), g_bound_sockets_head := sock_wide,
     bufs := (bufs net_demo)(rx_wide := replicate 16384 0)\<rparr>"

lemma arp_insert_rest:
  "krn (arp_cache_insert ip m s) = krn s" "net_cr3 (arp_cache_insert ip m s) = net_cr3 s" "g_net_interfaces (arp_cache_insert ip m s) = g_net_interfaces s"
  "sent (arp_cache_insert ip m s) = sent s" "transmitter (arp_cache_insert ip m s) = transmitter s" "bufs (arp_cache_insert ip m s) = bufs s"
  by (auto simp: arp_cache_insert_def Let_def transmitter_def split: option.split)

lemma host_a_facts: "linked 3968 0x0902000A mac_demo (host_a k)" "tx_result f (host_a k) = 0" "tx_sent fs (host_a k) = fs" "our_ip 0 (host_a k) = 0x0F02000A"
  "kinv procs_demo {0x200, 0x300, 0x400} queues_demo (krn (host_a k))" "socks (host_a k) = (\<lambda>_. sock0)(0x900 := k)" "g_bound_sockets_head (host_a k) = 0x900"
proof -
  have e: "transmitter (host_a k) = transmitter net_known" "sent (host_a k) = sent net_known" by (simp_all add: host_a_def transmitter_def)
  show "linked 3968 0x0902000A mac_demo (host_a k)"
    using known_facts(1-3) linked_cong [of "host_a k" net_known] by (simp add: host_a_def linked_def)
  show "tx_result f (host_a k) = 0" "tx_sent fs (host_a k) = fs" using tx_cong [OF e] known_facts(4,5) by simp_all
  show "our_ip 0 (host_a k) = 0x0F02000A" using our_cong(2) [of "host_a k" net_demo] demo_our by (simp add: host_a_def net_known_def arp_insert_rest)
  show "kinv procs_demo {0x200, 0x300, 0x400} queues_demo (krn (host_a k))"
    using demo_kinv by (simp add: host_a_def net_known_def arp_insert_rest) (simp add: net_demo_def)
qed (simp_all add: host_a_def)

lemma host_b_facts: "linked 2080032 0x0F02000A (Mac 2 0 0 0 0 1) (host_b k)" "tx_sent fs (host_b k) = fs" "our_ip 0 (host_b k) = 0x0902000A"
  "kinv procs_demo {0x200, 0x300, 0x400} queues_demo (krn (host_b k))" "socks (host_b k) = (\<lambda>_. sock0)(sock_wide := k)"
  "g_bound_sockets_head (host_b k) = sock_wide" "bufs (host_b k) rx_wide = replicate 16384 0" "ptrs (host_b k) = {sock_wide, rx_wide}"
proof -
  let ?bs = "[(640, False), (16384, False), (2080032, True)]"
  have i: "heap_inv (net_cr3 (host_b k)) (heap (krn (host_b k))) ?bs"
    using heap_wide_inv by (simp add: host_b_def arp_insert_rest) (simp add: net_demo_def)
  moreover have "room 2080032 ?bs" by (simp add: room_def)
  ultimately have r: "net_room 2080032 (host_b k)" unfolding net_room_inv by blast
  have "arp_map (host_b k) = arp_map (arp_cache_insert 0x0F02000A (Mac 2 0 0 0 0 1) net_demo)" by (rule arp_map_cong) (simp add: host_b_def)
  then have "next_hop (host_b k) 0x0F02000A = Some (Mac 2 0 0 0 0 1)" using arp_cache_insert_spec(2) [OF demo_cache] by (simp add: next_hop_def)
  moreover have "active (g_net_interfaces (host_b k) ! 0)" by (simp add: host_b_def)
  then have "if_status 0 (host_b k) = 0" by (simp add: if_status_def)
  ultimately show "linked 2080032 0x0F02000A (Mac 2 0 0 0 0 1) (host_b k)" using r by (simp add: linked_def)
  show "tx_sent fs (host_b k) = fs" using tx_cong(2) [of "host_b k" net_demo] demo_tx
    by (simp add: host_b_def transmitter_def arp_insert_rest [unfolded transmitter_def])
  show "our_ip 0 (host_b k) = 0x0902000A" by (simp add: host_b_def our_ip_def net_get_interface_ip_def if_status_def)
  show "kinv procs_demo {0x200, 0x300, 0x400} queues_demo (krn (host_b k))" using demo_kinv by (simp add: host_b_def kinv_heap)
  have "ptrs (host_b k) = {p. \<exists>j. (unat p, j) \<in> heap_live ?bs}" by (rule ptrs_live [OF i])
  also have "heap_live ?bs = {(unat sock_wide, 640), (unat rx_wide, 16384)}" by auto
  also have "{p. \<exists>j. (unat p, j) \<in> {(unat sock_wide, 640), (unat rx_wide, 16384)}} = {sock_wide, rx_wide}"
    using word_unat_eq_iff [where ?'a = 64] by blast
  finally show "ptrs (host_b k) = {sock_wide, rx_wide}" .
qed (simp_all add: host_b_def)

abbreviation addr_b :: sockaddr_in where "addr_b \<equiv> (sin_demo 0x5000)\<lparr>s_addr := 0x0902000A\<rparr>"

lemma stream_sock_fields: "sock_port (stream_sock p) = p" "on_port SOCK_STREAM q (stream_sock p) \<longleftrightarrow> q = p"
  "local_addr_len (stream_sock p) = 16" "length (local_addr (stream_sock p)) = 256" "length (remote_addr (stream_sock p)) = 256"
  "global_next (stream_sock p) = 0" "s_type (stream_sock p) = SOCK_STREAM"
  by (auto simp: stream_sock_def sock_port_def on_port_def demo_addr) (simp_all add: sock0_def)


text \<open>The two ends of an open connection.\<close>

definition end_a :: socket where
  "end_a = (stream_sock 0x0080)\<lparr>s_state := TCP_STATE_ESTABLISHED, remote_addr := sin_bytes addr_b @ replicate 240 0, remote_addr_len := 16,
     local_seq := 1001, remote_ack := 501\<rparr>"

definition end_b :: socket where
  "end_b = (stream_sock 0x5000)\<lparr>s_state := TCP_STATE_ESTABLISHED,
     remote_addr := sin_bytes ((sin_demo 0x0080)\<lparr>s_addr := 0x0F02000A\<rparr>) @ replicate 240 0, remote_addr_len := 16,
     local_seq := 501, remote_ack := 1001, rx_buffer := rx_wide, rx_head := 16382, rx_tail := 16382\<rparr>"

lemma end_fields: "peer_ip end_a = 0x0902000A" "peer_port end_a = 0x5000" "sock_port end_a = 0x0080" "s_state end_a = TCP_STATE_ESTABLISHED"
  "remote_addr_len end_a = 16" "connected 0x0902000A 0x5000 0x0080 end_a" "connected 0x0F02000A 0x0080 0x5000 end_b" "global_next end_a = 0" "global_next end_b = 0"
  "s_state end_b = TCP_STATE_ESTABLISHED" "s_type end_b = SOCK_STREAM"
  using stream_sock_fields [of "0x0080"] stream_sock_fields [of "0x5000"]
  by (auto simp: end_a_def end_b_def connected_def on_port_def sock_port_def peer_ip_def peer_port_def sin_demo_def sin_bytes_def at_defs nth_append)

lemma end_b_ring: "sock_ring (host_b end_b) sock_wide" "sock_bytes (host_b end_b) sock_wide = []" "rx_buffer (socks (host_b end_b) sock_wide) \<in> ptrs (host_b end_b)"
  by (simp_all add: sock_ring_def sock_bytes_def ring_ok_def ring_items_def ring_count_def host_b_facts)
    (simp_all add: end_b_def host_b_facts [simplified])



theorem tcp_checksum_is_internet_checksum_witness:
  "\<exists>h'. tcp_seal 5 23 [1, 2, 3] (length [1 :: u8, 2, 3]) (host_a end_a) (tcp_segment 7 9 0 0 2 0) = Some h' \<and>
     ip_calculate_checksum (pseudo_bytes \<lparr>pseudo_src_ip = our_ip 0 (host_a end_a), pseudo_dest_ip = 5, reserved = 0, pseudo_protocol = 6,
       tcp_len = htons (of_nat (20 + length [1 :: u8, 2, 3]))\<rparr> @ tcp_bytes h' @ [1, 2, 3]) (32 + length [1 :: u8, 2, 3]) = Some 0"
  using tcp_checksum_is_internet_checksum [where d = "[1, 2, 3]" and sz = 23 and h = "tcp_segment 7 9 0 0 2 0" and s = "host_a end_a" and dest = 5, OF _ _ _ refl]
  by auto

end
