(* ===== verification/Raw.thy ===== *)
theory Raw
  imports Tcp
begin

text \<open>
  Raw sockets and the receive thread: \<^verbatim>\<open>src/kernel/kernel/net/pf_packet.c\<close> and the loop of \<^verbatim>\<open>network_rx_thread\<close> in
  \<^verbatim>\<open>net.c\<close>, which hands every packet of the ring to the raw sockets and to the protocols. A raw socket keeps the
  frames in its ring, each behind its length. One iteration of the endless loop is \<open>rx_step\<close>.
\<close>

section \<open>Raw sockets\<close>

abbreviation SIZEOF_SOCKADDR_LL :: u64 where "SIZEOF_SOCKADDR_LL \<equiv> 20"

definition pf_packet_bind :: "u64 \<Rightarrow> u8 list option \<Rightarrow> u64 \<Rightarrow> net \<Rightarrow> (int \<times> net) option" where
  "pf_packet_bind sk addr addrlen s =
     (if sk = 0 \<or> addr = None \<or> addrlen < SIZEOF_SOCKADDR_LL then Some (-1, s)
      else if length (the addr) < 20 then None
      else if rd16 (the addr) 0 \<noteq> 4 then Some (-2, s)
      else do {
        (res, s1) \<leftarrow> socket_bind_address sk addr SIZEOF_SOCKADDR_LL s;
        Some (if res < 0 then res else 0, s1)
      })"

definition pf_packet_connect :: "u64 \<Rightarrow> u8 list option \<Rightarrow> u64 \<Rightarrow> net \<Rightarrow> int \<times> net" where
  "pf_packet_connect sk addr addrlen s = (-1, s)"

definition pf_packet_listen :: "u64 \<Rightarrow> int \<Rightarrow> net \<Rightarrow> int \<times> net" where
  "pf_packet_listen sk backlog s = (-1, s)"

definition pf_packet_accept :: "u64 \<Rightarrow> net \<Rightarrow> u64 \<times> net" where
  "pf_packet_accept sk s = (0, s)"

definition pf_packet_sendto :: "u64 \<Rightarrow> u8 list option \<Rightarrow> u64 \<Rightarrow> net \<Rightarrow> (int \<times> net) option" where
  "pf_packet_sendto sk buf len s =
     (if sk = 0 \<or> buf = None \<or> len = 0 then Some (-1, s)
      else if len > 1514 then Some (-2, s)
      else do {
        (res, s1) \<leftarrow> net_driver_transmit buf (ucast len) s;
        Some (if res < 0 then -3 else sint len, s1)
      })"

text \<open>The address that is stored: the family and zeros.\<close>

definition sll_addr :: "u64 option \<Rightarrow> u8 list option" where
  "sll_addr addrlen =
     (case addrlen of Some n \<Rightarrow> if SIZEOF_SOCKADDR_LL \<le> n then Some (le16 4 @ replicate 18 0) else None | None \<Rightarrow> None)"

definition pf_packet_recvfrom :: "u64 \<Rightarrow> u64 \<Rightarrow> u64 \<Rightarrow> nat option \<Rightarrow> u64 \<Rightarrow> u64 option \<Rightarrow> net \<Rightarrow> (recv \<times> net) option" where
  "pf_packet_recvfrom me sp sk buf len addrlen s =
     (let k = socks s sk in
      if sk = 0 \<or> buf = None \<or> len = 0 \<or> rx_buffer k = 0 then Some (Returns (-1) [] None, s)
      else if rx_head k = rx_tail k then sock_wait me sp sk s
      else do {
        (lb, s1) \<leftarrow> sock_get sk 4 s;
        let frame_len = rd32 lb 0;
        if frame_len = 0 \<or> frame_len > SOCKET_BUFFER_SIZE then Some (Returns (-2) [] None, s1)
        else do {
          let limit = (if ucast frame_len < len then frame_len else ucast len);
          if the buf < unat limit then None
          else do {
            (d, s2) \<leftarrow> sock_get sk (unat limit) s1;
            let s3 = (if limit < frame_len
              then upd_sock sk (rx_tail_update (\<lambda>t. (t + (frame_len - limit)) mod SOCKET_BUFFER_SIZE)) s2 else s2);
            Some (Returns (int (length d)) d (if d \<noteq> [] then sll_addr addrlen else None), s3)
          }
        }
      })"

text \<open>The hook in the receive path. It walks along \<open>s_next\<close>, as the code does.\<close>

definition raw_deliver :: "u64 \<Rightarrow> u8 list \<Rightarrow> u32 \<Rightarrow> net \<Rightarrow> net option" where
  "raw_deliver sk frame frame_len s =
     (if free_space (socks s sk) \<ge> 4 + frame_len then do {
        s1 \<leftarrow> sock_put sk (le32 frame_len) s;
        x \<leftarrow> peek (unat frame_len) frame;
        s2 \<leftarrow> sock_put sk x s1;
        sock_wakeup sk s2
      }
      else Some s)"

partial_function (option) raw_loop :: "u64 \<Rightarrow> u8 list \<Rightarrow> u32 \<Rightarrow> net \<Rightarrow> net option" where
  "raw_loop k frame frame_len s =
     (if k = 0 then Some s
      else do {
        s1 \<leftarrow> (if family (socks s k) = PF_PACKET \<and> rx_buffer (socks s k) \<noteq> 0 then raw_deliver k frame frame_len s else Some s);
        raw_loop (s_next (socks s1 k)) frame frame_len s1
      })"

definition packet_input :: "u64 \<Rightarrow> u8 list option \<Rightarrow> u32 \<Rightarrow> net \<Rightarrow> net option" where
  "packet_input global_socket_list frame frame_len s =
     (if global_socket_list = 0 \<or> frame = None \<or> frame_len = 0 \<or> frame_len > 1514 then Some s
      else raw_loop global_socket_list (the frame) frame_len s)"

section \<open>The receive thread\<close>

definition rx_link :: "net \<Rightarrow> net option" where
  "rx_link s =
     (let (ev, s1) = net_consume_link_event s in
      case ev of
        NET_EVENT_LINK_UP \<Rightarrow> do { (r, s2) \<leftarrow> net_init_dhcp_client s1; Some s2 }
      | NET_EVENT_LINK_DOWN \<Rightarrow> net_clear_dhcp_leases s1
      | NET_EVENT_NONE \<Rightarrow> Some s1)"

definition rx_packet :: "net_rx_packet \<Rightarrow> net \<Rightarrow> net option" where
  "rx_packet pk s =
     do {
       s1 \<leftarrow> packet_input (g_bound_sockets_head s) (Some (bufs s (rx_data pk))) (rx_len pk) s;
       let x = bufs s1 (rx_data pk);
       eth \<leftarrow> eth_at x;
       let len = rx_len pk - 14;
       s2 \<leftarrow> (if ntohs (ethertype eth) = ETH_P_IP then do { (r, t) \<leftarrow> ip_input udp_input tcp_input (Some (drop 14 x)) len s1; Some t }
              else if ntohs (ethertype eth) = ETH_P_ARP then do { (r, t) \<leftarrow> arp_input (Some (drop 14 x)) len s1; Some t }
              else Some s1);
       net_kfree (rx_data pk) s2
     }"

definition rx_step :: "net \<Rightarrow> net option" where
  "rx_step s =
     do {
       s1 \<leftarrow> rx_link s;
       (case rx_take s1 of None \<Rightarrow> Some s1 | Some (pk, s2) \<Rightarrow> rx_packet pk s2)
     }"

section \<open>A raw socket is a queue of frames\<close>

definition frame_image :: "u8 list \<Rightarrow> u8 list" where
  "frame_image f = le32 (of_nat (length f)) @ f"

definition frames_in :: "net \<Rightarrow> u64 \<Rightarrow> u8 list list \<Rightarrow> bool" where
  "frames_in s sk fs \<longleftrightarrow> sock_ring s sk \<and> sock_bytes s sk = concat (map frame_image fs) \<and> (\<forall>f\<in>set fs. 0 < length f \<and> length f \<le> 1514)"

abbreviation frames_size :: "u8 list list \<Rightarrow> nat" where
  "frames_size fs \<equiv> length (concat (map frame_image fs))"

lemma raw_deliver_spec:
  assumes q: "frames_in s sk fs" and n: "unat n \<le> length x" "0 < unat n" "unat n \<le> 1514" and ki: "kinv ps T Q (krn s)" "wait_channel sk \<noteq> 0"
  shows "if frames_size fs + 4 + unat n \<le> 16383
    then \<exists>s' Q'. raw_deliver sk x n s = Some s' \<and> frames_in s' sk (fs @ [take (unat n) x]) \<and> wakes ps sk s s' \<and> kinv ps T Q' (krn s') \<and>
      s_next (socks s' sk) = s_next (socks s sk)
    else raw_deliver sk x n s = Some s"
proof -
  let ?d = "take (unat n) x"
  have r: "sock_ring s sk" "sock_bytes s sk = concat (map frame_image fs)" "\<forall>f\<in>set fs. 0 < length f \<and> length f \<le> 1514" using q by (simp_all add: frames_in_def)
  have "unat (4 + n) = 4 + unat n" using n(3) by (simp add: unat_add_nowrap)
  moreover have "length (sock_bytes s sk) < 16384" using ring_count_less [OF sock_ringD(1) [OF r(1)]] by (simp add: sock_bytes_def)
  ultimately have room: "free_space (socks s sk) \<ge> 4 + n \<longleftrightarrow> frames_size fs + 4 + unat n \<le> 16383"
    using unat_free_space [OF r(1)] r(2) by (auto simp: word_le_nat_alt)
  show ?thesis
  proof (cases "frames_size fs + 4 + unat n \<le> 16383")
    case True
    from sock_put_spec [OF r(1), of "le32 n @ ?d"] True n(1) r(2) obtain s2 h y where
      s2: "sock_put sk (le32 n @ ?d) s = Some s2" "sock_ring s2 sk" "sock_bytes s2 sk = sock_bytes s sk @ le32 n @ ?d"
        "s2 = s\<lparr>socks := (socks s)(sk := (socks s sk)\<lparr>rx_head := h\<rparr>), bufs := (bufs s)(rx_buffer (socks s sk) := y)\<rparr>" by auto
    from s2(1) obtain s1 where s1: "sock_put sk (le32 n) s = Some s1" "sock_put sk ?d s1 = Some s2" by (auto simp: sock_put_append bind_eq_Some_conv)
    have k2: "krn s2 = krn s" by (simp add: s2(4))
    from sock_wakeup_spec [of ps T Q s2, unfolded k2, OF ki] obtain kr Q' where
      w: "sock_wakeup sk s2 = Some (s2\<lparr>krn := kr\<rparr>)" "kinv ps T Q' kr"
        "\<forall>t. th_state (threads kr t) = (if \<exists>p\<in>set ps. t = main_thread (procs (krn s) p) \<and> waits_on (wait_channel sk) (krn s) t
          then THREAD_READY else th_state (threads (krn s) t))" by blast
    let ?s' = "s2\<lparr>krn := kr\<rparr>"
    have p: "peek (unat n) x = Some ?d" using n(1) by (simp add: peek_def)
    have "raw_deliver sk x n s = Some ?s'" using room True s1 w(1) p by (simp add: raw_deliver_def)
    moreover have "frame_image ?d = le32 n @ ?d" using n(1) by (simp add: frame_image_def)
    then have "frames_in ?s' sk (fs @ [?d])" using s2(2,3) r n sock_ring_cong [of ?s' sk s2] by (auto simp: frames_in_def)
    moreover have "wakes ps sk s ?s'" using w(3) by (simp add: wakes_def)
    moreover have "s_next (socks ?s' sk) = s_next (socks s sk)" by (simp add: s2(4))
    ultimately show ?thesis using True w(2) by (auto intro!: exI [of _ ?s'] exI [of _ Q'])
  next
    case False
    then show ?thesis using room by (simp add: raw_deliver_def)
  qed
qed

lemma recvfrom_spec:
  assumes q: "frames_in s sk (f # fs)" and b: "len \<noteq> 0" "min (length f) (unat len) \<le> buf" and sk: "sk \<noteq> 0"
  shows "\<exists>s'. pf_packet_recvfrom me sp sk (Some buf) len addrlen s =
      Some (Returns (int (min (length f) (unat len))) (take (unat len) f) (sll_addr addrlen), s') \<and> frames_in s' sk fs"
proof -
  let ?n = "of_nat (length f) :: u32" and ?rest = "concat (map frame_image fs)"
  have r: "sock_ring s sk" "sock_bytes s sk = le32 ?n @ f @ ?rest" and f: "0 < length f" "length f \<le> 1514" "length f < 2 ^ 32"
    and fs: "\<forall>f\<in>set fs. 0 < length f \<and> length f \<le> 1514" using q by (auto simp: frames_in_def frame_image_def)
  have ne: "rx_head (socks s sk) \<noteq> rx_tail (socks s sk)" using sock_bytes_empty [OF r(1)] r(2) by (simp add: le32_def)
  from sock_get_spec [OF r(1) r(2), of 4] obtain s1 where
    s1: "sock_get sk 4 s = Some (le32 ?n, s1)" "sock_ring s1 sk" "sock_bytes s1 sk = f @ ?rest" by auto
  define limit where "limit = (if ucast ?n < len then ?n else ucast len)"
  from recv_limited [OF s1(2,3) f(3) refl limit_def] obtain s2 s3 where
    lim: "unat limit = min (length f) (unat len)" and s2: "sock_get sk (unat limit) s1 = Some (take (unat len) f, s2)" and
    s3: "s3 = (if limit < ?n then upd_sock sk (rx_tail_update (\<lambda>t. (t + (?n - limit)) mod SOCKET_BUFFER_SIZE)) s2 else s2)"
      "sock_ring s3 sk" "sock_bytes s3 sk = ?rest" by blast
  have rd: "rd32 (le32 ?n) 0 = ?n" by (simp add: le32_def rd32_def)
  have nb: "\<not> buf < unat limit" using b(2) unfolding lim by (rule leD)
  have un: "unat ?n = length f" by (rule unat_of_nat_id) (use f(2) in simp)
  have ok: "\<not> (?n = 0 \<or> ?n > SOCKET_BUFFER_SIZE)" using un f(1,2) by (auto simp: word_less_nat_alt)
  have "0 < unat len" using b(1) by (simp add: unat_gt_0)
  then have "take (unat len) f \<noteq> []" using f(1) by auto
  moreover have g: "\<not> (sk = 0 \<or> Some buf = None \<or> len = 0 \<or> rx_buffer (socks s sk) = 0)" using sk b(1) sock_ringD(4) [OF r(1)] by simp
  ultimately have "pf_packet_recvfrom me sp sk (Some buf) len addrlen s =
      Some (Returns (int (min (length f) (unat len))) (take (unat len) f) (sll_addr addrlen), s3)"
    unfolding pf_packet_recvfrom_def Let_def if_not_P [OF g] if_not_P [OF ne] s1(1) bind.bind_lunit prod.case rd if_not_P [OF ok]
      limit_def [symmetric] option.sel if_not_P [OF nb] s2 s3(1) by simp
  moreover have "frames_in s3 sk fs" using s3(2,3) fs by (simp add: frames_in_def)
  ultimately show ?thesis by blast
qed

lemma packet_input_head:
  assumes "sk \<noteq> 0" "s_next (socks s sk) = 0" "n \<noteq> 0" "n \<le> 1514"
    and "\<And>s'. raw_deliver sk x n s = Some s' \<Longrightarrow> s_next (socks s' sk) = 0"
  shows "packet_input sk (Some x) n s =
    (if family (socks s sk) = PF_PACKET \<and> rx_buffer (socks s sk) \<noteq> 0 then raw_deliver sk x n s else Some s)"
proof -
  have z: "raw_loop 0 x n t = Some t" for t by (subst raw_loop.simps) simp
  have "packet_input sk (Some x) n s = raw_loop sk x n s" using assms(1,3) leD [OF assms(4)] by (simp add: packet_input_def)
  also have "\<dots> = (if family (socks s sk) = PF_PACKET \<and> rx_buffer (socks s sk) \<noteq> 0 then raw_deliver sk x n s else Some s)"
    using assms(1,2,5) by (subst raw_loop.simps) (cases "raw_deliver sk x n s"; simp add: z)
  finally show ?thesis .
qed

lemma packet_input_skip:
  assumes "s_next (socks s (g_bound_sockets_head s)) = 0" "family (socks s (g_bound_sockets_head s)) \<noteq> PF_PACKET" "n \<le> 1514"
  shows "packet_input (g_bound_sockets_head s) (Some x) n s = Some s"
proof -
  let ?h = "g_bound_sockets_head s"
  have z: "raw_loop 0 x n s = Some s" by (subst raw_loop.simps) simp
  have "raw_loop ?h x n s = Some s" if "?h \<noteq> 0" using that assms(1,2) z by (subst raw_loop.simps) simp
  then show ?thesis using leD [OF assms(3)] by (simp add: packet_input_def)
qed

section \<open>One iteration\<close>

lemma rx_packet_ip:
  assumes p: "packet_input (g_bound_sockets_head s) (Some (bufs s a)) n s = Some s" and x: "bufs s a = ip_frame m proto dest z u"
    and ip: "ip_input udp_input tcp_input (Some (drop 14 (ip_frame m proto dest z u))) (n - 14) s = Some (r, s1)"
  shows "rx_packet \<lparr>rx_data = a, rx_len = n\<rparr> s = net_kfree a s1"
proof -
  have "eth_at (ip_frame m proto dest z u) = Some \<lparr>eth_dest_mac = m, eth_src_mac = our_mac (mac_of 0) u, ethertype = htons 0x0800\<rparr>"
    unfolding ip_frame_def by (rule eth_at_bytes)
  then show ?thesis using ip p x by (simp add: rx_packet_def Let_def)
qed

text \<open>Nothing happened to the cable, and a packet waits.\<close>

lemma rx_step_packet:
  assumes "g_net_link_event s = NET_EVENT_NONE" "rx_ok s" "rx_queue s = \<lparr>rx_data = a, rx_len = n\<rparr> # q"
  shows "\<exists>v. rx_step s = rx_packet \<lparr>rx_data = a, rx_len = n\<rparr> (s\<lparr>g_net_rx_tail := v\<rparr>) \<and> rx_ok (s\<lparr>g_net_rx_tail := v\<rparr>) \<and> rx_queue (s\<lparr>g_net_rx_tail := v\<rparr>) = q"
proof -
  have "rx_link s = Some s" using assms(1) by (simp add: rx_link_def net_consume_link_event_def)
  moreover from rx_take_spec(2) [OF assms(2,3)] obtain s' where
    "rx_take s = Some (\<lparr>rx_data = a, rx_len = n\<rparr>, s')" "rx_ok s'" "rx_queue s' = q" "s' = s\<lparr>g_net_rx_tail := g_net_rx_tail s'\<rparr>" by blast
  ultimately show ?thesis by (intro exI [of _ "g_net_rx_tail s'"]) (simp add: rx_step_def)
qed

section \<open>Properties\<close>

text \<open>C27: A raw socket is a bounded queue of frames. A frame of 1 to 1514 bytes that reaches the socket through
  \<^verbatim>\<open>packet_input\<close> is appended whole and wakes the waiting threads, or is dropped without a trace exactly when the ring cannot
  take it and its length. Reading returns the oldest frame, cut to the buffer of the caller, and never a part of the next one;
  it waits exactly when no frame is there.\<close>

theorem raw_socket_queue_refines:
  assumes q: "frames_in s sk fs" and n: "unat n \<le> length x" "0 < unat n" "unat n \<le> 1514" and ki: "kinv ps T Q (krn s)" "wait_channel sk \<noteq> 0"
    and sk: "sk \<noteq> 0" "family (socks s sk) = PF_PACKET" "s_next (socks s sk) = 0" and b: "len \<noteq> 0" "unat len \<le> buf"
  shows "(if frames_size fs + 4 + unat n \<le> 16383
      then \<exists>s'. packet_input sk (Some x) n s = Some s' \<and> frames_in s' sk (fs @ [take (unat n) x]) \<and> wakes ps sk s s'
      else packet_input sk (Some x) n s = Some s) \<and>
    (case fs of [] \<Rightarrow> pf_packet_recvfrom me sp sk (Some buf) len addrlen s = sock_wait me sp sk s
      | f # gs \<Rightarrow> \<exists>s'. pf_packet_recvfrom me sp sk (Some buf) len addrlen s =
          Some (Returns (int (min (length f) (unat len))) (take (unat len) f) (sll_addr addrlen), s') \<and> frames_in s' sk gs)"
proof (rule conjI)
  have r: "sock_ring s sk" "sock_bytes s sk = concat (map frame_image fs)" using q by (simp_all add: frames_in_def)
  note d = raw_deliver_spec [OF q n ki]
  have nn: "n \<noteq> 0" "n \<le> 1514" using n(2,3) by (auto simp: word_le_nat_alt)
  have "s_next (socks s' sk) = 0" if "raw_deliver sk x n s = Some s'" for s' using d that sk(3) by (auto split: if_splits)
  from packet_input_head [OF sk(1,3) nn this] have p: "packet_input sk (Some x) n s = raw_deliver sk x n s"
    using sk(2) sock_ringD(4) [OF r(1)] by simp
  show "if frames_size fs + 4 + unat n \<le> 16383
      then \<exists>s'. packet_input sk (Some x) n s = Some s' \<and> frames_in s' sk (fs @ [take (unat n) x]) \<and> wakes ps sk s s'
      else packet_input sk (Some x) n s = Some s" unfolding p using d by (auto split: if_splits)
  have m: "min (length f) (unat len) \<le> buf" for f :: "u8 list" using b(2) by simp
  show "case fs of [] \<Rightarrow> pf_packet_recvfrom me sp sk (Some buf) len addrlen s = sock_wait me sp sk s
      | f # gs \<Rightarrow> \<exists>s'. pf_packet_recvfrom me sp sk (Some buf) len addrlen s =
          Some (Returns (int (min (length f) (unat len))) (take (unat len) f) (sll_addr addrlen), s') \<and> frames_in s' sk gs"
  proof (cases fs)
    case Nil
    then have "pf_packet_recvfrom me sp sk (Some buf) len addrlen s = sock_wait me sp sk s"
      using sock_bytes_empty [OF r(1)] sock_ringD(4) [OF r(1)] r(2) sk(1) b(1) by (simp add: pf_packet_recvfrom_def Let_def)
    with Nil show ?thesis by simp
  next
    case (Cons f gs)
    with recvfrom_spec [OF _ b(1) m sk(1), of s f gs me sp addrlen] q show ?thesis by simp
  qed
qed

text \<open>A raw socket that is not the head of the list gets nothing: the walk follows the link of the connection queues, not the link of
  the list of bound sockets.\<close>

theorem packet_input_only_head:
  assumes "chain (\<lambda>k. global_next (socks s k)) (g_bound_sockets_head s) (h # ks)" "s_next (socks s h) = 0" "family (socks s h) \<noteq> PF_PACKET"
    "n \<le> 1514"
  shows "packet_input (g_bound_sockets_head s) (Some x) n s = Some s"
  by (rule packet_input_skip) (use assms in auto)

text \<open>From one host's \<^verbatim>\<open>sendto\<close> to the other's receive queue. When the oldest packet in the ring of received packets is the frame of a
  datagram that a neighbour sent to this host, one iteration of the receive thread takes it off the ring, appends the
  datagram with the sender's address to the queue of the socket on the destination port, wakes its readers and
  releases the block of the packet and no other.\<close>

theorem rx_step_delivers_datagram:
  assumes f: "f = ip_frame m IPPROTO_UDP dest (udp_image sport dport d) u" and d: "length d \<le> 1472"
    and ev: "g_net_link_event s = NET_EVENT_NONE" and rq: "rx_ok s" "rx_queue s = \<lparr>rx_data = a, rx_len = of_nat (length f)\<rparr> # rest"
    and a: "bufs s a = f" "a \<in> ptrs s" "net_room k s" and host: "our_ip 0 s = dest"
    and b: "bound_ok s ks" "List.find (\<lambda>i. on_port SOCK_DGRAM dport (socks s i)) ks = Some sk" "dport \<noteq> htons 68"
    and hd: "s_next (socks s (g_bound_sockets_head s)) = 0" "family (socks s (g_bound_sockets_head s)) \<noteq> PF_PACKET"
    and q: "dgrams s sk qs" "queue_size qs + 20 + length d \<le> 16383" and ki: "kinv ps T Q (krn s)" "wait_channel sk \<noteq> 0"
  shows "\<exists>s'. rx_step s = Some s' \<and> rx_queue s' = rest \<and> ptrs s' = ptrs s - {a} \<and> wakes ps sk s s' \<and>
    dgrams s' sk (qs @ [(\<lparr>sin_family = 2, sin_port = sport, s_addr = our_ip 0 u, sin_zero = replicate 8 0\<rparr>, d)])"
proof -
  let ?z = "udp_image sport dport d"
  let ?from = "\<lparr>sin_family = 2, sin_port = sport, s_addr = our_ip 0 u, sin_zero = replicate 8 0\<rparr>"
  from rx_step_packet [OF ev rq] obtain v where
    v: "rx_step s = rx_packet \<lparr>rx_data = a, rx_len = of_nat (length f)\<rparr> (s\<lparr>g_net_rx_tail := v\<rparr>)" "rx_queue (s\<lparr>g_net_rx_tail := v\<rparr>) = rest" by blast
  let ?s = "s\<lparr>g_net_rx_tail := v\<rparr>"
  have len: "length f = 42 + length d" by (simp add: f)
  have ud: "unat (of_nat (length f) :: u32) = 42 + length d" unfolding len by (rule unat_of_nat_id) (use d in simp)
  have n14: "of_nat (length f) - 14 = (20 + of_nat (length ?z) :: u32)" by (simp add: len)
  have nz: "of_nat (length f) \<noteq> (0 :: u32)" "of_nat (length f) \<le> (1514 :: u32)" using ud d by (auto simp: word_le_nat_alt)
  have pk: "packet_input (g_bound_sockets_head ?s) (Some (bufs ?s a)) (of_nat (length f)) ?s = Some ?s"
    by (rule packet_input_skip) (use hd nz(2) in simp_all)
  have host': "our_ip 0 ?s = dest" using host our_cong(2) [of ?s s] by simp
  have ip: "ip_input udp_input tcp_input (Some (drop 14 f)) (of_nat (length f) - 14) ?s = udp_input (Some ?z) (of_nat (length ?z)) (our_ip 0 u) ?s"
    unfolding n14 using ip_input_accepts [OF refl, of ?z "20 + of_nat (length ?z)" ?s dest udp_input tcp_input IPPROTO_UDP u "[]"] d host'
    by (simp add: f ip_frame_def)
  have b': "bound_ok ?s ks" "dgrams ?s sk qs" using b(1) q(1) sock_ring_cong [of ?s sk s] by (simp_all add: bound_ok_def dgrams_def)
  have rx: "rx_buffer (socks ?s sk) \<noteq> 0" using q(1) by (simp add: dgrams_def sock_ring_def)
  have l: "length d \<le> 65527" "8 + of_nat (length d) \<le> (of_nat (length ?z) :: u32)" using d by simp_all
  have dn: "unat (of_nat (length d) :: u32) = length d" by (rule unat_of_nat_id) (use d in simp)
  have fits: "unat (of_nat (length d) :: u32) \<le> length d" "queue_size qs + 20 + unat (of_nat (length d) :: u32) \<le> 16383" using q(2) dn by simp_all
  have ki': "kinv ps T Q (krn ?s)" using ki(1) by simp
  from udp_deliver_spec [OF b'(2) fits ki' ki(2) refl, of sport "our_ip 0 u"] obtain s1 h y where
    s1: "udp_deliver sk sport (our_ip 0 u) d (of_nat (length d)) ?s = Some (0, s1)" "dgrams s1 sk (qs @ [(?from, d)])"
      "\<forall>t. th_state (threads (krn s1) t) = (if \<exists>p\<in>set ps. t = main_thread (procs (krn ?s) p) \<and> waits_on (wait_channel sk) (krn ?s) t
       then THREAD_READY else th_state (threads (krn ?s) t))"
      "s1 = ?s\<lparr>krn := krn s1, socks := (socks ?s)(sk := (socks ?s sk)\<lparr>rx_head := h\<rparr>), bufs := (bufs ?s)(rx_buffer (socks ?s sk) := y)\<rparr>"
      "heap (krn s1) = heap (krn ?s)"
    unfolding dn take_all [OF order_refl] by blast
  have "udp_input (Some ?z) (of_nat (length ?z)) (our_ip 0 u) ?s = Some (0, s1)"
    using udp_input_accepts [OF b'(1) _ l(1) b(3) rx l(2), of sport "[]" "our_ip 0 u"] b(2) s1(1) by simp
  with ip have ip1: "ip_input udp_input tcp_input (Some (drop 14 (ip_frame m IPPROTO_UDP dest ?z u))) (of_nat (length f) - 14) ?s = Some (0, s1)" by (simp add: f)
  have "bufs ?s a = ip_frame m IPPROTO_UDP dest ?z u" using a(1) f by simp
  from rx_packet_ip [OF pk this ip1] v(1) have step: "rx_step s = net_kfree a s1" by simp
  have c1: "net_cr3 s1 = net_cr3 s" "g_net_rx_head s1 = g_net_rx_head s" "g_net_rx_tail s1 = v" "g_net_rx_queue s1 = g_net_rx_queue s"
    using arg_cong [OF s1(4), of net_cr3] arg_cong [OF s1(4), of g_net_rx_head] arg_cong [OF s1(4), of g_net_rx_tail] arg_cong [OF s1(4), of g_net_rx_queue] by simp_all
  then have hc: "net_room k s1" "ptrs s1 = ptrs s" using heap_cong [of s1 s] s1(5) a(3) by simp_all
  with net_kfree_spec [of k s1 a] a(2) obtain h2 where
    k: "net_kfree a s1 = Some (set_heap h2 s1)" "ptrs (set_heap h2 s1) = ptrs s - {a}" by auto
  have "rx_queue (set_heap h2 s1) = rest" using v(2) c1 by (simp add: rx_queue_def)
  moreover have "dgrams (set_heap h2 s1) sk (qs @ [(?from, d)])" using s1(2) sock_ring_cong [of "set_heap h2 s1" sk s1] by (simp add: dgrams_def)
  moreover have "wakes ps sk s (set_heap h2 s1)" using s1(3) by (simp add: wakes_def)
  ultimately show ?thesis using step k by (intro exI [of _ "set_heap h2 s1"]) simp
qed

section \<open>Examples\<close>

definition raw_demo :: net where
  "raw_demo = (dgram_demo 0)\<lparr>socks := (\<lambda>_. sock0)(0x900 := sock0\<lparr>family := PF_PACKET, rx_buffer := 0x5000, rx_head := 16380, rx_tail := 16380\<rparr>)\<rparr>"

lemma raw_demo_facts: "frames_in raw_demo 0x900 []" "family (socks raw_demo 0x900) = PF_PACKET" "s_next (socks raw_demo 0x900) = 0"
  "kinv procs_demo {0x200, 0x300, 0x400} queues_demo (krn raw_demo)"
  using dgram_demo_kinv [of 0]
  by (simp_all add: frames_in_def sock_ring_def sock_bytes_def ring_ok_def ring_items_def ring_count_def raw_demo_def) (simp_all add: dgram_demo_def sock0_def)

theorem raw_socket_queue_refines_witness:
  "\<exists>s'. packet_input 0x900 (Some [1, 2, 3]) 3 raw_demo = Some s' \<and> frames_in s' 0x900 [[1, 2, 3]]"
proof -
  have n: "unat (3 :: u32) \<le> length [1 :: u8, 2, 3]" "0 < unat (3 :: u32)" "unat (3 :: u32) \<le> 1514" "wait_channel 0x900 \<noteq> 0" "(0x900 :: u64) \<noteq> 0"
    "(9 :: u64) \<noteq> 0" "unat (9 :: u64) \<le> 9" by simp_all
  from raw_socket_queue_refines [OF raw_demo_facts(1) n(1-3) raw_demo_facts(4) n(4,5) raw_demo_facts(2,3) n(6,7), of 0 0 None] show ?thesis by auto
qed

definition frame_demo :: "u8 list" where
  "frame_demo = ip_frame mac_demo IPPROTO_UDP 0x0902000A (udp_image 7 0x3500 [1, 2, 3]) net_known"

definition ring_demo :: net where
  "ring_demo = (dgram_demo 0x3500)\<lparr>bufs := (bufs (dgram_demo 0x3500))(KERNEL_HEAP_VIRTUAL_BASE + 32 := frame_demo),
     g_net_rx_queue := (replicate 64 \<lparr>rx_data = 0, rx_len = 0\<rparr>)[63 := \<lparr>rx_data = KERNEL_HEAP_VIRTUAL_BASE + 32, rx_len = of_nat (length frame_demo)\<rparr>],
     g_net_rx_head := 0, g_net_rx_tail := 63\<rparr>"

lemma ring_demo_rx: "rx_ok ring_demo" "rx_queue ring_demo = \<lparr>rx_data = KERNEL_HEAP_VIRTUAL_BASE + 32, rx_len = of_nat (length frame_demo)\<rparr> # []"
  by (simp_all add: rx_ok_def rx_queue_def ring_ok_def ring_items_def ring_count_def ring_demo_def)

lemma ring_demo_heap: "net_room 3968 ring_demo" "KERNEL_HEAP_VIRTUAL_BASE + 32 \<in> ptrs ring_demo"
proof -
  have "heap (krn ring_demo) = heap (krn net_demo)" "net_cr3 ring_demo = net_cr3 net_demo" by (simp_all add: ring_demo_def dgram_demo_def)
  from heap_cong [OF this] show "net_room 3968 ring_demo" "KERNEL_HEAP_VIRTUAL_BASE + 32 \<in> ptrs ring_demo"
    using net_demo_room net_demo_ptrs by simp_all
qed

theorem rx_step_delivers_datagram_witness:
  "\<exists>s'. rx_step ring_demo = Some s' \<and> rx_queue s' = [] \<and>
     dgrams s' 0x900 [(\<lparr>sin_family = 2, sin_port = 7, s_addr = 0x0F02000A, sin_zero = replicate 8 0\<rparr>, [1, 2, 3])]"
proof -
  let ?s = ring_demo
  have ss: "socks ?s = socks (dgram_demo 0x3500)" "g_bound_sockets_head ?s = 0x900" "krn ?s = krn (dgram_demo 0x3500)"
    "g_net_link_event ?s = NET_EVENT_NONE" by (simp_all add: ring_demo_def dgram_demo_def net_demo_def)
  have "g_bound_sockets_head (dgram_demo 0x3500) = 0x900" by (simp add: dgram_demo_def)
  then have b: "bound_ok ?s [0x900]" using dgram_demo_bound [of "0x3500"] by (simp add: bound_ok_def ss)
  have bf: "List.find (\<lambda>i. on_port SOCK_DGRAM 0x3500 (socks ?s i)) [0x900] = Some 0x900" unfolding ss(1) by (rule dgram_demo_find)
  have hd: "s_next (socks ?s (g_bound_sockets_head ?s)) = 0" "family (socks ?s (g_bound_sockets_head ?s)) \<noteq> PF_PACKET"
    unfolding ss by (simp_all add: dgram_demo_def sock0_def)
  have q: "dgrams ?s 0x900 []" using dgram_demo_queue [of "0x3500"] sock_ring_cong [of ?s "0x900" "dgram_demo 0x3500"] by (simp add: dgrams_def ss) (simp add: ring_demo_def dgram_demo_def)
  have k: "kinv procs_demo {0x200, 0x300, 0x400} queues_demo (krn ?s)" unfolding ss(3) by (rule dgram_demo_kinv)
  have h: "our_ip 0 ?s = 0x0902000A" using our_cong(2) [of ?s "dgram_demo 0x3500"] dgram_demo_sock(5) by (simp add: ring_demo_def)
  have o: "our_ip 0 net_known = 0x0F02000A" using our_cong(2) [of net_known net_demo] demo_our by (simp add: net_known_def arp_insert_rest)
  have n: "length [1 :: u8, 2, 3] \<le> 1472" "(0x3500 :: u16) \<noteq> htons 68" "queue_size [] + 20 + length [1 :: u8, 2, 3] \<le> 16383" "wait_channel 0x900 \<noteq> 0"
    "bufs ?s (KERNEL_HEAP_VIRTUAL_BASE + 32) = frame_demo" by (simp_all add: htons_def ring_demo_def)
  from rx_step_delivers_datagram [OF frame_demo_def n(1) ss(4) ring_demo_rx n(5) ring_demo_heap(2,1) h b bf n(2) hd q n(3) k n(4)] show ?thesis
    unfolding o by auto
qed

end
