(* ===== verification/Local.thy ===== *)
theory Local
  imports Raw
begin

text \<open>
  Local sockets, \<^verbatim>\<open>src/kernel/kernel/net/af_local.c\<close>. The state field holds one of five numbers of its own, which are the numbers
  of five states of the enumeration for streams. A pass of an operation that ends in \<^verbatim>\<open>wait\<close> has the result
  \<open>None\<close> (or \<open>Waits\<close>); the thread then starts the pass again. The functions that take two locks are not modelled.
\<close>

section \<open>Operations\<close>

abbreviation SOCKET_CREATED :: tcp_state where "SOCKET_CREATED \<equiv> TCP_STATE_CLOSED"
abbreviation SOCKET_CONNECTED :: tcp_state where "SOCKET_CONNECTED \<equiv> TCP_STATE_SYN_SENT"
abbreviation SOCKET_LISTENING :: tcp_state where "SOCKET_LISTENING \<equiv> TCP_STATE_LISTEN"
abbreviation SOCKET_CONNECTING :: tcp_state where "SOCKET_CONNECTING \<equiv> TCP_STATE_SYN_RECV"
abbreviation SOCKET_CLOSING :: tcp_state where "SOCKET_CLOSING \<equiv> TCP_STATE_ESTABLISHED"

definition af_local_is_active :: "u64 \<Rightarrow> net \<Rightarrow> bool" where
  "af_local_is_active sk s \<longleftrightarrow> sk \<noteq> 0 \<and> s_state (socks s sk) \<noteq> SOCKET_CREATED \<and> s_state (socks s sk) \<noteq> SOCKET_CLOSING"

definition sun_path_len :: "u8 list \<Rightarrow> nat" where
  "sun_path_len x = length (takeWhile (\<lambda>c. c \<noteq> 0) (take 108 (drop 2 x)))"

definition af_local_bind :: "u64 \<Rightarrow> u8 list option \<Rightarrow> u64 \<Rightarrow> net \<Rightarrow> (int \<times> net) option" where
  "af_local_bind sk addr addrlen s =
     (if sk = 0 \<or> addr = None then Some (-1, s)
      else if family (socks s sk) \<noteq> AF_LOCAL then Some (-1, s)
      else if addrlen < 110 then Some (-1, s)
      else if addrlen > 256 then Some (-1, s)
      else if length (the addr) < 110 then None
      else if rd16 (the addr) 0 \<noteq> 1 then Some (-1, s)
      else if sun_path_len (the addr) = 0 \<or> sun_path_len (the addr) = 108 then Some (-1, s)
      else if s_state (socks s sk) \<in> {SOCKET_CLOSING, SOCKET_CONNECTED, SOCKET_CONNECTING, SOCKET_LISTENING} then Some (-1, s)
      else socket_bind_address sk addr 110 s)"

definition connect_pass :: "u64 \<Rightarrow> u64 \<Rightarrow> u64 \<Rightarrow> net \<Rightarrow> (int option \<times> net) option" where
  "connect_pass me sp sk s =
     (if s_state (socks s sk) = SOCKET_CONNECTING then do { (r, s1) \<leftarrow> sock_wait me sp sk s; Some (None, s1) }
      else Some (Some (if s_state (socks s sk) = SOCKET_CONNECTED then 0 else -1), s))"

definition af_local_connect :: "u64 \<Rightarrow> u64 \<Rightarrow> u64 \<Rightarrow> u8 list option \<Rightarrow> u64 \<Rightarrow> net \<Rightarrow> (int option \<times> net) option" where
  "af_local_connect me sp sk addr addrlen s =
     (if sk = 0 \<or> addr = None \<or> addrlen = 0 then Some (Some (-1), s)
      else do {
        server_sock \<leftarrow> socket_find_by_address addr addrlen AF_LOCAL s;
        if server_sock = 0 \<or> server_sock = sk then Some (Some (-1), s)
        else if s_state (socks s sk) \<in> {SOCKET_CLOSING, SOCKET_CONNECTING, SOCKET_CONNECTED} \<or>
                s_state (socks s server_sock) \<noteq> SOCKET_LISTENING then Some (Some (-1), s)
        else if s_state (socks s server_sock) = SOCKET_CLOSING then Some (Some (-1), s)
        else do {
          let s1 = upd_sock sk (\<lambda>k. k\<lparr>s_state := SOCKET_CONNECTING, s_next := listen_queue (socks s server_sock)\<rparr>) s;
          let s2 = upd_sock server_sock (listen_queue_update (\<lambda>_. sk)) s1;
          s3 \<leftarrow> sock_wakeup server_sock s2;
          connect_pass me sp sk s3
        }
      })"

definition accept_session :: "u64 \<Rightarrow> u64 \<Rightarrow> net \<Rightarrow> (u64 \<times> net) option" where
  "accept_session sk client_sock s =
     do {
       (session_sock, s1) \<leftarrow> socket_create AF_LOCAL (s_type (socks s sk)) 0 s;
       if session_sock = 0 then
         (if s_state (socks s1 client_sock) = SOCKET_CONNECTING then do {
            s2 \<leftarrow> sock_wakeup client_sock (upd_sock client_sock (\<lambda>k. k\<lparr>s_state := SOCKET_CREATED, s_next := 0\<rparr>) s1);
            Some (0, s2)
          }
          else Some (0, s1))
       else if s_state (socks s1 client_sock) \<noteq> SOCKET_CONNECTING \<or> s_state (socks s1 session_sock) = SOCKET_CLOSING then do {
         (r, s2) \<leftarrow> socket_close session_sock s1;
         Some (0, s2)
       }
       else do {
         let s2 = upd_sock session_sock (\<lambda>k. k\<lparr>peer := client_sock, s_state := SOCKET_CONNECTED\<rparr>) s1;
         let s3 = upd_sock client_sock (\<lambda>k. k\<lparr>peer := session_sock, s_state := SOCKET_CONNECTED\<rparr>) s2;
         s4 \<leftarrow> sock_wakeup client_sock s3;
         Some (session_sock, s4)
       }
     }"

definition af_local_accept :: "u64 \<Rightarrow> u64 \<Rightarrow> u64 \<Rightarrow> net \<Rightarrow> (u64 option \<times> net) option" where
  "af_local_accept me sp sk s =
     (let k = socks s sk in
      if sk = 0 then Some (Some 0, s)
      else if listen_queue k = 0 \<and> s_state k = SOCKET_LISTENING then do { (r, s1) \<leftarrow> sock_wait me sp sk s; Some (None, s1) }
      else if s_state k \<noteq> SOCKET_LISTENING then Some (Some 0, s)
      else do {
        let client_sock = listen_queue k;
        let s1 = upd_sock sk (listen_queue_update (\<lambda>_. s_next (socks s client_sock))) s;
        let s2 = upd_sock client_sock (s_next_update (\<lambda>_. 0)) s1;
        (session_sock, s3) \<leftarrow> accept_session sk client_sock s2;
        Some (Some session_sock, s3)
      })"

definition af_local_listen :: "u64 \<Rightarrow> net \<Rightarrow> int \<times> net" where
  "af_local_listen sk s =
     (if sk = 0 then (-1, s)
      else if s_state (socks s sk) \<in> {SOCKET_CLOSING, SOCKET_CONNECTED, SOCKET_CONNECTING} then (-1, s)
      else (0, upd_sock sk (s_state_update (\<lambda>_. SOCKET_LISTENING)) s))"

text \<open>The loop of \<^verbatim>\<open>af_local_sendto\<close>: it stops when the ring is full.\<close>

fun local_put :: "u64 \<Rightarrow> u8 list \<Rightarrow> nat \<Rightarrow> net \<Rightarrow> (nat \<times> net) option" where
  "local_put sk x 0 s = Some (0, s)"
| "local_put sk x (Suc n) s =
     (let k = socks s sk; i = unat (rx_head k); y = bufs s (rx_buffer k); next_head = (rx_head k + 1) mod SOCKET_BUFFER_SIZE in
      if next_head = rx_tail k then Some (0, s)
      else (case x of [] \<Rightarrow> None
        | b # bs \<Rightarrow>
            if i < length y then do {
              (m, s1) \<leftarrow> local_put sk bs n (upd_sock sk (rx_head_update (\<lambda>_. next_head)) (put_buf (rx_buffer k) (y[i := b]) s));
              Some (Suc m, s1)
            }
            else None))"

definition af_local_sendto :: "u64 \<Rightarrow> u8 list option \<Rightarrow> u64 \<Rightarrow> u8 list option \<Rightarrow> u64 \<Rightarrow> net \<Rightarrow> (int \<times> net) option" where
  "af_local_sendto sk buf len dest_addr addrlen s =
     (if sk = 0 \<or> buf = None \<or> len = 0 then Some (-1, s)
      else do {
        let linked_peer = (if s_state (socks s sk) = SOCKET_CONNECTED \<and> peer (socks s sk) \<noteq> 0 then peer (socks s sk) else 0);
        dest_sock \<leftarrow> (if linked_peer \<noteq> 0 then Some linked_peer
                     else if dest_addr = None \<or> addrlen = 0 then Some 0
                     else socket_find_by_address dest_addr addrlen AF_LOCAL s);
        if dest_sock = 0 then Some (-1, s)
        else if dest_sock = sk then Some (-1, s)
        else if \<not> af_local_is_active dest_sock s \<or> rx_buffer (socks s dest_sock) = 0 then Some (-1, s)
        else do {
          (bytes_delivered, s1) \<leftarrow> local_put dest_sock (the buf) (unat len) s;
          s2 \<leftarrow> (if bytes_delivered > 0 then sock_wakeup dest_sock s1 else Some s1);
          Some (int bytes_delivered, s2)
        }
      })"

text \<open>The second component of the result is the new value of \<^verbatim>\<open>*addrlen\<close>, when it is set.\<close>

definition af_local_recvfrom ::
    "u64 \<Rightarrow> u64 \<Rightarrow> u64 \<Rightarrow> nat option \<Rightarrow> u64 \<Rightarrow> u64 option \<Rightarrow> net \<Rightarrow> ((recv \<times> u64 option) \<times> net) option" where
  "af_local_recvfrom me sp sk buf len addrlen s =
     (let k = socks s sk in
      if sk = 0 \<or> buf = None \<or> len = 0 then Some ((Returns (-1) [] None, None), s)
      else if rx_buffer k = 0 then Some ((Returns (-1) [] None, None), s)
      else if rx_head k = rx_tail k \<and> s_state k = SOCKET_CONNECTED then do { (r, s1) \<leftarrow> sock_wait me sp sk s; Some ((r, None), s1) }
      else if rx_head k = rx_tail k \<and> s_state k \<noteq> SOCKET_CONNECTED then Some ((Returns 0 [] None, None), s)
      else do {
        (d, s1) \<leftarrow> sock_drain sk (unat len) s;
        if the buf < length d then None
        else do {
          let src_target = (case addrlen of Some n \<Rightarrow> if d \<noteq> [] \<and> n > 0 then peer (socks s1 sk) else 0 | None \<Rightarrow> 0);
          let from = socks s1 src_target;
          let copy_len = (if local_addr_len from < the addrlen then local_addr_len from else the addrlen);
          Some (if src_target = 0 then (Returns (int (length d)) d None, None)
                else (Returns (int (length d)) d (Some (take (unat copy_len) (local_addr from))), Some (local_addr_len from)), s1)
        }
      })"

partial_function (option) release_pending :: "u64 \<Rightarrow> net \<Rightarrow> net option" where
  "release_pending pending s =
     (if pending = 0 then Some s
      else do {
        let s1 = upd_sock pending (\<lambda>k. k\<lparr>s_next := 0, s_state := if s_state k = SOCKET_CONNECTING then SOCKET_CREATED else s_state k\<rparr>) s;
        s2 \<leftarrow> sock_wakeup pending s1;
        release_pending (s_next (socks s pending)) s2
      })"

definition release_peer :: "u64 \<Rightarrow> u64 \<Rightarrow> net \<Rightarrow> net option" where
  "release_peer sk peer_sock s =
     (if peer_sock \<noteq> 0 \<and> peer (socks s peer_sock) = sk
      then sock_wakeup peer_sock (upd_sock peer_sock (\<lambda>k. k\<lparr>peer := 0,
        s_state := if s_state k \<in> {SOCKET_CONNECTED, SOCKET_CONNECTING} then SOCKET_CREATED else s_state k\<rparr>) s)
      else Some s)"

definition af_local_release :: "u64 \<Rightarrow> net \<Rightarrow> (int \<times> net) option" where
  "af_local_release sk s =
     (if sk = 0 then Some (-1, s)
      else if s_state (socks s sk) = SOCKET_CLOSING then Some (0, s)
      else do {
        let pending = listen_queue (socks s sk);
        let peer_sock = peer (socks s sk);
        s1 \<leftarrow> sock_wakeup sk (upd_sock sk (\<lambda>k. k\<lparr>s_state := SOCKET_CLOSING, listen_queue := 0, peer := 0\<rparr>) s);
        s2 \<leftarrow> release_pending pending s1;
        s3 \<leftarrow> release_peer sk peer_sock s2;
        Some (0, s3)
      })"

text \<open>
  Closing the file of a socket of any family; the argument is the node's \<^verbatim>\<open>private_data\<close>, which is \<^verbatim>\<open>NULL\<close> after the call. An open
  TCP socket stays allocated. The operations for raw sockets have no \<^verbatim>\<open>release\<close>.
\<close>

definition proto_release :: "u64 \<Rightarrow> net \<Rightarrow> net option" where
  "proto_release sk s =
     (case proto_ops (socks s sk) of
        Some g_af_local_ops \<Rightarrow> map_option snd (af_local_release sk s)
      | Some g_af_inet_ops \<Rightarrow> map_option snd (af_inet_release sk s)
      | _ \<Rightarrow> Some s)"

definition socket_vfs_close :: "u64 \<Rightarrow> net \<Rightarrow> (int \<times> net) option" where
  "socket_vfs_close sk s =
     (if sk = 0 then Some (-1, s)
      else if family (socks s sk) = AF_INET \<and> s_type (socks s sk) = SOCK_STREAM \<and> s_state (socks s sk) \<noteq> TCP_STATE_CLOSED
      then do { s1 \<leftarrow> proto_release sk s; Some (0, s1) }
      else do {
        s1 \<leftarrow> socket_unlink sk s;
        s2 \<leftarrow> proto_release sk s1;
        s3 \<leftarrow> kfree_nonnull (rx_buffer (socks s2 sk)) s2;
        s4 \<leftarrow> kfree_nonnull (tx_buffer (socks s3 sk)) s3;
        s5 \<leftarrow> net_kfree sk s4;
        Some (0, s5)
      })"

section \<open>A pair of sockets is two byte streams\<close>

abbreviation ring_space :: "net \<Rightarrow> u64 \<Rightarrow> nat" where
  "ring_space s sk \<equiv> 16383 - length (sock_bytes s sk)"

lemma ring_bound: "sock_ring s sk \<Longrightarrow> length (sock_bytes s sk) \<le> 16383"
  using ring_count_less [OF sock_ringD(1), of s sk "unat (rx_tail (socks s sk))"] by (simp add: sock_bytes_def)

text \<open>The loop stores what fits, in the way of \<open>sock_put\<close>.\<close>

lemma local_put_fits:
  assumes "sock_ring s sk" "n \<le> length x"
  shows "local_put sk x n s = map_option (Pair (min n (ring_space s sk))) (sock_put sk (take (min n (ring_space s sk)) x) s)"
  using assms
proof (induction n arbitrary: x s)
  case (Suc n)
  let ?k = "socks s sk"
  let ?h = "unat (rx_head ?k)" and ?t = "unat (rx_tail ?k)"
  note d = sock_ringD [OF Suc.prems(1)]
  obtain b bs where x: "x = b # bs" using Suc.prems(2) by (cases x) auto
  have nh: "unat ((rx_head ?k + 1) mod SOCKET_BUFFER_SIZE) = Suc ?h mod 16384" using unat_index [OF d(1)] .
  then have "(rx_head ?k + 1) mod SOCKET_BUFFER_SIZE = rx_tail ?k \<longleftrightarrow> Suc ?h mod 16384 = ?t" by (simp add: word_unat_eq_iff)
  then have full: "(rx_head ?k + 1) mod SOCKET_BUFFER_SIZE = rx_tail ?k \<longleftrightarrow> length (sock_bytes s sk) = 16383"
    using ring_count_full [OF d(1,2)] by (simp add: sock_bytes_def)
  show ?case
  proof (cases "length (sock_bytes s sk) = 16383")
    case True
    then show ?thesis using full by (simp add: Let_def)
  next
    case False
    with ring_bound [OF Suc.prems(1)] have lt: "length (sock_bytes s sk) < 16383" by simp
    let ?s1 = "upd_sock sk (rx_head_update (\<lambda>h. (h + 1) mod SOCKET_BUFFER_SIZE)) (put_buf (rx_buffer ?k) ((sock_buf s sk)[?h := b]) s)"
    have e: "upd_sock sk (rx_head_update (\<lambda>_. (rx_head ?k + 1) mod SOCKET_BUFFER_SIZE)) (put_buf (rx_buffer ?k) ((sock_buf s sk)[?h := b]) s) = ?s1"
      by (cases ?k) simp
    have p1: "sock_put sk [b] s = Some ?s1" using d(1,3) by (simp add: Let_def)
    with sock_put_spec [OF Suc.prems(1), of "[b]"] lt have r: "sock_ring ?s1 sk" "sock_bytes ?s1 sk = sock_bytes s sk @ [b]" by auto
    have m: "min (Suc n) (ring_space s sk) = Suc (min n (ring_space ?s1 sk))" using lt unfolding r(2) by simp
    have "local_put sk x (Suc n) s = map_option (\<lambda>(m, t). (Suc m, t)) (local_put sk bs n ?s1)"
      using full False d(1,3) e by (cases "local_put sk bs n ?s1") (simp_all add: x Let_def split: prod.split)
    also have "\<dots> = map_option (Pair (Suc (min n (ring_space ?s1 sk)))) (sock_put sk (take (min n (ring_space ?s1 sk)) bs) ?s1)"
      using Suc.IH [OF r(1), of bs] Suc.prems(2) x by (simp add: option.map_comp comp_def)
    also have "sock_put sk (take (min n (ring_space ?s1 sk)) bs) ?s1 = sock_put sk (take (min (Suc n) (ring_space s sk)) x) s"
      unfolding m x using d(1,3) by (simp add: Let_def)
    finally show ?thesis unfolding m .
  qed
qed simp

lemma local_put_spec:
  assumes r: "sock_ring s sk" and n: "n \<le> length x" and m: "m = min n (ring_space s sk)"
  shows "\<exists>s' h y. local_put sk x n s = Some (m, s') \<and> sock_ring s' sk \<and> sock_bytes s' sk = sock_bytes s sk @ take m x \<and>
    s' = s\<lparr>socks := (socks s)(sk := (socks s sk)\<lparr>rx_head := h\<rparr>), bufs := (bufs s)(rx_buffer (socks s sk) := y)\<rparr>"
  using sock_put_spec [OF r, of "take m x"] local_put_fits [OF r n] ring_bound [OF r] unfolding m by fastforce

section \<open>Properties of streams\<close>


section \<open>Peers\<close>

text \<open>
  The invariant: among the live sockets, a socket with a peer is connected, its peer is live and has it as its peer. So no socket ever
  sends into the ring of a socket that is gone.
\<close>

definition pairs :: "u64 set \<Rightarrow> net \<Rightarrow> bool" where
  "pairs L s \<longleftrightarrow> 0 \<notin> L \<and> (\<forall>a\<in>L. let b = peer (socks s a) in b \<noteq> 0 \<longrightarrow>
     b \<in> L \<and> s_state (socks s a) = SOCKET_CONNECTED \<and> peer (socks s b) = a)"

text \<open>
  A step of some thread: the live sockets and the state before and after. A step that allocates has memory for it, live sockets are
  allocated, and the socket that is taken from a listen queue is live.
\<close>

inductive local_step :: "u64 set \<times> net \<Rightarrow> u64 set \<times> net \<Rightarrow> bool" where
  create: "\<lbrakk>socket_create AF_LOCAL ty proto s = Some (new, s'); net_room k s; 17104 \<le> k; L \<subseteq> ptrs s\<rbrakk> \<Longrightarrow> local_step (L, s) (insert new L, s')"
| bind: "\<lbrakk>af_local_bind sk addr n s = Some (r, s'); sk \<in> L\<rbrakk> \<Longrightarrow> local_step (L, s) (L, s')"
| connect: "af_local_connect me sp sk addr n s = Some (r, s') \<Longrightarrow> local_step (L, s) (L, s')"
| connect_again: "connect_pass me sp sk s = Some (r, s') \<Longrightarrow> local_step (L, s) (L, s')"
| listen: "af_local_listen sk s = (r, s') \<Longrightarrow> local_step (L, s) (L, s')"
| accept_waits: "af_local_accept me sp sk s = Some (None, s') \<Longrightarrow> local_step (L, s) (L, s')"
| accept: "\<lbrakk>af_local_accept me sp sk s = Some (Some new, s'); net_room k s; 17104 \<le> k; L \<subseteq> ptrs s;
     listen_queue (socks s sk) \<in> insert 0 L\<rbrakk> \<Longrightarrow> local_step (L, s) (insert new L - {0}, s')"
| send: "af_local_sendto sk buf len addr n s = Some (r, s') \<Longrightarrow> local_step (L, s) (L, s')"
| recv: "af_local_recvfrom me sp sk buf len n s = Some (r, s') \<Longrightarrow> local_step (L, s) (L, s')"
| close: "\<lbrakk>socket_vfs_close sk s = Some (r, s'); family (socks s sk) = AF_LOCAL; proto_ops (socks s sk) = Some g_af_local_ops\<rbrakk> \<Longrightarrow>
     local_step (L, s) (L - {sk}, s')"

text \<open>Steps that leave the peers and the connected sockets alone.\<close>

definition same_peers :: "net \<Rightarrow> net \<Rightarrow> bool" where
  "same_peers s s' \<longleftrightarrow> (\<forall>a. peer (socks s' a) = peer (socks s a) \<and> (s_state (socks s a) = SOCKET_CONNECTED \<longrightarrow> s_state (socks s' a) = SOCKET_CONNECTED))"

lemma same_peers_refl [simp]: "same_peers s s"
  by (simp add: same_peers_def)

lemma same_peers_trans: "same_peers s t \<Longrightarrow> same_peers t u \<Longrightarrow> same_peers s u"
  by (simp add: same_peers_def)

lemma same_peers_socks: "socks t = socks s \<Longrightarrow> same_peers s t"
  by (simp add: same_peers_def)

lemma same_peers_upd:
  "peer x = peer (socks s sk) \<Longrightarrow> (s_state (socks s sk) = SOCKET_CONNECTED \<Longrightarrow> s_state x = SOCKET_CONNECTED) \<Longrightarrow>
   socks t = (socks s)(sk := x) \<Longrightarrow> same_peers s t"
  by (simp add: same_peers_def)

lemma pairs_same: "pairs L s \<Longrightarrow> same_peers s s' \<Longrightarrow> pairs L s'"
  unfolding pairs_def same_peers_def Let_def by metis

lemma wakeup_socks: "sock_wakeup sk s = Some s' \<Longrightarrow> socks s' = socks s"
  by (auto simp: sock_wakeup_def bind_eq_Some_conv)

lemma wait_socks: "sock_wait me sp sk s = Some (r, s') \<Longrightarrow> socks s' = socks s"
  by (auto simp: sock_wait_def bind_eq_Some_conv)

lemma local_put_peers: "local_put sk x n s = Some (m, s') \<Longrightarrow> same_peers s s'"
proof (induction n arbitrary: x s m)
  case (Suc n)
  let ?k = "socks s sk"
  let ?s1 = "\<lambda>b. upd_sock sk (rx_head_update (\<lambda>_. (rx_head ?k + 1) mod SOCKET_BUFFER_SIZE)) (put_buf (rx_buffer ?k) ((sock_buf s sk)[unat (rx_head ?k) := b]) s)"
  have "same_peers s (?s1 b)" for b by (rule same_peers_upd [of "(?k)\<lparr>rx_head := (rx_head ?k + 1) mod SOCKET_BUFFER_SIZE\<rparr>" s sk]) simp_all
  with Suc.prems Suc.IH show ?case
    by (fastforce simp: Let_def bind_eq_Some_conv split: if_splits list.splits intro: same_peers_trans)
qed simp

lemma sock_get_peers: "sock_get sk n s = Some (bs, s') \<Longrightarrow> same_peers s s'"
proof (induction n arbitrary: s bs)
  case (Suc n)
  let ?s1 = "upd_sock sk (rx_tail_update (\<lambda>t. (t + 1) mod SOCKET_BUFFER_SIZE)) s"
  have "same_peers s ?s1" by (rule same_peers_upd [of "rx_tail_update (\<lambda>t. (t + 1) mod SOCKET_BUFFER_SIZE) (socks s sk)" s sk]) simp_all
  with Suc show ?case by (fastforce simp: Let_def bind_eq_Some_conv split: if_splits intro: same_peers_trans)
qed simp

lemma sock_drain_peers: "sock_drain sk n s = Some (bs, s') \<Longrightarrow> same_peers s s'"
proof (induction n arbitrary: s bs)
  case (Suc n)
  then show ?case using sock_get_peers
    by (fastforce simp: bind_eq_Some_conv split: if_splits intro: same_peers_trans simp del: sock_get.simps)
qed simp

lemma release_pending_peers: "release_pending p s = Some s' \<Longrightarrow> same_peers s s'"
proof (erule release_pending.raw_induct [rotated])
  fix f p s s'
  assume IH: "\<And>p s s'. f p s = Some s' \<Longrightarrow> same_peers s s'"
    and e: "(if p = 0 then Some s
      else do {
        let s1 = upd_sock p (\<lambda>k. k\<lparr>s_next := 0, s_state := if s_state k = SOCKET_CONNECTING then SOCKET_CREATED else s_state k\<rparr>) s;
        s2 \<leftarrow> sock_wakeup p s1;
        f (s_next (socks s p)) s2
      }) = Some s'"
  show "same_peers s s'"
  proof (cases "p = 0")
    case False
    let ?x = "(socks s p)\<lparr>s_next := 0, s_state := if s_state (socks s p) = SOCKET_CONNECTING then SOCKET_CREATED else s_state (socks s p)\<rparr>"
    let ?s1 = "s\<lparr>socks := (socks s)(p := ?x)\<rparr>"
    have "same_peers s ?s1" by (rule same_peers_upd [of ?x s p]) simp_all
    moreover from e False obtain s2 where "sock_wakeup p ?s1 = Some s2" "f (s_next (socks s p)) s2 = Some s'"
      by (auto simp: bind_eq_Some_conv Let_def)
    ultimately show ?thesis
      by (blast intro: IH same_peers_trans same_peers_socks [OF wakeup_socks])
  qed (use e in simp)
qed

lemma connect_pass_peers: "connect_pass me sp sk s = Some (r, s') \<Longrightarrow> same_peers s s'"
  unfolding connect_pass_def by (auto simp: bind_eq_Some_conv split: if_splits dest: wait_socks intro: same_peers_socks)

lemma connect_peers:
  assumes "af_local_connect me sp sk addr n s = Some (r, s')"
  shows "same_peers s s'"
proof (cases "s' = s")
  case False
  with assms obtain sv s3 where sv: "s_state (socks s sk) \<noteq> SOCKET_CONNECTED"
    "sock_wakeup sv (s\<lparr>socks := (socks s)(sk := (socks s sk)\<lparr>s_state := SOCKET_CONNECTING, s_next := listen_queue (socks s sv)\<rparr>,
        sv := (socks s sv)\<lparr>listen_queue := sk\<rparr>)\<rparr>) = Some s3"
    "connect_pass me sp sk s3 = Some (r, s')" "sv \<noteq> sk"
    unfolding af_local_connect_def by (auto simp: Let_def bind_eq_Some_conv split: if_splits)
  have "same_peers s s3" using wakeup_socks [OF sv(2)] sv(1,4) by (auto simp: same_peers_def)
  then show ?thesis using connect_pass_peers [OF sv(3)] by (rule same_peers_trans)
qed simp

lemma listen_peers: "af_local_listen sk s = (r, s') \<Longrightarrow> same_peers s s'"
  by (auto simp: af_local_listen_def same_peers_def split: if_splits)

lemma sendto_peers:
  assumes "af_local_sendto sk buf len addr n s = Some (r, s')"
  shows "same_peers s s'"
proof (cases "s' = s")
  case False
  with assms obtain dk m s1 where s1: "local_put dk (the buf) (unat len) s = Some (m, s1)"
    "(if m > 0 then sock_wakeup dk s1 else Some s1) = Some s'"
    unfolding af_local_sendto_def by (auto simp: Let_def bind_eq_Some_conv split: if_splits)
  then have "same_peers s1 s'" by (auto split: if_splits dest: wakeup_socks intro: same_peers_socks)
  with local_put_peers [OF s1(1)] show ?thesis by (rule same_peers_trans)
qed simp

lemma recvfrom_peers: "af_local_recvfrom me sp sk buf len n s = Some (r, s') \<Longrightarrow> same_peers s s'"
  unfolding af_local_recvfrom_def
  by (auto simp: Let_def bind_eq_Some_conv split: if_splits dest: wait_socks sock_drain_peers intro: same_peers_socks)

lemma unlink_socks:
  assumes "socket_unlink sk s = Some t"
  shows "same_peers s t" "proto_ops (socks t a) = proto_ops (socks s a)"
  using assms unfolding socket_unlink_def by (auto simp: Let_def bind_eq_Some_conv same_peers_def split: if_splits)

lemma kfree_socks:
  shows "net_kfree q t = Some t' \<Longrightarrow> socks t' = socks t" "kfree_nonnull q t = Some t' \<Longrightarrow> socks t' = socks t"
  unfolding kfree_nonnull_def by (auto simp: net_kfree_def bind_eq_Some_conv Let_def split: if_splits)

lemma close_peers:
  assumes "socket_close sk s = Some (r, s')" "peer (socks s sk) = 0"
  shows "same_peers s s'"
  using assms unfolding socket_close_def
  by (auto simp: Let_def bind_eq_Some_conv split: if_splits dest!: unlink_socks(1) kfree_socks intro: same_peers_socks) (auto simp: same_peers_def)

lemma bind_peers:
  assumes "af_local_bind sk addr n s = Some (r, s')"
  shows "same_peers s s'"
proof (cases "s' = s")
  case False
  with assms have "socket_bind_address sk addr 110 s = Some (r, s')" "family (socks s sk) = AF_LOCAL"
    by (auto simp: af_local_bind_def split: if_splits)
  with False obtain x where "set_local sk x s = Some s'"
    by (auto simp: socket_bind_address_def bind_eq_Some_conv split: if_splits)
  then show ?thesis by (auto simp: set_local_def same_peers_def bind_eq_Some_conv Let_def)
qed simp

lemma pairs_cong: "(\<And>a. a \<in> L \<Longrightarrow> socks s' a = socks s a) \<Longrightarrow> pairs L s \<Longrightarrow> pairs L s'"
  unfolding pairs_def Let_def by metis

lemma pairsD:
  assumes "pairs L s" "a \<in> L" "peer (socks s a) = b" "b \<noteq> 0"
  shows "b \<in> L" "s_state (socks s a) = SOCKET_CONNECTED" "peer (socks s b) = a" "a \<noteq> 0" "s_state (socks s b) = SOCKET_CONNECTED"
proof -
  show *: "b \<in> L" "s_state (socks s a) = SOCKET_CONNECTED" "peer (socks s b) = a" "a \<noteq> 0" using assms unfolding pairs_def Let_def by auto
  show "s_state (socks s b) = SOCKET_CONNECTED" using * assms(1) unfolding pairs_def Let_def by auto
qed

lemma pairsI:
  assumes "0 \<notin> L" "\<And>a b. a \<in> L \<Longrightarrow> peer (socks s a) = b \<Longrightarrow> b \<noteq> 0 \<Longrightarrow> b \<in> L \<and> s_state (socks s a) = SOCKET_CONNECTED \<and> peer (socks s b) = a"
  shows "pairs L s"
  using assms unfolding pairs_def Let_def by blast

lemma pairs_no_peer: "pairs L s \<Longrightarrow> c \<in> L \<Longrightarrow> s_state (socks s c) \<noteq> SOCKET_CONNECTED \<Longrightarrow> peer (socks s c) = 0"
  unfolding pairs_def Let_def by blast

lemma create_pairs:
  assumes e: "socket_create AF_LOCAL ty proto s = Some (new, s')" and m: "net_room k s" "17104 \<le> k" "L \<subseteq> ptrs s" and p: "pairs L s"
  shows "pairs (insert new L) s'" "new \<noteq> 0" "new \<notin> L" "s_state (socks s' new) = SOCKET_CREATED" "peer (socks s' new) = 0"
    "\<And>a. a \<in> L \<Longrightarrow> socks s' a = socks s a"
proof -
  have f: "AF_UNSPEC \<le> AF_LOCAL" "AF_LOCAL \<le> PF_PACKET" by simp_all
  from socket_create_spec [OF m(1,2) f, of ty proto] e obtain rx h b d where
    n: "new \<noteq> 0" "new \<notin> ptrs s" and
    s': "s' = s\<lparr>krn := (krn s)\<lparr>heap := h\<rparr>, bufs := (bufs s)(new := d, rx := b), socks := (socks s)(new := sock0\<lparr>family := AF_LOCAL,
        s_type := ty, proto_ops := family_ops AF_LOCAL, rx_buffer := rx\<rparr>)\<rparr>" unfolding option.inject prod.inject e by blast
  show "new \<noteq> 0" by (rule n)
  show l: "new \<notin> L" using n m(3) by blast
  show new: "s_state (socks s' new) = SOCKET_CREATED" "peer (socks s' new) = 0" by (simp_all add: s' sock0_def)
  show same: "socks s' a = socks s a" if "a \<in> L" for a using that l by (auto simp: s')
  have "pairs L s'" by (rule pairs_cong [OF _ p]) (rule same)
  with n(1) l new show "pairs (insert new L) s'" by (auto simp: pairs_def Let_def)
qed

lemma accept_session_pairs:
  assumes e: "accept_session sk c s = Some (new, s')" and m: "net_room k s" "17104 \<le> k" "L \<subseteq> ptrs s" and c: "c \<in> L" and p: "pairs L s"
  shows "pairs (insert new L - {0}) s'"
proof -
  from e obtain n s1 where s1: "socket_create AF_LOCAL (s_type (socks s sk)) 0 s = Some (n, s1)"
    by (auto simp: accept_session_def bind_eq_Some_conv)
  note q = create_pairs [OF s1 m p]
  have z: "0 \<notin> L" using p by (simp add: pairs_def)
  have n: "n \<noteq> 0" "n \<notin> L" "c \<noteq> n" using q(2,3) c by auto
  have p1: "pairs L s1" by (rule pairs_cong [OF _ p]) (rule q(6))
  show ?thesis
  proof (cases "s_state (socks s1 c) = SOCKET_CONNECTING")
    case False
    then obtain r where "socket_close n s1 = Some (r, s')" "new = 0"
      using e s1 n(1) by (auto simp: accept_session_def bind_eq_Some_conv)
    then show ?thesis using pairs_same [OF p1 close_peers] q(5) z by simp
  next
    case True
    with e s1 n(1) q(4) have w: "new = n" and
      "sock_wakeup c (s1\<lparr>socks := (socks s1)(n := (socks s1 n)\<lparr>peer := c, s_state := SOCKET_CONNECTED\<rparr>,
         c := (socks s1 c)\<lparr>peer := n, s_state := SOCKET_CONNECTED\<rparr>)\<rparr>) = Some s'"
      using n(3) by (auto simp: accept_session_def bind_eq_Some_conv Let_def)
    from wakeup_socks [OF this(2)] have s': "socks s' = (socks s1)(n := (socks s1 n)\<lparr>peer := c, s_state := SOCKET_CONNECTED\<rparr>,
         c := (socks s1 c)\<lparr>peer := n, s_state := SOCKET_CONNECTED\<rparr>)" by simp
    have "peer (socks s1 c) = 0" using pairs_no_peer [OF p1 c] True by simp
    then have "\<And>a. a \<in> L \<Longrightarrow> peer (socks s1 a) \<noteq> c" using p1 c z unfolding pairs_def Let_def by metis
    then show ?thesis using p1 n c z unfolding w pairs_def Let_def s' by (auto split: if_splits)
  qed
qed

lemma accept_pairs:
  assumes e: "af_local_accept me sp sk s = Some (Some new, s')" and m: "net_room k s" "17104 \<le> k" "L \<subseteq> ptrs s"
    and q: "listen_queue (socks s sk) \<in> insert 0 L" and p: "pairs L s"
  shows "pairs (insert new L - {0}) s'"
proof (cases "sk = 0 \<or> s_state (socks s sk) \<noteq> SOCKET_LISTENING")
  case True
  with e have "new = 0" "s' = s" by (auto simp: af_local_accept_def Let_def bind_eq_Some_conv split: if_splits)
  then show ?thesis using p by (simp add: pairs_def)
next
  case False
  let ?c = "listen_queue (socks s sk)"
  define s2 where "s2 = upd_sock ?c (s_next_update (\<lambda>_. 0)) (upd_sock sk (listen_queue_update (\<lambda>_. s_next (socks s ?c))) s)"
  from e False have "?c \<noteq> 0" and a: "accept_session sk ?c s2 = Some (new, s')"
    unfolding s2_def by (auto simp: af_local_accept_def Let_def bind_eq_Some_conv split: if_splits)
  then have c: "?c \<in> L" using q by simp
  have "same_peers s s2" unfolding s2_def same_peers_def by simp
  then have "pairs L s2" by (rule pairs_same [OF p])
  moreover have "net_room k s2" "L \<subseteq> ptrs s2" using m heap_cong [of s2 s] unfolding s2_def by simp_all
  ultimately show ?thesis using accept_session_pairs [OF a _ m(2) _ c] by blast
qed

lemma accept_waits_peers: "af_local_accept me sp sk s = Some (None, s') \<Longrightarrow> same_peers s s'"
  by (auto simp: af_local_accept_def Let_def bind_eq_Some_conv split: if_splits dest: wait_socks intro: same_peers_socks)

lemma free_pairs:
  assumes "pairs L s" "s_state (socks s sk) \<noteq> SOCKET_CONNECTED"
  shows "pairs (L - {sk}) s"
proof (rule pairsI)
  fix a b
  assume "a \<in> L - {sk}" "peer (socks s a) = b" "b \<noteq> 0"
  with pairsD [OF assms(1), of a b] assms(2) show "b \<in> L - {sk} \<and> s_state (socks s a) = SOCKET_CONNECTED \<and> peer (socks s b) = a" by auto
qed (use assms(1) in \<open>simp add: pairs_def\<close>)

lemma release_pairs:
  assumes e: "af_local_release sk s = Some (r, s')" and p: "pairs L s"
  shows "pairs (L - {sk}) s'"
proof (cases "sk = 0 \<or> s_state (socks s sk) = SOCKET_CLOSING")
  case True
  with e have "s' = s" by (auto simp: af_local_release_def split: if_splits)
  moreover have "sk = 0 \<Longrightarrow> L - {sk} = L" using p by (auto simp: pairs_def)
  ultimately show ?thesis using True
  proof (elim disjE)
    assume "s_state (socks s sk) = SOCKET_CLOSING"
    then show ?thesis using free_pairs [OF p, of sk] \<open>s' = s\<close> by simp
  qed (use p in simp)
next
  case False
  let ?x = "(socks s sk)\<lparr>s_state := SOCKET_CLOSING, listen_queue := 0, peer := 0\<rparr>"
  let ?b = "peer (socks s sk)"
  from e False obtain s1 s2 where
    w: "sock_wakeup sk (s\<lparr>socks := (socks s)(sk := ?x)\<rparr>) = Some s1" "release_pending (listen_queue (socks s sk)) s1 = Some s2"
      "release_peer sk ?b s2 = Some s'"
    by (auto simp: af_local_release_def Let_def bind_eq_Some_conv split: if_splits)
  have s1: "socks s1 = (socks s)(sk := ?x)" using wakeup_socks [OF w(1)] by simp
  have s2: "peer (socks s2 a) = (if a = sk then 0 else peer (socks s a))"
    "a \<noteq> sk \<Longrightarrow> s_state (socks s a) = SOCKET_CONNECTED \<Longrightarrow> s_state (socks s2 a) = SOCKET_CONNECTED" for a
    using release_pending_peers [OF w(2)] unfolding same_peers_def s1 by auto
  have s': "peer (socks s' a) = (if a = sk \<or> a = ?b \<and> ?b \<noteq> 0 \<and> peer (socks s ?b) = sk then 0 else peer (socks s a))"
    "peer (socks s' a) \<noteq> 0 \<Longrightarrow> s_state (socks s a) = SOCKET_CONNECTED \<Longrightarrow> s_state (socks s' a) = SOCKET_CONNECTED" for a
    using w(3) s2 by (auto simp: release_peer_def split: if_splits dest!: wakeup_socks)
  show ?thesis
  proof (rule pairsI)
    fix a b
    assume a: "a \<in> L - {sk}" "peer (socks s' a) = b" "b \<noteq> 0"
    then have "a \<noteq> 0" "a \<in> L" using p by (auto simp: pairs_def)
    with s'(1) [of a] a have k: "peer (socks s a) = b" "a \<noteq> sk" "\<not> (a = ?b \<and> peer (socks s ?b) = sk)" by (auto split: if_splits)
    note d = pairsD [OF p \<open>a \<in> L\<close> k(1) a(3)]
    have "b \<noteq> sk" using d k by auto
    moreover have "\<not> (b = ?b \<and> ?b \<noteq> 0 \<and> peer (socks s ?b) = sk)" using d(3) k(2) by auto
    ultimately show "b \<in> L - {sk} \<and> s_state (socks s' a) = SOCKET_CONNECTED \<and> peer (socks s' b) = a"
      using d s'(1) [of b] s'(2) [of a] a(2,3) by simp
  qed (use p in \<open>simp add: pairs_def\<close>)
qed

lemma close_pairs:
  assumes c: "socket_vfs_close sk s = Some (r, s')" and f: "family (socks s sk) = AF_LOCAL" "proto_ops (socks s sk) = Some g_af_local_ops"
    and p: "pairs L s"
  shows "pairs (L - {sk}) s'"
proof (cases "sk = 0")
  case True
  then show ?thesis using c p by (simp add: socket_vfs_close_def pairs_def)
next
  case False
  with c f obtain s1 s2 s3 s4 where w: "socket_unlink sk s = Some s1" "proto_release sk s1 = Some s2"
    "kfree_nonnull (rx_buffer (socks s2 sk)) s2 = Some s3" "kfree_nonnull (tx_buffer (socks s3 sk)) s3 = Some s4" "net_kfree sk s4 = Some s'"
    by (auto simp: socket_vfs_close_def bind_eq_Some_conv split: if_splits)
  note u = unlink_socks [OF w(1)]
  from w(2) f(2) u(2) obtain r' where "af_local_release sk s1 = Some (r', s2)" by (auto simp: proto_release_def)
  then have "pairs (L - {sk}) s2" using release_pairs pairs_same [OF p u(1)] by blast
  then show ?thesis by (rule pairs_cong [rotated]) (simp add: kfree_socks(1) [OF w(5)] kfree_socks(2) [OF w(4)] kfree_socks(2) [OF w(3)])
qed

lemma local_step_pairs: "local_step x y \<Longrightarrow> pairs (fst x) (snd x) \<Longrightarrow> pairs (fst y) (snd y)"
proof (induction rule: local_step.induct)
  case (create ty proto s new s' k L)
  from create_pairs(1) [OF create(1-4)] create.prems show ?case by simp
next
  case (bind sk addr n s r s' L)
  from pairs_same [OF _ bind_peers [OF bind(1)]] bind.prems show ?case by simp
next
  case (connect me sp sk addr n s r s' L)
  from pairs_same [OF _ connect_peers [OF connect(1)]] connect.prems show ?case by simp
next
  case (connect_again me sp sk s r s' L)
  from pairs_same [OF _ connect_pass_peers [OF connect_again(1)]] connect_again.prems show ?case by simp
next
  case (listen sk s r s' L)
  from pairs_same [OF _ listen_peers [OF listen(1)]] listen.prems show ?case by simp
next
  case (accept_waits me sp sk s s' L)
  from pairs_same [OF _ accept_waits_peers [OF accept_waits(1)]] accept_waits.prems show ?case by simp
next
  case (accept me sp sk s new s' k L)
  from accept_pairs [OF accept(1-5)] accept.prems show ?case by simp
next
  case (send sk buf len addr n s r s' L)
  from pairs_same [OF _ sendto_peers [OF send(1)]] send.prems show ?case by simp
next
  case (recv me sp sk buf len n s r s' L)
  from pairs_same [OF _ recvfrom_peers [OF recv(1)]] recv.prems show ?case by simp
next
  case (close sk s r s' L)
  from close_pairs [OF close(1-3)] close.prems show ?case by simp
qed

lemma local_steps_pairs: "local_step\<^sup>*\<^sup>* x y \<Longrightarrow> pairs (fst x) (snd x) \<Longrightarrow> pairs (fst y) (snd y)"
  by (induction rule: rtranclp_induct) (auto dest: local_step_pairs)

section \<open>Connecting\<close>

lemma connect_queues:
  assumes f: "socket_find_by_address addr n AF_LOCAL s = Some sv" and q: "sk \<noteq> 0" "addr \<noteq> None" "n \<noteq> 0" "sv \<noteq> 0" "sv \<noteq> sk"
    and st: "s_state (socks s sk) \<in> {SOCKET_CREATED, SOCKET_LISTENING}" "s_state (socks s sv) = SOCKET_LISTENING"
    and ki: "kinv ps T Q (krn s)" "wait_channel sv \<noteq> 0"
  shows "\<exists>s1. af_local_connect me sp sk addr n s = map_option (\<lambda>(r, t). (None, t)) (sock_wait me sp sk s1) \<and>
    s_state (socks s1 sk) = SOCKET_CONNECTING \<and> listen_queue (socks s1 sv) = sk \<and> s_next (socks s1 sk) = listen_queue (socks s sv) \<and>
    wakes ps sv s s1"
proof -
  let ?s2 = "s\<lparr>socks := (socks s)(sk := (socks s sk)\<lparr>s_state := SOCKET_CONNECTING, s_next := listen_queue (socks s sv)\<rparr>,
     sv := (socks s sv)\<lparr>listen_queue := sk\<rparr>)\<rparr>"
  have k: "kinv ps T Q (krn ?s2)" using ki(1) by simp
  from sock_wakeup_spec [OF k ki(2)] obtain kr where w: "sock_wakeup sv ?s2 = Some (?s2\<lparr>krn := kr\<rparr>)"
    "\<forall>t. th_state (threads kr t) = (if \<exists>p\<in>set ps. t = main_thread (procs (krn ?s2) p) \<and> waits_on (wait_channel sv) (krn ?s2) t
       then THREAD_READY else th_state (threads (krn ?s2) t))" by blast
  have "af_local_connect me sp sk addr n s = connect_pass me sp sk (?s2\<lparr>krn := kr\<rparr>)"
    using f q st w(1) by (auto simp: af_local_connect_def Let_def)
  also have "\<dots> = map_option (\<lambda>(r, t). (None, t)) (sock_wait me sp sk (?s2\<lparr>krn := kr\<rparr>))"
    using q(5) by (cases "sock_wait me sp sk (?s2\<lparr>krn := kr\<rparr>)") (auto simp: connect_pass_def)
  finally show ?thesis using w(2) q(5) by (intro exI [of _ "?s2\<lparr>krn := kr\<rparr>"]) (simp add: wakes_def)
qed

lemma accept_connects:
  assumes l: "s_state (socks s sv) = SOCKET_LISTENING" "listen_queue (socks s sv) = c" "s_state (socks s c) = SOCKET_CONNECTING"
    and z: "sv \<noteq> 0" "c \<noteq> 0" and m: "net_room k s" "17104 \<le> k" "{sv, c} \<subseteq> ptrs s"
    and ki: "kinv ps T Q (krn s)" "wait_channel c \<noteq> 0"
  shows "\<exists>new s'. af_local_accept me sp sv s = Some (Some new, s') \<and> new \<noteq> 0 \<and> new \<notin> ptrs s \<and>
    peer (socks s' new) = c \<and> peer (socks s' c) = new \<and> s_state (socks s' new) = SOCKET_CONNECTED \<and> s_state (socks s' c) = SOCKET_CONNECTED \<and>
    listen_queue (socks s' sv) = s_next (socks s c) \<and> sock_ring s' new \<and> sock_bytes s' new = [] \<and> wakes ps c s s'"
proof -
  define s2 where "s2 = upd_sock c (s_next_update (\<lambda>_. 0)) (upd_sock sv (listen_queue_update (\<lambda>_. s_next (socks s c))) s)"
  have d: "sv \<noteq> c" using l by auto
  have h2: "net_room k s2" "ptrs s2 = ptrs s" using m heap_cong [of s2 s] unfolding s2_def by simp_all
  have f: "AF_UNSPEC \<le> AF_LOCAL" "AF_LOCAL \<le> PF_PACKET" by simp_all
  let ?n = "\<lambda>rx. sock0\<lparr>family := AF_LOCAL, s_type := s_type (socks s2 sv), proto_ops := family_ops AF_LOCAL, rx_buffer := rx\<rparr>"
  from socket_create_spec [OF h2(1) m(2) f, of "s_type (socks s2 sv)" 0] obtain new rx h b e s3 where
    s3: "socket_create AF_LOCAL (s_type (socks s2 sv)) 0 s2 = Some (new, s3)" "new \<noteq> 0" "new \<notin> ptrs s2" "rx \<noteq> 0" "length b = 16384" and
    e3: "s3 = s2\<lparr>krn := (krn s2)\<lparr>heap := h\<rparr>, bufs := (bufs s2)(new := e, rx := b), socks := (socks s2)(new := ?n rx)\<rparr>" by blast
  have n: "new \<noteq> c" "new \<noteq> sv" using s3(3) m(3) h2(2) by auto
  let ?s4 = "s3\<lparr>socks := (socks s3)(new := (socks s3 new)\<lparr>peer := c, s_state := SOCKET_CONNECTED\<rparr>, c := (socks s3 c)\<lparr>peer := new, s_state := SOCKET_CONNECTED\<rparr>)\<rparr>"
  have k4: "krn ?s4 = (krn s)\<lparr>heap := h\<rparr>" by (simp add: e3 s2_def)
  have "kinv ps T Q (krn ?s4)" using ki(1) unfolding k4 kinv_heap .
  from sock_wakeup_spec [OF this ki(2)] obtain kr where w: "sock_wakeup c ?s4 = Some (?s4\<lparr>krn := kr\<rparr>)"
    "\<forall>t. th_state (threads kr t) = (if \<exists>p\<in>set ps. t = main_thread (procs (krn ?s4) p) \<and> waits_on (wait_channel c) (krn ?s4) t
       then THREAD_READY else th_state (threads (krn ?s4) t))" by blast
  have st: "s_state (socks s3 c) = SOCKET_CONNECTING" "s_state (socks s3 new) = SOCKET_CREATED" using n l(3) d by (simp_all add: e3 s2_def sock0_def)
  have "accept_session sv c s2 = Some (new, ?s4\<lparr>krn := kr\<rparr>)"
    using s3(1,2) st w(1) n(1) by (simp add: accept_session_def Let_def)
  then have "af_local_accept me sp sv s = Some (Some new, ?s4\<lparr>krn := kr\<rparr>)"
    using l z by (simp add: af_local_accept_def Let_def s2_def)
  moreover have "wakes ps c s (?s4\<lparr>krn := kr\<rparr>)" using w(2) unfolding k4 by (simp add: wakes_def waits_on_def)
  moreover have "sock_ring (?s4\<lparr>krn := kr\<rparr>) new \<and> sock_bytes (?s4\<lparr>krn := kr\<rparr>) new = []"
    using n s3(4,5) by (simp add: sock_ring_def sock_bytes_def ring_ok_def ring_items_def ring_count_def e3 sock0_def)
  moreover have "listen_queue (socks (?s4\<lparr>krn := kr\<rparr>) sv) = s_next (socks s c)" using n d by (simp add: e3 s2_def)
  ultimately show ?thesis using s3(2,3) n(1) h2(2) by (intro exI [of _ new] exI [of _ "?s4\<lparr>krn := kr\<rparr>"]) simp
qed

section \<open>Properties of connections\<close>


text \<open>Accepting takes the client at the head of the queue, creates a socket with an empty ring, makes the two peers of each other, wakes
  the client, and the client's \<^verbatim>\<open>connect\<close> then returns 0.\<close>

theorem local_accept_connects:
  assumes "s_state (socks s sv) = SOCKET_LISTENING" "listen_queue (socks s sv) = c" "s_state (socks s c) = SOCKET_CONNECTING" "sv \<noteq> 0" "c \<noteq> 0"
    "net_room k s" "17104 \<le> k" "{sv, c} \<subseteq> ptrs s" "kinv ps T Q (krn s)" "wait_channel c \<noteq> 0"
  shows "\<exists>new s'. af_local_accept me sp sv s = Some (Some new, s') \<and> new \<noteq> 0 \<and> new \<notin> ptrs s \<and>
    peer (socks s' new) = c \<and> peer (socks s' c) = new \<and> s_state (socks s' new) = SOCKET_CONNECTED \<and>
    listen_queue (socks s' sv) = s_next (socks s c) \<and> sock_ring s' new \<and> sock_bytes s' new = [] \<and> wakes ps c s s' \<and>
    connect_pass me' sp' c s' = Some (Some 0, s')"
  using accept_connects [OF assms, of me sp] by (auto simp: connect_pass_def)

text \<open>Closing a socket whose thread still waits in \<^verbatim>\<open>connect\<close> does not take it off the server's queue: the server's next \<^verbatim>\<open>accept\<close> reads freed
  memory.\<close>

theorem closed_client_stays_queued:
  assumes "s_state (socks s c) = SOCKET_CONNECTING" "listen_queue (socks s sv) = c" "sv \<noteq> c" "listen_queue (socks s c) = 0" "peer (socks s c) = 0"
    "c \<noteq> 0" "af_local_release c s = Some (r, s')"
  shows "r = 0 \<and> listen_queue (socks s' sv) = c"
proof -
  let ?s1 = "s\<lparr>socks := (socks s)(c := (socks s c)\<lparr>s_state := SOCKET_CLOSING, listen_queue := 0, peer := 0\<rparr>)\<rparr>"
  have "release_pending 0 t = Some t" for t by (subst release_pending.simps) simp
  with assms have "r = 0 \<and> sock_wakeup c ?s1 = Some s'"
    by (auto simp: af_local_release_def release_peer_def bind_eq_Some_conv Let_def)
  with wakeup_socks [of c ?s1 s'] assms(2,3) show ?thesis by simp
qed

section \<open>Witnesses\<close>

definition local_demo :: net where
  "local_demo = (host_b sock0)\<lparr>socks := (\<lambda>_. sock0)(
     sock_wide := sock0\<lparr>family := AF_LOCAL, s_state := SOCKET_LISTENING, listen_queue := rx_wide\<rparr>,
     rx_wide := sock0\<lparr>family := AF_LOCAL, s_state := SOCKET_CONNECTING\<rparr>)\<rparr>"

lemma local_demo_facts: "net_room 2080032 local_demo" "ptrs local_demo = {sock_wide, rx_wide}" "kinv procs_demo {0x200, 0x300, 0x400} queues_demo (krn local_demo)"
  "s_state (socks local_demo sock_wide) = SOCKET_LISTENING" "listen_queue (socks local_demo sock_wide) = rx_wide" "s_state (socks local_demo rx_wide) = SOCKET_CONNECTING"
  "s_next (socks local_demo rx_wide) = 0" "peer (socks local_demo sock_wide) = 0" "peer (socks local_demo rx_wide) = 0"
  using host_b_facts(1,4,8) [of sock0] heap_cong [of local_demo "host_b sock0"]
  by (simp_all add: linked_def local_demo_def) (simp_all add: sock0_def)

lemma local_demo_nums: "sock_wide \<noteq> 0" "rx_wide \<noteq> 0" "(17104 :: nat) \<le> 2080032" "{sock_wide, rx_wide} \<subseteq> ptrs local_demo" "wait_channel rx_wide \<noteq> 0"
  by (simp_all add: local_demo_facts(2))

theorem local_accept_connects_witness:
  "\<exists>new s'. af_local_accept 0 0 sock_wide local_demo = Some (Some new, s') \<and> peer (socks s' new) = rx_wide \<and> peer (socks s' rx_wide) = new \<and>
     listen_queue (socks s' sock_wide) = 0 \<and> connect_pass 0 0 rx_wide s' = Some (Some 0, s')"
  using local_accept_connects [OF local_demo_facts(4-6) local_demo_nums(1,2) local_demo_facts(1) local_demo_nums(3,4) local_demo_facts(3) local_demo_nums(5),
      of 0 0 0 0] unfolding local_demo_facts(7) by blast


definition pair_demo :: net where
  "pair_demo = (host_b sock0)\<lparr>socks := (\<lambda>_. sock0)(
     0x900 := sock0\<lparr>family := AF_LOCAL, s_state := SOCKET_CONNECTED, peer := 0xB00, rx_buffer := 0x5000\<rparr>,
     0xB00 := sock0\<lparr>family := AF_LOCAL, s_state := SOCKET_CONNECTED, peer := 0x900, rx_buffer := 0xA000\<rparr>),
     bufs := (\<lambda>_. replicate 16384 0)\<rparr>"


end
