(* ===== verification/Str.thy ===== *)
theory Str
  imports Prelude
begin

text \<open>
  Strings and blocks of bytes, \<^verbatim>\<open>src/kernel/lib/string.c\<close>. A pointer argument is the list of the bytes that can be read from that
  address on; a function that reads or writes behind the end of the list has the result \<open>None\<close>. The string at a pointer is \<open>cstr\<close>,
  the bytes in front of the first zero. A result that points into the argument is an index into it.
\<close>

section \<open>Functions\<close>

fun memset :: "u8 list \<Rightarrow> u8 \<Rightarrow> nat \<Rightarrow> u8 list option" where
  "memset s v 0 = Some s"
| "memset [] v (Suc n) = None"
| "memset (a # s) v (Suc n) = map_option (Cons v) (memset s v n)"

fun memcpy :: "u8 list \<Rightarrow> u8 list \<Rightarrow> nat \<Rightarrow> u8 list option" where
  "memcpy d s 0 = Some d"
| "memcpy (a # d) (b # s) (Suc n) = map_option (Cons b) (memcpy d s n)"
| "memcpy _ _ (Suc n) = None"

text \<open>A copy to an address inside the object.\<close>

definition memcpy_at :: "u8 list \<Rightarrow> nat \<Rightarrow> u8 list \<Rightarrow> nat \<Rightarrow> u8 list option" where
  "memcpy_at d off s n = (if off \<le> length d then map_option ((@) (take off d)) (memcpy (drop off d) s n) else None)"

fun strcpy :: "u8 list \<Rightarrow> u8 list \<Rightarrow> u8 list option" where
  "strcpy (a # d) (b # s) = (if b \<noteq> 0 then map_option (Cons b) (strcpy d s) else Some (0 # d))"
| "strcpy _ _ = None"

text \<open>The loop does not stop at the end of the string: it always copies \<open>count\<close> bytes, and writes one byte more.\<close>

fun strncpy :: "u8 list \<Rightarrow> u8 list \<Rightarrow> nat \<Rightarrow> u8 list option" where
  "strncpy (a # d) s 0 = Some (0 # d)"
| "strncpy (a # d) (b # s) (Suc n) = map_option (Cons b) (strncpy d s n)"
| "strncpy _ _ _ = None"

fun strlen :: "u8 list \<Rightarrow> nat option" where
  "strlen [] = None"
| "strlen (a # s) = (if a \<noteq> 0 then map_option Suc (strlen s) else Some 0)"

fun strcmp :: "u8 list \<Rightarrow> u8 list \<Rightarrow> int option" where
  "strcmp (a # x) (b # y) =
     (if a = b
      then (case (x, y) of
          (c # _, d # _) \<Rightarrow> if c = d \<and> sint c + sint d = 0 then Some 0 else strcmp x y
        | _ \<Rightarrow> None)
      else Some (-1))"
| "strcmp _ _ = None"

fun memcmp :: "u8 list \<Rightarrow> u8 list \<Rightarrow> nat \<Rightarrow> int option" where
  "memcmp x y 0 = Some 0"
| "memcmp (a # x) (b # y) (Suc n) = (if a \<noteq> b then Some 1 else memcmp x y n)"
| "memcmp _ _ (Suc n) = None"

fun strchr :: "u8 list \<Rightarrow> u8 \<Rightarrow> nat option option" where
  "strchr [] c = None"
| "strchr (a # s) c =
     (if a \<noteq> c then if a = 0 then Some None else map_option (map_option Suc) (strchr s c)
      else Some (Some 0))"

text \<open>The search from the end of the string, the terminator included.\<close>

fun strrchr_loop :: "u8 list \<Rightarrow> u8 \<Rightarrow> nat \<Rightarrow> nat option" where
  "strrchr_loop s c 0 = (if s ! 0 = c then Some 0 else None)"
| "strrchr_loop s c (Suc p) = (if s ! Suc p = c then Some (Suc p) else strrchr_loop s c p)"

definition strrchr :: "u8 list \<Rightarrow> u8 \<Rightarrow> nat option option" where
  "strrchr s c = map_option (strrchr_loop s c) (strlen s)"

section \<open>Strings\<close>

definition cstr :: "u8 list \<Rightarrow> u8 list" where
  "cstr s = takeWhile (\<lambda>c. c \<noteq> 0) s"

abbreviation terminated :: "u8 list \<Rightarrow> bool" where
  "terminated s \<equiv> 0 \<in> set s"

lemma cstr_simps [simp]: "cstr [] = []" "cstr (a # s) = (if a = 0 then [] else a # cstr s)"
  by (simp_all add: cstr_def)

lemma cstr_no_zero [simp]: "0 \<notin> set (cstr s)"
  by (induction s) auto

lemma cstr_append: "0 \<notin> set x \<Longrightarrow> cstr (x @ s) = x @ cstr s"
  by (induction x) auto

lemma cstr_less: "terminated s \<Longrightarrow> length (cstr s) < length s"
  by (induction s) auto

lemma cstr_take: "length (cstr s) < n \<Longrightarrow> cstr (take n s) = cstr s"
proof (induction s arbitrary: n)
  case (Cons a s)
  then show ?case by (cases n) auto
qed simp

lemma cstr_take_short: "n \<le> length (cstr s) \<Longrightarrow> cstr (take n s) = take n (cstr s)"
proof (induction s arbitrary: n)
  case (Cons a s)
  then show ?case by (cases n) (auto split: if_splits)
qed simp

lemma cstr_nth: "terminated s \<Longrightarrow> s ! length (cstr s) = 0"
  by (induction s) auto

lemma terminated_split: "terminated s \<Longrightarrow> \<exists>y. s = cstr s @ 0 # y"
  by (induction s) auto

lemma memset_eq: "memset s v n = (if n \<le> length s then Some (replicate n v @ drop n s) else None)"
  by (induction s v n rule: memset.induct) auto

lemma memcpy_eq: "memcpy d s n = (if n \<le> length d \<and> n \<le> length s then Some (take n s @ drop n d) else None)"
  by (induction d s n rule: memcpy.induct) auto

lemma memcpy_at_eq:
  "off + n \<le> length d \<Longrightarrow> n \<le> length s \<Longrightarrow> memcpy_at d off s n = Some (take off d @ take n s @ drop (off + n) d)"
  by (simp add: memcpy_at_def memcpy_eq add.commute)

lemma strlen_eq: "strlen s = (if terminated s then Some (length (cstr s)) else None)"
  by (induction s) auto

lemma memcmp_eq: "n \<le> length x \<Longrightarrow> n \<le> length y \<Longrightarrow> memcmp x y n = Some (if take n x = take n y then 0 else 1)"
  by (induction x y n rule: memcmp.induct) auto

lemma strcpy_eq: "terminated s \<Longrightarrow> length (cstr s) < length d \<Longrightarrow> strcpy d s = Some (cstr s @ 0 # drop (Suc (length (cstr s))) d)"
  by (induction d s rule: strcpy.induct) (auto split: if_splits)

lemma strncpy_eq: "n < length d \<Longrightarrow> n \<le> length s \<Longrightarrow> strncpy d s n = Some (take n s @ 0 # drop (Suc n) d)"
  by (induction d s n rule: strncpy.induct) auto

lemma sint_zero: "c = d \<and> sint c + sint d = 0 \<longleftrightarrow> c = d \<and> d = (0 :: u8)"
  using signed_eq_0_iff [of d] by auto

lemma strcmp_eq:
  assumes "terminated x" "terminated y" "cstr x \<noteq> [] \<or> cstr y \<noteq> []"
  shows "strcmp x y = Some (if cstr x = cstr y then 0 else -1)"
  using assms
proof (induction x y rule: strcmp.induct)
  case (1 a x b y)
  show ?case
  proof (cases "a = b")
    case True
    with 1 have a: "a \<noteq> 0" "terminated x" "terminated y" by (auto split: if_splits)
    then obtain c x' d y' where e: "x = c # x'" "y = d # y'" by (cases x; cases y) auto
    have z: "(c = d \<and> sint c + sint d = 0) \<longleftrightarrow> (c = 0 \<and> d = 0)" unfolding sint_zero by auto
    show ?thesis
    proof (cases "c = 0 \<and> d = 0")
      case False
      then have "\<not> (c = d \<and> sint c + sint d = 0)" unfolding z .
      moreover from False have "cstr x \<noteq> [] \<or> cstr y \<noteq> []" unfolding e by auto
      ultimately have "strcmp x y = Some (if cstr x = cstr y then 0 else -1)" using 1(1) [OF True refl e _] a(2,3) by simp
      with False z True a(1) e show ?thesis by simp
    qed (use z True a(1) e in simp)
  qed (use 1(4) in \<open>auto split: if_splits\<close>)
qed auto

lemma strchr_eq:
  assumes "terminated s" "c \<noteq> 0"
  shows "strchr s c = Some (if c \<in> set (cstr s) then Some (length (takeWhile (\<lambda>a. a \<noteq> c) (cstr s))) else None)"
  using assms by (induction s) auto

lemma strrchr_loop_spec:
  "case strrchr_loop s c p of Some i \<Rightarrow> i \<le> p \<and> s ! i = c \<and> (\<forall>j. i < j \<and> j \<le> p \<longrightarrow> s ! j \<noteq> c) | None \<Rightarrow> \<forall>j\<le>p. s ! j \<noteq> c"
proof (induction p)
  case (Suc p)
  then show ?case by (cases "strrchr_loop s c p") (auto simp: le_Suc_eq)
qed auto

section \<open>Properties\<close>

text \<open>\<^verbatim>\<open>strcmp\<close> decides equality of strings: for terminated strings that are not both empty it returns 0 exactly when they are
  equal, and -1 otherwise.\<close>

theorem strcmp_decides:
  assumes "terminated x" "terminated y" "cstr x \<noteq> [] \<or> cstr y \<noteq> []"
  shows "strcmp x y = Some (if cstr x = cstr y then 0 else -1)"
  by (rule strcmp_eq [OF assms])

text \<open>For two empty strings it does not test the first bytes for the terminator and reads on.\<close>

theorem strcmp_empty_overreads: "strcmp [0] [0] = None" "strcmp (0 # a # x) (0 # b # y) = Some (-1) \<longleftrightarrow> a \<noteq> b \<or> (a \<noteq> 0 \<and> strcmp (a # x) (b # y) = Some (-1))"
  using sint_zero [of a b] by auto

section \<open>Witnesses\<close>

theorem strcmp_decides_witness: "strcmp [97, 98, 0, 7] [97, 98, 0] = Some 0 \<and> strcmp [97, 0] [97, 98, 0] = Some (-1)"
  using strcmp_decides [of "[97, 98, 0, 7]" "[97, 98, 0]"] strcmp_decides [of "[97, 0]" "[97, 98, 0]"] by simp

end
