(* ===== verification/Ramfs.thy ===== *)
theory Ramfs
  imports Process Str
begin

text \<open>
  The memory file system, \<^verbatim>\<open>src/kernel/fs/ramfs/ramfs.c\<close>, with the nodes of \<^verbatim>\<open>src/include/kernel/fs/vfs/vfs.h\<close> and the redirection of
  mount points of \<^verbatim>\<open>vfs.c\<close>. The objects of each C type live in a store of their own, indexed by address; the blocks come from the
  kernel heap. A string argument is the list of the bytes that can be read from its address on. The lock of the tables is held
  for the whole of an operation.

  The abstract view of a directory is a finite map from names to objects, and the view of a file is the list of its bytes.
\<close>

unbundle bit_operations_syntax

section \<open>State\<close>

datatype vfs_operations =
  g_ramfs_ops | g_fat32_ops | g_socket_vfs_ops | g_ptmx_vfs_ops | g_pty_replica_ops | g_tty_vfs_ops

record vfs_node =
  n_name :: "u8 list"
  n_flags :: u32
  n_size :: u64
  inode :: u32
  parent_inode :: u32
  permissions :: u32
  n_uid :: u32
  n_gid :: u32
  block_size :: u32
  cache_pages :: u64
  n_ops :: "vfs_operations option"
  n_fs :: u64
  private_data :: u64
  ptr_mount :: u64

record vfs_stat =
  st_ino :: u32
  st_size :: u64
  st_mode :: u32
  st_uid :: u32
  st_gid :: u32
  st_attr :: u16

record vfs_mount =
  mountpoint :: u64
  fs_root :: u64
  m_next :: u64

record ramfs_entry =
  e_node :: u64
  e_next :: u64

record ramfs_file_data =
  d_buffer :: u64
  buffer_cap :: u32

text \<open>\<open>fcr3\<close> is the page table root under which the heap is mapped.\<close>

record fsys =
  fkrn :: kernel
  fcr3 :: u64
  nodes :: "u64 \<Rightarrow> vfs_node"
  entries :: "u64 \<Rightarrow> ramfs_entry"
  fdata :: "u64 \<Rightarrow> ramfs_file_data"
  fbufs :: "u64 \<Rightarrow> u8 list"
  mounts :: "u64 \<Rightarrow> vfs_mount"
  g_mount_list :: u64
  g_vfs_root :: u64

abbreviation VFS_FILE :: u32 where "VFS_FILE \<equiv> 1"
abbreviation VFS_DIRECTORY :: u32 where "VFS_DIRECTORY \<equiv> 2"
abbreviation VFS_MOUNTPOINT :: u32 where "VFS_MOUNTPOINT \<equiv> 32"
abbreviation VFS_NAME_MAX :: nat where "VFS_NAME_MAX \<equiv> 256"
abbreviation SIZEOF_NODE :: u64 where "SIZEOF_NODE \<equiv> 336"
abbreviation SIZEOF_FILE_DATA :: u64 where "SIZEOF_FILE_DATA \<equiv> 16"
abbreviation SIZEOF_ENTRY :: u64 where "SIZEOF_ENTRY \<equiv> 16"

abbreviation upd_node :: "u64 \<Rightarrow> (vfs_node \<Rightarrow> vfs_node) \<Rightarrow> fsys \<Rightarrow> fsys" where
  "upd_node p f s \<equiv> s\<lparr>nodes := (nodes s)(p := f (nodes s p))\<rparr>"

abbreviation upd_entry :: "u64 \<Rightarrow> (ramfs_entry \<Rightarrow> ramfs_entry) \<Rightarrow> fsys \<Rightarrow> fsys" where
  "upd_entry p f s \<equiv> s\<lparr>entries := (entries s)(p := f (entries s p))\<rparr>"

abbreviation set_fheap :: "kheap \<Rightarrow> fsys \<Rightarrow> fsys" where
  "set_fheap h s \<equiv> s\<lparr>fkrn := (fkrn s)\<lparr>heap := h\<rparr>\<rparr>"

text \<open>A node filled with zeros.\<close>

definition node0 :: vfs_node where
  "node0 = \<lparr>n_name = replicate VFS_NAME_MAX 0, n_flags = 0, n_size = 0, inode = 0, parent_inode = 0, permissions = 0, n_uid = 0, n_gid = 0,
     block_size = 0, cache_pages = 0, n_ops = None, n_fs = 0, private_data = 0, ptr_mount = 0\<rparr>"

definition fs_kmalloc :: "u64 \<Rightarrow> fsys \<Rightarrow> (u64 \<times> fsys) option" where
  "fs_kmalloc sz s = do { (p, h) \<leftarrow> kmalloc (heap (fkrn s)) (fcr3 s) sz; Some (p, set_fheap h s) }"

definition fs_kfree :: "u64 \<Rightarrow> fsys \<Rightarrow> fsys option" where
  "fs_kfree p s = do { h \<leftarrow> kfree (heap (fkrn s)) p; Some (set_fheap h s) }"

section \<open>Mount points\<close>

partial_function (option) mount_search :: "fsys \<Rightarrow> u64 \<Rightarrow> u64 \<Rightarrow> u64 option" where
  "mount_search s node curr_mount =
     (if curr_mount = 0 then Some node
      else let m = mounts s curr_mount; mp = nodes s (mountpoint m) in
        if mountpoint m = node \<or> inode mp = inode (nodes s node) \<and> n_ops mp = n_ops (nodes s node) then Some (fs_root m)
        else mount_search s node (m_next m))"

definition vfs_resolve_mountpoint :: "u64 \<Rightarrow> fsys \<Rightarrow> u64 option" where
  "vfs_resolve_mountpoint node s =
     (if node = 0 \<or> n_flags (nodes s node) AND VFS_MOUNTPOINT = 0 then Some node
      else mount_search s node (g_mount_list s))"

section \<open>Files\<close>

definition ramfs_open :: "u64 \<Rightarrow> u32 \<Rightarrow> int" where
  "ramfs_open node flags = (if node = 0 then -1 else 0)"

definition ramfs_close :: "u64 \<Rightarrow> int" where
  "ramfs_close node = (if node = 0 then -1 else 0)"

text \<open>The buffer of the caller is the number of bytes it can take; the bytes stored in it are a result.\<close>

definition ramfs_read :: "u64 \<Rightarrow> u64 \<Rightarrow> u32 \<Rightarrow> nat option \<Rightarrow> fsys \<Rightarrow> (int \<times> u8 list) option" where
  "ramfs_read node offset size_arg buffer s =
     (let n = nodes s node; data = private_data n; d = fdata s data in
      if node = 0 \<or> buffer = None \<or> n_flags n AND VFS_DIRECTORY \<noteq> 0 then Some (-1, [])
      else if data = 0 \<or> d_buffer d = 0 \<or> offset \<ge> n_size n then Some (0, [])
      else let sz = (if offset + ucast size_arg > n_size n then ucast (n_size n - offset) else size_arg); x = fbufs s (d_buffer d) in
        if unat offset + unat sz \<le> length x \<and> unat sz \<le> the buffer then Some (sint sz, take (unat sz) (drop (unat offset) x))
        else None)"

text \<open>Growing the buffer; the result of the first component is false when there is no memory.\<close>

definition ramfs_grow :: "u64 \<Rightarrow> u64 \<Rightarrow> u64 \<Rightarrow> fsys \<Rightarrow> (bool \<times> fsys) option" where
  "ramfs_grow node data end_pos s =
     do {
       let new_cap = (ucast (end_pos + 512) :: u32);
       (new_buf, s1) \<leftarrow> fs_kmalloc (ucast new_cap) s;
       if new_buf = 0 then Some (False, s1)
       else do {
         let old = d_buffer (fdata s1 data);
         let zero = replicate (unat new_cap) 0;
         (x, s2) \<leftarrow> (if old \<noteq> 0 then do {
               x \<leftarrow> memcpy zero (fbufs s1 old) (unat (n_size (nodes s1 node)));
               s2 \<leftarrow> fs_kfree old s1;
               Some (x, s2)
             } else Some (zero, s1));
         Some (True, s2\<lparr>fbufs := (fbufs s2)(new_buf := x), fdata := (fdata s2)(data := \<lparr>d_buffer = new_buf, buffer_cap = new_cap\<rparr>)\<rparr>)
       }
     }"

definition ramfs_write :: "u64 \<Rightarrow> u64 \<Rightarrow> u32 \<Rightarrow> u8 list option \<Rightarrow> fsys \<Rightarrow> (int \<times> fsys) option" where
  "ramfs_write node offset size_arg buffer s =
     (let n = nodes s node; data = private_data n; end_pos = offset + ucast size_arg in
      if node = 0 \<or> buffer = None \<or> n_flags n AND VFS_DIRECTORY \<noteq> 0 then Some (-1, s)
      else if data = 0 then Some (-1, s)
      else do {
        (ok, s1) \<leftarrow> (if end_pos > ucast (buffer_cap (fdata s data)) then ramfs_grow node data end_pos s else Some (True, s));
        if \<not> ok then Some (-2, s1)
        else do {
          let b = d_buffer (fdata s1 data);
          x \<leftarrow> memcpy_at (fbufs s1 b) (unat offset) (the buffer) (unat size_arg);
          let s2 = s1\<lparr>fbufs := (fbufs s1)(b := x)\<rparr>;
          Some (sint size_arg, if end_pos > n_size (nodes s2 node) then upd_node node (n_size_update (\<lambda>_. end_pos)) s2 else s2)
        }
      })"

definition ramfs_flush :: "u64 \<Rightarrow> int" where
  "ramfs_flush node = 0"

section \<open>Directories\<close>

partial_function (option) entry_search :: "fsys \<Rightarrow> u8 list \<Rightarrow> u64 \<Rightarrow> u64 option" where
  "entry_search s name entry =
     (if entry = 0 then Some 0
      else let n = e_node (entries s entry) in do {
        r \<leftarrow> (if n \<noteq> 0 then strcmp (n_name (nodes s n)) name else Some 1);
        if r = 0 then Some n else entry_search s name (e_next (entries s entry))
      })"

definition ramfs_finddir :: "u64 \<Rightarrow> u8 list option \<Rightarrow> fsys \<Rightarrow> u64 option" where
  "ramfs_finddir parent_node name s =
     (if parent_node = 0 \<or> name = None \<or> n_flags (nodes s parent_node) AND VFS_DIRECTORY = 0 then Some 0
      else entry_search s (the name) (private_data (nodes s parent_node)))"

partial_function (option) readdir_loop :: "fsys \<Rightarrow> u32 \<Rightarrow> u32 \<Rightarrow> u64 \<Rightarrow> (int \<times> vfs_node option) option" where
  "readdir_loop s index current_idx entry =
     (if entry = 0 then Some (-1, None)
      else if current_idx = index then Some (0, Some (nodes s (e_node (entries s entry))))
      else readdir_loop s index (current_idx + 1) (e_next (entries s entry)))"

definition ramfs_readdir :: "u64 \<Rightarrow> u32 \<Rightarrow> bool \<Rightarrow> fsys \<Rightarrow> (int \<times> vfs_node option) option" where
  "ramfs_readdir target index out_node s =
     (if target = 0 \<or> \<not> out_node \<or> n_flags (nodes s target) AND VFS_DIRECTORY = 0 then Some (-1, None)
      else readdir_loop s index 0 (private_data (nodes s target)))"

definition ramfs_create_object :: "u64 \<Rightarrow> u8 list option \<Rightarrow> u16 \<Rightarrow> u32 \<Rightarrow> fsys \<Rightarrow> (int \<times> fsys) option" where
  "ramfs_create_object parent_node name perms flags s =
     (if parent_node = 0 \<or> name = None then Some (-1, s)
      else if the name = [] then None
      else if the name ! 0 = 0 then Some (-1, s)
      else do {
        found \<leftarrow> ramfs_finddir parent_node name s;
        if found \<noteq> 0 then Some (-2, s)
        else do {
          (new_node, s1) \<leftarrow> fs_kmalloc SIZEOF_NODE s;
          if new_node = 0 then Some (-3, s1)
          else do {
            x \<leftarrow> strncpy (replicate VFS_NAME_MAX 0) (the name) (VFS_NAME_MAX - 1);
            let s2 = upd_node new_node (\<lambda>_. node0\<lparr>n_name := x[VFS_NAME_MAX - 1 := 0], n_flags := flags, inode := ucast new_node,
              parent_inode := inode (nodes s1 parent_node), permissions := ucast perms, n_ops := Some g_ramfs_ops,
              n_fs := n_fs (nodes s1 parent_node)\<rparr>) s1;
            (fd, s3) \<leftarrow> (if flags = VFS_FILE then fs_kmalloc SIZEOF_FILE_DATA s2 else Some (0, s2));
            if flags = VFS_FILE \<and> fd = 0 then do { s4 \<leftarrow> fs_kfree new_node s3; Some (-3, s4) }
            else do {
              let s4 = (if flags = VFS_FILE then s3\<lparr>fdata := (fdata s3)(fd := \<lparr>d_buffer = 0, buffer_cap = 0\<rparr>)\<rparr> else s3);
              let s5 = upd_node new_node (private_data_update (\<lambda>_. fd)) s4;
              (new_entry, s6) \<leftarrow> fs_kmalloc SIZEOF_ENTRY s5;
              if new_entry = 0 then do {
                s7 \<leftarrow> (if flags = VFS_FILE then fs_kfree fd s6 else Some s6);
                s8 \<leftarrow> fs_kfree new_node s7;
                Some (-3, s8)
              }
              else do {
                let s7 = s6\<lparr>entries := (entries s6)(new_entry := \<lparr>e_node = new_node, e_next = private_data (nodes s6 parent_node)\<rparr>)\<rparr>;
                Some (0, upd_node parent_node (private_data_update (\<lambda>_. new_entry)) s7)
              }
            }
          }
        }
      })"

definition ramfs_mkdir :: "u64 \<Rightarrow> u8 list option \<Rightarrow> u16 \<Rightarrow> fsys \<Rightarrow> (int \<times> fsys) option" where
  "ramfs_mkdir parent_node name perms = ramfs_create_object parent_node name perms VFS_DIRECTORY"

definition ramfs_create :: "u64 \<Rightarrow> u8 list option \<Rightarrow> u16 \<Rightarrow> fsys \<Rightarrow> (int \<times> fsys) option" where
  "ramfs_create parent_node name perms = ramfs_create_object parent_node name perms VFS_FILE"

section \<open>Removal and attributes\<close>

text \<open>The entry with a name and the one in front of it.\<close>

partial_function (option) entry_locate :: "fsys \<Rightarrow> u8 list \<Rightarrow> u64 \<Rightarrow> u64 \<Rightarrow> (u64 \<times> u64) option" where
  "entry_locate s name prev entry =
     (if entry = 0 then Some (prev, 0)
      else let n = e_node (entries s entry) in do {
        r \<leftarrow> (if n \<noteq> 0 then strcmp (n_name (nodes s n)) name else Some 1);
        if r = 0 then Some (prev, entry) else entry_locate s name entry (e_next (entries s entry))
      })"

definition entry_unlink :: "u64 \<Rightarrow> u64 \<Rightarrow> u64 \<Rightarrow> fsys \<Rightarrow> fsys" where
  "entry_unlink parent_node prev entry s =
     (if prev \<noteq> 0 then upd_entry prev (e_next_update (\<lambda>_. e_next (entries s entry))) s
      else upd_node parent_node (private_data_update (\<lambda>_. e_next (entries s entry))) s)"

definition free_file_data :: "u64 \<Rightarrow> fsys \<Rightarrow> fsys option" where
  "free_file_data fd s =
     (if fd = 0 then Some s
      else do {
        s1 \<leftarrow> (if d_buffer (fdata s fd) \<noteq> 0 then fs_kfree (d_buffer (fdata s fd)) s else Some s);
        fs_kfree fd s1
      })"

definition ramfs_remove_object :: "u64 \<Rightarrow> u8 list option \<Rightarrow> u32 \<Rightarrow> fsys \<Rightarrow> (int \<times> fsys) option" where
  "ramfs_remove_object parent_node name expected_flag s =
     (if parent_node = 0 \<or> name = None then Some (-1, s)
      else do {
        (prev, entry) \<leftarrow> entry_locate s (the name) 0 (private_data (nodes s parent_node));
        let n = e_node (entries s entry);
        if entry = 0 then Some (-4, s)
        else if n_flags (nodes s n) \<noteq> expected_flag then Some (-2, s)
        else if expected_flag = VFS_DIRECTORY \<and> private_data (nodes s n) \<noteq> 0 then Some (-3, s)
        else do {
          let s1 = entry_unlink parent_node prev entry s;
          s2 \<leftarrow> (if expected_flag = VFS_FILE then free_file_data (private_data (nodes s1 n)) s1 else Some s1);
          s3 \<leftarrow> fs_kfree n s2;
          s4 \<leftarrow> fs_kfree entry s3;
          Some (0, s4)
        }
      })"

definition ramfs_unlink :: "u64 \<Rightarrow> u8 list option \<Rightarrow> fsys \<Rightarrow> (int \<times> fsys) option" where
  "ramfs_unlink parent_node name = ramfs_remove_object parent_node name VFS_FILE"

definition ramfs_rmdir :: "u64 \<Rightarrow> u8 list option \<Rightarrow> fsys \<Rightarrow> (int \<times> fsys) option" where
  "ramfs_rmdir parent_node name = ramfs_remove_object parent_node name VFS_DIRECTORY"

definition ramfs_stat :: "u64 \<Rightarrow> bool \<Rightarrow> fsys \<Rightarrow> int \<times> vfs_stat option" where
  "ramfs_stat node buf s =
     (let n = nodes s node in
      if node = 0 \<or> \<not> buf then (-1, None)
      else (0, Some \<lparr>st_ino = inode n, st_size = n_size n, st_mode = n_flags n OR permissions n, st_uid = 0, st_gid = 0, st_attr = 0\<rparr>))"

definition ramfs_chmod :: "u64 \<Rightarrow> u16 \<Rightarrow> fsys \<Rightarrow> int \<times> fsys" where
  "ramfs_chmod node mode s =
     (if node = 0 then (-1, s) else (0, upd_node node (permissions_update (\<lambda>_. ucast mode)) s))"

partial_function (option) entry_of_node :: "fsys \<Rightarrow> u64 \<Rightarrow> u64 \<Rightarrow> u64 \<Rightarrow> (u64 \<times> u64) option" where
  "entry_of_node s target prev entry =
     (if entry = 0 then Some (prev, 0)
      else if e_node (entries s entry) = target then Some (prev, entry)
      else entry_of_node s target entry (e_next (entries s entry)))"

definition move_entry :: "u64 \<Rightarrow> u64 \<Rightarrow> u64 \<Rightarrow> fsys \<Rightarrow> fsys option" where
  "move_entry old_dir new_dir target s =
     do {
       (prev, entry) \<leftarrow> entry_of_node s target 0 (private_data (nodes s old_dir));
       Some (if entry = 0 then s
         else let s1 = entry_unlink old_dir prev entry s;
                  s2 = upd_entry entry (e_next_update (\<lambda>_. private_data (nodes s1 new_dir))) s1;
                  s3 = upd_node new_dir (private_data_update (\<lambda>_. entry)) s2 in
              upd_node target (\<lambda>n. n\<lparr>n_fs := n_fs (nodes s3 new_dir), parent_inode := inode (nodes s3 new_dir)\<rparr>) s3)
     }"

definition ramfs_rename :: "u64 \<Rightarrow> u8 list option \<Rightarrow> u64 \<Rightarrow> u8 list option \<Rightarrow> fsys \<Rightarrow> (int \<times> fsys) option" where
  "ramfs_rename old_dir old_name new_dir new_name s =
     (if old_dir = 0 \<or> new_dir = 0 \<or> old_name = None \<or> new_name = None then Some (-1, s)
      else do {
        od \<leftarrow> vfs_resolve_mountpoint old_dir s;
        nd \<leftarrow> vfs_resolve_mountpoint new_dir s;
        target \<leftarrow> ramfs_finddir od old_name s;
        if target = 0 then Some (-2, s)
        else do {
          found \<leftarrow> ramfs_finddir nd new_name s;
          if found \<noteq> 0 then Some (-3, s)
          else do {
            s1 \<leftarrow> (if od \<noteq> nd then move_entry od nd target s else Some s);
            x \<leftarrow> strncpy (n_name (nodes s1 target)) (the new_name) (VFS_NAME_MAX - 1);
            Some (0, upd_node target (n_name_update (\<lambda>_. x[VFS_NAME_MAX - 1 := 0])) s1)
          }
        }
      })"

section \<open>Memory\<close>

abbreviation fptrs :: "fsys \<Rightarrow> u64 set" where
  "fptrs s \<equiv> heap_ptrs (fcr3 s) (heap (fkrn s))"

abbreviation froom :: "nat \<Rightarrow> fsys \<Rightarrow> bool" where
  "froom k s \<equiv> heap_room (fcr3 s) (heap (fkrn s)) k"

lemma fs_kmalloc_spec:
  assumes "froom k s" "0 < unat sz" "unat sz + 5000 < 2 ^ 64" "round16 (unat sz) + 48 \<le> k"
  shows "\<exists>p h. fs_kmalloc sz s = Some (p, set_fheap h s) \<and> p \<noteq> 0 \<and> p \<notin> fptrs s \<and>
    heap_room (fcr3 s) h (k - round16 (unat sz) - 32) \<and> heap_ptrs (fcr3 s) h = insert p (fptrs s)"
  using kmalloc_ptr [OF assms] by (auto simp: fs_kmalloc_def)

lemma fs_kfree_spec:
  assumes "froom k s" "p \<in> fptrs s"
  shows "\<exists>h. fs_kfree p s = Some (set_fheap h s) \<and> heap_room (fcr3 s) h k \<and> heap_ptrs (fcr3 s) h = fptrs s - {p}"
  using kfree_ptr [OF assms] by (auto simp: fs_kfree_def)

section \<open>Objects\<close>

text \<open>The buffer of a file, its contents, and the invariant: what lies behind the contents is zero.\<close>

definition file_buf :: "fsys \<Rightarrow> u64 \<Rightarrow> u8 list" where
  "file_buf s n = (let b = d_buffer (fdata s (private_data (nodes s n))) in if b = 0 then [] else fbufs s b)"

definition content :: "fsys \<Rightarrow> u64 \<Rightarrow> u8 list" where
  "content s n = take (unat (n_size (nodes s n))) (file_buf s n)"

definition file_ok :: "fsys \<Rightarrow> u64 \<Rightarrow> bool" where
  "file_ok s n \<longleftrightarrow> n_flags (nodes s n) = VFS_FILE \<and> private_data (nodes s n) \<noteq> 0 \<and>
     length (file_buf s n) = unat (buffer_cap (fdata s (private_data (nodes s n)))) \<and> unat (n_size (nodes s n)) \<le> length (file_buf s n) \<and>
     drop (unat (n_size (nodes s n))) (file_buf s n) = replicate (length (file_buf s n) - unat (n_size (nodes s n))) 0"

definition write_at :: "nat \<Rightarrow> u8 list \<Rightarrow> u8 list \<Rightarrow> u8 list" where
  "write_at off x c = take off c @ replicate (off - length c) 0 @ x @ drop (off + length x) c"

lemma file_okD:
  assumes "file_ok s n"
  shows "n_flags (nodes s n) = VFS_FILE" "private_data (nodes s n) \<noteq> 0" "length (content s n) = unat (n_size (nodes s n))"
    "file_buf s n = content s n @ replicate (length (file_buf s n) - length (content s n)) 0"
    "length (file_buf s n) = unat (buffer_cap (fdata s (private_data (nodes s n))))" "length (content s n) \<le> length (file_buf s n)"
proof -
  show *: "length (content s n) = unat (n_size (nodes s n))" using assms by (simp add: file_ok_def content_def)
  have "file_buf s n = take (unat (n_size (nodes s n))) (file_buf s n) @ drop (unat (n_size (nodes s n))) (file_buf s n)" by simp
  also have "\<dots> = content s n @ replicate (length (file_buf s n) - length (content s n)) 0"
    using assms by (simp add: file_ok_def * content_def [symmetric])
  finally show "file_buf s n = content s n @ replicate (length (file_buf s n) - length (content s n)) 0" .
  show "n_flags (nodes s n) = VFS_FILE" "private_data (nodes s n) \<noteq> 0"
    "length (file_buf s n) = unat (buffer_cap (fdata s (private_data (nodes s n))))" "length (content s n) \<le> length (file_buf s n)"
    using assms * by (simp_all add: file_ok_def)
qed

text \<open>Storing into the contents that are followed by zeros.\<close>

lemma store_padded:
  assumes "off + length x \<le> length c + m"
  shows "take off (c @ replicate m 0) @ x @ drop (off + length x) (c @ replicate m 0) =
    write_at off x c @ replicate (length c + m - max (length c) (off + length x)) 0"
proof (cases "off + length x \<le> length c")
  case True
  then show ?thesis by (simp add: write_at_def)
next
  case False
  have "off - length c \<le> m" using assms by simp
  then have "take off (c @ replicate m 0) = take off c @ replicate (off - length c) 0" by (simp add: min_def)
  moreover have "drop (off + length x) (c @ replicate m 0) = replicate (length c + m - (off + length x)) 0" using False by simp
  moreover have "drop (off + length x) c = []" using False by simp
  ultimately show ?thesis using False by (simp add: write_at_def max_def)
qed

lemma length_write_at: "length (write_at off x c) = max (length c) (off + length x)"
  by (simp add: write_at_def max_def min_def)

lemma write_at_read: "take (length x) (drop off (write_at off x c)) = x"
  by (simp add: write_at_def min_def)

lemma file_okI:
  assumes "n_flags (nodes s n) = VFS_FILE" "private_data (nodes s n) \<noteq> 0" "file_buf s n = c @ replicate m 0"
    "unat (n_size (nodes s n)) = length c" "unat (buffer_cap (fdata s (private_data (nodes s n)))) = length c + m"
  shows "file_ok s n" "content s n = c"
  using assms by (simp_all add: file_ok_def content_def)

lemma unat_ucast_less: "unat (x :: u64) < 2 ^ 32 \<Longrightarrow> unat (ucast x :: u32) = unat x"
  by (simp add: unsigned_ucast_eq take_bit_nat_eq_self)

lemma unat_ucast_up: "unat (ucast (x :: u32) :: u64) = unat x"
proof -
  have "unat x < 2 ^ 32" using unsigned_less [of x, where 'a = nat] by simp
  then show ?thesis by (simp add: unsigned_ucast_eq take_bit_nat_eq_self)
qed

lemma unat_plus_small:
  fixes x y :: u64
  assumes "unat x + unat y < 2 ^ 64"
  shows "unat (x + y) = unat x + unat y"
  using assms by (simp add: unat_word_ariths)

lemma ramfs_grow_spec:
  assumes f: "file_ok s n" and d: "d = private_data (nodes s n)" "b = d_buffer (fdata s d)" and e: "unat e + 512 < 2 ^ 32" "length (content s n) \<le> unat e"
    and k: "froom k s" "round16 (unat e + 512) + 48 \<le> k" and b: "b \<noteq> 0 \<Longrightarrow> b \<in> fptrs s"
  shows "\<exists>nb h. ramfs_grow n d e s = Some (True, s\<lparr>fkrn := (fkrn s)\<lparr>heap := h\<rparr>,
      fbufs := (fbufs s)(nb := content s n @ replicate (unat e + 512 - length (content s n)) 0),
      fdata := (fdata s)(d := \<lparr>d_buffer = nb, buffer_cap = ucast (e + 512)\<rparr>)\<rparr>) \<and>
    nb \<noteq> 0 \<and> nb \<notin> fptrs s \<and> heap_room (fcr3 s) h (k - round16 (unat e + 512) - 32) \<and>
    heap_ptrs (fcr3 s) h = insert nb (if b = 0 then fptrs s else fptrs s - {b})"
proof -
  note o = file_okD [OF f]
  have u: "unat (e + 512) = unat e + 512" using e(1) unat_plus_small [of e 512] by simp
  let ?cap = "ucast (e + 512) :: u32"
  have c: "unat ?cap = unat e + 512" using unat_ucast_less [of "e + 512"] e(1) u by simp
  then have c': "unat (ucast ?cap :: u64) = unat e + 512" by (simp add: unat_ucast_up)
  have j: "0 < unat (ucast ?cap :: u64)" "unat (ucast ?cap :: u64) + 5000 < 2 ^ 64" "round16 (unat (ucast ?cap :: u64)) + 48 \<le> k"
    unfolding c' using e(1) k(2) by simp_all
  from fs_kmalloc_spec [OF k(1) j] obtain nb h1 where
    m: "fs_kmalloc (ucast ?cap) s = Some (nb, set_fheap h1 s)" "nb \<noteq> 0" "nb \<notin> fptrs s"
      "heap_room (fcr3 s) h1 (k - round16 (unat e + 512) - 32)" "heap_ptrs (fcr3 s) h1 = insert nb (fptrs s)" unfolding c' by blast
  show ?thesis
  proof (cases "b = 0")
    case True
    then have "content s n = []" using d by (simp add: content_def file_buf_def)
    then show ?thesis using m True d
      by (intro exI [of _ nb] exI [of _ h1]) (simp add: ramfs_grow_def Let_def c)
  next
    case False
    have fb: "file_buf s n = fbufs s b" using False d by (simp add: file_buf_def)
    have cp: "memcpy (replicate (unat e + 512) 0) (fbufs s b) (unat (n_size (nodes s n))) =
        Some (content s n @ replicate (unat e + 512 - length (content s n)) 0)"
      using o(3,6) e(2) fb by (simp add: memcpy_eq content_def)
    have r: "heap_room (fcr3 (set_fheap h1 s)) (heap (fkrn (set_fheap h1 s))) (k - round16 (unat e + 512) - 32)" "b \<in> fptrs (set_fheap h1 s)"
      using m(4,5) b False by simp_all
    from fs_kfree_spec [OF r] obtain h where h: "fs_kfree b (set_fheap h1 s) = Some (set_fheap h s)"
      "heap_room (fcr3 s) h (k - round16 (unat e + 512) - 32)" "heap_ptrs (fcr3 s) h = insert nb (fptrs s) - {b}" using m(5) by auto
    have "nb \<noteq> b" using m(3) b False by blast
    then have hp: "heap_ptrs (fcr3 s) h = insert nb (fptrs s - {b})" unfolding h(3) by blast
    have "ramfs_grow n d e s = Some (True, s\<lparr>fkrn := (fkrn s)\<lparr>heap := h\<rparr>,
      fbufs := (fbufs s)(nb := content s n @ replicate (unat e + 512 - length (content s n)) 0),
      fdata := (fdata s)(d := \<lparr>d_buffer = nb, buffer_cap = ?cap\<rparr>)\<rparr>)"
      using m(1,2) False d(2) cp h(1) by (simp add: ramfs_grow_def Let_def c)
    then show ?thesis using m(2,3) h(2) hp False by (intro exI [of _ nb] exI [of _ h]) simp
  qed
qed

text \<open>The last part of a write, when the buffer is large enough.\<close>

lemma ramfs_store_spec:
  assumes f: "file_ok s n" and b: "b = d_buffer (fdata s (private_data (nodes s n)))"
    and e: "unat off + unat sz \<le> length (file_buf s n)" "unat sz \<le> length x"
  shows "\<exists>y siz s'. memcpy_at (fbufs s b) (unat off) x (unat sz) = Some y \<and>
    s' = s\<lparr>nodes := (nodes s)(n := (nodes s n)\<lparr>n_size := siz\<rparr>), fbufs := (fbufs s)(b := y)\<rparr> \<and>
    (let s2 = s\<lparr>fbufs := (fbufs s)(b := y)\<rparr> in
      if off + ucast (sz :: u32) > n_size (nodes s2 n) then upd_node n (n_size_update (\<lambda>_. off + ucast sz)) s2 else s2) = s' \<and>
    file_ok s' n \<and> content s' n = write_at (unat off) (take (unat sz) x) (content s n)"
proof -
  note o = file_okD [OF f]
  let ?c = "content s n" and ?x = "take (unat sz) x" and ?e = "off + ucast sz"
  have cap: "length (file_buf s n) < 2 ^ 32" unfolding o(5) using unsigned_less [of "buffer_cap (fdata s (private_data (nodes s n)))", where 'a = nat] by simp
  have ue: "unat ?e = unat off + unat sz" using unat_plus_small [of off "ucast sz"] e(1) cap by (simp add: unat_ucast_up)
  define siz where "siz = (if ?e > n_size (nodes s n) then ?e else n_size (nodes s n))"
  have us: "unat siz = max (length ?c) (unat off + unat sz)" unfolding siz_def using ue o(3) by (auto simp: word_less_nat_alt max_def)
  define m where "m = length (file_buf s n) - length ?c"
  have fb: "file_buf s n = ?c @ replicate m 0" "length ?c + m = length (file_buf s n)" using o(4,6) unfolding m_def by auto
  have lx: "length ?x = unat sz" using e(2) by simp
  define y where "y = (if b = 0 then fbufs s 0 else take (unat off) (file_buf s n) @ ?x @ drop (unat off + unat sz) (file_buf s n))"
  have cp: "memcpy_at (fbufs s b) (unat off) x (unat sz) = Some y"
  proof (cases "b = 0")
    case True
    then have "unat off = 0" "unat sz = 0" using e(1) b by (simp_all add: file_buf_def)
    then show ?thesis using True by (simp add: memcpy_at_def y_def)
  next
    case False
    then have "fbufs s b = file_buf s n" using b by (simp add: file_buf_def)
    then show ?thesis using memcpy_at_eq [OF e] False by (simp add: y_def)
  qed
  let ?s' = "s\<lparr>nodes := (nodes s)(n := (nodes s n)\<lparr>n_size := siz\<rparr>), fbufs := (fbufs s)(b := y)\<rparr>"
  let ?k = "length ?c + m - max (length ?c) (unat off + unat sz)"
  have fb': "file_buf ?s' n = write_at (unat off) ?x ?c @ replicate ?k 0"
  proof (cases "b = 0")
    case True
    then have "file_buf s n = []" using b by (simp add: file_buf_def)
    then have z: "unat off = 0" "unat sz = 0" "?c = []" "m = 0" using e(1) fb by simp_all
    have "file_buf ?s' n = []" using True b by (simp add: file_buf_def)
    then show ?thesis using z by (simp add: write_at_def)
  next
    case False
    then have "file_buf ?s' n = take (unat off) (?c @ replicate m 0) @ ?x @ drop (unat off + length ?x) (?c @ replicate m 0)"
      using b lx fb(1) by (simp add: file_buf_def y_def)
    also have "\<dots> = write_at (unat off) ?x ?c @ replicate ?k 0" using store_padded [of "unat off" ?x ?c m] e(1) fb(2) lx by simp
    finally show ?thesis .
  qed
  have q: "n_flags (nodes ?s' n) = VFS_FILE" "private_data (nodes ?s' n) \<noteq> 0" "unat (n_size (nodes ?s' n)) = length (write_at (unat off) ?x ?c)"
    using o(1,2) us lx by (simp_all add: length_write_at)
  have cap': "unat (buffer_cap (fdata ?s' (private_data (nodes ?s' n)))) = length (write_at (unat off) ?x ?c) + ?k"
    using o(5) fb(2) e(1) lx by (simp add: length_write_at)
  note g = file_okI [OF q(1,2) fb' q(3) cap']
  have "(let s2 = s\<lparr>fbufs := (fbufs s)(b := y)\<rparr> in
      if off + ucast sz > n_size (nodes s2 n) then upd_node n (n_size_update (\<lambda>_. off + ucast sz)) s2 else s2) = ?s'"
    by (simp add: siz_def Let_def)
  with cp g show ?thesis by (intro exI [of _ y] exI [of _ siz] exI [of _ ?s']) simp
qed

text \<open>The effect of a write on the state: the node, its data and one buffer, which is the old one or fresh.\<close>

lemma ramfs_write_spec:
  assumes f: "file_ok s n" "n \<noteq> 0" and d: "d = private_data (nodes s n)" "b = d_buffer (fdata s d)"
    and e: "unat off + unat sz + 512 < 2 ^ 32" "unat sz \<le> length x"
    and k: "froom k s" "round16 (unat off + unat sz + 512) + 48 \<le> k" and b: "b \<noteq> 0 \<Longrightarrow> b \<in> fptrs s"
  shows "\<exists>b' cap' y siz h s'. ramfs_write n off sz (Some x) s = Some (sint sz, s') \<and>
    s' = s\<lparr>fkrn := (fkrn s)\<lparr>heap := h\<rparr>, nodes := (nodes s)(n := (nodes s n)\<lparr>n_size := siz\<rparr>),
      fdata := (fdata s)(d := \<lparr>d_buffer = b', buffer_cap = cap'\<rparr>), fbufs := (fbufs s)(b' := y)\<rparr> \<and>
    file_ok s' n \<and> content s' n = write_at (unat off) (take (unat sz) x) (content s n) \<and>
    heap_room (fcr3 s) h (k - round16 (unat off + unat sz + 512) - 32) \<and>
    (b' = b \<and> heap_ptrs (fcr3 s) h = fptrs s \<or>
     b' \<noteq> 0 \<and> b' \<notin> fptrs s \<and> heap_ptrs (fcr3 s) h = insert b' (if b = 0 then fptrs s else fptrs s - {b}))"
proof -
  note o = file_okD [OF f(1)]
  let ?e = "off + ucast sz" and ?c = "content s n"
  have ue: "unat ?e = unat off + unat sz" using unat_plus_small [of off "ucast sz"] e(1) by (simp add: unat_ucast_up)
  have g: "n_flags (nodes s n) AND VFS_DIRECTORY = 0" "d \<noteq> 0" using o(1,2) d by simp_all
  have fits: "?e > ucast (buffer_cap (fdata s d)) \<longleftrightarrow> length (file_buf s n) < unat off + unat sz"
    unfolding word_less_nat_alt ue unat_ucast_up o(5) d(1) ..
  show ?thesis
  proof (cases "length (file_buf s n) < unat off + unat sz")
    case False
    have bb: "b = d_buffer (fdata s (private_data (nodes s n)))" using d by simp
    have le: "unat off + unat sz \<le> length (file_buf s n)" using False by simp
    from ramfs_store_spec [OF f(1) bb le e(2)] obtain y siz s' where
      r: "memcpy_at (fbufs s b) (unat off) x (unat sz) = Some y" "s' = s\<lparr>nodes := (nodes s)(n := (nodes s n)\<lparr>n_size := siz\<rparr>), fbufs := (fbufs s)(b := y)\<rparr>"
        "(let s2 = s\<lparr>fbufs := (fbufs s)(b := y)\<rparr> in
          if off + ucast sz > n_size (nodes s2 n) then upd_node n (n_size_update (\<lambda>_. off + ucast sz)) s2 else s2) = s'"
        "file_ok s' n" "content s' n = write_at (unat off) (take (unat sz) x) ?c" by blast
    have "ramfs_write n off sz (Some x) s = Some (sint sz, s')"
      unfolding r(3) [symmetric] ramfs_write_def Let_def using f(2) g False fits r(1) d by simp
    moreover have "s' = s\<lparr>fkrn := (fkrn s)\<lparr>heap := heap (fkrn s)\<rparr>, nodes := (nodes s)(n := (nodes s n)\<lparr>n_size := siz\<rparr>),
      fdata := (fdata s)(d := \<lparr>d_buffer = b, buffer_cap = buffer_cap (fdata s d)\<rparr>), fbufs := (fbufs s)(b := y)\<rparr>"
      unfolding r(2) using d(2) by (simp add: fun_upd_idem)
    moreover have "heap_room (fcr3 s) (heap (fkrn s)) (k - round16 (unat off + unat sz + 512) - 32)" by (rule heap_room_mono [OF k(1)]) simp
    ultimately show ?thesis using r(4,5) by blast
  next
    case True
    have e1: "unat ?e + 512 < 2 ^ 32" "length ?c \<le> unat ?e" "round16 (unat ?e + 512) + 48 \<le> k" using e(1) o(6) True k(2) unfolding ue by simp_all
    from ramfs_grow_spec [OF f(1) d e1(1,2) k(1) e1(3) b] obtain nb h where
      g1: "nb \<noteq> 0" "nb \<notin> fptrs s" "heap_room (fcr3 s) h (k - round16 (unat ?e + 512) - 32)"
        "heap_ptrs (fcr3 s) h = insert nb (if b = 0 then fptrs s else fptrs s - {b})" and
      gr: "ramfs_grow n d ?e s = Some (True, s\<lparr>fkrn := (fkrn s)\<lparr>heap := h\<rparr>,
        fbufs := (fbufs s)(nb := ?c @ replicate (unat ?e + 512 - length ?c) 0),
        fdata := (fdata s)(d := \<lparr>d_buffer = nb, buffer_cap = ucast (?e + 512)\<rparr>)\<rparr>)" by blast
    define s1 where "s1 = s\<lparr>fkrn := (fkrn s)\<lparr>heap := h\<rparr>, fbufs := (fbufs s)(nb := ?c @ replicate (unat ?e + 512 - length ?c) 0),
        fdata := (fdata s)(d := \<lparr>d_buffer = nb, buffer_cap = ucast (?e + 512)\<rparr>)\<rparr>"
    have n1: "nodes s1 = nodes s" "fdata s1 d = \<lparr>d_buffer = nb, buffer_cap = ucast (?e + 512)\<rparr>" by (simp_all add: s1_def)
    have fb: "file_buf s1 n = ?c @ replicate (unat ?e + 512 - length ?c) 0" using g1(1) d by (simp add: file_buf_def s1_def)
    have u: "unat (?e + 512) = unat ?e + 512" using e1(1) unat_plus_small [of ?e 512] by simp
    have q: "n_flags (nodes s1 n) = VFS_FILE" "private_data (nodes s1 n) \<noteq> 0" "unat (n_size (nodes s1 n)) = length ?c"
      "unat (buffer_cap (fdata s1 (private_data (nodes s1 n)))) = length ?c + (unat ?e + 512 - length ?c)"
      using o(1-3) e1 unat_ucast_less [of "?e + 512"] n1(2) d(1) unfolding n1(1) by (simp_all add: u)
    note ok1 = file_okI [OF q(1,2) fb q(3,4)]
    have bb: "nb = d_buffer (fdata s1 (private_data (nodes s1 n)))" using n1 d(1) by simp
    have le: "unat off + unat sz \<le> length (file_buf s1 n)" using fb e1(2) unfolding ue by simp
    from ramfs_store_spec [OF ok1(1) bb le e(2)] obtain y siz s' where
      r: "memcpy_at (fbufs s1 nb) (unat off) x (unat sz) = Some y" "s' = s1\<lparr>nodes := (nodes s1)(n := (nodes s1 n)\<lparr>n_size := siz\<rparr>), fbufs := (fbufs s1)(nb := y)\<rparr>"
        "(let s2 = s1\<lparr>fbufs := (fbufs s1)(nb := y)\<rparr> in
          if off + ucast sz > n_size (nodes s2 n) then upd_node n (n_size_update (\<lambda>_. off + ucast sz)) s2 else s2) = s'"
        "file_ok s' n" "content s' n = write_at (unat off) (take (unat sz) x) ?c" unfolding ok1(2) by blast
    have d1: "d_buffer (fdata s1 d) = nb" by (simp add: n1)
    have "ramfs_write n off sz (Some x) s = Some (sint sz, s')"
      unfolding r(3) [symmetric] ramfs_write_def Let_def using f(2) g True fits gr [folded s1_def] r(1) d(1) d1 by simp
    moreover have "s' = s\<lparr>fkrn := (fkrn s)\<lparr>heap := h\<rparr>, nodes := (nodes s)(n := (nodes s n)\<lparr>n_size := siz\<rparr>),
      fdata := (fdata s)(d := \<lparr>d_buffer = nb, buffer_cap = ucast (?e + 512)\<rparr>), fbufs := (fbufs s)(nb := y)\<rparr>"
      unfolding r(2) by (simp add: s1_def)
    ultimately show ?thesis using r(4,5) g1 unfolding ue by blast
  qed
qed

lemma ramfs_read_spec:
  assumes f: "file_ok s n" "n \<noteq> 0" and z: "unat sz \<le> buf"
  shows "\<exists>k :: u32. ramfs_read n off sz (Some buf) s = Some (sint k, take (unat sz) (drop (unat off) (content s n))) \<and>
    unat k = length (take (unat sz) (drop (unat off) (content s n)))"
proof -
  note o = file_okD [OF f(1)]
  let ?siz = "n_size (nodes s n)" and ?b = "d_buffer (fdata s (private_data (nodes s n)))" and ?c = "content s n"
  have g: "n_flags (nodes s n) AND VFS_DIRECTORY = 0" using o(1) by simp
  show ?thesis
  proof (cases "?b = 0 \<or> off \<ge> ?siz")
    case True
    then have "drop (unat off) ?c = []" using o(3) by (auto simp: content_def file_buf_def word_le_nat_alt)
    then show ?thesis using True f(2) g o(2) by (intro exI [of _ 0]) (auto simp: ramfs_read_def Let_def)
  next
    case False
    then have lt: "unat off < length ?c" using o(3) by (simp add: not_le word_less_nat_alt)
    have x: "fbufs s ?b = file_buf s n" using False by (simp add: file_buf_def)
    have cap: "length (file_buf s n) < 2 ^ 32" unfolding o(5) using unsigned_less [of "buffer_cap (fdata s (private_data (nodes s n)))", where 'a = nat] by simp
    have sz: "unat sz < 2 ^ 32" using unsigned_less [of sz, where 'a = nat] by simp
    have ue: "unat (off + ucast sz) = unat off + unat sz" using unat_plus_small [of off "ucast sz"] lt o(6) cap sz by (simp add: unat_ucast_up)
    have ud: "unat (?siz - off) = length ?c - unat off" using False o(3) unat_sub [of off ?siz] by (simp add: not_le less_imp_le)
    define k where "k = (if off + ucast sz > ?siz then ucast (?siz - off) else sz)"
    have uk: "unat k = min (unat sz) (length ?c - unat off)"
    proof (cases "off + ucast sz > ?siz")
      case True
      then have "length ?c < unat off + unat sz" using ue o(3) by (simp add: word_less_nat_alt)
      moreover have "unat (ucast (?siz - off) :: u32) = length ?c - unat off" using unat_ucast_less [of "?siz - off"] ud o(6) cap by simp
      ultimately show ?thesis using True by (simp add: k_def)
    next
      case False
      then have "unat off + unat sz \<le> length ?c" using ue o(3) by (simp add: not_less word_le_nat_alt)
      with False show ?thesis by (simp add: k_def)
    qed
    have t: "take (unat k) (drop (unat off) (file_buf s n)) = take (unat sz) (drop (unat off) ?c)"
      unfolding uk o(3) unfolding content_def drop_take take_take ..
    have "unat off + unat k \<le> length (file_buf s n)" "unat k \<le> buf" using uk lt o(6) z by simp_all
    then have "ramfs_read n off sz (Some buf) s = Some (sint k, take (unat sz) (drop (unat off) ?c))"
      using False f(2) g o(2) x t by (simp add: ramfs_read_def Let_def k_def [symmetric])
    then show ?thesis using uk by (intro exI [of _ k]) (simp add: min.commute)
  qed
qed

section \<open>Directories\<close>

definition ename :: "fsys \<Rightarrow> u64 \<Rightarrow> u8 list" where
  "ename s e = cstr (n_name (nodes s (e_node (entries s e))))"

definition node_ok :: "fsys \<Rightarrow> u64 \<Rightarrow> bool" where
  "node_ok s n \<longleftrightarrow> n \<noteq> 0 \<and> length (n_name (nodes s n)) = VFS_NAME_MAX \<and> terminated (n_name (nodes s n)) \<and> cstr (n_name (nodes s n)) \<noteq> [] \<and>
     (file_ok s n \<or> n_flags (nodes s n) = VFS_DIRECTORY \<and> private_data (nodes s n) = 0)"

abbreviation entry_chain :: "fsys \<Rightarrow> u64 \<Rightarrow> u64 list \<Rightarrow> bool" where
  "entry_chain s e es \<equiv> chain (\<lambda>e. e_next (entries s e)) e es"

lemma strcmp_entry:
  assumes "node_ok s n" "terminated name"
  shows "strcmp (n_name (nodes s n)) name = Some (if cstr (n_name (nodes s n)) = cstr name then 0 else -1)"
  using assms by (intro strcmp_eq) (simp_all add: node_ok_def)

lemma entry_search_spec:
  assumes "entry_chain s p es" "\<forall>e\<in>set es. node_ok s (e_node (entries s e))" "terminated name"
  shows "entry_search s name p = Some (case List.find (\<lambda>e. ename s e = cstr name) es of Some e \<Rightarrow> e_node (entries s e) | None \<Rightarrow> 0)"
  using assms
proof (induction es arbitrary: p)
  case Nil
  then show ?case by (simp add: entry_search.simps)
next
  case (Cons e es)
  then have n: "node_ok s (e_node (entries s e))" "e_node (entries s e) \<noteq> 0" by (simp_all add: node_ok_def)
  show ?case using Cons strcmp_entry [OF n(1) Cons.prems(3)] n(2) by (subst entry_search.simps) (simp add: Let_def ename_def)
qed

lemma entry_locate_spec:
  assumes "entry_chain s p es" "\<forall>e\<in>set es. node_ok s (e_node (entries s e))" "terminated name"
  shows "(\<exists>xs e ys. es = xs @ e # ys \<and> ename s e = cstr name \<and> cstr name \<notin> ename s ` set xs \<and>
      entry_locate s name q p = Some (if xs = [] then q else last xs, e)) \<or>
    cstr name \<notin> ename s ` set es \<and> (\<exists>q'. entry_locate s name q p = Some (q', 0))"
  using assms
proof (induction es arbitrary: p q)
  case Nil
  then show ?case by (simp add: entry_locate.simps)
next
  case (Cons e es)
  then have n: "node_ok s (e_node (entries s e))" "e_node (entries s e) \<noteq> 0" by (simp_all add: node_ok_def)
  show ?case
  proof (cases "ename s e = cstr name")
    case True
    then have "entry_locate s name q p = Some (q, e)"
      using Cons.prems strcmp_entry [OF n(1) Cons.prems(3)] n(2) by (subst entry_locate.simps) (simp add: Let_def ename_def)
    then show ?thesis using True by (intro disjI1 exI [of _ "[]"]) auto
  next
    case False
    then have l: "entry_locate s name q p = entry_locate s name e (e_next (entries s e))"
      using Cons.prems strcmp_entry [OF n(1) Cons.prems(3)] n(2) by (subst entry_locate.simps) (simp add: Let_def ename_def)
    from Cons.IH [of "e_next (entries s e)" e] Cons.prems
    consider (found) xs x ys where "es = xs @ x # ys" "ename s x = cstr name" "cstr name \<notin> ename s ` set xs"
        "entry_locate s name e (e_next (entries s e)) = Some (if xs = [] then e else last xs, x)"
      | (none) "cstr name \<notin> ename s ` set es" "\<exists>q'. entry_locate s name e (e_next (entries s e)) = Some (q', 0)" by auto
    then show ?thesis
    proof cases
      case found
      then show ?thesis using False l by (intro disjI1 exI [of _ "e # xs"] exI [of _ x] exI [of _ ys]) auto
    next
      case none
      then show ?thesis using False l by auto
    qed
  qed
qed

text \<open>The blocks an entry owns, and the view of an entry.\<close>

definition node_blocks :: "fsys \<Rightarrow> u64 \<Rightarrow> u64 list" where
  "node_blocks s n = n # (if n_flags (nodes s n) = VFS_FILE
     then let d = private_data (nodes s n) in d # (if d_buffer (fdata s d) = 0 then [] else [d_buffer (fdata s d)]) else [])"

abbreviation entry_blocks :: "fsys \<Rightarrow> u64 \<Rightarrow> u64 list" where
  "entry_blocks s e \<equiv> e # node_blocks s (e_node (entries s e))"

datatype obj = File "u8 list" | Dir

definition obj_of :: "fsys \<Rightarrow> u64 \<Rightarrow> obj" where
  "obj_of s n = (if n_flags (nodes s n) = VFS_FILE then File (content s n) else Dir)"

definition same_on :: "u64 set \<Rightarrow> fsys \<Rightarrow> fsys \<Rightarrow> bool" where
  "same_on X s t \<longleftrightarrow> (\<forall>p\<in>X. nodes t p = nodes s p \<and> e_node (entries t p) = e_node (entries s p) \<and> fdata t p = fdata s p \<and> fbufs t p = fbufs s p)"

lemma view_cong:
  assumes "same_on (set (entry_blocks s e)) s t"
  shows "e_node (entries t e) = e_node (entries s e)" "ename t e = ename s e" "obj_of t (e_node (entries t e)) = obj_of s (e_node (entries s e))"
    "node_ok t (e_node (entries t e)) = node_ok s (e_node (entries s e))" "entry_blocks t e = entry_blocks s e"
proof -
  let ?n = "e_node (entries s e)"
  show e: "e_node (entries t e) = ?n" using assms by (simp add: same_on_def)
  have n: "nodes t ?n = nodes s ?n" using assms by (simp add: same_on_def node_blocks_def)
  show "ename t e = ename s e" unfolding ename_def e n ..
  have d: "fdata t (private_data (nodes s ?n)) = fdata s (private_data (nodes s ?n))" if "n_flags (nodes s ?n) = VFS_FILE"
    using assms that by (simp add: same_on_def node_blocks_def Let_def)
  have b: "file_buf t ?n = file_buf s ?n" if "n_flags (nodes s ?n) = VFS_FILE"
    using assms that d by (auto simp: file_buf_def same_on_def node_blocks_def Let_def n)
  show "obj_of t (e_node (entries t e)) = obj_of s ?n" unfolding e obj_of_def n content_def using b by simp
  have "file_ok t ?n = file_ok s ?n" unfolding file_ok_def n using b d by auto
  then show "node_ok t (e_node (entries t e)) = node_ok s ?n" unfolding e node_ok_def n by simp
  show "entry_blocks t e = entry_blocks s e" unfolding e node_blocks_def n using d by (simp add: Let_def)
qed

lemma same_on_mono: "same_on X s t \<Longrightarrow> Y \<subseteq> X \<Longrightarrow> same_on Y s t"
  by (auto simp: same_on_def)

text \<open>A directory with its entries, and the map from names to objects.\<close>

definition dir_blocks :: "fsys \<Rightarrow> u64 list \<Rightarrow> u64 list" where
  "dir_blocks s es = concat (map (entry_blocks s) es)"

definition dir_inv :: "fsys \<Rightarrow> u64 \<Rightarrow> u64 list \<Rightarrow> bool" where
  "dir_inv s p es \<longleftrightarrow> p \<noteq> 0 \<and> n_flags (nodes s p) = VFS_DIRECTORY \<and> entry_chain s (private_data (nodes s p)) es \<and>
     (\<forall>e\<in>set es. node_ok s (e_node (entries s e))) \<and> distinct (map (ename s) es) \<and>
     distinct (p # dir_blocks s es) \<and> set (p # dir_blocks s es) \<subseteq> fptrs s"

definition dir_map :: "fsys \<Rightarrow> u64 list \<Rightarrow> u8 list \<rightharpoonup> obj" where
  "dir_map s es = map_of (map (\<lambda>e. (ename s e, obj_of s (e_node (entries s e)))) es)"

lemma dir_invD:
  assumes "dir_inv s p es"
  shows "p \<noteq> 0" "n_flags (nodes s p) AND VFS_DIRECTORY \<noteq> 0" "entry_chain s (private_data (nodes s p)) es"
    "\<forall>e\<in>set es. node_ok s (e_node (entries s e))" "distinct (map (ename s) es)" "distinct (dir_blocks s es)" "p \<notin> set (dir_blocks s es)"
    "p \<in> fptrs s" "set (dir_blocks s es) \<subseteq> fptrs s" "n_flags (nodes s p) = VFS_DIRECTORY"
  using assms by (simp_all add: dir_inv_def)

lemma dir_blocks_simps [simp]:
  "dir_blocks s [] = []" "dir_blocks s (e # es) = entry_blocks s e @ dir_blocks s es" "dir_blocks s (xs @ ys) = dir_blocks s xs @ dir_blocks s ys"
  by (simp_all add: dir_blocks_def)

lemma entry_in_blocks: "e \<in> set es \<Longrightarrow> set (entry_blocks s e) \<subseteq> set (dir_blocks s es)"
  by (auto simp: dir_blocks_def)

lemma dir_map_None: "dir_map s es x = None \<longleftrightarrow> x \<notin> ename s ` set es"
  by (auto simp: dir_map_def map_of_eq_None_iff image_image)

lemma dir_map_split:
  assumes "distinct (map (ename s) (xs @ e # ys))"
  shows "dir_map s (xs @ e # ys) (ename s e) = Some (obj_of s (e_node (entries s e)))"
    "dir_map s (xs @ ys) = (dir_map s (xs @ e # ys))(ename s e := None)"
proof -
  let ?f = "\<lambda>e. (ename s e, obj_of s (e_node (entries s e)))"
  have x: "map_of (map ?f xs) (ename s e) = None" "map_of (map ?f ys) (ename s e) = None"
    using assms by (auto simp: map_of_eq_None_iff image_image)
  then show "dir_map s (xs @ e # ys) (ename s e) = Some (obj_of s (e_node (entries s e)))" by (simp add: dir_map_def map_add_Some_iff)
  show "dir_map s (xs @ ys) = (dir_map s (xs @ e # ys))(ename s e := None)" using x by (auto simp: dir_map_def map_add_def fun_eq_iff split: option.split)
qed

lemma dir_map_insert:
  assumes "distinct (map (ename s) (xs @ e # ys))"
  shows "dir_map s (xs @ e # ys) = (dir_map s (xs @ ys))(ename s e \<mapsto> obj_of s (e_node (entries s e)))"
  unfolding dir_map_split(2) [OF assms] using dir_map_split(1) [OF assms] by (simp add: fun_upd_idem)

lemma blocks_nonzero:
  assumes "dir_inv s p es"
  shows "0 \<notin> set (dir_blocks s es)"
proof
  assume "0 \<in> set (dir_blocks s es)"
  then obtain e where e: "e \<in> set es" "0 \<in> set (entry_blocks s e)" by (auto simp: dir_blocks_def)
  have "e \<noteq> 0" using chain_nonzero [OF dir_invD(3) [OF assms]] e(1) by auto
  moreover have "node_ok s (e_node (entries s e))" using dir_invD(4) [OF assms] e(1) by blast
  ultimately show False using e(2) by (auto simp: node_blocks_def node_ok_def file_ok_def Let_def split: if_splits)
qed

lemma views_cong:
  assumes "same_on (set (dir_blocks s es)) s t"
  shows "map (ename t) es = map (ename s) es" "dir_map t es = dir_map s es" "dir_blocks t es = dir_blocks s es"
    "(\<forall>e\<in>set es. node_ok t (e_node (entries t e))) = (\<forall>e\<in>set es. node_ok s (e_node (entries s e)))"
proof -
  have v: "same_on (set (entry_blocks s e)) s t" if "e \<in> set es" for e using same_on_mono [OF assms entry_in_blocks [OF that]] .
  note v = view_cong [OF v]
  show "map (ename t) es = map (ename s) es" using v(2) by simp
  show "dir_blocks t es = dir_blocks s es" unfolding dir_blocks_def by (rule arg_cong [where f = concat]) (use v(5) in simp)
  show "(\<forall>e\<in>set es. node_ok t (e_node (entries t e))) = (\<forall>e\<in>set es. node_ok s (e_node (entries s e)))" using v(4) by simp
  have "map (\<lambda>e. (ename t e, obj_of t (e_node (entries t e)))) es = map (\<lambda>e. (ename s e, obj_of s (e_node (entries s e)))) es" using v(2,3) by simp
  then show "dir_map t es = dir_map s es" unfolding dir_map_def by (rule arg_cong)
qed

text \<open>What looking for a name finds.\<close>

lemma dir_lookup:
  assumes i: "dir_inv s p es" and n: "terminated name"
  shows "(\<exists>xs e ys. es = xs @ e # ys \<and> ename s e = cstr name \<and> dir_map s es (cstr name) = Some (obj_of s (e_node (entries s e))) \<and>
      ramfs_finddir p (Some name) s = Some (e_node (entries s e)) \<and> node_ok s (e_node (entries s e)) \<and>
      entry_locate s name 0 (private_data (nodes s p)) = Some (if xs = [] then 0 else last xs, e)) \<or>
    dir_map s es (cstr name) = None \<and> ramfs_finddir p (Some name) s = Some 0 \<and>
    (\<exists>q. entry_locate s name 0 (private_data (nodes s p)) = Some (q, 0))"
proof -
  note d = dir_invD [OF i]
  have f: "ramfs_finddir p (Some name) s = entry_search s name (private_data (nodes s p))" using d(1,2) by (simp add: ramfs_finddir_def)
  note e = entry_search_spec [OF d(3,4) n]
  from entry_locate_spec [OF d(3,4) n, of 0]
  consider (found) xs e ys where "es = xs @ e # ys" "ename s e = cstr name" "cstr name \<notin> ename s ` set xs"
      "entry_locate s name 0 (private_data (nodes s p)) = Some (if xs = [] then 0 else last xs, e)"
    | (none) "cstr name \<notin> ename s ` set es" "\<exists>q. entry_locate s name 0 (private_data (nodes s p)) = Some (q, 0)" by blast
  then show ?thesis
  proof cases
    case found
    have "List.find (\<lambda>e. ename s e = cstr name) xs = None" using found(3) by (force simp: find_None_iff)
    then have "List.find (\<lambda>e. ename s e = cstr name) es = Some e" using found(1,2) by (induction xs arbitrary: es) (auto split: if_splits)
    then have "ramfs_finddir p (Some name) s = Some (e_node (entries s e))" using f e by simp
    moreover have "dir_map s es (cstr name) = Some (obj_of s (e_node (entries s e)))"
      using dir_map_split(1) [OF d(5) [unfolded found(1)]] found(1,2) by simp
    ultimately show ?thesis using found d(4) by auto
  next
    case none
    then have "List.find (\<lambda>e. ename s e = cstr name) es = None" by (force simp: find_None_iff)
    then show ?thesis using none f e by (simp add: dir_map_None)
  qed
qed

section \<open>Creating\<close>

text \<open>A name that can be stored: at most 255 characters, and 255 bytes that can be read.\<close>

definition good_name :: "u8 list \<Rightarrow> bool" where
  "good_name x \<longleftrightarrow> terminated x \<and> cstr x \<noteq> [] \<and> length (cstr x) \<le> 255 \<and> 255 \<le> length x"

lemma cstr_stored: "length (cstr x) \<le> m \<Longrightarrow> cstr (take m x @ [0]) = cstr x"
proof (induction x arbitrary: m)
  case (Cons a x)
  then show ?case by (cases m) (auto split: if_splits)
qed simp

lemma stored_name:
  assumes "good_name x"
  defines "y \<equiv> take 255 x @ [0]"
  shows "strncpy (replicate VFS_NAME_MAX 0) x (VFS_NAME_MAX - 1) = Some y" "y[VFS_NAME_MAX - 1 := 0] = y" "length y = VFS_NAME_MAX" "terminated y" "cstr y = cstr x"
proof -
  have l: "length (take 255 x) = 255" using assms(1) by (simp add: good_name_def)
  show "y[VFS_NAME_MAX - 1 := 0] = y" using list_update_length [of "take 255 x" 0 "[]" 0] unfolding l y_def by simp
qed (use assms(1) strncpy_eq [of 255 "replicate 256 0" x] cstr_stored [of x 255] in \<open>simp_all add: good_name_def y_def\<close>)

definition new_node_of :: "u8 list \<Rightarrow> u16 \<Rightarrow> u32 \<Rightarrow> vfs_node \<Rightarrow> u64 \<Rightarrow> u64 \<Rightarrow> vfs_node" where
  "new_node_of x perms flags dir n d = node0\<lparr>n_name := take 255 x @ [0], n_flags := flags, inode := ucast n, parent_inode := inode dir,
     permissions := ucast perms, n_ops := Some g_ramfs_ops, n_fs := n_fs dir, private_data := d\<rparr>"

lemma create_effect:
  assumes g: "good_name name" "p \<noteq> 0" "p \<in> fptrs s" and fl: "flags = VFS_FILE \<or> flags = VFS_DIRECTORY"
    and k: "froom k s" "480 \<le> k" and new: "ramfs_finddir p (Some name) s = Some 0"
  shows "\<exists>n d e h. ramfs_create_object p (Some name) perms flags s = Some (0, s\<lparr>fkrn := (fkrn s)\<lparr>heap := h\<rparr>,
      nodes := (nodes s)(n := new_node_of name perms flags (nodes s p) n d, p := (nodes s p)\<lparr>private_data := e\<rparr>),
      entries := (entries s)(e := \<lparr>e_node = n, e_next = private_data (nodes s p)\<rparr>),
      fdata := (if flags = VFS_FILE then (fdata s)(d := \<lparr>d_buffer = 0, buffer_cap = 0\<rparr>) else fdata s)\<rparr>) \<and>
    n \<noteq> 0 \<and> e \<noteq> 0 \<and> (if flags = VFS_FILE then d \<noteq> 0 else d = 0) \<and>
    distinct (e # n # (if flags = VFS_FILE then [d] else [])) \<and> set (e # n # (if flags = VFS_FILE then [d] else [])) \<inter> fptrs s = {} \<and>
    heap_ptrs (fcr3 s) h = set (e # n # (if flags = VFS_FILE then [d] else [])) \<union> fptrs s \<and> heap_room (fcr3 s) h (k - 480)"
proof -
  note sn = stored_name [OF g(1)]
  have "cstr name \<noteq> []" using g(1) by (simp add: good_name_def)
  then have n0: "name \<noteq> []" "name ! 0 \<noteq> 0" by (cases name, simp_all split: if_splits)+
  have r: "round16 (unat SIZEOF_NODE) = 336" "round16 (unat SIZEOF_ENTRY) = 16" by (simp_all add: round16_def)
  have j: "0 < unat SIZEOF_NODE" "unat SIZEOF_NODE + 5000 < 2 ^ 64" "0 < unat SIZEOF_ENTRY" "unat SIZEOF_ENTRY + 5000 < 2 ^ 64" by simp_all
  have m1: "round16 (unat SIZEOF_NODE) + 48 \<le> k" using k(2) unfolding r by simp
  from fs_kmalloc_spec [OF k(1) j(1,2) m1] obtain n h1 where
    a: "fs_kmalloc SIZEOF_NODE s = Some (n, set_fheap h1 s)" "n \<noteq> 0" "n \<notin> fptrs s" "heap_room (fcr3 s) h1 (k - 336 - 32)"
      "heap_ptrs (fcr3 s) h1 = insert n (fptrs s)" unfolding r by blast
  have np: "n \<noteq> p" using a(3) g(3) by blast
  let ?nd = "\<lambda>d. new_node_of name perms flags (nodes s p) n d"
  define s2 where "s2 = upd_node n (\<lambda>_. ?nd 0) (set_fheap h1 s)"
  have s2: "upd_node n (\<lambda>_. node0\<lparr>n_name := (take 255 name @ [0])[VFS_NAME_MAX - 1 := 0], n_flags := flags, inode := ucast n,
      parent_inode := inode (nodes (set_fheap h1 s) p), permissions := ucast perms, n_ops := Some g_ramfs_ops,
      n_fs := n_fs (nodes (set_fheap h1 s) p)\<rparr>) (set_fheap h1 s) = s2"
    unfolding sn(2) by (simp add: s2_def new_node_of_def node0_def)
  have h2: "fcr3 s2 = fcr3 s" "heap (fkrn s2) = h1" by (simp_all add: s2_def)
  have m2: "froom (k - 336 - 32) s2" "round16 (unat SIZEOF_ENTRY) + 48 \<le> k - 336 - 32" unfolding h2 r using a(4) k(2) by simp_all
  show ?thesis
  proof (cases "flags = VFS_FILE")
    case True
    from fs_kmalloc_spec [OF m2(1) j(3,4) m2(2)] obtain d h3 where
      b: "fs_kmalloc SIZEOF_FILE_DATA s2 = Some (d, set_fheap h3 s2)" "d \<noteq> 0" "d \<notin> insert n (fptrs s)" "heap_room (fcr3 s) h3 (k - 336 - 32 - 16 - 32)"
        "heap_ptrs (fcr3 s) h3 = insert d (insert n (fptrs s))" unfolding r h2 a(5) by blast
    define s5 where "s5 = (set_fheap h3 s2)\<lparr>fdata := (fdata s2)(d := \<lparr>d_buffer = 0, buffer_cap = 0\<rparr>), nodes := (nodes s2)(n := (nodes s2 n)\<lparr>private_data := d\<rparr>)\<rparr>"
    have m5: "froom (k - 336 - 32 - 16 - 32) s5" "round16 (unat SIZEOF_ENTRY) + 48 \<le> k - 336 - 32 - 16 - 32" unfolding r using b(4) k(2) by (simp_all add: s5_def h2)
    have c5: "fcr3 s5 = fcr3 s" by (simp add: s5_def h2)
    have p5: "fptrs s5 = insert d (insert n (fptrs s))" using b(5) by (simp add: s5_def h2)
    from fs_kmalloc_spec [OF m5(1) j(3,4) m5(2)] obtain e h where
      c: "fs_kmalloc SIZEOF_ENTRY s5 = Some (e, set_fheap h s5)" "e \<noteq> 0" "e \<notin> insert d (insert n (fptrs s))"
        "heap_room (fcr3 s) h (k - 336 - 32 - 16 - 32 - 16 - 32)" "heap_ptrs (fcr3 s) h = insert e (insert d (insert n (fptrs s)))"
      unfolding r p5 unfolding c5 by blast
    have "ramfs_create_object p (Some name) perms flags s = Some (0, upd_node p (private_data_update (\<lambda>_. e))
        ((set_fheap h s5)\<lparr>entries := (entries s5)(e := \<lparr>e_node = n, e_next = private_data (nodes s5 p)\<rparr>)\<rparr>))"
      unfolding ramfs_create_object_def
      using g(2) n0 new a(1,2) sn(1) s2 True b(1,2) c(1,2) by (simp add: Let_def s5_def [symmetric])
    also have "upd_node p (private_data_update (\<lambda>_. e))
        ((set_fheap h s5)\<lparr>entries := (entries s5)(e := \<lparr>e_node = n, e_next = private_data (nodes s5 p)\<rparr>)\<rparr>) = s\<lparr>fkrn := (fkrn s)\<lparr>heap := h\<rparr>,
      nodes := (nodes s)(n := ?nd d, p := (nodes s p)\<lparr>private_data := e\<rparr>),
      entries := (entries s)(e := \<lparr>e_node = n, e_next = private_data (nodes s p)\<rparr>),
      fdata := (fdata s)(d := \<lparr>d_buffer = 0, buffer_cap = 0\<rparr>)\<rparr>" using np by (simp add: s5_def s2_def new_node_of_def fun_upd_twist)
    finally have main: "ramfs_create_object p (Some name) perms flags s = Some (0, \<dots>)" .
    have hr: "heap_room (fcr3 s) h (k - 480)" by (rule heap_room_mono [OF c(4)]) simp
    have hp: "heap_ptrs (fcr3 s) h = set [e, n, d] \<union> fptrs s" unfolding c(5) by auto
    have ds: "distinct [e, n, d]" "set [e, n, d] \<inter> fptrs s = {}" using a(3) b(3) c(3) by auto
    show ?thesis unfolding if_P [OF True]
      by (intro exI [of _ n] exI [of _ d] exI [of _ e] exI [of _ h] conjI) (rule main a(2) b(2) c(2) ds hp hr)+
  next
    case False
    have s5: "(set_fheap h1 s)\<lparr>nodes := (nodes s)(n := node0\<lparr>n_name := (take 255 name @ [0])[VFS_NAME_MAX - 1 := 0], n_flags := flags, inode := ucast n,
      parent_inode := inode (nodes s p), permissions := ucast perms, n_ops := Some g_ramfs_ops, n_fs := n_fs (nodes s p), private_data := 0\<rparr>)\<rparr> = s2"
      unfolding sn(2) by (simp add: s2_def new_node_of_def node0_def)
    from fs_kmalloc_spec [OF m2(1) j(3,4) m2(2)] obtain e h where
      c: "fs_kmalloc SIZEOF_ENTRY s2 = Some (e, set_fheap h s2)" "e \<noteq> 0" "e \<notin> insert n (fptrs s)"
        "heap_room (fcr3 s) h (k - 336 - 32 - 16 - 32)" "heap_ptrs (fcr3 s) h = insert e (insert n (fptrs s))" unfolding r h2 a(5) by blast
    have "ramfs_create_object p (Some name) perms flags s = Some (0, upd_node p (private_data_update (\<lambda>_. e))
        ((set_fheap h s2)\<lparr>entries := (entries s2)(e := \<lparr>e_node = n, e_next = private_data (nodes s2 p)\<rparr>)\<rparr>))"
      unfolding ramfs_create_object_def
      using g(2) n0 new a(1,2) sn(1) False c(1,2) s5 by (simp add: Let_def)
    also have "upd_node p (private_data_update (\<lambda>_. e))
        ((set_fheap h s2)\<lparr>entries := (entries s2)(e := \<lparr>e_node = n, e_next = private_data (nodes s2 p)\<rparr>)\<rparr>) = s\<lparr>fkrn := (fkrn s)\<lparr>heap := h\<rparr>,
      nodes := (nodes s)(n := ?nd 0, p := (nodes s p)\<lparr>private_data := e\<rparr>),
      entries := (entries s)(e := \<lparr>e_node = n, e_next = private_data (nodes s p)\<rparr>), fdata := fdata s\<rparr>" using np by (simp add: s2_def new_node_of_def fun_upd_twist)
    finally have main: "ramfs_create_object p (Some name) perms flags s = Some (0, \<dots>)" .
    have hr: "heap_room (fcr3 s) h (k - 480)" by (rule heap_room_mono [OF c(4)]) simp
    have hp: "heap_ptrs (fcr3 s) h = set [e, n] \<union> fptrs s" unfolding c(5) by auto
    have ds: "distinct [e, n]" "set [e, n] \<inter> fptrs s = {}" using a(3) c(3) by auto
    show ?thesis unfolding if_not_P [OF False]
      by (intro exI [of _ n] exI [of _ 0] exI [of _ e] exI [of _ h] conjI) (rule main a(2) c(2) ds hp hr refl)+
  qed
qed

lemma chain_same: "chain n h xs \<Longrightarrow> (\<And>x. x \<in> set xs \<Longrightarrow> m x = n x) \<Longrightarrow> chain m h xs"
  by (induction xs arbitrary: h) auto

lemma entries_in_blocks: "set es \<subseteq> set (dir_blocks s es)"
  by (auto simp: dir_blocks_def)

lemma create_spec:
  assumes i: "dir_inv s p es" and g: "good_name name" and fl: "flags = VFS_FILE \<or> flags = VFS_DIRECTORY" and k: "froom k s" "480 \<le> k"
    and new: "dir_map s es (cstr name) = None"
  shows "\<exists>e s'. ramfs_create_object p (Some name) perms flags s = Some (0, s') \<and> dir_inv s' p (e # es) \<and>
    dir_map s' (e # es) = (dir_map s es)(cstr name \<mapsto> (if flags = VFS_FILE then File [] else Dir)) \<and> froom (k - 480) s' \<and>
    fptrs s' = set (entry_blocks s' e) \<union> fptrs s \<and> set (entry_blocks s' e) \<inter> fptrs s = {} \<and>
    ename s' e = cstr name \<and> n_flags (nodes s' (e_node (entries s' e))) = flags"
proof -
  note d = dir_invD [OF i]
  have nt: "terminated name" using g by (simp add: good_name_def)
  have "ramfs_finddir p (Some name) s = Some 0" using dir_lookup [OF i nt] new by auto
  from create_effect [OF g d(1,8) fl k this, of perms] obtain n fd e h where
    c: "n \<noteq> 0" "e \<noteq> 0" "if flags = VFS_FILE then fd \<noteq> 0 else fd = 0" "distinct (e # n # (if flags = VFS_FILE then [fd] else []))"
      "set (e # n # (if flags = VFS_FILE then [fd] else [])) \<inter> fptrs s = {}"
      "heap_ptrs (fcr3 s) h = set (e # n # (if flags = VFS_FILE then [fd] else [])) \<union> fptrs s" "heap_room (fcr3 s) h (k - 480)" and
    r: "ramfs_create_object p (Some name) perms flags s = Some (0, s\<lparr>fkrn := (fkrn s)\<lparr>heap := h\<rparr>,
      nodes := (nodes s)(n := new_node_of name perms flags (nodes s p) n fd, p := (nodes s p)\<lparr>private_data := e\<rparr>),
      entries := (entries s)(e := \<lparr>e_node = n, e_next = private_data (nodes s p)\<rparr>),
      fdata := (if flags = VFS_FILE then (fdata s)(fd := \<lparr>d_buffer = 0, buffer_cap = 0\<rparr>) else fdata s)\<rparr>)" by blast
  define s' where "s' = s\<lparr>fkrn := (fkrn s)\<lparr>heap := h\<rparr>,
      nodes := (nodes s)(n := new_node_of name perms flags (nodes s p) n fd, p := (nodes s p)\<lparr>private_data := e\<rparr>),
      entries := (entries s)(e := \<lparr>e_node = n, e_next = private_data (nodes s p)\<rparr>),
      fdata := (if flags = VFS_FILE then (fdata s)(fd := \<lparr>d_buffer = 0, buffer_cap = 0\<rparr>) else fdata s)\<rparr>"
  have fr: "x \<noteq> n" "x \<noteq> e" "flags = VFS_FILE \<Longrightarrow> x \<noteq> fd" if "x \<in> fptrs s" for x using c(5) that by (auto split: if_splits)
  have "same_on (set (dir_blocks s es)) s s'" unfolding same_on_def
  proof
    fix x
    assume x: "x \<in> set (dir_blocks s es)"
    then have "x \<in> fptrs s" "x \<noteq> p" using d(7,9) by auto
    with fr [of x] show "nodes s' x = nodes s x \<and> e_node (entries s' x) = e_node (entries s x) \<and> fdata s' x = fdata s x \<and> fbufs s' x = fbufs s x"
      by (simp add: s'_def)
  qed
  note v = views_cong [OF this]
  have np: "n \<noteq> p" using fr(1) [OF d(8)] by simp
  note sn = stored_name [OF g]
  have nd: "nodes s' n = new_node_of name perms flags (nodes s p) n fd" "e_node (entries s' e) = n" using np by (simp_all add: s'_def)
  have fb: "flags = VFS_FILE \<Longrightarrow> file_buf s' n = []" by (simp add: file_buf_def nd new_node_of_def) (simp add: s'_def)
  have fo: "file_ok s' n" if "flags = VFS_FILE" using fb [OF that] c(3) that by (simp add: file_ok_def nd new_node_of_def node0_def) (simp add: s'_def)
  have ok: "node_ok s' n"
  proof -
    have "n_name (nodes s' n) = take 255 name @ [0]" unfolding nd(1) by (simp add: new_node_of_def)
    moreover have "cstr name \<noteq> []" using g by (simp add: good_name_def)
    moreover have "file_ok s' n \<or> n_flags (nodes s' n) = VFS_DIRECTORY \<and> private_data (nodes s' n) = 0"
      using fl fo c(3) by (cases "flags = VFS_FILE") (simp_all add: nd(1) new_node_of_def)
    ultimately show ?thesis using sn(3-5) c(1) by (simp add: node_ok_def)
  qed
  have nm: "ename s' e = cstr name" unfolding ename_def nd(2) nd(1) using sn(5) by (simp add: new_node_of_def)
  have ob: "obj_of s' n = (if flags = VFS_FILE then File [] else Dir)" using fb by (simp add: obj_of_def content_def nd new_node_of_def)
  have bl: "entry_blocks s' e = e # n # (if flags = VFS_FILE then [fd] else [])"
    unfolding nd(2) by (simp add: node_blocks_def nd(1) new_node_of_def) (simp add: s'_def)
  have ch: "entry_chain s' (private_data (nodes s' p)) (e # es)"
  proof -
    have "entries s' x = entries s x" if "x \<in> set es" for x
      using that entries_in_blocks [of es s] d(9) fr(2) [of x] by (auto simp: s'_def)
    then have "entry_chain s' (private_data (nodes s p)) es" by (intro chain_same [OF d(3)]) simp
    then show ?thesis using c(2) by (simp add: s'_def)
  qed
  have pt: "fptrs s' = heap_ptrs (fcr3 s) h" by (simp add: s'_def)
  have "dir_inv s' p (e # es)" unfolding dir_inv_def
  proof (intro conjI)
    show "p \<noteq> 0" "n_flags (nodes s' p) = VFS_DIRECTORY" using d(1,10) by (simp_all add: s'_def)
    show "entry_chain s' (private_data (nodes s' p)) (e # es)" by (rule ch)
    show "\<forall>x\<in>set (e # es). node_ok s' (e_node (entries s' x))" using ok nd(2) v(4) d(4) by simp
    have "ename s' e \<notin> set (map (ename s) es)" using new unfolding nm dir_map_None by simp
    then show "distinct (map (ename s') (e # es))" unfolding list.map v(1) distinct.simps using d(5) by blast
    show "distinct (p # dir_blocks s' (e # es))" unfolding dir_blocks_simps v(3) bl using c(4,5) d(6-9) fr by (auto split: if_splits)
    show "set (p # dir_blocks s' (e # es)) \<subseteq> fptrs s'" unfolding dir_blocks_simps v(3) bl pt c(6) using d(8,9) by auto
  qed
  moreover have "dir_map s' (e # es) = (dir_map s es)(cstr name \<mapsto> (if flags = VFS_FILE then File [] else Dir))"
    unfolding v(2) [symmetric] by (simp add: dir_map_def nm nd(2) ob)
  moreover have "froom (k - 480) s'" using c(7) by (simp add: s'_def)
  moreover have "fptrs s' = set (entry_blocks s' e) \<union> fptrs s" "set (entry_blocks s' e) \<inter> fptrs s = {}" unfolding bl pt by (rule c(6), rule c(5))
  moreover have "n_flags (nodes s' (e_node (entries s' e))) = flags" unfolding nd(2) by (simp add: nd(1) new_node_of_def)
  ultimately show ?thesis using r nm unfolding s'_def [symmetric] by blast
qed

section \<open>Removing\<close>

lemma free_file_data_spec:
  assumes k: "froom k s" and d: "d \<noteq> 0" "d \<in> fptrs s" and b: "b = d_buffer (fdata s d)" "b \<noteq> 0 \<Longrightarrow> b \<in> fptrs s \<and> b \<noteq> d"
  shows "\<exists>h. free_file_data d s = Some (set_fheap h s) \<and> heap_room (fcr3 s) h k \<and>
    heap_ptrs (fcr3 s) h = fptrs s - set (d # (if b = 0 then [] else [b]))"
proof (cases "b = 0")
  case True
  with fs_kfree_spec [OF k d(2)] d(1) b(1) show ?thesis by (auto simp: free_file_data_def)
next
  case False
  with b(2) have b2: "b \<in> fptrs s" "b \<noteq> d" by auto
  from fs_kfree_spec [OF k b2(1)] obtain h1 where
    h1: "fs_kfree b s = Some (set_fheap h1 s)" "heap_room (fcr3 s) h1 k" "heap_ptrs (fcr3 s) h1 = fptrs s - {b}" by blast
  have m: "froom k (set_fheap h1 s)" "d \<in> fptrs (set_fheap h1 s)" using h1(2,3) d(2) b2(2) by simp_all
  from fs_kfree_spec [OF m] h1(3) obtain h where
    h: "fs_kfree d (set_fheap h1 s) = Some (set_fheap h s)" "heap_room (fcr3 s) h k" "heap_ptrs (fcr3 s) h = fptrs s - {b} - {d}" by auto
  have "heap_ptrs (fcr3 s) h = fptrs s - set [d, b]" unfolding h(3) by auto
  then show ?thesis using h h1(1) False b(1) d(1) by (intro exI [of _ h]) (simp add: free_file_data_def)
qed

lemma free_entry_spec:
  assumes k: "froom k s" and o: "node_ok s n" and e: "distinct (e # node_blocks s n)" "set (e # node_blocks s n) \<subseteq> fptrs s"
  shows "\<exists>h. do {
      s2 \<leftarrow> (if n_flags (nodes s n) = VFS_FILE then free_file_data (private_data (nodes s n)) s else Some s);
      s3 \<leftarrow> fs_kfree n s2;
      fs_kfree e s3 } = Some (set_fheap h s) \<and> heap_room (fcr3 s) h k \<and> heap_ptrs (fcr3 s) h = fptrs s - set (e # node_blocks s n)"
proof -
  let ?d = "private_data (nodes s n)" and ?F = "set (node_blocks s n) - {n}"
  have n: "n \<in> fptrs s" "n \<noteq> e" "e \<in> fptrs s" "e \<notin> ?F" using e by (auto simp: node_blocks_def)
  have "\<exists>h. (if n_flags (nodes s n) = VFS_FILE then free_file_data ?d s else Some s) = Some (set_fheap h s) \<and>
      heap_room (fcr3 s) h k \<and> heap_ptrs (fcr3 s) h = fptrs s - ?F"
  proof (cases "n_flags (nodes s n) = VFS_FILE")
    case True
    then have d0: "?d \<noteq> 0" using o by (auto simp: node_ok_def file_ok_def)
    let ?b = "d_buffer (fdata s ?d)"
    have bl: "node_blocks s n = n # ?d # (if ?b = 0 then [] else [?b])" using True by (simp add: node_blocks_def Let_def)
    have m: "?d \<in> fptrs s" "?b \<noteq> 0 \<Longrightarrow> ?b \<in> fptrs s \<and> ?b \<noteq> ?d" using e unfolding bl by auto
    have F: "?F = set (?d # (if ?b = 0 then [] else [?b]))" using e(1) unfolding bl by (auto split: if_splits)
    show ?thesis using free_file_data_spec [OF k d0 m(1) refl m(2)] True unfolding F by simp
  next
    case False
    then have F: "?F = {}" by (simp add: node_blocks_def)
    show ?thesis using False k unfolding F by (intro exI [of _ "heap (fkrn s)"]) simp
  qed
  then obtain h1 where h1: "(if n_flags (nodes s n) = VFS_FILE then free_file_data ?d s else Some s) = Some (set_fheap h1 s)"
    "heap_room (fcr3 s) h1 k" "heap_ptrs (fcr3 s) h1 = fptrs s - ?F" by blast
  have m1: "froom k (set_fheap h1 s)" "n \<in> fptrs (set_fheap h1 s)" using h1(2,3) n(1) by simp_all
  from fs_kfree_spec [OF m1] h1(3) obtain h2 where
    h2: "fs_kfree n (set_fheap h1 s) = Some (set_fheap h2 s)" "heap_room (fcr3 s) h2 k" "heap_ptrs (fcr3 s) h2 = fptrs s - ?F - {n}" by auto
  have m2: "froom k (set_fheap h2 s)" "e \<in> fptrs (set_fheap h2 s)" using h2(2,3) n by simp_all
  from fs_kfree_spec [OF m2] h2(3) obtain h where
    h: "fs_kfree e (set_fheap h2 s) = Some (set_fheap h s)" "heap_room (fcr3 s) h k" "heap_ptrs (fcr3 s) h = fptrs s - ?F - {n} - {e}" by auto
  have "heap_ptrs (fcr3 s) h = fptrs s - set (e # node_blocks s n)" unfolding h(3) by (auto simp: node_blocks_def)
  then show ?thesis using h1(1) h2(1) h(1,2) by (intro exI [of _ h]) simp
qed

lemma unlink_chain:
  assumes i: "dir_inv s p (xs @ e # ys)" and q: "q = (if xs = [] then 0 else last xs)" and s1: "s1 = entry_unlink p q e s"
  shows "entry_chain s1 (private_data (nodes s1 p)) (xs @ ys)" "same_on (- {p}) s s1"
    "nodes s1 p = (nodes s p)\<lparr>private_data := private_data (nodes s1 p)\<rparr>" "fcr3 s1 = fcr3 s" "fkrn s1 = fkrn s"
proof -
  note d = dir_invD [OF i]
  have dis: "distinct (xs @ e # ys)" using chain_distinct [OF d(3)] .
  have tl: "entry_chain s (e_next (entries s e)) ys" using chain_suffix [OF d(3)] by simp
  show "same_on (- {p}) s s1" "nodes s1 p = (nodes s p)\<lparr>private_data := private_data (nodes s1 p)\<rparr>" "fcr3 s1 = fcr3 s" "fkrn s1 = fkrn s"
    by (simp_all add: s1 entry_unlink_def same_on_def)
  show "entry_chain s1 (private_data (nodes s1 p)) (xs @ ys)"
  proof (cases "xs = []")
    case True
    then show ?thesis using tl q by (simp add: s1 entry_unlink_def)
  next
    case False
    then have x: "xs = butlast xs @ [q]" using q by simp
    have q0: "q \<noteq> 0" using chain_nonzero [OF d(3)] x False q by (metis Un_iff last_in_set set_append)
    let ?n = "\<lambda>x. e_next (entries s x)"
    have "chain ?n (private_data (nodes s p)) (butlast xs @ q # [e] @ ys)" using d(3) x by (metis append.assoc append_Cons append_Nil)
    moreover have "distinct (butlast xs @ q # [e] @ ys)" using dis x by (metis append.assoc append_Cons append_Nil)
    ultimately have "chain (?n(q := e_next (entries s e))) (private_data (nodes s p)) (butlast xs @ q # ys)" using tl by (rule chain_relink)
    moreover have "(\<lambda>x. e_next (entries s1 x)) = ?n(q := e_next (entries s e))" using q0 by (auto simp: s1 entry_unlink_def)
    moreover have "private_data (nodes s1 p) = private_data (nodes s p)" using q0 by (simp add: s1 entry_unlink_def)
    moreover have "butlast xs @ q # ys = xs @ ys" using x by (metis append.assoc append_Cons append_Nil)
    ultimately show ?thesis by simp
  qed
qed

lemma remove_spec:
  assumes i: "dir_inv s p (xs @ e # ys)" and n: "n = e_node (entries s e)" and q: "q = (if xs = [] then 0 else last xs)"
    and l: "entry_locate s name 0 (private_data (nodes s p)) = Some (q, e)" and k: "froom k s" and fl: "n_flags (nodes s n) = flag"
  shows "\<exists>s'. ramfs_remove_object p (Some name) flag s = Some (0, s') \<and> dir_inv s' p (xs @ ys) \<and>
    dir_map s' (xs @ ys) = (dir_map s (xs @ e # ys))(ename s e := None) \<and> froom k s' \<and> fptrs s' = fptrs s - set (entry_blocks s e)"
proof -
  note d = dir_invD [OF i]
  define s1 where "s1 = entry_unlink p q e s"
  note u = unlink_chain [OF i q s1_def]
  have e0: "e \<noteq> 0" using chain_nonzero [OF d(3)] by auto
  have ok: "node_ok s n" using d(4) n by simp
  have np: "n \<noteq> p" using d(7) n by (auto simp: node_blocks_def)
  have n1: "nodes s1 n = nodes s n" using u(2) np by (simp add: same_on_def)
  have eb: "set (entry_blocks s e) \<subseteq> - {p}" using d(7) by auto
  note w = view_cong [OF same_on_mono [OF u(2) eb]]
  have bl: "e # node_blocks s1 n = entry_blocks s e" using w(1,5) n by simp
  have ok1: "node_ok s1 n" using w(1,4) ok n by simp
  have m1: "froom k s1" using k u(4,5) by simp
  have e1: "distinct (e # node_blocks s1 n)" "set (e # node_blocks s1 n) \<subseteq> fptrs s1" unfolding bl u(4,5) using d(6,9) by auto
  from free_entry_spec [OF m1 ok1 e1] obtain h where
    h: "do { s2 \<leftarrow> (if n_flags (nodes s1 n) = VFS_FILE then free_file_data (private_data (nodes s1 n)) s1 else Some s1);
         s3 \<leftarrow> fs_kfree n s2; fs_kfree e s3 } = Some (set_fheap h s1)"
      "heap_room (fcr3 s) h k" "heap_ptrs (fcr3 s) h = fptrs s - set (entry_blocks s e)" unfolding bl u(4,5) by blast
  have "private_data (nodes s n) = 0" if "flag = VFS_DIRECTORY" using ok that fl by (auto simp: node_ok_def file_ok_def)
  then have "ramfs_remove_object p (Some name) flag s = Some (0, set_fheap h s1)"
    using d(1) l e0 fl h(1) n1 by (auto simp: ramfs_remove_object_def Let_def n [symmetric] s1_def [symmetric] bind_eq_Some_conv)
  moreover have sm: "same_on (set (dir_blocks s (xs @ ys))) s (set_fheap h s1)"
    using same_on_mono [OF u(2), of "set (dir_blocks s (xs @ ys))"] d(7) by (auto simp: same_on_def)
  note v = views_cong [OF sm]
  have pt: "fptrs (set_fheap h s1) = fptrs s - set (entry_blocks s e)" using h(3) u(4) by simp
  have "dir_inv (set_fheap h s1) p (xs @ ys)" unfolding dir_inv_def
  proof (intro conjI)
    show "p \<noteq> 0" by (rule d(1))
    show "n_flags (nodes (set_fheap h s1) p) = VFS_DIRECTORY" using d(10) arg_cong [OF u(3), of n_flags] by simp
    show "entry_chain (set_fheap h s1) (private_data (nodes (set_fheap h s1) p)) (xs @ ys)" using u(1) by simp
    show "\<forall>x\<in>set (xs @ ys). node_ok (set_fheap h s1) (e_node (entries (set_fheap h s1) x))" unfolding v(4) using d(4) by simp
    show "distinct (map (ename (set_fheap h s1)) (xs @ ys))" unfolding v(1) using d(5) by simp
    show "distinct (p # dir_blocks (set_fheap h s1) (xs @ ys))" unfolding v(3) using d(6,7) by auto
    show "set (p # dir_blocks (set_fheap h s1) (xs @ ys)) \<subseteq> fptrs (set_fheap h s1)" unfolding v(3) pt using d(6-9) by auto
  qed
  moreover have "dir_map (set_fheap h s1) (xs @ ys) = (dir_map s (xs @ e # ys))(ename s e := None)"
    unfolding v(2) by (rule dir_map_split(2) [OF d(5)])
  moreover have "froom k (set_fheap h s1)" using h(2) u(4) by simp
  ultimately show ?thesis using pt by blast
qed

section \<open>Writing in a directory\<close>

lemma dir_write_spec:
  assumes i: "dir_inv s p (xs @ e # ys)" and n: "n = e_node (entries s e)" and f: "n_flags (nodes s n) = VFS_FILE"
    and b: "unat off + unat sz + 512 < 2 ^ 32" "unat sz \<le> length x" and k: "froom k s" "round16 (unat off + unat sz + 512) + 48 \<le> k"
  shows "\<exists>s'. ramfs_write n off sz (Some x) s = Some (sint sz, s') \<and> dir_inv s' p (xs @ e # ys) \<and>
    dir_map s' (xs @ e # ys) = (dir_map s (xs @ e # ys))(ename s e \<mapsto> File (write_at (unat off) (take (unat sz) x) (content s n))) \<and>
    froom (k - round16 (unat off + unat sz + 512) - 32) s'"
proof -
  note d = dir_invD [OF i]
  have ok: "node_ok s n" using d(4) n by simp
  then have fo: "file_ok s n" "n \<noteq> 0" using f by (auto simp: node_ok_def)
  let ?d = "private_data (nodes s n)" let ?b = "d_buffer (fdata s ?d)"
  have bl: "entry_blocks s e = e # n # ?d # (if ?b = 0 then [] else [?b])" using f n by (simp add: node_blocks_def Let_def)
  have bp: "?b \<noteq> 0 \<Longrightarrow> ?b \<in> fptrs s" using d(9) bl by auto
  from ramfs_write_spec [OF fo refl refl b k bp] obtain b' cap' y siz h s' where
    r: "ramfs_write n off sz (Some x) s = Some (sint sz, s')" "file_ok s' n" "content s' n = write_at (unat off) (take (unat sz) x) (content s n)"
      "heap_room (fcr3 s) h (k - round16 (unat off + unat sz + 512) - 32)"
      "b' = ?b \<and> heap_ptrs (fcr3 s) h = fptrs s \<or> b' \<noteq> 0 \<and> b' \<notin> fptrs s \<and> heap_ptrs (fcr3 s) h = insert b' (if ?b = 0 then fptrs s else fptrs s - {?b})" and
    s': "s' = s\<lparr>fkrn := (fkrn s)\<lparr>heap := h\<rparr>, nodes := (nodes s)(n := (nodes s n)\<lparr>n_size := siz\<rparr>),
      fdata := (fdata s)(?d := \<lparr>d_buffer = b', buffer_cap = cap'\<rparr>), fbufs := (fbufs s)(b' := y)\<rparr>" by blast
  let ?R = "set (dir_blocks s (xs @ ys))"
  have dis: "?R \<inter> set (entry_blocks s e) = {}" using d(6) by auto
  have zR: "0 \<notin> ?R" using blocks_nonzero [OF i] by simp
  have fresh: "b' \<notin> ?R" "b' \<notin> {p, e, n, ?d}"
  proof -
    have c1: "b' = ?b \<or> b' \<notin> fptrs s" using r(5) by blast
    have c2: "?b \<notin> ?R" "?b \<noteq> 0 \<Longrightarrow> ?b \<notin> {p, e, n, ?d}" using dis zR d(6,7) bl by (cases "?b = 0"; auto)+
    have c3: "{p, e, n, ?d} \<union> ?R \<subseteq> fptrs s" "0 \<notin> {p, e, n, ?d}" using d(1,8,9) bl blocks_nonzero [OF i] by auto
    show "b' \<notin> ?R" using c1 c2(1) c3(1) by blast
    show "b' \<notin> {p, e, n, ?d}"
    proof (cases "b' = ?b")
      case True
      then show ?thesis using c2(2) c3(2) by (cases "?b = 0") auto
    qed (use c1 c3(1) in blast)
  qed
  have nR: "n \<notin> ?R" "?d \<notin> ?R" "p \<notin> {e, n, ?d}" using dis bl d(7) by auto
  have "same_on ?R s s'" unfolding same_on_def
  proof
    fix z
    assume "z \<in> ?R"
    then have "z \<noteq> b'" "z \<noteq> n" "z \<noteq> ?d" using fresh(1) nR(1,2) by blast+
    then show "nodes s' z = nodes s z \<and> e_node (entries s' z) = e_node (entries s z) \<and> fdata s' z = fdata s z \<and> fbufs s' z = fbufs s z" by (simp add: s')
  qed
  note v = views_cong [OF this]
  have nd: "nodes s' n = (nodes s n)\<lparr>n_size := siz\<rparr>" "entries s' = entries s" "nodes s' p = nodes s p" "fdata s' ?d = \<lparr>d_buffer = b', buffer_cap = cap'\<rparr>"
    using nR(3) by (simp_all add: s')
  have e': "e_node (entries s' e) = n" "ename s' e = ename s e" unfolding ename_def nd(2) n [symmetric] nd(1) by simp_all
  have ob: "obj_of s' n = File (write_at (unat off) (take (unat sz) x) (content s n))" using f r(3) by (simp add: obj_of_def nd(1))
  have ok': "node_ok s' n" using ok r(2) by (simp add: node_ok_def nd(1))
  have bl': "entry_blocks s' e = e # n # ?d # (if b' = 0 then [] else [b'])" unfolding e'(1) using f nd(4) by (simp add: node_blocks_def nd(1) Let_def)
  have blx: "dir_blocks s' xs = dir_blocks s xs" "dir_blocks s' ys = dir_blocks s ys"
    using views_cong(3) [OF same_on_mono [OF \<open>same_on ?R s s'\<close>]] by auto
  have nm: "map (ename s') (xs @ e # ys) = map (ename s) (xs @ e # ys)" using v(1) e'(2) by simp
  have pt: "fptrs s' = heap_ptrs (fcr3 s) h" by (simp add: s')
  have old: "?b \<noteq> 0 \<Longrightarrow> ?b \<notin> ?R \<union> {p, e, n, ?d}" using dis d(6,7) bl by auto
  have "dir_inv s' p (xs @ e # ys)" unfolding dir_inv_def
  proof (intro conjI)
    show "p \<noteq> 0" by (rule d(1))
    show "n_flags (nodes s' p) = VFS_DIRECTORY" unfolding nd(3) by (rule d(10))
    show "entry_chain s' (private_data (nodes s' p)) (xs @ e # ys)" unfolding nd(2,3) by (rule d(3))
    show "\<forall>z\<in>set (xs @ e # ys). node_ok s' (e_node (entries s' z))" using v(4) d(4) ok' e'(1) by auto
    show "distinct (map (ename s') (xs @ e # ys))" unfolding nm by (rule d(5))
    show "distinct (p # dir_blocks s' (xs @ e # ys))"
      unfolding dir_blocks_simps blx bl' using fresh d(6,7) bl by auto
    show "set (p # dir_blocks s' (xs @ e # ys)) \<subseteq> fptrs s'"
      unfolding dir_blocks_simps blx bl' pt using r(5) old d(8,9) bl by (auto split: if_splits)
  qed
  moreover have "dir_map s' (xs @ e # ys) = (dir_map s (xs @ e # ys))(ename s e \<mapsto> File (write_at (unat off) (take (unat sz) x) (content s n)))"
    using dir_map_insert [of s' xs e ys] dir_map_insert [OF d(5)] d(5) unfolding nm v(2) e' ob by simp
  moreover have "froom (k - round16 (unat off + unat sz + 512) - 32) s'" using r(4) by (simp add: s')
  ultimately show ?thesis using r(1) by blast
qed

section \<open>Renaming in a directory\<close>

lemma dir_rename_spec:
  assumes i: "dir_inv s p (xs @ e # ys)" and n: "n = e_node (entries s e)" and g: "good_name y" and new: "dir_map s (xs @ e # ys) (cstr y) = None"
    and f: "ramfs_finddir p (Some x) s = Some n" "ramfs_finddir p (Some y) s = Some 0"
  shows "\<exists>s'. ramfs_rename p (Some x) p (Some y) s = Some (0, s') \<and> dir_inv s' p (xs @ e # ys) \<and>
    dir_map s' (xs @ e # ys) = (dir_map s (xs @ e # ys))(ename s e := None, cstr y \<mapsto> obj_of s n) \<and> fkrn s' = fkrn s \<and> fcr3 s' = fcr3 s"
proof -
  note d = dir_invD [OF i] and sn = stored_name [OF g]
  have ok: "node_ok s n" using d(4) n by simp
  then have n0: "n \<noteq> 0" "length (n_name (nodes s n)) = 256" by (simp_all add: node_ok_def)
  define s' where "s' = upd_node n (n_name_update (\<lambda>_. take 255 y @ [0])) s"
  have mp: "vfs_resolve_mountpoint p s = Some p" using d(10) by (simp add: vfs_resolve_mountpoint_def)
  have "255 \<le> length y" using g by (simp add: good_name_def)
  then have "strncpy (n_name (nodes s n)) y (VFS_NAME_MAX - 1) = Some (take 255 y @ [0])" using strncpy_eq [of 255 "n_name (nodes s n)" y] n0(2) by simp
  then have r: "ramfs_rename p (Some x) p (Some y) s = Some (0, s')"
    using d(1) mp f n0(1) sn(2) by (simp add: ramfs_rename_def s'_def)
  let ?R = "set (dir_blocks s (xs @ ys))"
  have nR: "n \<notin> ?R" "n \<noteq> p" using d(6,7) n by (auto simp: node_blocks_def)
  have sm: "same_on ?R s s'" using nR(1) unfolding same_on_def s'_def by auto
  note v = views_cong [OF sm]
  have nd: "nodes s' n = (nodes s n)\<lparr>n_name := take 255 y @ [0]\<rparr>" "entries s' = entries s" "nodes s' p = nodes s p" "fdata s' = fdata s" "fbufs s' = fbufs s"
    using nR(2) by (simp_all add: s'_def)
  have fb: "file_buf s' n = file_buf s n" by (simp add: file_buf_def nd Let_def)
  have e': "e_node (entries s' e) = n" "ename s' e = cstr y" unfolding ename_def nd(2) n [symmetric] nd(1) using sn(5) by simp_all
  have ob: "obj_of s' n = obj_of s n" by (simp add: obj_of_def content_def fb nd(1))
  have fo: "file_ok s' n = file_ok s n" by (simp add: file_ok_def fb nd Let_def)
  have ok': "node_ok s' n" using ok sn(3-5) g fo by (simp add: node_ok_def nd(1) good_name_def)
  have bl: "entry_blocks s' e = entry_blocks s e" unfolding e'(1) n [symmetric] by (simp add: node_blocks_def nd(1,4) Let_def)
  have blx: "dir_blocks s' xs = dir_blocks s xs" "dir_blocks s' ys = dir_blocks s ys" using views_cong(3) [OF same_on_mono [OF sm]] by auto
  have y: "cstr y \<notin> set (map (ename s) (xs @ ys))" using new unfolding dir_map_None by auto
  have nm: "map (ename s') xs = map (ename s) xs" "map (ename s') ys = map (ename s) ys" using v(1) by simp_all
  have dn: "distinct (map (ename s') (xs @ e # ys))" unfolding map_append list.map nm e'(2) using y d(5) by auto
  have "dir_inv s' p (xs @ e # ys)" unfolding dir_inv_def
  proof (intro conjI)
    show "p \<noteq> 0" by (rule d(1))
    show "n_flags (nodes s' p) = VFS_DIRECTORY" unfolding nd(3) by (rule d(10))
    show "entry_chain s' (private_data (nodes s' p)) (xs @ e # ys)" unfolding nd(2,3) by (rule d(3))
    show "\<forall>z\<in>set (xs @ e # ys). node_ok s' (e_node (entries s' z))" using v(4) d(4) ok' e'(1) by auto
    show "distinct (map (ename s') (xs @ e # ys))" by (rule dn)
    show "distinct (p # dir_blocks s' (xs @ e # ys))" unfolding dir_blocks_simps blx bl using d(6,7) by simp
    show "set (p # dir_blocks s' (xs @ e # ys)) \<subseteq> fptrs s'" unfolding dir_blocks_simps blx bl using d(8,9) by (simp add: s'_def)
  qed
  moreover have "dir_map s' (xs @ e # ys) = (dir_map s (xs @ e # ys))(ename s e := None, cstr y \<mapsto> obj_of s n)"
    unfolding dir_map_insert [OF dn] e' ob v(2) dir_map_split(2) [OF d(5)] ..
  ultimately show ?thesis using r by (intro exI [of _ s']) (simp add: s'_def)
qed

section \<open>The contract of a directory\<close>

text \<open>Operations on the objects of one directory, by name.\<close>

datatype fs_op = Create "u8 list" | Mkdir "u8 list" | Unlink "u8 list" | Rmdir "u8 list" | Write "u8 list" u64 "u8 list" | Read "u8 list" u64 u32 | Rename "u8 list" "u8 list"

fun op_names :: "fs_op \<Rightarrow> u8 list set" where
  "op_names (Create x) = {cstr x}"
| "op_names (Mkdir x) = {cstr x}"
| "op_names (Unlink x) = {cstr x}"
| "op_names (Rmdir x) = {cstr x}"
| "op_names (Write x off d) = {cstr x}"
| "op_names (Read x off n) = {cstr x}"
| "op_names (Rename x y) = {cstr x, cstr y}"

text \<open>The specification: a map from names to objects.\<close>

fun fs_spec :: "fs_op \<Rightarrow> (u8 list \<rightharpoonup> obj) \<Rightarrow> (int \<times> u8 list) \<times> (u8 list \<rightharpoonup> obj)" where
  "fs_spec (Create x) m = (if m (cstr x) = None then ((0, []), m(cstr x \<mapsto> File [])) else ((-2, []), m))"
| "fs_spec (Mkdir x) m = (if m (cstr x) = None then ((0, []), m(cstr x \<mapsto> Dir)) else ((-2, []), m))"
| "fs_spec (Unlink x) m = (case m (cstr x) of Some (File c) \<Rightarrow> ((0, []), m(cstr x := None)) | Some Dir \<Rightarrow> ((-2, []), m) | None \<Rightarrow> ((-4, []), m))"
| "fs_spec (Rmdir x) m = (case m (cstr x) of Some Dir \<Rightarrow> ((0, []), m(cstr x := None)) | Some (File c) \<Rightarrow> ((-2, []), m) | None \<Rightarrow> ((-4, []), m))"
| "fs_spec (Write x off d) m =
     (case m (cstr x) of Some (File c) \<Rightarrow> ((int (length d), []), m(cstr x \<mapsto> File (write_at (unat off) d c))) | _ \<Rightarrow> ((-1, []), m))"
| "fs_spec (Read x off n) m =
     (case m (cstr x) of Some (File c) \<Rightarrow> (let y = take (unat n) (drop (unat off) c) in ((int (length y), y), m)) | _ \<Rightarrow> ((-1, []), m))"
| "fs_spec (Rename x y) m =
     (case m (cstr x) of None \<Rightarrow> ((-2, []), m)
      | Some c \<Rightarrow> if m (cstr y) = None then ((0, []), m(cstr x := None, cstr y \<mapsto> c)) else ((-3, []), m))"

fun valid_op :: "fs_op \<Rightarrow> bool" where
  "valid_op (Write x off d) \<longleftrightarrow> good_name x \<and> unat off + length d + 512 < 2 ^ 31"
| "valid_op (Read x off n) \<longleftrightarrow> good_name x \<and> unat n < 2 ^ 31"
| "valid_op (Create x) \<longleftrightarrow> good_name x"
| "valid_op (Mkdir x) \<longleftrightarrow> good_name x"
| "valid_op (Unlink x) \<longleftrightarrow> good_name x"
| "valid_op (Rmdir x) \<longleftrightarrow> good_name x"
| "valid_op (Rename x y) \<longleftrightarrow> good_name x \<and> good_name y"

text \<open>The memory an operation may take.\<close>

fun op_cost :: "fs_op \<Rightarrow> nat" where
  "op_cost (Create x) = 480"
| "op_cost (Mkdir x) = 480"
| "op_cost (Write x off d) = unat off + length d + 592"
| "op_cost _ = 0"

fun run_spec :: "fs_op list \<Rightarrow> (u8 list \<rightharpoonup> obj) \<Rightarrow> (int \<times> u8 list) list \<times> (u8 list \<rightharpoonup> obj)" where
  "run_spec [] m = ([], m)"
| "run_spec (a # as) m = (let (r, m1) = fs_spec a m; (rs, m2) = run_spec as m1 in (r # rs, m2))"

fun run_ops :: "(fs_op \<Rightarrow> 's \<Rightarrow> ((int \<times> u8 list) \<times> 's) option) \<Rightarrow> fs_op list \<Rightarrow> 's \<Rightarrow> ((int \<times> u8 list) list \<times> 's) option" where
  "run_ops f [] s = Some ([], s)"
| "run_ops f (a # as) s = do { (r, s1) \<leftarrow> f a s; (rs, s2) \<leftarrow> run_ops f as s1; Some (r # rs, s2) }"

lemma spec_other: "x \<notin> op_names a \<Longrightarrow> snd (fs_spec a m) x = m x"
  by (cases a) (auto split: option.split obj.split simp: Let_def)

lemma run_spec_other: "x \<notin> \<Union> (op_names ` set as) \<Longrightarrow> snd (run_spec as m) x = m x"
  by (induction as arbitrary: m) (auto simp: case_prod_unfold Let_def spec_other)

locale directory_service =
  fixes rel :: "nat \<Rightarrow> 's \<Rightarrow> (u8 list \<rightharpoonup> obj) \<Rightarrow> bool"
    and exec :: "fs_op \<Rightarrow> 's \<Rightarrow> ((int \<times> u8 list) \<times> 's) option"
  assumes exec_ok: "rel k s m \<Longrightarrow> valid_op a \<Longrightarrow> op_cost a \<le> k \<Longrightarrow>
    \<exists>s'. exec a s = Some (fst (fs_spec a m), s') \<and> rel (k - op_cost a) s' (snd (fs_spec a m))"
begin

lemma run_refines:
  assumes "rel k s m" "\<forall>a\<in>set as. valid_op a" "sum_list (map op_cost as) \<le> k"
  shows "\<exists>s'. run_ops exec as s = Some (fst (run_spec as m), s') \<and> rel (k - sum_list (map op_cost as)) s' (snd (run_spec as m))"
  using assms
proof (induction as arbitrary: k s m)
  case (Cons a as)
  then obtain s1 where s1: "exec a s = Some (fst (fs_spec a m), s1)" "rel (k - op_cost a) s1 (snd (fs_spec a m))"
    using exec_ok [of k s m a] by auto
  have "\<forall>a\<in>set as. valid_op a" "sum_list (map op_cost as) \<le> k - op_cost a" using Cons.prems by auto
  from Cons.IH [OF s1(2) this] obtain s' where
    "run_ops exec as s1 = Some (fst (run_spec as (snd (fs_spec a m))), s')"
    "rel (k - op_cost a - sum_list (map op_cost as)) s' (snd (run_spec as (snd (fs_spec a m))))" by blast
  with s1(1) show ?case by (auto simp: case_prod_unfold Let_def)
qed simp

lemma read_back:
  assumes r: "rel k s m" and f: "m (cstr x) = Some (File c)" and o: "cstr x \<notin> \<Union> (op_names ` set as)"
    and v: "\<forall>a\<in>set as. valid_op a" "valid_op (Write x off d)" and k: "sum_list (map op_cost (Write x off d # as)) \<le> k"
  shows "\<exists>s' rs. run_ops exec (Write x off d # as @ [Read x off (of_nat (length d))]) s = Some ((int (length d), []) # rs @ [(int (length d), d)], s')"
proof -
  let ?as = "Write x off d # as @ [Read x off (of_nat (length d))]"
  have n: "unat (of_nat (length d) :: u32) = length d" using v(2) by (simp add: unat_of_nat_id)
  have "\<forall>a\<in>set ?as. valid_op a" using v n by auto
  moreover have "sum_list (map op_cost ?as) \<le> k" using k by simp
  ultimately obtain s' where s': "run_ops exec ?as s = Some (fst (run_spec ?as m), s')" using run_refines [OF r] by blast
  let ?m1 = "m(cstr x \<mapsto> File (write_at (unat off) d c))"
  have split: "fst (run_spec (bs @ [b]) m') = fst (run_spec bs m') @ [fst (fs_spec b (snd (run_spec bs m')))]" for bs b m'
    by (induction bs arbitrary: m') (auto simp: case_prod_unfold Let_def)
  have "snd (run_spec as ?m1) (cstr x) = Some (File (write_at (unat off) d c))" using run_spec_other [OF o, of ?m1] by simp
  then have "fst (fs_spec (Read x off (of_nat (length d))) (snd (run_spec as ?m1))) = (int (length d), d)"
    by (simp add: n write_at_read Let_def)
  then have "fst (run_spec ?as m) = (int (length d), []) # fst (run_spec as ?m1) @ [(int (length d), d)]"
    using f split [of as _ ?m1] by (simp add: case_prod_unfold Let_def)
  with s' show ?thesis by metis
qed

end

section \<open>The memory file system provides it\<close>

fun fs_exec :: "u64 \<Rightarrow> fs_op \<Rightarrow> fsys \<Rightarrow> ((int \<times> u8 list) \<times> fsys) option" where
  "fs_exec p (Create x) s = do { (r, t) \<leftarrow> ramfs_create p (Some x) 420 s; Some ((r, []), t) }"
| "fs_exec p (Mkdir x) s = do { (r, t) \<leftarrow> ramfs_mkdir p (Some x) 420 s; Some ((r, []), t) }"
| "fs_exec p (Unlink x) s = do { (r, t) \<leftarrow> ramfs_unlink p (Some x) s; Some ((r, []), t) }"
| "fs_exec p (Rmdir x) s = do { (r, t) \<leftarrow> ramfs_rmdir p (Some x) s; Some ((r, []), t) }"
| "fs_exec p (Write x off d) s =
     do { n \<leftarrow> ramfs_finddir p (Some x) s; (r, t) \<leftarrow> ramfs_write n off (of_nat (length d)) (Some d) s; Some ((r, []), t) }"
| "fs_exec p (Read x off k) s =
     do { n \<leftarrow> ramfs_finddir p (Some x) s; (r, y) \<leftarrow> ramfs_read n off k (Some (unat k)) s; Some ((r, y), s) }"
| "fs_exec p (Rename x y) s = do { (r, t) \<leftarrow> ramfs_rename p (Some x) p (Some y) s; Some ((r, []), t) }"

definition dir_rel :: "u64 \<Rightarrow> nat \<Rightarrow> fsys \<Rightarrow> (u8 list \<rightharpoonup> obj) \<Rightarrow> bool" where
  "dir_rel p k s m \<longleftrightarrow> froom k s \<and> (\<exists>es. dir_inv s p es \<and> dir_map s es = m)"

lemma dir_rel_mono: "dir_rel p k s m \<Longrightarrow> j \<le> k \<Longrightarrow> dir_rel p j s m"
  unfolding dir_rel_def using heap_room_mono by blast

lemma dir_rel_lookup:
  assumes "dir_rel p k s m" "terminated x"
  obtains (found) xs e ys where "froom k s" "dir_inv s p (xs @ e # ys)" "m = dir_map s (xs @ e # ys)" "ename s e = cstr x"
      "m (cstr x) = Some (obj_of s (e_node (entries s e)))" "ramfs_finddir p (Some x) s = Some (e_node (entries s e))"
      "node_ok s (e_node (entries s e))" "entry_locate s x 0 (private_data (nodes s p)) = Some (if xs = [] then 0 else last xs, e)"
  | (none) es q where "froom k s" "dir_inv s p es" "m = dir_map s es" "m (cstr x) = None" "ramfs_finddir p (Some x) s = Some 0"
      "entry_locate s x 0 (private_data (nodes s p)) = Some (q, 0)"
proof -
  from assms(1) obtain es where es: "froom k s" "dir_inv s p es" "dir_map s es = m" by (auto simp: dir_rel_def)
  from dir_lookup [OF es(2) assms(2)] show thesis using that es by blast
qed

lemma create_object_rel:
  assumes r: "dir_rel p k s m" and g: "good_name x" and fl: "flags = VFS_FILE \<or> flags = VFS_DIRECTORY" and k: "480 \<le> k"
  shows "\<exists>s'. ramfs_create_object p (Some x) perms flags s = Some (if m (cstr x) = None then 0 else -2, s') \<and>
    dir_rel p (k - 480) s' (if m (cstr x) = None then m(cstr x \<mapsto> (if flags = VFS_FILE then File [] else Dir)) else m)"
proof -
  have nt: "terminated x" "cstr x \<noteq> []" using g by (simp_all add: good_name_def)
  from r nt(1) show ?thesis
  proof (cases rule: dir_rel_lookup)
    case (found xs e ys)
    have "x \<noteq> []" "x ! 0 \<noteq> 0" using nt(2) by (cases x, simp_all split: if_splits)+
    moreover have "e_node (entries s e) \<noteq> 0" "p \<noteq> 0" using found(7) dir_invD(1) [OF found(2)] by (simp_all add: node_ok_def)
    ultimately have "ramfs_create_object p (Some x) perms flags s = Some (-2, s)" using found(6) by (simp add: ramfs_create_object_def)
    then show ?thesis using dir_rel_mono [OF r, of "k - 480"] found(5) by simp
  next
    case (none es q)
    then have "dir_map s es (cstr x) = None" by simp
    from create_spec [OF none(2) g fl none(1) k this, of perms] none(3,4) show ?thesis unfolding dir_rel_def by fastforce
  qed
qed

lemma remove_object_rel:
  assumes r: "dir_rel p k s m" and t: "terminated x"
  shows "\<exists>s'. ramfs_remove_object p (Some x) VFS_FILE s =
      Some (case m (cstr x) of None \<Rightarrow> -4 | Some (File c) \<Rightarrow> 0 | Some Dir \<Rightarrow> -2, s') \<and>
      dir_rel p k s' (case m (cstr x) of Some (File c) \<Rightarrow> m(cstr x := None) | _ \<Rightarrow> m)"
    "\<exists>s'. ramfs_remove_object p (Some x) VFS_DIRECTORY s =
      Some (case m (cstr x) of None \<Rightarrow> -4 | Some (File c) \<Rightarrow> -2 | Some Dir \<Rightarrow> 0, s') \<and>
      dir_rel p k s' (case m (cstr x) of Some Dir \<Rightarrow> m(cstr x := None) | _ \<Rightarrow> m)"
proof -
  have "(\<exists>s'. ramfs_remove_object p (Some x) VFS_FILE s =
      Some (case m (cstr x) of None \<Rightarrow> -4 | Some (File c) \<Rightarrow> 0 | Some Dir \<Rightarrow> -2, s') \<and>
      dir_rel p k s' (case m (cstr x) of Some (File c) \<Rightarrow> m(cstr x := None) | _ \<Rightarrow> m)) \<and>
    (\<exists>s'. ramfs_remove_object p (Some x) VFS_DIRECTORY s =
      Some (case m (cstr x) of None \<Rightarrow> -4 | Some (File c) \<Rightarrow> -2 | Some Dir \<Rightarrow> 0, s') \<and>
      dir_rel p k s' (case m (cstr x) of Some Dir \<Rightarrow> m(cstr x := None) | _ \<Rightarrow> m))"
    using r t
  proof (cases rule: dir_rel_lookup)
    case (found xs e ys)
    let ?n = "e_node (entries s e)"
    have p0: "p \<noteq> 0" "e \<noteq> 0" using dir_invD(1,3) [OF found(2)] chain_nonzero by fastforce+
    have flags: "n_flags (nodes s ?n) = VFS_FILE \<or> n_flags (nodes s ?n) = VFS_DIRECTORY" using found(7) by (auto simp: node_ok_def file_ok_def)
    have wrong: "ramfs_remove_object p (Some x) flag s = Some (-2, s)" if "n_flags (nodes s ?n) \<noteq> flag" for flag
      using that p0 found(8) by (simp add: ramfs_remove_object_def)
    from remove_spec [OF found(2) refl refl found(8,1) refl] obtain s' where
      s': "ramfs_remove_object p (Some x) (n_flags (nodes s ?n)) s = Some (0, s')" "dir_inv s' p (xs @ ys)"
        "dir_map s' (xs @ ys) = m(cstr x := None)" "froom k s'" using found(3,4) by auto
    then have rel: "dir_rel p k s' (m(cstr x := None))" unfolding dir_rel_def by blast
    show ?thesis using flags
    proof
      assume f: "n_flags (nodes s ?n) = VFS_FILE"
      then show ?thesis using s'(1) rel wrong [of VFS_DIRECTORY] r found(5) by (auto simp: obj_of_def)
    next
      assume f: "n_flags (nodes s ?n) = VFS_DIRECTORY"
      then show ?thesis using s'(1) rel wrong [of VFS_FILE] r found(5) by (auto simp: obj_of_def)
    qed
  next
    case (none es q)
    then show ?thesis using r dir_invD(1) [OF none(2)] by (auto simp: ramfs_remove_object_def)
  qed
  then show "\<exists>s'. ramfs_remove_object p (Some x) VFS_FILE s =
      Some (case m (cstr x) of None \<Rightarrow> -4 | Some (File c) \<Rightarrow> 0 | Some Dir \<Rightarrow> -2, s') \<and>
      dir_rel p k s' (case m (cstr x) of Some (File c) \<Rightarrow> m(cstr x := None) | _ \<Rightarrow> m)"
    "\<exists>s'. ramfs_remove_object p (Some x) VFS_DIRECTORY s =
      Some (case m (cstr x) of None \<Rightarrow> -4 | Some (File c) \<Rightarrow> -2 | Some Dir \<Rightarrow> 0, s') \<and>
      dir_rel p k s' (case m (cstr x) of Some Dir \<Rightarrow> m(cstr x := None) | _ \<Rightarrow> m)" by blast+
qed

lemma sint_small:
  assumes "unat (w :: u32) < 2 ^ 31"
  shows "sint w = int (unat w)"
proof -
  have u: "uint w = int (unat w)" by simp
  have "signed_take_bit 31 (int n) = int n" if "n < 2 ^ 31" for n by (rule signed_take_bit_int_eq_self) (use that in simp_all)
  from this [OF assms] show ?thesis unfolding sint_uint u by (simp only: len_bit0 len_bit1 len_num1) simp
qed

lemma write_rel:
  assumes r: "dir_rel p k s m" and v: "valid_op (Write x off d)" and k: "op_cost (Write x off d) \<le> k"
  shows "\<exists>s'. fs_exec p (Write x off d) s = Some (fst (fs_spec (Write x off d) m), s') \<and>
    dir_rel p (k - op_cost (Write x off d)) s' (snd (fs_spec (Write x off d) m))"
proof -
  have nt: "terminated x" and b: "unat off + length d + 512 < 2 ^ 31" using v by (simp_all add: good_name_def)
  let ?sz = "of_nat (length d) :: u32"
  have n: "unat ?sz = length d" using b by (simp add: unat_of_nat_id)
  have z: "sint ?sz = int (length d)" using sint_small [of ?sz] b n by simp
  from r nt show ?thesis
  proof (cases rule: dir_rel_lookup)
    case (found xs e ys)
    let ?n = "e_node (entries s e)"
    show ?thesis
    proof (cases "n_flags (nodes s ?n) = VFS_FILE")
      case True
      have b2: "unat off + unat ?sz + 512 < 2 ^ 32" "unat ?sz \<le> length d" "round16 (unat off + unat ?sz + 512) + 48 \<le> k"
        using b k round16_bounds(2) [of "unat off + length d + 512"] unfolding n by simp_all
      from dir_write_spec [OF found(2) refl True b2(1,2) found(1) b2(3)] obtain s' where
        s': "ramfs_write ?n off ?sz (Some d) s = Some (sint ?sz, s')" "dir_inv s' p (xs @ e # ys)"
          "dir_map s' (xs @ e # ys) = m(cstr x \<mapsto> File (write_at (unat off) d (content s ?n)))"
          "froom (k - round16 (unat off + length d + 512) - 32) s'" using found(3,4) n by auto
      have "froom (k - op_cost (Write x off d)) s'"
        by (rule heap_room_mono [OF s'(4)]) (use round16_bounds(2) [of "unat off + length d + 512"] in simp)
      then have "dir_rel p (k - op_cost (Write x off d)) s' (m(cstr x \<mapsto> File (write_at (unat off) d (content s ?n))))"
        unfolding dir_rel_def using s'(2,3) by blast
      then show ?thesis using s'(1) found(5,6) True z by (simp add: obj_of_def)
    next
      case False
      then have "n_flags (nodes s ?n) AND VFS_DIRECTORY \<noteq> 0" using found(7) by (auto simp: node_ok_def file_ok_def)
      then have "ramfs_write ?n off ?sz (Some d) s = Some (-1, s)" by (simp add: ramfs_write_def)
      then show ?thesis using found(5,6) False dir_rel_mono [OF r] by (simp add: obj_of_def)
    qed
  next
    case (none es q)
    then show ?thesis using dir_rel_mono [OF r] by (simp add: ramfs_write_def)
  qed
qed

lemma read_rel:
  assumes r: "dir_rel p k s m" and v: "valid_op (Read x off l)"
  shows "fs_exec p (Read x off l) s = Some (fst (fs_spec (Read x off l) m), s) \<and> snd (fs_spec (Read x off l) m) = m"
proof -
  have nt: "terminated x" and b: "unat l < 2 ^ 31" using v by (simp_all add: good_name_def)
  from r nt show ?thesis
  proof (cases rule: dir_rel_lookup)
    case (found xs e ys)
    let ?n = "e_node (entries s e)"
    show ?thesis
    proof (cases "n_flags (nodes s ?n) = VFS_FILE")
      case True
      then have f: "file_ok s ?n" "?n \<noteq> 0" using found(7) by (auto simp: node_ok_def)
      let ?y = "take (unat l) (drop (unat off) (content s ?n))"
      from ramfs_read_spec [OF f order.refl, where off = off and sz = l] obtain j where
        j: "ramfs_read ?n off l (Some (unat l)) s = Some (sint j, ?y)" "unat (j :: u32) = length ?y" by blast
      then have "sint j = int (length ?y)" using sint_small [of j] b by simp
      then show ?thesis using j(1) found(5,6) True by (simp add: obj_of_def Let_def)
    next
      case False
      then have "n_flags (nodes s ?n) AND VFS_DIRECTORY \<noteq> 0" using found(7) by (auto simp: node_ok_def file_ok_def)
      then have "ramfs_read ?n off l (Some (unat l)) s = Some (-1, [])" by (simp add: ramfs_read_def Let_def)
      then show ?thesis using found(5,6) False by (simp add: obj_of_def)
    qed
  next
    case (none es q)
    then show ?thesis by (simp add: ramfs_read_def Let_def)
  qed
qed

lemma rename_rel:
  assumes r: "dir_rel p k s m" and v: "valid_op (Rename x y)"
  shows "\<exists>s'. fs_exec p (Rename x y) s = Some (fst (fs_spec (Rename x y) m), s') \<and> dir_rel p k s' (snd (fs_spec (Rename x y) m))"
proof -
  have nt: "terminated x" "terminated y" "good_name y" using v by (simp_all add: good_name_def)
  have p0: "p \<noteq> 0" "vfs_resolve_mountpoint p s = Some p"
    using r by (auto simp: dir_rel_def vfs_resolve_mountpoint_def dest: dir_invD(1,10))
  from r nt(1) show ?thesis
  proof (cases rule: dir_rel_lookup)
    case (found xs e ys)
    note fx = this
    have e0: "e_node (entries s e) \<noteq> 0" using fx(7) by (simp add: node_ok_def)
    from r nt(2) show ?thesis
    proof (cases rule: dir_rel_lookup)
      case (found xs' e' ys')
      then have "e_node (entries s e') \<noteq> 0" by (simp add: node_ok_def)
      then have "ramfs_rename p (Some x) p (Some y) s = Some (-3, s)" using p0 fx(6) found(6) e0 by (simp add: ramfs_rename_def)
      then show ?thesis using r fx(5) found(5) by simp
    next
      case (none es q)
      have "dir_map s (xs @ e # ys) (cstr y) = None" using none(4) fx(3) by simp
      from dir_rename_spec [OF fx(2) refl nt(3) this fx(6) none(5)] obtain s' where
        s': "ramfs_rename p (Some x) p (Some y) s = Some (0, s')" "dir_inv s' p (xs @ e # ys)"
          "dir_map s' (xs @ e # ys) = m(cstr x := None, cstr y \<mapsto> obj_of s (e_node (entries s e)))" "fkrn s' = fkrn s" "fcr3 s' = fcr3 s"
        using fx(3,4) by auto
      have "dir_rel p k s' (m(cstr x := None, cstr y \<mapsto> obj_of s (e_node (entries s e))))"
        unfolding dir_rel_def using s'(2-5) fx(1) by auto
      then show ?thesis using s'(1) fx(5) none(4) by simp
    qed
  next
    case (none es q)
    then have "ramfs_rename p (Some x) p (Some y) s = Some (-2, s)" using p0 by (simp add: ramfs_rename_def)
    then show ?thesis using r none(4) by simp
  qed
qed

interpretation rfs: directory_service "dir_rel p" "fs_exec p" for p
proof
  fix k s m a
  assume r: "dir_rel p k s m" and v: "valid_op a" and k: "op_cost a \<le> k"
  show "\<exists>s'. fs_exec p a s = Some (fst (fs_spec a m), s') \<and> dir_rel p (k - op_cost a) s' (snd (fs_spec a m))"
  proof (cases a)
    case (Create x)
    then have "good_name x" "480 \<le> k" using v k by simp_all
    with create_object_rel [OF r, of x VFS_FILE 420] obtain s' where
      "ramfs_create_object p (Some x) 420 VFS_FILE s = Some (if m (cstr x) = None then 0 else -2, s')"
      "dir_rel p (k - 480) s' (if m (cstr x) = None then m(cstr x \<mapsto> (if VFS_FILE = VFS_FILE then File [] else Dir)) else m)" by blast
    then show ?thesis unfolding Create by (intro exI [of _ s']) (cases "m (cstr x)", simp_all add: ramfs_create_def)
  next
    case (Mkdir x)
    then have "good_name x" "480 \<le> k" using v k by simp_all
    with create_object_rel [OF r, of x VFS_DIRECTORY 420] obtain s' where
      "ramfs_create_object p (Some x) 420 VFS_DIRECTORY s = Some (if m (cstr x) = None then 0 else -2, s')"
      "dir_rel p (k - 480) s' (if m (cstr x) = None then m(cstr x \<mapsto> (if VFS_DIRECTORY = VFS_FILE then File [] else Dir)) else m)" by blast
    then show ?thesis unfolding Mkdir by (intro exI [of _ s']) (cases "m (cstr x)", simp_all add: ramfs_mkdir_def)
  next
    case (Unlink x)
    then have "terminated x" using v by (simp add: good_name_def)
    from remove_object_rel(1) [OF r this] show ?thesis unfolding Unlink by (auto simp: ramfs_unlink_def split: option.splits obj.splits)
  next
    case (Rmdir x)
    then have "terminated x" using v by (simp add: good_name_def)
    from remove_object_rel(2) [OF r this] show ?thesis unfolding Rmdir by (auto simp: ramfs_rmdir_def split: option.splits obj.splits)
  next
    case (Write x off d)
    from write_rel [OF r v [unfolded Write] k [unfolded Write]] show ?thesis unfolding Write .
  next
    case (Read x off l)
    from read_rel [OF r v [unfolded Read]] r show ?thesis unfolding Read by simp
  next
    case (Rename x y)
    from rename_rel [OF r v [unfolded Rename]] show ?thesis unfolding Rename by simp
  qed
qed

section \<open>Properties\<close>


text \<open>What was written is read back, whatever happens to other names in between.\<close>

theorem ramfs_read_back:
  assumes "dir_rel p k s m" "m (cstr x) = Some (File c)" "cstr x \<notin> \<Union> (op_names ` set as)" "\<forall>a\<in>set as. valid_op a"
    "valid_op (Write x off d)" "sum_list (map op_cost (Write x off d # as)) \<le> k"
  shows "\<exists>s' rs. run_ops (fs_exec p) (Write x off d # as @ [Read x off (of_nat (length d))]) s =
    Some ((int (length d), []) # rs @ [(int (length d), d)], s')"
  by (rule rfs.read_back [OF assms])

text \<open>Removing a file gives back exactly the blocks that creating it took.\<close>

theorem ramfs_create_unlink_memory:
  assumes i: "dir_inv s p es" and g: "good_name x" and k: "froom k s" "480 \<le> k" and new: "dir_map s es (cstr x) = None"
  shows "\<exists>s1 s2. ramfs_create p (Some x) perms s = Some (0, s1) \<and> ramfs_unlink p (Some x) s1 = Some (0, s2) \<and>
    fptrs s2 = fptrs s \<and> dir_inv s2 p es \<and> dir_map s2 es = dir_map s es"
proof -
  from create_spec [OF i g _ k new, of VFS_FILE perms] obtain e s1 where
    c: "ramfs_create p (Some x) perms s = Some (0, s1)" "dir_inv s1 p (e # es)" "dir_map s1 (e # es) = (dir_map s es)(cstr x \<mapsto> File [])"
      "froom (k - 480) s1" "fptrs s1 = set (entry_blocks s1 e) \<union> fptrs s" "set (entry_blocks s1 e) \<inter> fptrs s = {}"
      "ename s1 e = cstr x" "n_flags (nodes s1 (e_node (entries s1 e))) = VFS_FILE" by (auto simp: ramfs_create_def)
  have nt: "terminated x" using g by (simp add: good_name_def)
  note d = dir_invD [OF c(2)]
  have "dir_map s1 (e # es) (cstr x) \<noteq> None" by (simp add: c(3))
  with dir_lookup [OF c(2) nt] obtain xs e' ys where l: "e # es = xs @ e' # ys" "ename s1 e' = cstr x"
    "entry_locate s1 x 0 (private_data (nodes s1 p)) = Some (if xs = [] then 0 else last xs, e')" by auto
  have "xs = []"
  proof (cases xs)
    case (Cons a as)
    then have "ename s1 e \<in> set (map (ename s1) es)" using l(1,2) c(7) by auto
    then show ?thesis using d(5) by simp
  qed simp
  with l have e: "e' = e" "ys = es" by simp_all
  have i1: "dir_inv s1 p ([] @ e # es)" using c(2) by simp
  from remove_spec [OF i1 refl _ l(3) [unfolded e] c(4,8)] \<open>xs = []\<close> obtain s2 where
    r: "ramfs_remove_object p (Some x) VFS_FILE s1 = Some (0, s2)" "dir_inv s2 p es" "dir_map s2 es = (dir_map s1 (e # es))(ename s1 e := None)"
      "fptrs s2 = fptrs s1 - set (entry_blocks s1 e)" by auto
  have "dir_map s2 es = dir_map s es" unfolding r(3) c(3,7) using new by (simp add: fun_upd_idem)
  moreover have "fptrs s2 = fptrs s" unfolding r(4) c(5) using c(6) by auto
  ultimately show ?thesis using c(1) r(1,2) unfolding ramfs_unlink_def by blast
qed

text \<open>The capacity of a file's buffer is computed in 32 bits. A write to an empty file that ends less than 512 bytes below 4 GB allocates a
  block of less than 512 bytes and then copies behind its end.\<close>

theorem ramfs_write_overflows:
  assumes f: "file_ok s n" "n \<noteq> 0" "d_buffer (fdata s (private_data (nodes s n))) = 0"
    and e: "2 ^ 32 < unat off + unat sz + 512" "unat off + unat sz < 2 ^ 32" "unat sz \<le> length x" and k: "froom 1000 s"
  shows "ramfs_write n off sz (Some x) s = None"
proof -
  note o = file_okD [OF f(1)]
  let ?d = "private_data (nodes s n)" and ?e = "off + ucast sz" and ?cap = "ucast (off + ucast sz + 512) :: u32"
  have ue: "unat ?e = unat off + unat sz" using unat_plus_small [of off "ucast sz"] e(2) by (simp add: unat_ucast_up)
  have u: "unat (?e + 512) = unat off + unat sz + 512" using unat_plus_small [of ?e 512] e(2) ue by simp
  have cap: "unat ?cap = unat off + unat sz + 512 - 2 ^ 32"
  proof -
    have "unat ?cap = unat (?e + 512) mod 2 ^ 32" by (simp add: unsigned_ucast_eq take_bit_eq_mod)
    then show ?thesis unfolding u using e by (simp add: mod_if)
  qed
  then have c: "0 < unat (ucast ?cap :: u64)" "unat (ucast ?cap :: u64) + 5000 < 2 ^ 64" "round16 (unat (ucast ?cap :: u64)) + 48 \<le> 1000"
    unfolding unat_ucast_up using e round16_bounds(2) [of "unat ?cap"] by simp_all
  from fs_kmalloc_spec [OF k c] obtain nb h where m: "fs_kmalloc (ucast ?cap) s = Some (nb, set_fheap h s)" "nb \<noteq> 0" by blast
  have "buffer_cap (fdata s ?d) = 0" using o(5) f(3) by (simp add: file_buf_def unat_eq_0)
  moreover have "0 < ?e" unfolding word_less_nat_alt ue using e(1) by (cases "unat off"; cases "unat sz"; simp)
  moreover have "memcpy_at (replicate (unat ?cap) 0) (unat off) x (unat sz) = None"
    unfolding cap using e by (auto simp: memcpy_at_def memcpy_eq)
  moreover have "n_flags (nodes s n) AND VFS_DIRECTORY = 0" "?d \<noteq> 0" using o(1,2) by simp_all
  ultimately show ?thesis using f(2,3) m by (simp add: ramfs_write_def ramfs_grow_def Let_def)
qed

section \<open>Witnesses\<close>

definition name_demo :: "u8 \<Rightarrow> u8 list" where
  "name_demo c = c # 0 # replicate 254 0"

abbreviation root_demo :: u64 where "root_demo \<equiv> KERNEL_HEAP_VIRTUAL_BASE + 32"

definition fs_demo :: fsys where
  "fs_demo = \<lparr>fkrn = kernel_demo, fcr3 = 1, nodes = (\<lambda>_. node0)(root_demo := node0\<lparr>n_flags := VFS_DIRECTORY, inode := 1\<rparr>),
     entries = (\<lambda>_. \<lparr>e_node = 0, e_next = 0\<rparr>), fdata = (\<lambda>_. \<lparr>d_buffer = 0, buffer_cap = 0\<rparr>), fbufs = (\<lambda>_. []),
     mounts = (\<lambda>_. \<lparr>mountpoint = 0, fs_root = 0, m_next = 0\<rparr>), g_mount_list = 0, g_vfs_root = root_demo\<rparr>"

lemma name_demo_good: "c \<noteq> 0 \<Longrightarrow> good_name (name_demo c)" "c \<noteq> 0 \<Longrightarrow> cstr (name_demo c) = [c]"
  by (simp_all add: good_name_def name_demo_def)

lemma fs_demo_dir: "dir_inv fs_demo root_demo []" "dir_map fs_demo [] = Map.empty" "froom 3968 fs_demo"
proof -
  have "heap_inv 1 (heap kernel_demo) [(64, False), (3968, True)]" using heap_two_inv by (simp add: kernel_demo_def)
  then show "froom 3968 fs_demo" unfolding heap_room_def by (intro exI [of _ "[(64, False), (3968, True)]"]) (simp add: fs_demo_def room_def)
  have "root_demo \<in> fptrs fs_demo" using demo_blocks by (simp add: heap_ptrs_def fs_demo_def)
  then show "dir_inv fs_demo root_demo []" by (simp add: dir_inv_def) (simp add: fs_demo_def node0_def)
  show "dir_map fs_demo [] = Map.empty" by (simp add: dir_map_def)
qed

lemma fs_demo_rel: "dir_rel root_demo 3968 fs_demo Map.empty"
  unfolding dir_rel_def using fs_demo_dir by blast


theorem ramfs_read_back_witness:
  "\<exists>s s' rs. fs_exec root_demo (Create (name_demo 97)) fs_demo = Some ((0, []), s) \<and>
    run_ops (fs_exec root_demo) [Write (name_demo 97) 3 [1, 2], Create (name_demo 98), Read (name_demo 97) 3 (of_nat (length [1 :: u8, 2]))] s =
    Some ((2, []) # rs @ [(2, [1, 2])], s')"
proof -
  have "valid_op (Create (name_demo 97))" "op_cost (Create (name_demo 97)) \<le> 3968" by (simp_all add: name_demo_good)
  from rfs.exec_ok [OF fs_demo_rel this] obtain s where
    s: "fs_exec root_demo (Create (name_demo 97)) fs_demo = Some ((0, []), s)" "dir_rel root_demo 3488 s [[97] \<mapsto> File []]"
    by (auto simp: name_demo_good)
  have "[[97] \<mapsto> File []] (cstr (name_demo 97)) = Some (File [])" "cstr (name_demo 97) \<notin> \<Union> (op_names ` set [Create (name_demo 98)])"
    "\<forall>a\<in>set [Create (name_demo 98)]. valid_op a" "valid_op (Write (name_demo 97) 3 [1, 2])"
    "sum_list (map op_cost (Write (name_demo 97) 3 [1, 2] # [Create (name_demo 98)])) \<le> 3488" by (simp_all add: name_demo_good)
  from ramfs_read_back [OF s(2) this] s(1) show ?thesis by auto
qed

theorem ramfs_create_unlink_memory_witness:
  "\<exists>s1 s2. ramfs_create root_demo (Some (name_demo 97)) 420 fs_demo = Some (0, s1) \<and>
    ramfs_unlink root_demo (Some (name_demo 97)) s1 = Some (0, s2) \<and> fptrs s2 = fptrs fs_demo"
proof -
  have "good_name (name_demo 97)" "(480 :: nat) \<le> 3968" "dir_map fs_demo [] (cstr (name_demo 97)) = None" by (simp_all add: name_demo_good fs_demo_dir(2))
  from ramfs_create_unlink_memory [OF fs_demo_dir(1) this(1) fs_demo_dir(3) this(2,3), of 420] show ?thesis by blast
qed

theorem ramfs_write_overflows_witness:
  "ramfs_write 0x500 0xFFFFFF00 1 (Some [7])
     (fs_demo\<lparr>nodes := (\<lambda>_. node0)(0x500 := node0\<lparr>n_flags := VFS_FILE, private_data := 0x600\<rparr>)\<rparr>) = None"
proof -
  let ?s = "fs_demo\<lparr>nodes := (\<lambda>_. node0)(0x500 := node0\<lparr>n_flags := VFS_FILE, private_data := 0x600\<rparr>)\<rparr>"
  have "file_ok ?s 0x500" by (simp add: file_ok_def file_buf_def Let_def node0_def) (simp add: fs_demo_def)
  moreover have "d_buffer (fdata ?s (private_data (nodes ?s 0x500))) = 0" by (simp add: fs_demo_def)
  moreover have "froom 1000 ?s" using heap_room_mono [OF fs_demo_dir(3), of 1000] by simp
  ultimately show ?thesis using ramfs_write_overflows [of ?s "0x500" "0xFFFFFF00" 1 "[7]"] by simp
qed

end
