(* ===== verification/Fat.thy ===== *)
theory Fat
  imports Ramfs
begin

text \<open>
  The data part of the FAT32 driver, \<^verbatim>\<open>src/kernel/fs/fat/fat32.c\<close>: the file allocation table, chains of clusters, and
  reading and writing the bytes of a file. The directory part is theory \<open>Fatdir\<close>.

  A block device is the function from sector numbers to the bytes of the sector. Whether the page pool has a buffer left, whether
  the heap has room for a node and whether the device carries out a transfer is decided outside the driver: the record
  \<open>outcomes\<close> gives the answer to the \<open>n\<close>-th request, for every \<open>n\<close>, and is an argument of the definitions. A write that fails has
  written some of the sectors. \<open>held\<close> lists the sizes of the pool buffers that the driver has not given back.
\<close>

unbundle bit_operations_syntax

section \<open>Volumes and devices\<close>

record fat32_volume =
  bytes_per_sector :: u32
  sectors_per_cluster :: u32
  bytes_per_cluster :: u32
  first_fat_sector :: u32
  first_data_sector :: u32
  root_cluster :: u32

record medium =
  sectors :: "u64 \<Rightarrow> u8 list"
  sector_size :: u32
  ticks :: nat
  held :: "u32 list"
  heap_blocks :: nat
  has_ioctl :: bool

record outcomes =
  pool_gives :: "nat \<Rightarrow> bool"
  heap_gives :: "nat \<Rightarrow> bool"
  dev_reads :: "nat \<Rightarrow> bool"
  dev_writes :: "nat \<Rightarrow> u32 option"
  dev_syncs :: "nat \<Rightarrow> bool"

abbreviation FAT32_EOF :: u32 where "FAT32_EOF \<equiv> 0x0FFFFFF8"
abbreviation FAT32_BAD_CLUSTER :: u32 where "FAT32_BAD_CLUSTER \<equiv> 0x0FFFFFF7"
abbreviation FAT32_MASK :: u32 where "FAT32_MASK \<equiv> 0x0FFFFFFF"

abbreviation tick :: "medium \<Rightarrow> medium" where
  "tick m \<equiv> m\<lparr>ticks := Suc (ticks m)\<rparr>"

text \<open>Buffers of the page pool. Giving back a size that is not held is undefined.\<close>

definition pool_get :: "outcomes \<Rightarrow> u32 \<Rightarrow> medium \<Rightarrow> bool \<times> medium" where
  "pool_get E sz m = (pool_gives E (ticks m), if pool_gives E (ticks m) then (tick m)\<lparr>held := sz # held m\<rparr> else tick m)"

definition pool_put :: "u32 \<Rightarrow> medium \<Rightarrow> medium option" where
  "pool_put sz m = (if sz \<in> set (held m) then Some (m\<lparr>held := remove1 sz (held m)\<rparr>) else None)"

text \<open>The transfers of a block device. The result \<open>None\<close> of a read, inside the option, is the error code; \<open>cap\<close> is the size of the
  buffer, which the transfer fills.\<close>

definition read_blocks :: "outcomes \<Rightarrow> u64 \<Rightarrow> u32 \<Rightarrow> nat \<Rightarrow> medium \<Rightarrow> (u8 list option \<times> medium) option" where
  "read_blocks E lba cnt cap m =
     (if \<not> dev_reads E (ticks m) then Some (None, tick m)
      else let x = concat (map (\<lambda>i. sectors m (lba + of_nat i)) [0..<unat cnt]) in
        if length x = cap then Some (Some x, tick m) else None)"

primrec put_sectors :: "nat \<Rightarrow> u64 \<Rightarrow> u8 list \<Rightarrow> nat \<Rightarrow> (u64 \<Rightarrow> u8 list) \<Rightarrow> u64 \<Rightarrow> u8 list" where
  "put_sectors ss lba x 0 d = d"
| "put_sectors ss lba x (Suc n) d = (put_sectors ss lba x n d)(lba + of_nat n := take ss (drop (n * ss) x))"

definition write_blocks :: "outcomes \<Rightarrow> u64 \<Rightarrow> u32 \<Rightarrow> u8 list \<Rightarrow> medium \<Rightarrow> (int \<times> medium) option" where
  "write_blocks E lba cnt x m =
     (let n = (case dev_writes E (ticks m) of None \<Rightarrow> unat cnt | Some k \<Rightarrow> min (unat k) (unat cnt));
          ss = unat (sector_size m) in
      if length x < unat cnt * ss then None
      else Some (if dev_writes E (ticks m) = None then 0 else -1, (tick m)\<lparr>sectors := put_sectors ss lba x n (sectors m)\<rparr>))"

section \<open>The table\<close>

definition cluster_to_sector :: "fat32_volume \<Rightarrow> u32 \<Rightarrow> u64" where
  "cluster_to_sector vol c = ucast (first_data_sector vol + ((c - 2) * sectors_per_cluster vol))"

definition fat32_get_next_cluster :: "outcomes \<Rightarrow> fat32_volume \<Rightarrow> u32 \<Rightarrow> medium \<Rightarrow> (u32 \<times> medium) option" where
  "fat32_get_next_cluster E vol current_cluster m =
     (let bps = bytes_per_sector vol; fat_offset = current_cluster * 4;
          fat_sector = first_fat_sector vol + fat_offset div bps; ent_offset = fat_offset mod bps in
      if bps = 0 then None
      else case pool_get E bps m of (got, m1) \<Rightarrow>
        if \<not> got then Some (FAT32_BAD_CLUSTER, m1)
        else do {
          (b, m2) \<leftarrow> read_blocks E (ucast fat_sector) 1 (unat bps) m1;
          case b of
            None \<Rightarrow> do { m3 \<leftarrow> pool_put bps m2; Some (FAT32_BAD_CLUSTER, m3) }
          | Some x \<Rightarrow> do {
              let i = 4 * unat (ent_offset div 4);
              if i + 4 \<le> length x then do { m3 \<leftarrow> pool_put bps m2; Some (rd32 x i AND FAT32_MASK, m3) } else None
            }
        })"

definition fat32_set_cluster :: "outcomes \<Rightarrow> fat32_volume \<Rightarrow> u32 \<Rightarrow> u32 \<Rightarrow> medium \<Rightarrow> (int \<times> medium) option" where
  "fat32_set_cluster E vol c v m =
     (let bps = bytes_per_sector vol; fat_offset = c * 4;
          fat_sector = first_fat_sector vol + fat_offset div bps; ent_offset = fat_offset mod bps in
      if bps = 0 then None
      else case pool_get E bps m of (got, m1) \<Rightarrow>
        if \<not> got then Some (-1, m1)
        else do {
          (b, m2) \<leftarrow> read_blocks E (ucast fat_sector) 1 (unat bps) m1;
          case b of
            None \<Rightarrow> do { m3 \<leftarrow> pool_put bps m2; Some (-1, m3) }
          | Some x \<Rightarrow> do {
              let i = 4 * unat (ent_offset div 4);
              y \<leftarrow> memcpy_at x i (le32 ((rd32 x i AND 0xF0000000) OR (v AND FAT32_MASK))) 4;
              (r, m3) \<leftarrow> write_blocks E (ucast fat_sector) 1 y m2;
              m4 \<leftarrow> pool_put bps m3;
              Some (if r \<noteq> 0 then -1 else 0, m4)
            }
        })"

text \<open>The scan of the sectors of the table for a free entry.\<close>

fun alloc_sectors :: "outcomes \<Rightarrow> fat32_volume \<Rightarrow> nat list \<Rightarrow> medium \<Rightarrow> (u32 \<times> medium) option" where
  "alloc_sectors E vol [] m = do { m1 \<leftarrow> pool_put (bytes_per_sector vol) m; Some (FAT32_BAD_CLUSTER, m1) }"
| "alloc_sectors E vol (n # ns) m =
     do {
       let sz = bytes_per_sector vol;
       (b, m1) \<leftarrow> read_blocks E (ucast (first_fat_sector vol + of_nat n)) 1 (unat sz) m;
       case b of
         None \<Rightarrow> do { m2 \<leftarrow> pool_put sz m1; Some (FAT32_BAD_CLUSTER, m2) }
       | Some x \<Rightarrow>
           (case find (\<lambda>i. \<not> of_nat n * (sz div 4) + of_nat i < 2 \<and> rd32 x (4 * i) AND FAT32_MASK = 0) [0..<unat (sz div 4)] of
              None \<Rightarrow> alloc_sectors E vol ns m1
            | Some i \<Rightarrow> do {
                let target = (of_nat n * (sz div 4) + of_nat i :: u32);
                m2 \<leftarrow> pool_put sz m1;
                (r, m3) \<leftarrow> fat32_set_cluster E vol target FAT32_EOF m2;
                Some (if r \<noteq> 0 then FAT32_BAD_CLUSTER else target, m3)
              })
     }"

definition fat32_allocate_cluster :: "outcomes \<Rightarrow> fat32_volume \<Rightarrow> medium \<Rightarrow> (u32 \<times> medium) option" where
  "fat32_allocate_cluster E vol m =
     (case pool_get E (bytes_per_sector vol) m of (got, m1) \<Rightarrow>
        if \<not> got then Some (FAT32_BAD_CLUSTER, m1)
        else alloc_sectors E vol [0..<unat (first_data_sector vol - first_fat_sector vol)] m1)"

text \<open>The results of the calls that set an entry to free are ignored.\<close>

partial_function (option) free_chain_loop :: "outcomes \<Rightarrow> fat32_volume \<Rightarrow> u32 \<Rightarrow> medium \<Rightarrow> medium option" where
  "free_chain_loop E vol c m =
     (if c < FAT32_EOF \<and> c \<noteq> FAT32_BAD_CLUSTER \<and> c \<noteq> 0 then do {
        (nxt, m1) \<leftarrow> fat32_get_next_cluster E vol c m;
        (r, m2) \<leftarrow> fat32_set_cluster E vol c 0 m1;
        free_chain_loop E vol nxt m2
      } else Some m)"

definition fat32_free_cluster_chain :: "outcomes \<Rightarrow> fat32_volume \<Rightarrow> u32 \<Rightarrow> medium \<Rightarrow> medium option" where
  "fat32_free_cluster_chain E vol start_cluster m =
     (if start_cluster < 2 \<or> start_cluster \<ge> FAT32_BAD_CLUSTER then Some m else free_chain_loop E vol start_cluster m)"

section \<open>Reading and writing\<close>

text \<open>The walk along the chain to the cluster of an offset; no cluster when the chain ends in front of it.\<close>

partial_function (option) read_seek :: "outcomes \<Rightarrow> fat32_volume \<Rightarrow> u64 \<Rightarrow> u32 \<Rightarrow> u64 \<Rightarrow> medium \<Rightarrow> (u32 option \<times> u64 \<times> medium) option" where
  "read_seek E vol offset c current_offset m =
     (if current_offset + ucast (bytes_per_cluster vol) \<le> offset then do {
        (nxt, m1) \<leftarrow> fat32_get_next_cluster E vol c m;
        if nxt \<ge> FAT32_EOF \<or> nxt = FAT32_BAD_CLUSTER then Some (None, current_offset, m1)
        else read_seek E vol offset nxt (current_offset + ucast (bytes_per_cluster vol)) m1
      } else Some (Some c, current_offset, m))"

text \<open>The bytes stored so far in the buffer of the caller are \<open>out\<close>; \<open>space\<close> is its size.\<close>

partial_function (option) read_loop ::
  "outcomes \<Rightarrow> fat32_volume \<Rightarrow> u64 \<Rightarrow> u32 \<Rightarrow> nat \<Rightarrow> u32 \<Rightarrow> u64 \<Rightarrow> u32 \<Rightarrow> u8 list \<Rightarrow> medium \<Rightarrow> (u32 \<times> u8 list \<times> medium) option" where
  "read_loop E vol offset sz space c current_offset bytes_lidos out m =
     (let alloc_size = bytes_per_cluster vol in
      if \<not> bytes_lidos < sz then Some (bytes_lidos, out, m)
      else do {
        (b, m1) \<leftarrow> read_blocks E (cluster_to_sector vol c) (sectors_per_cluster vol) (unat alloc_size) m;
        case b of
          None \<Rightarrow> Some (bytes_lidos, out, m1)
        | Some x \<Rightarrow> do {
            let cluster_offset = (ucast (offset + ucast bytes_lidos - current_offset) :: u32);
            let n = (if alloc_size - cluster_offset > sz - bytes_lidos then sz - bytes_lidos else alloc_size - cluster_offset);
            if unat cluster_offset + unat n \<le> length x \<and> length out + unat n \<le> space then do {
              let out1 = out @ take (unat n) (drop (unat cluster_offset) x);
              let done1 = bytes_lidos + n;
              if done1 < sz then do {
                (nxt, m2) \<leftarrow> fat32_get_next_cluster E vol c m1;
                if nxt \<ge> FAT32_EOF \<or> nxt = FAT32_BAD_CLUSTER then Some (done1, out1, m2)
                else read_loop E vol offset sz space nxt (current_offset + ucast alloc_size) done1 out1 m2
              } else Some (done1, out1, m1)
            } else None
          }
      })"

definition fat32_read :: "outcomes \<Rightarrow> fat32_volume \<Rightarrow> vfs_node \<Rightarrow> u64 \<Rightarrow> u32 \<Rightarrow> nat \<Rightarrow> medium \<Rightarrow> (int \<times> u8 list \<times> medium) option" where
  "fat32_read E vol node offset size_arg space m =
     (let file = (n_flags node AND VFS_DIRECTORY = 0) in
      if file \<and> offset \<ge> n_size node then Some (0, [], m)
      else do {
        let sz = (if file \<and> offset + ucast size_arg > n_size node then ucast (n_size node - offset) else size_arg);
        (c, current_offset, m1) \<leftarrow> read_seek E vol offset (inode node) 0 m;
        case c of
          None \<Rightarrow> Some (0, [], m1)
        | Some c \<Rightarrow> (case pool_get E (bytes_per_cluster vol) m1 of (got, m2) \<Rightarrow>
            if \<not> got then Some (-1, [], m2)
            else do {
              (n, out, m3) \<leftarrow> read_loop E vol offset sz space c current_offset 0 [] m2;
              m4 \<leftarrow> pool_put (bytes_per_cluster vol) m3;
              Some (sint n, out, m4)
            })
      })"

text \<open>The next cluster of a chain, which a write appends when the chain ends; no cluster when the device is full.\<close>

definition next_or_new :: "outcomes \<Rightarrow> fat32_volume \<Rightarrow> u32 \<Rightarrow> medium \<Rightarrow> (u32 option \<times> medium) option" where
  "next_or_new E vol c m =
     do {
       (nxt, m1) \<leftarrow> fat32_get_next_cluster E vol c m;
       if nxt \<ge> FAT32_EOF \<or> nxt = FAT32_BAD_CLUSTER then do {
         (new, m2) \<leftarrow> fat32_allocate_cluster E vol m1;
         if new = FAT32_BAD_CLUSTER then Some (None, m2)
         else do { (r, m3) \<leftarrow> fat32_set_cluster E vol c new m2; Some (Some new, m3) }
       } else Some (Some nxt, m1)
     }"

partial_function (option) write_seek :: "outcomes \<Rightarrow> fat32_volume \<Rightarrow> u64 \<Rightarrow> u32 \<Rightarrow> u64 \<Rightarrow> medium \<Rightarrow> (u32 option \<times> u64 \<times> medium) option" where
  "write_seek E vol offset c current_offset m =
     (if current_offset + ucast (bytes_per_cluster vol) \<le> offset then do {
        (nxt, m1) \<leftarrow> next_or_new E vol c m;
        case nxt of
          None \<Rightarrow> Some (None, current_offset, m1)
        | Some n \<Rightarrow> write_seek E vol offset n (current_offset + ucast (bytes_per_cluster vol)) m1
      } else Some (Some c, current_offset, m))"

partial_function (option) write_loop ::
  "outcomes \<Rightarrow> fat32_volume \<Rightarrow> u64 \<Rightarrow> u32 \<Rightarrow> u8 list \<Rightarrow> u32 \<Rightarrow> u64 \<Rightarrow> u32 \<Rightarrow> medium \<Rightarrow> (u32 \<times> medium) option" where
  "write_loop E vol offset sz buffer c current_offset bytes_escritos m =
     (let alloc_size = bytes_per_cluster vol in
      if \<not> bytes_escritos < sz then Some (bytes_escritos, m)
      else do {
        (b, m1) \<leftarrow> read_blocks E (cluster_to_sector vol c) (sectors_per_cluster vol) (unat alloc_size) m;
        case b of
          None \<Rightarrow> Some (bytes_escritos, m1)
        | Some x \<Rightarrow> do {
            let cluster_offset = (ucast (offset + ucast bytes_escritos - current_offset) :: u32);
            let n = (if alloc_size - cluster_offset > sz - bytes_escritos then sz - bytes_escritos else alloc_size - cluster_offset);
            y \<leftarrow> memcpy_at x (unat cluster_offset) (drop (unat bytes_escritos) buffer) (unat n);
            (r, m2) \<leftarrow> write_blocks E (cluster_to_sector vol c) (sectors_per_cluster vol) y m1;
            if r \<noteq> 0 then Some (bytes_escritos, m2)
            else do {
              let done1 = bytes_escritos + n;
              if done1 < sz then do {
                (nxt, m3) \<leftarrow> next_or_new E vol c m2;
                case nxt of
                  None \<Rightarrow> Some (done1, m3)
                | Some c1 \<Rightarrow> write_loop E vol offset sz buffer c1 (current_offset + ucast alloc_size) done1 m3
              } else Some (done1, m2)
            }
          }
      })"

definition fat32_write :: "outcomes \<Rightarrow> fat32_volume \<Rightarrow> vfs_node \<Rightarrow> u64 \<Rightarrow> u32 \<Rightarrow> u8 list \<Rightarrow> medium \<Rightarrow> (int \<times> vfs_node \<times> medium) option" where
  "fat32_write E vol node offset sz buffer m =
     (if n_flags node AND VFS_DIRECTORY \<noteq> 0 then Some (-1, node, m)
      else do {
        (new, m1) \<leftarrow> (if inode node = 0 then fat32_allocate_cluster E vol m else Some (inode node, m));
        if inode node = 0 \<and> new = FAT32_BAD_CLUSTER then Some (-1, node, m1)
        else do {
          let node1 = node\<lparr>inode := new\<rparr>;
          (c, current_offset, m2) \<leftarrow> write_seek E vol offset new 0 m1;
          case c of
            None \<Rightarrow> Some (0, node1, m2)
          | Some c \<Rightarrow> (case pool_get E (bytes_per_cluster vol) m2 of (got, m3) \<Rightarrow>
              if \<not> got then Some (-1, node1, m3)
              else do {
                (n, m4) \<leftarrow> write_loop E vol offset sz buffer c current_offset 0 m3;
                m5 \<leftarrow> pool_put (bytes_per_cluster vol) m4;
                Some (sint n, if offset + ucast n > n_size node1 then node1\<lparr>n_size := offset + ucast n\<rparr> else node1, m5)
              })
        }
      })"

section \<open>The view of a volume\<close>

text \<open>What the driver relies on: the geometry of the volume does not overflow and agrees with the sector size of the device. The
  table is all that lies between the first sector of the table and the first sector of data, all copies together.\<close>

definition table_size :: "fat32_volume \<Rightarrow> nat" where
  "table_size vol = (unat (first_data_sector vol) - unat (first_fat_sector vol)) * (unat (bytes_per_sector vol) div 4)"

definition vol_ok :: "fat32_volume \<Rightarrow> bool" where
  "vol_ok vol \<longleftrightarrow> 0 < unat (bytes_per_sector vol) \<and> 4 dvd unat (bytes_per_sector vol) \<and> 0 < unat (sectors_per_cluster vol) \<and>
     unat (bytes_per_cluster vol) = unat (bytes_per_sector vol) * unat (sectors_per_cluster vol) \<and>
     unat (first_fat_sector vol) \<le> unat (first_data_sector vol) \<and> table_size vol \<le> unat FAT32_BAD_CLUSTER \<and>
     unat (first_data_sector vol) + table_size vol * unat (sectors_per_cluster vol) < 2 ^ 32"

definition disk_ok :: "fat32_volume \<Rightarrow> (u64 \<Rightarrow> u8 list) \<Rightarrow> bool" where
  "disk_ok vol d \<longleftrightarrow> (\<forall>lba. length (d lba) = unat (bytes_per_sector vol))"

abbreviation med_ok :: "fat32_volume \<Rightarrow> medium \<Rightarrow> bool" where
  "med_ok vol m \<equiv> sector_size m = bytes_per_sector vol \<and> disk_ok vol (sectors m)"

text \<open>No request fails.\<close>

definition reliable :: "outcomes \<Rightarrow> bool" where
  "reliable E \<longleftrightarrow> (\<forall>n. pool_gives E n \<and> heap_gives E n \<and> dev_reads E n \<and> dev_writes E n = None \<and> dev_syncs E n)"

definition fat_lba :: "fat32_volume \<Rightarrow> u32 \<Rightarrow> u64" where
  "fat_lba vol c = ucast (first_fat_sector vol + c * 4 div bytes_per_sector vol)"

definition fat_idx :: "fat32_volume \<Rightarrow> u32 \<Rightarrow> nat" where
  "fat_idx vol c = 4 * unat (c * 4 mod bytes_per_sector vol div 4)"

text \<open>The entry of a cluster in the table, the bytes of a cluster, and the stores that change them.\<close>

definition tab :: "fat32_volume \<Rightarrow> (u64 \<Rightarrow> u8 list) \<Rightarrow> u32 \<Rightarrow> u32" where
  "tab vol d c = rd32 (d (fat_lba vol c)) (fat_idx vol c) AND FAT32_MASK"

definition tab_put :: "fat32_volume \<Rightarrow> u32 \<Rightarrow> u32 \<Rightarrow> (u64 \<Rightarrow> u8 list) \<Rightarrow> u64 \<Rightarrow> u8 list" where
  "tab_put vol c v d = (let x = d (fat_lba vol c); i = fat_idx vol c in
     d(fat_lba vol c := take i x @ le32 ((rd32 x i AND 0xF0000000) OR (v AND FAT32_MASK)) @ drop (i + 4) x))"

definition cdata :: "fat32_volume \<Rightarrow> (u64 \<Rightarrow> u8 list) \<Rightarrow> u32 \<Rightarrow> u8 list" where
  "cdata vol d c = concat (map (\<lambda>i. d (cluster_to_sector vol c + of_nat i)) [0..<unat (sectors_per_cluster vol)])"

definition cdata_put :: "fat32_volume \<Rightarrow> u32 \<Rightarrow> u8 list \<Rightarrow> (u64 \<Rightarrow> u8 list) \<Rightarrow> u64 \<Rightarrow> u8 list" where
  "cdata_put vol c x d = put_sectors (unat (bytes_per_sector vol)) (cluster_to_sector vol c) x (unat (sectors_per_cluster vol)) d"

definition cluster_ok :: "fat32_volume \<Rightarrow> u32 \<Rightarrow> bool" where
  "cluster_ok vol c \<longleftrightarrow> 2 \<le> unat c \<and> unat c < table_size vol"

lemma vol_okD:
  assumes "vol_ok vol"
  shows "0 < unat (bytes_per_sector vol)" "4 dvd unat (bytes_per_sector vol)" "0 < unat (sectors_per_cluster vol)"
    "unat (bytes_per_cluster vol) = unat (bytes_per_sector vol) * unat (sectors_per_cluster vol)"
    "unat (first_fat_sector vol) \<le> unat (first_data_sector vol)" "table_size vol \<le> unat FAT32_BAD_CLUSTER"
    "unat (first_data_sector vol) + table_size vol * unat (sectors_per_cluster vol) < 2 ^ 32"
  using assms by (simp_all add: vol_ok_def)

text \<open>Where the entry of a cluster lies.\<close>

lemma fat_entry_place:
  assumes v: "vol_ok vol" and c: "unat c < 2 ^ 28"
  defines "e \<equiv> unat (bytes_per_sector vol) div 4"
  shows "unat (c * 4 div bytes_per_sector vol) = unat c div e" "fat_idx vol c = 4 * (unat c mod e)" "fat_idx vol c + 4 \<le> unat (bytes_per_sector vol)" "0 < e"
proof -
  have b: "unat (bytes_per_sector vol) = 4 * e" "0 < e" using vol_okD(1,2) [OF v] by (auto simp: e_def)
  have c4: "unat (c * 4) = 4 * unat c" using c by (subst unat_mult_nowrap) simp_all
  show "0 < e" by fact
  show "unat (c * 4 div bytes_per_sector vol) = unat c div e" by (simp add: unat_div c4 b)
  have "unat (c * 4 mod bytes_per_sector vol div 4) = unat c mod e" by (simp add: unat_div unat_mod c4 b mult_mod_right [symmetric])
  then show "fat_idx vol c = 4 * (unat c mod e)" by (simp add: fat_idx_def)
  moreover have "unat c mod e < e" using b by simp
  ultimately show "fat_idx vol c + 4 \<le> unat (bytes_per_sector vol)" using b(1) by linarith
qed

lemma cluster_okD:
  assumes "vol_ok vol" "cluster_ok vol c"
  shows "unat c < 2 ^ 28" "2 \<le> unat c" "unat c < table_size vol" "c < FAT32_BAD_CLUSTER" "c \<noteq> 0"
  using assms vol_okD(6) [OF assms(1)] by (auto simp: cluster_ok_def word_less_nat_alt)

lemma fat_lba_value:
  assumes v: "vol_ok vol" and c: "unat c < table_size vol"
  shows "unat (fat_lba vol c) = unat (first_fat_sector vol) + unat c div (unat (bytes_per_sector vol) div 4)"
    "unat (fat_lba vol c) < unat (first_data_sector vol)"
proof -
  let ?e = "unat (bytes_per_sector vol) div 4"
  have c28: "unat c < 2 ^ 28" using c vol_okD(6) [OF v] by simp
  note p = fat_entry_place [OF v c28]
  have d: "unat c div ?e < unat (first_data_sector vol) - unat (first_fat_sector vol)"
    using c p(4) by (simp add: table_size_def less_mult_imp_div_less)
  have "unat (first_fat_sector vol) + unat c div ?e < 2 ^ 32" using d unsigned_less [of "first_data_sector vol", where 'a = nat] by simp
  then have "unat (first_fat_sector vol + c * 4 div bytes_per_sector vol) = unat (first_fat_sector vol) + unat c div ?e"
    by (subst unat_add_nowrap) (simp_all add: p(1))
  then show "unat (fat_lba vol c) = unat (first_fat_sector vol) + unat c div ?e" by (simp add: fat_lba_def unat_ucast_up)
  with d show "unat (fat_lba vol c) < unat (first_data_sector vol)" by simp
qed

lemma fat_entry_inj:
  assumes v: "vol_ok vol" and c: "unat c < table_size vol" "unat c' < table_size vol"
    and "fat_lba vol c = fat_lba vol c'" "fat_idx vol c = fat_idx vol c'"
  shows "c = c'"
proof -
  let ?e = "unat (bytes_per_sector vol) div 4"
  have c28: "unat c < 2 ^ 28" "unat c' < 2 ^ 28" using c vol_okD(6) [OF v] by simp_all
  have "unat c div ?e = unat c' div ?e" using fat_lba_value(1) [OF v c(1)] fat_lba_value(1) [OF v c(2)] assms(4) by simp
  moreover have "unat c mod ?e = unat c' mod ?e" using fat_entry_place(2) [OF v c28(1)] fat_entry_place(2) [OF v c28(2)] assms(5) by simp
  ultimately show ?thesis by (metis div_mult_mod_eq word_unat_eq_iff)
qed

lemma cluster_sector_value:
  assumes v: "vol_ok vol" and c: "cluster_ok vol c"
  shows "unat (cluster_to_sector vol c) = unat (first_data_sector vol) + (unat c - 2) * unat (sectors_per_cluster vol)"
proof -
  let ?k = "unat (sectors_per_cluster vol)"
  have le: "(unat c - 2) * ?k \<le> table_size vol * ?k" using cluster_okD(3) [OF v c] by (intro mult_le_mono1) simp
  have s: "unat (c - 2) = unat c - 2" using cluster_okD(2) [OF v c] by (subst unat_sub) (simp_all add: word_le_nat_alt)
  have lt: "unat (first_data_sector vol) + (unat c - 2) * ?k < 2 ^ 32" using le vol_okD(7) [OF v] by linarith
  then have m: "unat ((c - 2) * sectors_per_cluster vol) = (unat c - 2) * ?k" by (subst unat_mult_nowrap) (simp_all add: s)
  have "unat (first_data_sector vol + (c - 2) * sectors_per_cluster vol) = unat (first_data_sector vol) + (unat c - 2) * ?k"
    using lt by (subst unat_add_nowrap) (simp_all add: m)
  then show ?thesis by (simp add: cluster_to_sector_def unat_ucast_up)
qed

text \<open>Writing sectors and reading them back.\<close>

lemma put_sectors_get:
  assumes "j < n" "n \<le> 2 ^ 32"
  shows "put_sectors ss lba x n d (lba + of_nat j) = take ss (drop (j * ss) x)"
  using assms
proof (induction n)
  case (Suc n)
  show ?case
  proof (cases "j = n")
    case False
    have "unat (of_nat j :: u64) = j" "unat (of_nat n :: u64) = n" using Suc.prems by (simp_all add: unat_of_nat_id)
    then have "(of_nat j :: u64) \<noteq> of_nat n" using False by metis
    with Suc False show ?thesis by simp
  qed simp
qed simp

lemma put_sectors_other:
  assumes "\<And>j. j < n \<Longrightarrow> l \<noteq> lba + of_nat j"
  shows "put_sectors ss lba x n d l = d l"
  using assms by (induction n) simp_all

lemma put_sectors_length:
  assumes "\<And>l. length (d l) = ss" "n * ss \<le> length x"
  shows "length (put_sectors ss lba x n d l) = ss"
  using assms by (induction n) (simp_all add: add.commute)

lemma concat_slices: "concat (map (\<lambda>j. take ss (drop (j * ss) x)) [0..<n]) = take (n * ss) x"
proof (induction n)
  case (Suc n)
  then show ?case by (simp add: take_add [symmetric] add.commute)
qed simp

lemma cdata_length: "disk_ok vol d \<Longrightarrow> vol_ok vol \<Longrightarrow> length (cdata vol d c) = unat (bytes_per_cluster vol)"
  by (simp add: cdata_def disk_ok_def length_concat comp_def sum_list_triv vol_okD(4) mult.commute)

lemma cluster_sector_less:
  assumes v: "vol_ok vol" and c: "cluster_ok vol c" and j: "j < unat (sectors_per_cluster vol)"
  shows "unat (cluster_to_sector vol c + of_nat j) = unat (first_data_sector vol) + (unat c - 2) * unat (sectors_per_cluster vol) + j"
proof -
  let ?k = "unat (sectors_per_cluster vol)"
  have j32: "unat (of_nat j :: u64) = j" using j unsigned_less [of "sectors_per_cluster vol", where 'a = nat] by (simp add: unat_of_nat_id)
  have le: "(unat c - 2) * ?k \<le> table_size vol * ?k" using cluster_okD(3) [OF v c] by (intro mult_le_mono1) simp
  have k: "?k < 2 ^ 32" using unsigned_less [of "sectors_per_cluster vol", where 'a = nat] by simp
  have "unat (first_data_sector vol) + (unat c - 2) * ?k + j < 2 ^ 32 + 2 ^ 32"
    using le j k vol_okD(7) [OF v] by linarith
  also have "(2 :: nat) ^ 32 + 2 ^ 32 \<le> 2 ^ 64" by simp
  finally have "unat (first_data_sector vol) + (unat c - 2) * ?k + j < 2 ^ 64" .
  then show ?thesis by (subst unat_add_nowrap) (simp_all add: cluster_sector_value [OF v c] j32)
qed

lemma cluster_sectors_disjoint:
  assumes v: "vol_ok vol" and c: "cluster_ok vol c" "cluster_ok vol c'" "c \<noteq> c'"
    and j: "j < unat (sectors_per_cluster vol)" "j' < unat (sectors_per_cluster vol)"
  shows "cluster_to_sector vol c + of_nat j \<noteq> cluster_to_sector vol c' + of_nat j'"
proof
  let ?k = "unat (sectors_per_cluster vol)"
  assume "cluster_to_sector vol c + of_nat j = cluster_to_sector vol c' + of_nat j'"
  then have "(unat c - 2) * ?k + j = (unat c' - 2) * ?k + j'"
    using cluster_sector_less [OF v c(1) j(1)] cluster_sector_less [OF v c(2) j(2)] by simp
  then have "((unat c - 2) * ?k + j) div ?k = ((unat c' - 2) * ?k + j') div ?k" by simp
  then have "unat c - 2 = unat c' - 2" using j by simp
  then have "unat c = unat c'" using cluster_okD(2) [OF v c(1)] cluster_okD(2) [OF v c(2)] by simp
  with c(3) show False by (simp add: word_unat_eq_iff)
qed

lemma cdata_put_get:
  assumes v: "vol_ok vol" and c: "cluster_ok vol c" "cluster_ok vol c'" and x: "length x = unat (bytes_per_cluster vol)"
  shows "cdata vol (cdata_put vol c x d) c' = (if c' = c then x else cdata vol d c')"
proof (cases "c' = c")
  case True
  have k: "unat (sectors_per_cluster vol) \<le> 2 ^ 32" using unsigned_less [of "sectors_per_cluster vol", where 'a = nat] by simp
  have "cdata vol (cdata_put vol c x d) c = concat (map (\<lambda>j. take (unat (bytes_per_sector vol)) (drop (j * unat (bytes_per_sector vol)) x))
      [0..<unat (sectors_per_cluster vol)])"
    unfolding cdata_def cdata_put_def by (intro arg_cong [where f = concat] map_cong refl put_sectors_get k) simp
  also have "\<dots> = x" unfolding concat_slices by (simp add: x vol_okD(4) [OF v] mult.commute)
  finally show ?thesis using True by simp
next
  case False
  have "cdata_put vol c x d (cluster_to_sector vol c' + of_nat j) = d (cluster_to_sector vol c' + of_nat j)"
    if "j < unat (sectors_per_cluster vol)" for j
    unfolding cdata_put_def using cluster_sectors_disjoint [OF v c(2,1) False that] by (intro put_sectors_other) blast
  then have "cdata vol (cdata_put vol c x d) c' = cdata vol d c'"
    unfolding cdata_def by (intro arg_cong [where f = concat] map_cong) simp_all
  with False show ?thesis by simp
qed

lemma fat_lba_not_data:
  assumes v: "vol_ok vol" and c: "unat c < table_size vol" "cluster_ok vol c'" "j < unat (sectors_per_cluster vol)"
  shows "fat_lba vol c \<noteq> cluster_to_sector vol c' + of_nat j"
  using fat_lba_value(2) [OF v c(1)] cluster_sector_less [OF v c(2,3)] by auto

lemma tab_cdata_put:
  assumes "vol_ok vol" "cluster_ok vol c" "unat c' < table_size vol"
  shows "tab vol (cdata_put vol c x d) c' = tab vol d c'"
proof -
  have "cdata_put vol c x d (fat_lba vol c') = d (fat_lba vol c')"
    unfolding cdata_put_def using fat_lba_not_data [OF assms(1,3,2)] by (intro put_sectors_other) blast
  then show ?thesis by (simp add: tab_def)
qed

lemma cdata_tab_put:
  assumes "vol_ok vol" "unat c < table_size vol" "cluster_ok vol c'"
  shows "cdata vol (tab_put vol c v d) c' = cdata vol d c'"
proof -
  have "tab_put vol c v d (cluster_to_sector vol c' + of_nat j) = d (cluster_to_sector vol c' + of_nat j)"
    if "j < unat (sectors_per_cluster vol)" for j
    using fat_lba_not_data [OF assms that] by (simp add: tab_put_def Let_def)
  then show ?thesis unfolding cdata_def by (intro arg_cong [where f = concat] map_cong) simp_all
qed

lemma rd32_at: "length a = i \<Longrightarrow> rd32 (a @ le32 v @ b) i = v"
  by (simp add: rd32_def le32_def nth_append)

lemma rd32_take_drop:
  assumes "i + 4 \<le> length x" "j + 4 \<le> i \<or> i + 4 \<le> j" "length y = 4"
  shows "rd32 (take i x @ y @ drop (i + 4) x) j = rd32 x j"
proof -
  have e: "(take i x @ y @ drop (i + 4) x) ! k = x ! k" if "j \<le> k" "k < j + 4" for k
    using assms that by (auto simp: nth_append)
  show ?thesis unfolding rd32_def using e [of j] e [of "j + 1"] e [of "j + 2"] e [of "j + 3"] by simp
qed

lemma masked_entry: "((r AND 0xF0000000) OR (v AND FAT32_MASK)) AND FAT32_MASK = v AND (FAT32_MASK :: u32)"
proof -
  have "(r AND 0xF0000000) AND FAT32_MASK = (0 :: u32)" by (simp add: and.assoc)
  then show ?thesis by (simp add: bit.conj_disj_distrib2 and.assoc)
qed

text \<open>A store into the table changes one entry.\<close>

lemma tab_put_get:
  assumes v: "vol_ok vol" and d: "disk_ok vol d" and c: "unat c < table_size vol" "unat c' < table_size vol"
  shows "tab vol (tab_put vol c w d) c' = (if c' = c then w AND FAT32_MASK else tab vol d c')"
proof -
  have c28: "unat c < 2 ^ 28" "unat c' < 2 ^ 28" using c vol_okD(6) [OF v] by simp_all
  let ?x = "d (fat_lba vol c)" and ?i = "fat_idx vol c"
  have len: "length ?x = unat (bytes_per_sector vol)" using d by (simp add: disk_ok_def)
  have i: "?i + 4 \<le> length ?x" using fat_entry_place(3) [OF v c28(1)] len by simp
  show ?thesis
  proof (cases "c' = c")
    case True
    then show ?thesis using i rd32_at [of "take ?i ?x" ?i] by (simp add: tab_def tab_put_def Let_def masked_entry)
  next
    case False
    show ?thesis
    proof (cases "fat_lba vol c' = fat_lba vol c")
      case True
      have "fat_idx vol c' \<noteq> ?i" using fat_entry_inj [OF v c(2,1) True] False by blast
      then have "fat_idx vol c' + 4 \<le> ?i \<or> ?i + 4 \<le> fat_idx vol c'"
        using fat_entry_place(2) [OF v c28(1)] fat_entry_place(2) [OF v c28(2)] by simp linarith
      from rd32_take_drop [OF i this] show ?thesis using True False by (simp add: tab_def tab_put_def Let_def)
    qed (use False in \<open>simp add: tab_def tab_put_def Let_def\<close>)
  qed
qed

lemma disk_ok_tab_put:
  assumes "vol_ok vol" "disk_ok vol d" "unat c < 2 ^ 28"
  shows "disk_ok vol (tab_put vol c w d)"
  using fat_entry_place(3) [OF assms(1,3)] assms(2) by (simp add: disk_ok_def tab_put_def Let_def)

lemma disk_ok_cdata_put:
  assumes "vol_ok vol" "disk_ok vol d" "length x = unat (bytes_per_cluster vol)"
  shows "disk_ok vol (cdata_put vol c x d)"
  using assms unfolding disk_ok_def cdata_put_def by (intro allI put_sectors_length) (simp_all add: vol_okD(4))

section \<open>Requests\<close>

lemma pool_get_put [simp]: "pool_put sz (m\<lparr>held := sz # h\<rparr>) = Some (m\<lparr>held := h\<rparr>)"
  by (simp add: pool_put_def)

lemma get_next_spec:
  assumes v: "vol_ok vol" and m: "med_ok vol m" and c: "unat c < 2 ^ 28"
  shows "\<exists>r t. fat32_get_next_cluster E vol c m = Some (r, m\<lparr>ticks := t\<rparr>) \<and> (r = FAT32_BAD_CLUSTER \<or> r = tab vol (sectors m) c) \<and>
     (reliable E \<longrightarrow> r = tab vol (sectors m) c)"
proof -
  have b: "bytes_per_sector vol \<noteq> 0" using vol_okD(1) [OF v] by auto
  have len: "length (sectors m (fat_lba vol c)) = unat (bytes_per_sector vol)" using m by (simp add: disk_ok_def)
  note i = fat_entry_place(3) [OF v c]
  show ?thesis
    using b len i unfolding fat32_get_next_cluster_def pool_get_def read_blocks_def Let_def
    by (auto simp: fat_lba_def [symmetric] fat_idx_def [symmetric] tab_def reliable_def pool_put_def)
qed

lemma set_cluster_spec:
  assumes v: "vol_ok vol" and m: "med_ok vol m" and c: "unat c < 2 ^ 28"
  shows "\<exists>r t d. fat32_set_cluster E vol c w m = Some (r, m\<lparr>ticks := t, sectors := d\<rparr>) \<and> (d = sectors m \<or> d = tab_put vol c w (sectors m)) \<and>
     (r = 0 \<or> r = -1) \<and> (r = 0 \<longrightarrow> d = tab_put vol c w (sectors m)) \<and> (reliable E \<longrightarrow> r = 0)"
proof -
  let ?x = "sectors m (fat_lba vol c)" and ?i = "fat_idx vol c"
  define y where "y = take ?i ?x @ le32 ((rd32 ?x ?i AND 0xF0000000) OR (w AND FAT32_MASK)) @ drop (?i + 4) ?x"
  have b: "bytes_per_sector vol \<noteq> 0" using vol_okD(1) [OF v] by auto
  have len: "length ?x = unat (bytes_per_sector vol)" using m by (simp add: disk_ok_def)
  note i = fat_entry_place(3) [OF v c]
  have cp: "memcpy_at ?x ?i (le32 ((rd32 ?x ?i AND 0xF0000000) OR (w AND FAT32_MASK))) 4 = Some y"
    unfolding y_def using i len by (subst memcpy_at_eq) simp_all
  have y: "length y = unat (bytes_per_sector vol)" unfolding y_def using i len by simp
  have t: "tab_put vol c w (sectors m) = (sectors m)(fat_lba vol c := y)" by (simp add: tab_put_def Let_def y_def)
  have w: "\<exists>r d. write_blocks E (fat_lba vol c) 1 y m1 = Some (r, (tick m1)\<lparr>sectors := d\<rparr>) \<and> (d = sectors m \<or> d = tab_put vol c w (sectors m)) \<and>
      (r = 0 \<or> r = -1) \<and> (r = 0 \<longrightarrow> d = tab_put vol c w (sectors m)) \<and> (reliable E \<longrightarrow> r = 0)"
    if "sector_size m1 = sector_size m" "sectors m1 = sectors m" for m1
  proof (cases "dev_writes E (ticks m1)")
    case None
    then show ?thesis using that m y by (simp add: write_blocks_def Let_def t)
  next
    case (Some k)
    then have "\<not> reliable E" by (auto simp: reliable_def)
    moreover have "min (unat k) (unat (1 :: u32)) = 0 \<or> min (unat k) (unat (1 :: u32)) = 1" by auto
    ultimately show ?thesis using Some that m y by (auto simp: write_blocks_def Let_def t)
  qed
  show ?thesis
  proof (cases "pool_gives E (ticks m) \<and> dev_reads E (Suc (ticks m))")
    case True
    let ?m1 = "m\<lparr>held := bytes_per_sector vol # held m, ticks := Suc (Suc (ticks m))\<rparr>"
    obtain r d where w1: "write_blocks E (fat_lba vol c) 1 y ?m1 = Some (r, (tick ?m1)\<lparr>sectors := d\<rparr>)"
      and rd: "d = sectors m \<or> d = tab_put vol c w (sectors m)" "r = 0 \<or> r = -1" "r = 0 \<longrightarrow> d = tab_put vol c w (sectors m)" "reliable E \<longrightarrow> r = 0"
      using w [of ?m1] by auto
    have "fat32_set_cluster E vol c w m = Some (r, m\<lparr>ticks := Suc (Suc (Suc (ticks m))), sectors := d\<rparr>)"
      using b len True w1 cp rd(2) unfolding fat32_set_cluster_def pool_get_def read_blocks_def Let_def
      by (auto simp: fat_lba_def [symmetric] fat_idx_def [symmetric] pool_put_def)
    with rd show ?thesis by blast
  next
    case False
    then have "\<not> reliable E" by (auto simp: reliable_def)
    moreover from False have "\<exists>t. fat32_set_cluster E vol c w m = Some (-1, m\<lparr>ticks := t\<rparr>)"
      using b unfolding fat32_set_cluster_def pool_get_def read_blocks_def Let_def by (auto simp: pool_put_def)
    moreover have "m\<lparr>ticks := t\<rparr> = m\<lparr>ticks := t, sectors := sectors m\<rparr>" for t by simp
    ultimately show ?thesis by (metis zero_neq_neg_one)
  qed
qed

text \<open>Looking for a free entry: the entry \<open>i\<close> of the \<open>n\<close>-th sector of the table.\<close>

lemma table_entry:
  assumes v: "vol_ok vol" and n: "n < unat (first_data_sector vol) - unat (first_fat_sector vol)" and i: "i < unat (bytes_per_sector vol div 4)"
  defines "c \<equiv> (of_nat n * (bytes_per_sector vol div 4) + of_nat i :: u32)" and "e \<equiv> unat (bytes_per_sector vol) div 4"
  shows "unat c = n * e + i" "unat c < table_size vol"
    "rd32 (d (ucast (first_fat_sector vol + of_nat n))) (4 * i) AND FAT32_MASK = tab vol d c"
proof -
  have ie: "i < e" using i by (simp add: e_def unat_div)
  have "n * e + i < Suc n * e" using ie by simp
  also have "Suc n * e \<le> (unat (first_data_sector vol) - unat (first_fat_sector vol)) * e" using n by (intro mult_le_mono1) simp
  finally have lt: "n * e + i < table_size vol" by (simp add: table_size_def e_def)
  then have b: "n * e + i < 2 ^ 28" using vol_okD(6) [OF v] by simp
  have n32: "n < 2 ^ 32" using n unsigned_less [of "first_data_sector vol", where 'a = nat] by simp
  have "unat (of_nat n * (bytes_per_sector vol div 4)) = n * e"
    using b n32 by (subst unat_mult_nowrap) (simp_all add: unat_of_nat_id unat_div e_def)
  moreover have "i < 2 ^ 32" using b by simp
  ultimately show u: "unat c = n * e + i" unfolding c_def using b by (subst unat_add_nowrap) (simp_all add: unat_of_nat_id)
  show ct: "unat c < table_size vol" using lt u by simp
  have c28: "unat c < 2 ^ 28" using b u by simp
  note pl = fat_entry_place [OF v c28, folded e_def]
  have "unat (c * 4 div bytes_per_sector vol) = n" using pl(1,4) u ie by simp
  then have "c * 4 div bytes_per_sector vol = of_nat n" using n32 by (metis of_nat_unat ucast_id)
  moreover have "fat_idx vol c = 4 * i" using pl(2) u ie by simp
  ultimately show "rd32 (d (ucast (first_fat_sector vol + of_nat n))) (4 * i) AND FAT32_MASK = tab vol d c"
    by (simp add: tab_def fat_lba_def)
qed

text \<open>What a request for a cluster gives: the lowest free one, now marked as the end of a chain; or none, and then the table is as
  before, or the mark was stored by a transfer that reported an error.\<close>

definition allocated :: "fat32_volume \<Rightarrow> (u64 \<Rightarrow> u8 list) \<Rightarrow> u32 \<Rightarrow> (u64 \<Rightarrow> u8 list) \<Rightarrow> bool" where
  "allocated vol d c d' \<longleftrightarrow> cluster_ok vol c \<and> tab vol d c = 0 \<and> (\<forall>c'. cluster_ok vol c' \<and> c' < c \<longrightarrow> tab vol d c' \<noteq> 0) \<and>
     d' = tab_put vol c FAT32_EOF d"

definition full :: "fat32_volume \<Rightarrow> (u64 \<Rightarrow> u8 list) \<Rightarrow> bool" where
  "full vol d \<longleftrightarrow> (\<forall>c. cluster_ok vol c \<longrightarrow> tab vol d c \<noteq> 0)"

definition alloc_result :: "outcomes \<Rightarrow> fat32_volume \<Rightarrow> (u64 \<Rightarrow> u8 list) \<Rightarrow> u32 \<Rightarrow> (u64 \<Rightarrow> u8 list) \<Rightarrow> bool" where
  "alloc_result E vol d r d' \<longleftrightarrow> (r \<noteq> FAT32_BAD_CLUSTER \<longrightarrow> allocated vol d r d') \<and>
     (r = FAT32_BAD_CLUSTER \<longrightarrow> d' = d \<or> (\<exists>c. allocated vol d c d')) \<and> (reliable E \<longrightarrow> (if full vol d then d' = d else r \<noteq> FAT32_BAD_CLUSTER))"

lemma alloc_sectors_spec:
  fixes vol :: fat32_volume
  defines "e \<equiv> unat (bytes_per_sector vol) div 4" and "N \<equiv> unat (first_data_sector vol) - unat (first_fat_sector vol)"
  assumes v: "vol_ok vol"
  shows "n \<le> N \<Longrightarrow> med_ok vol m \<Longrightarrow> held m = bytes_per_sector vol # h \<Longrightarrow> (\<And>c. cluster_ok vol c \<Longrightarrow> unat c < n * e \<Longrightarrow> tab vol (sectors m) c \<noteq> 0) \<Longrightarrow>
    \<exists>r t d. alloc_sectors E vol [n..<N] m = Some (r, m\<lparr>ticks := t, held := h, sectors := d\<rparr>) \<and> alloc_result E vol (sectors m) r d"
proof (induction "N - n" arbitrary: n m)
  case 0
  then have nN: "n = N" by simp
  have "tab vol (sectors m) c \<noteq> 0" if "cluster_ok vol c" for c
    by (rule "0.prems"(4) [OF that]) (use that nN in \<open>simp add: cluster_ok_def table_size_def e_def N_def\<close>)
  then have "alloc_result E vol (sectors m) FAT32_BAD_CLUSTER (sectors m)" by (simp add: alloc_result_def full_def)
  moreover have "alloc_sectors E vol [n..<N] m = Some (FAT32_BAD_CLUSTER, m\<lparr>ticks := ticks m, held := h, sectors := sectors m\<rparr>)"
    using 0 by (simp add: pool_put_def)
  ultimately show ?case by blast
next
  case (Suc k)
  let ?P = "\<lambda>x i. \<not> of_nat n * (bytes_per_sector vol div 4) + of_nat i < (2 :: u32) \<and> rd32 x (4 * i) AND FAT32_MASK = 0"
  let ?x = "sectors m (ucast (first_fat_sector vol + of_nat n))"
  let ?c = "\<lambda>i. of_nat n * (bytes_per_sector vol div 4) + of_nat i :: u32"
  have n: "n < N" and k: "k = N - Suc n" using Suc.hyps by simp_all
  then have u: "[n..<N] = n # [Suc n..<N]" by (simp add: upt_conv_Cons)
  note te = table_entry [OF v n [unfolded N_def], folded e_def]
  have ue: "unat (bytes_per_sector vol div 4) = e" by (simp add: e_def unat_div)
  have len: "length ?x = unat (bytes_per_sector vol)" using Suc.prems(2) by (simp add: disk_ok_def)
  have ok: "?P ?x i \<longleftrightarrow> cluster_ok vol (?c i) \<and> tab vol (sectors m) (?c i) = 0" if "i < unat (bytes_per_sector vol div 4)" for i
    using te [OF that] by (simp add: cluster_ok_def word_less_nat_alt not_less)
  have least: "tab vol (sectors m) c' \<noteq> 0" if c': "cluster_ok vol c'" "unat c' < n * e + j" "j \<le> unat (bytes_per_sector vol div 4)"
    and P: "\<And>i. i < j \<Longrightarrow> \<not> ?P ?x i" for c' j
  proof (cases "unat c' < n * e")
    case False
    define i where "i = unat c' - n * e"
    have i: "i < j" using c' False by (simp add: i_def)
    have "unat (?c i) = n * e + i" by (rule te(1)) (use i c'(3) in simp)
    then have "?c i = c'" using False by (simp add: word_unat_eq_iff i_def)
    with ok [of i] P [OF i] i c' show ?thesis by auto
  qed (use Suc.prems(4) c' in blast)
  show ?case
  proof (cases "dev_reads E (ticks m)")
    case False
    then have "alloc_sectors E vol [n..<N] m = Some (FAT32_BAD_CLUSTER, m\<lparr>ticks := Suc (ticks m), held := h, sectors := sectors m\<rparr>)"
      using Suc.prems(3) by (simp add: u read_blocks_def pool_put_def)
    moreover have "alloc_result E vol (sectors m) FAT32_BAD_CLUSTER (sectors m)" using False by (auto simp: alloc_result_def reliable_def)
    ultimately show ?thesis by blast
  next
    case True
    show ?thesis
    proof (cases "find (?P ?x) [0..<unat (bytes_per_sector vol div 4)]")
      case None
      then have none: "\<not> ?P ?x i" if "i < unat (bytes_per_sector vol div 4)" for i using that unfolding find_None_iff by auto
      have "tab vol (sectors (tick m)) c \<noteq> 0" if "cluster_ok vol c" "unat c < Suc n * e" for c
        using least [OF that(1) _ order_refl none] that(2) ue by (simp add: add.commute)
      then obtain r t d where "alloc_sectors E vol [Suc n..<N] (tick m) = Some (r, (tick m)\<lparr>ticks := t, held := h, sectors := d\<rparr>)"
          "alloc_result E vol (sectors (tick m)) r d"
        using Suc.hyps(1) [of "Suc n" "tick m"] k Suc.prems(2,3) n by auto
      then show ?thesis using True None len by (auto simp: u read_blocks_def)
    next
      case (Some i)
      then have i: "i < unat (bytes_per_sector vol div 4)" "?P ?x i" "\<And>j. j < i \<Longrightarrow> \<not> ?P ?x j"
        unfolding find_Some_iff by (auto simp del: upt_Suc)
      have c: "cluster_ok vol (?c i)" "tab vol (sectors m) (?c i) = 0" using ok [OF i(1)] i(2) by simp_all
      have a: "allocated vol (sectors m) (?c i) (tab_put vol (?c i) FAT32_EOF (sectors m))"
        using c least [of _ i] i(1,3) te(1) [OF i(1)] unfolding allocated_def by (simp add: word_less_nat_alt)
      let ?m2 = "m\<lparr>ticks := Suc (ticks m), held := h\<rparr>"
      obtain r t d where st: "fat32_set_cluster E vol (?c i) FAT32_EOF ?m2 = Some (r, ?m2\<lparr>ticks := t, sectors := d\<rparr>)"
        "d = sectors m \<or> d = tab_put vol (?c i) FAT32_EOF (sectors m)" "r = 0 \<or> r = -1" "r = 0 \<longrightarrow> d = tab_put vol (?c i) FAT32_EOF (sectors m)" "reliable E \<longrightarrow> r = 0"
        using set_cluster_spec [OF v, of ?m2 "?c i" E FAT32_EOF] Suc.prems(2) cluster_okD(1) [OF v c(1)] by auto
      have "alloc_sectors E vol [n..<N] m = Some (if r \<noteq> 0 then FAT32_BAD_CLUSTER else ?c i, m\<lparr>ticks := t, held := h, sectors := d\<rparr>)"
        using True len Some st(1) Suc.prems(3) by (simp add: u read_blocks_def pool_put_def)
      moreover have "?c i \<noteq> FAT32_BAD_CLUSTER" using cluster_okD(4) [OF v c(1)] by auto
      moreover have "\<not> full vol (sectors m)" using c by (auto simp: full_def)
      ultimately show ?thesis using st(2-5) a by (auto simp: alloc_result_def)
    qed
  qed
qed

lemma allocate_spec:
  assumes v: "vol_ok vol" and m: "med_ok vol m"
  shows "\<exists>r t d. fat32_allocate_cluster E vol m = Some (r, m\<lparr>ticks := t, sectors := d\<rparr>) \<and> alloc_result E vol (sectors m) r d"
proof (cases "pool_gives E (ticks m)")
  case True
  let ?m1 = "(tick m)\<lparr>held := bytes_per_sector vol # held m\<rparr>"
  have "unat (first_data_sector vol - first_fat_sector vol) = unat (first_data_sector vol) - unat (first_fat_sector vol)"
    using vol_okD(5) [OF v] by (simp add: unat_sub word_le_nat_alt)
  moreover obtain r t d where "alloc_sectors E vol [0..<unat (first_data_sector vol) - unat (first_fat_sector vol)] ?m1 = Some (r, ?m1\<lparr>ticks := t, held := held m, sectors := d\<rparr>)"
      "alloc_result E vol (sectors ?m1) r d"
    using alloc_sectors_spec [OF v, of 0 ?m1 "held m" E] m by auto
  ultimately show ?thesis using True by (auto simp: fat32_allocate_cluster_def pool_get_def)
next
  case False
  then have "fat32_allocate_cluster E vol m = Some (FAT32_BAD_CLUSTER, m\<lparr>ticks := Suc (ticks m), sectors := sectors m\<rparr>)"
    by (simp add: fat32_allocate_cluster_def pool_get_def)
  moreover have "alloc_result E vol (sectors m) FAT32_BAD_CLUSTER (sectors m)" using False by (auto simp: alloc_result_def reliable_def)
  ultimately show ?thesis by blast
qed

section \<open>Chains\<close>

fun linked :: "(u32 \<Rightarrow> u32) \<Rightarrow> u32 list \<Rightarrow> bool" where
  "linked t [] \<longleftrightarrow> False"
| "linked t [c] \<longleftrightarrow> FAT32_EOF \<le> t c"
| "linked t (c # d # cs) \<longleftrightarrow> t c = d \<and> linked t (d # cs)"

definition chain_ok :: "fat32_volume \<Rightarrow> (u64 \<Rightarrow> u8 list) \<Rightarrow> u32 list \<Rightarrow> bool" where
  "chain_ok vol d cs \<longleftrightarrow> linked (tab vol d) cs \<and> distinct cs \<and> (\<forall>c \<in> set cs. cluster_ok vol c)"

definition file_bytes :: "fat32_volume \<Rightarrow> (u64 \<Rightarrow> u8 list) \<Rightarrow> u32 list \<Rightarrow> u8 list" where
  "file_bytes vol d cs = concat (map (cdata vol d) cs)"

lemma file_bytes_simps [simp]:
  "file_bytes vol d [] = []" "file_bytes vol d (c # cs) = cdata vol d c @ file_bytes vol d cs"
  "file_bytes vol d (cs @ bs) = file_bytes vol d cs @ file_bytes vol d bs"
  by (simp_all add: file_bytes_def)

lemma file_bytes_length:
  "disk_ok vol d \<Longrightarrow> vol_ok vol \<Longrightarrow> length (file_bytes vol d cs) = unat (bytes_per_cluster vol) * length cs"
  by (induction cs) (simp_all add: cdata_length)

lemma linked_suffix: "linked t (as @ c # bs) \<Longrightarrow> linked t (c # bs)"
proof (induction as)
  case (Cons a as)
  then show ?case by (cases as) auto
qed simp

lemma chain_bound:
  assumes "vol_ok vol" "chain_ok vol d cs"
  shows "unat (bytes_per_cluster vol) * length cs < 2 ^ 60"
proof -
  have "unat ` set cs \<subseteq> {..<2 ^ 28}" using assms cluster_okD(1) by (auto simp: chain_ok_def)
  then have "card (unat ` set cs) \<le> 2 ^ 28" using card_mono [of "{..<(2 :: nat) ^ 28}"] by simp
  moreover have "card (unat ` set cs) = length cs"
    using assms(2) by (subst card_image) (auto simp: chain_ok_def distinct_card inj_on_def word_unat_eq_iff)
  moreover have "unat (bytes_per_cluster vol) < 2 ^ 32" using unsigned_less [of "bytes_per_cluster vol", where 'a = nat] by simp
  ultimately have "unat (bytes_per_cluster vol) * length cs \<le> unat (bytes_per_cluster vol) * 2 ^ 28" "unat (bytes_per_cluster vol) * 2 ^ 28 < 2 ^ 32 * 2 ^ 28"
    by simp_all
  then have "unat (bytes_per_cluster vol) * length cs < 2 ^ 32 * 2 ^ 28" by (rule le_less_trans)
  also have "(2 :: nat) ^ 32 * 2 ^ 28 = 2 ^ 60" by simp
  finally show ?thesis .
qed

lemma end_mark: "c < FAT32_BAD_CLUSTER \<Longrightarrow> \<not> (FAT32_EOF \<le> c \<or> c = FAT32_BAD_CLUSTER)"
  by (auto simp: word_less_nat_alt word_le_nat_alt)

lemma read_seek_spec:
  assumes v: "vol_ok vol"
  shows "med_ok vol m \<Longrightarrow> linked (tab vol (sectors m)) (c # cs) \<Longrightarrow> (\<forall>x \<in> set (c # cs). cluster_ok vol x) \<Longrightarrow>
    unat cur \<le> unat off \<Longrightarrow> unat off < unat cur + unat (bytes_per_cluster vol) * length (c # cs) \<Longrightarrow>
    unat cur + unat (bytes_per_cluster vol) * length (c # cs) < 2 ^ 64 \<Longrightarrow>
    \<exists>r cur' t. read_seek E vol off c cur m = Some (r, cur', m\<lparr>ticks := t\<rparr>) \<and>
      (case r of None \<Rightarrow> \<not> reliable E
       | Some c' \<Rightarrow> \<exists>as bs. c # cs = as @ c' # bs \<and> unat cur' = unat cur + unat (bytes_per_cluster vol) * length as \<and>
           unat cur' \<le> unat off \<and> unat off < unat cur' + unat (bytes_per_cluster vol))"
proof (induction cs arbitrary: c cur m)
  case (Nil c cur m)
  have "unat (cur + ucast (bytes_per_cluster vol)) = unat cur + unat (bytes_per_cluster vol)"
    using Nil.prems by (subst unat_add_nowrap) (simp_all add: unat_ucast_up)
  then have "\<not> cur + ucast (bytes_per_cluster vol) \<le> off" using Nil.prems by (simp add: word_le_nat_alt)
  then have "read_seek E vol off c cur m = Some (Some c, cur, m\<lparr>ticks := ticks m\<rparr>)" by (subst read_seek.simps) simp
  moreover have "[c] = [] @ c # []" by simp
  ultimately show ?case using Nil.prems by fastforce
next
  case (Cons c2 cs c cur m)
  let ?B = "unat (bytes_per_cluster vol)" and ?cur = "cur + ucast (bytes_per_cluster vol)"
  have u: "unat ?cur = unat cur + ?B" using Cons.prems by (subst unat_add_nowrap) (simp_all add: unat_ucast_up)
  show ?case
  proof (cases "?cur \<le> off")
    case False
    then have "read_seek E vol off c cur m = Some (Some c, cur, m\<lparr>ticks := ticks m\<rparr>)" by (subst read_seek.simps) simp
    moreover have "c # c2 # cs = [] @ c # (c2 # cs)" by simp
    moreover have "unat off < unat cur + ?B" using False u by (simp add: word_le_nat_alt)
    ultimately show ?thesis using Cons.prems(4) by fastforce
  next
    case True
    have c: "unat c < 2 ^ 28" using cluster_okD(1) [OF v] Cons.prems(3) by simp
    obtain r t where g: "fat32_get_next_cluster E vol c m = Some (r, m\<lparr>ticks := t\<rparr>)" "r = FAT32_BAD_CLUSTER \<or> r = c2" "reliable E \<longrightarrow> r = c2"
      using get_next_spec [OF v Cons.prems(1) c, of E] Cons.prems(2) by auto
    have c2: "c2 < FAT32_BAD_CLUSTER" using cluster_okD(4) [OF v] Cons.prems(3) by simp
    show ?thesis
    proof (cases "r = FAT32_BAD_CLUSTER")
      case bad: True
      have "read_seek E vol off c cur m = Some (None, cur, m\<lparr>ticks := t\<rparr>)" using True bad g(1) by (subst read_seek.simps) simp
      moreover have "\<not> reliable E" using bad g(3) c2 by auto
      ultimately show ?thesis by fastforce
    next
      case False
      then have r: "r = c2" using g(2) by blast
      let ?m = "m\<lparr>ticks := t\<rparr>"
      have rs: "read_seek E vol off c cur m = read_seek E vol off c2 ?cur ?m"
        using True g(1) end_mark [OF c2] by (subst read_seek.simps) (simp add: r)
      obtain r' cur' t' where ih: "read_seek E vol off c2 ?cur ?m = Some (r', cur', ?m\<lparr>ticks := t'\<rparr>)"
        "case r' of None \<Rightarrow> \<not> reliable E | Some c' \<Rightarrow> \<exists>as bs. c2 # cs = as @ c' # bs \<and> unat cur' = unat ?cur + ?B * length as \<and>
           unat cur' \<le> unat off \<and> unat off < unat cur' + ?B"
        using Cons.IH [of ?m c2 ?cur] Cons.prems True u by (auto simp: word_le_nat_alt)
      have "case r' of None \<Rightarrow> \<not> reliable E | Some c' \<Rightarrow> \<exists>as bs. c # c2 # cs = as @ c' # bs \<and> unat cur' = unat cur + ?B * length as \<and>
           unat cur' \<le> unat off \<and> unat off < unat cur' + ?B"
      proof (cases r')
        case (Some c')
        with ih(2) obtain as bs where "c2 # cs = as @ c' # bs" "unat cur' = unat ?cur + ?B * length as" "unat cur' \<le> unat off" "unat off < unat cur' + ?B"
          by auto
        then have "c # c2 # cs = (c # as) @ c' # bs" "unat cur' = unat cur + ?B * length (c # as)" using u by simp_all
        with \<open>unat cur' \<le> unat off\<close> \<open>unat off < unat cur' + ?B\<close> show ?thesis unfolding Some option.case by blast
      qed (use ih(2) in simp)
      then show ?thesis using rs ih(1) by auto
    qed
  qed
qed

lemma read_cluster:
  assumes "vol_ok vol" "med_ok vol m"
  shows "read_blocks E (cluster_to_sector vol c) (sectors_per_cluster vol) (unat (bytes_per_cluster vol)) m =
     Some (if dev_reads E (ticks m) then Some (cdata vol (sectors m) c) else None, tick m)"
  using cdata_length [OF _ assms(1), of "sectors m" c] assms(2) by (simp add: read_blocks_def cdata_def)

text \<open>How many bytes one turn of the loops of read and write moves.\<close>

lemma turn_size:
  fixes B sz cnt :: u32 and off cur :: u64
  assumes "unat cur \<le> unat off + unat cnt" "unat off + unat cnt < unat cur + unat B" "unat cnt < unat sz" "unat off + unat sz < 2 ^ 64"
  defines "co \<equiv> (ucast (off + ucast cnt - cur) :: u32)"
  defines "n \<equiv> (if B - co > sz - cnt then sz - cnt else B - co)"
  shows "unat co = unat off + unat cnt - unat cur" "unat n = min (unat B - (unat off + unat cnt - unat cur)) (unat sz - unat cnt)" "unat (cnt + n) = unat cnt + unat n"
proof -
  let ?p = "unat off + unat cnt - unat cur"
  have pB: "?p < unat B" using assms(1,2) by linarith
  have a: "unat (off + ucast cnt) = unat off + unat cnt" using assms(3,4) by (subst unat_add_nowrap) (simp_all add: unat_ucast_up)
  have "unat (off + ucast cnt - cur) = ?p" using a assms(1) by (simp add: unat_sub word_le_nat_alt)
  then show co: "unat co = ?p" unfolding co_def
    using pB unsigned_less [of B, where 'a = nat] by (simp add: unsigned_ucast_eq take_bit_nat_eq_self)
  have s1: "unat (B - co) = unat B - ?p" using pB co by (simp add: unat_sub word_le_nat_alt)
  have s2: "unat (sz - cnt) = unat sz - unat cnt" using assms(3) by (simp add: unat_sub word_le_nat_alt)
  show n: "unat n = min (unat B - ?p) (unat sz - unat cnt)" unfolding n_def by (simp add: word_less_nat_alt s1 s2)
  have "unat cnt + unat n \<le> unat sz" unfolding n using assms(3) by linarith
  then show "unat (cnt + n) = unat cnt + unat n" using unsigned_less [of sz, where 'a = nat] by (subst unat_add_nowrap) simp_all
qed

lemma read_loop_turn:
  assumes v: "vol_ok vol" and m: "med_ok vol m" and p: "unat cur \<le> unat off + unat cnt" "unat off + unat cnt < unat cur + unat (bytes_per_cluster vol)"
    and sz: "unat cnt < unat sz" "unat off + unat sz < 2 ^ 64" and sp: "length out + (unat sz - unat cnt) \<le> space"
  defines "B \<equiv> unat (bytes_per_cluster vol)" and "q \<equiv> unat off + unat cnt - unat cur"
  shows "\<not> dev_reads E (ticks m) \<Longrightarrow> read_loop E vol off sz space c cur cnt out m = Some (cnt, out, tick m)"
    "dev_reads E (ticks m) \<Longrightarrow> unat sz - unat cnt \<le> B - q \<Longrightarrow>
       read_loop E vol off sz space c cur cnt out m = Some (sz, out @ take (unat sz - unat cnt) (drop q (cdata vol (sectors m) c)), tick m)"
    "dev_reads E (ticks m) \<Longrightarrow> B - q < unat sz - unat cnt \<Longrightarrow> \<exists>cnt'. unat cnt' = unat cnt + (B - q) \<and>
       read_loop E vol off sz space c cur cnt out m = do {
         (nxt, m2) \<leftarrow> fat32_get_next_cluster E vol c (tick m);
         if nxt \<ge> FAT32_EOF \<or> nxt = FAT32_BAD_CLUSTER then Some (cnt', out @ drop q (cdata vol (sectors m) c), m2)
         else read_loop E vol off sz space nxt (cur + ucast (bytes_per_cluster vol)) cnt' (out @ drop q (cdata vol (sectors m) c)) m2 }"
proof -
  let ?x = "cdata vol (sectors m) c"
  have less: "cnt < sz" using sz(1) by (simp add: word_less_nat_alt)
  have len: "length ?x = B" unfolding B_def by (rule cdata_length) (use m v in auto)
  have q: "q < B" unfolding q_def B_def using p by linarith
  note rc = read_cluster [OF v m]
  define co where "co = (ucast (off + ucast cnt - cur) :: u32)"
  define n where "n = (if bytes_per_cluster vol - co > sz - cnt then sz - cnt else bytes_per_cluster vol - co)"
  note ts = turn_size [OF p sz, folded co_def, folded n_def B_def q_def]
  show "read_loop E vol off sz space c cur cnt out m = Some (cnt, out, tick m)" if "\<not> dev_reads E (ticks m)"
    using that less by (subst read_loop.simps) (simp add: Let_def rc)
  have fit: "unat co + unat n \<le> length ?x \<and> length out + unat n \<le> space" using ts(1,2) len q sp by auto
  have st: "read_loop E vol off sz space c cur cnt out m = (if cnt + n < sz then do {
         (nxt, m2) \<leftarrow> fat32_get_next_cluster E vol c (tick m);
         if nxt \<ge> FAT32_EOF \<or> nxt = FAT32_BAD_CLUSTER then Some (cnt + n, out @ take (unat n) (drop q ?x), m2)
         else read_loop E vol off sz space nxt (cur + ucast (bytes_per_cluster vol)) (cnt + n) (out @ take (unat n) (drop q ?x)) m2 }
       else Some (cnt + n, out @ take (unat n) (drop q ?x), tick m))" if "dev_reads E (ticks m)"
    using that less fit by (subst read_loop.simps) (simp only: Let_def rc co_def [symmetric] n_def [symmetric] ts(1) if_True if_False simp_thms
      Option.bind.simps prod.case option.case)
  show "read_loop E vol off sz space c cur cnt out m = Some (sz, out @ take (unat sz - unat cnt) (drop q ?x), tick m)"
    if "dev_reads E (ticks m)" "unat sz - unat cnt \<le> B - q"
  proof -
    have n: "unat n = unat sz - unat cnt" using ts(2) that(2) by simp
    then have "unat (cnt + n) = unat sz" using ts(3) sz(1) by simp
    then have "cnt + n = sz" by (simp add: word_unat_eq_iff)
    then show ?thesis using st [OF that(1)] n by simp
  qed
  show "\<exists>cnt'. unat cnt' = unat cnt + (B - q) \<and> read_loop E vol off sz space c cur cnt out m = do {
         (nxt, m2) \<leftarrow> fat32_get_next_cluster E vol c (tick m);
         if nxt \<ge> FAT32_EOF \<or> nxt = FAT32_BAD_CLUSTER then Some (cnt', out @ drop q ?x, m2)
         else read_loop E vol off sz space nxt (cur + ucast (bytes_per_cluster vol)) cnt' (out @ drop q ?x) m2 }"
    if "dev_reads E (ticks m)" "B - q < unat sz - unat cnt"
  proof (intro exI [of _ "cnt + n"] conjI)
    have n: "unat n = B - q" using ts(2) that(2) by simp
    then show u: "unat (cnt + n) = unat cnt + (B - q)" using ts(3) by simp
    then have "cnt + n < sz" using that(2) by (simp add: word_less_nat_alt)
    moreover have "take (unat n) (drop q ?x) = drop q ?x" using n len by simp
    ultimately show "read_loop E vol off sz space c cur cnt out m = do {
         (nxt, m2) \<leftarrow> fat32_get_next_cluster E vol c (tick m);
         if nxt \<ge> FAT32_EOF \<or> nxt = FAT32_BAD_CLUSTER then Some (cnt + n, out @ drop q ?x, m2)
         else read_loop E vol off sz space nxt (cur + ucast (bytes_per_cluster vol)) (cnt + n) (out @ drop q ?x) m2 }"
      using st [OF that(1)] by (simp only: if_True)
  qed
qed

text \<open>What the loop gives: the bytes \<open>x\<close> are a prefix of what was asked for, and all of it when nothing fails.\<close>

definition read_result :: "outcomes \<Rightarrow> nat \<Rightarrow> u8 list \<Rightarrow> u8 list \<Rightarrow> bool" where
  "read_result E k y x \<longleftrightarrow> length x \<le> k \<and> take (length x) y = x \<and> (reliable E \<longrightarrow> length x = k)"

lemma read_result_append: "read_result E (k - length a) z y \<Longrightarrow> length a \<le> k \<Longrightarrow> read_result E k (a @ z) (a @ y)"
  by (auto simp: read_result_def)

lemma read_resultD: "read_result E k y x \<Longrightarrow> take (length x) (take k y) = x" "read_result E k y x \<Longrightarrow> reliable E \<Longrightarrow> take k y = x"
  by (auto simp: read_result_def)

lemma read_loop_stops:
  assumes v: "vol_ok vol" and m: "med_ok vol m" and p: "unat cur \<le> unat off + unat cnt" "unat off + unat cnt < unat cur + unat (bytes_per_cluster vol)"
    and sz: "unat cnt \<le> unat sz" "unat off + unat sz < 2 ^ 64" and sp: "length out + (unat sz - unat cnt) \<le> space"
    and stop: "unat cnt = unat sz \<or> \<not> dev_reads E (ticks m) \<or> unat sz - unat cnt \<le> unat (bytes_per_cluster vol) - (unat off + unat cnt - unat cur)"
  shows "\<exists>n x t. read_loop E vol off sz space c cur cnt out m = Some (n, out @ x, m\<lparr>ticks := t\<rparr>) \<and> unat n = unat cnt + length x \<and>
    read_result E (unat sz - unat cnt) (drop (unat off + unat cnt - unat cur) (file_bytes vol (sectors m) (c # cs))) x"
proof -
  let ?B = "unat (bytes_per_cluster vol)" and ?q = "unat off + unat cnt - unat cur"
  let ?Y = "drop ?q (file_bytes vol (sectors m) (c # cs))"
  consider "unat cnt = unat sz" | "unat cnt < unat sz" "\<not> dev_reads E (ticks m)" | "unat cnt < unat sz" "dev_reads E (ticks m)" "unat sz - unat cnt \<le> ?B - ?q"
    using stop sz(1) by linarith
  then show ?thesis
  proof cases
    case 1
    then have "\<not> cnt < sz" by (simp add: word_less_nat_alt)
    then have "read_loop E vol off sz space c cur cnt out m = Some (cnt, out @ [], m\<lparr>ticks := ticks m\<rparr>)" by (subst read_loop.simps) (simp add: Let_def)
    moreover have "read_result E (unat sz - unat cnt) ?Y []" using 1 by (simp add: read_result_def)
    ultimately show ?thesis by (metis add_0_right list.size(3))
  next
    case 2
    then have "read_loop E vol off sz space c cur cnt out m = Some (cnt, out @ [], m\<lparr>ticks := Suc (ticks m)\<rparr>)"
      using read_loop_turn(1) [OF v m p 2(1) sz(2) sp] by simp
    moreover have "read_result E (unat sz - unat cnt) ?Y []" using 2 by (auto simp: read_result_def reliable_def)
    ultimately show ?thesis by (metis add_0_right list.size(3))
  next
    case 3
    let ?x = "take (unat sz - unat cnt) (drop ?q (cdata vol (sectors m) c))"
    have "length (cdata vol (sectors m) c) = ?B" by (rule cdata_length) (use m v in auto)
    then have l: "length ?x = unat sz - unat cnt" using 3(3) by simp
    then have "read_result E (unat sz - unat cnt) ?Y ?x" by (simp add: read_result_def)
    moreover have "unat sz = unat cnt + length ?x" using l 3(1) by simp
    ultimately show ?thesis using read_loop_turn(2) [OF v m p 3(1) sz(2) sp 3(2,3)] by blast
  qed
qed

lemma read_loop_spec:
  assumes v: "vol_ok vol"
  defines "B \<equiv> unat (bytes_per_cluster vol)"
  shows "med_ok vol m \<Longrightarrow> linked (tab vol (sectors m)) (c # cs) \<Longrightarrow> (\<forall>x \<in> set (c # cs). cluster_ok vol x) \<Longrightarrow>
    unat cur \<le> unat off + unat cnt \<Longrightarrow> unat off + unat cnt < unat cur + B \<Longrightarrow> unat cnt \<le> unat sz \<Longrightarrow>
    unat off + unat sz \<le> unat cur + B * length (c # cs) \<Longrightarrow>
    unat cur + B * length (c # cs) < 2 ^ 64 \<Longrightarrow> length out + (unat sz - unat cnt) \<le> space \<Longrightarrow>
    \<exists>n x t. read_loop E vol off sz space c cur cnt out m = Some (n, out @ x, m\<lparr>ticks := t\<rparr>) \<and> unat n = unat cnt + length x \<and>
      read_result E (unat sz - unat cnt) (drop (unat off + unat cnt - unat cur) (file_bytes vol (sectors m) (c # cs))) x"
proof (induction cs arbitrary: c cur cnt out m)
  case (Nil c cur cnt out m)
  note h = Nil.prems [unfolded B_def]
  have "unat sz - unat cnt \<le> unat (bytes_per_cluster vol) - (unat off + unat cnt - unat cur)" using h(4,5,7) by simp
  then show ?case using read_loop_stops [OF v h(1,4,5,6) _ h(9), of E c "[]"] h(7,8) by simp
next
  case (Cons c2 cs c cur cnt out m)
  note h = Cons.prems [unfolded B_def]
  let ?q = "unat off + unat cnt - unat cur" and ?x = "cdata vol (sectors m) c"
  have big: "unat off + unat sz < 2 ^ 64" using h(7,8) by linarith
  show ?case
  proof (cases "unat cnt = unat sz \<or> \<not> dev_reads E (ticks m) \<or> unat sz - unat cnt \<le> B - ?q")
    case True
    then show ?thesis using read_loop_stops [OF v h(1,4,5,6) big h(9), of E c "c2 # cs"] by (simp add: B_def)
  next
    case False
    then have f: "unat cnt < unat sz" "dev_reads E (ticks m)" "B - ?q < unat sz - unat cnt" using h(6) by auto
    obtain cnt' where cnt': "unat cnt' = unat cnt + (B - ?q)"
      and rl: "read_loop E vol off sz space c cur cnt out m = do {
         (nxt, m2) \<leftarrow> fat32_get_next_cluster E vol c (tick m);
         if nxt \<ge> FAT32_EOF \<or> nxt = FAT32_BAD_CLUSTER then Some (cnt', out @ drop ?q ?x, m2)
         else read_loop E vol off sz space nxt (cur + ucast (bytes_per_cluster vol)) cnt' (out @ drop ?q ?x) m2 }"
      using read_loop_turn(3) [OF v h(1,4,5) f(1) big h(9) f(2)] f(3) unfolding B_def by blast
    have len: "length ?x = B" unfolding B_def by (rule cdata_length) (use h(1) v in auto)
    have q: "?q < B" using h(4,5) unfolding B_def by linarith
    have c: "unat c < 2 ^ 28" "c2 < FAT32_BAD_CLUSTER" using cluster_okD(1,4) [OF v] h(3) by simp_all
    obtain r t where g: "fat32_get_next_cluster E vol c (tick m) = Some (r, m\<lparr>ticks := t\<rparr>)" "r = FAT32_BAD_CLUSTER \<or> r = c2" "reliable E \<longrightarrow> r = c2"
      using get_next_spec [OF v _ c(1), of "tick m" E] h(1,2) by auto
    show ?thesis
    proof (cases "r = FAT32_BAD_CLUSTER")
      case True
      have "\<not> reliable E" using True g(3) c(2) by auto
      then have "read_result E (unat sz - unat cnt) (drop ?q (file_bytes vol (sectors m) (c # c2 # cs))) (drop ?q ?x)"
        using len q f(3) by (simp add: read_result_def)
      moreover have "unat cnt' = unat cnt + length (drop ?q ?x)" using cnt' len by simp
      moreover have "read_loop E vol off sz space c cur cnt out m = Some (cnt', out @ drop ?q ?x, m\<lparr>ticks := t\<rparr>)"
        using rl g(1) True by simp
      ultimately show ?thesis by blast
    next
      case False
      then have r: "r = c2" using g(2) by blast
      let ?m = "m\<lparr>ticks := t\<rparr>" and ?cur = "cur + ucast (bytes_per_cluster vol)"
      have u: "unat ?cur = unat cur + B" using h(8) by (subst unat_add_nowrap) (simp_all add: unat_ucast_up B_def)
      have e: "unat off + unat cnt' = unat ?cur" using cnt' q u h(4) by linarith
      have rl2: "read_loop E vol off sz space c cur cnt out m = read_loop E vol off sz space c2 ?cur cnt' (out @ drop ?q ?x) ?m"
        using rl g(1) end_mark [OF c(2)] by (simp add: r)
      have B0: "0 < B" using q by simp
      have "\<exists>n y t. read_loop E vol off sz space c2 ?cur cnt' (out @ drop ?q ?x) ?m = Some (n, (out @ drop ?q ?x) @ y, ?m\<lparr>ticks := t\<rparr>) \<and>
          unat n = unat cnt' + length y \<and> read_result E (unat sz - unat cnt') (drop (unat off + unat cnt' - unat ?cur) (file_bytes vol (sectors ?m) (c2 # cs))) y"
      proof (rule Cons.IH)
        show "med_ok vol ?m" "linked (tab vol (sectors ?m)) (c2 # cs)" "\<forall>x \<in> set (c2 # cs). cluster_ok vol x" using h(1-3) by simp_all
        show "unat ?cur \<le> unat off + unat cnt'" "unat off + unat cnt' < unat ?cur + B" using e B0 by linarith+
        show "unat cnt' \<le> unat sz" using cnt' f(3) by linarith
        show "unat off + unat sz \<le> unat ?cur + B * length (c2 # cs)" "unat ?cur + B * length (c2 # cs) < 2 ^ 64"
          using h(7,8) u by (simp_all add: B_def)
        show "length (out @ drop ?q ?x) + (unat sz - unat cnt') \<le> space" using h(9) cnt' f(3) len q by simp
      qed
      moreover have z: "unat off + unat cnt' - unat ?cur = 0" "sectors ?m = sectors m" using e by simp_all
      ultimately obtain n y t2 where y: "read_loop E vol off sz space c2 ?cur cnt' (out @ drop ?q ?x) ?m = Some (n, (out @ drop ?q ?x) @ y, ?m\<lparr>ticks := t2\<rparr>)"
        "unat n = unat cnt' + length y" "read_result E (unat sz - unat cnt') (file_bytes vol (sectors m) (c2 # cs)) y"
        unfolding z drop_0 by blast
      have "read_result E (unat sz - unat cnt) (drop ?q (file_bytes vol (sectors m) (c # c2 # cs))) (drop ?q ?x @ y)"
        using read_result_append [of E "unat sz - unat cnt" "drop ?q ?x" "file_bytes vol (sectors m) (c2 # cs)" y] y(3) cnt' len q f(3) by simp
      moreover have "unat n = unat cnt + length (drop ?q ?x @ y)" using y(2) cnt' len by simp
      moreover have "read_loop E vol off sz space c cur cnt out m = Some (n, out @ (drop ?q ?x @ y), m\<lparr>ticks := t2\<rparr>)" using rl2 y(1) by simp
      ultimately show ?thesis by blast
    qed
  qed
qed

text \<open>The chain has to cover what is read, not the whole size of the node.\<close>

lemma fat32_read_part:
  assumes v: "vol_ok vol" and m: "med_ok vol m" and ch: "chain_ok vol (sectors m) (inode node # cs)"
    and fl: "n_flags node AND VFS_DIRECTORY = 0" "unat off < unat (n_size node) \<Longrightarrow> unat off < unat (bytes_per_cluster vol) * length (inode node # cs) \<and>
      min (unat off + unat sz) (unat (n_size node)) \<le> unat (bytes_per_cluster vol) * length (inode node # cs)"
    and sz: "unat sz < 2 ^ 31" "unat sz \<le> space" "unat off + unat sz < 2 ^ 64"
  shows "\<exists>r x t. fat32_read E vol node off sz space m = Some (r, x, m\<lparr>ticks := t\<rparr>) \<and>
     (r = int (length x) \<or> r = -1 \<and> x = [] \<and> \<not> reliable E) \<and>
     read_result E (min (unat sz) (unat (n_size node) - unat off)) (drop (unat off) (file_bytes vol (sectors m) (inode node # cs))) x"
proof (cases "n_size node \<le> off")
  case True
  then have "fat32_read E vol node off sz space m = Some (0, [], m\<lparr>ticks := ticks m\<rparr>)" "unat (n_size node) - unat off = 0"
    using fl(1) by (simp_all add: fat32_read_def word_le_nat_alt)
  moreover have "read_result E (min (unat sz) 0) y []" for y by (simp add: read_result_def)
  ultimately show ?thesis by (metis int_ops(1) list.size(3))
next
  case False
  then have lt: "unat off < unat (n_size node)" by (simp add: word_le_nat_alt)
  define sz' where "sz' = (if off + ucast sz > n_size node then ucast (n_size node - off) else sz)"
  have o1: "unat (off + ucast sz) = unat off + unat sz" using sz(3) by (subst unat_add_nowrap) (simp_all add: unat_ucast_up)
  have o2: "unat (n_size node - off) = unat (n_size node) - unat off" using lt by (simp add: unat_sub word_le_nat_alt)
  have sz': "unat sz' = min (unat sz) (unat (n_size node) - unat off)"
  proof (cases "off + ucast sz > n_size node")
    case True
    then have "unat (n_size node) - unat off < unat sz" using o1 lt by (simp add: word_less_nat_alt)
    then show ?thesis using True sz(1) o2 by (simp add: sz'_def unsigned_ucast_eq take_bit_nat_eq_self)
  next
    case False
    then show ?thesis using o1 by (simp add: sz'_def word_less_nat_alt)
  qed
  let ?B = "unat (bytes_per_cluster vol)" and ?cs = "inode node # cs"
  have big: "?B * length ?cs < 2 ^ 60" by (rule chain_bound [OF v ch])
  have ls: "linked (tab vol (sectors m)) ?cs" "\<forall>x \<in> set ?cs. cluster_ok vol x" using ch by (auto simp: chain_ok_def)
  have "\<exists>r cur' t. read_seek E vol off (inode node) 0 m = Some (r, cur', m\<lparr>ticks := t\<rparr>) \<and>
      (case r of None \<Rightarrow> \<not> reliable E
       | Some c' \<Rightarrow> \<exists>as bs. ?cs = as @ c' # bs \<and> unat cur' = unat (0 :: u64) + ?B * length as \<and> unat cur' \<le> unat off \<and> unat off < unat cur' + ?B)"
    by (rule read_seek_spec [OF v m ls]) (use fl(2) [OF lt] big in simp_all)
  then obtain r cur t where rs: "read_seek E vol off (inode node) 0 m = Some (r, cur, m\<lparr>ticks := t\<rparr>)"
    "case r of None \<Rightarrow> \<not> reliable E | Some c' \<Rightarrow> \<exists>as bs. ?cs = as @ c' # bs \<and> unat cur = ?B * length as \<and> unat cur \<le> unat off \<and> unat off < unat cur + ?B"
    unfolding unat_0 add_0 by blast
  have rd: "fat32_read E vol node off sz space m = do {
        (c, current_offset, m1) \<leftarrow> read_seek E vol off (inode node) 0 m;
        case c of
          None \<Rightarrow> Some (0, [], m1)
        | Some c \<Rightarrow> (case pool_get E (bytes_per_cluster vol) m1 of (got, m2) \<Rightarrow>
            if \<not> got then Some (-1, [], m2)
            else do {
              (n, out, m3) \<leftarrow> read_loop E vol off sz' space c current_offset 0 [] m2;
              m4 \<leftarrow> pool_put (bytes_per_cluster vol) m3;
              Some (sint n, out, m4)
            }) }"
    unfolding fat32_read_def Let_def sz'_def using False fl(1) by simp
  have none: "read_result E k y []" if "\<not> reliable E" for k y using that by (simp add: read_result_def)
  show ?thesis
  proof (cases r)
    case None
    then have "\<not> reliable E" using rs(2) by simp
    then show ?thesis using rd rs(1) None none by auto
  next
    case (Some c')
    then obtain as bs where s: "?cs = as @ c' # bs" "unat cur = ?B * length as" "unat cur \<le> unat off" "unat off < unat cur + ?B"
      using rs(2) by auto
    show ?thesis
    proof (cases "pool_gives E t")
      case False
      then have "\<not> reliable E" by (auto simp: reliable_def)
      then show ?thesis using rd rs(1) Some False none by (auto simp: pool_get_def)
    next
      case True
      let ?m = "m\<lparr>ticks := Suc t, held := bytes_per_cluster vol # held m\<rparr>"
      have l: "length ?cs = length as + Suc (length bs)" using arg_cong [OF s(1), of length] by simp
      have "\<exists>n x t. read_loop E vol off sz' space c' cur 0 [] ?m = Some (n, [] @ x, ?m\<lparr>ticks := t\<rparr>) \<and> unat n = unat (0 :: u32) + length x \<and>
          read_result E (unat sz' - unat (0 :: u32)) (drop (unat off + unat (0 :: u32) - unat cur) (file_bytes vol (sectors ?m) (c' # bs))) x"
      proof (rule read_loop_spec [OF v])
        show "med_ok vol ?m" "linked (tab vol (sectors ?m)) (c' # bs)" "\<forall>x \<in> set (c' # bs). cluster_ok vol x"
          using m ls [unfolded s(1)] linked_suffix [of _ as c' bs] by auto
        show "unat off + unat sz' \<le> unat cur + ?B * length (c' # bs)" "unat cur + ?B * length (c' # bs) < 2 ^ 64"
          using fl(2) [OF lt] big lt unfolding l s(2) sz' by (auto simp: algebra_simps)
      qed (use s sz sz' in simp_all)
      then obtain n x t2 where x: "read_loop E vol off sz' space c' cur 0 [] ?m = Some (n, x, ?m\<lparr>ticks := t2\<rparr>)" "unat n = length x"
        "read_result E (unat sz') (drop (unat off - unat cur) (file_bytes vol (sectors m) (c' # bs))) x" by auto
      have "length (file_bytes vol (sectors m) as) = unat cur" using file_bytes_length [OF _ v] m s(2) by simp
      then have "drop (unat off) (file_bytes vol (sectors m) ?cs) = drop (unat off - unat cur) (file_bytes vol (sectors m) (c' # bs))"
        using s(3) unfolding s(1) by simp
      moreover have "sint n = int (length x)"
        using x(2,3) sz(1) sz' by (subst sint_small) (auto simp: read_result_def)
      moreover have "fat32_read E vol node off sz space m = Some (sint n, x, m\<lparr>ticks := t2\<rparr>)"
        using rd rs(1) Some True x(1) by (simp add: pool_get_def pool_put_def)
      ultimately show ?thesis using x(3) unfolding sz' by metis
    qed
  qed
qed

lemma fat32_read_spec:
  assumes "vol_ok vol" "med_ok vol m" "chain_ok vol (sectors m) (inode node # cs)"
    and "n_flags node AND VFS_DIRECTORY = 0" "unat (n_size node) \<le> unat (bytes_per_cluster vol) * length (inode node # cs)"
    and "unat sz < 2 ^ 31" "unat sz \<le> space" "unat off + unat sz < 2 ^ 64"
  shows "\<exists>r x t. fat32_read E vol node off sz space m = Some (r, x, m\<lparr>ticks := t\<rparr>) \<and>
     (r = int (length x) \<or> r = -1 \<and> x = [] \<and> \<not> reliable E) \<and>
     read_result E (min (unat sz) (unat (n_size node) - unat off)) (drop (unat off) (file_bytes vol (sectors m) (inode node # cs))) x"
  by (rule fat32_read_part [OF assms(1-4) _ assms(6-8)]) (use assms(5) in linarith)

section \<open>Growing a chain\<close>

definition avail :: "fat32_volume \<Rightarrow> (u64 \<Rightarrow> u8 list) \<Rightarrow> u32 set" where
  "avail vol d = {c. cluster_ok vol c \<and> tab vol d c = 0}"

text \<open>The chain may get clusters that were free; what lies outside the chain keeps its entry and its bytes.\<close>

definition grows :: "fat32_volume \<Rightarrow> (u64 \<Rightarrow> u8 list) \<Rightarrow> u32 list \<Rightarrow> (u64 \<Rightarrow> u8 list) \<Rightarrow> u32 list \<Rightarrow> bool" where
  "grows vol d cs d' cs' \<longleftrightarrow> chain_ok vol d' cs' \<and> disk_ok vol d' \<and> (\<exists>new. cs' = cs @ new \<and> set new \<subseteq> avail vol d) \<and>
     (\<forall>c. cluster_ok vol c \<and> c \<notin> set cs' \<longrightarrow> tab vol d' c = tab vol d c \<and> cdata vol d' c = cdata vol d c)"

abbreviation same_clusters :: "fat32_volume \<Rightarrow> (u64 \<Rightarrow> u8 list) \<Rightarrow> (u64 \<Rightarrow> u8 list) \<Rightarrow> bool" where
  "same_clusters vol d d' \<equiv> \<forall>c. cluster_ok vol c \<longrightarrow> cdata vol d' c = cdata vol d c"

lemma linked_iff:
  "linked t cs \<longleftrightarrow> cs \<noteq> [] \<and> (\<forall>k. Suc k < length cs \<longrightarrow> t (cs ! k) = cs ! Suc k) \<and> FAT32_EOF \<le> t (last cs)"
proof (induction t cs rule: linked.induct)
  case (3 t c d cs)
  show ?case unfolding linked.simps "3.IH" by (auto simp: All_less_Suc2)
qed simp_all

lemma linked_tab_cong: "linked t cs \<Longrightarrow> (\<And>c. c \<in> set cs \<Longrightarrow> t' c = t c) \<Longrightarrow> linked t' cs"
  by (induction t cs rule: linked.induct) auto

lemma chain_tab_nonzero:
  assumes v: "vol_ok vol" and ch: "chain_ok vol d cs" and c: "c \<in> set cs"
  shows "tab vol d c \<noteq> 0"
proof -
  from c obtain k where k: "k < length cs" "c = cs ! k" by (auto simp: in_set_conv_nth)
  have l: "cs \<noteq> []" "\<And>k. Suc k < length cs \<Longrightarrow> tab vol d (cs ! k) = cs ! Suc k" "FAT32_EOF \<le> tab vol d (last cs)"
    using ch by (auto simp: chain_ok_def linked_iff)
  show ?thesis
  proof (cases "Suc k < length cs")
    case True
    then have "cluster_ok vol (cs ! Suc k)" using ch by (simp add: chain_ok_def)
    then show ?thesis using l(2) [OF True] cluster_okD(5) [OF v] k(2) by simp
  next
    case False
    then have "c = last cs" using k l(1) by (simp add: last_conv_nth) (metis One_nat_def Suc_lessI diff_Suc_1)
    then show ?thesis using l(3) by (auto simp: word_le_nat_alt)
  qed
qed

lemma capacity_bound:
  assumes v: "vol_ok vol" and ch: "chain_ok vol d cs"
  shows "unat (bytes_per_cluster vol) * (length cs + card (avail vol d)) < 2 ^ 60"
proof -
  let ?B = "unat (bytes_per_cluster vol)"
  have "set cs \<inter> avail vol d = {}" using chain_tab_nonzero [OF v ch] by (auto simp: avail_def)
  then have "length cs + card (avail vol d) = card (set cs \<union> avail vol d)"
    using ch by (subst card_Un_disjoint) (simp_all add: chain_ok_def distinct_card)
  also have "\<dots> = card (unat ` (set cs \<union> avail vol d))" by (subst card_image) (simp_all add: inj_on_def word_unat_eq_iff)
  also have "\<dots> \<le> card {..<(2 :: nat) ^ 28}" using ch cluster_okD(1) [OF v] by (intro card_mono) (auto simp: chain_ok_def avail_def)
  finally have "length cs + card (avail vol d) \<le> 2 ^ 28" by simp
  then have "?B * (length cs + card (avail vol d)) \<le> ?B * 2 ^ 28" by simp
  moreover have "?B < 2 ^ 32" using unsigned_less [of "bytes_per_cluster vol", where 'a = nat] by simp
  then have "?B * 2 ^ 28 < 2 ^ 32 * 2 ^ 28" by simp
  ultimately have "?B * (length cs + card (avail vol d)) < 2 ^ 32 * 2 ^ 28" by (rule le_less_trans)
  then show ?thesis by simp
qed

lemma grows_refl: "chain_ok vol d cs \<Longrightarrow> disk_ok vol d \<Longrightarrow> grows vol d cs d cs"
  by (simp add: grows_def)

lemma grows_avail:
  assumes v: "vol_ok vol" and ch: "chain_ok vol d cs" and g: "grows vol d cs d' cs'"
  shows "avail vol d' = avail vol d - set cs'" "card (avail vol d') + length cs' = card (avail vol d) + length cs"
proof -
  obtain new where n: "cs' = cs @ new" "set new \<subseteq> avail vol d" using g by (auto simp: grows_def)
  have ch': "chain_ok vol d' cs'" using g by (simp add: grows_def)
  show a: "avail vol d' = avail vol d - set cs'"
  proof (rule set_eqI)
    fix c
    show "c \<in> avail vol d' \<longleftrightarrow> c \<in> avail vol d - set cs'"
      using g chain_tab_nonzero [OF v ch', of c] by (cases "c \<in> set cs'") (auto simp: avail_def grows_def)
  qed
  have "set cs \<inter> avail vol d = {}" using chain_tab_nonzero [OF v ch] by (auto simp: avail_def)
  then have "avail vol d' = avail vol d - set new" using a n by auto
  moreover have "card (set new) = length new" using ch' n(1) by (simp add: chain_ok_def distinct_card)
  moreover have "card (set new) \<le> card (avail vol d)" using n(2) by (intro card_mono) simp_all
  ultimately show "card (avail vol d') + length cs' = card (avail vol d) + length cs"
    using n by (simp add: card_Diff_subset)
qed

lemma grows_trans:
  assumes v: "vol_ok vol" and ch: "chain_ok vol d cs" and g: "grows vol d cs d1 cs1" "grows vol d1 cs1 d2 cs2"
  shows "grows vol d cs d2 cs2"
proof -
  obtain n1 n2 where n: "cs1 = cs @ n1" "set n1 \<subseteq> avail vol d" "cs2 = cs1 @ n2" "set n2 \<subseteq> avail vol d1" using g by (auto simp: grows_def)
  have "set n2 \<subseteq> avail vol d" using n(4) grows_avail(1) [OF v ch g(1)] by blast
  then have "\<exists>new. cs2 = cs @ new \<and> set new \<subseteq> avail vol d" using n by (intro exI [of _ "n1 @ n2"]) simp
  then show ?thesis using g n unfolding grows_def by auto
qed

lemma tab_masked [simp]: "tab vol d c AND FAT32_MASK = tab vol d c"
  by (simp add: tab_def and.assoc)

lemma cluster_masked: "vol_ok vol \<Longrightarrow> cluster_ok vol c \<Longrightarrow> c AND FAT32_MASK = c"
proof -
  assume "vol_ok vol" "cluster_ok vol c"
  then have "unat c < 2 ^ 28" by (rule cluster_okD(1))
  moreover have "c AND FAT32_MASK = take_bit 28 c" by (simp add: take_bit_eq_mask mask_eq_exp_minus_1)
  ultimately show ?thesis by (simp add: word_unat_eq_iff unsigned_take_bit_eq take_bit_nat_eq_self)
qed

text \<open>Marking a free cluster as the end and linking the last cluster to it.\<close>

lemma append_cluster:
  assumes v: "vol_ok vol" and d: "disk_ok vol d" and ch: "chain_ok vol d cs" and n: "new \<in> avail vol d"
  defines "d' \<equiv> tab_put vol (last cs) new (tab_put vol new FAT32_EOF d)"
  shows "grows vol d cs d' (cs @ [new])" "same_clusters vol d d'"
proof -
  have cn: "cluster_ok vol new" "tab vol d new = 0" using n by (auto simp: avail_def)
  have l: "cs \<noteq> []" "\<And>k. Suc k < length cs \<Longrightarrow> tab vol d (cs ! k) = cs ! Suc k" "distinct cs" "\<And>c. c \<in> set cs \<Longrightarrow> cluster_ok vol c"
    using ch by (auto simp: chain_ok_def linked_iff)
  have cl: "cluster_ok vol (last cs)" using l(1,4) by simp
  have nin: "new \<notin> set cs" using chain_tab_nonzero [OF v ch] cn(2) by blast
  have ok1: "disk_ok vol (tab_put vol new FAT32_EOF d)" using disk_ok_tab_put [OF v d] cluster_okD(1) [OF v cn(1)] by blast
  then have ok2: "disk_ok vol d'" unfolding d'_def using disk_ok_tab_put [OF v] cluster_okD(1) [OF v cl] by blast
  have t: "tab vol d' c = (if c = last cs then new else if c = new then FAT32_EOF else tab vol d c)" if "cluster_ok vol c" for c
    unfolding d'_def using tab_put_get [OF v ok1 cluster_okD(3) [OF v cl] cluster_okD(3) [OF v that]]
      tab_put_get [OF v d cluster_okD(3) [OF v cn(1)] cluster_okD(3) [OF v that]] cluster_masked [OF v cn(1)] nin cl by auto
  show sd: "same_clusters vol d d'"
    unfolding d'_def using cdata_tab_put [OF v cluster_okD(3) [OF v cl]] cdata_tab_put [OF v cluster_okD(3) [OF v cn(1)]] by simp
  have "tab vol d' ((cs @ [new]) ! k) = (cs @ [new]) ! Suc k" if "Suc k < length (cs @ [new])" for k
  proof (cases "Suc k < length cs")
    case True
    then have "cs ! k \<noteq> last cs" using l(1,3) by (simp add: last_conv_nth nth_eq_iff_index_eq)
    moreover have "cs ! k \<in> set cs" using True by simp
    ultimately show ?thesis using True t [OF l(4)] l(2) nin by (auto simp: nth_append)
  next
    case False
    then have "k = length cs - 1" "Suc k = length cs" using that l(1) by auto
    then show ?thesis using t [OF cl] l(1) by (simp add: nth_append last_conv_nth)
  qed
  moreover have "new \<noteq> last cs" using nin l(1) last_in_set by blast
  ultimately have "chain_ok vol d' (cs @ [new])"
    using l(3,4) cn(1) nin t [OF cn(1)] by (auto simp: chain_ok_def linked_iff)
  then show "grows vol d cs d' (cs @ [new])"
    using ok2 n t sd l(1) unfolding grows_def by auto
qed

lemma next_or_new_spec:
  assumes v: "vol_ok vol" and E: "reliable E" and m: "med_ok vol m" and ch: "chain_ok vol (sectors m) cs"
    and k: "k < length cs" "Suc k < length cs + card (avail vol (sectors m))"
  shows "\<exists>cs' t d. next_or_new E vol (cs ! k) m = Some (Some (cs' ! Suc k), m\<lparr>ticks := t, sectors := d\<rparr>) \<and>
     grows vol (sectors m) cs d cs' \<and> same_clusters vol (sectors m) d \<and> Suc k < length cs'"
proof -
  have l: "cs \<noteq> []" "\<And>k. Suc k < length cs \<Longrightarrow> tab vol (sectors m) (cs ! k) = cs ! Suc k" "\<And>c. c \<in> set cs \<Longrightarrow> cluster_ok vol c"
    "FAT32_EOF \<le> tab vol (sectors m) (last cs)"
    using ch by (auto simp: chain_ok_def linked_iff)
  have ck: "unat (cs ! k) < 2 ^ 28" using cluster_okD(1) [OF v] l(3) k(1) by simp
  obtain t where g: "fat32_get_next_cluster E vol (cs ! k) m = Some (tab vol (sectors m) (cs ! k), m\<lparr>ticks := t\<rparr>)"
    using get_next_spec [OF v m ck, of E] E by auto
  show ?thesis
  proof (cases "Suc k < length cs")
    case True
    have "cs ! Suc k < FAT32_BAD_CLUSTER" using cluster_okD(4) [OF v] l(3) True by simp
    then have "next_or_new E vol (cs ! k) m = Some (Some (cs ! Suc k), m\<lparr>ticks := t, sectors := sectors m\<rparr>)"
      using g end_mark l(2) [OF True] by (simp add: next_or_new_def)
    moreover have "grows vol (sectors m) cs (sectors m) cs" using grows_refl ch m by blast
    ultimately show ?thesis using True by blast
  next
    case False
    then have kl: "cs ! k = last cs" "Suc k = length cs" using k(1) l(1) by (auto simp: last_conv_nth intro: arg_cong [where f = "(!) cs"])
    have "avail vol (sectors m) \<noteq> {}" using k(2) kl(2) by auto
    then have nf: "\<not> full vol (sectors m)" by (auto simp: full_def avail_def)
    let ?m = "m\<lparr>ticks := t\<rparr>"
    obtain r t1 d1 where al: "fat32_allocate_cluster E vol ?m = Some (r, ?m\<lparr>ticks := t1, sectors := d1\<rparr>)" "alloc_result E vol (sectors ?m) r d1"
      using allocate_spec [OF v, of ?m E] m by auto
    have r: "r \<noteq> FAT32_BAD_CLUSTER" "r \<in> avail vol (sectors m)" "d1 = tab_put vol r FAT32_EOF (sectors m)" "cluster_ok vol r"
      using al(2) E nf by (auto simp: alloc_result_def allocated_def avail_def)
    let ?m1 = "?m\<lparr>ticks := t1, sectors := d1\<rparr>"
    have "med_ok vol ?m1" using m disk_ok_tab_put [OF v _ cluster_okD(1) [OF v r(4)]] r(3) by simp
    then obtain t2 where "fat32_set_cluster E vol (cs ! k) r ?m1 = Some (0, ?m1\<lparr>ticks := t2, sectors := tab_put vol (cs ! k) r d1\<rparr>)"
      using set_cluster_spec [OF v _ ck, of ?m1 E r] E by auto
    then have "next_or_new E vol (cs ! k) m = Some (Some r, m\<lparr>ticks := t2, sectors := tab_put vol (last cs) r d1\<rparr>)"
      using g al(1) r(1) l(4) kl(1) by (simp add: next_or_new_def)
    moreover have "(cs @ [r]) ! Suc k = r" "Suc k < length (cs @ [r])" using kl(2) by (simp_all add: nth_append)
    moreover have "grows vol (sectors m) cs (tab_put vol (last cs) r d1) (cs @ [r])" "same_clusters vol (sectors m) (tab_put vol (last cs) r d1)"
      using append_cluster [OF v _ ch r(2)] m unfolding r(3) by blast+
    ultimately show ?thesis by metis
  qed
qed

lemma write_seek_spec:
  assumes v: "vol_ok vol" and E: "reliable E"
  defines "B \<equiv> unat (bytes_per_cluster vol)"
  shows "med_ok vol m \<Longrightarrow> chain_ok vol (sectors m) cs \<Longrightarrow> k < length cs \<Longrightarrow> unat cur = B * k \<Longrightarrow> unat cur \<le> unat off \<Longrightarrow>
    unat off < B * (length cs + card (avail vol (sectors m))) \<Longrightarrow> unat off + B < 2 ^ 64 \<Longrightarrow>
    \<exists>cs' k' cur' t d. write_seek E vol off (cs ! k) cur m = Some (Some (cs' ! k'), cur', m\<lparr>ticks := t, sectors := d\<rparr>) \<and>
      grows vol (sectors m) cs d cs' \<and> same_clusters vol (sectors m) d \<and> k' < length cs' \<and> unat cur' = B * k' \<and> unat cur' \<le> unat off \<and>
      unat off < unat cur' + B"
proof (induction "unat off - unat cur" arbitrary: cs k cur m rule: less_induct)
  case less
  note h = less.prems
  have B0: "0 < B" unfolding B_def using vol_okD(1,3,4) [OF v] by simp
  let ?cur = "cur + ucast (bytes_per_cluster vol)"
  have u: "unat ?cur = unat cur + B" using h(5,7) by (subst unat_add_nowrap) (simp_all add: unat_ucast_up B_def)
  show ?case
  proof (cases "?cur \<le> off")
    case False
    then have "write_seek E vol off (cs ! k) cur m = Some (Some (cs ! k), cur, m\<lparr>ticks := ticks m, sectors := sectors m\<rparr>)"
      by (subst write_seek.simps) simp
    moreover have "unat off < unat cur + B" using False u by (simp add: word_le_nat_alt)
    moreover have "grows vol (sectors m) cs (sectors m) cs" using grows_refl h(1,2) by blast
    ultimately show ?thesis using h(3-5) by blast
  next
    case True
    then have le: "B * Suc k \<le> unat off" using u h(4) by (simp add: word_le_nat_alt)
    have "B * Suc k < B * (length cs + card (avail vol (sectors m)))" using le h(6) by linarith
    then have k: "Suc k < length cs + card (avail vol (sectors m))" by (simp only: mult_less_cancel1)
    obtain cs1 t d where n: "next_or_new E vol (cs ! k) m = Some (Some (cs1 ! Suc k), m\<lparr>ticks := t, sectors := d\<rparr>)"
      "grows vol (sectors m) cs d cs1" "same_clusters vol (sectors m) d" "Suc k < length cs1"
      using next_or_new_spec [OF v E h(1,2,3) k] by blast
    let ?m = "m\<lparr>ticks := t, sectors := d\<rparr>"
    have "\<exists>cs' k' cur' t d'. write_seek E vol off (cs1 ! Suc k) ?cur ?m = Some (Some (cs' ! k'), cur', ?m\<lparr>ticks := t, sectors := d'\<rparr>) \<and>
      grows vol (sectors ?m) cs1 d' cs' \<and> same_clusters vol (sectors ?m) d' \<and> k' < length cs' \<and> unat cur' = B * k' \<and> unat cur' \<le> unat off \<and>
      unat off < unat cur' + B"
    proof (rule less.hyps)
      show "unat off - unat ?cur < unat off - unat cur" using u B0 le h(4) by simp
      show "med_ok vol ?m" "chain_ok vol (sectors ?m) cs1" using h(1) n(2) by (simp_all add: grows_def)
      show "Suc k < length cs1" "unat ?cur = B * Suc k" "unat ?cur \<le> unat off" "unat off + B < 2 ^ 64" using n(4) u h(4,7) le by simp_all
      show "unat off < B * (length cs1 + card (avail vol (sectors ?m)))"
        using grows_avail(2) [OF v h(2) n(2)] h(6) by (simp add: add.commute)
    qed
    then obtain cs' k' cur' t' d' where s: "write_seek E vol off (cs1 ! Suc k) ?cur ?m = Some (Some (cs' ! k'), cur', ?m\<lparr>ticks := t', sectors := d'\<rparr>)"
      "grows vol d cs1 d' cs'" "same_clusters vol d d'" "k' < length cs'" "unat cur' = B * k'" "unat cur' \<le> unat off" "unat off < unat cur' + B"
      by auto
    have "write_seek E vol off (cs ! k) cur m = Some (Some (cs' ! k'), cur', m\<lparr>ticks := t', sectors := d'\<rparr>)"
      using True n(1) s(1) by (subst write_seek.simps) simp
    moreover have "grows vol (sectors m) cs d' cs'" by (rule grows_trans [OF v h(2) n(2) s(2)])
    moreover have "same_clusters vol (sectors m) d'" using n(3) s(3) by simp
    ultimately show ?thesis using s(4-7) by blast
  qed
qed

section \<open>Storing bytes\<close>

text \<open>The bytes \<open>F'\<close> differ from \<open>F\<close> only in the range from \<open>a\<close> to \<open>b\<close>, which holds the bytes of the buffer written at \<open>off\<close>.\<close>

definition stored :: "u8 list \<Rightarrow> nat \<Rightarrow> nat \<Rightarrow> nat \<Rightarrow> u8 list \<Rightarrow> u8 list \<Rightarrow> bool" where
  "stored F off a b buf F' \<longleftrightarrow> length F \<le> length F' \<and> b \<le> length F' \<and> (\<forall>i. a \<le> i \<and> i < b \<longrightarrow> F' ! i = buf ! (i - off)) \<and>
     (\<forall>i < length F. i < a \<or> b \<le> i \<longrightarrow> F' ! i = F ! i)"

lemma stored_trans:
  assumes "stored F off a c buf F1" "stored F1 off c b buf F2" "a \<le> c" "c \<le> b"
  shows "stored F off a b buf F2"
  unfolding stored_def
proof (intro conjI allI impI)
  fix i
  show "F2 ! i = buf ! (i - off)" if "a \<le> i \<and> i < b"
    using assms that unfolding stored_def by (cases "c \<le> i") auto
  show "F2 ! i = F ! i" if "i < length F" "i < a \<or> b \<le> i"
    using assms that unfolding stored_def by auto
qed (use assms in \<open>auto simp: stored_def\<close>)

lemma stored_append: "stored F off a b buf F' \<Longrightarrow> stored F off a b buf (F' @ x)"
  by (auto simp: stored_def nth_append)

lemma stored_list:
  assumes "stored F off off (off + n) buf F'" "off \<le> length F" "n \<le> length buf"
  shows "take (max (length F) (off + n)) F' = take off F @ take n buf @ drop (off + n) F"
proof (rule nth_equalityI)
  show "length (take (max (length F) (off + n)) F') = length (take off F @ take n buf @ drop (off + n) F)"
    using assms by (auto simp: stored_def)
  fix i
  assume "i < length (take (max (length F) (off + n)) F')"
  then show "take (max (length F) (off + n)) F' ! i = (take off F @ take n buf @ drop (off + n) F) ! i"
    using assms by (auto simp: stored_def nth_append)
qed

lemma take_patch:
  assumes "p \<le> s" "s \<le> length F" "n \<le> length b"
  shows "take (max s (p + n)) (take p F @ take n b @ drop (p + n) F) = take p (take s F) @ take n b @ drop (p + n) (take s F)"
proof -
  have e: "max s (p + n) = p + (n + (s - (p + n)))" by linarith
  have "length (take p F) = p" "length (take n b) = n" "take p (take s F) = take p F" using assms by (simp_all add: min_absorb1)
  then show ?thesis unfolding e by (simp add: drop_take)
qed

lemma file_bytes_same: "same_clusters vol d d' \<Longrightarrow> (\<forall>c \<in> set cs. cluster_ok vol c) \<Longrightarrow> file_bytes vol d' cs = file_bytes vol d cs"
  by (induction cs) simp_all

lemma grows_bytes:
  assumes "chain_ok vol d cs" "grows vol d cs d' cs'" "same_clusters vol d d'"
  shows "\<exists>x. file_bytes vol d' cs' = file_bytes vol d cs @ x"
  using assms file_bytes_same [OF assms(3), of cs] unfolding grows_def chain_ok_def by auto

lemma write_cluster:
  assumes "vol_ok vol" "reliable E" "med_ok vol m" "length y = unat (bytes_per_cluster vol)"
  shows "write_blocks E (cluster_to_sector vol c) (sectors_per_cluster vol) y m = Some (0, (tick m)\<lparr>sectors := cdata_put vol c y (sectors m)\<rparr>)"
  using assms by (simp add: write_blocks_def Let_def reliable_def cdata_put_def vol_okD(4) mult.commute)

text \<open>Replacing bytes of one cluster of a chain.\<close>

lemma cluster_store:
  assumes v: "vol_ok vol" and d: "disk_ok vol d" and ch: "chain_ok vol d cs" and k: "k < length cs"
    and y: "y = take q (cdata vol d (cs ! k)) @ z @ drop (q + length z) (cdata vol d (cs ! k))" "q + length z \<le> unat (bytes_per_cluster vol)"
  defines "d' \<equiv> cdata_put vol (cs ! k) y d" and "p \<equiv> unat (bytes_per_cluster vol) * k + q"
  shows "grows vol d cs d' cs" "length y = unat (bytes_per_cluster vol)"
    "file_bytes vol d' cs = take p (file_bytes vol d cs) @ z @ drop (p + length z) (file_bytes vol d cs)"
proof -
  let ?B = "unat (bytes_per_cluster vol)"
  have len: "length (cdata vol d c) = ?B" for c by (rule cdata_length [OF d v])
  show ly: "length y = ?B" using y len by simp
  have ok: "\<And>c. c \<in> set cs \<Longrightarrow> cluster_ok vol c" "distinct cs" "linked (tab vol d) cs" using ch by (auto simp: chain_ok_def)
  have ck: "cluster_ok vol (cs ! k)" using ok(1) k by simp
  have t: "tab vol d' c = tab vol d c" if "cluster_ok vol c" for c
    unfolding d'_def using tab_cdata_put [OF v ck cluster_okD(3) [OF v that]] .
  have cd: "cdata vol d' c = (if c = cs ! k then y else cdata vol d c)" if "cluster_ok vol c" for c
    unfolding d'_def by (rule cdata_put_get [OF v ck that ly])
  have "linked (tab vol d') cs" using ok(3) t ok(1) by (simp add: linked_iff)
  then have "chain_ok vol d' cs" using ch by (simp add: chain_ok_def)
  moreover have "disk_ok vol d'" unfolding d'_def by (rule disk_ok_cdata_put [OF v d ly])
  ultimately show "grows vol d cs d' cs" using t cd k unfolding grows_def by auto
  define as bs where "as = take k cs" and "bs = drop (Suc k) cs"
  have cs: "cs = as @ cs ! k # bs" using k by (simp add: as_def bs_def id_take_nth_drop)
  have nin: "cs ! k \<notin> set as" "cs ! k \<notin> set bs" using ok(2) cs by (metis distinct.simps(2) distinct_append not_distinct_conv_prefix)+
  have fb: "file_bytes vol d' xs = file_bytes vol d xs" if "set xs \<subseteq> set cs" "cs ! k \<notin> set xs" for xs
    using that by (induction xs) (auto simp: cd ok(1))
  have sub: "set as \<subseteq> set cs" "set bs \<subseteq> set cs" by (simp_all add: as_def bs_def set_take_subset set_drop_subset)
  have la: "length (file_bytes vol d as) = ?B * k" using file_bytes_length [OF d v] k by (simp add: as_def)
  have F: "file_bytes vol d cs = file_bytes vol d as @ cdata vol d (cs ! k) @ file_bytes vol d bs"
    by (subst cs) simp
  have "file_bytes vol d' cs = file_bytes vol d as @ y @ file_bytes vol d bs"
    by (subst cs) (simp add: fb [OF sub(1) nin(1)] fb [OF sub(2) nin(2)] cd [OF ck])
  also have "\<dots> = take p (file_bytes vol d cs) @ z @ drop (p + length z) (file_bytes vol d cs)"
    unfolding F y(1) p_def using la len y(2) by simp
  finally show "file_bytes vol d' cs = take p (file_bytes vol d cs) @ z @ drop (p + length z) (file_bytes vol d cs)" .
qed

text \<open>One turn of the loop: the bytes of the current cluster are stored, and the loop ends or goes on with the next cluster.\<close>

lemma write_loop_turn:
  assumes v: "vol_ok vol" and E: "reliable E" and m: "med_ok vol m" and ch: "chain_ok vol (sectors m) cs" and k: "k < length cs"
    and cur: "unat cur = unat (bytes_per_cluster vol) * k"
    and p: "unat cur \<le> unat off + unat cnt" "unat off + unat cnt < unat cur + unat (bytes_per_cluster vol)"
    and sz: "unat cnt < unat sz" "unat off + unat sz < 2 ^ 64" "unat sz \<le> length buf"
  defines "B \<equiv> unat (bytes_per_cluster vol)" and "q \<equiv> unat off + unat cnt - unat cur"
  shows "\<exists>cnt' d. unat cnt' = unat cnt + min (B - q) (unat sz - unat cnt) \<and> grows vol (sectors m) cs d cs \<and>
     stored (file_bytes vol (sectors m) cs) (unat off) (unat off + unat cnt) (unat off + unat cnt') buf (file_bytes vol d cs) \<and>
     write_loop E vol off sz buf (cs ! k) cur cnt m =
       (let m2 = m\<lparr>ticks := Suc (Suc (ticks m)), sectors := d\<rparr> in
        if cnt' < sz then do {
          (nxt, m3) \<leftarrow> next_or_new E vol (cs ! k) m2;
          case nxt of None \<Rightarrow> Some (cnt', m3) | Some c1 \<Rightarrow> write_loop E vol off sz buf c1 (cur + ucast (bytes_per_cluster vol)) cnt' m3 }
        else Some (cnt', m2))"
proof -
  let ?x = "cdata vol (sectors m) (cs ! k)" and ?F = "file_bytes vol (sectors m) cs"
  have less: "cnt < sz" using sz(1) by (simp add: word_less_nat_alt)
  have len: "length ?x = B" unfolding B_def by (rule cdata_length) (use m v in auto)
  have q: "q < B" unfolding q_def B_def using p by linarith
  define co where "co = (ucast (off + ucast cnt - cur) :: u32)"
  define n where "n = (if bytes_per_cluster vol - co > sz - cnt then sz - cnt else bytes_per_cluster vol - co)"
  note ts = turn_size [OF p sz(1,2), folded co_def, folded n_def B_def q_def]
  let ?z = "take (unat n) (drop (unat cnt) buf)"
  define y where "y = take q ?x @ ?z @ drop (q + length ?z) ?x"
  have lz: "length ?z = unat n" using ts(2) sz by simp
  have qn: "q + unat n \<le> B" using ts(2) q by simp
  have cp: "memcpy_at ?x (unat co) (drop (unat cnt) buf) (unat n) = Some y"
    using memcpy_at_eq [of q "unat n" ?x "drop (unat cnt) buf"] qn len lz ts(1) sz by (simp add: y_def)
  have d: "disk_ok vol (sectors m)" using m by simp
  define d' where "d' = cdata_put vol (cs ! k) y (sectors m)"
  note st = cluster_store [OF v d ch k y_def, unfolded lz, OF qn [unfolded B_def], folded d'_def B_def]
  have rc: "read_blocks E (cluster_to_sector vol (cs ! k)) (sectors_per_cluster vol) (unat (bytes_per_cluster vol)) m = Some (Some ?x, tick m)"
    using read_cluster [OF v m] E by (simp add: reliable_def)
  have wc: "write_blocks E (cluster_to_sector vol (cs ! k)) (sectors_per_cluster vol) y (tick m) =
      Some (0, m\<lparr>ticks := Suc (Suc (ticks m)), sectors := d'\<rparr>)"
    using write_cluster [OF v E _ st(2) [unfolded B_def], of "tick m" "cs ! k"] m by (simp add: d'_def)
  let ?m2 = "m\<lparr>ticks := Suc (Suc (ticks m)), sectors := d'\<rparr>"
  have "write_loop E vol off sz buf (cs ! k) cur cnt m = (let m2 = ?m2 in if cnt + n < sz then do {
          (nxt, m3) \<leftarrow> next_or_new E vol (cs ! k) m2;
          case nxt of None \<Rightarrow> Some (cnt + n, m3) | Some c1 \<Rightarrow> write_loop E vol off sz buf c1 (cur + ucast (bytes_per_cluster vol)) (cnt + n) m3 }
        else Some (cnt + n, m2))"
    using less by (subst write_loop.simps) (simp only: Let_def rc co_def [symmetric] n_def [symmetric] cp wc if_True if_False simp_thms
      Option.bind.simps prod.case option.case)
  moreover have "unat (cnt + n) = unat cnt + min (B - q) (unat sz - unat cnt)" using ts(2,3) by simp
  moreover have "stored ?F (unat off) (unat off + unat cnt) (unat off + unat (cnt + n)) buf (file_bytes vol d' cs)"
  proof -
    have e: "B * k + q = unat off + unat cnt" using cur p(1) by (simp add: q_def B_def)
    have "B * Suc k \<le> B * length cs" using k by (intro mult_le_mono2) simp
    then have l: "unat off + unat cnt + unat n \<le> length ?F" using e qn file_bytes_length [OF d v, of cs] by (simp add: B_def)
    have nz: "buf ! (i - unat off) = ?z ! (i - (unat off + unat cnt))" if "unat off + unat cnt \<le> i" "i < unat off + unat cnt + unat n" for i
    proof -
      have "i - (unat off + unat cnt) < unat n" "unat cnt + (i - (unat off + unat cnt)) = i - unat off" using that by linarith+
      then show ?thesis using sz(1,3) by simp
    qed
    show ?thesis unfolding st(3) e stored_def ts(3) using l lz nz by (auto simp: nth_append)
  qed
  ultimately show ?thesis using st(1) by blast
qed

lemma write_loop_spec:
  assumes v: "vol_ok vol" and E: "reliable E" and buf: "unat sz \<le> length buf"
  defines "B \<equiv> unat (bytes_per_cluster vol)"
  shows "med_ok vol m \<Longrightarrow> chain_ok vol (sectors m) cs \<Longrightarrow> k < length cs \<Longrightarrow> unat cur = B * k \<Longrightarrow> unat cur \<le> unat off + unat cnt \<Longrightarrow>
    unat off + unat cnt < unat cur + B \<Longrightarrow> unat cnt \<le> unat sz \<Longrightarrow> unat off + unat sz \<le> B * (length cs + card (avail vol (sectors m))) \<Longrightarrow>
    unat off + unat sz + B < 2 ^ 64 \<Longrightarrow>
    \<exists>cs' t d. write_loop E vol off sz buf (cs ! k) cur cnt m = Some (sz, m\<lparr>ticks := t, sectors := d\<rparr>) \<and> grows vol (sectors m) cs d cs' \<and>
      stored (file_bytes vol (sectors m) cs) (unat off) (unat off + unat cnt) (unat off + unat sz) buf (file_bytes vol d cs')"
proof (induction "unat sz - unat cnt" arbitrary: cs k cur cnt m rule: less_induct)
  case less
  note h = less.prems
  let ?F = "file_bytes vol (sectors m) cs"
  show ?case
  proof (cases "unat cnt = unat sz")
    case True
    then have cnt: "cnt = sz" by (simp add: word_unat_eq_iff)
    have "write_loop E vol off sz buf (cs ! k) cur cnt m = Some (sz, m\<lparr>ticks := ticks m, sectors := sectors m\<rparr>)"
      by (subst write_loop.simps) (simp add: Let_def cnt)
    moreover have "unat off + unat sz \<le> length ?F"
    proof -
      have "B * Suc k \<le> B * length cs" using h(3) by (intro mult_le_mono2) simp
      then show ?thesis using h(4,6) True file_bytes_length [OF _ v, of "sectors m" cs] h(1) by (simp add: B_def)
    qed
    then have "stored ?F (unat off) (unat off + unat cnt) (unat off + unat sz) buf ?F" using True by (auto simp: stored_def)
    moreover have "grows vol (sectors m) cs (sectors m) cs" using grows_refl h(1,2) by blast
    ultimately show ?thesis by blast
  next
    case False
    then have lt: "unat cnt < unat sz" using h(7) by simp
    let ?q = "unat off + unat cnt - unat cur"
    have q: "?q < B" using h(5,6) by linarith
    obtain cnt' d where t: "unat cnt' = unat cnt + min (B - ?q) (unat sz - unat cnt)" "grows vol (sectors m) cs d cs"
      "stored ?F (unat off) (unat off + unat cnt) (unat off + unat cnt') buf (file_bytes vol d cs)"
      "write_loop E vol off sz buf (cs ! k) cur cnt m =
       (let m2 = m\<lparr>ticks := Suc (Suc (ticks m)), sectors := d\<rparr> in
        if cnt' < sz then do {
          (nxt, m3) \<leftarrow> next_or_new E vol (cs ! k) m2;
          case nxt of None \<Rightarrow> Some (cnt', m3) | Some c1 \<Rightarrow> write_loop E vol off sz buf c1 (cur + ucast (bytes_per_cluster vol)) cnt' m3 }
        else Some (cnt', m2))"
      using write_loop_turn [OF v E h(1,2,3) h(4) [unfolded B_def] h(5) h(6) [unfolded B_def] lt _ buf] h(9) unfolding B_def by auto
    let ?m2 = "m\<lparr>ticks := Suc (Suc (ticks m)), sectors := d\<rparr>"
    show ?thesis
    proof (cases "cnt' < sz")
      case False
      then have "cnt' = sz" using t(1) lt by (simp add: word_unat_eq_iff word_less_nat_alt)
      then have "write_loop E vol off sz buf (cs ! k) cur cnt m = Some (sz, ?m2)" using t(4) by simp
      then show ?thesis using t(2,3) \<open>cnt' = sz\<close> by blast
    next
      case True
      then have c': "unat cnt' = unat cnt + (B - ?q)" "unat cnt' < unat sz" using t(1) by (auto simp: word_less_nat_alt)
      let ?cur = "cur + ucast (bytes_per_cluster vol)"
      have u: "unat ?cur = unat cur + B" using h(5-9) by (subst unat_add_nowrap) (simp_all add: unat_ucast_up B_def)
      have e: "unat off + unat cnt' = unat ?cur" using c'(1) u q h(5) by linarith
      have ok2: "med_ok vol ?m2" "chain_ok vol (sectors ?m2) cs" using h(1) t(2) by (simp_all add: grows_def)
      have av: "card (avail vol d) = card (avail vol (sectors m))" using grows_avail(2) [OF v h(2) t(2)] by simp
      have "B * Suc k < B * (length cs + card (avail vol d))" using e u h(4,8) c'(2) av by simp
      then have "Suc k < length cs + card (avail vol d)" by (simp only: mult_less_cancel1)
      then have k: "Suc k < length cs + card (avail vol (sectors ?m2))" by simp
      obtain cs1 t1 d1 where n: "next_or_new E vol (cs ! k) ?m2 = Some (Some (cs1 ! Suc k), ?m2\<lparr>ticks := t1, sectors := d1\<rparr>)"
        "grows vol d cs d1 cs1" "same_clusters vol d d1" "Suc k < length cs1"
        using next_or_new_spec [OF v E ok2 h(3) k] by auto
      let ?m3 = "?m2\<lparr>ticks := t1, sectors := d1\<rparr>"
      have wl: "write_loop E vol off sz buf (cs ! k) cur cnt m = write_loop E vol off sz buf (cs1 ! Suc k) ?cur cnt' ?m3"
        using t(4) n(1) True by simp
      have g1: "grows vol (sectors m) cs d1 cs1" by (rule grows_trans [OF v h(2) t(2) n(2)])
      obtain cs2 t2 d2 where r: "write_loop E vol off sz buf (cs1 ! Suc k) ?cur cnt' ?m3 = Some (sz, ?m3\<lparr>ticks := t2, sectors := d2\<rparr>)"
        "grows vol d1 cs1 d2 cs2" "stored (file_bytes vol d1 cs1) (unat off) (unat off + unat cnt') (unat off + unat sz) buf (file_bytes vol d2 cs2)"
      proof -
        have "\<exists>cs' t d'. write_loop E vol off sz buf (cs1 ! Suc k) ?cur cnt' ?m3 = Some (sz, ?m3\<lparr>ticks := t, sectors := d'\<rparr>) \<and>
          grows vol (sectors ?m3) cs1 d' cs' \<and> stored (file_bytes vol (sectors ?m3) cs1) (unat off) (unat off + unat cnt') (unat off + unat sz) buf (file_bytes vol d' cs')"
        proof (rule less.hyps)
          show "unat sz - unat cnt' < unat sz - unat cnt" using c' q by simp
          show "med_ok vol ?m3" "chain_ok vol (sectors ?m3) cs1" using h(1) n(2) by (simp_all add: grows_def)
          show "unat ?cur = B * Suc k" "unat ?cur \<le> unat off + unat cnt'" "unat off + unat cnt' < unat ?cur + B" using u h(4) e q by simp_all
          show "unat cnt' \<le> unat sz" "unat off + unat sz + B < 2 ^ 64" "Suc k < length cs1" using c' h(9) n(4) by simp_all
          show "unat off + unat sz \<le> B * (length cs1 + card (avail vol (sectors ?m3)))"
            using grows_avail(2) [OF v h(2) g1] h(8) by (simp add: add.commute)
        qed
        then show ?thesis using that by auto
      qed
      obtain x where x: "file_bytes vol d1 cs1 = file_bytes vol d cs @ x" using grows_bytes [OF _ n(2,3)] ok2(2) by auto
      have "stored ?F (unat off) (unat off + unat cnt) (unat off + unat cnt') buf (file_bytes vol d1 cs1)" unfolding x by (rule stored_append [OF t(3)])
      then have "stored ?F (unat off) (unat off + unat cnt) (unat off + unat sz) buf (file_bytes vol d2 cs2)"
        by (rule stored_trans [OF _ r(3)]) (use c' in simp_all)
      moreover have "grows vol (sectors m) cs d2 cs2" by (rule grows_trans [OF v h(2) g1 r(2)])
      moreover have "write_loop E vol off sz buf (cs ! k) cur cnt m = Some (sz, m\<lparr>ticks := t2, sectors := d2\<rparr>)" using wl r(1) by simp
      ultimately show ?thesis by blast
    qed
  qed
qed

text \<open>Writing a file without a gap, with clusters left for what does not fit in its chain.\<close>

lemma fat32_write_spec:
  assumes v: "vol_ok vol" and E: "reliable E" and m: "med_ok vol m" and ch: "chain_ok vol (sectors m) cs" and cs: "inode node = hd cs"
    and fl: "n_flags node AND VFS_DIRECTORY = 0"
    and sz: "0 < unat sz" "unat sz < 2 ^ 31" "unat sz \<le> length buf"
    and free: "unat off + unat sz \<le> unat (bytes_per_cluster vol) * (length cs + card (avail vol (sectors m)))"
  shows "\<exists>cs' t d. fat32_write E vol node off sz buf m =
       Some (int (unat sz), node\<lparr>n_size := max (n_size node) (off + ucast sz)\<rparr>, m\<lparr>ticks := t, sectors := d\<rparr>) \<and> grows vol (sectors m) cs d cs' \<and>
     stored (file_bytes vol (sectors m) cs) (unat off) (unat off) (unat off + unat sz) buf (file_bytes vol d cs') \<and> unat (off + ucast sz) = unat off + unat sz"
proof -
  let ?B = "unat (bytes_per_cluster vol)" and ?d = "sectors m"
  have ne: "cs \<noteq> []" using ch by (auto simp: chain_ok_def)
  then have hd: "inode node = cs ! 0" "0 < length cs" using cs by (simp_all add: hd_conv_nth)
  have i0: "inode node \<noteq> 0" using cluster_okD(5) [OF v] ch hd by (simp add: chain_ok_def)
  have dk: "disk_ok vol ?d" using m by simp
  have o60: "unat off < 2 ^ 60" using free capacity_bound [OF v ch] sz(1) by linarith
  have s31: "unat sz < 2 ^ 31" "?B < 2 ^ 32" using sz(2) unsigned_less [of "bytes_per_cluster vol", where 'a = nat] by simp_all
  have no: "unat off + unat sz + ?B < 2 ^ 64" using o60 s31 by simp
  have lt: "unat off < ?B * (length cs + card (avail vol ?d))" using free sz(1) by linarith
  have "\<exists>cs' k' cur' t d. write_seek E vol off (cs ! 0) 0 m = Some (Some (cs' ! k'), cur', m\<lparr>ticks := t, sectors := d\<rparr>) \<and>
      grows vol ?d cs d cs' \<and> same_clusters vol ?d d \<and> k' < length cs' \<and> unat cur' = ?B * k' \<and> unat cur' \<le> unat off \<and> unat off < unat cur' + ?B"
    by (rule write_seek_spec [OF v E m ch hd(2) _ _ lt]) (use no in simp_all)
  then obtain cs1 k cur t d where s: "write_seek E vol off (inode node) 0 m = Some (Some (cs1 ! k), cur, m\<lparr>ticks := t, sectors := d\<rparr>)"
    "grows vol ?d cs d cs1" "same_clusters vol ?d d" "k < length cs1" "unat cur = ?B * k" "unat cur \<le> unat off" "unat off < unat cur + ?B"
    unfolding hd(1) by blast
  let ?m3 = "m\<lparr>sectors := d, ticks := Suc t, held := bytes_per_cluster vol # held m\<rparr>"
  have "\<exists>cs' t d'. write_loop E vol off sz buf (cs1 ! k) cur 0 ?m3 = Some (sz, ?m3\<lparr>ticks := t, sectors := d'\<rparr>) \<and> grows vol (sectors ?m3) cs1 d' cs' \<and>
      stored (file_bytes vol (sectors ?m3) cs1) (unat off) (unat off + unat (0 :: u32)) (unat off + unat sz) buf (file_bytes vol d' cs')"
  proof (rule write_loop_spec [OF v E sz(3)])
    show "med_ok vol ?m3" "chain_ok vol (sectors ?m3) cs1" using m s(2) by (simp_all add: grows_def)
    show "unat off + unat sz \<le> ?B * (length cs1 + card (avail vol (sectors ?m3)))"
      using grows_avail(2) [OF v ch s(2)] free by (simp add: add.commute)
  qed (use s(4-7) no in simp_all)
  then obtain cs2 t2 d2 where w: "write_loop E vol off sz buf (cs1 ! k) cur 0 ?m3 = Some (sz, ?m3\<lparr>ticks := t2, sectors := d2\<rparr>)" "grows vol d cs1 d2 cs2"
      "stored (file_bytes vol d cs1) (unat off) (unat off) (unat off + unat sz) buf (file_bytes vol d2 cs2)" by auto
  have g: "grows vol ?d cs d2 cs2" by (rule grows_trans [OF v ch s(2) w(2)])
  obtain x where x: "file_bytes vol d cs1 = file_bytes vol ?d cs @ x" using grows_bytes [OF ch s(2,3)] by blast
  have st: "stored (file_bytes vol ?d cs) (unat off) (unat off) (unat off + unat sz) buf (file_bytes vol d2 cs2)"
    using w(3) unfolding x by (auto simp: stored_def nth_append)
  have e: "unat (off + ucast sz) = unat off + unat sz" using no by (subst unat_add_nowrap) (simp_all add: unat_ucast_up)
  have "fat32_write E vol node off sz buf m = Some (sint sz, if off + ucast sz > n_size node then node\<lparr>n_size := off + ucast sz\<rparr> else node, m\<lparr>ticks := t2, sectors := d2\<rparr>)"
    using fl i0 s(1) w(1) E by (simp add: fat32_write_def pool_get_def pool_put_def reliable_def)
  moreover have "sint sz = int (unat sz)" using sz(2) by (rule sint_small)
  moreover have "(if off + ucast sz > n_size node then node\<lparr>n_size := off + ucast sz\<rparr> else node) = node\<lparr>n_size := max (n_size node) (off + ucast sz)\<rparr>"
    by (auto simp: max_def)
  ultimately have "fat32_write E vol node off sz buf m =
      Some (int (unat sz), node\<lparr>n_size := max (n_size node) (off + ucast sz)\<rparr>, m\<lparr>ticks := t2, sectors := d2\<rparr>)" by (simp only:)
  with g st e show ?thesis by blast
qed

section \<open>Freeing a chain\<close>

lemma set_cluster_reliable:
  assumes "vol_ok vol" "reliable E" "med_ok vol m" "cluster_ok vol c"
  shows "\<exists>t. fat32_set_cluster E vol c w m = Some (0, m\<lparr>ticks := t, sectors := tab_put vol c w (sectors m)\<rparr>)" "disk_ok vol (tab_put vol c w (sectors m))"
    "\<And>x. cluster_ok vol x \<Longrightarrow> tab vol (tab_put vol c w (sectors m)) x = (if x = c then w AND FAT32_MASK else tab vol (sectors m) x)"
    "same_clusters vol (sectors m) (tab_put vol c w (sectors m))"
  using set_cluster_spec [OF assms(1,3) cluster_okD(1) [OF assms(1,4)], of E w] assms disk_ok_tab_put [OF assms(1) _ cluster_okD(1) [OF assms(1,4)]]
    tab_put_get [OF assms(1) _ cluster_okD(3) [OF assms(1,4)] cluster_okD(3) [OF assms(1)]] cdata_tab_put [OF assms(1) cluster_okD(3) [OF assms(1,4)]]
  by auto

lemma free_step:
  assumes v: "vol_ok vol" and E: "reliable E" and m: "med_ok vol m" and c: "cluster_ok vol c"
  shows "\<exists>t. free_chain_loop E vol c m = free_chain_loop E vol (tab vol (sectors m) c) (m\<lparr>ticks := t, sectors := tab_put vol c 0 (sectors m)\<rparr>)"
proof -
  obtain t where g: "fat32_get_next_cluster E vol c m = Some (tab vol (sectors m) c, m\<lparr>ticks := t\<rparr>)"
    using get_next_spec [OF v m cluster_okD(1) [OF v c], of E] E by auto
  obtain t' where "fat32_set_cluster E vol c 0 (m\<lparr>ticks := t\<rparr>) = Some (0, m\<lparr>ticks := t', sectors := tab_put vol c 0 (sectors m)\<rparr>)"
    using set_cluster_reliable(1) [OF v E _ c, of "m\<lparr>ticks := t\<rparr>" 0] m by auto
  moreover have "c < FAT32_EOF" using cluster_okD(4) [OF v c] by (simp add: word_less_nat_alt)
  moreover have "c \<noteq> FAT32_BAD_CLUSTER" using cluster_okD(4) [OF v c] by auto
  ultimately have "free_chain_loop E vol c m = free_chain_loop E vol (tab vol (sectors m) c) (m\<lparr>ticks := t', sectors := tab_put vol c 0 (sectors m)\<rparr>)"
    using g cluster_okD(5) [OF v c] by (subst free_chain_loop.simps) simp
  then show ?thesis by blast
qed

lemma free_stop: "c = 0 \<or> c = FAT32_BAD_CLUSTER \<or> FAT32_EOF \<le> c \<Longrightarrow> free_chain_loop E vol c m = Some m"
  by (subst free_chain_loop.simps) auto

lemma free_chain_spec:
  assumes v: "vol_ok vol" and E: "reliable E"
  shows "med_ok vol m \<Longrightarrow> chain_ok vol (sectors m) (c # cs) \<Longrightarrow>
    \<exists>t d. free_chain_loop E vol c m = Some (m\<lparr>ticks := t, sectors := d\<rparr>) \<and> disk_ok vol d \<and> same_clusters vol (sectors m) d \<and>
      (\<forall>x. cluster_ok vol x \<longrightarrow> tab vol d x = (if x \<in> set (c # cs) then 0 else tab vol (sectors m) x))"
proof (induction cs arbitrary: c m)
  case (Nil c m)
  then have c: "cluster_ok vol c" "FAT32_EOF \<le> tab vol (sectors m) c" by (simp_all add: chain_ok_def)
  note st = set_cluster_reliable(2-4) [OF v E Nil.prems(1) c(1), where w = 0]
  show ?case using free_step [OF v E Nil.prems(1) c(1)] free_stop [of "tab vol (sectors m) c"] c(2) st by fastforce
next
  case (Cons c2 cs c m)
  then have c: "cluster_ok vol c" "tab vol (sectors m) c = c2" by (simp_all add: chain_ok_def)
  note st = set_cluster_reliable(2-4) [OF v E Cons.prems(1) c(1), where w = 0]
  let ?d = "tab_put vol c 0 (sectors m)"
  obtain t where fs: "free_chain_loop E vol c m = free_chain_loop E vol c2 (m\<lparr>ticks := t, sectors := ?d\<rparr>)"
    using free_step [OF v E Cons.prems(1) c(1)] c(2) by auto
  have "linked (tab vol (sectors m)) (c2 # cs)" using Cons.prems(2) by (simp add: chain_ok_def)
  then have "linked (tab vol ?d) (c2 # cs)" by (rule linked_tab_cong) (use Cons.prems(2) st(2) in \<open>auto simp: chain_ok_def\<close>)
  then have "chain_ok vol ?d (c2 # cs)" using Cons.prems(2) by (simp add: chain_ok_def)
  then obtain t' d where r: "free_chain_loop E vol c2 (m\<lparr>ticks := t, sectors := ?d\<rparr>) = Some (m\<lparr>ticks := t', sectors := d\<rparr>)"
    "disk_ok vol d" "same_clusters vol ?d d" "\<forall>x. cluster_ok vol x \<longrightarrow> tab vol d x = (if x \<in> set (c2 # cs) then 0 else tab vol ?d x)"
    using Cons.IH [of "m\<lparr>ticks := t, sectors := ?d\<rparr>" c2] Cons.prems(1) st(1) by auto
  have "\<forall>x. cluster_ok vol x \<longrightarrow> tab vol d x = (if x \<in> set (c # c2 # cs) then 0 else tab vol (sectors m) x)" using r(4) st(2) by auto
  moreover have "same_clusters vol (sectors m) d" using r(3) st(3) by simp
  moreover have "free_chain_loop E vol c m = Some (m\<lparr>ticks := t', sectors := d\<rparr>)" using fs r(1) by simp
  ultimately show ?case using r(2) by blast
qed

text \<open>The walk ends on every table whose entries stay inside the table, also when the entries form a cycle: each turn clears an entry.\<close>

definition closed_table :: "fat32_volume \<Rightarrow> (u64 \<Rightarrow> u8 list) \<Rightarrow> bool" where
  "closed_table vol d \<longleftrightarrow> (\<forall>c. cluster_ok vol c \<longrightarrow>
     tab vol d c = 0 \<or> tab vol d c = FAT32_BAD_CLUSTER \<or> FAT32_EOF \<le> tab vol d c \<or> cluster_ok vol (tab vol d c))"

lemma free_chain_returns:
  assumes v: "vol_ok vol" and E: "reliable E"
  shows "med_ok vol m \<Longrightarrow> closed_table vol (sectors m) \<Longrightarrow> c = 0 \<or> c = FAT32_BAD_CLUSTER \<or> FAT32_EOF \<le> c \<or> cluster_ok vol c \<Longrightarrow>
    \<exists>m'. free_chain_loop E vol c m = Some m'"
proof (induction "card {x. cluster_ok vol x \<and> tab vol (sectors m) x \<noteq> 0}" arbitrary: c m rule: less_induct)
  case less
  show ?case
  proof (cases "cluster_ok vol c")
    case True
    let ?d = "tab_put vol c 0 (sectors m)" and ?S = "\<lambda>d. {x. cluster_ok vol x \<and> tab vol d x \<noteq> 0}"
    note st = set_cluster_reliable(2-4) [OF v E less.prems(1) True, where w = 0]
    obtain t where fs: "free_chain_loop E vol c m = free_chain_loop E vol (tab vol (sectors m) c) (m\<lparr>ticks := t, sectors := ?d\<rparr>)"
      using free_step [OF v E less.prems(1) True] by auto
    show ?thesis
    proof (cases "tab vol (sectors m) c = 0")
      case False
      have "?S ?d = ?S (sectors m) - {c}" using st(2) by (auto split: if_splits)
      moreover have "c \<in> ?S (sectors m)" using True False by simp
      ultimately have "card (?S ?d) < card (?S (sectors m))" using card_Diff1_less [OF finite, of c "?S (sectors m)"] by (simp only:)
      moreover have "closed_table vol ?d" using less.prems(2) st(2) by (auto simp: closed_table_def)
      ultimately show ?thesis using fs less.hyps [of "m\<lparr>ticks := t, sectors := ?d\<rparr>" "tab vol (sectors m) c"] less.prems(1,2) st(1) True
        by (auto simp: closed_table_def)
    qed (use fs free_stop in simp)
  qed (use free_stop less.prems(3) in blast)
qed

section \<open>Buffers\<close>

lemma pool_put_head: "held m = sz # h \<Longrightarrow> pool_put sz m = Some (m\<lparr>held := h\<rparr>)"
  by (simp add: pool_put_def)

lemma read_blocks_held: "read_blocks E l n k m = Some (b, m') \<Longrightarrow> held m' = held m"
  by (auto simp: read_blocks_def Let_def split: if_splits)

lemma write_blocks_held: "write_blocks E l n x m = Some (r, m') \<Longrightarrow> held m' = held m"
  by (auto simp: write_blocks_def Let_def split: if_splits)

lemma pool_put_held: "pool_put sz m = Some m' \<Longrightarrow> held m' = remove1 sz (held m)"
  by (auto simp: pool_put_def split: if_splits)

lemma pool_get_held: "pool_get E sz m = (got, m') \<Longrightarrow> held m' = (if got then sz # held m else held m)"
  by (auto simp: pool_get_def)

lemmas request_held = read_blocks_held write_blocks_held pool_put_held pool_get_held

lemma get_next_held: "fat32_get_next_cluster E vol c m = Some (r, m') \<Longrightarrow> held m' = held m"
  unfolding fat32_get_next_cluster_def Let_def
  by (auto simp: Option.bind_eq_Some_conv dest!: request_held split: if_splits prod.splits option.splits)

lemma set_cluster_held: "fat32_set_cluster E vol c w m = Some (r, m') \<Longrightarrow> held m' = held m"
  unfolding fat32_set_cluster_def Let_def
  by (auto simp: Option.bind_eq_Some_conv dest!: request_held split: if_splits prod.splits option.splits)

lemma alloc_sectors_held: "alloc_sectors E vol ns m = Some (r, m') \<Longrightarrow> held m' = remove1 (bytes_per_sector vol) (held m)"
proof (induction ns arbitrary: m)
  case Nil
  then show ?case by (auto simp: Option.bind_eq_Some_conv dest!: request_held)
next
  case (Cons n ns)
  let ?sz = "bytes_per_sector vol"
  from Cons.prems obtain b m1 where rb: "read_blocks E (ucast (first_fat_sector vol + of_nat n)) 1 (unat ?sz) m = Some (b, m1)"
    by (auto simp: Option.bind_eq_Some_conv Let_def)
  note h = read_blocks_held [OF rb]
  show ?case
  proof (cases b)
    case None
    then show ?thesis using Cons.prems rb h by (auto simp: Option.bind_eq_Some_conv dest!: request_held)
  next
    case (Some x)
    show ?thesis
    proof (cases "find (\<lambda>i. \<not> of_nat n * (?sz div 4) + of_nat i < (2 :: u32) \<and> rd32 x (4 * i) AND FAT32_MASK = 0) [0..<unat (?sz div 4)]")
      case None
      then have "alloc_sectors E vol ns m1 = Some (r, m')" using Cons.prems rb Some by simp
      then show ?thesis using Cons.IH h by simp
    next
      case (Some i)
      then obtain m2 r' where "pool_put ?sz m1 = Some m2" "fat32_set_cluster E vol (of_nat n * (?sz div 4) + of_nat i) FAT32_EOF m2 = Some (r', m')"
        using Cons.prems rb \<open>b = Some x\<close> by (auto simp: Option.bind_eq_Some_conv Let_def)
      then show ?thesis using pool_put_held set_cluster_held h by metis
    qed
  qed
qed

lemma allocate_held: "fat32_allocate_cluster E vol m = Some (r, m') \<Longrightarrow> held m' = held m"
  unfolding fat32_allocate_cluster_def
  by (auto dest!: request_held alloc_sectors_held split: if_splits prod.splits)

lemma next_or_new_held: "next_or_new E vol c m = Some (r, m') \<Longrightarrow> held m' = held m"
  unfolding next_or_new_def
  by (auto simp: Option.bind_eq_Some_conv dest!: get_next_held set_cluster_held allocate_held split: if_splits prod.splits)

lemma free_chain_loop_held: "free_chain_loop E vol c m = Some m' \<Longrightarrow> held m' = held m"
proof (induction rule: free_chain_loop.raw_induct [rotated, consumes 1, where P = "\<lambda>E vol c m m'. held m' = held m"])
  case (1 f E vol c m m')
  from 1(2) show ?case
    by (auto simp: Option.bind_eq_Some_conv dest!: get_next_held set_cluster_held 1(1) split: if_splits prod.splits)
qed

lemma read_seek_held: "read_seek E vol off c cur m = Some x \<Longrightarrow> held (snd (snd x)) = held m"
proof (induction rule: read_seek.raw_induct [rotated, consumes 1, where P = "\<lambda>E vol off c cur m x. held (snd (snd x)) = held m"])
  case (1 f E vol off c cur m x)
  from 1(2) show ?case
    by (auto simp: Option.bind_eq_Some_conv dest!: get_next_held 1(1) split: if_splits prod.splits)
qed

lemma write_seek_held: "write_seek E vol off c cur m = Some x \<Longrightarrow> held (snd (snd x)) = held m"
proof (induction rule: write_seek.raw_induct [rotated, consumes 1, where P = "\<lambda>E vol off c cur m x. held (snd (snd x)) = held m"])
  case (1 f E vol off c cur m x)
  from 1(2) show ?case
    by (auto simp: Option.bind_eq_Some_conv dest!: next_or_new_held 1(1) split: if_splits prod.splits option.splits)
qed

lemma read_loop_held: "read_loop E vol off sz space c cur cnt out m = Some x \<Longrightarrow> held (snd (snd x)) = held m"
proof (induction rule: read_loop.raw_induct [rotated, consumes 1, where P = "\<lambda>E vol off sz space c cur cnt out m x. held (snd (snd x)) = held m"])
  case (1 f E vol off sz space c cur cnt out m x)
  show ?case
  proof (cases "cnt < sz")
    case True
    with 1(2) obtain b m1 where rb: "read_blocks E (cluster_to_sector vol c) (sectors_per_cluster vol) (unat (bytes_per_cluster vol)) m = Some (b, m1)"
      by (auto simp: Option.bind_eq_Some_conv Let_def)
    note h = read_blocks_held [OF rb]
    show ?thesis
      using 1(2) True rb h by (cases b) (auto simp: Option.bind_eq_Some_conv Let_def dest!: get_next_held 1(1) split: if_splits prod.splits)
  qed (use 1(2) in \<open>auto simp: Let_def\<close>)
qed

lemma write_loop_held: "write_loop E vol off sz buf c cur cnt m = Some x \<Longrightarrow> held (snd x) = held m"
proof (induction rule: write_loop.raw_induct [rotated, consumes 1, where P = "\<lambda>E vol off sz buf c cur cnt m x. held (snd x) = held m"])
  case (1 f E vol off sz buf c cur cnt m x)
  show ?case
  proof (cases "cnt < sz")
    case True
    with 1(2) obtain b m1 where rb: "read_blocks E (cluster_to_sector vol c) (sectors_per_cluster vol) (unat (bytes_per_cluster vol)) m = Some (b, m1)"
      by (auto simp: Option.bind_eq_Some_conv Let_def)
    note h = read_blocks_held [OF rb]
    show ?thesis
      using 1(2) True rb h
      by (cases b) (auto simp: Option.bind_eq_Some_conv Let_def dest!: write_blocks_held next_or_new_held 1(1) split: if_splits prod.splits option.splits)
  qed (use 1(2) in \<open>auto simp: Let_def\<close>)
qed

lemma fat32_read_held: "fat32_read E vol node off sz space m = Some (r, x, m') \<Longrightarrow> held m' = held m"
  unfolding fat32_read_def Let_def
  by (auto simp: Option.bind_eq_Some_conv pool_get_def dest!: read_seek_held read_loop_held request_held split: if_splits prod.splits option.splits)

lemma fat32_write_held: "fat32_write E vol node off sz buf m = Some (r, n, m') \<Longrightarrow> held m' = held m"
  unfolding fat32_write_def Let_def
  by (auto simp: Option.bind_eq_Some_conv pool_get_def dest!: allocate_held write_seek_held write_loop_held request_held split: if_splits prod.splits option.splits)

text \<open>The bytes of a file.\<close>

definition fat_content :: "fat32_volume \<Rightarrow> vfs_node \<Rightarrow> medium \<Rightarrow> u32 list \<Rightarrow> u8 list" where
  "fat_content vol n m cs = take (unat (n_size n)) (file_bytes vol (sectors m) cs)"

section \<open>A small volume\<close>

text \<open>Sectors of eight bytes, one per cluster; the table is sectors 1 to 4, with entries for clusters 2 to 7. Cluster 2 is a chain of
  its own, the others are free.\<close>

definition fvol :: fat32_volume where
  "fvol = \<lparr>bytes_per_sector = 8, sectors_per_cluster = 1, bytes_per_cluster = 8, first_fat_sector = 1, first_data_sector = 5, root_cluster = 2\<rparr>"

definition fmed :: medium where
  "fmed = \<lparr>sectors = (\<lambda>lba. if lba = 2 then [0xF8, 0xFF, 0xFF, 0x0F, 0, 0, 0, 0] else replicate 8 0), sector_size = 8, ticks = 0, held = [], heap_blocks = 0, has_ioctl = True\<rparr>"

definition fenv :: outcomes where
  "fenv = \<lparr>pool_gives = (\<lambda>_. True), heap_gives = (\<lambda>_. True), dev_reads = (\<lambda>_. True), dev_writes = (\<lambda>_. None), dev_syncs = (\<lambda>_. True)\<rparr>"

definition fnode :: vfs_node where
  "fnode = node0\<lparr>n_flags := VFS_FILE, inode := 2, n_size := 3\<rparr>"

lemma fvol_ok: "vol_ok fvol" "table_size fvol = 8"
  by (simp_all add: vol_ok_def table_size_def fvol_def)

lemma fmed_ok: "med_ok fvol fmed" and fenv_ok: "reliable fenv"
  by (simp_all add: fvol_def fmed_def fenv_def disk_ok_def reliable_def)

lemma fmed_tab: "tab fvol (sectors fmed) 2 = FAT32_EOF" "tab fvol (sectors fmed) 3 = 0"
  by (simp_all add: tab_def fat_lba_def fat_idx_def fvol_def fmed_def rd32_def unat_div unat_mod)

lemma fmed_chain: "chain_ok fvol (sectors fmed) [2]" "3 \<in> avail fvol (sectors fmed)"
  by (simp_all add: chain_ok_def avail_def cluster_ok_def fvol_ok fmed_tab)

section \<open>Properties\<close>





text \<open>C39: Reading a file under every outcome. For a regular file whose size is covered by its chain, \<^verbatim>\<open>fat32_read\<close> returns
  without changing the disk or keeping a buffer; the result is -1 with no bytes, or the number of the bytes delivered, and these are
  a prefix of the part of the file that was asked for. When nothing fails they are all of it.\<close>

theorem fat32_read_prefix:
  assumes "vol_ok vol" "med_ok vol m" "chain_ok vol (sectors m) (inode node # cs)" "n_flags node AND VFS_DIRECTORY = 0"
    and "unat (n_size node) \<le> unat (bytes_per_cluster vol) * length (inode node # cs)"
    and "unat sz < 2 ^ 31" "unat sz \<le> space" "unat off + unat sz < 2 ^ 64"
  defines "part \<equiv> take (unat sz) (drop (unat off) (take (unat (n_size node)) (file_bytes vol (sectors m) (inode node # cs))))"
  shows "\<exists>r x t. fat32_read E vol node off sz space m = Some (r, x, m\<lparr>ticks := t\<rparr>) \<and> x = take (length x) part \<and>
     (r = int (length x) \<or> r = -1 \<and> x = [] \<and> \<not> reliable E) \<and> (reliable E \<longrightarrow> x = part)"
proof -
  let ?F = "file_bytes vol (sectors m) (inode node # cs)"
  obtain r x t where r: "fat32_read E vol node off sz space m = Some (r, x, m\<lparr>ticks := t\<rparr>)"
    "r = int (length x) \<or> r = -1 \<and> x = [] \<and> \<not> reliable E" "read_result E (min (unat sz) (unat (n_size node) - unat off)) (drop (unat off) ?F) x"
    using fat32_read_spec [OF assms(1-8)] by blast
  have p: "part = take (min (unat sz) (unat (n_size node) - unat off)) (drop (unat off) ?F)"
    unfolding part_def drop_take take_take ..
  have "x = take (length x) part" unfolding p read_resultD(1) [OF r(3)] ..
  moreover have "x = part" if "reliable E" unfolding p using read_resultD(2) [OF r(3) that] ..
  ultimately show ?thesis using r(1,2) by blast
qed

theorem fat32_read_prefix_witness:
  "\<exists>r x t. fat32_read fenv fvol fnode 1 10 10 fmed = Some (r, x, fmed\<lparr>ticks := t\<rparr>) \<and> x = [0, 0]"
proof -
  have i: "inode fnode = 2" "n_flags fnode AND VFS_DIRECTORY = 0" "n_size fnode = 3" by (simp_all add: fnode_def node0_def)
  have "file_bytes fvol (sectors fmed) [2] = replicate 8 0" by (simp add: cdata_def fvol_def fmed_def cluster_to_sector_def)
  then have "take (unat (10 :: u32)) (drop (unat (1 :: u64)) (take (unat (n_size fnode)) (file_bytes fvol (sectors fmed) (inode fnode # [])))) = replicate 2 0"
    by (simp add: i)
  also have "replicate 2 (0 :: u8) = [0, 0]" by (simp add: numeral_2_eq_2)
  finally show ?thesis
    using fat32_read_prefix [of fvol fmed fnode "[]" 10 10 1 fenv, OF fvol_ok(1) fmed_ok] fmed_chain(1) fenv_ok by (auto simp: i fvol_def)
qed

text \<open>C34: Writing a file is an update of its bytes. Take a regular file without a gap between its bytes and the offset, clusters
  left for what does not fit in its chain, and no failing request. \<^verbatim>\<open>fat32_write\<close> returns the size it was given; the chain keeps its first
  cluster and may be longer; the bytes of the file are the old ones with the buffer stored at the offset, and the size of the node says so;
  every other chain of the volume has the same clusters and bytes as before, and no buffer is kept.\<close>

theorem fat32_write_refines:
  assumes v: "vol_ok vol" and E: "reliable E" and m: "med_ok vol m" and ch: "chain_ok vol (sectors m) cs" and cs: "inode node = hd cs"
    and fl: "n_flags node AND VFS_DIRECTORY = 0"
    and off: "unat off \<le> unat (n_size node)" "unat (n_size node) \<le> length (file_bytes vol (sectors m) cs)"
    and sz: "0 < unat sz" "unat sz < 2 ^ 31" "unat sz \<le> length buf"
    and free: "unat off + unat sz \<le> unat (bytes_per_cluster vol) * (length cs + card (avail vol (sectors m)))"
  shows "\<exists>node' cs' m'. fat32_write E vol node off sz buf m = Some (int (unat sz), node', m') \<and> inode node' = hd cs' \<and> hd cs' = hd cs \<and>
     chain_ok vol (sectors m') cs' \<and> med_ok vol m' \<and> held m' = held m \<and>
     unat (n_size node') = max (unat (n_size node)) (unat off + unat sz) \<and>
     fat_content vol node' m' cs' = take (unat off) (fat_content vol node m cs) @ take (unat sz) buf @ drop (unat off + unat sz) (fat_content vol node m cs) \<and>
     (\<forall>es. chain_ok vol (sectors m) es \<and> set es \<inter> set cs = {} \<longrightarrow>
        chain_ok vol (sectors m') es \<and> file_bytes vol (sectors m') es = file_bytes vol (sectors m) es)"
proof -
  let ?F = "file_bytes vol (sectors m) cs"
  have "unat off \<le> length ?F" using off by linarith
  then obtain cs' t d where w: "fat32_write E vol node off sz buf m =
       Some (int (unat sz), node\<lparr>n_size := max (n_size node) (off + ucast sz)\<rparr>, m\<lparr>ticks := t, sectors := d\<rparr>)"
     "grows vol (sectors m) cs d cs'" "stored ?F (unat off) (unat off) (unat off + unat sz) buf (file_bytes vol d cs')"
     "unat (off + ucast sz) = unat off + unat sz"
    using fat32_write_spec [OF v E m ch cs fl sz free] by blast
  let ?n = "node\<lparr>n_size := max (n_size node) (off + ucast sz)\<rparr>" and ?m = "m\<lparr>ticks := t, sectors := d\<rparr>"
  have ns: "unat (n_size ?n) = max (unat (n_size node)) (unat off + unat sz)" using w(4) by (auto simp: max_def word_le_nat_alt)
  obtain new where n: "cs' = cs @ new" "set new \<subseteq> avail vol (sectors m)" using w(2) by (auto simp: grows_def)
  have hd: "hd cs' = hd cs" using n(1) ch by (auto simp: chain_ok_def linked_iff)
  have ok: "chain_ok vol d cs'" "disk_ok vol d" using w(2) by (simp_all add: grows_def)
  have "take (max (length ?F) (unat off + unat sz)) (file_bytes vol d cs') = take (unat off) ?F @ take (unat sz) buf @ drop (unat off + unat sz) ?F"
    by (rule stored_list [OF w(3) _ sz(3)]) (use off in linarith)
  moreover have "min (max (unat (n_size node)) (unat off + unat sz)) (max (length ?F) (unat off + unat sz)) = max (unat (n_size node)) (unat off + unat sz)"
    using off(2) by linarith
  ultimately have "take (max (unat (n_size node)) (unat off + unat sz)) (file_bytes vol d cs') =
      take (max (unat (n_size node)) (unat off + unat sz)) (take (unat off) ?F @ take (unat sz) buf @ drop (unat off + unat sz) ?F)"
    by (metis take_take)
  also have "\<dots> = take (unat off) (take (unat (n_size node)) ?F) @ take (unat sz) buf @ drop (unat off + unat sz) (take (unat (n_size node)) ?F)"
    by (rule take_patch [OF off sz(3)])
  finally have c: "fat_content vol ?n ?m cs' = take (unat off) (fat_content vol node m cs) @ take (unat sz) buf @ drop (unat off + unat sz) (fat_content vol node m cs)"
    unfolding fat_content_def ns by simp
  have other: "chain_ok vol d es \<and> file_bytes vol d es = file_bytes vol (sectors m) es"
    if es: "chain_ok vol (sectors m) es" "set es \<inter> set cs = {}" for es
  proof -
    have "set es \<inter> set new = {}" using n(2) chain_tab_nonzero [OF v es(1)] by (auto simp: avail_def)
    then have sm: "tab vol d c = tab vol (sectors m) c" "cdata vol d c = cdata vol (sectors m) c" if "c \<in> set es" for c
      using that es w(2) n(1) by (auto simp: grows_def chain_ok_def)
    then have "linked (tab vol d) es" using es(1) linked_tab_cong [of "tab vol (sectors m)" es "tab vol d"] by (simp add: chain_ok_def)
    moreover have "file_bytes vol d es = file_bytes vol (sectors m) es" using sm(2) by (simp add: file_bytes_def cong: map_cong)
    ultimately show ?thesis using es(1) by (simp add: chain_ok_def)
  qed
  show ?thesis
    by (rule exI [of _ ?n], rule exI [of _ cs'], rule exI [of _ ?m]) (use w(1) cs hd ok m ns c other in simp)
qed

theorem fat32_write_refines_witness:
  "\<exists>node' cs' m'. fat32_write fenv fvol fnode 3 12 (replicate 12 7) fmed = Some (12, node', m') \<and>
     take (unat (n_size node')) (file_bytes fvol (sectors m') cs') = [0, 0, 0] @ replicate 12 7"
proof -
  have i: "inode fnode = hd [2]" "n_flags fnode AND VFS_DIRECTORY = 0" "n_size fnode = 3" by (simp_all add: fnode_def node0_def)
  have F: "file_bytes fvol (sectors fmed) [2] = replicate 8 0" by (simp add: cdata_def fvol_def fmed_def cluster_to_sector_def)
  have "0 < card (avail fvol (sectors fmed))" using fmed_chain(2) by (auto simp: card_gt_0_iff)
  then have "unat (3 :: u64) + unat (12 :: u32) \<le> unat (bytes_per_cluster fvol) * (length [2 :: u32] + card (avail fvol (sectors fmed)))"
    by (simp add: fvol_def)
  moreover have "unat (3 :: u64) \<le> unat (n_size fnode)" "unat (n_size fnode) \<le> length (file_bytes fvol (sectors fmed) [2])"
    "0 < unat (12 :: u32)" "unat (12 :: u32) < 2 ^ 31" "unat (12 :: u32) \<le> length (replicate 12 (7 :: u8))" unfolding i(3) F by simp_all
  ultimately obtain node' cs' m' where w: "fat32_write fenv fvol fnode 3 12 (replicate 12 7) fmed = Some (int (unat (12 :: u32)), node', m')"
    "fat_content fvol node' m' cs' = take (unat (3 :: u64)) (fat_content fvol fnode fmed [2]) @ take (unat (12 :: u32)) (replicate 12 7) @
       drop (unat (3 :: u64) + unat (12 :: u32)) (fat_content fvol fnode fmed [2])"
    using fat32_write_refines [OF fvol_ok(1) fenv_ok fmed_ok fmed_chain(1) i(1,2)] by blast
  have "fat_content fvol fnode fmed [2] = [0, 0, 0]" 
  proof -
    have "take (unat (3 :: u64)) (replicate 8 (0 :: u8)) = replicate 3 0" by simp
    then show ?thesis unfolding fat_content_def i(3) F by (simp add: numeral_3_eq_3)
  qed
  with w have "fat_content fvol node' m' cs' = [0, 0, 0] @ replicate 12 7" by simp
  with w(1) show ?thesis unfolding fat_content_def by auto
qed

text \<open>Buffers are given back. Whatever the pool and the device do, when one of the data operations returns, the driver holds
  exactly the pool buffers it held before, with the sizes it asked for.\<close>

theorem fat32_buffers_returned:
  "(fat32_read E vol node off sz space m = Some (r, x, m1) \<longrightarrow> held m1 = held m) \<and>
   (fat32_write E vol node off sz buf m = Some (r, n, m2) \<longrightarrow> held m2 = held m) \<and>
   (fat32_allocate_cluster E vol m = Some (c, m3) \<longrightarrow> held m3 = held m) \<and>
   (fat32_free_cluster_chain E vol c m = Some m4 \<longrightarrow> held m4 = held m)"
  using fat32_read_held fat32_write_held allocate_held free_chain_loop_held unfolding fat32_free_cluster_chain_def
  by (auto split: if_splits)

theorem fat32_buffers_returned_witness:
  "\<exists>r x m1 n m2 c m3. fat32_read fenv fvol fnode 1 10 10 fmed = Some (r, x, m1) \<and> held m1 = [] \<and>
     fat32_allocate_cluster fenv fvol fmed = Some (c, m3) \<and> held m3 = []"
proof -
  have i: "inode fnode = 2" "n_flags fnode AND VFS_DIRECTORY = 0" "n_size fnode = 3" by (simp_all add: fnode_def node0_def)
  have "\<exists>r x t. fat32_read fenv fvol fnode 1 10 10 fmed = Some (r, x, fmed\<lparr>ticks := t\<rparr>)"
    using fat32_read_spec [of fvol fmed fnode "[]" 10 10 1 fenv, OF fvol_ok(1) fmed_ok] fmed_chain(1) by (auto simp: i fvol_def)
  moreover have "\<exists>c m. fat32_allocate_cluster fenv fvol fmed = Some (c, m)"
    using allocate_spec [OF fvol_ok(1) fmed_ok, of fenv] by blast
  moreover have "held fmed = []" by (simp add: fmed_def)
  ultimately show ?thesis using fat32_buffers_returned by metis
qed

end
