(* ===== verification/Fatdir.thy ===== *)
theory Fatdir
  imports Fat
begin

text \<open>
  The directory part of the FAT32 driver, \<^verbatim>\<open>src/kernel/fs/fat/fat32.c\<close>: short and long names, the entries of a directory, and the
  operations of the driver table that work on them, with mounting. A directory entry is the list of its 32 bytes. The volume behind
  \<open>private_data\<close> is an argument; a node is passed and returned as a value.

  \<open>heap_blocks\<close> counts the blocks that the driver has taken from the kernel heap and not given back.
\<close>

unbundle bit_operations_syntax

record vfs_page =
  block_id :: u64
  p_buffer :: "u8 list"
  p_size :: u32
  dirty :: bool

section \<open>Names\<close>

definition fat32_checksum :: "u8 list \<Rightarrow> u8" where
  "fat32_checksum sfn = foldl (\<lambda>s b. (if s AND 1 \<noteq> 0 then 0x80 else 0) + drop_bit 1 s + b) 0 (take 11 sfn)"

fun lower_loop :: "u8 list \<Rightarrow> u8 list" where
  "lower_loop [] = []"
| "lower_loop (c # s) = (if c = 0 then c # s else (if 65 \<le> c \<and> c \<le> 90 then c + 32 else c) # lower_loop s)"

definition fat32_format_name :: "u8 list \<Rightarrow> u8 list \<Rightarrow> u8 list" where
  "fat32_format_name raw_name out_name =
     (let s = filter (\<lambda>c. c \<noteq> 32) (take 8 raw_name) @
              (if raw_name ! 8 \<noteq> 32 then 46 # filter (\<lambda>c. c \<noteq> 32) (take 3 (drop 8 raw_name)) else []) @ [0] in
      lower_loop s @ drop (length s) out_name)"

text \<open>The two copying loops of the conversion to a short name; the first stops at a dot.\<close>

fun copy_upper :: "bool \<Rightarrow> nat \<Rightarrow> u8 list \<Rightarrow> (u8 list \<times> u8 list) option" where
  "copy_upper dot d [] = None"
| "copy_upper dot d (c # s) =
     (if c \<noteq> 0 \<and> \<not> (dot \<and> c = 46) \<and> 0 < d
      then map_option (\<lambda>(x, r). ((if 97 \<le> c \<and> c \<le> 122 then c - 32 else c) # x, r)) (copy_upper dot (d - 1) s)
      else Some ([], c # s))"

fun skip_to_dot :: "u8 list \<Rightarrow> u8 list option" where
  "skip_to_dot [] = None"
| "skip_to_dot (c # s) = (if c \<noteq> 0 \<and> c \<noteq> 46 then skip_to_dot s else Some (c # s))"

definition fat32_to_83_name :: "u8 list \<Rightarrow> u8 list option" where
  "fat32_to_83_name src =
     do {
       (b, r) \<leftarrow> copy_upper True 8 src;
       r1 \<leftarrow> (if hd r = 46 then Some (tl r) else do { r2 \<leftarrow> skip_to_dot r; Some (if hd r2 = 46 then tl r2 else r2) });
       (e, r3) \<leftarrow> copy_upper False 3 r1;
       Some (b @ replicate (8 - length b) 32 @ e @ replicate (3 - length e) 32)
     }"

section \<open>Entries\<close>

definition slots :: "fat32_volume \<Rightarrow> u8 list \<Rightarrow> u8 list list" where
  "slots vol buf = map (\<lambda>i. take 32 (drop (32 * i) buf)) [0..<unat (bytes_per_cluster vol div 32)]"

text \<open>One long-name fragment and the short entry that a new name gets.\<close>

definition lfn_char :: "u8 list \<Rightarrow> nat \<Rightarrow> nat \<Rightarrow> u16" where
  "lfn_char name len idx = (if idx < len then ucast (name ! idx) else if idx = len then 0 else 0xFFFF)"

definition lfn_entry :: "u8 list \<Rightarrow> nat \<Rightarrow> u8 \<Rightarrow> nat \<Rightarrow> nat \<Rightarrow> u8 list" where
  "lfn_entry name len chksum needed lfn_idx =
     (let w = (\<lambda>a b. concat (map (\<lambda>k. le16 (lfn_char name len (13 * lfn_idx + k))) [a..<b])) in
      [if lfn_idx = needed - 1 then of_nat (lfn_idx + 1) OR 0x40 else of_nat (lfn_idx + 1)] @ w 0 5 @ [0x0F, 0, chksum] @ w 5 11 @ [0, 0] @ w 11 13)"

definition sfn_entry :: "u8 list \<Rightarrow> u8 \<Rightarrow> u32 \<Rightarrow> u32 \<Rightarrow> u8 list" where
  "sfn_entry sfn_name attr first_cluster sz =
     sfn_name @ [attr] @ replicate 8 0 @ le16 (ucast (drop_bit 16 first_cluster)) @ replicate 4 0 @ le16 (ucast first_cluster) @ le32 sz"

definition new_entries :: "u8 list \<Rightarrow> nat \<Rightarrow> u8 list \<Rightarrow> u8 \<Rightarrow> u32 \<Rightarrow> u32 \<Rightarrow> u8 list list" where
  "new_entries name len sfn attr first_cluster sz =
     (let needed = (len + 12) div 13 in
      map (lfn_entry name len (fat32_checksum sfn) needed) (rev [0..<needed]) @ [sfn_entry sfn attr first_cluster sz])"

text \<open>The search for a run of free entries.\<close>

fun slot_scan :: "nat \<Rightarrow> nat \<Rightarrow> nat \<Rightarrow> nat \<Rightarrow> u8 list list \<Rightarrow> nat option" where
  "slot_scan needed i start cont [] = None"
| "slot_scan needed i start cont (e # es) =
     (if e ! 0 = 0 \<or> e ! 0 = 0xE5 then
        let start' = (if cont = 0 then i else start) in
        if cont + 1 = needed then Some start' else slot_scan needed (i + 1) start' (cont + 1) es
      else slot_scan needed (i + 1) start 0 es)"

partial_function (option) add_entry_loop :: "outcomes \<Rightarrow> fat32_volume \<Rightarrow> u8 list list \<Rightarrow> u32 \<Rightarrow> medium \<Rightarrow> (int \<times> medium) option" where
  "add_entry_loop E vol es c m =
     (let alloc_size = bytes_per_cluster vol; spc = sectors_per_cluster vol; fail = (\<lambda>m. do { m1 \<leftarrow> pool_put alloc_size m; Some (-1, m1) }) in
      if \<not> (c < FAT32_EOF \<and> c \<noteq> FAT32_BAD_CLUSTER) then fail m
      else do {
        (b, m1) \<leftarrow> read_blocks E (cluster_to_sector vol c) spc (unat alloc_size) m;
        case b of
          None \<Rightarrow> fail m1
        | Some buf \<Rightarrow>
            (case slot_scan (length es) 0 0 0 (slots vol buf) of
               Some start \<Rightarrow> do {
                 y \<leftarrow> memcpy_at buf (32 * start) (concat es) (length (concat es));
                 (r, m2) \<leftarrow> write_blocks E (cluster_to_sector vol c) spc y m1;
                 m3 \<leftarrow> pool_put alloc_size m2;
                 Some (if r \<noteq> 0 then -1 else 0, m3)
               }
             | None \<Rightarrow> do {
                 (nxt, m2) \<leftarrow> fat32_get_next_cluster E vol c m1;
                 if nxt \<ge> FAT32_EOF \<or> nxt = FAT32_BAD_CLUSTER then do {
                   (new, m3) \<leftarrow> fat32_allocate_cluster E vol m2;
                   if new = FAT32_BAD_CLUSTER then fail m3
                   else do {
                     (r1, m4) \<leftarrow> fat32_set_cluster E vol c new m3;
                     (r2, m5) \<leftarrow> write_blocks E (cluster_to_sector vol new) spc (replicate (unat alloc_size) 0) m4;
                     add_entry_loop E vol es new m5
                   }
                 } else add_entry_loop E vol es nxt m2
               })
      })"

definition fat32_add_entry :: "outcomes \<Rightarrow> fat32_volume \<Rightarrow> u32 \<Rightarrow> u8 list \<Rightarrow> u8 \<Rightarrow> u32 \<Rightarrow> u32 \<Rightarrow> medium \<Rightarrow> (int \<times> medium) option" where
  "fat32_add_entry E vol parent_cluster name attr first_cluster sz m =
     do {
       sfn \<leftarrow> fat32_to_83_name name;
       len \<leftarrow> strlen name;
       case pool_get E (bytes_per_cluster vol) m of (got, m1) \<Rightarrow>
         if \<not> got then Some (-1, m1) else add_entry_loop E vol (new_entries name len sfn attr first_cluster sz) parent_cluster m1
     }"

text \<open>The walks over a directory that look for a short name: \<open>Stop\<close> ends the whole search, \<open>More\<close> goes on with the next cluster.\<close>

datatype slot_search = Stop | More | Found nat

fun size_scan :: "u8 list \<Rightarrow> nat \<Rightarrow> u8 list list \<Rightarrow> slot_search" where
  "size_scan target i [] = More"
| "size_scan target i (e # es) = (if e ! 0 = 0 then Stop else if take 11 e = target then Found i else size_scan target (i + 1) es)"

fun sfn_scan :: "u8 list \<Rightarrow> nat \<Rightarrow> u8 list list \<Rightarrow> slot_search" where
  "sfn_scan target i [] = More"
| "sfn_scan target i (e # es) =
     (if e ! 0 = 0 then More
      else if e ! 0 = 0xE5 \<or> e ! 11 = 0x0F then sfn_scan target (i + 1) es
      else if take 11 e = target then Found i else sfn_scan target (i + 1) es)"

text \<open>Such a walk reads the clusters of the directory, and at the entry it looks for rewrites the buffer and stores it. \<open>strict\<close> says whether
  the result of that store counts.\<close>

partial_function (option) dir_walk ::
  "(nat \<Rightarrow> u8 list list \<Rightarrow> slot_search) \<Rightarrow> (nat \<Rightarrow> u8 list \<Rightarrow> u8 list) \<Rightarrow> bool \<Rightarrow> outcomes \<Rightarrow> fat32_volume \<Rightarrow> u32 \<Rightarrow> medium \<Rightarrow> (int \<times> medium) option" where
  "dir_walk scan change strict E vol c m =
     (let alloc_size = bytes_per_cluster vol; fail = (\<lambda>m. do { m1 \<leftarrow> pool_put alloc_size m; Some (-1, m1) }) in
      if \<not> (c < FAT32_EOF \<and> c \<noteq> FAT32_BAD_CLUSTER) then fail m
      else do {
        (b, m1) \<leftarrow> read_blocks E (cluster_to_sector vol c) (sectors_per_cluster vol) (unat alloc_size) m;
        case b of
          None \<Rightarrow> fail m1
        | Some buf \<Rightarrow>
            (case scan 0 (slots vol buf) of
               Stop \<Rightarrow> fail m1
             | Found i \<Rightarrow> do {
                 (r, m2) \<leftarrow> write_blocks E (cluster_to_sector vol c) (sectors_per_cluster vol) (change i buf) m1;
                 m3 \<leftarrow> pool_put alloc_size m2;
                 Some (if strict \<and> r \<noteq> 0 then -1 else 0, m3)
               }
             | More \<Rightarrow> do { (nxt, m2) \<leftarrow> fat32_get_next_cluster E vol c m1; dir_walk scan change strict E vol nxt m2 })
      })"

definition set_size :: "u32 \<Rightarrow> nat \<Rightarrow> u8 list \<Rightarrow> u8 list" where
  "set_size sz i buf = take (32 * i + 28) buf @ le32 sz @ drop (32 * i + 32) buf"

definition fat32_update_entry_size :: "outcomes \<Rightarrow> fat32_volume \<Rightarrow> u32 \<Rightarrow> u8 list \<Rightarrow> u32 \<Rightarrow> medium \<Rightarrow> (int \<times> medium) option" where
  "fat32_update_entry_size E vol parent_cluster name new_size m =
     (case pool_get E (bytes_per_cluster vol) m of (got, m1) \<Rightarrow>
        if \<not> got then Some (-1, m1)
        else do { fat_name \<leftarrow> fat32_to_83_name name; dir_walk (size_scan fat_name) (set_size new_size) True E vol parent_cluster m1 })"

text \<open>The long-name fragments in front of an entry are marked as deleted, then the entry.\<close>

fun mark_lfns :: "nat \<Rightarrow> u8 list \<Rightarrow> u8 list" where
  "mark_lfns 0 buf = buf"
| "mark_lfns (Suc b) buf = (if buf ! (32 * b + 11) = 0x0F then mark_lfns b (buf[32 * b := 0xE5]) else buf)"

definition mark_deleted :: "nat \<Rightarrow> u8 list \<Rightarrow> u8 list" where
  "mark_deleted i buf = (mark_lfns i buf)[32 * i := 0xE5]"

definition fat32_invalidate_entries :: "outcomes \<Rightarrow> fat32_volume \<Rightarrow> u32 \<Rightarrow> u8 list \<Rightarrow> medium \<Rightarrow> (int \<times> medium) option" where
  "fat32_invalidate_entries E vol parent_cluster name m =
     (case pool_get E (bytes_per_cluster vol) m of (got, m1) \<Rightarrow>
        if \<not> got then Some (-1, m1)
        else do { sfn \<leftarrow> fat32_to_83_name name; dir_walk (sfn_scan sfn) mark_deleted False E vol parent_cluster m1 })"

fun empty_scan :: "u8 list list \<Rightarrow> bool option" where
  "empty_scan [] = None"
| "empty_scan (e # es) = (if e ! 0 = 0 then Some True else if e ! 0 = 0xE5 \<or> e ! 0 = 46 then empty_scan es else Some False)"

partial_function (option) empty_loop :: "outcomes \<Rightarrow> fat32_volume \<Rightarrow> u32 \<Rightarrow> medium \<Rightarrow> (bool \<times> medium) option" where
  "empty_loop E vol c m =
     (let alloc_size = bytes_per_cluster vol; ret = (\<lambda>r m. do { m1 \<leftarrow> pool_put alloc_size m; Some (r, m1) }) in
      if \<not> (c < FAT32_EOF \<and> c \<noteq> FAT32_BAD_CLUSTER) then ret True m
      else do {
        (b, m1) \<leftarrow> read_blocks E (cluster_to_sector vol c) (sectors_per_cluster vol) (unat alloc_size) m;
        case b of
          None \<Rightarrow> ret True m1
        | Some buf \<Rightarrow>
            (case empty_scan (slots vol buf) of
               Some r \<Rightarrow> ret r m1
             | None \<Rightarrow> do { (nxt, m2) \<leftarrow> fat32_get_next_cluster E vol c m1; empty_loop E vol nxt m2 })
      })"

definition fat32_is_dir_empty :: "outcomes \<Rightarrow> fat32_volume \<Rightarrow> u32 \<Rightarrow> medium \<Rightarrow> (bool \<times> medium) option" where
  "fat32_is_dir_empty E vol dir_cluster m =
     (case pool_get E (bytes_per_cluster vol) m of (got, m1) \<Rightarrow>
        if \<not> got then Some (False, m1) else empty_loop E vol dir_cluster m1)"

section \<open>Listing\<close>

record lfn_state =
  lfn_buffer :: "u8 list"
  target_checksum :: u8
  has_lfn :: bool
  currentIndex :: u32

text \<open>The characters of a fragment; the fields are of the signed type \<^verbatim>\<open>char\<close>.\<close>

definition lfn_wide :: "u8 list \<Rightarrow> nat \<Rightarrow> nat \<Rightarrow> u16" where
  "lfn_wide e base k = scast (e ! (base + 2 * k)) OR push_bit 8 (scast (e ! (base + 2 * k + 1)))"

fun lfn_copy :: "u16 list \<Rightarrow> nat \<times> u8 list \<Rightarrow> nat \<times> u8 list" where
  "lfn_copy [] s = s"
| "lfn_copy (w # ws) (off, buf) =
     (if off < 255 \<and> w \<noteq> 0 \<and> w \<noteq> 0xFFFF then lfn_copy ws (off + 1, buf[off := ucast w]) else (off, buf))"

definition lfn_take :: "u8 list \<Rightarrow> lfn_state \<Rightarrow> lfn_state" where
  "lfn_take e st =
     (let sq = e ! 0; chk = e ! 13;
          st1 = (if sq AND 0x40 \<noteq> 0 then st\<lparr>lfn_buffer := replicate 256 0, target_checksum := chk, has_lfn := True\<rparr> else st) in
      if sq AND 0x40 = 0 \<and> has_lfn st \<and> chk \<noteq> target_checksum st then st\<lparr>has_lfn := False\<rparr>
      else let seq = (ucast (sq AND 0x1F) - 1 :: u32) in
        if seq < 20 then
          st1\<lparr>lfn_buffer := snd (lfn_copy (map (lfn_wide e 28) [0..<2]) (lfn_copy (map (lfn_wide e 14) [0..<6])
            (lfn_copy (map (lfn_wide e 1) [0..<5]) (unat seq * 13, lfn_buffer st1))))\<rparr>
        else st1)"

definition fill_node :: "fat32_volume \<Rightarrow> vfs_node \<Rightarrow> u8 list \<Rightarrow> u8 list \<Rightarrow> vfs_node \<Rightarrow> vfs_node" where
  "fill_node vol node e name out_node =
     out_node\<lparr>n_name := name, n_flags := (if e ! 11 AND 0x10 \<noteq> 0 then VFS_DIRECTORY else VFS_FILE), n_size := ucast (rd32 e 28),
       inode := push_bit 16 (ucast (rd16 e 20)) OR ucast (rd16 e 26),
       permissions := (if e ! 11 AND 1 \<noteq> 0 then 0x0155 else 0x01FF), n_ops := n_ops node, private_data := private_data node, n_fs := n_fs node, ptr_mount := 0\<rparr>"

text \<open>The entries of one cluster: \<open>Inl\<close> when the function returns (no node at the end of the directory), \<open>Inr\<close> with the state for the next cluster.\<close>

fun readdir_slots :: "fat32_volume \<Rightarrow> vfs_node \<Rightarrow> u32 \<Rightarrow> vfs_node \<Rightarrow> lfn_state \<Rightarrow> u8 list list \<Rightarrow> (vfs_node option + lfn_state) option" where
  "readdir_slots vol node index out_node st [] = Some (Inr st)"
| "readdir_slots vol node index out_node st (e # es) =
     (if e ! 0 = 0 then Some (Inl None)
      else if e ! 0 = 0xE5 then readdir_slots vol node index out_node (st\<lparr>has_lfn := False\<rparr>) es
      else if e ! 11 = 0x0F then readdir_slots vol node index out_node (lfn_take e st) es
      else if e ! 11 AND 0x08 \<noteq> 0 then readdir_slots vol node index out_node (st\<lparr>has_lfn := False\<rparr>) es
      else let long = (has_lfn st \<and> fat32_checksum e = target_checksum st) in
        if currentIndex st = index then do {
          n \<leftarrow> (if long then strlen (lfn_buffer st) else Some 0);
          name \<leftarrow> (if long \<and> 0 < n then map_option (\<lambda>x. x[VFS_NAME_MAX - 1 := 0]) (strncpy (n_name out_node) (lfn_buffer st) (VFS_NAME_MAX - 1))
                   else Some (fat32_format_name e (n_name out_node)));
          Some (Inl (Some (fill_node vol node e name out_node)))
        }
        else readdir_slots vol node index out_node (st\<lparr>currentIndex := currentIndex st + 1, has_lfn := False\<rparr>) es)"

partial_function (option) readdir_walk ::
  "outcomes \<Rightarrow> fat32_volume \<Rightarrow> vfs_node \<Rightarrow> u32 \<Rightarrow> vfs_node \<Rightarrow> u32 \<Rightarrow> lfn_state \<Rightarrow> medium \<Rightarrow> (int \<times> vfs_node \<times> medium) option" where
  "readdir_walk E vol node index out_node c st m =
     (let alloc_size = bytes_per_cluster vol; fail = (\<lambda>m. do { m1 \<leftarrow> pool_put alloc_size m; Some (-1, out_node, m1) }) in
      if \<not> (c < FAT32_EOF \<and> c \<noteq> FAT32_BAD_CLUSTER) then fail m
      else do {
        (b, m1) \<leftarrow> read_blocks E (cluster_to_sector vol c) (sectors_per_cluster vol) (unat alloc_size) m;
        case b of
          None \<Rightarrow> fail m1
        | Some buf \<Rightarrow> do {
            r \<leftarrow> readdir_slots vol node index out_node st (slots vol buf);
            case r of
              Inl None \<Rightarrow> fail m1
            | Inl (Some out1) \<Rightarrow> do { m2 \<leftarrow> pool_put alloc_size m1; Some (0, out1, m2) }
            | Inr st1 \<Rightarrow> do { (nxt, m2) \<leftarrow> fat32_get_next_cluster E vol c m1; readdir_walk E vol node index out_node nxt st1 m2 }
          }
      })"

definition fat32_readdir :: "outcomes \<Rightarrow> fat32_volume \<Rightarrow> vfs_node \<Rightarrow> u32 \<Rightarrow> vfs_node \<Rightarrow> medium \<Rightarrow> (int \<times> vfs_node \<times> medium) option" where
  "fat32_readdir E vol node index out_node m =
     (case pool_get E (bytes_per_cluster vol) m of (got, m1) \<Rightarrow>
        if \<not> got then Some (-1, out_node, m1)
        else readdir_walk E vol node index out_node (inode node)
          \<lparr>lfn_buffer = replicate 256 0, target_checksum = 0, has_lfn = False, currentIndex = 0\<rparr> m1)"

text \<open>Blocks of the kernel heap.\<close>

definition heap_get :: "outcomes \<Rightarrow> medium \<Rightarrow> bool \<times> medium" where
  "heap_get E m = (heap_gives E (ticks m), if heap_gives E (ticks m) then (tick m)\<lparr>heap_blocks := Suc (heap_blocks m)\<rparr> else tick m)"

definition heap_put :: "medium \<Rightarrow> medium" where
  "heap_put m = m\<lparr>heap_blocks := heap_blocks m - 1\<rparr>"

partial_function (option) finddir_loop ::
  "outcomes \<Rightarrow> fat32_volume \<Rightarrow> vfs_node \<Rightarrow> u8 list \<Rightarrow> u32 \<Rightarrow> vfs_node \<Rightarrow> medium \<Rightarrow> (vfs_node option \<times> medium) option" where
  "finddir_loop E vol node name index out_node m =
     do {
       (r, out1, m1) \<leftarrow> fat32_readdir E vol node index out_node m;
       if r \<noteq> 0 then Some (None, heap_put m1)
       else do {
         d \<leftarrow> strcmp (n_name out1) name;
         if d = 0 then Some (Some out1, m1) else finddir_loop E vol node name (index + 1) out1 m1
       }
     }"

definition fat32_finddir :: "outcomes \<Rightarrow> fat32_volume \<Rightarrow> vfs_node \<Rightarrow> u8 list \<Rightarrow> medium \<Rightarrow> (vfs_node option \<times> medium) option" where
  "fat32_finddir E vol node name m =
     (case heap_get E m of (got, m1) \<Rightarrow> if \<not> got then Some (None, m1) else finddir_loop E vol node name 0 node0 m1)"

section \<open>Operations of the driver\<close>

definition parent_of :: "fat32_volume \<Rightarrow> vfs_node \<Rightarrow> u32" where
  "parent_of vol node = (if parent_inode node \<noteq> 0 then parent_inode node else root_cluster vol)"

fun free_pages_of :: "u32 \<Rightarrow> vfs_page list \<Rightarrow> medium \<Rightarrow> medium option" where
  "free_pages_of bs [] m = Some m"
| "free_pages_of bs (p # ps) m = do { m1 \<leftarrow> pool_put bs m; free_pages_of bs ps (heap_put m1) }"

text \<open>The pages cached for the node are passed and returned as a list.\<close>

definition fat32_open :: "outcomes \<Rightarrow> fat32_volume option \<Rightarrow> vfs_node \<Rightarrow> vfs_page list \<Rightarrow> u32 \<Rightarrow> medium \<Rightarrow> (int \<times> vfs_node \<times> vfs_page list \<times> medium) option" where
  "fat32_open E vol node pages flags m =
     (let dir = (n_flags node AND VFS_DIRECTORY \<noteq> 0) in
      if flags AND 1 \<noteq> 0 \<and> dir then Some (-2, node, pages, m)
      else if flags AND 1 \<noteq> 0 \<and> permissions node = 0x0155 then Some (-3, node, pages, m)
      else do {
        let bs = (if dir then 0 else case vol of None \<Rightarrow> 4096 | Some v \<Rightarrow> bytes_per_cluster v);
        let node1 = node\<lparr>block_size := bs\<rparr>;
        let pages1 = (if dir then [] else pages);
        case vol of
          None \<Rightarrow> Some (0, node1, pages1, m)
        | Some v \<Rightarrow>
            if flags AND 1 \<noteq> 0 \<and> flags AND 0x0400 \<noteq> 0 \<and> inode node \<ge> 2 then do {
              m1 \<leftarrow> fat32_free_cluster_chain E v (inode node) m;
              (r, m2) \<leftarrow> fat32_update_entry_size E v (parent_of v node) (n_name node) 0 m1;
              m3 \<leftarrow> free_pages_of bs pages1 m2;
              Some (0, node1\<lparr>n_size := 0\<rparr>, [], m3)
            } else Some (0, node1, pages1, m)
      })"

definition fat32_flush :: "outcomes \<Rightarrow> fat32_volume option \<Rightarrow> vfs_node \<Rightarrow> medium \<Rightarrow> int \<times> medium" where
  "fat32_flush E vol node m =
     (if vol = None then (-1, m)
      else if has_ioctl m then (if dev_syncs E (ticks m) then 0 else -1, tick m) else (0, m))"

definition fat32_close :: "outcomes \<Rightarrow> fat32_volume option \<Rightarrow> vfs_node \<Rightarrow> medium \<Rightarrow> (int \<times> medium) option" where
  "fat32_close E vol node m =
     (if n_flags node AND VFS_FILE = 0 then Some (0, m)
      else case vol of
        None \<Rightarrow> Some (-1, m)
      | Some v \<Rightarrow> do {
          let m1 = snd (fat32_flush E vol node m);
          (r, m2) \<leftarrow> fat32_update_entry_size E v (parent_of v node) (n_name node) (ucast (n_size node)) m1;
          Some (0, m2)
        })"

definition dot_cluster :: "fat32_volume \<Rightarrow> u32 \<Rightarrow> u32 \<Rightarrow> u8 list" where
  "dot_cluster vol new_cluster parent_cluster =
     (let n = unat (bytes_per_cluster vol); up = (if parent_cluster = root_cluster vol then 0 else parent_cluster) in
      sfn_entry (46 # replicate 10 32) 0x10 new_cluster 0 @ sfn_entry (46 # 46 # replicate 9 32) 0x10 up 0 @ replicate (n - 64) 0)"

definition fat32_mkdir :: "outcomes \<Rightarrow> fat32_volume \<Rightarrow> vfs_node \<Rightarrow> u8 list \<Rightarrow> u16 \<Rightarrow> medium \<Rightarrow> (int \<times> medium) option" where
  "fat32_mkdir E vol pnode name perms m =
     do {
       (existing_node, m1) \<leftarrow> fat32_finddir E vol pnode name m;
       if existing_node \<noteq> None then Some (-1, heap_put m1)
       else do {
         (new_cluster, m2) \<leftarrow> fat32_allocate_cluster E vol m1;
         if new_cluster = FAT32_BAD_CLUSTER then Some (-1, m2)
         else case pool_get E (bytes_per_cluster vol) m2 of (got, m3) \<Rightarrow>
           if \<not> got then Some (-1, m3)
           else if unat (bytes_per_cluster vol) < 65 then None
           else do {
             (r, m4) \<leftarrow> write_blocks E (cluster_to_sector vol new_cluster) (sectors_per_cluster vol) (dot_cluster vol new_cluster (inode pnode)) m3;
             m5 \<leftarrow> pool_put (bytes_per_cluster vol) m4;
             if r \<noteq> 0 then Some (-1, m5) else fat32_add_entry E vol (inode pnode) name 0x10 new_cluster 0 m5
           }
       }
     }"

definition fat32_create :: "outcomes \<Rightarrow> fat32_volume \<Rightarrow> vfs_node \<Rightarrow> u8 list \<Rightarrow> u16 \<Rightarrow> medium \<Rightarrow> (int \<times> medium) option" where
  "fat32_create E vol pnode name perms m =
     do {
       (existing_node, m1) \<leftarrow> fat32_finddir E vol pnode name m;
       if existing_node \<noteq> None then Some (-1, heap_put m1)
       else do {
         (new_cluster, m2) \<leftarrow> fat32_allocate_cluster E vol m1;
         if new_cluster = FAT32_BAD_CLUSTER then Some (-1, m2)
         else fat32_add_entry E vol (inode pnode) name 0x20 new_cluster 0 m2
       }
     }"

definition fat32_unlink :: "outcomes \<Rightarrow> fat32_volume \<Rightarrow> vfs_node \<Rightarrow> u8 list \<Rightarrow> medium \<Rightarrow> (int \<times> medium) option" where
  "fat32_unlink E vol pnode name m =
     do {
       (found, m1) \<leftarrow> fat32_finddir E vol pnode name m;
       case found of
         None \<Rightarrow> Some (-1, m1)
       | Some node \<Rightarrow>
           if n_flags node AND VFS_DIRECTORY \<noteq> 0 then Some (-2, heap_put m1)
           else do {
             m2 \<leftarrow> fat32_free_cluster_chain E vol (inode node) m1;
             (res, m3) \<leftarrow> fat32_invalidate_entries E vol (inode pnode) name m2;
             Some (res, heap_put m3)
           }
     }"

definition fat32_rmdir :: "outcomes \<Rightarrow> fat32_volume \<Rightarrow> vfs_node \<Rightarrow> u8 list \<Rightarrow> medium \<Rightarrow> (int \<times> medium) option" where
  "fat32_rmdir E vol pnode name m =
     do {
       (found, m1) \<leftarrow> fat32_finddir E vol pnode name m;
       case found of
         None \<Rightarrow> Some (-1, m1)
       | Some node \<Rightarrow>
           if n_flags node AND VFS_DIRECTORY = 0 then Some (-2, heap_put m1)
           else do {
             d1 \<leftarrow> strcmp name [46, 0];
             d2 \<leftarrow> (if d1 = 0 then Some 0 else strcmp name [46, 46, 0]);
             if d1 = 0 \<or> d2 = 0 then Some (-3, heap_put m1)
             else do {
               (empty, m2) \<leftarrow> fat32_is_dir_empty E vol (inode node) m1;
               if \<not> empty then Some (-4, heap_put m2)
               else do {
                 m3 \<leftarrow> fat32_free_cluster_chain E vol (inode node) m2;
                 (res, m4) \<leftarrow> fat32_invalidate_entries E vol (inode pnode) name m3;
                 Some (res, heap_put m4)
               }
             }
           }
     }"

definition set_attr :: "u16 \<Rightarrow> nat \<Rightarrow> u8 list \<Rightarrow> u8 list" where
  "set_attr mode i buf = buf[32 * i + 11 := (if mode AND 0x0080 = 0 then buf ! (32 * i + 11) OR 1 else buf ! (32 * i + 11) AND NOT 1)]"

definition fat32_chmod :: "outcomes \<Rightarrow> fat32_volume \<Rightarrow> vfs_node \<Rightarrow> u16 \<Rightarrow> medium \<Rightarrow> (int \<times> vfs_node \<times> medium) option" where
  "fat32_chmod E vol node mode m =
     (case pool_get E (bytes_per_cluster vol) m of (got, m1) \<Rightarrow>
        if \<not> got then Some (-1, node, m1)
        else do {
          sfn \<leftarrow> fat32_to_83_name (n_name node);
          (r, m2) \<leftarrow> dir_walk (sfn_scan sfn) (set_attr mode) False E vol (root_cluster vol) m1;
          Some (r, if r = 0 then node\<lparr>permissions := if mode AND 0x0080 = 0 then 0x0155 else 0x01FF\<rparr> else node, m2)
        })"

definition fat32_rename ::
  "outcomes \<Rightarrow> fat32_volume \<Rightarrow> vfs_node \<Rightarrow> u8 list \<Rightarrow> fat32_volume \<Rightarrow> vfs_node \<Rightarrow> u8 list \<Rightarrow> medium \<Rightarrow> (int \<times> medium) option" where
  "fat32_rename E old_vol old_parent old_name new_vol new_parent new_name m =
     do {
       (check_exist, m1) \<leftarrow> fat32_finddir E new_vol new_parent new_name m;
       if check_exist \<noteq> None then Some (-3, heap_put m1)
       else do {
         (found, m2) \<leftarrow> fat32_finddir E old_vol old_parent old_name m1;
         case found of
           None \<Rightarrow> Some (-1, m2)
         | Some old_node \<Rightarrow> do {
             (r, m3) \<leftarrow> fat32_add_entry E new_vol (inode new_parent) new_name (if n_flags old_node AND VFS_DIRECTORY \<noteq> 0 then 0x10 else 0x20)
               (inode old_node) (ucast (n_size old_node)) m2;
             if r \<noteq> 0 then Some (-2, heap_put m3)
             else do {
               (r1, m4) \<leftarrow> fat32_invalidate_entries E old_vol (inode old_parent) old_name m3;
               Some (0, heap_put m4)
             }
           }
       }
     }"

definition fat32_stat :: "fat32_volume option \<Rightarrow> vfs_node \<Rightarrow> int \<times> vfs_stat option" where
  "fat32_stat vol node =
     (let dir = (n_flags node AND VFS_DIRECTORY \<noteq> 0) in
      if vol = None then (-1, None)
      else (0, Some \<lparr>st_ino = inode node, st_size = n_size node, st_mode = permissions node OR (if dir then 0x4000 else 0x8000), st_uid = 0, st_gid = 0,
        st_attr = (if permissions node = 0x0155 then 1 else 0) OR (if dir then 0x10 else 0x20)\<rparr>))"

section \<open>Mounting\<close>

text \<open>The boot sector gives the geometry. The driver and the address of the volume are fields of the new root node.\<close>

definition fat32_mount_callback :: "outcomes \<Rightarrow> u64 \<Rightarrow> u8 list \<Rightarrow> medium \<Rightarrow> ((fat32_volume \<times> vfs_node) option \<times> medium) option" where
  "fat32_mount_callback E vol_addr mount_point m =
     (case heap_get E m of (got, m1) \<Rightarrow>
        if \<not> got then Some (None, m1)
        else do {
          (b, m2) \<leftarrow> read_blocks E 0 1 (unat (sector_size m)) m1;
          case b of
            None \<Rightarrow> Some (None, heap_put m2)
          | Some x \<Rightarrow>
              if length x < 67 then None
              else if x ! 66 \<noteq> 0x29 \<and> x ! 66 \<noteq> 0x28 then Some (None, heap_put m2)
              else (case heap_get E m2 of (got2, m3) \<Rightarrow>
                if \<not> got2 then Some (None, heap_put m3)
                else let bps = ucast (rd16 x 11); spc = ucast (x ! 13); reserved = ucast (rd16 x 14);
                    vol = \<lparr>bytes_per_sector = bps, sectors_per_cluster = spc, bytes_per_cluster = bps * spc, first_fat_sector = reserved,
                      first_data_sector = reserved + ucast (x ! 16) * rd32 x 36, root_cluster = rd32 x 44\<rparr> in
                  case heap_get E m3 of (got3, m4) \<Rightarrow>
                    if \<not> got3 then Some (None, heap_put (heap_put m4))
                    else do {
                      name \<leftarrow> strcpy (n_name node0) mount_point;
                      Some (Some (vol, node0\<lparr>n_name := name, n_flags := VFS_DIRECTORY, inode := root_cluster vol, n_ops := Some g_fat32_ops,
                        private_data := vol_addr\<rparr>), heap_put m4)
                    })
        })"

definition fat32_unmount_callback :: "bool \<Rightarrow> medium \<Rightarrow> int \<times> medium" where
  "fat32_unmount_callback has_vol m = (0, heap_put (if has_vol then heap_put m else m))"

section \<open>Long names\<close>

text \<open>The buffer with the characters of the name from \<open>a\<close> to \<open>b\<close> in place.\<close>

definition overlay :: "u8 list \<Rightarrow> nat \<Rightarrow> nat \<Rightarrow> u8 list \<Rightarrow> u8 list" where
  "overlay name a b buf = map (\<lambda>i. if a \<le> i \<and> i < b then name ! i else buf ! i) [0..<length buf]"

definition wide :: "u8 list \<Rightarrow> nat \<Rightarrow> nat \<Rightarrow> u16" where
  "wide name len idx = (if idx < len then scast (name ! idx) else if idx = len then 0 else 0xFFFF)"

lemma overlay_length [simp]: "length (overlay name a b buf) = length buf"
  by (simp add: overlay_def)

lemma overlay_nth [simp]: "i < length buf \<Longrightarrow> overlay name a b buf ! i = (if a \<le> i \<and> i < b then name ! i else buf ! i)"
  by (simp add: overlay_def)

lemma overlay_none: "b \<le> a \<Longrightarrow> overlay name a b buf = buf"
  by (rule nth_equalityI) auto

lemma overlay_step: "a < b \<Longrightarrow> a < length buf \<Longrightarrow> overlay name (Suc a) b (buf[a := name ! a]) = overlay name a b buf"
  by (rule nth_equalityI) (auto simp: nth_list_update)

lemma overlay_join: "a \<le> c \<Longrightarrow> c \<le> b \<Longrightarrow> overlay name c b (overlay name a c buf) = overlay name a b buf"
  by (rule nth_equalityI) auto

lemma overlay_join_down: "a \<le> c \<Longrightarrow> c \<le> b \<Longrightarrow> overlay name a c (overlay name c b buf) = overlay name a b buf"
  by (rule nth_equalityI) auto

lemma scast_char: "scast (b :: u8) = (0 :: u16) \<longleftrightarrow> b = 0" "scast b = (0xFFFF :: u16) \<longleftrightarrow> b = 0xFF" "ucast (scast b :: u16) = b"
proof -
  have u: "ucast (scast c :: u16) = c" for c :: u8 by (rule bit_eqI) (auto simp: bit_simps)
  then show "ucast (scast b :: u16) = b" .
  have e: "scast b = (scast c :: u16) \<longleftrightarrow> b = c" for c using u by metis
  have f: "scast (0xFF :: u8) = (0xFFFF :: u16)" by simp
  show "scast b = (0 :: u16) \<longleftrightarrow> b = 0" "scast b = (0xFFFF :: u16) \<longleftrightarrow> b = 0xFF" using e [of 0] e [of "0xFF", unfolded f] by simp_all
qed

text \<open>A name that long entries can carry: the characters 0 and 255 mark the end and the padding.\<close>

definition lfn_ok :: "u8 list \<Rightarrow> bool" where
  "lfn_ok name \<longleftrightarrow> 0 < length name \<and> length name \<le> 255 \<and> 0 \<notin> set name \<and> 0xFF \<notin> set name"

lemma lfn_copy_part:
  assumes n: "lfn_ok name" and buf: "length buf = 256"
  shows "a \<le> b \<Longrightarrow> a \<le> length name \<Longrightarrow> lfn_copy (map (wide name (length name)) [a..<b]) (a, buf) =
    (min b (length name), overlay name a (min b (length name)) buf)"
  using buf
proof (induction "b - a" arbitrary: a buf)
  case 0
  then show ?case by (simp add: overlay_none)
next
  case (Suc k)
  then have u: "[a..<b] = a # [Suc a..<b]" by (simp add: upt_conv_Cons)
  show ?case
  proof (cases "a < length name")
    case True
    have c: "name ! a \<noteq> 0" "name ! a \<noteq> 0xFF" "a < 255" using n True by (auto simp: lfn_ok_def in_set_conv_nth)
    have "lfn_copy (map (wide name (length name)) [a..<b]) (a, buf) = lfn_copy (map (wide name (length name)) [Suc a..<b]) (Suc a, buf[a := name ! a])"
      using True c unfolding u by (simp add: wide_def scast_char)
    also have "\<dots> = (min b (length name), overlay name (Suc a) (min b (length name)) (buf[a := name ! a]))"
      using Suc True by (intro Suc.hyps(1)) simp_all
    finally have "lfn_copy (map (wide name (length name)) [a..<b]) (a, buf) =
        (min b (length name), overlay name (Suc a) (min b (length name)) (buf[a := name ! a]))" .
    moreover have "a < min b (length name)" "a < length buf" using True Suc.hyps(2) Suc.prems c(3) by simp_all
    ultimately show ?thesis by (simp add: overlay_step)
  next
    case False
    then have "a = length name" using Suc.prems by simp
    then show ?thesis using Suc.prems unfolding u by (simp add: wide_def overlay_none)
  qed
qed

lemma lfn_copy_past: "length name \<le> a \<Longrightarrow> lfn_copy (map (wide name (length name)) [a..<b]) s = s"
proof (cases "a < b")
  case True
  assume "length name \<le> a"
  then show ?thesis using True by (cases s) (simp add: upt_conv_Cons wide_def)
qed simp

lemma lfn_copy_next:
  assumes "lfn_ok name" "length buf = 256" "a \<le> b" "b \<le> c" "a \<le> length name"
  shows "lfn_copy (map (wide name (length name)) [b..<c]) (min b (length name), overlay name a (min b (length name)) buf) =
    (min c (length name), overlay name a (min c (length name)) buf)"
proof (cases "b \<le> length name")
  case True
  then show ?thesis using lfn_copy_part [OF assms(1) _ assms(4) True, of "overlay name a b buf"] assms by (simp add: min_absorb1 overlay_join)
next
  case False
  then show ?thesis using assms by (simp add: lfn_copy_past)
qed

lemma wide_bytes: "scast (ucast (lfn_char name len i) :: u8) OR push_bit 8 (scast (ucast (drop_bit 8 (lfn_char name len i)) :: u8)) = wide name len i"
proof -
  have "ucast (drop_bit 8 (ucast b :: u16)) = (0 :: u8)" for b :: u8 by (rule bit_eqI) (auto simp: bit_simps dest: bit_imp_le_length)
  moreover have "ucast (ucast b :: u16) = b" for b :: u8 by (rule bit_eqI) (auto simp: bit_simps)
  ultimately show ?thesis by (simp add: lfn_char_def wide_def)
qed

text \<open>The fields of a fragment.\<close>

lemma lfn_entry_fields:
  "lfn_entry name len chk needed i ! 0 = (if i = needed - 1 then of_nat (i + 1) OR 0x40 else of_nat (i + 1))"
  "lfn_entry name len chk needed i ! 11 = 0x0F" "lfn_entry name len chk needed i ! 13 = chk" "length (lfn_entry name len chk needed i) = 32"
  "map (lfn_wide (lfn_entry name len chk needed i) 1) [0..<5] = map (wide name len) [13 * i..<13 * i + 5]"
  "map (lfn_wide (lfn_entry name len chk needed i) 14) [0..<6] = map (wide name len) [13 * i + 5..<13 * i + 11]"
  "map (lfn_wide (lfn_entry name len chk needed i) 28) [0..<2] = map (wide name len) [13 * i + 11..<13 * i + 13]"
proof -
  let ?e = "lfn_entry name len chk needed i"
  have r: "[0..<5] = [0, 1, 2, 3, 4 :: nat]" "[5..<11] = [5, 6, 7, 8, 9, 10 :: nat]" "[11..<13] = [11, 12 :: nat]" by (simp_all add: upt_rec)
  have e: "?e = [if i = needed - 1 then of_nat (i + 1) OR 0x40 else of_nat (i + 1)] @
      concat (map (\<lambda>k. le16 (lfn_char name len (13 * i + k))) [0, 1, 2, 3, 4]) @ [0x0F, 0, chk] @
      concat (map (\<lambda>k. le16 (lfn_char name len (13 * i + k))) [5, 6, 7, 8, 9, 10]) @ [0, 0] @ concat (map (\<lambda>k. le16 (lfn_char name len (13 * i + k))) [11, 12])"
    unfolding lfn_entry_def Let_def r ..
  show "?e ! 0 = (if i = needed - 1 then of_nat (i + 1) OR 0x40 else of_nat (i + 1))" "?e ! 11 = 0x0F" "?e ! 13 = chk" "length ?e = 32"
    unfolding e by (simp_all add: le16_def)
  have u: "[13 * i..<13 * i + 5] = map (\<lambda>k. 13 * i + k) [0, 1, 2, 3, 4]" "[13 * i + 5..<13 * i + 11] = map (\<lambda>k. 13 * i + k) [5, 6, 7, 8, 9, 10]"
    "[13 * i + 11..<13 * i + 13] = map (\<lambda>k. 13 * i + k) [11, 12]"
    "[0..<5] = [0, 1, 2, 3, 4 :: nat]" "[0..<6] = [0, 1, 2, 3, 4, 5 :: nat]" "[0..<2] = [0, 1 :: nat]"
    by (simp_all add: upt_rec)
  show "map (lfn_wide ?e 1) [0..<5] = map (wide name len) [13 * i..<13 * i + 5]"
    "map (lfn_wide ?e 14) [0..<6] = map (wide name len) [13 * i + 5..<13 * i + 11]"
    "map (lfn_wide ?e 28) [0..<2] = map (wide name len) [13 * i + 11..<13 * i + 13]"
    unfolding u e by (simp_all add: lfn_wide_def le16_def wide_bytes)
qed

lemma seq_byte:
  assumes "i < 20"
  shows "(of_nat (i + 1) :: u8) \<noteq> 0" "(of_nat (i + 1) :: u8) \<noteq> 0xE5" "(of_nat (i + 1) :: u8) AND 0x40 = 0"
    "(of_nat (i + 1) OR 0x40 :: u8) \<noteq> 0" "(of_nat (i + 1) OR 0x40 :: u8) \<noteq> 0xE5" "(of_nat (i + 1) OR 0x40 :: u8) AND 0x40 \<noteq> 0"
    "(ucast ((of_nat (i + 1) :: u8) AND 0x1F) - 1 :: u32) = of_nat i" "(ucast ((of_nat (i + 1) OR 0x40 :: u8) AND 0x1F) - 1 :: u32) = of_nat i"
proof -
  let ?s = "of_nat (i + 1) :: u8"
  have "list_all (\<lambda>i. (of_nat (i + 1) :: u8) \<noteq> 0 \<and> (of_nat (i + 1) :: u8) \<noteq> 0xE5 \<and> (of_nat (i + 1) :: u8) AND 0x40 = 0 \<and>
      (of_nat (i + 1) OR 0x40 :: u8) \<noteq> 0 \<and> (of_nat (i + 1) OR 0x40 :: u8) \<noteq> 0xE5 \<and> (of_nat (i + 1) OR 0x40 :: u8) AND 0x40 \<noteq> 0 \<and>
      (ucast ((of_nat (i + 1) :: u8) AND 0x1F) - 1 :: u32) = of_nat i \<and> (ucast ((of_nat (i + 1) OR 0x40 :: u8) AND 0x1F) - 1 :: u32) = of_nat i) [0..<20]"
    by code_simp
  then show "?s \<noteq> 0" "?s \<noteq> 0xE5" "?s AND 0x40 = 0" "?s OR 0x40 \<noteq> 0" "?s OR 0x40 \<noteq> 0xE5" "(?s OR 0x40) AND 0x40 \<noteq> 0"
    "(ucast (?s AND 0x1F) - 1 :: u32) = of_nat i" "(ucast ((?s OR 0x40) AND 0x1F) - 1 :: u32) = of_nat i"
    using assms by (simp_all only: list_all_iff set_upt atLeastLessThan_iff le0 simp_thms Ball_def)
qed

lemma lfn_take_entry:
  assumes n: "lfn_ok name" and i: "i < needed" "needed = (length name + 12) div 13"
    and st: "i = needed - 1 \<or> has_lfn st \<and> target_checksum st = chk \<and> length (lfn_buffer st) = 256"
  shows "lfn_take (lfn_entry name (length name) chk needed i) st =
    st\<lparr>lfn_buffer := overlay name (13 * i) (min (13 * i + 13) (length name)) (if i = needed - 1 then replicate 256 0 else lfn_buffer st),
       target_checksum := chk, has_lfn := True\<rparr>"
proof -
  let ?e = "lfn_entry name (length name) chk needed i"
  have le: "length name \<le> 255" using n by (simp add: lfn_ok_def)
  have i20: "i < 20" "13 * i \<le> length name" using i le by auto
  note sb = seq_byte [OF i20(1)] and f = lfn_entry_fields [of name "length name" chk needed i]
  have cp: "lfn_copy (map (lfn_wide ?e 28) [0..<2]) (lfn_copy (map (lfn_wide ?e 14) [0..<6]) (lfn_copy (map (lfn_wide ?e 1) [0..<5]) (13 * i, buf))) =
      (min (13 * i + 13) (length name), overlay name (13 * i) (min (13 * i + 13) (length name)) buf)" if "length buf = 256" for buf
    unfolding f(5-7) using lfn_copy_part [OF n that, of "13 * i" "13 * i + 5"] lfn_copy_next [OF n that, of "13 * i" "13 * i + 5" "13 * i + 11"]
      lfn_copy_next [OF n that, of "13 * i" "13 * i + 11" "13 * i + 13"] i20(2) by simp
  have sq: "(ucast (?e ! 0 AND 0x1F) - 1 :: u32) = of_nat i" unfolding f(1) by (split if_split, intro conjI impI, rule sb(8), rule sb(7))
  have u: "unat (of_nat i :: u32) * 13 = 13 * i" "(of_nat i :: u32) < 20" using i20(1) by (simp_all add: unat_of_nat_id word_less_nat_alt)
  show ?thesis
  proof (cases "i = needed - 1")
    case True
    then have "?e ! 0 AND 0x40 \<noteq> 0" unfolding f(1) using sb(6) by simp
    then show ?thesis unfolding lfn_take_def Let_def sq f(3) u(1) using True u(2) cp by (cases st) simp
  next
    case False
    then have "?e ! 0 AND 0x40 = 0" unfolding f(1) using sb(3) by simp
    then show ?thesis unfolding lfn_take_def Let_def sq f(3) u(1) using False u(2) cp st by (cases st) simp
  qed
qed

text \<open>Reading all fragments of a name leaves the name in the buffer.\<close>

lemma readdir_fragments:
  assumes n: "lfn_ok name" and needed: "needed = (length name + 12) div 13"
  shows "k < needed \<Longrightarrow> has_lfn st \<Longrightarrow> target_checksum st = chk \<Longrightarrow> length (lfn_buffer st) = 256 \<Longrightarrow>
    readdir_slots vol node index out st (map (lfn_entry name (length name) chk needed) (rev [0..<k]) @ es) =
    readdir_slots vol node index out (st\<lparr>lfn_buffer := overlay name 0 (13 * k) (lfn_buffer st)\<rparr>) es"
proof (induction k arbitrary: st)
  case 0
  then show ?case by (simp add: overlay_none)
next
  case (Suc k)
  let ?e = "lfn_entry name (length name) chk needed k"
  have le: "length name \<le> 255" using n by (simp add: lfn_ok_def)
  have k: "k < 20" "k \<noteq> needed - 1" "13 * Suc k \<le> length name" using Suc.prems(1) needed le by auto
  have tk: "lfn_take ?e st = st\<lparr>lfn_buffer := overlay name (13 * k) (13 * Suc k) (lfn_buffer st), target_checksum := chk, has_lfn := True\<rparr>"
    using lfn_take_entry [OF n _ needed, of k st chk] Suc.prems k by (simp add: min_absorb1 add.commute)
  let ?st = "st\<lparr>lfn_buffer := overlay name (13 * k) (13 * Suc k) (lfn_buffer st), target_checksum := chk, has_lfn := True\<rparr>"
  have "?e ! 0 \<noteq> 0" "?e ! 0 \<noteq> 0xE5" "?e ! 11 = 0x0F" unfolding lfn_entry_fields using k seq_byte [OF k(1)] by simp_all
  then have "readdir_slots vol node index out st (map (lfn_entry name (length name) chk needed) (rev [0..<Suc k]) @ es) =
      readdir_slots vol node index out ?st (map (lfn_entry name (length name) chk needed) (rev [0..<k]) @ es)"
    using tk by simp
  also have "\<dots> = readdir_slots vol node index out (?st\<lparr>lfn_buffer := overlay name 0 (13 * k) (lfn_buffer ?st)\<rparr>) es"
    by (rule Suc.IH) (use Suc.prems in simp_all)
  also have "?st\<lparr>lfn_buffer := overlay name 0 (13 * k) (lfn_buffer ?st)\<rparr> = st\<lparr>lfn_buffer := overlay name 0 (13 * Suc k) (lfn_buffer st)\<rparr>"
    using Suc.prems(2,3) by (cases st) (simp add: overlay_join_down)
  finally show ?case .
qed

lemma copy_upper_result:
  "copy_upper dot d s = Some (x, r) \<Longrightarrow> length x \<le> d \<and> r \<noteq> [] \<and>
    (s \<noteq> [] \<and> s ! 0 \<noteq> 0 \<and> \<not> (dot \<and> s ! 0 = 46) \<and> 0 < d \<longrightarrow> x \<noteq> [] \<and> x ! 0 = (if 97 \<le> s ! 0 \<and> s ! 0 \<le> 122 then s ! 0 - 32 else s ! 0))"
  by (induction dot d s arbitrary: x r rule: copy_upper.induct) (auto split: if_splits)

lemma upper_byte:
  fixes c :: u8
  assumes "c \<noteq> 0" "c \<noteq> 0xE5"
  shows "(if 97 \<le> c \<and> c \<le> 122 then c - 32 else c) \<noteq> 0" "(if 97 \<le> c \<and> c \<le> 122 then c - 32 else c) \<noteq> 0xE5"
proof -
  have "unat (c - 32) = unat c - 32" "97 \<le> unat c" "unat c \<le> 122" if "97 \<le> c" "c \<le> 122"
    using that by (simp_all add: unat_sub word_le_nat_alt)
  then show "(if 97 \<le> c \<and> c \<le> 122 then c - 32 else c) \<noteq> 0" "(if 97 \<le> c \<and> c \<le> 122 then c - 32 else c) \<noteq> 0xE5"
    using assms by (auto simp: word_unat_eq_iff)
qed

lemma to_83_shape:
  assumes "fat32_to_83_name src = Some sfn"
  shows "length sfn = 11" "src \<noteq> [] \<and> src ! 0 \<noteq> 0 \<and> src ! 0 \<noteq> 0xE5 \<Longrightarrow> sfn ! 0 \<noteq> 0 \<and> sfn ! 0 \<noteq> 0xE5"
proof -
  from assms obtain b r r1 e r3 where c: "copy_upper True 8 src = Some (b, r)" "copy_upper False 3 r1 = Some (e, r3)"
    "sfn = b @ replicate (8 - length b) 32 @ e @ replicate (3 - length e) 32"
    by (auto simp: fat32_to_83_name_def Option.bind_eq_Some_conv)
  have l: "length b \<le> 8" "length e \<le> 3" using copy_upper_result [OF c(1)] copy_upper_result [OF c(2)] by auto
  then show "length sfn = 11" using c(3) by simp
  show "sfn ! 0 \<noteq> 0 \<and> sfn ! 0 \<noteq> 0xE5" if "src \<noteq> [] \<and> src ! 0 \<noteq> 0 \<and> src ! 0 \<noteq> 0xE5"
  proof (cases "src ! 0 = 46")
    case True
    then have "b = []" using c(1) that by (cases src) auto
    then show ?thesis using c(3) by (simp add: nth_append)
  next
    case False
    then have b: "b \<noteq> []" "b ! 0 = (if 97 \<le> src ! 0 \<and> src ! 0 \<le> 122 then src ! 0 - 32 else src ! 0)"
      using copy_upper_result [OF c(1)] that by auto
    then have "sfn ! 0 = b ! 0" using c(3) by (simp add: nth_append)
    then show ?thesis using upper_byte [of "src ! 0"] that b(2) by auto
  qed
qed

lemma cluster_halves: "push_bit 16 (ucast (ucast (drop_bit 16 c) :: u16)) OR ucast (ucast c :: u16) = (c :: u32)"
proof (rule bit_word_eqI)
  fix n
  assume "n < LENGTH(32)"
  then show "bit (push_bit 16 (ucast (ucast (drop_bit 16 c) :: u16)) OR ucast (ucast c :: u16) :: u32) n = bit c n"
    by (cases "n < 16") (auto simp: bit_simps)
qed

lemma sfn_entry_fields:
  assumes "length sfn = 11"
  shows "sfn_entry sfn attr c sz ! 0 = sfn ! 0" "sfn_entry sfn attr c sz ! 11 = attr" "take 11 (sfn_entry sfn attr c sz) = sfn"
    "rd32 (sfn_entry sfn attr c sz) 28 = sz" "length (sfn_entry sfn attr c sz) = 32"
    "push_bit 16 (ucast (rd16 (sfn_entry sfn attr c sz) 20)) OR ucast (rd16 (sfn_entry sfn attr c sz) 26) = c"
proof -
  let ?e = "sfn_entry sfn attr c sz"
  show "?e ! 0 = sfn ! 0" "?e ! 11 = attr" "take 11 ?e = sfn" "length ?e = 32" using assms by (simp_all add: sfn_entry_def nth_append)
  have r: "replicate 8 (0 :: u8) = [0, 0, 0, 0, 0, 0, 0, 0]" "replicate 4 (0 :: u8) = [0, 0, 0, 0]" by (simp_all add: eval_nat_numeral)
  have e: "?e = sfn @ ([attr, 0, 0, 0, 0, 0, 0, 0, 0] @ le16 (ucast (drop_bit 16 c)) @ [0, 0, 0, 0] @ le16 (ucast c) @ le32 sz)"
    unfolding sfn_entry_def r by simp
  have n: "?e ! (11 + k) = ([attr, 0, 0, 0, 0, 0, 0, 0, 0] @ le16 (ucast (drop_bit 16 c)) @ [0, 0, 0, 0] @ le16 (ucast c) @ le32 sz) ! k" for k
    unfolding e using assms by (simp add: nth_append)
  have "rd16 ?e 20 = ucast (drop_bit 16 c)" "rd16 ?e 26 = ucast c" "rd32 ?e 28 = sz"
    using n [of 9] n [of 10] n [of 15] n [of 16] n [of 17] n [of 18] n [of 19] n [of 20] by (simp_all add: rd16_def rd32_def le16_def le32_def)
  then show "rd32 ?e 28 = sz" "push_bit 16 (ucast (rd16 ?e 20)) OR ucast (rd16 ?e 26) = c" by (simp_all add: cluster_halves)
qed

lemma lfn_entry_append: "lfn_entry (name @ z) (length name) = lfn_entry name (length name)"
proof -
  have "lfn_char (name @ z) (length name) = lfn_char name (length name)" by (simp add: fun_eq_iff lfn_char_def nth_append)
  then show ?thesis by (simp add: fun_eq_iff lfn_entry_def Let_def)
qed

lemma overlay_zeros: "length name \<le> 256 \<Longrightarrow> overlay name 0 (length name) (replicate 256 0) = name @ replicate (256 - length name) 0"
  by (rule nth_equalityI) (auto simp: nth_append)

text \<open>The node that the entries written for a name are read as.\<close>

lemma entries_read_back:
  fixes vol :: fat32_volume and node out :: vfs_node and c sz :: u32
  assumes n: "lfn_ok name" and sfn: "fat32_to_83_name (name @ 0 # z) = Some sfn" and first: "name ! 0 \<noteq> 0xE5"
    and attr: "attr \<noteq> 0x0F" "attr AND 8 = 0" and out: "length (n_name out) = 256" and idx: "currentIndex st = index"
  defines "out' \<equiv> fill_node vol node (sfn_entry sfn attr c sz) (name @ replicate (256 - length name) 0) out"
  shows "readdir_slots vol node index out st (new_entries (name @ 0 # z) (length name) sfn attr c sz @ es) = Some (Inl (Some out'))"
    "cstr (n_name out') = name" "inode out' = c" "n_size out' = ucast sz"
    "n_flags out' = (if attr AND 0x10 \<noteq> 0 then VFS_DIRECTORY else VFS_FILE)" "length (n_name out') = 256"
proof -
  let ?e = "sfn_entry sfn attr c sz" and ?chk = "fat32_checksum sfn"
  define needed where "needed = (length name + 12) div 13"
  have len: "0 < length name" "length name \<le> 255" using n by (simp_all add: lfn_ok_def)
  have "needed \<le> 267 div 13" unfolding needed_def by (rule div_le_mono) (use len in simp)
  then have nd: "0 < needed" "needed - 1 < 20" using len(1) by (simp_all add: needed_def div_greater_zero_iff Suc_le_eq)
  have ne: "name ! 0 \<noteq> 0" "name \<noteq> []" using n by (cases name; auto simp: lfn_ok_def)+
  have s0: "sfn ! 0 \<noteq> 0" "sfn ! 0 \<noteq> 0xE5" using to_83_shape(2) [OF sfn] ne first by (auto simp: nth_append)
  note ef = sfn_entry_fields [OF to_83_shape(1) [OF sfn], of attr c sz]
  let ?F = "lfn_entry name (length name) ?chk needed"
  let ?z = "replicate 256 (0 :: u8)"
  let ?st = "st\<lparr>lfn_buffer := name @ replicate (256 - length name) 0, target_checksum := ?chk, has_lfn := True\<rparr>"
  have el: "new_entries (name @ 0 # z) (length name) sfn attr c sz = ?F (needed - 1) # map ?F (rev [0..<needed - 1]) @ [?e]"
  proof -
    have "rev [0..<needed] = (needed - 1) # rev [0..<needed - 1]" using nd(1) by (cases needed) simp_all
    then show ?thesis by (simp add: new_entries_def Let_def lfn_entry_append needed_def [symmetric])
  qed
  have f: "?F (needed - 1) ! 0 \<noteq> 0" "?F (needed - 1) ! 0 \<noteq> 0xE5" "?F (needed - 1) ! 11 = 0x0F"
    unfolding lfn_entry_fields using seq_byte(4,5) [OF nd(2)] by simp_all
  have m: "min (13 * (needed - 1) + 13) (length name) = length name" "13 * (needed - 1) \<le> length name" using len by (auto simp: needed_def)
  have tk: "lfn_take (?F (needed - 1)) st = st\<lparr>lfn_buffer := overlay name (13 * (needed - 1)) (length name) ?z, target_checksum := ?chk, has_lfn := True\<rparr>"
    using lfn_take_entry [OF n _ needed_def, of "needed - 1" st ?chk] nd(1) unfolding m(1) by simp
  have "readdir_slots vol node index out st (new_entries (name @ 0 # z) (length name) sfn attr c sz @ es) =
      readdir_slots vol node index out (st\<lparr>lfn_buffer := overlay name (13 * (needed - 1)) (length name) ?z, target_checksum := ?chk, has_lfn := True\<rparr>)
        (map ?F (rev [0..<needed - 1]) @ ?e # es)"
    unfolding el using f tk by simp
  also have "\<dots> = readdir_slots vol node index out ?st (?e # es)"
    using readdir_fragments [OF n needed_def, of "needed - 1" "st\<lparr>lfn_buffer := overlay name (13 * (needed - 1)) (length name) ?z, target_checksum := ?chk, has_lfn := True\<rparr>" ?chk]
      nd(1) m(2) len by (cases st) (simp add: overlay_join_down overlay_zeros)
  also have "\<dots> = Some (Inl (Some out'))"
  proof -
    have ck: "fat32_checksum ?e = ?chk" using ef(3) to_83_shape(1) [OF sfn] by (simp add: fat32_checksum_def)
    have b: "cstr (name @ replicate (256 - length name) 0) = name" "terminated (name @ replicate (256 - length name) 0)"
      using n len by (simp_all add: cstr_append lfn_ok_def) (cases "256 - length name", simp_all)
    have "strncpy (n_name out) (name @ replicate (256 - length name) 0) 255 = Some (take 255 (name @ replicate (256 - length name) 0) @ [0])"
      using out len by (simp add: strncpy_eq)
    moreover have "(take 255 (name @ replicate (256 - length name) (0 :: u8)) @ [0])[255 := 0] = name @ replicate (256 - length name) 0"
      by (rule nth_equalityI) (use len in \<open>auto simp: nth_append nth_list_update\<close>)
    ultimately show ?thesis
      using ef(1,2) s0 attr idx ck b len by (simp add: Let_def strlen_eq out'_def)
  qed
  finally show "readdir_slots vol node index out st (new_entries (name @ 0 # z) (length name) sfn attr c sz @ es) = Some (Inl (Some out'))" .
  show "cstr (n_name out') = name" using n len by (auto simp: out'_def fill_node_def cstr_append lfn_ok_def) (cases "256 - length name", simp_all)
  show "inode out' = c" "n_size out' = ucast sz" "n_flags out' = (if attr AND 0x10 \<noteq> 0 then VFS_DIRECTORY else VFS_FILE)" "length (n_name out') = 256"
    using ef len by (simp_all add: out'_def fill_node_def)
qed

section \<open>The listing of a directory\<close>

text \<open>The names that a run of entries without an end mark stands for, and the state of the walk behind it.\<close>

fun listing :: "lfn_state \<Rightarrow> u8 list list \<Rightarrow> u8 list list \<times> lfn_state" where
  "listing st [] = ([], st)"
| "listing st (e # es) =
     (if e ! 0 = 0xE5 then listing (st\<lparr>has_lfn := False\<rparr>) es
      else if e ! 11 = 0x0F then listing (lfn_take e st) es
      else if e ! 11 AND 0x08 \<noteq> 0 then listing (st\<lparr>has_lfn := False\<rparr>) es
      else let name = (if has_lfn st \<and> fat32_checksum e = target_checksum st \<and> cstr (lfn_buffer st) \<noteq> [] then cstr (lfn_buffer st)
             else cstr (fat32_format_name e (replicate 256 0)));
           r = listing (st\<lparr>currentIndex := currentIndex st + 1, has_lfn := False\<rparr>) es in (name # fst r, snd r))"

definition st_ok :: "lfn_state \<Rightarrow> bool" where
  "st_ok st \<longleftrightarrow> length (lfn_buffer st) = 256 \<and> lfn_buffer st ! 255 = 0"

lemma lfn_copy_keeps: "length (snd (lfn_copy ws s)) = length (snd s)" "snd (lfn_copy ws s) ! 255 = snd s ! 255"
  by (induction ws s rule: lfn_copy.induct) auto

lemma st_ok_take: "st_ok st \<Longrightarrow> st_ok (lfn_take e st)"
  by (simp add: st_ok_def lfn_take_def Let_def lfn_copy_keeps)

lemma lower_loop_keeps: "length (lower_loop s) = length s" "terminated s \<Longrightarrow> terminated (lower_loop s)"
  by (induction s) auto

lemma format_name_keeps:
  "length out = 256 \<Longrightarrow> length (fat32_format_name e out) = 256" "cstr (fat32_format_name e out) = cstr (fat32_format_name e (replicate 256 0))"
  "terminated (fat32_format_name e out)"
proof -
  define s where "s = filter (\<lambda>c. c \<noteq> 32) (take 8 e) @ (if e ! 8 \<noteq> 32 then 46 # filter (\<lambda>c. c \<noteq> 32) (take 3 (drop 8 e)) else []) @ [0]"
  have f: "fat32_format_name e o' = lower_loop s @ drop (length s) o'" for o' by (simp add: fat32_format_name_def s_def)
  have "length (filter (\<lambda>c. c \<noteq> 32) (take 8 e)) \<le> 8" "length (filter (\<lambda>c. c \<noteq> 32) (take 3 (drop 8 e))) \<le> 3"
    by (rule order_trans [OF length_filter_le], simp)+
  then have "length s \<le> 13" by (simp add: s_def)
  then show "length (fat32_format_name e out) = 256" if "length out = 256" using that unfolding f by (simp add: lower_loop_keeps)
  have tm: "terminated (lower_loop s)" by (rule lower_loop_keeps(2)) (simp add: s_def)
  then show "terminated (fat32_format_name e out)" unfolding f by simp
  have "cstr (lower_loop s @ x) = cstr (lower_loop s)" for x
    using tm by (metis append_Cons append_assoc cstr_append cstr_no_zero cstr_simps(2) terminated_split)
  then show "cstr (fat32_format_name e out) = cstr (fat32_format_name e (replicate 256 0))" unfolding f by simp
qed

lemma listing_state: "st_ok st \<Longrightarrow> st_ok (snd (listing st P)) \<and> currentIndex (snd (listing st P)) = currentIndex st + of_nat (length (fst (listing st P)))"
proof (induction P arbitrary: st)
  case (Cons e P)
  have "currentIndex (lfn_take e st) = currentIndex st" by (simp add: lfn_take_def Let_def)
  then show ?case using Cons.IH [of "st\<lparr>has_lfn := False\<rparr>"] Cons.IH [OF st_ok_take [OF Cons.prems], of e]
      Cons.IH [of "st\<lparr>currentIndex := currentIndex st + 1, has_lfn := False\<rparr>"] Cons.prems
    by (auto simp: st_ok_def Let_def)
qed simp

text \<open>Asking for the \<open>j\<close>-th entry: one of the run, or what follows it.\<close>

lemma readdir_listing:
  assumes "\<forall>e \<in> set P. e ! 0 \<noteq> 0" "st_ok st" "length (n_name out) = 256" "j < 2 ^ 32" "index = currentIndex st + of_nat j"
  shows "if j < length (fst (listing st P))
    then \<exists>o'. readdir_slots vol node index out st (P @ X) = Some (Inl (Some o')) \<and> cstr (n_name o') = fst (listing st P) ! j \<and> length (n_name o') = 256 \<and> terminated (n_name o')
    else readdir_slots vol node index out st (P @ X) = readdir_slots vol node index out (snd (listing st P)) X"
  using assms
proof (induction P arbitrary: st j)
  case (Cons e P)
  have e0: "e ! 0 \<noteq> 0" "\<forall>e \<in> set P. e ! 0 \<noteq> 0" using Cons.prems(1) by simp_all
  consider (skip) st' where "readdir_slots vol node index out st ((e # P) @ X) = readdir_slots vol node index out st' (P @ X)"
      "listing st (e # P) = listing st' P" "st_ok st'" "currentIndex st' = currentIndex st"
    | (item) "e ! 0 \<noteq> 0xE5" "e ! 11 \<noteq> 0x0F" "e ! 11 AND 8 = 0"
  proof -
    have "st_ok (st\<lparr>has_lfn := False\<rparr>)" "currentIndex (lfn_take e st) = currentIndex st" using Cons.prems(2) by (simp_all add: st_ok_def lfn_take_def Let_def)
    then show ?thesis using that e0(1) st_ok_take [OF Cons.prems(2), of e] by (cases "e ! 0 = 0xE5"; cases "e ! 11 = 0x0F"; cases "e ! 11 AND 8 = 0") auto
  qed
  then show ?case
  proof cases
    case skip
    show ?thesis unfolding skip(1,2) by (rule Cons.IH [OF e0(2) skip(3) Cons.prems(3,4)]) (use Cons.prems(5) skip(4) in simp)
  next
    case item
    let ?long = "has_lfn st \<and> fat32_checksum e = target_checksum st" and ?st = "st\<lparr>currentIndex := currentIndex st + 1, has_lfn := False\<rparr>"
    let ?name = "if ?long \<and> cstr (lfn_buffer st) \<noteq> [] then cstr (lfn_buffer st) else cstr (fat32_format_name e (replicate 256 0))"
    have ls: "listing st (e # P) = (?name # fst (listing ?st P), snd (listing ?st P))" using item by (simp add: Let_def)
    show ?thesis
    proof (cases j)
      case 0
      have b: "terminated (lfn_buffer st)" "length (lfn_buffer st) = 256" using Cons.prems(2) by (auto simp: st_ok_def in_set_conv_nth intro: exI [of _ 255])
      have n: "strlen (lfn_buffer st) = Some (length (cstr (lfn_buffer st)))" using b by (simp add: strlen_eq)
      define lname where "lname = (take 255 (lfn_buffer st) @ [0])[255 := 0]"
      have cp: "strncpy (n_name out) (lfn_buffer st) 255 = Some (take 255 (lfn_buffer st) @ [0])" using b(2) Cons.prems(3) by (simp add: strncpy_eq)
      have "lname ! i = lfn_buffer st ! i" if "i < 256" for i
        using that b(2) Cons.prems(2) by (cases "i = 255") (simp_all add: lname_def st_ok_def nth_append)
      then have lb: "lname = lfn_buffer st" using b(2) by (intro nth_equalityI) (simp_all add: lname_def)
      let ?nm = "if ?long \<and> cstr (lfn_buffer st) \<noteq> [] then lname else fat32_format_name e (n_name out)"
      have "readdir_slots vol node index out st ((e # P) @ X) = Some (Inl (Some (fill_node vol node e ?nm out)))"
        using item e0(1) 0 Cons.prems(5) n cp by (auto simp: Let_def lname_def)
      moreover have "cstr ?nm = ?name" "length ?nm = 256" "terminated ?nm"
        using format_name_keeps(1) [of "n_name out" e] format_name_keeps(2,3) [of e "n_name out"] Cons.prems(3) b lb by auto
      moreover have "n_name (fill_node vol node e ?nm out) = ?nm" by (simp add: fill_node_def)
      ultimately show ?thesis using 0 ls by auto
    next
      case (Suc i)
      have "currentIndex st \<noteq> index"
      proof
        assume "currentIndex st = index"
        then have "(of_nat (Suc i) :: u32) = 0" using Cons.prems(5) Suc by simp
        moreover have "unat (of_nat (Suc i) :: u32) = Suc i" using Cons.prems(4) Suc by (subst unat_of_nat_id) simp_all
        ultimately show False by simp
      qed
      then have rd: "readdir_slots vol node index out st ((e # P) @ X) = readdir_slots vol node index out ?st (P @ X)"
        using item e0(1) by (simp add: Let_def)
      have "st_ok ?st" "i < 2 ^ 32" "index = currentIndex ?st + of_nat i" using Cons.prems Suc by (simp_all add: st_ok_def algebra_simps)
      from Cons.IH [OF e0(2) this(1) Cons.prems(3) this(2,3)] show ?thesis
        unfolding ls Suc rd by (simp only: fst_conv snd_conv length_Cons Suc_less_eq nth_Cons_Suc)
    qed
  qed
qed simp

section \<open>Looking up a name\<close>

abbreviation st0 :: lfn_state where
  "st0 \<equiv> \<lparr>lfn_buffer = replicate 256 0, target_checksum = 0, has_lfn = False, currentIndex = 0\<rparr>"

lemma st0_ok: "st_ok st0"
  by (simp add: st_ok_def)

text \<open>A question that the first cluster of the directory answers.\<close>

lemma readdir_first:
  assumes v: "vol_ok vol" and E: "reliable E" and m: "med_ok vol m" and c: "cluster_ok vol (inode node)"
    and r: "readdir_slots vol node index out st0 (slots vol (cdata vol (sectors m) (inode node))) = Some (Inl r)"
  shows "\<exists>t. fat32_readdir E vol node index out m =
     (case r of None \<Rightarrow> Some (-1, out, m\<lparr>ticks := t\<rparr>) | Some out' \<Rightarrow> Some (0, out', m\<lparr>ticks := t\<rparr>))"
proof -
  let ?m = "m\<lparr>ticks := Suc (ticks m), held := bytes_per_cluster vol # held m\<rparr>"
  have lt: "inode node < FAT32_EOF \<and> inode node \<noteq> FAT32_BAD_CLUSTER" using cluster_okD(4) [OF v c] by (auto simp: word_less_nat_alt)
  have rb: "read_blocks E (cluster_to_sector vol (inode node)) (sectors_per_cluster vol) (unat (bytes_per_cluster vol)) ?m =
      Some (Some (cdata vol (sectors m) (inode node)), tick ?m)"
    using read_cluster [OF v, of ?m] m E by (simp add: reliable_def)
  have "readdir_walk E vol node index out (inode node) st0 ?m =
      (case r of None \<Rightarrow> Some (-1, out, m\<lparr>ticks := Suc (Suc (ticks m))\<rparr>) | Some out' \<Rightarrow> Some (0, out', m\<lparr>ticks := Suc (Suc (ticks m))\<rparr>))"
    using lt rb r by (subst readdir_walk.simps) (simp add: Let_def pool_put_def split: option.splits)
  then show ?thesis using E by (auto simp: fat32_readdir_def pool_get_def reliable_def)
qed

lemma finddir_step:
  assumes v: "vol_ok vol" and E: "reliable E" and m: "med_ok vol m" and c: "cluster_ok vol (inode node)"
    and S: "slots vol (cdata vol (sectors m) (inode node)) = P @ X" "\<forall>e \<in> set P. e ! 0 \<noteq> 0"
    and i: "i < length (fst (listing st0 P))" "i < 2 ^ 32" and out: "length (n_name out) = 256" and nm: "nm \<noteq> []" "0 \<notin> set nm"
  shows "\<exists>t out'. length (n_name out') = 256 \<and> finddir_loop E vol node (nm @ 0 # z) (of_nat i) out m =
     (if fst (listing st0 P) ! i = nm then Some (Some out', m\<lparr>ticks := t\<rparr>) else finddir_loop E vol node (nm @ 0 # z) (of_nat (Suc i)) out' (m\<lparr>ticks := t\<rparr>))"
proof -
  obtain o' where o: "readdir_slots vol node (of_nat i) out st0 (P @ X) = Some (Inl (Some o'))" "cstr (n_name o') = fst (listing st0 P) ! i"
    "length (n_name o') = 256" "terminated (n_name o')"
    using readdir_listing [OF S(2) st0_ok out i(2), where index = "of_nat i" and vol = vol and node = node and X = X] i(1) by auto
  obtain t where rd: "fat32_readdir E vol node (of_nat i) out m = Some (0, o', m\<lparr>ticks := t\<rparr>)"
    using readdir_first [OF v E m c, of "of_nat i" out "Some o'"] o(1) S(1) by auto
  have "strcmp (n_name o') (nm @ 0 # z) = Some (if cstr (n_name o') = nm then 0 else -1)"
    using strcmp_eq [OF o(4), of "nm @ 0 # z"] nm by (simp add: cstr_append)
  then show ?thesis using rd o(2,3) by (subst finddir_loop.simps) (auto simp: add.commute)
qed

lemma finddir_none:
  assumes v: "vol_ok vol" and E: "reliable E" and c: "cluster_ok vol (inode node)" and S: "\<forall>e \<in> set P. e ! 0 \<noteq> 0"
    and nm: "nm \<noteq> []" "0 \<notin> set nm" and k: "length (fst (listing st0 P)) < 2 ^ 32"
  shows "med_ok vol m \<Longrightarrow> slots vol (cdata vol (sectors m) (inode node)) = P @ X \<Longrightarrow> length (n_name out) = 256 \<Longrightarrow>
    finddir_loop E vol node (nm @ 0 # z) (of_nat i) out m = Some (None, m') \<Longrightarrow> i \<le> j \<Longrightarrow> j < length (fst (listing st0 P)) \<Longrightarrow> fst (listing st0 P) ! j \<noteq> nm"
proof (induction "j - i" arbitrary: i out m)
  case 0
  then show ?case using finddir_step [OF v E "0.prems"(1) c "0.prems"(2) S _ _ "0.prems"(3) nm, of j z] k by (auto split: if_splits)
next
  case (Suc d)
  have i: "i < length (fst (listing st0 P))" "i < 2 ^ 32" using Suc.hyps(2) Suc.prems k by auto
  obtain t out' where s: "length (n_name out') = 256" "finddir_loop E vol node (nm @ 0 # z) (of_nat i) out m =
      (if fst (listing st0 P) ! i = nm then Some (Some out', m\<lparr>ticks := t\<rparr>) else finddir_loop E vol node (nm @ 0 # z) (of_nat (Suc i)) out' (m\<lparr>ticks := t\<rparr>))"
    using finddir_step [OF v E Suc.prems(1) c Suc.prems(2) S i Suc.prems(3) nm] by blast
  then have "finddir_loop E vol node (nm @ 0 # z) (of_nat (Suc i)) out' (m\<lparr>ticks := t\<rparr>) = Some (None, m')"
    using Suc.prems(4) by (simp split: if_splits)
  then show ?case using Suc.hyps(1) [of "Suc i" "m\<lparr>ticks := t\<rparr>" out'] Suc.hyps(2) Suc.prems s(1) by simp
qed

lemma finddir_reach:
  assumes v: "vol_ok vol" and E: "reliable E" and c: "cluster_ok vol (inode node)" and S: "\<forall>e \<in> set P. e ! 0 \<noteq> 0"
    and nm: "nm \<noteq> []" "0 \<notin> set nm" and k: "length (fst (listing st0 P)) < 2 ^ 32" and other: "nm \<notin> set (fst (listing st0 P))"
  shows "med_ok vol m \<Longrightarrow> slots vol (cdata vol (sectors m) (inode node)) = P @ X \<Longrightarrow> length (n_name out) = 256 \<Longrightarrow> i \<le> length (fst (listing st0 P)) \<Longrightarrow>
    \<exists>t out'. length (n_name out') = 256 \<and> finddir_loop E vol node (nm @ 0 # z) (of_nat i) out m =
      finddir_loop E vol node (nm @ 0 # z) (of_nat (length (fst (listing st0 P)))) out' (m\<lparr>ticks := t\<rparr>)"
proof (induction "length (fst (listing st0 P)) - i" arbitrary: i out m)
  case 0
  then have "i = length (fst (listing st0 P))" "m = m\<lparr>ticks := ticks m\<rparr>" by simp_all
  then show ?case using "0.prems"(3) by metis
next
  case (Suc d)
  have i: "i < length (fst (listing st0 P))" "i < 2 ^ 32" using Suc.hyps(2) k by auto
  have ne: "fst (listing st0 P) ! i \<noteq> nm" using other i(1) by (metis nth_mem)
  obtain t out' where s: "length (n_name out') = 256" "finddir_loop E vol node (nm @ 0 # z) (of_nat i) out m =
      finddir_loop E vol node (nm @ 0 # z) (of_nat (Suc i)) out' (m\<lparr>ticks := t\<rparr>)"
    using finddir_step [OF v E Suc.prems(1) c Suc.prems(2) S i Suc.prems(3) nm, of z] unfolding if_not_P [OF ne] by blast
  have d: "d = length (fst (listing st0 P)) - Suc i" using Suc.hyps(2) by simp
  have "\<exists>t2 out2. length (n_name out2) = 256 \<and> finddir_loop E vol node (nm @ 0 # z) (of_nat (Suc i)) out' (m\<lparr>ticks := t\<rparr>) =
      finddir_loop E vol node (nm @ 0 # z) (of_nat (length (fst (listing st0 P)))) out2 ((m\<lparr>ticks := t\<rparr>)\<lparr>ticks := t2\<rparr>)"
    by (rule Suc.hyps(1) [OF d]) (use Suc.prems s(1) i in simp_all)
  then show ?case unfolding s(2) by simp
qed

section \<open>Adding a name\<close>

lemma slot_scan_bound:
  "slot_scan needed i start cont xs = Some k \<Longrightarrow> cont < needed \<Longrightarrow> cont = 0 \<or> start + cont = i \<Longrightarrow> k + needed \<le> i + length xs"
proof (induction needed i start cont xs rule: slot_scan.induct)
  case (2 needed i start cont e es)
  show ?case
  proof (cases "(e ! 0 = 0 \<or> e ! 0 = 0xE5) \<and> cont + 1 = needed")
    case True
    then show ?thesis using 2(3,5) by (auto simp: Let_def split: if_splits)
  next
    case False
    then show ?thesis using 2(1) [OF _ refl] 2(2-5) by (auto simp: Let_def split: if_splits)
  qed
qed simp

lemma concat_chunk: "i < length es \<Longrightarrow> \<forall>e \<in> set es. length e = n \<Longrightarrow> take n (drop (n * i) (concat es @ r)) = es ! i"
proof (induction es arbitrary: i)
  case (Cons e es)
  then show ?case by (cases i) simp_all
qed simp

lemma concat_chunks_length: "\<forall>e \<in> set es. length e = n \<Longrightarrow> length (concat es) = n * length es"
  by (induction es) simp_all

lemma take_drop_prefix: "j + n \<le> k \<Longrightarrow> k \<le> length b \<Longrightarrow> take n (drop j (take k b @ r)) = take n (drop j b)"
  unfolding take_drop by (simp add: min_absorb1)

lemma slots_patch:
  assumes len: "length buf = unat (bytes_per_cluster vol)" and es: "\<forall>e \<in> set es. length e = 32" "start + length es \<le> length (slots vol buf)"
    and y: "y = take (32 * start) buf @ concat es @ drop (32 * start + length (concat es)) buf"
  shows "slots vol y = take start (slots vol buf) @ es @ drop (start + length es) (slots vol buf)" "32 * start + length (concat es) \<le> length buf"
proof -
  let ?N = "unat (bytes_per_cluster vol div 32)"
  have N: "length (slots vol x) = ?N" for x by (simp add: slots_def)
  have "32 * ?N \<le> length buf" by (simp add: len unat_div)
  moreover have lc: "length (concat es) = 32 * length es" using concat_chunks_length [OF es(1)] by simp
  ultimately show le: "32 * start + length (concat es) \<le> length buf" using es(2) N [of buf] by simp
  have sl: "slots vol x ! i = take 32 (drop (32 * i) x)" if "i < ?N" for i x using that by (simp add: slots_def)
  show "slots vol y = take start (slots vol buf) @ es @ drop (start + length es) (slots vol buf)"
  proof (rule nth_equalityI)
    show "length (slots vol y) = length (take start (slots vol buf) @ es @ drop (start + length es) (slots vol buf))"
      using es(2) by (simp add: N)
    fix i
    assume "i < length (slots vol y)"
    then have i: "i < ?N" by (simp add: N)
    consider "i < start" | "start \<le> i" "i < start + length es" | "start + length es \<le> i" by linarith
    then show "slots vol y ! i = (take start (slots vol buf) @ es @ drop (start + length es) (slots vol buf)) ! i"
    proof cases
      case 1
      have a: "32 * i + 32 \<le> 32 * start" using 1 by simp
      then have "take 32 (drop (32 * i) y) = take 32 (drop (32 * i) buf)" unfolding y using le by (intro take_drop_prefix) linarith+
      then show ?thesis using 1 i es(2) N [of buf] by (simp add: sl nth_append)
    next
      case 2
      have "drop (32 * i) y = drop (32 * (i - start)) (concat es @ drop (32 * start + length (concat es)) buf)"
        unfolding y using 2 le by (simp add: right_diff_distrib')
      then have "take 32 (drop (32 * i) y) = es ! (i - start)" 
        using concat_chunk [OF _ es(1), of "i - start"] 2 by (simp only: less_diff_conv2 add.commute)
      moreover have "i - start < length es" using 2 by linarith
      ultimately show ?thesis using 2 i es(2) N [of buf] by (simp add: sl nth_append)
    next
      case 3
      have "32 * start + 32 * length es \<le> 32 * i" using 3 by simp
      then have "drop (32 * i) y = drop (32 * i) buf" unfolding y using le lc by simp
      moreover have "\<not> i - start < length es" "\<not> i < start" using 3 by linarith+
      ultimately show ?thesis using 3 i es(2) N [of buf] by (simp add: sl nth_append)
    qed
  qed
qed

lemma new_entries_shape:
  assumes "length sfn = 11"
  shows "\<forall>e \<in> set (new_entries name len sfn attr c sz). length e = 32" "0 < length (new_entries name len sfn attr c sz)"
  using sfn_entry_fields(5) [OF assms] lfn_entry_fields(4) by (auto simp: new_entries_def Let_def)

lemma add_entry_first:
  assumes v: "vol_ok vol" and E: "reliable E" and m: "med_ok vol m" and c: "cluster_ok vol c"
    and es: "\<forall>e \<in> set es. length e = 32" "0 < length es" "slot_scan (length es) 0 0 0 (slots vol (cdata vol (sectors m) c)) = Some start"
    and h: "held m = bytes_per_cluster vol # h"
  defines "S \<equiv> slots vol (cdata vol (sectors m) c)"
  shows "\<exists>y t. add_entry_loop E vol es c m = Some (0, m\<lparr>ticks := t, held := h, sectors := cdata_put vol c y (sectors m)\<rparr>) \<and>
     length y = unat (bytes_per_cluster vol) \<and> slots vol y = take start S @ es @ drop (start + length es) S"
proof -
  let ?buf = "cdata vol (sectors m) c"
  define y where "y = take (32 * start) ?buf @ concat es @ drop (32 * start + length (concat es)) ?buf"
  have len: "length ?buf = unat (bytes_per_cluster vol)" by (rule cdata_length) (use m v in auto)
  have b: "start + length es \<le> length S" using slot_scan_bound [OF es(3) es(2)] by (simp add: S_def)
  note sp = slots_patch [OF len es(1) b [unfolded S_def] y_def]
  have ly: "length y = unat (bytes_per_cluster vol)" using sp(2) len by (simp add: y_def)
  have lt: "c < FAT32_EOF \<and> c \<noteq> FAT32_BAD_CLUSTER" using cluster_okD(4) [OF v c] by (auto simp: word_less_nat_alt)
  have rb: "read_blocks E (cluster_to_sector vol c) (sectors_per_cluster vol) (unat (bytes_per_cluster vol)) m = Some (Some ?buf, tick m)"
    using read_cluster [OF v m] E by (simp add: reliable_def)
  have cp: "memcpy_at ?buf (32 * start) (concat es) (length (concat es)) = Some y"
    unfolding y_def using sp(2) by (subst memcpy_at_eq) simp_all
  have wb: "write_blocks E (cluster_to_sector vol c) (sectors_per_cluster vol) y (tick m) =
      Some (0, m\<lparr>ticks := Suc (Suc (ticks m)), sectors := cdata_put vol c y (sectors m)\<rparr>)"
    using write_cluster [OF v E _ ly, of "tick m" c] m by simp
  have "add_entry_loop E vol es c m = Some (0, m\<lparr>ticks := Suc (Suc (ticks m)), held := h, sectors := cdata_put vol c y (sectors m)\<rparr>)"
    using lt rb cp wb es(3) h by (subst add_entry_loop.simps) (simp add: Let_def pool_put_def)
  then show ?thesis using ly sp(1) unfolding S_def by blast
qed

section \<open>Reading changes nothing\<close>

abbreviation same_disk :: "medium \<Rightarrow> medium \<Rightarrow> bool" where
  "same_disk m m' \<equiv> sectors m' = sectors m \<and> sector_size m' = sector_size m"

lemma read_blocks_disk: "read_blocks E l n k m = Some (b, m') \<Longrightarrow> same_disk m m'"
  by (auto simp: read_blocks_def Let_def split: if_splits)

lemma pool_put_disk: "pool_put sz m = Some m' \<Longrightarrow> same_disk m m'"
  by (auto simp: pool_put_def split: if_splits)

lemma pool_get_disk: "pool_get E sz m = (got, m') \<Longrightarrow> same_disk m m'"
  by (auto simp: pool_get_def)

lemma heap_get_disk: "heap_get E m = (got, m') \<Longrightarrow> same_disk m m' \<and> held m' = held m"
  by (auto simp: heap_get_def)

lemma heap_put_disk [simp]: "sectors (heap_put m) = sectors m" "sector_size (heap_put m) = sector_size m" "held (heap_put m) = held m"
  by (simp_all add: heap_put_def)

lemmas request_disk = read_blocks_disk pool_put_disk pool_get_disk heap_get_disk

lemma get_next_disk: "fat32_get_next_cluster E vol c m = Some (r, m') \<Longrightarrow> same_disk m m'"
  unfolding fat32_get_next_cluster_def Let_def
  by (auto simp: Option.bind_eq_Some_conv dest!: request_disk split: if_splits prod.splits option.splits)

lemma get_next_quiet: "fat32_get_next_cluster E vol c m = Some (r, m') \<Longrightarrow> same_disk m m' \<and> held m' = held m"
  using get_next_disk get_next_held by blast

lemma readdir_walk_quiet:
  "readdir_walk E vol node index out c st m = Some x \<Longrightarrow> same_disk m (snd (snd x)) \<and> held (snd (snd x)) = remove1 (bytes_per_cluster vol) (held m)"
proof (induction rule: readdir_walk.raw_induct [rotated, consumes 1, where P = "\<lambda>E vol node index out c st m x.
    same_disk m (snd (snd x)) \<and> held (snd (snd x)) = remove1 (bytes_per_cluster vol) (held m)"])
  case (1 f E vol node index out c st m x)
  show ?case
  proof (cases "c < FAT32_EOF \<and> c \<noteq> FAT32_BAD_CLUSTER")
    case True
    with 1(2) obtain b m1 where rb: "read_blocks E (cluster_to_sector vol c) (sectors_per_cluster vol) (unat (bytes_per_cluster vol)) m = Some (b, m1)"
      by (auto simp: Option.bind_eq_Some_conv Let_def)
    note q = read_blocks_disk [OF rb] read_blocks_held [OF rb]
    show ?thesis
    proof (cases b)
      case None
      then show ?thesis using 1(2) True rb q by (auto simp: Option.bind_eq_Some_conv Let_def pool_put_def split: if_splits)
    next
      case (Some buf)
      then obtain r where r: "readdir_slots vol node index out st (slots vol buf) = Some r"
        using 1(2) True rb by (auto simp: Option.bind_eq_Some_conv Let_def)
      show ?thesis
      proof (cases r)
        case (Inl o')
        then show ?thesis using 1(2) True rb q Some r
          by (cases o') (auto simp: Option.bind_eq_Some_conv Let_def pool_put_def split: if_splits)
      next
        case (Inr st1)
        then show ?thesis using 1(2) True rb q Some r
          by (auto simp: Option.bind_eq_Some_conv Let_def dest!: get_next_quiet 1(1))
      qed
    qed
  qed (use 1(2) in \<open>auto simp: Option.bind_eq_Some_conv Let_def pool_put_def split: if_splits\<close>)
qed

lemma readdir_quiet: "fat32_readdir E vol node index out m = Some (r, o', m') \<Longrightarrow> same_disk m m' \<and> held m' = held m"
  unfolding fat32_readdir_def by (auto simp: pool_get_def dest!: readdir_walk_quiet split: if_splits)

lemma finddir_loop_quiet: "finddir_loop E vol node name i out m = Some x \<Longrightarrow> same_disk m (snd x) \<and> held (snd x) = held m"
proof (induction rule: finddir_loop.raw_induct [rotated, consumes 1, where P = "\<lambda>E vol node name i out m x. same_disk m (snd x) \<and> held (snd x) = held m"])
  case (1 f E vol node name i out m x)
  from 1(2) show ?case
    by (auto simp: Option.bind_eq_Some_conv dest!: readdir_quiet 1(1) split: if_splits)
qed

lemma finddir_quiet: "fat32_finddir E vol node name m = Some (r, m') \<Longrightarrow> same_disk m m' \<and> held m' = held m"
  unfolding fat32_finddir_def by (auto simp: heap_get_def dest!: finddir_loop_quiet split: if_splits)

section \<open>Creating a file\<close>

lemma listing_length: "length (fst (listing st P)) \<le> length P"
proof (induction P arbitrary: st)
  case (Cons e P)
  show ?case using Cons.IH [of "st\<lparr>has_lfn := False\<rparr>"] Cons.IH [of "lfn_take e st"] Cons.IH [of "st\<lparr>currentIndex := currentIndex st + 1, has_lfn := False\<rparr>"]
    by (auto simp: Let_def)
qed simp

lemma copy_upper_total: "terminated s \<Longrightarrow> \<exists>x r. copy_upper dot d s = Some (x, r) \<and> terminated r"
proof (induction dot d s rule: copy_upper.induct)
  case (2 dot d c s)
  then show ?case by (cases "c \<noteq> 0 \<and> \<not> (dot \<and> c = 46) \<and> 0 < d") auto
qed simp

lemma skip_to_dot_total: "terminated s \<Longrightarrow> \<exists>r. skip_to_dot s = Some r \<and> terminated r"
  by (induction s) auto

lemma terminated_after_dot: "terminated r \<Longrightarrow> hd r = 46 \<Longrightarrow> terminated (tl r)"
  by (cases r) auto

lemma to_83_total: "terminated s \<Longrightarrow> \<exists>sfn. fat32_to_83_name s = Some sfn"
proof -
  assume "terminated s"
  then obtain b r where b: "copy_upper True 8 s = Some (b, r)" "terminated r" using copy_upper_total by blast
  obtain r2 where r2: "skip_to_dot r = Some r2" "terminated r2" using skip_to_dot_total [OF b(2)] by blast
  let ?r1 = "if hd r = 46 then tl r else if hd r2 = 46 then tl r2 else r2"
  have "terminated ?r1" using b(2) r2(2) terminated_after_dot by auto
  then obtain e r3 where "copy_upper False 3 ?r1 = Some (e, r3)" using copy_upper_total by blast
  then show ?thesis using b(1) r2(1) by (auto simp: fat32_to_83_name_def split: if_splits)
qed

lemma find_created:
  assumes v: "vol_ok vol" and E: "reliable E" and m: "med_ok vol m" and c: "cluster_ok vol (inode node)"
    and S: "slots vol (cdata vol (sectors m) (inode node)) = P @ new_entries (nm @ 0 # z) (length nm) sfn attr fc sz @ R" "\<forall>e \<in> set P. e ! 0 \<noteq> 0"
    and nm: "lfn_ok nm" "nm ! 0 \<noteq> 0xE5" "fat32_to_83_name (nm @ 0 # z) = Some sfn" and attr: "attr \<noteq> 0x0F" "attr AND 8 = 0"
    and k: "length (fst (listing st0 P)) < 2 ^ 32" and other: "nm \<notin> set (fst (listing st0 P))"
  shows "\<exists>out t. finddir_loop E vol node (nm @ 0 # z) 0 node0 m = Some (Some out, m\<lparr>ticks := t\<rparr>) \<and> cstr (n_name out) = nm \<and> inode out = fc \<and>
     n_size out = ucast sz \<and> n_flags out = (if attr AND 0x10 \<noteq> 0 then VFS_DIRECTORY else VFS_FILE)"
proof -
  let ?k = "length (fst (listing st0 P))" and ?X = "new_entries (nm @ 0 # z) (length nm) sfn attr fc sz @ R"
  have n0: "nm \<noteq> []" "0 \<notin> set nm" "length (n_name node0) = 256" using nm(1) by (auto simp: lfn_ok_def node0_def)
  obtain t out where fr: "length (n_name out) = 256"
    "finddir_loop E vol node (nm @ 0 # z) 0 node0 m = finddir_loop E vol node (nm @ 0 # z) (of_nat ?k) out (m\<lparr>ticks := t\<rparr>)"
    using finddir_reach [OF v E c S(2) n0(1,2) k other m S(1) n0(3), of 0 z] by auto
  let ?out = "fill_node vol node (sfn_entry sfn attr fc sz) (nm @ replicate (256 - length nm) 0) out"
  have ci: "currentIndex (snd (listing st0 P)) = of_nat ?k" using listing_state [OF st0_ok, of P] by simp
  note rb = entries_read_back [OF nm(1,3,2) attr fr(1) ci, of vol node fc sz]
  have "readdir_slots vol node (of_nat ?k) out st0 (P @ ?X) = readdir_slots vol node (of_nat ?k) out (snd (listing st0 P)) ?X"
    using readdir_listing [OF S(2) st0_ok fr(1) k, where index = "of_nat ?k" and vol = vol and node = node and X = ?X] by simp
  then have "readdir_slots vol node (of_nat ?k) out st0 (slots vol (cdata vol (sectors (m\<lparr>ticks := t\<rparr>)) (inode node))) = Some (Inl (Some ?out))"
    using rb(1) [of R] S(1) by simp
  then obtain t2 where rd: "fat32_readdir E vol node (of_nat ?k) out (m\<lparr>ticks := t\<rparr>) = Some (0, ?out, m\<lparr>ticks := t2\<rparr>)"
    using readdir_first [OF v E _ c, of "m\<lparr>ticks := t\<rparr>" "of_nat ?k" out "Some ?out"] m by auto
  have "terminated (n_name ?out)" using nm(1) by (auto simp: fill_node_def lfn_ok_def)
  then have "strcmp (n_name ?out) (nm @ 0 # z) = Some 0"
    using strcmp_eq [of "n_name ?out" "nm @ 0 # z"] n0(1,2) rb(2) by (simp add: cstr_append)
  then have "finddir_loop E vol node (nm @ 0 # z) (of_nat ?k) out (m\<lparr>ticks := t\<rparr>) = Some (Some ?out, m\<lparr>ticks := t2\<rparr>)"
    using rd by (subst finddir_loop.simps) simp
  then show ?thesis using fr(2) rb(2-5) by auto
qed

text \<open>C35: A new file is found by its name. Take a directory whose first cluster has a run of free entries for the name, with no end
  mark in front of it; a name of at most 255 characters, none of them 0 or 255 and the first not 229, that is not in the directory yet; a
  free cluster, and no failing request. Then \<^verbatim>\<open>fat32_create\<close> returns 0, and looking the name up afterwards gives a node with exactly this name,
  of size 0, whose first cluster was free and is now a chain of its own.\<close>

theorem fat32_create_found:
  assumes v: "vol_ok vol" and E: "reliable E" and m: "med_ok vol m" and c: "cluster_ok vol (inode pnode)" "tab vol (sectors m) (inode pnode) \<noteq> 0"
    and nm: "lfn_ok nm" "nm ! 0 \<noteq> 0xE5" and absent: "fat32_finddir E vol pnode (nm @ 0 # z) m = Some (None, m0)"
    and free: "avail vol (sectors m) \<noteq> {}"
    and scan: "slot_scan ((length nm + 12) div 13 + 1) 0 0 0 (slots vol (cdata vol (sectors m) (inode pnode))) = Some start"
    and front: "\<forall>e \<in> set (take start (slots vol (cdata vol (sectors m) (inode pnode)))). e ! 0 \<noteq> 0"
  shows "\<exists>fc m1 node m2. fat32_create E vol pnode (nm @ 0 # z) perms m = Some (0, m1) \<and> fc \<in> avail vol (sectors m) \<and> chain_ok vol (sectors m1) [fc] \<and>
     fat32_finddir E vol pnode (nm @ 0 # z) m1 = Some (Some node, m2) \<and> cstr (n_name node) = nm \<and> inode node = fc \<and> n_size node = 0 \<and> n_flags node = VFS_FILE"
proof -
  let ?d = "sectors m" and ?p = "inode pnode"
  let ?S = "slots vol (cdata vol ?d ?p)"
  let ?P = "take start ?S"
  have n0: "nm \<noteq> []" "0 \<notin> set nm" "length (n_name node0) = 256" using nm(1) by (auto simp: lfn_ok_def node0_def)
  have k: "length (fst (listing st0 ?P)) < 2 ^ 32"
  proof -
    have "length (fst (listing st0 ?P)) \<le> length ?S" using listing_length [of st0 ?P] by simp
    also have "\<dots> < 2 ^ 32" using unsigned_less [of "bytes_per_cluster vol div 32", where 'a = nat] by (simp add: slots_def)
    finally show ?thesis .
  qed
  have other: "nm \<notin> set (fst (listing st0 ?P))"
  proof -
    have "finddir_loop E vol pnode (nm @ 0 # z) (of_nat 0) node0 ((tick m)\<lparr>heap_blocks := Suc (heap_blocks m)\<rparr>) = Some (None, m0)"
      using absent E by (simp add: fat32_finddir_def heap_get_def reliable_def)
    then show ?thesis using finddir_none [OF v E c(1) front n0(1,2) k, of "(tick m)\<lparr>heap_blocks := Suc (heap_blocks m)\<rparr>" "drop start ?S" node0 z 0 m0] m n0(3)
      by (fastforce simp: in_set_conv_nth)
  qed
  obtain sfn where sfn: "fat32_to_83_name (nm @ 0 # z) = Some sfn" using to_83_total [of "nm @ 0 # z"] by auto
  have q: "sectors m0 = ?d" "sector_size m0 = sector_size m" "held m0 = held m" using finddir_quiet [OF absent] by auto
  have nf: "\<not> full vol (sectors m0)" using free q(1) by (auto simp: full_def avail_def)
  obtain fc t d1 where al: "fat32_allocate_cluster E vol m0 = Some (fc, m0\<lparr>ticks := t, sectors := d1\<rparr>)" "alloc_result E vol (sectors m0) fc d1"
    using allocate_spec [OF v, of m0 E] m q by auto
  have fc: "fc \<noteq> FAT32_BAD_CLUSTER" "fc \<in> avail vol ?d" "d1 = tab_put vol fc FAT32_EOF ?d" "cluster_ok vol fc" "tab vol ?d fc = 0"
    using al(2) E nf q(1) by (auto simp: alloc_result_def allocated_def avail_def)
  have ne: "fc \<noteq> ?p" using fc(5) c(2) by auto
  have d1: "disk_ok vol d1" "cdata vol d1 ?p = cdata vol ?d ?p" "tab vol d1 fc = FAT32_EOF"
    unfolding fc(3) using disk_ok_tab_put [OF v _ cluster_okD(1) [OF v fc(4)]] cdata_tab_put [OF v cluster_okD(3) [OF v fc(4)] c(1)]
      tab_put_get [OF v _ cluster_okD(3) [OF v fc(4)] cluster_okD(3) [OF v fc(4)]] m by simp_all
  let ?es = "new_entries (nm @ 0 # z) (length nm) sfn 0x20 fc 0"
  let ?m1 = "m0\<lparr>sectors := d1, ticks := Suc t, held := bytes_per_cluster vol # held m0\<rparr>"
  have les: "length ?es = (length nm + 12) div 13 + 1" by (simp add: new_entries_def Let_def)
  obtain y t2 where ae: "add_entry_loop E vol ?es ?p ?m1 = Some (0, ?m1\<lparr>ticks := t2, held := held m0, sectors := cdata_put vol ?p y d1\<rparr>)"
    "length y = unat (bytes_per_cluster vol)" "slots vol y = ?P @ ?es @ drop (start + length ?es) ?S"
    using add_entry_first [OF v E _ c(1) new_entries_shape [OF to_83_shape(1) [OF sfn]], of ?m1 "nm @ 0 # z" "length nm" "0x20" fc 0 start "held m0"] m q d1 scan les
    by auto
  let ?m2 = "?m1\<lparr>ticks := t2, held := held m0, sectors := cdata_put vol ?p y d1\<rparr>"
  have cr: "fat32_create E vol pnode (nm @ 0 # z) perms m = Some (0, ?m2)"
  proof -
    have "strlen (nm @ 0 # z) = Some (length nm)" using n0(2) by (simp add: strlen_eq cstr_append)
    then have "fat32_add_entry E vol ?p (nm @ 0 # z) 0x20 fc 0 (m0\<lparr>ticks := t, sectors := d1\<rparr>) = Some (0, ?m2)"
      using sfn ae(1) E by (simp add: fat32_add_entry_def pool_get_def reliable_def)
    then show ?thesis using absent al(1) fc(1) by (simp add: fat32_create_def)
  qed
  have d2: "disk_ok vol (sectors ?m2)" using disk_ok_cdata_put [OF v d1(1) ae(2)] by simp
  have "chain_ok vol (sectors ?m2) [fc]"
    using tab_cdata_put [OF v c(1) cluster_okD(3) [OF v fc(4)], of y d1] d1(3) fc(4) by (simp add: chain_ok_def)
  moreover have "slots vol (cdata vol (sectors ?m2) ?p) = ?P @ ?es @ drop (start + length ?es) ?S"
    using cdata_put_get [OF v c(1) c(1) ae(2), of d1] ae(3) by simp
  then obtain out t3 where "finddir_loop E vol pnode (nm @ 0 # z) 0 node0 ((tick ?m2)\<lparr>heap_blocks := Suc (heap_blocks ?m2)\<rparr>) =
      Some (Some out, ((tick ?m2)\<lparr>heap_blocks := Suc (heap_blocks ?m2)\<rparr>)\<lparr>ticks := t3\<rparr>)"
    "cstr (n_name out) = nm" "inode out = fc" "n_size out = 0" "n_flags out = VFS_FILE"
    using find_created [OF v E _ c(1) _ front nm sfn _ _ k other, of "(tick ?m2)\<lparr>heap_blocks := Suc (heap_blocks ?m2)\<rparr>" "0x20" fc 0 "drop (start + length ?es) ?S"] d2 m q(2)
    by auto
  then have "\<exists>m3. fat32_finddir E vol pnode (nm @ 0 # z) ?m2 = Some (Some out, m3)"
    using E by (auto simp: fat32_finddir_def heap_get_def reliable_def)
  ultimately show ?thesis using cr fc(2) \<open>cstr (n_name out) = nm\<close> \<open>inode out = fc\<close> \<open>n_size out = 0\<close> \<open>n_flags out = VFS_FILE\<close> by blast
qed

text \<open>An empty root directory of one cluster with room for two entries.\<close>

definition dvol :: fat32_volume where
  "dvol = \<lparr>bytes_per_sector = 64, sectors_per_cluster = 1, bytes_per_cluster = 64, first_fat_sector = 1, first_data_sector = 2, root_cluster = 2\<rparr>"

definition dmed :: medium where
  "dmed = \<lparr>sectors = (\<lambda>lba. if lba = 1 then replicate 8 0 @ [0xF8, 0xFF, 0xFF, 0x0F] @ replicate 52 0 else replicate 64 0), sector_size = 64, ticks = 0, held = [],
     heap_blocks = 0, has_ioctl = True\<rparr>"

definition droot :: vfs_node where
  "droot = node0\<lparr>n_flags := VFS_DIRECTORY, inode := 2\<rparr>"

lemma dvol_ok: "vol_ok dvol" "table_size dvol = 16"
  by (simp_all add: vol_ok_def table_size_def dvol_def)

lemma dmed_ok: "med_ok dvol dmed"
  by (simp add: dvol_def dmed_def disk_ok_def)

lemma dmed_tab: "tab dvol (sectors dmed) 2 = FAT32_EOF" "tab dvol (sectors dmed) 3 = 0"
  by (simp_all add: tab_def fat_lba_def fat_idx_def dvol_def dmed_def rd32_def unat_div unat_mod nth_append)

lemma dmed_slots: "inode droot = 2" "slots dvol (cdata dvol (sectors dmed) 2) = [replicate 32 0, replicate 32 0]"
  by (simp_all add: droot_def slots_def cdata_def dvol_def dmed_def cluster_to_sector_def unat_div upt_conv_Cons)

lemma dmed_absent: "\<exists>m0. fat32_finddir fenv dvol droot name dmed = Some (None, m0)"
proof -
  let ?m = "(tick dmed)\<lparr>heap_blocks := Suc (heap_blocks dmed)\<rparr>"
  have c: "cluster_ok dvol (inode droot)" by (simp add: cluster_ok_def dvol_ok dmed_slots)
  obtain t where "fat32_readdir fenv dvol droot 0 node0 ?m = Some (-1, node0, ?m\<lparr>ticks := t\<rparr>)"
    using readdir_first [OF dvol_ok(1) fenv_ok _ c, of ?m 0 node0 None] dmed_ok dmed_slots by auto
  then have "finddir_loop fenv dvol droot name 0 node0 ?m = Some (None, heap_put (?m\<lparr>ticks := t\<rparr>))"
    by (subst finddir_loop.simps) simp
  then show ?thesis by (simp add: fat32_finddir_def heap_get_def fenv_def)
qed

theorem fat32_create_found_witness:
  "\<exists>m1 node m2. fat32_create fenv dvol droot [97, 98, 99, 0] 0 dmed = Some (0, m1) \<and>
     fat32_finddir fenv dvol droot [97, 98, 99, 0] m1 = Some (Some node, m2) \<and> cstr (n_name node) = [97, 98, 99]"
proof -
  obtain m0 where a: "fat32_finddir fenv dvol droot ([97, 98, 99] @ 0 # []) dmed = Some (None, m0)" using dmed_absent by blast
  have c: "cluster_ok dvol (inode droot)" "tab dvol (sectors dmed) (inode droot) \<noteq> 0"
    by (simp_all add: cluster_ok_def dvol_ok dmed_slots dmed_tab)
  have "avail dvol (sectors dmed) \<noteq> {}" using dmed_tab(2) dvol_ok(2) by (auto simp: avail_def cluster_ok_def intro: exI [of _ 3])
  moreover have "slot_scan ((length [97, 98, 99 :: u8] + 12) div 13 + 1) 0 0 0 (slots dvol (cdata dvol (sectors dmed) (inode droot))) = Some 0"
    unfolding dmed_slots by simp
  moreover have "lfn_ok [97, 98, 99]" "[97, 98, 99] ! 0 \<noteq> (0xE5 :: u8)" by (simp_all add: lfn_ok_def)
  ultimately show ?thesis using fat32_create_found [OF dvol_ok(1) fenv_ok dmed_ok c _ _ a] by fastforce
qed

text \<open>C36: Long names survive the directory. The entries that \<^verbatim>\<open>fat32_add_entry\<close> writes for a name of at most 255 characters (none of them 0 or
  255, the first not 229) are read back by \<^verbatim>\<open>fat32_readdir\<close> as one node with exactly this name, cluster, size and kind, whatever fragments
  were collected before and whatever follows.\<close>

theorem fat32_long_name_roundtrip:
  fixes node out :: vfs_node and c sz :: u32
  assumes "lfn_ok name" "fat32_to_83_name (name @ 0 # z) = Some sfn" "name ! 0 \<noteq> 0xE5" "attr \<noteq> 0x0F" "attr AND 8 = 0"
    "length (n_name out) = 256" "currentIndex st = index"
  shows "\<exists>out'. readdir_slots vol node index out st (new_entries (name @ 0 # z) (length name) sfn attr c sz @ es) = Some (Inl (Some out')) \<and>
     cstr (n_name out') = name \<and> inode out' = c \<and> n_size out' = ucast sz \<and> n_flags out' = (if attr AND 0x10 \<noteq> 0 then VFS_DIRECTORY else VFS_FILE)"
  by (intro exI conjI, rule entries_read_back(1) [OF assms]) (rule entries_read_back [OF assms])+

theorem fat32_long_name_roundtrip_witness:
  "\<exists>out'. readdir_slots dvol droot 0 node0 st0 (new_entries ([76, 46, 116, 120, 116, 120, 46, 98, 97, 107] @ 0 # []) 10 [76, 32, 32, 32, 32, 32, 32, 32, 84, 88, 84] 0x20 7 9 @ []) =
     Some (Inl (Some out')) \<and> cstr (n_name out') = [76, 46, 116, 120, 116, 120, 46, 98, 97, 107] \<and> n_size out' = 9"
proof -
  let ?n = "[76, 46, 116, 120, 116, 120, 46, 98, 97, 107] :: u8 list"
  have a: "lfn_ok ?n" "fat32_to_83_name (?n @ 0 # []) = Some [76, 32, 32, 32, 32, 32, 32, 32, 84, 88, 84]" "?n ! 0 \<noteq> 0xE5" by code_simp+
  have b: "(0x20 :: u8) \<noteq> 0x0F" "(0x20 :: u8) AND 8 = 0" "length (n_name node0) = 256" "currentIndex st0 = 0" by (simp_all add: node0_def)
  have u: "length ?n = 10" "(ucast (9 :: u32) :: u64) = 9" by simp_all
  show ?thesis using fat32_long_name_roundtrip [OF a b, where vol = dvol and node = droot and c = 7 and sz = 9 and es = "[]"] unfolding u by blast
qed

section \<open>Defects\<close>

text \<open>Short names are not made unique. Two names with the same first eight letters and the same extension get the same short name, and the
  walks that unlink, truncate or close a file look for the short name: asked for the second file they find the first.\<close>

theorem short_names_collide:
  fixes attr :: u8
  defines "sfn \<equiv> [68, 79, 67, 85, 77, 69, 78, 84, 32, 32, 32]"
  defines "es \<equiv> (\<lambda>k c sz. new_entries [100, 111, 99, 117, 109, 101, 110, 116, k, 0] 9 sfn attr c sz)"
  assumes "attr \<noteq> 0x0F"
  shows "fat32_to_83_name [100, 111, 99, 117, 109, 101, 110, 116, 49, 0] = Some sfn" "fat32_to_83_name [100, 111, 99, 117, 109, 101, 110, 116, 50, 0] = Some sfn"
    "sfn_scan sfn 0 (es 49 c1 s1 @ es 50 c2 s2) = Found 1"
proof -
  show "fat32_to_83_name [100, 111, 99, 117, 109, 101, 110, 116, 49, 0] = Some sfn" "fat32_to_83_name [100, 111, 99, 117, 109, 101, 110, 116, 50, 0] = Some sfn"
    unfolding sfn_def by code_simp+
  have "lfn_entry name len chk 1 0 ! 0 = 0x41" "lfn_entry name len chk 1 0 ! 11 = 0x0F" for name len chk
    by (simp_all add: lfn_entry_fields)
  then show "sfn_scan sfn 0 (es 49 c1 s1 @ es 50 c2 s2) = Found 1"
    using assms(3) by (simp add: es_def sfn_def new_entries_def Let_def sfn_entry_def)
qed

text \<open>A name can be put where no listing reaches it. The search for free entries looks at one cluster at a time: when the free entries at the end
  of a cluster are too few, the name goes into the next cluster, and the first unused entry, whose first byte is 0, ends every later listing before it
  gets there.\<close>

lemma slot_scan_short: "\<forall>e \<in> set R. e ! 0 = 0 \<Longrightarrow> cont + length R < needed \<Longrightarrow> slot_scan needed i start cont R = None"
  by (induction R arbitrary: i start cont) (auto simp: Let_def)

lemma slot_scan_used: "\<forall>e \<in> set P. e ! 0 \<noteq> 0 \<and> e ! 0 \<noteq> 0xE5 \<Longrightarrow> P \<noteq> [] \<Longrightarrow> \<exists>i' start'. slot_scan needed i start cont (P @ R) = slot_scan needed i' start' 0 R"
proof (induction P arbitrary: i start cont)
  case (Cons e P)
  then show ?case by (cases "P = []") auto
qed simp

theorem name_behind_end_mark:
  assumes "\<forall>e \<in> set P. e ! 0 \<noteq> 0 \<and> e ! 0 \<noteq> 0xE5" "P \<noteq> []" "\<forall>e \<in> set (r # R). e ! 0 = 0" "length (r # R) < needed" "length (n_name out) = 256"
    "length (fst (listing st0 P)) \<le> unat index"
  shows "slot_scan needed 0 0 0 (P @ r # R) = None" "readdir_slots vol node index out st0 (P @ r # R) = Some (Inl None)"
proof -
  show "slot_scan needed 0 0 0 (P @ r # R) = None"
    using slot_scan_used [OF assms(1,2), of needed 0 0 0 "r # R"] slot_scan_short [OF assms(3), of 0 needed] assms(4) by auto
  have "readdir_slots vol node index out st0 (P @ r # R) = readdir_slots vol node index out (snd (listing st0 P)) (r # R)"
    using readdir_listing [of P st0 out "unat index" index vol node "r # R"] assms(1,5,6) st0_ok unsigned_less [of index, where 'a = nat] by auto
  then show "readdir_slots vol node index out st0 (P @ r # R) = Some (Inl None)" using assms(3) by simp
qed

text \<open>Opening a file for truncation frees all its clusters, but the node keeps the number of the first one: the next write goes to a cluster
  that the table counts as free.\<close>

theorem truncated_file_keeps_freed_cluster:
  assumes v: "vol_ok vol" and E: "reliable E" and m: "med_ok vol m" and ch: "chain_ok vol (sectors m) (inode node # cs)"
    and fl: "flags AND 1 \<noteq> 0" "flags AND 0x0400 \<noteq> 0" "n_flags node AND VFS_DIRECTORY = 0" "permissions node \<noteq> 0x0155"
    and op: "fat32_open E (Some vol) node pages flags m = Some (r, node', pages', m')"
  shows "r = 0 \<and> inode node' = inode node \<and>
    (\<exists>m1. fat32_free_cluster_chain E vol (inode node) m = Some m1 \<and> inode node' \<in> avail vol (sectors m1))"
proof -
  have c: "cluster_ok vol (inode node)" using ch by (simp add: chain_ok_def)
  have i: "\<not> inode node < 2" "\<not> FAT32_BAD_CLUSTER \<le> inode node" using c cluster_okD(4) [OF v c] by (auto simp: cluster_ok_def word_less_nat_alt word_le_nat_alt)
  obtain t d where "free_chain_loop E vol (inode node) m = Some (m\<lparr>ticks := t, sectors := d\<rparr>)" "tab vol d (inode node) = 0"
    using free_chain_spec [OF v E m ch] c by auto
  then have f: "fat32_free_cluster_chain E vol (inode node) m = Some (m\<lparr>ticks := t, sectors := d\<rparr>)" "inode node \<in> avail vol d"
    using i c by (simp_all add: fat32_free_cluster_chain_def avail_def)
  moreover have "r = 0 \<and> inode node' = inode node" using op fl i f(1) by (auto simp: fat32_open_def Let_def bind_eq_Some_conv split: if_splits)
  ultimately show ?thesis by auto
qed

text \<open>A directory that cannot be read counts as empty: \<^verbatim>\<open>fat32_rmdir\<close> goes on to free its clusters.\<close>

theorem unreadable_directory_is_empty:
  assumes "pool_gives E (ticks m)" "\<not> dev_reads E (Suc (ticks m))" "c < FAT32_EOF" "c \<noteq> FAT32_BAD_CLUSTER"
    "fat32_is_dir_empty E vol c m = Some (r, m')"
  shows r
  using assms by (simp add: fat32_is_dir_empty_def pool_get_def) (subst (asm) empty_loop.simps, auto simp: Let_def read_blocks_def bind_eq_Some_conv)

end
