(* ===== verification/Cache.thy ===== *)
theory Cache
  imports Fatdir
begin

text \<open>
  The page cache of the virtual file system, \<^verbatim>\<open>src/kernel/fs/vfs/vfs.c\<close>: pages, reading, writing, flushing and closing of an open node.
  The node is the one behind the mount point, and neither it nor the buffer is null. The driver is the part of its table that these functions call; each entry may be missing.
  The state \<open>vfile\<close> is the node with the list of its pages and the medium below; \<open>fresh\<close> gives the bytes that a new pool buffer holds,
  which nobody has cleared.

  The view of an open file is the list of its bytes, taken from the page of a block where there is one and from the medium
  elsewhere. The interface \<open>block_store\<close> states what the cache needs of a driver; the FAT32 driver provides it.
\<close>

unbundle bit_operations_syntax

record file_ops =
  f_read :: "(vfs_node \<Rightarrow> u64 \<Rightarrow> u32 \<Rightarrow> nat \<Rightarrow> medium \<Rightarrow> (int \<times> u8 list \<times> medium) option) option"
  f_write :: "(vfs_node \<Rightarrow> u64 \<Rightarrow> u32 \<Rightarrow> u8 list \<Rightarrow> medium \<Rightarrow> (int \<times> vfs_node \<times> medium) option) option"
  f_flush :: "(vfs_node \<Rightarrow> medium \<Rightarrow> int \<times> medium) option"
  f_close :: "(vfs_node \<Rightarrow> medium \<Rightarrow> (int \<times> medium) option) option"

record vfile =
  v_node :: vfs_node
  v_pages :: "vfs_page list"
  v_med :: medium

definition fat32_file_ops :: "outcomes \<Rightarrow> fat32_volume \<Rightarrow> file_ops" where
  "fat32_file_ops E vol = \<lparr>f_read = Some (fat32_read E vol), f_write = Some (fat32_write E vol), f_flush = Some (fat32_flush E (Some vol)),
     f_close = Some (fat32_close E (Some vol))\<rparr>"

section \<open>Pages\<close>

definition vfs_get_or_create_page ::
  "outcomes \<Rightarrow> (nat \<Rightarrow> nat \<Rightarrow> u8) \<Rightarrow> file_ops option \<Rightarrow> u64 \<Rightarrow> bool \<Rightarrow> vfile \<Rightarrow> (vfs_page option \<times> vfile) option" where
  "vfs_get_or_create_page E fresh D bid ler_do_disco s =
     (let node = v_node s; bs = block_size node in
      if bs = 0 then Some (None, s)
      else case find (\<lambda>p. block_id p = bid) (v_pages s) of
        Some p \<Rightarrow> Some (Some p, s)
      | None \<Rightarrow>
          (case heap_get E (v_med s) of (got, m1) \<Rightarrow>
             if \<not> got then Some (None, s\<lparr>v_med := m1\<rparr>)
             else case pool_get E bs m1 of (got2, m2) \<Rightarrow>
               if \<not> got2 then Some (None, s\<lparr>v_med := heap_put m2\<rparr>)
               else do {
                 let buf = map (fresh (ticks m1)) [0..<unat bs];
                 let give_up = (\<lambda>m. do { m' \<leftarrow> pool_put bs m; Some (None, s\<lparr>v_med := heap_put m'\<rparr>) });
                 let add = (\<lambda>b n m. let p = \<lparr>block_id = bid, p_buffer = b, p_size = n, dirty = False\<rparr> in
                   Some (Some p, s\<lparr>v_pages := p # v_pages s, v_med := m\<rparr>));
                 if \<not> ler_do_disco then add buf 0 m2
                 else case Option.bind D f_read of
                   None \<Rightarrow> give_up m2
                 | Some rd \<Rightarrow> do {
                     let offset_fisico = bid * ucast bs;
                     let n = (if offset_fisico + ucast bs > n_size node then if n_size node > offset_fisico then ucast (n_size node - offset_fisico) else 0
                              else bs);
                     if n > 0 then do {
                       (r, x, m3) \<leftarrow> rd node offset_fisico n (length buf) m2;
                       if r < 0 then give_up m3
                       else do { b \<leftarrow> memcpy_at buf 0 x (length x); add b n m3 }
                     } else add buf n m2
                   }
               }))"

fun invalidate :: "u32 \<Rightarrow> u64 \<Rightarrow> vfs_page list \<Rightarrow> medium \<Rightarrow> (vfs_page list \<times> medium) option" where
  "invalidate bs bid [] m = Some ([], m)"
| "invalidate bs bid (p # ps) m =
     (if block_id p = bid then do { m1 \<leftarrow> pool_put bs m; Some (ps, heap_put m1) }
      else do { (qs, m1) \<leftarrow> invalidate bs bid ps m; Some (p # qs, m1) })"

definition vfs_invalidate_cache_page :: "u64 \<Rightarrow> vfile \<Rightarrow> vfile option" where
  "vfs_invalidate_cache_page bid s =
     do { (ps, m) \<leftarrow> invalidate (block_size (v_node s)) bid (v_pages s) (v_med s); Some (s\<lparr>v_pages := ps, v_med := m\<rparr>) }"

section \<open>Reading\<close>

text \<open>The pages of the blocks that are read directly: a changed page is written first; the result of that is ignored.\<close>

definition write_back :: "file_ops option \<Rightarrow> u64 \<Rightarrow> vfile \<Rightarrow> vfile option" where
  "write_back D bid s =
     (case find (\<lambda>p. block_id p = bid) (v_pages s) of
        None \<Rightarrow> Some s
      | Some p \<Rightarrow>
          (case (if dirty p then Option.bind D f_write else None) of
             None \<Rightarrow> Some s
           | Some wr \<Rightarrow> do {
               let bs = block_size (v_node s);
               (r, n, m) \<leftarrow> wr (v_node s) (bid * ucast bs) bs (p_buffer p) (v_med s);
               Some (s\<lparr>v_node := n, v_med := m\<rparr>)
             }))"

fun evict_blocks :: "file_ops option \<Rightarrow> u64 list \<Rightarrow> vfile \<Rightarrow> vfile option" where
  "evict_blocks D [] s = Some s"
| "evict_blocks D (b # bids) s = do { s1 \<leftarrow> write_back D b s; s2 \<leftarrow> vfs_invalidate_cache_page b s1; evict_blocks D bids s2 }"

text \<open>The destination is the buffer of the caller, of which \<open>ntotal\<close> bytes are filled.\<close>

partial_function (option) vfs_read_loop ::
  "outcomes \<Rightarrow> (nat \<Rightarrow> nat \<Rightarrow> u8) \<Rightarrow> file_ops option \<Rightarrow> u64 \<Rightarrow> u32 \<Rightarrow> u8 list \<Rightarrow> u32 \<Rightarrow> vfile \<Rightarrow> (int \<times> u8 list \<times> vfile) option" where
  "vfs_read_loop E fresh D offset sz dest_buf ntotal s =
     (if \<not> ntotal < sz then Some (sint ntotal, dest_buf, s)
      else let bs = block_size (v_node s); offset_atual = offset + ucast ntotal; bid = offset_atual div ucast bs;
               inside = (ucast (offset_atual mod ucast bs) :: u32);
               direct = (if inside = 0 \<and> sz - ntotal \<ge> bs then Option.bind D f_read else None) in
        case direct of
          Some rd \<Rightarrow> do {
            let blocos_completos = (sz - ntotal) div bs;
            s1 \<leftarrow> evict_blocks D (map (\<lambda>i. bid + of_nat i) [0..<unat blocos_completos]) s;
            (r, x, m) \<leftarrow> rd (v_node s1) offset_atual (blocos_completos * bs) (length dest_buf - unat ntotal) (v_med s1);
            d \<leftarrow> memcpy_at dest_buf (unat ntotal) x (length x);
            let s2 = s1\<lparr>v_med := m\<rparr>;
            if r < 0 then Some (if ntotal > 0 then sint ntotal else r, d, s2)
            else vfs_read_loop E fresh D offset sz d (ntotal + of_int r) s2
          }
        | None \<Rightarrow> do {
            (page, s1) \<leftarrow> vfs_get_or_create_page E fresh D bid True s;
            case page of
              None \<Rightarrow> Some (if ntotal > 0 then sint ntotal else -5, dest_buf, s1)
            | Some p \<Rightarrow>
                if inside \<ge> p_size p then Some (sint ntotal, dest_buf, s1)
                else do {
                  let n = (if sz - ntotal < p_size p - inside then sz - ntotal else p_size p - inside);
                  if n = 0 then Some (sint ntotal, dest_buf, s1)
                  else do {
                    d \<leftarrow> memcpy_at dest_buf (unat ntotal) (drop (unat inside) (p_buffer p)) (unat n);
                    vfs_read_loop E fresh D offset sz d (ntotal + n) s1
                  }
                }
          })"

definition vfs_read ::
  "outcomes \<Rightarrow> (nat \<Rightarrow> nat \<Rightarrow> u8) \<Rightarrow> file_ops option \<Rightarrow> u64 \<Rightarrow> u32 \<Rightarrow> u8 list \<Rightarrow> vfile \<Rightarrow> (int \<times> u8 list \<times> vfile) option" where
  "vfs_read E fresh D offset size_arg buffer s =
     (let node = v_node s in
      if size_arg = 0 then Some (0, buffer, s)
      else if block_size node = 0 then
        (case Option.bind D f_read of
           None \<Rightarrow> Some (-2, buffer, s)
         | Some rd \<Rightarrow> do {
             (r, x, m) \<leftarrow> rd node offset size_arg (length buffer) (v_med s);
             d \<leftarrow> memcpy_at buffer 0 x (length x);
             Some (r, d, s\<lparr>v_med := m\<rparr>)
           })
      else if offset \<ge> n_size node then Some (0, buffer, s)
      else let sz = (if offset + ucast size_arg > n_size node then ucast (n_size node - offset) else size_arg) in
        vfs_read_loop E fresh D offset sz buffer 0 s)"

section \<open>Writing\<close>

fun drop_blocks :: "u64 list \<Rightarrow> vfile \<Rightarrow> vfile option" where
  "drop_blocks [] s = Some s"
| "drop_blocks (b # bids) s = do { s1 \<leftarrow> vfs_invalidate_cache_page b s; drop_blocks bids s1 }"

definition grow_size :: "u64 \<Rightarrow> vfile \<Rightarrow> vfile" where
  "grow_size e s = (if e > n_size (v_node s) then s\<lparr>v_node := (v_node s)\<lparr>n_size := e\<rparr>\<rparr> else s)"

text \<open>The page is the first with its block number.\<close>

fun set_page :: "vfs_page \<Rightarrow> vfs_page list \<Rightarrow> vfs_page list" where
  "set_page q [] = []"
| "set_page q (p # ps) = (if block_id p = block_id q then q # ps else p # set_page q ps)"

partial_function (option) vfs_write_loop ::
  "outcomes \<Rightarrow> (nat \<Rightarrow> nat \<Rightarrow> u8) \<Rightarrow> file_ops option \<Rightarrow> u64 \<Rightarrow> u32 \<Rightarrow> u8 list \<Rightarrow> u64 \<Rightarrow> u32 \<Rightarrow> vfile \<Rightarrow> (int \<times> vfile) option" where
  "vfs_write_loop E fresh D offset sz src_buf tamanho_original ntotal s =
     (if \<not> ntotal < sz then Some (sint ntotal, s)
      else let bs = block_size (v_node s); offset_atual = offset + ucast ntotal; bid = offset_atual div ucast bs;
               inside = (ucast (offset_atual mod ucast bs) :: u32);
               direct = (if inside = 0 \<and> sz - ntotal \<ge> bs then Option.bind D f_write else None) in
        case direct of
          Some wr \<Rightarrow> do {
            let blocos_completos = (sz - ntotal) div bs;
            s1 \<leftarrow> drop_blocks (map (\<lambda>i. bid + of_nat i) [0..<unat blocos_completos]) s;
            (r, n, m) \<leftarrow> wr (v_node s1) offset_atual (blocos_completos * bs) (drop (unat ntotal) src_buf) (v_med s1);
            let s2 = s1\<lparr>v_node := n, v_med := m\<rparr>;
            if r < 0 then Some (if ntotal > 0 then sint ntotal else r, s2)
            else vfs_write_loop E fresh D offset sz src_buf tamanho_original (ntotal + of_int r) (grow_size (offset_atual + of_int r) s2)
          }
        | None \<Rightarrow> do {
            let n = (if sz - ntotal < bs - inside then sz - ntotal else bs - inside);
            let ler_do_disco = \<not> (inside = 0 \<and> n = bs) \<and> \<not> bid * ucast bs \<ge> tamanho_original;
            (page, s1) \<leftarrow> vfs_get_or_create_page E fresh D bid ler_do_disco s;
            case page of
              None \<Rightarrow> Some (if ntotal > 0 then sint ntotal else -5, s1)
            | Some p \<Rightarrow> do {
                b \<leftarrow> memcpy_at (p_buffer p) (unat inside) (drop (unat ntotal) src_buf) (unat n);
                let q = p\<lparr>p_buffer := b, p_size := (if inside + n > p_size p then inside + n else p_size p), dirty := True\<rparr>;
                vfs_write_loop E fresh D offset sz src_buf tamanho_original (ntotal + n)
                  (grow_size (offset_atual + ucast n) (s1\<lparr>v_pages := set_page q (v_pages s1)\<rparr>))
              }
          })"

definition vfs_write :: "outcomes \<Rightarrow> (nat \<Rightarrow> nat \<Rightarrow> u8) \<Rightarrow> file_ops option \<Rightarrow> u64 \<Rightarrow> u32 \<Rightarrow> u8 list \<Rightarrow> vfile \<Rightarrow> (int \<times> vfile) option" where
  "vfs_write E fresh D offset size_arg buffer s =
     (let node = v_node s in
      if n_flags node AND VFS_DIRECTORY \<noteq> 0 then Some (-21, s)
      else if size_arg = 0 then Some (0, s)
      else if block_size node = 0 then
        (case Option.bind D f_write of
           None \<Rightarrow> Some (-2, s)
         | Some wr \<Rightarrow> do { (r, n, m) \<leftarrow> wr node offset size_arg buffer (v_med s); Some (r, s\<lparr>v_node := n, v_med := m\<rparr>) })
      else vfs_write_loop E fresh D offset size_arg buffer (n_size node) 0 s)"

section \<open>Flushing and closing\<close>

text \<open>The walk over the pages; the last error is kept.\<close>

fun flush_pages ::
  "(vfs_node \<Rightarrow> u64 \<Rightarrow> u32 \<Rightarrow> u8 list \<Rightarrow> medium \<Rightarrow> (int \<times> vfs_node \<times> medium) option) \<Rightarrow> vfs_page list \<Rightarrow> int \<Rightarrow> vfs_node \<Rightarrow> medium \<Rightarrow>
     (int \<times> vfs_page list \<times> vfs_node \<times> medium) option" where
  "flush_pages wr [] err node m = Some (err, [], node, m)"
| "flush_pages wr (p # ps) err node m =
     do {
       (err1, p1, node1, m1) \<leftarrow>
         (if dirty p then
            if p_size p > 0 then do {
              (r, n, m') \<leftarrow> wr node (block_id p * ucast (block_size node)) (p_size p) (p_buffer p) m;
              Some (if r < 0 then (r, p, n, m') else (err, p\<lparr>dirty := False\<rparr>, n, m'))
            } else Some (err, p\<lparr>dirty := False\<rparr>, node, m)
          else Some (err, p, node, m));
       (err2, qs, node2, m2) \<leftarrow> flush_pages wr ps err1 node1 m1;
       Some (err2, p1 # qs, node2, m2)
     }"

definition vfs_flush :: "file_ops option \<Rightarrow> vfile \<Rightarrow> (int \<times> vfile) option" where
  "vfs_flush D s =
     (case D of
        None \<Rightarrow> Some (-2, s)
      | Some ops \<Rightarrow>
          let sync = (\<lambda>fl s. case fl (v_node s) (v_med s) of (r, m) \<Rightarrow> Some (r, s\<lparr>v_med := m\<rparr>)) in
          if block_size (v_node s) = 0 then (case f_flush ops of Some fl \<Rightarrow> sync fl s | None \<Rightarrow> Some (-2, s))
          else if v_pages s \<noteq> [] \<and> f_write ops = None then Some (-2, s)
          else do {
            (err, ps, node, m) \<leftarrow> (case f_write ops of
               Some wr \<Rightarrow> flush_pages wr (v_pages s) 0 (v_node s) (v_med s)
             | None \<Rightarrow> Some (0, v_pages s, v_node s, v_med s));
            let s1 = \<lparr>v_node = node, v_pages = ps, v_med = m\<rparr>;
            if err < 0 then Some (err, s1)
            else (case f_flush ops of Some fl \<Rightarrow> sync fl s1 | None \<Rightarrow> Some (0, s1))
          })"

definition vfs_close :: "file_ops option \<Rightarrow> vfile \<Rightarrow> vfile option" where
  "vfs_close D s =
     do {
       (r, s1) \<leftarrow> vfs_flush D s;
       m1 \<leftarrow> (case Option.bind D f_close of None \<Rightarrow> Some (v_med s1) | Some cl \<Rightarrow> do { (r, m) \<leftarrow> cl (v_node s1) (v_med s1); Some m });
       m2 \<leftarrow> free_pages_of (block_size (v_node s1)) (v_pages s1) m1;
       Some (s1\<lparr>v_pages := [], v_med := m2\<rparr>)
     }"

section \<open>Lists of pages\<close>

abbreviation page_at :: "u64 \<Rightarrow> vfs_page list \<Rightarrow> vfs_page option" where
  "page_at b ps \<equiv> find (\<lambda>p. block_id p = b) ps"

lemma page_at_mem: "page_at b ps = Some p \<Longrightarrow> p \<in> set ps \<and> block_id p = b"
  by (auto simp: find_Some_iff in_set_conv_nth)

lemma page_at_iff: "distinct (map block_id ps) \<Longrightarrow> page_at b ps = Some p \<longleftrightarrow> p \<in> set ps \<and> block_id p = b"
  by (induction ps) auto

lemma page_at_None: "page_at b ps = None \<longleftrightarrow> b \<notin> block_id ` set ps"
  by (auto simp: find_None_iff)

lemma page_at_filter: "page_at b (filter (\<lambda>p. block_id p \<notin> X) ps) = (if b \<in> X then None else page_at b ps)"
  by (induction ps) (auto simp: find_None_iff)

lemma page_at_set: "page_at b (set_page q ps) = (if b = block_id q \<and> page_at b ps \<noteq> None then Some q else page_at b ps)"
  by (induction ps) auto

lemma set_page_ids: "map block_id (set_page q ps) = map block_id ps"
  by (induction ps) auto

lemma set_page_mem: "p \<in> set (set_page q ps) \<Longrightarrow> distinct (map block_id ps) \<Longrightarrow> p = q \<or> p \<in> set ps \<and> block_id p \<noteq> block_id q"
proof (induction ps)
  case (Cons a ps)
  show ?case
  proof (cases "block_id a = block_id q")
    case True
    then have "block_id p \<noteq> block_id q" if "p \<in> set ps" using Cons.prems(2) imageI [OF that, of block_id] by auto
    then show ?thesis using True Cons.prems(1) by auto
  next
    case False
    then show ?thesis using Cons by auto
  qed
qed simp

lemma set_page_length: "length (set_page q ps) = length ps"
  by (induction ps) auto

lemma distinct_filter_ids: "distinct (map block_id ps) \<Longrightarrow> distinct (map block_id (filter P ps))"
  by (induction ps) auto

lemma grow_size_eq: "grow_size e s = s\<lparr>v_node := (v_node s)\<lparr>n_size := max (n_size (v_node s)) e\<rparr>\<rparr>"
  by (auto simp: grow_size_def max_def)

text \<open>Giving a buffer back needs one of its size to be held.\<close>

lemma pool_put_some: "0 < count_list (held m) sz \<Longrightarrow> pool_put sz m = Some (m\<lparr>held := remove1 sz (held m)\<rparr>)"
  using count_list_0_iff [of "held m" sz] by (auto simp: pool_put_def)

lemma count_list_remove1: "count_list (remove1 x ys) x = count_list ys x - 1"
  by (induction ys) auto

lemma invalidate_spec:
  assumes "distinct (map block_id ps)" "length ps \<le> count_list (held m) bs"
  shows "\<exists>h k. invalidate bs b ps m = Some (filter (\<lambda>p. block_id p \<noteq> b) ps, m\<lparr>held := h, heap_blocks := k\<rparr>) \<and>
    count_list h bs + length ps = count_list (held m) bs + length (filter (\<lambda>p. block_id p \<noteq> b) ps)"
  using assms
proof (induction ps)
  case Nil
  show ?case by (rule exI [of _ "held m"], rule exI [of _ "heap_blocks m"]) simp
next
  case (Cons p ps)
  show ?case
  proof (cases "block_id p = b")
    case True
    have "b \<notin> block_id ` set ps" using Cons.prems(1) True by simp
    then have "\<forall>x \<in> set ps. block_id x \<noteq> b" by blast
    then have "filter (\<lambda>p. block_id p \<noteq> b) ps = ps" by (simp add: filter_id_conv)
    then show ?thesis using True Cons.prems(2) pool_put_some [of m bs] by (auto simp: heap_put_def count_list_remove1)
  next
    case False
    obtain h k where "invalidate bs b ps m = Some (filter (\<lambda>p. block_id p \<noteq> b) ps, m\<lparr>held := h, heap_blocks := k\<rparr>)"
      "count_list h bs + length ps = count_list (held m) bs + length (filter (\<lambda>p. block_id p \<noteq> b) ps)" using Cons by auto
    then show ?thesis using False by auto
  qed
qed

text \<open>Blocks of a size \<open>B\<close>.\<close>

lemma block_number: "i < 2 ^ 64 \<Longrightarrow> (of_nat (i div B) :: u64) = b \<longleftrightarrow> i div B = unat b"
proof -
  assume "i < 2 ^ 64"
  then have "i div B < 2 ^ 64" by (rule le_less_trans [OF div_le_dividend])
  then have "unat (of_nat (i div B) :: u64) = i div B" by (intro unat_of_nat_id) simp
  then show ?thesis by (auto simp: word_unat_eq_iff)
qed

lemma block_inside: "0 < B \<Longrightarrow> i div B = b \<longleftrightarrow> b * B \<le> i \<and> i < b * B + B" for i b B :: nat
  by (metis add.commute div_nat_eqI dividend_less_times_div div_times_less_eq_dividend mult.commute mult_Suc)

lemma block_place:
  fixes offset :: u64 and n bs :: u32
  assumes "unat offset + unat n < 2 ^ 60" "0 < unat bs"
  defines "x \<equiv> offset + ucast n"
  shows "unat x = unat offset + unat n" "unat (x div ucast bs) = (unat offset + unat n) div unat bs"
    "unat (ucast (x mod ucast bs) :: u32) = (unat offset + unat n) mod unat bs"
proof -
  show x: "unat x = unat offset + unat n" unfolding x_def using assms(1) by (subst unat_add_nowrap) (simp_all add: unat_ucast_up)
  show "unat (x div ucast bs) = (unat offset + unat n) div unat bs" by (simp add: unat_div x unat_ucast_up)
  have "unat (x mod ucast bs) = (unat offset + unat n) mod unat bs" by (simp add: unat_mod x unat_ucast_up)
  moreover have "(unat offset + unat n) mod unat bs < unat bs" "unat bs < 2 ^ 32" using assms(2) unsigned_less [of bs, where 'a = nat] by simp_all
  then have "(unat offset + unat n) mod unat bs < 2 ^ 32" by (rule less_trans)
  ultimately show "unat (ucast (x mod ucast bs) :: u32) = (unat offset + unat n) mod unat bs" by (simp add: unsigned_ucast_eq take_bit_nat_eq_self)
qed

text \<open>The numbers of \<open>k\<close> blocks in a row.\<close>

lemma block_run:
  fixes b :: u64
  assumes "unat b + k < 2 ^ 64"
  shows "unat ` set (map (\<lambda>i. b + of_nat i) [0..<k]) = {unat b..<unat b + k}"
    "j < 2 ^ 64 \<Longrightarrow> of_nat j \<in> set (map (\<lambda>i. b + of_nat i) [0..<k]) \<longleftrightarrow> j \<in> {unat b..<unat b + k}"
proof -
  have u: "unat (b + of_nat i) = unat b + i" if "i < k" for i
    using assms that by (subst unat_add_nowrap) (simp_all add: unat_of_nat_id)
  have "unat ` set (map (\<lambda>i. b + of_nat i) [0..<k]) = (\<lambda>i. unat (b + of_nat i)) ` {0..<k}" by (simp only: set_map set_upt image_image)
  also have "\<dots> = (+) (unat b) ` {0..<k}" using u by (intro image_cong) simp_all
  finally show r: "unat ` set (map (\<lambda>i. b + of_nat i) [0..<k]) = {unat b..<unat b + k}" by (simp add: add.commute)
  assume "j < 2 ^ 64"
  then have j: "unat (of_nat j :: u64) = j" by (intro unat_of_nat_id) simp
  have "x = of_nat j" if "unat x = j" for x :: u64 using that j by (simp add: word_unat_eq_iff)
  then show "of_nat j \<in> set (map (\<lambda>i. b + of_nat i) [0..<k]) \<longleftrightarrow> j \<in> {unat b..<unat b + k}"
    unfolding r [symmetric] using imageI [of "of_nat j :: u64" _ unat] j by (metis imageE)
qed

section \<open>The view of an open file\<close>

definition look :: "vfile \<Rightarrow> u8 list \<Rightarrow> nat \<Rightarrow> u8" where
  "look s F i = (let B = unat (block_size (v_node s)) in
     case page_at (of_nat (i div B)) (v_pages s) of Some p \<Rightarrow> p_buffer p ! (i mod B) | None \<Rightarrow> F ! i)"

definition file_view :: "vfile \<Rightarrow> u8 list \<Rightarrow> u8 list" where
  "file_view s F = map (look s F) [0..<unat (n_size (v_node s))]"

text \<open>A page covers its part of the file; one that is not marked as changed agrees with the medium.\<close>

definition page_ok :: "vfs_node \<Rightarrow> u8 list \<Rightarrow> vfs_page \<Rightarrow> bool" where
  "page_ok n F p \<longleftrightarrow> (let B = unat (block_size n); a = unat (block_id p) * B in
     length (p_buffer p) = B \<and> a < unat (n_size n) \<and> unat (p_size p) = min B (unat (n_size n) - a) \<and>
     (\<not> dirty p \<longrightarrow> (\<forall>j < unat (p_size p). a + j < length F \<and> p_buffer p ! j = F ! (a + j))))"

text \<open>What the cache relies on. \<open>good n m F C\<close> says that the driver keeps the bytes \<open>F\<close>, a whole number of blocks, for the node \<open>n\<close> and has room for \<open>C\<close>.\<close>

locale block_store =
  fixes E :: outcomes and D :: file_ops
    and rd :: "vfs_node \<Rightarrow> u64 \<Rightarrow> u32 \<Rightarrow> nat \<Rightarrow> medium \<Rightarrow> (int \<times> u8 list \<times> medium) option"
    and wr :: "vfs_node \<Rightarrow> u64 \<Rightarrow> u32 \<Rightarrow> u8 list \<Rightarrow> medium \<Rightarrow> (int \<times> vfs_node \<times> medium) option"
    and fl :: "vfs_node \<Rightarrow> medium \<Rightarrow> int \<times> medium"
    and good :: "vfs_node \<Rightarrow> medium \<Rightarrow> u8 list \<Rightarrow> nat \<Rightarrow> bool"
  assumes table: "f_read D = Some rd" "f_write D = Some wr" "f_flush D = Some fl"
    and good_env: "good n m F C \<Longrightarrow> reliable E \<and> 0 < unat (block_size n) \<and> unat (block_size n) < 2 ^ 31 \<and> unat (block_size n) dvd length F \<and>
      length F \<le> C \<and> C < 2 ^ 60 \<and> n_flags n AND VFS_DIRECTORY = 0"
    and good_frame: "good n m F C \<Longrightarrow> good (n\<lparr>n_size := z\<rparr>) (m\<lparr>ticks := t, held := h, heap_blocks := k\<rparr>) F C"
    and good_read: "good n m F C \<Longrightarrow> 0 < unat sz \<Longrightarrow> unat sz < 2 ^ 31 \<Longrightarrow> unat sz \<le> space \<Longrightarrow> unat off + unat sz \<le> unat (n_size n) \<Longrightarrow>
      unat off + unat sz \<le> length F \<Longrightarrow> \<exists>t. rd n off sz space m = Some (int (unat sz), take (unat sz) (drop (unat off) F), m\<lparr>ticks := t\<rparr>)"
    and good_write: "good n m F C \<Longrightarrow> 0 < unat sz \<Longrightarrow> unat sz < 2 ^ 31 \<Longrightarrow> unat sz \<le> length buf \<Longrightarrow> unat off + unat sz \<le> C \<Longrightarrow>
      \<exists>F' t d. wr n off sz buf m = Some (int (unat sz), n\<lparr>n_size := max (n_size n) (off + ucast sz)\<rparr>, m\<lparr>ticks := t, sectors := d\<rparr>) \<and>
        good n (m\<lparr>ticks := t, sectors := d\<rparr>) F' C \<and> stored F (unat off) (unat off) (unat off + unat sz) buf F'"
    and good_sync: "good n m F C \<Longrightarrow> \<exists>t. fl n m = (0, m\<lparr>ticks := t\<rparr>)"
begin

definition cinv :: "vfile \<Rightarrow> u8 list \<Rightarrow> nat \<Rightarrow> bool" where
  "cinv s F C \<longleftrightarrow> good (v_node s) (v_med s) F C \<and> unat (n_size (v_node s)) \<le> C \<and> distinct (map block_id (v_pages s)) \<and>
     (\<forall>p \<in> set (v_pages s). page_ok (v_node s) F p) \<and>
     (\<forall>i < unat (n_size (v_node s)). page_at (of_nat (i div unat (block_size (v_node s)))) (v_pages s) = None \<longrightarrow> i < length F) \<and>
     length (v_pages s) \<le> count_list (held (v_med s)) (block_size (v_node s))"

lemma cinvD:
  assumes "cinv s F C"
  shows "good (v_node s) (v_med s) F C" "unat (n_size (v_node s)) \<le> C" "distinct (map block_id (v_pages s))"
    "\<And>p. p \<in> set (v_pages s) \<Longrightarrow> page_ok (v_node s) F p"
    "\<And>i. i < unat (n_size (v_node s)) \<Longrightarrow> page_at (of_nat (i div unat (block_size (v_node s)))) (v_pages s) = None \<Longrightarrow> i < length F"
    "length (v_pages s) \<le> count_list (held (v_med s)) (block_size (v_node s))"
    "reliable E" "0 < unat (block_size (v_node s))" "unat (block_size (v_node s)) < 2 ^ 31" "unat (block_size (v_node s)) dvd length F"
    "length F \<le> C" "C < 2 ^ 60"
  using assms good_env [of "v_node s" "v_med s" F C] by (auto simp: cinv_def)

lemma good_med: "good n m F C \<Longrightarrow> good n (m\<lparr>ticks := t, held := h, heap_blocks := k\<rparr>) F C"
  using good_frame [where n = n and z = "n_size n"] by simp

lemma look_none: "page_at (of_nat (i div unat (block_size (v_node s)))) (v_pages s) = None \<Longrightarrow> look s F i = F ! i"
  by (simp add: look_def Let_def)

lemma look_page: "page_at (of_nat (i div unat (block_size (v_node s)))) (v_pages s) = Some p \<Longrightarrow> look s F i = p_buffer p ! (i mod unat (block_size (v_node s)))"
  by (simp add: look_def Let_def)

text \<open>Adding a page that holds what the medium holds.\<close>

lemma add_clean:
  assumes inv: "cinv s F C" and p: "page_ok (v_node s) F p" "\<not> dirty p" "page_at (block_id p) (v_pages s) = None"
    and m: "good (v_node s) m F C" "held m = block_size (v_node s) # held (v_med s)"
  defines "s1 \<equiv> s\<lparr>v_pages := p # v_pages s, v_med := m\<rparr>"
  shows "cinv s1 F C" "i < unat (n_size (v_node s)) \<Longrightarrow> look s1 F i = look s F i"
proof -
  let ?B = "unat (block_size (v_node s))"
  note c = cinvD [OF inv]
  show "cinv s1 F C" unfolding cinv_def s1_def using c(2-6) p m page_at_None [of "block_id p" "v_pages s"] by auto
  assume i: "i < unat (n_size (v_node s))"
  have i64: "i < 2 ^ 64" using i c(2,12) by simp
  show "look s1 F i = look s F i"
  proof (cases "of_nat (i div ?B) = block_id p")
    case True
    then have "i div ?B = unat (block_id p)" using block_number [OF i64] by simp
    then have j: "unat (block_id p) * ?B + i mod ?B = i" by (metis div_mult_mod_eq)
    have "i mod ?B < unat (p_size p)" using p(1) i j c(8) mod_less_divisor [of ?B i] by (auto simp: page_ok_def Let_def)
    then have "p_buffer p ! (i mod ?B) = F ! i" using p(1,2) j by (auto simp: page_ok_def Let_def)
    then show ?thesis using look_none [of i s F] look_page [of i s1 p F] True p(3) by (simp add: s1_def)
  next
    case False
    then show ?thesis by (auto simp: look_def s1_def Let_def)
  qed
qed

lemma get_page:
  assumes inv: "cinv s F C" and b: "unat b * unat (block_size (v_node s)) < unat (n_size (v_node s))"
  shows "\<exists>p s1. vfs_get_or_create_page E fresh (Some D) b True s = Some (Some p, s1) \<and> page_at b (v_pages s1) = Some p \<and> cinv s1 F C \<and>
    v_node s1 = v_node s \<and> (\<forall>i < unat (n_size (v_node s)). look s1 F i = look s F i)"
proof (cases "page_at b (v_pages s)")
  case (Some p)
  then show ?thesis using cinvD(8) [OF inv] inv by (auto simp: vfs_get_or_create_page_def Let_def)
next
  case None
  let ?n = "v_node s" and ?bs = "block_size (v_node s)" and ?m = "v_med s"
  define a where "a = unat b * unat ?bs"
  define k where "k = min (unat ?bs) (unat (n_size ?n) - a)"
  define m1 where "m1 = (tick ?m)\<lparr>heap_blocks := Suc (heap_blocks ?m)\<rparr>"
  define m2 where "m2 = (tick m1)\<lparr>held := ?bs # held m1\<rparr>"
  define off where "off = b * ucast ?bs"
  define sz where "sz = (if off + ucast ?bs > n_size ?n then if n_size ?n > off then ucast (n_size ?n - off) else 0 else ?bs)"
  note c = cinvD [OF inv]
  have small: "a < unat (n_size ?n)" "unat (n_size ?n) < 2 ^ 60" "unat ?bs < 2 ^ 31" using b c(2,9,12) by (simp_all add: a_def)
  have off: "unat off = a" unfolding off_def a_def using small by (subst unat_mult_nowrap) (simp_all add: unat_ucast_up a_def)
  have e: "unat (off + ucast ?bs) = a + unat ?bs" using small off by (subst unat_add_nowrap) (simp_all add: unat_ucast_up)
  have sz: "unat sz = k"
  proof (cases "off + ucast ?bs > n_size ?n")
    case True
    then have "n_size ?n > off" "unat (n_size ?n - off) = unat (n_size ?n) - a" "unat (n_size ?n) - a < unat ?bs"
      using e off small by (simp_all add: word_less_nat_alt unat_sub word_le_nat_alt)
    then show ?thesis using True small by (simp add: sz_def k_def unsigned_ucast_eq take_bit_nat_eq_self)
  next
    case False
    then show ?thesis using e by (simp add: sz_def k_def word_less_nat_alt)
  qed
  have k: "0 < k" "k \<le> unat ?bs" "a + k \<le> unat (n_size ?n)" using small c(8) by (simp_all add: k_def)
  have g2: "good ?n m2 F C"
  proof -
    have "m2 = ?m\<lparr>ticks := Suc (Suc (ticks ?m)), held := ?bs # held ?m, heap_blocks := Suc (heap_blocks ?m)\<rparr>" by (rule medium.equality) (simp_all add: m2_def m1_def)
    then show ?thesis using good_med [OF c(1)] by simp
  qed
  have inF: "i < length F" if "a \<le> i" "i < a + k" for i
  proof (rule c(5))
    show "i < unat (n_size ?n)" using that k(3) by simp
    then have "i < 2 ^ 64" using small(2) by simp
    moreover have "i div unat ?bs = unat b" using that k(2) c(8) by (simp add: block_inside a_def)
    ultimately have "(of_nat (i div unat ?bs) :: u64) = b" using block_number by blast
    then show "page_at (of_nat (i div unat ?bs)) (v_pages s) = None" using None by simp
  qed
  have "a + k - 1 < length F" by (rule inF) (use k(1) in simp_all)
  then have "a + k \<le> length F" using k(1) by simp
  obtain t where r: "rd ?n off sz (unat ?bs) m2 = Some (int (unat sz), take k (drop a F), m2\<lparr>ticks := t\<rparr>)"
    using good_read [OF g2, of sz "unat ?bs" off] k sz off small \<open>a + k \<le> length F\<close> by auto
  define buf where "buf = map (fresh (ticks m1)) [0..<unat ?bs]"
  define p where "p = \<lparr>block_id = b, p_buffer = take k (drop a F) @ drop k buf, p_size = sz, dirty = False\<rparr>"
  have x: "length (take k (drop a F)) = k" using \<open>a + k \<le> length F\<close> by simp
  then have cp: "memcpy_at buf 0 (take k (drop a F)) (length (take k (drop a F))) = Some (p_buffer p)"
    using k(2) by (subst memcpy_at_eq) (simp_all add: buf_def p_def)
  have got: "heap_get E ?m = (True, m1)" "pool_get E ?bs m1 = (True, m2)" using c(7) by (simp_all add: heap_get_def pool_get_def reliable_def m1_def m2_def)
  have "sz > 0" "length buf = unat ?bs" "?bs \<noteq> 0" using sz k(1) c(8) by (auto simp: word_less_nat_alt buf_def)
  then have res: "vfs_get_or_create_page E fresh (Some D) b True s = Some (Some p, s\<lparr>v_pages := p # v_pages s, v_med := m2\<lparr>ticks := t\<rparr>\<rparr>)"
    unfolding vfs_get_or_create_page_def Let_def off_def [symmetric] sz_def [symmetric] None got using r cp table(1)
    by (simp add: got buf_def [symmetric] p_def)
  have "page_ok ?n F p" using k sz x small(1) inF by (simp add: page_ok_def Let_def p_def a_def [symmetric] k_def [symmetric] buf_def nth_append)
  moreover have "good ?n (m2\<lparr>ticks := t\<rparr>) F C"
  proof -
    have "m2\<lparr>ticks := t\<rparr> = m2\<lparr>ticks := t, held := held m2, heap_blocks := heap_blocks m2\<rparr>" by simp
    then show ?thesis using good_med [OF g2] by metis
  qed
  moreover have "\<not> dirty p" "page_at (block_id p) (v_pages s) = None" "held (m2\<lparr>ticks := t\<rparr>) = ?bs # held ?m" using None by (simp_all add: p_def m2_def m1_def)
  ultimately have "cinv (s\<lparr>v_pages := p # v_pages s, v_med := m2\<lparr>ticks := t\<rparr>\<rparr>) F C"
    "\<forall>i < unat (n_size ?n). look (s\<lparr>v_pages := p # v_pages s, v_med := m2\<lparr>ticks := t\<rparr>\<rparr>) F i = look s F i"
    using add_clean [OF inv] by blast+
  moreover have "page_at b (p # v_pages s) = Some p" by (simp add: p_def)
  ultimately show ?thesis using res by (intro exI [of _ p] exI [of _ "s\<lparr>v_pages := p # v_pages s, v_med := m2\<lparr>ticks := t\<rparr>\<rparr>"]) simp
qed

text \<open>Writing a page of a whole block back and dropping it leaves the view.\<close>

lemma invalidate_page:
  assumes "distinct (map block_id (v_pages s))" "length (v_pages s) \<le> count_list (held (v_med s)) (block_size (v_node s))"
  shows "\<exists>h k. vfs_invalidate_cache_page b s = Some (s\<lparr>v_pages := filter (\<lambda>p. block_id p \<noteq> b) (v_pages s), v_med := (v_med s)\<lparr>held := h, heap_blocks := k\<rparr>\<rparr>) \<and>
    length (filter (\<lambda>p. block_id p \<noteq> b) (v_pages s)) \<le> count_list h (block_size (v_node s))"
proof -
  obtain h k where "invalidate (block_size (v_node s)) b (v_pages s) (v_med s) = Some (filter (\<lambda>p. block_id p \<noteq> b) (v_pages s), (v_med s)\<lparr>held := h, heap_blocks := k\<rparr>)"
    "count_list h (block_size (v_node s)) + length (v_pages s) = count_list (held (v_med s)) (block_size (v_node s)) + length (filter (\<lambda>p. block_id p \<noteq> b) (v_pages s))"
    using invalidate_spec [OF assms] by blast
  then show ?thesis using assms(2) by (auto simp: vfs_invalidate_cache_page_def)
qed

lemma write_back_spec:
  assumes inv: "cinv s F C" and full: "unat b * unat (block_size (v_node s)) + unat (block_size (v_node s)) \<le> unat (n_size (v_node s))"
  defines "B \<equiv> unat (block_size (v_node s))"
  shows "\<exists>s1 F'. write_back (Some D) b s = Some s1 \<and> v_node s1 = v_node s \<and> v_pages s1 = v_pages s \<and> good (v_node s) (v_med s1) F' C \<and>
    held (v_med s1) = held (v_med s) \<and> length F \<le> length F' \<and> (\<forall>i < length F. i div B \<noteq> unat b \<longrightarrow> F' ! i = F ! i) \<and>
    (\<forall>i < unat (n_size (v_node s)). i div B = unat b \<longrightarrow> i < length F' \<and> F' ! i = look s F i)"
proof -
  note c = cinvD [OF inv, folded B_def]
  let ?n = "v_node s" and ?a = "unat b * B"
  have num: "of_nat (i div B) = b" if "i < unat (n_size ?n)" "i div B = unat b" for i
    using that block_number [of i B b] c(2,12) by simp
  show ?thesis
  proof (cases "page_at b (v_pages s)")
    case None
    have "i < length F \<and> F ! i = look s F i" if "i < unat (n_size ?n)" "i div B = unat b" for i
      using c(5) [OF that(1)] look_none [of i s F, folded B_def] num [OF that] None by simp
    then show ?thesis using None c(1) by (auto simp: write_back_def)
  next
    case (Some p)
    have p: "p \<in> set (v_pages s)" "block_id p = b" using page_at_mem [OF Some] by auto
    have ok: "length (p_buffer p) = B" "unat (p_size p) = B" "\<not> dirty p \<Longrightarrow> j < B \<Longrightarrow> ?a + j < length F \<and> p_buffer p ! j = F ! (?a + j)" for j
      using c(4) [OF p(1)] full p(2) by (auto simp: page_ok_def Let_def B_def)
    have lk: "look s F i = p_buffer p ! (i - ?a)" "?a \<le> i" "i - ?a < B" if "i < unat (n_size ?n)" "i div B = unat b" for i
    proof -
      show r: "?a \<le> i" "i - ?a < B" using that(2) c(8) block_inside [of B i "unat b"] by auto
      have "i mod B = i - ?a" using that(2) by (metis minus_div_mult_eq_mod)
      then show "look s F i = p_buffer p ! (i - ?a)" using look_page [of i s p F, folded B_def] num [OF that] Some by simp
    qed
    show ?thesis
    proof (cases "dirty p")
      case False
      then have "i < length F \<and> F ! i = look s F i" if "i < unat (n_size ?n)" "i div B = unat b" for i
        using ok(3) [OF False lk(3) [OF that]] lk [OF that] by simp
      then show ?thesis using Some False c(1) by (auto simp: write_back_def)
    next
      case True
      let ?off = "b * ucast (block_size ?n)"
      have off: "unat ?off = ?a" using full c(2,12) by (subst unat_mult_nowrap) (simp_all add: unat_ucast_up B_def)
      obtain F' t d where w: "wr ?n ?off (block_size ?n) (p_buffer p) (v_med s) =
          Some (int B, ?n\<lparr>n_size := max (n_size ?n) (?off + ucast (block_size ?n))\<rparr>, (v_med s)\<lparr>ticks := t, sectors := d\<rparr>)"
        "good ?n ((v_med s)\<lparr>ticks := t, sectors := d\<rparr>) F' C" "stored F ?a ?a (?a + B) (p_buffer p) F'"
        using good_write [OF c(1), of "block_size ?n" "p_buffer p" ?off] c(2,8,9) full ok(1) off by (auto simp: B_def)
      have "unat (?off + ucast (block_size ?n)) = ?a + B" using off full c(2,12) by (subst unat_add_nowrap) (simp_all add: unat_ucast_up B_def)
      then have "?off + ucast (block_size ?n) \<le> n_size ?n" using full by (simp add: word_le_nat_alt B_def)
      then have n: "?n\<lparr>n_size := max (n_size ?n) (?off + ucast (block_size ?n))\<rparr> = ?n" by (simp add: max_absorb1)
      have "write_back (Some D) b s = Some (s\<lparr>v_med := (v_med s)\<lparr>ticks := t, sectors := d\<rparr>\<rparr>)"
        using Some True w(1) table(2) unfolding write_back_def n by (simp add: Let_def)
      moreover have "i < length F' \<and> F' ! i = look s F i" if "i < unat (n_size ?n)" "i div B = unat b" for i
        using w(3) lk [OF that] by (auto simp: stored_def)
      moreover have "F' ! i = F ! i" if "i < length F" "i div B \<noteq> unat b" for i
        using w(3) that block_inside [of B i "unat b"] c(8) by (auto simp: stored_def)
      moreover have "length F \<le> length F'" using w(3) by (simp add: stored_def)
      ultimately show ?thesis using w(2) by auto
    qed
  qed
qed

lemma evict_spec:
  assumes "cinv s F C" "\<forall>b \<in> set bids. unat b * unat (block_size (v_node s)) + unat (block_size (v_node s)) \<le> unat (n_size (v_node s))"
  shows "\<exists>s1 F'. evict_blocks (Some D) bids s = Some s1 \<and> cinv s1 F' C \<and> v_node s1 = v_node s \<and>
    v_pages s1 = filter (\<lambda>p. block_id p \<notin> set bids) (v_pages s) \<and> (\<forall>i < unat (n_size (v_node s)). look s1 F' i = look s F i)"
  using assms
proof (induction bids arbitrary: s F)
  case Nil
  then show ?case by auto
next
  case (Cons b bids)
  let ?n = "v_node s" and ?B = "unat (block_size (v_node s))"
  note c = cinvD [OF Cons.prems(1)]
  obtain s1 F1 where w: "write_back (Some D) b s = Some s1" "v_node s1 = ?n" "v_pages s1 = v_pages s" "good ?n (v_med s1) F1 C"
    "held (v_med s1) = held (v_med s)" "length F \<le> length F1" "\<forall>i < length F. i div ?B \<noteq> unat b \<longrightarrow> F1 ! i = F ! i"
    "\<forall>i < unat (n_size ?n). i div ?B = unat b \<longrightarrow> i < length F1 \<and> F1 ! i = look s F i"
    using write_back_spec [OF Cons.prems(1), of b] Cons.prems(2) by auto
  let ?ps = "filter (\<lambda>p. block_id p \<noteq> b) (v_pages s)"
  obtain h k where v: "vfs_invalidate_cache_page b s1 = Some (s1\<lparr>v_pages := ?ps, v_med := (v_med s1)\<lparr>held := h, heap_blocks := k\<rparr>\<rparr>)"
    "length ?ps \<le> count_list h (block_size ?n)"
    using invalidate_page [of s1 b] c(3,6) w(2,3,5) by auto
  let ?s = "s1\<lparr>v_pages := ?ps, v_med := (v_med s1)\<lparr>held := h, heap_blocks := k\<rparr>\<rparr>"
  have num: "of_nat (i div ?B) = b \<longleftrightarrow> i div ?B = unat b" if "i < unat (n_size ?n)" for i
    using that block_number [of i ?B b] c(2,12) by simp
  have at: "page_at x ?ps = (if x = b then None else page_at x (v_pages s))" for x using page_at_filter [of x "{b}" "v_pages s"] by simp
  have g: "good ?n ((v_med s1)\<lparr>held := h, heap_blocks := k\<rparr>) F1 C"
    using good_med [OF w(4), where t = "ticks (v_med s1)"] by simp
  have ok: "page_ok ?n F1 q" if q: "q \<in> set ?ps" for q
  proof -
    have qb: "block_id q \<noteq> b" "page_ok ?n F q" using q c(4) by auto
    have "F1 ! (unat (block_id q) * ?B + j) = F ! (unat (block_id q) * ?B + j)" if "unat (block_id q) * ?B + j < length F" "j < ?B" for j
      using w(7) that qb(1) c(8) by (simp add: word_unat_eq_iff)
    moreover have "unat (p_size q) \<le> ?B" using qb(2) by (simp add: page_ok_def Let_def)
    ultimately show ?thesis using qb(2) w(6) by (fastforce simp: page_ok_def Let_def)
  qed
  have i5: "i < length F1" if "i < unat (n_size ?n)" "page_at (of_nat (i div ?B)) ?ps = None" for i
  proof (cases "i div ?B = unat b")
    case True
    then show ?thesis using w(8) that(1) by blast
  next
    case False
    then have "page_at (of_nat (i div ?B)) (v_pages s) = None" using that at num [OF that(1)] by simp
    then show ?thesis using c(5) [OF that(1)] w(6) by simp
  qed
  have "distinct (map block_id ?ps)" by (rule distinct_filter_ids [OF c(3)])
  then have inv: "cinv ?s F1 C" using g c(2) ok i5 v(2) w(2) unfolding cinv_def by simp
  have lk: "look ?s F1 i = look s F i" if "i < unat (n_size ?n)" for i
  proof (cases "i div ?B = unat b")
    case True
    then show ?thesis using w(2,8) that at num [OF that] by (simp add: look_def Let_def)
  next
    case False
    then have "look ?s F1 i = (case page_at (of_nat (i div ?B)) (v_pages s) of Some p \<Rightarrow> p_buffer p ! (i mod ?B) | None \<Rightarrow> F1 ! i)"
      using w(2) at num [OF that] by (simp add: look_def Let_def)
    moreover have "F1 ! i = F ! i" if "page_at (of_nat (i div ?B)) (v_pages s) = None" using w(7) False c(5) [OF \<open>i < _\<close> that] by simp
    ultimately show ?thesis by (auto simp: look_def Let_def split: option.splits)
  qed
  have "\<forall>b \<in> set bids. unat b * unat (block_size (v_node ?s)) + unat (block_size (v_node ?s)) \<le> unat (n_size (v_node ?s))" using Cons.prems(2) w(2) by simp
  from Cons.IH [OF inv this] obtain s2 F2 where r: "evict_blocks (Some D) bids ?s = Some s2" "cinv s2 F2 C" "v_node s2 = ?n"
    "v_pages s2 = filter (\<lambda>p. block_id p \<notin> set bids) ?ps" "\<forall>i < unat (n_size ?n). look s2 F2 i = look ?s F1 i"
    using w(2) by auto
  have "v_pages s2 = filter (\<lambda>p. block_id p \<notin> set (b # bids)) (v_pages s)" unfolding r(4) filter_filter by (rule filter_cong) auto
  moreover have "evict_blocks (Some D) (b # bids) s = Some s2" using w(1) v(1) r(1) by simp
  ultimately show ?case using r(2,3,5) lk by auto
qed

lemma read_page_turn:
  assumes inv: "cinv s F C" and sz: "unat offset + unat sz \<le> unat (n_size (v_node s))" "ntotal < sz" "unat sz \<le> length dest"
  defines "B \<equiv> unat (block_size (v_node s))" and "P \<equiv> unat offset + unat ntotal"
  assumes nd: "P mod B \<noteq> 0 \<or> unat sz - unat ntotal < B"
  shows "\<exists>n s1. 0 < unat n \<and> unat ntotal + unat n \<le> unat sz \<and> cinv s1 F C \<and> v_node s1 = v_node s \<and> (\<forall>i < unat (n_size (v_node s)). look s1 F i = look s F i) \<and>
    vfs_read_loop E fresh (Some D) offset sz dest ntotal s =
      vfs_read_loop E fresh (Some D) offset sz (take (unat ntotal) dest @ map (look s F) [P..<P + unat n] @ drop (unat ntotal + unat n) dest) (ntotal + n) s1"
proof -
  note c = cinvD [OF inv, folded B_def]
  let ?n = "v_node s" and ?bs = "block_size (v_node s)" and ?x = "offset + ucast ntotal :: u64"
  have tl: "unat ntotal < unat sz" using sz(2) by (simp add: word_less_nat_alt)
  have lim: "P < 2 ^ 60" using c(2,12) sz(1) tl by (simp add: P_def)
  note pl = block_place [of offset ntotal ?bs, folded P_def B_def, OF lim c(8)]
  define b where "b = ?x div ucast ?bs"
  define ins where "ins = (ucast (?x mod ucast ?bs) :: u32)"
  have bu: "unat b = P div B" "unat ins = P mod B" using pl by (simp_all add: b_def ins_def)
  have dm: "P div B * B + P mod B = P" by simp
  have Pn: "P < unat (n_size ?n)" using sz(1) tl by (simp add: P_def)
  then have "unat b * B < unat (n_size ?n)" unfolding bu(1) using dm by linarith
  then obtain p s1 where p: "vfs_get_or_create_page E fresh (Some D) b True s = Some (Some p, s1)" "page_at b (v_pages s1) = Some p" "cinv s1 F C"
    "v_node s1 = ?n" "\<forall>i < unat (n_size ?n). look s1 F i = look s F i" using get_page [OF inv, of b fresh] by (auto simp: B_def)
  have ok: "length (p_buffer p) = B" "unat (p_size p) = min B (unat (n_size ?n) - unat b * B)"
    using cinvD(4) [OF p(3)] page_at_mem [OF p(2)] p(4) by (auto simp: page_ok_def Let_def B_def)
  have Pm: "P mod B < B" using c(8) by simp
  have ins: "ins < p_size p" unfolding word_less_nat_alt ok(2) bu using Pn dm Pm by linarith
  have st: "unat (sz - ntotal) = unat sz - unat ntotal" "unat (p_size p - ins) = unat (p_size p) - unat ins"
    using tl ins by (simp_all add: unat_sub word_le_nat_alt word_less_nat_alt)
  define n where "n = (if sz - ntotal < p_size p - ins then sz - ntotal else p_size p - ins)"
  have n: "unat n = min (unat sz - unat ntotal) (unat (p_size p) - P mod B)" using st bu(2) by (auto simp: n_def word_less_nat_alt)
  have n0: "0 < unat n" "unat ntotal + unat n \<le> unat sz" "P mod B + unat n \<le> B" "n \<noteq> 0"
  proof -
    have i: "P mod B < unat (p_size p)" "unat (p_size p) \<le> B" using ins bu(2) ok(2) by (simp_all add: word_less_nat_alt)
    show "0 < unat n" "unat ntotal + unat n \<le> unat sz" "P mod B + unat n \<le> B" unfolding n using i tl by linarith+
    then show "n \<noteq> 0" by auto
  qed
  have cp: "memcpy_at dest (unat ntotal) (drop (unat ins) (p_buffer p)) (unat n) =
      Some (take (unat ntotal) dest @ take (unat n) (drop (P mod B) (p_buffer p)) @ drop (unat ntotal + unat n) dest)"
    using n0 sz(3) ok(1) bu(2) by (subst memcpy_at_eq) simp_all
  have lk: "take (unat n) (drop (P mod B) (p_buffer p)) = map (look s F) [P..<P + unat n]"
  proof (rule nth_equalityI)
    show "length (take (unat n) (drop (P mod B) (p_buffer p))) = length (map (look s F) [P..<P + unat n])" using n0(3) ok(1) by simp
  next
    fix j assume "j < length (take (unat n) (drop (P mod B) (p_buffer p)))"
    then have j: "j < unat n" by simp
    then have i: "P + j < unat (n_size ?n)" using n0(2) sz(1) by (simp add: P_def)
    have d: "(P + j) div B = P div B" "(P + j) mod B = P mod B + j"
    proof -
      have "P + j = P div B * B + (P mod B + j)" using dm by simp
      moreover have "P mod B + j < B" using j n0(3) by simp
      ultimately show "(P + j) div B = P div B" "(P + j) mod B = P mod B + j" by (metis div_mult_self3 div_less add_0_right c(8) less_irrefl, metis mod_mult_self3 mod_less)
    qed
    have "of_nat ((P + j) div B) = b" using block_number [of "P + j" B b] d(1) bu(1) i c(2,12) by simp
    then have "look s1 F (P + j) = p_buffer p ! (P mod B + j)" using look_page [of "P + j" s1 p F] p(2,4) d(2) by (simp add: B_def)
    then show "take (unat n) (drop (P mod B) (p_buffer p)) ! j = map (look s F) [P..<P + unat n] ! j"
      using p(5) i j n0(3) ok(1) by simp
  qed
  have dir: "(if ins = 0 \<and> ?bs \<le> sz - ntotal then Option.bind (Some D) f_read else None) = None" using nd st(1) bu(2) by (auto simp: word_le_nat_alt B_def)
  have "vfs_read_loop E fresh (Some D) offset sz dest ntotal s =
      vfs_read_loop E fresh (Some D) offset sz (take (unat ntotal) dest @ map (look s F) [P..<P + unat n] @ drop (unat ntotal + unat n) dest) (ntotal + n) s1"
    using sz(2) p(1) less_le_not_le [THEN iffD1, OF ins] n0(4) cp lk
    by (subst vfs_read_loop.simps, unfold Let_def, fold b_def ins_def, unfold dir) (simp add: n_def [symmetric] split del: if_split)
  then show ?thesis using n0(1,2) p(3-5) by blast
qed

text \<open>The blocks of a transfer of whole blocks.\<close>

lemma direct_blocks:
  fixes offset :: u64 and sz ntotal bs :: u32
  defines "B \<equiv> unat bs" and "P \<equiv> unat offset + unat ntotal"
  defines "k \<equiv> unat ((sz - ntotal) div bs)" and "b \<equiv> (offset + ucast ntotal) div ucast bs"
  assumes B: "0 < B" and al: "P mod B = 0" "B \<le> unat sz - unat ntotal" and t: "unat ntotal < unat sz" "unat sz < 2 ^ 31" and lim: "unat offset + unat sz < 2 ^ 60"
  shows "unat ((sz - ntotal) div bs * bs) = k * B" "0 < k" "unat ntotal + k * B \<le> unat sz" "unat (offset + ucast ntotal) = P" "unat b = P div B"
    "\<And>i. i < 2 ^ 60 \<Longrightarrow> of_nat (i div B) \<in> set (map (\<lambda>i. b + of_nat i) [0..<k]) \<longleftrightarrow> P \<le> i \<and> i < P + k * B"
    "\<And>x. x \<in> set (map (\<lambda>i. b + of_nat i) [0..<k]) \<Longrightarrow> P \<le> unat x * B \<and> unat x * B + B \<le> P + k * B"
proof -
  have st: "unat (sz - ntotal) = unat sz - unat ntotal" using t(1) by (simp add: unat_sub word_le_nat_alt)
  have k: "k = (unat sz - unat ntotal) div B" by (simp add: k_def unat_div st B_def)
  then have kB: "k * B \<le> unat sz - unat ntotal" by simp
  show "0 < k" using k al(2) B by (simp add: div_greater_zero_iff)
  show "unat ntotal + k * B \<le> unat sz" using kB t(1) by linarith
  show "unat ((sz - ntotal) div bs * bs) = k * B" using kB t(2) by (subst unat_mult_nowrap) (simp_all add: k_def B_def)
  note pl = block_place [of offset ntotal bs, folded P_def B_def b_def]
  show "unat (offset + ucast ntotal) = P" and bu: "unat b = P div B" using pl lim t(1) B by (simp_all add: P_def)
  have PB: "P div B * B = P" using al(1) by auto
  have kB2: "k * B < 2 ^ 31" using kB t(2) by linarith
  have "k \<le> k * B" using B by simp
  moreover have "P div B \<le> P" by simp
  moreover have "P < 2 ^ 60" unfolding P_def using lim t(1) by linarith
  ultimately have "k < 2 ^ 31" "P div B < 2 ^ 60" using kB2 by (blast intro: le_less_trans)+
  then have lb: "unat b + k < 2 ^ 64" unfolding bu by simp
  show "of_nat (i div B) \<in> set (map (\<lambda>i. b + of_nat i) [0..<k]) \<longleftrightarrow> P \<le> i \<and> i < P + k * B" if "i < 2 ^ 60" for i
  proof -
    have "i div B < 2 ^ 64" by (rule le_less_trans [OF div_le_dividend]) (use that in simp)
    then have "of_nat (i div B) \<in> set (map (\<lambda>i. b + of_nat i) [0..<k]) \<longleftrightarrow> P div B \<le> i div B \<and> i div B < P div B + k"
      using block_run(2) [OF lb, of "i div B"] unfolding bu by simp
    moreover have "P div B \<le> i div B \<longleftrightarrow> P div B * B \<le> i" using B by (simp add: less_eq_div_iff_mult_less_eq)
    moreover have "i div B < P div B + k \<longleftrightarrow> i < (P div B + k) * B" using B by (simp add: div_less_iff_less_mult)
    ultimately show ?thesis unfolding add_mult_distrib PB by blast
  qed
  show "P \<le> unat x * B \<and> unat x * B + B \<le> P + k * B" if "x \<in> set (map (\<lambda>i. b + of_nat i) [0..<k])" for x
  proof -
    have "unat x \<in> {unat b..<unat b + k}" using imageI [OF that, of unat] block_run(1) [OF lb] by simp
    then have "P div B \<le> unat x" "Suc (unat x) \<le> P div B + k" using bu by auto
    then have "P div B * B \<le> unat x * B" "Suc (unat x) * B \<le> (P div B + k) * B" by (simp_all only: mult_le_mono1)
    from this [unfolded add_mult_distrib PB mult_Suc] show ?thesis by linarith
  qed
qed

lemma read_direct_turn:
  assumes inv: "cinv s F C" and sz: "unat offset + unat sz \<le> unat (n_size (v_node s))" "ntotal < sz" "unat sz \<le> length dest" "unat sz < 2 ^ 31"
  defines "B \<equiv> unat (block_size (v_node s))" and "P \<equiv> unat offset + unat ntotal"
  assumes al: "P mod B = 0" "B \<le> unat sz - unat ntotal"
  shows "\<exists>n s1 F'. 0 < unat n \<and> unat ntotal + unat n \<le> unat sz \<and> cinv s1 F' C \<and> v_node s1 = v_node s \<and> (\<forall>i < unat (n_size (v_node s)). look s1 F' i = look s F i) \<and>
    vfs_read_loop E fresh (Some D) offset sz dest ntotal s =
      vfs_read_loop E fresh (Some D) offset sz (take (unat ntotal) dest @ map (look s F) [P..<P + unat n] @ drop (unat ntotal + unat n) dest) (ntotal + n) s1"
proof -
  note c = cinvD [OF inv, folded B_def]
  let ?n = "v_node s" and ?bs = "block_size (v_node s)" and ?x = "offset + ucast ntotal :: u64"
  define b where "b = ?x div ucast ?bs"
  define n where "n = (sz - ntotal) div ?bs * ?bs"
  define bids where "bids = map (\<lambda>i. b + of_nat i) [0..<unat ((sz - ntotal) div ?bs)]"
  have tl: "unat ntotal < unat sz" using sz(2) by (simp add: word_less_nat_alt)
  have lim: "unat offset + unat sz < 2 ^ 60" using c(2,12) sz(1) by linarith
  note db = direct_blocks [of ?bs offset ntotal sz, folded B_def P_def b_def n_def, folded bids_def, OF c(8) al tl sz(4) lim]
  have nB: "unat n = unat ((sz - ntotal) div ?bs) * B" by (rule db(1))
  have nn: "0 < unat n" "unat ntotal + unat n \<le> unat sz" using db(2,3) c(8) nB by simp_all
  have Pn: "P + unat n \<le> unat (n_size ?n)" using nn(2) sz(1) by (simp add: P_def)
  have "\<forall>x \<in> set bids. unat x * B + B \<le> unat (n_size ?n)" using db(7) Pn nB by fastforce
  then obtain s1 F' where ev: "evict_blocks (Some D) bids s = Some s1" "cinv s1 F' C" "v_node s1 = ?n"
    "v_pages s1 = filter (\<lambda>p. block_id p \<notin> set bids) (v_pages s)" "\<forall>i < unat (n_size ?n). look s1 F' i = look s F i"
    using evict_spec [OF inv, of bids] by (auto simp: B_def)
  note c1 = cinvD [OF ev(2), unfolded ev(3), folded B_def]
  have none: "page_at (of_nat (i div B)) (v_pages s1) = None" if "P \<le> i" "i < P + unat n" for i
  proof -
    have "i < 2 ^ 60" using that Pn c(2,12) by linarith
    then have "of_nat (i div B) \<in> set bids" using db(6) that nB by simp
    then show ?thesis unfolding ev(4) by (simp add: page_at_filter)
  qed
  have inF: "i < length F'" "F' ! i = look s F i" if "P \<le> i" "i < P + unat n" for i
    using c1(5) none [OF that] look_none [of i s1 F'] ev(3,5) that Pn by (simp_all add: B_def)
  have "P + unat n - 1 < length F'" by (rule inF) (use nn(1) in simp_all)
  then have le: "P + unat n \<le> length F'" using nn(1) by simp
  have x: "take (unat n) (drop P F') = map (look s F) [P..<P + unat n]" by (rule nth_equalityI) (use le inF(2) in simp_all)
  have "unat n \<le> length dest - unat ntotal" "unat n < 2 ^ 31" using nn(2) sz(3,4) by linarith+
  then obtain t where r: "rd ?n ?x n (length dest - unat ntotal) (v_med s1) = Some (int (unat n), take (unat n) (drop P F'), (v_med s1)\<lparr>ticks := t\<rparr>)"
    using good_read [OF c1(1), of n "length dest - unat ntotal" ?x] nn(1) Pn le db(4) by auto
  let ?d = "take (unat ntotal) dest @ map (look s F) [P..<P + unat n] @ drop (unat ntotal + unat n) dest" and ?s = "s1\<lparr>v_med := (v_med s1)\<lparr>ticks := t\<rparr>\<rparr>"
  have cp: "memcpy_at dest (unat ntotal) (map (look s F) [P..<P + unat n]) (length (map (look s F) [P..<P + unat n])) = Some ?d"
    using nn sz(3) by (subst memcpy_at_eq) simp_all
  have "cinv ?s F' C" using ev(2) good_med [OF c1(1), where t = t and h = "held (v_med s1)" and k = "heap_blocks (v_med s1)"] ev(3) by (simp add: cinv_def)
  moreover have "look ?s F' i = look s1 F' i" for i by (simp add: look_def Let_def)
  moreover have dir: "(if ucast (?x mod ucast ?bs) = (0 :: u32) \<and> ?bs \<le> sz - ntotal then Option.bind (Some D) f_read else None) = Some rd"
  proof -
    have "unat (ucast (?x mod ucast ?bs) :: u32) = 0" using block_place(3) [of offset ntotal ?bs, folded P_def B_def] al(1) lim tl c(8) by (simp add: P_def)
    moreover have "?bs \<le> sz - ntotal" using al(2) tl by (simp add: word_le_nat_alt unat_sub B_def)
    ultimately show ?thesis using table(1) by (simp add: unat_eq_0)
  qed
  moreover have "vfs_read_loop E fresh (Some D) offset sz dest ntotal s = vfs_read_loop E fresh (Some D) offset sz ?d (ntotal + n) ?s"
    using sz(2) ev(1,3) r cp x
    by (subst vfs_read_loop.simps, unfold Let_def, fold b_def, unfold dir) (simp add: bids_def [symmetric] n_def [symmetric])
  ultimately show ?thesis using nn ev(3,5) by (intro exI [of _ n] exI [of _ ?s] exI [of _ F']) simp
qed

lemma read_loop_view:
  assumes "cinv s F C" "unat offset + unat sz \<le> unat (n_size (v_node s))" "unat ntotal \<le> unat sz" "unat sz \<le> length dest" "unat sz < 2 ^ 31"
  shows "\<exists>s1 F'. vfs_read_loop E fresh (Some D) offset sz dest ntotal s =
      Some (int (unat sz), take (unat ntotal) dest @ map (look s F) [unat offset + unat ntotal..<unat offset + unat sz] @ drop (unat sz) dest, s1) \<and>
    cinv s1 F' C \<and> v_node s1 = v_node s \<and> (\<forall>i < unat (n_size (v_node s)). look s1 F' i = look s F i)"
  using assms
proof (induction "unat sz - unat ntotal" arbitrary: ntotal dest s F rule: less_induct)
  case less
  note h = less.prems
  let ?B = "unat (block_size (v_node s))" and ?P = "unat offset + unat ntotal"
  show ?case
  proof (cases "ntotal < sz")
    case False
    then have "ntotal = sz" using h(3) by (simp add: word_less_nat_alt word_unat_eq_iff)
    then show ?thesis using h(1,4) sint_small [OF h(5)] by (subst vfs_read_loop.simps) auto
  next
    case True
    have "\<exists>n s1 F'. 0 < unat n \<and> unat ntotal + unat n \<le> unat sz \<and> cinv s1 F' C \<and> v_node s1 = v_node s \<and> (\<forall>i < unat (n_size (v_node s)). look s1 F' i = look s F i) \<and>
      vfs_read_loop E fresh (Some D) offset sz dest ntotal s =
        vfs_read_loop E fresh (Some D) offset sz (take (unat ntotal) dest @ map (look s F) [?P..<?P + unat n] @ drop (unat ntotal + unat n) dest) (ntotal + n) s1"
    proof (cases "?P mod ?B = 0 \<and> ?B \<le> unat sz - unat ntotal")
      case dir: True
      show ?thesis by (rule read_direct_turn [OF h(1,2) True h(4,5)]) (use dir in simp_all)
    next
      case False
      then show ?thesis using read_page_turn [OF h(1,2) True h(4), of fresh] by fastforce
    qed
    then obtain n s1 F' where n: "0 < unat n" "unat ntotal + unat n \<le> unat sz" "cinv s1 F' C" "v_node s1 = v_node s" "\<forall>i < unat (n_size (v_node s)). look s1 F' i = look s F i"
      and r: "vfs_read_loop E fresh (Some D) offset sz dest ntotal s =
        vfs_read_loop E fresh (Some D) offset sz (take (unat ntotal) dest @ map (look s F) [?P..<?P + unat n] @ drop (unat ntotal + unat n) dest) (ntotal + n) s1"
      by blast
    let ?d = "take (unat ntotal) dest @ map (look s F) [?P..<?P + unat n] @ drop (unat ntotal + unat n) dest"
    have u: "unat (ntotal + n) = unat ntotal + unat n" using n(2) h(5) by (subst unat_add_nowrap) simp_all
    obtain s2 F2 where i: "vfs_read_loop E fresh (Some D) offset sz ?d (ntotal + n) s1 =
        Some (int (unat sz), take (unat (ntotal + n)) ?d @ map (look s1 F') [unat offset + unat (ntotal + n)..<unat offset + unat sz] @ drop (unat sz) ?d, s2)"
      "cinv s2 F2 C" "v_node s2 = v_node s1" "\<forall>i < unat (n_size (v_node s1)). look s2 F2 i = look s1 F' i"
      using less.hyps [of "ntotal + n" s1 F' ?d] n h u by fastforce
    have l: "length ?d = length dest" using n(2) h(4) by simp
    have d: "take (unat (ntotal + n)) ?d = take (unat ntotal) dest @ map (look s F) [?P..<?P + unat n]" "drop (unat sz) ?d = drop (unat sz) dest"
      using n(2) h(4) u by simp_all
    have m: "map (look s1 F') [unat offset + unat (ntotal + n)..<unat offset + unat sz] = map (look s F) [unat offset + unat (ntotal + n)..<unat offset + unat sz]"
      using n(5) h(2) by (intro map_cong) auto
    have "[?P..<unat offset + unat sz] = [?P..<?P + unat n] @ [unat offset + unat (ntotal + n)..<unat offset + unat sz]"
      using upt_add_eq_append [of ?P "?P + unat n" "unat sz - unat ntotal - unat n"] n(2) u by (simp add: add.assoc)
    then show ?thesis using i r n(4,5) d m by auto
  qed
qed

lemma file_view_length [simp]: "length (file_view s F) = unat (n_size (v_node s))"
  by (simp add: file_view_def)

lemma file_view_part:
  assumes "unat (n_size (v_node s)) = k" "b \<le> k"
  shows "take (b - a) (drop a (file_view s F)) = map (look s F) [a..<b]"
  using assms by (cases "a \<le> b") (simp_all add: file_view_def drop_map take_map)

lemma read_view:
  assumes inv: "cinv s F C" and sz: "unat sz < 2 ^ 31" "unat sz \<le> length buf" and off: "unat offset + unat sz < 2 ^ 64"
  defines "part \<equiv> take (unat sz) (drop (unat offset) (file_view s F))"
  shows "\<exists>s1 F'. vfs_read E fresh (Some D) offset sz buf s = Some (int (length part), part @ drop (length part) buf, s1) \<and>
    cinv s1 F' C \<and> v_node s1 = v_node s \<and> file_view s1 F' = file_view s F"
proof (cases "sz = 0 \<or> n_size (v_node s) \<le> offset")
  case True
  then have "part = []" by (auto simp: part_def word_le_nat_alt)
  moreover have "vfs_read E fresh (Some D) offset sz buf s = Some (0, buf, s)" using True cinvD(8) [OF inv] by (auto simp: vfs_read_def Let_def)
  ultimately show ?thesis using inv by auto
next
  case False
  let ?n = "v_node s"
  define sz' where "sz' = (if offset + ucast sz > n_size ?n then ucast (n_size ?n - offset) else sz)"
  have lt: "unat offset < unat (n_size ?n)" using False by (simp add: word_le_nat_alt)
  have o1: "unat (offset + ucast sz) = unat offset + unat sz" using off by (subst unat_add_nowrap) (simp_all add: unat_ucast_up)
  have o2: "unat (n_size ?n - offset) = unat (n_size ?n) - unat offset" using lt by (simp add: unat_sub word_le_nat_alt)
  have s': "unat sz' = min (unat sz) (unat (n_size ?n) - unat offset)"
  proof (cases "offset + ucast sz > n_size ?n")
    case True
    then have "unat (n_size ?n) - unat offset < unat sz" using o1 lt by (simp add: word_less_nat_alt)
    then show ?thesis using True sz(1) o2 by (simp add: sz'_def unsigned_ucast_eq take_bit_nat_eq_self)
  next
    case False
    then show ?thesis using o1 by (simp add: sz'_def word_less_nat_alt)
  qed
  have le: "unat offset + unat sz' \<le> unat (n_size ?n)" "unat (0 :: u32) \<le> unat sz'" "unat sz' \<le> length buf" "unat sz' < 2 ^ 31" using s' lt sz by simp_all
  have part: "part = map (look s F) [unat offset..<unat offset + unat sz']"
    using file_view_part [OF refl le(1), where a = "unat offset" and F = F] s' by (simp add: part_def min_def split: if_splits)
  obtain s1 F' where r: "vfs_read_loop E fresh (Some D) offset sz' buf 0 s = Some (int (unat sz'), part @ drop (unat sz') buf, s1)"
    "cinv s1 F' C" "v_node s1 = ?n" "\<forall>i < unat (n_size ?n). look s1 F' i = look s F i"
    using read_loop_view [OF inv le, of fresh] part by auto
  have "vfs_read E fresh (Some D) offset sz buf s = Some (int (unat sz'), part @ drop (unat sz') buf, s1)"
    using False r(1) cinvD(8) [OF inv] by (auto simp: vfs_read_def Let_def sz'_def)
  moreover have "length part = unat sz'" by (simp add: part)
  moreover have "file_view s1 F' = file_view s F" using r(3,4) by (simp add: file_view_def)
  ultimately show ?thesis using r(2,3) by auto
qed

text \<open>A page that is about to be written: it covers its part of the file as it is, which may be nothing when the file ends in front of it.\<close>

definition ready :: "vfile \<Rightarrow> u8 list \<Rightarrow> nat \<Rightarrow> u64 \<Rightarrow> vfs_page \<Rightarrow> bool" where
  "ready s F C b p \<longleftrightarrow> (let n = v_node s; B = unat (block_size n) in
     good n (v_med s) F C \<and> unat (n_size n) \<le> C \<and> distinct (map block_id (v_pages s)) \<and> page_at b (v_pages s) = Some p \<and>
     length (p_buffer p) = B \<and> unat (p_size p) = min B (unat (n_size n) - unat b * B) \<and> (\<forall>q \<in> set (v_pages s). block_id q \<noteq> b \<longrightarrow> page_ok n F q) \<and>
     (\<forall>i < unat (n_size n). page_at (of_nat (i div B)) (v_pages s) = None \<longrightarrow> i < length F) \<and> length (v_pages s) \<le> count_list (held (v_med s)) (block_size n))"

lemma cinv_ready: "cinv s F C \<Longrightarrow> page_at b (v_pages s) = Some p \<Longrightarrow> ready s F C b p"
  using page_at_mem [of b "v_pages s" p] by (auto simp: cinv_def ready_def Let_def page_ok_def)

lemma get_page_new:
  assumes inv: "cinv s F C" and b: "unat b * unat (block_size (v_node s)) = unat (n_size (v_node s))" and none: "page_at b (v_pages s) = None"
  shows "\<exists>p s1. vfs_get_or_create_page E fresh (Some D) b False s = Some (Some p, s1) \<and> ready s1 F C b p \<and>
    v_node s1 = v_node s \<and> (\<forall>i < unat (n_size (v_node s)). look s1 F i = look s F i)"
proof -
  let ?n = "v_node s" and ?bs = "block_size (v_node s)" and ?m = "v_med s"
  note c = cinvD [OF inv]
  define m1 where "m1 = (tick ?m)\<lparr>heap_blocks := Suc (heap_blocks ?m)\<rparr>"
  define m2 where "m2 = (tick m1)\<lparr>held := ?bs # held m1\<rparr>"
  define p where "p = \<lparr>block_id = b, p_buffer = map (fresh (ticks m1)) [0..<unat ?bs], p_size = 0, dirty = False\<rparr>"
  have got: "heap_get E ?m = (True, m1)" "pool_get E ?bs m1 = (True, m2)" using c(7) by (simp_all add: heap_get_def pool_get_def reliable_def m1_def m2_def)
  have "?bs \<noteq> 0" using c(8) by auto
  then have res: "vfs_get_or_create_page E fresh (Some D) b False s = Some (Some p, s\<lparr>v_pages := p # v_pages s, v_med := m2\<rparr>)"
    unfolding vfs_get_or_create_page_def Let_def none got by (simp add: got p_def)
  have "m2 = ?m\<lparr>ticks := Suc (Suc (ticks ?m)), held := ?bs # held ?m, heap_blocks := Suc (heap_blocks ?m)\<rparr>" by (rule medium.equality) (simp_all add: m2_def m1_def)
  then have g: "good ?n m2 F C" "held m2 = ?bs # held ?m" using good_med [OF c(1)] by simp_all
  have "ready (s\<lparr>v_pages := p # v_pages s, v_med := m2\<rparr>) F C b p"
    using g c(2-6) b none page_at_None [of b "v_pages s"] by (auto simp: ready_def Let_def p_def)
  moreover have "look (s\<lparr>v_pages := p # v_pages s, v_med := m2\<rparr>) F i = look s F i" if "i < unat (n_size ?n)" for i
  proof -
    have "of_nat (i div unat ?bs) \<noteq> b"
    proof
      assume "of_nat (i div unat ?bs) = b"
      then have "i div unat ?bs = unat b" using block_number [of i "unat ?bs" b] that c(2,12) by simp
      then have "unat b * unat ?bs \<le> i" using block_inside c(8) by blast
      then show False using that b by simp
    qed
    then show ?thesis by (simp add: look_def Let_def p_def)
  qed
  ultimately show ?thesis using res by auto
qed

text \<open>A page keeps what it says when the file grows to \<open>e\<close> by a write at \<open>x\<close> that does not touch its block.\<close>

lemma page_ok_grow:
  assumes ok: "page_ok n F q" and x: "x \<le> unat (n_size n)" and z: "unat z = max (unat (n_size n)) e"
  defines "B \<equiv> unat (block_size n)" and "a \<equiv> unat (block_id q) * unat (block_size n)"
  assumes apart: "a + B \<le> x \<or> e \<le> a" and F': "length F \<le> length F'" "\<And>i. i < length F \<Longrightarrow> a \<le> i \<Longrightarrow> i < a + B \<Longrightarrow> F' ! i = F ! i"
  shows "page_ok (n\<lparr>n_size := z\<rparr>) F' q"
proof -
  have q: "length (p_buffer q) = B" "a < unat (n_size n)" "unat (p_size q) = min B (unat (n_size n) - a)"
    "\<And>j. \<not> dirty q \<Longrightarrow> j < unat (p_size q) \<Longrightarrow> a + j < length F \<and> p_buffer q ! j = F ! (a + j)"
    using ok by (auto simp: page_ok_def Let_def B_def a_def)
  have "a < unat z" "unat (p_size q) = min B (unat z - a)" using q(2,3) apart x z by linarith+
  moreover have "a + j < length F' \<and> p_buffer q ! j = F' ! (a + j)" if "\<not> dirty q" "j < unat (p_size q)" for j
    using q(4) [OF that] F'(1) F'(2) [of "a + j"] that(2) q(3) by simp
  ultimately show ?thesis using q(1) by (simp add: page_ok_def Let_def B_def a_def)
qed

lemma other_block: "0 < B \<Longrightarrow> c \<noteq> b \<Longrightarrow> c * B + B \<le> b * B \<or> b * B + B \<le> c * B" for b c B :: nat
  by (metis add.commute linorder_neqE_nat mult_Suc mult_le_mono1 Suc_leI)

lemma write_page:
  fixes ins :: nat and y :: "u8 list" and e :: u64 and k :: u32
  assumes rdy: "ready s F C b p"
  defines "B \<equiv> unat (block_size (v_node s))"
  defines "P \<equiv> unat b * B + ins"
  assumes y: "0 < length y" "ins + length y \<le> B" "P \<le> unat (n_size (v_node s))" "P + length y \<le> C" and e: "unat e = P + length y"
    and k: "unat k = max (ins + length y) (unat (p_size p))"
  defines "q \<equiv> p\<lparr>p_buffer := take ins (p_buffer p) @ y @ drop (ins + length y) (p_buffer p), p_size := k, dirty := True\<rparr>"
  defines "s2 \<equiv> grow_size e (s\<lparr>v_pages := set_page q (v_pages s)\<rparr>)"
  shows "cinv s2 F C" "v_node s2 = (v_node s)\<lparr>n_size := max (n_size (v_node s)) e\<rparr>"
    "\<And>i. i < max (unat (n_size (v_node s))) (P + length y) \<Longrightarrow> look s2 F i = (if P \<le> i \<and> i < P + length y then y ! (i - P) else look s F i)"
proof -
  let ?n = "v_node s"
  note r = rdy [unfolded ready_def Let_def, folded B_def]
  have g: "good ?n (v_med s) F C" "unat (n_size ?n) \<le> C" "distinct (map block_id (v_pages s))" "page_at b (v_pages s) = Some p"
    "length (p_buffer p) = B" "unat (p_size p) = min B (unat (n_size ?n) - unat b * B)" using r by auto
  have B: "0 < B" "C < 2 ^ 60" using good_env [OF g(1)] by (auto simp: B_def)
  have pb: "block_id p = b" using page_at_mem [OF g(4)] by simp
  have Pb: "P div B = unat b" unfolding block_inside [OF B(1)] P_def using y(1,2) by linarith
  let ?z = "max (n_size ?n) e"
  have z: "unat ?z = max (unat (n_size ?n)) (P + length y)" using e by (simp add: max_def word_le_nat_alt)
  show vn: "v_node s2 = ?n\<lparr>n_size := ?z\<rparr>" by (simp add: s2_def grow_size_eq)
  have vs: "v_pages s2 = set_page q (v_pages s)" "v_med s2 = v_med s" by (simp_all add: s2_def grow_size_eq)
  have at: "page_at x (v_pages s2) = (if x = b then Some q else page_at x (v_pages s))" for x
    using g(4) pb unfolding vs(1) page_at_set by (simp add: q_def)
  have qk: "page_ok (?n\<lparr>n_size := ?z\<rparr>) F q"
  proof -
    have "length (p_buffer q) = B" using g(5) y(2) by (simp add: q_def)
    moreover have "unat b * B < unat ?z" unfolding z P_def using y(1) by linarith
    moreover have "unat k = min B (unat ?z - unat b * B)" unfolding k g(6) z P_def using y(2,3) [unfolded P_def] by linarith
    ultimately show ?thesis using pb by (simp add: page_ok_def Let_def q_def B_def)
  qed
  have ok: "page_ok (?n\<lparr>n_size := ?z\<rparr>) F x" if "x \<in> set (v_pages s2)" for x
  proof (cases "x = q")
    case False
    then have x: "x \<in> set (v_pages s)" "block_id x \<noteq> b" using that set_page_mem [of x q "v_pages s"] g(3) pb unfolding vs(1) by (auto simp: q_def)
    then have "unat (block_id x) * B + B \<le> P \<or> P + length y \<le> unat (block_id x) * B"
      using other_block [OF B(1), of "unat (block_id x)" "unat b"] y(2) by (simp add: word_unat_eq_iff P_def) linarith
    then show ?thesis using page_ok_grow [of ?n F x P ?z "P + length y" F] r x y(3) z by (simp add: B_def)
  qed (use qk in simp)
  have num: "of_nat (i div B) = b \<longleftrightarrow> i div B = unat b" if "i < unat ?z" for i
    using that block_number [of i B b] g(2) B(2) y(4) z by simp
  have inside: "i div B = unat b" if "P \<le> i" "i < P + length y" for i
    using that y(2) B(1) block_inside [of B i "unat b"] by (simp add: P_def)
  have i5: "i < length F" if "i < unat ?z" "page_at (of_nat (i div B)) (v_pages s2) = None" for i
  proof -
    have "of_nat (i div B) \<noteq> b" "page_at (of_nat (i div B)) (v_pages s) = None" using that(2) unfolding at by (simp_all split: if_splits)
    moreover have "i < unat (n_size ?n)" using inside [of i] num [OF that(1)] calculation(1) that(1) y(3) unfolding z by linarith
    ultimately show ?thesis using r by blast
  qed
  have "good (?n\<lparr>n_size := ?z\<rparr>) (v_med s) F C"
    using good_frame [OF g(1), where t = "ticks (v_med s)" and h = "held (v_med s)" and k = "heap_blocks (v_med s)"] by simp
  moreover have "distinct (map block_id (v_pages s2))" "length (v_pages s2) = length (v_pages s)" using g(3) unfolding vs(1) by (simp_all add: set_page_ids set_page_length)
  ultimately show "cinv s2 F C" using ok i5 z g(2) y(4) r unfolding cinv_def vn vs(2) by (simp add: B_def)
  show "look s2 F i = (if P \<le> i \<and> i < P + length y then y ! (i - P) else look s F i)" if i: "i < max (unat (n_size ?n)) (P + length y)" for i
  proof (cases "i div B = unat b")
    case True
    then have d: "i mod B = i - unat b * B" "unat b * B \<le> i" "i < unat b * B + B" using block_inside [of B i "unat b"] B(1) by (metis minus_div_mult_eq_mod, simp, simp)
    have "look s2 F i = p_buffer q ! (i mod B)" using look_page [of i s2 q F] at num i True z by (simp add: vn B_def)
    also have "\<dots> = (if P \<le> i \<and> i < P + length y then y ! (i - P) else p_buffer p ! (i mod B))"
      using d y(2) g(5) by (auto simp: q_def P_def nth_append)
    also have "p_buffer p ! (i mod B) = look s F i" using look_page [of i s p F] g(4) num i True z by (simp add: B_def)
    finally show ?thesis .
  next
    case False
    then have "\<not> (P \<le> i \<and> i < P + length y)" using inside by blast
    moreover have "look s2 F i = look s F i" using at num i False z by (simp add: look_def Let_def vn B_def)
    ultimately show ?thesis by auto
  qed
qed

text \<open>One turn of the write loop: a run of \<open>n\<close> bytes of the source is in the view, and the turns after the first start at a block.\<close>

definition write_turn :: "(nat \<Rightarrow> nat \<Rightarrow> u8) \<Rightarrow> u64 \<Rightarrow> u32 \<Rightarrow> u8 list \<Rightarrow> u64 \<Rightarrow> u32 \<Rightarrow> vfile \<Rightarrow> u8 list \<Rightarrow> nat \<Rightarrow> bool" where
  "write_turn fresh offset sz src orig ntotal s F C \<longleftrightarrow> (let B = unat (block_size (v_node s)); P = unat offset + unat ntotal in
     \<exists>n s1 F' z. 0 < unat n \<and> unat ntotal + unat n \<le> unat sz \<and> cinv s1 F' C \<and> v_node s1 = (v_node s)\<lparr>n_size := z\<rparr> \<and>
       unat z = max (unat (n_size (v_node s))) (P + unat n) \<and> (unat ntotal + unat n < unat sz \<longrightarrow> (P + unat n) mod B = 0) \<and>
       (\<forall>i < unat z. look s1 F' i = (if P \<le> i \<and> i < P + unat n then src ! (i - unat offset) else look s F i)) \<and>
       vfs_write_loop E fresh (Some D) offset sz src orig ntotal s = vfs_write_loop E fresh (Some D) offset sz src orig (ntotal + n) s1)"

lemma write_turnI:
  assumes "0 < unat n" "unat ntotal + unat n \<le> unat sz" "cinv s1 F' C" "v_node s1 = (v_node s)\<lparr>n_size := z\<rparr>"
    "unat z = max (unat (n_size (v_node s))) (unat offset + unat ntotal + unat n)"
    "unat ntotal + unat n < unat sz \<Longrightarrow> (unat offset + unat ntotal + unat n) mod unat (block_size (v_node s)) = 0"
    "\<And>i. i < unat z \<Longrightarrow> look s1 F' i =
       (if unat offset + unat ntotal \<le> i \<and> i < unat offset + unat ntotal + unat n then src ! (i - unat offset) else look s F i)"
    "vfs_write_loop E fresh (Some D) offset sz src orig ntotal s = vfs_write_loop E fresh (Some D) offset sz src orig (ntotal + n) s1"
  shows "write_turn fresh offset sz src orig ntotal s F C"
  unfolding write_turn_def Let_def
  by (intro exI [of _ n] exI [of _ s1] exI [of _ F'] exI [of _ z] conjI allI impI) (fact assms | erule assms)+

lemma get_page_write:
  assumes inv: "cinv s F C" and P: "P \<le> unat (n_size (v_node s))" "unat (n_size (v_node s)) = max (unat orig) P"
    and al: "P mod unat (block_size (v_node s)) = 0 \<or> P \<le> unat orig" and b: "unat b = P div unat (block_size (v_node s))"
  shows "\<exists>p s1. vfs_get_or_create_page E fresh (Some D) b (\<not> b * ucast (block_size (v_node s)) \<ge> orig) s = Some (Some p, s1) \<and> ready s1 F C b p \<and>
    v_node s1 = v_node s \<and> (\<forall>i < unat (n_size (v_node s)). look s1 F i = look s F i)"
proof -
  let ?n = "v_node s" and ?bs = "block_size (v_node s)"
  note c = cinvD [OF inv]
  have start: "unat b * unat ?bs \<le> P" unfolding b by simp
  have off: "unat (b * ucast ?bs) = unat b * unat ?bs" using start P(1) c(2,12) by (subst unat_mult_nowrap) (simp_all add: unat_ucast_up)
  show ?thesis
  proof (cases "page_at b (v_pages s)")
    case (Some p)
    then show ?thesis using c(8) inv cinv_ready [OF inv Some] by (auto simp: vfs_get_or_create_page_def Let_def)
  next
    case None
    show ?thesis
    proof (cases "b * ucast ?bs \<ge> orig")
      case False
      then have "unat b * unat ?bs < unat (n_size ?n)" using off P(2) by (simp add: word_le_nat_alt)
      then show ?thesis using get_page [OF inv, of b fresh] False cinv_ready by fastforce
    next
      case True
      then have "unat orig \<le> unat b * unat ?bs" using off by (simp add: word_le_nat_alt)
      moreover have "unat b * unat ?bs = P" if "P mod unat ?bs = 0" using that unfolding b by auto
      ultimately have "unat b * unat ?bs = unat (n_size ?n)" using start al P(2) by linarith
      then show ?thesis using get_page_new [OF inv _ None, of fresh] True by fastforce
    qed
  qed
qed

lemma write_page_turn:
  assumes inv: "cinv s F C" and sz: "unat offset + unat sz \<le> C" "ntotal < sz" "unat sz \<le> length src"
  defines "B \<equiv> unat (block_size (v_node s))" and "P \<equiv> unat offset + unat ntotal"
  assumes P: "P \<le> unat (n_size (v_node s))" "unat (n_size (v_node s)) = max (unat orig) P" and al: "P mod B = 0 \<or> P \<le> unat orig"
    and nd: "P mod B \<noteq> 0 \<or> unat sz - unat ntotal < B"
  shows "write_turn fresh offset sz src orig ntotal s F C"
proof -
  note c = cinvD [OF inv, folded B_def]
  let ?n = "v_node s" and ?bs = "block_size (v_node s)" and ?x = "offset + ucast ntotal :: u64"
  have tl: "unat ntotal < unat sz" using sz(2) by (simp add: word_less_nat_alt)
  have lim: "P < 2 ^ 60" using c(12) sz(1) tl by (simp add: P_def)
  note pl = block_place [of offset ntotal ?bs, folded P_def B_def, OF lim c(8)]
  define b where "b = ?x div ucast ?bs"
  define ins where "ins = (ucast (?x mod ucast ?bs) :: u32)"
  have bu: "unat b = P div B" "unat ins = P mod B" using pl by (simp_all add: b_def ins_def)
  have dm: "unat b * B + P mod B = P" unfolding bu by simp
  have Pm: "P mod B < B" using c(8) by simp
  define n where "n = (if sz - ntotal < ?bs - ins then sz - ntotal else ?bs - ins)"
  have st: "unat (sz - ntotal) = unat sz - unat ntotal" "unat (?bs - ins) = B - P mod B"
    using tl Pm bu(2) by (simp_all add: unat_sub word_le_nat_alt B_def)
  have n: "unat n = min (unat sz - unat ntotal) (B - P mod B)" using st by (auto simp: n_def word_less_nat_alt)
  have n0: "0 < unat n" "unat ntotal + unat n \<le> unat sz" "P mod B + unat n \<le> B" unfolding n using tl Pm by linarith+
  obtain p s1 where p: "vfs_get_or_create_page E fresh (Some D) b (\<not> b * ucast ?bs \<ge> orig) s = Some (Some p, s1)" "ready s1 F C b p"
    "v_node s1 = ?n" "\<forall>i < unat (n_size ?n). look s1 F i = look s F i"
    using get_page_write [OF inv P _ bu(1) [unfolded B_def], of fresh] al by (auto simp: B_def)
  define y where "y = take (unat n) (drop (unat ntotal) src)"
  have y: "length y = unat n" using n0(2) sz(3) by (simp add: y_def)
  have pb: "length (p_buffer p) = B" "unat (p_size p) \<le> B" using p(2,3) by (simp_all add: ready_def Let_def B_def)
  define q where "q = p\<lparr>p_buffer := take (P mod B) (p_buffer p) @ y @ drop (P mod B + unat n) (p_buffer p), p_size := (if ins + n > p_size p then ins + n else p_size p), dirty := True\<rparr>"
  have cp: "memcpy_at (p_buffer p) (unat ins) (drop (unat ntotal) src) (unat n) = Some (p_buffer q)"
    using n0 sz(3) pb(1) bu(2) by (subst memcpy_at_eq) (simp_all add: q_def y_def)
  have uin: "unat (ins + n) = P mod B + unat n" using n0(3) bu(2) c(9) by (subst unat_add_nowrap) simp_all
  have k: "unat (if ins + n > p_size p then ins + n else p_size p) = max (P mod B + length y) (unat (p_size p))"
    using uin y by (auto simp: word_less_nat_alt max_def)
  have e: "unat (?x + ucast n) = P + length y" using pl(1) y lim c(9) n0(3) by (subst unat_add_nowrap) (simp_all add: unat_ucast_up)
  let ?s = "grow_size (?x + ucast n) (s1\<lparr>v_pages := set_page q (v_pages s1)\<rparr>)"
  have PC: "P + length y \<le> C" using y n0(2) sz(1) by (simp add: P_def)
  have wp: "cinv ?s F C" "v_node ?s = ?n\<lparr>n_size := max (n_size ?n) (?x + ucast n)\<rparr>"
    "\<And>i. i < max (unat (n_size ?n)) (P + length y) \<Longrightarrow> look ?s F i = (if P \<le> i \<and> i < P + length y then y ! (i - P) else look s1 F i)"
    using write_page [OF p(2), of y "P mod B" "?x + ucast n" "if ins + n > p_size p then ins + n else p_size p", unfolded p(3), folded B_def, unfolded dm]
      n0 y P(1) PC e k unfolding q_def by simp_all
  let ?z = "max (n_size ?n) (?x + ucast n)"
  have z: "unat ?z = max (unat (n_size ?n)) (P + unat n)" using e y by (simp add: max_def word_le_nat_alt)
  have lk: "look ?s F i = (if P \<le> i \<and> i < P + unat n then src ! (i - unat offset) else look s F i)" if "i < unat ?z" for i
  proof (cases "P \<le> i \<and> i < P + unat n")
    case True
    then have "i - P < unat n" "unat ntotal + (i - P) = i - unat offset" unfolding P_def by linarith+
    then have "y ! (i - P) = src ! (i - unat offset)" using n0(2) sz(3) by (simp add: y_def)
    then show ?thesis using wp(3) [of i] True that y unfolding z by simp
  next
    case False
    then have "i < unat (n_size ?n)" using that P(1) unfolding z by linarith
    then show ?thesis using wp(3) [of i] False p(4) y by auto
  qed
  have al2: "(P + unat n) mod B = 0" if "unat ntotal + unat n < unat sz"
  proof -
    have "unat n = B - P mod B" using that unfolding n by linarith
    then have "P + unat n = unat b * B + B" using dm Pm by linarith
    then show ?thesis by simp
  qed
  have dir: "(if ins = 0 \<and> ?bs \<le> sz - ntotal then Option.bind (Some D) f_write else None) = None" using nd st(1) bu(2) by (auto simp: word_le_nat_alt B_def)
  have "\<not> (ins = 0 \<and> n = ?bs)" using nd n bu(2) by (auto simp: B_def)
  then have ler: "(\<not> (ins = 0 \<and> n = ?bs) \<and> \<not> b * ucast ?bs \<ge> orig) = (\<not> b * ucast ?bs \<ge> orig)" by blast
  have "vfs_write_loop E fresh (Some D) offset sz src orig ntotal s = vfs_write_loop E fresh (Some D) offset sz src orig (ntotal + n) ?s"
    using sz(2) p(1) cp
    by (subst vfs_write_loop.simps, unfold Let_def, fold b_def ins_def, fold n_def, unfold dir ler) (simp add: q_def split del: if_split)
  from n0(1,2) wp(1,2) z al2 lk this show ?thesis by (rule write_turnI [where offset = offset and ntotal = ntotal and s = s, folded P_def B_def])
qed

lemma drop_blocks_spec:
  assumes "distinct (map block_id (v_pages s))" "length (v_pages s) \<le> count_list (held (v_med s)) (block_size (v_node s))"
  shows "\<exists>h k. drop_blocks bids s = Some (s\<lparr>v_pages := filter (\<lambda>p. block_id p \<notin> set bids) (v_pages s), v_med := (v_med s)\<lparr>held := h, heap_blocks := k\<rparr>\<rparr>) \<and>
    length (filter (\<lambda>p. block_id p \<notin> set bids) (v_pages s)) \<le> count_list h (block_size (v_node s))"
  using assms
proof (induction bids arbitrary: s)
  case Nil
  then show ?case by (intro exI [of _ "held (v_med s)"] exI [of _ "heap_blocks (v_med s)"]) simp
next
  case (Cons b bids)
  let ?ps = "filter (\<lambda>p. block_id p \<noteq> b) (v_pages s)"
  obtain h k where v: "vfs_invalidate_cache_page b s = Some (s\<lparr>v_pages := ?ps, v_med := (v_med s)\<lparr>held := h, heap_blocks := k\<rparr>\<rparr>)"
    "length ?ps \<le> count_list h (block_size (v_node s))" using invalidate_page [OF Cons.prems] by blast
  let ?s = "s\<lparr>v_pages := ?ps, v_med := (v_med s)\<lparr>held := h, heap_blocks := k\<rparr>\<rparr>"
  have "distinct (map block_id (v_pages ?s))" "length (v_pages ?s) \<le> count_list (held (v_med ?s)) (block_size (v_node ?s))"
    using distinct_filter_ids [OF Cons.prems(1)] v(2) by simp_all
  from Cons.IH [OF this] obtain h2 k2 where r: "drop_blocks bids ?s = Some (?s\<lparr>v_pages := filter (\<lambda>p. block_id p \<notin> set bids) ?ps, v_med := (v_med ?s)\<lparr>held := h2, heap_blocks := k2\<rparr>\<rparr>)"
    "length (filter (\<lambda>p. block_id p \<notin> set bids) ?ps) \<le> count_list h2 (block_size (v_node s))" by auto
  have f: "filter (\<lambda>p. block_id p \<notin> set bids) ?ps = filter (\<lambda>p. block_id p \<notin> set (b # bids)) (v_pages s)" unfolding filter_filter by (rule filter_cong) auto
  show ?case using v(1) r unfolding f by auto
qed

lemma write_direct_turn:
  assumes inv: "cinv s F C" and sz: "unat offset + unat sz \<le> C" "ntotal < sz" "unat sz \<le> length src" "unat sz < 2 ^ 31"
  defines "B \<equiv> unat (block_size (v_node s))" and "P \<equiv> unat offset + unat ntotal"
  assumes P: "P \<le> unat (n_size (v_node s))" and al: "P mod B = 0" "B \<le> unat sz - unat ntotal"
  shows "write_turn fresh offset sz src orig ntotal s F C"
proof -
  note c = cinvD [OF inv, folded B_def]
  let ?n = "v_node s" and ?bs = "block_size (v_node s)" and ?x = "offset + ucast ntotal :: u64"
  define b where "b = ?x div ucast ?bs"
  define n where "n = (sz - ntotal) div ?bs * ?bs"
  define bids where "bids = map (\<lambda>i. b + of_nat i) [0..<unat ((sz - ntotal) div ?bs)]"
  have tl: "unat ntotal < unat sz" using sz(2) by (simp add: word_less_nat_alt)
  have lim: "unat offset + unat sz < 2 ^ 60" using c(12) sz(1) by linarith
  note db = direct_blocks [of ?bs offset ntotal sz, folded B_def P_def b_def n_def, folded bids_def, OF c(8) al tl sz(4) lim]
  have nB: "unat n = unat ((sz - ntotal) div ?bs) * B" by (rule db(1))
  have nn: "0 < unat n" "unat ntotal + unat n \<le> unat sz" using db(2,3) c(8) nB by simp_all
  have PC: "P + unat n \<le> C" using nn(2) sz(1) by (simp add: P_def)
  let ?ps = "filter (\<lambda>p. block_id p \<notin> set bids) (v_pages s)"
  obtain h k where dr: "drop_blocks bids s = Some (s\<lparr>v_pages := ?ps, v_med := (v_med s)\<lparr>held := h, heap_blocks := k\<rparr>\<rparr>)" "length ?ps \<le> count_list h ?bs"
    using drop_blocks_spec [OF c(3,6)] by blast
  let ?m = "(v_med s)\<lparr>held := h, heap_blocks := k\<rparr>" and ?src = "drop (unat ntotal) src"
  have g: "good ?n ?m F C" using good_med [OF c(1), where t = "ticks (v_med s)" and h = h and k = k] by simp
  have "unat n < 2 ^ 31" "unat n \<le> length ?src" "unat ?x + unat n \<le> C" using nn(2) sz(3,4) PC db(4) by simp_all
  then obtain F' t d where w: "wr ?n ?x n ?src ?m = Some (int (unat n), ?n\<lparr>n_size := max (n_size ?n) (?x + ucast n)\<rparr>, ?m\<lparr>ticks := t, sectors := d\<rparr>)"
    "good ?n (?m\<lparr>ticks := t, sectors := d\<rparr>) F' C" "stored F P P (P + unat n) ?src F'"
    using good_write [OF g, of n ?src ?x] nn(1) db(4) by auto
  let ?z = "max (n_size ?n) (?x + ucast n)" and ?m2 = "?m\<lparr>ticks := t, sectors := d\<rparr>"
  let ?s = "s\<lparr>v_pages := ?ps, v_med := ?m2, v_node := ?n\<lparr>n_size := ?z\<rparr>\<rparr>"
  have e: "unat (?x + ucast n) = P + unat n" using db(4) PC c(12) by (subst unat_add_nowrap) (simp_all add: unat_ucast_up)
  have z: "unat ?z = max (unat (n_size ?n)) (P + unat n)" using e by (simp add: max_def word_le_nat_alt)
  have st: "length F \<le> length F'" "P + unat n \<le> length F'" "\<And>i. i < length F \<Longrightarrow> i < P \<or> P + unat n \<le> i \<Longrightarrow> F' ! i = F ! i"
    "\<And>i. P \<le> i \<Longrightarrow> i < P + unat n \<Longrightarrow> F' ! i = src ! (i - unat offset)"
  proof -
    show "F' ! i = src ! (i - unat offset)" if "P \<le> i" "i < P + unat n" for i
    proof -
      have "unat ntotal + (i - P) = i - unat offset" "unat ntotal \<le> length src" using that nn(2) sz(3) unfolding P_def by linarith+
      then show ?thesis using w(3) that by (simp add: stored_def)
    qed
  qed (use w(3) in \<open>auto simp: stored_def\<close>)
  have mem: "of_nat (i div B) \<in> set bids \<longleftrightarrow> P \<le> i \<and> i < P + unat n" if "i < unat ?z" for i
    using db(6) [of i] that c(2,12) PC nB unfolding z by simp
  have at: "page_at x ?ps = (if x \<in> set bids then None else page_at x (v_pages s))" for x by (rule page_at_filter)
  have ok: "page_ok (?n\<lparr>n_size := ?z\<rparr>) F' q" if q: "q \<in> set ?ps" for q
  proof -
    let ?a = "unat (block_id q) * B"
    have qk: "page_ok ?n F q" "block_id q \<notin> set bids" using q c(4) by auto
    have "?a < unat (n_size ?n)" using qk(1) by (simp add: page_ok_def Let_def B_def)
    moreover have "of_nat (?a div B) = block_id q" using c(8) by simp
    ultimately have "\<not> (P \<le> ?a \<and> ?a < P + unat n)" using mem [of ?a] qk(2) z by simp
    moreover have "?a + B \<le> P" if "?a < P"
    proof -
      have PB: "P div B * B = P" using al(1) by auto
      then have "unat (block_id q) < P div B" using that by (metis mult_less_cancel2)
      then have "Suc (unat (block_id q)) * B \<le> P div B * B" by (intro mult_le_mono1) simp
      then show ?thesis using PB by simp
    qed
    ultimately have ap: "?a + B \<le> P \<or> P + unat n \<le> ?a" by linarith
    show ?thesis
    proof (rule page_ok_grow [OF qk(1) P z, folded B_def, OF ap st(1)])
      fix i assume "i < length F" "?a \<le> i" "i < ?a + B"
      then show "F' ! i = F ! i" using st(3) ap by auto
    qed
  qed
  have i5: "i < length F'" if "i < unat ?z" "page_at (of_nat (i div B)) ?ps = None" for i
  proof (cases "P \<le> i \<and> i < P + unat n")
    case False
    then have "page_at (of_nat (i div B)) (v_pages s) = None" using that mem at by auto
    moreover have "i < unat (n_size ?n)" using that(1) False P unfolding z by linarith
    ultimately show ?thesis using c(5) st(1) by fastforce
  qed (use st(2) in simp)
  have "?m2\<lparr>ticks := t, held := h, heap_blocks := k\<rparr> = ?m2" by (rule medium.equality) simp_all
  then have g2: "good (?n\<lparr>n_size := ?z\<rparr>) ?m2 F' C" using good_frame [OF w(2), where z = ?z and t = t and h = h and k = k] by (simp only:)
  have inv2: "cinv ?s F' C"
    using g2 ok i5 z c(2) PC dr(2) distinct_filter_ids [OF c(3)] unfolding cinv_def by (simp add: B_def)
  have lk: "look ?s F' i = (if P \<le> i \<and> i < P + unat n then src ! (i - unat offset) else look s F i)" if i: "i < unat ?z" for i
  proof (cases "P \<le> i \<and> i < P + unat n")
    case True
    then show ?thesis using at mem [OF i] st(4) by (simp add: look_def Let_def B_def)
  next
    case False
    then have n: "i < unat (n_size ?n)" using i P unfolding z by linarith
    have "F' ! i = F ! i" if "page_at (of_nat (i div B)) (v_pages s) = None" using st(3) [OF c(5) [OF n that]] False by auto
    then show ?thesis using at mem [OF i] False by (auto simp: look_def Let_def B_def split: option.splits)
  qed
  have al2: "(P + unat n) mod B = 0" using al(1) nB by simp
  have dir: "(if ucast (?x mod ucast ?bs) = (0 :: u32) \<and> ?bs \<le> sz - ntotal then Option.bind (Some D) f_write else None) = Some wr"
  proof -
    have "unat (ucast (?x mod ucast ?bs) :: u32) = 0" using block_place(3) [of offset ntotal ?bs, folded P_def B_def] al(1) lim tl c(8) by (simp add: P_def)
    moreover have "?bs \<le> sz - ntotal" using al(2) tl by (simp add: word_le_nat_alt unat_sub B_def)
    ultimately show ?thesis using table(2) by (simp add: unat_eq_0)
  qed
  have "vfs_write_loop E fresh (Some D) offset sz src orig ntotal s = vfs_write_loop E fresh (Some D) offset sz src orig (ntotal + n) ?s"
    using sz(2) dr(1) w(1)
    by (subst vfs_write_loop.simps, unfold Let_def, fold b_def, unfold dir) (simp add: bids_def [symmetric] n_def [symmetric] grow_size_eq)
  then show ?thesis using write_turnI [where n = n and ?s1.0 = ?s and F' = F' and z = ?z and ntotal = ntotal and offset = offset and s = s and src = src and F = F, folded P_def B_def, OF nn inv2 _ z al2 lk] by simp
qed

lemma write_loop_view:
  assumes "cinv s F C" "unat offset + unat sz \<le> C" "unat ntotal \<le> unat sz" "unat sz \<le> length src" "unat sz < 2 ^ 31"
    "unat offset + unat ntotal \<le> unat (n_size (v_node s))" "unat (n_size (v_node s)) = max (unat orig) (unat offset + unat ntotal)"
    "unat ntotal < unat sz \<Longrightarrow> (unat offset + unat ntotal) mod unat (block_size (v_node s)) = 0 \<or> unat offset + unat ntotal \<le> unat orig"
  shows "\<exists>s1 F' z. vfs_write_loop E fresh (Some D) offset sz src orig ntotal s = Some (int (unat sz), s1) \<and> cinv s1 F' C \<and>
    v_node s1 = (v_node s)\<lparr>n_size := z\<rparr> \<and> unat z = max (unat (n_size (v_node s))) (unat offset + unat sz) \<and>
    (\<forall>i < unat z. look s1 F' i = (if unat offset + unat ntotal \<le> i \<and> i < unat offset + unat sz then src ! (i - unat offset) else look s F i))"
  using assms
proof (induction "unat sz - unat ntotal" arbitrary: ntotal s F rule: less_induct)
  case less
  note h = less.prems
  let ?B = "unat (block_size (v_node s))" and ?P = "unat offset + unat ntotal"
  show ?case
  proof (cases "ntotal < sz")
    case False
    then have e: "ntotal = sz" using h(3) by (simp add: word_less_nat_alt word_unat_eq_iff)
    have "vfs_write_loop E fresh (Some D) offset sz src orig ntotal s = Some (int (unat sz), s)"
      using e sint_small [OF h(5)] by (subst vfs_write_loop.simps) simp
    then show ?thesis using h(1,6) e by (intro exI [of _ s] exI [of _ F] exI [of _ "n_size (v_node s)"]) auto
  next
    case True
    then have tl: "unat ntotal < unat sz" by (simp add: word_less_nat_alt)
    have "write_turn fresh offset sz src orig ntotal s F C"
    proof (cases "?P mod ?B = 0 \<and> ?B \<le> unat sz - unat ntotal")
      case dir: True
      show ?thesis by (rule write_direct_turn [OF h(1,2) True h(4,5,6)]) (use dir in simp_all)
    next
      case False
      then have "?P mod ?B \<noteq> 0 \<or> unat sz - unat ntotal < ?B" by auto
      then show ?thesis by (rule write_page_turn [OF h(1,2) True h(4,6,7) h(8) [OF tl]])
    qed
    then obtain n s1 F1 z where n: "0 < unat n" "unat ntotal + unat n \<le> unat sz" "cinv s1 F1 C" "v_node s1 = (v_node s)\<lparr>n_size := z\<rparr>"
      "unat z = max (unat (n_size (v_node s))) (?P + unat n)" "unat ntotal + unat n < unat sz \<longrightarrow> (?P + unat n) mod ?B = 0"
      "\<forall>i < unat z. look s1 F1 i = (if ?P \<le> i \<and> i < ?P + unat n then src ! (i - unat offset) else look s F i)"
      "vfs_write_loop E fresh (Some D) offset sz src orig ntotal s = vfs_write_loop E fresh (Some D) offset sz src orig (ntotal + n) s1"
      unfolding write_turn_def Let_def by (elim exE conjE) (rule that; assumption)
    have u: "unat (ntotal + n) = unat ntotal + unat n" using n(2) h(5) by (subst unat_add_nowrap) simp_all
    have "\<exists>s2 F' z'. vfs_write_loop E fresh (Some D) offset sz src orig (ntotal + n) s1 = Some (int (unat sz), s2) \<and> cinv s2 F' C \<and>
      v_node s2 = (v_node s1)\<lparr>n_size := z'\<rparr> \<and> unat z' = max (unat (n_size (v_node s1))) (unat offset + unat sz) \<and>
      (\<forall>i < unat z'. look s2 F' i = (if unat offset + unat (ntotal + n) \<le> i \<and> i < unat offset + unat sz then src ! (i - unat offset) else look s1 F1 i))"
      by (rule less.hyps [OF _ n(3) h(2) _ h(4,5)]) (use u n(1,2,4,5,6) tl h(7) in \<open>auto simp: add.assoc\<close>)
    then obtain s2 F' z' where r: "vfs_write_loop E fresh (Some D) offset sz src orig (ntotal + n) s1 = Some (int (unat sz), s2)" "cinv s2 F' C"
      "v_node s2 = (v_node s)\<lparr>n_size := z'\<rparr>" "unat z' = max (unat z) (unat offset + unat sz)"
      "\<And>i. i < unat z' \<Longrightarrow> look s2 F' i = (if unat offset + unat (ntotal + n) \<le> i \<and> i < unat offset + unat sz then src ! (i - unat offset) else look s1 F1 i)"
      using n(4) by auto
    have "unat z' = max (unat (n_size (v_node s))) (unat offset + unat sz)" using r(4) n(2,5) by linarith
    moreover have "look s2 F' i = (if ?P \<le> i \<and> i < unat offset + unat sz then src ! (i - unat offset) else look s F i)" if "i < unat z'" for i
    proof -
      have z: "i < unat z \<or> ?P + unat n \<le> i \<and> i < unat offset + unat sz" using that r(4) n(5) by linarith
      show ?thesis using r(5) [OF that] n(7) z n(2) unfolding u by auto
    qed
    ultimately show ?thesis unfolding n(8) using r(1-3) by blast
  qed
qed

lemma write_view:
  assumes inv: "cinv s F C" and sz: "unat sz < 2 ^ 31" "unat sz \<le> length src" and off: "unat offset \<le> unat (n_size (v_node s))" "unat offset + unat sz \<le> C"
  shows "\<exists>s1 F' z. vfs_write E fresh (Some D) offset sz src s = Some (int (unat sz), s1) \<and> cinv s1 F' C \<and> v_node s1 = (v_node s)\<lparr>n_size := z\<rparr> \<and>
    file_view s1 F' = take (unat offset) (file_view s F) @ take (unat sz) src @ drop (unat offset + unat sz) (file_view s F)"
proof (cases "sz = 0")
  case True
  then have "vfs_write E fresh (Some D) offset sz src s = Some (0, s)" using good_env [OF cinvD(1) [OF inv]] by (simp add: vfs_write_def Let_def)
  then show ?thesis using inv True by (intro exI [of _ s] exI [of _ F] exI [of _ "n_size (v_node s)"]) simp
next
  case False
  have "\<exists>s1 F' z. vfs_write_loop E fresh (Some D) offset sz src (n_size (v_node s)) 0 s = Some (int (unat sz), s1) \<and> cinv s1 F' C \<and>
    v_node s1 = (v_node s)\<lparr>n_size := z\<rparr> \<and> unat z = max (unat (n_size (v_node s))) (unat offset + unat sz) \<and>
    (\<forall>i < unat z. look s1 F' i = (if unat offset + unat (0 :: u32) \<le> i \<and> i < unat offset + unat sz then src ! (i - unat offset) else look s F i))"
    by (rule write_loop_view [OF inv off(2) _ sz(2,1)]) (use off(1) in simp_all)
  then obtain s1 F' z where w: "vfs_write_loop E fresh (Some D) offset sz src (n_size (v_node s)) 0 s = Some (int (unat sz), s1)" "cinv s1 F' C"
    "v_node s1 = (v_node s)\<lparr>n_size := z\<rparr>" "unat z = max (unat (n_size (v_node s))) (unat offset + unat sz)"
    "\<And>i. i < unat z \<Longrightarrow> look s1 F' i = (if unat offset \<le> i \<and> i < unat offset + unat sz then src ! (i - unat offset) else look s F i)" by auto
  have "vfs_write E fresh (Some D) offset sz src s = Some (int (unat sz), s1)"
    using w(1) False good_env [OF cinvD(1) [OF inv]] by (auto simp: vfs_write_def Let_def)
  moreover have "file_view s1 F' = take (unat offset) (file_view s F) @ take (unat sz) src @ drop (unat offset + unat sz) (file_view s F)"
  proof (rule nth_equalityI)
    show "length (file_view s1 F') = length (take (unat offset) (file_view s F) @ take (unat sz) src @ drop (unat offset + unat sz) (file_view s F))"
      using w(3,4) sz(2) off(1) by simp
  next
    fix i assume "i < length (file_view s1 F')"
    then have i: "i < unat z" using w(3) by simp
    show "file_view s1 F' ! i = (take (unat offset) (file_view s F) @ take (unat sz) src @ drop (unat offset + unat sz) (file_view s F)) ! i"
      using w(5) [OF i] i w(3,4) sz(2) off(1) by (auto simp: file_view_def nth_append)
  qed
  ultimately show ?thesis using w(2,3) by blast
qed

text \<open>Writing the changed pages of a list.\<close>

definition fits :: "vfs_node \<Rightarrow> vfs_page \<Rightarrow> bool" where
  "fits n p \<longleftrightarrow> length (p_buffer p) = unat (block_size n) \<and> 0 < unat (p_size p) \<and> unat (p_size p) \<le> unat (block_size n) \<and>
     unat (block_id p) * unat (block_size n) + unat (p_size p) \<le> unat (n_size n)"

lemma page_ok_fits: "page_ok n F p \<Longrightarrow> 0 < unat (block_size n) \<Longrightarrow> fits n p"
  by (auto simp: page_ok_def fits_def Let_def)

abbreviation clean :: "vfs_page \<Rightarrow> vfs_page" where
  "clean p \<equiv> p\<lparr>dirty := False\<rparr>"

lemma page_at_clean: "page_at b (map clean ps) = map_option clean (page_at b ps)"
  by (induction ps) auto

lemma flush_pages_spec:
  assumes "good n m F C" "unat (n_size n) \<le> C" "distinct (map block_id ps)" "\<forall>p \<in> set ps. fits n p"
  defines "B \<equiv> unat (block_size n)"
  shows "\<exists>m' F'. flush_pages wr ps 0 n m = Some (0, map clean ps, n, m') \<and> good n m' F' C \<and> held m' = held m \<and> length F \<le> length F' \<and>
    (\<forall>p \<in> set ps. dirty p \<longrightarrow> unat (block_id p) * B + unat (p_size p) \<le> length F' \<and> (\<forall>j < unat (p_size p). F' ! (unat (block_id p) * B + j) = p_buffer p ! j)) \<and>
    (\<forall>i < length F. (\<forall>p \<in> set ps. dirty p \<longrightarrow> i div B \<noteq> unat (block_id p)) \<longrightarrow> F' ! i = F ! i)"
  using assms(1,3,4)
proof (induction ps arbitrary: m F)
  case Nil
  then show ?case by auto
next
  case (Cons p ps)
  have B: "0 < B" "C < 2 ^ 60" "B < 2 ^ 31" using good_env [OF Cons.prems(1)] by (auto simp: B_def)
  let ?a = "unat (block_id p) * B" and ?k = "unat (p_size p)"
  have p: "length (p_buffer p) = B" "0 < ?k" "?k \<le> B" "?a + ?k \<le> unat (n_size n)" using Cons.prems(3) by (auto simp: fits_def B_def)
  have ids: "distinct (map block_id ps)" "block_id p \<notin> block_id ` set ps" "\<forall>p \<in> set ps. fits n p" using Cons.prems(2,3) by auto
  show ?case
  proof (cases "dirty p")
    case False
    then have "clean p = p" by (intro vfs_page.equality) simp_all
    moreover obtain m' F' where "flush_pages wr ps 0 n m = Some (0, map clean ps, n, m')" "good n m' F' C" "held m' = held m" "length F \<le> length F'"
      "\<forall>q \<in> set ps. dirty q \<longrightarrow> unat (block_id q) * B + unat (p_size q) \<le> length F' \<and> (\<forall>j < unat (p_size q). F' ! (unat (block_id q) * B + j) = p_buffer q ! j)"
      "\<forall>i < length F. (\<forall>q \<in> set ps. dirty q \<longrightarrow> i div B \<noteq> unat (block_id q)) \<longrightarrow> F' ! i = F ! i"
      using Cons.IH [OF Cons.prems(1) ids(1,3)] by auto
    ultimately show ?thesis using False by (intro exI [of _ m'] exI [of _ F']) simp
  next
    case True
    let ?off = "block_id p * ucast (block_size n)"
    have off: "unat ?off = ?a" using p(4) assms(2) B(2) by (subst unat_mult_nowrap) (simp_all add: unat_ucast_up B_def)
    have "0 < ?k" "?k < 2 ^ 31" "?k \<le> length (p_buffer p)" "unat ?off + ?k \<le> C" using p B(3) off assms(2) by linarith+
    from good_write [OF Cons.prems(1) this] obtain F1 t d where
      w: "wr n ?off (p_size p) (p_buffer p) m = Some (int ?k, n\<lparr>n_size := max (n_size n) (?off + ucast (p_size p))\<rparr>, m\<lparr>ticks := t, sectors := d\<rparr>)"
      "good n (m\<lparr>ticks := t, sectors := d\<rparr>) F1 C" "stored F ?a ?a (?a + ?k) (p_buffer p) F1" unfolding off by auto
    have "unat (?off + ucast (p_size p)) = ?a + ?k" using off p(4) assms(2) B(2) by (subst unat_add_nowrap) (simp_all add: unat_ucast_up)
    then have "?off + ucast (p_size p) \<le> n_size n" using p(4) by (simp add: word_le_nat_alt)
    then have n: "n\<lparr>n_size := max (n_size n) (?off + ucast (p_size p))\<rparr> = n" by (simp add: max_absorb1)
    have st: "length F \<le> length F1" "?a + ?k \<le> length F1" "\<And>j. j < ?k \<Longrightarrow> F1 ! (?a + j) = p_buffer p ! j"
      "\<And>i. i < length F \<Longrightarrow> i div B \<noteq> unat (block_id p) \<Longrightarrow> F1 ! i = F ! i"
      using w(3) p(3) block_inside [OF B(1), of _ "unat (block_id p)"] by (auto simp: stored_def)
    obtain m' F' where r: "flush_pages wr ps 0 n (m\<lparr>ticks := t, sectors := d\<rparr>) = Some (0, map clean ps, n, m')" "good n m' F' C" "held m' = held m" "length F1 \<le> length F'"
      "\<forall>q \<in> set ps. dirty q \<longrightarrow> unat (block_id q) * B + unat (p_size q) \<le> length F' \<and> (\<forall>j < unat (p_size q). F' ! (unat (block_id q) * B + j) = p_buffer q ! j)"
      "\<forall>i < length F1. (\<forall>q \<in> set ps. dirty q \<longrightarrow> i div B \<noteq> unat (block_id q)) \<longrightarrow> F' ! i = F1 ! i"
      using Cons.IH [OF w(2) ids(1,3)] by auto
    have "F' ! (?a + j) = p_buffer p ! j" if j: "j < ?k" for j
    proof -
      have "(?a + j) div B = unat (block_id p)" using block_inside [OF B(1)] j p(3) by simp
      moreover have "unat (block_id q) \<noteq> unat (block_id p)" if "q \<in> set ps" for q using ids(2) imageI [OF that, of block_id] by (auto simp: word_unat_eq_iff [symmetric])
      ultimately have "\<forall>q \<in> set ps. dirty q \<longrightarrow> (?a + j) div B \<noteq> unat (block_id q)" by metis
      moreover have "?a + j < length F1" using st(2) j by linarith
      ultimately have "F' ! (?a + j) = F1 ! (?a + j)" using r(6) by blast
      then show ?thesis using st(3) [OF j] by simp
    qed
    moreover have "F' ! i = F ! i" if "i < length F" "\<forall>q \<in> set (p # ps). dirty q \<longrightarrow> i div B \<noteq> unat (block_id q)" for i
      using that True r(6) st(1,4) by auto
    moreover have "0 < p_size p" using p(2) by (simp add: word_less_nat_alt)
    then have "flush_pages wr (p # ps) 0 n m = Some (0, map clean (p # ps), n, m')" using True w(1) r(1) unfolding n by simp
    ultimately show ?thesis using r(2,3,4,5) st(1,2) by (intro exI [of _ m'] exI [of _ F']) auto
  qed
qed

lemma flush_view:
  assumes inv: "cinv s F C"
  shows "\<exists>s1 F'. vfs_flush (Some D) s = Some (0, s1) \<and> cinv s1 F' C \<and> v_node s1 = v_node s \<and> file_view s1 F' = file_view s F \<and>
    unat (n_size (v_node s)) \<le> length F' \<and> take (unat (n_size (v_node s))) F' = file_view s F"
proof -
  note c = cinvD [OF inv]
  let ?n = "v_node s" and ?ps = "v_pages s" and ?B = "unat (block_size (v_node s))"
  obtain m' F' where f: "flush_pages wr ?ps 0 ?n (v_med s) = Some (0, map clean ?ps, ?n, m')" "good ?n m' F' C" "held m' = held (v_med s)" "length F \<le> length F'"
    "\<forall>p \<in> set ?ps. dirty p \<longrightarrow> unat (block_id p) * ?B + unat (p_size p) \<le> length F' \<and> (\<forall>j < unat (p_size p). F' ! (unat (block_id p) * ?B + j) = p_buffer p ! j)"
    "\<forall>i < length F. (\<forall>p \<in> set ?ps. dirty p \<longrightarrow> i div ?B \<noteq> unat (block_id p)) \<longrightarrow> F' ! i = F ! i"
    using flush_pages_spec [OF c(1,2,3)] page_ok_fits [OF c(4) c(8)] by blast
  obtain t where sy: "fl ?n m' = (0, m'\<lparr>ticks := t\<rparr>)" using good_sync [OF f(2)] by blast
  let ?m = "m'\<lparr>ticks := t\<rparr>"
  let ?s = "\<lparr>v_node = ?n, v_pages = map clean ?ps, v_med = ?m\<rparr>"
  note at = page_at_clean [of _ ?ps]
  have cl: "unat (block_id p) * ?B + j < length F' \<and> p_buffer p ! j = F' ! (unat (block_id p) * ?B + j)" if p: "p \<in> set ?ps" "j < unat (p_size p)" for p j
  proof (cases "dirty p")
    case True
    then show ?thesis using f(5) p by (auto dest!: bspec)
  next
    case False
    let ?i = "unat (block_id p) * ?B + j"
    have F: "?i < length F" "p_buffer p ! j = F ! ?i" "unat (p_size p) \<le> ?B" using c(4) [OF p(1)] False p(2) by (auto simp: page_ok_def Let_def)
    have "?i div ?B = unat (block_id p)" using block_inside [OF c(8)] F(3) p(2) by simp
    moreover have "q = p" if "q \<in> set ?ps" "unat (block_id q) = unat (block_id p)" for q
      using that page_at_iff [OF c(3), of "block_id p"] p(1) by (metis option.inject word_unat_eq_iff)
    ultimately have "\<forall>q \<in> set ?ps. dirty q \<longrightarrow> ?i div ?B \<noteq> unat (block_id q)" using False by metis
    then have "F' ! ?i = F ! ?i" using f(6) F(1) by blast
    then show ?thesis using F f(4) by simp
  qed
  have "page_ok ?n F' (clean p)" if "p \<in> set ?ps" for p using c(4) [OF that] cl [OF that] by (simp add: page_ok_def Let_def)
  moreover have "i < length F'" if "i < unat (n_size ?n)" "page_at (of_nat (i div ?B)) ?ps = None" for i using c(5) [OF that] f(4) by simp
  moreover have "good ?n ?m F' C" using good_med [OF f(2), where t = t and h = "held m'" and k = "heap_blocks m'"] by simp
  moreover have bc: "block_id \<circ> clean = block_id" by (rule ext) simp
  ultimately have inv': "cinv ?s F' C" using c(2,3,6) f(3) unfolding cinv_def by (simp add: at bc)
  have lk: "i < length F' \<and> F' ! i = look s F i \<and> look ?s F' i = look s F i" if i: "i < unat (n_size ?n)" for i
  proof (cases "page_at (of_nat (i div ?B)) ?ps")
    case None
    have "i div ?B \<noteq> unat (block_id p)" if "p \<in> set ?ps" for p
    proof
      assume "i div ?B = unat (block_id p)"
      then have "of_nat (i div ?B) = block_id p" by simp
      then show False using None that by (auto simp: page_at_None)
    qed
    then have "F' ! i = F ! i" using f(6) c(5) [OF i None] by blast
    then show ?thesis using c(5) [OF i None] f(4) None by (simp add: look_def Let_def at)
  next
    case (Some p)
    have p: "p \<in> set ?ps" "block_id p = of_nat (i div ?B)" using page_at_mem [OF Some] by auto
    then have d: "i div ?B = unat (block_id p)" using block_number [of i ?B "block_id p"] i c(2,12) by simp
    then have e: "unat (block_id p) * ?B + i mod ?B = i" by (metis div_mult_mod_eq)
    have "i mod ?B < unat (p_size p)" using c(4) [OF p(1)] e i c(8) mod_less_divisor [of ?B i] by (auto simp: page_ok_def Let_def)
    from cl [OF p(1) this] show ?thesis unfolding e using Some by (simp add: look_def Let_def at)
  qed
  have "unat (n_size ?n) \<le> length F'" using lk by (metis less_irrefl not_le)
  moreover have "take (unat (n_size ?n)) F' = file_view s F"
    by (rule nth_equalityI) (use lk calculation in \<open>simp_all add: file_view_def\<close>)
  moreover have "file_view ?s F' = file_view s F" using lk by (simp add: file_view_def)
  moreover have "vfs_flush (Some D) s = Some (0, ?s)" using f(1) sy table c(8) by (auto simp: vfs_flush_def Let_def)
  ultimately show ?thesis using inv' by (intro exI [of _ ?s] exI [of _ F']) simp
qed

end

section \<open>Runs\<close>

text \<open>A program that reads, writes and flushes an open file, and what it does to a list of bytes.\<close>

datatype file_call = Read_at u64 u32 | Write_at u64 "u8 list" | Flush_file

fun file_calls ::
  "outcomes \<Rightarrow> (nat \<Rightarrow> nat \<Rightarrow> u8) \<Rightarrow> file_ops option \<Rightarrow> file_call list \<Rightarrow> vfile \<Rightarrow> ((int \<times> u8 list) list \<times> vfile) option" where
  "file_calls E fresh D [] s = Some ([], s)"
| "file_calls E fresh D (c # cs) s =
     do {
       (o1, s1) \<leftarrow> (case c of
           Read_at off sz \<Rightarrow> do { (r, d, s1) \<leftarrow> vfs_read E fresh D off sz (replicate (unat sz) 0) s; Some ((r, d), s1) }
         | Write_at off ys \<Rightarrow> do { (r, s1) \<leftarrow> vfs_write E fresh D off (of_nat (length ys)) ys s; Some ((r, []), s1) }
         | Flush_file \<Rightarrow> do { (r, s1) \<leftarrow> vfs_flush D s; Some ((r, []), s1) });
       (os, s2) \<leftarrow> file_calls E fresh D cs s1;
       Some (o1 # os, s2)
     }"

fun bytes_calls :: "file_call list \<Rightarrow> u8 list \<Rightarrow> (int \<times> u8 list) list \<times> u8 list" where
  "bytes_calls [] xs = ([], xs)"
| "bytes_calls (Read_at off sz # cs) xs =
     (let y = take (unat sz) (drop (unat off) xs); r = bytes_calls cs xs in
      ((int (length y), y @ replicate (unat sz - length y) 0) # fst r, snd r))"
| "bytes_calls (Write_at off ys # cs) xs =
     (let r = bytes_calls cs (take (unat off) xs @ ys @ drop (unat off + length ys) xs) in ((int (length ys), []) # fst r, snd r))"
| "bytes_calls (Flush_file # cs) xs = (let r = bytes_calls cs xs in ((0, []) # fst r, snd r))"

text \<open>Writes leave no gap behind the end of the file and stay within a limit.\<close>

fun no_gaps :: "nat \<Rightarrow> file_call list \<Rightarrow> u8 list \<Rightarrow> bool" where
  "no_gaps C [] xs = True"
| "no_gaps C (Read_at off sz # cs) xs = (unat sz < 2 ^ 31 \<and> unat off + unat sz < 2 ^ 64 \<and> no_gaps C cs xs)"
| "no_gaps C (Write_at off ys # cs) xs =
     (unat off \<le> length xs \<and> length ys < 2 ^ 31 \<and> unat off + length ys \<le> C \<and> no_gaps C cs (take (unat off) xs @ ys @ drop (unat off + length ys) xs))"
| "no_gaps C (Flush_file # cs) xs = no_gaps C cs xs"

context block_store
begin

lemma calls_view:
  "cinv s F C \<Longrightarrow> no_gaps C cs (file_view s F) \<Longrightarrow>
    \<exists>s1 F'. file_calls E fresh (Some D) cs s = Some (fst (bytes_calls cs (file_view s F)), s1) \<and> cinv s1 F' C \<and> file_view s1 F' = snd (bytes_calls cs (file_view s F))"
proof (induction cs arbitrary: s F)
  case Nil
  then show ?case by auto
next
  case (Cons c cs)
  show ?case
  proof (cases c)
    case (Read_at off sz)
    let ?y = "take (unat sz) (drop (unat off) (file_view s F))"
    obtain s1 F1 where r: "vfs_read E fresh (Some D) off sz (replicate (unat sz) 0) s = Some (int (length ?y), ?y @ drop (length ?y) (replicate (unat sz) 0), s1)"
      "cinv s1 F1 C" "file_view s1 F1 = file_view s F"
      using read_view [OF Cons.prems(1), of sz "replicate (unat sz) 0" off fresh] Cons.prems(2) Read_at by auto
    from Cons.IH [OF r(2)] Cons.prems(2) r(1,3) Read_at show ?thesis by (auto simp: Let_def)
  next
    case (Write_at off ys)
    have l: "unat (of_nat (length ys) :: u32) = length ys" using Cons.prems(2) Write_at by (intro unat_of_nat_id) simp
    obtain s1 F1 where r: "vfs_write E fresh (Some D) off (of_nat (length ys)) ys s = Some (int (length ys), s1)" "cinv s1 F1 C"
      "file_view s1 F1 = take (unat off) (file_view s F) @ ys @ drop (unat off + length ys) (file_view s F)"
      using write_view [OF Cons.prems(1), of "of_nat (length ys)" ys off fresh] Cons.prems(2) Write_at l by auto
    from Cons.IH [OF r(2)] Cons.prems(2) r(1,3) Write_at show ?thesis by (auto simp: Let_def)
  next
    case Flush_file
    obtain s1 F1 where r: "vfs_flush (Some D) s = Some (0, s1)" "cinv s1 F1 C" "file_view s1 F1 = file_view s F"
      using flush_view [OF Cons.prems(1)] by blast
    from Cons.IH [OF r(2)] Cons.prems(2) r(1,3) Flush_file show ?thesis by (auto simp: Let_def)
  qed
qed

text \<open>A file that was just opened has no pages.\<close>

lemma opened:
  assumes "good n m F C" "unat (n_size n) \<le> length F"
  shows "cinv \<lparr>v_node = n, v_pages = [], v_med = m\<rparr> F C" "file_view \<lparr>v_node = n, v_pages = [], v_med = m\<rparr> F = take (unat (n_size n)) F"
proof -
  show "cinv \<lparr>v_node = n, v_pages = [], v_med = m\<rparr> F C" using assms good_env [OF assms(1)] by (auto simp: cinv_def)
  show "file_view \<lparr>v_node = n, v_pages = [], v_med = m\<rparr> F = take (unat (n_size n)) F"
    by (rule nth_equalityI) (use assms(2) in \<open>simp_all add: file_view_def look_def Let_def\<close>)
qed

end

section \<open>The FAT32 driver as a store of blocks\<close>

definition fat_good :: "outcomes \<Rightarrow> fat32_volume \<Rightarrow> vfs_node \<Rightarrow> medium \<Rightarrow> u8 list \<Rightarrow> nat \<Rightarrow> bool" where
  "fat_good E vol n m F C \<longleftrightarrow> reliable E \<and> vol_ok vol \<and> med_ok vol m \<and> block_size n = bytes_per_cluster vol \<and> unat (bytes_per_cluster vol) < 2 ^ 31 \<and>
     n_flags n AND VFS_DIRECTORY = 0 \<and> (\<exists>cs. chain_ok vol (sectors m) cs \<and> inode n = hd cs \<and> F = file_bytes vol (sectors m) cs \<and>
       C = unat (bytes_per_cluster vol) * (length cs + card (avail vol (sectors m))))"

lemma fat_good_read:
  assumes g: "fat_good E vol n m F C" and sz: "0 < unat sz" "unat sz < 2 ^ 31" "unat sz \<le> space" and off: "unat off + unat sz \<le> unat (n_size n)" "unat off + unat sz \<le> length F"
  shows "\<exists>t. fat32_read E vol n off sz space m = Some (int (unat sz), take (unat sz) (drop (unat off) F), m\<lparr>ticks := t\<rparr>)"
proof -
  obtain cs where c: "chain_ok vol (sectors m) cs" "inode n = hd cs" "F = file_bytes vol (sectors m) cs" and v: "vol_ok vol" "reliable E" "med_ok vol m"
    "n_flags n AND VFS_DIRECTORY = 0" using g by (auto simp: fat_good_def)
  obtain c0 cs0 where cs: "cs = c0 # cs0" using c(1) by (cases cs) (auto simp: chain_ok_def)
  have hd: "inode n = c0" using c(2) cs by simp
  have len: "length F = unat (bytes_per_cluster vol) * length (inode n # cs0)" unfolding c(3) cs hd using file_bytes_length [OF _ v(1), of "sectors m" "c0 # cs0"] v(3) by blast
  have "unat off + unat sz < 2 ^ 64" using off(1) unsigned_less [of "n_size n", where 'a = nat] by (simp add: le_less_trans)
  then obtain r x t where r: "fat32_read E vol n off sz space m = Some (r, x, m\<lparr>ticks := t\<rparr>)" "r = int (length x) \<or> r = -1 \<and> x = [] \<and> \<not> reliable E"
    "read_result E (min (unat sz) (unat (n_size n) - unat off)) (drop (unat off) F) x"
    using fat32_read_part [OF v(1,3) _ v(4) _ sz(2,3), of cs0 off E] c(1,3) cs hd off sz(1) len by fastforce
  have "min (unat sz) (unat (n_size n) - unat off) = unat sz" using off(1) by simp
  then have "x = take (unat sz) (drop (unat off) F)" "length x = unat sz" using read_resultD(2) [OF r(3) v(2)] r(3) v(2) by (auto simp: read_result_def)
  then show ?thesis using r(1,2) v(2) by auto
qed

interpretation fat_store: block_store E "fat32_file_ops E vol" "fat32_read E vol" "fat32_write E vol" "fat32_flush E (Some vol)" "fat_good E vol"
  for E vol
proof unfold_locales
  show "f_read (fat32_file_ops E vol) = Some (fat32_read E vol)" "f_write (fat32_file_ops E vol) = Some (fat32_write E vol)"
    "f_flush (fat32_file_ops E vol) = Some (fat32_flush E (Some vol))" by (simp_all add: fat32_file_ops_def)
next
  fix n m F C assume g: "fat_good E vol n m F C"
  then obtain cs where c: "chain_ok vol (sectors m) cs" "F = file_bytes vol (sectors m) cs" "C = unat (bytes_per_cluster vol) * (length cs + card (avail vol (sectors m)))"
    and v: "vol_ok vol" "med_ok vol m" by (auto simp: fat_good_def)
  have "length F = unat (bytes_per_cluster vol) * length cs" using file_bytes_length [OF _ v(1)] v(2) c(2) by simp
  then show "reliable E \<and> 0 < unat (block_size n) \<and> unat (block_size n) < 2 ^ 31 \<and> unat (block_size n) dvd length F \<and> length F \<le> C \<and> C < 2 ^ 60 \<and> n_flags n AND VFS_DIRECTORY = 0"
    using g capacity_bound [OF v(1) c(1)] c(3) vol_okD(1,3,4) [OF v(1)] by (simp add: fat_good_def)
next
  fix n m F C z t h k assume "fat_good E vol n m F C"
  then show "fat_good E vol (n\<lparr>n_size := z\<rparr>) (m\<lparr>ticks := t, held := h, heap_blocks := k\<rparr>) F C" by (simp add: fat_good_def)
next
  fix n m F C and sz :: u32 and buf :: "u8 list" and off :: u64 assume g: "fat_good E vol n m F C" and sz: "0 < unat sz" "unat sz < 2 ^ 31" "unat sz \<le> length buf" "unat off + unat sz \<le> C"
  obtain cs where c: "chain_ok vol (sectors m) cs" "inode n = hd cs" "F = file_bytes vol (sectors m) cs" "C = unat (bytes_per_cluster vol) * (length cs + card (avail vol (sectors m)))"
    and v: "vol_ok vol" "reliable E" "med_ok vol m" "n_flags n AND VFS_DIRECTORY = 0" using g by (auto simp: fat_good_def)
  obtain cs' t d where w: "fat32_write E vol n off sz buf m = Some (int (unat sz), n\<lparr>n_size := max (n_size n) (off + ucast sz)\<rparr>, m\<lparr>ticks := t, sectors := d\<rparr>)"
    "grows vol (sectors m) cs d cs'" "stored F (unat off) (unat off) (unat off + unat sz) buf (file_bytes vol d cs')"
    using fat32_write_spec [OF v(1-3) c(1,2) v(4) sz(1-3)] sz(4) c(3,4) by blast
  have "hd cs' = hd cs" using w(2) c(1) by (auto simp: grows_def chain_ok_def linked_iff)
  then have "fat_good E vol n (m\<lparr>ticks := t, sectors := d\<rparr>) (file_bytes vol d cs') C"
    using g w(2) c(2,4) grows_avail(2) [OF v(1) c(1) w(2)] v(3) by (auto simp: fat_good_def grows_def add.commute)
  then show "\<exists>F' t d. fat32_write E vol n off sz buf m = Some (int (unat sz), n\<lparr>n_size := max (n_size n) (off + ucast sz)\<rparr>, m\<lparr>ticks := t, sectors := d\<rparr>) \<and>
      fat_good E vol n (m\<lparr>ticks := t, sectors := d\<rparr>) F' C \<and> stored F (unat off) (unat off) (unat off + unat sz) buf F'" using w(1,3) by blast
next
  fix n m F C assume "fat_good E vol n m F C"
  then show "\<exists>t. fat32_flush E (Some vol) n m = (0, m\<lparr>ticks := t\<rparr>)"
    by (cases "has_ioctl m") (auto simp: fat32_flush_def fat_good_def reliable_def intro: exI [of _ "ticks m"])
qed (rule fat_good_read)

section \<open>Properties\<close>

text \<open>C33: An open file behaves like a list of bytes. Take a regular file of a FAT32 volume that was just opened, its bytes covered by its chain of
  clusters, and no failing request. Every sequence of reads, writes without a gap behind the end, within the free space, and flushes through the page cache returns
  what the same sequence on the list of its bytes returns, whatever the pool buffers contained before. A flush at the end succeeds, and then the bytes of the
  chain on the medium are exactly the resulting list.\<close>

theorem cached_file_refines:
  assumes v: "vol_ok vol" and E: "reliable E" and m: "med_ok vol m" and ch: "chain_ok vol (sectors m) cs" "inode node = hd cs"
    and n: "block_size node = bytes_per_cluster vol" "unat (bytes_per_cluster vol) < 2 ^ 31" "n_flags node AND VFS_DIRECTORY = 0"
    and sz: "unat (n_size node) \<le> length (file_bytes vol (sectors m) cs)"
    and calls: "no_gaps (unat (bytes_per_cluster vol) * (length cs + card (avail vol (sectors m)))) calls (fat_content vol node m cs)"
  shows "\<exists>s s2 cs2. file_calls E fresh (Some (fat32_file_ops E vol)) calls \<lparr>v_node = node, v_pages = [], v_med = m\<rparr> =
       Some (fst (bytes_calls calls (fat_content vol node m cs)), s) \<and>
     vfs_flush (Some (fat32_file_ops E vol)) s = Some (0, s2) \<and> chain_ok vol (sectors (v_med s2)) cs2 \<and> inode (v_node s2) = hd cs2 \<and>
     fat_content vol (v_node s2) (v_med s2) cs2 = snd (bytes_calls calls (fat_content vol node m cs))"
proof -
  let ?F = "file_bytes vol (sectors m) cs" and ?C = "unat (bytes_per_cluster vol) * (length cs + card (avail vol (sectors m)))"
  let ?s = "\<lparr>v_node = node, v_pages = [], v_med = m\<rparr>"
  have "fat_good E vol node m ?F ?C" using assms(1-8) by (auto simp: fat_good_def)
  note o = fat_store.opened [OF this sz]
  have view: "file_view ?s ?F = fat_content vol node m cs" using o(2) by (simp add: fat_content_def)
  obtain s1 F1 where r: "file_calls E fresh (Some (fat32_file_ops E vol)) calls ?s = Some (fst (bytes_calls calls (fat_content vol node m cs)), s1)"
    "fat_store.cinv E vol s1 F1 ?C" "file_view s1 F1 = snd (bytes_calls calls (fat_content vol node m cs))"
    using fat_store.calls_view [OF o(1), of calls fresh] calls unfolding view by blast
  obtain s2 F2 where f: "vfs_flush (Some (fat32_file_ops E vol)) s1 = Some (0, s2)" "fat_store.cinv E vol s2 F2 ?C" "v_node s2 = v_node s1"
    "take (unat (n_size (v_node s1))) F2 = file_view s1 F1" using fat_store.flush_view [OF r(2)] by blast
  obtain cs2 where "chain_ok vol (sectors (v_med s2)) cs2" "inode (v_node s2) = hd cs2" "F2 = file_bytes vol (sectors (v_med s2)) cs2"
    using fat_store.cinvD(1) [OF f(2)] by (auto simp: fat_good_def)
  then show ?thesis using r(1,3) f(1,3,4) by (auto simp: fat_content_def)
qed

theorem cached_file_refines_witness:
  "\<exists>s. file_calls fenv (\<lambda>_ _. 42) (Some (fat32_file_ops fenv fvol)) [Write_at 3 (replicate 12 7), Read_at 2 2, Write_at 1 [9, 9], Read_at 0 20, Flush_file]
     \<lparr>v_node = fnode\<lparr>block_size := 8\<rparr>, v_pages = [], v_med = fmed\<rparr> =
   Some ([(12, []), (2, [0, 7]), (2, []), (15, [0, 9, 9] @ replicate 12 7 @ replicate 5 0), (0, [])], s)"
proof -
  let ?n = "fnode\<lparr>block_size := 8\<rparr>"
  let ?calls = "[Write_at 3 (replicate 12 7), Read_at 2 2, Write_at 1 [9, 9], Read_at 0 20, Flush_file]"
  have i: "inode ?n = hd [2]" "n_flags ?n AND VFS_DIRECTORY = 0" "n_size ?n = 3" "block_size ?n = bytes_per_cluster fvol" "unat (bytes_per_cluster fvol) < 2 ^ 31"
    by (simp_all add: fnode_def node0_def fvol_def)
  have F: "file_bytes fvol (sectors fmed) [2] = replicate 8 0" by (simp add: cdata_def fvol_def fmed_def cluster_to_sector_def)
  have r: "replicate 12 (7 :: u8) = [7, 7, 7, 7, 7, 7, 7, 7, 7, 7, 7, 7]" "replicate 8 (0 :: u8) = [0, 0, 0, 0, 0, 0, 0, 0]" by (simp_all add: eval_nat_numeral)
  have c: "fat_content fvol ?n fmed [2] = [0, 0, 0]" unfolding fat_content_def i(3) F r by simp
  have "0 < card (avail fvol (sectors fmed))" using fmed_chain(2) by (auto simp: card_gt_0_iff)
  then have "16 \<le> unat (bytes_per_cluster fvol) * (length [2 :: u32] + card (avail fvol (sectors fmed)))" by (simp add: fvol_def)
  then have g: "no_gaps (unat (bytes_per_cluster fvol) * (length [2 :: u32] + card (avail fvol (sectors fmed)))) ?calls (fat_content fvol ?n fmed [2])"
    unfolding c r by simp
  have b: "fst (bytes_calls ?calls [0, 0, 0]) = [(12, []), (2, [0, 7]), (2, []), (15, [0, 9, 9] @ replicate 12 7 @ replicate 5 0), (0, [])]" by code_simp
  have "unat (n_size ?n) \<le> length (file_bytes fvol (sectors fmed) [2])" unfolding i(3) F by simp
  from cached_file_refines [OF fvol_ok(1) fenv_ok fmed_ok fmed_chain(1) i(1,4,5,2) this g, of "\<lambda>_ _. 42"] show ?thesis unfolding c b by blast
qed

section \<open>Defects\<close>

text \<open>On a full volume the seek behind the chain fails and the driver returns 0.\<close>

lemma next_full:
  assumes v: "vol_ok vol" and E: "reliable E" and m: "med_ok vol m" and ch: "chain_ok vol (sectors m) cs" and f: "full vol (sectors m)" and k: "k < length cs"
  shows "\<exists>t. next_or_new E vol (cs ! k) m = Some (if Suc k < length cs then Some (cs ! Suc k) else None, m\<lparr>ticks := t\<rparr>)"
proof -
  have l: "\<And>k. Suc k < length cs \<Longrightarrow> tab vol (sectors m) (cs ! k) = cs ! Suc k" "\<And>c. c \<in> set cs \<Longrightarrow> cluster_ok vol c"
    "FAT32_EOF \<le> tab vol (sectors m) (last cs)" using ch by (auto simp: chain_ok_def linked_iff)
  have "unat (cs ! k) < 2 ^ 28" using cluster_okD(1) [OF v] l(2) k by simp
  then obtain t where g: "fat32_get_next_cluster E vol (cs ! k) m = Some (tab vol (sectors m) (cs ! k), m\<lparr>ticks := t\<rparr>)"
    using get_next_spec [OF v m, of "cs ! k" E] E by auto
  show ?thesis
  proof (cases "Suc k < length cs")
    case True
    have "cs ! Suc k < FAT32_BAD_CLUSTER" using cluster_okD(4) [OF v] l(2) True by simp
    then show ?thesis using g end_mark l(1) [OF True] True by (simp add: next_or_new_def) (metis)
  next
    case False
    then have "cs ! k = last cs" using k by (metis One_nat_def Suc_lessI diff_Suc_1 last_conv_nth length_0_conv not_less_zero)
    moreover obtain r t1 d where a: "fat32_allocate_cluster E vol (m\<lparr>ticks := t\<rparr>) = Some (r, m\<lparr>ticks := t1, sectors := d\<rparr>)" "alloc_result E vol (sectors m) r d"
      using allocate_spec [OF v, of "m\<lparr>ticks := t\<rparr>" E] m by auto
    moreover have "d = sectors m" "r = FAT32_BAD_CLUSTER" using a(2) E f by (auto simp: alloc_result_def full_def allocated_def)
    ultimately have "next_or_new E vol (cs ! k) m = Some (None, m\<lparr>ticks := t1\<rparr>)" using g l(3) by (simp add: next_or_new_def)
    then show ?thesis using False by auto
  qed
qed

lemma seek_full:
  assumes v: "vol_ok vol" and E: "reliable E"
  defines "B \<equiv> unat (bytes_per_cluster vol)"
  shows "med_ok vol m \<Longrightarrow> chain_ok vol (sectors m) cs \<Longrightarrow> full vol (sectors m) \<Longrightarrow> k < length cs \<Longrightarrow> unat cur = B * k \<Longrightarrow> B * length cs \<le> unat off \<Longrightarrow>
    \<exists>cur' t. write_seek E vol off (cs ! k) cur m = Some (None, cur', m\<lparr>ticks := t\<rparr>)"
proof (induction "length cs - k" arbitrary: k cur m rule: less_induct)
  case less
  note h = less.prems
  have "B * Suc k \<le> B * length cs" using h(4) by (intro mult_le_mono2) simp
  then have le: "B * Suc k \<le> unat off" using h(6) by linarith
  have u: "unat (cur + ucast (bytes_per_cluster vol)) = B * Suc k"
  proof -
    have "B * Suc k < 2 ^ 64" using le_less_trans [OF le unat_lt64] by simp
    then have "unat cur + B < 2 ^ 64" using h(5) by (simp add: algebra_simps)
    then show ?thesis using h(5) by (subst unat_add_nowrap) (simp_all add: unat_ucast_up B_def)
  qed
  then have go: "cur + ucast (bytes_per_cluster vol) \<le> off" using le by (simp add: word_le_nat_alt)
  obtain t where n: "next_or_new E vol (cs ! k) m = Some (if Suc k < length cs then Some (cs ! Suc k) else None, m\<lparr>ticks := t\<rparr>)"
    using next_full [OF v E h(1-4)] by blast
  show ?case
  proof (cases "Suc k < length cs")
    case True
    have "\<exists>cur' t'. write_seek E vol off (cs ! Suc k) (cur + ucast (bytes_per_cluster vol)) (m\<lparr>ticks := t\<rparr>) = Some (None, cur', (m\<lparr>ticks := t\<rparr>)\<lparr>ticks := t'\<rparr>)"
      by (rule less.hyps) (use h True u in simp_all)
    then show ?thesis using go n True by (subst write_seek.simps) simp
  next
    case False
    then show ?thesis using go n by (subst write_seek.simps) auto
  qed
qed

lemma write_full:
  assumes v: "vol_ok vol" and E: "reliable E" and m: "med_ok vol m" and ch: "chain_ok vol (sectors m) cs" "inode n = hd cs"
    and f: "full vol (sectors m)" and fl: "n_flags n AND VFS_DIRECTORY = 0" and off: "unat (bytes_per_cluster vol) * length cs \<le> unat off"
  shows "\<exists>t. fat32_write E vol n off sz buf m = Some (0, n, m\<lparr>ticks := t\<rparr>)"
proof -
  have ne: "cs \<noteq> []" using ch(1) by (auto simp: chain_ok_def)
  then have cs: "0 < length cs" "inode n = cs ! 0" "inode n \<noteq> 0" using ch cluster_okD(5) [OF v, of "hd cs"] by (auto simp: chain_ok_def hd_conv_nth)
  obtain cur t where "write_seek E vol off (cs ! 0) 0 m = Some (None, cur, m\<lparr>ticks := t\<rparr>)"
    using seek_full [OF v E m ch(1) f cs(1), of 0 off] off by auto
  then show ?thesis using cs fl by (auto simp: fat32_write_def)
qed

text \<open>Dropping pages only changes the pages and the accounts of the memory.\<close>

lemma invalidate_keeps: "invalidate bs b ps m = Some (qs, m') \<Longrightarrow> sectors m' = sectors m \<and> sector_size m' = sector_size m"
  by (induction ps arbitrary: qs m') (auto simp: bind_eq_Some_conv pool_put_def heap_put_def split: if_splits)

lemma drop_keeps: "drop_blocks bids s = Some s1 \<Longrightarrow> v_node s1 = v_node s \<and> sectors (v_med s1) = sectors (v_med s) \<and> sector_size (v_med s1) = sector_size (v_med s)"
  by (induction bids arbitrary: s) (auto simp: bind_eq_Some_conv vfs_invalidate_cache_page_def dest!: invalidate_keeps)

text \<open>A write of whole blocks at the end of a file on a full volume does not return: the driver reports 0 bytes, which is no error, and the loop tries
  the same transfer again, without end.\<close>

definition stuck :: "outcomes \<Rightarrow> fat32_volume \<Rightarrow> u32 list \<Rightarrow> u64 \<Rightarrow> u32 \<Rightarrow> u32 \<Rightarrow> vfile \<Rightarrow> bool" where
  "stuck E vol cs offset sz ntotal s \<longleftrightarrow> vol_ok vol \<and> reliable E \<and> med_ok vol (v_med s) \<and> chain_ok vol (sectors (v_med s)) cs \<and> inode (v_node s) = hd cs \<and>
     full vol (sectors (v_med s)) \<and> n_flags (v_node s) AND VFS_DIRECTORY = 0 \<and> block_size (v_node s) = bytes_per_cluster vol \<and> ntotal < sz \<and>
     bytes_per_cluster vol \<le> sz - ntotal \<and> (offset + ucast ntotal) mod ucast (bytes_per_cluster vol) = 0 \<and>
     unat (bytes_per_cluster vol) * length cs \<le> unat (offset + ucast ntotal)"

lemma stuck_loop:
  "vfs_write_loop E fresh D offset sz src orig ntotal s = Some r \<Longrightarrow> D = Some (fat32_file_ops E vol) \<longrightarrow> \<not> stuck E vol cs offset sz ntotal s"
proof (induction rule: vfs_write_loop.raw_induct [rotated, consumes 1,
    where P = "\<lambda>E fresh D offset sz src orig ntotal s r. D = Some (fat32_file_ops E vol) \<longrightarrow> \<not> stuck E vol cs offset sz ntotal s"])
  case (1 f E fresh D offset sz src orig ntotal s r)
  show ?case
  proof (intro impI notI)
    assume D: "D = Some (fat32_file_ops E vol)" and st: "stuck E vol cs offset sz ntotal s"
    let ?x = "offset + ucast ntotal :: u64" and ?n = "(sz - ntotal) div bytes_per_cluster vol"
    let ?bids = "map (\<lambda>i. ?x div ucast (bytes_per_cluster vol) + of_nat i) [0..<unat ?n]"
    have dir: "ucast (?x mod ucast (bytes_per_cluster vol)) = (0 :: u32) \<and> bytes_per_cluster vol \<le> sz - ntotal" "ntotal < sz" "block_size (v_node s) = bytes_per_cluster vol"
      using st by (auto simp: stuck_def)
    obtain s1 where d: "drop_blocks ?bids s = Some s1"
      using 1(2) dir D by (auto simp: Let_def bind_eq_Some_conv fat32_file_ops_def)
    note k = drop_keeps [OF d]
    obtain t where w: "fat32_write E vol (v_node s1) ?x (?n * bytes_per_cluster vol) (drop (unat ntotal) src) (v_med s1) = Some (0, v_node s1, (v_med s1)\<lparr>ticks := t\<rparr>)"
      using write_full [of vol E "v_med s1" cs "v_node s1" ?x] st k by (auto simp: stuck_def)
    let ?s = "grow_size ?x (s1\<lparr>v_node := v_node s1, v_med := (v_med s1)\<lparr>ticks := t\<rparr>\<rparr>)"
    have "f E fresh D offset sz src orig ntotal ?s = Some r"
      using 1(2) dir D d w by (auto simp: Let_def bind_eq_Some_conv fat32_file_ops_def)
    moreover have "stuck E vol cs offset sz ntotal ?s" using st k by (simp add: stuck_def grow_size_eq)
    ultimately show False using 1(1) D by blast
  qed
qed

theorem full_volume_write_never_ends:
  assumes "stuck E vol cs offset sz 0 s" "0 < unat (bytes_per_cluster vol)"
  shows "vfs_write E fresh (Some (fat32_file_ops E vol)) offset sz src s = None"
proof -
  have "vfs_write_loop E fresh (Some (fat32_file_ops E vol)) offset sz src (n_size (v_node s)) 0 s = None"
    using stuck_loop [of E fresh "Some (fat32_file_ops E vol)" offset sz src "n_size (v_node s)" 0 s _ vol cs] assms(1) by (cases "vfs_write_loop E fresh (Some (fat32_file_ops E vol)) offset sz src (n_size (v_node s)) 0 s") auto
  moreover have "sz \<noteq> 0" "block_size (v_node s) \<noteq> 0" "n_flags (v_node s) AND VFS_DIRECTORY = 0" using assms by (auto simp: stuck_def)
  ultimately show ?thesis by (simp add: vfs_write_def Let_def)
qed


text \<open>A volume where every entry of the table is the end of a chain: appending a block to the file of one cluster does not return.\<close>

theorem full_volume_write_never_ends_witness:
  "vfs_write fenv (\<lambda>_ _. 42) (Some (fat32_file_ops fenv fvol)) 8 8 (replicate 8 7)
     \<lparr>v_node = fnode\<lparr>block_size := 8, n_size := 8\<rparr>, v_pages = [], v_med = fmed\<lparr>sectors := \<lambda>_. [0xF8, 0xFF, 0xFF, 0x0F, 0xF8, 0xFF, 0xFF, 0x0F]\<rparr>\<rparr> = None"
proof -
  let ?m = "fmed\<lparr>sectors := \<lambda>_. [0xF8, 0xFF, 0xFF, 0x0F, 0xF8, 0xFF, 0xFF, 0x0F]\<rparr>"
  have t: "tab fvol (sectors ?m) c = FAT32_EOF" if "cluster_ok fvol c" for c
  proof -
    have "unat c \<in> set [2..<8]" using that unfolding set_upt by (simp add: cluster_ok_def fvol_ok)
    from imageI [OF this, of "of_nat :: nat \<Rightarrow> u32"] have "c \<in> set (map of_nat [2..<8])" by (simp only: set_map of_nat_unat unsigned_ucast_eq ucast_id)
    then show ?thesis by (auto simp: upt_rec tab_def fat_lba_def fat_idx_def fvol_def rd32_def)
  qed
  have c2: "cluster_ok fvol 2" by (simp add: cluster_ok_def fvol_ok)
  have "full fvol (sectors ?m)" using t by (simp add: full_def)
  moreover have "chain_ok fvol (sectors ?m) [2]" using t [OF c2] c2 by (simp add: chain_ok_def)
  moreover have "med_ok fvol ?m" by (simp add: fvol_def fmed_def disk_ok_def)
  ultimately have "stuck fenv fvol [2] 8 8 0 \<lparr>v_node = fnode\<lparr>block_size := 8, n_size := 8\<rparr>, v_pages = [], v_med = ?m\<rparr>"
    using fvol_ok(1) fenv_ok by (simp add: stuck_def fnode_def fvol_def)
  then show ?thesis by (rule full_volume_write_never_ends) (simp add: fvol_def)
qed


text \<open>A write behind the end of a file does not clear the bytes in between: they are what the new buffer of the page held before, whatever the driver.\<close>

theorem gap_write_exposes_pool:
  "\<exists>s1 s2. vfs_write fenv fresh D 2 1 [7] \<lparr>v_node = fnode\<lparr>block_size := 8, n_size := 0\<rparr>, v_pages = [], v_med = m\<rparr> = Some (1, s1) \<and>
     vfs_read fenv fresh D 0 2 [0, 0] s1 = Some (2, map (fresh (Suc (ticks m))) [0, 1], s2)"
proof -
  let ?s = "\<lparr>v_node = fnode\<lparr>block_size := 8, n_size := 0\<rparr>, v_pages = [], v_med = m\<rparr>"
  let ?buf = "map (fresh (Suc (ticks m))) [0, 1, 2, 3, 4, 5, 6, 7]"
  let ?p = "\<lparr>block_id = 0, p_buffer = ?buf, p_size = 0, dirty = False\<rparr>"
  let ?q = "?p\<lparr>p_buffer := ?buf[2 := 7], p_size := 3, dirty := True\<rparr>"
  have u: "[0..<8] = [0, 1, 2, 3, 4, 5, 6, 7 :: nat]" by (simp add: upt_rec)
  obtain m1 where g: "vfs_get_or_create_page fenv fresh D 0 False ?s = Some (Some ?p, ?s\<lparr>v_pages := [?p], v_med := m1\<rparr>)"
    by (simp add: vfs_get_or_create_page_def Let_def heap_get_def pool_get_def fenv_def u)
  let ?s1 = "\<lparr>v_node = fnode\<lparr>block_size := 8, n_size := 3\<rparr>, v_pages = [?q], v_med = m1\<rparr>"
  have "vfs_write fenv fresh D 2 1 [7] ?s = Some (1, ?s1)"
    using g by (simp add: vfs_write_def fnode_def vfs_write_loop.simps [of fenv fresh D 2 1 "[7]" 0] Let_def memcpy_at_def grow_size_def)
  moreover have "vfs_get_or_create_page fenv fresh D 0 True ?s1 = Some (Some ?q, ?s1)" by (simp add: vfs_get_or_create_page_def)
  then have "vfs_read fenv fresh D 0 2 [0, 0] ?s1 = Some (2, map (fresh (Suc (ticks m))) [0, 1], ?s1)"
    by (simp add: vfs_read_def vfs_read_loop.simps [of fenv fresh D 0 2] Let_def memcpy_at_eq)
  ultimately show ?thesis by blast
qed

end
