(* ===== verification/Vfs.thy ===== *)
theory Vfs
  imports Ramfs
begin

text \<open>
  The names of the virtual file system, \<^verbatim>\<open>src/kernel/fs/vfs/vfs.c\<close>: paths, opening, the operations on directories, positions in open files, and the
  tables of drivers, block devices (\<^verbatim>\<open>src/kernel/drivers/storage/block.c\<close>) and mount points; and the descriptors of \<^verbatim>\<open>vfs_dup2.c\<close>. The
  operations of a driver are a table that is looked up by the pointer in the node; an entry may be missing. The table of the memory file system is
  given, the others are arbitrary. The array that a path is copied into holds the bytes \<open>stack\<close> before.

  The abstract view of a path is the list of its names; the interface \<open>lookup_service\<close> states what the walk along a path needs of the drivers.
\<close>

unbundle bit_operations_syntax

section \<open>Drivers\<close>

record dir_ops =
  o_open :: "(u64 \<Rightarrow> u32 \<Rightarrow> fsys \<Rightarrow> (int \<times> fsys) option) option"
  o_flush :: "(u64 \<Rightarrow> fsys \<Rightarrow> (int \<times> fsys) option) option"
  o_finddir :: "(u64 \<Rightarrow> u8 list option \<Rightarrow> fsys \<Rightarrow> (u64 \<times> fsys) option) option"
  o_readdir :: "(u64 \<Rightarrow> u32 \<Rightarrow> bool \<Rightarrow> fsys \<Rightarrow> (int \<times> vfs_node option \<times> fsys) option) option"
  o_mkdir :: "(u64 \<Rightarrow> u8 list option \<Rightarrow> u16 \<Rightarrow> fsys \<Rightarrow> (int \<times> fsys) option) option"
  o_create :: "(u64 \<Rightarrow> u8 list option \<Rightarrow> u16 \<Rightarrow> fsys \<Rightarrow> (int \<times> fsys) option) option"
  o_unlink :: "(u64 \<Rightarrow> u8 list option \<Rightarrow> fsys \<Rightarrow> (int \<times> fsys) option) option"
  o_rmdir :: "(u64 \<Rightarrow> u8 list option \<Rightarrow> fsys \<Rightarrow> (int \<times> fsys) option) option"
  o_stat :: "(u64 \<Rightarrow> bool \<Rightarrow> fsys \<Rightarrow> (int \<times> vfs_stat option \<times> fsys) option) option"
  o_chmod :: "(u64 \<Rightarrow> u16 \<Rightarrow> fsys \<Rightarrow> (int \<times> fsys) option) option"
  o_rename :: "(u64 \<Rightarrow> u8 list option \<Rightarrow> u64 \<Rightarrow> u8 list option \<Rightarrow> fsys \<Rightarrow> (int \<times> fsys) option) option"

type_synonym drivers = "vfs_operations \<Rightarrow> dir_ops"

definition ramfs_dir_ops :: dir_ops where
  "ramfs_dir_ops = \<lparr>o_open = Some (\<lambda>n flags s. Some (ramfs_open n flags, s)), o_flush = Some (\<lambda>n s. Some (ramfs_flush n, s)),
     o_finddir = Some (\<lambda>n name s. do { r \<leftarrow> ramfs_finddir n name s; Some (r, s) }),
     o_readdir = Some (\<lambda>n i out s. do { (r, x) \<leftarrow> ramfs_readdir n i out s; Some (r, x, s) }),
     o_mkdir = Some ramfs_mkdir, o_create = Some ramfs_create, o_unlink = Some ramfs_unlink, o_rmdir = Some ramfs_rmdir,
     o_stat = Some (\<lambda>n buf s. case ramfs_stat n buf s of (r, x) \<Rightarrow> Some (r, x, s)), o_chmod = Some (\<lambda>n mode s. Some (ramfs_chmod n mode s)),
     o_rename = Some ramfs_rename\<rparr>"

text \<open>The entry of the table of a node; \<open>None\<close> when the node has no table or the table no such entry.\<close>

definition node_op :: "drivers \<Rightarrow> (dir_ops \<Rightarrow> 'a option) \<Rightarrow> u64 \<Rightarrow> fsys \<Rightarrow> 'a option" where
  "node_op D sel n s = Option.bind (n_ops (nodes s n)) (\<lambda>t. sel (D t))"

section \<open>Paths\<close>

text \<open>The copy of the path from the next name on. The slash behind a name is overwritten by a terminator.\<close>

function path_walk :: "drivers \<Rightarrow> u8 list \<Rightarrow> u64 \<Rightarrow> fsys \<Rightarrow> (u64 \<times> fsys) option" where
  "path_walk D [] node s = None"
| "path_walk D (c # y) node s =
     (if c = 0 then do { r \<leftarrow> vfs_resolve_mountpoint node s; Some (r, s) }
      else do {
        next_slash \<leftarrow> strchr (c # y) 47;
        let token = (case next_slash of None \<Rightarrow> c # y | Some i \<Rightarrow> (c # y)[i := 0]);
        let go = (\<lambda>n s. case next_slash of
          None \<Rightarrow> do { r \<leftarrow> vfs_resolve_mountpoint n s; Some (r, s) }
        | Some i \<Rightarrow> path_walk D (drop i y) n s);
        dot \<leftarrow> strcmp token [46, 0];
        if dot = 0 then go node s
        else do {
          cur \<leftarrow> vfs_resolve_mountpoint node s;
          if cur = 0 then None
          else case node_op D o_finddir cur s of
            None \<Rightarrow> Some (0, s)
          | Some finddir \<Rightarrow> do {
              (next_node, s1) \<leftarrow> finddir cur (Some token) s;
              if next_node = 0 then Some (0, s1) else go next_node s1
            }
        }
      })"
  by pat_completeness auto
termination
  by (relation "measure (\<lambda>(D, t, n, s). length t)") auto

definition vfs_path_to_node :: "u8 list \<Rightarrow> drivers \<Rightarrow> u8 list option \<Rightarrow> fsys \<Rightarrow> (u64 \<times> fsys) option" where
  "vfs_path_to_node stack D path_arg s =
     (case path_arg of
        None \<Rightarrow> Some (0, s)
      | Some p \<Rightarrow>
          if p = [] then None
          else if p ! 0 = 0 then Some (0, s)
          else do {
            current_node \<leftarrow> vfs_resolve_mountpoint (g_vfs_root s) s;
            r \<leftarrow> strcmp p [47, 0];
            if r = 0 then Some (current_node, s)
            else do {
              path_len \<leftarrow> strlen p;
              if path_len \<ge> 512 then Some (0, s)
              else do {
                x \<leftarrow> memcpy stack p path_len;
                let path_copy = x[path_len := 0];
                path_walk D (if path_copy ! 0 = 47 then tl path_copy else path_copy) current_node s
              }
            }
          })"

text \<open>The index of the last slash in front of \<open>i\<close>.\<close>

fun last_slash :: "u8 list \<Rightarrow> nat \<Rightarrow> nat option" where
  "last_slash p 0 = None"
| "last_slash p (Suc i) = (if p ! i = 47 then Some i else last_slash p i)"

text \<open>The buffer for the name of the child may be missing.\<close>

definition put_child :: "u8 list option \<Rightarrow> u8 list \<Rightarrow> u8 list option option" where
  "put_child out_child x = (case out_child of None \<Rightarrow> Some None | Some b \<Rightarrow> map_option Some (strcpy b x))"

definition vfs_get_parent_and_child ::
  "u8 list \<Rightarrow> drivers \<Rightarrow> u8 list option \<Rightarrow> u8 list option \<Rightarrow> fsys \<Rightarrow> (u64 \<times> u8 list option \<times> fsys) option" where
  "vfs_get_parent_and_child stack D path_arg out_child s =
     (case path_arg of
        None \<Rightarrow> Some (0, out_child, s)
      | Some p \<Rightarrow>
          if p = [] then None
          else if p ! 0 = 0 then Some (0, out_child, s)
          else do {
            len \<leftarrow> strlen p;
            let zero = replicate 256 0;
            (parent_path, out1) \<leftarrow>
              (if len > 1 \<and> p ! (len - 1) = 47 then do {
                 x \<leftarrow> strncpy zero p 255;
                 out1 \<leftarrow> (case out_child of None \<Rightarrow> Some None | Some b \<Rightarrow> if b = [] then None else Some (Some (b[0 := 0])));
                 Some (x[255 := 0], out1)
               }
               else case last_slash p len of
                 None \<Rightarrow> do { x \<leftarrow> strcpy zero [47, 0]; out1 \<leftarrow> put_child out_child p; Some (x, out1) }
               | Some i \<Rightarrow> do {
                   x \<leftarrow> memcpy zero p i;
                   y \<leftarrow> (if i < 256 then Some (x[i := 0]) else None);
                   z \<leftarrow> (if i = 0 then strcpy y [47, 0] else Some y);
                   out1 \<leftarrow> put_child out_child (drop (Suc i) p);
                   Some (z, out1)
                 });
            (n, s1) \<leftarrow> vfs_path_to_node stack D (Some parent_path) s;
            Some (n, out1, s1)
          })"

section \<open>Opening\<close>

abbreviation O_CREAT :: u32 where "O_CREAT \<equiv> 0x40"

text \<open>The result is the address of the node, or 0. The two walks have their own arrays.\<close>

definition vfs_open :: "u8 list \<Rightarrow> u8 list \<Rightarrow> drivers \<Rightarrow> u8 list option \<Rightarrow> u32 \<Rightarrow> fsys \<Rightarrow> (u64 \<times> fsys) option" where
  "vfs_open stack1 stack2 D path_arg flags s =
     (case path_arg of
        None \<Rightarrow> Some (0, s)
      | Some p \<Rightarrow>
          if p = [] then None
          else if p ! 0 = 0 then Some (0, s)
          else do {
            (parent_node, name, s1) \<leftarrow> vfs_get_parent_and_child stack1 D path_arg (Some (replicate 64 0)) s;
            (found, s2) \<leftarrow> vfs_path_to_node stack2 D path_arg s1;
            (target_node, s3) \<leftarrow>
              (if found = 0 \<and> parent_node \<noteq> 0 \<and> flags AND O_CREAT \<noteq> 0 then
                 case node_op D o_create parent_node s2 of
                   None \<Rightarrow> Some (found, s2)
                 | Some create \<Rightarrow> do {
                     (res, s3) \<leftarrow> create parent_node name 0x1A4 s2;
                     if res = 0 then do { finddir \<leftarrow> node_op D o_finddir parent_node s3; finddir parent_node name s3 }
                     else Some (found, s3)
                   }
               else Some (found, s2));
            if target_node = 0 then Some (0, s3)
            else do {
              let s4 = upd_node target_node (parent_inode_update (\<lambda>_. if parent_node = 0 then 0 else inode (nodes s3 parent_node))) s3;
              case node_op D o_open target_node s4 of
                None \<Rightarrow> Some (target_node, s4)
              | Some open_op \<Rightarrow> do {
                  (res_open, s5) \<leftarrow> open_op target_node flags s4;
                  Some (if res_open \<noteq> 0 then 0 else target_node, s5)
                }
            }
          })"

section \<open>Operations on directories\<close>

abbreviation no_name :: "u8 list option \<Rightarrow> bool option" where
  "no_name name \<equiv> (case name of None \<Rightarrow> Some True | Some x \<Rightarrow> if x = [] then None else Some (x ! 0 = 0))"

definition vfs_finddir :: "drivers \<Rightarrow> u64 \<Rightarrow> u8 list option \<Rightarrow> fsys \<Rightarrow> (u64 \<times> fsys) option" where
  "vfs_finddir D parent_node name s =
     (if parent_node = 0 then Some (0, s)
      else do {
        bad \<leftarrow> no_name name;
        if bad then Some (0, s)
        else do {
          p \<leftarrow> vfs_resolve_mountpoint parent_node s;
          case node_op D o_finddir p s of None \<Rightarrow> Some (0, s) | Some f \<Rightarrow> f p name s
        }
      })"

definition vfs_readdir :: "drivers \<Rightarrow> u64 \<Rightarrow> u32 \<Rightarrow> bool \<Rightarrow> fsys \<Rightarrow> (int \<times> vfs_node option \<times> fsys) option" where
  "vfs_readdir D target index out_node s =
     (if target = 0 \<or> \<not> out_node then Some (-1, None, s)
      else do {
        t \<leftarrow> vfs_resolve_mountpoint target s;
        case node_op D o_readdir t s of None \<Rightarrow> Some (-2, None, s) | Some f \<Rightarrow> f t index out_node s
      })"

definition vfs_mkdir :: "drivers \<Rightarrow> u64 \<Rightarrow> u8 list option \<Rightarrow> u16 \<Rightarrow> fsys \<Rightarrow> (int \<times> fsys) option" where
  "vfs_mkdir D parent_node name perms s =
     (if parent_node = 0 then Some (-1, s)
      else do {
        bad \<leftarrow> no_name name;
        if bad then Some (-1, s)
        else do {
          p \<leftarrow> vfs_resolve_mountpoint parent_node s;
          case node_op D o_mkdir p s of None \<Rightarrow> Some (-2, s) | Some f \<Rightarrow> f p name perms s
        }
      })"

definition vfs_create :: "drivers \<Rightarrow> u64 \<Rightarrow> u8 list option \<Rightarrow> u16 \<Rightarrow> fsys \<Rightarrow> (int \<times> fsys) option" where
  "vfs_create D parent_node name perms s =
     (if parent_node = 0 then Some (-1, s)
      else do {
        bad \<leftarrow> no_name name;
        if bad then Some (-1, s)
        else do {
          p \<leftarrow> vfs_resolve_mountpoint parent_node s;
          case node_op D o_create p s of None \<Rightarrow> Some (-2, s) | Some f \<Rightarrow> f p name perms s
        }
      })"

definition vfs_stat :: "drivers \<Rightarrow> u64 \<Rightarrow> bool \<Rightarrow> fsys \<Rightarrow> (int \<times> vfs_stat option \<times> fsys) option" where
  "vfs_stat D node buf s =
     (if node = 0 \<or> \<not> buf then Some (-1, None, s)
      else do {
        n \<leftarrow> vfs_resolve_mountpoint node s;
        case node_op D o_stat n s of None \<Rightarrow> Some (-2, None, s) | Some f \<Rightarrow> f n buf s
      })"

definition vfs_chmod :: "drivers \<Rightarrow> u64 \<Rightarrow> u16 \<Rightarrow> fsys \<Rightarrow> (int \<times> fsys) option" where
  "vfs_chmod D node mode s =
     (if node = 0 then Some (-1, s)
      else do {
        n \<leftarrow> vfs_resolve_mountpoint node s;
        case node_op D o_chmod n s of None \<Rightarrow> Some (-2, s) | Some f \<Rightarrow> f n mode s
      })"

definition vfs_unlink :: "drivers \<Rightarrow> u64 \<Rightarrow> u8 list option \<Rightarrow> fsys \<Rightarrow> (int \<times> fsys) option" where
  "vfs_unlink D parent_node name s =
     (if parent_node = 0 \<or> name = None then Some (-1, s)
      else do {
        p \<leftarrow> vfs_resolve_mountpoint parent_node s;
        case node_op D o_unlink p s of None \<Rightarrow> Some (-2, s) | Some f \<Rightarrow> f p name s
      })"

definition vfs_rmdir :: "drivers \<Rightarrow> u64 \<Rightarrow> u8 list option \<Rightarrow> fsys \<Rightarrow> (int \<times> fsys) option" where
  "vfs_rmdir D parent_node name s =
     (if parent_node = 0 \<or> name = None then Some (-1, s)
      else do {
        p \<leftarrow> vfs_resolve_mountpoint parent_node s;
        case node_op D o_rmdir p s of None \<Rightarrow> Some (-2, s) | Some f \<Rightarrow> f p name s
      })"

definition vfs_rename :: "drivers \<Rightarrow> u64 \<Rightarrow> u8 list option \<Rightarrow> u64 \<Rightarrow> u8 list option \<Rightarrow> fsys \<Rightarrow> (int \<times> fsys) option" where
  "vfs_rename D old_dir old_name new_dir new_name s =
     (if old_dir = 0 \<or> new_dir = 0 \<or> old_name = None \<or> new_name = None then Some (-1, s)
      else do {
        od \<leftarrow> vfs_resolve_mountpoint old_dir s;
        nd \<leftarrow> vfs_resolve_mountpoint new_dir s;
        case node_op D o_rename od s of None \<Rightarrow> Some (-2, s) | Some f \<Rightarrow> f od old_name nd new_name s
      })"

section \<open>Positions in a file\<close>

abbreviation VFS_SEEK_SET :: int where "VFS_SEEK_SET \<equiv> 0"
abbreviation VFS_SEEK_CUR :: int where "VFS_SEEK_CUR \<equiv> 1"
abbreviation VFS_SEEK_END :: int where "VFS_SEEK_END \<equiv> 2"

text \<open>Where the position counts from.\<close>

definition seek_base :: "vfs_file \<Rightarrow> vfs_node \<Rightarrow> int \<Rightarrow> u64 option" where
  "seek_base f n whence =
     (if whence = VFS_SEEK_SET then Some 0
      else if whence = VFS_SEEK_CUR then Some (f_offset f)
      else if whence = VFS_SEEK_END then Some (n_size n)
      else None)"

text \<open>The offset is a 64-bit number with sign; the open files belong to the kernel state.\<close>

definition vfs_seek :: "u64 \<Rightarrow> u64 \<Rightarrow> int \<Rightarrow> fsys \<Rightarrow> (u64 \<times> fsys) option" where
  "vfs_seek file_arg offset whence s =
     (let f = files (fkrn s) file_arg in
      if file_arg = 0 \<or> f_node f = 0 then Some (-1, s)
      else do {
        node \<leftarrow> vfs_resolve_mountpoint (f_node f) s;
        if node = 0 then Some (-1, s)
        else case seek_base f (nodes s node) whence of
          None \<Rightarrow> Some (-1, s)
        | Some base \<Rightarrow>
            let store = (\<lambda>x. Some (x, s\<lparr>fkrn := upd_file file_arg (f_offset_update (\<lambda>_. x)) (fkrn s)\<rparr>)) in
            if offset <s 0 then
              let magnitude = - (offset + 1) + 1 in
              if magnitude > base then Some (-1, s) else store (base - magnitude)
            else if offset > 0xFFFFFFFFFFFFFFFF - base then Some (-1, s)
            else store (base + offset)
      })"

section \<open>Descriptors\<close>

definition k_dup2 :: "u64 \<Rightarrow> int \<Rightarrow> int \<Rightarrow> kernel \<Rightarrow> (int \<times> kernel) option" where
  "k_dup2 p oldfd newfd s =
     (let tbl = file_descriptor_table (procs s p); old_file = tbl ! nat oldfd; file_to_close = tbl ! nat newfd in
      if p = 0 then Some (-1, s)
      else if oldfd < 0 \<or> oldfd \<ge> int MAX_FILES_PER_PROCESS then Some (-1, s)
      else if newfd < 0 \<or> newfd \<ge> int MAX_FILES_PER_PROCESS then Some (-1, s)
      else if oldfd = newfd then Some (if old_file \<noteq> 0 then newfd else -1, s)
      else if old_file = 0 then Some (-1, s)
      else do {
        s1 \<leftarrow> (if file_to_close \<noteq> 0 then do {
            let s1 = upd_file file_to_close (ref_count_update (\<lambda>n. n - 1)) s;
            s2 \<leftarrow> (if ref_count (files s1 file_to_close) = 0 then do {
                let n = f_node (files s1 file_to_close);
                let s' = (if n \<noteq> 0 then s1\<lparr>vfs_closed := n # vfs_closed s1\<rparr> else s1);
                h \<leftarrow> kfree (heap s') file_to_close;
                Some (s'\<lparr>heap := h\<rparr>)
              } else Some s1);
            Some (upd_proc p (file_descriptor_table_update (\<lambda>t. t[nat newfd := 0])) s2)
          } else Some s);
        let s2 = upd_proc p (file_descriptor_table_update (\<lambda>t. t[nat newfd := old_file])) s1;
        Some (newfd, upd_file old_file (ref_count_update (\<lambda>n. n + 1)) s2)
      })"

section \<open>Block devices\<close>

record block_device =
  dev_name :: "u8 list"
  dev_id :: u32

record vfs_filesystem =
  fs_name :: "u8 list option"
  fs_mount :: "u64 \<Rightarrow> u8 list \<Rightarrow> fsys \<Rightarrow> (u64 \<times> fsys) option"
  fs_unmount :: "(u64 \<Rightarrow> fsys \<Rightarrow> (int \<times> fsys) option) option"
  fs_root_node :: u64

text \<open>The tables: slots that hold a pointer or 0, with the objects they point to.\<close>

record vfs_tables =
  vsys :: fsys
  g_registered_filesystems :: "u64 list"
  filesystems :: "u64 \<Rightarrow> vfs_filesystem"
  g_block_devices :: "u64 list"
  devices :: "u64 \<Rightarrow> block_device"
  g_next_device_id :: u32

abbreviation BLOCK_MAX_DEVICES :: nat where "BLOCK_MAX_DEVICES \<equiv> 16"
abbreviation FS_MAX_REG_DRIVERS :: nat where "FS_MAX_REG_DRIVERS \<equiv> 16"

definition block_subsystem_init :: "vfs_tables \<Rightarrow> vfs_tables" where
  "block_subsystem_init v = v\<lparr>g_block_devices := replicate BLOCK_MAX_DEVICES 0, g_next_device_id := 0\<rparr>"

text \<open>The first empty slot is filled; \<open>None\<close> if there is none.\<close>

fun fill_slot :: "u64 \<Rightarrow> u64 list \<Rightarrow> u64 list option" where
  "fill_slot x [] = None"
| "fill_slot x (a # xs) = (if a = 0 then Some (x # xs) else map_option (Cons a) (fill_slot x xs))"

definition register_block_device :: "u64 \<Rightarrow> vfs_tables \<Rightarrow> int \<times> vfs_tables" where
  "register_block_device dev v =
     (if dev = 0 then (-1, v)
      else case fill_slot dev (g_block_devices v) of
        None \<Rightarrow> (-2, v)
      | Some xs \<Rightarrow> let i = g_next_device_id v in
          (sint i, v\<lparr>devices := (devices v)(dev := (devices v dev)\<lparr>dev_id := i\<rparr>), g_next_device_id := i + 1, g_block_devices := xs\<rparr>))"

fun clear_device :: "(u64 \<Rightarrow> block_device) \<Rightarrow> u32 \<Rightarrow> u64 list \<Rightarrow> u64 list option" where
  "clear_device d i [] = None"
| "clear_device d i (a # xs) = (if a \<noteq> 0 \<and> dev_id (d a) = i then Some (0 # xs) else map_option (Cons a) (clear_device d i xs))"

definition unregister_block_device :: "u32 \<Rightarrow> vfs_tables \<Rightarrow> int \<times> vfs_tables" where
  "unregister_block_device i v =
     (case clear_device (devices v) i (g_block_devices v) of None \<Rightarrow> (-1, v) | Some xs \<Rightarrow> (0, v\<lparr>g_block_devices := xs\<rparr>))"

definition block_get_device_by_index :: "u32 \<Rightarrow> vfs_tables \<Rightarrow> u64" where
  "block_get_device_by_index i v =
     (case List.find (\<lambda>a. a \<noteq> 0 \<and> dev_id (devices v a) = i) (g_block_devices v) of None \<Rightarrow> 0 | Some a \<Rightarrow> a)"

text \<open>The search for a name in the slots, \<open>None\<close> when a comparison reads too far.\<close>

fun search_name :: "(u64 \<Rightarrow> u8 list) \<Rightarrow> u8 list \<Rightarrow> u64 list \<Rightarrow> u64 option" where
  "search_name nm x [] = Some 0"
| "search_name nm x (a # xs) =
     (if a \<noteq> 0 then do { r \<leftarrow> strcmp (nm a) x; if r = 0 then Some a else search_name nm x xs } else search_name nm x xs)"

definition block_get_device_by_name :: "u8 list option \<Rightarrow> vfs_tables \<Rightarrow> u64 option" where
  "block_get_device_by_name name v =
     (case name of None \<Rightarrow> Some 0 | Some x \<Rightarrow> search_name (\<lambda>a. dev_name (devices v a)) x (g_block_devices v))"

section \<open>Mounting\<close>

definition vfs_register_filesystem :: "u64 \<Rightarrow> vfs_tables \<Rightarrow> int \<times> vfs_tables" where
  "vfs_register_filesystem fs v =
     (if fs = 0 \<or> fs_name (filesystems v fs) = None then (-1, v)
      else case fill_slot fs (g_registered_filesystems v) of None \<Rightarrow> (-2, v) | Some xs \<Rightarrow> (0, v\<lparr>g_registered_filesystems := xs\<rparr>))"

text \<open>The registration of the memory file system; \<open>drv\<close> is the address of its descriptor.\<close>

definition ramfs_init :: "u64 \<Rightarrow> vfs_tables \<Rightarrow> vfs_tables" where
  "ramfs_init drv v =
     (let root = g_vfs_root (vsys v);
          v1 = (if root \<noteq> 0 then v\<lparr>vsys := upd_node root (n_fs_update (\<lambda>_. drv)) (vsys v),
                  filesystems := (filesystems v)(drv := (filesystems v drv)\<lparr>fs_root_node := root\<rparr>)\<rparr> else v) in
      snd (vfs_register_filesystem drv v1))"

text \<open>\<open>slash\<close> is the memory from the address of the literal on, of which the copy reads more than the literal.\<close>

definition vfs_init :: "u8 list \<Rightarrow> u64 \<Rightarrow> vfs_tables \<Rightarrow> vfs_tables option" where
  "vfs_init slash drv v =
     do {
       let s0 = (vsys v)\<lparr>g_mount_list := 0\<rparr>;
       (root, s1) \<leftarrow> fs_kmalloc SIZEOF_NODE s0;
       let s2 = s1\<lparr>g_vfs_root := root\<rparr>;
       let v1 = v\<lparr>g_registered_filesystems := replicate FS_MAX_REG_DRIVERS 0\<rparr>;
       if root = 0 then Some (v1\<lparr>vsys := s2\<rparr>)
       else do {
         x \<leftarrow> strncpy (replicate VFS_NAME_MAX 0) slash (VFS_NAME_MAX - 1);
         let n = node0\<lparr>n_name := x, n_flags := VFS_DIRECTORY, inode := 1, n_ops := Some g_ramfs_ops, block_size := 4096\<rparr>;
         Some (ramfs_init drv (v1\<lparr>vsys := upd_node root (\<lambda>_. n) s2\<rparr>))
       }
     }"

text \<open>A node that is not used after all is freed, unless it is the root.\<close>

definition discard :: "u64 \<Rightarrow> fsys \<Rightarrow> fsys option" where
  "discard target s =
     (if target \<noteq> g_vfs_root s then do {
        r \<leftarrow> vfs_resolve_mountpoint (g_vfs_root s) s;
        if target \<noteq> r then fs_kfree target s else Some s
      } else Some s)"

definition vfs_mount :: "u8 list \<Rightarrow> drivers \<Rightarrow> u8 list option \<Rightarrow> u8 list option \<Rightarrow> u8 list option \<Rightarrow> vfs_tables \<Rightarrow> (int \<times> vfs_tables) option" where
  "vfs_mount stack D device_name mount_path fs_type v =
     (if mount_path = None \<or> fs_type = None then Some (-1, v)
      else do {
        dev \<leftarrow> block_get_device_by_name device_name v;
        if device_name \<noteq> None \<and> dev = 0 then Some (-2, v)
        else do {
          fs_driver \<leftarrow> search_name (\<lambda>a. the (fs_name (filesystems v a))) (the fs_type) (g_registered_filesystems v);
          if fs_driver = 0 then Some (-3, v)
          else do {
            (target, s1) \<leftarrow> vfs_path_to_node stack D mount_path (vsys v);
            if target = 0 then Some (-5, v\<lparr>vsys := s1\<rparr>)
            else if n_flags (nodes s1 target) AND VFS_DIRECTORY = 0 then do { s2 \<leftarrow> discard target s1; Some (-8, v\<lparr>vsys := s2\<rparr>) }
            else do {
              (fs_root_node, s2) \<leftarrow> fs_mount (filesystems v fs_driver) dev (the mount_path) s1;
              if fs_root_node = 0 then do { s3 \<leftarrow> discard target s2; Some (-4, v\<lparr>vsys := s3\<rparr>) }
              else do {
                (new_mount, s3) \<leftarrow> fs_kmalloc 24 s2;
                if new_mount = 0 then do { s4 \<leftarrow> discard target s3; Some (-7, v\<lparr>vsys := s4\<rparr>) }
                else do {
                  let s4 = upd_node target (\<lambda>n. n\<lparr>ptr_mount := fs_root_node, n_flags := n_flags n OR VFS_MOUNTPOINT\<rparr>) s3;
                  Some (0, v\<lparr>vsys := s4\<lparr>mounts := (mounts s4)(new_mount := \<lparr>mountpoint = target, fs_root = fs_root_node, m_next = g_mount_list s4\<rparr>),
                    g_mount_list := new_mount\<rparr>\<rparr>)
                }
              }
            }
          }
        }
      })"

partial_function (option) mount_locate :: "fsys \<Rightarrow> u64 \<Rightarrow> u64 \<Rightarrow> u64 \<Rightarrow> (u64 \<times> u64) option" where
  "mount_locate s mp_node prev curr_mount =
     (if curr_mount = 0 then Some (prev, 0)
      else if mountpoint (mounts s curr_mount) = mp_node then Some (prev, curr_mount)
      else mount_locate s mp_node curr_mount (m_next (mounts s curr_mount)))"

definition vfs_umount :: "u8 list \<Rightarrow> drivers \<Rightarrow> u8 list option \<Rightarrow> vfs_tables \<Rightarrow> (int \<times> vfs_tables) option" where
  "vfs_umount stack D mount_path v =
     (if mount_path = None then Some (-1, v)
      else do {
        (mp_node, s1) \<leftarrow> vfs_path_to_node stack D mount_path (vsys v);
        let release = (\<lambda>s. if mp_node \<noteq> g_vfs_root s then fs_kfree mp_node s else Some s);
        if mp_node = 0 then Some (-4, v\<lparr>vsys := s1\<rparr>)
        else if n_flags (nodes s1 mp_node) AND VFS_MOUNTPOINT = 0 \<or> ptr_mount (nodes s1 mp_node) = 0 then do {
          s2 \<leftarrow> release s1;
          Some (-2, v\<lparr>vsys := s2\<rparr>)
        }
        else do {
          (prev, target_mnt) \<leftarrow> mount_locate s1 mp_node 0 (g_mount_list s1);
          if target_mnt = 0 then do { s2 \<leftarrow> release s1; Some (-5, v\<lparr>vsys := s2\<rparr>) }
          else do {
            let after = m_next (mounts s1 target_mnt);
            let s2 = (if prev \<noteq> 0 then s1\<lparr>mounts := (mounts s1)(prev := (mounts s1 prev)\<lparr>m_next := after\<rparr>)\<rparr> else s1\<lparr>g_mount_list := after\<rparr>);
            let fs_root_to_free = ptr_mount (nodes s2 mp_node);
            let s3 = upd_node mp_node (\<lambda>n. n\<lparr>ptr_mount := 0, n_flags := n_flags n AND NOT VFS_MOUNTPOINT\<rparr>) s2;
            s4 \<leftarrow> (case node_op D o_flush fs_root_to_free s3 of None \<Rightarrow> Some s3 | Some fl \<Rightarrow> do { (r, s') \<leftarrow> fl fs_root_to_free s3; Some s' });
            let fs = n_fs (nodes s4 fs_root_to_free);
            s5 \<leftarrow> (case (if fs \<noteq> 0 then fs_unmount (filesystems v fs) else None) of
                Some um \<Rightarrow> do { (r, s') \<leftarrow> um fs_root_to_free s4; Some s' }
              | None \<Rightarrow> fs_kfree fs_root_to_free s4);
            s6 \<leftarrow> fs_kfree target_mnt s5;
            s7 \<leftarrow> release s6;
            Some (0, v\<lparr>vsys := s7\<rparr>)
          }
        }
      })"

section \<open>Names\<close>

text \<open>The parts of a path between slashes, and the names the walk looks up: a slash in front and one at the end do not count, nor do dots.\<close>

fun parts :: "u8 list \<Rightarrow> u8 list list" where
  "parts [] = [[]]"
| "parts (c # x) = (if c = 47 then [] # parts x else (c # hd (parts x)) # tl (parts x))"

definition strip_end :: "u8 list list \<Rightarrow> u8 list list" where
  "strip_end cs = (if last cs = [] then butlast cs else cs)"

definition path_names :: "u8 list \<Rightarrow> u8 list list" where
  "path_names p = filter (\<lambda>x. x \<noteq> [46]) (strip_end (parts (if p \<noteq> [] \<and> hd p = 47 then tl p else p)))"

lemma parts_ne [simp]: "parts x \<noteq> []"
  by (induction x) auto

lemma parts_single: "47 \<notin> set x \<Longrightarrow> parts x = [x]"
  by (induction x) auto

lemma parts_append: "47 \<notin> set a \<Longrightarrow> parts (a @ 47 # b) = a # parts b"
  by (induction a) auto

lemma strip_end_Cons: "cs \<noteq> [] \<Longrightarrow> strip_end (a # cs) = a # strip_end cs"
  by (simp add: strip_end_def)

lemma slash_split: "47 \<in> set x \<Longrightarrow> \<exists>b. x = takeWhile (\<lambda>c. c \<noteq> 47) x @ 47 # b \<and> 47 \<notin> set (takeWhile (\<lambda>c. c \<noteq> 47) x)" for x :: "u8 list"
  by (induction x) auto

lemma no_slash: "47 \<notin> set x \<Longrightarrow> takeWhile (\<lambda>c. c \<noteq> 47) x = x" for x :: "u8 list"
  by (induction x) auto

text \<open>One turn of the walk: the name up to the slash, and the rest of the path.\<close>

lemma walk_turn:
  fixes D :: drivers and x j :: "u8 list"
  assumes z: "0 \<notin> set x" and ne: "x \<noteq> []"
  defines "a \<equiv> takeWhile (\<lambda>c. c \<noteq> 47) x"
  defines "cont \<equiv> \<lambda>n s. if 47 \<in> set x then path_walk D (drop (Suc (length a)) x @ 0 # j) n s else do { r \<leftarrow> vfs_resolve_mountpoint n s; Some (r, s) }"
  shows "\<exists>token. terminated token \<and> cstr token = a \<and> path_walk D (x @ 0 # j) n s =
    (if a = [46] then cont n s
     else do {
       cur \<leftarrow> vfs_resolve_mountpoint n s;
       if cur = 0 then None
       else case node_op D o_finddir cur s of None \<Rightarrow> Some (0, s)
         | Some finddir \<Rightarrow> do { (c, s1) \<leftarrow> finddir cur (Some token) s; if c = 0 then Some (0, s1) else cont c s1 }
     })"
proof -
  obtain c y where x: "x = c # y" "c \<noteq> 0" using ne z by (cases x) auto
  define i where "i = (if 47 \<in> set x then Some (length a) else None)"
  define token where "token = (case i of None \<Rightarrow> x @ 0 # j | Some i \<Rightarrow> (x @ 0 # j)[i := 0])"
  have ch: "strchr (x @ 0 # j) 47 = Some i" using strchr_eq [of "x @ 0 # j" 47] z by (simp add: cstr_append i_def a_def)
  have tok: "terminated token \<and> cstr token = a"
  proof (cases "47 \<in> set x")
    case True
    then obtain b where b: "x = a @ 47 # b" using slash_split a_def by blast
    then have "token = a @ 0 # b @ 0 # j" using True unfolding token_def i_def by (simp add: list_update_append)
    then show ?thesis using z b by (simp add: cstr_append)
  next
    case False
    then have "a = x" using no_slash by (simp add: a_def)
    then show ?thesis using False z by (simp add: token_def i_def cstr_append)
  qed
  have dot: "strcmp token [46, 0] = Some (if a = [46] then 0 else -1)" using strcmp_eq [of token "[46, 0]"] tok by simp
  define Y where "Y = y @ 0 # j"
  have xY: "x @ 0 # j = c # Y" by (simp add: x Y_def)
  have go: "(case i of None \<Rightarrow> do { r \<leftarrow> vfs_resolve_mountpoint n s; Some (r, s) } | Some i \<Rightarrow> path_walk D (drop i Y) n s) = cont n s" for n s
  proof (cases "47 \<in> set x")
    case True
    obtain b where "x = a @ 47 # b" using True slash_split a_def by blast
    then have "length a < length x" by simp
    then have "drop (length a) Y = drop (Suc (length a)) x @ 0 # j" using x by (simp add: Y_def)
    then show ?thesis using True by (simp add: i_def cont_def)
  qed (simp add: i_def cont_def)
  have "path_walk D (x @ 0 # j) n s =
    (if a = [46] then cont n s
     else do {
       cur \<leftarrow> vfs_resolve_mountpoint n s;
       if cur = 0 then None
       else case node_op D o_finddir cur s of None \<Rightarrow> Some (0, s)
         | Some finddir \<Rightarrow> do { (c, s1) \<leftarrow> finddir cur (Some token) s; if c = 0 then Some (0, s1) else cont c s1 }
     })"
    unfolding xY path_walk.simps(2) ch [unfolded xY] Let_def bind.simps token_def [unfolded xY, symmetric] go dot using x(2) by (cases "a = [46]") simp_all
  then show ?thesis using tok by blast
qed

text \<open>What the walk relies on: in a good state the nodes of \<open>X\<close> are redirected inside \<open>X\<close>, not twice, and each has a lookup that depends on the name only
  and leaves the state alone.\<close>

locale lookup_service =
  fixes D :: drivers and good :: "fsys \<Rightarrow> u64 set \<Rightarrow> bool" and child :: "fsys \<Rightarrow> u64 \<Rightarrow> u8 list \<Rightarrow> u64"
  assumes good_redirect: "good s X \<Longrightarrow> n \<in> X \<Longrightarrow> \<exists>r \<in> X. r \<noteq> 0 \<and> vfs_resolve_mountpoint n s = Some r \<and> vfs_resolve_mountpoint r s = Some r"
    and good_lookup: "good s X \<Longrightarrow> n \<in> X \<Longrightarrow> terminated t \<Longrightarrow>
      \<exists>f. node_op D o_finddir n s = Some f \<and> f n (Some t) s = Some (child s n (cstr t), s) \<and> (child s n (cstr t) = 0 \<or> child s n (cstr t) \<in> X)"
begin

definition redirect :: "fsys \<Rightarrow> u64 \<Rightarrow> u64" where
  "redirect s n = the (vfs_resolve_mountpoint n s)"

fun walk :: "fsys \<Rightarrow> u64 \<Rightarrow> u8 list list \<Rightarrow> u64" where
  "walk s n [] = redirect s n"
| "walk s n (x # xs) = (let c = child s (redirect s n) x in if c = 0 then 0 else walk s c xs)"

lemma redirectD:
  assumes "good s X" "n \<in> X"
  shows "vfs_resolve_mountpoint n s = Some (redirect s n)" "redirect s n \<in> X" "redirect s n \<noteq> 0" "redirect s (redirect s n) = redirect s n"
  using good_redirect [OF assms] by (auto simp: redirect_def)

lemma walk_redirect: "good s X \<Longrightarrow> n \<in> X \<Longrightarrow> walk s (redirect s n) xs = walk s n xs"
  by (cases xs) (simp_all add: redirectD(4))

lemma path_walk_spec:
  assumes "good s X" "0 \<notin> set x" "n \<in> X"
  shows "path_walk D (x @ 0 # j) n s = Some (walk s n (filter (\<lambda>x. x \<noteq> [46]) (strip_end (parts x))), s)"
  using assms
proof (induction "length x" arbitrary: x n rule: less_induct)
  case less
  note rd = redirectD [OF less.prems(1,3)]
  show ?case
  proof (cases "x = []")
    case True
    then show ?thesis using rd by (simp add: strip_end_def)
  next
    case False
    define a where "a = takeWhile (\<lambda>c. c \<noteq> 47) x"
    define rest where "rest = (if 47 \<in> set x then filter (\<lambda>x. x \<noteq> [46]) (strip_end (parts (drop (Suc (length a)) x))) else [])"
    define cont where "cont = (\<lambda>n s. if 47 \<in> set x then path_walk D (drop (Suc (length a)) x @ 0 # j) n s else do { r \<leftarrow> vfs_resolve_mountpoint n s; Some (r, s) })"
    have names: "filter (\<lambda>x. x \<noteq> [46]) (strip_end (parts x)) = (if a = [46] then rest else a # rest)"
    proof (cases "47 \<in> set x")
      case True
      then obtain b where b: "x = a @ 47 # b" "47 \<notin> set a" using slash_split a_def by blast
      then have "drop (Suc (length a)) x = b" by (metis append_eq_conv_conj drop_Suc list.sel(3) tl_drop)
      then show ?thesis using True b by (simp add: rest_def parts_append strip_end_Cons)
    next
      case no: False
      then have "a = x" using no_slash by (simp add: a_def)
      then show ?thesis using no False by (simp add: rest_def parts_single strip_end_def)
    qed
    have cont: "cont m s = Some (walk s m rest, s)" if "m \<in> X" for m
    proof (cases "47 \<in> set x")
      case True
      have "0 \<notin> set (drop (Suc (length a)) x)" using less.prems(2) by (meson in_set_dropD)
      from less.hyps [OF _ less.prems(1) this that] True False show ?thesis by (simp add: cont_def rest_def)
    next
      case False
      then show ?thesis using redirectD(1) [OF less.prems(1) that] by (simp add: cont_def rest_def)
    qed
    obtain token where t: "terminated token" "cstr token = a" "path_walk D (x @ 0 # j) n s =
      (if a = [46] then cont n s
       else do {
         cur \<leftarrow> vfs_resolve_mountpoint n s;
         if cur = 0 then None
         else case node_op D o_finddir cur s of None \<Rightarrow> Some (0, s)
           | Some finddir \<Rightarrow> do { (c, s1) \<leftarrow> finddir cur (Some token) s; if c = 0 then Some (0, s1) else cont c s1 }
       })"
      using walk_turn [OF less.prems(2) False, of D j n s] unfolding a_def cont_def by blast
    obtain f where f: "node_op D o_finddir (redirect s n) s = Some f" "f (redirect s n) (Some token) s = Some (child s (redirect s n) a, s)"
      "child s (redirect s n) a = 0 \<or> child s (redirect s n) a \<in> X"
      using good_lookup [OF less.prems(1) rd(2) t(1)] t(2) by auto
    show ?thesis unfolding names t(3) using rd f cont less.prems(3) by (auto simp: Let_def)
  qed
qed

lemma path_to_node_spec:
  assumes "good s X" "g_vfs_root s \<in> X" "terminated p" "cstr p \<noteq> []" "length (cstr p) < 512" "length stack = 512"
  shows "vfs_path_to_node stack D (Some p) s = Some (walk s (g_vfs_root s) (path_names (cstr p)), s)"
proof -
  note rd = redirectD [OF assms(1,2)]
  obtain y where y: "p = cstr p @ 0 # y" using terminated_split assms(3) by blast
  have p: "p \<noteq> []" "p ! 0 \<noteq> 0" using assms(3,4) by (cases p; auto)+
  have cmp: "strcmp p [47, 0] = Some (if cstr p = [47] then 0 else -1)" using strcmp_eq [OF assms(3), of "[47, 0]"] by simp
  define z where "z = drop (Suc (length (cstr p))) stack"
  have len: "length (cstr p) \<le> length p" using cstr_less [OF assms(3)] by simp
  have tk: "take (length (cstr p)) p = cstr p" using y by (metis append_eq_conv_conj)
  have cp: "memcpy stack p (length (cstr p)) = Some (cstr p @ drop (length (cstr p)) stack)"
    using len assms(5,6) tk unfolding memcpy_eq by simp
  have cz: "(cstr p @ drop (length (cstr p)) stack)[length (cstr p) := 0] = cstr p @ 0 # z"
    using assms(5,6) by (simp add: list_update_append z_def Cons_nth_drop_Suc [symmetric])
  let ?x = "if hd (cstr p) = 47 then tl (cstr p) else cstr p"
  have x0: "0 \<notin> set ?x" using cstr_no_zero [of p] assms(4) by (cases "cstr p") auto
  have w: "path_walk D (?x @ 0 # z) (redirect s (g_vfs_root s)) s = Some (walk s (g_vfs_root s) (path_names (cstr p)), s)"
    using path_walk_spec [OF assms(1) x0 rd(2), of z] walk_redirect [OF assms(1,2)] assms(4) by (simp add: path_names_def)
  have h: "(if (cstr p @ 0 # z) ! 0 = 47 then tl (cstr p @ 0 # z) else cstr p @ 0 # z) = ?x @ 0 # z" using assms(4) by (cases "cstr p") auto
  show ?thesis
  proof (cases "cstr p = [47]")
    case True
    then show ?thesis using p cmp rd by (simp add: vfs_path_to_node_def path_names_def strip_end_def)
  next
    case False
    then show ?thesis using p cmp rd(1) assms(3,5) w [folded h, folded cz] unfolding vfs_path_to_node_def by (simp add: strlen_eq Let_def cp split del: if_split)
  qed
qed

end

section \<open>Trees of the memory file system\<close>

text \<open>The nodes \<open>X\<close> of a tree: each belongs to the memory file system and is redirected at most once; the entries of a directory have different
  names and their nodes are in the tree.\<close>

definition entry_ok :: "fsys \<Rightarrow> u64 set \<Rightarrow> u64 \<Rightarrow> bool" where
  "entry_ok s X e \<longleftrightarrow> (let n = e_node (entries s e) in n \<in> X \<and> terminated (n_name (nodes s n)) \<and> ename s e \<noteq> [])"

definition tree_ok :: "fsys \<Rightarrow> u64 set \<Rightarrow> bool" where
  "tree_ok s X \<longleftrightarrow> 0 \<notin> X \<and> (\<forall>n \<in> X. n_ops (nodes s n) = Some g_ramfs_ops \<and>
     (\<exists>r \<in> X. vfs_resolve_mountpoint n s = Some r \<and> vfs_resolve_mountpoint r s = Some r) \<and>
     (n_flags (nodes s n) AND VFS_DIRECTORY \<noteq> 0 \<longrightarrow>
        (\<exists>es. entry_chain s (private_data (nodes s n)) es \<and> distinct (map (ename s) es) \<and> (\<forall>e \<in> set es. entry_ok s X e))))"

text \<open>The node \<open>c\<close> has the name \<open>x\<close> in the directory \<open>d\<close>; and a list of names leads from a node to another.\<close>

definition has_entry :: "fsys \<Rightarrow> u64 \<Rightarrow> u8 list \<Rightarrow> u64 \<Rightarrow> bool" where
  "has_entry s d x c \<longleftrightarrow> n_flags (nodes s d) AND VFS_DIRECTORY \<noteq> 0 \<and>
     (\<exists>es. entry_chain s (private_data (nodes s d)) es \<and> (\<exists>e \<in> set es. ename s e = x \<and> e_node (entries s e) = c))"

inductive resolves :: "fsys \<Rightarrow> u64 \<Rightarrow> u8 list list \<Rightarrow> u64 \<Rightarrow> bool" for s where
  here: "vfs_resolve_mountpoint n s = Some r \<Longrightarrow> resolves s n [] r"
| down: "vfs_resolve_mountpoint n s = Some d \<Longrightarrow> has_entry s d x c \<Longrightarrow> resolves s c xs r \<Longrightarrow> resolves s n (x # xs) r"

inductive_simps resolves_simps: "resolves s n [] r" "resolves s n (x # xs) r"

definition ram_child :: "fsys \<Rightarrow> u64 \<Rightarrow> u8 list \<Rightarrow> u64" where
  "ram_child s n x = (case ramfs_finddir n (Some (x @ [0])) s of Some c \<Rightarrow> c | None \<Rightarrow> 0)"

lemma entry_find:
  assumes "entry_chain s p es" "\<forall>e \<in> set es. entry_ok s X e" "0 \<notin> X" "terminated t"
  shows "entry_search s t p = Some (case List.find (\<lambda>e. ename s e = cstr t) es of Some e \<Rightarrow> e_node (entries s e) | None \<Rightarrow> 0)"
  using assms
proof (induction es arbitrary: p)
  case Nil
  then show ?case by (simp add: entry_search.simps)
next
  case (Cons e es)
  let ?n = "e_node (entries s e)"
  have n: "?n \<noteq> 0" "strcmp (n_name (nodes s ?n)) t = Some (if ename s e = cstr t then 0 else -1)"
    using Cons.prems strcmp_eq [of "n_name (nodes s ?n)" t] by (auto simp: entry_ok_def Let_def ename_def)
  show ?case using Cons n by (subst entry_search.simps) (simp add: Let_def)
qed

lemma ram_lookup:
  assumes "tree_ok s X" "n \<in> X" "terminated t"
  shows "ramfs_finddir n (Some t) s = Some (ram_child s n (cstr t))" "c \<noteq> 0 \<Longrightarrow> has_entry s n (cstr t) c \<longleftrightarrow> ram_child s n (cstr t) = c"
    "ram_child s n (cstr t) = 0 \<or> ram_child s n (cstr t) \<in> X"
proof -
  have n0: "n \<noteq> 0" "0 \<notin> X" using assms(1,2) by (auto simp: tree_ok_def)
  let ?d = "n_flags (nodes s n) AND VFS_DIRECTORY \<noteq> 0"
  have "ramfs_finddir n (Some t) s = Some (ram_child s n (cstr t)) \<and> (c \<noteq> 0 \<longrightarrow> has_entry s n (cstr t) c = (ram_child s n (cstr t) = c)) \<and>
    (ram_child s n (cstr t) = 0 \<or> ram_child s n (cstr t) \<in> X)"
  proof (cases ?d)
    case False
    then show ?thesis using n0 by (simp add: ramfs_finddir_def ram_child_def has_entry_def)
  next
    case True
    then obtain es where es: "entry_chain s (private_data (nodes s n)) es" "distinct (map (ename s) es)" "\<forall>e \<in> set es. entry_ok s X e"
      using assms(1,2) by (auto simp: tree_ok_def)
    have u: "es' = es" if "entry_chain s (private_data (nodes s n)) es'" for es' using that es(1) by (rule chain_unique)
    define r where "r = (case List.find (\<lambda>e. ename s e = cstr t) es of Some e \<Rightarrow> e_node (entries s e) | None \<Rightarrow> 0)"
    have "ramfs_finddir n (Some t) s = Some r" "ramfs_finddir n (Some (cstr t @ [0])) s = Some r"
      using entry_find [OF es(1,3) n0(2)] assms(3) True n0 by (simp_all add: ramfs_finddir_def r_def cstr_append)
    then have f: "ramfs_finddir n (Some t) s = Some r" "ram_child s n (cstr t) = r" by (simp_all add: ram_child_def)
    have "has_entry s n (cstr t) c \<longleftrightarrow> (\<exists>e \<in> set es. ename s e = cstr t \<and> e_node (entries s e) = c)"
      unfolding has_entry_def using True es(1) u by blast
    moreover have "(\<exists>e \<in> set es. ename s e = cstr t \<and> e_node (entries s e) = c) \<longleftrightarrow> r = c" if "c \<noteq> 0"
    proof (cases "List.find (\<lambda>e. ename s e = cstr t) es")
      case None
      then have "r = 0" by (simp add: r_def)
      then show ?thesis using None that by (auto simp: find_None_iff)
    next
      case (Some e)
      then have e: "e \<in> set es" "ename s e = cstr t" by (auto simp: find_Some_iff)
      then have "e' = e" if "e' \<in> set es" "ename s e' = cstr t" for e' using inj_onD [of "ename s" "set es" e' e] es(2) that by (simp add: distinct_map)
      moreover have "r = e_node (entries s e)" using Some by (simp add: r_def)
      ultimately show ?thesis using e by metis
    qed
    moreover have "r = 0 \<or> r \<in> X"
    proof (cases "List.find (\<lambda>e. ename s e = cstr t) es")
      case (Some e)
      then have "e \<in> set es" by (auto simp: find_Some_iff)
      then show ?thesis using es(3) Some by (auto simp: r_def entry_ok_def Let_def)
    qed (simp add: r_def)
    ultimately show ?thesis using f by auto
  qed
  then show "ramfs_finddir n (Some t) s = Some (ram_child s n (cstr t))" "c \<noteq> 0 \<Longrightarrow> has_entry s n (cstr t) c \<longleftrightarrow> ram_child s n (cstr t) = c"
    "ram_child s n (cstr t) = 0 \<or> ram_child s n (cstr t) \<in> X" by blast+
qed

definition ram_drivers :: "drivers \<Rightarrow> drivers" where
  "ram_drivers D = D(g_ramfs_ops := ramfs_dir_ops)"

interpretation ram: lookup_service "ram_drivers D" tree_ok ram_child for D
proof
  fix s X n
  assume "tree_ok s X" "n \<in> X"
  then show "\<exists>r \<in> X. r \<noteq> 0 \<and> vfs_resolve_mountpoint n s = Some r \<and> vfs_resolve_mountpoint r s = Some r" by (auto simp: tree_ok_def)
next
  fix s X n and t :: "u8 list"
  assume a: "tree_ok s X" "n \<in> X" "terminated t"
  then have "n_ops (nodes s n) = Some g_ramfs_ops" by (simp add: tree_ok_def)
  then show "\<exists>f. node_op (ram_drivers D) o_finddir n s = Some f \<and> f n (Some t) s = Some (ram_child s n (cstr t), s) \<and>
      (ram_child s n (cstr t) = 0 \<or> ram_child s n (cstr t) \<in> X)"
    using ram_lookup [OF a] by (simp add: node_op_def ram_drivers_def ramfs_dir_ops_def)
qed

text \<open>The walk finds what the names lead to.\<close>

lemma walk_resolves:
  assumes "tree_ok s X" "n \<in> X" "\<forall>x \<in> set xs. 0 \<notin> set x"
  shows "resolves s n xs r \<longleftrightarrow> ram.walk s n xs = r \<and> r \<noteq> 0"
  using assms(2,3)
proof (induction xs arbitrary: n)
  case Nil
  then show ?case using ram.redirectD [OF assms(1)] by (auto simp: resolves_simps)
next
  case (Cons x xs)
  note rd = ram.redirectD [OF assms(1) Cons.prems(1)]
  define c where "c = ram_child s (ram.redirect s n) x"
  have x: "terminated (x @ [0])" "cstr (x @ [0]) = x" using Cons.prems(2) by (simp_all add: cstr_append)
  note l = ram_lookup [OF assms(1) rd(2) x(1), unfolded x(2), folded c_def]
  have nz: "\<not> has_entry s (ram.redirect s n) x 0"
  proof
    assume "has_entry s (ram.redirect s n) x 0"
    then obtain es e where h: "n_flags (nodes s (ram.redirect s n)) AND VFS_DIRECTORY \<noteq> 0" "entry_chain s (private_data (nodes s (ram.redirect s n))) es"
      "e \<in> set es" "e_node (entries s e) = 0" by (auto simp: has_entry_def)
    with assms(1) rd(2) obtain es' where "entry_chain s (private_data (nodes s (ram.redirect s n))) es'" "\<forall>e \<in> set es'. entry_ok s X e" "0 \<notin> X"
      by (auto simp: tree_ok_def)
    with h show False using chain_unique [OF h(2)] by (auto simp: entry_ok_def Let_def)
  qed
  have "resolves s n (x # xs) r \<longleftrightarrow> (\<exists>c'. has_entry s (ram.redirect s n) x c' \<and> resolves s c' xs r)" using rd(1) by (simp add: resolves_simps)
  also have "\<dots> \<longleftrightarrow> c \<noteq> 0 \<and> resolves s c xs r" using l(2) nz by metis
  also have "\<dots> \<longleftrightarrow> ram.walk s n (x # xs) = r \<and> r \<noteq> 0" using Cons.IH [of c] Cons.prems(2) l(3) by (auto simp: c_def [symmetric] Let_def)
  finally show ?case .
qed

lemma parts_set: "y \<in> set (parts x) \<Longrightarrow> set y \<subseteq> set x"
proof (induction x arbitrary: y)
  case (Cons c x)
  have "hd (parts x) \<in> set (parts x)" "set (tl (parts x)) \<subseteq> set (parts x)" by (simp_all add: list.set_sel(2) subsetI)
  then have h: "set (hd (parts x)) \<subseteq> set x" and t: "\<And>z. z \<in> set (tl (parts x)) \<Longrightarrow> set z \<subseteq> set x" using Cons.IH by blast+
  from Cons.prems consider "y = []" | "y \<in> set (parts x)" | "y = c # hd (parts x)" | "y \<in> set (tl (parts x))" by (auto split: if_splits)
  then show ?case using Cons.IH [of y] h t [of y] by cases auto
qed simp

lemma path_names_set: "y \<in> set (path_names p) \<Longrightarrow> set y \<subseteq> set p"
proof -
  assume "y \<in> set (path_names p)"
  then have "y \<in> set (parts (if p \<noteq> [] \<and> hd p = 47 then tl p else p))" by (auto simp: path_names_def strip_end_def dest: in_set_butlastD split: if_splits)
  from parts_set [OF this] show ?thesis using list.set_sel(2) [of p] by (auto split: if_splits)
qed

text \<open>The last name of a path and what is in front of it.\<close>

lemma parts_concat: "parts (a @ 47 # b) = parts a @ parts b"
  by (induction a) auto

lemma last_parts: "d \<noteq> [] \<Longrightarrow> last d \<noteq> 47 \<Longrightarrow> last (parts d) \<noteq> []"
proof (induction d)
  case (Cons c d)
  show ?case
  proof (cases "d = []")
    case False
    then have "last (parts d) \<noteq> []" using Cons by simp
    then show ?thesis by (cases "parts d") auto
  qed (use Cons in auto)
qed simp

lemma path_names_snoc:
  assumes "x \<noteq> []" "47 \<notin> set x" "x \<noteq> [46]" "d = [] \<or> last d \<noteq> 47"
  shows "path_names (d @ 47 # x) = (if d = [] then [] else path_names d) @ [x]"
proof (cases "d = []")
  case True
  then show ?thesis using assms by (simp add: path_names_def parts_single strip_end_def)
next
  case False
  define e where "e = (if hd d = 47 then tl d else d)"
  have e: "e \<noteq> []" "last e \<noteq> 47" using False assms(4) by (cases d; auto simp: e_def split: if_splits)+
  have "(if d @ 47 # x \<noteq> [] \<and> hd (d @ 47 # x) = 47 then tl (d @ 47 # x) else d @ 47 # x) = e @ 47 # x" using False by (simp add: e_def)
  then show ?thesis using False assms(1-3) last_parts [OF e] unfolding path_names_def by (simp add: parts_concat parts_single strip_end_def e_def)
qed

lemma last_slash_eq: "p ! i = 47 \<Longrightarrow> (\<And>j. i < j \<Longrightarrow> j < n \<Longrightarrow> p ! j \<noteq> 47) \<Longrightarrow> i < n \<Longrightarrow> last_slash p n = Some i"
  by (induction n) (auto simp: less_Suc_eq)

lemma resolves_snoc: "resolves s n (xs @ [x]) r \<longleftrightarrow> (\<exists>m c. resolves s n xs m \<and> has_entry s m x c \<and> resolves s c [] r)"
proof (induction xs arbitrary: n)
  case Nil
  then show ?case by (auto simp: resolves_simps)
next
  case (Cons y ys)
  then show ?case by (simp add: resolves_simps(2)) blast
qed

lemma cstr_zeros: "cstr (replicate n 0) = []"
  by (cases n) simp_all

lemma parent_path:
  assumes p: "terminated p" "cstr p = d @ 47 # x" and x: "x \<noteq> []" "47 \<notin> set x" and d: "length d < 256" and b: "length x < length b"
  shows "\<exists>q. terminated q \<and> cstr q = (if d = [] then [47] else d) \<and>
    vfs_get_parent_and_child stack D (Some p) (Some b) s =
      do { (n, s1) \<leftarrow> vfs_path_to_node stack D (Some q) s; Some (n, Some (x @ 0 # drop (Suc (length x)) b), s1) }"
proof -
  obtain y where y: "p = (d @ 47 # x) @ 0 # y" using terminated_split [OF p(1)] p(2) by auto
  have z: "0 \<notin> set (d @ 47 # x)" using cstr_no_zero [of p] p(2) by simp
  have len: "strlen p = Some (Suc (length d + length x))" using p by (simp add: strlen_eq)
  have p0: "p \<noteq> []" "p ! 0 \<noteq> 0" using y z by (cases d; auto)+
  have lastx: "p ! (length d + length x) \<noteq> 47"
  proof -
    have "p ! (length d + length x) = last x" using x(1) unfolding y by (simp add: nth_append last_conv_nth nth_Cons' Suc_diff_le)
    then show ?thesis using x by (metis last_in_set)
  qed
  have ls: "last_slash p (Suc (length d + length x)) = Some (length d)"
  proof (rule last_slash_eq)
    show "p ! length d = 47" by (simp add: y nth_append)
    fix j assume j: "length d < j" "j < Suc (length d + length x)"
    then have k: "j - Suc (length d) < length x" "p ! j = (x @ 0 # y) ! (j - Suc (length d))" unfolding y by (simp_all add: nth_append nth_Cons')
    then have "p ! j \<in> set x" by (simp add: nth_append)
    then show "p ! j \<noteq> 47" using x(2) by metis
  qed simp
  have child: "put_child (Some b) (drop (Suc (length d)) p) = Some (Some (x @ 0 # drop (Suc (length x)) b))"
  proof -
    have "drop (Suc (length d)) p = x @ 0 # y" "cstr (x @ 0 # y) = x" using z by (simp_all add: y cstr_append)
    then show ?thesis using b by (simp add: put_child_def strcpy_eq)
  qed
  define q where "q = (if d = [] then 47 # 0 # replicate 254 0 else d @ replicate (256 - length d) 0)"
  have q: "terminated q" "cstr q = (if d = [] then [47] else d)" using d z by (auto simp: q_def cstr_append cstr_zeros)
  have mk: "memcpy (replicate 256 0) p (length d) = Some (d @ replicate (256 - length d) 0)" using d by (simp add: memcpy_eq y)
  have up: "(d @ replicate (256 - length d) 0)[length d := 0] = d @ replicate (256 - length d) 0" using d
    by (simp add: list_update_append) (cases "256 - length d"; simp)
  have "vfs_get_parent_and_child stack D (Some p) (Some b) s =
      do { (n, s1) \<leftarrow> vfs_path_to_node stack D (Some q) s; Some (n, Some (x @ 0 # drop (Suc (length x)) b), s1) }"
    using p0 d unfolding vfs_get_parent_and_child_def option.case len Let_def bind.simps ls
    by (simp add: lastx mk up child) (auto simp: q_def strcpy_eq)
  then show ?thesis using q by blast
qed

text \<open>Descriptors: an entry of the table that changes.\<close>

lemma count_update: "i < length xs \<Longrightarrow> count_list (xs[i := x]) f + (if xs ! i = f then 1 else 0) = count_list xs f + (if x = f then 1 else 0)"
proof (induction xs arbitrary: i)
  case (Cons a xs)
  show ?case
  proof (cases i)
    case (Suc k)
    then show ?thesis using Cons.IH [of k] Cons.prems by (simp split: if_splits)
  qed simp
qed simp

lemma count_two: "i < length xs \<Longrightarrow> j < length xs \<Longrightarrow> i \<noteq> j \<Longrightarrow> xs ! i = f \<Longrightarrow> xs ! j = f \<Longrightarrow> 2 \<le> count_list xs f"
proof (induction xs arbitrary: i j)
  case (Cons a xs)
  have "1 \<le> count_list xs f" if "k < length xs" "xs ! k = f" for k using that count_list_0_iff [of xs f] by (metis less_one linorder_not_le nth_mem)
  then show ?case using Cons by (auto simp: nth_Cons split: nat.splits)
qed simp

lemma ref_inc: "unat n + 1 < 2 ^ 32 \<Longrightarrow> unat (n + 1 :: u32) = unat n + 1"
  by (simp add: unat_add_nowrap)

text \<open>The first half of \<^verbatim>\<open>k_dup2\<close>: the file behind the new descriptor loses a reference, and is closed and freed with the last one.\<close>

definition drop_file :: "u64 \<Rightarrow> kernel \<Rightarrow> kernel option" where
  "drop_file g s =
     (let s1 = upd_file g (ref_count_update (\<lambda>n. n - 1)) s in
      if ref_count (files s1 g) = 0 then do {
        let s' = (if f_node (files s1 g) \<noteq> 0 then s1\<lparr>vfs_closed := f_node (files s1 g) # vfs_closed s1\<rparr> else s1);
        h \<leftarrow> kfree (heap s') g;
        Some (s'\<lparr>heap := h\<rparr>)
      } else Some s1)"

lemma drop_file_spec:
  assumes ok: "fds_ok root K s p" and g: "g \<in> set (file_descriptor_table (procs s p))" "g \<noteq> 0"
  shows "\<exists>h vc. drop_file g s = Some (s\<lparr>files := (files s)(g := ref_count_update (\<lambda>n. n - 1) (files s g)), heap := h, vfs_closed := vc\<rparr>) \<and> hinv root h \<and>
    kheap_blocks root h = kheap_blocks root (heap s) - (if unat (ref_count (files s g)) = 1 then {(unat g, K g)} else {}) \<and> 0 < unat (ref_count (files s g))"
proof -
  let ?n = "ref_count (files s g)"
  have blk: "(unat g, K g) \<in> kheap_blocks root (heap s)" and c: "count_list (file_descriptor_table (procs s p)) g \<le> unat ?n" and h: "hinv root (heap s)"
    using ok g by (auto simp: fds_ok_def)
  have "0 < count_list (file_descriptor_table (procs s p)) g" using g(1) count_list_0_iff by fastforce
  then have pos: "0 < unat ?n" using c by simp
  then have "?n \<noteq> 0" by auto
  then have z: "?n - 1 = 0 \<longleftrightarrow> unat ?n = 1" using ref_dec [of ?n] pos by (auto simp: word_unat_eq_iff)
  from kheap.release_law [OF h blk] obtain h' where
    h': "kfree (heap s) g = Some h'" "hinv root h'" "kheap_blocks root h' = kheap_blocks root (heap s) - {(unat g, K g)}" by blast
  have upd: "s\<lparr>files := F, heap := heap s, vfs_closed := vfs_closed s\<rparr> = s\<lparr>files := F\<rparr>" for F by simp
  show ?thesis
  proof (cases "unat ?n = 1")
    case True
    define vc where "vc = (if f_node (files s g) \<noteq> 0 then f_node (files s g) # vfs_closed s else vfs_closed s)"
    have "drop_file g s = Some (s\<lparr>files := (files s)(g := ref_count_update (\<lambda>n. n - 1) (files s g)), heap := h', vfs_closed := vc\<rparr>)"
      using z True h'(1) by (simp add: drop_file_def upd_file_def Let_def vc_def)
    then show ?thesis using True h'(2,3) by auto
  next
    case False
    then show ?thesis using z h pos upd by (intro exI [of _ "heap s"] exI [of _ "vfs_closed s"]) (simp add: drop_file_def upd_file_def Let_def)
  qed
qed

text \<open>The rest: the table and the count of the shared file.\<close>

lemma k_dup2_eq:
  fixes s :: kernel
  assumes "p \<noteq> 0" "0 \<le> oldfd" "oldfd < 32" "0 \<le> newfd" "newfd < 32" "oldfd \<noteq> newfd"
  defines "tbl \<equiv> file_descriptor_table (procs s p)"
  assumes "tbl ! nat oldfd \<noteq> 0"
  shows "k_dup2 p oldfd newfd s = do {
    s1 \<leftarrow> (if tbl ! nat newfd \<noteq> 0 then drop_file (tbl ! nat newfd) s else Some s);
    Some (newfd, upd_file (tbl ! nat oldfd) (ref_count_update (\<lambda>n. n + 1)) (upd_proc p (file_descriptor_table_update (\<lambda>t. t[nat newfd := tbl ! nat oldfd])) s1)) }"
proof -
  have u: "upd_proc p (file_descriptor_table_update (\<lambda>t. t[i := y])) (upd_proc p (file_descriptor_table_update (\<lambda>t. t[i := x])) s1) =
    upd_proc p (file_descriptor_table_update (\<lambda>t. t[i := y])) s1" for i x y s1 by (simp add: upd_proc_def o_def)
  show ?thesis using assms(1-6,8) unfolding k_dup2_def tbl_def [symmetric] Let_def
    by (simp add: drop_file_def Let_def u)
qed

lemma dup_count:
  assumes "d \<Longrightarrow> 0 < unat n" "i \<Longrightarrow> unat n + 1 < 2 ^ 32"
  shows "unat ((if d then n - 1 else n) + (if i then 1 else 0) :: u32) + (if d then 1 else 0) = unat n + (if i then 1 else 0)"
proof -
  have "unat (if d then n - 1 else n) = unat n - (if d then 1 else 0)" using assms(1) ref_dec [of n] by (cases "n = 0") auto
  then show ?thesis using assms ref_inc [of "if d then n - 1 else n"] by (cases d; cases i) auto
qed

text \<open>Numbers with sign as numbers without.\<close>

lemma uint_lt64: "uint (x :: u64) < 2 ^ 64"
  using uint_lt2p [of x] by simp

lemma neg_sint: "sint x < 0 \<Longrightarrow> uint (- x) = - sint x" for x :: u64
proof -
  assume n: "sint x < 0"
  have "- sint x \<le> 2 ^ 63" using sint_greater_eq [of x] by simp
  then have "(- sint x) mod 2 ^ 64 = - sint x" using n by (intro mod_pos_pos_trivial) simp_all
  moreover have "uint (- x) = (- uint x) mod 2 ^ 64" by (simp add: uint_word_ariths)
  moreover have "uint x = sint x mod 2 ^ 64" by (simp add: uint_sint take_bit_eq_mod)
  ultimately show ?thesis by (simp add: mod_minus_eq)
qed

lemma pos_sint: "0 \<le> sint x \<Longrightarrow> uint x = sint x" for x :: u64
proof -
  assume n: "0 \<le> sint x"
  have "sint x < 2 ^ 63" using sint_less [of x] by simp
  then show ?thesis unfolding uint_sint using n by (simp add: take_bit_int_eq_self)
qed

lemma seek_limit: "offset > 0xFFFFFFFFFFFFFFFF - base \<longleftrightarrow> \<not> uint base + uint offset < 2 ^ 64" for offset base :: u64
proof -
  have "base \<le> 0xFFFFFFFFFFFFFFFF" using uint_lt64 [of base] by (simp add: word_le_def)
  then have "uint (0xFFFFFFFFFFFFFFFF - base) = 0xFFFFFFFFFFFFFFFF - uint base" by (simp add: uint_minus_simple_alt)
  then show ?thesis unfolding word_less_def by auto
qed

text \<open>The first empty slot.\<close>

lemma fill_slot_spec: "0 \<in> set xs \<Longrightarrow> \<exists>as bs. xs = as @ 0 # bs \<and> 0 \<notin> set as \<and> fill_slot x xs = Some (as @ x # bs)"
proof (induction xs)
  case (Cons a xs)
  show ?case
  proof (cases "a = 0")
    case True
    then show ?thesis by (intro exI [of _ "[]"] exI [of _ xs]) simp
  next
    case False
    then obtain as bs where "xs = as @ 0 # bs" "0 \<notin> set as" "fill_slot x xs = Some (as @ x # bs)" using Cons by auto
    then show ?thesis using False by (intro exI [of _ "a # as"] exI [of _ bs]) simp
  qed
qed simp

lemma clear_device_append: "(\<And>a. a \<in> set as \<Longrightarrow> a = 0 \<or> dev_id (d a) \<noteq> i) \<Longrightarrow> clear_device d i (as @ xs) = map_option ((@) as) (clear_device d i xs)"
  by (induction as) (auto simp: option.map_comp o_def map_option_case split: option.splits)

lemma find_skip: "(\<And>a. a \<in> set as \<Longrightarrow> \<not> P a) \<Longrightarrow> List.find P (as @ xs) = List.find P xs"
  by (induction as) auto

lemma find_agree: "(\<And>a. a \<in> set xs \<Longrightarrow> P a = Q a) \<Longrightarrow> List.find P xs = List.find Q xs"
  by (induction xs) auto

section \<open>Properties\<close>


text \<open>The directory and the last name of a path. For a path that ends in a name other than the dot, \<^verbatim>\<open>vfs_get_parent_and_child\<close> stores this
  name in the buffer of the caller and returns the node of the directory in front of it: the path leads where the name leads from this directory.\<close>

theorem vfs_parent_and_child:
  assumes tr: "tree_ok s X" "g_vfs_root s \<in> X" and p: "terminated p" "cstr p = d @ 47 # x"
    and x: "x \<noteq> []" "47 \<notin> set x" "x \<noteq> [46]" and d: "d = [] \<or> last d \<noteq> 47" "length d < 256" and b: "length x < length b" "length stack = 512"
  shows "\<exists>m. vfs_get_parent_and_child stack (ram_drivers D) (Some p) (Some b) s = Some (m, Some (x @ 0 # drop (Suc (length x)) b), s) \<and>
    (\<forall>r. resolves s (g_vfs_root s) (path_names (cstr p)) r \<longleftrightarrow> (\<exists>c. m \<noteq> 0 \<and> has_entry s m x c \<and> resolves s c [] r))"
proof -
  obtain q where q: "terminated q" "cstr q = (if d = [] then [47] else d)"
    "vfs_get_parent_and_child stack (ram_drivers D) (Some p) (Some b) s =
      do { (n, s1) \<leftarrow> vfs_path_to_node stack (ram_drivers D) (Some q) s; Some (n, Some (x @ 0 # drop (Suc (length x)) b), s1) }"
    using parent_path [OF p x(1,2) d(2) b(1), of stack "ram_drivers D" s] by blast
  have l: "cstr q \<noteq> []" "length (cstr q) < 512" using q(2) d(2) by auto
  have "path_names (cstr q) = (if d = [] then [] else path_names d)" using q(2) by (simp add: path_names_def strip_end_def)
  then have n: "path_names (cstr p) = path_names (cstr q) @ [x]" unfolding p(2) using path_names_snoc [OF x d(1)] by simp
  have z: "\<forall>y \<in> set (path_names (cstr q)). 0 \<notin> set y" using path_names_set [of _ "cstr q"] cstr_no_zero [of q] by blast
  note m = ram.path_to_node_spec [OF tr q(1) l b(2), of D] and w = walk_resolves [OF tr z]
  show ?thesis unfolding q(3) m n resolves_snoc w by auto
qed

text \<open>C40: Positions. \<^verbatim>\<open>vfs_seek\<close> computes the position exactly: if the base, which is the start, the current position or the size of the file, plus the offset
  with its sign is a number of 64 bits it becomes the position and is returned; otherwise the result is -1 and nothing changes. No sum wraps around.\<close>

theorem vfs_seek_exact:
  fixes offset :: u64
  assumes "f \<noteq> 0" "f_node (files (fkrn s) f) \<noteq> 0" "vfs_resolve_mountpoint (f_node (files (fkrn s) f)) s = Some n" "n \<noteq> 0"
    and "seek_base (files (fkrn s) f) (nodes s n) whence = Some base"
  defines "z \<equiv> uint base + sint offset"
  shows "vfs_seek f offset whence s =
    (if 0 \<le> z \<and> z < 2 ^ 64 then Some (of_int z, s\<lparr>fkrn := upd_file f (f_offset_update (\<lambda>_. of_int z)) (fkrn s)\<rparr>) else Some (-1, s))"
proof (cases "offset <s 0")
  case True
  then have neg: "sint offset < 0" by (simp add: word_sless_alt)
  have m: "- (offset + 1) + 1 = - offset" by simp
  have u: "uint (- offset) = - sint offset" using neg_sint [OF neg] .
  have "- offset > base \<longleftrightarrow> z < 0" unfolding word_less_def u z_def by auto
  moreover have "z < 2 ^ 64" using neg uint_lt64 [of base] by (simp add: z_def)
  moreover have "base - - offset = of_int z" by (simp add: z_def)
  ultimately show ?thesis using True assms(1-5) by (simp add: vfs_seek_def Let_def m)
next
  case False
  then have pos: "0 \<le> sint offset" by (simp add: word_sless_alt)
  have u: "uint offset = sint offset" using pos_sint [OF pos] .
  have "offset > 0xFFFFFFFFFFFFFFFF - base \<longleftrightarrow> \<not> z < 2 ^ 64" using seek_limit [of base offset] by (simp add: z_def u)
  moreover have "0 \<le> z" using pos by (simp add: z_def)
  moreover have "base + offset = of_int z" by (simp add: z_def)
  ultimately show ?thesis using False assms(1-5) by (simp add: vfs_seek_def Let_def)
qed


text \<open>Registration of block devices: while a slot is free and no device has the next number, a device that is registered is found under the number
  that is returned, every other number finds what it found before, and removing the number restores the table.\<close>

theorem block_device_registered:
  assumes dev: "dev \<noteq> 0" "dev \<notin> set (g_block_devices v)" "0 \<in> set (g_block_devices v)"
    and fresh: "\<forall>a \<in> set (g_block_devices v) - {0}. dev_id (devices v a) \<noteq> g_next_device_id v"
  defines "i \<equiv> g_next_device_id v"
  shows "\<exists>v1 v2. register_block_device dev v = (sint i, v1) \<and> block_get_device_by_index i v1 = dev \<and>
    (\<forall>j. j \<noteq> i \<longrightarrow> block_get_device_by_index j v1 = block_get_device_by_index j v) \<and>
    unregister_block_device i v1 = (0, v2) \<and> g_block_devices v2 = g_block_devices v"
proof -
  obtain as bs where s: "g_block_devices v = as @ 0 # bs" "0 \<notin> set as" "fill_slot dev (g_block_devices v) = Some (as @ dev # bs)"
    using fill_slot_spec [OF dev(3), of dev] by blast
  let ?d = "(devices v)(dev := (devices v dev)\<lparr>dev_id := i\<rparr>)"
  let ?v = "v\<lparr>devices := ?d, g_next_device_id := i + 1, g_block_devices := as @ dev # bs\<rparr>"
  have r: "register_block_device dev v = (sint i, ?v)" using dev(1) s(3) by (simp add: register_block_device_def Let_def i_def)
  have other: "dev_id (?d a) = dev_id (devices v a)" "a = 0 \<or> dev_id (?d a) \<noteq> i" if "a \<in> set as \<union> set bs" for a
    using that dev(2) fresh s(1) by (auto simp: i_def)
  have "block_get_device_by_index i ?v = dev"
    using other(2) dev(1) find_skip [of as "\<lambda>a. a \<noteq> 0 \<and> dev_id (?d a) = i" "dev # bs"] by (auto simp: block_get_device_by_index_def)
  moreover have "block_get_device_by_index j ?v = block_get_device_by_index j v" if "j \<noteq> i" for j
  proof -
    have "List.find (\<lambda>a. a \<noteq> 0 \<and> dev_id (?d a) = j) (as @ dev # bs) = List.find (\<lambda>a. a \<noteq> 0 \<and> dev_id (?d a) = j) (as @ 0 # bs)"
      using that by (induction as) auto
    also have "\<dots> = List.find (\<lambda>a. a \<noteq> 0 \<and> dev_id (devices v a) = j) (as @ 0 # bs)" using other(1) dev(2) s(1) by (intro find_agree) (auto simp: fun_upd_def)
    finally show ?thesis by (simp add: block_get_device_by_index_def s(1))
  qed
  moreover have "clear_device ?d i (as @ dev # bs) = Some (as @ 0 # bs)" using clear_device_append [of as ?d i "dev # bs"] other(2) dev(1) by auto
  ultimately show ?thesis using r by (auto simp: unregister_block_device_def s(1))
qed

text \<open>A successful \<^verbatim>\<open>vfs_mount\<close> redirects the node that the path leads to: every later operation on it goes to the root that the driver returned.\<close>

theorem vfs_mount_redirects:
  assumes "vfs_mount stack D device_name mount_path fs_type v = Some (0, v')"
  shows "\<exists>t s1 drv dev r s2. vfs_path_to_node stack D mount_path (vsys v) = Some (t, s1) \<and> t \<noteq> 0 \<and> n_flags (nodes s1 t) AND VFS_DIRECTORY \<noteq> 0 \<and>
    drv \<in> set (g_registered_filesystems v) \<and> fs_mount (filesystems v drv) dev (the mount_path) s1 = Some (r, s2) \<and> r \<noteq> 0 \<and>
    vfs_resolve_mountpoint t (vsys v') = Some r"
proof -
  have sn: "search_name nm x xs = Some a \<Longrightarrow> a \<noteq> 0 \<Longrightarrow> a \<in> set xs" for nm x xs a
    by (induction xs) (auto simp: bind_eq_Some_conv split: if_splits)
  obtain dev drv t s1 r s2 m s3 where r: "search_name (\<lambda>a. the (fs_name (filesystems v a))) (the fs_type) (g_registered_filesystems v) = Some drv" "drv \<noteq> 0"
    "vfs_path_to_node stack D mount_path (vsys v) = Some (t, s1)" "t \<noteq> 0" "n_flags (nodes s1 t) AND VFS_DIRECTORY \<noteq> 0"
    "fs_mount (filesystems v drv) dev (the mount_path) s1 = Some (r, s2)" "r \<noteq> 0" "m \<noteq> 0"
    "v' = v\<lparr>vsys := (upd_node t (\<lambda>n. n\<lparr>ptr_mount := r, n_flags := n_flags n OR VFS_MOUNTPOINT\<rparr>) s3)\<lparr>mounts := (mounts s3)(m := \<lparr>mountpoint = t, fs_root = r, m_next = g_mount_list s3\<rparr>), g_mount_list := m\<rparr>\<rparr>"
    using assms by (auto simp: vfs_mount_def Let_def bind_eq_Some_conv split: if_splits)
  have "(x OR VFS_MOUNTPOINT) AND VFS_MOUNTPOINT \<noteq> 0" for x :: u32 by (simp add: bit.conj_disj_distrib2)
  then have "vfs_resolve_mountpoint t (vsys v') = Some r" using r(4,8) unfolding r(9) by (simp add: vfs_resolve_mountpoint_def mount_search.simps)
  then show ?thesis using r(3-7) sn [OF r(1,2)] by blast
qed

section \<open>Defects\<close>

lemma strncpy_short: "length x < n \<Longrightarrow> strncpy d x n = None"
  by (induction d x n rule: strncpy.induct) auto

text \<open>Creating a file by opening it: the name is passed in an array of 64 bytes, of which the memory file system copies 255.\<close>

theorem vfs_open_create_overreads:
  assumes tr: "tree_ok s X" "g_vfs_root s \<in> X" and p: "terminated p" "cstr p = d @ 47 # x"
    and x: "x \<noteq> []" "47 \<notin> set x" "x \<noteq> [46]" "length x < 64" and d: "d = [] \<or> last d \<noteq> 47" "length d < 256"
    and st: "length stack1 = 512" "length stack2 = 512" and fl: "flags AND O_CREAT \<noteq> 0" and mem: "froom k s" "384 \<le> k"
    and par: "resolves s (g_vfs_root s) (path_names (if d = [] then [47] else d)) m" "m \<in> X" and new: "\<nexists>c. has_entry s m x c"
  shows "vfs_open stack1 stack2 (ram_drivers D) (Some p) flags s = None"
proof -
  obtain q where q: "terminated q" "cstr q = (if d = [] then [47] else d)"
    "vfs_get_parent_and_child stack1 (ram_drivers D) (Some p) (Some (replicate 64 0)) s =
      do { (n, s1) \<leftarrow> vfs_path_to_node stack1 (ram_drivers D) (Some q) s; Some (n, Some (x @ 0 # drop (Suc (length x)) (replicate 64 0)), s1) }"
    using parent_path [OF p x(1,2) d(2), of "replicate 64 0" stack1 "ram_drivers D" s] x(4) by (auto simp: conj_commute)
  have l: "cstr q \<noteq> []" "length (cstr q) < 512" "cstr p \<noteq> []" "length (cstr p) < 512" using q(2) p(2) d(2) x(4) by auto
  have z: "\<forall>y \<in> set (path_names (cstr a)). 0 \<notin> set y" for a using path_names_set [of _ "cstr a"] cstr_no_zero [of a] by blast
  note par_q = par(1) [folded q(2)]
  have "ram.walk s (g_vfs_root s) (path_names (cstr q)) = m \<and> m \<noteq> 0" using walk_resolves [OF tr z [of q]] par_q by blast
  then have m: "vfs_path_to_node stack1 (ram_drivers D) (Some q) s = Some (m, s)" "m \<noteq> 0" using ram.path_to_node_spec [OF tr q(1) l(1,2) st(1), of D] by simp_all
  have nm: "path_names (cstr p) = path_names (cstr q) @ [x]" using path_names_snoc [OF x(1-3) d(1)] p(2) q(2) by (auto simp: path_names_def strip_end_def)
  have "\<not> resolves s (g_vfs_root s) (path_names (cstr p)) r" for r
    unfolding nm resolves_snoc using walk_resolves [OF tr z [of q]] par_q new by metis
  then have f: "vfs_path_to_node stack2 (ram_drivers D) (Some p) s = Some (0, s)"
    using ram.path_to_node_spec [OF tr p(1) l(3,4) st(2), of D] walk_resolves [OF tr z [of p]] by metis
  let ?name = "x @ 0 # drop (Suc (length x)) (replicate 64 0)"
  have x0: "0 \<notin> set x" using cstr_no_zero [of p] p(2) by simp
  have cn: "terminated ?name" "cstr ?name = x" using x0 by (simp_all add: cstr_append)
  have ops: "n_ops (nodes s m) = Some g_ramfs_ops" using tr(1) par(2) by (simp add: tree_ok_def)
  have fd: "ramfs_finddir m (Some ?name) s = Some 0" using ram_lookup(1,2) [OF tr(1) par(2) cn(1)] cn(2) new by metis
  obtain a h where km: "fs_kmalloc SIZEOF_NODE s = Some (a, set_fheap h s)" "a \<noteq> 0" using fs_kmalloc_spec [OF mem(1), of SIZEOF_NODE] mem(2) by (auto simp: round16_def)
  have n0: "?name \<noteq> []" "?name ! 0 \<noteq> 0" "length ?name < 255" using x x0 by (cases x; auto)+
  have cr: "ramfs_create m (Some ?name) perms s = None" for perms
    using m(2) n0(1,2) fd km strncpy_short [OF n0(3)] by (simp add: ramfs_create_def ramfs_create_object_def Let_def)
  have p0: "p \<noteq> []" "p ! 0 \<noteq> 0" using p l(3) by (cases p; auto)+
  show ?thesis using p0 q(3) m f fl cr ops unfolding vfs_open_def by (simp add: node_op_def ram_drivers_def ramfs_dir_ops_def Let_def)
qed

text \<open>Unmounting never succeeds: the resolution of the path passes the mount point, and the node that is found, the root of the mounted file
  system, is not marked as one. Instead this node is freed, while the table of mounts still refers to it.\<close>

theorem vfs_umount_frees_root:
  assumes tr: "tree_ok (vsys v) X" "g_vfs_root (vsys v) \<in> X" and p: "terminated p" "cstr p \<noteq> []" "length (cstr p) < 512" "length stack = 512"
    and m: "resolves (vsys v) (g_vfs_root (vsys v)) (path_names (cstr p)) m" "n_flags (nodes (vsys v) m) AND VFS_MOUNTPOINT = 0" "m \<noteq> g_vfs_root (vsys v)"
    and mem: "froom k (vsys v)" "m \<in> fptrs (vsys v)"
  shows "\<exists>h. vfs_umount stack (ram_drivers D) (Some p) v = Some (-2, v\<lparr>vsys := set_fheap h (vsys v)\<rparr>) \<and>
    heap_ptrs (fcr3 (vsys v)) h = fptrs (vsys v) - {m}"
proof -
  have "\<forall>y \<in> set (path_names (cstr p)). 0 \<notin> set y" using path_names_set [of _ "cstr p"] cstr_no_zero [of p] by blast
  from walk_resolves [OF tr this] ram.path_to_node_spec [OF tr p, of D] m(1)
  have "vfs_path_to_node stack (ram_drivers D) (Some p) (vsys v) = Some (m, vsys v)" "m \<noteq> 0" by simp_all
  then show ?thesis using fs_kfree_spec [OF mem] m(2,3) by (auto simp: vfs_umount_def Let_def)
qed

section \<open>Witnesses\<close>

text \<open>The root with the directory \<open>a\<close>, on which a file system with the file \<open>b\<close> is mounted.\<close>

definition tree_demo :: fsys where
  "tree_demo = fs_demo\<lparr>nodes := (\<lambda>_. node0)(
       0x100 := node0\<lparr>n_flags := VFS_DIRECTORY, inode := 1, n_ops := Some g_ramfs_ops, private_data := 0x10\<rparr>,
       0x200 := node0\<lparr>n_name := name_demo 97, n_flags := 34, inode := 2, n_ops := Some g_ramfs_ops, ptr_mount := root_demo\<rparr>,
       root_demo := node0\<lparr>n_flags := VFS_DIRECTORY, inode := 3, n_ops := Some g_ramfs_ops, private_data := 0x20\<rparr>,
       0x300 := node0\<lparr>n_name := name_demo 98, n_flags := VFS_FILE, inode := 4, n_ops := Some g_ramfs_ops, n_size := 9\<rparr>),
     entries := (\<lambda>_. \<lparr>e_node = 0, e_next = 0\<rparr>)(0x10 := \<lparr>e_node = 0x200, e_next = 0\<rparr>, 0x20 := \<lparr>e_node = 0x300, e_next = 0\<rparr>),
     mounts := (\<lambda>_. \<lparr>mountpoint = 0x200, fs_root = root_demo, m_next = 0\<rparr>), g_mount_list := 0x50, g_vfs_root := 0x100\<rparr>"

lemma tree_demo_resolve:
  "vfs_resolve_mountpoint 0x100 tree_demo = Some 0x100" "vfs_resolve_mountpoint 0x200 tree_demo = Some root_demo"
  "vfs_resolve_mountpoint root_demo tree_demo = Some root_demo" "vfs_resolve_mountpoint 0x300 tree_demo = Some 0x300"
  by (simp_all add: vfs_resolve_mountpoint_def tree_demo_def mount_search.simps)

lemma tree_demo_entries:
  "entry_chain tree_demo (private_data (nodes tree_demo 0x100)) [0x10]" "entry_chain tree_demo (private_data (nodes tree_demo 0x200)) []"
  "entry_chain tree_demo (private_data (nodes tree_demo root_demo)) [0x20]"
  "ename tree_demo 0x10 = [97]" "ename tree_demo 0x20 = [98]" "e_node (entries tree_demo 0x10) = 0x200" "e_node (entries tree_demo 0x20) = 0x300"
  by (simp_all add: tree_demo_def ename_def name_demo_def node0_def)

lemma tree_demo_flags:
  "n_flags (nodes tree_demo 0x100) AND VFS_DIRECTORY \<noteq> 0" "n_flags (nodes tree_demo root_demo) AND VFS_DIRECTORY \<noteq> 0" "n_flags (nodes tree_demo 0x300) AND VFS_DIRECTORY = 0"
  by (simp_all add: tree_demo_def)

lemma tree_demo_ok: "tree_ok tree_demo {0x100, 0x200, 0x300, root_demo}"
proof -
  let ?X = "{0x100, 0x200, 0x300, root_demo} :: u64 set"
  have "entry_ok tree_demo ?X 0x10" "entry_ok tree_demo ?X 0x20"
    using tree_demo_entries by (simp_all add: entry_ok_def Let_def) (simp_all add: tree_demo_def name_demo_def)
  moreover note tree_demo_flags(3)
  moreover have "n_ops (nodes tree_demo n) = Some g_ramfs_ops" if "n \<in> ?X" for n using that by (auto simp: tree_demo_def)
  ultimately show ?thesis unfolding tree_ok_def using tree_demo_resolve tree_demo_entries
    by (auto intro: exI [of _ "[0x10]"] exI [of _ "[0x20]"] exI [of _ "[]"])
qed

lemma tree_demo_has: "has_entry tree_demo 0x100 [97] 0x200" "has_entry tree_demo root_demo [98] 0x300"
  unfolding has_entry_def
  by (intro conjI exI [of _ "[0x10]"] bexI [of _ "0x10"]; simp only: tree_demo_entries tree_demo_flags list.set insertI1 not_False_eq_True)
    (intro conjI exI [of _ "[0x20]"] bexI [of _ "0x20"]; simp only: tree_demo_entries tree_demo_flags list.set insertI1 not_False_eq_True)


theorem vfs_seek_exact_witness:
  "(\<exists>t. vfs_seek 0x900 5 VFS_SEEK_SET tree_demo = Some (5, t) \<and> f_offset (files (fkrn t) 0x900) = 5) \<and> vfs_seek 0x900 (-1) VFS_SEEK_CUR tree_demo = Some (-1, tree_demo)"
proof -
  have f: "f_node (files (fkrn tree_demo) 0x900) = 0x77" "f_offset (files (fkrn tree_demo) 0x900) = 0" by (simp_all add: tree_demo_def fs_demo_def kernel_demo_def)
  have r: "vfs_resolve_mountpoint 0x77 tree_demo = Some 0x77" by (simp add: vfs_resolve_mountpoint_def tree_demo_def node0_def)
  have b: "seek_base (files (fkrn tree_demo) 0x900) (nodes tree_demo 0x77) VFS_SEEK_SET = Some 0" "seek_base (files (fkrn tree_demo) 0x900) (nodes tree_demo 0x77) VFS_SEEK_CUR = Some 0"
    using f by (simp_all add: seek_base_def)
  show ?thesis using vfs_seek_exact [OF _ _ _ _ b(1), of 5] vfs_seek_exact [OF _ _ _ _ b(2), of "-1"] f r by (simp add: upd_file_def)
qed


theorem vfs_umount_frees_root_witness:
  "\<exists>h. vfs_umount (replicate 512 9) (ram_drivers (\<lambda>_. ramfs_dir_ops)) (Some [47, 97, 0])
       \<lparr>vsys = tree_demo, g_registered_filesystems = [], filesystems = (\<lambda>_. \<lparr>fs_name = None, fs_mount = (\<lambda>_ _ _. None), fs_unmount = None, fs_root_node = 0\<rparr>),
        g_block_devices = [], devices = (\<lambda>_. \<lparr>dev_name = [], dev_id = 0\<rparr>), g_next_device_id = 0\<rparr> =
     Some (-2, \<lparr>vsys = set_fheap h tree_demo, g_registered_filesystems = [], filesystems = (\<lambda>_. \<lparr>fs_name = None, fs_mount = (\<lambda>_ _ _. None), fs_unmount = None, fs_root_node = 0\<rparr>),
        g_block_devices = [], devices = (\<lambda>_. \<lparr>dev_name = [], dev_id = 0\<rparr>), g_next_device_id = 0\<rparr>)"
proof -
  let ?v = "\<lparr>vsys = tree_demo, g_registered_filesystems = [], filesystems = (\<lambda>_. \<lparr>fs_name = None, fs_mount = (\<lambda>_ _ _. None), fs_unmount = None, fs_root_node = 0\<rparr>),
        g_block_devices = [], devices = (\<lambda>_. \<lparr>dev_name = [], dev_id = 0\<rparr>), g_next_device_id = 0\<rparr>"
  let ?p = "[47, 97, 0] :: u8 list"
  have r: "g_vfs_root tree_demo = 0x100" by (simp add: tree_demo_def)
  have n: "path_names (cstr ?p) = [[97]]" "terminated ?p" "cstr ?p \<noteq> []" "length (cstr ?p) < 512" by (simp_all add: path_names_def strip_end_def)
  have res: "resolves tree_demo 0x100 [[97]] root_demo"
    by (rule resolves.down [OF tree_demo_resolve(1) tree_demo_has(1) resolves.here [OF tree_demo_resolve(2)]])
  have mem: "froom 3968 tree_demo" "root_demo \<in> fptrs tree_demo" using fs_demo_dir(1,3) by (simp_all add: tree_demo_def dir_inv_def)
  have fl: "n_flags (nodes (vsys ?v) root_demo) AND VFS_MOUNTPOINT = 0" "root_demo \<noteq> g_vfs_root (vsys ?v)" by (simp_all add: tree_demo_def)
  have X: "tree_ok (vsys ?v) {0x100, 0x200, 0x300, root_demo}" "g_vfs_root (vsys ?v) \<in> {0x100, 0x200, 0x300, root_demo}" using tree_demo_ok r by simp_all
  have res': "resolves (vsys ?v) (g_vfs_root (vsys ?v)) (path_names (cstr ?p)) root_demo" unfolding n(1) using res r by simp
  have mem': "froom 3968 (vsys ?v)" "root_demo \<in> fptrs (vsys ?v)" using mem by simp_all
  from vfs_umount_frees_root [OF X n(2-4) _ res' fl mem', of "replicate 512 9" "\<lambda>_. ramfs_dir_ops"] show ?thesis by auto
qed

end
