(* ===== verification/Spec2Isabelle.thy ===== *)
theory Spec2Isabelle
  imports Shm Exit Local Cache Vfs
begin

text \<open>
  Verification of the kernel of Sirius Education, a 64-bit teaching operating system (\<^verbatim>\<open>src/kernel/\<close>). The development
  follows the kernel from the page frames up to the sockets.

  \<^bold>\<open>The parts and how they use each other.\<close> The page allocator hands out frames; the virtual memory manager builds page
  tables from them; the heap grows by mapping fresh pages; the pool and the shared memory window are bitmaps over a virtual range,
  backed by frames. Processes own an address space and open files; the scheduler moves their threads between the ready
  queues of the cores, and ends a process by giving its frames, files and stacks back. The network stack allocates its buffers on the
  heap and wakes threads through the scheduler. A packet goes from the driver into a ring, from there by the receive thread to
  the raw sockets and to ARP or IP, from IP to ICMP, UDP or TCP, and into the ring of a socket, where a thread waits for it.

  \<^bold>\<open>Theories and sources.\<close>
  \<^item> \<open>Prelude\<close>: machine integers, lemma collections, bit arrays, the first-fit scan, linked lists in a store. \<open>Ring\<close>: ring buffers.
  \<^item> \<open>Pmm\<close>: \<^verbatim>\<open>kernel/mm/pmm.c\<close>. State \<open>pmm\<close> is the bitmap; the abstract view is the set of free frames.
  \<^item> \<open>Vmm\<close>: \<^verbatim>\<open>arch/x86_64/mm/vmm.c\<close>, \<^verbatim>\<open>vmm_scratch_window.c\<close>. State \<open>vmm\<close> is physical memory and the page allocator; the
    abstract view is the walk along a path of table indices.
  \<^item> \<open>Heap\<close>: \<^verbatim>\<open>kernel/mm/heap.c\<close>. Block headers live in the memory of the heap; the abstract view is the list of blocks.
  \<^item> \<open>Window\<close>, \<open>Pool\<close>, \<open>Shm\<close>: \<^verbatim>\<open>kernel/mm/pool.c\<close> and \<^verbatim>\<open>kernel/mm/shm.c\<close>, two instances of one bitmap window.
  \<^item> \<open>Flush\<close>, \<open>Process\<close>: \<^verbatim>\<open>kernel/sched/process.c\<close> and the structures of processes, threads, cores and files.
  \<^item> \<open>Sched\<close>, \<open>Exit\<close>: \<^verbatim>\<open>kernel/sched/scheduler.c\<close>, \<^verbatim>\<open>wait.c\<close>, \<^verbatim>\<open>wakeup.c\<close>. The state \<open>kernel\<close> holds the stores of threads,
    processes, cores and files and the heap.
  \<^item> \<open>Net\<close>: headers, interfaces, driver calls and the ring of received packets of \<^verbatim>\<open>kernel/net/net.c\<close>. The state \<open>net\<close> extends
    the kernel state by buffers, sockets, the cache of addresses and the frames handed to the driver.
  \<^item> \<open>Arp\<close>: \<^verbatim>\<open>arp.c\<close>, \<^verbatim>\<open>ethernet.c\<close>. \<open>Ip\<close>: \<^verbatim>\<open>ip.c\<close>, \<^verbatim>\<open>icmp.c\<close>. \<open>Sock\<close>: \<^verbatim>\<open>socket.c\<close>. \<open>Udp\<close>: \<^verbatim>\<open>udp.c\<close>, \<^verbatim>\<open>dhcp.c\<close>, \<^verbatim>\<open>dhcp_init.c\<close> and the
    reception of \<^verbatim>\<open>af_inet.c\<close>. \<open>Tcp\<close>: \<^verbatim>\<open>tcp.c\<close> and the connections of \<^verbatim>\<open>af_inet.c\<close>. \<open>Raw\<close>: \<^verbatim>\<open>pf_packet.c\<close> and the loop of
    \<^verbatim>\<open>network_rx_thread\<close>. \<open>Local\<close>: \<^verbatim>\<open>af_local.c\<close> and \<^verbatim>\<open>socket_vfs_close\<close>.
  \<^item> \<open>Str\<close>: \<^verbatim>\<open>lib/string.c\<close>. \<open>Ramfs\<close>: \<^verbatim>\<open>fs/ramfs/ramfs.c\<close>. The state \<open>fsys\<close> holds the stores of nodes, directory entries and file
    buffers over the kernel heap; the abstract view of a directory is a map from names to objects.
  \<^item> \<open>Fat\<close>, \<open>Fatdir\<close>: \<^verbatim>\<open>fs/fat/fat32.c\<close>, the table of clusters with the data of files, and directories with the rest of the driver. The
    state \<open>medium\<close> is the sectors of the device and the buffers taken; which requests fail is an argument. The abstract view of a file is its
    bytes along a chain of clusters, that of a directory the list of its names.
  \<^item> \<open>Cache\<close>: the page cache of \<^verbatim>\<open>fs/vfs/vfs.c\<close>, with reading, writing, flushing and closing of an open node. The state \<open>vfile\<close> is the node, its pages
    and the medium; the abstract view is the list of the bytes of the file.
  \<^item> \<open>Vfs\<close>: the rest of \<^verbatim>\<open>fs/vfs/vfs.c\<close>, with \<^verbatim>\<open>vfs_dup2.c\<close> and the catalogue of \<^verbatim>\<open>drivers/storage/block.c\<close>: paths, opening, operations on directories,
    positions, descriptors, mounting. The tables of drivers and devices (\<open>vfs_tables\<close>) extend the state \<open>fsys\<close>; the abstract view of a path is a list of names.

  \<^bold>\<open>What is shown.\<close>
  \<^item> Memory: first fit and the exact set of free frames; a mapped page translates to its frame and no other page changes; the
    heap takes the best fit, its blocks never overlap, and every run of allocations and releases keeps the list intact;
    releasing what was allocated restores the free set.
  \<^item> Processes: the release of an address space gives back exactly the frames of its user half; the ready queues are queues; task
    switching is round robin; every step of the scheduler keeps the threads and queues consistent; a ready thread runs after as
    many switches as there are threads in front of it; a wakeup between marking a thread and switching is not lost.
  \<^item> Network: the ring, the cache of addresses, the checksums, the queues of datagrams, streams and raw frames are related to
    their abstract counterparts; a datagram, a connection and the bytes of a stream are followed from one host through the frame
    on the wire to the other; bound ports are exclusive; the peers of local sockets are mutual in every reachable state.
  \<^item> Files: every sequence of operations on a directory of the memory file system returns what a map from names to files gives, what
    was written is read back, and removing a file releases what creating it allocated.
  \<^item> Disk: a write replaces exactly its range of the bytes of the file, appends free clusters where the chain ends and leaves every other chain
    alone; a read returns a prefix of what is asked for, whatever fails; allocation takes the lowest free cluster; freeing a chain ends even
    when it is cyclic; a new file is found under its name, and a long name is read back as it was stored.
  \<^item> Page cache: every sequence of reads, writes and flushes on an open file of a FAT32 volume with enough room returns what the same
    sequence gives on a list of bytes, whether a block is in the cache or transferred directly.
  \<^item> Names: a path leads to the node that its names lead to, through mount points; positions are computed without wrap-around; duplicating a
    descriptor keeps the reference counts exact.
  \<^item> Deviations from what the code means to do are theorems about the same definitions (for example \<open>packet_input_only_head\<close>,
    \<open>tcp_duplicate_delivered\<close>, \<open>closed_client_stays_queued\<close>).

  \<^bold>\<open>Interfaces.\<close> \<open>frame_allocator\<close> (\<open>Pmm\<close>), \<open>address_space\<close> (\<open>Vmm\<close>), \<open>block_allocator\<close> (\<open>Heap\<close>), \<open>page_window\<close> (\<open>Window\<close>,
  interpreted by \<open>Pool\<close> and \<open>Shm\<close>), \<open>registry\<close> (\<open>Process\<close>), \<open>fifo\<close> (\<open>Sched\<close>), \<open>neighbour_cache\<close> (\<open>Arp\<close>), \<open>directory_service\<close> (\<open>Ramfs\<close>), \<open>block_store\<close> (\<open>Cache\<close>, interpreted by the FAT32 driver), \<open>lookup_service\<close> (\<open>Vfs\<close>, interpreted by the memory file system)
  state what a part promises;
  each is interpreted on the model of that part.

  \<^bold>\<open>Conventions.\<close> \<open>None\<close> is undefined behaviour of the C code or a loop without end; error codes are values. There is no fuel: loops
  over linked lists are partial functions, and the theorems show that they return, because the invariants make the lists finite
  and acyclic. Integers have the width of the C types. Code that holds a spin lock is one step. A thread that waits ends the pass
  of its operation with \<open>Waits\<close> or \<open>None\<close> in the result, and runs the pass again after a wakeup.

  \<^bold>\<open>Not modelled.\<close> The boot code, the descriptor tables, interrupt controllers, timers and the assembly of the context switch,
  because their behaviour is that of the hardware; device drivers (the network driver is the result of its transmit function, the disk a store of sectors); the
  scan of partitions, the files of terminals, system call dispatch, process creation, kernel modules and console
  output; the user programs. Of the modelled files: the deep copy of an address space, the file layer of the sockets except closing, and console messages.
\<close>

end
